(* ===== verification/XSB_Prelude.thy ===== *)
theory XSB_Prelude imports Main "HOL-Library.Word" begin

text \<open>
  What every component shares: the error values (each way in which an operation of
  the emulator can fail or leave the defined behaviour of C is one constructor), the
  sequencing of fallible operations, C integer arithmetic with its wrap-around, and
  the collections of rewrite rules that carry the component proofs.

  C \<open>int\<close> and \<open>Integer\<close> values are \<^typ>\<open>int\<close> with the wrap-around of a two's complement
  machine written out (\<open>wrap32\<close>, \<open>wrap64\<close>); \<open>char\<close> conversions are \<open>to_byte\<close> and
  \<open>to_char\<close>.
\<close>

named_theorems stream_simps \<open>how the input operations move a stream\<close>
named_theorems graph_simps \<open>frame rules of the dependency graph operations\<close>
named_theorems hash_simps \<open>hash table contents after an operation\<close>

section \<open>Errors as values\<close>

datatype xsb_error =
    Syntax_Error string      \<comment> \<open>xsb_syntax_error: thrown to the Prolog handler\<close>
  | Xsb_Abort string         \<comment> \<open>xsb_abort\<close>
  | Xsb_Bug string           \<comment> \<open>xsb_bug\<close>
  | Table_Error string       \<comment> \<open>xsb_new_table_error\<close>
  | Resource_Error string     \<comment> \<open>xsb_resource_error\<close>
  | Instantiation_Error string \<comment> \<open>xsb_instantiation_error\<close>
  | Existence_Error string    \<comment> \<open>xsb_existence_error\<close>
  | Out_Of_Bounds int        \<comment> \<open>an array access outside the array: undefined in C\<close>
  | Buffer_Overflow          \<comment> \<open>a write past the allocated buffer: undefined in C\<close>
  | Null_Pointer             \<comment> \<open>a null pointer is followed: undefined in C\<close>
  | Dangling_Pointer nat     \<comment> \<open>a structure is followed after its deallocation\<close>
  | Division_By_Zero         \<comment> \<open>undefined in C\<close>

type_synonym 'a res = "xsb_error + 'a"

definition res_bind :: "'a res \<Rightarrow> ('a \<Rightarrow> 'b res) \<Rightarrow> 'b res" where
  "res_bind m f = (case m of Inl e \<Rightarrow> Inl e | Inr x \<Rightarrow> f x)"

lemma res_bind_simps [simp]:
  "res_bind (Inl e) f = Inl e"
  "res_bind (Inr x) f = f x"
  by (simp_all add: res_bind_def)

lemma res_bind_cong [fundef_cong]:
  "m = m' \<Longrightarrow> (\<And>x. m' = Inr x \<Longrightarrow> f x = f' x) \<Longrightarrow> res_bind m f = res_bind m' f'"
  by (auto simp: res_bind_def split: sum.splits)

lemma res_bind_eq_Inr: "res_bind m f = Inr y \<longleftrightarrow> (\<exists>x. m = Inr x \<and> f x = Inr y)"
  by (auto simp: res_bind_def split: sum.splits)

lemma res_bind_InrE [elim!]:
  assumes "res_bind m f = Inr y"
  obtains x where "m = Inr x" and "f x = Inr y"
  using assms by (auto simp: res_bind_eq_Inr)

lemma res_bind_assoc: "res_bind (res_bind m f) g = res_bind m (\<lambda>x. res_bind (f x) g)"
  by (simp add: res_bind_def split: sum.splits)

text \<open>A test that must hold for the code to go on.\<close>

definition guard_res :: "bool \<Rightarrow> xsb_error \<Rightarrow> unit res" where
  "guard_res b e = (if b then Inr () else Inl e)"

lemma guard_res_simps [simp]:
  "b \<Longrightarrow> guard_res b e = Inr ()"
  "\<not> b \<Longrightarrow> guard_res b e = Inl e"
  by (simp_all add: guard_res_def)

lemma guard_res_eq_Inr [simp]: "guard_res b e = Inr u \<longleftrightarrow> b"
  by (simp add: guard_res_def)

section \<open>C integers\<close>

definition wrap32 :: "int \<Rightarrow> int" where
  "wrap32 x = signed_take_bit 31 x"

definition wrap64 :: "int \<Rightarrow> int" where
  "wrap64 x = signed_take_bit 63 x"

definition to_byte :: "int \<Rightarrow> int" where
  "to_byte c = c mod 256"

definition to_char :: "int \<Rightarrow> int" where
  "to_char c = signed_take_bit 7 c"

abbreviation XSB_MAXINT :: int where
  "XSB_MAXINT \<equiv> 0x7fffffffffffffff"

lemma wrap32_id: "- 2147483648 \<le> x \<Longrightarrow> x < 2147483648 \<Longrightarrow> wrap32 x = x"
  by (simp add: wrap32_def signed_take_bit_int_eq_self_iff)

lemma wrap64_id: "- 9223372036854775808 \<le> x \<Longrightarrow> x < 9223372036854775808 \<Longrightarrow> wrap64 x = x"
  by (simp add: wrap64_def signed_take_bit_int_eq_self_iff)

lemma to_byte_id [simp]: "0 \<le> c \<Longrightarrow> c < 256 \<Longrightarrow> to_byte c = c"
  by (simp add: to_byte_def)

lemma to_byte_range [simp]: "0 \<le> to_byte c" "to_byte c < 256"
  by (simp_all add: to_byte_def)

section \<open>Lists\<close>

definition all_bytes :: "int list \<Rightarrow> bool" where
  "all_bytes bs \<longleftrightarrow> (\<forall>b \<in> set bs. 0 \<le> b \<and> b < 256)"

lemma all_bytes_simps [simp]:
  "all_bytes []"
  "all_bytes (b # bs) \<longleftrightarrow> 0 \<le> b \<and> b < 256 \<and> all_bytes bs"
  "all_bytes (xs @ ys) \<longleftrightarrow> all_bytes xs \<and> all_bytes ys"
  by (auto simp: all_bytes_def)

text \<open>A property of every entry of a table is checked entry by entry.\<close>

lemma list_all_uptD: "list_all P [0..<n] \<Longrightarrow> i < n \<Longrightarrow> P i"
  by (simp add: list_all_iff)

text \<open>An array read: the index must be inside the array.\<close>

definition array_get :: "'a list \<Rightarrow> int \<Rightarrow> 'a res" where
  "array_get xs i = (if 0 \<le> i \<and> i < int (length xs) then Inr (xs ! nat i)
                     else Inl (Out_Of_Bounds i))"

lemma array_get_ok [simp]: "0 \<le> i \<Longrightarrow> i < int (length xs) \<Longrightarrow> array_get xs i = Inr (xs ! nat i)"
  by (simp add: array_get_def)

lemma array_get_Inr: "array_get xs i = Inr x \<longleftrightarrow> 0 \<le> i \<and> i < int (length xs) \<and> x = xs ! nat i"
  by (auto simp: array_get_def)

end
