(* ===== verification/Char_Tables.thy ===== *)
theory Char_Tables imports XSB_Prelude begin

text \<open>
  The character tables of the reader (emu/token_xsb.c): the class of each character
  (\<open>intab.chtype\<close>, read with \<open>InType\<close>), its digit value (\<open>digval\<close>, read with
  \<open>DigVal\<close>) and the code points of Windows code page 1252. The first two tables have
  257 entries, the first one for the end of file (-1); an index beyond 255 is outside
  them, which C leaves undefined and the model reports as \<open>Out_Of_Bounds\<close>.
\<close>

section \<open>Character classes (emu/token_defs_xsb.h)\<close>

abbreviation (input) DIGIT :: int where "DIGIT \<equiv> 0"
abbreviation (input) BREAK :: int where "BREAK \<equiv> 1"
abbreviation (input) UPPER :: int where "UPPER \<equiv> 2"
abbreviation (input) LOWER :: int where "LOWER \<equiv> 3"
abbreviation (input) SIGN :: int where "SIGN \<equiv> 4"
abbreviation (input) NOBLE :: int where "NOBLE \<equiv> 5"
abbreviation (input) PUNCT :: int where "PUNCT \<equiv> 6"
abbreviation (input) ATMQT :: int where "ATMQT \<equiv> 7"
abbreviation (input) LISQT :: int where "LISQT \<equiv> 8"
abbreviation (input) CHRQT :: int where "CHRQT \<equiv> 10"
abbreviation (input) SPACE :: int where "SPACE \<equiv> 12"
abbreviation (input) EOLN :: int where "EOLN \<equiv> 13"
abbreviation (input) EOFCH :: int where "EOFCH \<equiv> 15"

section \<open>The special characters of intab\<close>

abbreviation (input) eolcom :: int where "eolcom \<equiv> 37"      \<comment> \<open>percent sign\<close>
abbreviation (input) endeol :: int where "endeol \<equiv> -1"
abbreviation (input) begcom :: int where "begcom \<equiv> 47"      \<comment> \<open>slash\<close>
abbreviation (input) astcom :: int where "astcom \<equiv> 42"      \<comment> \<open>asterisk\<close>
abbreviation (input) endcom :: int where "endcom \<equiv> 47"
abbreviation (input) radixch :: int where "radixch \<equiv> 39"    \<comment> \<open>single quote\<close>
abbreviation (input) dpoint :: int where "dpoint \<equiv> 46"      \<comment> \<open>full stop\<close>
abbreviation (input) escapech :: int where "escapech \<equiv> 92"  \<comment> \<open>backslash\<close>
abbreviation (input) termin :: int where "termin \<equiv> 46"

section \<open>The tables\<close>

definition chtype :: "int list" where
  "chtype = [
     EOFCH,
     SPACE, SPACE, SPACE, SPACE, SPACE, SPACE, SPACE, SPACE,
     SPACE, SPACE, EOLN, SPACE, EOLN, SPACE, SPACE, SPACE,
     SPACE, SPACE, SPACE, SPACE, SPACE, SPACE, SPACE, SPACE,
     SPACE, SPACE, SPACE, SPACE, SPACE, SPACE, SPACE, SPACE,
     SPACE, NOBLE, LISQT, SIGN, SIGN, PUNCT, SIGN, ATMQT,
     PUNCT, PUNCT, SIGN, SIGN, PUNCT, SIGN, SIGN, SIGN,
     DIGIT, DIGIT, DIGIT, DIGIT, DIGIT, DIGIT, DIGIT, DIGIT,
     DIGIT, DIGIT, SIGN, PUNCT, SIGN, SIGN, SIGN, SIGN,
     SIGN, UPPER, UPPER, UPPER, UPPER, UPPER, UPPER, UPPER,
     UPPER, UPPER, UPPER, UPPER, UPPER, UPPER, UPPER, UPPER,
     UPPER, UPPER, UPPER, UPPER, UPPER, UPPER, UPPER, UPPER,
     UPPER, UPPER, UPPER, PUNCT, SIGN, PUNCT, SIGN, BREAK,
     SIGN, LOWER, LOWER, LOWER, LOWER, LOWER, LOWER, LOWER,
     LOWER, LOWER, LOWER, LOWER, LOWER, LOWER, LOWER, LOWER,
     LOWER, LOWER, LOWER, LOWER, LOWER, LOWER, LOWER, LOWER,
     LOWER, LOWER, LOWER, PUNCT, PUNCT, PUNCT, SIGN, SPACE,
     SPACE, SPACE, SPACE, SPACE, SPACE, SPACE, SPACE, SPACE,
     SPACE, SPACE, SPACE, SPACE, SPACE, SPACE, SPACE, SPACE,
     SPACE, SPACE, SPACE, SPACE, SPACE, SPACE, SPACE, SPACE,
     SPACE, SPACE, SPACE, SPACE, SPACE, SPACE, SPACE, SPACE,
     SPACE, SIGN, SIGN, SIGN, SIGN, SIGN, SIGN, SIGN,
     SIGN, SIGN, LOWER, SIGN, SIGN, SIGN, SIGN, SIGN,
     SIGN, SIGN, LOWER, LOWER, SIGN, SIGN, SIGN, SIGN,
     SIGN, LOWER, LOWER, SIGN, SIGN, SIGN, SIGN, SIGN,
     UPPER, UPPER, UPPER, UPPER, UPPER, UPPER, UPPER, UPPER,
     UPPER, UPPER, UPPER, UPPER, UPPER, UPPER, UPPER, UPPER,
     UPPER, UPPER, UPPER, UPPER, UPPER, UPPER, UPPER, SIGN,
     UPPER, UPPER, UPPER, UPPER, UPPER, UPPER, UPPER, LOWER,
     LOWER, LOWER, LOWER, LOWER, LOWER, LOWER, LOWER, LOWER,
     LOWER, LOWER, LOWER, LOWER, LOWER, LOWER, LOWER, LOWER,
     LOWER, LOWER, LOWER, LOWER, LOWER, LOWER, LOWER, SIGN,
     LOWER, LOWER, LOWER, LOWER, LOWER, LOWER, LOWER, LOWER]"

definition digval :: "int list" where
  "digval = [
     99,
     99, 99, 99, 99, 99, 99, 99, 99, 99, 99, 99, 99, 99, 99, 99, 99,
     99, 99, 99, 99, 99, 99, 99, 99, 99, 99, 99, 99, 99, 99, 99, 99,
     99, 99, 99, 99, 99, 99, 99, 99, 99, 99, 99, 99, 99, 99, 99, 99,
     0, 1, 2, 3, 4, 5, 6, 7, 8, 9, 99, 99, 99, 99, 99, 99,
     99, 10, 11, 12, 13, 14, 15, 16, 17, 18, 19, 20, 21, 22, 23, 24,
     25, 26, 27, 28, 29, 30, 31, 32, 33, 34, 35, 99, 99, 99, 99, 0,
     99, 10, 11, 12, 13, 14, 15, 16, 17, 18, 19, 20, 21, 22, 23, 24,
     25, 26, 27, 28, 29, 30, 31, 32, 33, 34, 35, 99, 99, 99, 99, 99,
     99, 99, 99, 99, 99, 99, 99, 99, 99, 99, 99, 99, 99, 99, 99, 99,
     99, 99, 99, 99, 99, 99, 99, 99, 99, 99, 99, 99, 99, 99, 99, 99,
     99, 99, 99, 99, 99, 99, 99, 99, 99, 99, 99, 99, 99, 99, 99, 99,
     99, 99, 2, 3, 99, 99, 99, 99, 99, 1, 99, 99, 99, 99, 99, 99,
     99, 99, 99, 99, 99, 99, 99, 99, 99, 99, 99, 99, 99, 99, 99, 99,
     99, 99, 99, 99, 99, 99, 99, 99, 99, 99, 99, 99, 99, 99, 99, 99,
     99, 99, 99, 99, 99, 99, 99, 99, 99, 99, 99, 99, 99, 99, 99, 99,
     99, 99, 99, 99, 99, 99, 99, 99, 99, 99, 99, 99, 99, 99, 99, 99]"

definition code_page_1252 :: "int list" where
  "code_page_1252 = [
     0x0000, 0x0001, 0x0002, 0x0003, 0x0004, 0x0005, 0x0006, 0x0007,
     0x0008, 0x0009, 0x000A, 0x000B, 0x000C, 0x000D, 0x000E, 0x000F,
     0x0010, 0x0011, 0x0012, 0x0013, 0x0014, 0x0015, 0x0016, 0x0017,
     0x0018, 0x0019, 0x001A, 0x001B, 0x001C, 0x001D, 0x001E, 0x001F,
     0x0020, 0x0021, 0x0022, 0x0023, 0x0024, 0x0025, 0x0026, 0x0027,
     0x0028, 0x0029, 0x002A, 0x002B, 0x002C, 0x002D, 0x002E, 0x002F,
     0x0030, 0x0031, 0x0032, 0x0033, 0x0034, 0x0035, 0x0036, 0x0037,
     0x0038, 0x0039, 0x003A, 0x003B, 0x003C, 0x003D, 0x003E, 0x003F,
     0x0040, 0x0041, 0x0042, 0x0043, 0x0044, 0x0045, 0x0046, 0x0047,
     0x0048, 0x0049, 0x004A, 0x004B, 0x004C, 0x004D, 0x004E, 0x004F,
     0x0050, 0x0051, 0x0052, 0x0053, 0x0054, 0x0055, 0x0056, 0x0057,
     0x0058, 0x0059, 0x005A, 0x005B, 0x005C, 0x005D, 0x005E, 0x005F,
     0x0060, 0x0061, 0x0062, 0x0063, 0x0064, 0x0065, 0x0066, 0x0067,
     0x0068, 0x0069, 0x006A, 0x006B, 0x006C, 0x006D, 0x006E, 0x006F,
     0x0070, 0x0071, 0x0072, 0x0073, 0x0074, 0x0075, 0x0076, 0x0077,
     0x0078, 0x0079, 0x007A, 0x007B, 0x007C, 0x007D, 0x007E, 0x007F,
     0x20AC, 0x0081, 0x201A, 0x0192, 0x201E, 0x2026, 0x2020, 0x2021,
     0x02C6, 0x2030, 0x0160, 0x2039, 0x0152, 0x008D, 0x017D, 0x008F,
     0x0090, 0x2018, 0x2019, 0x201C, 0x201D, 0x2022, 0x2013, 0x2014,
     0x02DC, 0x2122, 0x0161, 0x203A, 0x0153, 0x009D, 0x017E, 0x0178,
     0x00A0, 0x00A1, 0x00A2, 0x00A3, 0x00A4, 0x00A5, 0x00A6, 0x00A7,
     0x00A8, 0x00A9, 0x00AA, 0x00AB, 0x00AC, 0x00AD, 0x00AE, 0x00AF,
     0x00B0, 0x00B1, 0x00B2, 0x00B3, 0x00B4, 0x00B5, 0x00B6, 0x00B7,
     0x00B8, 0x00B9, 0x00BA, 0x00BB, 0x00BC, 0x00BD, 0x00BE, 0x00BF,
     0x00C0, 0x00C1, 0x00C2, 0x00C3, 0x00C4, 0x00C5, 0x00C6, 0x00C7,
     0x00C8, 0x00C9, 0x00CA, 0x00CB, 0x00CC, 0x00CD, 0x00CE, 0x00CF,
     0x00D0, 0x00D1, 0x00D2, 0x00D3, 0x00D4, 0x00D5, 0x00D6, 0x00D7,
     0x00D8, 0x00D9, 0x00DA, 0x00DB, 0x00DC, 0x00DD, 0x00DE, 0x00DF,
     0x00E0, 0x00E1, 0x00E2, 0x00E3, 0x00E4, 0x00E5, 0x00E6, 0x00E7,
     0x00E8, 0x00E9, 0x00EA, 0x00EB, 0x00EC, 0x00ED, 0x00EE, 0x00EF,
     0x00F0, 0x00F1, 0x00F2, 0x00F3, 0x00F4, 0x00F5, 0x00F6, 0x00F7,
     0x00F8, 0x00F9, 0x00FA, 0x00FB, 0x00FC, 0x00FD, 0x00FE, 0x00FF]"

definition InType :: "int \<Rightarrow> int res" where
  "InType c = array_get chtype (c + 1)"

definition DigVal :: "int \<Rightarrow> int res" where
  "DigVal c = array_get digval (c + 1)"

section \<open>What the tables say\<close>

lemma length_chtype [simp]: "length chtype = 257"
  by (simp add: chtype_def)

lemma length_digval [simp]: "length digval = 257"
  by (simp add: digval_def)

lemma length_code_page_1252 [simp]: "length code_page_1252 = 256"
  by (simp add: code_page_1252_def)

lemma InType_defined: "-1 \<le> c \<Longrightarrow> c < 256 \<Longrightarrow> InType c = Inr (chtype ! nat (c + 1))"
  by (simp add: InType_def)

lemma InType_undefined: "256 \<le> c \<Longrightarrow> InType c = Inl (Out_Of_Bounds (c + 1))"
  by (simp add: InType_def array_get_def)

lemma DigVal_defined: "-1 \<le> c \<Longrightarrow> c < 256 \<Longrightarrow> DigVal c = Inr (digval ! nat (c + 1))"
  by (simp add: DigVal_def)

lemma DigVal_undefined: "256 \<le> c \<Longrightarrow> DigVal c = Inl (Out_Of_Bounds (c + 1))"
  by (simp add: DigVal_def array_get_def)

lemma InType_range: "InType c = Inr t \<Longrightarrow> -1 \<le> c \<and> c < 256"
  by (auto simp: InType_def array_get_Inr)

lemma DigVal_range: "DigVal c = Inr v \<Longrightarrow> -1 \<le> c \<and> c < 256"
  by (auto simp: DigVal_def array_get_Inr)

lemma InType_EOF [simp]: "InType (-1) = Inr EOFCH"
  by (simp add: InType_def chtype_def)

lemma DigVal_EOF [simp]: "DigVal (-1) = Inr 99"
  by (simp add: DigVal_def digval_def)

text \<open>A property of every entry of a table is checked entry by entry.\<close>

lemma chtype_digit_iff_list:
  "list_all (\<lambda>i. (chtype ! i = DIGIT) = (49 \<le> i \<and> i \<le> 58)) [0..<257]"
  by code_simp

lemma chtype_break_iff_list:
  "list_all (\<lambda>i. (chtype ! i = BREAK) = (i = 96)) [0..<257]"
  by code_simp

lemma chtype_bounds_list:
  "list_all (\<lambda>i. 0 \<le> chtype ! i \<and> chtype ! i \<le> 15 \<and> (chtype ! i = 15) = (i = 0)) [0..<257]"
  by code_simp

lemma digval_digit_list:
  "list_all (\<lambda>i. (chtype ! i = DIGIT) \<longrightarrow> digval ! i = int i - 49) [0..<257]"
  by code_simp

lemma code_page_1252_range_list:
  "list_all (\<lambda>i. 0 \<le> code_page_1252 ! i \<and> code_page_1252 ! i < 65536) [0..<256]"
  by code_simp

lemma table_index: "-1 \<le> c \<Longrightarrow> c < 256 \<Longrightarrow> nat (c + 1) < 257"
  by linarith

lemma InType_digit_iff: "InType c = Inr DIGIT \<longleftrightarrow> 48 \<le> c \<and> c \<le> 57"
proof (cases "-1 \<le> c \<and> c < 256")
  case True
  then have "(chtype ! nat (c + 1) = DIGIT) = (49 \<le> nat (c + 1) \<and> nat (c + 1) \<le> 58)"
    by (intro list_all_uptD [OF chtype_digit_iff_list] table_index) auto
  with True show ?thesis by (auto simp: InType_defined)
next
  case False
  then show ?thesis by (auto simp: InType_def array_get_def)
qed

lemma InType_break_iff: "InType c = Inr BREAK \<longleftrightarrow> c = 95"
proof (cases "-1 \<le> c \<and> c < 256")
  case True
  then have "(chtype ! nat (c + 1) = BREAK) = (nat (c + 1) = 96)"
    by (intro list_all_uptD [OF chtype_break_iff_list] table_index) auto
  with True show ?thesis by (auto simp: InType_defined)
next
  case False
  then show ?thesis by (auto simp: InType_def array_get_def)
qed

lemma InType_bounds:
  assumes "InType c = Inr t"
  shows "0 \<le> t" "t \<le> 15" "t = EOFCH \<longleftrightarrow> c = -1"
proof -
  have c: "-1 \<le> c \<and> c < 256" using assms by (rule InType_range)
  then have "0 \<le> chtype ! nat (c + 1) \<and> chtype ! nat (c + 1) \<le> 15 \<and>
      (chtype ! nat (c + 1) = 15) = (nat (c + 1) = 0)"
    using c by (intro list_all_uptD [OF chtype_bounds_list] table_index) auto
  moreover have "t = chtype ! nat (c + 1)"
    using assms c by (simp add: InType_defined)
  ultimately show "0 \<le> t" "t \<le> 15" "t = EOFCH \<longleftrightarrow> c = -1"
    using c by auto
qed

lemma InType_digit [simp]: "48 \<le> c \<Longrightarrow> c \<le> 57 \<Longrightarrow> InType c = Inr DIGIT"
  by (simp add: InType_digit_iff)

text \<open>A class up to \<open>BREAK\<close> is a digit or the underscore: what a number is made of.\<close>

lemma InType_numeric:
  assumes "InType c = Inr t" and "t \<le> BREAK"
  shows "48 \<le> c \<and> c \<le> 57 \<or> c = 95"
proof -
  have "0 \<le> t" using assms(1) by (rule InType_bounds)
  with assms(2) have "t = DIGIT \<or> t = BREAK" by auto
  with assms(1) show ?thesis using InType_digit_iff [of c] InType_break_iff [of c] by auto
qed

lemma DigVal_digit:
  assumes "48 \<le> c" and "c \<le> 57"
  shows "DigVal c = Inr (c - 48)"
proof -
  have "chtype ! nat (c + 1) = DIGIT"
    using InType_digit [OF assms] assms InType_defined [of c] by simp
  moreover have "chtype ! nat (c + 1) = DIGIT \<longrightarrow> digval ! nat (c + 1) = int (nat (c + 1)) - 49"
    using assms by (intro list_all_uptD [OF digval_digit_list]) simp
  ultimately have "digval ! nat (c + 1) = int (nat (c + 1)) - 49" by blast
  with assms show ?thesis by (simp add: DigVal_defined)
qed

lemma code_page_1252_range:
  "i < 256 \<Longrightarrow> 0 \<le> code_page_1252 ! i \<and> code_page_1252 ! i < 65536"
  by (rule list_all_uptD [OF code_page_1252_range_list])

lemma code_page_1252_self_list:
  "list_all (\<lambda>i. i < 128 \<or> 160 \<le> i \<longrightarrow> code_page_1252 ! i = int i) [0..<256]"
  by code_simp

lemma code_page_1252_self:
  "i < 256 \<Longrightarrow> i < 128 \<or> 160 \<le> i \<Longrightarrow> code_page_1252 ! i = int i"
  using list_all_uptD [OF code_page_1252_self_list, of i] by blast

lemma distinct_code_page_1252: "distinct code_page_1252"
  by code_simp

end
