(* ===== verification/Text_Stream.thy ===== *)
theory Text_Stream imports Char_Tables begin

text \<open>
  The character level of the reader: input streams (\<open>STRFILE\<close> strings and stdio
  files, emu/token_xsb.h and \<open>unGetC\<close>, \<open>strungetc\<close> of emu/token_xsb.c) and the
  UTF-8 and code page 1252 codecs of emu/token_xsb.c.

  A \<open>STRFILE\<close> keeps its count, pointer and base as the code does; the pointer is an
  offset from the base, and following it outside the text is an error value. A stdio
  file is the list of the bytes still to come: \<open>getc\<close> takes the first one and
  \<open>ungetc\<close> puts a byte back, or does nothing for EOF, as the C library documents.
\<close>

section \<open>Streams\<close>

record strfile =
  strcnt :: int
  strptr :: int
  strbase :: "int list"

datatype instream = StrIn strfile | FileIn "int list"

datatype charset = LATIN_1 | UTF_8 | CP1252 | OtherCharset int

definition strgetc :: "strfile \<Rightarrow> (int \<times> strfile) res" where
  "strgetc p =
     (let p = p\<lparr>strcnt := strcnt p - 1\<rparr> in
      if 0 \<le> strcnt p
      then res_bind (array_get (strbase p) (strptr p)) (\<lambda>c. Inr (c, p\<lparr>strptr := strptr p + 1\<rparr>))
      else Inr (-1, p))"

definition strpeekc :: "strfile \<Rightarrow> int res" where
  "strpeekc p = (if 0 \<le> strcnt p then array_get (strbase p) (strptr p) else Inr (-1))"

fun getc_file :: "int list \<Rightarrow> int \<times> int list" where
  "getc_file [] = (-1, [])"
| "getc_file (b # bs) = (b, bs)"

definition ungetc_file :: "int \<Rightarrow> int list \<Rightarrow> int list" where
  "ungetc_file d bs = (if d = -1 then bs else to_byte d # bs)"

fun GetC :: "instream \<Rightarrow> (int \<times> instream) res" where
  "GetC (StrIn p) = res_bind (strgetc p) (\<lambda>(c, p). Inr (c, StrIn p))"
| "GetC (FileIn bs) = (let (c, bs) = getc_file bs in Inr (c, FileIn bs))"

fun unGetC :: "int \<Rightarrow> instream \<Rightarrow> instream" where
  "unGetC d (StrIn p) = StrIn (p\<lparr>strcnt := strcnt p + 1, strptr := strptr p - 1\<rparr>)"
| "unGetC d (FileIn bs) = FileIn (ungetc_file d bs)"

text \<open>\<open>strungetc\<close> returns the character under the pointer before it steps back.\<close>

definition strungetc :: "strfile \<Rightarrow> (int \<times> strfile) res" where
  "strungetc p =
     (if 0 < strptr p
      then res_bind (array_get (strbase p) (strptr p))
             (\<lambda>c. Inr (c, p\<lparr>strcnt := strcnt p + 1, strptr := strptr p - 1\<rparr>))
      else Inr (-1, p))"

fun input_is_string :: "instream \<Rightarrow> bool" where
  "input_is_string (StrIn p) = True"
| "input_is_string (FileIn bs) = False"

section \<open>Decoding UTF-8 input\<close>

text \<open>
  \<open>utf8_GetCode\<close> reads the rest of a character whose leading byte is \<open>c\<close>. The
  guards on the bytes that are put back are the code's, in the 4-byte case the one
  that tests \<open>b2\<close> before it puts \<open>b4\<close> back.
\<close>

definition unget_if_pos :: "int \<Rightarrow> instream \<Rightarrow> instream" where
  "unget_if_pos b s = (if 0 < b then unGetC (to_char b) s else s)"

definition is_cont :: "int \<Rightarrow> bool" where
  "is_cont b \<longleftrightarrow> and b 0xc0 = 0x80"

definition join2 :: "int \<Rightarrow> int \<Rightarrow> int" where
  "join2 c b2 = or (push_bit 6 (and c 0x1f)) (and b2 0x3f)"

definition join3 :: "int \<Rightarrow> int \<Rightarrow> int \<Rightarrow> int" where
  "join3 c b2 b3 = or (or (push_bit 12 (and c 0xf)) (push_bit 6 (and b2 0x3f))) (and b3 0x3f)"

definition join4 :: "int \<Rightarrow> int \<Rightarrow> int \<Rightarrow> int \<Rightarrow> int" where
  "join4 c b2 b3 b4 =
     or (or (or (push_bit 18 (and c 0xf)) (push_bit 12 (and b2 0x3f)))
            (push_bit 6 (and b3 0x3f))) (and b4 0x3f)"

definition utf8_GetCode :: "instream \<Rightarrow> int \<Rightarrow> (int \<times> instream) res" where
  "utf8_GetCode s c =
    (if c < 0x80 then Inr (c, s)
     else if and c 0xe0 = 0xc0 then
       res_bind (GetC s) (\<lambda>(b2, s).
         if is_cont b2 then Inr (join2 c b2, s)
         else Inr (c, unget_if_pos b2 s))
     else if and c 0xf0 = 0xe0 then
       res_bind (GetC s) (\<lambda>(b2, s).
         if is_cont b2 then
           res_bind (GetC s) (\<lambda>(b3, s).
             if is_cont b3 then Inr (join3 c b2 b3, s)
             else Inr (c, unGetC (to_char b2) (unget_if_pos b3 s)))
         else Inr (c, unget_if_pos b2 s))
     else if and c 0xf8 = 0xf0 then
       res_bind (GetC s) (\<lambda>(b2, s).
         if is_cont b2 then
           res_bind (GetC s) (\<lambda>(b3, s).
             if is_cont b3 then
               res_bind (GetC s) (\<lambda>(b4, s).
                 if is_cont b4 then Inr (join4 c b2 b3 b4, s)
                 else Inr (c, unGetC (to_char b2) (unGetC (to_char b3)
                        (if 0 < b2 then unGetC (to_char b4) s else s))))
             else Inr (c, unGetC (to_char b2) (unget_if_pos b3 s)))
         else Inr (c, unget_if_pos b2 s))
     else Inr (c, s))"

definition GetCode :: "charset \<Rightarrow> instream \<Rightarrow> (int \<times> instream) res" where
  "GetCode cs s =
    res_bind (GetC s) (\<lambda>(c, s).
      if c = -1 then Inr (c, s)
      else if input_is_string s then utf8_GetCode s c
      else (case cs of
              LATIN_1 \<Rightarrow> Inr (c, s)
            | UTF_8 \<Rightarrow> utf8_GetCode s c
            | CP1252 \<Rightarrow> res_bind (array_get code_page_1252 c) (\<lambda>cp. Inr (cp, s))
            | OtherCharset _ \<Rightarrow> Inr (0, s)))"

text \<open>\<open>GetCodeP\<close> differs from \<open>GetCode\<close> in its end-of-file test only.\<close>

definition GetCodeP :: "charset \<Rightarrow> instream \<Rightarrow> (int \<times> instream) res" where
  "GetCodeP cs s =
    res_bind (GetC s) (\<lambda>(c, s).
      if c < 0 then Inr (c, s)
      else if input_is_string s then utf8_GetCode s c
      else (case cs of
              LATIN_1 \<Rightarrow> Inr (c, s)
            | UTF_8 \<Rightarrow> utf8_GetCode s c
            | CP1252 \<Rightarrow> res_bind (array_get code_page_1252 c) (\<lambda>cp. Inr (cp, s))
            | OtherCharset _ \<Rightarrow> Inr (0, s)))"

section \<open>Decoding and encoding byte strings\<close>

text \<open>
  A C string is a byte list that ends in 0, read through an index; a read past the
  list is an error. \<open>utf8_char_to_codepoint\<close> returns the code and the new index.
\<close>

definition utf8_char_to_codepoint :: "int list \<Rightarrow> int \<Rightarrow> (int \<times> int) res" where
  "utf8_char_to_codepoint bs i =
    res_bind (array_get bs i) (\<lambda>c.
    if and c 0x80 \<noteq> 0 then
      if and c 0xe0 = 0xc0 then
        res_bind (array_get bs (i + 1)) (\<lambda>b2.
          if is_cont b2 then Inr (join2 c b2, i + 2) else Inr (c, i + 1))
      else if and c 0xf0 = 0xe0 then
        res_bind (array_get bs (i + 1)) (\<lambda>b2.
          if is_cont b2 then
            res_bind (array_get bs (i + 2)) (\<lambda>b3.
              if is_cont b3 then Inr (join3 c b2 b3, i + 3) else Inr (c, i + 1))
          else Inr (c, i + 1))
      else if and c 0xf8 = 0xf0 then
        res_bind (array_get bs (i + 1)) (\<lambda>b2.
          if is_cont b2 then
            res_bind (array_get bs (i + 2)) (\<lambda>b3.
              if is_cont b3 then
                res_bind (array_get bs (i + 3)) (\<lambda>b4.
                  if is_cont b4 then Inr (join4 c b2 b3 b4, i + 4) else Inr (c, i + 1))
              else Inr (c, i + 1))
          else Inr (c, i + 1))
      else Inr (c, i + 1)
    else Inr (c, i + 1))"

definition w1252_char_to_codepoint :: "int list \<Rightarrow> int \<Rightarrow> (int \<times> int) res" where
  "w1252_char_to_codepoint bs i =
    res_bind (array_get bs i) (\<lambda>b.
    res_bind (array_get code_page_1252 b) (\<lambda>cp. Inr (cp, i + 1)))"

text \<open>
  In the Latin-1 case the code evaluates \<open>*(*s_ptr++)\<close>, which steps the local copy
  of the pointer to the pointer and leaves the caller's pointer where it was.
\<close>

fun char_to_codepoint :: "charset \<Rightarrow> int list \<Rightarrow> int \<Rightarrow> (int \<times> int) res" where
  "char_to_codepoint LATIN_1 bs i = res_bind (array_get bs i) (\<lambda>c. Inr (c, i))"
| "char_to_codepoint UTF_8 bs i = utf8_char_to_codepoint bs i"
| "char_to_codepoint CP1252 bs i = w1252_char_to_codepoint bs i"
| "char_to_codepoint (OtherCharset _) bs i = Inr (0, i)"

text \<open>The bytes written for a code point; each store converts to \<open>byte\<close>.\<close>

definition utf8_codepoint_to_str :: "int \<Rightarrow> int list" where
  "utf8_codepoint_to_str code =
    map to_byte
     (if code < 0x80 then [code]
      else if code < 0x800 then [192 + code div 64, 128 + code mod 64]
      else if code < 0x10000 then
        [224 + code div 4096, 128 + code div 64 mod 64, 128 + code mod 64]
      else [240 + code div 262144, 128 + code div 4096 mod 64, 128 + code div 64 mod 64,
            128 + code mod 64])"

text \<open>
  The code page 1252 encoder keeps a table (\<open>code_page_1252_hash\<close>, 256 entries,
  initially 0) of the inversions found so far.
\<close>

fun w1252_search :: "int \<Rightarrow> nat list \<Rightarrow> nat option" where
  "w1252_search cp [] = None"
| "w1252_search cp (i # is) = (if code_page_1252 ! i = cp then Some i else w1252_search cp is)"

definition w1252_codepoint_to_str :: "int list \<Rightarrow> int \<Rightarrow> (int list \<times> int list) res" where
  "w1252_codepoint_to_str hash cp =
    res_bind (if cp \<le> 0xff then res_bind (array_get code_page_1252 cp) (\<lambda>v. Inr (v = cp))
              else Inr False) (\<lambda>self.
    if self then Inr ([to_byte cp], hash)
    else
      (let hc = cp mod 255 in
       res_bind (array_get hash hc) (\<lambda>hind.
       res_bind (array_get code_page_1252 hind) (\<lambda>v.
       if v = cp then Inr ([to_byte hind], hash)
       else (case w1252_search cp [0x80..<0xa0] of
               Some i \<Rightarrow> Inr ([int i], hash[nat hc := int i])
             | None \<Rightarrow> Inr ([255], hash))))))"

fun codepoint_to_str :: "int list \<Rightarrow> int \<Rightarrow> charset \<Rightarrow> (int list \<times> int list) res" where
  "codepoint_to_str hash code LATIN_1 = Inr ([to_byte code], hash)"
| "codepoint_to_str hash code UTF_8 = Inr (utf8_codepoint_to_str code, hash)"
| "codepoint_to_str hash code CP1252 = w1252_codepoint_to_str hash code"
| "codepoint_to_str hash code (OtherCharset _) = Inr ([], hash)"

definition PutCode :: "int list \<Rightarrow> int \<Rightarrow> charset \<Rightarrow> (int list \<times> int list) res" where
  "PutCode hash cp cs = (if cp < 128 then Inr ([to_byte cp], hash) else codepoint_to_str hash cp cs)"

end
