(* ===== verification/Byte_Source.thy ===== *)
theory Byte_Source imports Text_Stream begin

text \<open>
  The input streams as a source of bytes: the interface the decoders and the
  tokenizer rely on, its interpretation for \<open>STRFILE\<close> strings, stdio files and the
  two together, and the fact that reading a character shortens the input, which the
  termination of every reader loop rests on.
\<close>

section \<open>What is left to read\<close>

text \<open>
  The interface the decoders and the tokenizer rely on: a source of bytes with the
  bytes still to come (\<open>pending\<close>), the state after some of them are read (\<open>skip\<close>)
  and the states in which the representation is consistent (\<open>ok\<close>).
\<close>

locale byte_source =
  fixes get :: "'s \<Rightarrow> (int \<times> 's) res"
    and pending :: "'s \<Rightarrow> int list"
    and skip :: "nat \<Rightarrow> 's \<Rightarrow> 's"
    and ok :: "'s \<Rightarrow> bool"
  assumes get_byte: "ok s \<Longrightarrow> pending s = b # bs \<Longrightarrow> get s = Inr (b, skip 1 s)"
    and get_end: "ok s \<Longrightarrow> pending s = [] \<Longrightarrow> \<exists>s'. get s = Inr (-1, s') \<and> ok s' \<and> pending s' = []"
    and skip_pending: "ok s \<Longrightarrow> n \<le> length (pending s) \<Longrightarrow> pending (skip n s) = drop n (pending s)"
    and skip_ok: "ok s \<Longrightarrow> n \<le> length (pending s) \<Longrightarrow> ok (skip n s)"
    and skip_skip: "ok s \<Longrightarrow> m + n \<le> length (pending s) \<Longrightarrow> skip n (skip m s) = skip (m + n) s"
    and pending_bytes: "ok s \<Longrightarrow> all_bytes (pending s)"
begin

lemma get_at:
  assumes "ok s" "n < length (pending s)"
  shows "get (skip n s) = Inr (pending s ! n, skip (Suc n) s)"
proof -
  have "pending (skip n s) = pending s ! n # drop (Suc n) (pending s)"
    using assms by (simp add: skip_pending Cons_nth_drop_Suc)
  moreover have "ok (skip n s)" using assms by (simp add: skip_ok)
  ultimately have "get (skip n s) = Inr (pending s ! n, skip 1 (skip n s))"
    by (simp add: get_byte)
  then show ?thesis using assms by (simp add: skip_skip)
qed

lemma get_after:
  assumes "ok s" "pending s = xs @ b # ys"
  shows "get (skip (length xs) s) = Inr (b, skip (Suc (length xs)) s)"
  using get_at [of s "length xs"] assms by simp

lemma get_never_fails: "ok s \<Longrightarrow> \<exists>c s'. get s = Inr (c, s') \<and> ok s'"
proof (cases "pending s")
  case Nil
  then show "ok s \<Longrightarrow> ?thesis" using get_end by blast
next
  case (Cons b bs)
  then show "ok s \<Longrightarrow> ?thesis" using get_byte skip_ok [of s 1] by auto
qed

lemma get_byte_range: "ok s \<Longrightarrow> pending s = b # bs \<Longrightarrow> 0 \<le> b \<and> b < 256"
  using pending_bytes by force

end

definition str_pending :: "strfile \<Rightarrow> int list" where
  "str_pending p = take (nat (strcnt p)) (drop (nat (strptr p)) (strbase p))"

definition str_skip :: "nat \<Rightarrow> strfile \<Rightarrow> strfile" where
  "str_skip n p = p\<lparr>strcnt := strcnt p - int n, strptr := strptr p + int n\<rparr>"

definition str_ok :: "strfile \<Rightarrow> bool" where
  "str_ok p \<longleftrightarrow> all_bytes (strbase p) \<and>
     (0 < strcnt p \<longrightarrow> 0 \<le> strptr p \<and> strptr p + strcnt p \<le> int (length (strbase p)))"

lemma length_str_pending: "str_ok p \<Longrightarrow> length (str_pending p) = nat (strcnt p)"
  by (auto simp: str_pending_def str_ok_def)

lemma all_bytes_take_drop: "all_bytes xs \<Longrightarrow> all_bytes (take n (drop m xs))"
  by (auto simp: all_bytes_def dest: in_set_takeD in_set_dropD)

interpretation strs: byte_source strgetc str_pending str_skip str_ok
proof
  fix s b bs
  assume ok: "str_ok s" and p: "str_pending s = b # bs"
  then have "0 < strcnt s" using length_str_pending [of s] by simp
  moreover have "b = strbase s ! nat (strptr s)"
  proof -
    have "b = str_pending s ! 0" using p by simp
    also have "\<dots> = strbase s ! nat (strptr s)"
      using \<open>0 < strcnt s\<close> ok
      by (simp add: str_pending_def str_ok_def nat_le_iff)
    finally show ?thesis .
  qed
  ultimately show "strgetc s = Inr (b, str_skip 1 s)"
    using ok by (simp add: strgetc_def str_skip_def str_ok_def)
next
  show "\<exists>s'. strgetc s = Inr (- 1, s') \<and> str_ok s' \<and> str_pending s' = []"
    if "str_ok s" "str_pending s = []" for s
  proof -
    have "strcnt s \<le> 0" using that length_str_pending [of s] by simp
    then show ?thesis using that by (simp add: strgetc_def str_ok_def str_pending_def)
  qed
next
  show "str_pending (str_skip n s) = drop n (str_pending s)"
    if "str_ok s" "n \<le> length (str_pending s)" for s n
  proof (cases "0 < strcnt s")
    case True
    then have "nat (strcnt s - int n) = nat (strcnt s) - n" "nat (strptr s + int n) = n + nat (strptr s)"
      using that by (auto simp: str_ok_def nat_diff_distrib nat_add_distrib)
    then show ?thesis by (simp add: str_pending_def str_skip_def drop_take)
  next
    case False
    then show ?thesis by (simp add: str_pending_def str_skip_def)
  qed
next
  show "str_ok (str_skip n s)" if "str_ok s" "n \<le> length (str_pending s)" for s n
    using that length_str_pending [of s] by (auto simp: str_ok_def str_skip_def)
next
  show "str_skip n (str_skip m s) = str_skip (m + n) s" for s m n
    by (simp add: str_skip_def)
next
  show "all_bytes (str_pending s)" if "str_ok s" for s
    using that by (simp add: str_ok_def str_pending_def all_bytes_take_drop)
qed

interpretation files: byte_source "\<lambda>bs. Inr (getc_file bs)" "\<lambda>bs. bs" drop all_bytes
  by unfold_locales (auto simp: all_bytes_def add.commute dest: in_set_dropD)

fun pending :: "instream \<Rightarrow> int list" where
  "pending (StrIn p) = str_pending p"
| "pending (FileIn bs) = bs"

fun skip :: "nat \<Rightarrow> instream \<Rightarrow> instream" where
  "skip n (StrIn p) = StrIn (str_skip n p)"
| "skip n (FileIn bs) = FileIn (drop n bs)"

fun stream_ok :: "instream \<Rightarrow> bool" where
  "stream_ok (StrIn p) = str_ok p"
| "stream_ok (FileIn bs) = all_bytes bs"

lemma input_is_string_skip [simp]: "input_is_string (skip n s) = input_is_string s"
  by (cases s) auto

lemmas source_rules =
  strs.get_byte strs.skip_pending strs.skip_ok strs.skip_skip strs.pending_bytes
  files.skip_ok

interpretation input: byte_source GetC pending skip stream_ok
proof
  show "GetC s = Inr (b, skip 1 s)" if "stream_ok s" "pending s = b # bs" for s b bs
    using that by (cases s) (simp_all add: source_rules)
next
  show "\<exists>s'. GetC s = Inr (- 1, s') \<and> stream_ok s' \<and> pending s' = []"
    if "stream_ok s" "pending s = []" for s
  proof (cases s)
    case (StrIn p)
    with that strs.get_end [of p] obtain p' where
      "strgetc p = Inr (-1, p')" "str_ok p'" "str_pending p' = []" by auto
    then have "GetC s = Inr (-1, StrIn p')" "stream_ok (StrIn p')" "pending (StrIn p') = []"
      using StrIn by simp_all
    then show ?thesis by blast
  next
    case (FileIn bs)
    with that show ?thesis by simp
  qed
next
  show "pending (skip n s) = drop n (pending s)" if "stream_ok s" "n \<le> length (pending s)" for s n
    using that by (cases s) (simp_all add: source_rules)
next
  show "stream_ok (skip n s)" if "stream_ok s" "n \<le> length (pending s)" for s n
    using that by (cases s) (simp_all add: source_rules)
next
  show "skip n (skip m s) = skip (m + n) s" if "stream_ok s" "m + n \<le> length (pending s)" for s m n
    using that by (cases s) (simp_all add: source_rules add.commute [of n m])
next
  show "all_bytes (pending s)" if "stream_ok s" for s
    using that by (cases s) (simp_all add: source_rules)
qed

section \<open>Reading shortens the input\<close>

fun avail :: "instream \<Rightarrow> nat" where
  "avail (StrIn p) = nat (strcnt p)"
| "avail (FileIn bs) = length bs"

lemma to_char_EOF [simp]: "to_char (-1) = -1"
  by (simp add: to_char_def)

lemma strgetc_count:
  "strgetc p = Inr (c, p') \<Longrightarrow> strcnt p' = strcnt p - 1 \<and> (c \<noteq> -1 \<longrightarrow> 0 < strcnt p)"
  by (auto simp: strgetc_def Let_def split: if_splits)

lemma GetC_StrIn:
  "GetC (StrIn p) = Inr (c, s) \<Longrightarrow>
     \<exists>p'. s = StrIn p' \<and> strcnt p' = strcnt p - 1 \<and> (c \<noteq> -1 \<longrightarrow> 0 < strcnt p)"
  by (auto dest: strgetc_count)

lemma GetC_FileIn:
  "GetC (FileIn bs) = Inr (c, s) \<Longrightarrow>
     bs = [] \<and> c = -1 \<and> s = FileIn [] \<or> (\<exists>bs'. bs = c # bs' \<and> s = FileIn bs')"
  by (cases bs) auto

lemma utf8_GetCode_StrIn:
  "utf8_GetCode (StrIn p) c = Inr (d, s) \<Longrightarrow> \<exists>p'. s = StrIn p' \<and> strcnt p' \<le> strcnt p"
  by (auto simp: utf8_GetCode_def unget_if_pos_def simp del: GetC.simps dest!: GetC_StrIn
      split: if_splits)

lemma length_ungetc_file: "length (ungetc_file d bs) \<le> Suc (length bs)"
  by (simp add: ungetc_file_def)

lemma utf8_GetCode_FileIn:
  "utf8_GetCode (FileIn bs) c = Inr (d, s) \<Longrightarrow> \<exists>bs'. s = FileIn bs' \<and> length bs' \<le> length bs"
  by (auto simp: utf8_GetCode_def unget_if_pos_def ungetc_file_def simp del: GetC.simps
      dest!: GetC_FileIn split: if_splits)

lemma GetC_avail:
  "GetC s = Inr (c, s') \<Longrightarrow> avail s' \<le> avail s \<and> (c \<noteq> -1 \<longrightarrow> avail s' < avail s)"
  by (cases s) (auto simp del: GetC.simps dest!: GetC_StrIn GetC_FileIn)

lemma GetCode_StrIn:
  assumes "GetCode cs (StrIn p) = Inr (c, s)"
  shows "\<exists>p'. s = StrIn p' \<and> strcnt p' < strcnt p \<and> (c \<noteq> -1 \<longrightarrow> 0 < strcnt p)"
proof -
  obtain d s1 where g: "GetC (StrIn p) = Inr (d, s1)"
    and r: "(if d = -1 then Inr (d, s1) else if input_is_string s1 then utf8_GetCode s1 d else
       case cs of LATIN_1 \<Rightarrow> Inr (d, s1) | UTF_8 \<Rightarrow> utf8_GetCode s1 d
            | CP1252 \<Rightarrow> res_bind (array_get code_page_1252 d) (\<lambda>cp. Inr (cp, s1))
            | OtherCharset _ \<Rightarrow> Inr (0, s1)) = Inr (c, s)"
    using assms by (auto simp: GetCode_def simp del: GetC.simps)
  obtain p1 where p1: "s1 = StrIn p1" "strcnt p1 = strcnt p - 1" "d \<noteq> -1 \<longrightarrow> 0 < strcnt p"
    using GetC_StrIn [OF g] by auto
  show ?thesis
  proof (cases "d = -1")
    case True
    with r p1 show ?thesis by auto
  next
    case False
    with r p1 have "utf8_GetCode (StrIn p1) d = Inr (c, s)" by simp
    then obtain p' where "s = StrIn p'" "strcnt p' \<le> strcnt p1"
      using utf8_GetCode_StrIn by blast
    with p1 False show ?thesis by auto
  qed
qed

lemma GetCode_FileIn:
  assumes "GetCode cs (FileIn bs) = Inr (c, s)"
  shows "\<exists>bs'. s = FileIn bs' \<and> (bs = [] \<and> bs' = [] \<and> c = -1 \<or> length bs' < length bs)"
proof (cases bs)
  case Nil
  with assms show ?thesis by (simp add: GetCode_def)
next
  case (Cons b bt)
  show ?thesis
  proof (cases "b = -1")
    case True
    with assms Cons show ?thesis by (auto simp: GetCode_def)
  next
    case False
    with assms Cons consider "s = FileIn bt" | "utf8_GetCode (FileIn bt) b = Inr (c, s)"
      by (cases cs) (auto simp: GetCode_def)
    then show ?thesis using Cons utf8_GetCode_FileIn [of bt b c s] by cases auto
  qed
qed

lemma GetCode_avail:
  assumes "GetCode cs s = Inr (c, s')"
  shows "avail s' \<le> avail s" "c \<noteq> -1 \<Longrightarrow> avail s' < avail s" "avail (unGetC c s') \<le> avail s"
proof -
  have "avail s' \<le> avail s \<and> (c \<noteq> -1 \<longrightarrow> avail s' < avail s) \<and> avail (unGetC c s') \<le> avail s"
  proof (cases s)
    case (StrIn p)
    then show ?thesis using assms GetCode_StrIn [of cs p c s'] by auto
  next
    case (FileIn bs)
    then obtain bs' where b: "s' = FileIn bs'" "bs = [] \<and> bs' = [] \<and> c = -1 \<or> length bs' < length bs"
      using assms GetCode_FileIn [of cs bs c s'] by auto
    then show ?thesis using FileIn length_ungetc_file [of c bs']
      by (auto simp: ungetc_file_def)
  qed
  then show "avail s' \<le> avail s" "c \<noteq> -1 \<Longrightarrow> avail s' < avail s" "avail (unGetC c s') \<le> avail s"
    by auto
qed

end
