(* ===== verification/Utf8.thy ===== *)
theory Utf8 imports Byte_Source begin

text \<open>
  The loops over encoded strings (\<open>utf8_nchars\<close>, \<open>coding_nchars\<close>,
  \<open>write_string_code\<close> of emu/token_xsb.c) and the theorems about the codecs: every
  decoder inverts the encoder, counting counts code points, and reading never
  lengthens the input.
\<close>

section \<open>Loops over encoded strings\<close>

text \<open>
  \<open>utf8_nchars\<close> steps over one character per iteration; \<open>utf8_step\<close> is the index
  after the character at \<open>i\<close>.
\<close>

definition utf8_step :: "int list \<Rightarrow> int \<Rightarrow> int \<Rightarrow> int res" where
  "utf8_step bs c i =
    (if and c 0x80 \<noteq> 0 then
      if and c 0xe0 = 0xc0 then
        res_bind (array_get bs (i + 1)) (\<lambda>b2. Inr (if is_cont b2 then i + 2 else i + 1))
      else if and c 0xf0 = 0xe0 then
        res_bind (array_get bs (i + 1)) (\<lambda>b2.
          if is_cont b2 then
            res_bind (array_get bs (i + 2)) (\<lambda>b3. Inr (if is_cont b3 then i + 3 else i + 1))
          else Inr (i + 1))
      else if and c 0xf8 = 0xf0 then
        res_bind (array_get bs (i + 1)) (\<lambda>b2.
          if is_cont b2 then
            res_bind (array_get bs (i + 2)) (\<lambda>b3.
              if is_cont b3 then
                res_bind (array_get bs (i + 3)) (\<lambda>b4. Inr (if is_cont b4 then i + 4 else i + 1))
              else Inr (i + 1))
          else Inr (i + 1))
      else Inr (i + 1)
    else Inr (i + 1))"

lemma utf8_step_increases: "utf8_step bs c i = Inr j \<Longrightarrow> i < j"
  by (auto simp: utf8_step_def split: if_splits)

function utf8_nchars_from :: "int list \<Rightarrow> int \<Rightarrow> int \<Rightarrow> int res" where
  "utf8_nchars_from bs i count =
    res_bind (array_get bs i) (\<lambda>c.
      if c = 0 then Inr count
      else res_bind (utf8_step bs c i) (\<lambda>j. utf8_nchars_from bs j (count + 1)))"
  by pat_completeness auto
termination
  by (relation "measure (\<lambda>(bs, i, count). nat (int (length bs) - i))")
     (auto simp: array_get_Inr dest: utf8_step_increases)

declare utf8_nchars_from.simps [simp del]

definition utf8_nchars :: "int list \<Rightarrow> int res" where
  "utf8_nchars bs = utf8_nchars_from bs 0 0"

fun c_strlen :: "int list \<Rightarrow> int res" where
  "c_strlen [] = Inl (Out_Of_Bounds 0)"
| "c_strlen (b # bs) = (if b = 0 then Inr 0 else res_bind (c_strlen bs) (\<lambda>n. Inr (n + 1)))"

fun coding_nchars :: "charset \<Rightarrow> int list \<Rightarrow> int res" where
  "coding_nchars LATIN_1 bs = c_strlen bs"
| "coding_nchars CP1252 bs = c_strlen bs"
| "coding_nchars UTF_8 bs = utf8_nchars bs"
| "coding_nchars (OtherCharset _) bs = Inr 0"

lemma utf8_char_to_codepoint_increases: "utf8_char_to_codepoint bs i = Inr (c, j) \<Longrightarrow> i < j"
  by (auto simp: utf8_char_to_codepoint_def split: if_splits)

lemma utf8_char_to_codepoint_inside:
  "utf8_char_to_codepoint bs i = Inr (c, j) \<Longrightarrow> 0 \<le> i \<and> i < int (length bs)"
  by (auto simp: utf8_char_to_codepoint_def array_get_Inr)

fun c_string :: "int list \<Rightarrow> int list" where
  "c_string [] = []"
| "c_string (b # bs) = (if b = 0 then [] else b # c_string bs)"

text \<open>
  \<open>write_string_code\<close> prints a UTF-8 string as it is and recodes it character by
  character for the other character sets. The result is the bytes written and the
  code page 1252 inversion table.
\<close>

function write_chars :: "int list \<Rightarrow> charset \<Rightarrow> int list \<Rightarrow> int \<Rightarrow> int list
    \<Rightarrow> (int list \<times> int list) res" where
  "write_chars hash cs bs i out =
    res_bind (array_get bs i) (\<lambda>b.
      if b = 0 then Inr (out, hash)
      else res_bind (utf8_char_to_codepoint bs i) (\<lambda>(cp, j).
           res_bind (PutCode hash cp cs) (\<lambda>(o1, hash). write_chars hash cs bs j (out @ o1))))"
  by pat_completeness auto
termination
  by (relation "measure (\<lambda>(hash, cs, bs, i, out). nat (int (length bs) - i))")
     (auto simp: array_get_Inr dest: utf8_char_to_codepoint_increases)

declare write_chars.simps [simp del]

definition write_string_code :: "int list \<Rightarrow> charset \<Rightarrow> int list \<Rightarrow> (int list \<times> int list) res" where
  "write_string_code hash cs bs =
    (if cs = UTF_8 then Inr (c_string bs, hash) else write_chars hash cs bs 0 [])"

section \<open>Bit patterns of the encoding\<close>

lemma is_cont_list: "list_all (\<lambda>i. is_cont (int i) = (128 \<le> i \<and> i < 192)) [0..<256]"
  by code_simp

lemma lead_list:
  "list_all (\<lambda>i. (and (int i) 0x80 \<noteq> 0) = (128 \<le> i) \<and>
     (and (int i) 0xe0 = 0xc0) = (192 \<le> i \<and> i < 224) \<and>
     (and (int i) 0xf0 = 0xe0) = (224 \<le> i \<and> i < 240) \<and>
     (and (int i) 0xf8 = 0xf0) = (240 \<le> i \<and> i < 248)) [0..<256]"
  by code_simp

lemma is_cont_iff: "0 \<le> b \<Longrightarrow> b < 256 \<Longrightarrow> is_cont b \<longleftrightarrow> 128 \<le> b \<and> b < 192"
  using list_all_uptD [OF is_cont_list, of "nat b"] by auto

lemma not_cont_EOF [simp]: "\<not> is_cont (-1)"
  by (simp add: is_cont_def)

lemma lead_iff:
  fixes b :: int
  assumes "0 \<le> b" "b < 256"
  shows "(and b 0x80 \<noteq> 0) = (128 \<le> b)"
    "(and b 0xe0 = 0xc0) = (192 \<le> b \<and> b < 224)"
    "(and b 0xf0 = 0xe0) = (224 \<le> b \<and> b < 240)"
    "(and b 0xf8 = 0xf0) = (240 \<le> b \<and> b < 248)"
  using list_all_uptD [OF lead_list, of "nat b"] assms by auto

lemma and_low_bits:
  "and c (0x1f :: int) = c mod 32" "and c (0xf :: int) = c mod 16" "and c (0x3f :: int) = c mod 64"
proof -
  have "and c (mask n) = c mod 2 ^ n" for n
    by (simp add: take_bit_eq_mask [symmetric] take_bit_eq_mod)
  from this [of 5] this [of 4] this [of 6]
  show "and c (0x1f :: int) = c mod 32" "and c (0xf :: int) = c mod 16"
    "and c (0x3f :: int) = c mod 64"
    by (simp_all add: mask_eq_exp_minus_1)
qed

lemma or_push_bit_add:
  fixes a b :: int
  assumes "0 \<le> b" "b < 2 ^ n"
  shows "or (push_bit n a) b = a * 2 ^ n + b"
proof -
  have "or (push_bit n a) b = concat_bit n b a"
    using assms by (simp add: concat_bit_def or.commute take_bit_int_eq_self)
  also have "\<dots> = a * 2 ^ n + b"
    using assms by (simp add: concat_bit_eq take_bit_int_eq_self push_bit_eq_mult)
  finally show ?thesis .
qed

lemma join2_eq: "join2 c b2 = (c mod 32) * 64 + b2 mod 64"
  using or_push_bit_add [of "b2 mod 64" 6 "c mod 32"]
  by (simp add: join2_def and_low_bits)

lemma join3_eq: "join3 c b2 b3 = (c mod 16) * 4096 + (b2 mod 64) * 64 + b3 mod 64"
proof -
  have "or (push_bit 12 (c mod 16)) (push_bit 6 (b2 mod 64)) = push_bit 6 ((c mod 16) * 64 + b2 mod 64)"
    using or_push_bit_add [of "(b2 mod 64) * 64" 12 "c mod 16"]
    by (simp add: push_bit_eq_mult algebra_simps)
  then show ?thesis
    using or_push_bit_add [of "b3 mod 64" 6 "(c mod 16) * 64 + b2 mod 64"]
    by (simp add: join3_def and_low_bits algebra_simps)
qed

lemma join4_eq:
  "join4 c b2 b3 b4 = (c mod 16) * 262144 + (b2 mod 64) * 4096 + (b3 mod 64) * 64 + b4 mod 64"
proof -
  have 1: "or (push_bit 18 (c mod 16)) (push_bit 12 (b2 mod 64)) = push_bit 12 ((c mod 16) * 64 + b2 mod 64)"
    using or_push_bit_add [of "(b2 mod 64) * 4096" 18 "c mod 16"]
    by (simp add: push_bit_eq_mult algebra_simps)
  have 2: "or (push_bit 12 ((c mod 16) * 64 + b2 mod 64)) (push_bit 6 (b3 mod 64))
     = push_bit 6 (((c mod 16) * 64 + b2 mod 64) * 64 + b3 mod 64)"
    using or_push_bit_add [of "(b3 mod 64) * 64" 12 "(c mod 16) * 64 + b2 mod 64"]
    by (simp add: push_bit_eq_mult algebra_simps)
  have 3: "or (push_bit 6 (((c mod 16) * 64 + b2 mod 64) * 64 + b3 mod 64)) (b4 mod 64)
     = (((c mod 16) * 64 + b2 mod 64) * 64 + b3 mod 64) * 64 + b4 mod 64"
    using or_push_bit_add [of "b4 mod 64" 6 "((c mod 16) * 64 + b2 mod 64) * 64 + b3 mod 64"] by simp
  show ?thesis
    unfolding join4_def and_low_bits 1 2 3 by (simp add: algebra_simps)
qed

section \<open>Decoding inverts encoding\<close>

lemma div_mod_64:
  fixes cp :: int
  shows "cp div 64 * 64 + cp mod 64 = cp"
    "cp div 4096 * 64 + cp div 64 mod 64 = cp div 64"
    "cp div 262144 * 64 + cp div 4096 mod 64 = cp div 4096"
proof -
  have d: "cp div 4096 = cp div 64 div 64" "cp div 262144 = cp div 4096 div 64"
    using zdiv_zmult2_eq [of 64 cp 64] zdiv_zmult2_eq [of 64 cp 4096] by simp_all
  show "cp div 64 * 64 + cp mod 64 = cp" by (rule div_mult_mod_eq)
  show "cp div 4096 * 64 + cp div 64 mod 64 = cp div 64"
    unfolding d(1) by (rule div_mult_mod_eq)
  show "cp div 262144 * 64 + cp div 4096 mod 64 = cp div 4096"
    unfolding d(2) by (rule div_mult_mod_eq)
qed

lemma utf8_encoding_cases:
  assumes "0 \<le> cp" "cp < 0x200000"
  obtains (one) "cp < 0x80" "utf8_codepoint_to_str cp = [cp]"
  | (two) q r where "cp = q * 64 + r" "2 \<le> q" "q < 32" "0 \<le> r" "r < 64"
      "utf8_codepoint_to_str cp = [192 + q, 128 + r]"
  | (three) q r t where "cp = q * 4096 + r * 64 + t" "0 \<le> q" "q < 16" "0 \<le> r" "r < 64" "0 \<le> t" "t < 64"
      "utf8_codepoint_to_str cp = [224 + q, 128 + r, 128 + t]"
  | (four) q r t u where "cp = q * 262144 + r * 4096 + t * 64 + u" "0 \<le> q" "q < 8"
      "0 \<le> r" "r < 64" "0 \<le> t" "t < 64" "0 \<le> u" "u < 64"
      "utf8_codepoint_to_str cp = [240 + q, 128 + r, 128 + t, 128 + u]"
proof -
  note m = pos_mod_sign [of 64] pos_mod_bound [of 64]
  consider "cp < 0x80" | "0x80 \<le> cp" "cp < 0x800" | "0x800 \<le> cp" "cp < 0x10000" | "0x10000 \<le> cp"
    by linarith
  then show thesis
  proof cases
    case 1
    then show thesis using assms by (intro one) (simp_all add: utf8_codepoint_to_str_def)
  next
    case 2
    have q: "2 \<le> cp div 64" "cp div 64 < 32" using 2 by linarith+
    have "utf8_codepoint_to_str cp = [192 + cp div 64, 128 + cp mod 64]"
      using 2 q by (simp add: utf8_codepoint_to_str_def to_byte_def)
    with q show thesis by (intro two) (simp_all only: div_mod_64 m)
  next
    case 3
    have q: "0 \<le> cp div 4096" "cp div 4096 < 16" using 3 by linarith+
    have e: "utf8_codepoint_to_str cp = [224 + cp div 4096, 128 + cp div 64 mod 64, 128 + cp mod 64]"
      using 3 q by (simp add: utf8_codepoint_to_str_def to_byte_def)
    have s: "cp = cp div 4096 * 4096 + cp div 64 mod 64 * 64 + cp mod 64"
      using div_mod_64 [of cp] by linarith
    show thesis by (rule three [OF s q _ _ _ _ e]) (simp_all only: m)
  next
    case 4
    have q: "0 \<le> cp div 262144" "cp div 262144 < 8" using 4 assms by linarith+
    have e: "utf8_codepoint_to_str cp
        = [240 + cp div 262144, 128 + cp div 4096 mod 64, 128 + cp div 64 mod 64, 128 + cp mod 64]"
      using 4 q by (simp add: utf8_codepoint_to_str_def to_byte_def)
    have s: "cp = cp div 262144 * 262144 + cp div 4096 mod 64 * 4096 + cp div 64 mod 64 * 64 + cp mod 64"
      using div_mod_64 [of cp] by linarith
    show thesis by (rule four [OF s q _ _ _ _ _ _ e]) (simp_all only: m)
  qed
qed

lemma lead_mods:
  fixes q :: int
  shows "0 \<le> q \<Longrightarrow> q < 32 \<Longrightarrow> (192 + q) mod 32 = q"
    "0 \<le> q \<Longrightarrow> q < 16 \<Longrightarrow> (224 + q) mod 16 = q"
    "0 \<le> q \<Longrightarrow> q < 8 \<Longrightarrow> (240 + q) mod 16 = q"
    "0 \<le> q \<Longrightarrow> q < 64 \<Longrightarrow> (128 + q) mod 64 = q"
proof -
  show "(192 + q) mod 32 = q" if "0 \<le> q" "q < 32"
    by (rule int_mod_pos_eq [where q = 6]) (use that in linarith)+
  show "(224 + q) mod 16 = q" if "0 \<le> q" "q < 16"
    by (rule int_mod_pos_eq [where q = 14]) (use that in linarith)+
  show "(240 + q) mod 16 = q" if "0 \<le> q" "q < 8"
    by (rule int_mod_pos_eq [where q = 15]) (use that in linarith)+
  show "(128 + q) mod 64 = q" if "0 \<le> q" "q < 64"
    by (rule int_mod_pos_eq [where q = 2]) (use that in linarith)+
qed

lemma array_get_append:
  "i = int (length pre) + int k \<Longrightarrow> k < length ys \<Longrightarrow> array_get (pre @ ys) i = Inr (ys ! k)"
  by (simp add: array_get_def nth_append nat_add_distrib)

lemma utf8_decode_encode:
  assumes "0 \<le> cp" "cp < 0x200000"
  shows "utf8_char_to_codepoint (pre @ utf8_codepoint_to_str cp @ post) (int (length pre))
    = Inr (cp, int (length pre) + int (length (utf8_codepoint_to_str cp)))"
  using assms
proof (cases cp rule: utf8_encoding_cases)
  case one
  with assms show ?thesis
    by (simp del: array_get_ok add: utf8_char_to_codepoint_def array_get_append [where k = 0] lead_iff)
next
  case (two q r)
  then show ?thesis
    by (simp del: array_get_ok add: utf8_char_to_codepoint_def array_get_append [where k = 0]
        array_get_append [where k = 1] lead_iff is_cont_iff join2_eq lead_mods)
next
  case (three q r t)
  then show ?thesis
    by (simp del: array_get_ok add: utf8_char_to_codepoint_def array_get_append [where k = 0]
        array_get_append [where k = 1] array_get_append [where k = 2]
        lead_iff is_cont_iff join3_eq lead_mods)
next
  case (four q r t u)
  then show ?thesis
    by (simp del: array_get_ok add: utf8_char_to_codepoint_def array_get_append [where k = 0]
        array_get_append [where k = 1] array_get_append [where k = 2]
        array_get_append [where k = 3] lead_iff is_cont_iff join4_eq lead_mods)
qed

lemma utf8_encoding_bytes: "all_bytes (utf8_codepoint_to_str cp)"
  unfolding utf8_codepoint_to_str_def all_bytes_def set_map by simp

lemma utf8_encoding_nonzero:
  assumes "0 < cp" "cp < 0x200000" shows "0 \<notin> set (utf8_codepoint_to_str cp)"
  using order.strict_implies_order [OF assms(1)] assms(2)
  by (cases cp rule: utf8_encoding_cases) (use assms in auto)

text \<open>Reading one encoded character from a stream.\<close>

lemma GetC_pending:
  assumes "stream_ok s" "pending s = b # bs"
  shows "GetC s = Inr (b, skip 1 s)" "stream_ok (skip 1 s)" "pending (skip 1 s) = bs"
  using assms input.get_byte input.skip_ok [of s 1] input.skip_pending [of s 1] by simp_all

lemma GetC_more:
  assumes "stream_ok s" "pending s = xs @ b # ys" "n = length xs"
  shows "GetC (skip n s) = Inr (b, skip (Suc n) s)"
  using input.get_after [OF assms(1,2)] assms(3) by simp

lemma GetC_chain:
  assumes "stream_ok s" "n < length (pending s)"
  shows "GetC (skip n s) = Inr (pending s ! n, skip (Suc n) s)"
  using input.get_at [OF assms] .

lemma utf8_GetCode_encoded:
  assumes ok: "stream_ok s" and p: "pending s = utf8_codepoint_to_str cp @ post"
    and cp: "0 \<le> cp" "cp < 0x200000"
  shows "res_bind (GetC s) (\<lambda>(c, s). utf8_GetCode s c)
    = Inr (cp, skip (length (utf8_codepoint_to_str cp)) s)"
  using cp
proof (cases cp rule: utf8_encoding_cases)
  case one
  then show ?thesis using cp p GetC_pending [OF ok] by (simp add: utf8_GetCode_def)
next
  case (two q r)
  then show ?thesis
    using p GetC_pending [OF ok] GetC_chain [OF ok, of 1]
    by (simp add: utf8_GetCode_def lead_iff is_cont_iff join2_eq lead_mods numeral_2_eq_2)
next
  case (three q r t)
  then show ?thesis
    using p GetC_pending [OF ok] GetC_chain [OF ok, of 1] GetC_chain [OF ok, of 2]
    by (simp add: utf8_GetCode_def lead_iff is_cont_iff join3_eq lead_mods numeral_eq_Suc)
next
  case (four q r t u)
  then show ?thesis
    using p GetC_pending [OF ok] GetC_chain [OF ok, of 1] GetC_chain [OF ok, of 2]
      GetC_chain [OF ok, of 3]
    by (simp add: utf8_GetCode_def lead_iff is_cont_iff join4_eq lead_mods numeral_eq_Suc)
qed

lemma utf8_encoding_Cons: 
  assumes "0 \<le> cp" "cp < 0x200000"
  obtains b bs where "utf8_codepoint_to_str cp = b # bs" "0 \<le> b" "b < 256"
  using assms
proof (cases cp rule: utf8_encoding_cases)
  case one
  with assms show ?thesis by (intro that [of cp "[]"]) simp_all
next
  case (two q r)
  then show ?thesis by (intro that [of "192 + q" "[128 + r]"]) simp_all
next
  case (three q r t)
  then show ?thesis by (intro that [of "224 + q" "[128 + r, 128 + t]"]) simp_all
next
  case (four q r t u)
  then show ?thesis by (intro that [of "240 + q" "[128 + r, 128 + t, 128 + u]"]) simp_all
qed

lemma GetCode_encoded:
  assumes ok: "stream_ok s" and p: "pending s = utf8_codepoint_to_str cp @ post"
    and cp: "0 \<le> cp" "cp < 0x200000" and cs: "input_is_string s \<or> cs = UTF_8"
  shows "GetCode cs s = Inr (cp, skip (length (utf8_codepoint_to_str cp)) s)"
proof -
  obtain b bs where e: "utf8_codepoint_to_str cp = b # bs" "0 \<le> b"
    using cp by (rule utf8_encoding_Cons)
  then have g: "GetC s = Inr (b, skip 1 s)" using p by (intro GetC_pending [OF ok]) simp
  with cs e have "GetCode cs s = utf8_GetCode (skip 1 s) b"
    by (cases cs) (auto simp: GetCode_def)
  with g utf8_GetCode_encoded [OF ok p cp] show ?thesis by simp
qed

text \<open>Counting the characters of an encoded text.\<close>

lemma utf8_step_encoded:
  assumes cp: "0 < cp" "cp < 0x200000"
  shows "\<exists>c. array_get (pre @ utf8_codepoint_to_str cp @ post) (int (length pre)) = Inr c \<and> c \<noteq> 0 \<and>
    utf8_step (pre @ utf8_codepoint_to_str cp @ post) c (int (length pre))
      = Inr (int (length pre) + int (length (utf8_codepoint_to_str cp)))"
proof -
  have "0 \<le> cp" using cp by simp
  from this cp(2) show ?thesis
  proof (cases cp rule: utf8_encoding_cases)
    case one
    with cp show ?thesis
      by (simp del: array_get_ok add: utf8_step_def array_get_append [where k = 0] lead_iff)
  next
    case (two q r)
    then show ?thesis
      by (simp del: array_get_ok add: utf8_step_def array_get_append [where k = 0]
          array_get_append [where k = 1] lead_iff is_cont_iff)
  next
    case (three q r t)
    then show ?thesis
      by (simp del: array_get_ok add: utf8_step_def array_get_append [where k = 0]
          array_get_append [where k = 1] array_get_append [where k = 2] lead_iff is_cont_iff)
  next
    case (four q r t u)
    then show ?thesis
      by (simp del: array_get_ok add: utf8_step_def array_get_append [where k = 0]
          array_get_append [where k = 1] array_get_append [where k = 2]
          array_get_append [where k = 3] lead_iff is_cont_iff)
  qed
qed

lemma utf8_nchars_from_encoded:
  assumes "\<forall>cp \<in> set cps. 0 < cp \<and> cp < 0x200000"
  shows "utf8_nchars_from (pre @ concat (map utf8_codepoint_to_str cps) @ 0 # post)
    (int (length pre)) n = Inr (n + int (length cps))"
  using assms
proof (induction cps arbitrary: pre n)
  case Nil
  show ?case
    by (subst utf8_nchars_from.simps) (simp del: array_get_ok add: array_get_append [where k = 0])
next
  case (Cons cp cps)
  let ?rest = "concat (map utf8_codepoint_to_str cps) @ 0 # post"
  let ?bs = "pre @ utf8_codepoint_to_str cp @ ?rest"
  obtain c where c: "array_get ?bs (int (length pre)) = Inr c" "c \<noteq> 0"
    "utf8_step ?bs c (int (length pre)) = Inr (int (length pre) + int (length (utf8_codepoint_to_str cp)))"
    using utf8_step_encoded [of cp pre ?rest] Cons.prems by auto
  have "utf8_nchars_from ?bs (int (length (pre @ utf8_codepoint_to_str cp))) (n + 1)
      = Inr (n + 1 + int (length cps))"
    using Cons.IH [of "pre @ utf8_codepoint_to_str cp" "n + 1"] Cons.prems by simp
  then show ?case
    by (subst utf8_nchars_from.simps) (simp add: c)
qed

section \<open>Code page 1252\<close>

text \<open>The inversion table only holds indices into the code page.\<close>

definition w1252_hash_ok :: "int list \<Rightarrow> bool" where
  "w1252_hash_ok h \<longleftrightarrow> length h = 256 \<and> all_bytes h"

lemma w1252_hash_ok_init: "w1252_hash_ok (replicate 256 0)"
  by (simp add: w1252_hash_ok_def all_bytes_def)

lemma w1252_search_Some:
  "w1252_search cp is = Some i \<Longrightarrow> i \<in> set is \<and> code_page_1252 ! i = cp"
  by (induction "is") (auto split: if_splits)

lemma w1252_search_None:
  "w1252_search cp is = None \<Longrightarrow> i \<in> set is \<Longrightarrow> code_page_1252 ! i \<noteq> cp"
  by (induction "is") (auto split: if_splits)

lemma all_bytes_update: "all_bytes h \<Longrightarrow> 0 \<le> b \<Longrightarrow> b < 256 \<Longrightarrow> all_bytes (h[i := b])"
  unfolding all_bytes_def using set_update_subset_insert by fastforce

lemma code_page_1252_inj:
  "i < 256 \<Longrightarrow> j < 256 \<Longrightarrow> code_page_1252 ! i = code_page_1252 ! j \<Longrightarrow> i = j"
  using distinct_code_page_1252 by (simp add: nth_eq_iff_index_eq)

lemma w1252_encode_decode:
  assumes h: "w1252_hash_ok h" and b: "b < 256"
  shows "\<exists>h'. w1252_codepoint_to_str h (code_page_1252 ! b) = Inr ([int b], h') \<and> w1252_hash_ok h'"
proof -
  let ?cp = "code_page_1252 ! b"
  have cp: "0 \<le> ?cp" "?cp < 65536" using code_page_1252_range [OF b] by auto
  have len: "length h = 256" and bytes: "\<And>i. i < 256 \<Longrightarrow> 0 \<le> h ! i \<and> h ! i < 256"
    using h by (auto simp: w1252_hash_ok_def all_bytes_def)
  show ?thesis
  proof (cases "?cp \<le> 0xff \<and> code_page_1252 ! nat ?cp = ?cp")
    case True
    then have "nat ?cp = b" using cp b by (intro code_page_1252_inj) auto
    then have "?cp = int b" using cp by linarith
    with True h cp b show ?thesis by (simp add: w1252_codepoint_to_str_def)
  next
    case False
    have self: "(if ?cp \<le> 0xff then res_bind (array_get code_page_1252 ?cp) (\<lambda>v. Inr (v = ?cp))
        else Inr False) = Inr False"
      using False cp by auto
    have hc: "0 \<le> ?cp mod 255" "?cp mod 255 < 255" by simp_all
    define hind where "hind = h ! nat (?cp mod 255)"
    have hind: "array_get h (?cp mod 255) = Inr hind" "0 \<le> hind" "hind < 256"
      using bytes [of "nat (?cp mod 255)"] hc by (simp_all add: hind_def len nat_less_iff)
    show ?thesis
    proof (cases "code_page_1252 ! nat hind = ?cp")
      case True
      then have "nat hind = b" using hind b by (intro code_page_1252_inj) auto
      then have "hind = int b" using hind by linarith
      with True self hind h show ?thesis by (simp add: w1252_codepoint_to_str_def)
    next
      case False': False
      have "\<not> (b < 128 \<or> 160 \<le> b)"
        using False code_page_1252_self [OF b] b by auto
      then have "b \<in> {0x80..<0xa0}" by auto
      then have "b \<in> set [0x80..<0xa0]" by (simp only: set_upt)
      then obtain i where i: "w1252_search ?cp [0x80..<0xa0] = Some i"
        using w1252_search_None by (cases "w1252_search ?cp [0x80..<0xa0]") blast+
      have "i \<in> {0x80..<0xa0}" "code_page_1252 ! i = ?cp"
        using w1252_search_Some [OF i] by (simp_all only: set_upt)
      then have ib: "i = b" using b by (intro code_page_1252_inj) auto
      have "w1252_hash_ok (h[nat (?cp mod 255) := int b])"
        using h b by (simp add: w1252_hash_ok_def all_bytes_update)
      with self hind False' i ib show ?thesis by (simp add: w1252_codepoint_to_str_def)
    qed
  qed
qed

end
