(* ===== verification/Reader_Base.thy ===== *)
theory Reader_Base imports Utf8 begin

text \<open>
  The state of the tokenizer of emu/token_xsb.c and its character level: the globals
  \<open>lastc\<close>, \<open>strbuff_len\<close> and \<open>token_too_long_warning\<close> beside the stream, the token
  buffer (\<open>strbuff\<close> with the pointer \<open>s\<close> and the room \<open>n\<close>), \<open>read_character\<close> with
  its escape sequences, the two comment skippers and the growing of the buffer.

  The buffer holds the bytes written so far, so \<open>s\<close> is its length; a write at or past
  \<open>strbuff_len\<close> is the error \<open>Buffer_Overflow\<close>. I/O errors of stdio and the warnings
  printed on the way are not modelled.
\<close>

section \<open>State\<close>

record reader =
  strm :: instream
  lastc :: int
  strbuff_len :: nat
  too_long_warning :: bool

record tokbuf =
  chars :: "int list"
  room :: int

abbreviation (input) InitStrLen :: nat where "InitStrLen \<equiv> 10000"

definition rd_code :: "charset \<Rightarrow> reader \<Rightarrow> (int \<times> reader) res" where
  "rd_code cs r = res_bind (GetCode cs (strm r)) (\<lambda>(c, s). Inr (c, r\<lparr>strm := s\<rparr>))"

definition rd_unget :: "int \<Rightarrow> reader \<Rightarrow> reader" where
  "rd_unget c r = r\<lparr>strm := unGetC c (strm r)\<rparr>"

definition left :: "reader \<Rightarrow> nat" where
  "left r = avail (strm r)"

lemma rd_code_left:
  assumes "rd_code cs r = Inr (c, r')"
  shows "left r' \<le> left r" "c \<noteq> -1 \<Longrightarrow> left r' < left r" "left (rd_unget c r') \<le> left r"
  using assms GetCode_avail [of cs "strm r"]
  by (auto simp: rd_code_def left_def rd_unget_def)

lemma DigVal_small_not_EOF: "DigVal c = Inr v \<Longrightarrow> v < 99 \<Longrightarrow> c \<noteq> -1"
  by auto

lemma InType_small_not_EOF: "InType c = Inr t \<Longrightarrow> t \<noteq> EOFCH \<Longrightarrow> c \<noteq> -1"
  by auto

section \<open>Escape sequences of read_character\<close>

function read_hex :: "charset \<Rightarrow> int \<Rightarrow> reader \<Rightarrow> (int \<times> int \<times> reader) res" where
  "read_hex cs n r =
    res_bind (rd_code cs r) (\<lambda>(c, r').
    res_bind (DigVal c) (\<lambda>v.
      if v < 16 then read_hex cs (wrap32 (n * 16 + v)) r' else Inr (n, c, r')))"
  by pat_completeness auto
termination
  by (relation "measure (\<lambda>(cs, n, r). left r)")
     (auto intro: rd_code_left DigVal_small_not_EOF)

declare read_hex.simps [simp del]

function read_octal :: "charset \<Rightarrow> int \<Rightarrow> int \<Rightarrow> reader \<Rightarrow> (int \<times> int \<times> reader) res" where
  "read_octal cs c n r =
    res_bind (DigVal c) (\<lambda>v.
    res_bind (rd_code cs r) (\<lambda>(c', r').
    res_bind (DigVal c') (\<lambda>v'.
      if v' < 8 then read_octal cs c' (wrap32 (n * 8 + v)) r'
      else Inr (wrap32 (n * 8 + v), c', r'))))"
  by pat_completeness auto
termination
  by (relation "measure (\<lambda>(cs, c, n, r). left r)")
     (auto intro: rd_code_left DigVal_small_not_EOF)

declare read_octal.simps [simp del]

text \<open>
  Up to \<open>k\<close> digits of a unicode escape: the flag says that the code returned from
  inside its loop.
\<close>

fun read_u :: "charset \<Rightarrow> nat \<Rightarrow> int \<Rightarrow> reader \<Rightarrow> (bool \<times> int \<times> reader) res" where
  "read_u cs 0 n r = Inr (False, n, r)"
| "read_u cs (Suc k) n r =
    res_bind (rd_code cs r) (\<lambda>(c, r).
    res_bind (DigVal c) (\<lambda>v.
      if v \<le> 15 \<and> c \<noteq> 95 then read_u cs k (wrap32 (push_bit 4 n + v)) r
      else if c \<noteq> escapech then Inr (True, n, rd_unget c r)
      else Inr (True, n, r)))"

definition read_unicode :: "charset \<Rightarrow> reader \<Rightarrow> (int \<times> reader) res" where
  "read_unicode cs r =
    res_bind (read_u cs 4 0 r) (\<lambda>(fin, n, r).
      if fin then Inr (n, r)
      else res_bind (rd_code cs r) (\<lambda>(c, r).
           res_bind (DigVal c) (\<lambda>v.
             if v \<le> 15 \<and> c \<noteq> 95 then
               res_bind (read_u cs 3 (wrap32 (push_bit 4 n + v)) r) (\<lambda>(fin, n, r). Inr (n, r))
             else Inr (n, if 0 < c \<and> c \<noteq> escapech then rd_unget c r else r))))"

text \<open>The value of the one-letter escapes.\<close>

fun simple_escape :: "(int \<times> int) list \<Rightarrow> int \<Rightarrow> int option" where
  "simple_escape [] c = None"
| "simple_escape ((e, v) # es) c = (if c = e then Some v else simple_escape es c)"

definition escape_table :: "(int \<times> int) list" where
  "escape_table = [(97, 7), (98, 8), (102, 12), (110, 10), (114, 13), (115, 32), (116, 9),
     (118, 11), (92, 92), (39, 39), (34, 34), (96, 96)]"

definition eof_error :: "int \<Rightarrow> xsb_error" where
  "eof_error q = Syntax_Error (if q < 0 then ''end of file in character constant''
                               else ''end of file in quoted constant'')"

text \<open>
  \<open>read_escape\<close>: the switch on the character after the backslash, for the
  characters that end in a value; \<open>c\<close> is not EOF and not a line end.
\<close>

definition read_escape :: "charset \<Rightarrow> int \<Rightarrow> int \<Rightarrow> reader \<Rightarrow> (int \<times> reader) res" where
  "read_escape cs q c r =
    (case simple_escape escape_table c of
       Some v \<Rightarrow> Inr (v, r)
     | None \<Rightarrow>
        if c = 120 then
          res_bind (read_hex cs 0 r) (\<lambda>(n, c, r).
            if c < 0 then Inl (eof_error q)
            else Inr (n, if c \<noteq> escapech then rd_unget c r else r))
        else if c = 117 \<or> c = 85 then read_unicode cs r
        else if 48 \<le> c \<and> c \<le> 55 then
          res_bind (read_octal cs c 0 r) (\<lambda>(n, c, r).
            Inr (n, if c \<noteq> escapech then rd_unget c r else r))
        else Inr (escapech, rd_unget c r))"

lemma read_hex_left: "read_hex cs n r = Inr (m, c, r') \<Longrightarrow> left r' \<le> left r \<and> left (rd_unget c r') \<le> left r"
proof (induction cs n r rule: read_hex.induct)
  case (1 cs n r)
  from "1.prems" obtain d r1 v where g: "rd_code cs r = Inr (d, r1)" "DigVal d = Inr v"
    and rest: "(if v < 16 then read_hex cs (wrap32 (n * 16 + v)) r1 else Inr (n, d, r1)) = Inr (m, c, r')"
    by (subst (asm) read_hex.simps) auto
  show ?case
  proof (cases "v < 16")
    case True
    with rest have "left r' \<le> left r1 \<and> left (rd_unget c r') \<le> left r1"
      using "1.IH" [OF g(1) _ g(2)] by simp
    with rd_code_left [OF g(1)] show ?thesis by simp
  next
    case False
    with rest rd_code_left [OF g(1)] show ?thesis by simp
  qed
qed

lemma read_octal_left:
  "read_octal cs d n r = Inr (m, c, r') \<Longrightarrow> left r' \<le> left r \<and> left (rd_unget c r') \<le> left r"
proof (induction cs d n r rule: read_octal.induct)
  case (1 cs d n r)
  from "1.prems" obtain e r1 v v' where g: "DigVal d = Inr v" "rd_code cs r = Inr (e, r1)" "DigVal e = Inr v'"
    and rest: "(if v' < 8 then read_octal cs e (wrap32 (n * 8 + v)) r1 else Inr (wrap32 (n * 8 + v), e, r1))
      = Inr (m, c, r')"
    by (subst (asm) read_octal.simps) auto
  show ?case
  proof (cases "v' < 8")
    case True
    with rest have "left r' \<le> left r1 \<and> left (rd_unget c r') \<le> left r1"
      using "1.IH" [OF g(1,2) _ g(3)] by simp
    with rd_code_left [OF g(2)] show ?thesis by simp
  next
    case False
    with rest rd_code_left [OF g(2)] show ?thesis by simp
  qed
qed

lemma read_u_left: "read_u cs k n r = Inr (fin, m, r') \<Longrightarrow> left r' \<le> left r"
proof (induction k arbitrary: n r)
  case 0
  then show ?case by simp
next
  case (Suc k)
  then obtain c r1 v where g: "rd_code cs r = Inr (c, r1)" "DigVal c = Inr v"
    and rest: "(if v \<le> 15 \<and> c \<noteq> 95 then read_u cs k (wrap32 (push_bit 4 n + v)) r1
      else if c \<noteq> escapech then Inr (True, n, rd_unget c r1) else Inr (True, n, r1)) = Inr (fin, m, r')"
    by auto
  show ?case
  proof (cases "v \<le> 15 \<and> c \<noteq> 95")
    case True
    with rest Suc.IH [of "wrap32 (push_bit 4 n + v)" r1] rd_code_left [OF g(1)]
    show ?thesis by simp
  next
    case False
    then have "r' = rd_unget c r1 \<or> r' = r1"
      using rest by (cases "c = escapech") (simp_all split: if_splits)
    then show ?thesis using rd_code_left [OF g(1)] by blast
  qed
qed

lemma read_unicode_left:
  assumes "read_unicode cs r = Inr (n, r')"
  shows "left r' \<le> left r"
proof -
  from assms obtain fin m r1 where u: "read_u cs 4 0 r = Inr (fin, m, r1)"
    and rest: "(if fin then Inr (m, r1) else res_bind (rd_code cs r1) (\<lambda>(c, r).
           res_bind (DigVal c) (\<lambda>v.
             if v \<le> 15 \<and> c \<noteq> 95 then
               res_bind (read_u cs 3 (wrap32 (push_bit 4 m + v)) r) (\<lambda>(fin, n, r). Inr (n, r))
             else Inr (m, if 0 < c \<and> c \<noteq> escapech then rd_unget c r else r)))) = Inr (n, r')"
    unfolding read_unicode_def by auto
  show ?thesis
  proof (cases fin)
    case True
    with rest read_u_left [OF u] show ?thesis by simp
  next
    case False
    with rest obtain c r2 v where g: "rd_code cs r1 = Inr (c, r2)" "DigVal c = Inr v"
      and last: "(if v \<le> 15 \<and> c \<noteq> 95 then
               res_bind (read_u cs 3 (wrap32 (push_bit 4 m + v)) r2) (\<lambda>(fin, n, r). Inr (n, r))
             else Inr (m, if 0 < c \<and> c \<noteq> escapech then rd_unget c r2 else r2)) = Inr (n, r')"
      by auto
    have "left r' \<le> left r1"
    proof (cases "v \<le> 15 \<and> c \<noteq> 95")
      case True
      with last obtain fin' where "read_u cs 3 (wrap32 (push_bit 4 m + v)) r2 = Inr (fin', n, r')"
        by auto
      then have "left r' \<le> left r2" by (rule read_u_left)
      with rd_code_left [OF g(1)] show ?thesis by simp
    next
      case False
      then have "r' = rd_unget c r2 \<or> r' = r2" using last by (simp split: if_splits)
      with rd_code_left [OF g(1)] show ?thesis by blast
    qed
    with read_u_left [OF u] show ?thesis by simp
  qed
qed

lemma read_escape_left:
  assumes esc: "read_escape cs q c r = Inr (d, r')" and u: "left (rd_unget c r) \<le> k" "left r \<le> k"
  shows "left r' \<le> k"
proof (cases "simple_escape escape_table c")
  case (Some v)
  with esc u show ?thesis by (simp add: read_escape_def)
next
  case None
  consider "c = 120" | "c \<noteq> 120" "c = 117 \<or> c = 85" | "48 \<le> c \<and> c \<le> 55"
    | "c \<noteq> 120" "\<not> (c = 117 \<or> c = 85)" "\<not> (48 \<le> c \<and> c \<le> 55)" by fastforce
  then show ?thesis
  proof cases
    case 1
    with esc None obtain e r1 where "read_hex cs 0 r = Inr (d, e, r1)" "r' = rd_unget e r1 \<or> r' = r1"
      by (auto simp: read_escape_def split: if_splits)
    with read_hex_left u show ?thesis by fastforce
  next
    case 2
    with esc None have "read_unicode cs r = Inr (d, r')" by (auto simp: read_escape_def)
    with read_unicode_left u show ?thesis by fastforce
  next
    case 3
    with esc None obtain e r1 where "read_octal cs c 0 r = Inr (d, e, r1)" "r' = rd_unget e r1 \<or> r' = r1"
      by (auto simp: read_escape_def split: if_splits)
    with read_octal_left u show ?thesis by fastforce
  next
    case 4
    then have "r' = rd_unget c r" using esc None by (auto simp: read_escape_def)
    with u show ?thesis by simp
  qed
qed

section \<open>read_character\<close>

text \<open>
  \<open>read_char_back\<close> is the code from the label \<open>BACK\<close> on, with the character just
  read in \<open>c\<close>: the closing quote (-1, with \<open>lastc\<close> set to the character after it), a
  doubled quote, a plain character, or an escape; an escaped line end is skipped.
\<close>

function read_char_back :: "charset \<Rightarrow> int \<Rightarrow> int \<Rightarrow> reader \<Rightarrow> (int \<times> reader) res" where
  "read_char_back cs q c0 r =
    (if c0 = -1 then Inl (eof_error q)
     else
      (let c = (if c0 < 0 then and c0 0xff else c0) in
       if c = q then
         res_bind (rd_code cs r) (\<lambda>(c', r).
           if c' = q then Inr (c', r) else Inr (-1, r\<lparr>lastc := c'\<rparr>))
       else if c \<noteq> escapech then Inr (c, r)
       else
         res_bind (rd_code cs r) (\<lambda>(e, r1).
           if e = -1 then Inl (eof_error q)
           else if e = 10 then
             res_bind (rd_code cs r1) (\<lambda>(c', r2). read_char_back cs q c' r2)
           else if e = 13 then
             res_bind (rd_code cs r1) (\<lambda>(c', r2).
               if c' = 10 then res_bind (rd_code cs r2) (\<lambda>(c'', r3). read_char_back cs q c'' r3)
               else read_char_back cs q c' r2)
           else read_escape cs q e r1)))"
  by pat_completeness auto
termination
  by (relation "measure (\<lambda>(cs, q, c, r). left r)")
     (force dest: rd_code_left)+

declare read_char_back.simps [simp del]

definition read_character :: "charset \<Rightarrow> int \<Rightarrow> reader \<Rightarrow> (int \<times> reader) res" where
  "read_character cs q r = res_bind (rd_code cs r) (\<lambda>(c, r). read_char_back cs q c r)"

lemma left_lastc [simp]: "left (r\<lparr>lastc := c\<rparr>) = left r"
  by (simp add: left_def)

lemma read_char_back_left: "read_char_back cs q c r = Inr (d, r') \<Longrightarrow> left r' \<le> left r"
proof (induction cs q c r rule: read_char_back.induct)
  case (1 cs q c0 r)
  define c where "c = (if c0 < 0 then and c0 0xff else c0)"
  have c0: "c0 \<noteq> -1" using "1.prems" by (subst (asm) read_char_back.simps) auto
  consider "c = q" | "c \<noteq> q" "c \<noteq> escapech" | "c \<noteq> q" "c = escapech" by blast
  then show ?case
  proof cases
    case 1
    with "1.prems" c0 obtain c' r1 where "rd_code cs r = Inr (c', r1)" "r' = r1 \<or> r' = r1\<lparr>lastc := c'\<rparr>"
      by (subst (asm) read_char_back.simps) (auto simp: Let_def c_def [symmetric] split: if_splits)
    then show ?thesis using rd_code_left by fastforce
  next
    case 2
    with "1.prems" c0 show ?thesis
      by (subst (asm) read_char_back.simps) (auto simp: Let_def c_def [symmetric])
  next
    case 3
    with "1.prems" c0 obtain e r1 where g: "rd_code cs r = Inr (e, r1)" and e: "e \<noteq> -1"
      and rest: "(if e = 10 then res_bind (rd_code cs r1) (\<lambda>(c', r2). read_char_back cs q c' r2)
           else if e = 13 then
             res_bind (rd_code cs r1) (\<lambda>(c', r2).
               if c' = 10 then res_bind (rd_code cs r2) (\<lambda>(c'', r3). read_char_back cs q c'' r3)
               else read_char_back cs q c' r2)
           else read_escape cs q e r1) = Inr (d, r')"
      by (subst (asm) read_char_back.simps) (auto simp: Let_def c_def [symmetric] split: if_splits)
    note IH = "1.IH" [OF c0 c_def _ _ g refl e]
    have r1: "left r1 < left r" using rd_code_left(2) [OF g e] .
    consider "e = 10" | "e = 13" | "e \<noteq> 10" "e \<noteq> 13" by blast
    then show ?thesis
    proof cases
      case 1
      with rest obtain c' r2 where g2: "rd_code cs r1 = Inr (c', r2)" "read_char_back cs q c' r2 = Inr (d, r')"
        by auto
      then have "left r' \<le> left r2" using IH(1) 3 1 by simp
      with rd_code_left(1) [OF g2(1)] r1 show ?thesis by simp
    next
      case 2
      with rest obtain c' r2 where g2: "rd_code cs r1 = Inr (c', r2)"
        and r2: "(if c' = 10 then res_bind (rd_code cs r2) (\<lambda>(c'', r3). read_char_back cs q c'' r3)
               else read_char_back cs q c' r2) = Inr (d, r')"
        by auto
      show ?thesis
      proof (cases "c' = 10")
        case True
        with r2 obtain c'' r3 where g3: "rd_code cs r2 = Inr (c'', r3)" "read_char_back cs q c'' r3 = Inr (d, r')"
          by auto
        then have "left r' \<le> left r3" using IH(2) 3 2 g2 True by simp
        with rd_code_left(1) [OF g3(1)] rd_code_left(1) [OF g2] r1 show ?thesis by simp
      next
        case False
        with r2 have "left r' \<le> left r2" using IH(3) 3 2 g2 by simp
        with rd_code_left(1) [OF g2] r1 show ?thesis by simp
      qed
    next
      case 3
      with rest have "read_escape cs q e r1 = Inr (d, r')" by simp
      then show ?thesis
        using read_escape_left [of cs q e r1 d r' "left r"] rd_code_left(1,3) [OF g] by simp
    qed
  qed
qed

lemma read_character_left:
  assumes "read_character cs q r = Inr (d, r')" shows "left r' < left r"
proof -
  from assms obtain c r1 where g: "rd_code cs r = Inr (c, r1)" "read_char_back cs q c r1 = Inr (d, r')"
    by (auto simp: read_character_def)
  from g(2) have "c \<noteq> -1" by (subst (asm) read_char_back.simps) auto
  with rd_code_left(2) [OF g(1)] read_char_back_left [OF g(2)] show ?thesis by simp
qed

section \<open>Comments\<close>

function com0_loop :: "int \<Rightarrow> instream \<Rightarrow> (int \<times> instream) res" where
  "com0_loop eol s =
    res_bind (GetC s) (\<lambda>(c, s').
      if 0 \<le> c \<and> c \<noteq> 10 \<and> c \<noteq> eol then com0_loop eol s' else Inr (c, s'))"
  by pat_completeness auto
termination
  by (relation "measure (\<lambda>(eol, s). avail s)") (auto dest!: GetC_avail)

declare com0_loop.simps [simp del]

text \<open>\<open>com0plain\<close> skips to the end of the line and returns the byte after it.\<close>

definition com0plain :: "int \<Rightarrow> instream \<Rightarrow> (int \<times> instream) res" where
  "com0plain eol s = res_bind (com0_loop eol s) (\<lambda>(c, s). if 0 \<le> c then GetC s else Inr (c, s))"

function com2_loop :: "int \<Rightarrow> int \<Rightarrow> bool \<Rightarrow> instream \<Rightarrow> (int \<times> instream) res" where
  "com2_loop ast en state s =
    res_bind (GetC s) (\<lambda>(c, s').
      if 0 \<le> c \<and> \<not> (c = en \<and> state) then com2_loop ast en (c = ast) s' else Inr (c, s'))"
  by pat_completeness auto
termination
  by (relation "measure (\<lambda>(ast, en, state, s). avail s)") (auto dest!: GetC_avail)

declare com2_loop.simps [simp del]

text \<open>\<open>com2plain\<close> returns 1 at the end of the file, 0 after a closed comment.\<close>

definition com2plain :: "int \<Rightarrow> int \<Rightarrow> instream \<Rightarrow> (int \<times> instream) res" where
  "com2plain ast en s =
    res_bind (com2_loop ast en False s) (\<lambda>(c, s). Inr (if c < 0 then 1 else 0, s))"

lemma com0_loop_avail: "com0_loop eol s = Inr (c, s') \<Longrightarrow> avail s' \<le> avail s"
proof (induction eol s rule: com0_loop.induct)
  case (1 eol s)
  from "1.prems" obtain d s1 where g: "GetC s = Inr (d, s1)"
    and rest: "(if 0 \<le> d \<and> d \<noteq> 10 \<and> d \<noteq> eol then com0_loop eol s1 else Inr (d, s1)) = Inr (c, s')"
    by (subst (asm) com0_loop.simps) auto
  with "1.IH" [OF g] GetC_avail [OF g] show ?case by (force split: if_splits)
qed

lemma com0plain_avail: "com0plain eol s = Inr (c, s') \<Longrightarrow> avail s' \<le> avail s"
  by (force simp: com0plain_def split: if_splits dest: com0_loop_avail GetC_avail)

lemma com2_loop_avail: "com2_loop ast en st s = Inr (c, s') \<Longrightarrow> avail s' \<le> avail s"
proof (induction ast en st s rule: com2_loop.induct)
  case (1 ast en st s)
  from "1.prems" obtain d s1 where g: "GetC s = Inr (d, s1)"
    and rest: "(if 0 \<le> d \<and> \<not> (d = en \<and> st) then com2_loop ast en (d = ast) s1 else Inr (d, s1)) = Inr (c, s')"
    by (subst (asm) com2_loop.simps) auto
  with "1.IH" [OF g] GetC_avail [OF g] show ?case by (force split: if_splits)
qed

lemma com2plain_avail: "com2plain ast en s = Inr (c, s') \<Longrightarrow> avail s' \<le> avail s"
  by (force simp: com2plain_def dest: com2_loop_avail)

section \<open>The token buffer\<close>

text \<open>
  \<open>realloc_strbuff\<close> doubles the buffer; \<open>put_byte\<close> is \<open>*s++ = v\<close> and \<open>terminate\<close> the
  store of the final 0, which does not move \<open>s\<close>.
\<close>

definition realloc_strbuff :: "reader \<times> tokbuf \<Rightarrow> reader \<times> tokbuf" where
  "realloc_strbuff = (\<lambda>(r, b).
     (r\<lparr>too_long_warning := False, strbuff_len := 2 * strbuff_len r\<rparr>,
      b\<lparr>room := room b + int (strbuff_len r)\<rparr>))"

definition put_byte :: "reader \<Rightarrow> int \<Rightarrow> tokbuf \<Rightarrow> tokbuf res" where
  "put_byte r v b =
    (if length (chars b) < strbuff_len r then Inr (b\<lparr>chars := chars b @ [to_byte v]\<rparr>)
     else Inl Buffer_Overflow)"

definition terminate :: "reader \<Rightarrow> tokbuf \<Rightarrow> unit res" where
  "terminate r b = guard_res (length (chars b) < strbuff_len r) Buffer_Overflow"

text \<open>The macro \<open>CODEPOINT_TO_UTF8_STR\<close>.\<close>

definition put_codepoint :: "int \<Rightarrow> reader \<Rightarrow> tokbuf \<Rightarrow> (reader \<times> tokbuf) res" where
  "put_codepoint code r b =
    (if code \<le> 127 then
       (let b = b\<lparr>room := room b - 1\<rparr>;
            (r, b) = (if room b < 0 then realloc_strbuff (r, b) else (r, b)) in
        res_bind (put_byte r code b) (\<lambda>b. Inr (r, b)))
     else
       (let (r, b) = (if room b < 4 then realloc_strbuff (r, b) else (r, b));
            bs = utf8_codepoint_to_str code in
        res_bind (guard_res (length (chars b) + length bs \<le> strbuff_len r) Buffer_Overflow)
          (\<lambda>_. Inr (r, b\<lparr>chars := chars b @ bs, room := room b - int (length bs)\<rparr>))))"

lemma left_realloc [simp]: "left (fst (realloc_strbuff (r, b))) = left r"
  by (simp add: realloc_strbuff_def left_def)

lemma put_codepoint_left: "put_codepoint code r b = Inr (r', b') \<Longrightarrow> left r' = left r"
  by (auto simp: put_codepoint_def realloc_strbuff_def left_def Let_def split: if_splits)

end
