(* ===== verification/Tokenizer.thy ===== *)
theory Tokenizer imports Reader_Base begin

text \<open>
  \<open>GetToken\<close> of emu/token_xsb.c, case by case as in its switch on the class of the
  first character: numbers (decimal, radix, character and real), names, symbol
  atoms, punctuation, quoted atoms and lists, layout, comments and the end of the
  input. \<open>token_step\<close> is one pass through the switch, which ends with a token or goes
  back to \<open>START\<close> with a new first character; \<open>get_token_from\<close> is the loop.

  A real is the text handed to \<open>sscanf\<close>, or the sequence of floating-point steps the
  code performs on an overflowing radix number, not a rounded number.
\<close>

section \<open>Tokens\<close>

datatype token_type =
    TK_PUNC | TK_VARFUNC | TK_VAR | TK_FUNC | TK_INT | TK_ATOM | TK_EOC | TK_VVAR
  | TK_VVARFUNC | TK_REAL | TK_EOF | TK_LIST | TK_HPUNC | TK_INTFUNC | TK_REALFUNC

datatype real_expr =
    RealText "int list"               \<comment> \<open>the value of sscanf on the text\<close>
  | RealOfInt int
  | MulAdd real_expr int int          \<comment> \<open>\<open>x * d + v\<close> in double arithmetic\<close>

datatype tok_value =
    NoValue | IntValue int | RealValue real_expr | StrValue "int list"

record xsb_token =
  tok_type :: token_type
  tok_value :: tok_value
  nextch :: int

datatype step = Done xsb_token | Restart int

definition finish :: "token_type \<Rightarrow> tok_value \<Rightarrow> int \<Rightarrow> reader \<Rightarrow> (step \<times> reader) res" where
  "finish ty v nc r = Inr (Done \<lparr>tok_type = ty, tok_value = v, nextch = nc\<rparr>, r)"

section \<open>Numbers\<close>

text \<open>The digits and underscores of a number; underscores are not stored.\<close>

function scan_digits :: "charset \<Rightarrow> int \<Rightarrow> reader \<Rightarrow> tokbuf \<Rightarrow> (int \<times> reader \<times> tokbuf) res" where
  "scan_digits cs c r b =
    res_bind (if c \<noteq> 95 then put_byte r c b else Inr b) (\<lambda>b'.
    res_bind (rd_code cs r) (\<lambda>(c', r').
    res_bind (InType c') (\<lambda>t.
      if t \<le> BREAK then scan_digits cs c' r' b' else Inr (c', r', b'))))"
  by pat_completeness auto
termination
  by (relation "measure (\<lambda>(cs, c, r, b). left r)")
     (auto intro!: rd_code_left InType_small_not_EOF)

declare scan_digits.simps [simp del]

text \<open>The value of the digits in the buffer, in \<open>int\<close> arithmetic.\<close>

definition radix_value :: "int list \<Rightarrow> int" where
  "radix_value ds = fold (\<lambda>c d. wrap32 (d * 10 - 48 + c)) ds 0"

text \<open>
  The decimal value in \<open>Integer\<close> arithmetic, and the character in \<open>c\<close> when the loop
  stops: the terminating 0, or the digit at which the value would overflow.
\<close>

fun decimal_loop :: "int \<Rightarrow> int list \<Rightarrow> int \<times> int" where
  "decimal_loop rad [] = (rad, 0)"
| "decimal_loop rad (c # ds) =
    (if c = 0 then (rad, 0)
     else if rad < XSB_MAXINT div 10 \<or> rad = XSB_MAXINT div 10 \<and> c - 48 \<le> XSB_MAXINT mod 10
     then decimal_loop (rad * 10 - 48 + c) ds
     else (XSB_MAXINT, c))"

definition tok_decimal_int :: "int \<Rightarrow> reader \<Rightarrow> tokbuf \<Rightarrow> (step \<times> reader) res" where
  "tok_decimal_int nc r b =
    res_bind (terminate r b) (\<lambda>_.
      (let (rad, c) = decimal_loop 0 (chars b) in
       finish (if c = 40 then TK_INTFUNC else TK_INT) (IntValue rad) nc r))"

function radix_real :: "charset \<Rightarrow> int \<Rightarrow> real_expr \<Rightarrow> reader \<Rightarrow> (real_expr \<times> int \<times> reader) res" where
  "radix_real cs d e r =
    res_bind (rd_code cs r) (\<lambda>(c, r').
    res_bind (DigVal c) (\<lambda>v.
      if v < 99 then radix_real cs d (if c \<noteq> 95 then MulAdd e d v else e) r'
      else Inr (e, c, r')))"
  by pat_completeness auto
termination
  by (relation "measure (\<lambda>(cs, d, e, r). left r)")
     (auto intro: rd_code_left DigVal_small_not_EOF)

declare radix_real.simps [simp del]

text \<open>
  The loop of a radix number: an integer, or on overflow a real. The radix is at most
  36, so the test for 99 (no digit) adds nothing to the code's \<open>DigVal(c) < d\<close>; it
  bounds the loop for every \<open>d\<close>.
\<close>

function radix_loop :: "charset \<Rightarrow> int \<Rightarrow> int \<Rightarrow> reader \<Rightarrow> (tok_value \<times> int \<times> reader) res" where
  "radix_loop cs d newv r =
    res_bind (rd_code cs r) (\<lambda>(c, r').
    res_bind (DigVal c) (\<lambda>v.
      if v < 99 \<and> v < d then
        (if c \<noteq> 95 then
           (let newv' = wrap64 (newv * d + v) in
            if newv' < newv \<or> XSB_MAXINT < newv' then
              res_bind (radix_real cs d (MulAdd (RealOfInt newv) d v) r')
                (\<lambda>(e, c, r). Inr (RealValue e, c, r))
            else radix_loop cs d newv' r')
         else radix_loop cs d newv r')
      else Inr (IntValue newv, c, r')))"
  by pat_completeness auto
termination
  by (relation "measure (\<lambda>(cs, d, newv, r). left r)")
     (auto intro: rd_code_left DigVal_small_not_EOF)

declare radix_loop.simps [simp del]

definition tok_nonzero_radix :: "charset \<Rightarrow> int \<Rightarrow> reader \<Rightarrow> (step \<times> reader) res" where
  "tok_nonzero_radix cs d r =
    res_bind (radix_loop cs d 0 r) (\<lambda>(v, c, r).
    res_bind (if c = radixch then rd_code cs r else Inr (c, r)) (\<lambda>(c, r).
      case v of
        RealValue e \<Rightarrow> finish (if c = 40 then TK_REALFUNC else TK_REAL) v c r
      | _ \<Rightarrow> finish (if c = 40 then TK_INTFUNC else TK_INT) v c r))"

definition tok_char_code :: "charset \<Rightarrow> int \<Rightarrow> reader \<Rightarrow> (step \<times> reader) res" where
  "tok_char_code cs q r =
    res_bind (read_character cs (-1) r) (\<lambda>(v, r).
    res_bind (rd_code cs r) (\<lambda>(d, r).
    res_bind (if d = q then rd_code cs r else Inr (d, r)) (\<lambda>(nc, r).
      finish TK_INT (IntValue v) nc r)))"

text \<open>A number followed by the radix character.\<close>

definition tok_radix :: "charset \<Rightarrow> reader \<Rightarrow> tokbuf \<Rightarrow> (step \<times> reader) res" where
  "tok_radix cs r b =
    res_bind (terminate r b) (\<lambda>_.
      (let d = radix_value (chars b) in
       if d = 1 \<or> 36 < d then Inl (Syntax_Error ''radix not 0 or 2..36'')
       else if d = 0 then tok_char_code cs radixch r
       else tok_nonzero_radix cs d r))"

definition tok_decimal :: "charset \<Rightarrow> int \<Rightarrow> reader \<Rightarrow> tokbuf \<Rightarrow> (step \<times> reader) res" where
  "tok_decimal cs d r b =
    res_bind (put_byte r dpoint b) (\<lambda>b.
    res_bind (scan_digits cs d r b) (\<lambda>(d, r, b).
    res_bind
      (if or d 32 = 101 then
         res_bind (put_byte r 69 b) (\<lambda>b.
         res_bind (rd_code cs r) (\<lambda>(d, r).
         res_bind
           (if d = 45 then
              res_bind (put_byte r d b) (\<lambda>b.
              res_bind (rd_code cs r) (\<lambda>(d, r). Inr (d, r, b)))
            else if d = 43 then res_bind (rd_code cs r) (\<lambda>(d, r). Inr (d, r, b))
            else Inr (d, r, b)) (\<lambda>(d, r, b).
         res_bind (InType d) (\<lambda>t.
           if BREAK < t then Inl (Syntax_Error ''bad exponent'')
           else scan_digits cs d r b))))
       else Inr (d, r, b)) (\<lambda>(c, r, b).
    res_bind (terminate r b) (\<lambda>_.
      finish (if c = 40 then TK_REALFUNC else TK_REAL) (RealValue (RealText (chars b))) c r))))"

text \<open>Digits followed by \<open>b\<close>, \<open>o\<close> or \<open>x\<close>: a radix prefix only after 0.\<close>

definition tok_letter_radix :: "charset \<Rightarrow> int \<Rightarrow> reader \<Rightarrow> tokbuf \<Rightarrow> (step \<times> reader) res" where
  "tok_letter_radix cs c r b =
    res_bind (terminate r b) (\<lambda>_.
      (let d = radix_value (chars b) in
       if d = 0 then tok_nonzero_radix cs (if c = 98 then 2 else if c = 111 then 8 else 16) r
       else finish TK_INT (IntValue d) c r))"

definition tok_digit :: "charset \<Rightarrow> int \<Rightarrow> reader \<Rightarrow> tokbuf \<Rightarrow> (step \<times> reader) res" where
  "tok_digit cs c r b =
    res_bind (scan_digits cs c r b) (\<lambda>(c, r, b).
      if c = radixch then tok_radix cs r b
      else if c = dpoint then
        res_bind (rd_code cs r) (\<lambda>(d, r).
        res_bind (InType d) (\<lambda>t.
          if t = DIGIT then tok_decimal cs d r b else tok_decimal_int c (rd_unget d r) b))
      else if c = 98 \<or> c = 111 \<or> c = 120 then tok_letter_radix cs c r b
      else tok_decimal_int c r b)"

section \<open>Names\<close>

function scan_name :: "charset \<Rightarrow> int \<Rightarrow> reader \<Rightarrow> tokbuf \<Rightarrow> (int \<times> reader \<times> tokbuf) res" where
  "scan_name cs c r b =
    (let b1 = b\<lparr>room := room b - 1\<rparr>;
         rb = (if room b1 < 0 then realloc_strbuff (r, b1) else (r, b1)) in
     res_bind (put_byte (fst rb) c (snd rb)) (\<lambda>b2.
     res_bind (rd_code cs (fst rb)) (\<lambda>(c', r').
     res_bind (InType c') (\<lambda>t.
       if t \<le> LOWER then scan_name cs c' r' b2 else Inr (c', r', b2)))))"
  by pat_completeness auto
termination
proof (relation "measure (\<lambda>(cs, c, r, b). left r)", goal_cases)
  case 1
  then show ?case by simp
next
  case (2 cs c r b b1 rb b2 cr c' r' t)
  then have "c' \<noteq> -1" by auto
  moreover have "rd_code cs (fst rb) = Inr (c', r')" using 2 by simp
  ultimately have "left r' < left (fst rb)" by (simp add: rd_code_left)
  moreover have "left (fst rb) = left r" using 2 by (simp split: if_splits)
  ultimately show ?case by simp
qed

declare scan_name.simps [simp del]

definition tok_symbol :: "int \<Rightarrow> reader \<Rightarrow> tokbuf \<Rightarrow> (step \<times> reader) res" where
  "tok_symbol c r b = finish (if c = 40 then TK_FUNC else TK_ATOM) (StrValue (chars b)) c r"

definition tok_name :: "token_type \<Rightarrow> token_type \<Rightarrow> charset \<Rightarrow> int \<Rightarrow> reader \<Rightarrow> tokbuf
    \<Rightarrow> (step \<times> reader) res" where
  "tok_name func plain cs c r b =
    res_bind (scan_name cs c r b) (\<lambda>(c, r, b).
    res_bind (terminate r b) (\<lambda>_.
      finish (if c = 40 then func else plain) (StrValue (chars b)) c r))"

definition tok_lower :: "charset \<Rightarrow> int \<Rightarrow> reader \<Rightarrow> tokbuf \<Rightarrow> (step \<times> reader) res" where
  "tok_lower cs c r b =
    res_bind (scan_name cs c r b) (\<lambda>(c, r, b).
    res_bind (terminate r b) (\<lambda>_. tok_symbol c r b))"

section \<open>Symbol characters and comments\<close>

text \<open>The label \<open>ASTCOM\<close>: skip the comment and start again after it.\<close>

definition skip_comment :: "charset \<Rightarrow> int \<Rightarrow> reader \<Rightarrow> (step \<times> reader) res" where
  "skip_comment cs d r =
    res_bind (com2plain d endcom (strm r)) (\<lambda>(eof, s).
      if eof \<noteq> 0 then Inl (Syntax_Error ''end of file in comment'')
      else res_bind (rd_code cs (r\<lparr>strm := s\<rparr>)) (\<lambda>(c, r). Inr (Restart c, r)))"

definition skip_line :: "reader \<Rightarrow> (step \<times> reader) res" where
  "skip_line r = res_bind (com0plain endeol (strm r)) (\<lambda>(c, s). Inr (Restart c, r\<lparr>strm := s\<rparr>))"

function scan_sign :: "charset \<Rightarrow> int \<Rightarrow> reader \<Rightarrow> tokbuf \<Rightarrow> (int \<times> reader \<times> tokbuf) res" where
  "scan_sign cs d r b =
    res_bind (InType d) (\<lambda>t.
      if t = SIGN then
        (let b1 = b\<lparr>room := room b - 1\<rparr>;
             rb = (if room b1 = 0 then realloc_strbuff (r, b1) else (r, b1)) in
         res_bind (put_byte (fst rb) d (snd rb)) (\<lambda>b2.
         res_bind (rd_code cs (fst rb)) (\<lambda>(d', r'). scan_sign cs d' r' b2)))
      else Inr (d, r, b))"
  by pat_completeness auto
termination
proof (relation "measure (\<lambda>(cs, d, r, b). left r + (if d = -1 then 0 else 1))", goal_cases)
  case 1
  then show ?case by simp
next
  case (2 cs d r b t b1 rb b2 dr d' r')
  then have d: "d \<noteq> -1" by auto
  have g: "rd_code cs (fst rb) = Inr (d', r')" using 2 by simp
  have "left (fst rb) = left r" using 2 by (simp split: if_splits)
  with d rd_code_left [OF g] show ?case by (cases "d' = -1") auto
qed

declare scan_sign.simps [simp del]

definition tok_sign :: "charset \<Rightarrow> int \<Rightarrow> reader \<Rightarrow> tokbuf \<Rightarrow> (step \<times> reader) res" where
  "tok_sign cs c r b0 =
    res_bind (put_byte r c b0) (\<lambda>b.
    res_bind (rd_code cs r) (\<lambda>(d, r).
      if c = begcom \<and> d = astcom then skip_comment cs d r
      else
        res_bind (if c = dpoint then res_bind (InType d) (\<lambda>t. Inr (t = DIGIT)) else Inr False) (\<lambda>dec.
          if dec then res_bind (put_byte r 48 b0) (\<lambda>b. tok_decimal cs d r b)
          else
            res_bind (scan_sign cs d r b) (\<lambda>(d, r, b).
            res_bind (terminate r b) (\<lambda>_.
            res_bind (InType d) (\<lambda>t.
              if (SPACE \<le> t \<or> d = 37) \<and> c = termin \<and> (chars b @ [0]) ! 1 = 0
              then finish TK_EOC NoValue d (rd_unget d r)
              else tok_symbol d r b))))))"

definition tok_noble :: "charset \<Rightarrow> int \<Rightarrow> reader \<Rightarrow> tokbuf \<Rightarrow> (step \<times> reader) res" where
  "tok_noble cs c r b =
    (if c = termin then res_bind (terminate r b) (\<lambda>_. finish TK_EOC NoValue 32 r)
     else if c = eolcom then skip_line r
     else
       res_bind (put_byte r c b) (\<lambda>b.
       res_bind (terminate r b) (\<lambda>_.
       res_bind (rd_code cs r) (\<lambda>(c, r). tok_symbol c r b))))"

definition tok_punct :: "charset \<Rightarrow> int \<Rightarrow> reader \<Rightarrow> tokbuf \<Rightarrow> (step \<times> reader) res" where
  "tok_punct cs c r b =
    (if c = termin then res_bind (terminate r b) (\<lambda>_. finish TK_EOC NoValue 32 r)
     else if c = eolcom then skip_line r
     else
       res_bind (rd_code cs r) (\<lambda>(d, r).
         if c = begcom \<and> d = astcom then skip_comment cs d r
         else if c = 123 \<and> d = 125 \<or> c = 91 \<and> d = 93 then
           res_bind (put_byte r c b) (\<lambda>b.
           res_bind (put_byte r d b) (\<lambda>b.
           res_bind (terminate r b) (\<lambda>_.
           res_bind (rd_code cs r) (\<lambda>(c, r). tok_symbol c r b))))
         else
           res_bind (put_byte r c b) (\<lambda>b.
           res_bind (terminate r b) (\<lambda>_.
             finish (if c = 41 \<and> d = 40 then TK_HPUNC else TK_PUNC) (StrValue (chars b)) d r))))"

section \<open>Quoted items\<close>

function read_quoted :: "charset \<Rightarrow> int \<Rightarrow> reader \<Rightarrow> tokbuf \<Rightarrow> (reader \<times> tokbuf) res" where
  "read_quoted cs q r b =
    res_bind (read_character cs q r) (\<lambda>(d, r').
      if d \<noteq> -1 then res_bind (put_codepoint d r' b) (\<lambda>(r'', b'). read_quoted cs q r'' b')
      else Inr (r', b))"
  by pat_completeness auto
termination
  by (relation "measure (\<lambda>(cs, q, r, b). left r)")
     (auto simp: put_codepoint_left dest: read_character_left)

declare read_quoted.simps [simp del]

definition tok_atmqt :: "charset \<Rightarrow> int \<Rightarrow> reader \<Rightarrow> tokbuf \<Rightarrow> (step \<times> reader) res" where
  "tok_atmqt cs c r b =
    res_bind (read_quoted cs c r b) (\<lambda>(r, b).
    res_bind (terminate r b) (\<lambda>_. tok_symbol (lastc r) r b))"

definition tok_lisqt :: "charset \<Rightarrow> int \<Rightarrow> reader \<Rightarrow> tokbuf \<Rightarrow> (step \<times> reader) res" where
  "tok_lisqt cs c r b =
    res_bind (read_quoted cs c r b) (\<lambda>(r, b).
    res_bind (terminate r b) (\<lambda>_. finish TK_LIST (StrValue (chars b)) (lastc r) r))"

section \<open>The switch and the loop\<close>

definition token_step :: "charset \<Rightarrow> int \<Rightarrow> reader \<Rightarrow> tokbuf \<Rightarrow> (step \<times> reader) res" where
  "token_step cs c r b =
    res_bind (InType c) (\<lambda>t.
      if t = DIGIT then tok_digit cs c r b
      else if t = BREAK then tok_name TK_VVARFUNC TK_VVAR cs c r b
      else if t = UPPER then tok_name TK_VARFUNC TK_VAR cs c r b
      else if t = LOWER then tok_lower cs c r b
      else if t = SIGN then tok_sign cs c r b
      else if t = NOBLE then tok_noble cs c r b
      else if t = PUNCT then tok_punct cs c r b
      else if t = CHRQT then tok_char_code cs c r
      else if t = ATMQT then tok_atmqt cs c r b
      else if t = LISQT then tok_lisqt cs c r b
      else if t = EOLN \<or> t = SPACE then res_bind (rd_code cs r) (\<lambda>(c, r). Inr (Restart c, r))
      else if t = EOFCH then finish TK_EOF NoValue 32 r
      else Inl (Xsb_Abort ''[Internal error] InType''))"

lemma skip_comment_left:
  assumes "skip_comment cs d r = Inr (Restart c', r')"
  shows "left r' \<le> left r" "c' \<noteq> -1 \<Longrightarrow> left r' < left r"
proof -
  from assms obtain e s where g: "com2plain d endcom (strm r) = Inr (e, s)"
    "rd_code cs (r\<lparr>strm := s\<rparr>) = Inr (c', r')"
    by (auto simp: skip_comment_def split: if_splits)
  have "left (r\<lparr>strm := s\<rparr>) \<le> left r" using com2plain_avail [OF g(1)] by (simp add: left_def)
  with rd_code_left [OF g(2)] show "left r' \<le> left r" "c' \<noteq> -1 \<Longrightarrow> left r' < left r" by auto
qed

lemma skip_line_left:
  assumes "skip_line r = Inr (Restart c', r')"
  shows "left r' \<le> left r"
  using assms com0plain_avail [of endeol "strm r"] by (auto simp: skip_line_def left_def)

lemma finish_not_Restart [simp]: "finish ty v nc r \<noteq> Inr (Restart c, r')"
  by (simp add: finish_def)

lemma finish_bind_Restart [simp]:
  "res_bind m (\<lambda>x. finish (ty x) (v x) (nc x) (f x)) \<noteq> Inr (Restart c, r')"
  by auto

lemma tok_decimal_int_not_Restart [simp]: "tok_decimal_int nc r b \<noteq> Inr (Restart c, r')"
  by (auto simp: tok_decimal_int_def split: prod.splits)

lemma tok_nonzero_radix_not_Restart [simp]: "tok_nonzero_radix cs d r \<noteq> Inr (Restart c, r')"
  by (auto simp: tok_nonzero_radix_def split: tok_value.splits)

lemma tok_char_code_not_Restart [simp]: "tok_char_code cs q r \<noteq> Inr (Restart c, r')"
  by (auto simp: tok_char_code_def)

lemma tok_decimal_not_Restart [simp]: "tok_decimal cs d r b \<noteq> Inr (Restart c, r')"
  by (auto simp: tok_decimal_def)

lemma tok_digit_not_Restart [simp]: "tok_digit cs d r b \<noteq> Inr (Restart c, r')"
  by (auto simp: tok_digit_def tok_radix_def tok_letter_radix_def Let_def split: if_splits)

lemma tok_symbol_not_Restart [simp]: "tok_symbol d r b \<noteq> Inr (Restart c, r')"
  by (simp add: tok_symbol_def)

lemma tok_name_not_Restart [simp]:
  "tok_name f p cs d r b \<noteq> Inr (Restart c, r')" "tok_lower cs d r b \<noteq> Inr (Restart c, r')"
  "tok_atmqt cs d r b \<noteq> Inr (Restart c, r')" "tok_lisqt cs d r b \<noteq> Inr (Restart c, r')"
  by (auto simp: tok_name_def tok_lower_def tok_atmqt_def tok_lisqt_def)

text \<open>Only comments and layout restart, and a restart has read something.\<close>

definition restart_less :: "int \<Rightarrow> reader \<Rightarrow> int \<Rightarrow> reader \<Rightarrow> bool" where
  "restart_less c' r' c r \<longleftrightarrow>
     left r' + (if c' = -1 then 0 else 1) < left r + (if c = -1 then 0 else 1)"

lemma restart_lessI:
  "c \<noteq> -1 \<Longrightarrow> left r' \<le> left r \<Longrightarrow> (c' \<noteq> -1 \<Longrightarrow> left r' < left r) \<Longrightarrow> restart_less c' r' c r"
  by (auto simp: restart_less_def)

lemma com0plain_less: "com0plain eol s = Inr (c, s') \<Longrightarrow> c \<noteq> -1 \<Longrightarrow> avail s' < avail s"
proof -
  assume a: "com0plain eol s = Inr (c, s')" "c \<noteq> -1"
  then obtain d s1 where g: "com0_loop eol s = Inr (d, s1)"
    and rest: "(if 0 \<le> d then GetC s1 else Inr (d, s1)) = Inr (c, s')"
    by (auto simp: com0plain_def)
  have le: "avail s1 \<le> avail s" using g by (rule com0_loop_avail)
  show "avail s' < avail s"
  proof (cases "0 \<le> d")
    case True
    with rest have "GetC s1 = Inr (c, s')" by simp
    with a(2) GetC_avail le show ?thesis by fastforce
  next
    case False
    with rest a(2) have d: "d \<noteq> -1" "s' = s1" by auto
    have "d \<noteq> -1 \<Longrightarrow> avail s1 < avail s" using g
    proof (induction eol s rule: com0_loop.induct)
      case (1 eol s)
      then obtain e s2 where e: "GetC s = Inr (e, s2)"
        and more: "(if 0 \<le> e \<and> e \<noteq> 10 \<and> e \<noteq> eol then com0_loop eol s2 else Inr (e, s2)) = Inr (d, s1)"
        by (subst (asm) com0_loop.simps) auto
      show ?case
      proof (cases "0 \<le> e \<and> e \<noteq> 10 \<and> e \<noteq> eol")
        case True
        with more have "com0_loop eol s2 = Inr (d, s1)" by simp
        with com0_loop_avail GetC_avail [OF e] True show ?thesis by fastforce
      next
        case False
        with more "1.prems"(1) have "e \<noteq> -1" "s1 = s2" by auto
        with GetC_avail [OF e] show ?thesis by simp
      qed
    qed
    with d show ?thesis by simp
  qed
qed

lemma tok_sign_Restart:
  assumes "tok_sign cs c r b = Inr (Restart c', r')" and c: "c \<noteq> -1"
  shows "restart_less c' r' c r"
proof -
  from assms(1) obtain d r1 where g: "rd_code cs r = Inr (d, r1)" "skip_comment cs d r1 = Inr (Restart c', r')"
    by (auto simp: tok_sign_def split: if_splits)
  with skip_comment_left rd_code_left [OF g(1)] c show ?thesis
    by (intro restart_lessI) fastforce+
qed

lemma skip_line_Restart:
  assumes "skip_line r = Inr (Restart c', r')" and c: "c \<noteq> -1"
  shows "restart_less c' r' c r"
proof -
  from assms(1) obtain s where "com0plain endeol (strm r) = Inr (c', s)" "r' = r\<lparr>strm := s\<rparr>"
    by (auto simp: skip_line_def)
  with com0plain_less com0plain_avail c show ?thesis
    by (intro restart_lessI) (auto simp: left_def)
qed

lemma tok_noble_Restart:
  assumes "tok_noble cs c r b = Inr (Restart c', r')" and c: "c \<noteq> -1"
  shows "restart_less c' r' c r"
proof -
  from assms(1) have "skip_line r = Inr (Restart c', r')"
    by (auto simp: tok_noble_def split: if_splits)
  then show ?thesis by (rule skip_line_Restart [OF _ c])
qed

lemma tok_punct_Restart:
  assumes "tok_punct cs c r b = Inr (Restart c', r')" and c: "c \<noteq> -1"
  shows "restart_less c' r' c r"
proof -
  from assms(1) consider "skip_line r = Inr (Restart c', r')"
    | d r1 where "rd_code cs r = Inr (d, r1)" "skip_comment cs d r1 = Inr (Restart c', r')"
    by (auto simp: tok_punct_def split: if_splits)
  then show ?thesis
  proof cases
    case 1
    then show ?thesis by (rule skip_line_Restart [OF _ c])
  next
    case 2
    with skip_comment_left rd_code_left [OF 2(1)] c show ?thesis
      by (intro restart_lessI) fastforce+
  qed
qed

lemma token_step_Restart:
  assumes "token_step cs c r b = Inr (Restart c', r')"
  shows "restart_less c' r' c r"
proof -
  from assms obtain t where t: "InType c = Inr t" by (auto simp: token_step_def)
  show ?thesis
  proof (cases "t = EOFCH")
    case True
    with assms t show ?thesis by (simp add: token_step_def)
  next
    case False
    with t have c: "c \<noteq> -1" by auto
    consider "tok_sign cs c r b = Inr (Restart c', r')" | "tok_noble cs c r b = Inr (Restart c', r')"
      | "tok_punct cs c r b = Inr (Restart c', r')" | "rd_code cs r = Inr (c', r')"
      using assms t by (auto simp: token_step_def split: if_splits)
    then show ?thesis
    proof cases
      case 1
      then show ?thesis by (rule tok_sign_Restart [OF _ c])
    next
      case 2
      then show ?thesis by (rule tok_noble_Restart [OF _ c])
    next
      case 3
      then show ?thesis by (rule tok_punct_Restart [OF _ c])
    next
      case 4
      with rd_code_left [OF 4] c show ?thesis by (intro restart_lessI) auto
    qed
  qed
qed

function get_token_from :: "charset \<Rightarrow> int \<Rightarrow> reader \<Rightarrow> tokbuf \<Rightarrow> (xsb_token \<times> reader) res" where
  "get_token_from cs c r b =
    res_bind (token_step cs c r b) (\<lambda>(st, r').
      case st of Done t \<Rightarrow> Inr (t, r') | Restart c' \<Rightarrow> get_token_from cs c' r' b)"
  by pat_completeness auto
termination
  by (relation "measure (\<lambda>(cs, c, r, b). left r + (if c = -1 then 0 else 1))")
     (auto dest: token_step_Restart simp: restart_less_def)

declare get_token_from.simps [simp del]

text \<open>
  \<open>GetToken\<close> starts with the character after the previous token and an empty buffer;
  a string is always read as UTF-8.
\<close>

definition GetToken :: "charset \<Rightarrow> int \<Rightarrow> reader \<Rightarrow> (xsb_token \<times> reader) res" where
  "GetToken cs prevch r =
    get_token_from (if input_is_string (strm r) then UTF_8 else cs) prevch r
      \<lparr>chars = [], room = int (strbuff_len r)\<rparr>"

end
