(* ===== verification/Token_Reading.thy ===== *)
theory Token_Reading imports Tokenizer begin

text \<open>
  What the tokenizer does on a given text: the lemmas about its loops that the token
  theorems and the round trip of canonical terms are built from. \<open>at cs L r bs\<close> says
  that the reader \<open>r\<close> stands before the bytes \<open>bs\<close>, that its buffer has length \<open>L\<close> and
  that its input is UTF-8.
\<close>

section \<open>Reader positions\<close>

definition at :: "charset \<Rightarrow> nat \<Rightarrow> reader \<Rightarrow> int list \<Rightarrow> bool" where
  "at cs L r bs \<longleftrightarrow> stream_ok (strm r) \<and> pending (strm r) = bs \<and> strbuff_len r = L \<and>
     (input_is_string (strm r) \<or> cs = UTF_8)"

definition nxt :: "int list \<Rightarrow> int" where
  "nxt bs = (case bs of [] \<Rightarrow> -1 | b # _ \<Rightarrow> b)"

lemma nxt_simps [simp]: "nxt [] = -1" "nxt (b # bs) = b"
  by (simp_all add: nxt_def)

definition ascii_next :: "int list \<Rightarrow> bool" where
  "ascii_next bs \<longleftrightarrow> nxt bs < 128"

lemma ascii_next_simps [simp]: "ascii_next []" "ascii_next (b # bs) \<longleftrightarrow> b < 128"
  by (simp_all add: ascii_next_def)

lemma GetC_is_string: "GetC s = Inr (c, s') \<Longrightarrow> input_is_string s' = input_is_string s"
  by (cases s) (auto split: prod.splits)

lemma rd_codepoint:
  assumes "at cs L r (utf8_codepoint_to_str cp @ bs)" "0 \<le> cp" "cp < 0x200000"
  shows "\<exists>r'. rd_code cs r = Inr (cp, r') \<and> at cs L r' bs \<and> lastc r' = lastc r"
proof -
  let ?s = "skip (length (utf8_codepoint_to_str cp)) (strm r)"
  have "GetCode cs (strm r) = Inr (cp, ?s)"
    using assms by (intro GetCode_encoded) (auto simp: at_def)
  moreover have "stream_ok ?s" "pending ?s = bs"
    using assms(1) by (auto simp: at_def input.skip_ok input.skip_pending)
  ultimately show ?thesis
    using assms(1) by (auto simp: rd_code_def at_def)
qed

lemma utf8_ascii: "0 \<le> b \<Longrightarrow> b < 128 \<Longrightarrow> utf8_codepoint_to_str b = [b]"
  by (simp add: utf8_codepoint_to_str_def)

lemma at_bytes: "at cs L r (b # bs) \<Longrightarrow> 0 \<le> b \<and> b < 256"
  using input.get_byte_range [of "strm r" b bs] by (simp add: at_def)

lemma rd_end:
  assumes "at cs L r []"
  shows "\<exists>r'. rd_code cs r = Inr (-1, r') \<and> at cs L r' [] \<and> lastc r' = lastc r"
proof -
  obtain s' where g: "GetC (strm r) = Inr (-1, s')" "stream_ok s'" "pending s' = []"
    using assms input.get_end [of "strm r"] by (auto simp: at_def)
  then have "rd_code cs r = Inr (-1, r\<lparr>strm := s'\<rparr>)"
    by (simp add: rd_code_def GetCode_def)
  with assms g GetC_is_string [OF g(1)] show ?thesis by (auto simp: at_def)
qed

text \<open>The next character, when it is ASCII or the end of the input.\<close>

lemma rd_next:
  assumes "at cs L r bs" "ascii_next bs"
  shows "\<exists>r'. rd_code cs r = Inr (nxt bs, r') \<and> at cs L r' (tl bs) \<and> lastc r' = lastc r"
proof (cases bs)
  case Nil
  with assms rd_end [of cs L r] show ?thesis by simp
next
  case (Cons b bt)
  with assms at_bytes [of cs L r b bt] rd_codepoint [of cs L r b bt] utf8_ascii [of b]
  show ?thesis by auto
qed

lemma unget_next:
  assumes "stream_ok s" "pending s = b # bs" "b < 128" "GetC s = Inr (b, s')"
  shows "unGetC b s' = s"
proof (cases s)
  case (StrIn p)
  have s': "s' = skip 1 s" using assms input.get_byte [of s b bs] by simp
  with StrIn show ?thesis by (simp add: str_skip_def)
next
  case (FileIn l)
  with assms show ?thesis by (auto simp: ungetc_file_def)
qed

section \<open>Numbers\<close>

definition digits :: "int list \<Rightarrow> bool" where
  "digits ds \<longleftrightarrow> (\<forall>d \<in> set ds. 48 \<le> d \<and> d \<le> 57)"

lemma digits_simps [simp]:
  "digits []" "digits (d # ds) \<longleftrightarrow> 48 \<le> d \<and> d \<le> 57 \<and> digits ds"
  "digits (xs @ ys) \<longleftrightarrow> digits xs \<and> digits ys"
  by (auto simp: digits_def)

definition class_of :: "int list \<Rightarrow> int" where
  "class_of bs = (case InType (nxt bs) of Inr t \<Rightarrow> t | Inl _ \<Rightarrow> -1)"

lemma InType_nxt:
  assumes "at cs L r bs"
  shows "InType (nxt bs) = Inr (class_of bs)"
proof -
  have "-1 \<le> nxt bs \<and> nxt bs < 256"
  proof (cases bs)
    case (Cons b bt)
    with assms at_bytes [of cs L r b bt] show ?thesis by simp
  qed simp
  then show ?thesis by (simp add: class_of_def InType_defined)
qed

lemma scan_digits_text:
  assumes "at cs L r (ds @ bs)" "digits (c # ds)" "ascii_next bs" "BREAK < class_of bs"
    and "length (chars b) + length ds < L"
  shows "\<exists>r'. scan_digits cs c r b = Inr (nxt bs, r', b\<lparr>chars := chars b @ c # ds\<rparr>) \<and>
    at cs L r' (tl bs) \<and> lastc r' = lastc r"
  using assms
proof (induction ds arbitrary: c r b)
  case Nil
  obtain r' where r': "rd_code cs r = Inr (nxt bs, r')" "at cs L r' (tl bs)" "lastc r' = lastc r"
    using rd_next [of cs L r bs] Nil.prems by auto
  have "put_byte r c b = Inr (b\<lparr>chars := chars b @ [c]\<rparr>)"
    using Nil.prems by (simp add: put_byte_def at_def)
  with r' Nil.prems InType_nxt [of cs L r bs] show ?case
    by (subst scan_digits.simps) auto
next
  case (Cons d ds)
  obtain r1 where r1: "rd_code cs r = Inr (d, r1)" "at cs L r1 (ds @ bs)" "lastc r1 = lastc r"
    using rd_next [of cs L r "d # ds @ bs"] Cons.prems by auto
  have p: "put_byte r c b = Inr (b\<lparr>chars := chars b @ [c]\<rparr>)"
    using Cons.prems by (simp add: put_byte_def at_def)
  obtain r' where "scan_digits cs d r1 (b\<lparr>chars := chars b @ [c]\<rparr>)
      = Inr (nxt bs, r', b\<lparr>chars := chars b @ c # d # ds\<rparr>)" "at cs L r' (tl bs)" "lastc r' = lastc r1"
    using Cons.IH [of r1 d "b\<lparr>chars := chars b @ [c]\<rparr>"] Cons.prems r1(2) by auto
  with r1 p Cons.prems show ?case by (subst scan_digits.simps) auto
qed

text \<open>When the digits fill the buffer the scan writes past its end.\<close>

lemma scan_digits_overflow:
  assumes "at cs L r (ds @ bs)" "digits (c # ds)" and "length (chars b) \<le> L"
    and "L \<le> length (chars b) + length ds"
  shows "scan_digits cs c r b = Inl Buffer_Overflow"
  using assms
proof (induction ds arbitrary: c r b)
  case Nil
  then have "put_byte r c b = Inl Buffer_Overflow" by (simp add: put_byte_def at_def)
  with Nil.prems show ?case by (subst scan_digits.simps) auto
next
  case (Cons d ds)
  show ?case
  proof (cases "length (chars b) = L")
    case True
    with Cons.prems have "put_byte r c b = Inl Buffer_Overflow" by (simp add: put_byte_def at_def)
    with Cons.prems show ?thesis by (subst scan_digits.simps) auto
  next
    case False
    obtain r1 where r1: "rd_code cs r = Inr (d, r1)" "at cs L r1 (ds @ bs)"
      using rd_next [of cs L r "d # ds @ bs"] Cons.prems by auto
    have p: "put_byte r c b = Inr (b\<lparr>chars := chars b @ [c]\<rparr>)"
      using Cons.prems False by (simp add: put_byte_def at_def)
    have "scan_digits cs d r1 (b\<lparr>chars := chars b @ [c]\<rparr>) = Inl Buffer_Overflow"
      using Cons.IH [of r1 d "b\<lparr>chars := chars b @ [c]\<rparr>"] Cons.prems r1(2) False by simp
    with r1 p Cons.prems show ?thesis by (subst scan_digits.simps) auto
  qed
qed

definition digits_val :: "int list \<Rightarrow> int" where
  "digits_val ds = foldl (\<lambda>a c. a * 10 + (c - 48)) 0 ds"

lemma foldl_digits_ge: 
  "digits ds \<Longrightarrow> 0 \<le> a \<Longrightarrow> a \<le> foldl (\<lambda>a c. a * 10 + (c - 48)) a ds"
proof (induction ds arbitrary: a)
  case Nil
  then show ?case by simp
next
  case (Cons d ds)
  then have "a * 10 + (d - 48) \<le> foldl (\<lambda>a c. a * 10 + (c - 48)) (a * 10 + (d - 48)) ds" by simp
  moreover have "a \<le> a * 10 + (d - 48)" using Cons.prems by simp
  ultimately show ?case by simp
qed

abbreviation (input) add_digit :: "int \<Rightarrow> int \<Rightarrow> int" where
  "add_digit a c \<equiv> a * 10 + (c - 48)"

lemma decimal_loop_step:
  "a * 10 + (d - 48) \<le> XSB_MAXINT \<Longrightarrow> 48 \<le> d \<Longrightarrow> 
     decimal_loop a (d # ds) = decimal_loop (a * 10 + (d - 48)) ds"
  by (auto simp: algebra_simps)

lemma decimal_loop_exact:
  "digits ds \<Longrightarrow> 0 \<le> a \<Longrightarrow> foldl add_digit a ds \<le> XSB_MAXINT \<Longrightarrow>
    decimal_loop a ds = (foldl add_digit a ds, 0)"
proof (induction ds arbitrary: a)
  case Nil
  then show ?case by simp
next
  case (Cons d ds)
  then have "a * 10 + (d - 48) \<le> XSB_MAXINT"
    using foldl_digits_ge [of ds "a * 10 + (d - 48)"] by simp
  with Cons.prems have "decimal_loop a (d # ds) = decimal_loop (a * 10 + (d - 48)) ds"
    by (intro decimal_loop_step) auto
  with Cons.IH [of "a * 10 + (d - 48)"] Cons.prems show ?case
    by (simp only: foldl.simps digits_simps) simp
qed

lemma decimal_loop_saturates:
  "digits ds \<Longrightarrow> 0 \<le> a \<Longrightarrow> a \<le> XSB_MAXINT \<Longrightarrow> XSB_MAXINT < foldl add_digit a ds \<Longrightarrow>
    \<exists>c \<in> set ds. decimal_loop a ds = (XSB_MAXINT, c)"
proof (induction ds arbitrary: a)
  case Nil
  then show ?case by simp
next
  case (Cons d ds)
  show ?case
  proof (cases "a * 10 + (d - 48) \<le> XSB_MAXINT")
    case True
    then have "decimal_loop a (d # ds) = decimal_loop (a * 10 + (d - 48)) ds"
      using Cons.prems by (intro decimal_loop_step) auto
    moreover have "\<exists>c \<in> set ds. decimal_loop (a * 10 + (d - 48)) ds = (XSB_MAXINT, c)"
      using Cons.IH [of "a * 10 + (d - 48)"] Cons.prems True by simp
    ultimately show ?thesis by auto
  next
    case False
    with Cons.prems show ?thesis by auto
  qed
qed

end
