(* ===== verification/Token_Texts.thy ===== *)
theory Token_Texts imports Token_Reading begin

text \<open>
  The token \<open>GetToken\<close> makes of each kind of text a canonical term is written with:
  numbers, names, symbol atoms, quoted atoms and punctuation. \<open>token_at cs L bs t bs'\<close>
  says that before the text \<open>bs\<close> the next token is \<open>t\<close> and that \<open>bs'\<close> is left.
\<close>

section \<open>Classes\<close>

definition classed :: "(int \<Rightarrow> bool) \<Rightarrow> int list \<Rightarrow> bool" where
  "classed P cs \<longleftrightarrow> (\<forall>c \<in> set cs. \<exists>t. InType c = Inr t \<and> P t)"

lemma classed_simps [simp]:
  "classed P []" "classed P (c # cs) \<longleftrightarrow> (\<exists>t. InType c = Inr t \<and> P t) \<and> classed P cs"
  by (auto simp: classed_def)

abbreviation (input) name_class :: "int \<Rightarrow> bool" where "name_class t \<equiv> t \<le> LOWER"
abbreviation (input) sign_class :: "int \<Rightarrow> bool" where "sign_class t \<equiv> t = SIGN"

lemma class_of_InType: "InType (nxt bs) = Inr t \<Longrightarrow> class_of bs = t"
  by (simp add: class_of_def)

definition fresh :: "nat \<Rightarrow> int list \<Rightarrow> tokbuf" where
  "fresh L bs = \<lparr>chars = bs, room = int L - int (length bs)\<rparr>"

lemma fresh_simps [simp]: "chars (fresh L bs) = bs" "room (fresh L bs) = int L - int (length bs)"
  by (simp_all add: fresh_def)

lemma fresh_upd: "(fresh L bs)\<lparr>chars := bs @ [c], room := int L - int (length bs) - 1\<rparr> = fresh L (bs @ [c])"
  by (simp add: fresh_def)

lemma put_fresh:
  assumes "at cs L r bs" "length xs < L"
  shows "put_byte r c (fresh L xs) = Inr \<lparr>chars = xs @ [to_byte c], room = int L - int (length xs)\<rparr>"
    "put_byte r c ((fresh L xs)\<lparr>room := int L - int (length xs) - 1\<rparr>) = Inr (fresh L (xs @ [to_byte c]))"
  using assms by (simp_all add: put_byte_def fresh_def at_def)

lemma name_step:
  assumes "at cs L r bs" "length xs < L"
  shows "scan_name cs c r (fresh L xs) =
     res_bind (rd_code cs r) (\<lambda>(c', r'). res_bind (InType c') (\<lambda>t.
       if t \<le> LOWER then scan_name cs c' r' (fresh L (xs @ [to_byte c]))
       else Inr (c', r', fresh L (xs @ [to_byte c]))))"
  using assms put_fresh(2) [OF assms, of c] by (subst scan_name.simps) (simp add: Let_def)

lemma scan_name_text:
  assumes "at cs L r (ds @ bs)" "classed name_class (c # ds)" "\<forall>d \<in> set (c # ds). d < 128"
    "ascii_next bs" "LOWER < class_of bs" "0 \<le> c" and "length xs + length ds < L"
  shows "\<exists>r'. scan_name cs c r (fresh L xs) = Inr (nxt bs, r', fresh L (xs @ c # ds)) \<and>
    at cs L r' (tl bs)"
  using assms
proof (induction ds arbitrary: c r xs)
  case Nil
  obtain r' where r': "rd_code cs r = Inr (nxt bs, r')" "at cs L r' (tl bs)"
    using rd_next [of cs L r bs] Nil.prems by auto
  with Nil.prems InType_nxt [of cs L r bs] show ?case
    by (auto simp: name_step)
next
  case (Cons d ds)
  obtain r1 where r1: "rd_code cs r = Inr (d, r1)" "at cs L r1 (ds @ bs)"
    using rd_next [of cs L r "d # ds @ bs"] Cons.prems by auto
  have "0 \<le> d" using at_bytes [of cs L r d "ds @ bs"] Cons.prems(1) by simp
  then obtain r' where "scan_name cs d r1 (fresh L (xs @ [c])) = Inr (nxt bs, r', fresh L (xs @ c # d # ds))"
    "at cs L r' (tl bs)"
    using Cons.IH [of r1 d "xs @ [c]"] Cons.prems r1(2) by auto
  with r1 Cons.prems show ?case by (auto simp: name_step)
qed

lemma scan_sign_text:
  assumes "at cs L r (tl (ds @ bs))" "classed sign_class ds" "ascii_next bs" "all_bytes ds"
    "\<forall>d \<in> set ds. d < 128" "InType (nxt bs) = Inr t" "t \<noteq> SIGN"
    and "length (chars b) + length ds < L" "int (length ds) < room b"
  shows "\<exists>r'. scan_sign cs (nxt (ds @ bs)) r b =
      Inr (nxt bs, r', b\<lparr>chars := chars b @ ds, room := room b - int (length ds)\<rparr>) \<and>
    at cs L r' (tl bs)"
  using assms
proof (induction ds arbitrary: r b)
  case Nil
  then show ?case by (subst scan_sign.simps) auto
next
  case (Cons d ds)
  let ?b = "b\<lparr>chars := chars b @ [d], room := room b - 1\<rparr>"
  have asc: "ascii_next (ds @ bs)" using Cons.prems by (cases ds) auto
  obtain r1 where r1: "rd_code cs r = Inr (nxt (ds @ bs), r1)" "at cs L r1 (tl (ds @ bs))"
    using rd_next [of cs L r "ds @ bs"] Cons.prems(1) asc by auto
  have "put_byte r d (b\<lparr>room := room b - 1\<rparr>) = Inr ?b"
    using Cons.prems by (simp add: put_byte_def at_def all_bytes_def)
  then have step: "scan_sign cs d r b = scan_sign cs (nxt (ds @ bs)) r1 ?b"
    using Cons.prems r1 by (subst scan_sign.simps) (simp add: Let_def)
  obtain r' where "scan_sign cs (nxt (ds @ bs)) r1 ?b =
      Inr (nxt bs, r', ?b\<lparr>chars := chars ?b @ ds, room := room ?b - int (length ds)\<rparr>)"
    "at cs L r' (tl bs)"
    using Cons.IH [of r1 ?b] r1(2) Cons.prems by (auto simp: all_bytes_def)
  with step show ?case by (auto simp: algebra_simps)
qed

section \<open>Quoted text\<close>

definition quote_cp :: "int \<Rightarrow> int \<Rightarrow> int list" where
  "quote_cp q c = (if c = q \<or> c = escapech then [c, c] else utf8_codepoint_to_str c)"

definition plain_cp :: "int \<Rightarrow> bool" where
  "plain_cp c \<longleftrightarrow> 0 < c \<and> c < 0x200000"

lemma read_character_cp:
  assumes "at cs L r (quote_cp q c @ bs)" "plain_cp c" "q = 39 \<or> q = 34"
  shows "\<exists>r'. read_character cs q r = Inr (c, r') \<and> at cs L r' bs"
proof (cases "c = q \<or> c = escapech")
  case False
  then have e: "quote_cp q c = utf8_codepoint_to_str c" by (simp add: quote_cp_def)
  obtain r' where "rd_code cs r = Inr (c, r')" "at cs L r' bs"
    using rd_codepoint [of cs L r c bs] assms(1,2) e by (auto simp: plain_cp_def)
  with False assms(2) show ?thesis
    by (auto simp: read_character_def read_char_back.simps [of cs q c] plain_cp_def)
next
  case True
  then have c: "0 \<le> c" "c < 128" "c \<noteq> 10" "c \<noteq> 13" and e: "quote_cp q c = [c, c]"
    using assms(3) by (auto simp: quote_cp_def)
  obtain r1 where r1: "rd_code cs r = Inr (c, r1)" "at cs L r1 (c # bs)"
    using rd_next [of cs L r "c # c # bs"] assms(1) c e by auto
  obtain r2 where r2: "rd_code cs r1 = Inr (c, r2)" "at cs L r2 bs"
    using rd_next [of cs L r1 "c # bs"] r1 c by auto
  show ?thesis
  proof (cases "c = q")
    case True
    with r1 r2 c show ?thesis
      by (simp add: read_character_def read_char_back.simps [of cs q q])
  next
    case False
    then have "c = 92" using True by simp
    moreover have "read_escape cs q 92 r2 = Inr (92, r2)"
      by (simp add: read_escape_def escape_table_def)
    ultimately show ?thesis using r1 r2 False assms(3)
      by (auto simp: read_character_def read_char_back.simps [of cs q 92])
  qed
qed

lemma at_lastc [simp]: "at cs L (r\<lparr>lastc := c\<rparr>) bs = at cs L r bs"
  by (simp add: at_def)

lemma read_character_close:
  assumes "at cs L r (q # bs)" "ascii_next bs" "nxt bs \<noteq> q" "q = 39 \<or> q = 34"
  shows "\<exists>r'. read_character cs q r = Inr (-1, r') \<and> at cs L r' (tl bs) \<and> lastc r' = nxt bs"
proof -
  obtain r1 where r1: "rd_code cs r = Inr (q, r1)" "at cs L r1 bs"
    using rd_next [of cs L r "q # bs"] assms by auto
  obtain r2 where r2: "rd_code cs r1 = Inr (nxt bs, r2)" "at cs L r2 (tl bs)"
    using rd_next [of cs L r1 bs] r1 assms by auto
  with r1 assms show ?thesis
    by (auto simp: read_character_def read_char_back.simps [of cs q q])
qed

definition utf8_text :: "int list \<Rightarrow> int list" where
  "utf8_text cps = concat (map utf8_codepoint_to_str cps)"

lemma utf8_text_simps [simp]:
  "utf8_text [] = []" "utf8_text (c # cps) = utf8_codepoint_to_str c @ utf8_text cps"
  by (simp_all add: utf8_text_def)

lemma utf8_length: "0 \<le> c \<Longrightarrow> c < 0x200000 \<Longrightarrow>
   length (utf8_codepoint_to_str c) \<le> 4 \<and> (127 < c \<longrightarrow> 1 < length (utf8_codepoint_to_str c))"
  by (cases c rule: utf8_encoding_cases) auto

lemma put_codepoint_fresh:
  assumes "at cs L r bs" "plain_cp c" "length xs + length (utf8_codepoint_to_str c) + 3 \<le> L"
  shows "put_codepoint c r (fresh L xs) = Inr (r, fresh L (xs @ utf8_codepoint_to_str c))"
proof (cases "c \<le> 127")
  case True
  then have "utf8_codepoint_to_str c = [c]" using assms(2) by (auto simp: plain_cp_def utf8_ascii)
  with True assms put_fresh(2) [of cs L r bs xs c] show ?thesis
    by (auto simp: put_codepoint_def plain_cp_def)
next
  case False
  with utf8_length [of c] assms show ?thesis
    by (simp add: put_codepoint_def plain_cp_def at_def fresh_def Let_def)
qed

lemma read_quoted_text:
  assumes "at cs L r (concat (map (quote_cp q) cps) @ q # bs)" "\<forall>c \<in> set cps. plain_cp c"
    "q = 39 \<or> q = 34" "ascii_next bs" "nxt bs \<noteq> q" "length xs + length (utf8_text cps) + 3 \<le> L"
  shows "\<exists>r'. read_quoted cs q r (fresh L xs) = Inr (r', fresh L (xs @ utf8_text cps)) \<and>
    at cs L r' (tl bs) \<and> lastc r' = nxt bs"
  using assms
proof (induction cps arbitrary: r xs)
  case Nil
  then obtain r' where "read_character cs q r = Inr (-1, r')" "at cs L r' (tl bs)" "lastc r' = nxt bs"
    using read_character_close [of cs L r q bs] by auto
  then show ?case by (subst read_quoted.simps) auto
next
  case (Cons c cps)
  obtain r1 where r1: "read_character cs q r = Inr (c, r1)"
    "at cs L r1 (concat (map (quote_cp q) cps) @ q # bs)"
    using read_character_cp [of cs L r q c] Cons.prems by auto
  have p: "put_codepoint c r1 (fresh L xs) = Inr (r1, fresh L (xs @ utf8_codepoint_to_str c))"
    using put_codepoint_fresh [OF r1(2)] Cons.prems by simp
  obtain r' where "read_quoted cs q r1 (fresh L (xs @ utf8_codepoint_to_str c))
      = Inr (r', fresh L ((xs @ utf8_codepoint_to_str c) @ utf8_text cps))"
    "at cs L r' (tl bs)" "lastc r' = nxt bs"
    using Cons.IH [OF r1(2), of "xs @ utf8_codepoint_to_str c"] Cons.prems by auto
  with r1 p Cons.prems show ?case by (subst read_quoted.simps) (auto simp: plain_cp_def)
qed


section \<open>Tokens\<close>

definition token_at :: "nat \<Rightarrow> int list \<Rightarrow> token_type \<Rightarrow> tok_value \<Rightarrow> int list \<Rightarrow> bool" where
  "token_at L bs ty v bs' \<longleftrightarrow>
     (\<forall>r. at UTF_8 L r (tl bs) \<longrightarrow>
        (\<exists>r'. GetToken UTF_8 (nxt bs) r = Inr (\<lparr>tok_type = ty, tok_value = v, nextch = nxt bs'\<rparr>, r') \<and>
          at UTF_8 L r' (tl bs')))"

lemma token_atI:
  assumes "\<And>r. at UTF_8 L r (tl bs) \<Longrightarrow>
    \<exists>r'. token_step UTF_8 (nxt bs) r (fresh L []) = finish ty v (nxt bs') r' \<and> at UTF_8 L r' (tl bs')"
  shows "token_at L bs ty v bs'"
  unfolding token_at_def
proof (intro allI impI)
  fix r
  assume r: "at UTF_8 L r (tl bs)"
  with assms obtain r' where
    "token_step UTF_8 (nxt bs) r (fresh L []) = finish ty v (nxt bs') r'" "at UTF_8 L r' (tl bs')"
    by blast
  moreover have "\<lparr>chars = [], room = int (strbuff_len r)\<rparr> = fresh L []"
    using r by (simp add: at_def fresh_def)
  ultimately show "\<exists>r'. GetToken UTF_8 (nxt bs) r
      = Inr (\<lparr>tok_type = ty, tok_value = v, nextch = nxt bs'\<rparr>, r') \<and> at UTF_8 L r' (tl bs')"
    by (auto simp: GetToken_def get_token_from.simps finish_def)
qed

text \<open>What may follow a name or a number without becoming part of it.\<close>

abbreviation (input) blank :: "int \<Rightarrow> bool" where "blank c \<equiv> c \<in> {9, 10, 13, 32}"

definition sep :: "int list \<Rightarrow> bool" where
  "sep bs \<longleftrightarrow> nxt bs \<in> {-1, 9, 10, 13, 32, 40, 41, 44, 93, 124}"

lemma class_low [simp]:
  "InType 40 = Inr PUNCT" "InType 41 = Inr PUNCT" "InType 44 = Inr PUNCT"
  "InType 91 = Inr PUNCT" "InType 93 = Inr PUNCT" "InType 124 = Inr PUNCT"
  "InType 39 = Inr ATMQT" "InType 34 = Inr LISQT" "InType 46 = Inr SIGN" "InType 33 = Inr NOBLE"
  "InType 9 = Inr SPACE" "InType 10 = Inr EOLN" "InType 13 = Inr SPACE" "InType 32 = Inr SPACE"
  by (simp_all add: InType_def chtype_def array_get_def)

lemma sep_class: "sep bs \<Longrightarrow> \<exists>t. InType (nxt bs) = Inr t \<and> class_of bs = t \<and> LOWER < t \<and> t \<noteq> SIGN"
  by (auto simp: sep_def class_of_def)

lemma sep_ascii: "sep bs \<Longrightarrow> ascii_next bs"
  by (auto simp: sep_def ascii_next_def)

lemma terminate_fresh [simp]: "at cs L r bs \<Longrightarrow> length xs < L \<Longrightarrow> terminate r (fresh L xs) = Inr ()"
  by (simp add: terminate_def at_def)

definition func_or :: "token_type \<Rightarrow> token_type \<Rightarrow> int list \<Rightarrow> token_type" where
  "func_or f p bs = (if nxt bs = 40 then f else p)"

lemma token_quoted:
  assumes "\<forall>c \<in> set cps. plain_cp c" "sep bs" "length (utf8_text cps) + 3 \<le> L"
  shows "token_at L (39 # concat (map (quote_cp 39) cps) @ 39 # bs)
    (func_or TK_FUNC TK_ATOM bs) (StrValue (utf8_text cps)) bs"
proof (rule token_atI)
  fix r
  assume r: "at UTF_8 L r (tl (39 # concat (map (quote_cp 39) cps) @ 39 # bs))"
  have n: "nxt bs \<noteq> 39" using assms(2) by (auto simp: sep_def)
  obtain r' where r': "read_quoted UTF_8 39 r (fresh L []) = Inr (r', fresh L (utf8_text cps))"
    "at UTF_8 L r' (tl bs)" "lastc r' = nxt bs"
    using read_quoted_text [of UTF_8 L r 39 cps bs "[]"] r assms n sep_ascii by auto
  with assms show "\<exists>r'. token_step UTF_8 (nxt (39 # concat (map (quote_cp 39) cps) @ 39 # bs)) r (fresh L []) =
      finish (func_or TK_FUNC TK_ATOM bs) (StrValue (utf8_text cps)) (nxt bs) r' \<and> at UTF_8 L r' (tl bs)"
    by (auto simp: token_step_def tok_atmqt_def tok_symbol_def func_or_def)
qed

lemma token_lower:
  assumes "InType c = Inr LOWER" "classed name_class ds" "\<forall>d \<in> set (c # ds). 0 \<le> d \<and> d < 128"
    "sep bs" "Suc (length ds) < L"
  shows "token_at L (c # ds @ bs) (func_or TK_FUNC TK_ATOM bs) (StrValue (c # ds)) bs"
proof (rule token_atI)
  fix r
  assume r: "at UTF_8 L r (tl (c # ds @ bs))"
  obtain r' where "scan_name UTF_8 c r (fresh L []) = Inr (nxt bs, r', fresh L (c # ds))"
    "at UTF_8 L r' (tl bs)"
    using scan_name_text [of UTF_8 L r ds bs c "[]"] r assms sep_class sep_ascii by auto
  with assms show "\<exists>r'. token_step UTF_8 (nxt (c # ds @ bs)) r (fresh L []) =
      finish (func_or TK_FUNC TK_ATOM bs) (StrValue (c # ds)) (nxt bs) r' \<and> at UTF_8 L r' (tl bs)"
    by (auto simp: token_step_def tok_lower_def tok_symbol_def func_or_def)
qed

lemma token_underscore:
  assumes "classed name_class ds" "\<forall>d \<in> set ds. 0 \<le> d \<and> d < 128"
    "sep bs" "nxt bs \<noteq> 40" "Suc (length ds) < L"
  shows "token_at L (95 # ds @ bs) TK_VVAR (StrValue (95 # ds)) bs"
proof (rule token_atI)
  fix r
  assume r: "at UTF_8 L r (tl (95 # ds @ bs))"
  have u: "InType 95 = Inr BREAK" by (simp add: InType_break_iff)
  obtain r' where "scan_name UTF_8 95 r (fresh L []) = Inr (nxt bs, r', fresh L (95 # ds))"
    "at UTF_8 L r' (tl bs)"
    using scan_name_text [of UTF_8 L r ds bs 95 "[]"] r assms sep_class sep_ascii u by auto
  with assms u show "\<exists>r'. token_step UTF_8 (nxt (95 # ds @ bs)) r (fresh L []) =
      finish TK_VVAR (StrValue (95 # ds)) (nxt bs) r' \<and> at UTF_8 L r' (tl bs)"
    by (auto simp: token_step_def tok_name_def)
qed

definition symbol_text :: "int list \<Rightarrow> bool" where
  "symbol_text ds \<longleftrightarrow> ds \<noteq> [] \<and> classed sign_class ds \<and> ds \<noteq> [46] \<and> take 2 ds \<noteq> [47, 42] \<and>
     (\<forall>d \<in> set ds. 0 \<le> d \<and> d < 128)"

lemma InType_star: "InType 42 = Inr SIGN"
  by (simp add: InType_def chtype_def array_get_def)

lemma token_symbol:
  assumes ds: "symbol_text ds" and bs: "ascii_next bs" "InType (nxt bs) = Inr t" "t \<noteq> SIGN"
    and L: "length ds + 1 < L"
  shows "token_at L (ds @ bs) (func_or TK_FUNC TK_ATOM bs) (StrValue ds) bs"
proof (rule token_atI)
  fix r
  assume r: "at UTF_8 L r (tl (ds @ bs))"
  obtain c ds' where d: "ds = c # ds'" using ds by (cases ds) (auto simp: symbol_text_def)
  let ?b = "\<lparr>chars = [c], room = int L\<rparr>"
  have c: "InType c = Inr SIGN" "0 \<le> c" "c < 128" using ds d by (auto simp: symbol_text_def)
  note t = bs(2,3)
  have asc: "ascii_next (ds' @ bs)" 
    using ds d bs(1) by (cases ds') (auto simp: symbol_text_def)
  have put: "put_byte r c (fresh L []) = Inr ?b" 
    using put_fresh(1) [of UTF_8 L r _ "[]" c] r L c by simp
  obtain r1 where r1: "rd_code UTF_8 r = Inr (nxt (ds' @ bs), r1)" "at UTF_8 L r1 (tl (ds' @ bs))"
    using rd_next [of UTF_8 L r "ds' @ bs"] r d asc by auto
  obtain r' where r': "scan_sign UTF_8 (nxt (ds' @ bs)) r1 ?b =
      Inr (nxt bs, r', ?b\<lparr>chars := c # ds', room := int L - int (length ds')\<rparr>)" "at UTF_8 L r' (tl bs)"
    using scan_sign_text [OF r1(2) _ bs(1) _ _ t, of ?b] ds d L
    by (fastforce simp: symbol_text_def all_bytes_def)
  have com: "\<not> (c = begcom \<and> nxt (ds' @ bs) = astcom)"
    using ds d bs by (cases ds') (auto simp: symbol_text_def InType_star)
  have dec: "c = dpoint \<Longrightarrow> \<exists>u. InType (nxt (ds' @ bs)) = Inr u \<and> u \<noteq> DIGIT"
    using ds d by (cases ds') (auto simp: symbol_text_def)
  have eoc: "c = termin \<longrightarrow> (c # ds' @ [0]) ! 1 \<noteq> 0"
  proof (cases ds')
    case (Cons d ds'')
    then have "InType d = Inr SIGN" using ds \<open>ds = c # ds'\<close> by (simp add: symbol_text_def)
    then have "d \<noteq> 0" by (auto simp: InType_def chtype_def array_get_def)
    with Cons show ?thesis by simp
  qed (use ds d in \<open>auto simp: symbol_text_def\<close>)
  have "token_step UTF_8 c r (fresh L []) = finish (func_or TK_FUNC TK_ATOM bs) (StrValue ds) (nxt bs) r'"
    using put r1 r' com dec eoc t c L d
    by (auto simp: token_step_def tok_sign_def tok_symbol_def func_or_def terminate_def at_def)
  then show "\<exists>r'. token_step UTF_8 (nxt (ds @ bs)) r (fresh L []) =
      finish (func_or TK_FUNC TK_ATOM bs) (StrValue ds) (nxt bs) r' \<and> at UTF_8 L r' (tl bs)"
    using d r' by auto
qed

lemma token_cut:
  assumes "sep bs" "1 < L"
  shows "token_at L (33 # bs) (func_or TK_FUNC TK_ATOM bs) (StrValue [33]) bs"
proof (rule token_atI)
  fix r
  assume r: "at UTF_8 L r (tl (33 # bs))"
  obtain r' where "rd_code UTF_8 r = Inr (nxt bs, r')" "at UTF_8 L r' (tl bs)"
    using rd_next [of UTF_8 L r bs] r sep_ascii [OF assms(1)] by auto
  with r assms show "\<exists>r'. token_step UTF_8 (nxt (33 # bs)) r (fresh L []) =
      finish (func_or TK_FUNC TK_ATOM bs) (StrValue [33]) (nxt bs) r' \<and> at UTF_8 L r' (tl bs)"
    by (auto simp: token_step_def tok_noble_def tok_symbol_def func_or_def put_byte_def at_def
        terminate_def fresh_def)
qed

lemma token_nil:
  assumes "sep bs" "2 < L"
  shows "token_at L (91 # 93 # bs) (func_or TK_FUNC TK_ATOM bs) (StrValue [91, 93]) bs"
proof (rule token_atI)
  fix r
  assume r: "at UTF_8 L r (tl (91 # 93 # bs))"
  obtain r1 where r1: "rd_code UTF_8 r = Inr (93, r1)" "at UTF_8 L r1 bs"
    using rd_next [of UTF_8 L r "93 # bs"] r by auto
  obtain r' where "rd_code UTF_8 r1 = Inr (nxt bs, r')" "at UTF_8 L r' (tl bs)"
    using rd_next [of UTF_8 L r1 bs] r1 sep_ascii [OF assms(1)] by auto
  with r1 assms show "\<exists>r'. token_step UTF_8 (nxt (91 # 93 # bs)) r (fresh L []) =
      finish (func_or TK_FUNC TK_ATOM bs) (StrValue [91, 93]) (nxt bs) r' \<and> at UTF_8 L r' (tl bs)"
    using r by (auto simp: token_step_def tok_punct_def tok_symbol_def func_or_def put_byte_def at_def
        terminate_def fresh_def)
qed

lemma token_punct:
  assumes p: "p \<in> {40, 41, 44, 91, 93, 124}" and bs: "ascii_next bs"
    and two: "p = 91 \<longrightarrow> nxt bs \<noteq> 93" "p = 41 \<longrightarrow> nxt bs \<noteq> 40" and L: "1 < L"
  shows "token_at L (p # bs) TK_PUNC (StrValue [p]) bs"
proof (rule token_atI)
  fix r
  assume r: "at UTF_8 L r (tl (p # bs))"
  obtain r' where r': "rd_code UTF_8 r = Inr (nxt bs, r')" "at UTF_8 L r' (tl bs)"
    using rd_next [of UTF_8 L r bs] r bs by auto
  have "InType p = Inr PUNCT" "p \<noteq> 47" "p \<noteq> 46" "p \<noteq> 37" "p \<noteq> 123" using p by auto
  moreover have "strbuff_len r = L" "strbuff_len r' = L" using r r' by (auto simp: at_def)
  moreover have "to_byte p = p" using p by (auto simp: to_byte_def)
  ultimately have "token_step UTF_8 p r (fresh L []) = finish TK_PUNC (StrValue [p]) (nxt bs) r'"
    using r' two L by (auto simp: token_step_def tok_punct_def put_byte_def terminate_def fresh_def)
  with r' show "\<exists>r'. token_step UTF_8 (nxt (p # bs)) r (fresh L []) =
      finish TK_PUNC (StrValue [p]) (nxt bs) r' \<and> at UTF_8 L r' (tl bs)"
    by auto
qed

lemma rd_unget_next:
  assumes "at cs L r (b # bs)" "b < 128"
  shows "\<exists>r'. rd_code cs r = Inr (b, r') \<and> at cs L r' bs \<and> at cs L (rd_unget b r') (b # bs)"
proof -
  have b: "0 \<le> b" using at_bytes [OF assms(1)] by simp
  let ?s = "skip 1 (strm r)"
  have g: "GetCode cs (strm r) = Inr (b, ?s)"
    using GetCode_encoded [of "strm r" b bs cs] assms b utf8_ascii [OF b assms(2)] by (auto simp: at_def)
  have "unGetC b ?s = strm r"
    using unget_next [of "strm r" b bs ?s] input.get_byte [of "strm r" b bs] assms by (simp add: at_def)
  then have "rd_unget b (r\<lparr>strm := ?s\<rparr>) = r" by (simp add: rd_unget_def)
  moreover have "at cs L (r\<lparr>strm := ?s\<rparr>) bs"
    using assms(1) input.skip_ok [of "strm r" 1] input.skip_pending [of "strm r" 1] by (auto simp: at_def)
  ultimately show ?thesis using g assms(1) by (intro exI [of _ "r\<lparr>strm := ?s\<rparr>"]) (simp add: rd_code_def)
qed

text \<open>A full stop and a blank end a clause; the blank is put back.\<close>

lemma token_stop:
  assumes r: "at UTF_8 L r (w # bs)" and w: "blank w" and L: "1 < L"
  shows "\<exists>r'. GetToken UTF_8 46 r = Inr (\<lparr>tok_type = TK_EOC, tok_value = NoValue, nextch = w\<rparr>, r') \<and>
    at UTF_8 L r' (w # bs)"
proof -
  have "w < 128" using w by auto
  with rd_unget_next [OF r] obtain r1 where r1: "rd_code UTF_8 r = Inr (w, r1)" "at UTF_8 L r1 bs"
    "at UTF_8 L (rd_unget w r1) (w # bs)" by blast
  obtain ty where ty: "InType w = Inr ty" "SPACE \<le> ty" "ty \<noteq> SIGN" "ty \<noteq> DIGIT" using w by auto
  have len: "strbuff_len r = L" "strbuff_len r1 = L" using r r1(2) by (simp_all add: at_def)
  have "scan_sign UTF_8 w r1 b = Inr (w, r1, b)" for b using ty by (subst scan_sign.simps) simp
  then have "token_step UTF_8 46 r (fresh L []) = finish TK_EOC NoValue w (rd_unget w r1)"
    using r1(1) ty len L w
    by (auto simp: token_step_def tok_sign_def put_byte_def terminate_def fresh_def to_byte_def)
  with r1(3) len show ?thesis
    by (simp add: GetToken_def get_token_from.simps finish_def fresh_def)
qed

lemma token_eof:
  "at UTF_8 L r [] \<Longrightarrow> \<exists>r'. GetToken UTF_8 (-1) r =
     Inr (\<lparr>tok_type = TK_EOF, tok_value = NoValue, nextch = 32\<rparr>, r')"
  by (simp add: GetToken_def get_token_from.simps token_step_def finish_def)

text \<open>A decimal number, saturated at \<open>XSB_MAXINT\<close>.\<close>

lemma decimal_loop_value:
  assumes "digits ds"
  shows "\<exists>c. decimal_loop 0 ds = (min (digits_val ds) XSB_MAXINT, c) \<and> c \<noteq> 40"
proof (cases "digits_val ds \<le> XSB_MAXINT")
  case True
  then have "decimal_loop 0 ds = (digits_val ds, 0)"
    using decimal_loop_exact [OF assms, of 0] by (simp add: digits_val_def)
  with True show ?thesis by simp
next
  case False
  then obtain c where "c \<in> set ds" "decimal_loop 0 ds = (XSB_MAXINT, c)"
    using decimal_loop_saturates [OF assms, of 0] by (auto simp: digits_val_def)
  with False assms show ?thesis by (auto simp: digits_def)
qed

lemma token_int:
  assumes ds: "digits (d # ds)" and bs: "sep bs" and L: "Suc (length ds) < L"
  shows "token_at L (d # ds @ bs) TK_INT (IntValue (min (digits_val (d # ds)) XSB_MAXINT)) bs"
proof (rule token_atI)
  fix r
  assume r: "at UTF_8 L r (tl (d # ds @ bs))"
  obtain r' where r': "scan_digits UTF_8 d r (fresh L []) = Inr (nxt bs, r', (fresh L [])\<lparr>chars := d # ds\<rparr>)"
    "at UTF_8 L r' (tl bs)"
    using scan_digits_text [of UTF_8 L r ds bs d "fresh L []"] r ds L sep_class [OF bs] sep_ascii [OF bs]
    by auto
  obtain c where c: "decimal_loop 0 (d # ds) = (min (digits_val (d # ds)) XSB_MAXINT, c)" "c \<noteq> 40"
    using decimal_loop_value [OF ds] by blast
  have "terminate r' ((fresh L [])\<lparr>chars := d # ds\<rparr>) = Inr ()"
    using r'(2) L by (simp add: terminate_def at_def)
  then have "token_step UTF_8 d r (fresh L [])
      = finish TK_INT (IntValue (min (digits_val (d # ds)) XSB_MAXINT)) (nxt bs) r'"
    using r' c ds bs by (simp add: token_step_def tok_digit_def tok_decimal_int_def sep_def del: decimal_loop.simps)
      auto
  with r' show "\<exists>r'. token_step UTF_8 (nxt (d # ds @ bs)) r (fresh L []) =
      finish TK_INT (IntValue (min (digits_val (d # ds)) XSB_MAXINT)) (nxt bs) r' \<and> at UTF_8 L r' (tl bs)"
    by auto
qed

end
