(* ===== verification/Canonical_Write.thy ===== *)
theory Canonical_Write imports Utf8 begin

text \<open>
  Writing quoted names and canonical terms, emu/io_builtins_xsb.c:
  \<open>quotes_are_needed\<close>, \<open>string_contains_quotes\<close>, \<open>double_quotes\<close>,
  \<open>write_quotedname\<close>, \<open>cvt_float_to_str\<close> and \<open>write_canonical_term_rec\<close> with its
  entry points.

  A term is what the tagged cells stand for: \<open>PVar\<close> an unbound cell, \<open>PInt\<close> a small or
  boxed integer, \<open>PReal\<close> a float, \<open>PAttv\<close> an attributed variable (the cells for which
  the switch has no case). A name is its bytes without the final 0. What
  \<open>sprintf "%1.17g"\<close> prints for a double is the parameter \<open>fmt\<close>.
\<close>

section \<open>Terms\<close>

datatype ('v, 'f) pterm =
    PVar 'v
  | PInt int
  | PReal 'f
  | PAtom "int list"
  | PList "('v, 'f) pterm" "('v, 'f) pterm"
  | PStruct "int list" "('v, 'f) pterm list"
  | PAttv

text \<open>Where a free variable lives, with the index \<open>write_canonical\<close> prints for it.\<close>

datatype var_cell = HeapVar nat | LocalVar nat | OtherVar nat

abbreviation (input) nil_name :: "int list" where "nil_name \<equiv> [91, 93]"
abbreviation (input) dollar_var :: "int list" where "dollar_var \<equiv> [36, 86, 65, 82]"

section \<open>Quoted names\<close>

text \<open>The characters of a name that needs no quotes after a lower-case letter.\<close>

definition name_char :: "int \<Rightarrow> bool" where
  "name_char c \<longleftrightarrow> \<not> (c < 48 \<or> 57 < c \<and> c < 65 \<or> (90 < c \<and> c < 97) \<and> c \<noteq> 95 \<or> 122 < c)"

definition symbol_char :: "int \<Rightarrow> bool" where
  "symbol_char c \<longleftrightarrow> c \<in> {35, 36, 38, 42, 43, 45, 46, 47, 58, 60, 61, 62, 63, 64, 92, 94, 96, 126}"

text \<open>
  \<open>char\<close> is signed, so the bytes from 128 on are negative; the second loop starts with
  the flag the first one left.
\<close>

definition quotes_are_needed :: "int list \<Rightarrow> bool" where
  "quotes_are_needed s =
    (case s of [] \<Rightarrow> True
     | c # _ \<Rightarrow>
        if s = nil_name then False
        else if take 2 s = [47, 42] then True
        else
          (let lower = (97 \<le> to_char c \<and> to_char c \<le> 122);
               flag = (lower \<and> \<not> list_all (\<lambda>c. name_char (to_char c)) s) in
           if lower \<and> \<not> flag then False
           else if s = [33] then False
           else if s = [46] then True
           else flag \<or> \<not> list_all (\<lambda>c. symbol_char (to_char c)) s))"

definition string_contains_quotes :: "int list \<Rightarrow> bool" where
  "string_contains_quotes s \<longleftrightarrow> 39 \<in> set s \<or> 92 \<in> set s"

fun double_quotes :: "int list \<Rightarrow> int list" where
  "double_quotes [] = []"
| "double_quotes (c # s) = (if c = 39 \<or> c = 92 then c # c # double_quotes s else c # double_quotes s)"

text \<open>
  \<open>double_quotes_into n\<close> is the copy into a buffer of \<open>n\<close> bytes, the final 0 included.
\<close>

definition double_quotes_into :: "nat \<Rightarrow> int list \<Rightarrow> int list res" where
  "double_quotes_into n s =
    (if length (double_quotes s) < n then Inr (double_quotes s) else Inl Buffer_Overflow)"

definition write_quotedname :: "int list \<Rightarrow> charset \<Rightarrow> int list \<Rightarrow> (int list \<times> int list) res" where
  "write_quotedname hash cs s =
    (if s = [] then write_string_code hash cs [39, 39]
     else if \<not> quotes_are_needed s then write_string_code hash cs s
     else
       (let neededlen = 2 * length s + 1 in
        res_bind (double_quotes_into (if neededlen < 1000 then 1000 else neededlen) s) (\<lambda>new.
        res_bind (write_string_code hash cs [39]) (\<lambda>(q1, hash).
        res_bind (write_string_code hash cs new) (\<lambda>(mid, hash).
        res_bind (write_string_code hash cs [39]) (\<lambda>(q2, hash).
          Inr (q1 @ mid @ q2, hash)))))))"

section \<open>Numbers\<close>

fun nat_digits :: "nat \<Rightarrow> int list" where
  "nat_digits n = (if n < 10 then [48 + int n] else nat_digits (n div 10) @ [48 + int (n mod 10)])"

declare nat_digits.simps [simp del]

text \<open>\<open>sprintf\<close> with a signed decimal format.\<close>

definition int_text :: "int \<Rightarrow> int list" where
  "int_text i = (if i < 0 then 45 # nat_digits (nat (- i)) else nat_digits (nat i))"

definition c_div :: "int \<Rightarrow> int \<Rightarrow> int" where
  "c_div a b = sgn a * sgn b * (\<bar>a\<bar> div \<bar>b\<bar>)"

definition c_rem :: "int \<Rightarrow> int \<Rightarrow> int" where
  "c_rem a b = a - b * c_div a b"

text \<open>
  \<open>cvt_float_to_str\<close> on the text printed for the double: a text without a point gets
  \<open>.0\<close>, before its exponent if it has one. The exponent goes through \<open>char exp[5]\<close> and
  the rest through \<open>char fstr[30]\<close>.
\<close>

definition cvt_float_to_str :: "int list \<Rightarrow> int list res" where
  "cvt_float_to_str g =
    (if 46 \<in> set g then Inr g
     else
       (let mant = takeWhile (\<lambda>c. c \<noteq> 101) g; ex = dropWhile (\<lambda>c. c \<noteq> 101) g in
        if ex = [] then Inr (g @ [46, 48])
        else if 5 \<le> length ex \<or> 30 \<le> length mant then Inl Buffer_Overflow
        else Inr (mant @ [46, 48] @ ex)))"

section \<open>write_canonical\<close>

text \<open>The text of a name: of an atom, and of a functor, which are quoted by two code paths.\<close>

definition atom_text :: "int list \<Rightarrow> int list res" where
  "atom_text s =
    (if quotes_are_needed s then
       if string_contains_quotes s then
         res_bind (double_quotes_into (2 * length s + 1) s) (\<lambda>d. Inr ([39] @ d @ [39]))
       else Inr ([39] @ s @ [39])
     else Inr s)"

definition functor_text :: "int list \<Rightarrow> int list res" where
  "functor_text s =
    (if quotes_are_needed s then
       res_bind (double_quotes_into (2 * length s + 1) s) (\<lambda>d. Inr ([39] @ d @ [39]))
     else Inr s)"

fun var_text :: "var_cell \<Rightarrow> int list" where
  "var_text (HeapVar n) = [95, 104] @ nat_digits n"
| "var_text (LocalVar n) = [95, 108] @ nat_digits n"
| "var_text (OtherVar n) = 95 # nat_digits n"

text \<open>An integer that fits a cell: \<open>int_overflow\<close> is false of it.\<close>

definition small_int :: "int \<Rightarrow> bool" where
  "small_int i \<longleftrightarrow> - (2 ^ 60) \<le> i \<and> i < 2 ^ 60"

text \<open>
  The letters of \<open>'$VAR'(i)\<close>. The argument is read with \<open>int_val\<close>, which is right for
  small integers only; a boxed one is outside the model.
\<close>

definition letter_var :: "('v, 'f) pterm \<Rightarrow> int list res" where
  "letter_var t =
    (case t of
       PInt i \<Rightarrow>
         if small_int i then
           (let ival = wrap32 i; letter = c_rem ival 26; ival = c_div ival 26 in
            Inr (to_byte (letter + 65) # (if ival \<noteq> 0 then int_text ival else [])))
         else Inl (Xsb_Bug ''int_val of a boxed integer'')
     | _ \<Rightarrow> Inl (Xsb_Abort ''[write_canonical]: illegal $VAR argument''))"

definition error_text :: "int list" where
  "error_text = [63, 69, 82, 82, 79, 82, 63]"

text \<open>
  \<open>write_canonical_term_rec\<close> appends to \<open>wcan_string\<close> (\<open>out\<close>) and returns whether it
  could; \<open>n\<close> is \<open>close_paren_count\<close>, which the jump back for the last argument keeps.
\<close>

fun wcan :: "('f \<Rightarrow> int list) \<Rightarrow> bool \<Rightarrow> (var_cell, 'f) pterm \<Rightarrow> nat \<Rightarrow> int list \<Rightarrow> (bool \<times> int list) res"
and wcan_args :: "('f \<Rightarrow> int list) \<Rightarrow> bool \<Rightarrow> (var_cell, 'f) pterm list \<Rightarrow> nat \<Rightarrow> int list \<Rightarrow> (bool \<times> int list) res"
and wcan_tail :: "('f \<Rightarrow> int list) \<Rightarrow> bool \<Rightarrow> (var_cell, 'f) pterm \<Rightarrow> nat \<Rightarrow> int list \<Rightarrow> (bool \<times> int list) res"
where
  "wcan fmt lf (PVar v) n out = Inr (True, out @ var_text v @ replicate n 41)"
| "wcan fmt lf (PInt i) n out = Inr (True, out @ int_text i @ replicate n 41)"
| "wcan fmt lf (PReal f) n out =
    res_bind (cvt_float_to_str (fmt f)) (\<lambda>g. Inr (True, out @ g @ replicate n 41))"
| "wcan fmt lf (PAtom a) n out =
    res_bind (atom_text a) (\<lambda>g. Inr (True, out @ g @ replicate n 41))"
| "wcan fmt lf (PList h t) n out =
    res_bind (wcan fmt lf h 0 (out @ [91])) (\<lambda>(ok, out).
      if ok then wcan_tail fmt lf t n out else Inr (False, out @ error_text))"
| "wcan fmt lf (PStruct f ts) n out =
    (if lf \<and> f = dollar_var \<and> length ts = 1 then
       res_bind (letter_var (hd ts)) (\<lambda>g. Inr (True, out @ g @ replicate n 41))
     else
       res_bind (functor_text f) (\<lambda>g.
         if ts = [] then Inr (True, out @ g @ [40, 41] @ replicate n 41)
         else wcan_args fmt lf ts (Suc n) (out @ g @ [40])))"
| "wcan fmt lf PAttv n out = Inr (False, out)"
| "wcan_args fmt lf [] n out = Inr (True, out)"
| "wcan_args fmt lf (t # ts) n out =
    (if ts = [] then wcan fmt lf t n out
     else
       res_bind (wcan fmt lf t 0 out) (\<lambda>(ok, out).
         if ok then wcan_args fmt lf ts n (out @ [44]) else Inr (False, out @ error_text)))"
| "wcan_tail fmt lf (PList h t) n out =
    res_bind (wcan fmt lf h 0 (out @ [44])) (\<lambda>(ok, out).
      if ok then wcan_tail fmt lf t n out else Inr (False, out @ error_text))"
| "wcan_tail fmt lf (PAtom a) n out =
    (if a = nil_name then Inr (True, out @ [93] @ replicate n 41)
     else res_bind (wcan fmt lf (PAtom a) 0 (out @ [124])) (\<lambda>(ok, out).
       if ok then Inr (True, out @ [93] @ replicate n 41) else Inr (False, out @ error_text)))"
| "wcan_tail fmt lf t n out =
    res_bind (wcan fmt lf t 0 (out @ [124])) (\<lambda>(ok, out).
       if ok then Inr (True, out @ [93] @ replicate n 41) else Inr (False, out @ error_text))"

definition write_canonical_term :: "('f \<Rightarrow> int list) \<Rightarrow> bool \<Rightarrow> (var_cell, 'f) pterm \<Rightarrow> int list res" where
  "write_canonical_term fmt lf t =
    res_bind (wcan fmt lf t 0 []) (\<lambda>(ok, out).
      if ok then Inr out
      else Inl (Xsb_Abort ''[WRITE_CANONICAL_TERM] Illegal Prolog term''))"

definition canonical_term :: "('f \<Rightarrow> int list) \<Rightarrow> bool \<Rightarrow> (var_cell, 'f) pterm \<Rightarrow> int list res" where
  "canonical_term fmt lf t = res_bind (wcan fmt lf t 0 []) (\<lambda>(ok, out). Inr out)"

definition print_term_canonical ::
    "('f \<Rightarrow> int list) \<Rightarrow> int list \<Rightarrow> charset \<Rightarrow> bool \<Rightarrow> (var_cell, 'f) pterm \<Rightarrow> (int list \<times> int list) res" where
  "print_term_canonical fmt hash cs lf t =
    res_bind (write_canonical_term fmt lf t) (\<lambda>out. write_string_code hash cs out)"

end
