(* ===== verification/Token_Progress.thy ===== *)
theory Token_Progress imports Tokenizer begin

text \<open>
  Every token other than the end of a clause and the end of the file uses up input, the
  character before it counted: what the loops that call \<open>GetToken\<close> need to end.
\<close>

definition pos :: "int \<Rightarrow> reader \<Rightarrow> nat" where
  "pos c r = left r + (if c = -1 then 0 else 1)"

lemma pos_bounds: "left r \<le> pos c r" "pos c r \<le> Suc (left r)"
  by (simp_all add: pos_def)

lemma pos_EOF [simp]: "pos (-1) r = left r"
  by (simp add: pos_def)

lemma rd_code_pos: "rd_code cs r = Inr (c, r') \<Longrightarrow> pos c r' \<le> left r \<and> left r' \<le> left r"
  using rd_code_left [of cs r c r'] by (auto simp: pos_def)

lemma scan_digits_pos: "scan_digits cs c r b = Inr (c', r', b') \<Longrightarrow> pos c' r' \<le> left r"
proof (induction cs c r b rule: scan_digits.induct)
  case (1 cs c r b)
  from "1.prems" obtain b1 d r1 t where g: "(if c \<noteq> 95 then put_byte r c b else Inr b) = Inr b1"
    "rd_code cs r = Inr (d, r1)" "InType d = Inr t"
    and rest: "(if t \<le> BREAK then scan_digits cs d r1 b1 else Inr (d, r1, b1)) = Inr (c', r', b')"
    by (subst (asm) scan_digits.simps) (auto simp del: if_split)
  with "1.IH" [OF g(1,2) _ g(3)] rd_code_pos [OF g(2)] show ?case by (fastforce split: if_splits)
qed

lemma radix_real_pos: "radix_real cs d e r = Inr (e', c', r') \<Longrightarrow> pos c' r' \<le> left r"
proof (induction cs d e r rule: radix_real.induct)
  case (1 cs d e r)
  from "1.prems" obtain c r1 v where g: "rd_code cs r = Inr (c, r1)" "DigVal c = Inr v"
    and rest: "(if v < 99 then radix_real cs d (if c \<noteq> 95 then MulAdd e d v else e) r1
      else Inr (e, c, r1)) = Inr (e', c', r')"
    by (subst (asm) radix_real.simps) auto
  with "1.IH" [OF g(1) _ g(2)] rd_code_pos [OF g(1)] show ?case by (fastforce split: if_splits)
qed

lemma radix_loop_pos: "radix_loop cs d n r = Inr (v, c', r') \<Longrightarrow> pos c' r' \<le> left r"
proof (induction cs d n r rule: radix_loop.induct)
  case (1 cs d n r)
  from "1.prems" obtain c r1 w where g: "rd_code cs r = Inr (c, r1)" "DigVal c = Inr w"
    by (subst (asm) radix_loop.simps) auto
  have le: "pos c r1 \<le> left r" "left r1 \<le> left r" using rd_code_pos [OF g(1)] by simp_all
  show ?case
  proof (cases "w < 99 \<and> w < d")
    case False
    with "1.prems" g le show ?thesis by (subst (asm) radix_loop.simps) auto
  next
    case True
    let ?n = "wrap64 (n * d + w)"
    consider "c = 95" "radix_loop cs d n r1 = Inr (v, c', r')"
      | e where "radix_real cs d (MulAdd (RealOfInt n) d w) r1 = Inr (e, c', r')"
      | "c \<noteq> 95" "\<not> (?n < n \<or> XSB_MAXINT < ?n)" "radix_loop cs d ?n r1 = Inr (v, c', r')"
      using "1.prems" g True by (subst (asm) radix_loop.simps) (auto simp: Let_def split: if_splits)
    then show ?thesis
    proof cases
      case 1
      then show ?thesis using "1.IH"(2) [OF g(1) _ g(2)] True le by simp
    next
      case 2
      with radix_real_pos le show ?thesis by fastforce
    next
      case 3
      then have "pos c' r' \<le> left r1" using "1.IH"(1) [OF g(1) _ g(2)] True by simp
      with le show ?thesis by simp
    qed
  qed
qed

lemma finish_Inr [simp]:
  "finish ty v nc r = Inr (Done t, r') \<longleftrightarrow> t = \<lparr>tok_type = ty, tok_value = v, nextch = nc\<rparr> \<and> r' = r"
  by (auto simp: finish_def)

lemma tok_nonzero_radix_pos:
  assumes "tok_nonzero_radix cs d r = Inr (Done t, r')"
  shows "pos (nextch t) r' \<le> left r"
proof -
  from assms obtain v c r1 c2 where g: "radix_loop cs d 0 r = Inr (v, c, r1)"
    "(if c = radixch then rd_code cs r1 else Inr (c, r1)) = Inr (c2, r')" "nextch t = c2"
    by (auto simp: tok_nonzero_radix_def split: tok_value.splits if_splits)
  have "pos c2 r' \<le> pos c r1"
    using g(2) rd_code_pos [of cs r1 c2 r'] pos_bounds(1) [of r1 c] by (auto split: if_splits)
  with radix_loop_pos [OF g(1)] g(3) show ?thesis by simp
qed

lemma tok_char_code_pos:
  assumes "tok_char_code cs q r = Inr (Done t, r')"
  shows "pos (nextch t) r' \<le> left r"
proof -
  from assms obtain v r1 d r2 where g: "read_character cs (-1) r = Inr (v, r1)"
    "rd_code cs r1 = Inr (d, r2)"
    "(if d = q then rd_code cs r2 else Inr (d, r2)) = Inr (nextch t, r')"
    by (auto simp: tok_char_code_def split: if_splits)
  have "left r1 \<le> left r" using read_character_left [OF g(1)] by simp
  moreover have "pos d r2 \<le> left r1" using rd_code_pos [OF g(2)] by simp
  moreover have "pos (nextch t) r' \<le> pos d r2"
    using g(3) rd_code_pos [of cs r2 "nextch t" r'] pos_bounds(1) [of r2 d] by (auto split: if_splits)
  ultimately show ?thesis by simp
qed

lemma scan_name_pos: "scan_name cs c r b = Inr (c', r', b') \<Longrightarrow> pos c' r' \<le> left r"
proof (induction cs c r b rule: scan_name.induct)
  case (1 cs c r b)
  let ?b1 = "b\<lparr>room := room b - 1\<rparr>"
  let ?rb = "if room ?b1 < 0 then realloc_strbuff (r, ?b1) else (r, ?b1)"
  have l: "left (fst ?rb) = left r" by simp
  from "1.prems" obtain b2 d r1 t where g: "put_byte (fst ?rb) c (snd ?rb) = Inr b2"
    "rd_code cs (fst ?rb) = Inr (d, r1)" "InType d = Inr t"
    and rest: "(if t \<le> LOWER then scan_name cs d r1 b2 else Inr (d, r1, b2)) = Inr (c', r', b')"
    by (subst (asm) scan_name.simps) (auto simp: Let_def simp del: if_split)
  with "1.IH" [OF refl refl g(1,2) _ g(3)] rd_code_pos [OF g(2)] l show ?case
    by (fastforce split: if_splits)
qed

lemma scan_sign_pos: "scan_sign cs d r b = Inr (c', r', b') \<Longrightarrow> pos c' r' \<le> pos d r"
proof (induction cs d r b rule: scan_sign.induct)
  case (1 cs d r b)
  from "1.prems" obtain t where t: "InType d = Inr t" by (subst (asm) scan_sign.simps) auto
  show ?case
  proof (cases "t = SIGN")
    case False
    with "1.prems" t show ?thesis by (subst (asm) scan_sign.simps) auto
  next
    case True
    let ?b1 = "b\<lparr>room := room b - 1\<rparr>"
    let ?rb = "if room ?b1 = 0 then realloc_strbuff (r, ?b1) else (r, ?b1)"
    have l: "left (fst ?rb) = left r" by simp
    from "1.prems" t True obtain b2 e r1 where g: "put_byte (fst ?rb) d (snd ?rb) = Inr b2"
      "rd_code cs (fst ?rb) = Inr (e, r1)" "scan_sign cs e r1 b2 = Inr (c', r', b')"
      by (subst (asm) scan_sign.simps) (auto simp: Let_def simp del: if_split)
    have "pos c' r' \<le> pos e r1"
      using "1.IH" [OF t True refl refl g(1,2) refl g(3)] .
    with rd_code_pos [OF g(2)] l pos_bounds(1) [of r d] show ?thesis by simp
  qed
qed


lemma read_quoted_pos: "read_quoted cs q r b = Inr (r', b') \<Longrightarrow> left r' < left r"
proof (induction cs q r b rule: read_quoted.induct)
  case (1 cs q r b)
  from "1.prems" obtain d r1 where g: "read_character cs q r = Inr (d, r1)"
    by (subst (asm) read_quoted.simps) auto
  show ?case
  proof (cases "d = -1")
    case True
    with "1.prems" g read_character_left [OF g] show ?thesis
      by (subst (asm) read_quoted.simps) auto
  next
    case False
    with "1.prems" g obtain r2 b2 where p: "put_codepoint d r1 b = Inr (r2, b2)"
      "read_quoted cs q r2 b2 = Inr (r', b')"
      by (subst (asm) read_quoted.simps) auto
    have "left r' < left r2" using "1.IH" [OF g refl False p(1) refl p(2)] .
    with put_codepoint_left [OF p(1)] read_character_left [OF g] show ?thesis by simp
  qed
qed

lemma quoted_pos:
  assumes "read_quoted cs q r b = Inr (r', b')"
  shows "pos c r' \<le> left r"
  using read_quoted_pos [OF assms] pos_bounds(2) [of c r'] by simp

lemma rd_unget_left: "rd_code cs r = Inr (c, r') \<Longrightarrow> left (rd_unget c r') \<le> left r"
  by (rule rd_code_left)

text \<open>The exponent of a real.\<close>

lemma tok_decimal_pos:
  assumes "tok_decimal cs d r b = Inr (Done t, r')"
  shows "pos (nextch t) r' \<le> left r"
proof -
  from assms obtain b1 d1 r1 b2 where s: "scan_digits cs d r b1 = Inr (d1, r1, b2)"
    and rest: "res_bind
      (if or d1 32 = 101 then
         res_bind (put_byte r1 69 b2) (\<lambda>b.
         res_bind (rd_code cs r1) (\<lambda>(d, r).
         res_bind
           (if d = 45 then
              res_bind (put_byte r d b) (\<lambda>b.
              res_bind (rd_code cs r) (\<lambda>(d, r). Inr (d, r, b)))
            else if d = 43 then res_bind (rd_code cs r) (\<lambda>(d, r). Inr (d, r, b))
            else Inr (d, r, b)) (\<lambda>(d, r, b).
         res_bind (InType d) (\<lambda>t.
           if BREAK < t then Inl (Syntax_Error ''bad exponent'')
           else scan_digits cs d r b))))
       else Inr (d1, r1, b2)) (\<lambda>(c, r, b).
    res_bind (terminate r b) (\<lambda>_.
      finish (if c = 40 then TK_REALFUNC else TK_REAL) (RealValue (RealText (chars b))) c r))
      = Inr (Done t, r')"
    unfolding tok_decimal_def by auto
  have p1: "pos d1 r1 \<le> left r" using s by (rule scan_digits_pos)
  show ?thesis
  proof (cases "or d1 32 = 101")
    case False
    with rest p1 show ?thesis by auto
  next
    case True
    with rest obtain b3 d2 r2 d3 r3 b4 b5 where g: "rd_code cs r1 = Inr (d2, r2)"
      and m: "(if d2 = 45 then
              res_bind (put_byte r2 d2 b3) (\<lambda>b.
              res_bind (rd_code cs r2) (\<lambda>(d, r). Inr (d, r, b)))
            else if d2 = 43 then res_bind (rd_code cs r2) (\<lambda>(d, r). Inr (d, r, b3))
            else Inr (d2, r2, b3)) = Inr (d3, r3, b4)"
      and s2: "scan_digits cs d3 r3 b4 = Inr (nextch t, r', b5)"
      by (auto simp del: if_split split: if_split_asm)
    have "left r3 \<le> left r2" using m rd_code_pos by (fastforce split: if_splits)
    moreover have "pos (nextch t) r' \<le> left r3" using s2 by (rule scan_digits_pos)
    ultimately show ?thesis using rd_code_pos [OF g] pos_bounds(1) [of r1 d1] p1 by simp
  qed
qed

lemma tok_decimal_int_pos:
  "tok_decimal_int c r b = Inr (Done t, r') \<Longrightarrow> nextch t = c \<and> r' = r"
  by (auto simp: tok_decimal_int_def split: prod.splits)

lemma tok_digit_pos:
  assumes "tok_digit cs c r b = Inr (Done t, r')"
  shows "pos (nextch t) r' \<le> left r"
proof -
  from assms obtain d r1 b1 where s: "scan_digits cs c r b = Inr (d, r1, b1)"
    by (auto simp: tok_digit_def)
  have p: "pos d r1 \<le> left r" using s by (rule scan_digits_pos)
  have l: "left r1 \<le> pos d r1" by (rule pos_bounds)
  consider "d = radixch" "tok_radix cs r1 b1 = Inr (Done t, r')"
    | "d = dpoint" | "tok_letter_radix cs d r1 b1 = Inr (Done t, r')"
    | "tok_decimal_int d r1 b1 = Inr (Done t, r')"
    using assms s by (auto simp: tok_digit_def split: if_splits)
  then show ?thesis
  proof cases
    case 1
    then show ?thesis using tok_char_code_pos tok_nonzero_radix_pos p l
      by (fastforce simp: tok_radix_def Let_def split: if_splits)
  next
    case 2
    with assms s obtain e r2 u where g: "rd_code cs r1 = Inr (e, r2)" "InType e = Inr u"
      and rest: "(if u = DIGIT then tok_decimal cs e r2 b1 else tok_decimal_int d (rd_unget e r2) b1)
        = Inr (Done t, r')"
      by (auto simp: tok_digit_def)
    show ?thesis
    proof (cases "u = DIGIT")
      case True
      with rest tok_decimal_pos rd_code_pos [OF g(1)] p l show ?thesis by fastforce
    next
      case False
      with rest have "tok_decimal_int d (rd_unget e r2) b1 = Inr (Done t, r')" by simp
      from tok_decimal_int_pos [OF this] rd_unget_left [OF g(1)] p show ?thesis
        by (auto simp: pos_def split: if_splits)
    qed
  next
    case 3
    then show ?thesis using tok_nonzero_radix_pos p l
      by (fastforce simp: tok_letter_radix_def Let_def split: if_splits)
  next
    case 4
    with tok_decimal_int_pos [OF 4] p show ?thesis by simp
  qed
qed


lemma tok_name_pos:
  "tok_name f p cs c r b = Inr (Done t, r') \<Longrightarrow> pos (nextch t) r' \<le> left r"
  "tok_lower cs c r b = Inr (Done t, r') \<Longrightarrow> pos (nextch t) r' \<le> left r"
  "tok_atmqt cs c r b = Inr (Done t, r') \<Longrightarrow> pos (nextch t) r' \<le> left r"
  "tok_lisqt cs c r b = Inr (Done t, r') \<Longrightarrow> pos (nextch t) r' \<le> left r"
  by (auto simp: tok_name_def tok_lower_def tok_symbol_def tok_atmqt_def tok_lisqt_def
      intro: scan_name_pos quoted_pos)

lemma skip_not_Done [simp]:
  "skip_comment cs d r \<noteq> Inr (Done t, r')" "skip_line r \<noteq> Inr (Done t, r')"
  by (auto simp: skip_comment_def skip_line_def split: if_splits)

abbreviation (input) ends :: "xsb_token \<Rightarrow> bool" where
  "ends t \<equiv> tok_type t = TK_EOC \<or> tok_type t = TK_EOF"

lemma tok_sign_pos:
  assumes "tok_sign cs c r b = Inr (Done t, r')" "\<not> ends t"
  shows "pos (nextch t) r' \<le> left r"
proof -
  from assms(1) obtain b1 d r1 where g: "rd_code cs r = Inr (d, r1)"
    and put: "put_byte r c b = Inr b1"
    by (auto simp: tok_sign_def)
  have p: "pos d r1 \<le> left r" "left r1 \<le> left r" using rd_code_pos [OF g] by simp_all
  consider b2 where "tok_decimal cs d r1 b2 = Inr (Done t, r')"
    | d2 r2 b2 where "scan_sign cs d r1 b1 = Inr (d2, r2, b2)" "tok_symbol d2 r2 b2 = Inr (Done t, r')"
    using assms g put by (auto simp: tok_sign_def split: if_splits)
  then show ?thesis
  proof cases
    case 1
    with tok_decimal_pos p show ?thesis by fastforce
  next
    case 2
    then have "pos d2 r2 \<le> pos d r1" by (intro scan_sign_pos)
    with 2 p show ?thesis by (simp add: tok_symbol_def)
  qed
qed

lemma tok_noble_pos:
  assumes "tok_noble cs c r b = Inr (Done t, r')" "\<not> ends t"
  shows "pos (nextch t) r' \<le> left r"
  using assms rd_code_pos by (fastforce simp: tok_noble_def tok_symbol_def split: if_splits)

lemma tok_punct_pos:
  assumes "tok_punct cs c r b = Inr (Done t, r')" "\<not> ends t"
  shows "pos (nextch t) r' \<le> left r"
proof -
  from assms obtain d r1 where g: "rd_code cs r = Inr (d, r1)"
    and rest: "nextch t = d \<and> r' = r1 \<or> (\<exists>e. rd_code cs r1 = Inr (nextch t, r'))"
    by (auto simp: tok_punct_def tok_symbol_def split: if_splits)
  have p: "pos d r1 \<le> left r" "left r1 \<le> left r" using rd_code_pos [OF g] by simp_all
  with rest rd_code_pos show ?thesis by fastforce
qed

lemma token_step_pos:
  assumes "token_step cs c r b = Inr (Done t, r')" "\<not> ends t"
  shows "c \<noteq> -1 \<and> pos (nextch t) r' \<le> left r"
proof -
  from assms obtain u where u: "InType c = Inr u" by (auto simp: token_step_def)
  have c: "c \<noteq> -1" using assms u InType_bounds(3) [OF u] by (auto simp: token_step_def)
  then have "u \<noteq> EOFCH" using InType_bounds(3) [OF u] by simp
  with assms u tok_digit_pos tok_name_pos tok_sign_pos tok_noble_pos tok_punct_pos tok_char_code_pos c
  show ?thesis unfolding token_step_def by (auto split: if_splits)
qed

lemma get_token_from_pos:
  "get_token_from cs c r b = Inr (t, r') \<Longrightarrow> \<not> ends t \<Longrightarrow> pos (nextch t) r' < pos c r"
proof (induction cs c r b rule: get_token_from.induct)
  case (1 cs c r b)
  from "1.prems" obtain st r1 where st: "token_step cs c r b = Inr (st, r1)"
    and rest: "(case st of Done t \<Rightarrow> Inr (t, r1) | Restart c' \<Rightarrow> get_token_from cs c' r1 b) = Inr (t, r')"
    by (subst (asm) get_token_from.simps) auto
  show ?case
  proof (cases st)
    case (Done u)
    with rest st "1.prems" token_step_pos [of cs c r b t r'] show ?thesis by (auto simp: pos_def)
  next
    case (Restart c')
    then have "pos (nextch t) r' < pos c' r1" using "1.IH" [OF st refl Restart] rest "1.prems" by simp
    with st Restart token_step_Restart [of cs c r b c' r1] show ?thesis
      by (simp add: restart_less_def pos_def)
  qed
qed

lemma GetToken_pos: "GetToken cs c r = Inr (t, r') \<Longrightarrow> \<not> ends t \<Longrightarrow> pos (nextch t) r' < pos c r"
  by (auto simp: GetToken_def intro: get_token_from_pos)

text \<open>A bracket is a token of its own.\<close>

lemma InType_brackets: "InType 40 = Inr PUNCT" "InType 93 = Inr PUNCT"
  by (simp_all add: InType_def chtype_def array_get_def)

lemma GetToken_bracket:
  assumes "GetToken cs c r = Inr (t, r')" "c = 40 \<or> c = 93"
  shows "tok_type t = TK_PUNC"
proof -
  have "InType c = Inr PUNCT" using assms(2) InType_brackets by auto
  with assms show ?thesis
    by (auto simp: GetToken_def get_token_from.simps token_step_def tok_punct_def finish_def)
qed

lemma GetToken_bracket_pos:
  "GetToken cs c r = Inr (t, r') \<Longrightarrow> c = 40 \<or> c = 93 \<Longrightarrow> pos (nextch t) r' < pos c r"
  using GetToken_bracket [of cs c r t r'] GetToken_pos [of cs c r t r'] by auto

end
