(* ===== verification/Canonical_Read.thy ===== *)
theory Canonical_Read imports Canonical_Write Token_Progress begin

text \<open>
  Reading canonical terms, \<open>read_canonical_term\<close> of emu/io_builtins_xsb.c: a loop over
  the tokens with a stack of operands (\<open>opstk\<close>) and a stack of open functors, lists and
  parentheses (\<open>funstk\<close>).

  An operand is the term it stands for, so its \<open>typ\<close> is \<open>TK_VAR\<close> for \<open>PVar\<close> and
  \<open>TK_ATOM\<close> for \<open>PAtom\<close>; the terms themselves are values, not cells of the findall
  buffer. A variable is its position in \<open>rc_vars\<close>, counted from the first one seen.
  \<open>funstk\<close> has its top first; below its bottom is the error \<open>Out_Of_Bounds (-1)\<close>.
\<close>

section \<open>State\<close>

datatype rc_real = Pos real_expr | Neg real_expr

type_synonym rc_term = "(nat, rc_real) pterm"

datatype funtyp = FUNFUN "int list" | FUNLIST | FUNDTLIST | FUNCOMMALIST

record rcstate =
  opstk :: "rc_term list"
  opstk_size :: nat
  funstk :: "(nat \<times> funtyp) list"     \<comment> \<open>\<open>funop\<close> and \<open>funtyp\<close>\<close>
  rc_vars :: "int list list"
  varfound :: bool
  postopreq :: bool

abbreviation (input) MAXVAR :: nat where "MAXVAR \<equiv> 1000"
abbreviation (input) INIT_STK_SIZE :: nat where "INIT_STK_SIZE \<equiv> 32"
abbreviation (input) MAX_INIT_STK_SIZE :: nat where "MAX_INIT_STK_SIZE \<equiv> 1000"

datatype rc_out =
    Next rcstate xsb_token reader     \<comment> \<open>the state, the last token read and the input after it\<close>
  | Fail xsb_token reader             \<comment> \<open>\<open>read_can_error\<close>\<close>
  | Eof reader

text \<open>\<open>*token->value\<close> and the C string at \<open>token->value\<close>.\<close>

definition tok_str :: "xsb_token \<Rightarrow> int list" where
  "tok_str t = (case tok_value t of StrValue s \<Rightarrow> c_string s | _ \<Rightarrow> [])"

definition push_op :: "rc_term \<Rightarrow> rcstate \<Rightarrow> rcstate" where
  "push_op t st = st\<lparr>opstk := opstk st @ [t],
     opstk_size := (if opstk_size st \<le> length (opstk st) then 2 * opstk_size st else opstk_size st),
     postopreq := True\<rparr>"

text \<open>
  \<open>opstk[op1] = t; optop = op1+1\<close>. Only \<open>f()\<close> stores at \<open>optop\<close> itself, with no test
  of the size of the stack.
\<close>

definition reduce_op :: "nat \<Rightarrow> rc_term \<Rightarrow> rcstate \<Rightarrow> rcstate res" where
  "reduce_op op1 t st =
    (if op1 < opstk_size st then Inr (st\<lparr>opstk := take op1 (opstk st) @ [t]\<rparr>)
     else Inl Buffer_Overflow)"

definition pop_fun :: "rcstate \<Rightarrow> (nat \<times> funtyp \<times> rcstate) res" where
  "pop_fun st =
    (case funstk st of
       [] \<Rightarrow> Inl (Out_Of_Bounds (-1))
     | (op1, ty) # fs \<Rightarrow> Inr (op1, ty, st\<lparr>funstk := fs\<rparr>))"

definition push_fun :: "funtyp \<Rightarrow> rcstate \<Rightarrow> rcstate" where
  "push_fun ty st = st\<lparr>funstk := (length (opstk st), ty) # funstk st\<rparr>"

section \<open>Building terms\<close>

fun comma_term :: "rc_term list \<Rightarrow> rc_term" where
  "comma_term [] = PAtom nil_name"
| "comma_term [t] = t"
| "comma_term (t # ts) = PStruct [44] [t, comma_term ts]"

fun list_term :: "rc_term list \<Rightarrow> rc_term \<Rightarrow> rc_term" where
  "list_term [] u = u"
| "list_term (t # ts) u = PList t (list_term ts u)"

definition struct_term :: "int list \<Rightarrow> rc_term list \<Rightarrow> rc_term" where
  "struct_term f ts = (if length ts = 2 \<and> f = [46] then PList (ts ! 0) (ts ! 1) else PStruct f ts)"

text \<open>The term of a list whose operands are \<open>ts\<close>: a single operand is always the head.\<close>

definition bracket_term :: "funtyp \<Rightarrow> rc_term list \<Rightarrow> rc_term" where
  "bracket_term ty ts =
    (if length ts = 1 \<or> ty = FUNLIST then list_term ts (PAtom nil_name)
     else list_term (butlast ts) (last ts))"

text \<open>
  The codes of a double-quoted list. A decoder that does not advance its pointer keeps
  taking cells of the term buffer until there are no more.
\<close>

function code_list :: "charset \<Rightarrow> int list \<Rightarrow> int \<Rightarrow> rc_term list res" where
  "code_list cs bs i =
    res_bind (array_get bs i) (\<lambda>b.
      if b = 0 then Inr []
      else
        res_bind (char_to_codepoint cs bs i) (\<lambda>(code, j).
          if j \<le> i then Inl (Xsb_Abort ''Cannot allocate space for term buffer'')
          else res_bind (code_list cs bs j) (\<lambda>ts. Inr (PInt code # ts))))"
  by pat_completeness auto
termination
  by (relation "measure (\<lambda>(cs, bs, i). nat (int (length bs) - i))") (auto simp: array_get_Inr)

declare code_list.simps [simp del]

section \<open>After an operand\<close>

definition close_paren :: "xsb_token \<Rightarrow> reader \<Rightarrow> rcstate \<Rightarrow> rc_out res" where
  "close_paren t r st =
    res_bind (pop_fun st) (\<lambda>(op1, ty, st).
      case ty of
        FUNFUN f \<Rightarrow>
          res_bind (reduce_op op1 (struct_term f (drop op1 (opstk st))) st) (\<lambda>st. Inr (Next st t r))
      | FUNCOMMALIST \<Rightarrow>
          if op1 + 1 = length (opstk st) then Inr (Next st t r)
          else res_bind (reduce_op op1 (comma_term (drop op1 (opstk st))) st) (\<lambda>st. Inr (Next st t r))
      | _ \<Rightarrow> Inr (Fail t r))"

definition close_bracket :: "xsb_token \<Rightarrow> reader \<Rightarrow> rcstate \<Rightarrow> rc_out res" where
  "close_bracket t r st =
    res_bind (pop_fun st) (\<lambda>(op1, ty, st).
      if ty = FUNLIST \<or> ty = FUNDTLIST then
        res_bind (reduce_op op1 (bracket_term ty (drop op1 (opstk st))) st) (\<lambda>st. Inr (Next st t r))
      else Inr (Fail t r))"

definition bar :: "xsb_token \<Rightarrow> reader \<Rightarrow> rcstate \<Rightarrow> rc_out res" where
  "bar t r st =
    res_bind (pop_fun st) (\<lambda>(op1, ty, st').
      if ty = FUNLIST then
        Inr (Next (st'\<lparr>funstk := (op1, FUNDTLIST) # funstk st', postopreq := False\<rparr>) t r)
      else Inr (Fail t r))"

text \<open>A number after the atom \<open>-\<close> is negated and takes its place.\<close>

definition backpatch :: "xsb_token \<Rightarrow> reader \<Rightarrow> rcstate \<Rightarrow> rc_out res" where
  "backpatch t r st =
    (if opstk st \<noteq> [] \<and> last (opstk st) = PAtom [45] then
       case (tok_type t, tok_value t) of
         (TK_INT, IntValue i) \<Rightarrow>
           Inr (Next (st\<lparr>opstk := butlast (opstk st) @ [PInt (wrap64 (- i))]\<rparr>) t r)
       | (TK_REAL, RealValue e) \<Rightarrow>
           Inr (Next (st\<lparr>opstk := butlast (opstk st) @ [PReal (Neg e)]\<rparr>) t r)
       | _ \<Rightarrow> Inr (Fail t r)
     else Inr (Fail t r))"

definition after_operand :: "xsb_token \<Rightarrow> reader \<Rightarrow> rcstate \<Rightarrow> rc_out res" where
  "after_operand t r st =
    (if tok_type t = TK_PUNC then
       if take 1 (tok_str t) = [41] then close_paren t r st
       else if take 1 (tok_str t) = [93] then close_bracket t r st
       else if take 1 (tok_str t) = [44] then Inr (Next (st\<lparr>postopreq := False\<rparr>) t r)
       else if take 1 (tok_str t) = [124] then bar t r st
       else Inr (Fail t r)
     else backpatch t r st)"

section \<open>An operand\<close>

text \<open>A functor, which must be followed by its open parenthesis.\<close>

definition open_functor :: "charset \<Rightarrow> xsb_token \<Rightarrow> reader \<Rightarrow> rcstate \<Rightarrow> rc_out res" where
  "open_functor cs t r st =
    (let st = push_fun (FUNFUN (tok_str t)) st in
     if nextch t \<noteq> 40 then Inr (Fail t r)
     else
       res_bind (GetToken cs (nextch t) r) (\<lambda>(t, r).
         Inr (Next (if nextch t = 41 then st\<lparr>postopreq := True\<rparr> else st) t r)))"

definition add_var :: "int list \<Rightarrow> rcstate \<Rightarrow> rcstate res" where
  "add_var name st =
    (if MAXVAR \<le> length (rc_vars st)
     then Inl (Xsb_Abort ''[READ_CANONICAL] too many variables in term'')
     else Inr (st\<lparr>rc_vars := rc_vars st @ [name]\<rparr>))"

fun find_var :: "int list \<Rightarrow> int list list \<Rightarrow> nat option" where
  "find_var v [] = None"
| "find_var v (n # ns) = (if n = v then Some 0 else map_option Suc (find_var v ns))"

definition var_operand :: "xsb_token \<Rightarrow> reader \<Rightarrow> rcstate \<Rightarrow> rc_out res" where
  "var_operand t r st =
    (let v = tok_str t; st = st\<lparr>varfound := True\<rparr> in
     case find_var v (rc_vars st) of
       Some k \<Rightarrow> Inr (Next (push_op (PVar k) st) t r)
     | None \<Rightarrow>
        res_bind (add_var v st) (\<lambda>st'. Inr (Next (push_op (PVar (length (rc_vars st))) st') t r)))"

text \<open>The name under which an anonymous variable is recorded is not that of any other.\<close>

definition vvar_operand :: "xsb_token \<Rightarrow> reader \<Rightarrow> rcstate \<Rightarrow> rc_out res" where
  "vvar_operand t r st =
    (if length (tok_str t) = 1 then
       res_bind (add_var [95] st) (\<lambda>st'. Inr (Next (push_op (PVar (length (rc_vars st))) st') t r))
     else var_operand t r st)"

definition list_operand :: "charset \<Rightarrow> xsb_token \<Rightarrow> reader \<Rightarrow> rcstate \<Rightarrow> rc_out res" where
  "list_operand cs t r st =
    (case tok_value t of
       StrValue s \<Rightarrow>
         res_bind (code_list cs (s @ [0]) 0)
           (\<lambda>ts. Inr (Next (push_op (list_term ts (PAtom nil_name)) st) t r))
     | _ \<Rightarrow> Inr (Fail t r))"

definition punc_operand :: "charset \<Rightarrow> xsb_token \<Rightarrow> reader \<Rightarrow> rcstate \<Rightarrow> rc_out res" where
  "punc_operand cs t r st =
    (if take 1 (tok_str t) = [91] then
       if nextch t = 93 then
         res_bind (GetToken cs (nextch t) r) (\<lambda>(t, r). Inr (Next (push_op (PAtom nil_name) st) t r))
       else Inr (Next (push_fun FUNLIST st) t r)
     else if take 1 (tok_str t) = [40] then Inr (Next (push_fun FUNCOMMALIST st) t r)
     else open_functor cs t r st)"

definition operand :: "charset \<Rightarrow> xsb_token \<Rightarrow> reader \<Rightarrow> rcstate \<Rightarrow> rc_out res" where
  "operand cs t r st =
    (case tok_type t of
       TK_PUNC \<Rightarrow> punc_operand cs t r st
     | TK_FUNC \<Rightarrow> open_functor cs t r st
     | TK_VVAR \<Rightarrow> vvar_operand t r st
     | TK_VAR \<Rightarrow> var_operand t r st
     | TK_REAL \<Rightarrow>
        (case tok_value t of RealValue e \<Rightarrow> Inr (Next (push_op (PReal (Pos e)) st) t r) | _ \<Rightarrow> Inr (Fail t r))
     | TK_INT \<Rightarrow>
        (case tok_value t of IntValue i \<Rightarrow> Inr (Next (push_op (PInt i) st) t r) | _ \<Rightarrow> Inr (Fail t r))
     | TK_ATOM \<Rightarrow> Inr (Next (push_op (PAtom (tok_str t)) st) t r)
     | TK_LIST \<Rightarrow> list_operand cs t r st
     | TK_EOF \<Rightarrow> Inr (Eof r)
     | _ \<Rightarrow> Inr (Fail t r))"

definition rc_token :: "charset \<Rightarrow> xsb_token \<Rightarrow> reader \<Rightarrow> rcstate \<Rightarrow> rc_out res" where
  "rc_token cs t r st = (if postopreq st then after_operand t r st else operand cs t r st)"


section \<open>The loop\<close>

text \<open>Every token the loop goes on from has used up input.\<close>

lemma open_functor_pos:
  "open_functor cs t r st = Inr (Next st' t' r') \<Longrightarrow> pos (nextch t') r' \<le> pos (nextch t) r"
  using GetToken_bracket_pos [of cs 40 r t' r']
  by (auto simp: open_functor_def Let_def split: if_splits)

lemma operand_pos:
  assumes "operand cs t r st = Inr (Next st' t' r')"
  shows "pos (nextch t') r' \<le> pos (nextch t) r \<and> \<not> ends t"
  using assms open_functor_pos [of cs t r st st' t' r'] GetToken_bracket_pos [of cs 93 r t' r']
  by (auto simp: operand_def punc_operand_def vvar_operand_def var_operand_def list_operand_def Let_def
      split: token_type.splits tok_value.splits if_splits option.splits)

lemma after_operand_pos:
  assumes "after_operand t r st = Inr (Next st' t' r')"
  shows "pos (nextch t') r' \<le> pos (nextch t) r \<and> \<not> ends t"
  using assms
  by (auto simp: after_operand_def close_paren_def close_bracket_def bar_def backpatch_def
      split: token_type.splits tok_value.splits if_splits funtyp.splits)

lemma rc_token_pos:
  "GetToken cs c r = Inr (t, r1) \<Longrightarrow> rc_token cs t r1 st = Inr (Next st' t' r') \<Longrightarrow>
     pos (nextch t') r' < pos c r"
  using operand_pos [of cs t r1 st st' t' r'] after_operand_pos [of t r1 st st' t' r']
    GetToken_pos [of cs c r t r1]
  by (force simp: rc_token_def split: if_splits)

text \<open>\<open>read_can_error\<close> goes on to the end of the clause or the file.\<close>

function read_can_error :: "charset \<Rightarrow> xsb_token \<Rightarrow> reader \<Rightarrow> reader res" where
  "read_can_error cs t r =
    (if ends t then Inr r
     else res_bind (GetToken cs (nextch t) r) (\<lambda>(t, r). read_can_error cs t r))"
  by pat_completeness auto
termination
  by (relation "measure (\<lambda>(cs, t, r). if ends t then 0 else Suc (pos (nextch t) r))")
     (auto dest: GetToken_pos)

declare read_can_error.simps [simp del]

text \<open>
  What the caller gets: the term bound to the answer variable, the atom
  \<open>read_canonical_error\<close> or the atom \<open>end_of_file\<close>. \<open>prevpsc\<close> is a global that holds the
  functor of the last clause; for a list it is the cell at the list's address.
\<close>

datatype psc_ref = NoPsc | PscOf "int list" nat | BoxPsc | HeadCell rc_term

datatype rc_result = RcTerm rc_term "int list list" | RcError | RcEndOfFile

record rc_return =
  retpsc :: psc_ref
  prevpsc :: psc_ref
  result :: rc_result
  opstk_room :: nat

definition str_psc :: "rc_term \<Rightarrow> psc_ref" where
  "str_psc t =
    (case t of PStruct f ts \<Rightarrow> PscOf f (length ts) | PList h _ \<Rightarrow> HeadCell h | PAtom _ \<Rightarrow> NoPsc
     | PVar _ \<Rightarrow> NoPsc | PAttv \<Rightarrow> NoPsc | _ \<Rightarrow> BoxPsc)"

text \<open>\<open>isconstr\<close>: a structure, among them the boxed numbers.\<close>

definition isconstr :: "rc_term \<Rightarrow> bool" where
  "isconstr t = (case t of PStruct _ _ \<Rightarrow> True | PInt i \<Rightarrow> \<not> small_int i | PReal _ \<Rightarrow> True | _ \<Rightarrow> False)"

definition head_psc :: "rc_term \<Rightarrow> psc_ref" where
  "head_psc t =
    (case t of
       PStruct f ts \<Rightarrow>
         if f = [58, 45] \<and> length ts = 2 then (if isconstr (hd ts) then str_psc (hd ts) else NoPsc)
         else str_psc t
     | _ \<Rightarrow> str_psc t)"

text \<open>
  \<open>return_psc\<close> is the value returned and the new \<open>prevpsc\<close>: the functor of the head when
  it is that of the clause before, and 0 otherwise.
\<close>

definition return_psc :: "bool \<Rightarrow> psc_ref \<Rightarrow> rc_term \<Rightarrow> psc_ref \<times> psc_ref" where
  "return_psc vf prev t =
    (let plain = (case t of PInt _ \<Rightarrow> True | PReal _ \<Rightarrow> True | PAtom _ \<Rightarrow> True | _ \<Rightarrow> False) in
     if plain \<or> vf then (NoPsc, NoPsc)
     else if head_psc t = prev then (prev, prev)
     else (NoPsc, head_psc t))"

definition rc_error :: "charset \<Rightarrow> psc_ref \<Rightarrow> rcstate \<Rightarrow> xsb_token \<Rightarrow> reader \<Rightarrow> (rc_return \<times> reader) res" where
  "rc_error cs prev st t r =
    res_bind (read_can_error cs t r) (\<lambda>r.
      Inr (\<lparr>retpsc = NoPsc, prevpsc = prev, result = RcError, opstk_room = opstk_size st\<rparr>, r))"

definition not_a_variable :: xsb_error where
  "not_a_variable = Xsb_Abort ''[READ_CANONICAL] Argument must be a variable''"

definition finish_term :: "bool \<Rightarrow> charset \<Rightarrow> psc_ref \<Rightarrow> rcstate \<Rightarrow> xsb_token \<Rightarrow> reader
    \<Rightarrow> (rc_return \<times> reader) res" where
  "finish_term isvar cs prev st t r =
    res_bind (GetToken cs (nextch t) r) (\<lambda>(t, r).
      if \<not> ends t then rc_error cs prev st t r
      else
        res_bind (array_get (opstk st) 0) (\<lambda>term.
          let room = (if MAX_INIT_STK_SIZE < opstk_size st then 0 else opstk_size st) in
          case term of
            PVar _ \<Rightarrow>
              Inr (\<lparr>retpsc = NoPsc, prevpsc = NoPsc, result = RcTerm term (rc_vars st), opstk_room = room\<rparr>, r)
          | _ \<Rightarrow>
              if \<not> isvar then Inl not_a_variable
              else
                (let (ret, prev') = return_psc (varfound st) prev term in
                 Inr (\<lparr>retpsc = ret, prevpsc = prev', result = RcTerm term (rc_vars st),
                   opstk_room = room\<rparr>, r))))"

function rc_loop :: "bool \<Rightarrow> charset \<Rightarrow> psc_ref \<Rightarrow> rcstate \<Rightarrow> int \<Rightarrow> reader \<Rightarrow> (rc_return \<times> reader) res" where
  "rc_loop isvar cs prev st prevchar r =
    res_bind (GetToken cs prevchar r) (\<lambda>(t, r).
    res_bind (rc_token cs t r st) (\<lambda>out.
      case out of
        Fail t r \<Rightarrow> rc_error cs prev st t r
      | Eof r \<Rightarrow>
          if isvar then
            Inr (\<lparr>retpsc = NoPsc, prevpsc = prev, result = RcEndOfFile, opstk_room = opstk_size st\<rparr>, r)
          else Inl not_a_variable
      | Next st t r \<Rightarrow>
          if tok_type t = TK_ATOM \<and> tok_str t = [45] \<or> funstk st \<noteq> [] then
            rc_loop isvar cs prev st (nextch t) r
          else finish_term isvar cs prev st t r))"
  by pat_completeness auto
termination
  by (relation "measure (\<lambda>(isvar, cs, prev, st, c, r). pos c r)") (auto dest: rc_token_pos)

declare rc_loop.simps [simp del]

text \<open>
  The operand stack is kept from call to call, unless it got large; \<open>isvar\<close> says that
  the argument the term is bound to is a variable.
\<close>

definition read_canonical_term :: "bool \<Rightarrow> charset \<Rightarrow> psc_ref \<Rightarrow> nat \<Rightarrow> reader \<Rightarrow> (rc_return \<times> reader) res" where
  "read_canonical_term isvar cs prev sz r =
    rc_loop isvar cs prev
      \<lparr>opstk = [], opstk_size = (if sz = 0 then INIT_STK_SIZE else sz), funstk = [], rc_vars = [],
       varfound = False, postopreq = False\<rparr> 10 r"

end
