(* ===== verification/Canonical_Text.thy ===== *)
theory Canonical_Text imports Canonical_Write begin

text \<open>
  The text of a canonical term as a function of the term alone, and the proof that
  \<open>write_canonical_term_rec\<close> appends exactly that text and its pending parentheses,
  whenever the term has one.
\<close>

definition name_text :: "int list \<Rightarrow> int list" where
  "name_text s = (if quotes_are_needed s then [39] @ double_quotes s @ [39] else s)"

definition real_text :: "int list \<Rightarrow> int list" where
  "real_text g = (case cvt_float_to_str g of Inr s \<Rightarrow> s | Inl _ \<Rightarrow> [])"

definition letters :: "('v, 'f) pterm \<Rightarrow> int list" where
  "letters t = (case letter_var t of Inr s \<Rightarrow> s | Inl _ \<Rightarrow> [])"

fun canon :: "('f \<Rightarrow> int list) \<Rightarrow> bool \<Rightarrow> (var_cell, 'f) pterm \<Rightarrow> int list"
and canon_args :: "('f \<Rightarrow> int list) \<Rightarrow> bool \<Rightarrow> (var_cell, 'f) pterm list \<Rightarrow> int list"
and canon_tail :: "('f \<Rightarrow> int list) \<Rightarrow> bool \<Rightarrow> (var_cell, 'f) pterm \<Rightarrow> int list"
where
  "canon fmt lf (PVar v) = var_text v"
| "canon fmt lf (PInt i) = int_text i"
| "canon fmt lf (PReal f) = real_text (fmt f)"
| "canon fmt lf (PAtom a) = name_text a"
| "canon fmt lf (PList h t) = 91 # canon fmt lf h @ canon_tail fmt lf t"
| "canon fmt lf (PStruct f ts) =
    (if lf \<and> f = dollar_var \<and> length ts = 1 then letters (hd ts)
     else name_text f @ 40 # canon_args fmt lf ts)"
| "canon fmt lf PAttv = []"
| "canon_args fmt lf [] = [41]"
| "canon_args fmt lf (t # ts) = canon fmt lf t @ (if ts = [] then [41] else 44 # canon_args fmt lf ts)"
| "canon_tail fmt lf (PList h t) = 44 # canon fmt lf h @ canon_tail fmt lf t"
| "canon_tail fmt lf (PAtom a) = (if a = nil_name then [93] else 124 # canon fmt lf (PAtom a) @ [93])"
| "canon_tail fmt lf t = 124 # canon fmt lf t @ [93]"

text \<open>The terms that can be written: no attributed variable, no float whose text overflows
  its buffers, and with letter variables a small integer under \<open>$VAR\<close>.\<close>

fun writable :: "('f \<Rightarrow> int list) \<Rightarrow> bool \<Rightarrow> ('v, 'f) pterm \<Rightarrow> bool" where
  "writable fmt lf (PVar v) = True"
| "writable fmt lf (PInt i) = True"
| "writable fmt lf (PReal f) = (cvt_float_to_str (fmt f) \<noteq> Inl Buffer_Overflow)"
| "writable fmt lf (PAtom a) = True"
| "writable fmt lf (PList h t) = (writable fmt lf h \<and> writable fmt lf t)"
| "writable fmt lf (PStruct f ts) =
    (if lf \<and> f = dollar_var \<and> length ts = 1 then (case hd ts of PInt i \<Rightarrow> small_int i | _ \<Rightarrow> False)
     else list_all (writable fmt lf) ts)"
| "writable fmt lf PAttv = False"

section \<open>The copy with doubled quotes\<close>

lemma length_double_quotes: "length (double_quotes s) \<le> 2 * length s"
  by (induction s rule: double_quotes.induct) auto

lemma double_quotes_fits: "2 * length s < n \<Longrightarrow> double_quotes_into n s = Inr (double_quotes s)"
  using length_double_quotes [of s] by (simp add: double_quotes_into_def)

lemma double_quotes_plain: "\<not> string_contains_quotes s \<Longrightarrow> double_quotes s = s"
  by (induction s rule: double_quotes.induct) (auto simp: string_contains_quotes_def)

lemma functor_text_eq: "functor_text s = Inr (name_text s)"
  by (simp add: functor_text_def name_text_def double_quotes_fits)

lemma atom_text_eq: "atom_text s = Inr (name_text s)"
  by (simp add: atom_text_def name_text_def double_quotes_fits double_quotes_plain)

lemma cvt_float_writable: "cvt_float_to_str g \<noteq> Inl Buffer_Overflow \<Longrightarrow> cvt_float_to_str g = Inr (real_text g)"
proof (cases "cvt_float_to_str g")
  case (Inl e)
  then have "e = Buffer_Overflow" by (simp add: cvt_float_to_str_def Let_def split: if_splits)
  with Inl show "cvt_float_to_str g \<noteq> Inl Buffer_Overflow \<Longrightarrow> ?thesis" by simp
qed (simp add: real_text_def)

lemma letter_var_writable:
  "(case t of PInt i \<Rightarrow> small_int i | _ \<Rightarrow> False) \<Longrightarrow> letter_var t = Inr (letters t)"
  by (auto simp: letter_var_def letters_def Let_def split: pterm.splits)

section \<open>What is written\<close>

lemma wcan_text:
  fixes t :: "(var_cell, 'f) pterm"
  shows "writable fmt lf t \<Longrightarrow> wcan fmt lf t n out = Inr (True, out @ canon fmt lf t @ replicate n 41)"
    and "list_all (writable fmt lf) ts \<Longrightarrow> ts \<noteq> [] \<Longrightarrow>
      wcan_args fmt lf ts (Suc n) out = Inr (True, out @ canon_args fmt lf ts @ replicate n 41)"
    and "writable fmt lf t \<Longrightarrow>
      wcan_tail fmt lf t n out = Inr (True, out @ canon_tail fmt lf t @ replicate n 41)"
proof (induction fmt lf t and fmt lf ts and fmt lf t arbitrary: n out and n out and n out
    rule: canon_canon_args_canon_tail.induct)
qed (auto simp: cvt_float_writable atom_text_eq functor_text_eq letter_var_writable)

text \<open>
  The terms for which the writer returns, with or without success: those that can be
  written but for attributed variables. \<open>has_attv\<close> says whether the writer comes to one: it
  does not look below a variable it writes as a letter.
\<close>

fun presentable :: "('f \<Rightarrow> int list) \<Rightarrow> bool \<Rightarrow> ('v, 'f) pterm \<Rightarrow> bool" where
  "presentable fmt lf (PVar v) = True"
| "presentable fmt lf (PInt i) = True"
| "presentable fmt lf (PReal f) = (cvt_float_to_str (fmt f) \<noteq> Inl Buffer_Overflow)"
| "presentable fmt lf (PAtom a) = True"
| "presentable fmt lf (PList h t) = (presentable fmt lf h \<and> presentable fmt lf t)"
| "presentable fmt lf (PStruct f ts) =
    (if lf \<and> f = dollar_var \<and> length ts = 1 then (case hd ts of PInt i \<Rightarrow> small_int i | _ \<Rightarrow> False)
     else list_all (presentable fmt lf) ts)"
| "presentable fmt lf PAttv = True"

fun has_attv :: "bool \<Rightarrow> ('v, 'f) pterm \<Rightarrow> bool" where
  "has_attv lf (PList h t) = (has_attv lf h \<or> has_attv lf t)"
| "has_attv lf (PStruct f ts) = (\<not> (lf \<and> f = dollar_var \<and> length ts = 1) \<and> list_ex (has_attv lf) ts)"
| "has_attv lf PAttv = True"
| "has_attv lf t = False"

lemma writable_iff: "writable fmt lf t \<longleftrightarrow> presentable fmt lf t \<and> \<not> has_attv lf t"
  by (induction fmt lf t rule: presentable.induct) (auto simp: list_all_iff list_ex_iff)

lemma wcan_plain:
  assumes "presentable fmt lf t" "\<not> has_attv lf t"
  shows "wcan fmt lf t n out = Inr (True, out @ canon fmt lf t @ replicate n 41)"
  by (rule wcan_text(1)) (simp add: writable_iff assms)

lemma wcan_attv:
  fixes t :: "(var_cell, 'f) pterm"
  shows "presentable fmt lf t \<Longrightarrow> has_attv lf t \<Longrightarrow> \<exists>out'. wcan fmt lf t n out = Inr (False, out')"
    and "list_all (presentable fmt lf) ts \<Longrightarrow> list_ex (has_attv lf) ts \<Longrightarrow> \<exists>out'. wcan_args fmt lf ts n out = Inr (False, out')"
    and "presentable fmt lf t \<Longrightarrow> has_attv lf t \<Longrightarrow> \<exists>out'. wcan_tail fmt lf t n out = Inr (False, out')"
proof (induction fmt lf t n out and fmt lf ts n out and fmt lf t n out rule: wcan_wcan_args_wcan_tail.induct)
  case (5 fmt lf h t n out)
  then show ?case by (cases "has_attv lf h") (auto simp: wcan_plain)
next
  case (9 fmt lf t ts n out)
  then show ?case by (cases "has_attv lf t") (auto simp: wcan_plain)
next
  case (10 fmt lf h t n out)
  then show ?case by (cases "has_attv lf h") (auto simp: wcan_plain)
qed (auto simp: functor_text_eq)

end
