(* ===== verification/Canonical_Steps.thy ===== *)
theory Canonical_Steps imports Token_Texts Canonical_Read Canonical_Text begin

text \<open>
  Reading back what \<open>write_canonical\<close> wrote: the token at each piece of the text, and the
  effect of the reader's loop on its stacks for a whole term.
\<close>

section \<open>Names\<close>

definition name_ok :: "nat \<Rightarrow> int list \<Rightarrow> bool" where
  "name_ok L a \<longleftrightarrow> (\<exists>cps. a = utf8_text cps \<and> (\<forall>c \<in> set cps. plain_cp c)) \<and> length a + 3 \<le> L"

lemma name_char_list:
  "list_all (\<lambda>i. name_char (to_char (int i)) \<longrightarrow> i < 128 \<and> chtype ! (i + 1) \<le> LOWER) [0..<256]"
  by code_simp

lemma symbol_char_list:
  "list_all (\<lambda>i. symbol_char (to_char (int i)) \<longrightarrow> i < 128 \<and> chtype ! (i + 1) = SIGN) [0..<256]"
  by code_simp

lemma lower_list:
  "list_all (\<lambda>i. 97 \<le> to_char (int i) \<and> to_char (int i) \<le> 122 \<longrightarrow> i < 128 \<and> chtype ! (i + 1) = LOWER) [0..<256]"
  by code_simp

lemma char_classes:
  assumes "0 \<le> c" "c < 256"
  shows "name_char (to_char c) \<Longrightarrow> c < 128 \<and> (\<exists>t. InType c = Inr t \<and> t \<le> LOWER)"
    "symbol_char (to_char c) \<Longrightarrow> c < 128 \<and> InType c = Inr SIGN"
    "97 \<le> to_char c \<Longrightarrow> to_char c \<le> 122 \<Longrightarrow> c < 128 \<and> InType c = Inr LOWER"
proof -
  have c: "nat c < 256" "int (nat c) = c" "nat (c + 1) = nat c + 1" using assms by auto
  have t: "InType c = Inr (chtype ! (nat c + 1))" using assms c by (simp add: InType_defined)
  show "name_char (to_char c) \<Longrightarrow> c < 128 \<and> (\<exists>t. InType c = Inr t \<and> t \<le> LOWER)"
    using list_all_uptD [OF name_char_list c(1)] c t by auto
  show "symbol_char (to_char c) \<Longrightarrow> c < 128 \<and> InType c = Inr SIGN"
    using list_all_uptD [OF symbol_char_list c(1)] c t by auto
  show "97 \<le> to_char c \<Longrightarrow> to_char c \<le> 122 \<Longrightarrow> c < 128 \<and> InType c = Inr LOWER"
    using list_all_uptD [OF lower_list c(1)] c t by auto
qed

lemma double_quotes_append: "double_quotes (a @ b) = double_quotes a @ double_quotes b"
  by (induction a) auto

lemma double_quotes_high: "\<forall>c \<in> set s. 128 \<le> c \<Longrightarrow> double_quotes s = s"
  by (induction s) auto

lemma utf8_high: "128 \<le> c \<Longrightarrow> c < 0x200000 \<Longrightarrow> \<forall>b \<in> set (utf8_codepoint_to_str c). 128 \<le> b"
proof -
  assume c: "128 \<le> c" "c < 0x200000"
  then have "0 \<le> c" by simp
  then show ?thesis using c(2) by (cases c rule: utf8_encoding_cases) (use c in auto)
qed

lemma double_quotes_cp: "plain_cp c \<Longrightarrow> double_quotes (utf8_codepoint_to_str c) = quote_cp 39 c"
proof (cases "c < 128")
  case True
  then show "plain_cp c \<Longrightarrow> ?thesis" by (auto simp: quote_cp_def plain_cp_def utf8_ascii)
next
  case False
  then show "plain_cp c \<Longrightarrow> ?thesis"
    using utf8_high [of c] double_quotes_high [of "utf8_codepoint_to_str c"]
    by (auto simp: quote_cp_def plain_cp_def)
qed

lemma double_quotes_text:
  "\<forall>c \<in> set cps. plain_cp c \<Longrightarrow> double_quotes (utf8_text cps) = concat (map (quote_cp 39) cps)"
  by (induction cps) (simp_all add: double_quotes_append double_quotes_cp)

lemma utf8_text_bytes: "all_bytes (utf8_text cps)"
  using utf8_encoding_bytes by (fastforce simp: utf8_text_def all_bytes_def)

lemma utf8_text_nonzero: "\<forall>c \<in> set cps. plain_cp c \<Longrightarrow> 0 \<notin> set (utf8_text cps)"
  using utf8_encoding_nonzero by (fastforce simp: utf8_text_def plain_cp_def)

lemma c_string_id: "0 \<notin> set s \<Longrightarrow> c_string s = s"
  by (induction s) auto

lemma c_string_name: "name_ok L a \<Longrightarrow> c_string a = a"
  using utf8_text_nonzero c_string_id by (fastforce simp: name_ok_def)

text \<open>The names written without quotes.\<close>

lemma unquoted_cases:
  assumes q: "\<not> quotes_are_needed a" and b: "all_bytes a"
  obtains (nil) "a = nil_name" | (cut) "a = [33]"
  | (lower) c ds where "a = c # ds" "InType c = Inr LOWER" "classed name_class ds" "\<forall>d \<in> set a. 0 \<le> d \<and> d < 128"
  | (symbol) "symbol_text a"
proof (cases a)
  case Nil
  with q show thesis by (simp add: quotes_are_needed_def)
next
  case (Cons c ds)
  have bytes: "\<And>d. d \<in> set a \<Longrightarrow> 0 \<le> d \<and> d < 256" using b by (auto simp: all_bytes_def)
  show thesis
  proof (cases "a = nil_name \<or> a = [33]")
    case True
    with nil cut show thesis by blast
  next
    case False
    show thesis
    proof (cases "97 \<le> to_char c \<and> to_char c \<le> 122 \<and> list_all (\<lambda>c. name_char (to_char c)) a")
      case True
      have "classed name_class ds"
        using True Cons bytes char_classes(1) by (auto simp: classed_def list_all_iff)
      moreover have "\<forall>d \<in> set a. 0 \<le> d \<and> d < 128"
        using True bytes char_classes(1) by (auto simp: list_all_iff)
      ultimately show thesis using True Cons bytes char_classes(3) [of c] by (intro lower) auto
    next
      case no: False
      then have s: "list_all (\<lambda>c. symbol_char (to_char c)) a" "a \<noteq> [46]" "take 2 a \<noteq> [47, 42]"
        using q False Cons by (auto simp: quotes_are_needed_def Let_def split: if_splits)
      then have "classed sign_class a" "\<forall>d \<in> set a. 0 \<le> d \<and> d < 128"
        using bytes char_classes(2) by (auto simp: classed_def list_all_iff)
      with s Cons show thesis by (intro symbol) (simp add: symbol_text_def)
    qed
  qed
qed

lemma token_name:
  assumes a: "name_ok L a" and bs: "sep bs" and L: "20 < L"
  shows "token_at L (name_text a @ bs) (func_or TK_FUNC TK_ATOM bs) (StrValue a) bs"
proof (cases "quotes_are_needed a")
  case True
  with a bs show ?thesis
    using token_quoted [of _ bs L] by (auto simp: name_ok_def name_text_def double_quotes_text)
next
  case False
  have n: "name_text a = a" using False by (simp add: name_text_def)
  have len: "length a + 3 \<le> L" using a by (simp add: name_ok_def)
  have "all_bytes a" using a utf8_text_bytes by (auto simp: name_ok_def)
  with False show ?thesis
  proof (cases rule: unquoted_cases)
    case nil
    with n bs L token_nil show ?thesis by simp
  next
    case cut
    with n bs L token_cut show ?thesis by simp
  next
    case (lower c ds)
    with n bs len token_lower [of c ds bs L] show ?thesis by simp
  next
    case symbol
    obtain t where "InType (nxt bs) = Inr t" "t \<noteq> SIGN" using sep_class [OF bs] by blast
    with symbol n bs len token_symbol [of a bs t L] sep_ascii [OF bs] show ?thesis by simp
  qed
qed

text \<open>How the text of a name begins.\<close>

definition starts_ok :: "int list \<Rightarrow> bool" where
  "starts_ok s \<longleftrightarrow> (\<exists>c s'. s = c # s' \<and> c < 128 \<and> c \<notin> {41, 93, -1})"

lemma starts_ok_append: "starts_ok s \<Longrightarrow> nxt (s @ bs) \<notin> {41, 93} \<and> ascii_next (s @ bs)"
  by (auto simp: starts_ok_def)

lemma InType_closers: "InType 41 = Inr t \<Longrightarrow> t = PUNCT" "InType 93 = Inr t \<Longrightarrow> t = PUNCT"
  by simp_all

lemma name_starts: "name_ok L a \<Longrightarrow> starts_ok (name_text a)"
proof (cases "quotes_are_needed a")
  case True
  then show ?thesis by (auto simp: name_text_def starts_ok_def)
next
  case False
  assume a: "name_ok L a"
  then have "all_bytes a" using utf8_text_bytes by (auto simp: name_ok_def)
  with False have "starts_ok a"
  proof (cases rule: unquoted_cases)
    case (lower c ds)
    then have "c < 128" "0 \<le> c" by auto
    moreover have "c \<noteq> 41" "c \<noteq> 93" using lower(2) by auto
    ultimately show ?thesis using lower(1) by (auto simp: starts_ok_def)
  next
    case symbol
    then obtain c ds where "a = c # ds" "InType c = Inr SIGN" "0 \<le> c" "c < 128"
      by (cases a) (auto simp: symbol_text_def)
    moreover from this have "c \<noteq> 41" "c \<noteq> 93" by auto
    ultimately show ?thesis by (auto simp: starts_ok_def)
  qed (auto simp: starts_ok_def)
  with False show ?thesis by (simp add: name_text_def)
qed

section \<open>Numbers\<close>

lemma nat_digits_digits: "digits (nat_digits n)"
proof (induction n rule: nat_digits.induct)
  case (1 n)
  then show ?case by (subst nat_digits.simps) auto
qed

lemma nat_digits_val: "digits_val (nat_digits n) = int n"
proof (induction n rule: nat_digits.induct)
  case (1 n)
  have "int (n div 10) * 10 + int (n mod 10) = int n"
    using div_mult_mod_eq [of n 10] by (metis of_nat_add of_nat_mult of_nat_numeral)
  with 1 show ?case by (subst nat_digits.simps) (auto simp: digits_val_def)
qed

lemma length_nat_digits: "n < 10 ^ Suc k \<Longrightarrow> length (nat_digits n) \<le> Suc k"
proof (induction k arbitrary: n)
  case 0
  then show ?case by (subst nat_digits.simps) simp
next
  case (Suc k)
  show ?case
  proof (cases "n < 10")
    case False
    have "n div 10 < 10 ^ Suc k" using Suc.prems by (simp add: less_mult_imp_div_less mult.commute)
    then have "length (nat_digits (n div 10)) \<le> Suc k" by (rule Suc.IH)
    with False show ?thesis by (subst nat_digits.simps) simp
  qed (subst nat_digits.simps, simp)
qed

lemma nat_digits_Cons: obtains d ds where "nat_digits n = d # ds" "digits (d # ds)"
  using nat_digits_digits [of n] by (cases "nat_digits n") (auto simp: nat_digits.simps [of n] split: if_splits)


section \<open>Steps of the loop\<close>

definition is_minus :: "xsb_token \<Rightarrow> bool" where
  "is_minus t \<longleftrightarrow> tok_type t = TK_ATOM \<and> tok_str t = [45]"

definition rc_cont :: "bool \<Rightarrow> psc_ref \<Rightarrow> rcstate \<Rightarrow> xsb_token \<Rightarrow> reader \<Rightarrow> (rc_return \<times> reader) res" where
  "rc_cont i p st t r =
    (if is_minus t \<or> funstk st \<noteq> [] then rc_loop i UTF_8 p st (nextch t) r
     else finish_term i UTF_8 p st t r)"

text \<open>
  \<open>reads L st bs m st' bs'\<close>: from the state \<open>st\<close> before the text \<open>bs\<close> the loop comes
  to \<open>st'\<close> with \<open>bs'\<close> left; \<open>m\<close> says that the last token was the atom \<open>-\<close>.
\<close>

definition reads :: "nat \<Rightarrow> rcstate \<Rightarrow> int list \<Rightarrow> bool \<Rightarrow> rcstate \<Rightarrow> int list \<Rightarrow> bool" where
  "reads L st bs m st' bs' \<longleftrightarrow>
    (\<forall>i p r. at UTF_8 L r (tl bs) \<longrightarrow>
      (\<exists>t r'. rc_loop i UTF_8 p st (nxt bs) r = rc_cont i p st' t r' \<and> is_minus t = m \<and>
        nextch t = nxt bs' \<and> at UTF_8 L r' (tl bs')))"

abbreviation (input) tok :: "token_type \<Rightarrow> tok_value \<Rightarrow> int list \<Rightarrow> xsb_token" where
  "tok ty v bs \<equiv> \<lparr>tok_type = ty, tok_value = v, nextch = nxt bs\<rparr>"

lemma reads_token:
  assumes "token_at L bs ty v bs'"
    and "\<And>r. rc_token UTF_8 (tok ty v bs') r st = Inr (Next st' (tok ty v bs') r)"
    and "m = is_minus (tok ty v bs')"
  shows "reads L st bs m st' bs'"
  unfolding reads_def
proof (intro allI impI)
  fix i p r
  assume r: "at UTF_8 L r (tl bs)"
  then obtain r' where "GetToken UTF_8 (nxt bs) r = Inr (tok ty v bs', r')" "at UTF_8 L r' (tl bs')"
    using assms(1) by (auto simp: token_at_def)
  moreover from this have "rc_loop i UTF_8 p st (nxt bs) r = rc_cont i p st' (tok ty v bs') r'"
    using assms(2) by (subst rc_loop.simps) (simp add: rc_cont_def is_minus_def)
  ultimately show "\<exists>t r'. rc_loop i UTF_8 p st (nxt bs) r = rc_cont i p st' t r' \<and> is_minus t = m \<and>
        nextch t = nxt bs' \<and> at UTF_8 L r' (tl bs')"
    using assms(3) by (intro exI [of _ "tok ty v bs'"] exI [of _ r']) simp
qed

lemma reads_trans:
  assumes "reads L st bs m st1 bs1" "reads L st1 bs1 m' st2 bs2" "m \<or> funstk st1 \<noteq> []"
  shows "reads L st bs m' st2 bs2"
  unfolding reads_def
proof (intro allI impI)
  fix i p r
  assume "at UTF_8 L r (tl bs)"
  then obtain t r1 where 1: "rc_loop i UTF_8 p st (nxt bs) r = rc_cont i p st1 t r1" "is_minus t = m"
    "nextch t = nxt bs1" "at UTF_8 L r1 (tl bs1)"
    using assms(1) unfolding reads_def by blast
  obtain u r2 where "rc_loop i UTF_8 p st1 (nxt bs1) r1 = rc_cont i p st2 u r2" "is_minus u = m'"
    "nextch u = nxt bs2" "at UTF_8 L r2 (tl bs2)"
    using assms(2) 1(4) unfolding reads_def by blast
  moreover have "rc_cont i p st1 t r1 = rc_loop i UTF_8 p st1 (nxt bs1) r1"
    using 1 assms(3) by (auto simp: rc_cont_def)
  ultimately show "\<exists>t r'. rc_loop i UTF_8 p st (nxt bs) r = rc_cont i p st2 t r' \<and> is_minus t = m' \<and>
        nextch t = nxt bs2 \<and> at UTF_8 L r' (tl bs2)"
    using 1(1) by (intro exI [of _ u] exI [of _ r2]) simp
qed

section \<open>The state while reading\<close>

definition rc_inv :: "int list set \<Rightarrow> rcstate \<Rightarrow> bool" where
  "rc_inv V st \<longleftrightarrow> distinct (rc_vars st) \<and> set (rc_vars st) \<subseteq> V \<and>
     length (opstk st) \<le> opstk_size st \<and> 0 < opstk_size st"

abbreviation forget_real :: "'a \<Rightarrow> unit" where "forget_real \<equiv> (\<lambda>_. ())"

text \<open>
  \<open>named vs u t\<close>: the term \<open>u\<close> that was read is \<open>t\<close>, where the variable numbered \<open>k\<close>
  is the one written as \<open>vs ! k\<close>.
\<close>

definition named :: "int list list \<Rightarrow> rc_term \<Rightarrow> (var_cell, 'f) pterm \<Rightarrow> bool" where
  "named vs u t \<longleftrightarrow> map_pterm (\<lambda>k. vs ! k) forget_real u = map_pterm var_text forget_real t \<and>
     (\<forall>k \<in> set1_pterm u. k < length vs)"

lemma named_extend: "named vs u t \<Longrightarrow> named (vs @ ws) u t"
proof -
  assume n: "named vs u t"
  have "map_pterm (\<lambda>k. (vs @ ws) ! k) forget_real u = map_pterm (\<lambda>k. vs ! k) forget_real u"
    using n by (intro pterm.map_cong0) (simp_all add: named_def nth_append)
  moreover have "\<And>k. k \<in> set1_pterm u \<Longrightarrow> k < length vs + length ws"
    using n by (simp add: named_def trans_less_add1)
  ultimately show ?thesis using n by (simp add: named_def)
qed

text \<open>One more operand, everything below it kept.\<close>

definition gains :: "int list set \<Rightarrow> rcstate \<Rightarrow> rcstate \<Rightarrow> rc_term list \<Rightarrow> bool" where
  "gains V st st' ops \<longleftrightarrow> rc_inv V st' \<and> (\<exists>ws. rc_vars st' = rc_vars st @ ws) \<and> opstk st' = ops \<and>
     postopreq st'"

definition follows :: "int list \<Rightarrow> bool" where
  "follows bs \<longleftrightarrow> sep bs \<and> nxt bs \<noteq> 40"

lemma follows_simps [simp]:
  "follows []" "follows (41 # bs)" "follows (44 # bs)" "follows (93 # bs)" "follows (124 # bs)"
  "follows (32 # bs)"
  by (simp_all add: follows_def sep_def)

lemma followsD: "follows bs \<Longrightarrow> sep bs" "follows bs \<Longrightarrow> nxt bs \<noteq> 40" "follows bs \<Longrightarrow> ascii_next bs"
  by (auto simp: follows_def sep_ascii)

text \<open>What may follow a closing bracket.\<close>

definition closes :: "int list \<Rightarrow> bool" where
  "closes bs \<longleftrightarrow> ascii_next bs \<and> nxt bs \<noteq> 40"

lemma follows_closes [simp]: "follows bs \<Longrightarrow> closes bs"
  by (simp add: closes_def followsD)

lemma gains_push: "rc_inv V st \<Longrightarrow> gains V st (push_op u st) (opstk st @ [u])"
  by (auto simp: gains_def rc_inv_def push_op_def)

lemma push_op_simps [simp]:
  "opstk (push_op u st) = opstk st @ [u]" "funstk (push_op u st) = funstk st"
  "rc_vars (push_op u st) = rc_vars st" "postopreq (push_op u st)"
  by (simp_all add: push_op_def)

lemma atom_reads:
  assumes "name_ok L a" "follows bs" "20 < L" "\<not> postopreq st"
  shows "reads L st (name_text a @ bs) (a = [45]) (push_op (PAtom a) st) bs"
proof (rule reads_token)
  show "token_at L (name_text a @ bs) TK_ATOM (StrValue a) bs"
    using token_name [of L a bs] assms followsD by (simp add: func_or_def)
qed (use assms c_string_name in \<open>simp_all add: rc_token_def operand_def tok_str_def is_minus_def\<close>)

lemma posint_reads:
  assumes "n \<le> XSB_MAXINT" "0 \<le> n" "follows bs" "30 < L" "\<not> postopreq st"
  shows "reads L st (int_text n @ bs) False (push_op (PInt n) st) bs"
proof (rule reads_token)
  obtain d ds where d: "nat_digits (nat n) = d # ds" "digits (d # ds)" by (rule nat_digits_Cons)
  have "digits_val (d # ds) = n" using nat_digits_val [of "nat n"] d assms by simp
  moreover have "length (d # ds) \<le> Suc 18"
    using length_nat_digits [of "nat n" 18] assms d by (simp add: nat_le_iff)
  ultimately show "token_at L (int_text n @ bs) TK_INT (IntValue n) bs"
    using token_int [of d ds bs L] assms d followsD by (simp add: int_text_def min_absorb1)
qed (use assms in \<open>simp_all add: rc_token_def operand_def is_minus_def\<close>)

lemma negint_reads:
  assumes "0 < n" "n \<le> XSB_MAXINT" "follows bs" "30 < L" "\<not> postopreq st"
  shows "\<exists>st'. reads L st (int_text (- n) @ bs) False st' bs \<and>
    (rc_inv V st \<longrightarrow> gains V st st' (opstk st @ [PInt (- n)])) \<and> funstk st' = funstk st"
proof -
  obtain d ds where d: "nat_digits (nat n) = d # ds" "digits (d # ds)" by (rule nat_digits_Cons)
  have v: "digits_val (d # ds) = n" using nat_digits_val [of "nat n"] d assms by simp
  have len: "length (d # ds) \<le> Suc 18"
    using length_nat_digits [of "nat n" 18] assms d by (simp add: nat_le_iff)
  have te: "int_text (- n) @ bs = [45] @ (d # ds) @ bs" using assms d by (simp add: int_text_def)
  have "symbol_text [45]" by (simp add: symbol_text_def InType_def chtype_def array_get_def)
  then have "token_at L ([45] @ (d # ds) @ bs) TK_ATOM (StrValue [45]) ((d # ds) @ bs)"
    using token_symbol [of "[45]" "(d # ds) @ bs" DIGIT L] d assms by (simp add: func_or_def)
  then have 1: "reads L st ([45] @ (d # ds) @ bs) True (push_op (PAtom [45]) st) ((d # ds) @ bs)"
    by (rule reads_token)
      (use assms in \<open>simp_all add: rc_token_def operand_def tok_str_def is_minus_def\<close>)
  let ?st = "(push_op (PAtom [45]) st)\<lparr>opstk := opstk st @ [PInt (- n)]\<rparr>"
  have "token_at L ((d # ds) @ bs) TK_INT (IntValue n) bs"
    using token_int [of d ds bs L] assms d len v followsD by (simp add: min_absorb1)
  then have 2: "reads L (push_op (PAtom [45]) st) ((d # ds) @ bs) False ?st bs"
    by (rule reads_token)
      (use assms in \<open>simp_all add: rc_token_def after_operand_def backpatch_def is_minus_def wrap64_id\<close>)
  have "rc_inv V st \<longrightarrow> gains V st ?st (opstk st @ [PInt (- n)])"
    by (auto simp: gains_def rc_inv_def push_op_def)
  with reads_trans [OF 1 2] te show ?thesis by auto
qed

end
