(* ===== verification/Canonical_Roundtrip.thy ===== *)
theory Canonical_Roundtrip imports Canonical_Steps begin

text \<open>
  The round trip: by induction on the term, the reader's loop turns the text of a
  canonical term into one more operand, which is that term.
\<close>

section \<open>Variables\<close>

lemma find_var_Some: "find_var v vs = Some k \<Longrightarrow> k < length vs \<and> vs ! k = v"
proof (induction vs arbitrary: k)
  case (Cons n vs)
  then show ?case by (cases "n = v") auto
qed simp

lemma find_var_None: "find_var v vs = None \<Longrightarrow> v \<notin> set vs"
  by (induction vs) (auto split: if_splits)

lemma var_room:
  assumes "rc_inv V st" "v \<in> V" "v \<notin> set (rc_vars st)" "finite V"
  shows "length (rc_vars st) < card V"
proof -
  have "length (rc_vars st) = card (set (rc_vars st))"
    using assms(1) by (simp add: rc_inv_def distinct_card)
  also have "\<dots> < card V"
    using assms by (intro psubset_card_mono) (auto simp: rc_inv_def)
  finally show ?thesis .
qed

lemma nat_digits_low: "d \<in> set (nat_digits n) \<Longrightarrow> 48 \<le> d \<and> d \<le> 57"
  using nat_digits_digits [of n] by (simp add: digits_def)

lemma classed_digits: "classed name_class (nat_digits n)"
  using nat_digits_low by (fastforce simp: classed_def)

lemma class_var_letters: "InType 104 = Inr LOWER" "InType 108 = Inr LOWER"
  by (simp_all add: InType_def chtype_def array_get_def)

lemma var_text_Cons:
  obtains ds where "var_text v = 95 # ds" "ds \<noteq> []" "classed name_class ds"
    "\<forall>d \<in> set ds. 0 < d \<and> d < 128"
proof -
  have "nat_digits n \<noteq> []" for n by (rule nat_digits_Cons [of n]) simp
  moreover have "0 < d \<and> d < 128" if "d \<in> set (nat_digits n)" for d n
    using nat_digits_low [OF that] by simp
  ultimately show thesis
    using that [of "tl (var_text v)"] by (cases v) (auto simp: classed_digits class_var_letters)
qed

lemma var_reads:
  assumes inv: "rc_inv V st" and v: "var_text v \<in> V" "finite V" "card V \<le> MAXVAR"
    and bs: "follows bs" and L: "length (var_text v) < L" and p: "\<not> postopreq st"
  shows "\<exists>st' u. reads L st (var_text v @ bs) False st' bs \<and>
        gains V st st' (opstk st @ [u]) \<and> funstk st' = funstk st \<and> named (rc_vars st') u (PVar v)"
proof -
  obtain ds where ds: "var_text v = 95 # ds" "ds \<noteq> []" "classed name_class ds"
    "\<forall>d \<in> set ds. 0 < d \<and> d < 128" by (rule var_text_Cons)
  have str: "c_string (95 # ds) = 95 # ds" using ds by (intro c_string_id) auto
  have t: "token_at L (var_text v @ bs) TK_VVAR (StrValue (95 # ds)) bs"
  proof -
    have "\<forall>d \<in> set ds. 0 \<le> d \<and> d < 128" using ds(4) by (auto intro: less_imp_le)
    then show ?thesis using token_underscore [of ds bs L] ds L bs followsD by auto
  qed
  show ?thesis
  proof (cases "find_var (95 # ds) (rc_vars st)")
    case None
    have "length (rc_vars st) < MAXVAR"
      using var_room [OF inv _ _ v(2)] find_var_None [OF None] v ds by fastforce
    let ?st = "push_op (PVar (length (rc_vars st)))
      (st\<lparr>varfound := True, rc_vars := rc_vars st @ [95 # ds]\<rparr>)"
    have "reads L st (var_text v @ bs) False ?st bs"
      by (rule reads_token [OF t]) (use p None ds str \<open>length (rc_vars st) < MAXVAR\<close> in
        \<open>simp_all add: rc_token_def operand_def vvar_operand_def var_operand_def tok_str_def
          add_var_def is_minus_def Let_def\<close>)
    moreover have "gains V st ?st (opstk st @ [PVar (length (rc_vars st))])"
      using inv v ds find_var_None [OF None] by (auto simp: gains_def rc_inv_def push_op_def)
    moreover have "named (rc_vars ?st) (PVar (length (rc_vars st))) (PVar v)"
      using ds by (simp add: named_def)
    ultimately show ?thesis by (intro exI [of _ ?st]) auto
  next
    case (Some k)
    let ?st = "push_op (PVar k) (st\<lparr>varfound := True\<rparr>)"
    have "reads L st (var_text v @ bs) False ?st bs"
      by (rule reads_token [OF t]) (use p Some ds str in
        \<open>simp_all add: rc_token_def operand_def vvar_operand_def var_operand_def tok_str_def is_minus_def Let_def\<close>)
    moreover have "gains V st ?st (opstk st @ [PVar k])"
      using inv by (auto simp: gains_def rc_inv_def push_op_def)
    moreover have "named (rc_vars ?st) (PVar k) (PVar v)"
      using find_var_Some [OF Some] ds by (simp add: named_def)
    ultimately show ?thesis by (intro exI [of _ ?st]) auto
  qed
qed

section \<open>Punctuation\<close>

lemma punct_token:
  assumes "p \<in> {40, 41, 44, 91, 93, 124}" "ascii_next bs" "p = 91 \<longrightarrow> nxt bs \<noteq> 93"
    "p = 41 \<longrightarrow> nxt bs \<noteq> 40" "20 < L"
  shows "token_at L (p # bs) TK_PUNC (StrValue [p]) bs"
  by (rule token_punct) (use assms in auto)

lemma open_list_reads:
  assumes "nxt bs \<noteq> 93" "ascii_next bs" "20 < L" "\<not> postopreq st"
  shows "reads L st (91 # bs) False (push_fun FUNLIST st) bs"
  by (rule reads_token [OF punct_token])
    (use assms in \<open>simp_all add: rc_token_def operand_def punc_operand_def tok_str_def is_minus_def\<close>)

lemma comma_reads:
  assumes "ascii_next bs" "20 < L" "postopreq st"
  shows "reads L st (44 # bs) False (st\<lparr>postopreq := False\<rparr>) bs"
  by (rule reads_token [OF punct_token])
    (use assms in \<open>simp_all add: rc_token_def after_operand_def tok_str_def is_minus_def\<close>)

lemma bar_reads:
  assumes "ascii_next bs" "20 < L" "postopreq st" "funstk st = (n, FUNLIST) # fs"
  shows "reads L st (124 # bs) False (st\<lparr>funstk := (n, FUNDTLIST) # fs, postopreq := False\<rparr>) bs"
  by (rule reads_token [OF punct_token])
    (use assms in \<open>simp_all add: rc_token_def after_operand_def bar_def pop_fun_def tok_str_def is_minus_def\<close>)

lemma close_paren_reads:
  assumes "closes bs" "20 < L" "postopreq st" "funstk st = (n, FUNFUN f) # fs" "n < opstk_size st"
  shows "reads L st (41 # bs) False
    (st\<lparr>funstk := fs, opstk := take n (opstk st) @ [struct_term f (drop n (opstk st))]\<rparr>) bs"
  by (rule reads_token [OF punct_token])
    (use assms closes_def in \<open>simp_all add: rc_token_def after_operand_def close_paren_def pop_fun_def
      reduce_op_def tok_str_def is_minus_def\<close>)

lemma close_bracket_reads:
  assumes "closes bs" "20 < L" "postopreq st" "funstk st = (n, ty) # fs" "ty = FUNLIST \<or> ty = FUNDTLIST"
    "n < opstk_size st"
  shows "reads L st (93 # bs) False
    (st\<lparr>funstk := fs, opstk := take n (opstk st) @ [bracket_term ty (drop n (opstk st))]\<rparr>) bs"
  by (rule reads_token [OF punct_token])
    (use assms closes_def in \<open>auto simp: rc_token_def after_operand_def close_bracket_def pop_fun_def
      reduce_op_def tok_str_def is_minus_def\<close>)

text \<open>A functor and its parenthesis are eaten together.\<close>

lemma functor_reads:
  assumes f: "name_ok L f" and bs: "nxt bs \<noteq> 41" "ascii_next bs" and L: "20 < L" and p: "\<not> postopreq st"
  shows "reads L st (name_text f @ 40 # bs) False (push_fun (FUNFUN f) st) bs"
  unfolding reads_def
proof (intro allI impI)
  fix i p r
  assume r: "at UTF_8 L r (tl (name_text f @ 40 # bs))"
  have "token_at L (name_text f @ 40 # bs) TK_FUNC (StrValue f) (40 # bs)"
    using token_name [OF f, of "40 # bs"] L by (simp add: sep_def func_or_def)
  then obtain r1 where g1: "GetToken UTF_8 (nxt (name_text f @ 40 # bs)) r
      = Inr (\<lparr>tok_type = TK_FUNC, tok_value = StrValue f, nextch = 40\<rparr>, r1)" "at UTF_8 L r1 bs"
    using r by (auto simp: token_at_def)
  have "token_at L (40 # bs) TK_PUNC (StrValue [40]) bs" using punct_token [of 40 bs L] bs L by simp
  then obtain r2 where g2: "GetToken UTF_8 40 r1
      = Inr (\<lparr>tok_type = TK_PUNC, tok_value = StrValue [40], nextch = nxt bs\<rparr>, r2)" "at UTF_8 L r2 (tl bs)"
    using g1(2) by (auto simp: token_at_def)
  let ?t = "\<lparr>tok_type = TK_PUNC, tok_value = StrValue [40], nextch = nxt bs\<rparr>"
  have "rc_token UTF_8 \<lparr>tok_type = TK_FUNC, tok_value = StrValue f, nextch = 40\<rparr> r1 st
      = Inr (Next (push_fun (FUNFUN f) st) ?t r2)"
    using g2(1) \<open>\<not> postopreq st\<close> bs c_string_name [OF f]
    by (simp add: rc_token_def operand_def open_functor_def tok_str_def Let_def)
  then have "rc_loop i UTF_8 p st (nxt (name_text f @ 40 # bs)) r
      = rc_cont i p (push_fun (FUNFUN f) st) ?t r2"
    using g1(1) by (subst rc_loop.simps) (simp add: rc_cont_def is_minus_def)
  then show "\<exists>t r'. rc_loop i UTF_8 p st (nxt (name_text f @ 40 # bs)) r
      = rc_cont i p (push_fun (FUNFUN f) st) t r' \<and> is_minus t = False \<and> nextch t = nxt bs \<and>
        at UTF_8 L r' (tl bs)"
    using g2(2) by (intro exI [of _ ?t] exI [of _ r2]) (simp add: is_minus_def)
qed


section \<open>Terms\<close>

text \<open>
  The terms that read back as themselves: names are UTF-8 texts that fit the token
  buffer, integers are at least \<open>-XSB_MAXINT\<close>, and there are no floats, attributed
  variables, structures without arguments or structures \<open>'.'/2\<close> (which are lists).
\<close>

fun readable :: "nat \<Rightarrow> int list set \<Rightarrow> (var_cell, 'f) pterm \<Rightarrow> bool" where
  "readable L V (PVar v) \<longleftrightarrow> var_text v \<in> V \<and> length (var_text v) < L"
| "readable L V (PInt i) \<longleftrightarrow> - XSB_MAXINT \<le> i \<and> i \<le> XSB_MAXINT"
| "readable L V (PReal f) \<longleftrightarrow> False"
| "readable L V (PAtom a) \<longleftrightarrow> name_ok L a"
| "readable L V (PList h t) \<longleftrightarrow> readable L V h \<and> readable L V t"
| "readable L V (PStruct f ts) \<longleftrightarrow>
    name_ok L f \<and> ts \<noteq> [] \<and> \<not> (f = [46] \<and> length ts = 2) \<and> list_all (readable L V) ts"
| "readable L V PAttv \<longleftrightarrow> False"

lemma digits_start: "starts_ok (int_text i)"
proof -
  obtain d ds where "nat_digits (nat i) = d # ds" "digits (d # ds)" by (rule nat_digits_Cons)
  then show ?thesis by (simp add: int_text_def starts_ok_def)
qed

lemma canon_starts: "readable L V t \<Longrightarrow> starts_ok (canon fmt False t)"
proof (cases t)
  case (PVar v)
  then show ?thesis by (cases v) (simp_all add: starts_ok_def)
next
  case (PAtom a)
  then show "readable L V t \<Longrightarrow> ?thesis" using name_starts by simp
next
  case (PStruct f ts)
  assume "readable L V t"
  with PStruct have "starts_ok (name_text f)" using name_starts [of L f] by simp
  with PStruct show ?thesis by (auto simp: starts_ok_def)
qed (auto simp: digits_start, auto simp: starts_ok_def)

lemma canon_next:
  assumes "readable L V t"
  shows "nxt (canon fmt False t @ bs) \<noteq> 41" "nxt (canon fmt False t @ bs) \<noteq> 93"
    "ascii_next (canon fmt False t @ bs)"
  using starts_ok_append [OF canon_starts [OF assms, of fmt], of bs] by auto

text \<open>A list or a structure ends with its own bracket, after which a full stop can come at once.\<close>

definition may_follow :: "(var_cell, 'f) pterm \<Rightarrow> int list \<Rightarrow> bool" where
  "may_follow t bs = (case t of PList _ _ \<Rightarrow> closes bs | PStruct _ _ \<Rightarrow> closes bs | _ \<Rightarrow> follows bs)"

lemma follows_may [simp]: "follows bs \<Longrightarrow> may_follow t bs"
  by (cases t) (simp_all add: may_follow_def)

definition term_reads :: "nat \<Rightarrow> int list set \<Rightarrow> ('f \<Rightarrow> int list) \<Rightarrow> (var_cell, 'f) pterm \<Rightarrow> bool" where
  "term_reads L V fmt t \<longleftrightarrow>
    (\<forall>st bs. rc_inv V st \<and> \<not> postopreq st \<and> may_follow t bs \<longrightarrow>
      (\<exists>st' u. reads L st (canon fmt False t @ bs) (t = PAtom [45]) st' bs \<and>
        gains V st st' (opstk st @ [u]) \<and> funstk st' = funstk st \<and> named (rc_vars st') u t))"

definition args_read :: "nat \<Rightarrow> int list set \<Rightarrow> ('f \<Rightarrow> int list) \<Rightarrow> (var_cell, 'f) pterm list \<Rightarrow> bool" where
  "args_read L V fmt ts \<longleftrightarrow>
    (\<forall>st bs fs f base us. rc_inv V st \<and> \<not> postopreq st \<and> closes bs \<and>
        funstk st = (length base, FUNFUN f) # fs \<and> opstk st = base @ us \<longrightarrow>
      (\<exists>st' vs. reads L st (canon_args fmt False ts @ bs) False st' bs \<and>
        gains V st st' (base @ [struct_term f (us @ vs)]) \<and> funstk st' = fs \<and>
        list_all2 (named (rc_vars st')) vs ts))"

definition tail_reads :: "nat \<Rightarrow> int list set \<Rightarrow> ('f \<Rightarrow> int list) \<Rightarrow> (var_cell, 'f) pterm \<Rightarrow> bool" where
  "tail_reads L V fmt t \<longleftrightarrow>
    (\<forall>st bs fs base us. rc_inv V st \<and> postopreq st \<and> closes bs \<and> us \<noteq> [] \<and>
        funstk st = (length base, FUNLIST) # fs \<and> opstk st = base @ us \<longrightarrow>
      (\<exists>st' u. reads L st (canon_tail fmt False t @ bs) False st' bs \<and>
        gains V st st' (base @ [list_term us u]) \<and> funstk st' = fs \<and> named (rc_vars st') u t))"

lemma gains_trans: "gains V st st1 ops \<Longrightarrow> rc_vars st2 = rc_vars st1 \<Longrightarrow> gains V st2 st3 ops' \<Longrightarrow> gains V st st3 ops'"
  by (auto simp: gains_def)

lemma gains_inv: "gains V st st' ops \<Longrightarrow> rc_inv V st'"
  by (simp add: gains_def)

lemma gains_named: "gains V st st' ops \<Longrightarrow> named (rc_vars st) u t \<Longrightarrow> named (rc_vars st') u t"
  using named_extend by (auto simp: gains_def)

lemma rc_inv_simps [simp]:
  "rc_inv V (st\<lparr>postopreq := b\<rparr>) = rc_inv V st" "rc_inv V (st\<lparr>funstk := fs\<rparr>) = rc_inv V st"
  "rc_inv V (push_fun ty st) = rc_inv V st"
  by (simp_all add: rc_inv_def push_fun_def)

lemma list_term_snoc: "list_term (us @ [u]) v = list_term us (PList u v)"
  by (induction us) auto

text \<open>The end of an argument list, and of a list.\<close>

lemma close_struct:
  assumes "rc_inv V st" "postopreq st" "closes bs" "20 < L" "us \<noteq> []"
    "funstk st = (length base, FUNFUN f) # fs" "opstk st = base @ us"
  shows "\<exists>st'. reads L st (41 # bs) False st' bs \<and> gains V st st' (base @ [struct_term f us]) \<and>
    funstk st' = fs"
proof -
  have "length base < opstk_size st" using assms by (auto simp: rc_inv_def neq_Nil_conv)
  with assms close_paren_reads [of bs L st "length base" f fs] show ?thesis
    by (intro exI conjI) (assumption | auto simp: gains_def rc_inv_def)+
qed

lemma close_list:
  assumes "rc_inv V st" "postopreq st" "closes bs" "20 < L" "us \<noteq> []"
    "funstk st = (length base, ty) # fs" "ty = FUNLIST \<or> ty = FUNDTLIST" "opstk st = base @ us"
  shows "\<exists>st'. reads L st (93 # bs) False st' bs \<and> gains V st st' (base @ [bracket_term ty us]) \<and>
    funstk st' = fs"
proof -
  have "length base < opstk_size st" using assms by (auto simp: rc_inv_def neq_Nil_conv)
  with assms close_bracket_reads [of bs L st "length base" ty fs] show ?thesis
    by (intro exI conjI) (assumption | auto simp: gains_def rc_inv_def)+
qed

lemma named_struct: "list_all2 (named vs) us ts \<Longrightarrow> named vs (PStruct f us) (PStruct f ts)"
proof (induction us ts rule: list_all2_induct)
  case Nil
  then show ?case by (simp add: named_def)
next
  case (Cons u us t ts)
  then show ?case by (auto simp: named_def)
qed

lemma named_list: "named vs u t \<Longrightarrow> named vs u' t' \<Longrightarrow> named vs (PList u u') (PList t t')"
  by (auto simp: named_def)

lemma list_all2_named_gains:
  "gains V st st' ops \<Longrightarrow> list_all2 (named (rc_vars st)) us ts \<Longrightarrow> list_all2 (named (rc_vars st')) us ts"
  by (erule list_all2_mono) (rule gains_named)

lemma args_one:
  assumes "term_reads L V fmt t" "20 < L"
  shows "args_read L V fmt [t]"
  unfolding args_read_def
proof (intro allI impI)
  fix st bs fs f base us
  assume a: "rc_inv V st \<and> \<not> postopreq st \<and> closes bs \<and>
        funstk st = (length base, FUNFUN f) # fs \<and> opstk st = base @ us"
  obtain st1 u where 1: "reads L st (canon fmt False t @ 41 # bs) (t = PAtom [45]) st1 (41 # bs)"
    "gains V st st1 ((base @ us) @ [u])" "funstk st1 = (length base, FUNFUN f) # fs"
    "named (rc_vars st1) u t"
    using assms(1) a unfolding term_reads_def by (metis follows_simps(2) follows_may)
  obtain st2 where 2: "reads L st1 (41 # bs) False st2 bs"
    "gains V st1 st2 (base @ [struct_term f (us @ [u])])" "funstk st2 = fs"
    using close_struct [of V st1 bs L "us @ [u]" base f fs] 1 a assms(2) by (auto simp: gains_def)
  have "reads L st (canon fmt False t @ 41 # bs) False st2 bs"
    using reads_trans [OF 1(1) 2(1)] 1(3) by simp
  moreover have "gains V st st2 (base @ [struct_term f (us @ [u])])"
    using gains_trans [OF 1(2) refl 2(2)] .
  ultimately show "\<exists>st' vs. reads L st (canon_args fmt False [t] @ bs) False st' bs \<and>
        gains V st st' (base @ [struct_term f (us @ vs)]) \<and> funstk st' = fs \<and>
        list_all2 (named (rc_vars st')) vs [t]"
    using 2 gains_named [OF 2(2) 1(4)] by (intro exI [of _ st2] exI [of _ "[u]"]) simp
qed

lemma canon_args_next:
  assumes "list_all (readable L V) ts" "ts \<noteq> []"
  shows "nxt (canon_args fmt False ts @ bs) \<noteq> 41 \<and> ascii_next (canon_args fmt False ts @ bs)"
proof (cases ts)
  case (Cons t ts')
  then have "readable L V t" using assms by simp
  from canon_next [OF this, of fmt] Cons show ?thesis by simp
qed (use assms in simp)

lemma args_more:
  assumes t: "term_reads L V fmt t" and ts: "args_read L V fmt ts" and L: "20 < L"
    and r: "list_all (readable L V) ts" "ts \<noteq> []"
  shows "args_read L V fmt (t # ts)"
  unfolding args_read_def
proof (intro allI impI)
  fix st bs fs f base us
  assume a: "rc_inv V st \<and> \<not> postopreq st \<and> closes bs \<and>
        funstk st = (length base, FUNFUN f) # fs \<and> opstk st = base @ us"
  let ?rest = "canon_args fmt False ts @ bs"
  obtain st1 u where 1: "reads L st (canon fmt False t @ 44 # ?rest) (t = PAtom [45]) st1 (44 # ?rest)"
    "gains V st st1 ((base @ us) @ [u])" "funstk st1 = (length base, FUNFUN f) # fs"
    "named (rc_vars st1) u t"
    using t a unfolding term_reads_def by (metis follows_simps(3) follows_may)
  let ?st1 = "st1\<lparr>postopreq := False\<rparr>"
  have 2: "reads L st1 (44 # ?rest) False ?st1 ?rest"
    using comma_reads [of ?rest L st1] canon_args_next [OF r, of fmt bs] L 1(2) by (simp add: gains_def)
  obtain st2 vs where 3: "reads L ?st1 ?rest False st2 bs"
    "gains V ?st1 st2 (base @ [struct_term f ((us @ [u]) @ vs)])" "funstk st2 = fs"
    "list_all2 (named (rc_vars st2)) vs ts"
    using ts 1 a unfolding args_read_def
    by (elim allE [of _ ?st1] allE [of _ bs] allE [of _ fs] allE [of _ f] allE [of _ base] allE [of _ "us @ [u]"])
      (auto simp: gains_def)
  have "reads L st (canon fmt False t @ 44 # ?rest) False st2 bs"
    using reads_trans [OF reads_trans [OF 1(1) 2] 3(1)] 1(3) by simp
  moreover have "gains V st st2 (base @ [struct_term f (us @ u # vs)])"
    using gains_trans [OF 1(2) _ 3(2)] by simp
  ultimately show "\<exists>st' vs. reads L st (canon_args fmt False (t # ts) @ bs) False st' bs \<and>
        gains V st st' (base @ [struct_term f (us @ vs)]) \<and> funstk st' = fs \<and>
        list_all2 (named (rc_vars st')) vs (t # ts)"
    using 3 r gains_named [OF 3(2)] 1(4) by (intro exI [of _ st2] exI [of _ "u # vs"]) simp
qed


lemma struct_reads:
  assumes ts: "args_read L V fmt ts" "list_all (readable L V) ts" "ts \<noteq> []"
    and f: "name_ok L f" "\<not> (f = [46] \<and> length ts = 2)" and L: "20 < L"
  shows "term_reads L V fmt (PStruct f ts)"
  unfolding term_reads_def
proof (intro allI impI)
  fix st bs
  assume "rc_inv V st \<and> \<not> postopreq st \<and> may_follow (PStruct f ts) bs"
  then have a: "rc_inv V st \<and> \<not> postopreq st \<and> closes bs" by (simp add: may_follow_def)
  let ?rest = "canon_args fmt False ts @ bs" and ?st = "push_fun (FUNFUN f) st"
  have 1: "reads L st (name_text f @ 40 # ?rest) False ?st ?rest"
    using functor_reads [of L f ?rest st] f L a canon_args_next [OF ts(2,3), of fmt bs] by simp
  have "rc_inv V ?st \<and> \<not> postopreq ?st \<and> closes bs \<and>
      funstk ?st = (length (opstk st), FUNFUN f) # funstk st \<and> opstk ?st = opstk st @ []"
    using a by (simp add: push_fun_def)
  then obtain st2 vs where 2: "reads L ?st ?rest False st2 bs"
    "gains V ?st st2 (opstk st @ [struct_term f ([] @ vs)])" "funstk st2 = funstk st"
    "list_all2 (named (rc_vars st2)) vs ts"
    using ts(1) unfolding args_read_def by blast
  have len: "length vs = length ts" using 2(4) by (rule list_all2_lengthD)
  have s: "struct_term f vs = PStruct f vs" using f(2) len by (auto simp: struct_term_def)
  have "reads L st (name_text f @ 40 # ?rest) False st2 bs"
    using reads_trans [OF 1 2(1)] by (simp add: push_fun_def)
  moreover have "gains V st st2 (opstk st @ [PStruct f vs])"
    using 2(2) s by (simp add: gains_def push_fun_def)
  ultimately show "\<exists>st' u. reads L st (canon fmt False (PStruct f ts) @ bs) (PStruct f ts = PAtom [45]) st' bs \<and>
        gains V st st' (opstk st @ [u]) \<and> funstk st' = funstk st \<and> named (rc_vars st') u (PStruct f ts)"
    using 2(3) named_struct [OF 2(4), of f] by (intro exI [of _ st2] exI [of _ "PStruct f vs"]) simp
qed

lemma tail_nil:
  assumes "20 < L" shows "tail_reads L V fmt (PAtom nil_name)"
  unfolding tail_reads_def
proof (intro allI impI)
  fix st bs fs base us
  assume a: "rc_inv V st \<and> postopreq st \<and> closes bs \<and> us \<noteq> [] \<and>
        funstk st = (length base, FUNLIST) # fs \<and> opstk st = base @ us"
  obtain st' where "reads L st (93 # bs) False st' bs" "gains V st st' (base @ [bracket_term FUNLIST us])"
    "funstk st' = fs"
    using close_list [of V st bs L us base FUNLIST fs] a assms by auto
  moreover have "bracket_term FUNLIST us = list_term us (PAtom nil_name)"
    by (simp add: bracket_term_def)
  ultimately show "\<exists>st' u. reads L st (canon_tail fmt False (PAtom nil_name) @ bs) False st' bs \<and>
        gains V st st' (base @ [list_term us u]) \<and> funstk st' = fs \<and> named (rc_vars st') u (PAtom nil_name)"
    by (intro exI [of _ st'] exI [of _ "PAtom nil_name"]) (simp add: named_def)
qed

lemma bracket_dotted: "us \<noteq> [] \<Longrightarrow> bracket_term FUNDTLIST (us @ [u]) = list_term us u"
  by (simp add: bracket_term_def)

lemma tail_dotted:
  assumes t: "term_reads L V fmt t" "readable L V t" and L: "20 < L"
    and c: "canon_tail fmt False t = 124 # canon fmt False t @ [93]"
  shows "tail_reads L V fmt t"
  unfolding tail_reads_def
proof (intro allI impI)
  fix st bs fs base us
  assume a: "rc_inv V st \<and> postopreq st \<and> closes bs \<and> us \<noteq> [] \<and>
        funstk st = (length base, FUNLIST) # fs \<and> opstk st = base @ us"
  let ?st = "st\<lparr>funstk := (length base, FUNDTLIST) # fs, postopreq := False\<rparr>"
  have 1: "reads L st (124 # canon fmt False t @ 93 # bs) False ?st (canon fmt False t @ 93 # bs)"
    using bar_reads [of "canon fmt False t @ 93 # bs" L st] a L canon_next(3) [OF t(2)] by simp
  obtain st1 u where 2: "reads L ?st (canon fmt False t @ 93 # bs) (t = PAtom [45]) st1 (93 # bs)"
    "gains V ?st st1 (opstk ?st @ [u])" "funstk st1 = funstk ?st" "named (rc_vars st1) u t"
    using t(1) a unfolding term_reads_def
    by (elim allE [of _ ?st] allE [of _ "93 # bs"]) auto
  obtain st2 where 3: "reads L st1 (93 # bs) False st2 bs"
    "gains V st1 st2 (base @ [bracket_term FUNDTLIST (us @ [u])])" "funstk st2 = fs"
    using close_list [of V st1 bs L "us @ [u]" base FUNDTLIST fs] 2 a L by (auto simp: gains_def)
  have "reads L st (124 # canon fmt False t @ 93 # bs) False st2 bs"
    using reads_trans [OF reads_trans [OF 1 2(1)] 3(1)] 2(3) by simp
  moreover have "gains V st st2 (base @ [list_term us u])"
    using gains_trans [OF 2(2) refl 3(2)] a bracket_dotted [of us u] by (simp add: gains_def)
  ultimately show "\<exists>st' u. reads L st (canon_tail fmt False t @ bs) False st' bs \<and>
        gains V st st' (base @ [list_term us u]) \<and> funstk st' = fs \<and> named (rc_vars st') u t"
    using 3(3) gains_named [OF 3(2) 2(4)] c by (intro exI [of _ st2] exI [of _ u]) simp
qed

lemma tail_cons:
  assumes h: "term_reads L V fmt h" "readable L V h" and t: "tail_reads L V fmt t" and L: "20 < L"
  shows "tail_reads L V fmt (PList h t)"
  unfolding tail_reads_def
proof (intro allI impI)
  fix st bs fs base us
  assume a: "rc_inv V st \<and> postopreq st \<and> closes bs \<and> us \<noteq> [] \<and>
        funstk st = (length base, FUNLIST) # fs \<and> opstk st = base @ us"
  let ?rest = "canon_tail fmt False t @ bs" and ?st = "st\<lparr>postopreq := False\<rparr>"
  have fol: "follows ?rest"
    by (cases t) simp_all
  have 1: "reads L st (44 # canon fmt False h @ ?rest) False ?st (canon fmt False h @ ?rest)"
    using comma_reads [of "canon fmt False h @ ?rest" L st] a L canon_next(3) [OF h(2)] by simp
  obtain st1 u where 2: "reads L ?st (canon fmt False h @ ?rest) (h = PAtom [45]) st1 ?rest"
    "gains V ?st st1 (opstk ?st @ [u])" "funstk st1 = funstk ?st" "named (rc_vars st1) u h"
    using h(1) a fol unfolding term_reads_def
    by (elim allE [of _ ?st] allE [of _ ?rest]) auto
  obtain st2 v where 3: "reads L st1 ?rest False st2 bs"
    "gains V st1 st2 (base @ [list_term (us @ [u]) v])" "funstk st2 = fs" "named (rc_vars st2) v t"
    using t 2 a unfolding tail_reads_def
    by (elim allE [of _ st1] allE [of _ bs] allE [of _ fs] allE [of _ base] allE [of _ "us @ [u]"])
      (auto simp: gains_def)
  have "reads L st (44 # canon fmt False h @ ?rest) False st2 bs"
    using reads_trans [OF reads_trans [OF 1 2(1)] 3(1)] 2(3) a by simp
  moreover have "gains V st st2 (base @ [list_term us (PList u v)])"
    using gains_trans [OF 2(2) refl 3(2)] by (simp add: gains_def list_term_snoc)
  ultimately show "\<exists>st' u. reads L st (canon_tail fmt False (PList h t) @ bs) False st' bs \<and>
        gains V st st' (base @ [list_term us u]) \<and> funstk st' = fs \<and> named (rc_vars st') u (PList h t)"
    using 3(3) named_list [OF gains_named [OF 3(2) 2(4)] 3(4)]
    by (intro exI [of _ st2] exI [of _ "PList u v"]) simp
qed

lemma list_reads:
  assumes h: "term_reads L V fmt h" "readable L V h" and t: "tail_reads L V fmt t" and L: "20 < L"
  shows "term_reads L V fmt (PList h t)"
  unfolding term_reads_def
proof (intro allI impI)
  fix st bs
  assume "rc_inv V st \<and> \<not> postopreq st \<and> may_follow (PList h t) bs"
  then have a: "rc_inv V st \<and> \<not> postopreq st \<and> closes bs" by (simp add: may_follow_def)
  let ?rest = "canon_tail fmt False t @ bs" and ?st = "push_fun FUNLIST st"
  have fol: "follows ?rest"
    by (cases t) simp_all
  have 1: "reads L st (91 # canon fmt False h @ ?rest) False ?st (canon fmt False h @ ?rest)"
    using open_list_reads [of "canon fmt False h @ ?rest" L st] a L canon_next [OF h(2)] by simp
  obtain st1 u where 2: "reads L ?st (canon fmt False h @ ?rest) (h = PAtom [45]) st1 ?rest"
    "gains V ?st st1 (opstk ?st @ [u])" "funstk st1 = funstk ?st" "named (rc_vars st1) u h"
    using h(1) a fol unfolding term_reads_def
    by (elim allE [of _ ?st] allE [of _ ?rest]) (auto simp: push_fun_def)
  obtain st2 v where 3: "reads L st1 ?rest False st2 bs"
    "gains V st1 st2 (opstk st @ [list_term [u] v])" "funstk st2 = funstk st" "named (rc_vars st2) v t"
    using t 2 a unfolding tail_reads_def
    by (elim allE [of _ st1] allE [of _ bs] allE [of _ "funstk st"] allE [of _ "opstk st"] allE [of _ "[u]"])
      (auto simp: gains_def push_fun_def)
  have "reads L st (91 # canon fmt False h @ ?rest) False st2 bs"
    using reads_trans [OF reads_trans [OF 1 2(1)] 3(1)] 2(3) by (simp add: push_fun_def)
  moreover have "gains V st st2 (opstk st @ [PList u v])"
    using gains_trans [OF 2(2) refl 3(2)] by (simp add: gains_def push_fun_def)
  ultimately show "\<exists>st' u. reads L st (canon fmt False (PList h t) @ bs) (PList h t = PAtom [45]) st' bs \<and>
        gains V st st' (opstk st @ [u]) \<and> funstk st' = funstk st \<and> named (rc_vars st') u (PList h t)"
    using 3(3) named_list [OF gains_named [OF 3(2) 2(4)] 3(4)]
    by (intro exI [of _ st2] exI [of _ "PList u v"]) simp
qed

lemma atom_term_reads:
  assumes "name_ok L a" "20 < L"
  shows "term_reads L V fmt (PAtom a)"
  unfolding term_reads_def
proof (intro allI impI)
  fix st bs
  assume "rc_inv V st \<and> \<not> postopreq st \<and> may_follow (PAtom a) bs"
  then have a: "rc_inv V st \<and> \<not> postopreq st \<and> follows bs" by (simp add: may_follow_def)
  show "\<exists>st' u. reads L st (canon fmt False (PAtom a) @ bs) (PAtom a = PAtom [45]) st' bs \<and>
        gains V st st' (opstk st @ [u]) \<and> funstk st' = funstk st \<and> named (rc_vars st') u (PAtom a)"
    using atom_reads [OF assms(1) _ assms(2)] gains_push [of V st "PAtom a"] a
    by (intro exI [of _ "push_op (PAtom a) st"] exI [of _ "PAtom a"]) (simp add: named_def)
qed

lemma int_term_reads:
  assumes "- XSB_MAXINT \<le> i" "i \<le> XSB_MAXINT" "30 < L"
  shows "term_reads L V fmt (PInt i)"
  unfolding term_reads_def
proof (intro allI impI)
  fix st bs
  assume "rc_inv V st \<and> \<not> postopreq st \<and> may_follow (PInt i) bs"
  then have a: "rc_inv V st \<and> \<not> postopreq st \<and> follows bs" by (simp add: may_follow_def)
  obtain st' where "reads L st (int_text i @ bs) False st' bs" "gains V st st' (opstk st @ [PInt i])"
    "funstk st' = funstk st"
  proof (cases "0 \<le> i")
    case True
    then show thesis
      using that [OF posint_reads gains_push] a assms by simp
  next
    case False
    then show thesis
      using that negint_reads [of "- i" bs L st V] a assms by auto
  qed
  then show "\<exists>st' u. reads L st (canon fmt False (PInt i) @ bs) (PInt i = PAtom [45]) st' bs \<and>
        gains V st st' (opstk st @ [u]) \<and> funstk st' = funstk st \<and> named (rc_vars st') u (PInt i)"
    by (intro exI [of _ st'] exI [of _ "PInt i"]) (simp add: named_def)
qed

lemma var_term_reads:
  assumes "var_text v \<in> V" "length (var_text v) < L" "finite V" "card V \<le> MAXVAR"
  shows "term_reads L V fmt (PVar v)"
  unfolding term_reads_def using var_reads [OF _ assms(1,3,4) _ assms(2)] by (auto simp: may_follow_def)

lemma args_Cons:
  "term_reads L V fmt t \<Longrightarrow> (ts \<noteq> [] \<Longrightarrow> args_read L V fmt ts) \<Longrightarrow> 20 < L \<Longrightarrow>
    list_all (readable L V) ts \<Longrightarrow> args_read L V fmt (t # ts)"
  by (cases "ts = []") (auto intro: args_one args_more)

lemma tail_atom:
  "(a \<noteq> nil_name \<Longrightarrow> term_reads L V fmt (PAtom a)) \<Longrightarrow> name_ok L a \<Longrightarrow> 20 < L \<Longrightarrow>
    tail_reads L V fmt (PAtom a)"
  by (cases "a = nil_name") (auto intro: tail_nil tail_dotted)

lemma readable_reads:
  assumes L: "30 < L" and V: "finite V" "card V \<le> MAXVAR"
  shows "readable L V t \<Longrightarrow> term_reads L V fmt t"
    and "list_all (readable L V) ts \<Longrightarrow> ts \<noteq> [] \<Longrightarrow> args_read L V fmt ts"
    and "readable L V t \<Longrightarrow> tail_reads L V fmt t"
proof (induction fmt "False" t and fmt "False" ts and fmt "False" t rule: canon_canon_args_canon_tail.induct)
qed (use L V in \<open>auto intro: var_term_reads int_term_reads atom_term_reads list_reads struct_reads
  args_Cons tail_cons tail_atom tail_dotted\<close>)


section \<open>A whole term\<close>

text \<open>\<open>var_names t\<close>: the names the variables of a term are written with.\<close>

definition var_names :: "(var_cell, 'f) pterm \<Rightarrow> int list set" where
  "var_names t = var_text ` set1_pterm t"

text \<open>The reader at the start of a text, after the line end \<open>read_canonical_term\<close> supposes.\<close>

lemma newline_first:
  assumes "at UTF_8 L r bs" "ascii_next bs"
  shows "\<exists>r'. rd_code UTF_8 r = Inr (nxt bs, r') \<and> at UTF_8 L r' (tl bs)"
  using rd_next [OF assms] by blast

lemma GetToken_blank:
  assumes "at UTF_8 L r bs" "ascii_next bs" "blank w"
  shows "\<exists>r'. GetToken UTF_8 w r = GetToken UTF_8 (nxt bs) r' \<and> at UTF_8 L r' (tl bs)"
proof -
  obtain r' where r': "rd_code UTF_8 r = Inr (nxt bs, r')" "at UTF_8 L r' (tl bs)"
    using newline_first [OF assms(1,2)] by blast
  have "InType w = Inr EOLN \<or> InType w = Inr SPACE" using assms(3) by auto
  then have "token_step UTF_8 w r b = Inr (Restart (nxt bs), r')" for b
    using r' by (auto simp: token_step_def)
  moreover have "strbuff_len r = strbuff_len r'" using assms r' by (simp add: at_def)
  ultimately have "GetToken UTF_8 w r = GetToken UTF_8 (nxt bs) r'"
    by (simp add: GetToken_def get_token_from.simps [of UTF_8 w])
  with r'(2) show ?thesis by blast
qed

lemma rc_loop_newline:
  assumes "at UTF_8 L r bs" "ascii_next bs"
  shows "\<exists>r'. rc_loop i UTF_8 p st 10 r = rc_loop i UTF_8 p st (nxt bs) r' \<and> at UTF_8 L r' (tl bs)"
proof -
  obtain r' where g: "GetToken UTF_8 10 r = GetToken UTF_8 (nxt bs) r'" "at UTF_8 L r' (tl bs)"
    using GetToken_blank [OF assms, of 10] by auto
  have "rc_loop i UTF_8 p st 10 r = rc_loop i UTF_8 p st (nxt bs) r'"
    unfolding rc_loop.simps [of i UTF_8 p st 10 r] rc_loop.simps [of i UTF_8 p st "nxt bs" r'] g(1) ..
  with g(2) show ?thesis by blast
qed

text \<open>\<open>full_stop t bs\<close>: the text \<open>bs\<close> ends the clause of \<open>t\<close>, and \<open>rest\<close> is left after it.\<close>

definition full_stop :: "(var_cell, 'f) pterm \<Rightarrow> int list \<Rightarrow> bool" where
  "full_stop t ss \<longleftrightarrow> ss = [32, 46] \<or> ss = [46] \<and> (case t of PList _ _ \<Rightarrow> True | PStruct _ _ \<Rightarrow> True | _ \<Rightarrow> False)"

lemma full_stop_follows: "full_stop t ss \<Longrightarrow> may_follow t (ss @ bs)"
  by (cases t) (auto simp: full_stop_def may_follow_def closes_def ascii_next_def)

lemma token_full_stop:
  assumes "full_stop t ss" "at UTF_8 L r (tl (ss @ w # bs))" "blank w" "1 < L"
  shows "\<exists>r'. GetToken UTF_8 (nxt (ss @ w # bs)) r = Inr (\<lparr>tok_type = TK_EOC, tok_value = NoValue, nextch = w\<rparr>, r') \<and>
    at UTF_8 L r' (w # bs)"
proof (cases "ss = [46]")
  case True
  then show ?thesis using token_stop [of L r w bs] assms by simp
next
  case False
  then have ss: "ss = [32, 46]" using assms(1) by (simp add: full_stop_def)
  then have "at UTF_8 L r (46 # w # bs)" using assms(2) by simp
  from GetToken_blank [OF this, of 32] obtain r1 where "GetToken UTF_8 32 r = GetToken UTF_8 46 r1" "at UTF_8 L r1 (w # bs)"
    by auto
  then show ?thesis using token_stop [of L r1 w bs] assms(3,4) ss by simp
qed

lemma finish_at:
  assumes "GetToken UTF_8 (nextch t) r = Inr (e, r')" "ends e" "opstk st = [u]"
  shows "\<exists>ret. finish_term True UTF_8 p st t r = Inr (ret, r') \<and> result ret = RcTerm u (rc_vars st)"
  unfolding finish_term_def assms(1,3)
  by (cases u; cases "return_psc (varfound st) p u") (use assms(2) in \<open>auto simp: Let_def\<close>)

theorem read_written:
  assumes r: "at UTF_8 L r (canon fmt False t @ ss @ w # bs)" and L: "30 < L"
    and t: "readable L V t" "t \<noteq> PAtom [45]" and V: "finite V" "card V \<le> MAXVAR"
    and ss: "full_stop t ss" "blank w"
  shows "\<exists>ret r' u vs. read_canonical_term True UTF_8 p sz r = Inr (ret, r') \<and>
    result ret = RcTerm u vs \<and> distinct vs \<and> set vs \<subseteq> V \<and> named vs u t \<and> at UTF_8 L r' (w # bs)"
proof -
  let ?st = "\<lparr>opstk = [], opstk_size = (if sz = 0 then INIT_STK_SIZE else sz), funstk = [], rc_vars = [],
       varfound = False, postopreq = False\<rparr>"
  let ?rest = "ss @ w # bs" and ?text = "canon fmt False t @ ss @ w # bs"
  obtain r1 where r1: "rc_loop True UTF_8 p ?st 10 r = rc_loop True UTF_8 p ?st (nxt ?text) r1"
    "at UTF_8 L r1 (tl ?text)"
    using rc_loop_newline [OF r, of True p ?st] canon_next(3) [OF t(1), of fmt ?rest] by auto
  have "rc_inv V ?st \<and> \<not> postopreq ?st \<and> may_follow t ?rest"
    using full_stop_follows [OF ss(1)] by (simp add: rc_inv_def)
  with readable_reads(1) [OF L V t(1), of fmt] obtain st u where
    rd: "reads L ?st ?text (t = PAtom [45]) st ?rest" "gains V ?st st (opstk ?st @ [u])"
      "funstk st = funstk ?st" "named (rc_vars st) u t"
    unfolding term_reads_def by blast
  obtain tok r2 where c: "rc_loop True UTF_8 p ?st (nxt ?text) r1 = rc_cont True p st tok r2"
    "is_minus tok = (t = PAtom [45])" "nextch tok = nxt ?rest" "at UTF_8 L r2 (tl ?rest)"
    using rd(1) r1(2) unfolding reads_def by blast
  obtain r' where e: "GetToken UTF_8 (nxt ?rest) r2 = Inr (\<lparr>tok_type = TK_EOC, tok_value = NoValue, nextch = w\<rparr>, r')"
    "at UTF_8 L r' (w # bs)" using token_full_stop [OF ss(1) c(4) ss(2)] L by auto
  obtain ret where f: "finish_term True UTF_8 p st tok r2 = Inr (ret, r')" "result ret = RcTerm u (rc_vars st)"
    using finish_at [of tok r2 _ r' st u p] e(1) c(3) rd(2) by (fastforce simp: gains_def)
  have "read_canonical_term True UTF_8 p sz r = Inr (ret, r')"
    using r1(1) c(1,2) f(1) t(2) rd(3) by (simp add: read_canonical_term_def rc_cont_def)
  with f(2) rd(2,4) e(2) show ?thesis by (auto simp: gains_def rc_inv_def)
qed

end
