(* ===== verification/Reader_Properties.thy ===== *)
theory Reader_Properties imports Canonical_Roundtrip begin

text \<open>
  The properties of the character codes, of the tokenizer and of the canonical reader and
  writer, each with a witness at a concrete input.
\<close>

section \<open>Canonical terms\<close>


abbreviation (input) string_reader :: "int list \<Rightarrow> reader" where
  "string_reader bs \<equiv> \<lparr>strm = StrIn \<lparr>strcnt = int (length bs), strptr = 0, strbase = bs\<rparr>,
     lastc = 0, strbuff_len = 10000, too_long_warning = True\<rparr>"



text \<open>
  C2: the writer's text is the canonical syntax of the term: every name quoted when it has
  to be, arguments between commas, lists with their bar, each parenthesis that was opened
  closed. The term has no attributed variable, no float whose text overflows the buffers
  \<open>exp[5]\<close> and \<open>fstr[30]\<close> of \<open>cvt_float_to_str\<close> (as \<open>1e+100\<close> does), and, when
  variables are written as letters, only small integers under \<open>$VAR\<close>.
\<close>

theorem write_canonical_text:
  "writable fmt lf t \<Longrightarrow> write_canonical_term fmt lf t = Inr (canon fmt lf t)"
  using wcan_text(1) [of fmt lf t 0 "[]"] by (simp add: write_canonical_term_def)

theorem write_canonical_text_witness:
  "write_canonical_term (\<lambda>_ :: unit. [49]) False (PList (PReal ()) (PAtom [65])) =
     Inr [91, 49, 46, 48, 124, 39, 65, 39, 93]"
proof -
  have "writable (\<lambda>_ :: unit. [49]) False (PList (PReal ()) (PAtom [65]) :: (var_cell, unit) pterm)"
    by (simp add: cvt_float_to_str_def)
  from write_canonical_text [OF this] show ?thesis
    by (simp add: real_text_def name_text_def cvt_float_to_str_def quotes_are_needed_def to_char_def symbol_char_def)
qed

text \<open>
  C3: a term that could be written but for an attributed variable somewhere in it makes
  \<open>write_canonical_term\<close> abort as an illegal term, with letters for variables or without.
\<close>

theorem write_canonical_attv:
  assumes "presentable fmt lf t" "has_attv lf t"
  shows "write_canonical_term fmt lf t = Inl (Xsb_Abort ''[WRITE_CANONICAL_TERM] Illegal Prolog term'')"
  using wcan_attv(1) [OF assms, of 0 "[]"] by (auto simp: write_canonical_term_def)

text \<open>\<open>f('$VAR'(3),[1|Attv])\<close> with letters for variables.\<close>

theorem write_canonical_attv_witness:
  "write_canonical_term (\<lambda>_ :: unit. []) True
      (PStruct [102] [PStruct [36, 86, 65, 82] [PInt 3], PList (PInt 1) PAttv] :: (var_cell, unit) pterm)
    = Inl (Xsb_Abort ''[WRITE_CANONICAL_TERM] Illegal Prolog term'')"
  by (rule write_canonical_attv) (simp_all add: small_int_def)

section \<open>Tokens\<close>

text \<open>
  C4: a quoted atom is one token, whose value is the text between the quotes with the
  doubled quotes and backslashes single again, and the token stops at its closing quote.
\<close>

theorem quoted_atom_token:
  assumes "\<forall>c \<in> set cps. plain_cp c" "sep bs" "length (utf8_text cps) + 3 \<le> L"
    "at UTF_8 L r (concat (map (quote_cp 39) cps) @ 39 # bs)"
  shows "\<exists>r'. GetToken UTF_8 39 r =
      Inr (\<lparr>tok_type = func_or TK_FUNC TK_ATOM bs, tok_value = StrValue (utf8_text cps), nextch = nxt bs\<rparr>, r') \<and>
    at UTF_8 L r' (tl bs)"
  using token_quoted [OF assms(1-3)] assms(4) by (simp add: token_at_def)

theorem quoted_atom_token_witness:
  "\<exists>r'. GetToken UTF_8 39 (string_reader [65, 39, 39, 195, 169, 39, 40]) =
      Inr (\<lparr>tok_type = TK_FUNC, tok_value = StrValue [65, 39, 195, 169], nextch = 40\<rparr>, r') \<and>
    at UTF_8 10000 r' []"
proof -
  have u: "utf8_text [65, 39, 233] = [65, 39, 195, 169]"
    by (simp add: utf8_codepoint_to_str_def to_byte_def)
  have q: "concat (map (quote_cp 39) [65, 39, 233]) = [65, 39, 39, 195, 169]"
    by (simp add: quote_cp_def utf8_codepoint_to_str_def to_byte_def)
  have "at UTF_8 10000 (string_reader [65, 39, 39, 195, 169, 39, 40]) (concat (map (quote_cp 39) [65, 39, 233]) @ 39 # [40])"
    unfolding q by (simp add: at_def str_ok_def str_pending_def all_bytes_def)
  moreover have "\<forall>c \<in> set [65, 39, 233]. plain_cp c" "sep [40]" "length (utf8_text [65, 39, 233]) + 3 \<le> (10000 :: nat)"
    unfolding u by (simp_all add: plain_cp_def sep_def)
  ultimately show ?thesis
    using quoted_atom_token [of "[65, 39, 233]" "[40]" 10000] unfolding u by (simp add: func_or_def)
qed

text \<open>
  C5: a run of decimal digits is one integer token, with the value of the numeral when it
  fits and \<open>XSB_MAXINT\<close> when it does not.
\<close>

theorem decimal_token:
  assumes "digits (d # ds)" "sep bs" "Suc (length ds) < L" "at UTF_8 L r (ds @ bs)"
  shows "\<exists>r'. GetToken UTF_8 d r =
      Inr (\<lparr>tok_type = TK_INT, tok_value = IntValue (min (digits_val (d # ds)) XSB_MAXINT), nextch = nxt bs\<rparr>, r') \<and>
    at UTF_8 L r' (tl bs)"
  using token_int [OF assms(1-3)] assms(4) by (simp add: token_at_def)

theorem decimal_token_witness:
  "\<exists>r'. GetToken UTF_8 52 (string_reader [50, 44]) =
      Inr (\<lparr>tok_type = TK_INT, tok_value = IntValue 42, nextch = 44\<rparr>, r') \<and> at UTF_8 10000 r' []"
proof -
  have "at UTF_8 10000 (string_reader [50, 44]) ([50] @ [44])"
    by (simp add: at_def str_ok_def str_pending_def all_bytes_def)
  from decimal_token [OF _ _ _ this, of 52] show ?thesis
    by (simp add: sep_def digits_val_def)
qed

text \<open>
  C6: the digits of a number are stored without a look at the room that is left: as many
  digits as the buffer has bytes run over its end.
\<close>

theorem digits_overflow:
  assumes "digits (d # ds)" "at UTF_8 L r (ds @ bs)" "L \<le> length ds"
  shows "GetToken UTF_8 d r = Inl Buffer_Overflow"
proof -
  have "scan_digits UTF_8 d r \<lparr>chars = [], room = int L\<rparr> = Inl Buffer_Overflow"
    using scan_digits_overflow [OF assms(2,1), of "\<lparr>chars = [], room = int L\<rparr>"] assms(3) by simp
  moreover have "strbuff_len r = L" using assms(2) by (simp add: at_def)
  ultimately show ?thesis
    using assms(1) by (simp add: GetToken_def get_token_from.simps token_step_def tok_digit_def)
qed

theorem digits_overflow_witness:
  "GetToken UTF_8 49 (string_reader (replicate 10000 49)) = Inl Buffer_Overflow"
proof -
  have d: "digits (49 # replicate 10000 49)" by (simp add: digits_def)
  have "at UTF_8 10000 (string_reader (replicate 10000 49)) (replicate 10000 49 @ [])"
    by (simp add: at_def str_ok_def str_pending_def all_bytes_def)
  from digits_overflow [OF d this] show ?thesis by simp
qed

text \<open>
  C7: progress: every token but the two that end a reader's loop, \<open>TK_EOC\<close> (the end of a clause)
  and \<open>TK_EOF\<close>, has taken at least one character of the input, so a reader that goes on calling
  \<open>GetToken\<close> until one of these comes to an end. After \<open>TK_EOC\<close> the blank that follows the
  full stop is put back, so that token may leave the input as long as it was.
\<close>

theorem token_progress:
  "GetToken cs c r = Inr (t, r') \<Longrightarrow> tok_type t \<noteq> TK_EOC \<Longrightarrow> tok_type t \<noteq> TK_EOF \<Longrightarrow>
     pos (nextch t) r' < pos c r"
  by (rule GetToken_pos) simp_all

theorem token_progress_witness:
  "\<exists>t r'. GetToken UTF_8 52 (string_reader [50, 44]) = Inr (t, r') \<and>
     pos (nextch t) r' < pos 52 (string_reader [50, 44])"
proof -
  have "at UTF_8 10000 (string_reader [50, 44]) ([50] @ [44])"
    by (simp add: at_def str_ok_def str_pending_def all_bytes_def)
  then obtain r' where r': "GetToken UTF_8 52 (string_reader [50, 44]) =
      Inr (\<lparr>tok_type = TK_INT, tok_value = IntValue 42, nextch = 44\<rparr>, r')"
    using token_int [of 52 "[50]" "[44]" 10000] by (auto simp: token_at_def sep_def digits_val_def)
  show ?thesis
    by (intro exI conjI, rule r', rule token_progress [OF r']) simp_all
qed

section \<open>Comments\<close>

fun no_close :: "bool \<Rightarrow> int list \<Rightarrow> bool" where
  "no_close st [] = True"
| "no_close st (x # xs) = (\<not> (x = 47 \<and> st) \<and> no_close (x = 42) xs)"

lemma no_close_text:
  "\<forall>us vs. (if st then 42 # xs else xs) \<noteq> us @ [42, 47] @ vs \<Longrightarrow> no_close st xs"
proof (induction st xs rule: no_close.induct)
  case (2 st x xs)
  have "\<not> (x = 47 \<and> st)"
  proof
    assume "x = 47 \<and> st"
    then have "(if st then 42 # x # xs else x # xs) = [] @ [42, 47] @ xs" by simp
    with 2(2) show False by blast
  qed
  moreover have "\<forall>us vs. (if x = 42 then 42 # xs else xs) \<noteq> us @ [42, 47] @ vs"
  proof (intro allI notI)
    fix us vs assume a: "(if x = 42 then 42 # xs else xs) = us @ [42, 47] @ vs"
    have "x # xs = (if x = 42 then us else x # us) @ [42, 47] @ vs" using a by (cases "x = 42") simp_all
    then have "(if st then 42 # x # xs else x # xs) = ((if st then [42] else []) @ (if x = 42 then us else x # us)) @ [42, 47] @ vs"
      by simp
    with 2(2) show False by blast
  qed
  ultimately show ?case using 2(1) by simp
qed simp

lemma com2_loop_close:
  "no_close st xs \<Longrightarrow> stream_ok s \<Longrightarrow> pending s = xs @ 42 # 47 # ys \<Longrightarrow>
    com2_loop 42 47 st s = Inr (47, skip (length xs + 2) s)"
proof (induction xs arbitrary: st s)
  case Nil
  from GetC_pending [of s 42 "47 # ys"] Nil
  have 1: "GetC s = Inr (42, skip 1 s)" "stream_ok (skip 1 s)" "pending (skip 1 s) = 47 # ys" by simp_all
  from GetC_pending [OF 1(2,3)] have "GetC (skip 1 s) = Inr (47, skip 1 (skip 1 s))" by simp
  moreover have "skip 1 (skip 1 s) = skip (1 + 1) s" using input.skip_skip [of s 1 1] Nil by simp
  ultimately show ?case using 1(1) by (simp add: com2_loop.simps [of _ _ _ s] com2_loop.simps [of _ _ _ "skip (Suc 0) s"])
next
  case (Cons x xs)
  from GetC_pending [of s x "xs @ 42 # 47 # ys"] Cons.prems
  have 1: "GetC s = Inr (x, skip 1 s)" "stream_ok (skip 1 s)" "pending (skip 1 s) = xs @ 42 # 47 # ys" by simp_all
  have "0 \<le> x" using input.get_byte_range [of s] Cons.prems by simp
  moreover have "com2_loop 42 47 (x = 42) (skip 1 s) = Inr (47, skip (length xs + 2) (skip 1 s))"
    using Cons.IH [OF _ 1(2,3)] Cons.prems(1) by simp
  moreover have "skip (length xs + 2) (skip 1 s) = skip (length (x # xs) + 2) s"
    using input.skip_skip [of s 1 "length xs + 2"] Cons.prems by simp
  ultimately show ?case using 1(1) Cons.prems(1) by (simp add: com2_loop.simps [of _ _ _ s])
qed

text \<open>
  A bracketed comment ends at its first \<open>*/\<close>: \<open>GetToken\<close> skips the text before it and those two
  characters, and returns the token that comes after it.
\<close>

lemma comment_skipped:
  assumes r: "at UTF_8 L r (42 # xs @ 42 # 47 # bs)" and c: "\<forall>us vs. xs \<noteq> us @ [42, 47] @ vs" and bs: "ascii_next bs"
    and L: "0 < L"
  shows "\<exists>r'. GetToken UTF_8 47 r = GetToken UTF_8 (nxt bs) r' \<and> at UTF_8 L r' (tl bs)"
proof -
  obtain r1 where r1: "rd_code UTF_8 r = Inr (42, r1)" "at UTF_8 L r1 (xs @ 42 # 47 # bs)"
    using rd_next [OF r] by auto
  let ?r2 = "r1\<lparr>strm := skip (length xs + 2) (strm r1)\<rparr>"
  have "com2plain 42 47 (strm r1) = Inr (0, skip (length xs + 2) (strm r1))"
    using com2_loop_close [OF no_close_text [of False xs], of "strm r1" bs] c r1(2) by (simp add: com2plain_def at_def)
  moreover have "at UTF_8 L ?r2 bs"
    using r1(2) input.skip_ok [of "strm r1" "length xs + 2"] input.skip_pending [of "strm r1" "length xs + 2"]
    by (simp add: at_def)
  moreover from rd_next [OF this bs] obtain r3 where r3: "rd_code UTF_8 ?r2 = Inr (nxt bs, r3)" "at UTF_8 L r3 (tl bs)"
    by blast
  ultimately have "token_step UTF_8 47 r b = Inr (Restart (nxt bs), r3)" if "chars b = []" for b
    using that r1 L r
    by (simp add: token_step_def tok_sign_def skip_comment_def InType_def chtype_def array_get_def put_byte_def at_def)
  moreover have "strbuff_len r = strbuff_len r3" using r r3(2) by (simp add: at_def)
  ultimately have "GetToken UTF_8 47 r = GetToken UTF_8 (nxt bs) r3"
    by (simp add: GetToken_def get_token_from.simps [of UTF_8 47])
  with r3(2) show ?thesis by blast
qed

section \<open>Character codes\<close>

text \<open>C10: decoding what \<open>utf8_codepoint_to_str\<close> writes gives the code point back, wherever it stands.\<close>

theorem utf8_roundtrip:
  assumes "0 \<le> cp" "cp < 0x200000"
  shows "utf8_char_to_codepoint (pre @ utf8_codepoint_to_str cp @ post) (int (length pre))
    = Inr (cp, int (length pre) + int (length (utf8_codepoint_to_str cp)))"
  by (rule utf8_decode_encode [OF assms])

theorem utf8_roundtrip_witness: "utf8_char_to_codepoint [97, 226, 130, 172, 0] 1 = Inr (0x20AC, 4)"
proof -
  have e: "utf8_codepoint_to_str 0x20AC = [226, 130, 172]" by (simp add: utf8_codepoint_to_str_def to_byte_def)
  show ?thesis using utf8_roundtrip [of "0x20AC" "[97]" "[0]"] unfolding e by simp
qed

text \<open>C11: \<open>coding_nchars\<close> counts the characters of a UTF-8 text, not its bytes.\<close>

theorem utf8_nchars_counts:
  assumes "\<forall>cp \<in> set cps. 0 < cp \<and> cp < 0x200000"
  shows "coding_nchars UTF_8 (utf8_text cps @ [0]) = Inr (int (length cps))"
  using utf8_nchars_from_encoded [OF assms, of "[]" "[]" 0] by (simp add: utf8_nchars_def utf8_text_def)

theorem utf8_nchars_counts_witness: "coding_nchars UTF_8 [97, 195, 169, 0] = Inr 2"
proof -
  have e: "utf8_text [97, 233] = [97, 195, 169]" by (simp add: utf8_codepoint_to_str_def to_byte_def)
  show ?thesis using utf8_nchars_counts [of "[97, 233]"] unfolding e by simp
qed

text \<open>
  C12: code page 1252: encoding the character of a byte gives the byte back, whatever the
  inversions that the search has left in its table.
\<close>

theorem w1252_roundtrip:
  assumes "w1252_hash_ok h" "b < 256"
  shows "\<exists>cp h'. w1252_char_to_codepoint [int b] 0 = Inr (cp, 1) \<and>
    w1252_codepoint_to_str h cp = Inr ([int b], h') \<and> w1252_hash_ok h'"
  using w1252_encode_decode [OF assms] assms(2)
  by (simp add: w1252_char_to_codepoint_def array_get_def)

theorem w1252_roundtrip_witness:
  "\<exists>cp h'. w1252_char_to_codepoint [128] 0 = Inr (cp, 1) \<and>
    w1252_codepoint_to_str (replicate 256 0) cp = Inr ([128], h') \<and> w1252_hash_ok h'"
  using w1252_roundtrip [OF w1252_hash_ok_init, of 128] by simp

text \<open>
  C13: reading a character from a stream: a string is read as UTF-8 whatever the character
  set of the file; the character is taken off the input and nothing more.
\<close>

theorem stream_character:
  assumes "stream_ok s" "pending s = utf8_codepoint_to_str cp @ post" "0 \<le> cp" "cp < 0x200000"
    "input_is_string s \<or> cs = UTF_8"
  shows "GetCode cs s = Inr (cp, skip (length (utf8_codepoint_to_str cp)) s)"
  by (rule GetCode_encoded [OF assms])

theorem stream_character_witness: "GetCode UTF_8 (FileIn [195, 169, 97]) = Inr (233, FileIn [97])"
proof -
  have e: "utf8_codepoint_to_str 233 = [195, 169]" by (simp add: utf8_codepoint_to_str_def to_byte_def)
  show ?thesis
    using stream_character [of "FileIn [195, 169, 97]" 233 "[97]" UTF_8] unfolding e by (simp add: all_bytes_def)
qed

end
