(* ===== verification/Chained_Buckets.thy ===== *)
theory Chained_Buckets imports XSB_Prelude "HOL-Library.Multiset" begin

text \<open>
  Hash tables with chains, as the string and symbol tables of emu/hash_xsb.c and the
  hash tables of emu/hashtable.c have them: an array of lists of entries, a bucket
  number for each entry, insertion at the head of a chain and the moving of all entries
  to a larger array, which walks the old chains in order and so reverses them.
\<close>

definition push_entry :: "('e \<Rightarrow> nat) \<Rightarrow> 'e \<Rightarrow> 'e list list \<Rightarrow> 'e list list" where
  "push_entry ix e t = t[ix e := e # t ! ix e]"

definition rehash :: "('e \<Rightarrow> nat) \<Rightarrow> nat \<Rightarrow> 'e list list \<Rightarrow> 'e list list" where
  "rehash ix n t = fold (push_entry ix) (concat t) (replicate n [])"

text \<open>Every entry is in the chain of its bucket.\<close>

definition placed :: "('e \<Rightarrow> nat) \<Rightarrow> 'e list list \<Rightarrow> bool" where
  "placed ix t \<longleftrightarrow> (\<forall>i < length t. \<forall>e \<in> set (t ! i). ix e = i)"

lemma length_push [simp, hash_simps]: "length (push_entry ix e t) = length t"
  by (simp add: push_entry_def)

lemma placed_push: "placed ix t \<Longrightarrow> placed ix (push_entry ix e t)"
  unfolding placed_def push_entry_def
  by (cases "ix e < length t") (simp_all add: nth_list_update)

lemma placed_append: "placed ix t \<Longrightarrow> placed ix (t[ix e := t ! ix e @ [e]])"
  unfolding placed_def by (cases "ix e < length t") (auto simp add: nth_list_update)

lemma placed_empty [simp]: "placed ix (replicate n [])"
  by (simp add: placed_def)

lemma mset_concat_update:
  "i < length t \<Longrightarrow> mset (concat (t[i := xs])) + mset (t ! i) = mset (concat t) + mset xs"
proof (induction t arbitrary: i)
  case (Cons c t)
  then show ?case by (cases i) (auto simp: ac_simps)
qed simp

lemma mset_push: "ix e < length t \<Longrightarrow> mset (concat (push_entry ix e t)) = add_mset e (mset (concat t))"
  using mset_concat_update [of "ix e" t "e # t ! ix e"] by (simp add: push_entry_def)

lemma fold_push:
  assumes "\<forall>e \<in> set es. ix e < length t" "placed ix t"
  shows "length (fold (push_entry ix) es t) = length t \<and> placed ix (fold (push_entry ix) es t) \<and>
    mset (concat (fold (push_entry ix) es t)) = mset es + mset (concat t)"
  using assms
proof (induction es arbitrary: t)
  case (Cons e es)
  then have "placed ix (push_entry ix e t)" "\<forall>e' \<in> set es. ix e' < length (push_entry ix e t)"
    by (simp_all add: placed_push)
  from Cons.IH [OF this(2,1)] Cons.prems show ?case by (simp add: mset_push)
qed simp

lemma rehash_ok:
  assumes "\<forall>e \<in> set (concat t). ix e < n"
  shows "length (rehash ix n t) = n" "placed ix (rehash ix n t)"
    "mset (concat (rehash ix n t)) = mset (concat t)"
proof -
  have "\<forall>e \<in> set (concat t). ix e < length (replicate n ([] :: 'a list))" using assms by simp
  from fold_push [OF this placed_empty]
  show "length (rehash ix n t) = n" "placed ix (rehash ix n t)"
    "mset (concat (rehash ix n t)) = mset (concat t)"
    by (simp_all add: rehash_def)
qed

lemma set_rehash:
  assumes "\<forall>e \<in> set (concat t). ix e < n"
  shows "set (concat (rehash ix n t)) = set (concat t)"
  using rehash_ok(3) [OF assms] by (metis set_mset_mset)

lemma mem_concat: "e \<in> set (concat t) \<longleftrightarrow> (\<exists>i < length t. e \<in> set (t ! i))"
proof -
  have "e \<in> set (concat t) \<longleftrightarrow> (\<exists>c \<in> set t. e \<in> set c)" by simp
  then show ?thesis unfolding set_conv_nth [of t] by blast
qed

text \<open>In a table whose entries are placed, the bucket of an entry holds all there is of it.\<close>

lemma placed_bucket:
  assumes "placed ix t" "i < length t"
  shows "e \<in> set (t ! i) \<longleftrightarrow> e \<in> set (concat t) \<and> ix e = i"
proof
  assume "e \<in> set (t ! i)"
  then show "e \<in> set (concat t) \<and> ix e = i" using assms mem_concat [of e t] by (auto simp: placed_def)
next
  assume a: "e \<in> set (concat t) \<and> ix e = i"
  then obtain j where "j < length t" "e \<in> set (t ! j)" using mem_concat [of e t] by blast
  moreover from this have "ix e = j" using assms(1) by (simp add: placed_def)
  ultimately show "e \<in> set (t ! i)" using a by simp
qed

lemma distinct_bucket: "distinct (map f (concat t)) \<Longrightarrow> i < length t \<Longrightarrow> distinct (map f (t ! i))"
proof (induction t arbitrary: i)
  case (Cons c t)
  then show ?case by (cases i) auto
qed simp

text \<open>Searching a chain: the first entry that satisfies the test.\<close>

lemma find_unique:
  assumes "distinct (map f es)" "e \<in> set es"
  shows "find (\<lambda>x. f x = f e) es = Some e"
  using assms
proof (induction es)
  case (Cons x es)
  then show ?case by (cases "x = e") (auto simp: rev_image_eqI)
qed simp

lemma find_key_None: "find (\<lambda>x. f x = k) es = None \<longleftrightarrow> k \<notin> f ` set es"
  by (auto simp: find_None_iff)

lemma find_key_Some: "find (\<lambda>x. f x = k) es = Some e \<Longrightarrow> e \<in> set es \<and> f e = k"
  by (auto simp: find_Some_iff)

lemma distinct_mset_map: "mset xs = mset ys \<Longrightarrow> distinct (map f xs) = distinct (map f ys)"
  by (metis mset_eq_imp_distinct_iff mset_map)

end
