(* ===== verification/Atom_Table.thy ===== *)
theory Atom_Table imports Chained_Buckets Utf8 begin

text \<open>
  The atom table of emu/hash_xsb.c and emu/psc_xsb.c: the table of interned strings with
  \<open>string_find\<close>, its growth and its garbage collection, and the symbol table of predicate
  records with \<open>insert_psc\<close> and \<open>search_psc_in_module\<close>.

  Addresses are numbers given out in order. The pointer to a string is the address of its
  entry, and the bit the garbage collector sets in the link of an entry is a field.
\<close>

section \<open>Sizes and hash values\<close>

definition hash_primes :: "nat list" where
  "hash_primes = [127, 257, 509, 1021, 2053, 4099, 8191, 16381, 32771, 65537, 131071,
       262147, 524287, 1048573, 2097143, 4194301]"

text \<open>The loop reads \<open>primes[i]\<close> before it compares \<open>i\<close> with the length of the array.\<close>

fun next_prime_loop :: "nat \<Rightarrow> nat list \<Rightarrow> nat \<Rightarrow> nat res" where
  "next_prime_loop n [] i = Inl (Out_Of_Bounds (int i))"
| "next_prime_loop n (p # ps) i =
    (if p \<le> n then next_prime_loop n ps (Suc i)
     else if i < 15 then Inr p else Inr (2 * n - 1))"

definition next_prime :: "nat \<Rightarrow> nat res" where
  "next_prime n = next_prime_loop n hash_primes 0"

text \<open>
  \<open>*obj_name << shift\<close> shifts an \<open>int\<close>; from a shift of 32 on, which C leaves undefined,
  the count is taken modulo 32 as the shift instruction does.
\<close>

definition int_shl :: "int \<Rightarrow> nat \<Rightarrow> int" where
  "int_shl c n = wrap32 (push_bit (n mod 32) c)"

fun hash_loop :: "int list \<Rightarrow> nat \<Rightarrow> 64 word \<Rightarrow> 64 word" where
  "hash_loop [] shift h = h"
| "hash_loop (c # cs) shift h =
    hash_loop cs (if 57 \<le> shift + 3 then shift + 3 - 57 else shift + 3)
      (xor h (word_of_int (int_shl (to_char c) shift)))"

definition hash_xsb :: "int list \<Rightarrow> int \<Rightarrow> nat \<Rightarrow> nat" where
  "hash_xsb name arity n = unat (hash_loop name 0 0 + word_of_int arity) mod n"

section \<open>The string table\<close>

record str_entry =
  se_addr :: nat
  se_text :: "int list"
  se_mark :: bool

record str_table =
  st_size :: nat
  st_contains :: nat
  st_buckets :: "str_entry list list"
  st_next :: nat

definition init_strings :: str_table where
  "init_strings = \<lparr>st_size = 16381, st_contains = 0, st_buckets = replicate 16381 [], st_next = 0\<rparr>"

definition str_index :: "nat \<Rightarrow> str_entry \<Rightarrow> nat" where
  "str_index n e = hash_xsb (se_text e) 0 n"

definition expand_string_table :: "str_table \<Rightarrow> str_table res" where
  "expand_string_table st =
    res_bind (next_prime (st_size st)) (\<lambda>n.
      Inr (st\<lparr>st_size := n, st_buckets := rehash (str_index n) n (st_buckets st)\<rparr>))"

definition str_chain :: "str_table \<Rightarrow> int list \<Rightarrow> str_entry list" where
  "str_chain st s = st_buckets st ! hash_xsb s 0 (st_size st)"

text \<open>
  \<open>string_find\<close>: the search walks to the end of the chain, where a new entry goes.
\<close>

definition string_find :: "int list \<Rightarrow> bool \<Rightarrow> str_table \<Rightarrow> (nat option \<times> str_table) res" where
  "string_find s ins st =
    (case find (\<lambda>e. se_text e = s) (str_chain st s) of
       Some e \<Rightarrow> Inr (Some (se_addr e), st)
     | None \<Rightarrow>
        if ins then
          (let i = hash_xsb s 0 (st_size st); p = st_next st;
               e = \<lparr>se_addr = p, se_text = s, se_mark = False\<rparr>;
               st = st\<lparr>st_buckets := (st_buckets st)[i := st_buckets st ! i @ [e]],
                       st_next := Suc p, st_contains := Suc (st_contains st)\<rparr> in
           res_bind (if 4 * st_size st < st_contains st then expand_string_table st else Inr st)
             (\<lambda>st. Inr (Some p, st)))
        else Inr (None, st))"

definition string_find_safe :: "int list \<Rightarrow> str_table \<Rightarrow> nat option" where
  "string_find_safe s st = map_option se_addr (find (\<lambda>e. se_text e = s) (str_chain st s))"

text \<open>
  \<open>free_unused_strings\<close>: in every chain the marked entries stay and lose their mark, the
  others are released.
\<close>

fun free_chain :: "str_entry list \<Rightarrow> str_entry list \<times> nat" where
  "free_chain [] = ([], 0)"
| "free_chain (e # es) =
    (let (kept, freed) = free_chain es in
     if se_mark e then (e\<lparr>se_mark := False\<rparr> # kept, freed) else (kept, Suc freed))"

definition free_unused_strings :: "str_table \<Rightarrow> str_table" where
  "free_unused_strings st =
    st\<lparr>st_buckets := map (fst \<circ> free_chain) (st_buckets st),
       st_contains := st_contains st - sum_list (map (snd \<circ> free_chain) (st_buckets st))\<rparr>"

text \<open>\<open>mark_string\<close> sets the bit of an entry that is in use.\<close>

definition mark_string :: "nat \<Rightarrow> str_table \<Rightarrow> str_table" where
  "mark_string p st = st\<lparr>st_buckets :=
     map (map (\<lambda>e. if se_addr e = p then e\<lparr>se_mark := True\<rparr> else e)) (st_buckets st)\<rparr>"

section \<open>Statistics\<close>

text \<open>
  The numbers \<open>symbol_table_stats\<close> and \<open>string_table_stats\<close> print; \<open>first_index\<close> is -1
  in a table with no entries.
\<close>

record table_stats =
  ts_size :: nat
  ts_entries :: nat
  ts_used :: nat
  ts_unused :: nat
  ts_first :: int
  ts_last :: nat
  ts_full_size :: nat
  ts_full_num :: nat

definition stats_step :: "table_stats \<Rightarrow> nat \<times> 'e list \<Rightarrow> table_stats" where
  "stats_step s = (\<lambda>(i, c).
     if c = [] then s\<lparr>ts_unused := Suc (ts_unused s)\<rparr>
     else
       (let s = s\<lparr>ts_first := (if ts_first s = -1 then int i else ts_first s), ts_last := i,
                  ts_used := Suc (ts_used s), ts_entries := ts_entries s + length c\<rparr> in
        if ts_full_size s < length c then s\<lparr>ts_full_size := length c, ts_full_num := i\<rparr> else s))"

definition table_stats_of :: "'e list list \<Rightarrow> table_stats" where
  "table_stats_of t =
    foldl stats_step
      \<lparr>ts_size = length t, ts_entries = 0, ts_used = 0, ts_unused = 0, ts_first = -1, ts_last = 0,
       ts_full_size = 0, ts_full_num = 0\<rparr> (zip [0..<length t] t)"

definition string_table_stats :: "str_table \<Rightarrow> table_stats \<times> bool" where
  "string_table_stats st =
    (let s = table_stats_of (st_buckets st) in (s, ts_entries s = st_contains st))"


section \<open>The symbol table\<close>

datatype ep_ref = LoadInst nat | EpCode int

record psc_rec =
  p_name :: "int list"
  p_arity :: "16 word"
  p_type :: int
  p_env :: int
  p_data :: int
  p_ep :: ep_ref

record psc_pair =
  pr_addr :: nat
  pr_psc :: nat

text \<open>
  The state of the two tables: predicate records by address, the buckets of the global
  chain and the chains that hang on the other modules.
\<close>

record atoms =
  strings :: str_table
  pscs :: "psc_rec list"
  sym_size :: nat
  sym_contains :: nat
  sym_buckets :: "psc_pair list list"
  mod_chains :: "nat \<Rightarrow> psc_pair list"
  next_pair :: nat

datatype module_ref = Global | Module nat

definition init_atoms :: atoms where
  "init_atoms = \<lparr>strings = init_strings, pscs = [], sym_size = 2053, sym_contains = 0,
     sym_buckets = replicate 2053 [], mod_chains = (\<lambda>_. []), next_pair = 0\<rparr>"

definition psc_at :: "atoms \<Rightarrow> nat \<Rightarrow> psc_rec" where
  "psc_at a p = pscs a ! p"

definition sym_index :: "atoms \<Rightarrow> nat \<Rightarrow> psc_pair \<Rightarrow> nat" where
  "sym_index a n pr = hash_xsb (p_name (psc_at a (pr_psc pr))) (uint (p_arity (psc_at a (pr_psc pr)))) n"

definition expand_symbol_table :: "atoms \<Rightarrow> atoms res" where
  "expand_symbol_table a =
    res_bind (next_prime (sym_size a)) (\<lambda>n.
      Inr (a\<lparr>sym_size := n, sym_buckets := rehash (sym_index a n) n (sym_buckets a)\<rparr>))"

definition get_chain :: "module_ref \<Rightarrow> int list \<Rightarrow> int \<Rightarrow> atoms \<Rightarrow> psc_pair list" where
  "get_chain m name arity a =
    (case m of Global \<Rightarrow> sym_buckets a ! hash_xsb name arity (sym_size a) | Module k \<Rightarrow> mod_chains a k)"

text \<open>The statistics of the symbol table, and whether its counter is right.\<close>

definition symbol_table_stats :: "atoms \<Rightarrow> table_stats \<times> bool" where
  "symbol_table_stats a =
    (let s = table_stats_of (sym_buckets a) in (s, ts_entries s = sym_contains a))"

definition put_chain :: "module_ref \<Rightarrow> int list \<Rightarrow> int \<Rightarrow> psc_pair list \<Rightarrow> atoms \<Rightarrow> atoms" where
  "put_chain m name arity c a =
    (case m of
       Global \<Rightarrow> a\<lparr>sym_buckets := (sym_buckets a)[hash_xsb name arity (sym_size a) := c]\<rparr>
     | Module k \<Rightarrow> a\<lparr>mod_chains := (mod_chains a)(k := c)\<rparr>)"

definition search_psc_in_module :: "int \<Rightarrow> int list \<Rightarrow> atoms \<Rightarrow> psc_pair list \<Rightarrow> psc_pair option" where
  "search_psc_in_module arity name a c =
    find (\<lambda>pr. p_name (psc_at a (pr_psc pr)) = name \<and> arity = uint (p_arity (psc_at a (pr_psc pr)))) c"

definition search_in_usermod :: "int \<Rightarrow> int list \<Rightarrow> atoms \<Rightarrow> psc_pair option" where
  "search_in_usermod arity name a = search_psc_in_module arity name a (get_chain Global name arity a)"

text \<open>
  \<open>make_psc_rec\<close> interns the name; the new record starts as an undefined symbol. The arity
  is an \<open>int\<close> that \<open>psc_set_arity\<close> cuts down to the sixteen bits of the field, while
  \<open>search_psc_in_module\<close> compares the whole \<open>int\<close> with the field.
\<close>

definition make_psc_rec :: "int list \<Rightarrow> int \<Rightarrow> atoms \<Rightarrow> (nat \<times> atoms) res" where
  "make_psc_rec name arity a =
    res_bind (string_find name True (strings a)) (\<lambda>(_, st).
      (let p = length (pscs a) in
       Inr (p, a\<lparr>strings := st, pscs := pscs a @
         [\<lparr>p_name = name, p_arity = word_of_int arity, p_type = 0, p_env = 0, p_data = 0, p_ep = LoadInst p\<rparr>]\<rparr>)))"

definition make_psc_pair :: "module_ref \<Rightarrow> int list \<Rightarrow> int \<Rightarrow> nat \<Rightarrow> atoms \<Rightarrow> nat \<times> atoms" where
  "make_psc_pair m name arity p a =
    (next_pair a,
     (put_chain m name arity (\<lparr>pr_addr = next_pair a, pr_psc = p\<rparr> # get_chain m name arity a) a)
       \<lparr>next_pair := Suc (next_pair a)\<rparr>)"

definition search_insert_psc :: "module_ref \<Rightarrow> int list \<Rightarrow> int \<Rightarrow> atoms \<Rightarrow> (nat \<times> bool \<times> atoms) res" where
  "search_insert_psc m name arity a =
    (case search_psc_in_module arity name a (get_chain m name arity a) of
       Some pr \<Rightarrow> Inr (pr_addr pr, False, a)
     | None \<Rightarrow>
        res_bind (make_psc_rec name arity a) (\<lambda>(p, a).
          (let (pr, a) = make_psc_pair m name arity p a in Inr (pr, True, a))))"

definition count_symbol :: "atoms \<Rightarrow> atoms res" where
  "count_symbol a =
    (let a = a\<lparr>sym_contains := Suc (sym_contains a)\<rparr> in
     if 4 * sym_size a < sym_contains a then expand_symbol_table a else Inr a)"

definition insert_psc :: "int list \<Rightarrow> int \<Rightarrow> module_ref \<Rightarrow> atoms \<Rightarrow> (nat \<times> bool \<times> atoms) res" where
  "insert_psc name arity m a =
    res_bind (search_insert_psc m name arity a) (\<lambda>(pr, new, a).
      if m = Global \<and> new then res_bind (count_symbol a) (\<lambda>a. Inr (pr, new, a))
      else Inr (pr, new, a))"

text \<open>
  \<open>link_sym\<close> puts an existing record into a module under its own name; its arity goes
  through a \<open>byte\<close>. A record that was there under that name is replaced, after one of the
  two, when only one is defined, has taken over the definition of the other.
\<close>

abbreviation (input) T_ORDI :: int where "T_ORDI \<equiv> 0"

definition set_psc :: "nat \<Rightarrow> psc_rec \<Rightarrow> atoms \<Rightarrow> atoms" where
  "set_psc p r a = a\<lparr>pscs := (pscs a)[p := r]\<rparr>"

definition set_psc_ep_to_psc :: "nat \<Rightarrow> nat \<Rightarrow> atoms \<Rightarrow> atoms res" where
  "set_psc_ep_to_psc p target a =
    (if p_arity (psc_at a p) \<noteq> p_arity (psc_at a target)
     then Inl (Xsb_Abort ''[IMPORT AS] Cannot import predicate as a predicate with a different arity'')
     else Inr (set_psc p ((psc_at a p)\<lparr>p_ep := LoadInst target\<rparr>) a))"

definition take_definition :: "nat \<Rightarrow> nat \<Rightarrow> atoms \<Rightarrow> atoms" where
  "take_definition p q a =
    set_psc p ((psc_at a p)\<lparr>p_ep := p_ep (psc_at a q), p_type := p_type (psc_at a q),
      p_env := p_env (psc_at a q)\<rparr>) a"

definition merge_symbols :: "nat \<Rightarrow> nat \<Rightarrow> atoms \<Rightarrow> atoms res" where
  "merge_symbols old p a =
    (let um = p_type (psc_at a old); mt = p_type (psc_at a p) in
     if um \<noteq> T_ORDI \<and> mt \<noteq> T_ORDI then Inr a
     else if um \<noteq> T_ORDI then Inr (take_definition p old a)
     else if mt \<noteq> T_ORDI then Inr (take_definition old p a)
     else set_psc_ep_to_psc old p a)"

definition link_sym :: "nat \<Rightarrow> module_ref \<Rightarrow> atoms \<Rightarrow> (nat \<times> atoms) res" where
  "link_sym p m a =
    (let name = p_name (psc_at a p); arity = to_byte (uint (p_arity (psc_at a p)));
         c = get_chain m name arity a in
     case search_psc_in_module arity name a c of
       Some pr \<Rightarrow>
         if pr_psc pr = p then Inr (pr_addr pr, a)
         else
           res_bind (merge_symbols (pr_psc pr) p a) (\<lambda>a.
             Inr (pr_addr pr,
               put_chain m name arity
                 (map (\<lambda>q. if pr_addr q = pr_addr pr then q\<lparr>pr_psc := p\<rparr> else q) c) a))
     | None \<Rightarrow>
         (let (pr, a) = make_psc_pair m name arity p a in
          if m = Global then res_bind (count_symbol a) (\<lambda>a. Inr (pr, a)) else Inr (pr, a)))"

end
