(* ===== verification/Interning.thy ===== *)
theory Interning imports XSB_Prelude begin

text \<open>
  The contract of an interning table: a key is entered at most once, what is entered is
  found again under the same pointer whatever is entered later, and two keys never share
  a pointer. The string table and the global symbol table provide it.
\<close>

fun intern_all :: "('k \<Rightarrow> 's \<Rightarrow> ('p \<times> 's) res) \<Rightarrow> 'k list \<Rightarrow> 's \<Rightarrow> ('p list \<times> 's) res" where
  "intern_all f [] s = Inr ([], s)"
| "intern_all f (k # ks) s =
    res_bind (f k s) (\<lambda>(p, s). res_bind (intern_all f ks s) (\<lambda>(ps, s). Inr (p # ps, s)))"

locale interner =
  fixes lookup :: "'s \<Rightarrow> 'k \<Rightarrow> 'p option"
    and intern :: "'k \<Rightarrow> 's \<Rightarrow> ('p \<times> 's) res"
    and ok :: "'s \<Rightarrow> bool"
  assumes intern_ok: "ok s \<Longrightarrow> intern k s = Inr (p, s') \<Longrightarrow> ok s'"
    and intern_finds: "ok s \<Longrightarrow> intern k s = Inr (p, s') \<Longrightarrow> lookup s' k = Some p"
    and intern_keeps: "ok s \<Longrightarrow> intern k s = Inr (p, s') \<Longrightarrow> k' \<noteq> k \<Longrightarrow> lookup s' k' = lookup s k'"
    and intern_known: "ok s \<Longrightarrow> lookup s k = Some p \<Longrightarrow> intern k s = Inr (p, s)"
    and lookup_inj: "ok s \<Longrightarrow> lookup s k = Some p \<Longrightarrow> lookup s k' = Some p \<Longrightarrow> k = k'"
begin

lemma intern_stable:
  assumes "ok s" "intern k s = Inr (p, s')" "lookup s k' = Some q"
  shows "lookup s' k' = Some q"
proof (cases "k' = k")
  case True
  with assms intern_known [of s k q] intern_finds [of s k p s'] show ?thesis by simp
next
  case False
  with assms intern_keeps show ?thesis by simp
qed

lemma intern_all_stable:
  "ok s \<Longrightarrow> intern_all intern ks s = Inr (ps, s') \<Longrightarrow> lookup s k = Some q \<Longrightarrow> lookup s' k = Some q"
proof (induction ks arbitrary: s ps)
  case (Cons k' ks)
  then obtain p s1 ps1 where "intern k' s = Inr (p, s1)" "intern_all intern ks s1 = Inr (ps1, s')" by auto
  with Cons intern_ok intern_stable show ?case by blast
qed simp

lemma intern_all_finds:
  "ok s \<Longrightarrow> intern_all intern ks s = Inr (ps, s') \<Longrightarrow> ok s' \<and> map (lookup s') ks = map Some ps"
proof (induction ks arbitrary: s ps)
  case (Cons k ks)
  then obtain p s1 ps1 where g: "intern k s = Inr (p, s1)" "intern_all intern ks s1 = Inr (ps1, s')"
    "ps = p # ps1" by auto
  have "ok s1" using intern_ok [OF Cons.prems(1) g(1)] .
  moreover have "lookup s' k = Some p"
    using intern_all_stable [OF \<open>ok s1\<close> g(2)] intern_finds [OF Cons.prems(1) g(1)] by simp
  ultimately show ?case using Cons.IH [OF _ g(2)] g(3) by simp
qed simp

text \<open>Pointers can be compared instead of keys.\<close>

theorem intern_all_pointers:
  assumes "ok s" "intern_all intern ks s = Inr (ps, s')" "i < length ks" "j < length ks"
  shows "ps ! i = ps ! j \<longleftrightarrow> ks ! i = ks ! j"
proof -
  have m: "map (lookup s') ks = map Some ps" and "ok s'" using intern_all_finds [OF assms(1,2)] by simp_all
  then have len: "length ps = length ks" by (metis length_map)
  have "lookup s' (ks ! i) = Some (ps ! i)" "lookup s' (ks ! j) = Some (ps ! j)"
    using m assms(3,4) len by (metis nth_map)+
  with lookup_inj [OF \<open>ok s'\<close>] show ?thesis by auto
qed

end

end
