(* ===== verification/Atom_Table_Laws.thy ===== *)
theory Atom_Table_Laws imports Atom_Table Interning begin

text \<open>
  The string table and the symbol table keep their invariants and are interning tables;
  the collection of unused strings keeps what is marked.
\<close>

section \<open>Sizes\<close>

lemma hash_xsb_less: "0 < n \<Longrightarrow> hash_xsb s a n < n"
  by (simp add: hash_xsb_def)

lemma next_prime_loop_grows:
  "next_prime_loop n ps i = Inr m \<Longrightarrow> 1 < n \<Longrightarrow> n < m"
  by (induction n ps i rule: next_prime_loop.induct) (auto split: if_splits)

lemma next_prime_loop_defined:
  "\<exists>p \<in> set ps. n < p \<Longrightarrow> \<exists>m. next_prime_loop n ps i = Inr m"
  by (induction n ps i rule: next_prime_loop.induct) auto

lemma next_prime_grows:
  assumes "1 < n" "n < 4194301"
  shows "\<exists>m. next_prime n = Inr m \<and> n < m"
proof -
  have "\<exists>p \<in> set hash_primes. n < p" using assms by (simp add: hash_primes_def)
  then obtain m where "next_prime n = Inr m"
    using next_prime_loop_defined unfolding next_prime_def by blast
  with next_prime_loop_grows assms show ?thesis by (auto simp: next_prime_def)
qed

section \<open>The invariant of the string table\<close>

definition entries :: "str_table \<Rightarrow> str_entry list" where
  "entries st = concat (st_buckets st)"

definition strings_ok :: "str_table \<Rightarrow> bool" where
  "strings_ok st \<longleftrightarrow> 1 < st_size st \<and> length (st_buckets st) = st_size st \<and>
     placed (str_index (st_size st)) (st_buckets st) \<and>
     distinct (map se_text (entries st)) \<and> distinct (map se_addr (entries st)) \<and>
     (\<forall>e \<in> set (entries st). se_addr e < st_next st) \<and>
     st_contains st = length (entries st)"

lemma strings_ok_init: "strings_ok init_strings"
proof -
  have "concat (replicate n ([] :: str_entry list)) = []" for n by (induction n) auto
  then show ?thesis by (simp add: strings_ok_def init_strings_def entries_def)
qed

lemma chain_entries:
  assumes "strings_ok st"
  shows "e \<in> set (str_chain st s) \<and> se_text e = s \<longleftrightarrow> e \<in> set (entries st) \<and> se_text e = s"
proof -
  have i: "hash_xsb s 0 (st_size st) < length (st_buckets st)"
    using assms by (simp add: strings_ok_def hash_xsb_less)
  have "placed (str_index (st_size st)) (st_buckets st)" using assms by (simp add: strings_ok_def)
  from placed_bucket [OF this i] show ?thesis by (auto simp: str_chain_def str_index_def entries_def)
qed

lemma lookup_iff:
  assumes "strings_ok st"
  shows "string_find_safe s st = Some p \<longleftrightarrow> (\<exists>e \<in> set (entries st). se_text e = s \<and> se_addr e = p)"
proof -
  have inj: "inj_on se_text (set (entries st))"
    using assms by (simp add: strings_ok_def distinct_map)
  show ?thesis
  proof (cases "find (\<lambda>e. se_text e = s) (str_chain st s)")
    case None
    then have n: "\<forall>e \<in> set (str_chain st s). se_text e \<noteq> s" by (simp add: find_None_iff)
    have "\<not> (\<exists>e \<in> set (entries st). se_text e = s)"
      using n chain_entries [OF assms, of _ s] by blast
    moreover have "string_find_safe s st = None" using None by (simp add: string_find_safe_def)
    ultimately show ?thesis by auto
  next
    case (Some e)
    then have "e \<in> set (str_chain st s) \<and> se_text e = s" using find_key_Some [of se_text s] by blast
    then have e: "e \<in> set (entries st)" "se_text e = s" using chain_entries [OF assms, of e s] by blast+
    have u: "e' = e" if "e' \<in> set (entries st)" "se_text e' = s" for e'
      using inj_onD [OF inj _ that(1) e(1)] that(2) e(2) by simp
    have f: "string_find_safe s st = Some (se_addr e)" using Some by (simp add: string_find_safe_def)
    show ?thesis
    proof
      assume "string_find_safe s st = Some p"
      with f e show "\<exists>e \<in> set (entries st). se_text e = s \<and> se_addr e = p" by (intro bexI [of _ e]) simp_all
    next
      assume "\<exists>e \<in> set (entries st). se_text e = s \<and> se_addr e = p"
      then obtain e' where "e' \<in> set (entries st)" "se_text e' = s" "se_addr e' = p" by blast
      with u [of e'] f show "string_find_safe s st = Some p" by simp
    qed
  qed
qed

lemma lookup_None_iff:
  assumes "strings_ok st"
  shows "string_find_safe s st = None \<longleftrightarrow> s \<notin> se_text ` set (entries st)"
proof -
  have "(\<exists>p. string_find_safe s st = Some p) \<longleftrightarrow> s \<in> se_text ` set (entries st)"
    unfolding lookup_iff [OF assms] by blast
  then show ?thesis by (metis not_None_eq)
qed

lemma string_find_lookup: "string_find s False st = Inr (string_find_safe s st, st)"
  by (auto simp: string_find_def string_find_safe_def split: option.splits)

text \<open>A larger table with the same entries.\<close>

lemma strings_ok_rehash:
  assumes ok: "strings_ok st" and n: "1 < n"
    and st': "st' = st\<lparr>st_size := n, st_buckets := rehash (str_index n) n (st_buckets st)\<rparr>"
  shows "strings_ok st' \<and> set (entries st') = set (entries st)"
proof -
  have b: "\<forall>e \<in> set (concat (st_buckets st)). str_index n e < n"
    using n by (simp add: str_index_def hash_xsb_less)
  have m: "mset (entries st') = mset (entries st)"
    using rehash_ok(3) [OF b] by (simp add: st' entries_def)
  then have "length (entries st') = length (entries st)" "set (entries st') = set (entries st)"
    by (metis size_mset) (metis m set_mset_mset)
  then show ?thesis
    using ok n rehash_ok(1,2) [OF b] distinct_mset_map [OF m, of se_text] distinct_mset_map [OF m, of se_addr]
    unfolding strings_ok_def by (simp add: st')
qed

lemma expand_ok:
  "strings_ok st \<Longrightarrow> expand_string_table st = Inr st' \<Longrightarrow> strings_ok st' \<and> set (entries st') = set (entries st)"
proof -
  assume ok: "strings_ok st" and e: "expand_string_table st = Inr st'"
  then obtain n where n: "next_prime (st_size st) = Inr n"
    "st' = st\<lparr>st_size := n, st_buckets := rehash (str_index n) n (st_buckets st)\<rparr>"
    by (auto simp: expand_string_table_def)
  have "1 < st_size st" using ok by (simp add: strings_ok_def)
  then have "1 < n" using n(1) next_prime_loop_grows [of "st_size st" hash_primes 0 n]
    by (simp add: next_prime_def)
  from strings_ok_rehash [OF ok this n(2)] show ?thesis .
qed

text \<open>A new entry at the end of its chain.\<close>

definition add_string :: "int list \<Rightarrow> str_table \<Rightarrow> str_table" where
  "add_string s st =
    (let i = hash_xsb s 0 (st_size st) in
     st\<lparr>st_buckets := (st_buckets st)[i := st_buckets st ! i @ [\<lparr>se_addr = st_next st, se_text = s, se_mark = False\<rparr>]],
        st_next := Suc (st_next st), st_contains := Suc (st_contains st)\<rparr>)"

lemma add_string_entries:
  assumes "strings_ok st"
  shows "mset (entries (add_string s st)) =
    add_mset \<lparr>se_addr = st_next st, se_text = s, se_mark = False\<rparr> (mset (entries st))"
proof -
  have "hash_xsb s 0 (st_size st) < length (st_buckets st)"
    using assms by (simp add: strings_ok_def hash_xsb_less)
  from mset_concat_update [OF this, of "st_buckets st ! hash_xsb s 0 (st_size st) @
      [\<lparr>se_addr = st_next st, se_text = s, se_mark = False\<rparr>]"]
  show ?thesis by (simp add: add_string_def Let_def entries_def)
qed

lemma add_string_ok:
  assumes ok: "strings_ok st" and new: "s \<notin> se_text ` set (entries st)"
  shows "strings_ok (add_string s st)"
proof -
  let ?e = "\<lparr>se_addr = st_next st, se_text = s, se_mark = False\<rparr>" and ?st = "add_string s st"
  note m = add_string_entries [OF ok, of s]
  have perm: "mset (entries ?st) = mset (?e # entries st)" using m by simp
  have set: "set (entries ?st) = insert ?e (set (entries st))"
    using perm by (metis list.simps(15) set_mset_mset)
  have "distinct (map se_text (entries ?st))"
    using distinct_mset_map [OF perm, of se_text] ok new by (simp add: strings_ok_def)
  moreover have "distinct (map se_addr (entries ?st))"
    using distinct_mset_map [OF perm, of se_addr] ok by (auto simp: strings_ok_def)
  moreover have "length (entries ?st) = Suc (length (entries st))"
    using perm by (metis length_Cons size_mset)
  moreover have "placed (str_index (st_size st)) (st_buckets ?st)"
    using ok placed_append [of "str_index (st_size st)" "st_buckets st" ?e]
    by (simp add: add_string_def Let_def strings_ok_def str_index_def)
  moreover have "\<forall>e \<in> set (entries ?st). se_addr e < Suc (st_next st)"
    using ok unfolding set strings_ok_def by (auto intro: less_SucI)
  ultimately show ?thesis
    using ok unfolding strings_ok_def by (simp add: add_string_def Let_def)
qed

lemma string_find_new:
  assumes "strings_ok st" "string_find_safe s st = None"
  shows "string_find s True st =
    res_bind (if 4 * st_size st < Suc (st_contains st) then expand_string_table (add_string s st)
              else Inr (add_string s st)) (\<lambda>st'. Inr (Some (st_next st), st'))"
  using assms by (simp add: string_find_def string_find_safe_def add_string_def Let_def split: option.splits)

lemma string_find_known:
  "string_find_safe s st = Some p \<Longrightarrow> string_find s True st = Inr (Some p, st)"
  by (auto simp: string_find_def string_find_safe_def split: option.splits)

definition str_intern :: "int list \<Rightarrow> str_table \<Rightarrow> (nat \<times> str_table) res" where
  "str_intern s st = res_bind (string_find s True st) (\<lambda>(p, st).
     case p of Some p \<Rightarrow> Inr (p, st) | None \<Rightarrow> Inl Null_Pointer)"

lemma str_intern_new:
  assumes ok: "strings_ok st" and new: "string_find_safe s st = None" and i: "str_intern s st = Inr (p, st')"
  shows "strings_ok st' \<and> p = st_next st \<and>
    set (entries st') = insert \<lparr>se_addr = p, se_text = s, se_mark = False\<rparr> (set (entries st))"
proof -
  have n: "s \<notin> se_text ` set (entries st)" using lookup_None_iff [OF ok] new by simp
  note a = add_string_ok [OF ok n]
  have set: "set (entries (add_string s st))
      = insert \<lparr>se_addr = st_next st, se_text = s, se_mark = False\<rparr> (set (entries st))"
    using add_string_entries [OF ok, of s] by (metis set_mset_add_mset_insert set_mset_mset)
  have c: "p = st_next st \<and> (expand_string_table (add_string s st) = Inr st' \<or> st' = add_string s st)"
    using i string_find_new [OF ok new] by (auto simp: str_intern_def split: if_splits)
  then have "strings_ok st' \<and> set (entries st') = set (entries (add_string s st))"
    using a expand_ok [OF a] by blast
  with set c show ?thesis by simp
qed

interpretation string_table: interner "\<lambda>st s. string_find_safe s st" str_intern strings_ok
proof
  fix st s p st'
  assume ok: "strings_ok st" and i: "str_intern s st = Inr (p, st')"
  show "strings_ok st'"
  proof (cases "string_find_safe s st")
    case None
    with str_intern_new ok i show ?thesis by blast
  next
    case (Some q)
    with ok i string_find_known show ?thesis by (simp add: str_intern_def)
  qed
  show "string_find_safe s st' = Some p"
  proof (cases "string_find_safe s st")
    case None
    from str_intern_new [OF ok None i] lookup_iff [of st' s p] show ?thesis by auto
  next
    case (Some q)
    with ok i string_find_known show ?thesis by (simp add: str_intern_def)
  qed
next
  fix st s p st' s'
  assume ok: "strings_ok st" and i: "str_intern s st = Inr (p, st')" and ne: "s' \<noteq> s"
  show "string_find_safe s' st' = string_find_safe s' st"
  proof (cases "string_find_safe s st")
    case None
    note n = str_intern_new [OF ok None i]
    have "string_find_safe s' st' = Some q \<longleftrightarrow> string_find_safe s' st = Some q" for q
      using n ne lookup_iff [of st' s' q] lookup_iff [OF ok, of s' q] by auto
    then show ?thesis by (metis not_Some_eq)
  next
    case (Some q)
    with ok i string_find_known show ?thesis by (simp add: str_intern_def)
  qed
next
  show "str_intern s st = Inr (p, st)" if "string_find_safe s st = Some p" for st s p
    using that string_find_known by (simp add: str_intern_def)
next
  show "s = s'" if "strings_ok st" "string_find_safe s st = Some p" "string_find_safe s' st = Some p" for st s p s'
  proof -
    have "distinct (map se_addr (entries st))" using that(1) by (simp add: strings_ok_def)
    then have "inj_on se_addr (set (entries st))" by (simp add: distinct_map)
    then show ?thesis
      using that(2,3) unfolding lookup_iff [OF that(1)] by (auto dest: inj_onD)
  qed
qed

section \<open>Collecting unused strings\<close>

definition unmark_entry :: "str_entry \<Rightarrow> str_entry" where
  "unmark_entry e = e\<lparr>se_mark := False\<rparr>"

lemma free_chain_kept: "fst (free_chain es) = map unmark_entry (filter se_mark es)"
  by (induction es) (auto simp: Let_def unmark_entry_def split: prod.splits)

lemma free_chain_count: "snd (free_chain es) + length (filter se_mark es) = length es"
  by (induction es) (auto simp: Let_def split: prod.splits)

lemma free_entries: "entries (free_unused_strings st) = map unmark_entry (filter se_mark (entries st))"
  by (simp add: entries_def free_unused_strings_def free_chain_kept filter_concat map_concat comp_def)

lemma free_count:
  "sum_list (map (snd \<circ> free_chain) t) + length (filter se_mark (concat t)) = length (concat t)"
proof (induction t)
  case (Cons c t)
  then show ?case using free_chain_count [of c] by simp
qed simp

lemma unmark_simps [simp]: "se_text (unmark_entry e) = se_text e" "se_addr (unmark_entry e) = se_addr e"
  by (simp_all add: unmark_entry_def)

lemma free_placed: "placed (str_index n) t \<Longrightarrow> placed (str_index n) (map (fst \<circ> free_chain) t)"
  by (auto simp: placed_def free_chain_kept str_index_def)

lemma free_ok:
  assumes "strings_ok st" shows "strings_ok (free_unused_strings st)"
proof -
  have "st_contains (free_unused_strings st) = length (entries (free_unused_strings st))"
    using assms free_count [of "st_buckets st"] unfolding free_entries
    by (simp add: free_unused_strings_def strings_ok_def entries_def)
  moreover have "distinct (map se_text (entries (free_unused_strings st)))"
    "distinct (map se_addr (entries (free_unused_strings st)))"
    unfolding free_entries map_map using assms
    by (simp_all add: strings_ok_def comp_def distinct_map_filter)
  moreover have "\<forall>e \<in> set (entries (free_unused_strings st)). se_addr e < st_next st"
    unfolding free_entries using assms by (auto simp: strings_ok_def)
  moreover have "placed (str_index (st_size st)) (st_buckets (free_unused_strings st))"
    using assms free_placed by (simp add: strings_ok_def free_unused_strings_def)
  ultimately show ?thesis
    using assms by (simp add: strings_ok_def) (simp add: free_unused_strings_def)
qed

lemma free_lookup:
  assumes "strings_ok st"
  shows "string_find_safe s (free_unused_strings st) = Some p \<longleftrightarrow>
    (\<exists>e \<in> set (entries st). se_mark e \<and> se_text e = s \<and> se_addr e = p)"
  unfolding lookup_iff [OF free_ok [OF assms]] free_entries by auto

section \<open>The symbol table\<close>

definition sym_key :: "atoms \<Rightarrow> psc_pair \<Rightarrow> int list \<times> 16 word" where
  "sym_key a pr = (p_name (psc_at a (pr_psc pr)), p_arity (psc_at a (pr_psc pr)))"

definition symbols :: "atoms \<Rightarrow> psc_pair list" where
  "symbols a = concat (sym_buckets a)"

definition atoms_ok :: "atoms \<Rightarrow> bool" where
  "atoms_ok a \<longleftrightarrow> strings_ok (strings a) \<and> 1 < sym_size a \<and> length (sym_buckets a) = sym_size a \<and>
     placed (sym_index a (sym_size a)) (sym_buckets a) \<and>
     distinct (map (sym_key a) (symbols a)) \<and> distinct (map pr_addr (symbols a)) \<and>
     (\<forall>pr \<in> set (symbols a). pr_addr pr < next_pair a \<and> pr_psc pr < length (pscs a)) \<and>
     sym_contains a = length (symbols a)"

text \<open>The arities are those that the sixteen bits of the field can hold.\<close>

definition sym_lookup :: "atoms \<Rightarrow> int list \<times> 16 word \<Rightarrow> nat option" where
  "sym_lookup a = (\<lambda>(name, arity). map_option pr_addr (search_in_usermod (uint arity) name a))"

definition sym_intern :: "int list \<times> 16 word \<Rightarrow> atoms \<Rightarrow> (nat \<times> atoms) res" where
  "sym_intern = (\<lambda>(name, arity) a. res_bind (insert_psc name (uint arity) Global a) (\<lambda>(p, _, a). Inr (p, a)))"

lemma sym_index_key: "sym_index a n pr = (case sym_key a pr of (name, arity) \<Rightarrow> hash_xsb name (uint arity) n)"
  by (simp add: sym_index_def sym_key_def)

lemma search_key:
  "search_psc_in_module (uint arity) name a c = find (\<lambda>pr. sym_key a pr = (name, arity)) c"
  by (simp add: search_psc_in_module_def sym_key_def word_uint_eq_iff eq_commute [of "uint arity"])

lemma global_chain:
  assumes "atoms_ok a"
  shows "pr \<in> set (get_chain Global name (uint arity) a) \<and> sym_key a pr = (name, arity) \<longleftrightarrow>
    pr \<in> set (symbols a) \<and> sym_key a pr = (name, arity)"
proof -
  have "hash_xsb name (uint arity) (sym_size a) < length (sym_buckets a)"
    "placed (sym_index a (sym_size a)) (sym_buckets a)"
    using assms by (simp_all add: atoms_ok_def hash_xsb_less)
  from placed_bucket [OF this(2,1), of pr] show ?thesis
    unfolding get_chain_def symbols_def sym_index_key by (cases "sym_key a pr = (name, arity)") simp_all
qed

lemma sym_lookup_iff:
  assumes "atoms_ok a"
  shows "sym_lookup a k = Some p \<longleftrightarrow> (\<exists>pr \<in> set (symbols a). sym_key a pr = k \<and> pr_addr pr = p)"
proof -
  obtain name arity where k: "k = (name, arity)" by (cases k)
  have inj: "inj_on (sym_key a) (set (symbols a))" using assms by (simp add: atoms_ok_def distinct_map)
  let ?f = "find (\<lambda>pr. sym_key a pr = (name, arity)) (get_chain Global name (uint arity) a)"
  have l: "sym_lookup a k = map_option pr_addr ?f"
    by (simp add: sym_lookup_def search_in_usermod_def search_key k)
  show ?thesis
  proof (cases ?f)
    case None
    then have "\<forall>pr \<in> set (get_chain Global name (uint arity) a). sym_key a pr \<noteq> (name, arity)"
      by (simp add: find_None_iff)
    then have "\<not> (\<exists>pr \<in> set (symbols a). sym_key a pr = k)"
      using global_chain [OF assms, of _ name arity] k by blast
    with None l show ?thesis by auto
  next
    case (Some pr)
    then have "pr \<in> set (get_chain Global name (uint arity) a) \<and> sym_key a pr = (name, arity)"
      using find_key_Some [of "sym_key a"] by blast
    then have e: "pr \<in> set (symbols a)" "sym_key a pr = k" using global_chain [OF assms] k by blast+
    have u: "q = pr" if "q \<in> set (symbols a)" "sym_key a q = k" for q
      using inj_onD [OF inj _ that(1) e(1)] that(2) e(2) by simp
    show ?thesis
    proof
      assume "sym_lookup a k = Some p"
      with Some l e show "\<exists>pr \<in> set (symbols a). sym_key a pr = k \<and> pr_addr pr = p"
        by (intro bexI [of _ pr]) simp_all
    next
      assume "\<exists>pr \<in> set (symbols a). sym_key a pr = k \<and> pr_addr pr = p"
      then obtain q where "q \<in> set (symbols a)" "sym_key a q = k" "pr_addr q = p" by blast
      with u [of q] Some l show "sym_lookup a k = Some p" by simp
    qed
  qed
qed


lemma sym_lookup_None_iff:
  assumes "atoms_ok a"
  shows "sym_lookup a k = None \<longleftrightarrow> k \<notin> sym_key a ` set (symbols a)"
proof -
  have "(\<exists>p. sym_lookup a k = Some p) \<longleftrightarrow> k \<in> sym_key a ` set (symbols a)"
    unfolding sym_lookup_iff [OF assms] by blast
  then show ?thesis by (metis not_None_eq)
qed

text \<open>What growing the table and adding a pair do to the entries.\<close>

lemma sym_key_frame:
  "pscs a' = pscs a \<Longrightarrow> sym_key a' = sym_key a" "pscs a' = pscs a \<Longrightarrow> sym_index a' = sym_index a"
  by (simp_all add: fun_eq_iff sym_key_def sym_index_def psc_at_def)

lemma expand_symbols_ok:
  assumes ok: "atoms_ok a" and e: "expand_symbol_table a = Inr a'"
  shows "atoms_ok a' \<and> set (symbols a') = set (symbols a) \<and> pscs a' = pscs a"
proof -
  from e obtain n where n: "next_prime (sym_size a) = Inr n"
    "a' = a\<lparr>sym_size := n, sym_buckets := rehash (sym_index a n) n (sym_buckets a)\<rparr>"
    by (auto simp: expand_symbol_table_def)
  have p: "pscs a' = pscs a" by (simp add: n)
  note frame = sym_key_frame [OF p]
  have n1: "1 < n"
    using ok n(1) next_prime_loop_grows [of "sym_size a" hash_primes 0 n]
    by (simp add: next_prime_def atoms_ok_def)
  have b: "\<forall>pr \<in> set (concat (sym_buckets a)). sym_index a n pr < n"
    using n1 by (simp add: sym_index_def hash_xsb_less)
  have m: "mset (symbols a') = mset (symbols a)"
    using rehash_ok(3) [OF b] by (simp add: n symbols_def)
  then have s: "length (symbols a') = length (symbols a)" "set (symbols a') = set (symbols a)"
    by (metis size_mset) (metis m set_mset_mset)
  have "strings a' = strings a" "next_pair a' = next_pair a" "sym_contains a' = sym_contains a"
    "sym_size a' = n" "sym_buckets a' = rehash (sym_index a n) n (sym_buckets a)"
    by (simp_all add: n)
  then show ?thesis
    using ok n1 p s rehash_ok(1,2) [OF b] distinct_mset_map [OF m, of "sym_key a"]
      distinct_mset_map [OF m, of pr_addr]
    unfolding atoms_ok_def by (simp add: frame)
qed

text \<open>A record and its pair under a key that was not there.\<close>

definition add_symbol :: "int list \<Rightarrow> 16 word \<Rightarrow> str_table \<Rightarrow> atoms \<Rightarrow> atoms" where
  "add_symbol name arity st a =
    (let p = length (pscs a); i = hash_xsb name (uint arity) (sym_size a) in
     a\<lparr>strings := st,
       pscs := pscs a @ [\<lparr>p_name = name, p_arity = arity, p_type = 0, p_env = 0, p_data = 0, p_ep = LoadInst p\<rparr>],
       sym_buckets := (sym_buckets a)[i := \<lparr>pr_addr = next_pair a, pr_psc = p\<rparr> # sym_buckets a ! i],
       next_pair := Suc (next_pair a), sym_contains := Suc (sym_contains a)\<rparr>)"

lemma add_symbol_ok:
  assumes ok: "atoms_ok a" and st: "strings_ok st" and new: "(name, arity) \<notin> sym_key a ` set (symbols a)"
  shows "atoms_ok (add_symbol name arity st a)"
    "set (symbols (add_symbol name arity st a))
      = insert \<lparr>pr_addr = next_pair a, pr_psc = length (pscs a)\<rparr> (set (symbols a))"
    "pr \<in> set (symbols a) \<Longrightarrow> sym_key (add_symbol name arity st a) pr = sym_key a pr"
    "sym_key (add_symbol name arity st a) \<lparr>pr_addr = next_pair a, pr_psc = length (pscs a)\<rparr> = (name, arity)"
proof -
  let ?pr = "\<lparr>pr_addr = next_pair a, pr_psc = length (pscs a)\<rparr>" and ?a = "add_symbol name arity st a"
  let ?n = "sym_size a"
  have n: "1 < ?n" "length (sym_buckets a) = ?n" using ok by (simp_all add: atoms_ok_def)
  have old: "pr_psc q < length (pscs a)" if "q \<in> set (symbols a)" for q
    using ok that by (simp add: atoms_ok_def)
  show key: "sym_key ?a q = sym_key a q" if "q \<in> set (symbols a)" for q
    using old [OF that] by (simp add: sym_key_def psc_at_def add_symbol_def Let_def nth_append)
  show new_key: "sym_key ?a ?pr = (name, arity)"
    by (simp add: sym_key_def psc_at_def add_symbol_def Let_def)
  have i: "sym_index ?a ?n ?pr = hash_xsb name (uint arity) ?n" using new_key by (simp add: sym_index_key)
  have t: "sym_buckets ?a = push_entry (sym_index ?a ?n) ?pr (sym_buckets a)"
    unfolding push_entry_def i by (simp add: add_symbol_def Let_def)
  have len: "sym_index ?a ?n ?pr < length (sym_buckets a)" using n by (simp add: i hash_xsb_less)
  have m: "mset (symbols ?a) = mset (?pr # symbols a)"
    using mset_push [of "sym_index ?a ?n", OF len] by (simp add: symbols_def t)
  show set: "set (symbols ?a) = insert ?pr (set (symbols a))"
    using m by (metis list.simps(15) set_mset_mset)
  have k: "map (sym_key ?a) (symbols a) = map (sym_key a) (symbols a)" using key by simp
  have "distinct (map (sym_key ?a) (symbols ?a))"
    using distinct_mset_map [OF m, of "sym_key ?a"] ok new key new_key k
    by (simp add: atoms_ok_def image_iff)
  moreover have "distinct (map pr_addr (symbols ?a))"
    using distinct_mset_map [OF m, of pr_addr] ok by (auto simp: atoms_ok_def)
  moreover have "placed (sym_index ?a ?n) (sym_buckets ?a)"
  proof -
    have "placed (sym_index ?a ?n) (sym_buckets a)"
      unfolding placed_def
    proof (intro allI impI ballI)
      fix j q
      assume j: "j < length (sym_buckets a)" "q \<in> set (sym_buckets a ! j)"
      then have "q \<in> set (symbols a)" using mem_concat [of q "sym_buckets a"] by (auto simp: symbols_def)
      then have "sym_index ?a ?n q = sym_index a ?n q" using key by (simp add: sym_index_key)
      also have "\<dots> = j" using ok j by (simp add: atoms_ok_def placed_def)
      finally show "sym_index ?a ?n q = j" .
    qed
    then show ?thesis unfolding t by (rule placed_push)
  qed
  moreover have "length (symbols ?a) = Suc (length (symbols a))"
    using m by (metis length_Cons size_mset)
  moreover have "\<forall>q \<in> set (symbols ?a). pr_addr q < Suc (next_pair a) \<and> pr_psc q < Suc (length (pscs a))"
    using ok unfolding set by (auto simp: atoms_ok_def intro: less_SucI)
  moreover have "length (sym_buckets ?a) = ?n" using n by (simp add: t)
  ultimately show "atoms_ok ?a"
    using ok st n unfolding atoms_ok_def by (simp add: add_symbol_def Let_def)
qed


lemma insert_psc_known:
  "sym_lookup a (name, arity) = Some p \<Longrightarrow> insert_psc name (uint arity) Global a = Inr (p, False, a)"
  by (auto simp: sym_lookup_def search_in_usermod_def insert_psc_def search_insert_psc_def)

lemma insert_psc_new:
  assumes new: "sym_lookup a (name, arity) = None" and i: "insert_psc name (uint arity) Global a = Inr (p, b, a')"
  shows "\<exists>q st. string_find name True (strings a) = Inr (q, st) \<and> p = next_pair a \<and> b \<and>
    (expand_symbol_table (add_symbol name arity st a) = Inr a' \<or> a' = add_symbol name arity st a)"
proof -
  have s: "search_psc_in_module (uint arity) name a (get_chain Global name (uint arity) a) = None"
    using new by (simp add: sym_lookup_def search_in_usermod_def)
  from i obtain q st where st: "string_find name True (strings a) = Inr (q, st)"
    by (auto simp: insert_psc_def search_insert_psc_def s make_psc_rec_def)
  note s' = s [unfolded get_chain_def, simplified]
  from st i have "p = next_pair a \<and> b \<and> res_bind (count_symbol
      ((add_symbol name arity st a)\<lparr>sym_contains := sym_contains a\<rparr>)) (\<lambda>a. Inr (p, b, a)) = Inr (p, b, a')"
    by (auto simp: insert_psc_def search_insert_psc_def s' make_psc_rec_def make_psc_pair_def Let_def
        put_chain_def get_chain_def add_symbol_def)
  with st show ?thesis
    by (auto simp: count_symbol_def Let_def add_symbol_def split: if_splits)
qed

lemma sym_intern_new:
  assumes ok: "atoms_ok a" and new: "sym_lookup a k = None" and i: "sym_intern k a = Inr (p, a')"
  shows "atoms_ok a' \<and> p = next_pair a \<and>
    (\<forall>k' q. sym_lookup a' k' = Some q \<longleftrightarrow> sym_lookup a k' = Some q \<or> k' = k \<and> q = p)"
proof -
  obtain name arity where k: "k = (name, arity)" by (cases k)
  obtain b where ins: "insert_psc name (uint arity) Global a = Inr (p, b, a')" using i by (auto simp: sym_intern_def k)
  from insert_psc_new [OF new [unfolded k] ins] obtain q st where
    st: "string_find name True (strings a) = Inr (q, st)" and p: "p = next_pair a"
    and a': "expand_symbol_table (add_symbol name arity st a) = Inr a' \<or> a' = add_symbol name arity st a"
    by blast
  let ?a = "add_symbol name arity st a"
  have "strings_ok (strings a)" using ok by (simp add: atoms_ok_def)
  have "strings_ok st"
  proof (cases "string_find_safe name (strings a)")
    case None
    then have "q = Some (st_next (strings a))"
      using st [unfolded string_find_new [OF \<open>strings_ok (strings a)\<close> None]] by auto
    with st have "str_intern name (strings a) = Inr (st_next (strings a), st)"
      by (simp add: str_intern_def)
    with string_table.intern_ok [OF \<open>strings_ok (strings a)\<close>] show ?thesis by blast
  next
    case (Some x)
    with st string_find_known \<open>strings_ok (strings a)\<close> show ?thesis by auto
  qed
  moreover have "(name, arity) \<notin> sym_key a ` set (symbols a)"
    using sym_lookup_None_iff [OF ok] new k by simp
  ultimately have ao: "atoms_ok ?a"
    "set (symbols ?a) = insert \<lparr>pr_addr = next_pair a, pr_psc = length (pscs a)\<rparr> (set (symbols a))"
    "\<And>pr. pr \<in> set (symbols a) \<Longrightarrow> sym_key ?a pr = sym_key a pr"
    "sym_key ?a \<lparr>pr_addr = next_pair a, pr_psc = length (pscs a)\<rparr> = (name, arity)"
    using add_symbol_ok [OF ok] by blast+
  have fin: "atoms_ok a' \<and> set (symbols a') = set (symbols ?a) \<and> sym_key a' = sym_key ?a"
    using a' ao(1) expand_symbols_ok [OF ao(1)] sym_key_frame by blast
  have "sym_lookup a' k' = Some x \<longleftrightarrow> sym_lookup a k' = Some x \<or> k' = k \<and> x = p" for k' x
    using fin ao(2-4) sym_lookup_iff [of a' k' x] sym_lookup_iff [OF ok, of k' x] p k by auto
  with fin p show ?thesis by blast
qed

interpretation symbol_table: interner sym_lookup sym_intern atoms_ok
proof
  fix a k p a'
  assume ok: "atoms_ok a" and i: "sym_intern k a = Inr (p, a')"
  have known: "a' = a \<and> p = q" if "sym_lookup a k = Some q" for q
    using that i insert_psc_known by (cases k) (auto simp: sym_intern_def)
  show "atoms_ok a'"
    using known ok sym_intern_new [OF ok _ i] by (cases "sym_lookup a k") auto
  show "sym_lookup a' k = Some p"
  proof (cases "sym_lookup a k")
    case None
    from sym_intern_new [OF ok None i] show ?thesis by blast
  qed (use known in simp)
  show "sym_lookup a' k' = sym_lookup a k'" if "k' \<noteq> k" for k'
  proof (cases "sym_lookup a k")
    case None
    from sym_intern_new [OF ok None i] that
    have "sym_lookup a' k' = Some q \<longleftrightarrow> sym_lookup a k' = Some q" for q by blast
    then show ?thesis by (metis not_Some_eq)
  qed (use known in simp)
next
  show "sym_intern k a = Inr (p, a)" if "sym_lookup a k = Some p" for a k p
    using that insert_psc_known by (cases k) (simp add: sym_intern_def)
next
  fix a k p k'
  assume a: "atoms_ok a" "sym_lookup a k = Some p" "sym_lookup a k' = Some p"
  then have "inj_on pr_addr (set (symbols a))" by (simp add: atoms_ok_def distinct_map)
  then show "k = k'" using a(2,3) unfolding sym_lookup_iff [OF a(1)] by (auto dest: inj_onD)
qed

end
