(* ===== verification/Key_Table.thy ===== *)
theory Key_Table imports XSB_Prelude begin

text \<open>
  The contract of a table with unique keys, and what a client that walks its entries
  can rely on.
\<close>

locale key_table =
  fixes lookup :: "'s \<Rightarrow> 'k \<Rightarrow> 'v option"
    and put :: "'k \<Rightarrow> 'v \<Rightarrow> 's \<Rightarrow> 's"
    and del :: "'k \<Rightarrow> 's \<Rightarrow> 's"
    and entries :: "'s \<Rightarrow> ('k \<times> 'v) list"
    and ok :: "'s \<Rightarrow> bool"
  assumes put_ok: "ok s \<Longrightarrow> lookup s k = None \<Longrightarrow> ok (put k v s)"
    and lookup_put: "ok s \<Longrightarrow> lookup s k = None \<Longrightarrow> lookup (put k v s) = (lookup s)(k \<mapsto> v)"
    and del_ok: "ok s \<Longrightarrow> ok (del k s)"
    and lookup_del: "ok s \<Longrightarrow> lookup (del k s) = (lookup s)(k := None)"
    and entries_lookup: "ok s \<Longrightarrow> map_of (entries s) = lookup s"
    and entries_distinct: "ok s \<Longrightarrow> distinct (map fst (entries s))"
begin

lemma mem_entries: "ok s \<Longrightarrow> (k, v) \<in> set (entries s) \<longleftrightarrow> lookup s k = Some v"
  using entries_lookup [of s] entries_distinct [of s] by (metis map_of_eq_Some_iff)

lemma set_entries: "ok s \<Longrightarrow> set (entries s) = {(k, v). lookup s k = Some v}"
  using mem_entries by auto

lemma entries_put:
  "ok s \<Longrightarrow> lookup s k = None \<Longrightarrow> set (entries (put k v s)) = insert (k, v) (set (entries s))"
  by (auto simp: set_entries put_ok lookup_put split: if_splits)

lemma entries_del: "ok s \<Longrightarrow> set (entries (del k s)) = set (entries s) - {k} \<times> UNIV"
  by (auto simp: set_entries del_ok lookup_del split: if_splits)

lemma length_entries: "ok s \<Longrightarrow> length (entries s) = card (dom (lookup s))"
proof -
  assume ok: "ok s"
  have "dom (lookup s) = fst ` set (entries s)"
    unfolding entries_lookup [OF ok, symmetric] by (rule dom_map_of_conv_image_fst)
  then show ?thesis
    using entries_distinct [OF ok] by (metis distinct_card length_map set_map)
qed

lemma finite_dom: "ok s \<Longrightarrow> finite (dom (lookup s))"
  using entries_lookup [of s] by (metis finite_dom_map_of)

lemma length_put: "ok s \<Longrightarrow> lookup s k = None \<Longrightarrow> length (entries (put k v s)) = Suc (length (entries s))"
proof -
  assume a: "ok s" "lookup s k = None"
  then have "dom (lookup (put k v s)) = insert k (dom (lookup s))" "k \<notin> dom (lookup s)"
    by (auto simp: lookup_put)
  then show ?thesis using a finite_dom [of s] by (simp add: length_entries put_ok)
qed

lemma length_del:
  assumes "ok s" "lookup s k = Some v"
  shows "Suc (length (entries (del k s))) = length (entries s)"
proof -
  have "dom (lookup (del k s)) = dom (lookup s) - {k}" "k \<in> dom (lookup s)"
    using assms by (auto simp: lookup_del split: if_splits)
  then show ?thesis
    using card_Suc_Diff1 [OF finite_dom [OF assms(1)]] assms by (simp add: length_entries del_ok)
qed

text \<open>Putting the pairs of a list in, one after the other, is a map of that list.\<close>

lemma put_all:
  assumes "ok s" "distinct (map fst kvs)" "\<forall>k \<in> set (map fst kvs). lookup s k = None"
  shows "ok (fold (\<lambda>(k, v). put k v) kvs s) \<and>
    lookup (fold (\<lambda>(k, v). put k v) kvs s) = lookup s ++ map_of kvs"
  using assms
proof (induction kvs arbitrary: s)
  case (Cons kv kvs)
  obtain k v where kv: "kv = (k, v)" by (cases kv)
  have n: "lookup s k = None" using Cons.prems kv by simp
  have "\<forall>k' \<in> set (map fst kvs). lookup (put k v s) k' = None"
    using Cons.prems kv n by (auto simp: lookup_put rev_image_eqI)
  then have "ok (fold (\<lambda>(k, v). put k v) kvs (put k v s)) \<and>
    lookup (fold (\<lambda>(k, v). put k v) kvs (put k v s)) = lookup (put k v s) ++ map_of kvs"
    using Cons.IH [OF put_ok [OF Cons.prems(1) n]] Cons.prems kv by simp
  moreover have "(lookup s)(k \<mapsto> v) ++ map_of kvs = lookup s ++ map_of (kv # kvs)"
    using Cons.prems kv by (simp add: map_add_upd_left dom_map_of_conv_image_fst)
  moreover have "fold (\<lambda>(k, v). put k v) (kv # kvs) s = fold (\<lambda>(k, v). put k v) kvs (put k v s)"
    using kv by simp
  ultimately show ?case unfolding lookup_put [OF Cons.prems(1) n] by (simp only:)
qed simp

end

end
