(* ===== verification/Hashtable.thy ===== *)
theory Hashtable imports Chained_Buckets Key_Table begin

text \<open>
  The hash tables of emu/hashtable.c and their iterators of emu/hashtable_itr.c. The hash
  function and the equality test are fields of a table, as in the code. An iterator holds
  the chain from its entry on, the parent of the entry being the one before it in the
  chain. Allocation does not fail: \<open>mem_alloc\<close> ends the program instead.
\<close>

unbundle bit_operations_syntax

section \<open>Tables\<close>

record ('k, 'v) ht_entry =
  he_h :: "32 word"
  he_k :: 'k
  he_v :: 'v

record ('k, 'v) hashtable =
  tablelength :: nat
  ht_table :: "('k, 'v) ht_entry list list"
  entrycount :: nat
  loadlimit :: nat
  primeindex :: nat
  hashfn :: "'k \<Rightarrow> 32 word"
  eqfn :: "'k \<Rightarrow> 'k \<Rightarrow> bool"

definition ht_primes :: "nat list" where
  "ht_primes = [2, 17, 53, 97, 193, 389, 769, 1543, 3079, 6151, 12289, 24593, 49157, 98317,
    196613, 393241, 786433, 1572869, 3145739, 6291469, 12582917, 25165843, 50331653, 100663319,
    201326611, 402653189, 805306457, 1610612741]"

text \<open>\<open>ceil(size * 0.65)\<close>; no size is near a multiple of 20, so the rounding of the double does not matter.\<close>

definition load_limit :: "nat \<Rightarrow> nat" where
  "load_limit n = (13 * n + 19) div 20"

fun find_prime :: "nat \<Rightarrow> nat list \<Rightarrow> nat \<Rightarrow> nat \<times> nat" where
  "find_prime minsize [] i = (i, 2)"
| "find_prime minsize (p # ps) i = (if minsize \<le> p then (i, p) else find_prime minsize ps (Suc i))"

definition create_hashtable1 ::
    "nat \<Rightarrow> ('k \<Rightarrow> 32 word) \<Rightarrow> ('k \<Rightarrow> 'k \<Rightarrow> bool) \<Rightarrow> ('k, 'v) hashtable option" where
  "create_hashtable1 minsize hashf eqf =
    (if 2 ^ 30 < minsize then None
     else
       (let (pindex, n) = find_prime minsize ht_primes 0 in
        Some \<lparr>tablelength = n, ht_table = replicate n [], entrycount = 0, loadlimit = load_limit n,
          primeindex = pindex, hashfn = hashf, eqfn = eqf\<rparr>))"

definition hash1 :: "('k, 'v) hashtable \<Rightarrow> 'k \<Rightarrow> 32 word" where
  "hash1 h k =
    (let i = hashfn h k;
         i = i + NOT (push_bit 9 i);
         i = i XOR (drop_bit 14 i OR push_bit 18 i);
         i = i + push_bit 4 i in
     i XOR (drop_bit 10 i OR push_bit 22 i))"

definition indexFor :: "nat \<Rightarrow> 32 word \<Rightarrow> nat" where
  "indexFor n hashvalue = unat hashvalue mod n"

definition hashtable1_expand :: "('k, 'v) hashtable \<Rightarrow> ('k, 'v) hashtable" where
  "hashtable1_expand h =
    (if primeindex h = length ht_primes - 1 then h
     else
       (let newsize = ht_primes ! Suc (primeindex h) in
        h\<lparr>primeindex := Suc (primeindex h),
          ht_table := rehash (\<lambda>e. indexFor newsize (he_h e)) newsize (ht_table h),
          tablelength := newsize, loadlimit := load_limit newsize\<rparr>))"

definition hashtable1_count :: "('k, 'v) hashtable \<Rightarrow> nat" where
  "hashtable1_count h = entrycount h"

definition hashtable1_insert :: "'k \<Rightarrow> 'v \<Rightarrow> ('k, 'v) hashtable \<Rightarrow> ('k, 'v) hashtable" where
  "hashtable1_insert k v h =
    (let h = h\<lparr>entrycount := Suc (entrycount h)\<rparr>;
         h = (if loadlimit h < entrycount h then hashtable1_expand h else h);
         e = \<lparr>he_h = hash1 h k, he_k = k, he_v = v\<rparr>;
         index = indexFor (tablelength h) (he_h e) in
     h\<lparr>ht_table := (ht_table h)[index := e # ht_table h ! index]\<rparr>)"

definition ht_match :: "('k, 'v) hashtable \<Rightarrow> 'k \<Rightarrow> ('k, 'v) ht_entry \<Rightarrow> bool" where
  "ht_match h k e \<longleftrightarrow> hash1 h k = he_h e \<and> eqfn h k (he_k e)"

definition ht_chain :: "('k, 'v) hashtable \<Rightarrow> 'k \<Rightarrow> ('k, 'v) ht_entry list" where
  "ht_chain h k = ht_table h ! indexFor (tablelength h) (hash1 h k)"

definition hashtable1_search :: "('k, 'v) hashtable \<Rightarrow> 'k \<Rightarrow> 'v option" where
  "hashtable1_search h k = map_option he_v (find (ht_match h k) (ht_chain h k))"

fun remove_first :: "('e \<Rightarrow> bool) \<Rightarrow> 'e list \<Rightarrow> 'e list" where
  "remove_first P [] = []"
| "remove_first P (e # es) = (if P e then es else e # remove_first P es)"

definition hashtable1_remove :: "'k \<Rightarrow> ('k, 'v) hashtable \<Rightarrow> 'v option \<times> ('k, 'v) hashtable" where
  "hashtable1_remove k h =
    (case find (ht_match h k) (ht_chain h k) of
       None \<Rightarrow> (None, h)
     | Some e \<Rightarrow>
        (Some (he_v e),
         h\<lparr>ht_table := (ht_table h)[indexFor (tablelength h) (hash1 h k) := remove_first (ht_match h k) (ht_chain h k)],
           entrycount := entrycount h - 1\<rparr>))"

section \<open>Iterators\<close>

record ('k, 'v) ht_itr =
  itr_index :: nat
  itr_rest :: "('k, 'v) ht_entry list"     \<comment> \<open>from \<open>e\<close> to the end of its chain; empty for a null \<open>e\<close>\<close>

fun first_chain :: "nat \<Rightarrow> ('k, 'v) ht_entry list list \<Rightarrow> ('k, 'v) ht_itr option" where
  "first_chain i [] = None"
| "first_chain i (c # t) = (if c \<noteq> [] then Some \<lparr>itr_index = i, itr_rest = c\<rparr> else first_chain (Suc i) t)"

definition itr_end :: "('k, 'v) hashtable \<Rightarrow> ('k, 'v) ht_itr" where
  "itr_end h = \<lparr>itr_index = tablelength h, itr_rest = []\<rparr>"

definition hashtable1_iterator :: "('k, 'v) hashtable \<Rightarrow> ('k, 'v) ht_itr" where
  "hashtable1_iterator h =
    (if entrycount h = 0 then itr_end h
     else case first_chain 0 (ht_table h) of Some it \<Rightarrow> it | None \<Rightarrow> itr_end h)"

definition hashtable1_iterator_key :: "('k, 'v) ht_itr \<Rightarrow> 'k res" where
  "hashtable1_iterator_key it = (case itr_rest it of [] \<Rightarrow> Inl Null_Pointer | e # _ \<Rightarrow> Inr (he_k e))"

definition hashtable1_iterator_value :: "('k, 'v) ht_itr \<Rightarrow> 'v res" where
  "hashtable1_iterator_value it = (case itr_rest it of [] \<Rightarrow> Inl Null_Pointer | e # _ \<Rightarrow> Inr (he_v e))"

text \<open>The result says whether there was a next entry.\<close>

definition hashtable1_iterator_advance ::
    "('k, 'v) hashtable \<Rightarrow> ('k, 'v) ht_itr \<Rightarrow> bool \<times> ('k, 'v) ht_itr" where
  "hashtable1_iterator_advance h it =
    (case itr_rest it of
       [] \<Rightarrow> (False, it)
     | e # rest \<Rightarrow>
        if rest \<noteq> [] then (True, it\<lparr>itr_rest := rest\<rparr>)
        else if tablelength h \<le> Suc (itr_index it)
        then (False, \<lparr>itr_index = Suc (itr_index it), itr_rest = []\<rparr>)
        else (case first_chain (Suc (itr_index it)) (drop (Suc (itr_index it)) (ht_table h)) of
                Some it' \<Rightarrow> (True, it') | None \<Rightarrow> (False, itr_end h)))"

definition hashtable1_iterator_remove ::
    "('k, 'v) hashtable \<Rightarrow> ('k, 'v) ht_itr \<Rightarrow> (bool \<times> ('k, 'v) hashtable \<times> ('k, 'v) ht_itr) res" where
  "hashtable1_iterator_remove h it =
    (case itr_rest it of
       [] \<Rightarrow> Inl Null_Pointer
     | e # rest \<Rightarrow>
        (let c = ht_table h ! itr_index it;
             h' = h\<lparr>ht_table := (ht_table h)[itr_index it := take (length c - length (e # rest)) c @ rest],
                    entrycount := entrycount h - 1\<rparr>;
             (more, it') = hashtable1_iterator_advance h' it in
         Inr (more, h', it')))"

definition hashtable1_iterator_search ::
    "('k, 'v) hashtable \<Rightarrow> 'k \<Rightarrow> ('k, 'v) ht_itr option" where
  "hashtable1_iterator_search h k =
    (case dropWhile (\<lambda>e. \<not> ht_match h k e) (ht_chain h k) of
       [] \<Rightarrow> None
     | rest \<Rightarrow> Some \<lparr>itr_index = indexFor (tablelength h) (hash1 h k), itr_rest = rest\<rparr>)"

text \<open>A walk with \<open>hashtable1_iterator_advance\<close>: the entries it comes to, in order.\<close>

definition itr_left :: "('k, 'v) hashtable \<Rightarrow> ('k, 'v) ht_itr \<Rightarrow> ('k, 'v) ht_entry list" where
  "itr_left h it = itr_rest it @ concat (drop (Suc (itr_index it)) (ht_table h))"

definition ht_entries :: "('k, 'v) hashtable \<Rightarrow> ('k, 'v) ht_entry list" where
  "ht_entries h = concat (ht_table h)"

lemma first_chain_Some:
  "first_chain i t = Some it \<Longrightarrow> itr_rest it @ concat (drop (Suc (itr_index it) - i) t) = concat t \<and>
     itr_rest it \<noteq> [] \<and> i \<le> itr_index it \<and> itr_index it < i + length t \<and> t ! (itr_index it - i) = itr_rest it"
proof (induction t arbitrary: i)
  case (Cons c t)
  show ?case
  proof (cases "c = []")
    case True
    with Cons.prems have "first_chain (Suc i) t = Some it" by simp
    from Cons.IH [OF this] True show ?thesis by (auto simp: Suc_diff_le nth_Cons' drop_Cons')
  qed (use Cons.prems in auto)
qed simp

lemma first_chain_None: "first_chain i t = None \<Longrightarrow> concat t = []"
  by (induction t arbitrary: i) (auto split: if_splits)

text \<open>Whatever the table, a step of an iterator has fewer entries left, and a new one at most all.\<close>

lemma advance_left:
  assumes "hashtable1_iterator_advance h it = (go, it')" "itr_rest it \<noteq> []"
  shows "length (itr_left h it') < length (itr_left h it)"
proof -
  obtain e rest where r: "itr_rest it = e # rest" using assms(2) by (cases "itr_rest it") auto
  let ?j = "Suc (itr_index it)"
  show ?thesis
  proof (cases "rest = [] \<and> ?j < tablelength h")
    case False
    have "length (concat (drop (Suc n) t)) \<le> length (concat (drop n t))" for n and t :: "'x list list"
      by (cases "drop n t") (simp_all add: drop_Suc flip: tl_drop)
    with False assms r show ?thesis
      by (auto simp: hashtable1_iterator_advance_def itr_left_def less_Suc_eq_le split: if_splits)
  next
    case True
    show ?thesis
    proof (cases "first_chain ?j (drop ?j (ht_table h))")
      case None
      then have n: "concat (drop ?j (ht_table h)) = []" by (rule first_chain_None)
      have "concat (drop (Suc (tablelength h)) (ht_table h)) = []"
      proof -
        have "set (drop (Suc (tablelength h)) (ht_table h)) \<subseteq> set (drop ?j (ht_table h))"
          using True by (intro set_drop_subset_set_drop) simp
        with n show ?thesis by auto
      qed
      then have "itr_left h (itr_end h) = []" by (simp only: itr_left_def itr_end_def ht_itr.simps append_Nil)
      moreover have "it' = itr_end h" using assms r True None
        by (simp add: hashtable1_iterator_advance_def)
      ultimately have "itr_left h it' = []" by metis
      moreover have "itr_left h it \<noteq> []" using r by (simp add: itr_left_def)
      ultimately show ?thesis by (simp only: list.size(3) length_greater_0_conv not_False_eq_True)
    next
      case (Some it'')
      note f = first_chain_Some [OF Some]
      have "it' = it''" using assms r True Some
        by (auto simp: hashtable1_iterator_advance_def split: if_splits)
      moreover have "drop (Suc (itr_index it'') - ?j) (drop ?j (ht_table h)) = drop (Suc (itr_index it'')) (ht_table h)"
        using f by simp
      ultimately have "itr_left h it' = concat (drop ?j (ht_table h))"
        using f unfolding itr_left_def by metis
      then show ?thesis using r by (simp add: itr_left_def)
    qed
  qed
qed

lemma iterator_left: "length (itr_left h (hashtable1_iterator h)) \<le> length (ht_entries h)"
proof -
  have e: "length (itr_left h (itr_end h)) \<le> length (ht_entries h)"
    by (simp add: itr_left_def itr_end_def ht_entries_def)
      (metis append_take_drop_id concat_append le_add2 length_append length_concat)
  show ?thesis
  proof (cases "first_chain 0 (ht_table h)")
    case (Some it)
    have "length (itr_left h it) \<le> length (ht_entries h)"
      using first_chain_Some [OF Some] by (simp add: itr_left_def ht_entries_def)
    with e Some show ?thesis by (simp add: hashtable1_iterator_def)
  qed (use e in \<open>simp add: hashtable1_iterator_def\<close>)
qed

text \<open>
  The loop that the clients write, over a table they do not change on the way:
  \<open>if (hashtable1_count(h) > 0) do { ... hashtable1_iterator_value(itr) ... } while
  (hashtable1_iterator_advance(itr));\<close>. \<open>walk_values\<close> lists the values it comes to.
\<close>

function itr_values :: "('k, 'v) hashtable \<Rightarrow> ('k, 'v) ht_itr \<Rightarrow> 'v list res" where
  "itr_values h it =
    res_bind (hashtable1_iterator_value it) (\<lambda>v.
      let (go, it') = hashtable1_iterator_advance h it in
      if go then res_bind (itr_values h it') (\<lambda>vs. Inr (v # vs)) else Inr [v])"
  by pat_completeness auto

termination
  apply (relation "measure (\<lambda>(h, it). length (itr_left h it))")
   apply simp
  subgoal for h it v p go it'
    using advance_left [of h it go it'] by (auto simp: hashtable1_iterator_value_def split: list.splits)
  done

declare itr_values.simps [simp del]

definition walk_values :: "('k, 'v) hashtable \<Rightarrow> 'v list res" where
  "walk_values h = (if 0 < hashtable1_count h then itr_values h (hashtable1_iterator h) else Inr [])"

section \<open>The chain of all tables\<close>

text \<open>
  \<open>incr_hashtable_chain\<close> with the \<open>next\<close> and \<open>prev\<close> fields of the tables, by their
  addresses: what creating and destroying a table do to it.
\<close>

record table_chain =
  ch_head :: "nat option"
  ch_next :: "nat \<Rightarrow> nat option"
  ch_prev :: "nat \<Rightarrow> nat option"

definition chain_create :: "nat \<Rightarrow> table_chain \<Rightarrow> table_chain" where
  "chain_create p c =
    (let c = c\<lparr>ch_prev := (ch_prev c)(p := None), ch_next := (ch_next c)(p := ch_head c), ch_head := Some p\<rparr> in
     case ch_next c p of None \<Rightarrow> c | Some q \<Rightarrow> c\<lparr>ch_prev := (ch_prev c)(q := Some p)\<rparr>)"

definition chain_destroy :: "nat \<Rightarrow> table_chain \<Rightarrow> table_chain" where
  "chain_destroy p c =
    (let c = (case ch_prev c p of
                Some q \<Rightarrow> c\<lparr>ch_next := (ch_next c)(q := ch_next c p)\<rparr>
              | None \<Rightarrow> c\<lparr>ch_head := ch_next c p\<rparr>) in
     case ch_next c p of None \<Rightarrow> c | Some q \<Rightarrow> c\<lparr>ch_prev := (ch_prev c)(q := ch_prev c p)\<rparr>)"

text \<open>\<open>hashtable1_destroy_all\<close> with an amount of steps that its caller knows to be enough.\<close>

fun destroy_all :: "nat \<Rightarrow> table_chain \<Rightarrow> table_chain option" where
  "destroy_all n c =
    (case ch_head c of
       None \<Rightarrow> Some c
     | Some p \<Rightarrow> (case n of 0 \<Rightarrow> None | Suc n \<Rightarrow> destroy_all n (chain_destroy p c)))"

end
