(* ===== verification/Hashtable_Laws.thy ===== *)
theory Hashtable_Laws imports Hashtable begin

text \<open>
  The invariant of a hash table, its contract as a table with unique keys, and the walks
  of its iterators.
\<close>

section \<open>The invariant\<close>

definition ht_index :: "nat \<Rightarrow> ('k, 'v) ht_entry \<Rightarrow> nat" where
  "ht_index n e = indexFor n (he_h e)"

lemma ht_index_eq: "(\<lambda>e. indexFor n (he_h e)) = ht_index n"
  by (simp add: fun_eq_iff ht_index_def)

definition ht_ok :: "('k, 'v) hashtable \<Rightarrow> bool" where
  "ht_ok h \<longleftrightarrow> eqfn h = (=) \<and> primeindex h < length ht_primes \<and> tablelength h = ht_primes ! primeindex h \<and>
     length (ht_table h) = tablelength h \<and> placed (ht_index (tablelength h)) (ht_table h) \<and>
     (\<forall>e \<in> set (ht_entries h). he_h e = hash1 h (he_k e)) \<and> distinct (map he_k (ht_entries h)) \<and>
     entrycount h = length (ht_entries h)"

lemma ht_okD:
  assumes "ht_ok h"
  shows "eqfn h = (=)" "tablelength h = ht_primes ! primeindex h" "length (ht_table h) = tablelength h"
    "placed (ht_index (tablelength h)) (ht_table h)"
    "\<forall>e \<in> set (ht_entries h). he_h e = hash1 h (he_k e)" "distinct (map he_k (ht_entries h))"
    "entrycount h = length (ht_entries h)" "primeindex h < length ht_primes"
  using assms unfolding ht_ok_def by blast+

lemma primes_positive: "i < length ht_primes \<Longrightarrow> 1 < ht_primes ! i"
proof -
  have "\<forall>p \<in> set ht_primes. 1 < p" by (simp add: ht_primes_def)
  then show "i < length ht_primes \<Longrightarrow> 1 < ht_primes ! i" using nth_mem by blast
qed

lemma tablelength_pos: "ht_ok h \<Longrightarrow> 1 < tablelength h"
  using primes_positive by (simp add: ht_ok_def)

lemma indexFor_less: "0 < n \<Longrightarrow> indexFor n w < n"
  by (simp add: indexFor_def)

lemma hash1_frame: "hashfn h' = hashfn h \<Longrightarrow> hash1 h' = hash1 h"
  by (simp add: fun_eq_iff hash1_def)

lemma concat_replicate_Nil [simp]: "concat (replicate n []) = []"
  by (induction n) auto

lemma find_prime_index:
  "\<exists>q \<in> set ps. minsize \<le> q \<Longrightarrow> find_prime minsize ps j = (i, p) \<Longrightarrow>
     j \<le> i \<and> i - j < length ps \<and> p = ps ! (i - j) \<and> minsize \<le> p"
proof (induction minsize ps j rule: find_prime.induct)
  case (2 minsize q ps j)
  show ?case
  proof (cases "minsize \<le> q")
    case False
    with 2 have "Suc j \<le> i \<and> i - Suc j < length ps \<and> p = ps ! (i - Suc j) \<and> minsize \<le> p" by auto
    moreover from this have "i - j = Suc (i - Suc j)" by (metis Suc_diff_Suc Suc_le_eq)
    ultimately show ?thesis by simp
  qed (use 2 in auto)
qed simp

lemma create_ok:
  assumes "create_hashtable1 minsize hashf (=) = Some h"
  shows "ht_ok h \<and> ht_entries h = [] \<and> minsize \<le> tablelength h \<and> entrycount h = 0"
proof -
  obtain i p where f: "find_prime minsize ht_primes 0 = (i, p)" by (cases "find_prime minsize ht_primes 0")
  have m: "minsize \<le> 2 ^ 30" using assms by (simp add: create_hashtable1_def split: if_splits)
  have "minsize \<le> 1610612741" by (rule order_trans [OF m]) simp
  moreover have "1610612741 \<in> set ht_primes" by (simp add: ht_primes_def)
  ultimately have "\<exists>q \<in> set ht_primes. minsize \<le> q" by blast
  from find_prime_index [OF this f] have i: "i < length ht_primes" "p = ht_primes ! i" "minsize \<le> p"
    by simp_all
  have h: "h = \<lparr>tablelength = p, ht_table = replicate p [], entrycount = 0, loadlimit = load_limit p,
      primeindex = i, hashfn = hashf, eqfn = (=)\<rparr>"
    using assms m unfolding create_hashtable1_def f by simp
  show ?thesis unfolding ht_ok_def ht_entries_def h using i by simp
qed

lemma chain_mem:
  assumes ok: "ht_ok h"
  shows "e \<in> set (ht_chain h k) \<and> ht_match h k e \<longleftrightarrow> e \<in> set (ht_entries h) \<and> he_k e = k"
proof -
  let ?i = "indexFor (tablelength h) (hash1 h k)"
  have i: "?i < length (ht_table h)" using ok tablelength_pos [OF ok] by (simp add: ht_ok_def indexFor_less)
  have "placed (ht_index (tablelength h)) (ht_table h)" using ok unfolding ht_ok_def by blast
  from placed_bucket [OF this i, of e] have c: "e \<in> set (ht_chain h k) \<longleftrightarrow>
      e \<in> set (ht_entries h) \<and> indexFor (tablelength h) (he_h e) = ?i"
    by (simp add: ht_chain_def ht_entries_def ht_index_def)
  show ?thesis
  proof (cases "e \<in> set (ht_entries h)")
    case True
    then have "he_h e = hash1 h (he_k e)" using ok by (simp add: ht_ok_def)
    moreover have "eqfn h = (=)" using ok by (simp add: ht_ok_def)
    ultimately show ?thesis using c True by (auto simp: ht_match_def)
  qed (use c in blast)
qed

lemma search_iff:
  assumes ok: "ht_ok h"
  shows "hashtable1_search h k = Some v \<longleftrightarrow> (\<exists>e \<in> set (ht_entries h). he_k e = k \<and> he_v e = v)"
proof -
  have inj: "inj_on he_k (set (ht_entries h))" using ok by (simp add: ht_ok_def distinct_map)
  show ?thesis
  proof (cases "find (ht_match h k) (ht_chain h k)")
    case None
    then have "\<not> (\<exists>e \<in> set (ht_entries h). he_k e = k)"
      using chain_mem [OF ok, of _ k] by (auto simp: find_None_iff)
    with None show ?thesis by (auto simp: hashtable1_search_def)
  next
    case (Some e)
    then have e: "e \<in> set (ht_entries h)" "he_k e = k"
      using chain_mem [OF ok, of e k] by (auto simp: find_Some_iff)
    have s: "hashtable1_search h k = Some (he_v e)" using Some by (simp add: hashtable1_search_def)
    show ?thesis
    proof
      assume "hashtable1_search h k = Some v"
      with s e show "\<exists>e \<in> set (ht_entries h). he_k e = k \<and> he_v e = v" by (intro bexI [of _ e]) simp_all
    next
      assume "\<exists>e \<in> set (ht_entries h). he_k e = k \<and> he_v e = v"
      then obtain e' where e': "e' \<in> set (ht_entries h)" "he_k e' = k" "he_v e' = v" by blast
      then have "e' = e" using inj_onD [OF inj _ e'(1) e(1)] e(2) by simp
      with s e' show "hashtable1_search h k = Some v" by simp
    qed
  qed
qed

lemma search_None_iff:
  assumes "ht_ok h"
  shows "hashtable1_search h k = None \<longleftrightarrow> k \<notin> he_k ` set (ht_entries h)"
proof -
  have "(\<exists>v. hashtable1_search h k = Some v) \<longleftrightarrow> k \<in> he_k ` set (ht_entries h)"
    unfolding search_iff [OF assms] by blast
  then show ?thesis by (metis not_None_eq)
qed

section \<open>Growing\<close>

lemma expand_laws:
  assumes ok: "ht_ok (h\<lparr>entrycount := n\<rparr>)"
  defines "h' \<equiv> hashtable1_expand h"
  shows "ht_ok (h'\<lparr>entrycount := n\<rparr>)" "set (ht_entries h') = set (ht_entries h)"
    "hashfn h' = hashfn h" "entrycount h' = entrycount h"
proof -
  show "hashfn h' = hashfn h" "entrycount h' = entrycount h"
    by (simp_all add: h'_def hashtable1_expand_def Let_def)
  show "set (ht_entries h') = set (ht_entries h)" "ht_ok (h'\<lparr>entrycount := n\<rparr>)"
  proof (atomize(full), cases "primeindex h = length ht_primes - 1")
    case True
    then show "set (ht_entries h') = set (ht_entries h) \<and> ht_ok (h'\<lparr>entrycount := n\<rparr>)"
      using ok by (simp add: h'_def hashtable1_expand_def)
  next
    case False
    let ?p = "Suc (primeindex h)"
    let ?n = "ht_primes ! ?p"
    have p: "?p < length ht_primes" using ok False by (auto simp: ht_ok_def)
    have b: "\<forall>e \<in> set (concat (ht_table h)). ht_index ?n e < ?n"
      using primes_positive [OF p] by (simp add: ht_index_def indexFor_less)
    have t: "ht_table h' = rehash (ht_index ?n) ?n (ht_table h)"
      using False by (simp add: h'_def hashtable1_expand_def Let_def ht_index_eq)
    have f: "primeindex h' = ?p" "tablelength h' = ?n" "eqfn h' = eqfn h" "hashfn h' = hashfn h"
      using False by (simp_all add: h'_def hashtable1_expand_def Let_def)
    have m: "mset (ht_entries h') = mset (ht_entries h)"
      using rehash_ok(3) [OF b] by (simp add: t ht_entries_def)
    then have s: "length (ht_entries h') = length (ht_entries h)" "set (ht_entries h') = set (ht_entries h)"
      by (metis size_mset) (metis m set_mset_mset)
    have e: "ht_entries (x\<lparr>entrycount := n\<rparr>) = ht_entries x" "hash1 (x\<lparr>entrycount := n\<rparr>) = hash1 x"
      for x :: "('a, 'b) hashtable"
      by (simp_all add: ht_entries_def fun_eq_iff hash1_def)
    have "ht_ok (h'\<lparr>entrycount := n\<rparr>)"
      using ok p f t s rehash_ok(1,2) [OF b] distinct_mset_map [OF m, of he_k] hash1_frame [OF f(4)]
      unfolding ht_ok_def e by simp
    with s show "set (ht_entries h') = set (ht_entries h) \<and> ht_ok (h'\<lparr>entrycount := n\<rparr>)" by simp
  qed
qed


section \<open>Inserting\<close>

lemma insert_laws:
  assumes ok: "ht_ok h" and new: "k \<notin> he_k ` set (ht_entries h)"
  shows "ht_ok (hashtable1_insert k v h)"
    "set (ht_entries (hashtable1_insert k v h)) = insert \<lparr>he_h = hash1 h k, he_k = k, he_v = v\<rparr> (set (ht_entries h))"
proof -
  let ?h0 = "h\<lparr>entrycount := Suc (entrycount h)\<rparr>"
  define h1 where "h1 = (if loadlimit ?h0 < entrycount ?h0 then hashtable1_expand ?h0 else ?h0)"
  let ?c = "entrycount h"
  have e: "ht_entries (x\<lparr>entrycount := n\<rparr>) = ht_entries x" "hash1 (x\<lparr>entrycount := n\<rparr>) = hash1 x"
    for x :: "('a, 'b) hashtable" and n
    by (simp_all add: ht_entries_def fun_eq_iff hash1_def)
  have "ht_ok (?h0\<lparr>entrycount := ?c\<rparr>)" using ok by simp
  then have h1: "ht_ok (h1\<lparr>entrycount := ?c\<rparr>)" "set (ht_entries h1) = set (ht_entries h)"
    "hashfn h1 = hashfn h" "entrycount h1 = Suc ?c"
    using expand_laws [of ?c ?h0] by (simp_all add: h1_def e)
  have hash: "hash1 h1 = hash1 h" using h1(3) by (rule hash1_frame)
  let ?e = "\<lparr>he_h = hash1 h k, he_k = k, he_v = v\<rparr>" and ?n = "tablelength h1"
  let ?h = "hashtable1_insert k v h"
  have h: "?h = h1\<lparr>ht_table := push_entry (ht_index ?n) ?e (ht_table h1)\<rparr>"
    unfolding hashtable1_insert_def Let_def h1_def [symmetric] push_entry_def ht_index_def
    by (simp add: hash)
  have n: "1 < ?n" "length (ht_table h1) = ?n"
    using tablelength_pos [OF h1(1)] h1(1) by (simp_all add: ht_ok_def)
  have "ht_index ?n ?e < length (ht_table h1)" using n by (simp add: ht_index_def indexFor_less)
  then have m: "mset (ht_entries ?h) = mset (?e # ht_entries h1)"
    using mset_push [of "ht_index ?n"] by (simp add: h ht_entries_def)
  show s: "set (ht_entries ?h) = insert ?e (set (ht_entries h))"
    using m h1(2) by (metis list.simps(15) set_mset_mset)
  have hh: "hash1 ?h = hash1 h" using hash by (simp add: h fun_eq_iff hash1_def)
  have "distinct (map he_k (ht_entries ?h))"
    using distinct_mset_map [OF m, of he_k] h1(1,2) new by (simp add: ht_ok_def e)
  moreover have "length (ht_entries ?h) = Suc ?c"
    using m h1(1) by (metis (no_types, lifting) e(1) ht_ok_def hashtable.select_convs(3)
        hashtable.update_convs(3) length_Cons size_mset hashtable.surjective)
  moreover have "placed (ht_index ?n) (ht_table ?h)"
    using placed_push [of "ht_index ?n" "ht_table h1" ?e] ht_okD(4) [OF h1(1)] unfolding h
    by (simp)
  moreover have "\<forall>x \<in> set (ht_entries ?h). he_h x = hash1 ?h (he_k x)"
    using ok unfolding s hh by (simp add: ht_ok_def)
  ultimately show "ht_ok ?h"
    using h1 n unfolding ht_ok_def by (simp add: h)
qed

section \<open>Removing\<close>

lemma remove_first_unique:
  "distinct (map f es) \<Longrightarrow> e \<in> set es \<Longrightarrow> (\<And>x. x \<in> set es \<Longrightarrow> P x \<longleftrightarrow> f x = f e) \<Longrightarrow>
     remove_first P es = filter (\<lambda>x. f x \<noteq> f e) es"
proof (induction es)
  case (Cons x es)
  show ?case
  proof (cases "f x = f e")
    case True
    have "\<forall>y \<in> set es. f y \<noteq> f e"
    proof
      fix y assume "y \<in> set es"
      then have "f y \<in> f ` set es" by simp
      with True Cons.prems(1) show "f y \<noteq> f e" by auto
    qed
    then have "filter (\<lambda>x. f x \<noteq> f e) es = es" by (simp add: filter_id_conv)
    with True Cons.prems show ?thesis by simp
  next
    case False
    with Cons show ?thesis by auto
  qed
qed simp

lemma filter_one_less:
  "distinct (map f es) \<Longrightarrow> e \<in> set es \<Longrightarrow> Suc (length (filter (\<lambda>x. f x \<noteq> f e) es)) = length es"
proof (induction es)
  case (Cons x es)
  show ?case
  proof (cases "e = x")
    case True
    with Cons.prems have "f e \<notin> f ` set es" by simp
    then have "\<forall>y \<in> set es. f y \<noteq> f e" by (metis imageI)
    then have "filter (\<lambda>y. f y \<noteq> f e) es = es" by (simp add: filter_id_conv)
    with True show ?thesis by simp
  next
    case False
    with Cons.prems have "e \<in> set es" "f x \<noteq> f e" by auto
    with Cons show ?thesis by simp
  qed
qed simp

lemma concat_update_filter:
  "i < length t \<Longrightarrow> (\<And>j x. j < length t \<Longrightarrow> j \<noteq> i \<Longrightarrow> x \<in> set (t ! j) \<Longrightarrow> P x) \<Longrightarrow>
     concat (t[i := filter P (t ! i)]) = filter P (concat t)"
proof (induction t arbitrary: i)
  case (Cons c t)
  show ?case
  proof (cases i)
    case 0
    have "filter P d = d" if "d \<in> set t" for d
    proof -
      from that obtain j where "j < length t" "d = t ! j" by (metis in_set_conv_nth)
      then show ?thesis using Cons.prems(2) [of "Suc j"] 0 by (simp add: filter_id_conv)
    qed
    then have "map (filter P) t = t" by (simp add: map_idI)
    with 0 show ?thesis by (simp add: filter_concat)
  next
    case (Suc i')
    have "filter P c = c" using Cons.prems(2) [of 0] Suc by (simp add: filter_id_conv)
    moreover have "concat (t[i' := filter P (t ! i')]) = filter P (concat t)"
      using Cons.IH [of i'] Cons.prems Suc by (metis Suc_less_eq Suc_inject length_Cons nth_Cons_Suc)
    ultimately show ?thesis using Suc by simp
  qed
qed simp

lemma placed_filter: "placed ix t \<Longrightarrow> placed ix (t[i := filter P (t ! i)])"
  unfolding placed_def by (cases "i < length t") (simp_all add: nth_list_update)

lemma remove_laws:
  assumes ok: "ht_ok h"
  shows "fst (hashtable1_remove k h) = hashtable1_search h k"
    "ht_ok (snd (hashtable1_remove k h))"
    "ht_entries (snd (hashtable1_remove k h)) = filter (\<lambda>e. he_k e \<noteq> k) (ht_entries h)"
proof -
  show "fst (hashtable1_remove k h) = hashtable1_search h k"
    by (simp add: hashtable1_remove_def hashtable1_search_def split: option.split)
  show "ht_entries (snd (hashtable1_remove k h)) = filter (\<lambda>e. he_k e \<noteq> k) (ht_entries h)"
    "ht_ok (snd (hashtable1_remove k h))"
  proof (atomize(full), cases "find (ht_match h k) (ht_chain h k)")
    case None
    then have "\<forall>e \<in> set (ht_entries h). he_k e \<noteq> k"
      using chain_mem [OF ok, of _ k] by (auto simp: find_None_iff)
    with None ok show "ht_entries (snd (hashtable1_remove k h)) = filter (\<lambda>e. he_k e \<noteq> k) (ht_entries h) \<and>
        ht_ok (snd (hashtable1_remove k h))"
      by (simp add: hashtable1_remove_def filter_id_conv)
  next
    case (Some e)
    then have e: "e \<in> set (ht_chain h k)" "ht_match h k e" by (auto simp: find_Some_iff)
    then have k: "he_k e = k" "e \<in> set (ht_entries h)" using chain_mem [OF ok, of e k] by simp_all
    let ?i = "indexFor (tablelength h) (hash1 h k)" and ?h = "snd (hashtable1_remove k h)"
    let ?P = "\<lambda>e. he_k e \<noteq> k"
    have pl: "placed (ht_index (tablelength h)) (ht_table h)" using ht_okD(4) [OF ok] .
    have i: "?i < length (ht_table h)" using ok tablelength_pos [OF ok] by (simp add: ht_ok_def indexFor_less)
    have "distinct (map he_k (ht_chain h k))"
      using distinct_bucket [of he_k "ht_table h", OF _ i] ok by (simp add: ht_ok_def ht_entries_def ht_chain_def)
    moreover have "ht_match h k x \<longleftrightarrow> he_k x = he_k e" if "x \<in> set (ht_chain h k)" for x
      using ok that k(1) chain_mem [OF ok, of x k] mem_concat [of x "ht_table h"] i
      by (auto simp: ht_chain_def ht_entries_def)
    ultimately have r: "remove_first (ht_match h k) (ht_chain h k) = filter ?P (ht_table h ! ?i)"
      using remove_first_unique [of he_k "ht_chain h k" e "ht_match h k"] e(1) k(1)
      by (simp add: ht_chain_def)
    have h: "?h = h\<lparr>ht_table := (ht_table h)[?i := filter ?P (ht_table h ! ?i)], entrycount := entrycount h - 1\<rparr>"
      using Some r by (simp add: hashtable1_remove_def)
    have other: "he_k x \<noteq> k" if "j < length (ht_table h)" "j \<noteq> ?i" "x \<in> set (ht_table h ! j)" for j x
    proof
      assume "he_k x = k"
      moreover have "x \<in> set (ht_entries h)" using that mem_concat by (auto simp: ht_entries_def)
      ultimately have "he_h x = hash1 h k" using ok by (simp add: ht_ok_def)
      moreover have "ht_index (tablelength h) x = j" using ok that unfolding ht_ok_def placed_def by blast
      ultimately show False using that(2) by (simp add: ht_index_def)
    qed
    have ents: "ht_entries ?h = filter ?P (ht_entries h)"
      using concat_update_filter [OF i, of ?P] other by (simp add: h ht_entries_def)
    have hh: "hash1 ?h = hash1 h" by (rule hash1_frame) (simp add: h)
    have "length (filter ?P (ht_entries h)) = entrycount h - 1"
      using filter_one_less [of he_k "ht_entries h" e] ok k by (simp add: ht_ok_def)
    moreover have "placed (ht_index (tablelength h)) (ht_table ?h)"
      using placed_filter [OF pl] by (simp add: h)
    moreover have "distinct (map he_k (filter ?P (ht_entries h)))"
      using ok by (simp add: ht_ok_def distinct_map_filter)
    ultimately have "ht_ok ?h"
      using ok unfolding ht_ok_def ents hh by (simp add: h)
    with ents show "ht_entries ?h = filter ?P (ht_entries h) \<and> ht_ok ?h" by simp
  qed
qed


section \<open>The contract\<close>

definition ht_del :: "'k \<Rightarrow> ('k, 'v) hashtable \<Rightarrow> ('k, 'v) hashtable" where
  "ht_del k h = snd (hashtable1_remove k h)"

definition ht_pairs :: "('k, 'v) hashtable \<Rightarrow> ('k \<times> 'v) list" where
  "ht_pairs h = map (\<lambda>e. (he_k e, he_v e)) (ht_entries h)"

lemma search_pairs: "ht_ok h \<Longrightarrow> hashtable1_search h k = Some v \<longleftrightarrow> (k, v) \<in> set (ht_pairs h)"
  by (auto simp: search_iff ht_pairs_def)

lemma distinct_pairs: "ht_ok h \<Longrightarrow> distinct (map fst (ht_pairs h))"
  by (simp add: ht_pairs_def comp_def ht_ok_def)

lemma lookup_ext: "(\<And>v. m k = Some v \<longleftrightarrow> m' k = Some v) \<Longrightarrow> m k = m' k"
  by (metis not_Some_eq)

interpretation ht: key_table hashtable1_search hashtable1_insert ht_del ht_pairs ht_ok
proof
  fix h :: "('k, 'v) hashtable" and k :: 'k and v :: 'v
  assume ok: "ht_ok h" and new: "hashtable1_search h k = None"
  then have n: "k \<notin> he_k ` set (ht_entries h)" by (simp add: search_None_iff)
  show "ht_ok (hashtable1_insert k v h)" using insert_laws(1) [OF ok n] .
  then have "hashtable1_search (hashtable1_insert k v h) k' = Some w \<longleftrightarrow>
      ((hashtable1_search h)(k \<mapsto> v)) k' = Some w" for k' w
    using insert_laws(2) [OF ok n, of v] n ok by (auto simp: search_iff)
  then show "hashtable1_search (hashtable1_insert k v h) = (hashtable1_search h)(k \<mapsto> v)"
    by (intro ext lookup_ext) blast
next
  fix h :: "('k, 'v) hashtable" and k :: 'k
  assume ok: "ht_ok h"
  show d: "ht_ok (ht_del k h)" using remove_laws(2) [OF ok] by (simp add: ht_del_def)
  have "hashtable1_search (ht_del k h) k' = Some w \<longleftrightarrow> ((hashtable1_search h)(k := None)) k' = Some w" for k' w
    using remove_laws(3) [OF ok, of k] d ok by (auto simp: search_iff ht_del_def)
  then show "hashtable1_search (ht_del k h) = (hashtable1_search h)(k := None)"
    by (intro ext lookup_ext) blast
next
  fix h :: "('k, 'v) hashtable"
  assume ok: "ht_ok h"
  show d: "distinct (map fst (ht_pairs h))" using ok by (rule distinct_pairs)
  have "map_of (ht_pairs h) k = Some v \<longleftrightarrow> hashtable1_search h k = Some v" for k v
    using d search_pairs [OF ok] by (simp add: map_of_eq_Some_iff)
  then show "map_of (ht_pairs h) = hashtable1_search h"
    by (intro ext lookup_ext) blast
qed

section \<open>Walks\<close>

definition itr_ok :: "('k, 'v) hashtable \<Rightarrow> ('k, 'v) ht_itr \<Rightarrow> bool" where
  "itr_ok h it \<longleftrightarrow> length (ht_table h) = tablelength h \<and>
     (itr_rest it = [] \<longrightarrow> tablelength h \<le> itr_index it) \<and>
     (itr_rest it \<noteq> [] \<longrightarrow> itr_index it < tablelength h)"

text \<open>Starting a walk has all entries before it, and a step leaves the entry it was at.\<close>

lemma iterator_start:
  assumes "ht_ok h"
  shows "itr_left h (hashtable1_iterator h) = ht_entries h \<and> itr_ok h (hashtable1_iterator h)"
proof (cases "first_chain 0 (ht_table h)")
  case None
  then have "ht_entries h = []" using first_chain_None by (simp add: ht_entries_def)
  with None assms show ?thesis
    by (simp add: hashtable1_iterator_def itr_left_def itr_end_def itr_ok_def ht_ok_def)
next
  case (Some it)
  note f = first_chain_Some [OF Some]
  have "entrycount h \<noteq> 0"
  proof
    assume "entrycount h = 0"
    then have "concat (ht_table h) = []" using assms by (simp add: ht_ok_def ht_entries_def)
    with f have "itr_rest it = []" by (metis append_is_Nil_conv)
    with f show False by blast
  qed
  with Some have it: "hashtable1_iterator h = it" by (simp add: hashtable1_iterator_def)
  have "itr_left h it = ht_entries h" using f by (simp add: itr_left_def ht_entries_def)
  moreover have "itr_ok h it" using f ht_okD(3) [OF assms] by (simp add: itr_ok_def)
  ultimately show ?thesis by (simp add: it)
qed

lemma iterator_step:
  assumes "itr_ok h it" "hashtable1_iterator_advance h it = (go, it')"
  shows "itr_left h it' = tl (itr_left h it) \<and> itr_ok h it' \<and> (go \<longleftrightarrow> tl (itr_left h it) \<noteq> [])"
proof (cases "itr_rest it")
  case Nil
  with assms show ?thesis by (auto simp: hashtable1_iterator_advance_def itr_left_def itr_ok_def)
next
  case (Cons e rest)
  let ?j = "Suc (itr_index it)"
  have j: "itr_index it < tablelength h" "length (ht_table h) = tablelength h"
    using assms(1) Cons by (simp_all add: itr_ok_def)
  show ?thesis
  proof (cases "rest = []")
    case False
    with assms Cons show ?thesis
      by (auto simp: hashtable1_iterator_advance_def itr_left_def itr_ok_def)
  next
    case True
    show ?thesis
    proof (cases "first_chain ?j (drop ?j (ht_table h))")
      case None
      then have "concat (drop ?j (ht_table h)) = []" by (rule first_chain_None)
      with assms Cons True None j show ?thesis
        by (auto simp: hashtable1_iterator_advance_def itr_left_def itr_ok_def itr_end_def split: if_splits)
    next
      case (Some it'')
      note f = first_chain_Some [OF Some]
      have i: "?j < tablelength h" using f j by auto
      then have "it' = it''" "go" using assms(2) Cons True Some
        by (auto simp: hashtable1_iterator_advance_def split: if_splits)
      moreover have "drop (Suc (itr_index it'') - ?j) (drop ?j (ht_table h)) = drop (Suc (itr_index it'')) (ht_table h)"
        using f by simp
      ultimately have l: "itr_left h it' = tl (itr_left h it)"
        using f Cons True unfolding itr_left_def by (metis append_Nil list.sel(3) append_Cons)
      have "itr_left h it' \<noteq> []" using f \<open>it' = it''\<close> by (simp add: itr_left_def)
      then show ?thesis using l f j \<open>it' = it''\<close> \<open>go\<close> by (simp add: itr_ok_def)
    qed
  qed
qed

lemma walk_values_ok:
  assumes "ht_ok h"
  shows "walk_values h = Inr (map snd (ht_pairs h))"
proof -
  have v: "itr_ok h it \<Longrightarrow> itr_left h it \<noteq> [] \<Longrightarrow> itr_values h it = Inr (map he_v (itr_left h it))" for it
  proof (induction "itr_left h it" arbitrary: it)
    case (Cons e es)
    have "itr_rest it \<noteq> []"
    proof
      assume "itr_rest it = []"
      with Cons show False by (simp add: itr_ok_def itr_left_def)
    qed
    then obtain rest where r: "itr_rest it = e # rest"
      using Cons.hyps(2) by (cases "itr_rest it") (auto simp: itr_left_def)
    obtain go it' where a: "hashtable1_iterator_advance h it = (go, it')" by fastforce
    have s: "itr_left h it' = es" "itr_ok h it'" "go \<longleftrightarrow> es \<noteq> []"
      using iterator_step [OF Cons.prems(1) a] Cons.hyps(2) [symmetric] by simp_all
    show ?case
    proof (cases "es = []")
      case True
      then have "itr_values h it = Inr [he_v e]"
        using a s r by (subst itr_values.simps) (simp add: hashtable1_iterator_value_def)
      with True Cons.hyps(2) [symmetric] show ?thesis by simp
    next
      case False
      then have "itr_values h it' = Inr (map he_v es)" using Cons.hyps(1) [of it'] s by simp
      then have "itr_values h it = Inr (he_v e # map he_v es)"
        using a s r False by (subst itr_values.simps) (simp add: hashtable1_iterator_value_def)
      then show ?thesis by (simp add: Cons.hyps(2) [symmetric])
    qed
  qed simp
  show ?thesis
  proof (cases "ht_entries h = []")
    case True
    then show ?thesis using ht_okD(7) [OF assms]
      by (simp add: walk_values_def hashtable1_count_def ht_pairs_def)
  next
    case False
    have "itr_values h (hashtable1_iterator h) = Inr (map he_v (ht_entries h))"
      using v [of "hashtable1_iterator h"] iterator_start [OF assms] False by simp
    then show ?thesis using ht_okD(7) [OF assms] False
      by (simp add: walk_values_def hashtable1_count_def ht_pairs_def comp_def)
  qed
qed

end
