(* ===== verification/Table_Properties.thy ===== *)
theory Table_Properties imports Atom_Table_Laws Hashtable_Laws begin

text \<open>
  The properties of the string table, of the symbol table and of the hash tables, each
  with a witness at a concrete input.
\<close>

section \<open>Interned strings and symbols\<close>

abbreviation (input) small_strings :: str_table where
  "small_strings \<equiv> \<lparr>st_size = 3, st_contains = 0, st_buckets = [[], [], []], st_next = 0\<rparr>"

lemma small_strings_ok: "strings_ok small_strings"
  by (simp add: strings_ok_def entries_def placed_def less_Suc_eq numeral_3_eq_3)

text \<open>
  C14: after any sequence of insertions with \<open>string_find\<close>, two of the pointers it returned
  are equal exactly when the strings are, however often the table was expanded between.
\<close>

theorem string_pointers:
  assumes "strings_ok st" "intern_all str_intern ss st = Inr (ps, st')" "i < length ss" "j < length ss"
  shows "ps ! i = ps ! j \<longleftrightarrow> ss ! i = ss ! j"
  by (rule string_table.intern_all_pointers [OF assms])

theorem string_pointers_witness:
  "\<exists>ps st'. intern_all str_intern [[97], [98], [97]] small_strings = Inr (ps, st') \<and>
     ps ! 0 = ps ! 2 \<and> ps ! 0 \<noteq> ps ! 1"
proof -
  have "\<not> isl (intern_all str_intern [[97], [98], [97]] small_strings)" by code_simp
  then obtain ps st' where r: "intern_all str_intern [[97], [98], [97]] small_strings = Inr (ps, st')"
    by (cases "intern_all str_intern [[97], [98], [97]] small_strings") auto
  show ?thesis
    using r string_pointers [OF small_strings_ok r, of 0 2] string_pointers [OF small_strings_ok r, of 0 1] by auto
qed

text \<open>
  C15: \<open>string_find\<close> with insertion returns a pointer that later searches for the string
  return too, and leaves the pointers of the other strings as they were; without insertion
  it changes nothing.
\<close>

theorem string_find_law:
  assumes "strings_ok st" "string_find s True st = Inr (Some p, st')"
  shows "strings_ok st' \<and> string_find_safe s st' = Some p \<and>
    (\<forall>s'. s' \<noteq> s \<longrightarrow> string_find_safe s' st' = string_find_safe s' st) \<and>
    string_find s False st = Inr (string_find_safe s st, st)"
proof -
  have i: "str_intern s st = Inr (p, st')" using assms(2) by (simp add: str_intern_def)
  show ?thesis
    using string_table.intern_ok [OF assms(1) i] string_table.intern_finds [OF assms(1) i]
      string_table.intern_keeps [OF assms(1) i] string_find_lookup [of s st] by blast
qed

theorem string_find_law_witness:
  "\<exists>st'. string_find [97] True small_strings = Inr (Some 0, st') \<and> string_find_safe [97] st' = Some 0 \<and>
     string_find_safe [98] st' = None"
proof -
  have "case string_find [97] True small_strings of Inl _ \<Rightarrow> False | Inr (p, _) \<Rightarrow> p = Some 0" by code_simp
  then obtain r where r: "string_find [97] True small_strings = Inr (Some 0, r)"
    by (cases "string_find [97] True small_strings") auto
  have "string_find_safe [98] small_strings = None" by code_simp
  with r string_find_law [OF small_strings_ok r] show ?thesis by auto
qed

text \<open>
  C16: \<open>free_unused_strings\<close> keeps the strings marked as used, at their addresses, drops
  the others, and leaves a table in order.
\<close>

theorem free_unused_law:
  assumes "strings_ok st"
  shows "strings_ok (free_unused_strings st) \<and>
    (string_find_safe s (free_unused_strings st) = Some p \<longleftrightarrow>
      (\<exists>e \<in> set (entries st). se_mark e \<and> se_text e = s \<and> se_addr e = p))"
  using free_ok [OF assms] free_lookup [OF assms] by blast

abbreviation (input) two_strings :: str_table where
  "two_strings \<equiv> \<lparr>st_size = 2, st_contains = 2,
     st_buckets = [[\<lparr>se_addr = 1, se_text = [98], se_mark = True\<rparr>], [\<lparr>se_addr = 0, se_text = [97], se_mark = False\<rparr>]],
     st_next = 2\<rparr>"

theorem free_unused_law_witness:
  "string_find_safe [98] (free_unused_strings two_strings) = Some 1 \<and>
   string_find_safe [97] (free_unused_strings two_strings) = None"
proof -
  have h: "hash_xsb [98] 0 2 = 0" "hash_xsb [97] 0 2 = 1" by code_simp+
  have ok: "strings_ok two_strings"
    using h by (simp add: strings_ok_def entries_def placed_def less_Suc_eq str_index_def numeral_2_eq_2)
  have "string_find_safe [97] (free_unused_strings two_strings) \<noteq> Some q" for q
    using free_unused_law [OF ok, of "[97]" q] by (simp add: entries_def)
  moreover have "string_find_safe [98] (free_unused_strings two_strings) = Some 1"
    using free_unused_law [OF ok, of "[98]" 1] by (simp add: entries_def)
  ultimately show ?thesis by (metis not_Some_eq)
qed

text \<open>
  C17: the next size of a table is larger, so an expansion makes room, as long as the size
  is below the last prime of the list.
\<close>

theorem next_prime_larger:
  assumes "1 < n" "n < 4194301"
  shows "\<exists>m. next_prime n = Inr m \<and> n < m"
  by (rule next_prime_grows [OF assms])

theorem next_prime_larger_witness: "\<exists>m. next_prime 16381 = Inr m \<and> 16381 < m"
  by (rule next_prime_larger) simp_all

text \<open>
  An arity that does not fit the sixteen bits of its field is never found again, so that
  every \<open>insert_psc\<close> of it makes another pair.
\<close>

lemma arity_overflow:
  assumes "65536 \<le> arity" "insert_psc name arity m a = Inr (p, new, a')"
  shows "new"
proof -
  have b: "uint x \<noteq> arity" for x :: "16 word"
    using assms(1) uint_lt2p [of x] by simp
  then have "search_psc_in_module arity name a c = None" for c
    by (auto simp: search_psc_in_module_def find_None_iff)
  with assms(2) show ?thesis
    by (auto simp: insert_psc_def search_insert_psc_def res_bind_def Let_def split: sum.splits if_splits prod.splits)
qed

text \<open>
  C18: the global symbol table: of the pairs that \<open>insert_psc\<close> returned for a sequence of
  names and arities, arities that fit their field of sixteen bits, two are the same exactly
  when name and arity are.
\<close>

theorem symbol_pairs:
  assumes "atoms_ok a" "intern_all sym_intern ks a = Inr (ps, a')" "i < length ks" "j < length ks"
  shows "ps ! i = ps ! j \<longleftrightarrow> ks ! i = ks ! j"
  by (rule symbol_table.intern_all_pointers [OF assms])

abbreviation (input) small_atoms :: atoms where
  "small_atoms \<equiv> \<lparr>strings = small_strings, pscs = [], sym_size = 2, sym_contains = 0,
     sym_buckets = [[], []], mod_chains = (\<lambda>_. []), next_pair = 0\<rparr>"

theorem symbol_pairs_witness:
  "\<exists>ps a'. intern_all sym_intern [([97], 2), ([97], 3), ([97], 2)] small_atoms = Inr (ps, a') \<and>
     ps ! 0 = ps ! 2 \<and> ps ! 0 \<noteq> ps ! 1"
proof -
  have ok: "atoms_ok small_atoms"
    using small_strings_ok by (simp add: atoms_ok_def symbols_def placed_def less_Suc_eq numeral_2_eq_2)
  have "\<not> isl (intern_all sym_intern [([97], 2), ([97], 3), ([97], 2)] small_atoms)" by code_simp
  then obtain ps a' where r: "intern_all sym_intern [([97], 2), ([97], 3), ([97], 2)] small_atoms = Inr (ps, a')"
    by (cases "intern_all sym_intern [([97], 2), ([97], 3), ([97], 2)] small_atoms") auto
  show ?thesis
    using r symbol_pairs [OF ok r, of 0 2] symbol_pairs [OF ok r, of 0 1] by auto
qed

section \<open>Hash tables\<close>

text \<open>A new table is in order, empty, and at least as long as was asked for.\<close>

theorem create_hashtable_law:
  assumes "create_hashtable1 minsize hashf (=) = Some h"
  shows "ht_ok h \<and> minsize \<le> tablelength h \<and> hashtable1_count h = 0 \<and> hashtable1_search h k = None"
  using create_ok [OF assms] search_None_iff [of h k] by (auto simp: hashtable1_count_def)

abbreviation (input) nat_hash :: "nat \<Rightarrow> 32 word" where "nat_hash \<equiv> (\<lambda>k. word_of_nat k)"

definition small_table :: "(nat, nat) hashtable" where
  "small_table = \<lparr>tablelength = 2, ht_table = [[], []], entrycount = 0, loadlimit = 2, primeindex = 0,
     hashfn = nat_hash, eqfn = (=)\<rparr>"

lemma create_small: "create_hashtable1 1 nat_hash (=) = Some small_table"
  by (simp add: create_hashtable1_def ht_primes_def load_limit_def small_table_def numeral_2_eq_2)

theorem create_hashtable_law_witness: "ht_ok small_table \<and> hashtable1_search small_table 7 = None"
  using create_hashtable_law [OF create_small] by blast

lemma small_table_ok: "ht_ok small_table"
  using create_ok [OF create_small] by blast

text \<open>
  C20: inserting a key that is not in the table adds its value and keeps every other
  binding, also when the table is expanded on the way, and counts it.
\<close>

theorem hashtable_insert_law:
  assumes "ht_ok h" "hashtable1_search h k = None"
  shows "ht_ok (hashtable1_insert k v h) \<and>
    hashtable1_search (hashtable1_insert k v h) = (hashtable1_search h)(k \<mapsto> v) \<and>
    hashtable1_count (hashtable1_insert k v h) = Suc (hashtable1_count h)"
proof -
  note ok' = ht.put_ok [OF assms, of v]
  show ?thesis
    using ok' ht.lookup_put [OF assms, of v] ht.length_put [OF assms, of v] ht_okD(7) [OF assms(1)] ht_okD(7) [OF ok']
    by (simp add: hashtable1_count_def ht_pairs_def)
qed

theorem hashtable_insert_law_witness:
  "hashtable1_search (hashtable1_insert 5 9 small_table) 5 = Some 9 \<and>
   hashtable1_count (hashtable1_insert 5 9 small_table) = 1"
proof -
  have n: "hashtable1_search small_table 5 = None" using create_ok [OF create_small] search_None_iff by fastforce
  show ?thesis using hashtable_insert_law [OF small_table_ok n, of 9] by (simp add: hashtable1_count_def small_table_def)
qed

text \<open>
  C21: removing a key returns the value it had, takes its binding away and no other.
\<close>

theorem hashtable_remove_law:
  assumes "ht_ok h"
  shows "ht_ok (snd (hashtable1_remove k h)) \<and> fst (hashtable1_remove k h) = hashtable1_search h k \<and>
    hashtable1_search (snd (hashtable1_remove k h)) = (hashtable1_search h)(k := None)"
  using remove_laws(1,2) [OF assms] ht.lookup_del [OF assms] by (simp add: ht_del_def)

theorem hashtable_remove_law_witness:
  "hashtable1_search (snd (hashtable1_remove 5 (hashtable1_insert 5 9 small_table))) 5 = None \<and>
   fst (hashtable1_remove 5 (hashtable1_insert 5 9 small_table)) = Some 9"
proof -
  have n: "hashtable1_search small_table 5 = None" using create_ok [OF create_small] search_None_iff by fastforce
  have "ht_ok (hashtable1_insert 5 9 small_table)" using ht.put_ok [OF small_table_ok n] .
  from hashtable_remove_law [OF this, of 5] ht.lookup_put [OF small_table_ok n, of 9] show ?thesis by simp
qed

text \<open>
  C22: a walk with an iterator comes to the value of each binding of the table exactly
  once, and follows no null pointer on the way.
\<close>

theorem hashtable_walk_law:
  assumes "ht_ok h"
  shows "\<exists>kvs. walk_values h = Inr (map snd kvs) \<and> distinct (map fst kvs) \<and> map_of kvs = hashtable1_search h \<and>
    length kvs = hashtable1_count h"
  using walk_values_ok [OF assms] ht.entries_lookup [OF assms] ht.entries_distinct [OF assms] ht_okD(7) [OF assms]
  by (intro exI [of _ "ht_pairs h"]) (simp add: hashtable1_count_def ht_pairs_def)

theorem hashtable_walk_law_witness:
  "\<exists>kvs :: (nat \<times> nat) list. walk_values (hashtable1_insert 5 9 small_table) = Inr (map snd kvs) \<and> map_of kvs 5 = Some 9 \<and> length kvs = 1"
proof -
  have n: "hashtable1_search small_table (5 :: nat) = None" using create_ok [OF create_small] search_None_iff by fastforce
  have ok: "ht_ok (hashtable1_insert 5 9 small_table)" using ht.put_ok [OF small_table_ok n] .
  have "hashtable1_count (hashtable1_insert 5 9 small_table) = 1"
    using ht.length_put [OF small_table_ok n, of 9] ht_okD(7) [OF small_table_ok] ht_okD(7) [OF ok]
    by (simp add: hashtable1_count_def ht_pairs_def small_table_def)
  with hashtable_walk_law [OF ok] ht.lookup_put [OF small_table_ok n, of 9] show ?thesis by (metis fun_upd_same)
qed

end
