(* ===== verification/Object_Store.thy ===== *)
theory Object_Store imports XSB_Prelude begin

text \<open>
  Structures that the code allocates and frees one by one: a store is a list in which a
  structure is found by the number it got when it was made; a structure that was freed is
  \<open>None\<close>. Numbers are not used again.
\<close>

definition deref :: "'a option list \<Rightarrow> nat \<Rightarrow> 'a res" where
  "deref xs n = (if n < length xs then (case xs ! n of None \<Rightarrow> Inl (Dangling_Pointer n) | Some x \<Rightarrow> Inr x)
                 else Inl (Dangling_Pointer n))"

definition upd_obj :: "nat \<Rightarrow> ('a \<Rightarrow> 'a) \<Rightarrow> 'a option list \<Rightarrow> 'a option list" where
  "upd_obj n f xs = xs[n := map_option f (xs ! n)]"

definition free_obj :: "nat \<Rightarrow> 'a option list \<Rightarrow> 'a option list" where
  "free_obj n xs = xs[n := None]"

lemma deref_upd: "deref ((xs)[n := map_option f (xs ! n)]) m =
    (if m = n then res_bind (deref xs n) (\<lambda>x. Inr (f x)) else deref xs m)"
  by (simp add: deref_def nth_list_update res_bind_def split: option.splits)

lemma deref_append:
  "deref (xs @ [y]) n = (if n = length xs then (case y of None \<Rightarrow> Inl (Dangling_Pointer n) | Some v \<Rightarrow> Inr v) else deref xs n)"
  by (auto simp: deref_def nth_append less_Suc_eq)

lemma deref_upd_obj: "deref (upd_obj n f xs) m =
    (if m = n then res_bind (deref xs n) (\<lambda>x. Inr (f x)) else deref xs m)"
  by (simp add: upd_obj_def deref_upd)

lemma deref_free: "deref (free_obj n xs) m = (if m = n then Inl (Dangling_Pointer n) else deref xs m)"
  by (simp add: free_obj_def deref_def nth_list_update)

lemma deref_new: "deref (xs @ [Some v]) n = (if n = length xs then Inr v else deref xs n)"
  by (simp add: deref_append)

lemma deref_less: "deref xs n = Inr x \<Longrightarrow> n < length xs"
  by (simp add: deref_def split: if_splits)

lemma length_objs [simp]: "length (upd_obj n f xs) = length xs" "length (free_obj n xs) = length xs"
  by (simp_all add: upd_obj_def free_obj_def)

lemma deref_dangling: "n \<ge> length xs \<Longrightarrow> deref xs n = Inl (Dangling_Pointer n)"
  by (simp add: deref_def)

text \<open>The number of structures in use, which a walk that frees what it leaves makes smaller.\<close>

primrec in_use :: "'a option list \<Rightarrow> nat" where
  "in_use [] = 0"
| "in_use (x # xs) = (if x = None then 0 else 1) + in_use xs"

lemma in_use_update:
  "n < length xs \<Longrightarrow> in_use (xs[n := y]) + (if xs ! n = None then 0 else 1) = in_use xs + (if y = None then 0 else 1)"
proof (induction xs arbitrary: n)
  case (Cons x xs)
  show ?case
  proof (cases n)
    case (Suc m)
    then have "m < length xs" using Cons.prems by simp
    from Cons.IH [OF this] show ?thesis using Suc by simp
  qed simp
qed simp

lemma in_use_append [simp]: "in_use (xs @ ys) = in_use xs + in_use ys"
  by (induction xs) auto

lemma in_use_upd_obj: "in_use (upd_obj n f xs) = in_use xs"
proof (cases "n < length xs")
  case True
  then show ?thesis using in_use_update [OF True, of "map_option f (xs ! n)"] by (simp add: upd_obj_def split: if_splits)
qed (simp add: upd_obj_def list_update_beyond)

lemma in_use_free: "deref xs n = Inr x \<Longrightarrow> in_use (free_obj n xs) < in_use xs"
  using in_use_update [of n xs None] by (auto simp: free_obj_def deref_def split: if_splits option.splits)

end
