(* ===== verification/Call_Graph.thy ===== *)
theory Call_Graph imports Hashtable Object_Store begin

text \<open>
  The incremental dependency graph of emu/call_graph_xsb.c. A call node is named by its
  \<open>id\<close>, the position at which it was made: ids count up and are not used again. An
  \<open>OUTEDGE\<close> is an object of its own, because a re-evaluation hands it from the old call
  node to the new one: it has the table of the calls that depend on its call node, by
  their ids. The list \<open>inedges\<close> of a node has the \<open>OUTEDGE\<close>s of the calls on which
  it depends. The counters \<open>falsecount\<close> and \<open>outcount\<close> are bit fields of 14 bits.
\<close>

section \<open>The data\<close>

datatype recomputable = COMPUTE_DEPENDENCIES_FIRST | COMPUTE_DIRECTLY

text \<open>What the graph looks at in a subgoal frame: its completion mark and its visitors.\<close>

record subgoal_frame =
  sf_completed :: bool
  sf_visitors :: nat

text \<open>
  The union of \<open>prev_call\<close> and \<open>tif_ptr\<close>. The fields of a call node that only answers and the
  debugger use are left out (\<open>aln\<close>, with which \<open>leaf_ptr\<close> shares its place, and \<open>id\<close>, which is the
  name of the node here). \<open>makecallnode\<close> does not initialise \<open>is_incremental_trie\<close>: its value
  is unknown until it is set.
\<close>

datatype call_link = No_Link | Prev_Call nat | Tif nat

record callnode =
  outedges :: "nat option"
  inedges :: "nat list"
  cn_goal :: "subgoal_frame option"
  no_of_answers :: nat
  deleted :: bool
  changed :: bool
  recomputable :: recomputable
  is_incremental_trie :: "bool option"
  falsecount :: "14 word"
  outcount :: "14 word"
  cn_link :: call_link
  idg_dyn_leaf :: bool

record outedge =
  hasht :: "(nat, nat) hashtable"
  oe_callnode :: nat

record idg =
  nodes :: "callnode option list"
  oes :: "outedge option list"
  current_call_node_count_gl :: int
  current_call_edge_count_gl :: int

definition hashfromkey :: "nat \<Rightarrow> 32 word" where
  "hashfromkey k = word_of_nat k"

definition equalkeys :: "nat \<Rightarrow> nat \<Rightarrow> bool" where
  "equalkeys k1 k2 \<longleftrightarrow> k1 = k2"

section \<open>Following and changing pointers\<close>

definition upd_node :: "nat \<Rightarrow> (callnode \<Rightarrow> callnode) \<Rightarrow> idg \<Rightarrow> idg" where
  "upd_node n f g = g\<lparr>nodes := (nodes g)[n := map_option f (nodes g ! n)]\<rparr>"

definition upd_oe :: "nat \<Rightarrow> (outedge \<Rightarrow> outedge) \<Rightarrow> idg \<Rightarrow> idg" where
  "upd_oe n f g = g\<lparr>oes := (oes g)[n := map_option f (oes g ! n)]\<rparr>"

definition node :: "idg \<Rightarrow> nat \<Rightarrow> callnode res" where
  "node g n = deref (nodes g) n"

definition edge_table :: "idg \<Rightarrow> nat \<Rightarrow> (nat, nat) hashtable res" where
  "edge_table g oe = res_bind (deref (oes g) oe) (\<lambda>x. Inr (hasht x))"

definition edge_source :: "idg \<Rightarrow> nat \<Rightarrow> nat res" where
  "edge_source g oe = res_bind (deref (oes g) oe) (\<lambda>x. Inr (oe_callnode x))"

definition outedges_of :: "idg \<Rightarrow> nat \<Rightarrow> nat res" where
  "outedges_of g n = res_bind (node g n) (\<lambda>c. case outedges c of None \<Rightarrow> Inl Null_Pointer | Some oe \<Rightarrow> Inr oe)"

text \<open>\<open>callnode->outedges->hasht\<close>\<close>

definition out_table :: "idg \<Rightarrow> nat \<Rightarrow> (nat, nat) hashtable res" where
  "out_table g n = res_bind (outedges_of g n) (edge_table g)"

definition out_values :: "idg \<Rightarrow> nat \<Rightarrow> nat list res" where
  "out_values g n = res_bind (out_table g n) walk_values"

text \<open>The nodes of a list of \<open>OUTEDGE\<close>s: \<open>in->inedge_node->callnode\<close> along \<open>inedges\<close>.\<close>

fun edge_sources :: "idg \<Rightarrow> nat list \<Rightarrow> nat list res" where
  "edge_sources g [] = Inr []"
| "edge_sources g (oe # es) = res_bind (edge_source g oe) (\<lambda>n. res_bind (edge_sources g es) (\<lambda>ns. Inr (n # ns)))"

section \<open>Making and linking nodes\<close>

definition makecallnode :: "subgoal_frame option \<Rightarrow> bool \<Rightarrow> nat \<Rightarrow> idg \<Rightarrow> nat \<times> idg" where
  "makecallnode sf dyn_leaf tif g =
    (length (nodes g),
     g\<lparr>nodes := nodes g @ [Some \<lparr>outedges = None, inedges = [], cn_goal = sf, no_of_answers = 0,
         deleted = False, changed = False, recomputable = COMPUTE_DEPENDENCIES_FIRST,
         is_incremental_trie = None, falsecount = 0,
         outcount = 0, cn_link = (if dyn_leaf then Tif tif else No_Link), idg_dyn_leaf = dyn_leaf\<rparr>],
       current_call_node_count_gl := current_call_node_count_gl g + 1\<rparr>)"

definition initoutedges :: "nat \<Rightarrow> idg \<Rightarrow> idg res" where
  "initoutedges cn g =
    res_bind (node g cn) (\<lambda>_.
      case create_hashtable1 1 hashfromkey equalkeys of
        None \<Rightarrow> Inl Null_Pointer
      | Some h \<Rightarrow>
          Inr (upd_node cn (\<lambda>c. c\<lparr>outedges := Some (length (oes g))\<rparr>)
            (g\<lparr>oes := oes g @ [Some \<lparr>hasht = h, oe_callnode = cn\<rparr>]\<rparr>)))"

definition addcalledge :: "nat \<Rightarrow> nat \<Rightarrow> idg \<Rightarrow> idg res" where
  "addcalledge fromcn tocn g =
    res_bind (node g tocn) (\<lambda>_.
    res_bind (outedges_of g fromcn) (\<lambda>oe.
    res_bind (edge_table g oe) (\<lambda>h.
      if hashtable1_search h tocn = None then
        (let g = upd_oe oe (\<lambda>x. x\<lparr>hasht := hashtable1_insert tocn tocn h\<rparr>) g;
             g = upd_node tocn (\<lambda>c. c\<lparr>inedges := oe # inedges c\<rparr>) g;
             g = g\<lparr>current_call_edge_count_gl := current_call_edge_count_gl g + 1\<rparr> in
         Inr (upd_node fromcn (\<lambda>c. c\<lparr>outcount := outcount c + 1\<rparr>) g))
      else Inr g)))"

text \<open>The new call node of a subgoal takes the edges of its old one over (emu/slginsts_xsb_i.h).\<close>

definition take_over :: "nat \<Rightarrow> nat \<Rightarrow> idg \<Rightarrow> idg res" where
  "take_over old_call new g =
    res_bind (node g old_call) (\<lambda>c. res_bind (node g new) (\<lambda>_.
    res_bind (outedges_of g old_call) (\<lambda>oe.
      Inr (upd_node old_call (\<lambda>c. c\<lparr>falsecount := 0, deleted := True\<rparr>)
        (upd_oe oe (\<lambda>x. x\<lparr>oe_callnode := new\<rparr>)
          (upd_node new (\<lambda>n. n\<lparr>cn_link := Prev_Call old_call, outedges := Some oe, outcount := outcount c\<rparr>) g))))))"

section \<open>Deleting\<close>

text \<open>
  The loop of \<open>delete_dependency_edges\<close> and \<open>deallocate_previous_call\<close>: the node is
  taken out of the table of each call on which it depends. With \<open>skip_own\<close> an edge of
  the node to itself is passed over.
\<close>

fun remove_inedges :: "bool \<Rightarrow> string \<Rightarrow> nat \<Rightarrow> nat list \<Rightarrow> idg \<Rightarrow> idg res" where
  "remove_inedges skip_own what own [] g = Inr g"
| "remove_inedges skip_own what own (oe # ins) g =
    res_bind (edge_source g oe) (\<lambda>m.
      if skip_own \<and> m = own then remove_inedges skip_own what own ins g
      else
        res_bind (edge_table g oe) (\<lambda>h.
          case hashtable1_remove own h of
            (None, _) \<Rightarrow> Inl (Xsb_Abort (''BUG: key not found for removal ('' @ what @ '')''))
          | (Some _, h') \<Rightarrow>
              (let g = upd_oe oe (\<lambda>x. x\<lparr>hasht := h'\<rparr>) g;
                   g = upd_node m (\<lambda>c. c\<lparr>outcount := outcount c - 1\<rparr>) g in
               remove_inedges skip_own what own ins
                 (g\<lparr>current_call_edge_count_gl := current_call_edge_count_gl g - 1\<rparr>))))"

definition delete_dependency_edges :: "nat \<Rightarrow> idg \<Rightarrow> idg res" where
  "delete_dependency_edges cn g =
    res_bind (node g cn) (\<lambda>c. remove_inedges True ''delete dependency edges'' cn (inedges c) g)"

text \<open>The first edge from \<open>cn\<close> is unlinked from a list of in-edges.\<close>

fun unlink_from :: "idg \<Rightarrow> nat \<Rightarrow> nat list \<Rightarrow> nat list res" where
  "unlink_from g cn [] = Inr []"
| "unlink_from g cn (oe # ins) =
    res_bind (edge_source g oe) (\<lambda>m.
      if m = cn then Inr ins else res_bind (unlink_from g cn ins) (\<lambda>ins'. Inr (oe # ins')))"

fun unlink_all :: "nat \<Rightarrow> nat list \<Rightarrow> idg \<Rightarrow> idg res" where
  "unlink_all cn [] g = Inr g"
| "unlink_all cn (t # ts) g =
    res_bind (if t = cn then Inr g
              else res_bind (node g t) (\<lambda>c. res_bind (unlink_from g cn (inedges c)) (\<lambda>ins.
                Inr (upd_node t (\<lambda>c. c\<lparr>inedges := ins\<rparr>) g)))) (\<lambda>g.
      unlink_all cn ts (g\<lparr>current_call_edge_count_gl := current_call_edge_count_gl g - 1\<rparr>))"

definition deleteoutedges :: "nat \<Rightarrow> idg \<Rightarrow> idg res" where
  "deleteoutedges cn g =
    res_bind (out_values g cn) (\<lambda>ts.
      if ts = [] then Inr g
      else res_bind (unlink_all cn ts g) (\<lambda>g. Inr (upd_node cn (\<lambda>c. c\<lparr>outcount := 0\<rparr>) g)))"

definition free_node :: "nat \<Rightarrow> idg \<Rightarrow> idg" where
  "free_node n g = g\<lparr>nodes := (nodes g)[n := None]\<rparr>"

definition free_oe :: "nat \<Rightarrow> idg \<Rightarrow> idg" where
  "free_oe n g = g\<lparr>oes := (oes g)[n := None]\<rparr>"

definition deletecallnode :: "nat \<Rightarrow> idg \<Rightarrow> idg res" where
  "deletecallnode cn g =
    res_bind (node g cn) (\<lambda>c.
      if outcount c = 0 then
        res_bind (outedges_of g cn) (\<lambda>oe.
          Inr (free_node cn (free_oe oe (g\<lparr>current_call_node_count_gl := current_call_node_count_gl g - 1\<rparr>))))
      else Inl (Xsb_Abort ''outcount is nonzero''))"

definition deallocate_previous_call :: "nat \<Rightarrow> idg \<Rightarrow> idg res" where
  "deallocate_previous_call cn g =
    res_bind (node g cn) (\<lambda>c.
    res_bind (remove_inedges False ''deallocate previous call'' cn (inedges c)
        (g\<lparr>current_call_node_count_gl := current_call_node_count_gl g - 1\<rparr>)) (\<lambda>g.
      Inr (free_node cn g)))"

text \<open>How \<open>maybe_detach_incremental_call_single\<close> of emu/tr_utils.c takes a node out of the graph.\<close>

definition detach_call :: "nat \<Rightarrow> idg \<Rightarrow> idg res" where
  "detach_call cn g =
    res_bind (deleteoutedges cn g) (\<lambda>g. res_bind (delete_dependency_edges cn g) (deletecallnode cn))"

section \<open>Lists of calls\<close>

text \<open>A call list ends in an element without an item.\<close>

type_synonym calllist = "nat option list"

definition empty_calllist :: calllist where
  "empty_calllist = [None]"

definition add_callnode :: "nat \<Rightarrow> calllist \<Rightarrow> calllist" where
  "add_callnode c cl = Some c # cl"

definition delete_calllist_elt :: "calllist \<Rightarrow> (nat option \<times> calllist) res" where
  "delete_calllist_elt cl = (case cl of [] \<Rightarrow> Inl Null_Pointer | c # cl \<Rightarrow> Inr (c, cl))"

fun deallocate_call_list :: "calllist \<Rightarrow> calllist res" where
  "deallocate_call_list [] = Inl Null_Pointer"
| "deallocate_call_list (c # cl) = (if c = None then Inr cl else deallocate_call_list cl)"

section \<open>Invalidation\<close>

definition dfs_outedges_check_non_completed :: "callnode \<Rightarrow> unit res" where
  "dfs_outedges_check_non_completed c =
    (if idg_dyn_leaf c then Inr ()
     else case cn_goal c of
            None \<Rightarrow> Inl Null_Pointer
          | Some sf \<Rightarrow> if sf_completed sf then Inr ()
                      else Inl (Table_Error ''An incremental update is trying to invalidate the goal''))"

record dfs_frame =
  fr_itr :: "(nat, nat) ht_itr option"
  fr_cn :: nat

text \<open>
  The frames of \<open>dfs_outedges\<close>, the top first. The array has room for 10000; the result of
  the \<open>mem_realloc\<close> at that depth is not stored, so the write that follows is out of the array.
\<close>

definition push_dfs_frame :: "nat \<Rightarrow> dfs_frame list \<Rightarrow> dfs_frame list res" where
  "push_dfs_frame cn fs = (if length fs < 10000 then Inr (\<lparr>fr_itr = None, fr_cn = cn\<rparr> # fs) else Inl Buffer_Overflow)"

text \<open>The inner loop: to the next edge, which the iterator of the top frame is then at.\<close>

fun next_edge :: "idg \<Rightarrow> dfs_frame list \<Rightarrow> dfs_frame list res" where
  "next_edge g [] = Inr []"
| "next_edge g (f # fs) =
    res_bind (out_table g (fr_cn f)) (\<lambda>h.
      case fr_itr f of
        Some it \<Rightarrow>
          (case hashtable1_iterator_advance h it of
             (True, it') \<Rightarrow> Inr (f\<lparr>fr_itr := Some it'\<rparr> # fs)
           | (False, _) \<Rightarrow> next_edge g fs)
      | None \<Rightarrow>
          if 0 < hashtable1_count h then Inr (f\<lparr>fr_itr := Some (hashtable1_iterator h)\<rparr> # fs)
          else next_edge g fs)"

definition frame_value :: "dfs_frame \<Rightarrow> nat res" where
  "frame_value f = (case fr_itr f of None \<Rightarrow> Inl Null_Pointer | Some it \<Rightarrow> hashtable1_iterator_value it)"

text \<open>The edges that a frame has not come to yet, the one its iterator is at not counted.\<close>

definition frame_left :: "idg \<Rightarrow> dfs_frame \<Rightarrow> nat" where
  "frame_left g f =
    (case out_table g (fr_cn f) of
       Inl _ \<Rightarrow> 0
     | Inr h \<Rightarrow> (case fr_itr f of None \<Rightarrow> Suc (length (ht_entries h)) | Some it \<Rightarrow> length (itr_left h it)))"

text \<open>The number of nodes with a property.\<close>

definition count_nodes :: "(callnode \<Rightarrow> bool) \<Rightarrow> idg \<Rightarrow> nat" where
  "count_nodes P g = length (filter (\<lambda>c. case c of None \<Rightarrow> False | Some c \<Rightarrow> P c) (nodes g))"

definition undeleted :: "idg \<Rightarrow> nat" where
  "undeleted g = count_nodes (\<lambda>c. \<not> deleted c) g"

text \<open>Only the fields that are not edges change.\<close>

definition same_edges :: "(callnode \<Rightarrow> callnode) \<Rightarrow> bool" where
  "same_edges f \<longleftrightarrow> (\<forall>c. outedges (f c) = outedges c \<and> inedges (f c) = inedges c)"

lemma node_upd [graph_simps]:
  "node (upd_node n f g) m = (if m = n then res_bind (node g n) (\<lambda>c. Inr (f c)) else node g m)"
  "node (upd_oe n h g) m = node g m"
  by (simp_all add: node_def upd_node_def upd_oe_def deref_upd)

lemma oes_upd [graph_simps]:
  "deref (oes (upd_node n f g)) m = deref (oes g) m"
  "deref (oes (upd_oe n h g)) m = (if m = n then res_bind (deref (oes g) n) (\<lambda>c. Inr (h c)) else deref (oes g) m)"
  by (simp_all add: upd_node_def upd_oe_def deref_upd)

lemma out_table_upd [graph_simps]: "same_edges f \<Longrightarrow> out_table (upd_node n f g) m = out_table g m"
  by (auto simp: out_table_def outedges_of_def edge_table_def graph_simps same_edges_def res_bind_def
      split: sum.splits)

lemma same_edges [simp, graph_simps]:
  "same_edges (\<lambda>c. c\<lparr>falsecount := f c\<rparr>)" "same_edges (\<lambda>c. c\<lparr>deleted := b c\<rparr>)"
  "same_edges (\<lambda>c. c\<lparr>recomputable := r c\<rparr>)" "same_edges (\<lambda>c. c\<lparr>outcount := f c\<rparr>)"
  "same_edges (\<lambda>c. c\<lparr>cn_goal := q c\<rparr>)" "same_edges (\<lambda>c. c\<lparr>deleted := b c, recomputable := r c\<rparr>)"
  by (simp_all add: same_edges_def)

lemma frame_left_upd: "same_edges f \<Longrightarrow> frame_left (upd_node n f g) fr = frame_left g fr"
  by (simp add: frame_left_def graph_simps)

lemma filter_update_length:
  "n < length xs \<Longrightarrow> length (filter P (xs[n := y])) + (if P (xs ! n) then 1 else 0) =
     length (filter P xs) + (if P y then 1 else 0)"
proof (induction xs arbitrary: n)
  case (Cons x xs)
  then show ?case by (cases n) auto
qed simp

lemma node_length: "node g n = Inr c \<Longrightarrow> n < length (nodes g) \<and> nodes g ! n = Some c"
  by (auto simp: node_def deref_def split: if_splits option.splits)

lemma count_nodes_upd:
  "node g n = Inr c \<Longrightarrow> count_nodes P (upd_node n f g) + of_bool (P c) = count_nodes P g + of_bool (P (f c))"
  using node_length [of g n c]
    filter_update_length [of n "nodes g" "\<lambda>c. case c of None \<Rightarrow> False | Some c \<Rightarrow> P c" "Some (f c)"]
  by (simp add: count_nodes_def upd_node_def of_bool_def split: if_splits)

lemma count_nodes_same:
  assumes "\<And>c. P (f c) = P c"
  shows "count_nodes P (upd_node n f g) = count_nodes P g"
proof (cases "node g n")
  case (Inl e)
  then have "nodes (upd_node n f g) = nodes g"
    by (auto simp: node_def deref_def upd_node_def list_update_id list_update_beyond split: if_splits option.splits)
      (metis list_update_id)
  then show ?thesis by (simp add: count_nodes_def)
next
  case (Inr c)
  from count_nodes_upd [OF this, of P f] assms show ?thesis by simp
qed

lemma undeleted_upd: "(\<And>c. deleted (f c) = deleted c) \<Longrightarrow> undeleted (upd_node n f g) = undeleted g"
  by (simp add: undeleted_def count_nodes_same)

lemma undeleted_delete:
  "node g n = Inr c \<Longrightarrow> \<not> deleted c \<Longrightarrow> Suc (undeleted (upd_node n (\<lambda>c. c\<lparr>deleted := True\<rparr>) g)) = undeleted g"
  using count_nodes_upd [of g n c "\<lambda>c. \<not> deleted c" "\<lambda>c. c\<lparr>deleted := True\<rparr>"] by (simp add: undeleted_def)

lemma next_edge_left:
  "next_edge g fs = Inr fs' \<Longrightarrow> fs' \<noteq> [] \<Longrightarrow>
     sum_list (map (frame_left g) fs') < sum_list (map (frame_left g) fs)"
proof (induction g fs rule: next_edge.induct)
  case (2 g f fs)
  from 2(3) obtain h where h: "out_table g (fr_cn f) = Inr h" by auto
  show ?case
  proof (cases "fr_itr f")
    case None
    then show ?thesis using 2 h iterator_left [of h]
      by (force simp: frame_left_def split: if_splits)
  next
    case (Some it)
    obtain go it' where a: "hashtable1_iterator_advance h it = (go, it')" by fastforce
    show ?thesis
    proof (cases go)
      case True
      with a have "itr_rest it \<noteq> []" by (auto simp: hashtable1_iterator_advance_def)
      with True a Some h 2 advance_left [OF a] show ?thesis
        by (auto simp: frame_left_def)
    qed (use a Some h 2 in \<open>force simp: frame_left_def\<close>)
  qed
qed simp

function dfs_outedges_loop :: "idg \<Rightarrow> dfs_frame list \<Rightarrow> idg res" where
  "dfs_outedges_loop g fs =
    res_bind (next_edge g fs) (\<lambda>fs.
      case fs of
        [] \<Rightarrow> Inr g
      | f # _ \<Rightarrow>
          res_bind (frame_value f) (\<lambda>n. res_bind (node g n) (\<lambda>c.
            let g1 = upd_node n (\<lambda>c. c\<lparr>falsecount := falsecount c + 1\<rparr>) g in
            if \<not> deleted c then
              res_bind (dfs_outedges_check_non_completed c) (\<lambda>_.
              res_bind (push_dfs_frame n fs) (\<lambda>fs.
                dfs_outedges_loop (upd_node n (\<lambda>c. c\<lparr>deleted := True\<rparr>) g1) fs))
            else dfs_outedges_loop g1 fs)))"
  by pat_completeness auto

termination
  apply (relation "measures [\<lambda>(g, fs). undeleted g, \<lambda>(g, fs). sum_list (map (frame_left g) fs)]")
    apply simp
  subgoal for g fs fs1 f fr n c g1 u fs2
    using undeleted_delete [of "upd_node n (\<lambda>c. c\<lparr>falsecount := falsecount c + 1\<rparr>) g" n "c\<lparr>falsecount := falsecount c + 1\<rparr>"]
    by (simp add: node_upd undeleted_upd)
  subgoal for g fs fs1 f fr n c g1
    using next_edge_left [of g fs fs1] by (simp add: undeleted_upd frame_left_upd cong: map_cong)
  done

declare dfs_outedges_loop.simps [simp del]

definition dfs_outedges :: "nat \<Rightarrow> idg \<Rightarrow> idg res" where
  "dfs_outedges call1 g =
    res_bind (node g call1) (\<lambda>c.
    res_bind (dfs_outedges_check_non_completed c) (\<lambda>_.
      let g = (if idg_dyn_leaf c then g else upd_node call1 (\<lambda>c. c\<lparr>deleted := True\<rparr>) g) in
      res_bind (out_table g call1) (\<lambda>h.
      res_bind (if 0 < hashtable1_count h then push_dfs_frame call1 [] else Inr []) (\<lambda>fs.
        dfs_outedges_loop g fs))))"

definition invalidate_call :: "nat \<Rightarrow> idg \<Rightarrow> idg res" where
  "invalidate_call cn g =
    res_bind (node g cn) (\<lambda>c.
      if deleted c then Inr g
      else dfs_outedges cn (upd_node cn (\<lambda>c. c\<lparr>falsecount := falsecount c + 1\<rparr>) g))"

section \<open>A change that turns out to be none\<close>

definition falsecounts :: "idg \<Rightarrow> nat" where
  "falsecounts g = sum_list (map (\<lambda>c. case c of None \<Rightarrow> 0 | Some c \<Rightarrow> unat (falsecount c)) (nodes g))"

lemma sum_list_update_nat:
  "n < length xs \<Longrightarrow> sum_list (map f (xs[n := y])) + (f (xs ! n) :: nat) = sum_list (map f xs) + f y"
proof (induction xs arbitrary: n)
  case (Cons x xs)
  show ?case
  proof (cases n)
    case (Suc m)
    then show ?thesis using Cons.IH [of m] Cons.prems by simp
  qed simp
qed simp

lemma falsecounts_upd:
  "node g n = Inr c \<Longrightarrow> falsecounts (upd_node n f g) + unat (falsecount c) = falsecounts g + unat (falsecount (f c))"
  using node_length [of g n c]
    sum_list_update_nat [of n "nodes g" "\<lambda>c. case c of None \<Rightarrow> 0 | Some c \<Rightarrow> unat (falsecount c)" "Some (f c)"]
  by (simp add: falsecounts_def upd_node_def)

text \<open>
  The loop of \<open>propagate_no_change\<close> over the values of a table, with the recursive call
  for a node whose last affected predecessor is gone.
\<close>

function propagate_values :: "nat list \<Rightarrow> idg \<Rightarrow> idg res" where
  "propagate_values [] g = Inr g"
| "propagate_values (t # ts) g =
    res_bind (node g t) (\<lambda>c.
      if 0 < falsecount c then
        (if falsecount c - 1 = 0 then
           (let g' = upd_node t (\<lambda>c. c\<lparr>falsecount := falsecount c - 1, deleted := False,
                        recomputable := COMPUTE_DEPENDENCIES_FIRST\<rparr>) g in
            res_bind (out_values g' t) (\<lambda>us.
            res_bind (propagate_values us g') (\<lambda>g''. propagate_values ts g'')))
         else propagate_values ts (upd_node t (\<lambda>c. c\<lparr>falsecount := falsecount c - 1\<rparr>) g))
      else propagate_values ts g)"
  by pat_completeness auto

lemma falsecount_less: "0 < (w :: 14 word) \<Longrightarrow> unat (w - 1) < unat w"
  by (metis measure_unat word_gt_0)

lemma falsecounts_less:
  assumes "node g t = Inr c" "0 < falsecount c" "\<And>c. falsecount (f c) = falsecount c - 1"
  shows "falsecounts (upd_node t f g) < falsecounts g"
  using falsecounts_upd [OF assms(1), of f] falsecount_less [OF assms(2)] assms(3) by simp

lemma propagate_values_falsecounts:
  "propagate_values_dom (ts, g) \<Longrightarrow> propagate_values ts g = Inr g' \<Longrightarrow> falsecounts g' \<le> falsecounts g"
proof (induction ts g arbitrary: g' rule: propagate_values.pinduct)
  case (1 g)
  then show ?case by (simp add: propagate_values.psimps)
next
  case (2 t ts g)
  from 2(6) obtain c where c: "node g t = Inr c" by (auto simp: propagate_values.psimps(2) [OF 2(1)])
  let ?d = "upd_node t (\<lambda>c. c\<lparr>falsecount := falsecount c - 1, deleted := False,
      recomputable := COMPUTE_DEPENDENCIES_FIRST\<rparr>) g"
  let ?g1 = "upd_node t (\<lambda>c. c\<lparr>falsecount := falsecount c - 1\<rparr>) g"
  show ?case
  proof (cases "0 < falsecount c")
    case False
    with 2(6) c have "propagate_values ts g = Inr g'" by (simp add: propagate_values.psimps(2) [OF 2(1)])
    then show ?thesis using 2(5) [OF c False] by blast
  next
    case True
    show ?thesis
    proof (cases "falsecount c - 1 = 0")
      case z: False
      with 2(6) c True have "propagate_values ts ?g1 = Inr g'" by (simp add: propagate_values.psimps(2) [OF 2(1)])
      then have "falsecounts g' \<le> falsecounts ?g1" using 2(4) [OF c True z] by blast
      with falsecounts_less [OF c True, of "\<lambda>c. c\<lparr>falsecount := falsecount c - 1\<rparr>"] show ?thesis by simp
    next
      case z: True
      with 2(6) c True obtain us g2 where u: "out_values ?d t = Inr us" "propagate_values us ?d = Inr g2"
        "propagate_values ts g2 = Inr g'" by (auto simp: propagate_values.psimps(2) [OF 2(1)] Let_def)
      have "falsecounts g2 \<le> falsecounts ?d" using 2(2) [OF c True z refl u(1) u(2)] .
      moreover have "falsecounts g' \<le> falsecounts g2" using 2(3) [OF c True z refl u(1) u(2) u(3)] .
      ultimately show ?thesis
        using falsecounts_less [OF c True, of "\<lambda>c. c\<lparr>falsecount := falsecount c - 1, deleted := False,
      recomputable := COMPUTE_DEPENDENCIES_FIRST\<rparr>"] by simp
    qed
  qed
qed

termination propagate_values
  apply (relation "measures [\<lambda>(ts, g). falsecounts g, \<lambda>(ts, g). length ts]")
      apply simp
  subgoal for t ts g c g' us
    using falsecounts_less [of g t c] by simp
  subgoal premises p for t ts g c g' us g''
  proof -
    have "falsecounts g' < falsecounts g"
      unfolding p(4) using p(1,2) by (rule falsecounts_less) simp
    moreover have "falsecounts g'' \<le> falsecounts g'"
      using p(7,6) by (rule propagate_values_falsecounts)
    ultimately show ?thesis by simp
  qed
  subgoal for t ts g c
    using falsecounts_less [of g t c] by simp
  subgoal by simp
  done

definition propagate_no_change :: "nat option \<Rightarrow> idg \<Rightarrow> idg res" where
  "propagate_no_change c g =
    (case c of None \<Rightarrow> Inr g | Some n \<Rightarrow> res_bind (out_values g n) (\<lambda>ts. propagate_values ts g))"

section \<open>The calls to recompute\<close>

text \<open>
  What \<open>dfs_dependency_edges\<close> checks first. Without a completed table it throws (after
  freeing the list). \<open>find_the_visitors\<close> gives the choice points into the table answers of
  their own; of the graph it changes the number of visitors.
\<close>

definition find_the_visitors :: "nat \<Rightarrow> idg \<Rightarrow> idg" where
  "find_the_visitors n g = upd_node n (\<lambda>c. c\<lparr>cn_goal := map_option (\<lambda>sf. sf\<lparr>sf_visitors := 0\<rparr>) (cn_goal c)\<rparr>) g"

definition dependency_check :: "nat \<Rightarrow> callnode \<Rightarrow> idg \<Rightarrow> idg res" where
  "dependency_check n c g =
    (if idg_dyn_leaf c then Inr g
     else case cn_goal c of
            None \<Rightarrow> Inl Null_Pointer
          | Some sf \<Rightarrow>
              if \<not> sf_completed sf then Inl (Table_Error ''Incremental tabling is trying to invalidate an incomplete table'')
              else if 0 < sf_visitors sf then Inr (find_the_visitors n g) else Inr g)"

text \<open>
  As compiled, with \<open>ISO_INCR_TABLING\<close>, the function has no way to return
  \<open>CANNOT_UPDATE\<close>: its result is 0 and the pair is the graph and the list it leaves.
\<close>

function dfs_dependency_edges :: "nat \<Rightarrow> idg \<times> calllist \<Rightarrow> (idg \<times> calllist) res"
  and dfs_inedges :: "nat list \<Rightarrow> idg \<times> calllist \<Rightarrow> (idg \<times> calllist) res" where
  "dfs_dependency_edges n (g, l) =
    res_bind (node g n) (\<lambda>c. res_bind (dependency_check n c g) (\<lambda>g'.
      if recomputable c = COMPUTE_DEPENDENCIES_FIRST then
        res_bind (dfs_inedges (inedges c) (upd_node n (\<lambda>c. c\<lparr>recomputable := COMPUTE_DIRECTLY\<rparr>) g', l)) (\<lambda>(g2, l2).
          Inr (g2, if idg_dyn_leaf c then l2 else add_callnode n l2))
      else Inr (g', l)))"
| "dfs_inedges [] s = Inr s"
| "dfs_inedges (oe # es) (g, l) =
    res_bind (edge_source g oe) (\<lambda>m. res_bind (node g m) (\<lambda>c.
      if cn_goal c \<noteq> None \<and> 0 < falsecount c
      then res_bind (dfs_dependency_edges m (g, l)) (\<lambda>s. dfs_inedges es s)
      else dfs_inedges es (g, l)))"
  by pat_completeness auto

definition to_compute :: "idg \<Rightarrow> nat" where
  "to_compute g = count_nodes (\<lambda>c. recomputable c = COMPUTE_DEPENDENCIES_FIRST) g"

lemma dependency_check_cases:
  "dependency_check n c g = Inr g' \<Longrightarrow> g' = g \<or> g' = find_the_visitors n g"
  by (auto simp: dependency_check_def split: if_splits option.splits)

lemma find_the_visitors_simps [graph_simps]:
  "to_compute (find_the_visitors n g) = to_compute g"
  "node (find_the_visitors n g) m = (if m = n then res_bind (node g n)
     (\<lambda>c. Inr (c\<lparr>cn_goal := map_option (\<lambda>sf. sf\<lparr>sf_visitors := 0\<rparr>) (cn_goal c)\<rparr>)) else node g m)"
  by (simp_all add: find_the_visitors_def to_compute_def count_nodes_same graph_simps)

lemma to_compute_less:
  assumes "node g n = Inr c" "recomputable c = COMPUTE_DEPENDENCIES_FIRST" "dependency_check n c g = Inr g'"
  shows "Suc (to_compute (upd_node n (\<lambda>c. c\<lparr>recomputable := COMPUTE_DIRECTLY\<rparr>) g')) = to_compute g"
proof -
  obtain c' where c': "node g' n = Inr c'" "recomputable c' = recomputable c" "to_compute g' = to_compute g"
    using dependency_check_cases [OF assms(3)] assms(1) by (auto simp: graph_simps)
  from count_nodes_upd [OF c'(1), of "\<lambda>c. recomputable c = COMPUTE_DEPENDENCIES_FIRST"
      "\<lambda>c. c\<lparr>recomputable := COMPUTE_DIRECTLY\<rparr>"] c' assms(2)
  show ?thesis by (simp add: to_compute_def)
qed

lemma dependency_to_compute:
  "dfs_dependency_edges_dfs_inedges_dom (Inl (n, s)) \<Longrightarrow>
     (\<forall>s'. dfs_dependency_edges n s = Inr s' \<longrightarrow> to_compute (fst s') \<le> to_compute (fst s))"
  "dfs_dependency_edges_dfs_inedges_dom (Inr (es, s)) \<Longrightarrow>
     (\<forall>s'. dfs_inedges es s = Inr s' \<longrightarrow> to_compute (fst s') \<le> to_compute (fst s))"
proof (induction n s and es s rule: dfs_dependency_edges_dfs_inedges.pinduct)
  case (1 n g l)
  show ?case
  proof (intro allI impI)
    fix s' assume a: "dfs_dependency_edges n (g, l) = Inr s'"
    then obtain c g' where c: "node g n = Inr c" "dependency_check n c g = Inr g'"
      by (auto simp: dfs_dependency_edges.psimps [OF 1(1)])
    show "to_compute (fst s') \<le> to_compute (fst (g, l))"
    proof (cases "recomputable c = COMPUTE_DEPENDENCIES_FIRST")
      case True
      with a c obtain s2 where s2: "dfs_inedges (inedges c)
          (upd_node n (\<lambda>c. c\<lparr>recomputable := COMPUTE_DIRECTLY\<rparr>) g', l) = Inr s2" "fst s' = fst s2"
        by (auto simp: dfs_dependency_edges.psimps [OF 1(1)])
      with 1(2) [OF c True] have "to_compute (fst s') \<le> to_compute (upd_node n (\<lambda>c. c\<lparr>recomputable := COMPUTE_DIRECTLY\<rparr>) g')"
        by auto
      with to_compute_less [OF c(1) True c(2)] show ?thesis by simp
    next
      case False
      with a c have "fst s' = g'" by (auto simp: dfs_dependency_edges.psimps [OF 1(1)])
      with dependency_check_cases [OF c(2)] show ?thesis by (auto simp: graph_simps)
    qed
  qed
next
  case (2 s)
  then show ?case by (simp add: dfs_inedges.psimps)
next
  case (3 oe es g l)
  show ?case
  proof (intro allI impI)
    fix s' assume a: "dfs_inedges (oe # es) (g, l) = Inr s'"
    then obtain m c where c: "edge_source g oe = Inr m" "node g m = Inr c"
      by (auto simp: dfs_inedges.psimps(2) [OF 3(1)])
    show "to_compute (fst s') \<le> to_compute (fst (g, l))"
    proof (cases "cn_goal c \<noteq> None \<and> 0 < falsecount c")
      case True
      with a c obtain s2 where s2: "dfs_dependency_edges m (g, l) = Inr s2" "dfs_inedges es s2 = Inr s'"
        by (auto simp: dfs_inedges.psimps(2) [OF 3(1)])
      with 3(2) [OF c True] 3(3) [OF c True s2(1)] show ?thesis by fastforce
    next
      case False
      with a c have "dfs_inedges es (g, l) = Inr s'" by (auto simp: dfs_inedges.psimps(2) [OF 3(1)])
      with 3(4) [OF c False] show ?thesis by blast
    qed
  qed
qed

termination dfs_dependency_edges
  apply (relation "measures [\<lambda>x. case x of Inl (n, g, l) \<Rightarrow> to_compute g | Inr (es, g, l) \<Rightarrow> to_compute g,
      \<lambda>x. case x of Inl _ \<Rightarrow> 0 | Inr (es, g, l) \<Rightarrow> Suc (length es)]")
      apply simp
  subgoal for n g l c g'
    using to_compute_less [of g n c g'] by simp
  subgoal by simp
  subgoal premises p for oe es g l m c s
  proof -
    have "to_compute (fst s) \<le> to_compute g"
      using dependency_to_compute(1) [OF p(5)] p(4) by auto
    then show ?thesis by (cases s) auto
  qed
  subgoal by simp
  done

section \<open>Abolishing\<close>

text \<open>The nodes that were marked for deletion and are still in use lose their mark.\<close>

definition marked :: "idg \<Rightarrow> nat" where
  "marked g = count_nodes deleted g"

function unmark_inedges :: "nat list \<Rightarrow> idg \<Rightarrow> idg res" where
  "unmark_inedges [] g = Inr g"
| "unmark_inedges (oe # es) g =
    res_bind (edge_source g oe) (\<lambda>m. res_bind (node g m) (\<lambda>c.
      let g1 = upd_node m (\<lambda>c. c\<lparr>outcount := outcount c + 1\<rparr>) g in
      if deleted c then
        res_bind (unmark_inedges (inedges c) (upd_node m (\<lambda>c. c\<lparr>deleted := False\<rparr>) g1)) (\<lambda>g2. unmark_inedges es g2)
      else unmark_inedges es g1))"
  by pat_completeness auto

lemma marked_unmark:
  assumes "node g m = Inr c" "deleted c"
  shows "Suc (marked (upd_node m (\<lambda>c. c\<lparr>deleted := False\<rparr>) (upd_node m (\<lambda>c. c\<lparr>outcount := outcount c + 1\<rparr>) g))) = marked g"
  using count_nodes_upd [of "upd_node m (\<lambda>c. c\<lparr>outcount := outcount c + 1\<rparr>) g" m _ deleted "\<lambda>c. c\<lparr>deleted := False\<rparr>"]
    assms by (simp add: marked_def graph_simps count_nodes_same)

lemma unmark_marked:
  "unmark_inedges_dom (es, g) \<Longrightarrow> \<forall>g'. unmark_inedges es g = Inr g' \<longrightarrow> marked g' \<le> marked g"
proof (induction es g rule: unmark_inedges.pinduct)
  case (1 g)
  then show ?case by (simp add: unmark_inedges.psimps)
next
  case (2 oe es g)
  show ?case
  proof (intro allI impI)
    fix g' assume a: "unmark_inedges (oe # es) g = Inr g'"
    then obtain m c where c: "edge_source g oe = Inr m" "node g m = Inr c"
      by (auto simp: unmark_inedges.psimps(2) [OF 2(1)])
    let ?g1 = "upd_node m (\<lambda>c. c\<lparr>outcount := outcount c + 1\<rparr>) g"
    show "marked g' \<le> marked g"
    proof (cases "deleted c")
      case True
      with a c obtain g2 where g2: "unmark_inedges (inedges c) (upd_node m (\<lambda>c. c\<lparr>deleted := False\<rparr>) ?g1) = Inr g2"
        "unmark_inedges es g2 = Inr g'" by (auto simp: unmark_inedges.psimps(2) [OF 2(1)] Let_def)
      from 2(2) [OF c refl True] 2(3) [OF c refl True g2(1)] g2 marked_unmark [OF c(2) True]
      show ?thesis by fastforce
    next
      case False
      with a c have "unmark_inedges es ?g1 = Inr g'" by (auto simp: unmark_inedges.psimps(2) [OF 2(1)] Let_def)
      with 2(4) [OF c refl False] show ?thesis by (simp add: marked_def count_nodes_same)
    qed
  qed
qed

termination unmark_inedges
  apply (relation "measures [\<lambda>(es, g). marked g, \<lambda>(es, g). length es]")
     apply simp
  subgoal for oe es g m c g1 using marked_unmark [of g m c] by simp
  subgoal premises p for oe es g m c g1 g2
  proof -
    have "marked g2 < marked g"
      using unmark_marked [OF p(6)] p(5) marked_unmark [OF p(2,4)] unfolding p(3) by fastforce
    then show ?thesis by simp
  qed
  subgoal by (simp add: marked_def count_nodes_same)
  done

definition unmark :: "nat \<Rightarrow> idg \<Rightarrow> idg res" where
  "unmark n g =
    res_bind (node g n) (\<lambda>c. unmark_inedges (inedges c) (upd_node n (\<lambda>c. c\<lparr>deleted := False\<rparr>) g))"

section \<open>Looking at the graph\<close>

definition get_outedges_num :: "nat \<Rightarrow> idg \<Rightarrow> nat res" where
  "get_outedges_num n g = res_bind (out_table g n) (\<lambda>h. Inr (hashtable1_count h))"

text \<open>The nodes of a list that are no leaves.\<close>

fun non_leaves :: "idg \<Rightarrow> nat list \<Rightarrow> nat list res" where
  "non_leaves g [] = Inr []"
| "non_leaves g (n # ns) =
    res_bind (node g n) (\<lambda>c. res_bind (non_leaves g ns) (\<lambda>ms. Inr (if idg_dyn_leaf c then ms else n # ms)))"

text \<open>
  The items of the Prolog lists that these functions make, in order; where the item is
  the subgoal frame of a node, it is named by the node.
\<close>

definition immediate_affects_ptrlist :: "nat \<Rightarrow> idg \<Rightarrow> nat list res" where
  "immediate_affects_ptrlist n g = res_bind (out_values g n) (non_leaves g)"

definition immediate_affects_callnode_ptrlist :: "nat \<Rightarrow> idg \<Rightarrow> nat list res" where
  "immediate_affects_callnode_ptrlist n g = out_values g n"

definition immediate_depends_callnode_ptrlist :: "nat \<Rightarrow> idg \<Rightarrow> nat list res" where
  "immediate_depends_callnode_ptrlist n g =
    res_bind (node g n) (\<lambda>c. res_bind (edge_sources g (inedges c)) (non_leaves g))"

end
