(* ===== verification/Graph_Walks.thy ===== *)
theory Graph_Walks imports Call_Graph Hashtable_Laws begin

text \<open>
  What the walks over the dependency graph need of it, and the walk of
  \<open>invalidate_call\<close>: it comes to the calls that depend on a call, marks each once and
  counts for each how many of its predecessors are affected.
\<close>

section \<open>Reading a graph\<close>

definition succs :: "idg \<Rightarrow> nat \<Rightarrow> nat list" where
  "succs g n = (case out_table g n of Inl _ \<Rightarrow> [] | Inr h \<Rightarrow> map snd (ht_pairs h))"

definition is_deleted :: "idg \<Rightarrow> nat \<Rightarrow> bool" where
  "is_deleted g n = (case node g n of Inl _ \<Rightarrow> False | Inr c \<Rightarrow> deleted c)"

definition falsecount_of :: "idg \<Rightarrow> nat \<Rightarrow> 14 word" where
  "falsecount_of g n = (case node g n of Inl _ \<Rightarrow> 0 | Inr c \<Rightarrow> falsecount c)"

definition is_leaf :: "idg \<Rightarrow> nat \<Rightarrow> bool" where
  "is_leaf g n = (case node g n of Inl _ \<Rightarrow> False | Inr c \<Rightarrow> idg_dyn_leaf c)"

definition is_complete :: "idg \<Rightarrow> nat \<Rightarrow> bool" where
  "is_complete g n = (case node g n of Inl _ \<Rightarrow> False | Inr c \<Rightarrow>
     (case cn_goal c of None \<Rightarrow> False | Some sf \<Rightarrow> sf_completed sf))"

text \<open>A call that may be invalidated: a leaf, or a call whose table is complete.\<close>

definition invalidable :: "idg \<Rightarrow> nat \<Rightarrow> bool" where
  "invalidable g n \<longleftrightarrow> is_leaf g n \<or> is_complete g n"

text \<open>A call that is no leaf has a subgoal frame.\<close>

definition has_goal :: "idg \<Rightarrow> nat \<Rightarrow> bool" where
  "has_goal g n = (case node g n of Inl _ \<Rightarrow> False | Inr c \<Rightarrow> idg_dyn_leaf c \<or> cn_goal c \<noteq> None)"

abbreviation incomplete_error :: xsb_error where
  "incomplete_error \<equiv> Table_Error ''An incremental update is trying to invalidate the goal''"

lemma check_non_completed:
  assumes "node g n = Inr c" "has_goal g n"
  shows "dfs_outedges_check_non_completed c = (if invalidable g n then Inr () else Inl incomplete_error)"
  using assms by (auto simp: dfs_outedges_check_non_completed_def invalidable_def is_leaf_def is_complete_def has_goal_def
      split: option.splits)

lemma check_counted [simp]:
  "dfs_outedges_check_non_completed (c\<lparr>falsecount := f\<rparr>) = dfs_outedges_check_non_completed c"
  by (simp add: dfs_outedges_check_non_completed_def)

definition live :: "idg \<Rightarrow> nat set" where
  "live g = {n. \<exists>c. node g n = Inr c}"

text \<open>Every node has a good table, whose values are nodes that are not leaves.\<close>

definition walkable :: "idg \<Rightarrow> bool" where
  "walkable g \<longleftrightarrow> (\<forall>n \<in> live g. (\<exists>h. out_table g n = Inr h \<and> ht_ok h \<and> distinct (map snd (ht_pairs h))) \<and>
     (\<forall>v \<in> set (succs g n). v \<in> live g \<and> \<not> is_leaf g v))"

lemma walkableD:
  assumes "walkable g" "n \<in> live g"
  obtains h where "out_table g n = Inr h" "ht_ok h" "succs g n = map snd (ht_pairs h)" "distinct (succs g n)"
    "\<forall>v \<in> set (succs g n). v \<in> live g \<and> \<not> is_leaf g v"
  using assms unfolding walkable_def succs_def by fastforce

lemma live_less: "n \<in> live g \<Longrightarrow> n < length (nodes g)"
  by (auto simp: live_def dest: node_length)

lemma finite_live: "finite (live g)"
  by (rule finite_subset [of _ "{..< length (nodes g)}"]) (auto dest: live_less)

lemma card_live: "card (live g) \<le> length (nodes g)"
  using card_mono [of "{..< length (nodes g)}" "live g"] live_less by auto

lemma out_values_succs: "walkable g \<Longrightarrow> n \<in> live g \<Longrightarrow> out_values g n = Inr (succs g n)"
  by (erule (1) walkableD) (simp add: out_values_def walk_values_ok)

text \<open>The graphs differ in \<open>falsecount\<close>, \<open>deleted\<close> and \<open>recomputable\<close> only.\<close>

definition same_shape :: "idg \<Rightarrow> idg \<Rightarrow> bool" where
  "same_shape g g0 \<longleftrightarrow> length (nodes g) = length (nodes g0) \<and> oes g = oes g0 \<and>
     current_call_node_count_gl g = current_call_node_count_gl g0 \<and>
     current_call_edge_count_gl g = current_call_edge_count_gl g0 \<and>
     (\<forall>n. case node g0 n of Inl e \<Rightarrow> node g n = Inl e
          | Inr c0 \<Rightarrow> \<exists>f d r. node g n = Inr (c0\<lparr>falsecount := f, deleted := d, recomputable := r\<rparr>))"

lemma callnode_flags: "c\<lparr>falsecount := falsecount c, deleted := deleted c, recomputable := recomputable c\<rparr> = c"
  for c :: callnode
  by (cases c) simp

lemma same_shape_refl [simp]: "same_shape g g"
  unfolding same_shape_def
  by (auto split: sum.split intro!: exI callnode_flags [symmetric])

lemma same_shapeD:
  assumes "same_shape g g0"
  shows "out_table g n = out_table g0 n" "succs g n = succs g0 n" "live g = live g0"
    "is_leaf g n = is_leaf g0 n" "is_complete g n = is_complete g0 n" "length (nodes g) = length (nodes g0)"
proof -
  have o: "oes g = oes g0" and len: "length (nodes g) = length (nodes g0)" and
    n: "case node g0 n of Inl e \<Rightarrow> node g n = Inl e
      | Inr c0 \<Rightarrow> \<exists>f d r. node g n = Inr (c0\<lparr>falsecount := f, deleted := d, recomputable := r\<rparr>)" for n
    using assms unfolding same_shape_def by blast+
  have e: "edge_table g = edge_table g0" by (simp add: edge_table_def fun_eq_iff o)
  have "outedges_of g n = outedges_of g0 n" for n
    using n [of n] by (auto simp: outedges_of_def split: sum.splits)
  then show t: "out_table g n = out_table g0 n" for n
    by (simp add: out_table_def e)
  show "succs g n = succs g0 n" by (simp add: succs_def t)
  have "n \<in> live g \<longleftrightarrow> n \<in> live g0" for n
    using n [of n] by (auto simp: live_def split: sum.splits)
  then show "live g = live g0" by blast
  show "is_leaf g n = is_leaf g0 n" "is_complete g n = is_complete g0 n"
    using n [of n] by (auto simp: is_leaf_def is_complete_def split: sum.splits)
  show "length (nodes g) = length (nodes g0)" by (rule len)
qed

definition flags_only :: "(callnode \<Rightarrow> callnode) \<Rightarrow> bool" where
  "flags_only u \<longleftrightarrow> (\<forall>c. \<exists>f d r. u c = c\<lparr>falsecount := f, deleted := d, recomputable := r\<rparr>)"

lemma flags_only_id: "\<exists>f d r. c\<lparr>falsecount := a, deleted := b\<rparr> = c\<lparr>falsecount := f, deleted := d, recomputable := r\<rparr>"
proof -
  have "c\<lparr>falsecount := a, deleted := b\<rparr> = c\<lparr>falsecount := a, deleted := b, recomputable := recomputable c\<rparr>"
    by (cases c) simp
  then show ?thesis by blast
qed

lemma flags_only [simp]:
  "flags_only (\<lambda>c. c\<lparr>falsecount := f c\<rparr>)" "flags_only (\<lambda>c. c\<lparr>deleted := d c\<rparr>)"
  "flags_only (\<lambda>c. c\<lparr>falsecount := f c, deleted := d c, recomputable := r c\<rparr>)"
proof -
  have "c\<lparr>falsecount := x\<rparr> = c\<lparr>falsecount := x, deleted := deleted c, recomputable := recomputable c\<rparr>" for c :: callnode and x
    by (cases c) simp
  then show "flags_only (\<lambda>c. c\<lparr>falsecount := f c\<rparr>)" unfolding flags_only_def by blast
  have "c\<lparr>deleted := x\<rparr> = c\<lparr>falsecount := falsecount c, deleted := x, recomputable := recomputable c\<rparr>" for c :: callnode and x
    by (cases c) simp
  then show "flags_only (\<lambda>c. c\<lparr>deleted := d c\<rparr>)" unfolding flags_only_def by blast
  show "flags_only (\<lambda>c. c\<lparr>falsecount := f c, deleted := d c, recomputable := r c\<rparr>)"
    unfolding flags_only_def by blast
qed

lemma same_shape_upd:
  assumes "same_shape g g0" "flags_only u"
  shows "same_shape (upd_node n u g) g0"
  unfolding same_shape_def
proof (intro conjI allI)
  fix m
  have m: "case node g0 m of Inl e \<Rightarrow> node g m = Inl e
      | Inr c0 \<Rightarrow> \<exists>f d r. node g m = Inr (c0\<lparr>falsecount := f, deleted := d, recomputable := r\<rparr>)"
    using assms(1) unfolding same_shape_def by blast
  show "case node g0 m of Inl e \<Rightarrow> node (upd_node n u g) m = Inl e
      | Inr c0 \<Rightarrow> \<exists>f d r. node (upd_node n u g) m = Inr (c0\<lparr>falsecount := f, deleted := d, recomputable := r\<rparr>)"
  proof (cases "node g0 m")
    case (Inl e)
    with m show ?thesis by (auto simp: node_upd)
  next
    case (Inr c0)
    with m obtain f d r where c: "node g m = Inr (c0\<lparr>falsecount := f, deleted := d, recomputable := r\<rparr>)" by auto
    obtain f' d' r' where "u (c0\<lparr>falsecount := f, deleted := d, recomputable := r\<rparr>) =
        c0\<lparr>falsecount := f, deleted := d, recomputable := r\<rparr>\<lparr>falsecount := f', deleted := d', recomputable := r'\<rparr>"
      using assms(2) unfolding flags_only_def by blast
    then have "u (c0\<lparr>falsecount := f, deleted := d, recomputable := r\<rparr>) =
        c0\<lparr>falsecount := f', deleted := d', recomputable := r'\<rparr>" by simp
    with c have "node (upd_node n u g) m = Inr (c0\<lparr>falsecount := f', deleted := d', recomputable := r'\<rparr>) \<or>
        node (upd_node n u g) m = Inr (c0\<lparr>falsecount := f, deleted := d, recomputable := r\<rparr>)"
      by (cases "m = n") (simp_all add: node_upd)
    then have "\<exists>f d r. node (upd_node n u g) m = Inr (c0\<lparr>falsecount := f, deleted := d, recomputable := r\<rparr>)"
      by blast
    with Inr show ?thesis by simp
  qed
qed (use assms(1) in \<open>simp_all add: same_shape_def upd_node_def\<close>)

section \<open>The frames of \<open>dfs_outedges\<close>\<close>

text \<open>The nodes that a frame is still to come to.\<close>

definition pend :: "idg \<Rightarrow> dfs_frame \<Rightarrow> nat list" where
  "pend g f =
    (case fr_itr f of
       None \<Rightarrow> succs g (fr_cn f)
     | Some it \<Rightarrow> (case out_table g (fr_cn f) of Inl _ \<Rightarrow> [] | Inr h \<Rightarrow> map he_v (tl (itr_left h it))))"

definition pending :: "idg \<Rightarrow> dfs_frame list \<Rightarrow> nat list" where
  "pending g fs = concat (map (pend g) fs)"

definition frame_ok :: "idg \<Rightarrow> dfs_frame \<Rightarrow> bool" where
  "frame_ok g f \<longleftrightarrow> fr_cn f \<in> live g \<and>
     (\<forall>it. fr_itr f = Some it \<longrightarrow> (\<exists>h. out_table g (fr_cn f) = Inr h \<and> itr_ok h it \<and> itr_left h it \<noteq> []))"

lemma pending_Cons: "pending g (f # fs) = pend g f @ pending g fs"
  by (simp add: pending_def)

lemma itr_current:
  assumes "itr_ok h it" "itr_left h it \<noteq> []"
  shows "hashtable1_iterator_value it = Inr (he_v (hd (itr_left h it)))"
proof (cases "itr_rest it")
  case Nil
  with assms show ?thesis by (simp add: itr_ok_def itr_left_def)
qed (simp add: hashtable1_iterator_value_def itr_left_def)

lemma next_edge_pending:
  assumes "walkable g" "\<forall>f \<in> set fs. frame_ok g f"
  shows "\<exists>fs'. next_edge g fs = Inr fs' \<and>
    (case pending g fs of
       [] \<Rightarrow> fs' = []
     | n # ns \<Rightarrow> fs' \<noteq> [] \<and> frame_value (hd fs') = Inr n \<and> pending g fs' = ns \<and>
         (\<forall>f \<in> set fs'. frame_ok g f) \<and> length fs' \<le> length fs)"
  using assms(2)
proof (induction fs)
  case Nil
  then show ?case by (simp add: pending_def)
next
  case (Cons f fs)
  have ok: "frame_ok g f" using Cons.prems by simp
  then have l: "fr_cn f \<in> live g" by (simp add: frame_ok_def)
  obtain h where h: "out_table g (fr_cn f) = Inr h" "ht_ok h" "succs g (fr_cn f) = map snd (ht_pairs h)"
    using walkableD [OF assms(1) l] by metis
  have ps: "map snd (ht_pairs h) = map he_v (ht_entries h)" by (simp add: ht_pairs_def comp_def)
  have drop: ?case if "next_edge g (f # fs) = next_edge g fs" "pend g f = []"
  proof -
    have IH: "\<exists>fs'. next_edge g fs = Inr fs' \<and>
      (case pending g fs of [] \<Rightarrow> fs' = []
       | n # ns \<Rightarrow> fs' \<noteq> [] \<and> frame_value (hd fs') = Inr n \<and> pending g fs' = ns \<and>
           (\<forall>f \<in> set fs'. frame_ok g f) \<and> length fs' \<le> length fs)"
      using Cons by simp
    then obtain fs' where "next_edge g fs = Inr fs'" "case pending g fs of [] \<Rightarrow> fs' = []
       | n # ns \<Rightarrow> fs' \<noteq> [] \<and> frame_value (hd fs') = Inr n \<and> pending g fs' = ns \<and>
           (\<forall>f \<in> set fs'. frame_ok g f) \<and> length fs' \<le> length fs" by blast
    with that show ?thesis
      by (intro exI [of _ fs']) (simp add: pending_Cons split: list.splits)
  qed
  have step: ?case if st: "next_edge g (f # fs) = Inr (f\<lparr>fr_itr := Some it'\<rparr> # fs)" "itr_ok h it'"
    "itr_left h it' \<noteq> []" "pend g f = map he_v (itr_left h it')" for it'
  proof -
    obtain e es where e: "itr_left h it' = e # es" using st(3) by (cases "itr_left h it'") auto
    have "frame_ok g (f\<lparr>fr_itr := Some it'\<rparr>)" using l h st(2,3) by (simp add: frame_ok_def)
    moreover have "frame_value (f\<lparr>fr_itr := Some it'\<rparr>) = Inr (he_v e)"
      using itr_current [OF st(2,3)] e by (simp add: frame_value_def)
    moreover have "pend g (f\<lparr>fr_itr := Some it'\<rparr>) = map he_v es" using h e by (simp add: pend_def)
    ultimately show ?thesis using st(1,4) e Cons.prems by (auto simp: pending_Cons)
  qed
  show ?case
  proof (cases "fr_itr f")
    case None
    have p: "pend g f = map he_v (ht_entries h)" using None h ps by (simp add: pend_def)
    show ?thesis
    proof (cases "entrycount h = 0")
      case True
      with ht_okD(7) [OF h(2)] have "ht_entries h = []" by simp
      with True None h p show ?thesis by (intro drop) (simp_all add: hashtable1_count_def)
    next
      case False
      with ht_okD(7) [OF h(2)] have "ht_entries h \<noteq> []" by auto
      with False None h p iterator_start [OF h(2)] show ?thesis
        by (intro step [of "hashtable1_iterator h"]) (simp_all add: hashtable1_count_def)
    qed
  next
    case (Some it)
    have it: "itr_ok h it" using ok h Some by (simp add: frame_ok_def)
    obtain go it' where a: "hashtable1_iterator_advance h it = (go, it')" by fastforce
    note s = iterator_step [OF it a]
    have p: "pend g f = map he_v (tl (itr_left h it))" using Some h by (simp add: pend_def)
    show ?thesis
    proof (cases go)
      case True
      with s a Some h p show ?thesis by (intro step [of it']) simp_all
    next
      case False
      with s a Some h p show ?thesis by (intro drop) simp_all
    qed
  qed
qed

section \<open>Invalidating a call\<close>

text \<open>The calls that depend on \<open>r\<close> by way of calls that are not marked yet.\<close>

inductive_set affected :: "idg \<Rightarrow> nat \<Rightarrow> nat set" for g r where
  start: "r \<in> affected g r"
| depends: "m \<in> affected g r \<Longrightarrow> n \<in> set (succs g m) \<Longrightarrow> \<not> is_deleted g n \<Longrightarrow> n \<in> affected g r"

lemma affected_live: "walkable g \<Longrightarrow> r \<in> live g \<Longrightarrow> n \<in> affected g r \<Longrightarrow> n \<in> live g"
  by (rotate_tac 2, induction rule: affected.induct) (auto elim: walkableD)

lemma affected_leaf: "walkable g \<Longrightarrow> r \<in> live g \<Longrightarrow> n \<in> affected g r \<Longrightarrow> n \<noteq> r \<Longrightarrow> \<not> is_leaf g n \<and> \<not> is_deleted g n"
  by (erule affected.cases) (auto dest: affected_live elim: walkableD)

definition visited :: "idg \<Rightarrow> nat \<Rightarrow> idg \<Rightarrow> nat set" where
  "visited g0 r g = insert r {n. is_deleted g n \<and> \<not> is_deleted g0 n}"

definition pointing :: "idg \<Rightarrow> nat set \<Rightarrow> nat \<Rightarrow> nat set" where
  "pointing g V n = {m \<in> V. n \<in> set (succs g m)}"

definition marks_inv :: "idg \<Rightarrow> nat \<Rightarrow> idg \<Rightarrow> nat list \<Rightarrow> bool" where
  "marks_inv g0 r g ps \<longleftrightarrow>
     same_shape g g0 \<and> visited g0 r g \<subseteq> affected g0 r \<and> (\<forall>n. is_deleted g0 n \<longrightarrow> is_deleted g n) \<and>
     (\<forall>n \<in> set ps. \<exists>m \<in> visited g0 r g. n \<in> set (succs g0 m)) \<and>
     (\<forall>m \<in> visited g0 r g. \<forall>n \<in> set (succs g0 m). is_deleted g n \<or> n \<in> set ps) \<and>
     (\<forall>n \<in> live g0. falsecount_of g n + of_nat (count_list ps n) =
        falsecount_of g0 n + of_bool (n = r) + of_nat (card (pointing g0 (visited g0 r g) n))) \<and>
     (is_deleted g r \<or> is_leaf g0 r) \<and> (\<forall>n. is_deleted g n \<longrightarrow> is_leaf g0 n \<longrightarrow> is_deleted g0 n)"

lemma marks_invD:
  assumes "marks_inv g0 r g ps"
  shows "same_shape g g0" "visited g0 r g \<subseteq> affected g0 r" "is_deleted g0 n \<Longrightarrow> is_deleted g n"
    "n \<in> set ps \<Longrightarrow> \<exists>m \<in> visited g0 r g. n \<in> set (succs g0 m)"
    "m \<in> visited g0 r g \<Longrightarrow> n \<in> set (succs g0 m) \<Longrightarrow> is_deleted g n \<or> n \<in> set ps"
    "n \<in> live g0 \<Longrightarrow> falsecount_of g n + of_nat (count_list ps n) =
        falsecount_of g0 n + of_bool (n = r) + of_nat (card (pointing g0 (visited g0 r g) n))"
    "is_deleted g r \<or> is_leaf g0 r" "is_deleted g n \<Longrightarrow> is_leaf g0 n \<Longrightarrow> is_deleted g0 n"
  using assms unfolding marks_inv_def by blast+

lemma flags_upd:
  "falsecount_of (upd_node n (\<lambda>c. c\<lparr>falsecount := f c\<rparr>) g) m =
     (if m = n then (case node g n of Inl _ \<Rightarrow> 0 | Inr c \<Rightarrow> f c) else falsecount_of g m)"
  "is_deleted (upd_node n (\<lambda>c. c\<lparr>falsecount := f c\<rparr>) g) m = is_deleted g m"
  "falsecount_of (upd_node n (\<lambda>c. c\<lparr>deleted := d\<rparr>) g) m = falsecount_of g m"
  "is_deleted (upd_node n (\<lambda>c. c\<lparr>deleted := d\<rparr>) g) m = (if m = n \<and> n \<in> live g then d else is_deleted g m)"
  by (auto simp: falsecount_of_def is_deleted_def node_upd live_def split: sum.splits)

lemma count_list_distinct: "distinct xs \<Longrightarrow> count_list xs x = of_bool (x \<in> set xs)"
  by (induction xs) (auto simp: count_notin)

lemma falsecount_incr:
  "n \<in> live g \<Longrightarrow> falsecount_of (upd_node n (\<lambda>c. c\<lparr>falsecount := falsecount c + 1\<rparr>) g) m = falsecount_of g m + of_bool (m = n)"
  by (auto simp: falsecount_of_def node_upd live_def)

lemma succs_live: "succs g n \<noteq> [] \<Longrightarrow> n \<in> live g"
  by (cases "node g n") (simp_all add: succs_def out_table_def outedges_of_def live_def)

text \<open>An edge to a marked node is counted.\<close>

lemma marks_inv_count:
  assumes inv: "marks_inv g0 r g (n # ns)" and n: "n \<in> live g0" "is_deleted g n"
  shows "marks_inv g0 r (upd_node n (\<lambda>c. c\<lparr>falsecount := falsecount c + 1\<rparr>) g) ns"
proof -
  let ?g = "upd_node n (\<lambda>c. c\<lparr>falsecount := falsecount c + 1\<rparr>) g"
  note d = marks_invD [OF inv]
  have ng: "n \<in> live g" using n(1) same_shapeD(3) [OF d(1)] by simp
  have v: "visited g0 r ?g = visited g0 r g" by (simp add: visited_def flags_upd)
  have "falsecount_of ?g m + of_nat (count_list ns m) =
        falsecount_of g0 m + of_bool (m = r) + of_nat (card (pointing g0 (visited g0 r g) m))"
    if "m \<in> live g0" for m
  proof -
    have "falsecount_of ?g m + of_nat (count_list ns m) = falsecount_of g m + of_nat (count_list (n # ns) m)"
      using ng by (simp add: falsecount_incr)
    then show ?thesis using d(6) [OF that] by simp
  qed
  moreover have "same_shape ?g g0" by (intro same_shape_upd d(1) flags_only)
  moreover have "\<forall>m \<in> visited g0 r g. \<forall>x \<in> set (succs g0 m). is_deleted g x \<or> x \<in> set ns"
    using d(5) n(2) by fastforce
  moreover have "\<forall>x \<in> set ns. \<exists>m \<in> visited g0 r g. x \<in> set (succs g0 m)" using d(4) by simp
  ultimately show ?thesis
    using d(2,3,7,8) unfolding marks_inv_def v flags_upd(2) by blast
qed

text \<open>A new node is marked, and its edges are to be followed.\<close>

lemma marks_inv_mark:
  assumes inv: "marks_inv g0 r g (n # ns)" and n: "n \<in> live g0" "\<not> is_deleted g n" "n \<noteq> r" "\<not> is_leaf g0 n"
    and g0: "walkable g0"
  shows "marks_inv g0 r (upd_node n (\<lambda>c. c\<lparr>deleted := True\<rparr>)
    (upd_node n (\<lambda>c. c\<lparr>falsecount := falsecount c + 1\<rparr>) g)) (succs g0 n @ ns)"
    (is "marks_inv g0 r ?g _")
proof -
  note d = marks_invD [OF inv]
  have ng: "n \<in> live g" using n(1) same_shapeD(3) [OF d(1)] by simp
  then have ng': "n \<in> live (upd_node n (\<lambda>c. c\<lparr>falsecount := falsecount c + 1\<rparr>) g)"
    by (auto simp: live_def node_upd)
  have new: "n \<notin> visited g0 r g" using n(2,3) by (simp add: visited_def)
  have un: "\<not> is_deleted g0 n" using d(3) n(2) by blast
  have del: "is_deleted ?g m \<longleftrightarrow> m = n \<or> is_deleted g m" for m
    using ng' by (simp add: flags_upd)
  have v: "visited g0 r ?g = insert n (visited g0 r g)" unfolding visited_def del using un n(3) by auto
  obtain m where m: "m \<in> visited g0 r g" "n \<in> set (succs g0 m)" using d(4) [of n] by auto
  have aff: "n \<in> affected g0 r" using affected.depends [OF _ m(2) un] d(2) m(1) by blast
  have dist: "distinct (succs g0 n)" using walkableD [OF g0 n(1)] by metis
  have fin: "finite (pointing g0 (visited g0 r g) x)" for x
  proof (rule finite_subset [OF _ finite_subset [OF _ finite_live [of g0]]])
    show "pointing g0 (visited g0 r g) x \<subseteq> {m. succs g0 m \<noteq> []}" by (auto simp: pointing_def)
    show "{m. succs g0 m \<noteq> []} \<subseteq> live g0"
      using succs_live by blast
  qed
  have "falsecount_of ?g x + of_nat (count_list (succs g0 n @ ns) x) =
        falsecount_of g0 x + of_bool (x = r) + of_nat (card (pointing g0 (insert n (visited g0 r g)) x))"
    if x: "x \<in> live g0" for x
  proof -
    have "count_list (succs g0 n) x = of_bool (x \<in> set (succs g0 n))"
      using dist by (rule count_list_distinct)
    moreover have "pointing g0 (insert n (visited g0 r g)) x =
        (if x \<in> set (succs g0 n) then insert n (pointing g0 (visited g0 r g) x) else pointing g0 (visited g0 r g) x)"
      by (auto simp: pointing_def)
    moreover have "n \<notin> pointing g0 (visited g0 r g) x" using new by (simp add: pointing_def)
    ultimately have k: "card (pointing g0 (insert n (visited g0 r g)) x) =
        count_list (succs g0 n) x + card (pointing g0 (visited g0 r g) x)"
      using fin by simp
    have "falsecount_of ?g x + of_nat (count_list ns x) = falsecount_of g x + of_nat (count_list (n # ns) x)"
      using ng by (simp add: flags_upd(3) falsecount_incr)
    then show ?thesis
      using d(6) [OF x] unfolding k by (simp add: ac_simps)
  qed
  moreover have "\<forall>a \<in> set (succs g0 n @ ns). \<exists>m \<in> visited g0 r ?g. a \<in> set (succs g0 m)"
    using d(4) unfolding v by auto
  moreover have "\<forall>m \<in> visited g0 r ?g. \<forall>a \<in> set (succs g0 m). is_deleted ?g a \<or> a \<in> set (succs g0 n @ ns)"
    using d(5) unfolding v del by auto
  moreover have "same_shape ?g g0" by (intro same_shape_upd d(1) flags_only)
  ultimately show ?thesis
    using d(2,3,7,8) aff n(4) unfolding marks_inv_def v del by blast
qed

lemma same_shape_goal: "same_shape g g0 \<Longrightarrow> has_goal g n = has_goal g0 n"
  unfolding same_shape_def has_goal_def by (erule conjE)+ (drule spec [of _ n], auto split: sum.splits)

lemma next_edge_shape: "same_shape g g0 \<Longrightarrow> next_edge g fs = next_edge g0 fs"
proof (induction fs)
  case (Cons f fs)
  then have "next_edge g fs = next_edge g0 fs" "out_table g = out_table g0"
    by (simp_all add: fun_eq_iff same_shapeD(1))
  then show ?case by (simp only: next_edge.simps)
qed simp

lemma outedges_loop:
  assumes g0: "walkable g0" "r \<in> live g0" "\<forall>n \<in> affected g0 r. has_goal g0 n"
    "length (nodes g0) < 10000"
  shows "marks_inv g0 r g (pending g0 fs) \<Longrightarrow> \<forall>f \<in> set fs. frame_ok g0 f \<Longrightarrow>
    length fs \<le> card (visited g0 r g) \<Longrightarrow> \<forall>n \<in> visited g0 r g. invalidable g0 n \<Longrightarrow>
    (\<exists>g'. dfs_outedges_loop g fs = Inr g' \<and> marks_inv g0 r g' [] \<and> (\<forall>n \<in> visited g0 r g'. invalidable g0 n)) \<or>
    dfs_outedges_loop g fs = Inl incomplete_error \<and> (\<exists>n \<in> affected g0 r. \<not> invalidable g0 n)"
proof (induction g fs rule: dfs_outedges_loop.induct)
  case (1 g fs)
  note d = marks_invD [OF 1(3)]
  obtain fs' where n0: "next_edge g0 fs = Inr fs'" and fs': "case pending g0 fs of [] \<Rightarrow> fs' = []
      | n # ns \<Rightarrow> fs' \<noteq> [] \<and> frame_value (hd fs') = Inr n \<and> pending g0 fs' = ns \<and>
         (\<forall>f \<in> set fs'. frame_ok g0 f) \<and> length fs' \<le> length fs"
    using next_edge_pending [OF g0(1) 1(4)] by blast
  have nx: "next_edge g fs = Inr fs'" using n0 next_edge_shape [OF d(1)] by simp
  show ?case
  proof (cases "pending g0 fs")
    case Nil
    with fs' nx 1(3,6) show ?thesis by (simp add: dfs_outedges_loop.simps [of g fs])
  next
    case (Cons n ns)
    with fs' have f: "fs' \<noteq> []" "frame_value (hd fs') = Inr n" "pending g0 fs' = ns"
      "\<forall>f \<in> set fs'. frame_ok g0 f" "length fs' \<le> length fs" by simp_all
    then obtain fr frs where fr: "fs' = fr # frs" by (cases fs') auto
    with f have fv: "frame_value fr = Inr n" by simp
    obtain m where m: "m \<in> visited g0 r g" "n \<in> set (succs g0 m)" using d(4) [of n] Cons by auto
    have ml: "m \<in> live g0" using d(2) m(1) affected_live [OF g0(1,2)] by blast
    have n: "n \<in> live g0" "\<not> is_leaf g0 n" using walkableD [OF g0(1) ml] m(2) by metis+
    obtain c where c: "node g n = Inr c" using n(1) same_shapeD(3) [OF d(1)] by (auto simp: live_def)
    have inv: "marks_inv g0 r g (n # ns)" using 1(3) Cons by simp
    let ?g1 = "upd_node n (\<lambda>c. c\<lparr>falsecount := falsecount c + 1\<rparr>) g"
    let ?g2 = "upd_node n (\<lambda>c. c\<lparr>deleted := True\<rparr>) ?g1"
    show ?thesis
    proof (cases "deleted c")
      case True
      then have "is_deleted g n" using c by (simp add: is_deleted_def)
      then have i: "marks_inv g0 r ?g1 (pending g0 fs')" using marks_inv_count [OF inv n(1)] f(3) by simp
      have "visited g0 r ?g1 = visited g0 r g" by (simp add: visited_def flags_upd)
      note IH = 1(2) [OF nx fr fv c refl, unfolded this]
      have "dfs_outedges_loop g fs = dfs_outedges_loop ?g1 fs'"
        using True nx fr fv c by (simp add: dfs_outedges_loop.simps [of g fs])
      then show ?thesis using IH True i f(4,5) 1(5,6) fr by simp
    next
      case False
      then have nd: "\<not> is_deleted g n" using c by (simp add: is_deleted_def)
      then have nr: "n \<noteq> r" using d(7) n(2) by blast
      have "\<not> is_deleted g0 n" using d(3) nd by blast
      then have aff: "n \<in> affected g0 r" using affected.depends m d(2) by blast
      then have "has_goal g n" using g0(3) same_shape_goal [OF d(1)] by simp
      from check_non_completed [OF c this] have
        chk: "dfs_outedges_check_non_completed c = (if invalidable g0 n then Inr () else Inl incomplete_error)"
        using same_shapeD(4,5) [OF d(1)] by (simp add: invalidable_def)
      show ?thesis
      proof (cases "invalidable g0 n")
        case no: False
        then have "dfs_outedges_loop g fs = Inl incomplete_error"
          using False nx fr fv c chk by (simp add: dfs_outedges_loop.simps [of g fs])
        then show ?thesis using aff no by blast
      next
        case True
        note chk = chk [unfolded if_P [OF True]]
        have vis: "visited g0 r g \<subseteq> live g0" using d(2) affected_live [OF g0(1,2)] by blast
        have new: "n \<notin> visited g0 r g" using nd nr by (simp add: visited_def)
        have fin: "finite (visited g0 r g)" using vis finite_live finite_subset by blast
        have "card (insert n (visited g0 r g)) \<le> length (nodes g0)"
          using card_mono [OF finite_live, of "insert n (visited g0 r g)" g0] vis n(1) card_live [of g0] by simp
        with fin new have lt: "Suc (card (visited g0 r g)) \<le> length (nodes g0)" by simp
        then have "length fs' < 10000" using f(5) 1(5) g0(4) by linarith
        then have push: "push_dfs_frame n fs' = Inr (\<lparr>fr_itr = None, fr_cn = n\<rparr> # fs')"
          by (simp add: push_dfs_frame_def)
        have pend: "pending g0 (\<lparr>fr_itr = None, fr_cn = n\<rparr> # fs') = succs g0 n @ ns"
          using f(3) by (simp add: pending_Cons pend_def)
        have i: "marks_inv g0 r ?g2 (pending g0 (\<lparr>fr_itr = None, fr_cn = n\<rparr> # fs'))"
          unfolding pend using marks_inv_mark [OF inv n(1) nd nr n(2) g0(1)] .
        have "n \<in> live ?g1" using c by (simp add: live_def node_upd)
        then have v: "visited g0 r ?g2 = insert n (visited g0 r g)"
          using \<open>\<not> is_deleted g0 n\<close> nr unfolding visited_def by (auto simp: flags_upd)
        then have "length (\<lparr>fr_itr = None, fr_cn = n\<rparr> # fs') \<le> card (visited g0 r ?g2)"
          using fin new f(5) 1(5) by simp
        moreover have "\<forall>f \<in> set (\<lparr>fr_itr = None, fr_cn = n\<rparr> # fs'). frame_ok g0 f"
          using f(4) n(1) by (simp add: frame_ok_def)
        moreover have "\<forall>n \<in> visited g0 r ?g2. invalidable g0 n" unfolding v using 1(6) True by blast
        moreover have "dfs_outedges_loop g fs = dfs_outedges_loop ?g2 (\<lparr>fr_itr = None, fr_cn = n\<rparr> # fs')"
          using False nx fr fv c chk push by (simp add: dfs_outedges_loop.simps [of g fs])
        ultimately show ?thesis
          using 1(1) [OF nx fr fv c refl False chk, OF push i] by simp
      qed
    qed
  qed
qed

text \<open>
  What an invalidation does: when an affected call is not complete, it is the table error; otherwise
  the marks are the ones that were there and those of the affected calls, and each \<open>falsecount\<close>
  has grown by the number of affected predecessors (and by one at the call itself), in 14 bits.
\<close>

definition marked_exactly :: "idg \<Rightarrow> nat \<Rightarrow> idg \<Rightarrow> bool" where
  "marked_exactly g r g' \<longleftrightarrow> same_shape g' g \<and>
    (\<forall>n. is_deleted g' n \<longleftrightarrow> is_deleted g n \<or> n \<in> affected g r \<and> \<not> is_leaf g n) \<and>
    (\<forall>n \<in> live g. falsecount_of g' n =
       falsecount_of g n + of_bool (n = r) + of_nat (card (pointing g (affected g r) n)))"

lemma marks_inv_end:
  assumes g: "walkable g" and r: "r \<in> live g" "\<not> is_deleted g r" and inv: "marks_inv g r g' []"
  shows "visited g r g' = affected g r" "marked_exactly g r g'"
proof -
  note d = marks_invD [OF inv]
  have aff: "visited g r g' = affected g r"
  proof
    show "affected g r \<subseteq> visited g r g'"
    proof
      fix n assume "n \<in> affected g r"
      then show "n \<in> visited g r g'"
      proof induction
        case (depends m n)
        then show ?case using d(5) [of m n] by (auto simp: visited_def)
      qed (simp add: visited_def)
    qed
  qed (rule d(2))
  have "is_deleted g' n \<longleftrightarrow> is_deleted g n \<or> n \<in> affected g r \<and> \<not> is_leaf g n" for n
  proof (cases "n = r")
    case True
    have "is_deleted g' r \<Longrightarrow> \<not> is_leaf g r" using d(8) r(2) by blast
    with True d(7) r(2) affected.start [of r g] show ?thesis by auto
  next
    case False
    then have "n \<in> affected g r \<longleftrightarrow> is_deleted g' n \<and> \<not> is_deleted g n" unfolding aff [symmetric] by (simp add: visited_def)
    moreover have "n \<in> affected g r \<Longrightarrow> \<not> is_leaf g n" using affected_leaf [OF g r(1) _ False] by blast
    ultimately show ?thesis using d(3) by blast
  qed
  moreover have "falsecount_of g' n =
       falsecount_of g n + of_bool (n = r) + of_nat (card (pointing g (affected g r) n))" if "n \<in> live g" for n
    using d(6) [OF that] by (simp add: aff)
  ultimately show "marked_exactly g r g'" using d(1) by (simp add: marked_exactly_def)
  show "visited g r g' = affected g r" by (rule aff)
qed

lemma invalidate_result:
  assumes g: "walkable g" "length (nodes g) < 10000"
    and r: "r \<in> live g" "\<not> is_deleted g r" and goals: "\<forall>n \<in> affected g r. has_goal g n"
  shows "if \<forall>n \<in> affected g r. invalidable g n then \<exists>g'. invalidate_call r g = Inr g' \<and> marked_exactly g r g'
    else invalidate_call r g = Inl incomplete_error"
proof (cases "invalidable g r")
  case False
  obtain c where c: "node g r = Inr c" "\<not> deleted c" using r by (auto simp: live_def is_deleted_def)
  have "has_goal g r" using goals affected.start by blast
  then have "dfs_outedges_check_non_completed (c\<lparr>falsecount := falsecount c + 1\<rparr>) = Inl incomplete_error"
    using check_non_completed [OF c(1)] False by simp
  then have "invalidate_call r g = Inl incomplete_error"
    using c by (simp add: invalidate_call_def dfs_outedges_def node_upd)
  moreover have "\<not> (\<forall>n \<in> affected g r. invalidable g n)" using False affected.start by blast
  ultimately show ?thesis by simp
next
  case ir: True
  obtain c where c: "node g r = Inr c" "\<not> deleted c" using r by (auto simp: live_def is_deleted_def)
  let ?g1 = "upd_node r (\<lambda>c. c\<lparr>falsecount := falsecount c + 1\<rparr>) g"
  define g2 where "g2 = (if idg_dyn_leaf c then ?g1 else upd_node r (\<lambda>c. c\<lparr>deleted := True\<rparr>) ?g1)"
  obtain h where h: "out_table g r = Inr h" "ht_ok h" "succs g r = map snd (ht_pairs h)" "distinct (succs g r)"
    using walkableD [OF g(1) r(1)] by metis
  have lv: "r \<in> live ?g1" using c by (simp add: live_def node_upd)
  have sh: "same_shape g2 g" unfolding g2_def by (auto intro!: same_shape_upd)
  have leaf: "is_leaf g r = idg_dyn_leaf c" using c by (simp add: is_leaf_def)
  have del: "is_deleted g2 n \<longleftrightarrow> is_deleted g n \<or> n = r \<and> \<not> is_leaf g r" for n
    using lv by (auto simp: g2_def flags_upd leaf)
  have fc: "falsecount_of g2 n = falsecount_of g n + of_bool (n = r)" for n
    using r(1) by (simp add: g2_def flags_upd(3) falsecount_incr)
  have vis: "visited g r g2 = {r}" using r(2) by (auto simp: visited_def del)
  have hg: "has_goal g r" using goals affected.start by blast
  have chk: "dfs_outedges_check_non_completed (c\<lparr>falsecount := falsecount c + 1\<rparr>) = Inr ()"
    using check_non_completed [OF c(1) hg] ir by simp
  have inv: "marks_inv g r g2 (succs g r)"
  proof -
    have "count_list (succs g r) n = card (pointing g {r} n)" for n
    proof -
      have "pointing g {r} n = (if n \<in> set (succs g r) then {r} else {})" by (auto simp: pointing_def)
      then show ?thesis using count_list_distinct [OF h(4), of n] by simp
    qed
    then show ?thesis
      using sh affected.start [of r g] unfolding marks_inv_def vis del fc by auto
  qed
  define fs where "fs = (if 0 < hashtable1_count h then [\<lparr>fr_itr = None, fr_cn = r\<rparr>] else [])"
  have call: "invalidate_call r g = dfs_outedges_loop g2 fs"
    using c chk h(1) same_shapeD(1) [OF sh, of r]
    by (simp add: invalidate_call_def dfs_outedges_def node_upd push_dfs_frame_def fs_def g2_def)
  have pend: "pending g fs = succs g r"
  proof (cases "entrycount h = 0")
    case True
    with ht_okD(7) [OF h(2)] have "succs g r = []" by (simp add: h(3) ht_pairs_def)
    with True show ?thesis by (simp add: fs_def hashtable1_count_def pending_def)
  qed (simp add: fs_def hashtable1_count_def pending_def pend_def)
  have "\<forall>f \<in> set fs. frame_ok g f" using r(1) by (simp add: fs_def frame_ok_def)
  moreover have "length fs \<le> card (visited g r g2)" by (simp add: fs_def vis)
  moreover have "\<forall>n \<in> visited g r g2. invalidable g n" using ir by (simp add: vis)
  ultimately consider (all) g' where "dfs_outedges_loop g2 fs = Inr g'" "marks_inv g r g' []"
      "\<forall>n \<in> visited g r g'. invalidable g n"
    | (error) "invalidate_call r g = Inl incomplete_error" "\<not> (\<forall>n \<in> affected g r. invalidable g n)"
    using outedges_loop [OF g(1) r(1) goals g(2), of g2 fs] inv pend call by auto
  then show ?thesis
  proof cases
    case (all g')
    then show ?thesis using marks_inv_end [OF g(1) r all(2)] call by auto
  qed simp
qed

lemma invalidate_marks:
  assumes "walkable g" "length (nodes g) < 10000" "r \<in> live g" "\<not> is_deleted g r"
    and "\<forall>n \<in> affected g r. is_leaf g n \<or> is_complete g n"
  shows "\<exists>g'. invalidate_call r g = Inr g' \<and> same_shape g' g \<and>
    (\<forall>n. is_deleted g' n \<longleftrightarrow> is_deleted g n \<or> n \<in> affected g r \<and> \<not> is_leaf g n) \<and>
    (\<forall>n \<in> live g. falsecount_of g' n =
       falsecount_of g n + of_bool (n = r) + of_nat (card (pointing g (affected g r) n)))"
proof -
  have "\<forall>n \<in> affected g r. has_goal g n \<and> invalidable g n"
    using assms(5) by (fastforce simp: has_goal_def invalidable_def is_leaf_def is_complete_def split: sum.splits option.splits)
  then show ?thesis using invalidate_result [OF assms(1-4)] by (auto simp: marked_exactly_def)
qed

end
