(* ===== verification/Graph_Restore.thy ===== *)
theory Graph_Restore imports Graph_Walks begin

text \<open>
  An invalidation that turns out to be without effect: over an acyclic part of the graph,
  \<open>propagate_no_change\<close> takes back what \<open>invalidate_call\<close> did to the dependent calls.
\<close>

definition deps :: "idg \<Rightarrow> nat \<Rightarrow> (nat \<times> nat) set" where
  "deps g r = {(m, n). m \<in> affected g r \<and> n \<in> set (succs g m)}"

text \<open>The dependent calls that still have an affected predecessor.\<close>

definition waiting :: "idg \<Rightarrow> nat \<Rightarrow> idg \<Rightarrow> nat set" where
  "waiting g0 r g = {n \<in> affected g0 r. n \<noteq> r \<and> falsecount_of g n \<noteq> 0}"

definition restore_inv :: "idg \<Rightarrow> nat \<Rightarrow> idg \<Rightarrow> idg \<Rightarrow> nat list \<Rightarrow> bool" where
  "restore_inv g0 r g1 g ps \<longleftrightarrow> same_shape g g0 \<and>
     (\<forall>n. n \<notin> affected g0 r \<or> n = r \<longrightarrow> falsecount_of g n = falsecount_of g1 n \<and> is_deleted g n = is_deleted g1 n) \<and>
     (\<forall>n \<in> set ps. n \<in> affected g0 r \<and> n \<noteq> r) \<and>
     (\<forall>n \<in> affected g0 r. n \<noteq> r \<longrightarrow> (is_deleted g n \<longleftrightarrow> falsecount_of g n \<noteq> 0) \<and>
        unat (falsecount_of g n) = count_list ps n + card (pointing g0 (waiting g0 r g) n))"

lemma restore_invD:
  assumes "restore_inv g0 r g1 g ps"
  shows "same_shape g g0"
    "n \<notin> affected g0 r \<or> n = r \<Longrightarrow> falsecount_of g n = falsecount_of g1 n \<and> is_deleted g n = is_deleted g1 n"
    "n \<in> set ps \<Longrightarrow> n \<in> affected g0 r \<and> n \<noteq> r"
    "n \<in> affected g0 r \<Longrightarrow> n \<noteq> r \<Longrightarrow> is_deleted g n \<longleftrightarrow> falsecount_of g n \<noteq> 0"
    "n \<in> affected g0 r \<Longrightarrow> n \<noteq> r \<Longrightarrow>
       unat (falsecount_of g n) = count_list ps n + card (pointing g0 (waiting g0 r g) n)"
  using assms unfolding restore_inv_def by blast+

lemma flags_upd_all:
  "falsecount_of (upd_node n (\<lambda>c. c\<lparr>falsecount := f c, deleted := d, recomputable := x\<rparr>) g) m =
     (if m = n then (case node g n of Inl _ \<Rightarrow> 0 | Inr c \<Rightarrow> f c) else falsecount_of g m)"
  "is_deleted (upd_node n (\<lambda>c. c\<lparr>falsecount := f c, deleted := d, recomputable := x\<rparr>) g) m =
     (if m = n \<and> n \<in> live g then d else is_deleted g m)"
  by (auto simp: falsecount_of_def is_deleted_def node_upd live_def split: sum.splits)

lemma finite_pointing: "finite (pointing g V n)"
proof (rule finite_subset [OF _ finite_live [of g]])
  show "pointing g V n \<subseteq> live g"
  proof
    fix m assume "m \<in> pointing g V n"
    then have "succs g m \<noteq> []" by (auto simp: pointing_def)
    then show "m \<in> live g" by (rule succs_live)
  qed
qed

lemma propagate_values_append:
  "propagate_values (us @ ts) g = res_bind (propagate_values us g) (propagate_values ts)"
proof (induction us g rule: propagate_values.induct)
  case (2 t us g)
  show ?case
  proof (cases "node g t")
    case (Inr c)
    let ?d = "upd_node t (\<lambda>c. c\<lparr>falsecount := falsecount c - 1, deleted := False,
                        recomputable := COMPUTE_DEPENDENCIES_FIRST\<rparr>) g"
    show ?thesis
    proof (cases "0 < falsecount c \<and> falsecount c - 1 = 0")
      case True
      show ?thesis
      proof (cases "out_values ?d t")
        case (Inl e)
        with Inr True show ?thesis by (simp add: Let_def)
      next
        case v: (Inr vs)
        show ?thesis
        proof (cases "propagate_values vs ?d")
          case (Inl e)
          with Inr True v show ?thesis by (simp add: Let_def)
        next
          case p: (Inr g2)
          have "propagate_values (us @ ts) g2 = res_bind (propagate_values us g2) (propagate_values ts)"
            using 2(2) [OF Inr] True v p by blast
          with Inr True v p show ?thesis by (simp add: Let_def)
        qed
      qed
    next
      case False
      with 2 Inr show ?thesis by (cases "0 < falsecount c") simp_all
    qed
  qed simp
qed simp

lemma waiting_last:
  assumes inv: "restore_inv g0 r g1 g (t # ts)" and one: "falsecount_of g t = 1"
    and g0: "walkable g0" "r \<in> live g0" and acyclic: "acyclic (deps g0 r)"
    and closed: "\<forall>m \<in> affected g0 r. set (succs g0 m) \<subseteq> affected g0 r"
  shows "restore_inv g0 r g1 (upd_node t (\<lambda>c. c\<lparr>falsecount := falsecount c - 1, deleted := False,
      recomputable := COMPUTE_DEPENDENCIES_FIRST\<rparr>) g) (succs g0 t @ ts)"
    (is "restore_inv g0 r g1 ?g _")
proof -
  note d = restore_invD [OF inv]
  have t: "t \<in> affected g0 r" "t \<noteq> r" using d(3) [of t] by simp_all
  have tl0: "t \<in> live g0" using affected_live [OF g0 t(1)] .
  then have tl: "t \<in> live g" using same_shapeD(3) [OF d(1)] by simp
  have self: "(r, n) \<notin> (deps g0 r)\<inverse> \<or> n \<notin> affected g0 r" for n
  proof (rule ccontr)
    assume "\<not> ?thesis"
    then have n: "(n, r) \<in> deps g0 r" "n \<in> affected g0 r" by auto
    from n(2) have "(r, n) \<in> (deps g0 r)\<^sup>*"
      by induction (auto simp: deps_def intro: rtrancl_into_rtrancl)
    with n(1) acyclic show False by (meson acyclic_def rtrancl_into_trancl1)
  qed
  have nr: "r \<notin> set (succs g0 t)" using self [of t] t(1) by (auto simp: deps_def)
  have nt: "t \<notin> set (succs g0 t)" using acyclic t(1) by (auto simp: deps_def acyclic_def)
  have fc: "falsecount_of ?g n = (if n = t then 0 else falsecount_of g n)" for n
    using one tl unfolding flags_upd_all by (auto simp: falsecount_of_def live_def)
  have del: "is_deleted ?g n = (if n = t then False else is_deleted g n)" for n
    using tl by (simp add: flags_upd_all)
  have w: "waiting g0 r ?g = waiting g0 r g - {t}" by (auto simp: waiting_def fc)
  have tw: "t \<in> waiting g0 r g" using t one by (simp add: waiting_def)
  have dist: "distinct (succs g0 t)" using walkableD [OF g0(1) tl0] by metis
  have p: "card (pointing g0 (waiting g0 r g) n) =
      count_list (succs g0 t) n + card (pointing g0 (waiting g0 r g - {t}) n)" for n
  proof -
    have "pointing g0 (waiting g0 r g) n =
        (if n \<in> set (succs g0 t) then insert t (pointing g0 (waiting g0 r g - {t}) n)
         else pointing g0 (waiting g0 r g - {t}) n)"
      using tw by (auto simp: pointing_def)
    moreover have "t \<notin> pointing g0 (waiting g0 r g - {t}) n" by (simp add: pointing_def)
    ultimately show ?thesis using count_list_distinct [OF dist, of n] finite_pointing by simp
  qed
  have "unat (falsecount_of ?g n) = count_list (succs g0 t @ ts) n + card (pointing g0 (waiting g0 r ?g) n)"
    if n: "n \<in> affected g0 r" "n \<noteq> r" for n
  proof (cases "n = t")
    case False
    with d(5) [OF n] p [of n] show ?thesis by (simp add: fc w)
  next
    case True
    have "Suc (count_list ts t) + card (pointing g0 (waiting g0 r g) t) = 1" using d(5) [OF t] one by simp
    with True p [of t] show ?thesis by (simp add: fc w)
  qed
  moreover have "same_shape ?g g0" by (intro same_shape_upd d(1) flags_only)
  moreover have "\<forall>n \<in> set (succs g0 t @ ts). n \<in> affected g0 r \<and> n \<noteq> r"
    using closed t(1) nr d(3) by auto
  ultimately show ?thesis
    using d(2,4) t unfolding restore_inv_def fc del by auto
qed

lemma waiting_more:
  assumes inv: "restore_inv g0 r g1 g (t # ts)" and more: "falsecount_of g t \<noteq> 1"
    and g0: "walkable g0" "r \<in> live g0"
  shows "restore_inv g0 r g1 (upd_node t (\<lambda>c. c\<lparr>falsecount := falsecount c - 1\<rparr>) g) ts"
    (is "restore_inv g0 r g1 ?g _")
proof -
  note d = restore_invD [OF inv]
  have t: "t \<in> affected g0 r" "t \<noteq> r" using d(3) [of t] by simp_all
  have tl: "t \<in> live g" using affected_live [OF g0 t(1)] same_shapeD(3) [OF d(1)] by simp
  have fc: "falsecount_of ?g n = falsecount_of g n - of_bool (n = t)" for n
    using tl unfolding flags_upd by (auto simp: falsecount_of_def live_def)
  have del: "is_deleted ?g n = is_deleted g n" for n by (simp add: flags_upd)
  have pos: "0 < unat (falsecount_of g t)" using d(5) [OF t] by simp
  then have nz: "falsecount_of g t \<noteq> 0" by (metis unat_0 less_irrefl)
  then have u: "unat (falsecount_of g t - 1) = unat (falsecount_of g t) - 1"
    by (simp add: unat_minus_one)
  have nz': "falsecount_of g t - 1 \<noteq> 0" using more by simp
  have w: "waiting g0 r ?g = waiting g0 r g" using nz nz' by (auto simp: waiting_def fc)
  have "unat (falsecount_of ?g n) = count_list ts n + card (pointing g0 (waiting g0 r ?g) n)"
    if n: "n \<in> affected g0 r" "n \<noteq> r" for n
    using d(5) [OF n] u pos by (cases "n = t") (simp_all add: fc w)
  moreover have "is_deleted ?g n \<longleftrightarrow> falsecount_of ?g n \<noteq> 0" if n: "n \<in> affected g0 r" "n \<noteq> r" for n
    using d(4) [OF n] nz nz' by (cases "n = t") (simp_all add: fc del)
  moreover have "same_shape ?g g0" by (intro same_shape_upd d(1) flags_only)
  ultimately show ?thesis
    using d(2,3) t unfolding restore_inv_def del by (auto simp: fc)
qed

lemma propagate_restores:
  assumes g0: "walkable g0" "r \<in> live g0" and acyclic: "acyclic (deps g0 r)"
    and closed: "\<forall>m \<in> affected g0 r. set (succs g0 m) \<subseteq> affected g0 r"
  shows "restore_inv g0 r g1 g (ts @ rest) \<Longrightarrow>
    \<exists>g'. propagate_values ts g = Inr g' \<and> restore_inv g0 r g1 g' rest"
proof (induction ts g arbitrary: rest rule: propagate_values.induct)
  case (1 g)
  then show ?case by simp
next
  case (2 t ts g)
  have inv: "restore_inv g0 r g1 g (t # (ts @ rest))" using 2(5) by simp
  note d = restore_invD [OF inv]
  have t: "t \<in> affected g0 r" "t \<noteq> r" using d(3) [of t] by simp_all
  have tl0: "t \<in> live g0" using affected_live [OF g0 t(1)] .
  then obtain c where c: "node g t = Inr c" using same_shapeD(3) [OF d(1)] by (auto simp: live_def)
  then have fc: "falsecount_of g t = falsecount c" by (simp add: falsecount_of_def)
  have "0 < unat (falsecount_of g t)" using d(5) [OF t] by simp
  then have pos: "0 < falsecount c" unfolding fc by (simp add: word_less_nat_alt)
  let ?d = "upd_node t (\<lambda>c. c\<lparr>falsecount := falsecount c - 1, deleted := False,
                        recomputable := COMPUTE_DEPENDENCIES_FIRST\<rparr>) g"
  show ?case
  proof (cases "falsecount c - 1 = 0")
    case True
    have inv': "restore_inv g0 r g1 ?d (succs g0 t @ ts @ rest)"
      using waiting_last [OF inv _ g0 acyclic closed] True fc by simp
    have sh: "same_shape ?d g0" using restore_invD(1) [OF inv'] .
    have "walkable ?d"
      using g0(1) unfolding walkable_def same_shapeD(1-4) [OF sh] .
    then have ov: "out_values ?d t = Inr (succs g0 t)"
      using out_values_succs [of ?d t] tl0 same_shapeD(2,3) [OF sh] by simp
    obtain g2 where g2: "propagate_values (succs g0 t) ?d = Inr g2" "restore_inv g0 r g1 g2 (ts @ rest)"
      using 2(1) [OF c pos True refl ov inv'] by blast
    obtain g' where "propagate_values ts g2 = Inr g'" "restore_inv g0 r g1 g' rest"
      using 2(2) [OF c pos True refl ov g2] by blast
    with c pos True ov g2 show ?thesis by (simp add: Let_def)
  next
    case False
    have "restore_inv g0 r g1 (upd_node t (\<lambda>c. c\<lparr>falsecount := falsecount c - 1\<rparr>) g) (ts @ rest)"
      using waiting_more [OF inv _ g0] False fc by simp
    from 2(3) [OF c pos False this] c pos False show ?thesis by simp
  qed
qed

text \<open>Nothing waits in the end, as something would have to wait for it forever.\<close>

lemma none_waiting:
  assumes inv: "restore_inv g0 r g1 g []" and g0: "walkable g0" "r \<in> live g0" and acyclic: "acyclic (deps g0 r)"
  shows "waiting g0 r g = {}"
proof (rule ccontr)
  assume ne: "waiting g0 r g \<noteq> {}"
  note d = restore_invD [OF inv]
  have "deps g0 r \<subseteq> live g0 \<times> live g0"
  proof
    fix e assume "e \<in> deps g0 r"
    then obtain m n where e: "e = (m, n)" "m \<in> affected g0 r" "n \<in> set (succs g0 m)" by (auto simp: deps_def)
    have m: "m \<in> live g0" using affected_live [OF g0 e(2)] .
    have "n \<in> live g0" using walkableD [OF g0(1) m] e(3) by metis
    with m e(1) show "e \<in> live g0 \<times> live g0" by simp
  qed
  then have "finite (deps g0 r)" using finite_live finite_subset by (metis finite_SigmaI)
  then have "wf (deps g0 r)" using acyclic by (simp add: finite_acyclic_wf)
  moreover obtain x where "x \<in> waiting g0 r g" using ne by blast
  ultimately obtain n where n: "n \<in> waiting g0 r g" "\<And>m. (m, n) \<in> deps g0 r \<Longrightarrow> m \<notin> waiting g0 r g"
    by (rule wfE_min) blast
  have a: "n \<in> affected g0 r" "n \<noteq> r" "falsecount_of g n \<noteq> 0" using n(1) by (simp_all add: waiting_def)
  then have "0 < card (pointing g0 (waiting g0 r g) n)"
    using d(5) [OF a(1,2)] by (cases "card (pointing g0 (waiting g0 r g) n)") (simp_all add: unat_eq_zero)
  then obtain m where "m \<in> pointing g0 (waiting g0 r g) n" by (auto simp: card_gt_0_iff)
  then have "m \<in> waiting g0 r g" "(m, n) \<in> deps g0 r"
    by (auto simp: pointing_def deps_def waiting_def)
  with n(2) show False by blast
qed

lemma invalidate_restored:
  assumes g: "walkable g" "length (nodes g) < 10000" and r: "r \<in> live g"
    and complete: "\<forall>n \<in> affected g r. is_leaf g n \<or> is_complete g n"
    and clean: "\<forall>n \<in> live g. \<not> is_deleted g n \<and> falsecount_of g n = 0"
    and acyclic: "acyclic (deps g r)"
  shows "\<exists>g1 g2. invalidate_call r g = Inr g1 \<and> propagate_no_change (Some r) g1 = Inr g2 \<and>
    same_shape g2 g \<and> falsecount_of g2 r = 1 \<and> (\<forall>n \<in> live g. n \<noteq> r \<longrightarrow> \<not> is_deleted g2 n \<and> falsecount_of g2 n = 0)"
proof -
  have nd: "\<not> is_deleted g n" for n using clean by (auto simp: is_deleted_def live_def split: sum.splits)
  obtain g1 where g1: "invalidate_call r g = Inr g1" "same_shape g1 g"
    "\<And>n. is_deleted g1 n \<longleftrightarrow> n \<in> affected g r \<and> \<not> is_leaf g n"
    "\<And>n. n \<in> live g \<Longrightarrow> falsecount_of g1 n = of_bool (n = r) + of_nat (card (pointing g (affected g r) n))"
    using invalidate_marks [OF g r nd complete] nd clean by auto
  have closed: "\<forall>m \<in> affected g r. set (succs g m) \<subseteq> affected g r"
    using nd by (auto intro: affected.depends)
  have small: "card (pointing g (affected g r) n) < 10000" for n
  proof -
    have "pointing g (affected g r) n \<subseteq> live g"
      using affected_live [OF g(1) r] by (auto simp: pointing_def)
    then have "card (pointing g (affected g r) n) \<le> card (live g)" by (rule card_mono [OF finite_live])
    with card_live [of g] g(2) show ?thesis by linarith
  qed
  have r0: "pointing g (affected g r) r = {}"
  proof (rule ccontr)
    assume "\<not> ?thesis"
    then obtain n where n: "n \<in> affected g r" "(n, r) \<in> deps g r" by (auto simp: pointing_def deps_def)
    from n(1) have "(r, n) \<in> (deps g r)\<^sup>*"
      by induction (auto simp: deps_def intro: rtrancl_into_rtrancl)
    with n(2) acyclic show False by (meson acyclic_def rtrancl_into_trancl1)
  qed
  have fc: "unat (falsecount_of g1 n) = card (pointing g (affected g r) n)" if "n \<in> live g" "n \<noteq> r" for n
  proof -
    have "unat (of_nat (card (pointing g (affected g r) n)) :: 14 word) = card (pointing g (affected g r) n)"
      using small [of n] by (simp add: unat_of_nat take_bit_nat_eq_self)
    then show ?thesis using g1(4) [OF that(1)] that(2) by simp
  qed
  have ne: "pointing g (affected g r) n \<noteq> {}" if "n \<in> affected g r" "n \<noteq> r" for n
    using that by (cases rule: affected.cases) (auto simp: pointing_def)
  have nz: "falsecount_of g1 n \<noteq> 0" if a: "n \<in> affected g r" "n \<noteq> r" for n
    using fc [OF affected_live [OF g(1) r a(1)] a(2)] ne [OF a] finite_pointing
    by (metis card_0_eq unat_0)
  have w: "waiting g r g1 = affected g r - {r}" using nz by (auto simp: waiting_def)
  have dist: "distinct (succs g r)" using walkableD [OF g(1) r] by metis
  have inv: "restore_inv g r g1 g1 (succs g r @ [])"
  proof -
    have "r \<notin> set (succs g r)" using r0 affected.start [of r g] by (auto simp: pointing_def)
    moreover have "card (pointing g (affected g r) n) = count_list (succs g r) n + card (pointing g (affected g r - {r}) n)" for n
    proof -
      have "pointing g (affected g r) n = (if n \<in> set (succs g r) then insert r (pointing g (affected g r - {r}) n)
          else pointing g (affected g r - {r}) n)"
        using affected.start [of r g] by (auto simp: pointing_def)
      moreover have "r \<notin> pointing g (affected g r - {r}) n" by (simp add: pointing_def)
      ultimately show ?thesis using count_list_distinct [OF dist, of n] finite_pointing by simp
    qed
    moreover have "is_deleted g1 n \<longleftrightarrow> falsecount_of g1 n \<noteq> 0" if a: "n \<in> affected g r" "n \<noteq> r" for n
      using nz [OF a] a affected_leaf [OF g(1) r a(1,2)] by (simp add: g1(3))
    ultimately show ?thesis
      using closed affected.start [of r g] fc affected_live [OF g(1) r] g1(2)
      unfolding restore_inv_def w by auto
  qed
  obtain g2 where g2: "propagate_values (succs g r) g1 = Inr g2" "restore_inv g r g1 g2 []"
    using propagate_restores [OF g(1) r acyclic closed inv] by blast
  note d = restore_invD [OF g2(2)]
  have "walkable g1" using g(1) unfolding walkable_def same_shapeD(1-4) [OF g1(2)] .
  then have "out_values g1 r = Inr (succs g r)"
    using out_values_succs [of g1 r] r same_shapeD(2,3) [OF g1(2)] by simp
  then have "propagate_no_change (Some r) g1 = Inr g2" by (simp add: propagate_no_change_def g2(1))
  moreover have "falsecount_of g2 r = 1" using d(2) [of r] g1(4) [OF r] by (simp add: r0)
  moreover have "\<not> is_deleted g2 n \<and> falsecount_of g2 n = 0" if n: "n \<in> live g" "n \<noteq> r" for n
  proof (cases "n \<in> affected g r")
    case True
    have "falsecount_of g2 n = 0" using none_waiting [OF g2(2) g(1) r acyclic] True n(2) by (auto simp: waiting_def)
    with d(4) [OF True n(2)] show ?thesis by simp
  next
    case False
    then have "pointing g (affected g r) n = {}" using closed by (auto simp: pointing_def)
    with d(2) [of n] False n g1(3,4) show ?thesis by simp
  qed
  ultimately show ?thesis using g1(1) d(1) by blast
qed

end
