(* ===== verification/Graph_Structure.thy ===== *)
theory Graph_Structure imports Graph_Walks begin

text \<open>
  The invariant of the dependency graph: the tables of out-edges and the lists of in-edges
  are each other's inverse, and the counters count them. Making, linking, re-evaluating and
  detaching calls keep it.
\<close>

section \<open>The invariant\<close>

definition kids :: "idg \<Rightarrow> nat \<Rightarrow> nat set" where
  "kids g oe = (case deref (oes g) oe of Inl _ \<Rightarrow> {} | Inr x \<Rightarrow> dom (hashtable1_search (hasht x)))"

definition live_oe :: "idg \<Rightarrow> nat set" where
  "live_oe g = {oe. \<exists>x. deref (oes g) oe = Inr x}"

definition oe_ok :: "idg \<Rightarrow> nat \<Rightarrow> outedge \<Rightarrow> bool" where
  "oe_ok g oe x \<longleftrightarrow> ht_ok (hasht x) \<and> (\<forall>k v. hashtable1_search (hasht x) k = Some v \<longrightarrow> v = k \<and> k \<in> live g) \<and>
     (\<exists>c. node g (oe_callnode x) = Inr c \<and> outedges c = Some oe \<and> outcount c = of_nat (entrycount (hasht x)))"

definition node_ok :: "idg \<Rightarrow> nat \<Rightarrow> callnode \<Rightarrow> bool" where
  "node_ok g n c \<longleftrightarrow> (\<exists>oe \<in> live_oe g. outedges c = Some oe) \<and> distinct (inedges c) \<and>
     set (inedges c) = {oe \<in> live_oe g. n \<in> kids g oe}"

definition edge_total :: "idg \<Rightarrow> nat" where
  "edge_total g = sum_list (map (\<lambda>x. case x of None \<Rightarrow> 0 | Some x \<Rightarrow> entrycount (hasht x)) (oes g))"

definition idg_ok :: "idg \<Rightarrow> bool" where
  "idg_ok g \<longleftrightarrow> (\<forall>oe x. deref (oes g) oe = Inr x \<longrightarrow> oe_ok g oe x) \<and>
     (\<forall>n c. node g n = Inr c \<longrightarrow> node_ok g n c) \<and>
     current_call_edge_count_gl g = int (edge_total g) \<and>
     current_call_node_count_gl g = int (card (live g))"

text \<open>The call node that the out-edges of \<open>n\<close> belong to is \<open>n\<close>: it has not been superseded.\<close>

definition current :: "idg \<Rightarrow> nat \<Rightarrow> bool" where
  "current g n \<longleftrightarrow> (\<exists>oe. outedges_of g n = Inr oe \<and> edge_source g oe = Inr n)"

definition call_edges :: "idg \<Rightarrow> (nat \<times> nat) set" where
  "call_edges g = {(m, n). \<exists>oe. edge_source g oe = Inr m \<and> n \<in> kids g oe}"

lemma idg_okD:
  assumes "idg_ok g"
  shows "deref (oes g) oe = Inr x \<Longrightarrow> oe_ok g oe x" "node g n = Inr c \<Longrightarrow> node_ok g n c"
    "current_call_edge_count_gl g = int (edge_total g)" "current_call_node_count_gl g = int (card (live g))"
  using assms unfolding idg_ok_def by blast+

lemma oe_okD:
  assumes "oe_ok g oe x"
  shows "ht_ok (hasht x)" "hashtable1_search (hasht x) k = Some v \<Longrightarrow> v = k \<and> k \<in> live g"
    "\<exists>c. node g (oe_callnode x) = Inr c \<and> outedges c = Some oe \<and> outcount c = of_nat (entrycount (hasht x))"
  using assms unfolding oe_ok_def by blast+

lemma node_okD:
  assumes "node_ok g n c"
  shows "\<exists>oe \<in> live_oe g. outedges c = Some oe" "distinct (inedges c)"
    "oe \<in> set (inedges c) \<longleftrightarrow> oe \<in> live_oe g \<and> n \<in> kids g oe"
  using assms unfolding node_ok_def by blast+

lemma kids_eq: "deref (oes g) oe = Inr x \<Longrightarrow> kids g oe = dom (hashtable1_search (hasht x))"
  by (simp add: kids_def)

lemma kids_live: "idg_ok g \<Longrightarrow> n \<in> kids g oe \<Longrightarrow> n \<in> live g"
  unfolding kids_def by (auto split: sum.splits dest: oe_okD(2) [OF idg_okD(1)])

lemma entrycount_pairs: "ht_ok h \<Longrightarrow> entrycount h = length (ht_pairs h)"
  by (simp add: ht_okD(7) ht_pairs_def)

lemma pairs_snd:
  assumes "ht_ok h" "\<And>k v. hashtable1_search h k = Some v \<Longrightarrow> v = k"
  shows "map snd (ht_pairs h) = map fst (ht_pairs h)" "set (map snd (ht_pairs h)) = dom (hashtable1_search h)"
    "distinct (map snd (ht_pairs h))"
proof -
  have "\<forall>p \<in> set (ht_pairs h). snd p = fst p"
    using assms(2) search_pairs [OF assms(1)] by fastforce
  then show e: "map snd (ht_pairs h) = map fst (ht_pairs h)" by simp
  show "distinct (map snd (ht_pairs h))" unfolding e by (rule distinct_pairs [OF assms(1)])
  show "set (map snd (ht_pairs h)) = dom (hashtable1_search h)"
    unfolding e using search_pairs [OF assms(1)] by force
qed

lemma out_table_ok:
  assumes "idg_ok g" "node g n = Inr c"
  obtains oe x where "outedges c = Some oe" "deref (oes g) oe = Inr x" "oe_ok g oe x"
    "out_table g n = Inr (hasht x)" "set (succs g n) = kids g oe" "distinct (succs g n)"
proof -
  obtain oe where oe: "oe \<in> live_oe g" "outedges c = Some oe"
    using node_okD(1) [OF idg_okD(2) [OF assms]] by blast
  then obtain x where x: "deref (oes g) oe = Inr x" by (auto simp: live_oe_def)
  have ok: "oe_ok g oe x" using idg_okD(1) [OF assms(1) x] .
  have t: "out_table g n = Inr (hasht x)"
    using assms(2) oe x by (simp add: out_table_def outedges_of_def edge_table_def)
  have "\<And>k v. hashtable1_search (hasht x) k = Some v \<Longrightarrow> v = k" using oe_okD(2) [OF ok] by blast
  note p = pairs_snd [OF oe_okD(1) [OF ok] this]
  have "set (succs g n) = kids g oe" "distinct (succs g n)"
    using t p kids_eq [OF x] by (simp_all add: succs_def)
  with that oe x ok t show thesis by blast
qed

text \<open>A graph in order can be walked when no leaf depends on a call.\<close>

lemma idg_ok_walkable:
  assumes "idg_ok g" "\<forall>oe. \<forall>n \<in> kids g oe. \<not> is_leaf g n"
  shows "walkable g"
  unfolding walkable_def
proof (intro ballI conjI)
  fix n assume "n \<in> live g"
  then obtain c where c: "node g n = Inr c" by (auto simp: live_def)
  obtain oe x where x: "deref (oes g) oe = Inr x" "oe_ok g oe x" "out_table g n = Inr (hasht x)"
    "set (succs g n) = kids g oe" "distinct (succs g n)"
    using out_table_ok [OF assms(1) c] by metis
  show "\<exists>h. out_table g n = Inr h \<and> ht_ok h \<and> distinct (map snd (ht_pairs h))"
    using x(3,5) oe_okD(1) [OF x(2)] by (auto simp: succs_def)
  fix v assume "v \<in> set (succs g n)"
  then have "v \<in> kids g oe" using x(4) by simp
  then show "v \<in> live g" "\<not> is_leaf g v" using kids_live [OF assms(1)] assms(2) by blast+
qed

section \<open>New calls\<close>

definition new_call :: "subgoal_frame option \<Rightarrow> bool \<Rightarrow> nat \<Rightarrow> idg \<Rightarrow> (nat \<times> idg) res" where
  "new_call sf dyn_leaf tif g =
    (let (n, g) = makecallnode sf dyn_leaf tif g in res_bind (initoutedges n g) (\<lambda>g. Inr (n, g)))"

lemma create_one: "\<exists>h :: (nat, nat) hashtable. create_hashtable1 1 hashfromkey equalkeys = Some h \<and> ht_ok h \<and> ht_entries h = [] \<and> entrycount h = 0"
proof -
  have eq: "equalkeys = (=)" by (simp add: fun_eq_iff equalkeys_def)
  obtain i p where "find_prime 1 ht_primes 0 = (i, p)" by (cases "find_prime 1 ht_primes 0")
  then obtain h :: "(nat, nat) hashtable" where h: "create_hashtable1 1 hashfromkey equalkeys = Some h"
    by (simp add: create_hashtable1_def)
  with create_ok [of 1 hashfromkey h] show ?thesis unfolding eq by blast
qed

lemma new_call_laws:
  assumes ok: "idg_ok g"
  shows "\<exists>n g'. new_call sf leaf tif g = Inr (n, g') \<and> idg_ok g' \<and> n \<notin> live g \<and> live g' = insert n (live g) \<and>
    current g' n \<and> call_edges g' = call_edges g"
proof -
  obtain h :: "(nat, nat) hashtable" where h: "create_hashtable1 1 hashfromkey equalkeys = Some h" "ht_ok h" "ht_entries h = []" "entrycount h = 0"
    using create_one by blast
  have hs: "hashtable1_search h k = None" for k using h(2,3) by (simp add: search_None_iff)
  let ?n = "length (nodes g)" and ?oe = "length (oes g)"
  define c where "c = \<lparr>outedges = Some ?oe, inedges = [], cn_goal = sf, no_of_answers = 0,
         deleted = False, changed = False, recomputable = COMPUTE_DEPENDENCIES_FIRST,
         is_incremental_trie = None, falsecount = 0,
         outcount = 0, cn_link = (if leaf then Tif tif else No_Link), idg_dyn_leaf = leaf\<rparr>"
  define x where "x = \<lparr>hasht = h, oe_callnode = ?n\<rparr>"
  define g' where "g' = g\<lparr>nodes := nodes g @ [Some c], oes := oes g @ [Some x],
      current_call_node_count_gl := current_call_node_count_gl g + 1\<rparr>"
  have call: "new_call sf leaf tif g = Inr (?n, g')"
    unfolding new_call_def makecallnode_def initoutedges_def h(1)
    by (simp add: g'_def c_def x_def upd_node_def node_def deref_append)
  have nodes': "node g' m = (if m = ?n then Inr c else node g m)" for m
    by (simp add: g'_def node_def deref_append)
  have oes': "deref (oes g') m = (if m = ?oe then Inr x else deref (oes g) m)" for m
    by (simp add: g'_def deref_append)
  have fresh: "?n \<notin> live g" "?oe \<notin> live_oe g"
    by (auto simp: live_def live_oe_def node_def deref_def)
  have lv: "live g' = insert ?n (live g)" by (auto simp: live_def nodes')
  have kx: "kids g' ?oe = {}" by (simp add: kids_def oes' x_def hs dom_def)
  have k: "kids g' m = kids g m" for m
  proof (cases "m = ?oe")
    case True
    have "kids g ?oe = {}" using fresh(2) by (auto simp: kids_def live_oe_def split: sum.split)
    with True kx show ?thesis by simp
  qed (simp add: kids_def oes')
  have lo: "live_oe g' = insert ?oe (live_oe g)" by (auto simp: live_oe_def oes')
  have "idg_ok g'"
    unfolding idg_ok_def
  proof (intro conjI allI impI)
    fix oe y assume y: "deref (oes g') oe = Inr y"
    show "oe_ok g' oe y"
    proof (cases "oe = ?oe")
      case True
      with y have "y = x" by (simp add: oes')
      with True show ?thesis by (simp add: oe_ok_def x_def h hs nodes' c_def)
    next
      case False
      then have oy: "oe_ok g oe y" using idg_okD(1) [OF ok] y by (simp add: oes')
      then have "oe_callnode y \<noteq> ?n" using oe_okD(3) [OF oy] fresh(1) by (auto simp: live_def)
      with oy show ?thesis unfolding oe_ok_def lv nodes' by auto
    qed
  next
    fix m d assume d: "node g' m = Inr d"
    show "node_ok g' m d"
    proof (cases "m = ?n")
      case True
      have "?n \<notin> kids g oe" for oe using kids_live [OF ok] fresh(1) by blast
      with True d show ?thesis by (auto simp: nodes' node_ok_def k lo c_def)
    next
      case False
      then have "node_ok g m d" using idg_okD(2) [OF ok] d by (simp add: nodes')
      moreover have "kids g ?oe = {}" using kx k by simp
      ultimately show ?thesis by (auto simp: node_ok_def lo k)
    qed
  next
    show "current_call_edge_count_gl g' = int (edge_total g')"
      using idg_okD(3) [OF ok] by (simp add: g'_def edge_total_def x_def h(4))
    show "current_call_node_count_gl g' = int (card (live g'))"
      using idg_okD(4) [OF ok] fresh(1) finite_live [of g] by (simp add: lv) (simp add: g'_def)
  qed
  moreover have "current g' ?n"
    by (simp add: current_def outedges_of_def edge_source_def nodes' oes' c_def x_def)
  moreover have "call_edges g' = call_edges g"
  proof -
    have "edge_source g' m = (if m = ?oe then Inr ?n else edge_source g m)" for m
      by (simp add: edge_source_def oes' x_def)
    moreover have "kids g ?oe = {}" using kx k by simp
    ultimately have "edge_source g' oe = Inr m \<and> b \<in> kids g oe \<longleftrightarrow> edge_source g oe = Inr m \<and> b \<in> kids g oe"
      for oe m b by auto
    then show ?thesis unfolding call_edges_def k by simp
  qed
  ultimately show ?thesis using call lv fresh(1) by blast
qed

section \<open>New edges\<close>

lemma edge_total_upd:
  assumes "deref (oes g) oe = Inr x"
  shows "edge_total (upd_oe oe f g) + entrycount (hasht x) = edge_total g + entrycount (hasht (f x))"
proof -
  have "oe < length (oes g)" "oes g ! oe = Some x"
    using assms by (auto simp: deref_def split: if_splits option.splits)
  then show ?thesis
    using sum_list_update_nat [of oe "oes g" "\<lambda>x. case x of None \<Rightarrow> 0 | Some x \<Rightarrow> entrycount (hasht x)" "Some (f x)"]
    by (simp add: edge_total_def upd_oe_def)
qed

lemma live_upd [simp]: "live (upd_node n f g) = live g" "live (upd_oe n h g) = live g"
  by (auto simp: live_def node_upd)

lemma frame_counts [simp]:
  "current_call_edge_count_gl (upd_node n f g) = current_call_edge_count_gl g"
  "current_call_node_count_gl (upd_node n f g) = current_call_node_count_gl g"
  "current_call_edge_count_gl (upd_oe n h g) = current_call_edge_count_gl g"
  "current_call_node_count_gl (upd_oe n h g) = current_call_node_count_gl g"
  "edge_total (upd_node n f g) = edge_total g"
  "node (g\<lparr>current_call_edge_count_gl := k\<rparr>) m = node g m"
  "node (g\<lparr>current_call_node_count_gl := k\<rparr>) m = node g m"
  "live (g\<lparr>current_call_edge_count_gl := k\<rparr>) = live g"
  "live (g\<lparr>current_call_node_count_gl := k\<rparr>) = live g"
  "edge_total (g\<lparr>current_call_edge_count_gl := k\<rparr>) = edge_total g"
  "edge_total (g\<lparr>current_call_node_count_gl := k\<rparr>) = edge_total g"
  by (simp_all add: upd_node_def upd_oe_def edge_total_def live_def node_def)

lemma current_oe:
  assumes "idg_ok g" "current g n"
  obtains oe x c where "node g n = Inr c" "outedges_of g n = Inr oe" "outedges c = Some oe"
    "deref (oes g) oe = Inr x" "oe_callnode x = n" "oe_ok g oe x" "edge_table g oe = Inr (hasht x)"
    "outcount c = of_nat (entrycount (hasht x))"
proof -
  obtain oe where oe: "outedges_of g n = Inr oe" "edge_source g oe = Inr n" using assms(2) by (auto simp: current_def)
  obtain x where x: "deref (oes g) oe = Inr x" "oe_callnode x = n" using oe(2) by (auto simp: edge_source_def)
  have "edge_table g oe = Inr (hasht x)" using x by (simp add: edge_table_def)
  moreover have ok: "oe_ok g oe x" using idg_okD(1) [OF assms(1) x(1)] .
  moreover from oe_okD(3) [OF ok] obtain c where "node g n = Inr c" "outedges c = Some oe"
    "outcount c = of_nat (entrycount (hasht x))" using x(2) by auto
  ultimately show thesis using that oe(1) x by blast
qed

text \<open>The \<open>OUTEDGE\<close> that a node owns is the only one with that node as its source.\<close>

lemma source_unique:
  assumes "idg_ok g" "edge_source g oe = Inr n" "outedges_of g n = Inr oe'"
  shows "oe = oe'"
proof -
  obtain x where x: "deref (oes g) oe = Inr x" "oe_callnode x = n" using assms(2) by (auto simp: edge_source_def)
  from oe_okD(3) [OF idg_okD(1) [OF assms(1) x(1)]] x(2) assms(3) show ?thesis
    by (auto simp: outedges_of_def)
qed

lemma source_unique':
  assumes "idg_ok g" "edge_source g oe = Inr n" "edge_source g oe' = Inr n"
  shows "oe = oe'"
proof -
  obtain x where x: "deref (oes g) oe' = Inr x" "oe_callnode x = n" using assms(3) by (auto simp: edge_source_def)
  then have "outedges_of g n = Inr oe'" using oe_okD(3) [OF idg_okD(1) [OF assms(1) x(1)]]
    by (auto simp: outedges_of_def)
  with source_unique [OF assms(1,2)] show ?thesis by blast
qed

lemma addcalledge_laws:
  assumes ok: "idg_ok g" and f: "current g f" and t: "t \<in> live g"
  shows "\<exists>g'. addcalledge f t g = Inr g' \<and> idg_ok g' \<and> live g' = live g \<and> call_edges g' = insert (f, t) (call_edges g)"
proof -
  obtain oe x cf where x: "node g f = Inr cf" "outedges_of g f = Inr oe" "outedges cf = Some oe"
    "deref (oes g) oe = Inr x" "oe_callnode x = f" "oe_ok g oe x" "edge_table g oe = Inr (hasht x)"
    "outcount cf = of_nat (entrycount (hasht x))"
    using current_oe [OF ok f] by metis
  obtain ct where ct: "node g t = Inr ct" using t by (auto simp: live_def)
  note hok = oe_okD(1) [OF x(6)]
  have src: "edge_source g oe = Inr f" using x by (simp add: edge_source_def)
  show ?thesis
  proof (cases "hashtable1_search (hasht x) t")
    case (Some v)
    then have "t \<in> kids g oe" using kids_eq [OF x(4)] by auto
    then have "(f, t) \<in> call_edges g" using src by (auto simp: call_edges_def)
    moreover have "addcalledge f t g = Inr g" using ct x Some by (simp add: addcalledge_def)
    ultimately show ?thesis using ok by (intro exI [of _ g]) auto
  next
    case None
    let ?h = "hashtable1_insert t t (hasht x)"
    define g1 where "g1 = upd_oe oe (\<lambda>x'. x'\<lparr>hasht := ?h\<rparr>) g"
    define g2 where "g2 = (upd_node t (\<lambda>c. c\<lparr>inedges := oe # inedges c\<rparr>) g1)
      \<lparr>current_call_edge_count_gl := current_call_edge_count_gl g + 1\<rparr>"
    define g' where "g' = upd_node f (\<lambda>c. c\<lparr>outcount := outcount c + 1\<rparr>) g2"
    have call: "addcalledge f t g = Inr g'"
      unfolding g'_def g2_def g1_def using ct x None by (simp add: addcalledge_def Let_def)
    have n2: "node g2 m = (if m = t then Inr (ct\<lparr>inedges := oe # inedges ct\<rparr>) else node g m)" for m
      using ct by (simp add: g2_def g1_def node_upd)
    have n': "node g' m = (if m = f then res_bind (node g2 f) (\<lambda>c. Inr (c\<lparr>outcount := outcount c + 1\<rparr>)) else node g2 m)" for m
      unfolding g'_def by (rule node_upd)
    have nb: "\<exists>c'. node g' m = Inr c' \<and> outedges c' = outedges c \<and>
        inedges c' = (if m = t then oe # inedges c else inedges c) \<and>
        outcount c' = (if m = f then outcount c + 1 else outcount c)" if "node g m = Inr c" for m c
      using that ct x(1) by (cases "m = t"; cases "m = f") (simp_all add: n' n2)
    have nr: "\<exists>c. node g m = Inr c" if "node g' m = Inr c'" for m c'
      using that ct x(1) by (cases "m = t"; cases "m = f") (simp_all add: n' n2)
    have o': "deref (oes g') m = (if m = oe then Inr (x\<lparr>hasht := ?h\<rparr>) else deref (oes g) m)" for m
    proof -
      have "oes g' = oes g1" by (simp add: g'_def g2_def upd_node_def)
      then show ?thesis using x(4) by (simp add: g1_def oes_upd)
    qed
    have put: "ht_ok ?h" "hashtable1_search ?h = (hashtable1_search (hasht x))(t \<mapsto> t)"
      "entrycount ?h = Suc (entrycount (hasht x))"
      using ht.put_ok [OF hok None] ht.lookup_put [OF hok None] ht.length_put [OF hok None]
      by (simp_all add: entrycount_pairs hok)
    have lv: "live g' = live g" by (simp add: g'_def g2_def g1_def)
    have lo: "live_oe g' = live_oe g" using x(4) by (auto simp: live_oe_def o')
    have k: "kids g' m = (if m = oe then insert t (kids g oe) else kids g m)" for m
      using put(2) kids_eq [OF x(4)] by (auto simp: kids_def o')
    have tnk: "t \<notin> kids g oe" using None kids_eq [OF x(4)] by auto
    have so: "edge_source g' m = edge_source g m" for m using x(4) by (simp add: edge_source_def o')
    have "idg_ok g'"
      unfolding idg_ok_def
    proof (intro conjI allI impI)
      fix m y assume y: "deref (oes g') m = Inr y"
      show "oe_ok g' m y"
      proof (cases "m = oe")
        case True
        then have yx: "y = x\<lparr>hasht := ?h\<rparr>" using y by (simp add: o')
        have "\<exists>c. node g' f = Inr c \<and> outedges c = Some oe \<and> outcount c = of_nat (entrycount ?h)"
          using nb [OF x(1)] x(3,8) by (auto simp: put(3) add.commute)
        moreover have "\<forall>k v. hashtable1_search ?h k = Some v \<longrightarrow> v = k \<and> k \<in> live g'"
          using oe_okD(2) [OF x(6)] t by (simp add: put(2) lv)
        ultimately show ?thesis using put(1) x(5) True by (simp add: oe_ok_def yx)
      next
        case False
        then have oy: "oe_ok g m y" using y idg_okD(1) [OF ok] by (simp add: o')
        then have "oe_callnode y \<noteq> f" using oe_okD(3) [OF oy] x(1,3) False by auto
        obtain c where c: "node g (oe_callnode y) = Inr c" "outedges c = Some m"
          "outcount c = of_nat (entrycount (hasht y))" using oe_okD(3) [OF oy] by blast
        have "\<exists>c'. node g' (oe_callnode y) = Inr c' \<and> outedges c' = Some m \<and>
            outcount c' = of_nat (entrycount (hasht y))"
          using nb [OF c(1)] c(2,3) \<open>oe_callnode y \<noteq> f\<close> by auto
        with oy show ?thesis unfolding oe_ok_def lv by blast
      qed
    next
      fix m c' assume c': "node g' m = Inr c'"
      obtain c where c: "node g m = Inr c" using nr [OF c'] by blast
      have eq: "outedges c' = outedges c" "inedges c' = (if m = t then oe # inedges c else inedges c)"
        using nb [OF c] c' by auto
      have no: "node_ok g m c" using idg_okD(2) [OF ok c] .
      have ol: "oe \<in> live_oe g" using x(4) by (auto simp: live_oe_def)
      have "distinct (inedges c')" using node_okD(2,3) [OF no] tnk by (simp add: eq(2))
      moreover have "set (inedges c') = {e \<in> live_oe g. m \<in> kids g' e}"
        using node_okD(3) [OF no] ol by (auto simp: eq(2) k)
      ultimately show "node_ok g' m c'" using node_okD(1) [OF no] by (simp add: node_ok_def eq(1) lo)
    next
      have "edge_total g' = edge_total g1" by (simp add: g'_def g2_def)
      moreover have "edge_total g1 = Suc (edge_total g)"
        using edge_total_upd [OF x(4), of "\<lambda>x'. x'\<lparr>hasht := ?h\<rparr>"] put(3) by (simp add: g1_def)
      ultimately show "current_call_edge_count_gl g' = int (edge_total g')"
        using idg_okD(3) [OF ok] by (simp add: g'_def g2_def)
      show "current_call_node_count_gl g' = int (card (live g'))"
        using idg_okD(4) [OF ok] by (simp add: lv) (simp add: g'_def g2_def g1_def)
    qed
    moreover have "call_edges g' = insert (f, t) (call_edges g)"
    proof -
      have e: "e = oe" if "edge_source g e = Inr f" for e using source_unique' [OF ok that src] .
      have "(m, n) \<in> call_edges g' \<longleftrightarrow> m = f \<and> n = t \<or> (m, n) \<in> call_edges g" for m n
      proof
        assume "(m, n) \<in> call_edges g'"
        then obtain e where "edge_source g e = Inr m" "n \<in> kids g' e" by (auto simp: call_edges_def so)
        then have "edge_source g e = Inr m \<and> (n \<in> kids g e \<or> e = oe \<and> n = t)"
          using k [of e] by (auto split: if_splits)
        moreover have "m = f" if "e = oe" using src that calculation by simp
        ultimately show "m = f \<and> n = t \<or> (m, n) \<in> call_edges g" unfolding call_edges_def by blast
      next
        assume "m = f \<and> n = t \<or> (m, n) \<in> call_edges g"
        then have "\<exists>e. edge_source g e = Inr m \<and> n \<in> kids g' e"
        proof
          assume "m = f \<and> n = t"
          then show ?thesis using src k [of oe] by auto
        next
          assume "(m, n) \<in> call_edges g"
          then obtain e where "edge_source g e = Inr m" "n \<in> kids g e" unfolding call_edges_def by blast
          then show ?thesis using k [of e] by (intro exI [of _ e]) auto
        qed
        then show "(m, n) \<in> call_edges g'" unfolding call_edges_def so by blast
      qed
      then show ?thesis by auto
    qed
    ultimately show ?thesis using call lv by blast
  qed
qed

section \<open>Detaching a call\<close>

text \<open>What the two loops do to the nodes, the tables and the counters.\<close>

lemma unlink_from_eq:
  assumes "\<forall>e \<in> set ins. \<exists>m. edge_source g e = Inr m" "\<forall>e \<in> set ins. edge_source g e = Inr cn \<longleftrightarrow> e = oe"
  shows "unlink_from g cn ins = Inr (remove1 oe ins)"
  using assms
proof (induction ins)
  case (Cons e ins)
  then obtain m where m: "edge_source g e = Inr m" by auto
  have "m = cn \<longleftrightarrow> e = oe" using Cons.prems(2) m by auto
  with Cons m show ?case by (cases "e = oe") auto
qed simp

lemma unlink_all_eq:
  assumes "distinct ts" "\<forall>t \<in> set ts. t \<noteq> cn \<longrightarrow> (\<exists>c. node g t = Inr c \<and> unlink_from g cn (inedges c) = Inr (remove1 oe (inedges c)))"
  shows "\<exists>g'. unlink_all cn ts g = Inr g' \<and> oes g' = oes g \<and>
    (\<forall>n. node g' n = res_bind (node g n) (\<lambda>c. Inr (if n \<in> set ts \<and> n \<noteq> cn then c\<lparr>inedges := remove1 oe (inedges c)\<rparr> else c))) \<and>
    current_call_edge_count_gl g' = current_call_edge_count_gl g - int (length ts) \<and>
    current_call_node_count_gl g' = current_call_node_count_gl g"
  using assms
proof (induction ts arbitrary: g)
  case Nil
  have "node g n = res_bind (node g n) Inr" for n by (cases "node g n") simp_all
  then show ?case by simp
next
  case (Cons t ts)
  define g1 where "g1 = (if t = cn then g else upd_node t (\<lambda>c. c\<lparr>inedges := remove1 oe (inedges c)\<rparr>) g)"
  define g2 where "g2 = g1\<lparr>current_call_edge_count_gl := current_call_edge_count_gl g1 - 1\<rparr>"
  have step: "unlink_all cn (t # ts) g = unlink_all cn ts g2"
  proof (cases "t = cn")
    case False
    then obtain c where c: "node g t = Inr c" "unlink_from g cn (inedges c) = Inr (remove1 oe (inedges c))"
      using Cons.prems(2) by auto
    have "upd_node t (\<lambda>c. c\<lparr>inedges := remove1 oe (inedges c)\<rparr>) g =
        upd_node t (\<lambda>d. d\<lparr>inedges := remove1 oe (inedges c)\<rparr>) g"
      using node_length [OF c(1)] by (simp add: upd_node_def)
    with False c show ?thesis by (simp add: g2_def g1_def)
  qed (simp add: g2_def g1_def)
  have n2: "node g2 n = (if n = t \<and> t \<noteq> cn then res_bind (node g n) (\<lambda>c. Inr (c\<lparr>inedges := remove1 oe (inedges c)\<rparr>)) else node g n)" for n
    by (simp add: g2_def g1_def node_upd)
  have o2: "oes g2 = oes g" by (simp add: g2_def g1_def upd_node_def)
  have ul: "unlink_from g2 cn ins = unlink_from g cn ins" for ins
  proof -
    have "edge_source g2 = edge_source g" by (simp add: edge_source_def fun_eq_iff o2)
    then show ?thesis by (induction ins) (simp_all cong: if_cong)
  qed
  have "\<forall>u \<in> set ts. u \<noteq> cn \<longrightarrow> (\<exists>c. node g2 u = Inr c \<and> unlink_from g2 cn (inedges c) = Inr (remove1 oe (inedges c)))"
  proof (intro ballI impI)
    fix u assume u: "u \<in> set ts" "u \<noteq> cn"
    then have "u \<noteq> t" using Cons.prems(1) by auto
    then show "\<exists>c. node g2 u = Inr c \<and> unlink_from g2 cn (inedges c) = Inr (remove1 oe (inedges c))"
      using Cons.prems(2) u by (simp add: n2 ul)
  qed
  then obtain g' where g': "unlink_all cn ts g2 = Inr g'" "oes g' = oes g2"
    "\<And>n. node g' n = res_bind (node g2 n) (\<lambda>c. Inr (if n \<in> set ts \<and> n \<noteq> cn then c\<lparr>inedges := remove1 oe (inedges c)\<rparr> else c))"
    "current_call_edge_count_gl g' = current_call_edge_count_gl g2 - int (length ts)"
    "current_call_node_count_gl g' = current_call_node_count_gl g2"
    using Cons.IH [of g2] Cons.prems(1) by auto
  have "node g' n = res_bind (node g n) (\<lambda>c. Inr (if n \<in> set (t # ts) \<and> n \<noteq> cn then c\<lparr>inedges := remove1 oe (inedges c)\<rparr> else c))" for n
  proof (cases "node g n")
    case (Inr c)
    then show ?thesis using Cons.prems(1) by (cases "n = t"; cases "t = cn") (simp_all add: g'(3) n2)
  next
    case (Inl err)
    then show ?thesis by (cases "n = t") (auto simp: g'(3) n2)
  qed
  moreover have "current_call_edge_count_gl g2 = current_call_edge_count_gl g - 1"
    "current_call_node_count_gl g2 = current_call_node_count_gl g"
    by (simp_all add: g2_def g1_def)
  ultimately show ?case using g' o2 step by simp
qed

definition drop_key :: "nat \<Rightarrow> outedge \<Rightarrow> outedge" where
  "drop_key n x = x\<lparr>hasht := ht_del n (hasht x)\<rparr>"

lemma remove_inedges_eq:
  assumes "distinct ins"
    "\<forall>e \<in> set ins. \<exists>x c. deref (oes g) e = Inr x \<and> node g (oe_callnode x) = Inr c \<and> ht_ok (hasht x) \<and>
       hashtable1_search (hasht x) own \<noteq> None"
    "\<forall>e \<in> set ins. \<forall>e' \<in> set ins. edge_source g e = edge_source g e' \<longrightarrow> e = e'"
  shows "\<exists>g'. remove_inedges skip what own ins g = Inr g' \<and>
    (let gone = {e \<in> set ins. \<not> (skip \<and> edge_source g e = Inr own)} in
     (\<forall>e. deref (oes g') e = res_bind (deref (oes g) e) (\<lambda>x. Inr (if e \<in> gone then drop_key own x else x))) \<and>
     (\<forall>n. node g' n = res_bind (node g n) (\<lambda>c. Inr
        (if \<exists>e \<in> gone. edge_source g e = Inr n then c\<lparr>outcount := outcount c - 1\<rparr> else c))) \<and>
     current_call_edge_count_gl g' = current_call_edge_count_gl g - int (card gone) \<and>
     current_call_node_count_gl g' = current_call_node_count_gl g \<and>
     edge_total g' + card gone = edge_total g)"
  using assms
proof (induction ins arbitrary: g)
  case Nil
  have "node g n = res_bind (node g n) Inr" for n by (cases "node g n") simp_all
  moreover have "deref (oes g) n = res_bind (deref (oes g) n) Inr" for n by (cases "deref (oes g) n") simp_all
  ultimately show ?case by simp
next
  case (Cons e ins)
  obtain x c where x: "deref (oes g) e = Inr x" "node g (oe_callnode x) = Inr c" "ht_ok (hasht x)"
    "hashtable1_search (hasht x) own \<noteq> None" using Cons.prems(2) by auto
  have src: "edge_source g e = Inr (oe_callnode x)" using x(1) by (simp add: edge_source_def)
  have e: "e \<notin> set ins" using Cons.prems(1) by simp
  show ?case
  proof (cases "skip \<and> oe_callnode x = own")
    case True
    have gone: "{e' \<in> set (e # ins). \<not> (skip \<and> edge_source g e' = Inr own)} =
        {e' \<in> set ins. \<not> (skip \<and> edge_source g e' = Inr own)}" using True src by auto
    have "remove_inedges skip what own (e # ins) g = remove_inedges skip what own ins g" using True src by simp
    then show ?thesis unfolding gone using Cons.IH [of g] Cons.prems by simp
  next
    case False
    define g1 where "g1 = upd_oe e (\<lambda>y. y\<lparr>hasht := ht_del own (hasht x)\<rparr>) g"
    define g2 where "g2 = (upd_node (oe_callnode x) (\<lambda>c. c\<lparr>outcount := outcount c - 1\<rparr>) g1)
      \<lparr>current_call_edge_count_gl := current_call_edge_count_gl g - 1\<rparr>"
    obtain v where "hashtable1_search (hasht x) own = Some v" using x(4) by auto
    then have "fst (hashtable1_remove own (hasht x)) = Some v" using remove_laws(1) [OF x(3)] by simp
    then have rm: "hashtable1_remove own (hasht x) = (Some v, ht_del own (hasht x))"
      by (simp add: ht_del_def prod_eq_iff)
    have tab: "edge_table g e = Inr (hasht x)" using x(1) by (simp add: edge_table_def)
    have step: "remove_inedges skip what own (e # ins) g = remove_inedges skip what own ins g2"
      using False unfolding remove_inedges.simps src res_bind_simps if_not_P [OF False] tab rm
      by (simp add: g2_def g1_def Let_def)
    have n2: "node g2 n = (if n = oe_callnode x then res_bind (node g n) (\<lambda>c. Inr (c\<lparr>outcount := outcount c - 1\<rparr>)) else node g n)" for n
      by (simp add: g2_def g1_def node_upd)
    have o2: "deref (oes g2) m = (if m = e then Inr (drop_key own x) else deref (oes g) m)" for m
    proof -
      have "oes g2 = oes g1" by (simp add: g2_def upd_node_def)
      then show ?thesis using x(1) by (simp add: g1_def oes_upd drop_key_def)
    qed
    have s2: "edge_source g2 m = edge_source g m" for m
      using x(1) by (simp add: edge_source_def o2 drop_key_def)
    have tot: "Suc (edge_total g2) = edge_total g"
    proof -
      have "edge_total g2 = edge_total g1" by (simp add: g2_def)
      moreover have "edge_total g1 + entrycount (hasht x) = edge_total g + entrycount (ht_del own (hasht x))"
        using edge_total_upd [OF x(1), of "\<lambda>y. y\<lparr>hasht := ht_del own (hasht x)\<rparr>"] by (simp add: g1_def)
      moreover have "Suc (entrycount (ht_del own (hasht x))) = entrycount (hasht x)"
        using ht.length_del [OF x(3) \<open>hashtable1_search (hasht x) own = Some v\<close>]
          entrycount_pairs [OF x(3)] entrycount_pairs [OF ht.del_ok [OF x(3)]]
        by simp
      ultimately show ?thesis by simp
    qed
    have pre: "\<forall>m \<in> set ins. \<exists>y c. deref (oes g2) m = Inr y \<and> node g2 (oe_callnode y) = Inr c \<and> ht_ok (hasht y) \<and>
       hashtable1_search (hasht y) own \<noteq> None"
    proof
      fix m assume m: "m \<in> set ins"
      then obtain y d where y: "deref (oes g) m = Inr y" "node g (oe_callnode y) = Inr d" "ht_ok (hasht y)"
        "hashtable1_search (hasht y) own \<noteq> None" using Cons.prems(2) by auto
      have "m \<noteq> e" using m e by auto
      with y show "\<exists>y c. deref (oes g2) m = Inr y \<and> node g2 (oe_callnode y) = Inr c \<and> ht_ok (hasht y) \<and>
       hashtable1_search (hasht y) own \<noteq> None"
        by (cases "oe_callnode y = oe_callnode x") (simp_all add: o2 n2)
    qed
    define gone where "gone = {m \<in> set ins. \<not> (skip \<and> edge_source g m = Inr own)}"
    obtain g' where g': "remove_inedges skip what own ins g2 = Inr g'"
      "\<And>m. deref (oes g') m = res_bind (deref (oes g2) m) (\<lambda>x. Inr (if m \<in> gone then drop_key own x else x))"
      "\<And>n. node g' n = res_bind (node g2 n) (\<lambda>c. Inr
        (if \<exists>m \<in> gone. edge_source g m = Inr n then c\<lparr>outcount := outcount c - 1\<rparr> else c))"
      "current_call_edge_count_gl g' = current_call_edge_count_gl g2 - int (card gone)"
      "current_call_node_count_gl g' = current_call_node_count_gl g2" "edge_total g' + card gone = edge_total g2"
      using Cons.IH [of g2, OF _ pre] Cons.prems(1,3) unfolding s2 gone_def Let_def by auto
    have eg: "e \<notin> gone" using e by (simp add: gone_def)
    have fin: "finite gone" by (simp add: gone_def)
    have ins: "{m \<in> set (e # ins). \<not> (skip \<and> edge_source g m = Inr own)} = insert e gone"
      using False src by (auto simp: gone_def)
    have d': "deref (oes g') m = res_bind (deref (oes g) m) (\<lambda>x. Inr (if m \<in> insert e gone then drop_key own x else x))" for m
      using x(1) eg by (cases "m = e") (simp_all add: g'(2) o2)
    have none: "\<not> (\<exists>m \<in> gone. edge_source g m = Inr (oe_callnode x))"
    proof
      assume "\<exists>m \<in> gone. edge_source g m = Inr (oe_callnode x)"
      then obtain m where "m \<in> set ins" "edge_source g m = edge_source g e" by (auto simp: gone_def src)
      with Cons.prems(3) e show False by auto
    qed
    have nd': "node g' n = res_bind (node g n) (\<lambda>c. Inr
        (if \<exists>m \<in> insert e gone. edge_source g m = Inr n then c\<lparr>outcount := outcount c - 1\<rparr> else c))" for n
    proof (cases "n = oe_callnode x")
      case True
      have "(\<exists>m \<in> insert e gone. edge_source g m = Inr n) = True" using True src by auto
      then show ?thesis using True none x(2) by (simp add: g'(3) n2)
    next
      case False
      then have "(\<exists>m \<in> insert e gone. edge_source g m = Inr n) = (\<exists>m \<in> gone. edge_source g m = Inr n)"
        using src by auto
      then show ?thesis using False by (simp add: g'(3) n2)
    qed
    have "current_call_edge_count_gl g2 = current_call_edge_count_gl g - 1"
      "current_call_node_count_gl g2 = current_call_node_count_gl g" by (simp_all add: g2_def g1_def)
    then show ?thesis
      unfolding ins Let_def using step g'(1,4,5,6) d' nd' eg fin tot by simp
  qed
qed

text \<open>No node is the old call of a re-evaluation under way.\<close>

definition settled :: "idg \<Rightarrow> bool" where
  "settled g \<longleftrightarrow> (\<forall>n \<in> live g. current g n)"

text \<open>What becomes of the other nodes and tables when \<open>cn\<close>, with its \<open>OUTEDGE\<close> \<open>oe\<close>, is detached.\<close>

definition without_in :: "nat \<Rightarrow> callnode \<Rightarrow> callnode" where
  "without_in oe c = c\<lparr>inedges := remove1 oe (inedges c)\<rparr>"

definition without_out :: "bool \<Rightarrow> callnode \<Rightarrow> callnode" where
  "without_out b c = (if b then c\<lparr>outcount := outcount c - 1\<rparr> else c)"

definition without_key :: "nat \<Rightarrow> outedge \<Rightarrow> outedge" where
  "without_key cn x = (if hashtable1_search (hasht x) cn = None then x else drop_key cn x)"

lemma deleteoutedges_eq:
  assumes ok: "idg_ok g" and cn: "current g cn" and oe: "outedges_of g cn = Inr oe"
  shows "\<exists>g'. deleteoutedges cn g = Inr g' \<and> oes g' = oes g \<and>
    (\<forall>n. node g' n = res_bind (node g n) (\<lambda>c. Inr (if n = cn then c\<lparr>outcount := 0\<rparr> else without_in oe c))) \<and>
    current_call_edge_count_gl g' = current_call_edge_count_gl g - int (card (kids g oe)) \<and>
    current_call_node_count_gl g' = current_call_node_count_gl g"
proof -
  obtain x c where x: "node g cn = Inr c" "outedges c = Some oe" "deref (oes g) oe = Inr x"
    "oe_callnode x = cn" "oe_ok g oe x" "outcount c = of_nat (entrycount (hasht x))"
    using current_oe [OF ok cn] oe by (metis Inr_inject)
  note h = oe_okD(1) [OF x(5)]
  let ?ts = "map snd (ht_pairs (hasht x))"
  have "\<And>k v. hashtable1_search (hasht x) k = Some v \<Longrightarrow> v = k" using oe_okD(2) [OF x(5)] by blast
  note p = pairs_snd [OF h this]
  have ts: "set ?ts = kids g oe" "distinct ?ts" using p kids_eq [OF x(3)] by simp_all
  have ov: "out_values g cn = Inr ?ts"
    using oe x(3) walk_values_ok [OF h] by (simp add: out_values_def out_table_def edge_table_def)
  have src: "edge_source g oe = Inr cn" using x(3,4) by (simp add: edge_source_def)
  have len: "length ?ts = card (kids g oe)" using ts by (metis distinct_card)
  have noop: "without_in oe d = d" if "node g n = Inr d" "n \<notin> kids g oe" for n d
    using node_okD(3) [OF idg_okD(2) [OF ok that(1)]] that(2) by (simp add: without_in_def remove1_idem)
  show ?thesis
  proof (cases "?ts = []")
    case True
    then have "kids g oe = {}" "entrycount (hasht x) = 0" using ts(1) entrycount_pairs [OF h] by auto
    moreover have "node g n = res_bind (node g n) (\<lambda>c. Inr (if n = cn then c\<lparr>outcount := 0\<rparr> else without_in oe c))" for n
    proof (cases "node g n")
      case (Inr d)
      then show ?thesis using noop [OF Inr] x(1,6) calculation by auto
    qed simp
    moreover have "deleteoutedges cn g = Inr g" using True ov by (simp add: deleteoutedges_def)
    ultimately show ?thesis by simp
  next
    case False
    have "\<forall>t \<in> set ?ts. t \<noteq> cn \<longrightarrow>
        (\<exists>c. node g t = Inr c \<and> unlink_from g cn (inedges c) = Inr (remove1 oe (inedges c)))"
    proof (intro ballI impI)
      fix t assume "t \<in> set ?ts"
      then have "t \<in> live g" using kids_live [OF ok] ts(1) by blast
      then obtain d where d: "node g t = Inr d" by (auto simp: live_def)
      have src': "\<forall>e \<in> set (inedges d). \<exists>m. edge_source g e = Inr m"
        using node_okD(3) [OF idg_okD(2) [OF ok d]] by (auto simp: live_oe_def edge_source_def)
      have "\<forall>e \<in> set (inedges d). edge_source g e = Inr cn \<longleftrightarrow> e = oe"
        using source_unique' [OF ok _ src] src by blast
      with d src' show "\<exists>c. node g t = Inr c \<and> unlink_from g cn (inedges c) = Inr (remove1 oe (inedges c))"
        by (simp add: unlink_from_eq)
    qed
    from unlink_all_eq [OF ts(2) this] obtain g1 where g1: "unlink_all cn ?ts g = Inr g1" "oes g1 = oes g"
      "\<And>n. node g1 n = res_bind (node g n) (\<lambda>c. Inr (if n \<in> set ?ts \<and> n \<noteq> cn then c\<lparr>inedges := remove1 oe (inedges c)\<rparr> else c))"
      "current_call_edge_count_gl g1 = current_call_edge_count_gl g - int (length ?ts)"
      "current_call_node_count_gl g1 = current_call_node_count_gl g" by blast
    define g' where "g' = upd_node cn (\<lambda>c. c\<lparr>outcount := 0\<rparr>) g1"
    have "node g' n = res_bind (node g n) (\<lambda>c. Inr (if n = cn then c\<lparr>outcount := 0\<rparr> else without_in oe c))" for n
    proof (cases "node g n")
      case (Inr d)
      show ?thesis
      proof (cases "n \<in> kids g oe")
        case True
        then show ?thesis using Inr x(1)
          by (cases "n = cn") (simp_all add: g'_def node_upd g1(3) [unfolded ts(1)] without_in_def del: set_map)
      next
        case False
        with noop [OF Inr] show ?thesis using Inr x(1)
          by (cases "n = cn") (simp_all add: g'_def node_upd g1(3) [unfolded ts(1)] del: set_map)
      qed
    next
      case (Inl err)
      then show ?thesis by (cases "n = cn") (auto simp: g'_def node_upd g1(3))
    qed
    moreover have "deleteoutedges cn g = Inr g'" using False ov g1(1) by (simp add: deleteoutedges_def g'_def)
    moreover have "oes g' = oes g" using g1(2) by (simp add: g'_def upd_node_def)
    ultimately show ?thesis using g1(4,5) len by (simp add: g'_def)
  qed
qed

lemma detach_eq:
  assumes ok: "idg_ok g" and cn: "current g cn" and oe: "outedges_of g cn = Inr oe"
  shows "\<exists>g'. detach_call cn g = Inr g' \<and>
    (\<forall>n. node g' n = (if n = cn then Inl (Dangling_Pointer cn)
       else res_bind (node g n) (\<lambda>c. Inr (without_out (\<exists>e. edge_source g e = Inr n \<and> cn \<in> kids g e) (without_in oe c))))) \<and>
    (\<forall>e. deref (oes g') e = (if e = oe then Inl (Dangling_Pointer oe)
       else res_bind (deref (oes g) e) (\<lambda>x. Inr (without_key cn x)))) \<and>
    current_call_edge_count_gl g' = int (edge_total g') \<and>
    current_call_node_count_gl g' = current_call_node_count_gl g - 1"
proof -
  obtain x c where x: "node g cn = Inr c" "outedges c = Some oe" "deref (oes g) oe = Inr x"
    "oe_callnode x = cn" "oe_ok g oe x" "outcount c = of_nat (entrycount (hasht x))"
    using current_oe [OF ok cn] oe by (metis Inr_inject)
  have src: "edge_source g oe = Inr cn" using x(3,4) by (simp add: edge_source_def)
  have no: "node_ok g cn c" using idg_okD(2) [OF ok x(1)] .
  obtain g1 where g1: "deleteoutedges cn g = Inr g1" "oes g1 = oes g"
    "\<And>n. node g1 n = res_bind (node g n) (\<lambda>c. Inr (if n = cn then c\<lparr>outcount := 0\<rparr> else without_in oe c))"
    "current_call_edge_count_gl g1 = current_call_edge_count_gl g - int (card (kids g oe))"
    "current_call_node_count_gl g1 = current_call_node_count_gl g"
    using deleteoutedges_eq [OF assms] by blast
  have s1: "edge_source g1 e = edge_source g e" for e by (simp add: edge_source_def g1(2))
  have pre: "\<forall>e \<in> set (inedges c). \<exists>x c. deref (oes g1) e = Inr x \<and> node g1 (oe_callnode x) = Inr c \<and> ht_ok (hasht x) \<and>
       hashtable1_search (hasht x) cn \<noteq> None"
  proof
    fix e assume "e \<in> set (inedges c)"
    then have e: "e \<in> live_oe g" "cn \<in> kids g e" using node_okD(3) [OF no] by simp_all
    then obtain y where y: "deref (oes g) e = Inr y" by (auto simp: live_oe_def)
    have oy: "oe_ok g e y" using idg_okD(1) [OF ok y] .
    obtain d where d: "node g (oe_callnode y) = Inr d" using oe_okD(3) [OF oy] by blast
    have "hashtable1_search (hasht y) cn \<noteq> None" using e(2) kids_eq [OF y] by auto
    then show "\<exists>x c. deref (oes g1) e = Inr x \<and> node g1 (oe_callnode x) = Inr c \<and> ht_ok (hasht x) \<and>
       hashtable1_search (hasht x) cn \<noteq> None"
      using y d oe_okD(1) [OF oy] by (simp add: g1(2,3))
  qed
  have uniq: "\<forall>e \<in> set (inedges c). \<forall>e' \<in> set (inedges c). edge_source g1 e = edge_source g1 e' \<longrightarrow> e = e'"
  proof (intro ballI impI)
    fix e e' assume e: "e \<in> set (inedges c)" "edge_source g1 e = edge_source g1 e'"
    have "e \<in> live_oe g" using e(1) node_okD(3) [OF no] by simp
    then obtain m where m: "edge_source g e = Inr m" by (auto simp: live_oe_def edge_source_def)
    moreover have "edge_source g e' = Inr m" using e(2) m by (simp add: s1)
    ultimately show "e = e'" by (rule source_unique' [OF ok])
  qed
  define gone where "gone = {e \<in> set (inedges c). \<not> (True \<and> edge_source g1 e = Inr cn)}"
  obtain g2 where g2: "remove_inedges True ''delete dependency edges'' cn (inedges c) g1 = Inr g2"
    "\<And>e. deref (oes g2) e = res_bind (deref (oes g1) e) (\<lambda>x. Inr (if e \<in> gone then drop_key cn x else x))"
    "\<And>n. node g2 n = res_bind (node g1 n) (\<lambda>c. Inr
        (if \<exists>e \<in> gone. edge_source g1 e = Inr n then c\<lparr>outcount := outcount c - 1\<rparr> else c))"
    "current_call_edge_count_gl g2 = current_call_edge_count_gl g1 - int (card gone)"
    "current_call_node_count_gl g2 = current_call_node_count_gl g1" "edge_total g2 + card gone = edge_total g1"
    using remove_inedges_eq [OF node_okD(2) [OF no] pre uniq, of True "''delete dependency edges''"]
    unfolding Let_def gone_def by blast
  have gone: "e \<in> gone \<longleftrightarrow> e \<noteq> oe \<and> e \<in> live_oe g \<and> cn \<in> kids g e" for e
  proof -
    have "edge_source g e = Inr cn \<longleftrightarrow> e = oe" using source_unique' [OF ok _ src] src by blast
    then show ?thesis by (simp add: gone_def s1 node_okD(3) [OF no]) blast
  qed
  have n1: "node g1 cn = Inr (c\<lparr>outcount := 0\<rparr>)" using x(1) by (simp add: g1(3))
  have ncn: "\<not> (\<exists>e \<in> gone. edge_source g1 e = Inr cn)" by (auto simp: gone_def)
  have n2: "node g2 cn = Inr (c\<lparr>outcount := 0\<rparr>)"
    unfolding g2(3) n1 res_bind_simps if_not_P [OF ncn] ..
  have oe2: "deref (oes g2) oe = Inr x" using x(3) gone [of oe] by (simp add: g2(2) g1(2))
  have og2: "outedges_of g2 cn = Inr oe" using n2 x(2) by (simp add: outedges_of_def)
  define g' where "g' = free_node cn (free_oe oe (g2\<lparr>current_call_node_count_gl := current_call_node_count_gl g2 - 1\<rparr>))"
  have dn: "delete_dependency_edges cn g1 = Inr g2"
    using n1 g2(1) by (simp add: delete_dependency_edges_def)
  have call: "detach_call cn g = Inr g'"
    using g1(1) dn n2 og2 by (simp add: detach_call_def deletecallnode_def outedges_of_def g'_def)
  have fn: "deref (xs[k := None]) m = (if m = k then Inl (Dangling_Pointer k) else deref xs m)" for xs :: "'z option list" and k m
    by (simp add: deref_def nth_list_update)
  have n': "node g' n = (if n = cn then Inl (Dangling_Pointer cn) else node g2 n)" for n
    by (simp add: g'_def free_node_def free_oe_def node_def fn)
  have o': "deref (oes g') e = (if e = oe then Inl (Dangling_Pointer oe) else deref (oes g2) e)" for e
    by (simp add: g'_def free_node_def free_oe_def fn)
  have "node g' n = res_bind (node g n) (\<lambda>c. Inr (without_out (\<exists>e. edge_source g e = Inr n \<and> cn \<in> kids g e) (without_in oe c)))"
    if n: "n \<noteq> cn" for n
  proof -
    have "(\<exists>e \<in> gone. edge_source g1 e = Inr n) \<longleftrightarrow> (\<exists>e. edge_source g e = Inr n \<and> cn \<in> kids g e)"
    proof
      assume "\<exists>e. edge_source g e = Inr n \<and> cn \<in> kids g e"
      then obtain e where e: "edge_source g e = Inr n" "cn \<in> kids g e" by blast
      then have "e \<noteq> oe" using n src by auto
      moreover have "e \<in> live_oe g" using e(1) by (auto simp: edge_source_def live_oe_def)
      ultimately show "\<exists>e \<in> gone. edge_source g1 e = Inr n" using e by (auto simp: gone s1)
    qed (auto simp: gone s1)
    then show ?thesis using n by (cases "node g n") (simp_all add: n' g2(3) g1(3) without_out_def)
  qed
  moreover have "deref (oes g') e = res_bind (deref (oes g) e) (\<lambda>x. Inr (without_key cn x))" if e: "e \<noteq> oe" for e
  proof (cases "deref (oes g) e")
    case (Inr y)
    then have "e \<in> gone \<longleftrightarrow> hashtable1_search (hasht y) cn \<noteq> None"
      using e kids_eq [OF Inr] by (auto simp: gone live_oe_def)
    with Inr e show ?thesis by (simp add: o' g2(2) g1(2) without_key_def)
  qed (use e in \<open>simp add: o' g2(2) g1(2)\<close>)
  moreover have "current_call_edge_count_gl g' = int (edge_total g')"
  proof -
    have "edge_total g' + entrycount (hasht x) = edge_total g2"
    proof -
      have "oe < length (oes g2)" "oes g2 ! oe = Some x"
        using oe2 by (auto simp: deref_def split: if_splits option.splits)
      then show ?thesis
        using sum_list_update_nat [of oe "oes g2" "\<lambda>x. case x of None \<Rightarrow> 0 | Some x \<Rightarrow> entrycount (hasht x)" None]
        by (simp add: edge_total_def g'_def free_oe_def free_node_def)
    qed
    moreover have "card (kids g oe) = entrycount (hasht x)"
    proof -
      have "\<And>k v. hashtable1_search (hasht x) k = Some v \<Longrightarrow> v = k" using oe_okD(2) [OF x(5)] by blast
      note p = pairs_snd [OF oe_okD(1) [OF x(5)] this]
      show ?thesis using p kids_eq [OF x(3)] entrycount_pairs [OF oe_okD(1) [OF x(5)]]
        by (metis distinct_card length_map)
    qed
    moreover have "current_call_edge_count_gl g' = current_call_edge_count_gl g2"
      by (simp add: g'_def free_oe_def free_node_def)
    moreover have "edge_total g1 = edge_total g" by (simp add: edge_total_def g1(2))
    ultimately show ?thesis using idg_okD(3) [OF ok] g2(4,6) g1(4) by linarith
  qed
  moreover have "current_call_node_count_gl g' = current_call_node_count_gl g - 1"
    using g1(5) g2(5) by (simp add: g'_def free_oe_def free_node_def)
  ultimately show ?thesis using call n' o' by (intro exI [of _ g']) simp
qed

lemma detach_laws:
  assumes ok: "idg_ok g" and st: "settled g" and cn: "cn \<in> live g"
  shows "\<exists>g'. detach_call cn g = Inr g' \<and> idg_ok g' \<and> settled g' \<and> live g' = live g - {cn} \<and>
    call_edges g' = {(m, n) \<in> call_edges g. m \<noteq> cn \<and> n \<noteq> cn}"
proof -
  have cur: "current g cn" using st cn by (simp add: settled_def)
  obtain oe x c where x: "node g cn = Inr c" "outedges_of g cn = Inr oe" "deref (oes g) oe = Inr x" "oe_callnode x = cn"
    using current_oe [OF ok cur] by metis
  have src: "edge_source g oe = Inr cn" using x(3,4) by (simp add: edge_source_def)
  let ?out = "\<lambda>n. \<exists>e. edge_source g e = Inr n \<and> cn \<in> kids g e"
  obtain g' where g': "detach_call cn g = Inr g'"
    "\<And>n. node g' n = (if n = cn then Inl (Dangling_Pointer cn)
       else res_bind (node g n) (\<lambda>c. Inr (without_out (?out n) (without_in oe c))))"
    "\<And>e. deref (oes g') e = (if e = oe then Inl (Dangling_Pointer oe)
       else res_bind (deref (oes g) e) (\<lambda>x. Inr (without_key cn x)))"
    "current_call_edge_count_gl g' = int (edge_total g')"
    "current_call_node_count_gl g' = current_call_node_count_gl g - 1"
    using detach_eq [OF ok cur x(2)] by blast
  have f: "outedges (without_out b (without_in e d)) = outedges d"
    "inedges (without_out b (without_in e d)) = remove1 e (inedges d)"
    "outcount (without_out b (without_in e d)) = outcount d - of_bool b" for b e d
    by (simp_all add: without_out_def without_in_def)
  have kn: "oe_callnode (without_key cn y) = oe_callnode y" for y by (simp add: without_key_def drop_key_def)
  have key: "ht_ok (hasht (without_key cn y))"
    "hashtable1_search (hasht (without_key cn y)) = (hashtable1_search (hasht y))(cn := None)"
    "entrycount (hasht y) = entrycount (hasht (without_key cn y)) + of_bool (hashtable1_search (hasht y) cn \<noteq> None)"
    if "ht_ok (hasht y)" for y
  proof -
    show "ht_ok (hasht (without_key cn y))"
      using that ht.del_ok [OF that] by (simp add: without_key_def drop_key_def)
    show "hashtable1_search (hasht (without_key cn y)) = (hashtable1_search (hasht y))(cn := None)"
      using that ht.lookup_del [OF that, of cn] by (simp add: without_key_def drop_key_def fun_upd_idem)
    show "entrycount (hasht y) = entrycount (hasht (without_key cn y)) + of_bool (hashtable1_search (hasht y) cn \<noteq> None)"
      using ht.length_del [OF that] entrycount_pairs [OF that] entrycount_pairs [OF ht.del_ok [OF that]]
      by (auto simp: without_key_def drop_key_def)
  qed
  have lv: "live g' = live g - {cn}"
  proof -
    have "n \<in> live g' \<longleftrightarrow> n \<in> live g \<and> n \<noteq> cn" for n
      by (cases "node g n") (simp_all add: live_def g'(2))
    then show ?thesis by auto
  qed
  have lo: "live_oe g' = live_oe g - {oe}"
  proof -
    have "n \<in> live_oe g' \<longleftrightarrow> n \<in> live_oe g \<and> n \<noteq> oe" for n
      by (cases "deref (oes g) n") (simp_all add: live_oe_def g'(3))
    then show ?thesis by auto
  qed
  have k: "kids g' e = (if e = oe then {} else kids g e - {cn})" for e
  proof (cases "e = oe")
    case True
    then show ?thesis by (simp add: kids_def g'(3))
  next
    case False
    show ?thesis
    proof (cases "deref (oes g) e")
      case (Inr y)
      have "ht_ok (hasht y)" using oe_okD(1) [OF idg_okD(1) [OF ok Inr]] .
      from key(2) [OF this] False Inr show ?thesis by (simp add: kids_def g'(3))
    qed (use False in \<open>simp add: kids_def g'(3)\<close>)
  qed
  have so: "edge_source g' e = (if e = oe then Inl (Dangling_Pointer oe) else edge_source g e)" for e
    by (cases "deref (oes g) e") (simp_all add: edge_source_def g'(3) kn)
  have "idg_ok g'"
    unfolding idg_ok_def
  proof (intro conjI allI impI)
    fix e y assume y: "deref (oes g') e = Inr y"
    then have e: "e \<noteq> oe" by (auto simp: g'(3))
    with y obtain y0 where y0: "deref (oes g) e = Inr y0" "y = without_key cn y0"
      by (cases "deref (oes g) e") (simp_all add: g'(3))
    have oy: "oe_ok g e y0" using idg_okD(1) [OF ok y0(1)] .
    note h = oe_okD(1) [OF oy]
    obtain d where d: "node g (oe_callnode y0) = Inr d" "outedges d = Some e"
      "outcount d = of_nat (entrycount (hasht y0))" using oe_okD(3) [OF oy] by blast
    have se: "edge_source g e = Inr (oe_callnode y0)" using y0(1) by (simp add: edge_source_def)
    then have m: "oe_callnode y0 \<noteq> cn" using source_unique' [OF ok _ src] e by auto
    have "?out (oe_callnode y0) \<longleftrightarrow> hashtable1_search (hasht y0) cn \<noteq> None"
    proof -
      have "edge_source g e' = Inr (oe_callnode y0) \<longleftrightarrow> e' = e" for e'
        using source_unique' [OF ok _ se] se by blast
      moreover have "cn \<in> kids g e \<longleftrightarrow> hashtable1_search (hasht y0) cn \<noteq> None"
        using kids_eq [OF y0(1)] by (simp add: domIff)
      ultimately show ?thesis by simp
    qed
    then have "outcount (without_out (?out (oe_callnode y0)) (without_in oe d)) = of_nat (entrycount (hasht y))"
      using key(3) [OF h] d(3) by (simp add: f y0(2))
    then have "\<exists>c. node g' (oe_callnode y) = Inr c \<and> outedges c = Some e \<and> outcount c = of_nat (entrycount (hasht y))"
      using d m by (simp add: g'(2) y0(2) kn f)
    moreover have "\<forall>k v. hashtable1_search (hasht y) k = Some v \<longrightarrow> v = k \<and> k \<in> live g'"
      using oe_okD(2) [OF oy] by (simp add: y0(2) key(2) [OF h] lv)
    ultimately show "oe_ok g' e y" using key(1) [OF h] by (simp add: oe_ok_def y0(2))
  next
    fix n d assume d: "node g' n = Inr d"
    then have n: "n \<noteq> cn" by (auto simp: g'(2))
    with d obtain d0 where d0: "node g n = Inr d0" "d = without_out (?out n) (without_in oe d0)"
      by (cases "node g n") (simp_all add: g'(2))
    have no: "node_ok g n d0" using idg_okD(2) [OF ok d0(1)] .
    have "current g n" using st d0(1) by (auto simp: settled_def live_def)
    then obtain oe' where o: "outedges_of g n = Inr oe'" "edge_source g oe' = Inr n" by (auto simp: current_def)
    have "oe' \<noteq> oe" using o(2) src n by auto
    moreover have "outedges d = Some oe'" using o(1) d0 by (auto simp: f outedges_of_def split: option.splits)
    moreover have "oe' \<in> live_oe g" using o(2) by (auto simp: edge_source_def live_oe_def)
    ultimately have "\<exists>oe \<in> live_oe g'. outedges d = Some oe" by (simp add: lo)
    moreover have "distinct (inedges d)" using node_okD(2) [OF no] by (simp add: d0(2) f)
    moreover have "set (inedges d) = {e \<in> live_oe g'. n \<in> kids g' e}"
    proof -
      have "set (inedges d) = set (inedges d0) - {oe}"
        unfolding d0(2) f by (rule set_remove1_eq [OF node_okD(2) [OF no]])
      moreover have "set (inedges d0) = {e \<in> live_oe g. n \<in> kids g e}" using node_okD(3) [OF no] by blast
      ultimately show ?thesis using n by (auto simp: lo k)
    qed
    ultimately show "node_ok g' n d" by (simp add: node_ok_def)
  next
    show "current_call_edge_count_gl g' = int (edge_total g')" by (rule g'(4))
    have "0 < card (live g)" using finite_live [of g] cn by (simp add: card_gt_0_iff) blast
    then show "current_call_node_count_gl g' = int (card (live g'))"
      using g'(5) idg_okD(4) [OF ok] cn by (simp add: lv card_Diff_singleton)
  qed
  moreover have "settled g'"
    unfolding settled_def
  proof
    fix n assume "n \<in> live g'"
    then have n: "n \<in> live g" "n \<noteq> cn" by (simp_all add: lv)
    then obtain oe' where o: "outedges_of g n = Inr oe'" "edge_source g oe' = Inr n"
      using st by (auto simp: settled_def current_def)
    have "outedges_of g' n = Inr oe'"
      using o(1) n(2) by (cases "node g n") (simp_all add: outedges_of_def g'(2) f)
    moreover have "oe' \<noteq> oe" using o(2) src n(2) by auto
    ultimately show "current g' n" using o(2) by (simp add: current_def so)
  qed
  moreover have "call_edges g' = {(m, n) \<in> call_edges g. m \<noteq> cn \<and> n \<noteq> cn}"
  proof -
    have e: "e = oe" if "edge_source g e = Inr cn" for e using source_unique' [OF ok that src] .
    have "(m, n) \<in> call_edges g' \<longleftrightarrow> (m, n) \<in> call_edges g \<and> m \<noteq> cn \<and> n \<noteq> cn" for m n
    proof
      assume "(m, n) \<in> call_edges g'"
      then obtain e' where "edge_source g' e' = Inr m" "n \<in> kids g' e'" by (auto simp: call_edges_def)
      then have "e' \<noteq> oe" "edge_source g e' = Inr m" "n \<in> kids g e'" "n \<noteq> cn"
        by (simp_all add: so k split: if_splits)
      with e show "(m, n) \<in> call_edges g \<and> m \<noteq> cn \<and> n \<noteq> cn" unfolding call_edges_def by blast
    next
      assume a: "(m, n) \<in> call_edges g \<and> m \<noteq> cn \<and> n \<noteq> cn"
      then obtain e' where e': "edge_source g e' = Inr m" "n \<in> kids g e'" by (auto simp: call_edges_def)
      then have "e' \<noteq> oe" using src a by auto
      with e' a have "edge_source g' e' = Inr m" "n \<in> kids g' e'" by (simp_all add: so k)
      then show "(m, n) \<in> call_edges g'" unfolding call_edges_def by blast
    qed
    then show ?thesis by auto
  qed
  ultimately show ?thesis using g'(1) lv by blast
qed

end
