(* ===== verification/Graph_Properties.thy ===== *)
theory Graph_Properties imports Graph_Restore Graph_Structure begin

text \<open>
  The properties of the incremental dependency graph, with witnesses on small graphs that
  its own operations make.
\<close>

section \<open>Graphs for the witnesses\<close>

definition no_calls :: idg where
  "no_calls = \<lparr>nodes = [], oes = [], current_call_node_count_gl = 0, current_call_edge_count_gl = 0\<rparr>"

lemma no_calls_simps: "node no_calls n = Inl (Dangling_Pointer n)" "deref (oes no_calls) n = Inl (Dangling_Pointer n)"
  "live no_calls = {}" "call_edges no_calls = {}"
  by (simp_all add: no_calls_def node_def deref_def live_def call_edges_def edge_source_def)

lemma no_calls_ok: "idg_ok no_calls" "settled no_calls"
proof -
  show "settled no_calls" by (simp add: settled_def no_calls_simps)
  have "edge_total no_calls = 0" by (simp add: edge_total_def no_calls_def)
  then show "idg_ok no_calls" unfolding idg_ok_def by (simp add: no_calls_simps) (simp add: no_calls_def)
qed

text \<open>A leaf 0, on which the call 1 depends, with a frame that is completed or not.\<close>

abbreviation (input) done_call :: subgoal_frame where "done_call \<equiv> \<lparr>sf_completed = True, sf_visitors = 0\<rparr>"


lemma new_call_current:
  assumes "new_call sf leaf tif g = Inr (n, g')" "current g m"
  shows "current g' m"
proof -
  from assms(2) obtain oe where oe: "outedges_of g m = Inr oe" "edge_source g oe = Inr m" by (auto simp: current_def)
  then have "m < length (nodes g)" "oe < length (oes g)"
    by (auto simp: outedges_of_def edge_source_def deref_def dest: node_length split: if_splits)
  then have "outedges_of g' m = Inr oe" "edge_source g' oe = Inr m"
    using assms(1) oe
    by (auto simp: new_call_def makecallnode_def initoutedges_def outedges_of_def edge_source_def node_def upd_node_def
        deref_append split: option.splits)
  then show ?thesis by (auto simp: current_def)
qed

lemma addcalledge_current:
  assumes "addcalledge f t g = Inr g'"
  shows "current g' m \<longleftrightarrow> current g m"
proof -
  have "outedges_of g' k = outedges_of g k" "edge_source g' k = edge_source g k" for k
    using assms
    by (auto simp: addcalledge_def Let_def graph_simps outedges_of_def edge_source_def res_bind_def
        split: if_splits sum.splits)
  then show ?thesis by (simp add: current_def)
qed

lemma settled_walkable:
  assumes "idg_ok g" "settled g" "\<forall>(m, n) \<in> call_edges g. \<not> is_leaf g n"
  shows "walkable g"
proof (rule idg_ok_walkable [OF assms(1)], intro allI ballI)
  fix oe n assume n: "n \<in> kids g oe"
  then obtain x where "deref (oes g) oe = Inr x" by (auto simp: kids_def split: sum.splits)
  then have "edge_source g oe = Inr (oe_callnode x)" by (simp add: edge_source_def)
  then have "(oe_callnode x, n) \<in> call_edges g" using n by (auto simp: call_edges_def)
  with assms(3) show "\<not> is_leaf g n" by blast
qed

section \<open>The structure\<close>

text \<open>
  C23: a new call is a node that was not there, with no edges; the graph keeps its
  invariant: out-edges and in-edges are inverse, and the counters count them.
\<close>

theorem new_call_law:
  assumes "idg_ok g" "settled g"
  shows "\<exists>n g'. new_call sf leaf tif g = Inr (n, g') \<and> idg_ok g' \<and> settled g' \<and> n \<notin> live g \<and>
    live g' = insert n (live g) \<and> call_edges g' = call_edges g"
proof -
  obtain n g' where g': "new_call sf leaf tif g = Inr (n, g')" "idg_ok g'" "n \<notin> live g" "live g' = insert n (live g)"
    "current g' n" "call_edges g' = call_edges g"
    using new_call_laws [OF assms(1)] by metis
  moreover have "settled g'" using g' assms(2) new_call_current [OF g'(1)] by (auto simp: settled_def)
  ultimately show ?thesis by blast
qed

theorem new_call_law_witness:
  "\<exists>n g'. new_call None True 0 no_calls = Inr (n, g') \<and> idg_ok g' \<and> settled g' \<and> live g' = {n}"
  using new_call_law [OF no_calls_ok, of None True 0] by (auto simp: no_calls_simps)

text \<open>
  C24: \<open>addcalledge\<close> adds its edge, once, and keeps the invariant.
\<close>

theorem addcalledge_law:
  assumes "idg_ok g" "settled g" "f \<in> live g" "t \<in> live g"
  shows "\<exists>g'. addcalledge f t g = Inr g' \<and> idg_ok g' \<and> settled g' \<and> live g' = live g \<and>
    call_edges g' = insert (f, t) (call_edges g)"
proof -
  have "current g f" using assms(2,3) by (simp add: settled_def)
  then obtain g' where g': "addcalledge f t g = Inr g'" "idg_ok g'" "live g' = live g"
    "call_edges g' = insert (f, t) (call_edges g)"
    using addcalledge_laws [OF assms(1) _ assms(4)] by blast
  moreover have "settled g'" using g'(3) assms(2) addcalledge_current [OF g'(1)] by (simp add: settled_def)
  ultimately show ?thesis by blast
qed

lemma new_call_id: "new_call sf leaf tif g = Inr (n, g') \<Longrightarrow> n = length (nodes g) \<and> length (nodes g') = Suc n"
  by (auto simp: new_call_def makecallnode_def initoutedges_def upd_node_def split: option.splits)

definition two_nodes :: "subgoal_frame \<Rightarrow> (nat \<times> idg) res" where
  "two_nodes sf = res_bind (new_call None True 0 no_calls) (\<lambda>(_, g). new_call (Some sf) False 0 g)"

definition two_calls :: "subgoal_frame \<Rightarrow> idg res" where
  "two_calls sf = res_bind (two_nodes sf) (\<lambda>(_, g). addcalledge 0 1 g)"

lemma two_nodes_ok:
  obtains g where "two_nodes sf = Inr (1, g)" "idg_ok g" "settled g" "live g = {0, 1}" "call_edges g = {}"
proof -
  obtain a g1 where g1: "new_call None True 0 no_calls = Inr (a, g1)" "idg_ok g1" "live g1 = {a}" "call_edges g1 = {}" "current g1 a"
    using new_call_laws [OF no_calls_ok(1), of None True 0] by (auto simp: no_calls_simps)
  obtain b g2 where g2: "new_call (Some sf) False 0 g1 = Inr (b, g2)" "idg_ok g2" "current g2 b" "live g2 = insert b (live g1)"
    "call_edges g2 = call_edges g1"
    using new_call_laws [OF g1(2), of "Some sf" False 0] by metis
  have ab: "a = 0" "b = 1" using new_call_id [OF g1(1)] new_call_id [OF g2(1)] by (simp_all add: no_calls_def)
  have "settled g2" using g1(3,5) g2(3,4) new_call_current [OF g2(1)] by (auto simp: settled_def)
  with g1 g2 ab show thesis by (intro that [of g2]) (auto simp: two_nodes_def)
qed

theorem addcalledge_law_witness:
  "\<exists>g. two_calls done_call = Inr g \<and> idg_ok g \<and> settled g \<and> call_edges g = {(0, 1)}"
proof -
  obtain g where g: "two_nodes done_call = Inr (1, g)" "idg_ok g" "settled g" "live g = {0, 1}" "call_edges g = {}"
    by (rule two_nodes_ok)
  have "0 \<in> live g" "1 \<in> live g" using g(4) by auto
  from addcalledge_law [OF g(2,3) this] obtain g' where "addcalledge 0 1 g = Inr g'" "idg_ok g'" "settled g'"
    "call_edges g' = insert (0, 1) (call_edges g)" by blast
  moreover from this(1) have "two_calls done_call = Inr g'" unfolding two_calls_def g(1) by simp
  ultimately show ?thesis using g(5) by (intro exI [of _ g']) simp
qed

text \<open>The graph for the next witnesses: \<open>two_calls\<close> once more, with what they need of it.\<close>

lemma two_calls_ok:
  obtains g where "two_calls sf = Inr g" "idg_ok g" "settled g" "live g = {0, 1}" "call_edges g = {(0, 1)}"
proof -
  obtain g where g: "two_nodes sf = Inr (1, g)" "idg_ok g" "settled g" "live g = {0, 1}" "call_edges g = {}"
    by (rule two_nodes_ok)
  then have "current g 0" "1 \<in> live g" by (auto simp: settled_def)
  with addcalledge_laws [OF g(2)] obtain g' where g': "addcalledge 0 1 g = Inr g'" "idg_ok g'" "live g' = live g"
    "call_edges g' = insert (0, 1) (call_edges g)" by blast
  moreover have "settled g'" using g'(3) g(3) addcalledge_current [OF g'(1)] by (simp add: settled_def)
  moreover have "two_calls sf = Inr g'" unfolding two_calls_def g(1) using g'(1) by simp
  ultimately show thesis using g(4,5) by (intro that [of g']) simp_all
qed

text \<open>
  C25: detaching a call takes it out of the graph with every edge from it and to it, and
  keeps the invariant.
\<close>

theorem detach_law:
  assumes "idg_ok g" "settled g" "cn \<in> live g"
  shows "\<exists>g'. detach_call cn g = Inr g' \<and> idg_ok g' \<and> settled g' \<and> live g' = live g - {cn} \<and>
    call_edges g' = {(m, n) \<in> call_edges g. m \<noteq> cn \<and> n \<noteq> cn}"
  by (rule detach_laws [OF assms])

theorem detach_law_witness:
  "\<exists>g g'. two_calls done_call = Inr g \<and> detach_call 1 g = Inr g' \<and> idg_ok g' \<and> live g' = {0} \<and> call_edges g' = {}"
proof -
  obtain g where g: "two_calls done_call = Inr g" "idg_ok g" "settled g" "live g = {0, 1}" "call_edges g = {(0, 1)}"
    by (rule two_calls_ok)
  have "1 \<in> live g" using g(4) by simp
  from detach_law [OF g(2,3) this] obtain g' where "detach_call 1 g = Inr g'" "idg_ok g'" "live g' = live g - {1}"
    "call_edges g' = {(m, n) \<in> call_edges g. m \<noteq> 1 \<and> n \<noteq> 1}" by blast
  moreover have "live g - {1} = {0}" "{(m, n) \<in> call_edges g. m \<noteq> 1 \<and> n \<noteq> 1} = {}" using g(4,5) by auto
  ultimately show ?thesis using g(1) by (intro exI [of _ g] exI [of _ g']) simp
qed

section \<open>Invalidation\<close>

text \<open>The values of a table of out-edges are the ends of the edges.\<close>

lemma succs_call_edges:
  assumes "idg_ok g" "current g m"
  shows "set (succs g m) = {n. (m, n) \<in> call_edges g}"
proof -
  obtain oe x c where x: "node g m = Inr c" "outedges_of g m = Inr oe" "outedges c = Some oe" "deref (oes g) oe = Inr x"
    "oe_callnode x = m"
    using current_oe [OF assms] by metis
  obtain oe' where "outedges c = Some oe'" "set (succs g m) = kids g oe'"
    using out_table_ok [OF assms(1) x(1)] by metis
  then have "set (succs g m) = kids g oe" using x(3) by simp
  moreover have "edge_source g oe = Inr m" using x(4,5) by (simp add: edge_source_def)
  moreover have "oe' = oe" if "edge_source g oe' = Inr m" for oe' using source_unique [OF assms(1) that x(2)] .
  ultimately show ?thesis unfolding call_edges_def by blast
qed

lemma two_calls_nodes:
  assumes "two_calls sf = Inr g"
  shows "length (nodes g) = 2" "is_leaf g 0" "\<not> is_leaf g 1" "is_complete g 1 \<longleftrightarrow> sf_completed sf" "set (succs g 0) = {1}" "set (succs g 1) = {}"
    "\<not> is_deleted g 0" "\<not> is_deleted g 1" "falsecount_of g 0 = 0" "falsecount_of g 1 = 0"
    "has_goal g 0" "has_goal g 1"
proof -
  obtain g' where g: "two_calls sf = Inr g'" "idg_ok g'" "settled g'" "live g' = {0, 1}" "call_edges g' = {(0, 1)}"
    by (rule two_calls_ok)
  have e: "g' = g" using g(1) unfolding assms by simp
  have "current g 0" "current g 1" using g(3,4) unfolding e settled_def by simp_all
  then show "set (succs g 0) = {1}" "set (succs g 1) = {}"
    using succs_call_edges [OF g(2) [unfolded e]] g(5) unfolding e by auto
  obtain h :: "(nat, nat) hashtable" where h: "create_hashtable1 1 hashfromkey equalkeys = Some h" "hashtable1_search h 1 = None"
    using create_one by (auto simp: search_None_iff)
  show "length (nodes g) = 2" "is_leaf g 0" "\<not> is_leaf g 1" "is_complete g 1 \<longleftrightarrow> sf_completed sf"
    "\<not> is_deleted g 0" "\<not> is_deleted g 1" "falsecount_of g 0 = 0" "falsecount_of g 1 = 0" "has_goal g 0" "has_goal g 1"
    using assms h
    by (auto simp: two_calls_def two_nodes_def new_call_def makecallnode_def initoutedges_def addcalledge_def no_calls_def
      node_def deref_def upd_node_def upd_oe_def is_leaf_def is_complete_def is_deleted_def falsecount_of_def
      has_goal_def outedges_of_def edge_table_def Let_def)
qed

lemma two_calls_affected:
  assumes "two_calls sf = Inr g"
  shows "affected g 0 = {0, 1}" "pointing g (affected g 0) 0 = {}" "pointing g (affected g 0) 1 = {0}" "acyclic (deps g 0)"
proof -
  note n = two_calls_nodes [OF assms]
  have s: "k \<in> set (succs g 0) \<longleftrightarrow> k = 1" "k \<notin> set (succs g 1)" for k using n(5,6) by simp_all
  have "m = 0 \<or> m = 1" if "m \<in> affected g 0" for m
    using that
  proof (induction rule: affected.induct)
    case (depends m k)
    with s [of k] show ?case by blast
  qed simp
  moreover have "1 \<in> affected g 0" by (rule affected.depends [OF affected.start [of 0 g] _ n(8)]) (simp add: s)
  ultimately have m: "m \<in> affected g 0 \<longleftrightarrow> m = 0 \<or> m = 1" for m using affected.start [of 0 g] by blast
  then show "affected g 0 = {0, 1}" by (intro set_eqI) simp
  have "x \<in> pointing g (affected g 0) k \<longleftrightarrow> x = 0 \<and> k = 1" for x k
    unfolding pointing_def mem_Collect_eq m using s [of k] by blast
  then show "pointing g (affected g 0) 0 = {}" "pointing g (affected g 0) 1 = {0}"
    by (intro set_eqI, simp)+
  have "p \<in> deps g 0 \<longleftrightarrow> p = (0, 1)" for p
    unfolding deps_def using s [of "snd p"] by (cases p) (auto simp: m simp del: One_nat_def)
  then have "deps g 0 = {(0, 1)}" by blast
  then show "acyclic (deps g 0)" by (simp add: acyclic_insert wf_acyclic)
qed



text \<open>
  C27: if the call turns out not to have changed, \<open>propagate_no_change\<close> takes the whole
  invalidation back from the calls that depend on it, provided they do not depend on each
  other in a cycle.
\<close>

theorem invalidation_undone:
  assumes "idg_ok g" "settled g" "\<forall>(m, n) \<in> call_edges g. \<not> is_leaf g n" "length (nodes g) < 10000"
    and "r \<in> live g" "\<forall>n \<in> affected g r. is_leaf g n \<or> is_complete g n"
    and "\<forall>n \<in> live g. \<not> is_deleted g n \<and> falsecount_of g n = 0" "acyclic (deps g r)"
  shows "\<exists>g1 g2. invalidate_call r g = Inr g1 \<and> propagate_no_change (Some r) g1 = Inr g2 \<and>
    same_shape g2 g \<and> falsecount_of g2 r = 1 \<and> (\<forall>n \<in> live g. n \<noteq> r \<longrightarrow> \<not> is_deleted g2 n \<and> falsecount_of g2 n = 0)"
  by (rule invalidate_restored [OF settled_walkable [OF assms(1-3)] assms(4-8)])


theorem invalidation_undone_witness:
  "\<exists>g g1 g2. two_calls done_call = Inr g \<and> invalidate_call 0 g = Inr g1 \<and> propagate_no_change (Some 0) g1 = Inr g2 \<and>
     \<not> is_deleted g2 1 \<and> falsecount_of g2 1 = 0"
proof -
  obtain g where g: "two_calls done_call = Inr g" "idg_ok g" "settled g" "live g = {0, 1}" "call_edges g = {(0, 1)}"
    by (rule two_calls_ok)
  note n = two_calls_nodes [OF g(1)] and a = two_calls_affected [OF g(1)]
  have h: "\<forall>(m, n) \<in> call_edges g. \<not> is_leaf g n" "length (nodes g) < 10000" "0 \<in> live g"
    "\<forall>n \<in> affected g 0. is_leaf g n \<or> is_complete g n" "\<forall>n \<in> live g. \<not> is_deleted g n \<and> falsecount_of g n = 0"
    using n(1-4,7-10) unfolding g(4,5) a(1) by simp_all
  have "1 \<in> live g" using g(4) by simp
  moreover from invalidation_undone [OF g(2,3) h a(4)] obtain g1 g2 where
    "invalidate_call 0 g = Inr g1" "propagate_no_change (Some 0) g1 = Inr g2"
    "\<forall>n \<in> live g. n \<noteq> 0 \<longrightarrow> \<not> is_deleted g2 n \<and> falsecount_of g2 n = 0" by blast
  ultimately show ?thesis using g(1) by (intro exI [of _ g] exI [of _ g1] exI [of _ g2]) simp
qed

end
