(* ===== verification/Trie_Nodes.thy ===== *)
theory Trie_Nodes imports Object_Store Chained_Buckets begin

text \<open>
  The nodes of a trie and the hash tables that hold the children of a node when there are
  many: emu/trie_internals.h and the first part of emu/tries.c.

  A node is named by the position at which it was made. The field \<open>Child\<close> and the
  \<open>Sibling\<close> links below it are the list of the children, or the hash table with a list for
  each bucket. Symbols are cells: an address stands in them without its tag. The root of
  an answer trie has its subgoal frame for a parent, which is not followed; here it has
  none. The opcodes are below 256 and the changes to them stay there, so a byte is a \<open>nat\<close>.
\<close>

section \<open>Symbols\<close>

datatype tsym =
    SStruct nat nat     \<comment> \<open>the address of a \<open>psc_rec\<close>, with the arity that is found there\<close>
  | SInt int
  | SString nat
  | SFloat nat
  | SList
  | SInternStr nat      \<comment> \<open>the cell of an interned ground structure\<close>
  | SInternList nat     \<comment> \<open>the cell of an interned ground list\<close>
  | STrieVar nat        \<comment> \<open>the number under the tag \<open>XSB_TrieVar\<close>\<close>

abbreviation (input) NEW_TRIEVAR_TAG :: nat where "NEW_TRIEVAR_TAG \<equiv> 0x10000"
abbreviation (input) NEW_TRIEATTV_TAG :: nat where "NEW_TRIEATTV_TAG \<equiv> 0x20000"

definition EncodeNewTrieVar :: "nat \<Rightarrow> tsym" where "EncodeNewTrieVar i = STrieVar (or i NEW_TRIEVAR_TAG)"
definition EncodeNewTrieAttv :: "nat \<Rightarrow> tsym" where "EncodeNewTrieAttv i = STrieVar (or i NEW_TRIEATTV_TAG)"
definition EncodeTrieVar :: "nat \<Rightarrow> tsym" where "EncodeTrieVar i = STrieVar i"

definition DecodeTrieVar :: "nat \<Rightarrow> nat" where "DecodeTrieVar v = and v 0xffff"
definition IsNewTrieVar :: "nat \<Rightarrow> bool" where "IsNewTrieVar v \<longleftrightarrow> bit v 16"
definition IsNewTrieAttv :: "nat \<Rightarrow> bool" where "IsNewTrieAttv v \<longleftrightarrow> bit v 17"

abbreviation (input) ESCAPE_NODE_SYMBOL :: tsym where "ESCAPE_NODE_SYMBOL \<equiv> STrieVar 0"

text \<open>The cell without its tag bits: \<open>Symbol >> XSB_CELL_TAG_NBITS\<close>, on 64 bits.\<close>

fun untagged :: "tsym \<Rightarrow> nat" where
  "untagged (SStruct p _) = p div 8"
| "untagged (SInt i) = nat (i mod 2 ^ 61)"
| "untagged (SString a) = a div 8"
| "untagged (SFloat f) = f div 8"
| "untagged SList = 0"
| "untagged (SInternStr p) = p div 8"
| "untagged (SInternList p) = p div 8"
| "untagged (STrieVar v) = v"

definition TrieHash :: "tsym \<Rightarrow> nat \<Rightarrow> nat" where
  "TrieHash x seed = (case x of STrieVar _ \<Rightarrow> 0 | _ \<Rightarrow> and (untagged x) seed)"

section \<open>Nodes\<close>

record trie_ht =
  numContents :: int
  buckets :: "nat list list"

datatype kids = Chain "nat list" | Hashed trie_ht

record btn =
  bt_instr :: nat
  bt_status :: nat
  bt_trietype :: nat
  bt_nodetype :: nat
  bt_symbol :: tsym
  bt_parent :: "nat option"
  bt_child :: kids

type_synonym btns = "btn option list"

abbreviation (input) BASIC_ANSWER_TRIE_TT :: nat where "BASIC_ANSWER_TRIE_TT \<equiv> 5"
abbreviation (input) ASSERT_TRIE_TT :: nat where "ASSERT_TRIE_TT \<equiv> 2"
abbreviation (input) INTERN_TRIE_TT :: nat where "INTERN_TRIE_TT \<equiv> 1"
abbreviation (input) TRIE_ROOT_NT :: nat where "TRIE_ROOT_NT \<equiv> 8"
abbreviation (input) INTERIOR_NT :: nat where "INTERIOR_NT \<equiv> 0"
abbreviation (input) VALID_NODE_STATUS :: nat where "VALID_NODE_STATUS \<equiv> 0"
abbreviation (input) trie_proceed :: nat where "trie_proceed \<equiv> 0x78"
abbreviation (input) trie_root :: nat where "trie_root \<equiv> 0x7d"
abbreviation (input) trie_no_cp_fail :: nat where "trie_no_cp_fail \<equiv> 0x90"

definition IsTrieRoot :: "btn \<Rightarrow> bool" where "IsTrieRoot b \<longleftrightarrow> bt_nodetype b = TRIE_ROOT_NT"
definition IsLeafNode :: "btn \<Rightarrow> bool" where "IsLeafNode b \<longleftrightarrow> bit (bt_nodetype b) 1"
definition IsDeletedNode :: "btn \<Rightarrow> bool" where "IsDeletedNode b \<longleftrightarrow> bt_status b \<noteq> VALID_NODE_STATUS"

definition MakeLeafNode :: "btn \<Rightarrow> btn" where "MakeLeafNode b = b\<lparr>bt_nodetype := or (bt_nodetype b) 2\<rparr>"
definition MakeHashedNode :: "btn \<Rightarrow> btn" where "MakeHashedNode b = b\<lparr>bt_nodetype := or (bt_nodetype b) 1\<rparr>"

text \<open>
  The last two bits of an instruction are its kind of choice point: 0 for a node that has
  its chain to itself, 2 for the first of several, 1 for the last and 3 between.
\<close>

definition cp_type :: "nat \<Rightarrow> nat" where "cp_type i = i mod 4"
definition op_class :: "nat \<Rightarrow> nat" where "op_class i = 4 * (i div 4)"

definition TN_RotateInstrCPtoRETRYorTRUST :: "btn \<Rightarrow> btn" where
  "TN_RotateInstrCPtoRETRYorTRUST b = b\<lparr>bt_instr := bt_instr b + 1\<rparr>"

definition TN_ForceInstrCPtoNOCP :: "btn \<Rightarrow> btn" where
  "TN_ForceInstrCPtoNOCP b = b\<lparr>bt_instr := op_class (bt_instr b)\<rparr>"

definition TN_ForceInstrCPtoTRY :: "btn \<Rightarrow> btn" where
  "TN_ForceInstrCPtoTRY b = b\<lparr>bt_instr := op_class (bt_instr b) + 2\<rparr>"

text \<open>\<open>TN_SetInstr\<close>: the instruction of a node that is first in a chain.\<close>

definition try_instr :: "nat \<Rightarrow> tsym \<Rightarrow> nat" where
  "try_instr tt x =
    (case x of
       SStruct _ _ \<Rightarrow> 0x62
     | SInt _ \<Rightarrow> 0x72
     | SString _ \<Rightarrow> 0x72
     | SFloat _ \<Rightarrow> 0x72
     | SList \<Rightarrow> 0x66
     | SInternStr _ \<Rightarrow> 0x72
     | SInternList _ \<Rightarrow> 0x72
     | STrieVar v \<Rightarrow>
         if IsNewTrieVar v then 0x6a
         else if IsNewTrieAttv v then 0x5e
         else if tt = BASIC_ANSWER_TRIE_TT then 0x8a else 0x6e)"

text \<open>
  \<open>TN_UpgradeInstrTypeToSUCCESS\<close>: \<open>const\<close> says that the tag of the term that was handled
  last is one of a constant.
\<close>

fun isinternstr :: "tsym \<Rightarrow> bool" where
  "isinternstr (SInternStr _) = True"
| "isinternstr (SInternList _) = True"
| "isinternstr _ = False"

definition TN_UpgradeInstrTypeToSUCCESS :: "bool \<Rightarrow> btn \<Rightarrow> btn" where
  "TN_UpgradeInstrTypeToSUCCESS const b =
    (if const \<or> isinternstr (bt_symbol b) then b\<lparr>bt_instr := bt_instr b + 4\<rparr> else b)"

text \<open>
  \<open>new_btn\<close>, with the macros \<open>TN_Init\<close> and \<open>TN_ResetInstrCPs\<close>: the node that was first
  in the chain is not so any more.
\<close>

definition new_btn :: "nat \<Rightarrow> nat \<Rightarrow> tsym \<Rightarrow> nat option \<Rightarrow> nat option \<Rightarrow> btns \<Rightarrow> nat \<times> btns" where
  "new_btn tt nt x parent sibling s =
    (let instr = (if nt = TRIE_ROOT_NT then trie_root
                  else if sibling = None then try_instr tt x - 2 else try_instr tt x);
         s' = (case sibling of
                 Some n \<Rightarrow> if nt = TRIE_ROOT_NT then s else upd_obj n TN_RotateInstrCPtoRETRYorTRUST s
               | None \<Rightarrow> s) in
     (length s,
      s' @ [Some \<lparr>bt_instr = instr, bt_status = VALID_NODE_STATUS, bt_trietype = tt, bt_nodetype = nt,
        bt_symbol = x, bt_parent = parent, bt_child = Chain []\<rparr>]))"

definition newBasicTrie :: "tsym \<Rightarrow> nat \<Rightarrow> btns \<Rightarrow> nat \<times> btns" where
  "newBasicTrie x tt s = new_btn tt TRIE_ROOT_NT x None None s"

section \<open>Hash tables of children\<close>

abbreviation (input) MAX_SIBLING_LEN :: nat where "MAX_SIBLING_LEN \<equiv> 8"
abbreviation (input) BUCKET_CONTENT_THRESHOLD :: nat where "BUCKET_CONTENT_THRESHOLD \<equiv> 4"
abbreviation (input) TrieHT_INIT_SIZE :: nat where "TrieHT_INIT_SIZE \<equiv> 64"

definition set_child :: "nat \<Rightarrow> kids \<Rightarrow> btns \<Rightarrow> btns" where
  "set_child p k s = upd_obj p (\<lambda>b. b\<lparr>bt_child := k\<rparr>) s"

definition TrieHT_InsertNode :: "nat \<Rightarrow> nat \<Rightarrow> btns \<times> nat list list \<Rightarrow> (btns \<times> nat list list) res" where
  "TrieHT_InsertNode seed n = (\<lambda>(s, bs).
    res_bind (deref s n) (\<lambda>b.
      (let i = TrieHash (bt_symbol b) seed in
       case bs ! i of
         [] \<Rightarrow> Inr (upd_obj n TN_ForceInstrCPtoNOCP s, bs[i := [n]])
       | m # ms \<Rightarrow>
           Inr (upd_obj m TN_RotateInstrCPtoRETRYorTRUST (upd_obj n TN_ForceInstrCPtoTRY s),
             bs[i := n # m # ms]))))"

fun insert_nodes :: "nat \<Rightarrow> nat list \<Rightarrow> btns \<times> nat list list \<Rightarrow> (btns \<times> nat list list) res" where
  "insert_nodes seed [] sb = Inr sb"
| "insert_nodes seed (n # ns) sb = res_bind (TrieHT_InsertNode seed n sb) (insert_nodes seed ns)"

text \<open>\<open>New_BTHT\<close> sets the number of entries to the length at which a chain is hashed.\<close>

definition New_BTHT :: trie_ht where
  "New_BTHT = \<lparr>numContents = int MAX_SIBLING_LEN + 1, buckets = replicate TrieHT_INIT_SIZE []\<rparr>"

definition hashify_children :: "nat \<Rightarrow> nat list \<Rightarrow> btns \<Rightarrow> btns res" where
  "hashify_children parent children s =
    res_bind (insert_nodes (TrieHT_INIT_SIZE - 1) children (s, buckets New_BTHT)) (\<lambda>(s, bs).
      (let s = foldl (\<lambda>s n. upd_obj n MakeHashedNode s) s children in
       Inr (set_child parent (Hashed (New_BTHT\<lparr>buckets := bs\<rparr>)) s)))"

text \<open>
  \<open>expand_trie_ht\<close> goes over the buckets of the lower half in place; each of their nodes
  goes to its bucket in the table of twice the size.
\<close>

fun expand_loop :: "nat \<Rightarrow> nat list \<Rightarrow> btns \<times> nat list list \<Rightarrow> (btns \<times> nat list list) res" where
  "expand_loop seed [] sb = Inr sb"
| "expand_loop seed (i # is) (s, bs) =
    res_bind (insert_nodes seed (bs ! i) (s, bs[i := []])) (expand_loop seed is)"

definition expand_trie_ht :: "nat \<Rightarrow> trie_ht \<Rightarrow> btns \<Rightarrow> btns res" where
  "expand_trie_ht parent h s =
    (let n = length (buckets h) in
     res_bind (expand_loop (2 * n - 1) [0..<n] (s, buckets h @ replicate n [])) (\<lambda>(s, bs).
       Inr (set_child parent (Hashed (h\<lparr>buckets := bs\<rparr>)) s)))"

section \<open>Looking for a symbol below a node\<close>

fun search_symbol :: "btns \<Rightarrow> tsym \<Rightarrow> nat list \<Rightarrow> nat \<Rightarrow> (nat option \<times> nat) res" where
  "search_symbol s x [] k = Inr (None, k)"
| "search_symbol s x (n # ns) k =
    res_bind (deref s n) (\<lambda>b.
      if bt_symbol b = x then Inr (Some n, k) else search_symbol s x ns (Suc k))"

definition first_of :: "nat list \<Rightarrow> nat option" where
  "first_of ns = (case ns of [] \<Rightarrow> None | n # _ \<Rightarrow> Some n)"

text \<open>
  \<open>IsInsibling\<close>: the node with the symbol, whether it is new, the count, and the chain.
\<close>

definition IsInsibling :: "nat \<Rightarrow> tsym \<Rightarrow> nat \<Rightarrow> nat list \<Rightarrow> btns \<Rightarrow> (nat \<times> bool \<times> nat \<times> nat list \<times> btns) res" where
  "IsInsibling tt x paren chain s =
    res_bind (search_symbol s x chain 0) (\<lambda>(r, k).
      case r of
        Some n \<Rightarrow> Inr (n, False, k, chain, s)
      | None \<Rightarrow>
          (let (n, s) = new_btn tt INTERIOR_NT x (Some paren) (first_of chain) s in
           Inr (n, True, Suc k, n # chain, s)))"

text \<open>
  \<open>one_btn_chk_ins\<close> and \<open>one_interned_node_chk_ins\<close>: one symbol is looked for, and put in,
  below \<open>paren\<close>. \<open>found\<close> is the flag that is cleared once a node had to be made; \<open>can\<close> says
  whether a chain may be hashed and a hash table expanded at this time, which
  \<open>one_btn_chk_ins\<close> always may.
\<close>

definition chk_ins :: "(btns \<Rightarrow> bool res) \<Rightarrow> nat \<Rightarrow> tsym \<Rightarrow> bool \<times> nat \<times> btns \<Rightarrow> (bool \<times> nat \<times> btns) res" where
  "chk_ins can tt x = (\<lambda>(found, paren, s).
    res_bind (deref s paren) (\<lambda>b.
      case bt_child b of
        Hashed h \<Rightarrow>
          (let i = TrieHash x (length (buckets h) - 1) in
           res_bind (IsInsibling tt x paren (buckets h ! i) s) (\<lambda>(n, new, k, chain, s).
             let found = (found \<and> \<not> new) in
             if found then Inr (found, n, s)
             else
               (let h = h\<lparr>buckets := (buckets h)[i := chain], numContents := numContents h + 1\<rparr>;
                    s = set_child paren (Hashed h) (upd_obj n MakeHashedNode s) in
                if BUCKET_CONTENT_THRESHOLD < k \<and> int (length (buckets h)) < numContents h
                then res_bind (can s) (\<lambda>c. if c then res_bind (expand_trie_ht paren h s) (\<lambda>s. Inr (found, n, s))
                                          else Inr (found, n, s))
                else Inr (found, n, s))))
      | Chain chain \<Rightarrow>
          if chain = [] then
            (let (n, s) = new_btn tt INTERIOR_NT x (Some paren) None s in
             Inr (False, n, set_child paren (Chain [n]) s))
          else
            res_bind (IsInsibling tt x paren chain s) (\<lambda>(n, new, k, chain, s).
              let found = (found \<and> \<not> new); s = set_child paren (Chain chain) s in
              if MAX_SIBLING_LEN < k
              then res_bind (can s) (\<lambda>c. if c then res_bind (hashify_children paren chain s) (\<lambda>s. Inr (found, n, s))
                                        else Inr (found, n, s))
              else Inr (found, n, s))))"

definition one_btn_chk_ins :: "nat \<Rightarrow> tsym \<Rightarrow> bool \<times> nat \<times> btns \<Rightarrow> (bool \<times> nat \<times> btns) res" where
  [simp]: "one_btn_chk_ins = chk_ins (\<lambda>_. Inr True)"

section \<open>Deleted nodes\<close>

text \<open>
  A node that may still be run as code is only marked: its instruction becomes one that fails,
  with the same kind of choice point, and the old one is kept in the status.
\<close>

definition failing :: "btn \<Rightarrow> btn" where
  "failing b = b\<lparr>bt_status := bt_instr b, bt_instr := cp_type (bt_instr b) + trie_no_cp_fail\<rparr>"

definition undeleted_node :: "btn \<Rightarrow> btn" where
  "undeleted_node b = b\<lparr>bt_instr := cp_type (bt_instr b) + op_class (bt_status b), bt_status := VALID_NODE_STATUS\<rparr>"

definition safe_delete_branch :: "nat \<Rightarrow> btns \<Rightarrow> btns res" where
  "safe_delete_branch n s =
    res_bind (deref s n) (\<lambda>_. Inr (upd_obj n failing s))"

definition undelete_branch :: "nat \<Rightarrow> btns \<Rightarrow> btns res" where
  "undelete_branch n s =
    res_bind (deref s n) (\<lambda>b.
      if IsDeletedNode b then Inr (upd_obj n undeleted_node s) else Inr s)"

end
