(* ===== verification/Trie_Shape.thy ===== *)
theory Trie_Shape imports Trie_Nodes begin

text \<open>
  The shape of a trie. A store of nodes is seen in three ways: what a node is for (its
  \<open>core\<close>: symbol, parent, whether it is a leaf, whether it is deleted), the kind of choice
  point that its instruction has, and its children. The invariant \<open>trie_ok\<close> relates them,
  and each operation on the hash tables leaves the cores alone.
\<close>

section \<open>Views of a store\<close>

definition view :: "('b \<Rightarrow> 'a) \<Rightarrow> 'b option list \<Rightarrow> nat \<Rightarrow> 'a option" where
  "view f s n = (case deref s n of Inr b \<Rightarrow> Some (f b) | Inl _ \<Rightarrow> None)"

lemma view_deref: "deref s n = Inr b \<Longrightarrow> view f s n = Some (f b)"
  by (simp add: view_def)

lemma view_Some: "view f s n = Some a \<longleftrightarrow> (\<exists>b. deref s n = Inr b \<and> f b = a)"
  by (simp add: view_def split: sum.splits)

lemma view_None: "view f s n = None \<longleftrightarrow> (\<exists>e. deref s n = Inl e)"
  by (simp add: view_def split: sum.splits)

lemma view_None_iff: "view f s n = None \<longleftrightarrow> view g s n = None"
  by (simp add: view_None)

lemma view_upd: "view f (upd_obj n g s) = (view f s)(n := view (\<lambda>b. f (g b)) s n)"
  by (auto simp: view_def deref_upd_obj fun_eq_iff split: sum.splits)

lemma view_upd_same:
  assumes "\<And>b. deref s n = Inr b \<Longrightarrow> f (g b) = f b"
  shows "view f (upd_obj n g s) = view f s"
  using assms by (auto simp: view_upd view_def fun_eq_iff split: sum.splits)

lemma view_new: "view f (s @ [Some b]) = (view f s)(length s := Some (f b))"
  by (auto simp: view_def deref_new fun_eq_iff)

lemma view_free: "view f (free_obj n s) = (view f s)(n := None)"
  by (auto simp: view_def deref_free fun_eq_iff)

lemma view_less: "view f s n = Some a \<Longrightarrow> n < length s"
  by (auto simp: view_Some dest: deref_less)

definition core :: "btn \<Rightarrow> btn" where
  "core b = b\<lparr>bt_instr := op_class (bt_instr b), bt_nodetype := 2 * (bt_nodetype b div 2), bt_child := Chain []\<rparr>"

abbreviation cores :: "btns \<Rightarrow> nat \<Rightarrow> btn option" where "cores \<equiv> view core"
abbreviation cps :: "btns \<Rightarrow> nat \<Rightarrow> nat option" where "cps \<equiv> view (\<lambda>b. cp_type (bt_instr b))"
abbreviation nts :: "btns \<Rightarrow> nat \<Rightarrow> nat option" where "nts \<equiv> view bt_nodetype"
abbreviation kids_at :: "btns \<Rightarrow> nat \<Rightarrow> kids option" where "kids_at \<equiv> view bt_child"

lemma core_simps [simp]:
  "bt_symbol (core b) = bt_symbol b" "bt_parent (core b) = bt_parent b" "bt_status (core b) = bt_status b"
  "bt_trietype (core b) = bt_trietype b" "bt_child (core b) = Chain []" "core (core b) = core b"
  "core (b\<lparr>bt_child := k\<rparr>) = core b"
  by (simp_all add: core_def op_class_def)

lemma or_1_div_2 [simp]: "or (n :: nat) (Suc 0) div 2 = n div 2"
  by (simp add: or_Suc_0_eq)

lemma core_hashed [simp]: "core (MakeHashedNode b) = core b"
  by (simp add: core_def MakeHashedNode_def)

lemma hashed_simps [simp]: "bt_instr (MakeHashedNode b) = bt_instr b" "bt_child (MakeHashedNode b) = bt_child b"
  by (simp_all add: MakeHashedNode_def)

lemma cp_op: "op_class i + cp_type i = i"
  by (simp add: op_class_def cp_type_def)

lemma cp_type_op_class [simp]: "cp_type (op_class i) = 0" "op_class (op_class i) = op_class i"
  by (simp_all add: op_class_def cp_type_def)

lemma mult_4_2: "(2 + 4 * (n :: nat)) mod 4 = 2" "(2 + 4 * n) div 4 = n"
  by presburger+

lemma cp_force [simp]:
  "cp_type (Suc (Suc (op_class i))) = 2" "op_class (Suc (Suc (op_class i))) = op_class i"
  using mult_4_2 [of "i div 4"] by (simp_all add: op_class_def cp_type_def)

lemma force_simps [simp]:
  "core (TN_ForceInstrCPtoNOCP b) = core b" "bt_child (TN_ForceInstrCPtoNOCP b) = bt_child b"
  "cp_type (bt_instr (TN_ForceInstrCPtoNOCP b)) = 0"
  "core (TN_ForceInstrCPtoTRY b) = core b" "bt_child (TN_ForceInstrCPtoTRY b) = bt_child b"
  "cp_type (bt_instr (TN_ForceInstrCPtoTRY b)) = 2"
  "bt_nodetype (TN_ForceInstrCPtoNOCP b) = bt_nodetype b" "bt_nodetype (TN_ForceInstrCPtoTRY b) = bt_nodetype b"
  by (simp_all add: core_def TN_ForceInstrCPtoNOCP_def TN_ForceInstrCPtoTRY_def)

lemma rotate_simps:
  assumes "cp_type (bt_instr b) \<noteq> 3"
  shows "core (TN_RotateInstrCPtoRETRYorTRUST b) = core b"
    "cp_type (bt_instr (TN_RotateInstrCPtoRETRYorTRUST b)) = Suc (cp_type (bt_instr b))"
proof -
  have "Suc (bt_instr b) div 4 = bt_instr b div 4" "Suc (bt_instr b) mod 4 = Suc (bt_instr b mod 4)"
    using assms unfolding cp_type_def by presburger+
  then show "core (TN_RotateInstrCPtoRETRYorTRUST b) = core b"
    "cp_type (bt_instr (TN_RotateInstrCPtoRETRYorTRUST b)) = Suc (cp_type (bt_instr b))"
    by (simp_all add: core_def TN_RotateInstrCPtoRETRYorTRUST_def op_class_def cp_type_def)
qed

lemma rotate_child [simp]: "bt_child (TN_RotateInstrCPtoRETRYorTRUST b) = bt_child b"
  "bt_nodetype (TN_RotateInstrCPtoRETRYorTRUST b) = bt_nodetype b"
  by (simp_all add: TN_RotateInstrCPtoRETRYorTRUST_def)

section \<open>Chains\<close>

text \<open>The kinds of choice points along a chain.\<close>

fun cp_pattern :: "nat \<Rightarrow> nat list" where
  "cp_pattern 0 = []"
| "cp_pattern (Suc 0) = [0]"
| "cp_pattern (Suc (Suc n)) = 2 # replicate n 3 @ [1]"

definition chain_ok :: "(nat \<Rightarrow> nat option) \<Rightarrow> nat list \<Rightarrow> bool" where
  "chain_ok c ns \<longleftrightarrow> map c ns = map Some (cp_pattern (length ns))"

lemma length_cp_pattern [simp]: "length (cp_pattern n) = n"
  by (induction n rule: cp_pattern.induct) simp_all

lemma chain_ok_Nil [simp]: "chain_ok c []"
  by (simp add: chain_ok_def)

lemma chain_ok_single [simp]: "chain_ok c [n] \<longleftrightarrow> c n = Some 0"
  by (simp add: chain_ok_def)

lemma chain_ok_cong: "(\<And>n. n \<in> set ns \<Longrightarrow> c' n = c n) \<Longrightarrow> chain_ok c' ns = chain_ok c ns"
  unfolding chain_ok_def by (metis map_eq_conv)

text \<open>A node at the head of a chain, and what happens to the one that was there.\<close>

lemma chain_ok_head: "chain_ok c (m # ms) \<Longrightarrow> c m = Some (if ms = [] then 0 else 2)"
  by (cases ms) (simp_all add: chain_ok_def)

lemma chain_ok_push:
  assumes "chain_ok c (m # ms)" "n \<notin> set (m # ms)" "m \<notin> set ms"
  shows "chain_ok (c(n := Some 2, m := map_option Suc (c m))) (n # m # ms)"
proof (cases ms)
  case Nil
  then show ?thesis using assms by (simp add: chain_ok_def)
next
  case (Cons a as)
  have "map (c(n := Some 2, m := map_option Suc (c m))) ms = map c ms" using assms by (auto simp: fun_upd_def)
  then show ?thesis using assms Cons by (auto simp: chain_ok_def)
qed

section \<open>Children\<close>

fun chains :: "kids \<Rightarrow> nat list list" where
  "chains (Chain ns) = [ns]"
| "chains (Hashed h) = buckets h"

definition kid_list :: "kids \<Rightarrow> nat list" where
  "kid_list k = concat (chains k)"

lemma kid_list_simps [simp]: "kid_list (Chain ns) = ns" "kid_list (Hashed h) = concat (buckets h)"
  by (simp_all add: kid_list_def)

definition bucket_of :: "(nat \<Rightarrow> btn option) \<Rightarrow> nat \<Rightarrow> nat \<Rightarrow> nat" where
  "bucket_of C seed n = (case C n of None \<Rightarrow> 0 | Some b \<Rightarrow> TrieHash (bt_symbol b) seed)"

fun table_ok :: "(nat \<Rightarrow> btn option) \<Rightarrow> kids \<Rightarrow> bool" where
  "table_ok C (Chain ns) = True"
| "table_ok C (Hashed h) = ((\<exists>e. length (buckets h) = 2 ^ e) \<and>
     placed (bucket_of C (length (buckets h) - 1)) (buckets h))"

definition symbol_at :: "(nat \<Rightarrow> btn option) \<Rightarrow> nat \<Rightarrow> tsym option" where
  "symbol_at C n = map_option bt_symbol (C n)"

definition parent_at :: "(nat \<Rightarrow> btn option) \<Rightarrow> nat \<Rightarrow> nat option" where
  "parent_at C n = Option.bind (C n) bt_parent"

definition kids_ok :: "(nat \<Rightarrow> btn option) \<Rightarrow> (nat \<Rightarrow> nat option) \<Rightarrow> nat \<Rightarrow> kids \<Rightarrow> bool" where
  "kids_ok C c p k \<longleftrightarrow>
     distinct (kid_list k) \<and> set (kid_list k) = {m. parent_at C m = Some p} \<and>
     inj_on (symbol_at C) (set (kid_list k)) \<and>
     (\<forall>ns \<in> set (chains k). chain_ok c ns) \<and> table_ok C k"

text \<open>A node is made after its parent, which is there as long as the node is.\<close>

definition parents_ok :: "(nat \<Rightarrow> btn option) \<Rightarrow> bool" where
  "parents_ok C \<longleftrightarrow> (\<forall>m p. parent_at C m = Some p \<longrightarrow> p < m \<and> C p \<noteq> None)"

definition trie_ok :: "btns \<Rightarrow> bool" where
  "trie_ok s \<longleftrightarrow>
     (\<forall>p k. kids_at s p = Some k \<longrightarrow> kids_ok (cores s) (cps s) p k) \<and> parents_ok (cores s)"

lemma table_ok_cong:
  assumes "\<And>m. m \<in> set (kid_list k) \<Longrightarrow> symbol_at C' m = symbol_at C m"
  shows "table_ok C' k = table_ok C k"
proof (cases k)
  case (Hashed h)
  have "bucket_of C' i m = bucket_of C i m" if "m \<in> set (concat (buckets h))" for i m
    using assms [of m] that Hashed by (auto simp: bucket_of_def symbol_at_def split: option.splits)
  then show ?thesis using Hashed by (simp add: placed_def) (metis (no_types, lifting) UN_I nth_mem)
qed simp

lemma kids_ok_cong:
  assumes "\<And>m. parent_at C' m = Some p \<longleftrightarrow> parent_at C m = Some p"
    and "\<And>m. parent_at C m = Some p \<Longrightarrow> symbol_at C' m = symbol_at C m \<and> c' m = c m"
    and ok: "kids_ok C c p k"
  shows "kids_ok C' c' p k"
proof -
  have k: "set (kid_list k) = {m. parent_at C m = Some p}" using ok by (simp add: kids_ok_def)
  have sy: "symbol_at C' m = symbol_at C m" "c' m = c m" if "m \<in> set (kid_list k)" for m
    using assms(2) that k by simp_all
  have "chain_ok c' ns" if "ns \<in> set (chains k)" for ns
  proof -
    have "set ns \<subseteq> set (kid_list k)" using that by (auto simp: kid_list_def)
    then show ?thesis using chain_ok_cong [of ns c' c] sy(2) ok that by (auto simp: kids_ok_def)
  qed
  moreover have "inj_on (symbol_at C') (set (kid_list k))"
    using ok inj_on_cong [of "set (kid_list k)" "symbol_at C'" "symbol_at C"] sy(1) unfolding kids_ok_def by blast
  ultimately show ?thesis using ok table_ok_cong [of k C' C] sy(1) assms(1) by (simp add: kids_ok_def)
qed

text \<open>When only the children of one node have changed.\<close>

lemma trie_ok_local:
  assumes ok: "trie_ok s" and "parents_ok (cores s')" "kids_ok (cores s') (cps s') p k'" "kids_at s' p = Some k'"
    and kids: "\<And>q k. q \<noteq> p \<Longrightarrow> kids_at s' q = Some k \<Longrightarrow>
      kids_at s q = Some k \<or> k = Chain [] \<and> (\<forall>m. parent_at (cores s') m \<noteq> Some q)"
    and same: "\<And>q m. q \<noteq> p \<Longrightarrow> parent_at (cores s') m = Some q \<longleftrightarrow> parent_at (cores s) m = Some q"
    "\<And>q m. q \<noteq> p \<Longrightarrow> parent_at (cores s) m = Some q \<Longrightarrow>
      symbol_at (cores s') m = symbol_at (cores s) m \<and> cps s' m = cps s m"
  shows "trie_ok s'"
proof -
  have "kids_ok (cores s') (cps s') q k" if "kids_at s' q = Some k" for q k
  proof (cases "q = p")
    case False
    from kids [OF this that] show ?thesis
    proof
      assume "kids_at s q = Some k"
      then have "kids_ok (cores s) (cps s) q k" using ok by (simp add: trie_ok_def)
      then show ?thesis using kids_ok_cong same [OF False] by blast
    qed (simp add: kids_ok_def)
  qed (use assms that in simp)
  then show ?thesis using assms(2) by (simp add: trie_ok_def)
qed

text \<open>
  The number of entries that a hash table says it has is right, and a chain that is not
  hashed is not longer than it may be.
\<close>

fun counted :: "kids \<Rightarrow> bool" where
  "counted (Chain ns) = (length ns \<le> MAX_SIBLING_LEN)"
| "counted (Hashed h) = (numContents h = int (length (concat (buckets h))))"

definition counts_ok :: "btns \<Rightarrow> bool" where
  "counts_ok s \<longleftrightarrow> (\<forall>p k. kids_at s p = Some k \<longrightarrow> counted k)"

lemma and_mask_nat: "and (n :: nat) (2 ^ e - Suc 0) = n mod 2 ^ e"
  by (metis mask_eq_exp_minus_1 take_bit_eq_mask take_bit_eq_mod One_nat_def)

lemma TrieHash_less: "TrieHash x (2 ^ e - Suc 0) < 2 ^ e"
  by (simp add: TrieHash_def and_mask_nat split: tsym.splits)

lemma bucket_of_less: "bucket_of C (2 ^ e - Suc 0) n < 2 ^ e"
  by (simp add: bucket_of_def TrieHash_less split: option.splits)

text \<open>In a table of twice the size a symbol is in its old bucket or in the one that goes with it.\<close>

lemma TrieHash_double: "TrieHash x (2 * 2 ^ e - Suc 0) mod 2 ^ e = TrieHash x (2 ^ e - Suc 0)"
  using and_mask_nat [of _ "Suc e"] by (simp add: TrieHash_def and_mask_nat mod_mod_cancel split: tsym.splits)

lemma bucket_of_double: "bucket_of C (2 * 2 ^ e - Suc 0) n mod 2 ^ e = bucket_of C (2 ^ e - Suc 0) n"
  by (simp add: bucket_of_def TrieHash_double split: option.splits)

end
