(* ===== verification/Trie_Hashing.thy ===== *)
theory Trie_Hashing imports Trie_Shape begin

text \<open>
  Moving nodes between chains and the buckets of a hash table: the cores of the nodes and
  the children of other nodes do not change, each node goes to the bucket of its symbol, and
  every chain has the choice points that a chain of its length must have.
\<close>

definition chains_ok :: "(nat \<Rightarrow> nat option) \<Rightarrow> nat list list \<Rightarrow> bool" where
  "chains_ok c t \<longleftrightarrow> (\<forall>ns \<in> set t. chain_ok c ns)"

lemma chains_ok_nth: "chains_ok c t \<longleftrightarrow> (\<forall>i < length t. chain_ok c (t ! i))"
  by (simp add: chains_ok_def all_set_conv_all_nth)

lemma distinct_concat_nth:
  "distinct (concat t) \<Longrightarrow> i < length t \<Longrightarrow> j < length t \<Longrightarrow> x \<in> set (t ! i) \<Longrightarrow> x \<in> set (t ! j) \<Longrightarrow> i = j"
proof (induction t arbitrary: i j)
  case (Cons a t)
  then show ?case by (cases i; cases j) (auto, (metis nth_mem disjoint_iff UN_I)+)
qed simp

lemma chain_ok_live: "chain_ok c ns \<Longrightarrow> n \<in> set ns \<Longrightarrow> c n \<noteq> None"
  unfolding chain_ok_def by (metis (no_types) ex_map_conv list.set_map image_eqI imageE option.distinct(1))

lemma chains_ok_live: "chains_ok c t \<Longrightarrow> n \<in> set (concat t) \<Longrightarrow> c n \<noteq> None"
  by (auto simp: chains_ok_def dest: chain_ok_live)

lemma mem_bucket: "i < length t \<Longrightarrow> n \<in> set (t ! i) \<Longrightarrow> n \<in> set (concat t)"
  using nth_mem by fastforce

lemma cps_rotate:
  assumes "cps s m \<noteq> Some 3"
  shows "view (\<lambda>b. cp_type (bt_instr (TN_RotateInstrCPtoRETRYorTRUST b))) s m = map_option Suc (cps s m)"
    "cores (upd_obj m TN_RotateInstrCPtoRETRYorTRUST s) = cores s"
proof -
  have n3: "cp_type (bt_instr b) \<noteq> 3" if "deref s m = Inr b" for b using assms view_deref [OF that, of "\<lambda>b. cp_type (bt_instr b)"] by simp
  show "view (\<lambda>b. cp_type (bt_instr (TN_RotateInstrCPtoRETRYorTRUST b))) s m = map_option Suc (cps s m)"
    by (auto simp: view_def rotate_simps(2) [OF n3] split: sum.splits)
  show "cores (upd_obj m TN_RotateInstrCPtoRETRYorTRUST s) = cores s"
    by (rule view_upd_same) (simp add: rotate_simps(1) [OF n3])
qed

text \<open>What the moving of nodes leaves as it is, but for the nodes of a set.\<close>

definition moved :: "nat set \<Rightarrow> btns \<Rightarrow> btns \<Rightarrow> bool" where
  "moved M s s' \<longleftrightarrow> length s' = length s \<and> cores s' = cores s \<and> kids_at s' = kids_at s \<and>
     (\<forall>m. m \<notin> M \<longrightarrow> cps s' m = cps s m \<and> nts s' m = nts s m)"

lemma moved_refl [simp]: "moved M s s"
  by (simp add: moved_def)

lemma moved_trans: "moved M s s' \<Longrightarrow> moved M' s' s'' \<Longrightarrow> M \<subseteq> N \<Longrightarrow> M' \<subseteq> N \<Longrightarrow> moved N s s''"
  unfolding moved_def by (metis subset_iff)

lemma InsertNode_law:
  assumes n: "cps s n \<noteq> None" and ok: "chains_ok (cps s) t" and d: "distinct (concat t)" "n \<notin> set (concat t)"
    and i: "bucket_of (cores s) seed n < length t"
  shows "\<exists>s'. TrieHT_InsertNode seed n (s, t) = Inr (s', push_entry (bucket_of (cores s) seed) n t) \<and>
    moved (insert n (set (concat t))) s s' \<and> chains_ok (cps s') (push_entry (bucket_of (cores s) seed) n t)"
proof -
  let ?i = "bucket_of (cores s) seed n"
  obtain b where b: "deref s n = Inr b" using n by (auto simp: view_def split: sum.splits)
  then have bi: "TrieHash (bt_symbol b) seed = ?i" by (simp add: bucket_of_def view_deref)
  have other: "chain_ok c' (t ! j)"
    if "\<forall>m. m \<noteq> n \<longrightarrow> m \<notin> set (t ! ?i) \<longrightarrow> c' m = cps s m" "j < length t" "j \<noteq> ?i" for c' j
  proof -
    have "c' m = cps s m" if "m \<in> set (t ! j)" for m
      using distinct_concat_nth [OF d(1) \<open>j < length t\<close> i that] mem_bucket [OF \<open>j < length t\<close> that] d(2) that
        \<open>j \<noteq> ?i\<close> \<open>\<forall>m. m \<noteq> n \<longrightarrow> m \<notin> set (t ! ?i) \<longrightarrow> c' m = cps s m\<close> by metis
    then show ?thesis using chain_ok_cong [of "t ! j" c'] ok \<open>j < length t\<close> by (simp add: chains_ok_nth)
  qed
  show ?thesis
  proof (cases "t ! ?i")
    case Nil
    let ?s = "upd_obj n TN_ForceInstrCPtoNOCP s"
    have c: "cps ?s = (cps s)(n := Some 0)" by (simp add: view_upd view_deref [OF b])
    have "chains_ok (cps ?s) (push_entry (bucket_of (cores s) seed) n t)"
      unfolding chains_ok_nth push_entry_def
      using other [of "cps ?s"] Nil i by (simp add: nth_list_update c)
    moreover have "moved (insert n (set (concat t))) s ?s" by (simp add: moved_def c view_upd_same)
    ultimately show ?thesis using Nil b bi by (simp add: TrieHT_InsertNode_def push_entry_def)
  next
    case (Cons m ms)
    have mn: "m \<noteq> n" using mem_bucket [OF i, of m] Cons d(2) by auto
    have ch: "chain_ok (cps s) (m # ms)" using ok i Cons by (metis chains_ok_nth)
    have "distinct (t ! ?i)" using distinct_bucket [of id, OF _ i] d(1) by (simp add: map_idI)
    then have mm: "m \<notin> set ms" "n \<notin> set (m # ms)" using Cons mem_bucket [OF i, of n] d(2) by auto
    let ?s1 = "upd_obj n TN_ForceInstrCPtoTRY s"
    let ?s = "upd_obj m TN_RotateInstrCPtoRETRYorTRUST ?s1"
    have c1: "cps ?s1 = (cps s)(n := Some 2)" by (simp add: view_upd view_deref [OF b])
    have "cps ?s1 m \<noteq> Some 3" using chain_ok_head [OF ch] mn by (simp add: c1)
    note rot = cps_rotate [OF this]
    have c: "cps ?s = (cps s)(n := Some 2, m := map_option Suc (cps s m))"
      using mn by (simp add: view_upd [of _ m] rot(1) c1)
    have "chain_ok (cps ?s) (n # m # ms)" using chain_ok_push [OF ch mm(2,1)] c by simp
    then have "chains_ok (cps ?s) (push_entry (bucket_of (cores s) seed) n t)"
      unfolding chains_ok_nth push_entry_def
      using other [of "cps ?s"] Cons i by (simp add: nth_list_update c)
    moreover have "moved (insert n (set (concat t))) s ?s"
      using mem_bucket [OF i, of m] Cons by (auto simp add: moved_def c view_upd_same rot(2))
    ultimately show ?thesis using Cons b bi by (simp add: TrieHT_InsertNode_def push_entry_def)
  qed
qed

lemma insert_nodes_law:
  assumes "\<forall>n \<in> set ns. cps s n \<noteq> None" "chains_ok (cps s) t" "distinct (ns @ concat t)"
    "\<forall>n \<in> set ns. bucket_of (cores s) seed n < length t"
  shows "\<exists>s'. insert_nodes seed ns (s, t) = Inr (s', fold (push_entry (bucket_of (cores s) seed)) ns t) \<and>
    moved (set ns \<union> set (concat t)) s s' \<and> chains_ok (cps s') (fold (push_entry (bucket_of (cores s) seed)) ns t)"
  using assms
proof (induction ns arbitrary: s t)
  case (Cons n ns)
  let ?ix = "bucket_of (cores s) seed"
  let ?t = "push_entry ?ix n t"
  have i: "?ix n < length t" using Cons.prems(4) by simp
  from InsertNode_law [OF _ Cons.prems(2) _ _ i] Cons.prems
  obtain s1 where s1: "TrieHT_InsertNode seed n (s, t) = Inr (s1, ?t)" "moved (insert n (set (concat t))) s s1"
    "chains_ok (cps s1) ?t" by auto
  have co: "cores s1 = cores s" using s1(2) by (simp add: moved_def)
  have m: "mset (concat ?t) = add_mset n (mset (concat t))" using mset_push [of ?ix n t] i by simp
  then have st: "set (concat ?t) = insert n (set (concat t))" by (metis set_mset_add_mset_insert set_mset_mset)
  have "distinct (n # concat t)" using Cons.prems(3) by simp
  then have "distinct (concat ?t)" using mset_eq_imp_distinct_iff [of "concat ?t" "n # concat t"] m by simp
  then have d: "distinct (ns @ concat ?t)" using Cons.prems(3) st by auto
  have live: "\<forall>m \<in> set ns. cps s1 m \<noteq> None"
    using Cons.prems(1) co view_None_iff [of core] view_None_iff [of _ s _ core] by (metis list.set_intros(2))
  from Cons.IH [OF live s1(3) d] Cons.prems(4) co
  obtain s2 where s2: "insert_nodes seed ns (s1, ?t) = Inr (s2, fold (push_entry ?ix) ns ?t)"
    "moved (set ns \<union> set (concat ?t)) s1 s2" "chains_ok (cps s2) (fold (push_entry ?ix) ns ?t)" by auto
  have "moved (set (n # ns) \<union> set (concat t)) s s2"
    by (rule moved_trans [OF s1(2) s2(2)]) (unfold st, auto)
  then show ?case using s1(1) s2 by simp
qed simp

lemma fold_hash_children:
  "set ns \<subseteq> M \<Longrightarrow> moved M s (foldl (\<lambda>s n. upd_obj n MakeHashedNode s) s ns) \<and>
   cps (foldl (\<lambda>s n. upd_obj n MakeHashedNode s) s ns) = cps s"
proof (induction ns arbitrary: s)
  case (Cons n ns)
  have "moved M s (upd_obj n MakeHashedNode s)" "cps (upd_obj n MakeHashedNode s) = cps s"
    using Cons.prems by (auto simp add: moved_def view_upd_same view_upd)
  then show ?case using Cons.IH [of "upd_obj n MakeHashedNode s"] Cons.prems moved_trans [of M s _ M _ M] by simp
qed simp

lemma kids_set_child: "kids_at s p \<noteq> None \<Longrightarrow> kids_at (set_child p k s) = (kids_at s)(p := Some k)"
  by (auto simp: set_child_def view_upd view_def split: sum.splits)

lemma set_child_views [simp]: "cores (set_child p k s) = cores s" "cps (set_child p k s) = cps s" "nts (set_child p k s) = nts s"
  "length (set_child p k s) = length s"
  by (simp_all add: set_child_def view_upd_same)

text \<open>The table that takes the place of a chain, or of a smaller table.\<close>

definition retabled :: "nat \<Rightarrow> nat list \<Rightarrow> nat \<Rightarrow> trie_ht \<Rightarrow> btns \<Rightarrow> btns \<Rightarrow> bool" where
  "retabled p ns n h s s' \<longleftrightarrow>
     length s' = length s \<and> cores s' = cores s \<and> kids_at s' = (kids_at s)(p := Some (Hashed h)) \<and>
     (\<forall>m. m \<notin> set ns \<longrightarrow> cps s' m = cps s m \<and> nts s' m = nts s m) \<and> chains_ok (cps s') (buckets h) \<and>
     length (buckets h) = n \<and> placed (bucket_of (cores s) (n - Suc 0)) (buckets h) \<and>
     mset (concat (buckets h)) = mset ns"

lemma hashify_children_law:
  assumes "kids_at s p \<noteq> None" "chain_ok (cps s) ns" "distinct ns"
  shows "\<exists>s' h. hashify_children p ns s = Inr s' \<and> retabled p ns 64 h s s' \<and> numContents h = 9"
proof -
  let ?ix = "bucket_of (cores s) 63"
  let ?t = "replicate 64 [] :: nat list list"
  let ?u = "fold (push_entry ?ix) ns ?t"
  have ix: "?ix n < 64" for n using bucket_of_less [of "cores s" 6 n] by simp
  from insert_nodes_law [of ns s ?t 63] assms chain_ok_live [OF assms(2)] ix
  obtain s1 where s1: "insert_nodes 63 ns (s, ?t) = Inr (s1, ?u)" "moved (set ns) s s1" "chains_ok (cps s1) ?u"
    by (auto simp: chains_ok_def)
  let ?s2 = "foldl (\<lambda>s n. upd_obj n MakeHashedNode s) s1 ns"
  let ?h = "New_BTHT\<lparr>buckets := ?u\<rparr>"
  have s2: "moved (set ns) s1 ?s2" "cps ?s2 = cps s1" using fold_hash_children [of ns "set ns" s1] by simp_all
  have mv: "moved (set ns) s ?s2" by (rule moved_trans [OF s1(2) s2(1)]) simp_all
  then have "kids_at ?s2 p \<noteq> None" using assms(1) by (simp add: moved_def)
  from kids_set_child [OF this] mv
  have k: "kids_at (set_child p (Hashed ?h) ?s2) = (kids_at s)(p := Some (Hashed ?h))" by (simp add: moved_def)
  have "retabled p ns 64 ?h s (set_child p (Hashed ?h) ?s2)"
    using mv s1(3) s2(2) k fold_push [of ns ?ix ?t] ix by (simp add: retabled_def moved_def)
  then show ?thesis using s1(1) by (auto simp: hashify_children_def New_BTHT_def)
qed

lemma nth_upd: "j < length t \<Longrightarrow> t[i := x] ! j = (if i = j then x else t ! j)"
  by (cases "i = j") simp_all

lemma set_fold_push:
  "j < length t \<Longrightarrow> set (fold (push_entry ix) ns t ! j) = set (t ! j) \<union> {n \<in> set ns. ix n = j}"
proof (induction ns arbitrary: t)
  case (Cons n ns)
  then have "set (fold (push_entry ix) ns (push_entry ix n t) ! j) = set (push_entry ix n t ! j) \<union> {n \<in> set ns. ix n = j}"
    by simp
  moreover have "set (push_entry ix n t ! j) = (if ix n = j then insert n (set (t ! j)) else set (t ! j))"
    using Cons.prems by (simp add: push_entry_def nth_upd)
  ultimately show ?case by auto
qed simp

lemma length_fold_push: "length (fold (push_entry ix) ns t) = length t"
  by (induction ns arbitrary: t) simp_all

text \<open>Half way through the expansion, the buckets below \<open>i\<close> and their partners are done.\<close>

definition half_way :: "(nat \<Rightarrow> nat) \<Rightarrow> nat \<Rightarrow> nat \<Rightarrow> nat list list \<Rightarrow> bool" where
  "half_way ix n i t \<longleftrightarrow> (\<forall>j < length t. \<forall>m \<in> set (t ! j). if j mod n < i then ix m = j else ix m mod n = j)"

lemma half_way_step:
  assumes "half_way ix n i t" "i < n" "n \<le> length t"
  shows "half_way ix n (Suc i) (fold (push_entry ix) (t ! i) (t[i := []]))"
  unfolding half_way_def
proof (intro allI impI ballI)
  fix j m assume j: "j < length (fold (push_entry ix) (t ! i) (t[i := []]))"
    and m: "m \<in> set (fold (push_entry ix) (t ! i) (t[i := []]) ! j)"
  have jl: "j < length t" using j by (simp add: length_fold_push)
  have i: "ix m' mod n = i" if "m' \<in> set (t ! i)" for m'
    using assms that by (simp add: half_way_def)
  have old: "if j mod n < i then ix m' = j else ix m' mod n = j" if "m' \<in> set (t ! j)" for m'
    using assms(1) jl that by (simp add: half_way_def)
  have "m \<in> set (t[i := []] ! j) \<or> m \<in> set (t ! i) \<and> ix m = j" using m set_fold_push [of j "t[i := []]"] jl by simp
  then show "if j mod n < Suc i then ix m = j else ix m mod n = j"
  proof
    assume "m \<in> set (t[i := []] ! j)"
    then have mj: "m \<in> set (t ! j)" "j \<noteq> i" using assms(2,3) by (auto simp: nth_list_update jl split: if_splits)
    then show ?thesis using old [of m] by (auto simp: less_Suc_eq split: if_splits)
  next
    assume "m \<in> set (t ! i) \<and> ix m = j"
    then show ?thesis using i [of m] by auto
  qed
qed

lemma expand_loop_law:
  assumes "half_way (bucket_of (cores s) seed) n i t" "i \<le> n" "n \<le> length t" "chains_ok (cps s) t"
    "distinct (concat t)" "\<forall>m. bucket_of (cores s) seed m < length t"
  shows "\<exists>s' t'. expand_loop seed [i..<n] (s, t) = Inr (s', t') \<and> moved (set (concat t)) s s' \<and>
    chains_ok (cps s') t' \<and> length t' = length t \<and> mset (concat t') = mset (concat t) \<and>
    half_way (bucket_of (cores s) seed) n n t'"
  using assms
proof (induction "n - i" arbitrary: i s t)
  case 0
  then show ?case by auto
next
  case (Suc k)
  let ?ix = "bucket_of (cores s) seed"
  let ?t = "fold (push_entry ?ix) (t ! i) (t[i := []])"
  have i: "i < n" "i < length t" using Suc by simp_all
  have m: "mset (concat (t[i := []])) + mset (t ! i) = mset (concat t)"
    using mset_concat_update [OF i(2), of "[]"] by simp
  then have d: "distinct (t ! i @ concat (t[i := []]))"
    using Suc.prems(5) mset_eq_imp_distinct_iff [of "t ! i @ concat (t[i := []])" "concat t"] by (simp add: ac_simps)
  have live: "\<forall>m \<in> set (t ! i). cps s m \<noteq> None"
    using chains_ok_live [OF Suc.prems(4)] mem_bucket [OF i(2)] by blast
  have ch: "chains_ok (cps s) (t[i := []])"
    using Suc.prems(4) by (auto simp: chains_ok_nth nth_upd)
  from insert_nodes_law [OF live ch d] Suc.prems(6)
  obtain s1 where s1: "insert_nodes seed (t ! i) (s, t[i := []]) = Inr (s1, ?t)"
    "moved (set (t ! i) \<union> set (concat (t[i := []]))) s s1" "chains_ok (cps s1) ?t" by auto
  have co: "cores s1 = cores s" using s1(2) by (simp add: moved_def)
  have ms: "mset (concat (fold (push_entry ?ix) ns u)) = mset ns + mset (concat u)"
    if "length u = length t" for ns u
    using that Suc.prems(6)
  proof (induction ns arbitrary: u)
    case (Cons n ns)
    then show ?case by (simp add: mset_push)
  qed simp
  have mt: "length ?t = length t" "mset (concat ?t) = mset (concat t)"
    using m by (simp_all add: length_fold_push ms ac_simps)
  have st: "set (t ! i) \<union> set (concat (t[i := []])) = set (concat t)"
    using arg_cong [OF m, of set_mset] by (simp add: Un_commute)
  have "distinct (concat ?t)" using mt(2) Suc.prems(5) mset_eq_imp_distinct_iff by blast
  moreover have "k = n - Suc i" using Suc.hyps(2) by simp
  ultimately have "\<exists>s' t'. expand_loop seed [Suc i..<n] (s1, ?t) = Inr (s', t') \<and>
      moved (set (concat ?t)) s1 s' \<and> chains_ok (cps s') t' \<and> length t' = length ?t \<and>
      mset (concat t') = mset (concat ?t) \<and> half_way (bucket_of (cores s1) seed) n n t'"
    using Suc.hyps(1) [of "Suc i" s1 ?t] s1(3) mt(1) co Suc.prems(3,6) i(1)
      half_way_step [OF Suc.prems(1) i(1) Suc.prems(3)] by simp
  then obtain s' t' where s': "expand_loop seed [Suc i..<n] (s1, ?t) = Inr (s', t')" "moved (set (concat ?t)) s1 s'"
    "chains_ok (cps s') t'" "length t' = length t" "mset (concat t') = mset (concat ?t)"
    "half_way ?ix n n t'" using mt(1) co by metis
  have "set (concat ?t) = set (concat t)" by (rule mset_eq_setD [OF mt(2)])
  with s'(2) have "moved (set (concat t)) s1 s'" by simp
  then have "moved (set (concat t)) s s'" using moved_trans [OF s1(2)] st by blast
  then show ?case using s1(1) s' i(1) mt(2) by (simp add: upt_rec [of i n])
qed

lemma expand_trie_ht_law:
  assumes "kids_at s p \<noteq> None" "chains_ok (cps s) (buckets h)" "distinct (concat (buckets h))"
    "length (buckets h) = 2 ^ e" "placed (bucket_of (cores s) (2 ^ e - Suc 0)) (buckets h)"
  shows "\<exists>s' h'. expand_trie_ht p h s = Inr s' \<and> retabled p (concat (buckets h)) (2 ^ Suc e) h' s s' \<and>
    numContents h' = numContents h"
proof -
  let ?n = "2 ^ e :: nat"
  let ?ix = "bucket_of (cores s) (2 * ?n - Suc 0)"
  let ?t = "buckets h @ replicate ?n []"
  have dbl: "?ix m mod ?n = bucket_of (cores s) (?n - Suc 0) m" for m by (rule bucket_of_double)
  have hw: "half_way ?ix ?n 0 ?t"
    using assms(4,5) by (auto simp: half_way_def placed_def nth_append dbl)
  have ch: "chains_ok (cps s) ?t" using assms(2) by (auto simp: chains_ok_def)
  have lt: "\<forall>m. ?ix m < length ?t" using bucket_of_less [of "cores s" "Suc e"] assms(4) by (simp add: mult_2)
  from expand_loop_law [OF hw _ _ ch _ lt] assms(3,4)
  obtain s1 t1 where s1: "expand_loop (2 * ?n - Suc 0) [0..<?n] (s, ?t) = Inr (s1, t1)"
    "moved (set (concat (buckets h))) s s1" "chains_ok (cps s1) t1" "length t1 = 2 * ?n"
    "mset (concat t1) = mset (concat (buckets h))" "half_way ?ix ?n ?n t1" by auto
  have pl: "placed ?ix t1" using s1(6) by (simp add: placed_def half_way_def)
  let ?h = "h\<lparr>buckets := t1\<rparr>"
  have "kids_at s1 p \<noteq> None" using assms(1) s1(2) by (simp add: moved_def)
  from kids_set_child [OF this] s1(2)
  have "kids_at (set_child p (Hashed ?h) s1) = (kids_at s)(p := Some (Hashed ?h))" by (simp add: moved_def)
  then have "retabled p (concat (buckets h)) (2 ^ Suc e) ?h s (set_child p (Hashed ?h) s1)"
    using s1 pl by (simp add: retabled_def moved_def)
  then show ?thesis using s1(1) assms(4) by (auto simp: expand_trie_ht_def)
qed

end
