(* ===== verification/Trie_Insert.thy ===== *)
theory Trie_Insert imports Trie_Hashing begin

text \<open>
  Entering one symbol below a node: the node that has the symbol already, or a new one,
  with the shape of the trie kept whatever is hashed or expanded on the way.
\<close>

section \<open>A new node in a chain\<close>

definition fresh_btn :: "nat \<Rightarrow> tsym \<Rightarrow> nat \<Rightarrow> btn" where
  "fresh_btn tt x p = \<lparr>bt_instr = op_class (try_instr tt x), bt_status = VALID_NODE_STATUS, bt_trietype = tt,
     bt_nodetype = INTERIOR_NT, bt_symbol = x, bt_parent = Some p, bt_child = Chain []\<rparr>"

lemma fresh_btn_simps [simp]: "bt_symbol (fresh_btn tt x p) = x" "bt_parent (fresh_btn tt x p) = Some p"
  by (simp_all add: fresh_btn_def)

lemma try_instr_cp: "cp_type (try_instr tt x) = 2" "op_class (try_instr tt x - 2) = op_class (try_instr tt x)"
  "cp_type (try_instr tt x - 2) = 0" "op_class (try_instr tt x) + 2 = try_instr tt x"
  by (simp_all add: try_instr_def cp_type_def op_class_def split: tsym.split)

lemma chain_ok_new:
  assumes "chain_ok c (m # ms)" "n \<notin> set (m # ms)" "m \<notin> set ms"
  shows "chain_ok (c(m := map_option Suc (c m), n := Some 2)) (n # m # ms)"
  using chain_ok_push [OF assms] assms(2) by (simp add: fun_upd_twist)

text \<open>The node that is put at the head of a chain, as \<open>new_btn\<close> leaves it.\<close>

definition chained :: "nat \<Rightarrow> tsym \<Rightarrow> nat \<Rightarrow> nat list \<Rightarrow> btns \<Rightarrow> btns \<Rightarrow> bool" where
  "chained tt x p ns s s' \<longleftrightarrow>
     length s' = Suc (length s) \<and> cores s' = (cores s)(length s := Some (fresh_btn tt x p)) \<and>
     kids_at s' = (kids_at s)(length s := Some (Chain [])) \<and> chain_ok (cps s') (length s # ns) \<and>
     (\<forall>m. m \<notin> set (length s # ns) \<longrightarrow> cps s' m = cps s m) \<and>
     (\<forall>m. m \<noteq> length s \<longrightarrow> nts s' m = nts s m)"

lemma new_btn_law:
  assumes ch: "chain_ok (cps s) ns" and d: "distinct ns"
  shows "\<exists>s'. new_btn tt INTERIOR_NT x (Some p) (first_of ns) s = (length s, s') \<and> chained tt x p ns s s'"
proof (cases ns)
  case Nil
  then show ?thesis
    by (simp add: new_btn_def first_of_def chained_def view_new core_def fresh_btn_def try_instr_cp)
next
  case (Cons m ms)
  let ?b = "\<lparr>bt_instr = try_instr tt x, bt_status = VALID_NODE_STATUS, bt_trietype = tt,
     bt_nodetype = INTERIOR_NT, bt_symbol = x, bt_parent = Some p, bt_child = Chain []\<rparr>"
  let ?s1 = "upd_obj m TN_RotateInstrCPtoRETRYorTRUST s"
  have head: "cps s m = Some (if ms = [] then 0 else 2)" using chain_ok_head ch Cons by blast
  then have n3: "cps s m \<noteq> Some 3" by simp
  note rot = cps_rotate [OF n3]
  have new: "length s \<notin> set (m # ms)"
  proof
    assume "length s \<in> set (m # ms)"
    then have "cps s (length s) \<noteq> None" using chain_ok_live [OF ch] Cons by simp
    then show False by (auto simp: view_def deref_dangling)
  qed
  have c1: "cps ?s1 = (cps s)(m := map_option Suc (cps s m))" by (simp add: view_upd rot(1))
  have c: "cps (?s1 @ [Some ?b]) = (cps s)(m := map_option Suc (cps s m), length s := Some 2)"
    by (simp add: view_new c1 try_instr_cp)
  have "chain_ok (cps (?s1 @ [Some ?b])) (length s # m # ms)"
    using chain_ok_new [of "cps s" m ms "length s"] ch d Cons new c by simp
  moreover have "kids_at ?s1 = kids_at s" "nts ?s1 = nts s" by (simp_all add: view_upd_same)
  ultimately have "chained tt x p ns s (?s1 @ [Some ?b])"
    using Cons by (simp add: chained_def view_new rot(2) core_def fresh_btn_def c1)
  then show ?thesis using Cons by (auto simp: new_btn_def first_of_def)
qed

section \<open>Looking for the symbol\<close>

lemma search_symbol_law:
  assumes "\<forall>n \<in> set ns. cores s n \<noteq> None"
  shows "\<exists>r k'. search_symbol s x ns k = Inr (r, k') \<and>
    (case r of None \<Rightarrow> k' = k + length ns \<and> (\<forall>n \<in> set ns. symbol_at (cores s) n \<noteq> Some x)
     | Some n \<Rightarrow> n \<in> set ns \<and> symbol_at (cores s) n = Some x \<and> k' < k + length ns)"
  using assms
proof (induction ns arbitrary: k)
  case (Cons n ns)
  then obtain b where b: "deref s n = Inr b" by (auto simp: view_def split: sum.splits)
  then have sy: "symbol_at (cores s) n = Some (bt_symbol b)" by (simp add: symbol_at_def view_deref)
  from Cons.IH [of "Suc k"] Cons.prems obtain r k' where r: "search_symbol s x ns (Suc k) = Inr (r, k')"
    "case r of None \<Rightarrow> k' = Suc k + length ns \<and> (\<forall>n \<in> set ns. symbol_at (cores s) n \<noteq> Some x)
     | Some n \<Rightarrow> n \<in> set ns \<and> symbol_at (cores s) n = Some x \<and> k' < Suc k + length ns" by auto
  show ?case
  proof (cases "bt_symbol b = x")
    case True
    then show ?thesis using b sy by simp
  next
    case False
    then show ?thesis using b sy r by (cases r) simp_all
  qed
qed simp

definition in_chain :: "btns \<Rightarrow> tsym \<Rightarrow> nat list \<Rightarrow> nat set" where
  "in_chain s x ns = {n \<in> set ns. symbol_at (cores s) n = Some x}"

lemma IsInsibling_law:
  assumes ch: "chain_ok (cps s) ns" and d: "distinct ns"
  shows "\<exists>n new k chain s'. IsInsibling tt x p ns s = Inr (n, new, k, chain, s') \<and>
    (if new then in_chain s x ns = {} \<and> n = length s \<and> k = Suc (length ns) \<and> chain = length s # ns \<and> chained tt x p ns s s'
     else n \<in> in_chain s x ns \<and> k < length ns \<and> chain = ns \<and> s' = s)"
proof -
  have "\<forall>n \<in> set ns. cores s n \<noteq> None" 
    using chain_ok_live [OF ch] by (auto simp: view_None)
  from search_symbol_law [OF this, of x 0, unfolded add_0] obtain r k' where r: "search_symbol s x ns 0 = Inr (r, k')"
    "case r of None \<Rightarrow> k' = length ns \<and> (\<forall>n \<in> set ns. symbol_at (cores s) n \<noteq> Some x)
     | Some n \<Rightarrow> n \<in> set ns \<and> symbol_at (cores s) n = Some x \<and> k' < length ns" by blast
  from new_btn_law [OF ch d] obtain s' where s': "new_btn tt INTERIOR_NT x (Some p) (first_of ns) s = (length s, s')"
    "chained tt x p ns s s'" by blast
  show ?thesis
  proof (cases r)
    case None
    then have "IsInsibling tt x p ns s = Inr (length s, True, Suc (length ns), length s # ns, s')"
      using r s'(1) by (simp add: IsInsibling_def)
    moreover have "in_chain s x ns = {}" using None r(2) by (simp add: in_chain_def)
    ultimately show ?thesis using s'(2) by (simp add: ex_bool_eq)
  next
    case (Some n)
    then have "IsInsibling tt x p ns s = Inr (n, False, k', ns, s)" using r(1) by (simp add: IsInsibling_def)
    moreover have "n \<in> in_chain s x ns" "k' < length ns" using Some r(2) by (simp_all add: in_chain_def)
    ultimately show ?thesis by (simp add: ex_bool_eq)
  qed
qed

section \<open>The shape of the trie afterwards\<close>

lemma trie_okD:
  assumes "trie_ok s" "kids_at s p = Some k"
  shows "kids_ok (cores s) (cps s) p k" "distinct (kid_list k)"
    "m \<in> set (kid_list k) \<longleftrightarrow> parent_at (cores s) m = Some p"
    "ns \<in> set (chains k) \<Longrightarrow> chain_ok (cps s) ns" "chains_ok (cps s) (chains k)" "table_ok (cores s) k"
    "inj_on (symbol_at (cores s)) (set (kid_list k))"
proof -
  show ok: "kids_ok (cores s) (cps s) p k" using assms by (simp add: trie_ok_def)
  then show "distinct (kid_list k)" "m \<in> set (kid_list k) \<longleftrightarrow> parent_at (cores s) m = Some p"
    "ns \<in> set (chains k) \<Longrightarrow> chain_ok (cps s) ns" "chains_ok (cps s) (chains k)" "table_ok (cores s) k"
    by (simp_all add: kids_ok_def chains_ok_def)
  show "inj_on (symbol_at (cores s)) (set (kid_list k))" using ok unfolding kids_ok_def by blast
qed

lemma retabled_ok:
  assumes ok: "trie_ok s" and k: "kids_at s p = Some k" and r: "retabled p (kid_list k) (2 ^ e) h s s'"
  shows "trie_ok s'"
proof (rule trie_ok_local [OF ok])
  note kd = trie_okD [OF ok k]
  have m: "mset (concat (buckets h)) = mset (kid_list k)" and co: "cores s' = cores s"
    and ch: "chains_ok (cps s') (buckets h)"
    using r by (simp_all add: retabled_def)
  have "set (concat (buckets h)) = set (kid_list k)" by (rule mset_eq_setD [OF m])
  moreover have "distinct (concat (buckets h))" using mset_eq_imp_distinct_iff [OF m] kd(2) by blast
  ultimately show "kids_ok (cores s') (cps s') p (Hashed h)"
    using kd(1) r ch co by (auto simp: kids_ok_def retabled_def chains_ok_def)
  show "parents_ok (cores s')" using ok co by (simp add: trie_ok_def)
  show "kids_at s' p = Some (Hashed h)" using r by (simp add: retabled_def)
  show "kids_at s q = Some k' \<or> k' = Chain [] \<and> (\<forall>m. parent_at (cores s') m \<noteq> Some q)"
    if "q \<noteq> p" "kids_at s' q = Some k'" for q k' using that r by (simp add: retabled_def)
  show "parent_at (cores s') m = Some q \<longleftrightarrow> parent_at (cores s) m = Some q" for q m by (simp add: co)
  show "symbol_at (cores s') m = symbol_at (cores s) m \<and> cps s' m = cps s m"
    if "q \<noteq> p" "parent_at (cores s) m = Some q" for q m
  proof -
    have "m \<notin> set (kid_list k)" using kd(3) that by simp
    then show ?thesis using r by (simp add: retabled_def)
  qed
qed

text \<open>The nodes below \<open>p\<close> that have the symbol.\<close>

definition hits :: "btns \<Rightarrow> nat \<Rightarrow> tsym \<Rightarrow> nat set" where
  "hits s p x = {m. parent_at (cores s) m = Some p \<and> symbol_at (cores s) m = Some x}"

lemma not_live: "view f s (length s) = None"
  by (simp add: view_def deref_dangling)

lemma chained_ok:
  assumes ok: "trie_ok s" and k: "kids_at s p = Some k" and ns: "ns \<in> set (chains k)" and no: "hits s p x = {}"
    and c: "chained tt x p ns s s1" and s2: "cores s2 = cores s1" "cps s2 = cps s1" "kids_at s2 = (kids_at s1)(p := Some k')"
    and k': "mset (kid_list k') = add_mset (length s) (mset (kid_list k))" "chains_ok (cps s1) (chains k')" "table_ok (cores s1) k'"
  shows "trie_ok s2"
proof (rule trie_ok_local [OF ok])
  note kd = trie_okD [OF ok k]
  let ?n = "length s"
  have co: "cores s2 = (cores s)(?n := Some (fresh_btn tt x p))" using c s2(1) by (simp add: chained_def)
  have par: "parent_at (cores s2) m = (if m = ?n then Some p else parent_at (cores s) m)" for m
    by (simp add: co parent_at_def)
  have sy: "symbol_at (cores s2) m = (if m = ?n then Some x else symbol_at (cores s) m)" for m
    by (simp add: co symbol_at_def)
  have dead: "parent_at (cores s) ?n = None" by (simp add: parent_at_def not_live)
  have new: "?n \<notin> set (kid_list k)" using kd(3) [of ?n] dead by simp
  have pl: "p < ?n" using view_less [OF k] .
  have st: "set (kid_list k') = insert ?n (set (kid_list k))" using k'(1) by (metis set_mset_add_mset_insert set_mset_mset)
  have "distinct (kid_list k')"
    using mset_eq_imp_distinct_iff [of "kid_list k'" "?n # kid_list k"] k'(1) kd(2) new by simp
  moreover have "set (kid_list k') = {m. parent_at (cores s2) m = Some p}" using st kd(3) dead by (auto simp: par)
  moreover have "inj_on (symbol_at (cores s2)) (set (kid_list k'))"
  proof -
    note kd(7)
    moreover have "symbol_at (cores s) m \<noteq> Some x" if "m \<in> set (kid_list k)" for m
      using that no kd(3) by (auto simp: hits_def)
    ultimately show ?thesis unfolding st inj_on_def sy by (metis insertE)
  qed
  ultimately show "kids_ok (cores s2) (cps s2) p k'" using k'(2,3) s2 by (simp add: kids_ok_def chains_ok_def)
  show "parents_ok (cores s2)"
    unfolding parents_ok_def
  proof (intro allI impI)
    fix m q assume q: "parent_at (cores s2) m = Some q"
    show "q < m \<and> cores s2 q \<noteq> None"
    proof (cases "m = ?n")
      case True
      have "cores s p \<noteq> None" using k by (auto simp: view_Some view_None)
      then show ?thesis using True q par [of m] pl by (simp add: co)
    next
      case False
      then show ?thesis using q par [of m] ok by (simp add: trie_ok_def parents_ok_def co)
    qed
  qed
  show "kids_at s2 p = Some k'" by (simp add: s2)
  show "kids_at s q = Some k1 \<or> k1 = Chain [] \<and> (\<forall>m. parent_at (cores s2) m \<noteq> Some q)"
    if "q \<noteq> p" "kids_at s2 q = Some k1" for q k1
  proof (cases "q = ?n")
    case True
    have "parent_at (cores s) m \<noteq> Some ?n" for m
    proof
      assume "parent_at (cores s) m = Some ?n"
      then have "cores s ?n \<noteq> None" using ok by (simp add: trie_ok_def parents_ok_def)
      then show False by (simp add: not_live)
    qed
    then show ?thesis using True that c s2(3) by (auto simp: chained_def par)
  qed (use that c s2(3) in \<open>auto simp: chained_def\<close>)
  show "parent_at (cores s2) m = Some q \<longleftrightarrow> parent_at (cores s) m = Some q" if "q \<noteq> p" for q m
    using that dead by (simp add: par)
  show "symbol_at (cores s2) m = symbol_at (cores s) m \<and> cps s2 m = cps s m"
    if "q \<noteq> p" "parent_at (cores s) m = Some q" for q m
  proof -
    have "m \<notin> set (kid_list k)" using kd(3) that by simp
    then have "m \<notin> set ns" using ns by (auto simp: kid_list_def)
    moreover have "m \<noteq> ?n" using dead that(2) by auto
    ultimately show ?thesis using c s2(2) by (simp add: chained_def sy)
  qed
qed

section \<open>Entering a symbol\<close>

text \<open>
  The test whether a table may be made or grow has a result as long as the nodes that it looks
  at are there.
\<close>

definition decides :: "nat set \<Rightarrow> (btns \<Rightarrow> bool res) \<Rightarrow> bool" where
  "decides L can \<longleftrightarrow> (\<forall>s. parents_ok (cores s) \<longrightarrow> (\<forall>n \<in> L. cores s n \<noteq> None) \<longrightarrow> \<not> isl (can s))"

lemma decides_always [simp]: "decides L (\<lambda>_. Inr c)"
  by (simp add: decides_def)

text \<open>
  What \<open>chk_ins\<close> does to the nodes: it finds the node with the symbol below \<open>p\<close>, or adds it;
  other nodes keep their children, and all nodes their cores.
\<close>

definition entered :: "nat \<Rightarrow> tsym \<Rightarrow> nat \<Rightarrow> bool \<Rightarrow> btns \<Rightarrow> bool \<times> nat \<times> btns \<Rightarrow> bool" where
  "entered tt x p found s = (\<lambda>(found', n, s').
     trie_ok s' \<and> (\<forall>q. q \<noteq> p \<longrightarrow> q \<noteq> length s \<longrightarrow> kids_at s' q = kids_at s q) \<and>
     (\<forall>m. parent_at (cores s) m \<noteq> Some p \<longrightarrow> m \<noteq> length s \<longrightarrow> nts s' m = nts s m) \<and>
     (if hits s p x = {}
      then \<not> found' \<and> n = length s \<and> length s' = Suc (length s) \<and>
        cores s' = (cores s)(n := Some (fresh_btn tt x p)) \<and> kids_at s' n = Some (Chain [])
      else found' = found \<and> n \<in> hits s p x \<and> length s' = length s \<and> cores s' = cores s))"

definition counts_kept :: "(btns \<Rightarrow> bool res) \<Rightarrow> bool \<Rightarrow> kids \<Rightarrow> btns \<Rightarrow> btns \<Rightarrow> bool" where
  "counts_kept can found k s s' \<longleftrightarrow>
     (counts_ok s \<longrightarrow> (\<forall>s. can s = Inr True) \<longrightarrow> found \<or> k = Chain [] \<longrightarrow> counts_ok s')"

lemma counts_okD: "counts_ok s \<Longrightarrow> kids_at s p = Some k \<Longrightarrow> counted k"
  by (simp add: counts_ok_def)

lemma counts_ok_views: "kids_at s' = kids_at s \<Longrightarrow> counts_ok s' = counts_ok s"
  by (simp add: counts_ok_def)

lemma counts_okI:
  assumes "counts_ok s" "kids_at s' p = Some k'" "counted k'"
    "\<And>q k. q \<noteq> p \<Longrightarrow> kids_at s' q = Some k \<Longrightarrow> kids_at s q = Some k \<or> k = Chain []"
  shows "counts_ok s'"
  unfolding counts_ok_def
proof (intro allI impI)
  fix q k assume k: "kids_at s' q = Some k"
  show "counted k"
  proof (cases "q = p")
    case False
    from assms(4) [OF this k] show ?thesis using assms(1) by (auto simp: counts_ok_def)
  qed (use k assms in simp)
qed

lemma hits_chain:
  assumes "trie_ok s" "kids_at s p = Some (Chain ns)"
  shows "in_chain s x ns = hits s p x"
  using trie_okD(3) [OF assms] by (auto simp: in_chain_def hits_def)

lemma set_child_same: "kids_at s p = Some k \<Longrightarrow> kids_at (set_child p k s) = kids_at s"
  by (subst kids_set_child) auto

lemma trie_ok_views: "cores s' = cores s \<Longrightarrow> cps s' = cps s \<Longrightarrow> kids_at s' = kids_at s \<Longrightarrow> trie_ok s' = trie_ok s"
  by (simp add: trie_ok_def)

lemma chain_put:
  assumes ok: "trie_ok s" and k: "kids_at s p = Some (Chain ns)" and no: "hits s p x = {}"
    and c: "chained tt x p ns s s1"
  defines "s2 \<equiv> set_child p (Chain (length s # ns)) s1"
  shows "entered tt x p found s (False, length s, s2)" "kids_at s2 p = Some (Chain (length s # ns))"
    "length ns < MAX_SIBLING_LEN \<Longrightarrow> counts_kept can f0 k0 s s2"
proof -
  have pl: "p \<noteq> length s" using view_less [OF k] by simp
  have live: "kids_at s1 p \<noteq> None" using c k pl by (simp add: chained_def)
  have kd: "kids_at s2 = (kids_at s1)(p := Some (Chain (length s # ns)))"
    unfolding s2_def using kids_set_child [OF live] .
  then show k2: "kids_at s2 p = Some (Chain (length s # ns))" by simp
  have "trie_ok s2"
    by (rule chained_ok [OF ok k _ no c _ _ kd]) (use c in \<open>simp_all add: s2_def chains_ok_def chained_def\<close>)
  then show "entered tt x p found s (False, length s, s2)"
    using kd c pl no by (simp add: entered_def s2_def chained_def)
  show "counts_kept can f0 k0 s s2" if "length ns < MAX_SIBLING_LEN"
    unfolding counts_kept_def
  proof (intro impI)
    assume "counts_ok s"
    then show "counts_ok s2" by (rule counts_okI [OF _ k2]) (use that c kd in \<open>auto simp: chained_def split: if_splits\<close>)
  qed
qed

lemma entered_retabled:
  assumes e: "entered tt x p found s (f, n, s2)" and k: "kids_at s2 p = Some k" "n \<noteq> p"
    and r: "retabled p (kid_list k) (2 ^ e) h s2 s3"
  shows "entered tt x p found s (f, n, s3)"
proof -
  have ok: "trie_ok s2" using e by (simp add: entered_def)
  have nt: "nts s3 m = nts s2 m" if m: "parent_at (cores s) m \<noteq> Some p" "m \<noteq> length s" for m
  proof -
    have "parent_at (cores s2) m = parent_at (cores s) m"
      using e m(2) by (auto simp: entered_def parent_at_def split: if_splits)
    then have "m \<notin> set (kid_list k)" using trie_okD(3) [OF ok k(1)] m(1) by simp
    then show ?thesis using r by (simp add: retabled_def)
  qed
  have "trie_ok s3" using retabled_ok [OF ok k(1) r] .
  then show ?thesis using e r k(2) nt by (cases "hits s p x = {}") (auto simp add: entered_def retabled_def)
qed

lemma entered_known:
  assumes "trie_ok s" "n \<in> hits s p x" "trie_ok s'" "cores s' = cores s" "length s' = length s"
    "\<And>q. q \<noteq> p \<Longrightarrow> kids_at s' q = kids_at s q"
    "\<And>m. parent_at (cores s) m \<noteq> Some p \<Longrightarrow> nts s' m = nts s m"
  shows "entered tt x p found s (found, n, s')"
  using assms by (auto simp: entered_def)

lemma entered_kids:
  assumes "entered tt x p found s (f, n, s')" "q \<noteq> p" "kids_at s' q = Some k"
  shows "kids_at s q = Some k \<or> k = Chain []"
proof (cases "q = length s")
  case True
  then show ?thesis using assms view_less [OF assms(3)] by (auto simp: entered_def split: if_splits)
qed (use assms in \<open>auto simp: entered_def\<close>)

lemma entered_live: "entered tt x p found s (f, n, s') \<Longrightarrow> cores s m \<noteq> None \<Longrightarrow> cores s' m \<noteq> None"
  by (auto simp: entered_def split: if_splits)

lemma chk_ins_chain:
  assumes ok: "trie_ok s" and k: "kids_at s p = Some (Chain ns)"
    and can: "decides L can" "\<forall>n \<in> L. cores s n \<noteq> None"
  shows "\<exists>r. chk_ins can tt x (found, p, s) = Inr r \<and> entered tt x p found s r \<and>
    counts_kept can found (Chain ns) s (snd (snd r))"
proof -
  note kd = trie_okD [OF ok k]
  obtain b where b: "deref s p = Inr b" "bt_child b = Chain ns" using k by (auto simp: view_Some)
  have ch: "chain_ok (cps s) ns" "distinct ns" using kd(2,4) by simp_all
  have hit: "in_chain s x ns = hits s p x" by (rule hits_chain [OF ok k])
  have pl: "length s \<noteq> p" using view_less [OF k] by simp
  have can_ok: "\<exists>c. can s' = Inr c" if "entered tt x p found s (f, n, s')" for f n s'
    using can entered_live [OF that] that by (cases "can s'") (auto simp: trie_ok_def decides_def entered_def)
  show ?thesis
  proof (cases "ns = []")
    case True
    from new_btn_law [OF ch, of tt x p] True
    obtain s1 where s1: "new_btn tt INTERIOR_NT x (Some p) None s = (length s, s1)" "chained tt x p ns s s1"
      by (auto simp: first_of_def)
    have "hits s p x = {}" using hit True by (simp add: in_chain_def)
    note put = chain_put [OF ok k this s1(2)]
    show ?thesis using put(1) put(3) [of can found "Chain ns"] b s1(1) True by (simp add: chk_ins_def)
  next
    case False
    from IsInsibling_law [OF ch, of tt x p]
    obtain n new k' chain s1 where i: "IsInsibling tt x p ns s = Inr (n, new, k', chain, s1)"
      "if new then in_chain s x ns = {} \<and> n = length s \<and> k' = Suc (length ns) \<and> chain = length s # ns \<and> chained tt x p ns s s1
       else n \<in> in_chain s x ns \<and> k' < length ns \<and> chain = ns \<and> s1 = s" by blast
    let ?s2 = "set_child p (Chain chain) s1"
    let ?f = "found \<and> \<not> new"
    have s2: "entered tt x p found s (?f, n, ?s2)" "kids_at ?s2 p = Some (Chain chain)" "n \<noteq> p"
      "k' \<le> MAX_SIBLING_LEN \<Longrightarrow> counts_kept can found (Chain ns) s ?s2"
      "MAX_SIBLING_LEN < k' \<Longrightarrow> counts_ok s \<Longrightarrow> length chain = 9"
    proof -
      have goal: "entered tt x p found s (?f, n, ?s2) \<and> kids_at ?s2 p = Some (Chain chain) \<and> n \<noteq> p \<and>
        (k' \<le> MAX_SIBLING_LEN \<longrightarrow> counts_kept can found (Chain ns) s ?s2) \<and>
        (MAX_SIBLING_LEN < k' \<longrightarrow> counts_ok s \<longrightarrow> length chain = 9)"
      proof (cases new)
        case True
        then have c: "in_chain s x ns = {}" "n = length s" "k' = Suc (length ns)" "chain = length s # ns"
          "chained tt x p ns s s1" using i(2) by simp_all
        note put = chain_put [OF ok k _ c(5)]
        have "counted (Chain ns)" if "counts_ok s" by (rule counts_okD [OF that k])
        then show ?thesis using put hit c pl True by auto
      next
        case False
        then have c: "n \<in> hits s p x" "k' < length ns" "chain = ns" "s1 = s" using i(2) hit by simp_all
        have same: "kids_at ?s2 = kids_at s" using set_child_same [OF k] c by simp
        then have "trie_ok ?s2" using trie_ok_views [of ?s2 s] ok c by simp
        then have "entered tt x p found s (?f, n, ?s2)" using entered_known [OF ok c(1), of ?s2] c same False by simp
        moreover have "n \<noteq> p" using c(1) ok by (auto simp: hits_def trie_ok_def parents_ok_def)
        moreover have "length ns \<le> MAX_SIBLING_LEN" if "counts_ok s" using counts_okD [OF that k] by simp
        ultimately show ?thesis using same k c counts_ok_views [OF same] by (auto simp: counts_kept_def)
      qed
      then show "entered tt x p found s (?f, n, ?s2)" "kids_at ?s2 p = Some (Chain chain)" "n \<noteq> p"
        "k' \<le> MAX_SIBLING_LEN \<Longrightarrow> counts_kept can found (Chain ns) s ?s2"
        "MAX_SIBLING_LEN < k' \<Longrightarrow> counts_ok s \<Longrightarrow> length chain = 9" by blast+
    qed
    have ok2: "trie_ok ?s2" using s2(1) by (simp add: entered_def)
    from can_ok [OF s2(1)] obtain c where c: "can ?s2 = Inr c" by blast
    note kd2 = trie_okD [OF ok2 s2(2)]
    have "chain_ok (cps ?s2) chain" "distinct chain" using kd2(2,4) by simp_all
    from hashify_children_law [OF _ this, of p] s2(2)
    obtain s3 h where s3: "hashify_children p chain ?s2 = Inr s3" "retabled p chain 64 h ?s2 s3" "numContents h = 9" by auto
    have e3: "entered tt x p found s (?f, n, s3)"
      by (rule entered_retabled [OF s2(1-3), of 6 h]) (use s3(2) in simp)
    have cnt: "counts_kept can found (Chain ns) s s3" if "MAX_SIBLING_LEN < k'"
      unfolding counts_kept_def
    proof (intro impI)
      assume "counts_ok s"
      from s2(5) [OF that this] have l: "length chain = 9" .
      have k3: "kids_at s3 p = Some (Hashed h)" using s3(2) by (simp add: retabled_def)
      have "length (concat (buckets h)) = length chain" using s3(2) by (simp add: retabled_def flip: size_mset)
      then have "counted (Hashed h)" using s3(3) l by simp
      then show "counts_ok s3"
        by (rule counts_okI [OF \<open>counts_ok s\<close> k3]) (rule entered_kids [OF e3])
    qed
    show ?thesis
    proof (cases "MAX_SIBLING_LEN < k'")
      case False
      then show ?thesis using b i(1) \<open>ns \<noteq> []\<close> s2(1,4) by (simp add: chk_ins_def)
    next
      case True
      then show ?thesis
      proof (cases c)
        case True
        then show ?thesis using b i(1) \<open>ns \<noteq> []\<close> c \<open>MAX_SIBLING_LEN < k'\<close> s3(1) e3 cnt by (simp add: chk_ins_def)
      next
        case False
        then have "counts_kept can found (Chain ns) s ?s2" using c by (auto simp: counts_kept_def)
        then show ?thesis using b i(1) \<open>ns \<noteq> []\<close> c False \<open>MAX_SIBLING_LEN < k'\<close> s2(1) by (simp add: chk_ins_def)
      qed
    qed
  qed
qed

lemma hits_bucket:
  assumes ok: "trie_ok s" and k: "kids_at s p = Some (Hashed h)"
  shows "TrieHash x (length (buckets h) - Suc 0) < length (buckets h)"
    "in_chain s x (buckets h ! TrieHash x (length (buckets h) - Suc 0)) = hits s p x"
proof -
  note kd = trie_okD [OF ok k]
  let ?n = "length (buckets h)"
  let ?i = "TrieHash x (?n - Suc 0)"
  obtain e where e: "?n = 2 ^ e" using kd(6) by auto
  then show i: "?i < ?n" using TrieHash_less by simp
  have "m \<in> set (buckets h ! ?i) \<longleftrightarrow> m \<in> set (concat (buckets h))" if "symbol_at (cores s) m = Some x" for m
  proof -
    have "bucket_of (cores s) (?n - Suc 0) m = ?i"
      using that by (auto simp: bucket_of_def symbol_at_def split: option.splits)
    moreover have "placed (bucket_of (cores s) (?n - Suc 0)) (buckets h)" using kd(6) by simp
    ultimately show ?thesis using placed_bucket [OF _ i] by blast
  qed
  then show "in_chain s x (buckets h ! ?i) = hits s p x"
    using kd(3) by (auto simp: in_chain_def hits_def)
qed

lemma set_child_hashed:
  assumes "kids_at s p \<noteq> None"
  shows "kids_at (set_child p k (upd_obj n MakeHashedNode s)) = (kids_at s)(p := Some k)"
proof -
  have "kids_at (upd_obj n MakeHashedNode s) = kids_at s" by (simp add: view_upd_same)
  then show ?thesis using kids_set_child [of "upd_obj n MakeHashedNode s" p k] assms by simp
qed

lemma table_put:
  assumes ok: "trie_ok s" and k: "kids_at s p = Some (Hashed h)" and no: "hits s p x = {}"
    and c: "chained tt x p (buckets h ! i) s s1" and i: "i = TrieHash x (length (buckets h) - Suc 0)"
    and h': "buckets h' = (buckets h)[i := length s # buckets h ! i]" "numContents h' = numContents h + 1"
  defines "s2 \<equiv> set_child p (Hashed h') (upd_obj (length s) MakeHashedNode s1)"
  shows "entered tt x p found s (False, length s, s2)" "kids_at s2 p = Some (Hashed h')"
    "counts_kept can f0 k0 s s2"
proof -
  note kd = trie_okD [OF ok k]
  have il: "i < length (buckets h)" using hits_bucket(1) [OF ok k] i by simp
  have pl: "p \<noteq> length s" using view_less [OF k] by simp
  have live: "kids_at s1 p \<noteq> None" using c k pl by (simp add: chained_def)
  have kk: "kids_at s2 = (kids_at s1)(p := Some (Hashed h'))"
    unfolding s2_def by (rule set_child_hashed [OF live])
  then show k2: "kids_at s2 p = Some (Hashed h')" by simp
  have co: "cores s2 = cores s1" "cps s2 = cps s1" by (simp_all add: s2_def view_upd_same)
  have c1: "cores s1 = (cores s)(length s := Some (fresh_btn tt x p))" using c by (simp add: chained_def)
  have m: "mset (concat (buckets h')) = add_mset (length s) (mset (concat (buckets h)))"
    using mset_concat_update [OF il, of "length s # buckets h ! i"] by (simp add: h'(1))
  have dead: "length s \<notin> set (concat (buckets h))"
  proof
    assume "length s \<in> set (concat (buckets h))"
    then have "cps s (length s) \<noteq> None" using chains_ok_live [OF kd(5)] by simp
    then show False by (simp add: not_live)
  qed
  have "chain_ok (cps s1) (buckets h' ! j)" if j: "j < length (buckets h')" for j
  proof (cases "j = i")
    case True
    then show ?thesis using c il by (simp add: h'(1) chained_def)
  next
    case False
    have "cps s1 n = cps s n" if n: "n \<in> set (buckets h ! j)" for n
    proof -
      have jl: "j < length (buckets h)" using j by (simp add: h'(1))
      have "n \<notin> set (buckets h ! i)" using distinct_concat_nth [of "buckets h" i j n] kd(2) il jl n False by auto
      moreover have "n \<noteq> length s" using dead mem_bucket [OF jl n] by auto
      ultimately show ?thesis using c by (simp add: chained_def)
    qed
    then show ?thesis using chain_ok_cong [of "buckets h ! j" "cps s1" "cps s"] kd(5) j False
      by (simp add: h'(1) chains_ok_nth)
  qed
  then have ch: "chains_ok (cps s1) (chains (Hashed h'))" by (simp add: chains_ok_nth)
  have old: "bucket_of (cores s1) d n = bucket_of (cores s) d n" if "n \<noteq> length s" for d n
    using that by (simp add: c1 bucket_of_def)
  have new: "bucket_of (cores s1) d (length s) = TrieHash x d" for d by (simp add: c1 bucket_of_def)
  have "placed (bucket_of (cores s1) (length (buckets h) - Suc 0)) (buckets h')"
    unfolding placed_def
  proof (intro allI impI ballI)
    fix j n assume j: "j < length (buckets h')" and n: "n \<in> set (buckets h' ! j)"
    show "bucket_of (cores s1) (length (buckets h) - Suc 0) n = j"
    proof (cases "n = length s")
      case True
      have "j = i"
      proof (rule ccontr)
        assume "j \<noteq> i"
        then have "n \<in> set (buckets h ! j)" "j < length (buckets h)" using n j by (simp_all add: h'(1))
        then show False using dead mem_bucket [of j "buckets h" n] True by auto
      qed
      then show ?thesis using True new i by simp
    next
      case False
      then have "n \<in> set (buckets h ! j)" "j < length (buckets h)"
        using n j il by (auto simp: h'(1) nth_list_update split: if_splits)
      then show ?thesis using kd(6) old [OF False] by (simp add: placed_def)
    qed
  qed
  then have "table_ok (cores s1) (Hashed h')" using kd(6) by (simp add: h'(1))
  then have "trie_ok s2"
    using chained_ok [OF ok k _ no c co kk _ ch] m il by simp
  then show "entered tt x p found s (False, length s, s2)"
    using kk c pl no co by (simp add: entered_def s2_def chained_def view_upd)
  show "counts_kept can f0 k0 s s2"
    unfolding counts_kept_def
  proof (intro impI)
    assume cs: "counts_ok s"
    have "length (concat (buckets h')) = Suc (length (concat (buckets h)))" using m by (metis size_mset size_add_mset)
    then have "counted (Hashed h')" using counts_okD [OF cs k] h'(2) by simp
    then show "counts_ok s2"
      by (rule counts_okI [OF cs k2]) (use c kk in \<open>auto simp: chained_def split: if_splits\<close>)
  qed
qed

lemma table_again:
  assumes ok: "trie_ok s" and k: "kids_at s p = Some (Hashed h)" and n: "n \<in> hits s p x"
    and h': "buckets h' = buckets h"
  defines "s2 \<equiv> set_child p (Hashed h') (upd_obj n MakeHashedNode s)"
  shows "entered tt x p found s (found, n, s2)" "kids_at s2 p = Some (Hashed h')"
proof -
  note kd = trie_okD [OF ok k]
  have kk: "kids_at s2 = (kids_at s)(p := Some (Hashed h'))" unfolding s2_def using k by (simp add: set_child_hashed)
  then show "kids_at s2 p = Some (Hashed h')" by simp
  obtain e where e: "length (buckets h) = 2 ^ e" using kd(6) by auto
  have par: "parent_at (cores s) n = Some p" using n by (simp add: hits_def)
  then have mem: "n \<in> set (concat (buckets h))" using kd(3) by simp
  have nt: "nts s2 m = nts s m" if "m \<noteq> n" for m using that by (simp add: s2_def view_upd)
  have "\<forall>m. m \<notin> set (concat (buckets h)) \<longrightarrow> nts s2 m = nts s m"
  proof (intro allI impI)
    fix m assume "m \<notin> set (concat (buckets h))"
    then show "nts s2 m = nts s m" using mem nt [of m] by metis
  qed
  then have "retabled p (kid_list (Hashed h)) (2 ^ e) h' s s2"
    using kd(5,6) e kk by (simp add: retabled_def s2_def view_upd_same h')
  from retabled_ok [OF ok k this] show "entered tt x p found s (found, n, s2)"
  proof (intro entered_known [OF ok n])
    show "nts s2 m = nts s m" if "parent_at (cores s) m \<noteq> Some p" for m using nt [of m] par that by metis
  qed (use kk in \<open>simp_all add: s2_def view_upd_same\<close>)
qed

text \<open>The table after the node was put in, whether or not it is expanded.\<close>

lemma table_grow:
  assumes e: "entered tt x p found s (f, n, s2)" and k: "kids_at s2 p = Some (Hashed h)" "n \<noteq> p"
    and cnt: "counts_kept can found k0 s s2"
  shows "\<exists>s3. expand_trie_ht p h s2 = Inr s3 \<and> entered tt x p found s (f, n, s3) \<and> counts_kept can found k0 s s3"
proof -
  have ok: "trie_ok s2" using e by (simp add: entered_def)
  note kd = trie_okD [OF ok k(1)]
  obtain a where a: "length (buckets h) = 2 ^ a" using kd(6) by auto
  from expand_trie_ht_law [of s2 p h a] k(1) kd(2,5,6) a
  obtain s3 h3 where s3: "expand_trie_ht p h s2 = Inr s3"
    "retabled p (concat (buckets h)) (2 ^ Suc a) h3 s2 s3" "numContents h3 = numContents h" by auto
  have e3: "entered tt x p found s (f, n, s3)"
    by (rule entered_retabled [OF e k, of "Suc a" h3]) (use s3(2) in simp)
  have "counts_kept can found k0 s s3"
    unfolding counts_kept_def
  proof (intro impI)
    assume p: "counts_ok s" "\<forall>s. can s = Inr True" "found \<or> k0 = Chain []"
    then have "counts_ok s2" using cnt by (simp add: counts_kept_def)
    moreover have k3: "kids_at s3 p = Some (Hashed h3)" using s3(2) by (simp add: retabled_def)
    moreover have "length (concat (buckets h3)) = length (concat (buckets h))"
      using s3(2) unfolding retabled_def by (metis size_mset)
    ultimately have "counted (Hashed h3)" using s3(3) counts_okD [of s2 p] k(1) by simp
    then show "counts_ok s3"
      by (rule counts_okI [OF p(1) k3]) (rule entered_kids [OF e3])
  qed
  then show ?thesis using s3(1) e3 by blast
qed

lemma chk_ins_table:
  assumes ok: "trie_ok s" and k: "kids_at s p = Some (Hashed h)"
    and can: "decides L can" "\<forall>n \<in> L. cores s n \<noteq> None"
  shows "\<exists>r. chk_ins can tt x (found, p, s) = Inr r \<and> entered tt x p found s r \<and>
    counts_kept can found (Hashed h) s (snd (snd r))"
proof -
  note kd = trie_okD [OF ok k]
  obtain b where b: "deref s p = Inr b" "bt_child b = Hashed h" using k by (auto simp: view_Some)
  let ?i = "TrieHash x (length (buckets h) - Suc 0)"
  note hit = hits_bucket [OF ok k, of x]
  have ch: "chain_ok (cps s) (buckets h ! ?i)" using kd(5) hit(1) by (simp add: chains_ok_nth)
  have d: "distinct (buckets h ! ?i)" using distinct_bucket [of id, OF _ hit(1)] kd(2) by (simp add: map_idI)
  have pl: "length s \<noteq> p" using view_less [OF k] by simp
  have can_ok: "\<exists>c. can s' = Inr c" if "entered tt x p found s (f, n, s')" for f n s'
    using can entered_live [OF that] that by (cases "can s'") (auto simp: trie_ok_def decides_def entered_def)
  from IsInsibling_law [OF ch d, of tt x p]
  obtain n new k' chain s1 where i: "IsInsibling tt x p (buckets h ! ?i) s = Inr (n, new, k', chain, s1)"
    "if new then in_chain s x (buckets h ! ?i) = {} \<and> n = length s \<and> k' = Suc (length (buckets h ! ?i)) \<and>
       chain = length s # buckets h ! ?i \<and> chained tt x p (buckets h ! ?i) s s1
     else n \<in> in_chain s x (buckets h ! ?i) \<and> k' < length (buckets h ! ?i) \<and> chain = buckets h ! ?i \<and> s1 = s" by blast
  let ?h = "h\<lparr>buckets := (buckets h)[?i := chain], numContents := numContents h + 1\<rparr>"
  let ?s2 = "set_child p (Hashed ?h) (upd_obj n MakeHashedNode s1)"
  let ?f = "found \<and> \<not> new"
  have s2: "entered tt x p found s (?f, n, ?s2) \<and> kids_at ?s2 p = Some (Hashed ?h) \<and> n \<noteq> p \<and>
      (\<not> ?f \<longrightarrow> counts_kept can found (Hashed h) s ?s2)"
  proof (cases new)
    case True
    then have c: "hits s p x = {}" "n = length s" "chain = length s # buckets h ! ?i"
      "chained tt x p (buckets h ! ?i) s s1" using i(2) hit(2) by simp_all
    note put = table_put [OF ok k c(1) c(4) refl, where h' = ?h]
    show ?thesis using put c pl True by simp
  next
    case False
    then have c: "n \<in> hits s p x" "chain = buckets h ! ?i" "s1 = s" using i(2) hit(2) by simp_all
    have "n \<noteq> p" using c(1) ok by (auto simp: hits_def trie_ok_def parents_ok_def)
    then show ?thesis using table_again [OF ok k c(1), where h' = ?h] c False by (simp add: counts_kept_def)
  qed
  then have s2a: "entered tt x p found s (?f, n, ?s2)" "kids_at ?s2 p = Some (Hashed ?h)" "n \<noteq> p" by blast+
  show ?thesis
  proof (cases ?f)
    case True
    then have "n \<in> hits s p x" using i(2) hit(2) by auto
    then have "entered tt x p found s (?f, n, s)" using entered_known [OF ok _ ok, of n p x] True by simp
    moreover have "s1 = s" using i(2) True by auto
    ultimately show ?thesis using b i(1) True by (simp add: chk_ins_def counts_kept_def)
  next
    case False
    then have cnt: "counts_kept can found (Hashed h) s ?s2" using s2 by blast
    from can_ok [OF s2a(1)] obtain c where c: "can ?s2 = Inr c" by blast
    from table_grow [OF s2a cnt] obtain s3 where s3: "expand_trie_ht p ?h ?s2 = Inr s3"
      "entered tt x p found s (?f, n, s3)" "counts_kept can found (Hashed h) s s3" by blast
    let ?g = "BUCKET_CONTENT_THRESHOLD < k' \<and> int (length (buckets ?h)) < numContents ?h \<and> c"
    have "chk_ins can tt x (found, p, s) = Inr (?f, n, if ?g then s3 else ?s2)"
      using b i(1) False c s3(1) by (auto simp: chk_ins_def Let_def)
    then show ?thesis using s2a(1) cnt s3(2,3) by (cases ?g) simp_all
  qed
qed

theorem chk_ins_law:
  assumes ok: "trie_ok s" and k: "kids_at s p = Some k"
    and can: "decides L can" "\<forall>n \<in> L. cores s n \<noteq> None"
  shows "\<exists>r. chk_ins can tt x (found, p, s) = Inr r \<and> entered tt x p found s r \<and>
    counts_kept can found k s (snd (snd r))"
proof (cases k)
  case (Chain ns)
  with chk_ins_chain [OF ok _ can, of p ns] k show ?thesis by simp
next
  case (Hashed h)
  with chk_ins_table [OF ok _ can, of p h] k show ?thesis by simp
qed

end
