(* ===== verification/Trie_Terms.thy ===== *)
theory Trie_Terms imports Trie_Nodes begin

text \<open>
  Terms in tries: how emu/tries.c takes a term apart into symbols, gives numbers to its
  variables, and enters it in an interned trie (\<open>trie_intern_chk_ins\<close>) or in the trie of an
  asserted predicate (\<open>trie_assert_chk_ins\<close>).

  A term is dereferenced and finite. An attributed variable is written with its attribute
  where it occurs first; later occurrences find the variable bound to its number.
\<close>

section \<open>Terms\<close>

datatype tterm =
    TVar nat
  | TAttv nat tterm      \<comment> \<open>an attributed variable, and its attribute\<close>
  | TInt int
  | TString nat
  | TFloat nat
  | TList tterm tterm
  | TCs nat "tterm list"  \<comment> \<open>the address of the \<open>psc_rec\<close>, whose arity is the number of arguments\<close>

section \<open>The numbers of variables\<close>

text \<open>
  A variable is bound to a cell of the array \<open>VarEnumerator\<close>. When that is full, a new array is
  made; the variables that were bound to the old one (those below \<open>ve_base\<close>) are then
  no longer seen as bound. \<open>ve_trail\<close> has the variable of each number.
\<close>

record venum =
  ve_size :: nat
  ve_base :: nat
  ve_trail :: "nat list"

definition IsStandardizedVariable :: "nat \<Rightarrow> venum \<Rightarrow> bool" where
  "IsStandardizedVariable v e \<longleftrightarrow> v \<in> set (drop (ve_base e) (ve_trail e))"

definition IndexOfStdVar :: "nat \<Rightarrow> venum \<Rightarrow> nat" where
  "IndexOfStdVar v e = ve_base e + length (takeWhile (\<lambda>u. u \<noteq> v) (drop (ve_base e) (ve_trail e)))"

definition StandardizeAndTrailVariable :: "nat \<Rightarrow> venum \<Rightarrow> venum" where
  "StandardizeAndTrailVariable v e =
    (if length (ve_trail e) < ve_size e then e\<lparr>ve_trail := ve_trail e @ [v]\<rparr>
     else e\<lparr>ve_size := 2 * ve_size e, ve_base := length (ve_trail e), ve_trail := ve_trail e @ [v]\<rparr>)"

abbreviation (input) ctr :: "venum \<Rightarrow> nat" where "ctr e \<equiv> length (ve_trail e)"

definition start_enum :: "nat \<Rightarrow> venum" where
  "start_enum sz = \<lparr>ve_size = sz, ve_base = 0, ve_trail = []\<rparr>"

section \<open>The symbol of a term\<close>

text \<open>
  The symbol of a term, the variables after it, and the terms that are pushed, the one that is
  on top first.
\<close>

fun term_symbol :: "venum \<Rightarrow> tterm \<Rightarrow> tsym \<times> venum \<times> tterm list" where
  "term_symbol e (TVar v) =
    (if \<not> IsStandardizedVariable v e then (EncodeNewTrieVar (ctr e), StandardizeAndTrailVariable v e, [])
     else (EncodeTrieVar (IndexOfStdVar v e), e, []))"
| "term_symbol e (TAttv v a) = (EncodeNewTrieAttv (ctr e), StandardizeAndTrailVariable v e, [a])"
| "term_symbol e (TInt i) = (SInt i, e, [])"
| "term_symbol e (TString s) = (SString s, e, [])"
| "term_symbol e (TFloat f) = (SFloat f, e, [])"
| "term_symbol e (TList h t) = (SList, e, [h, t])"
| "term_symbol e (TCs p args) = (SStruct p (length args), e, args)"

text \<open>The tag of a constant: \<open>XSB_STRING\<close>, \<open>XSB_INT\<close> or \<open>XSB_FLOAT\<close>.\<close>

fun constant_tag :: "tterm \<Rightarrow> bool" where
  "constant_tag (TInt _) = True"
| "constant_tag (TString _) = True"
| "constant_tag (TFloat _) = True"
| "constant_tag _ = False"

fun compound :: "tterm \<Rightarrow> bool" where
  "compound (TList _ _) = True"
| "compound (TCs _ _) = True"
| "compound _ = False"

definition term_weight :: "tterm \<Rightarrow> nat" where "term_weight t = Suc (2 * size t)"

lemma pushed_smaller: "sum_list (map term_weight (snd (snd (term_symbol e t)))) < term_weight t"
proof -
  have "sum_list (map term_weight args) \<le> 2 * size_list size args" for args
    by (induction args) (simp_all add: term_weight_def)
  then show ?thesis by (cases t) (auto simp: term_weight_def less_Suc_eq_le le_SucI)
qed

section \<open>Interned tries\<close>

text \<open>\<open>interned_trie_cps_check\<close>, over the trie nodes of the choice points.\<close>

fun root_of :: "nat \<Rightarrow> btns \<Rightarrow> nat \<Rightarrow> nat option res" where
  "root_of 0 s n = Inl (Xsb_Bug ''the parents of a trie node go round'')"
| "root_of (Suc fuel) s n =
    res_bind (deref s n) (\<lambda>b.
      if IsTrieRoot b then Inr (Some n)
      else (case bt_parent b of None \<Rightarrow> Inr None | Some p \<Rightarrow> root_of fuel s p))"

abbreviation (input) CPS_CHECK :: nat where "CPS_CHECK \<equiv> 1"
abbreviation (input) EXPAND_HASHES :: nat where "EXPAND_HASHES \<equiv> 0"
abbreviation (input) CAN_RECLAIM :: nat where "CAN_RECLAIM \<equiv> 0"
abbreviation (input) CANT_RECLAIM :: nat where "CANT_RECLAIM \<equiv> 1"

fun interned_trie_cps_check :: "nat list \<Rightarrow> nat \<Rightarrow> btns \<Rightarrow> nat res" where
  "interned_trie_cps_check [] root s = Inr CAN_RECLAIM"
| "interned_trie_cps_check (n # cps) root s =
    res_bind (deref s n) (\<lambda>b.
      if bt_trietype b = INTERN_TRIE_TT
      then res_bind (root_of (length s) s n) (\<lambda>r.
             if r = Some root then Inr CANT_RECLAIM else interned_trie_cps_check cps root s)
      else interned_trie_cps_check cps root s)"

text \<open>Whether a hash table may be made or grow: \<open>cps_check_flag\<close> and \<open>expand_flag\<close>.\<close>

definition may_expand :: "nat \<Rightarrow> nat \<Rightarrow> nat list \<Rightarrow> nat \<Rightarrow> btns \<Rightarrow> bool res" where
  "may_expand cps_check_flag expand_flag cps root s =
    (if cps_check_flag = CPS_CHECK
     then res_bind (interned_trie_cps_check cps root s) (\<lambda>e. Inr (e = EXPAND_HASHES))
     else Inr (expand_flag = EXPAND_HASHES))"

text \<open>
  \<open>CHECK_TRIE_INTERN_DEPTH\<close>, for a term that is not cyclic: the flags are \<open>CYCLIC_CHECK_SIZE\<close> and
  \<open>MAX_TABLE_ANSWER_METRIC\<close>; the state is the counter with the limit that is in force.
\<close>

definition check_trie_intern_depth :: "nat \<times> nat \<Rightarrow> nat \<times> nat \<Rightarrow> (nat \<times> nat) res" where
  "check_trie_intern_depth = (\<lambda>(cyclic_check_size, limit) (n, working).
    if working \<le> Suc n
    then (if working = cyclic_check_size then Inr (Suc n, max working limit)
          else Inl (Table_Error ''Exceeded max trie_intern size''))
    else Inr (Suc n, working))"

function recvariant_trie_intern ::
    "nat \<times> nat \<Rightarrow> (btns \<Rightarrow> bool res) \<Rightarrow> tterm list \<Rightarrow>
     (nat \<times> nat) \<times> bool \<times> venum \<times> bool \<times> nat \<times> btns \<Rightarrow> (bool \<times> venum \<times> bool \<times> nat \<times> btns) res" where
  "recvariant_trie_intern flags can [] (d, const, e, st) = Inr (const, e, st)"
| "recvariant_trie_intern flags can (t # pdl) (d, const, e, st) =
    res_bind (if compound t then check_trie_intern_depth flags d else Inr d) (\<lambda>d.
    res_bind (chk_ins can INTERN_TRIE_TT (fst (term_symbol e t)) st) (\<lambda>st.
      recvariant_trie_intern flags can (snd (snd (term_symbol e t)) @ pdl)
        (d, constant_tag t, fst (snd (term_symbol e t)), st)))"
  by pat_completeness auto
termination recvariant_trie_intern
  by (relation "measure (\<lambda>(_, _, pdl, _). sum_list (map term_weight pdl))")
    (use pushed_smaller in \<open>simp_all add: add_strict_right_mono\<close>)

text \<open>
  \<open>trie_intern_chk_ins\<close>. The results are the leaf, the flag (0 when the term was not in the trie), the
  root, the variables of the term and the size that the array of variables has now.
\<close>

record intern_result =
  leaf :: nat
  flag :: nat
  hook :: nat
  trieinstr_vars :: "nat list"
  num_trievars :: nat

definition trie_intern_chk_ins ::
    "nat \<times> nat \<Rightarrow> nat \<times> nat \<Rightarrow> nat \<times> nat \<times> nat list \<Rightarrow> nat \<Rightarrow> tterm \<Rightarrow> nat option \<Rightarrow> btns \<Rightarrow> (intern_result \<times> btns) res" where
  "trie_intern_chk_ins intern_psc flags = (\<lambda>(cps_check_flag, expand_flag, cps) sz t hk s.
    (let (root, s) = (case hk of
           None \<Rightarrow> newBasicTrie (SStruct (fst intern_psc) (snd intern_psc)) INTERN_TRIE_TT s
         | Some r \<Rightarrow> (r, s));
         can = may_expand cps_check_flag expand_flag cps root;
         (x, e, pdl) = term_symbol (start_enum sz) t in
     res_bind (chk_ins can INTERN_TRIE_TT x (True, root, s)) (\<lambda>st.
     res_bind (recvariant_trie_intern flags can pdl ((0, min (fst flags) (snd flags)), constant_tag t, e, st))
       (\<lambda>(const, e, found, n, s).
        let s = (if \<not> found then upd_obj n (\<lambda>b. TN_UpgradeInstrTypeToSUCCESS const (MakeLeafNode b)) s else s);
            r = \<lparr>leaf = n, flag = (if found then 1 else 0), hook = root, trieinstr_vars = ve_trail e,
                 num_trievars = ve_size e\<rparr> in
        res_bind (deref s n) (\<lambda>b.
          if IsDeletedNode b then res_bind (undelete_branch n s) (\<lambda>s. Inr (r\<lparr>flag := 0\<rparr>, s))
          else Inr (r, s))))))"

section \<open>Asserted tries\<close>

function recvariant_trie_no_ans_subsf ::
    "nat \<Rightarrow> tterm list \<Rightarrow> bool \<times> venum \<times> bool \<times> nat \<times> btns \<Rightarrow> (bool \<times> venum \<times> bool \<times> nat \<times> btns) res" where
  "recvariant_trie_no_ans_subsf tt [] (const, e, st) = Inr (const, e, st)"
| "recvariant_trie_no_ans_subsf tt (t # pdl) (const, e, st) =
    res_bind (one_btn_chk_ins tt (fst (term_symbol e t)) st) (\<lambda>st.
      recvariant_trie_no_ans_subsf tt (snd (snd (term_symbol e t)) @ pdl)
        (constant_tag t, fst (snd (term_symbol e t)), st))"
  by pat_completeness auto
termination recvariant_trie_no_ans_subsf
  by (relation "measure (\<lambda>(_, pdl, _). sum_list (map term_weight pdl))")
    (use pushed_smaller in \<open>simp_all add: add_strict_right_mono\<close>)

fun assert_args :: "tterm list \<Rightarrow> bool \<times> venum \<times> bool \<times> nat \<times> btns \<Rightarrow> (bool \<times> venum \<times> bool \<times> nat \<times> btns) res" where
  "assert_args [] r = Inr r"
| "assert_args (t # args) (const, e, st) =
    (let (x, e, pdl) = term_symbol e t in
     res_bind (one_btn_chk_ins ASSERT_TRIE_TT x st) (\<lambda>st.
     res_bind (recvariant_trie_no_ans_subsf ASSERT_TRIE_TT pdl (constant_tag t, e, st)) (assert_args args)))"

text \<open>
  \<open>trie_assert_chk_ins\<close>: the arguments of the term, one after the other. The results are the leaf,
  the flag and the size that the array of variables has now.
\<close>

definition trie_assert_chk_ins :: "nat \<Rightarrow> tterm list \<Rightarrow> nat \<Rightarrow> btns \<Rightarrow> (nat \<times> bool \<times> nat \<times> btns) res" where
  "trie_assert_chk_ins sz args root s =
    res_bind (assert_args args (False, start_enum sz, True, root, s)) (\<lambda>(const, e, st).
    res_bind (if args = [] then
                res_bind (one_btn_chk_ins ASSERT_TRIE_TT ESCAPE_NODE_SYMBOL st) (\<lambda>(found, n, s).
                  Inr (found, n, upd_obj n (\<lambda>b. b\<lparr>bt_instr := trie_proceed\<rparr>) s))
              else Inr st) (\<lambda>(found, n, s).
      let s = (if \<not> found then upd_obj n (\<lambda>b. TN_UpgradeInstrTypeToSUCCESS const (MakeLeafNode b)) s else s) in
      Inr (n, found, ve_size e, s)))"

end
