(* ===== verification/Trie_Paths.thy ===== *)
theory Trie_Paths imports Trie_Insert Trie_Terms begin

text \<open>
  Paths of symbols below a node, and the entering of one symbol after the other: the path that is
  there already is followed, what is missing is added at its end, and the rest of the trie stays.
\<close>

section \<open>Paths\<close>

primrec at_path :: "(nat \<Rightarrow> btn option) \<Rightarrow> nat \<Rightarrow> tsym list \<Rightarrow> nat \<Rightarrow> bool" where
  "at_path C p [] n \<longleftrightarrow> n = p"
| "at_path C p (x # w) n \<longleftrightarrow> (\<exists>m. parent_at C m = Some p \<and> symbol_at C m = Some x \<and> at_path C m w n)"

lemma at_path_append: "at_path C p (u @ v) n \<longleftrightarrow> (\<exists>m. at_path C p u m \<and> at_path C m v n)"
  by (induction u arbitrary: p) auto

text \<open>Children of a node have different symbols, so a path leads to one node only.\<close>

definition symbols_differ :: "(nat \<Rightarrow> btn option) \<Rightarrow> bool" where
  "symbols_differ C \<longleftrightarrow>
     (\<forall>p m n x. parent_at C m = Some p \<longrightarrow> parent_at C n = Some p \<longrightarrow>
        symbol_at C m = Some x \<longrightarrow> symbol_at C n = Some x \<longrightarrow> m = n)"

lemma kids_at_core: "cores s p \<noteq> None \<longleftrightarrow> kids_at s p \<noteq> None"
  by (auto simp: view_def split: sum.splits)

lemma trie_ok_differ:
  assumes ok: "trie_ok s"
  shows "symbols_differ (cores s)"
  unfolding symbols_differ_def
proof (intro allI impI)
  fix p m n x
  assume mn: "parent_at (cores s) m = Some p" "parent_at (cores s) n = Some p"
    "symbol_at (cores s) m = Some x" "symbol_at (cores s) n = Some x"
  then have "kids_at s p \<noteq> None" using ok kids_at_core by (auto simp: trie_ok_def parents_ok_def)
  then obtain k where k: "kids_at s p = Some k" by blast
  note kd = trie_okD [OF ok k]
  show "m = n" using kd(7) mn kd(3) [of m] kd(3) [of n] unfolding inj_on_def by metis
qed

lemma at_path_unique:
  assumes "symbols_differ C"
  shows "at_path C p w m \<Longrightarrow> at_path C p w n \<Longrightarrow> m = n"
proof (induction w arbitrary: p)
  case (Cons x w)
  then show ?case using assms unfolding symbols_differ_def at_path.simps by metis
qed simp

lemma at_path_above: "parents_ok C \<Longrightarrow> at_path C p w n \<Longrightarrow> p \<le> n \<and> (w \<noteq> [] \<longrightarrow> p < n)"
proof (induction w arbitrary: p)
  case (Cons x w)
  then obtain m where "parent_at C m = Some p" "at_path C m w n" by auto
  with Cons show ?case by (fastforce simp: parents_ok_def)
qed simp

lemma at_path_last: "at_path C p (w @ [x]) n \<longleftrightarrow> (\<exists>m. at_path C p w m \<and> parent_at C n = Some m \<and> symbol_at C n = Some x)"
  by (auto simp: at_path_append)

lemma root_unique:
  "at_path C p u x \<Longrightarrow> at_path C q v x \<Longrightarrow> parent_at C p = None \<Longrightarrow> parent_at C q = None \<Longrightarrow> p = q"
proof (induction u arbitrary: v x rule: rev_induct)
  case Nil
  then show ?case by (cases v rule: rev_cases) (auto simp: at_path_last)
next
  case (snoc y u)
  obtain m where m: "at_path C p u m" "parent_at C x = Some m" using snoc.prems(1) by (auto simp: at_path_last)
  then obtain w z where v: "v = w @ [z]" using snoc.prems(2,4) by (cases v rule: rev_cases) auto
  then have "at_path C q w m" using snoc.prems(2) m(2) by (auto simp: at_path_last)
  then show ?case using snoc.IH m(1) snoc.prems(3,4) by blast
qed

lemma at_path_word:
  assumes ok: "parents_ok C"
  shows "at_path C p u n \<Longrightarrow> at_path C p v n \<Longrightarrow> u = v"
proof (induction u arbitrary: v n rule: rev_induct)
  case Nil
  then show ?case using at_path_above [OF ok, of p v n] by (cases v) auto
next
  case (snoc x u)
  then obtain m where m: "at_path C p u m" "parent_at C n = Some m" "symbol_at C n = Some x"
    by (auto simp: at_path_last)
  show ?case
  proof (cases v rule: rev_cases)
    case Nil
    then show ?thesis using snoc.prems at_path_above [OF ok, of p "u @ [x]" n] by simp
  next
    case (snoc v' y)
    then have "at_path C p v' m" "y = x" using snoc.prems(2) m(2,3) by (auto simp: at_path_last)
    then show ?thesis using snoc.IH [OF m(1)] snoc by simp
  qed
qed

lemma at_path_live: "at_path C p w n \<Longrightarrow> w \<noteq> [] \<Longrightarrow> C n \<noteq> None"
proof (induction w arbitrary: p)
  case (Cons x w)
  then obtain m where "parent_at C m = Some p" "at_path C m w n" by auto
  then show ?case using Cons.IH by (cases w; cases "C m") (auto simp: parent_at_def)
qed simp

lemma at_path_below: "at_path (cores s) p w n \<Longrightarrow> cores s p \<noteq> None \<Longrightarrow> n < length s"
proof -
  assume "at_path (cores s) p w n" "cores s p \<noteq> None"
  then have "cores s n \<noteq> None" using at_path_live [of "cores s" p w n] by (cases "w = []") simp_all
  then show ?thesis using view_less [of core s n] by auto
qed

section \<open>Growing\<close>

text \<open>A store in which nodes have been added, and none was changed.\<close>

definition grown :: "btns \<Rightarrow> btns \<Rightarrow> bool" where
  "grown s s' \<longleftrightarrow> length s \<le> length s' \<and> (\<forall>m < length s. cores s' m = cores s m)"

lemma grown_refl [simp]: "grown s s"
  by (simp add: grown_def)

lemma grown_trans: "grown s s' \<Longrightarrow> grown s' s'' \<Longrightarrow> grown s s''"
  by (simp add: grown_def)

lemma grown_same: "grown s s' \<Longrightarrow> length s' = length s \<Longrightarrow> cores s' = cores s"
proof
  fix m assume "grown s s'" "length s' = length s"
  then show "cores s' m = cores s m"
    by (cases "m < length s") (auto simp: grown_def view_def deref_dangling)
qed

lemma grown_at: "grown s s' \<Longrightarrow> cores s m = Some b \<Longrightarrow> cores s' m = Some b"
  by (simp add: grown_def view_less)

lemma grown_path: "grown s s' \<Longrightarrow> at_path (cores s) p w n \<Longrightarrow> at_path (cores s') p w n"
proof (induction w arbitrary: p)
  case (Cons x w)
  then obtain m where m: "parent_at (cores s) m = Some p" "symbol_at (cores s) m = Some x" "at_path (cores s) m w n" by auto
  then obtain b where "cores s m = Some b" by (auto simp: symbol_at_def)
  then have "parent_at (cores s') m = Some p" "symbol_at (cores s') m = Some x"
    using m grown_at [OF Cons.prems(1)] by (simp_all add: parent_at_def symbol_at_def)
  then show ?case using Cons.IH [OF Cons.prems(1) m(3)] by auto
qed simp

text \<open>A path to an old node runs over old nodes.\<close>

lemma grown_path_old:
  assumes g: "grown s s'" and ok: "parents_ok (cores s')"
  shows "at_path (cores s') p w n \<Longrightarrow> n < length s \<Longrightarrow> at_path (cores s) p w n"
proof (induction w arbitrary: p)
  case (Cons x w)
  then obtain m where m: "parent_at (cores s') m = Some p" "symbol_at (cores s') m = Some x" "at_path (cores s') m w n" by auto
  have "m < length s" using at_path_above [OF ok m(3)] Cons.prems(2) by simp
  then have "cores s' m = cores s m" using g by (simp add: grown_def)
  then show ?case using m Cons by (auto simp: parent_at_def symbol_at_def)
qed simp

section \<open>Entering a path\<close>

text \<open>A node has a hash table only when it has children.\<close>

definition tables_used :: "btns \<Rightarrow> bool" where
  "tables_used s \<longleftrightarrow> (\<forall>p h. kids_at s p = Some (Hashed h) \<longrightarrow> (\<exists>m. parent_at (cores s) m = Some p))"

fun insert_path :: "(btns \<Rightarrow> bool res) \<Rightarrow> nat \<Rightarrow> tsym list \<Rightarrow> bool \<times> nat \<times> btns \<Rightarrow> (bool \<times> nat \<times> btns) res" where
  "insert_path can tt [] st = Inr st"
| "insert_path can tt (x # xs) st = res_bind (chk_ins can tt x st) (insert_path can tt xs)"

text \<open>
  What is known after a path was entered below \<open>p\<close>. The new nodes are those of a part of the
  path, in their order.
\<close>

definition path_entered :: "nat \<Rightarrow> tsym list \<Rightarrow> nat \<Rightarrow> bool \<Rightarrow> btns \<Rightarrow> bool \<times> nat \<times> btns \<Rightarrow> bool" where
  "path_entered tt xs p found s = (\<lambda>(found', n, s').
     trie_ok s' \<and> grown s s' \<and> at_path (cores s') p xs n \<and>
     (\<forall>m. m \<ge> length s \<longrightarrow> cores s' m \<noteq> None \<longrightarrow>
        (\<exists>q y. cores s' m = Some (fresh_btn tt y q)) \<and> (\<exists>k \<le> length xs. at_path (cores s') p (take k xs) m)) \<and>
     (\<forall>m. parent_at (cores s) m = None \<longrightarrow> m < length s \<longrightarrow> nts s' m = nts s m) \<and>
     (tables_used s \<longrightarrow> tables_used s') \<and>
     (if length s' = length s then found' = found
      else \<not> found' \<and> n \<ge> length s \<and> kids_at s' n = Some (Chain [])))"

lemma entered_grown: "entered tt x p found s (f, n, s') \<Longrightarrow> grown s s'"
  by (auto simp: entered_def grown_def split: if_splits)

lemma entered_at: "entered tt x p found s (f, n, s') \<Longrightarrow> parent_at (cores s') n = Some p \<and> symbol_at (cores s') n = Some x"
  by (auto simp: entered_def hits_def parent_at_def symbol_at_def split: if_splits)

lemma entered_tables:
  assumes e: "entered tt x p found s (f, n, s')" and u: "tables_used s"
  shows "tables_used s'"
  unfolding tables_used_def
proof (intro allI impI)
  fix q h assume q: "kids_at s' q = Some (Hashed h)"
  show "\<exists>m. parent_at (cores s') m = Some q"
  proof (cases "q = p")
    case True
    then show ?thesis using entered_at [OF e] by blast
  next
    case False
    have "q \<noteq> length s" using e q by (auto simp: entered_def view_def deref_dangling split: if_splits)
    then have "kids_at s q = Some (Hashed h)" using e q False by (simp add: entered_def)
    then obtain m where m: "parent_at (cores s) m = Some q" using u unfolding tables_used_def by blast
    then obtain b where "cores s m = Some b" by (cases "cores s m") (simp_all add: parent_at_def)
    then have "m < length s" by (rule view_less)
    then have "cores s' m = cores s m" using entered_grown [OF e] by (simp add: grown_def)
    then have "parent_at (cores s') m = Some q" using m by (simp add: parent_at_def)
    then show ?thesis by blast
  qed
qed

lemma insert_path_law:
  assumes "trie_ok s" "kids_at s p = Some k" "found \<or> k = Chain []" "decides L can" "\<forall>n \<in> L. cores s n \<noteq> None"
  shows "\<exists>r. insert_path can tt xs (found, p, s) = Inr r \<and> path_entered tt xs p found s r \<and>
    (counts_ok s \<longrightarrow> (\<forall>s. can s = Inr True) \<longrightarrow> counts_ok (snd (snd r)))"
  using assms
proof (induction xs arbitrary: p k found s)
  case Nil
  then show ?case by (auto simp: path_entered_def view_def deref_dangling)
next
  case (Cons x xs)
  from chk_ins_law [OF Cons.prems(1,2,4,5), of tt x found]
  obtain f n s1 where c: "chk_ins can tt x (found, p, s) = Inr (f, n, s1)" "entered tt x p found s (f, n, s1)"
    "counts_kept can found k s s1" by auto
  have ok1: "trie_ok s1" using c(2) by (simp add: entered_def)
  have g1: "grown s s1" by (rule entered_grown [OF c(2)])
  have at1: "parent_at (cores s1) n = Some p" "symbol_at (cores s1) n = Some x" using entered_at [OF c(2)] by simp_all
  have "kids_at s1 n \<noteq> None" using at1(1) kids_at_core [of s1 n] by (auto simp: parent_at_def)
  then obtain k1 where k1: "kids_at s1 n = Some k1" by blast
  have f1: "f \<or> k1 = Chain []"
  proof (cases "hits s p x = {}")
    case True
    then show ?thesis using c(2) k1 by (simp add: entered_def)
  next
    case False
    then have e: "f = found" "n \<in> hits s p x" "cores s1 = cores s" using c(2) by (simp_all add: entered_def)
    have "n \<in> set (kid_list k)" using trie_okD(3) [OF Cons.prems(1,2)] e(2) by (simp add: hits_def)
    then show ?thesis using Cons.prems(3) e(1) by auto
  qed
  have "\<forall>n \<in> L. cores s1 n \<noteq> None" using Cons.prems(5) entered_live [OF c(2)] by blast
  from Cons.IH [OF ok1 k1 f1 Cons.prems(4) this]
  obtain f2 n2 s2 where r: "insert_path can tt xs (f, n, s1) = Inr (f2, n2, s2)" "path_entered tt xs n f s1 (f2, n2, s2)"
    "counts_ok s1 \<longrightarrow> (\<forall>s. can s = Inr True) \<longrightarrow> counts_ok s2" by auto
  have g2: "grown s1 s2" and ok2: "trie_ok s2" using r(2) by (simp_all add: path_entered_def)
  have live: "n < length s1" using view_less [OF k1] .
  have at2: "parent_at (cores s2) n = Some p" "symbol_at (cores s2) n = Some x"
    using at1 g2 live by (simp_all add: grown_def parent_at_def symbol_at_def)
  have new: "(\<exists>q y. cores s2 m = Some (fresh_btn tt y q)) \<and> (\<exists>k \<le> length (x # xs). at_path (cores s2) p (take k (x # xs)) m)"
    if m: "m \<ge> length s" "cores s2 m \<noteq> None" for m
  proof (cases "m < length s1")
    case True
    then have "m = n" "cores s1 n = Some (fresh_btn tt x p)"
      using c(2) m(1) by (auto simp: entered_def split: if_splits)
    moreover have "at_path (cores s2) p (take 1 (x # xs)) n" using at2 by simp
    moreover have "1 \<le> length (x # xs)" by simp
    ultimately show ?thesis using g2 True unfolding grown_def by metis
  next
    case False
    then have "length s1 \<le> m" by simp
    with r(2) m(2) have "(\<exists>q y. cores s2 m = Some (fresh_btn tt y q)) \<and> (\<exists>k \<le> length xs. at_path (cores s2) n (take k xs) m)"
      by (simp add: path_entered_def)
    then obtain q y k where "cores s2 m = Some (fresh_btn tt y q)" "k \<le> length xs" "at_path (cores s2) n (take k xs) m" by blast
    moreover have "at_path (cores s2) p (take (Suc k) (x # xs)) m" using at2 calculation(3) by auto
    ultimately show ?thesis by (metis Suc_le_mono length_Cons)
  qed
  have nt: "nts s2 m = nts s m" if "parent_at (cores s) m = None" "m < length s" for m
  proof -
    have "nts s1 m = nts s m" using c(2) that by (simp add: entered_def)
    moreover have "parent_at (cores s1) m = None" using that g1 by (simp add: grown_def parent_at_def)
    moreover have "m < length s1" using that(2) g1 by (simp add: grown_def)
    ultimately show ?thesis using r(2) by (simp add: path_entered_def)
  qed
  have fin: "if length s2 = length s then f2 = found else \<not> f2 \<and> n2 \<ge> length s \<and> kids_at s2 n2 = Some (Chain [])"
  proof (cases "hits s p x = {}")
    case True
    then have e: "\<not> f" "n = length s" "length s1 = Suc (length s)" "kids_at s1 n = Some (Chain [])"
      using c(2) by (auto simp: entered_def)
    then have l: "length s2 \<noteq> length s" using g2 by (simp add: grown_def)
    show ?thesis
    proof (cases "length s2 = length s1")
      case True
      then have f2: "\<not> f2" using r(2) e(1) by (simp add: path_entered_def)
      have at: "at_path (cores s2) n xs n2" using r(2) by (simp add: path_entered_def)
      have pk: "parents_ok (cores s2)" using ok2 by (simp add: trie_ok_def)
      have "n2 \<ge> n" using at_path_above [OF pk at] by simp
      moreover have "n2 < length s2"
        using at_path_below [OF at] at2(1) by (cases "cores s2 n") (simp_all add: parent_at_def)
      ultimately have "n2 = n" using e True by simp
      then have "xs = []" using at_path_above [OF pk at] by auto
      then show ?thesis using r e by auto
    next
      case False
      then show ?thesis using r(2) g1 l by (auto simp: path_entered_def grown_def)
    qed
  next
    case False
    then have e: "f = found" "length s1 = length s" using c(2) by (simp_all add: entered_def)
    then show ?thesis using r(2) by (auto simp: path_entered_def split: if_splits)
  qed
  have cnt: "counts_ok s \<longrightarrow> (\<forall>s. can s = Inr True) \<longrightarrow> counts_ok s2"
    using c(3) r(3) Cons.prems(3) by (auto simp: counts_kept_def)
  have "tables_used s \<longrightarrow> tables_used s2" using entered_tables [OF c(2)] r(2) by (simp add: path_entered_def)
  then have "path_entered tt (x # xs) p found s (f2, n2, s2)"
    using r(2) grown_trans [OF g1 g2] at2 new nt fin by (auto simp: path_entered_def)
  then show ?case using c(1) r(1) cnt by auto
qed

end
