(* ===== verification/Trie_Words.thy ===== *)
theory Trie_Words imports Trie_Paths begin

text \<open>
  The word of a term is the list of the symbols that are entered for it. No word is the
  beginning of another one, so that a trie can mark its words by leaves.
\<close>

section \<open>The words of terms\<close>

function syms :: "venum \<Rightarrow> tterm list \<Rightarrow> tsym list \<times> venum" where
  "syms e [] = ([], e)"
| "syms e (t # pdl) =
    (fst (term_symbol e t) # fst (syms (fst (snd (term_symbol e t))) (snd (snd (term_symbol e t)) @ pdl)),
     snd (syms (fst (snd (term_symbol e t))) (snd (snd (term_symbol e t)) @ pdl)))"
  by pat_completeness auto
termination syms
  by (relation "measure (\<lambda>(_, pdl). sum_list (map term_weight pdl))")
    (use pushed_smaller in \<open>simp_all add: add_strict_right_mono\<close>)

definition word_of :: "nat \<Rightarrow> tterm list \<Rightarrow> tsym list" where
  "word_of sz ts = fst (syms (start_enum sz) ts)"

definition vars_of :: "nat \<Rightarrow> tterm list \<Rightarrow> nat list" where
  "vars_of sz ts = ve_trail (snd (syms (start_enum sz) ts))"

fun constant_symbol :: "tsym \<Rightarrow> bool" where
  "constant_symbol (SInt _) = True"
| "constant_symbol (SString _) = True"
| "constant_symbol (SFloat _) = True"
| "constant_symbol _ = False"

definition last_constant :: "bool \<Rightarrow> tsym list \<Rightarrow> bool" where
  "last_constant c xs = (if xs = [] then c else constant_symbol (last xs))"

lemma constant_tag_symbol: "constant_symbol (fst (term_symbol e t)) = constant_tag t"
  by (cases t) (simp_all add: EncodeNewTrieVar_def EncodeTrieVar_def EncodeNewTrieAttv_def)

lemma last_constant_Cons [simp]: "last_constant c (x # xs) = last_constant (constant_symbol x) xs"
  by (simp add: last_constant_def)

text \<open>The walk over a term enters its word.\<close>

lemma recvariant_no_ans_subsf_path:
  "recvariant_trie_no_ans_subsf tt pdl (c, e, st) =
     res_bind (insert_path (\<lambda>_. Inr True) tt (fst (syms e pdl)) st)
       (\<lambda>st. Inr (last_constant c (fst (syms e pdl)), snd (syms e pdl), st))"
proof (induction e pdl arbitrary: c st rule: syms.induct)
  case (2 e t pdl)
  then show ?case by (simp add: constant_tag_symbol res_bind_assoc)
qed (simp add: last_constant_def)

lemma syms_append:
  "syms e (ts @ us) = (fst (syms e ts) @ fst (syms (snd (syms e ts)) us), snd (syms (snd (syms e ts)) us))"
  by (induction e ts rule: syms.induct) simp_all

lemma insert_path_append:
  "insert_path can tt (xs @ ys) st = res_bind (insert_path can tt xs st) (insert_path can tt ys)"
  by (induction xs arbitrary: st) (simp_all add: res_bind_def split: sum.splits)

lemma last_constant_append [simp]: "last_constant c (xs @ ys) = last_constant (last_constant c xs) ys"
  by (simp add: last_constant_def)

lemma assert_args_path:
  "assert_args args (c, e, st) =
     res_bind (insert_path (\<lambda>_. Inr True) ASSERT_TRIE_TT (fst (syms e args)) st)
       (\<lambda>st. Inr (last_constant c (fst (syms e args)), snd (syms e args), st))"
proof (induction args arbitrary: c e st)
  case (Cons t args)
  then show ?case
    by (simp add: split_beta Let_def recvariant_no_ans_subsf_path res_bind_assoc syms_append
        insert_path_append constant_tag_symbol)
qed (simp add: last_constant_def)

section \<open>The limit on the size of interned terms\<close>

fun compounds :: "tterm \<Rightarrow> nat" where
  "compounds (TList h t) = Suc (compounds h + compounds t)"
| "compounds (TCs p args) = Suc (sum_list (map compounds args))"
| "compounds (TAttv v a) = compounds a"
| "compounds _ = 0"

lemma compounds_step:
  "compounds t = (if compound t then 1 else 0) + sum_list (map compounds (snd (snd (term_symbol e t))))"
  by (cases t) simp_all

text \<open>
  The check fails as soon as there are as many compound terms as \<open>MAX_TABLE_ANSWER_METRIC\<close>
  says, unless that is the number at which cyclic terms are looked for.
\<close>

definition too_many :: "nat \<times> nat \<Rightarrow> nat \<Rightarrow> bool" where
  "too_many flags n \<longleftrightarrow> snd flags \<noteq> fst flags \<and> snd flags \<le> n"

definition depth_state :: "nat \<times> nat \<Rightarrow> nat \<Rightarrow> nat \<times> nat" where
  "depth_state flags n = (n, if n < fst flags then min (fst flags) (snd flags) else snd flags)"

lemma check_depth_step:
  assumes "0 < fst flags" "\<not> too_many flags n"
  shows "check_trie_intern_depth flags (depth_state flags n) =
    (if too_many flags (Suc n) then Inl (Table_Error ''Exceeded max trie_intern size'')
     else Inr (depth_state flags (Suc n)))"
  using assms by (auto simp: check_trie_intern_depth_def too_many_def depth_state_def split: prod.splits)

lemma recvariant_intern_path:
  assumes "0 < fst flags" "\<not> too_many flags (k + sum_list (map compounds pdl))"
  shows "recvariant_trie_intern flags can pdl (depth_state flags k, c, e, st) =
     res_bind (insert_path can INTERN_TRIE_TT (fst (syms e pdl)) st)
       (\<lambda>st. Inr (last_constant c (fst (syms e pdl)), snd (syms e pdl), st))"
  using assms(2)
proof (induction e pdl arbitrary: k c st rule: syms.induct)
  case (2 e t pdl)
  let ?pdl = "snd (snd (term_symbol e t)) @ pdl"
  let ?k = "if compound t then Suc k else k"
  have sum: "?k + sum_list (map compounds ?pdl) = k + sum_list (map compounds (t # pdl))"
    using compounds_step [of t e] by simp
  have less: "\<not> too_many flags n" if "n \<le> k + sum_list (map compounds (t # pdl))" for n
    using "2.prems" that unfolding too_many_def by (meson order_trans)
  have "?k \<le> k + sum_list (map compounds (t # pdl))" using compounds_step [of t e] by simp
  then have ok: "\<not> too_many flags ?k" "\<not> too_many flags k" using less by simp_all
  have check: "(if compound t then check_trie_intern_depth flags (depth_state flags k) else Inr (depth_state flags k)) =
      Inr (depth_state flags ?k)"
    using check_depth_step [OF assms(1) ok(2)] ok(1) by auto
  have "\<not> too_many flags (?k + sum_list (map compounds ?pdl))" using "2.prems" unfolding sum .
  note IH = "2.IH" [OF this]
  show ?case
    unfolding recvariant_trie_intern.simps check res_bind_simps
    by (simp only: IH syms.simps insert_path.simps fst_conv snd_conv last_constant_Cons constant_tag_symbol res_bind_assoc)
qed (simp add: last_constant_def)

section \<open>Words are not beginnings of other words\<close>

text \<open>How many terms a symbol makes necessary, and how many are still missing after a path.\<close>

fun need :: "tsym \<Rightarrow> nat" where
  "need (SStruct p n) = n"
| "need SList = 2"
| "need (STrieVar v) = (if IsNewTrieAttv v then 1 else 0)"
| "need _ = 0"

fun missing :: "nat \<Rightarrow> tsym list \<Rightarrow> nat" where
  "missing k [] = k"
| "missing k (x # w) = missing (k - 1 + need x) w"

fun fits :: "nat \<Rightarrow> tsym list \<Rightarrow> bool" where
  "fits k [] = True"
| "fits k (x # w) = (0 < k \<and> fits (k - 1 + need x) w)"

lemma fits_append: "fits k (u @ v) \<longleftrightarrow> fits k u \<and> fits (missing k u) v"
  by (induction u arbitrary: k) auto

lemma missing_append: "missing k (u @ v) = missing (missing k u) v"
  by (induction u arbitrary: k) auto

lemma fits_take: "fits k w \<Longrightarrow> fits k (take i w)"
  using fits_append [of k "take i w" "drop i w"] by simp

text \<open>Before its end a word is not complete.\<close>

lemma fits_missing_take: "fits k w \<Longrightarrow> i < length w \<Longrightarrow> 0 < missing k (take i w)"
proof (induction w arbitrary: k i)
  case (Cons x w)
  then show ?case by (cases i) auto
qed simp

text \<open>The numbers of variables must not run into the bits that mark new variables.\<close>

definition few_vars :: "venum \<Rightarrow> bool" where
  "few_vars e \<longleftrightarrow> length (ve_trail e) \<le> 0x10000"

lemma or_bits_small:
  fixes i :: nat
  assumes "i < 0x10000"
  shows "bit (or i 0x20000) 17" "\<not> bit (or i 0x10000) (17 :: nat)" "\<not> bit i (16 :: nat)" "\<not> bit i (17 :: nat)"
    "bit (or i 0x10000) 16" "\<not> bit (or i 0x20000) (16 :: nat)"
proof -
  have b: "\<not> bit i n" if "16 \<le> n" for n :: nat
  proof -
    have "(2 :: nat) ^ 16 \<le> 2 ^ n" using that by (rule power_increasing) simp
    then have "i < 2 ^ n" using assms by simp
    then show ?thesis by (simp add: bit_iff_odd)
  qed
  have e: "(0x20000 :: nat) = 2 ^ 17" "(0x10000 :: nat) = 2 ^ 16" by simp_all
  show "bit (or i 0x20000) 17" "\<not> bit (or i 0x10000) (17 :: nat)" "\<not> bit i (16 :: nat)" "\<not> bit i (17 :: nat)"
    "bit (or i 0x10000) 16" "\<not> bit (or i 0x20000) (16 :: nat)"
    unfolding e using b by (simp_all add: bit_or_iff bit_exp_iff bit_0)
qed

lemma takeWhile_shorter: "v \<in> set us \<Longrightarrow> length (takeWhile (\<lambda>u. u \<noteq> v) us) < length us"
  by (induction us) auto

lemma need_symbol:
  assumes "length (ve_trail (fst (snd (term_symbol e t)))) \<le> 0x10000" "length (ve_trail e) \<le> 0x10000"
    "ve_base e \<le> length (ve_trail e)"
  shows "need (fst (term_symbol e t)) = length (snd (snd (term_symbol e t)))"
proof (cases t)
  case (TVar v)
  show ?thesis
  proof (cases "IsStandardizedVariable v e")
    case True
    have "length (takeWhile (\<lambda>u. u \<noteq> v) (drop (ve_base e) (ve_trail e))) < length (drop (ve_base e) (ve_trail e))"
      using True unfolding IsStandardizedVariable_def by (intro takeWhile_shorter)
    then have "IndexOfStdVar v e < 0x10000" using assms(2,3) by (simp add: IndexOfStdVar_def)
    then show ?thesis using True TVar or_bits_small by (simp add: EncodeTrieVar_def IsNewTrieAttv_def)
  next
    case False
    then have "length (ve_trail e) < 0x10000" using assms(1) TVar by (simp add: StandardizeAndTrailVariable_def split: if_splits)
    then show ?thesis using False TVar or_bits_small by (simp add: EncodeNewTrieVar_def IsNewTrieAttv_def)
  qed
next
  case (TAttv v a)
  then have "length (ve_trail e) < 0x10000" using assms(1) by (simp add: StandardizeAndTrailVariable_def split: if_splits)
  then show ?thesis using TAttv or_bits_small by (simp add: EncodeNewTrieAttv_def IsNewTrieAttv_def)
qed simp_all

text \<open>Variables are only ever added at the end of the trail.\<close>

definition enum_ok :: "venum \<Rightarrow> bool" where
  "enum_ok e \<longleftrightarrow> ve_base e \<le> length (ve_trail e)"

lemma start_enum_ok [simp]: "enum_ok (start_enum sz)"
  by (simp add: enum_ok_def start_enum_def)

lemma standardize_ok: "enum_ok e \<Longrightarrow> enum_ok (StandardizeAndTrailVariable v e)"
  "ve_trail (StandardizeAndTrailVariable v e) = ve_trail e @ [v]"
  by (simp_all add: enum_ok_def StandardizeAndTrailVariable_def)

lemma term_symbol_enum:
  "(enum_ok e \<longrightarrow> enum_ok (fst (snd (term_symbol e t)))) \<and>
   length (ve_trail e) \<le> length (ve_trail (fst (snd (term_symbol e t))))"
  by (cases t) (simp_all add: standardize_ok)

lemma syms_enum:
  "(enum_ok e \<longrightarrow> enum_ok (snd (syms e ts))) \<and> length (ve_trail e) \<le> length (ve_trail (snd (syms e ts)))"
proof (induction e ts rule: syms.induct)
  case (2 e t pdl)
  then show ?case using term_symbol_enum [of e t] by auto
qed simp

lemma syms_fits:
  assumes "enum_ok e" "few_vars (snd (syms e ts))"
  shows "fits (length ts + j) (fst (syms e ts)) \<and> missing (length ts + j) (fst (syms e ts)) = j"
  using assms
proof (induction e ts rule: syms.induct)
  case (2 e t pdl)
  let ?e = "fst (snd (term_symbol e t))"
  let ?args = "snd (snd (term_symbol e t))"
  have e: "enum_ok ?e" using term_symbol_enum "2.prems"(1) by blast
  have few: "few_vars (snd (syms ?e (?args @ pdl)))" using "2.prems"(2) by simp
  then have "length (ve_trail ?e) \<le> 0x10000"
    using syms_enum [of ?e "?args @ pdl"] unfolding few_vars_def by linarith
  moreover have "length (ve_trail e) \<le> length (ve_trail ?e)" using term_symbol_enum by blast
  ultimately have "need (fst (term_symbol e t)) = length ?args"
    using need_symbol [of e t] "2.prems"(1) by (simp add: enum_ok_def)
  then show ?case using "2.IH" [OF e few] by (simp add: ac_simps)
qed simp

corollary word_fits:
  assumes "length (vars_of sz ts) \<le> 0x10000"
  shows "fits (length ts) (word_of sz ts)" "missing (length ts) (word_of sz ts) = 0"
  using syms_fits [of "start_enum sz" ts 0] assms by (simp_all add: word_of_def vars_of_def few_vars_def)

section \<open>Tries with leaves\<close>

definition is_leaf_node :: "(nat \<Rightarrow> btn option) \<Rightarrow> nat \<Rightarrow> bool" where
  "is_leaf_node C n \<longleftrightarrow> (case C n of None \<Rightarrow> False | Some b \<Rightarrow> IsLeafNode b)"

definition is_deleted_node :: "(nat \<Rightarrow> btn option) \<Rightarrow> nat \<Rightarrow> bool" where
  "is_deleted_node C n \<longleftrightarrow> (case C n of None \<Rightarrow> False | Some b \<Rightarrow> IsDeletedNode b)"

definition is_root :: "(nat \<Rightarrow> btn option) \<Rightarrow> nat \<Rightarrow> bool" where
  "is_root C n \<longleftrightarrow> (case C n of None \<Rightarrow> False | Some b \<Rightarrow> bt_nodetype b = TRIE_ROOT_NT)"

text \<open>
  The trie with root \<open>r\<close>, whose words are sequences of \<open>k\<close> terms: a node is a leaf when the path to it
  is complete. Only leaves are deleted.
\<close>

definition trie_at :: "btns \<Rightarrow> nat \<Rightarrow> nat \<Rightarrow> bool" where
  "trie_at s r k \<longleftrightarrow>
     trie_ok s \<and> nts s r = Some TRIE_ROOT_NT \<and> parent_at (cores s) r = None \<and>
     (\<forall>w n. w \<noteq> [] \<longrightarrow> at_path (cores s) r w n \<longrightarrow>
        fits k w \<and> (is_leaf_node (cores s) n \<longleftrightarrow> missing k w = 0) \<and> (is_deleted_node (cores s) n \<longrightarrow> is_leaf_node (cores s) n) \<and>
        \<not> is_root (cores s) n)"

definition leaf_at :: "btns \<Rightarrow> nat \<Rightarrow> tsym list \<Rightarrow> nat \<Rightarrow> bool" where
  "leaf_at s r w n \<longleftrightarrow> w \<noteq> [] \<and> at_path (cores s) r w n \<and> is_leaf_node (cores s) n"

text \<open>Every branch of the trie comes to a leaf.\<close>

definition childless :: "btns \<Rightarrow> nat \<Rightarrow> bool" where
  "childless s m \<longleftrightarrow> (\<forall>x. parent_at (cores s) x \<noteq> Some m)"

definition no_dead_ends :: "btns \<Rightarrow> nat \<Rightarrow> bool" where
  "no_dead_ends s r \<longleftrightarrow> (\<forall>v m. v \<noteq> [] \<longrightarrow> at_path (cores s) r v m \<longrightarrow> is_leaf_node (cores s) m \<or> \<not> childless s m)"

text \<open>
  A functor has an instruction for structures, or one that fails with the old one kept in the status:
  the instruction is what tells it from an interned structure.
\<close>

definition struct_code :: "btn \<Rightarrow> bool" where
  "struct_code b \<longleftrightarrow> (\<forall>p k. bt_symbol b = SStruct p k \<longrightarrow> op_class (bt_instr b) \<in> {0x60, 0x7c, 0x90} \<and>
     (bt_status b = VALID_NODE_STATUS \<or> op_class (bt_status b) \<in> {0x60, 0x7c, 0x90}))"

definition struct_codes :: "btns \<Rightarrow> bool" where
  "struct_codes s \<longleftrightarrow> (\<forall>m b. cores s m = Some b \<longrightarrow> struct_code b)"

text \<open>The words of a trie: those of its leaves that are not deleted.\<close>

definition words :: "btns \<Rightarrow> nat \<Rightarrow> tsym list set" where
  "words s r = {w. \<exists>n. leaf_at s r w n \<and> \<not> is_deleted_node (cores s) n}"

lemma leaf_at_unique: "trie_ok s \<Longrightarrow> leaf_at s r w m \<Longrightarrow> leaf_at s r w n \<Longrightarrow> m = n"
  using at_path_unique trie_ok_differ unfolding leaf_at_def by blast

lemma struct_code_core [simp]: "struct_code (core b) = struct_code b"
  by (simp add: struct_code_def core_def)

lemma struct_code_fresh [simp]: "struct_code (fresh_btn tt x p)"
  by (simp add: struct_code_def fresh_btn_def try_instr_def op_class_def split: tsym.split)

lemma leaf_core [simp]: "IsLeafNode (core b) = IsLeafNode b"
  by (simp add: IsLeafNode_def core_def bit_iff_odd)

lemma deleted_core [simp]: "IsDeletedNode (core b) = IsDeletedNode b"
  by (simp add: IsDeletedNode_def)

lemma leaf_fresh [simp]: "\<not> IsLeafNode (fresh_btn tt x p)" "\<not> IsDeletedNode (fresh_btn tt x p)"
  by (simp_all add: IsLeafNode_def fresh_btn_def IsDeletedNode_def)

lemma leaf_make [simp]: "IsLeafNode (MakeLeafNode b)"
  by (simp add: IsLeafNode_def MakeLeafNode_def bit_or_iff) (simp add: bit_iff_odd)

lemma root_fresh [simp]: "bt_nodetype (fresh_btn tt x p) = 0"
  by (simp add: fresh_btn_def)

lemma root_make: "core b = fresh_btn tt x p \<Longrightarrow> bt_nodetype (core (MakeLeafNode b)) \<noteq> TRIE_ROOT_NT"
proof -
  assume "core b = fresh_btn tt x p"
  then have "bt_nodetype (core b) = 0" by simp
  then have "bt_nodetype b div 2 = 0" by (simp add: core_def)
  then have "bt_nodetype b = 0 \<or> bt_nodetype b = 1" by linarith
  moreover have "or (1 :: nat) 2 = 3" by (simp add: or_nat_unfold)
  ultimately show ?thesis by (auto simp: core_def MakeLeafNode_def)
qed

lemma root_nt: "nts s n = Some TRIE_ROOT_NT \<Longrightarrow> is_root (cores s) n"
  by (auto simp: is_root_def view_Some view_deref core_def)

text \<open>A complete path is not the beginning of another one.\<close>

lemma complete_leaf:
  assumes "trie_at s r k" "at_path (cores s) r w n" "w \<noteq> []" "missing k w = 0"
  shows "is_leaf_node (cores s) n" "parent_at (cores s) m \<noteq> Some n"
proof -
  show "is_leaf_node (cores s) n" using assms by (simp add: trie_at_def)
  show "parent_at (cores s) m \<noteq> Some n"
  proof
    assume m: "parent_at (cores s) m = Some n"
    then obtain x where "symbol_at (cores s) m = Some x"
      by (cases "cores s m") (auto simp: parent_at_def symbol_at_def)
    then have "at_path (cores s) r (w @ [x]) m" using assms(2) m by (auto simp: at_path_last)
    then have "fits k (w @ [x])" using assms(1) unfolding trie_at_def by blast
    then show False using assms(4) by (simp add: fits_append)
  qed
qed

section \<open>Changing what a node is marked with\<close>

lemma trie_ok_relabel:
  assumes "\<And>m. parent_at (cores s') m = parent_at (cores s) m" "\<And>m. symbol_at (cores s') m = symbol_at (cores s) m"
    "\<And>m. cores s' m = None \<longleftrightarrow> cores s m = None" "cps s' = cps s" "kids_at s' = kids_at s" "trie_ok s"
  shows "trie_ok s'"
proof -
  have "kids_ok (cores s') (cps s') p k" if "kids_at s' p = Some k" for p k
  proof (rule kids_ok_cong [of _ _ "cores s" _ "cps s"])
    show "kids_ok (cores s) (cps s) p k" using assms(5,6) that by (simp add: trie_ok_def)
  qed (simp_all add: assms)
  moreover have "parents_ok (cores s')"
    using assms(6) by (simp add: trie_ok_def parents_ok_def assms(1,3))
  ultimately show ?thesis by (simp add: trie_ok_def)
qed

lemma at_path_relabel:
  assumes "\<And>m. parent_at C' m = parent_at C m" "\<And>m. symbol_at C' m = symbol_at C m"
  shows "at_path C' p w n = at_path C p w n"
  by (induction w arbitrary: p) (simp_all add: assms)

lemma relabel_upd:
  assumes "\<And>b. bt_parent (f b) = bt_parent b" "\<And>b. bt_symbol (f b) = bt_symbol b"
  shows "parent_at (cores (upd_obj n f s)) m = parent_at (cores s) m"
    "symbol_at (cores (upd_obj n f s)) m = symbol_at (cores s) m"
    "cores (upd_obj n f s) m = None \<longleftrightarrow> cores s m = None"
  by (auto simp: view_upd parent_at_def symbol_at_def view_def assms split: sum.splits)

text \<open>All that can be changed by a mark on the node \<open>n\<close>.\<close>

definition relabeled :: "nat \<Rightarrow> btns \<Rightarrow> btns \<Rightarrow> bool" where
  "relabeled n s s' \<longleftrightarrow>
     (\<forall>m. parent_at (cores s') m = parent_at (cores s) m \<and> symbol_at (cores s') m = symbol_at (cores s) m) \<and>
     (\<forall>m. m \<noteq> n \<longrightarrow> cores s' m = cores s m \<and> nts s' m = nts s m) \<and> length s' = length s \<and> kids_at s' = kids_at s"

lemma relabeled_refl [simp]: "relabeled n s s"
  by (simp add: relabeled_def)

lemma relabeled_trans: "relabeled n s s' \<Longrightarrow> relabeled n s' s'' \<Longrightarrow> relabeled n s s''"
  by (simp add: relabeled_def)

lemma relabeled_upd:
  assumes "\<And>b. bt_parent (f b) = bt_parent b" "\<And>b. bt_symbol (f b) = bt_symbol b" "\<And>b. bt_child (f b) = bt_child b"
  shows "relabeled n s (upd_obj n f s)"
  using relabel_upd(1,2) [of f, OF assms(1,2)] by (simp add: relabeled_def view_upd view_upd_same assms(3))

lemma relabeled_tables: "relabeled n s s' \<Longrightarrow> tables_used s' = tables_used s"
  by (simp add: relabeled_def tables_used_def)

end
