(* ===== verification/Trie_Laws.thy ===== *)
theory Trie_Laws imports Trie_Words begin

text \<open>
  What entering a term does to the words of a trie.
\<close>

section \<open>Looking at the choice points\<close>

lemma root_of_ok:
  "parents_ok (cores s) \<Longrightarrow> cores s n \<noteq> None \<Longrightarrow> n < fuel \<Longrightarrow> \<exists>r. root_of fuel s n = Inr r"
proof (induction fuel arbitrary: n)
  case (Suc fuel)
  then obtain b where b: "deref s n = Inr b" by (auto simp: view_None) (metis sum.exhaust)
  show ?case
  proof (cases "bt_parent b")
    case (Some p)
    then have "parent_at (cores s) n = Some p" by (simp add: parent_at_def view_deref [OF b])
    then have "p < n" "cores s p \<noteq> None" using Suc.prems(1) by (auto simp: parents_ok_def)
    then have "\<exists>r. root_of fuel s p = Inr r" using Suc by simp
    then show ?thesis using b Some by auto
  qed (use b in auto)
qed simp

lemma cps_check_ok:
  "parents_ok (cores s) \<Longrightarrow> \<forall>n \<in> set ns. cores s n \<noteq> None \<Longrightarrow> \<exists>c. interned_trie_cps_check ns root s = Inr c"
proof (induction ns)
  case (Cons n ns)
  then have live: "cores s n \<noteq> None" by simp
  then obtain b where b: "deref s n = Inr b" by (auto simp: view_None) (metis sum.exhaust)
  from root_of_ok [OF Cons.prems(1) live] deref_less [OF b]
  obtain r where "root_of (length s) s n = Inr r" by blast
  then show ?case using b Cons by simp
qed simp

lemma may_expand_decides: "decides (set ns) (may_expand c e ns root)"
  unfolding decides_def
proof (intro allI impI)
  fix s assume "parents_ok (cores s)" "\<forall>n \<in> set ns. cores s n \<noteq> None"
  from cps_check_ok [OF this, of root] show "\<not> isl (may_expand c e ns root s)"
    by (auto simp: may_expand_def)
qed

section \<open>Marking a leaf\<close>

abbreviation mark_leaf :: "bool \<Rightarrow> btn \<Rightarrow> btn" where
  "mark_leaf c b \<equiv> TN_UpgradeInstrTypeToSUCCESS c (MakeLeafNode b)"

lemma mark_leaf_simps [simp]:
  "bt_parent (mark_leaf c b) = bt_parent b" "bt_symbol (mark_leaf c b) = bt_symbol b"
  "bt_child (mark_leaf c b) = bt_child b" "cp_type (bt_instr (mark_leaf c b)) = cp_type (bt_instr b)"
  "IsLeafNode (mark_leaf c b)" "bt_status (mark_leaf c b) = bt_status b" "bt_trietype (mark_leaf c b) = bt_trietype b"
proof -
  show "IsLeafNode (mark_leaf c b)"
    using leaf_make [of b] by (simp add: TN_UpgradeInstrTypeToSUCCESS_def IsLeafNode_def)
qed (simp_all add: TN_UpgradeInstrTypeToSUCCESS_def MakeLeafNode_def cp_type_def)

lemma relabel_ok:
  assumes "\<And>b. bt_parent (f b) = bt_parent b" "\<And>b. bt_symbol (f b) = bt_symbol b" "\<And>b. bt_child (f b) = bt_child b"
    "\<And>b. cp_type (bt_instr (f b)) = cp_type (bt_instr b)" "trie_ok s"
  shows "trie_ok (upd_obj n f s)"
proof -
  note r = relabel_upd [of f, OF assms(1,2)]
  show ?thesis
    by (rule trie_ok_relabel [OF r]) (use assms in \<open>simp_all add: view_upd_same\<close>)
qed

section \<open>Entering a word\<close>

lemma enter_word:
  fixes c :: bool
  assumes t: "trie_at s r k" and w: "fits k w" "missing k w = 0" "w \<noteq> []"
    and e: "path_entered tt w r True s (f, n, s1)"
  defines "s2 \<equiv> if \<not> f then upd_obj n (mark_leaf c) s1 else s1"
  shows "trie_at s2 r k" "leaf_at s2 r w n" "f \<longleftrightarrow> (\<exists>m. leaf_at s r w m)"
    "v \<noteq> w \<Longrightarrow> leaf_at s2 r v m \<longleftrightarrow> leaf_at s r v m" "m < length s \<Longrightarrow> cores s2 m = cores s m"
    "\<not> f \<Longrightarrow> length s \<le> n \<and> \<not> is_deleted_node (cores s2) n" "length s2 = length s1" "kids_at s2 = kids_at s1"
    "m \<ge> length s \<Longrightarrow> cores s2 m = Some b \<Longrightarrow> \<exists>j \<le> length w. at_path (cores s2) r (take j w) m"
    "leaf_at s r v m \<Longrightarrow> m < length s" "leaf_at s r w m \<Longrightarrow> m = n"
proof -
  have ok: "trie_ok s" "nts s r = Some TRIE_ROOT_NT" "parent_at (cores s) r = None" using t by (simp_all add: trie_at_def)
  have inv: "fits k v \<and> (is_leaf_node (cores s) m \<longleftrightarrow> missing k v = 0) \<and> (is_deleted_node (cores s) m \<longrightarrow> is_leaf_node (cores s) m) \<and>
      \<not> is_root (cores s) m"
    if "v \<noteq> []" "at_path (cores s) r v m" for v m using t that unfolding trie_at_def by blast
  have ok1: "trie_ok s1" and g: "grown s s1" and n: "at_path (cores s1) r w n"
    and new: "\<And>m. m \<ge> length s \<Longrightarrow> cores s1 m \<noteq> None \<Longrightarrow>
      (\<exists>q y. cores s1 m = Some (fresh_btn tt y q)) \<and> (\<exists>j \<le> length w. at_path (cores s1) r (take j w) m)"
    and nt: "\<And>m. parent_at (cores s) m = None \<Longrightarrow> m < length s \<Longrightarrow> nts s1 m = nts s m"
    using e by (simp_all add: path_entered_def)
  have po: "parents_ok (cores s1)" using ok1 by (simp add: trie_ok_def)
  have rl: "r < length s" using view_less [OF ok(2)] .
  have gw: "f \<longleftrightarrow> length s1 = length s" "\<not> f \<Longrightarrow> length s \<le> n"
    using e by (auto simp: path_entered_def split: if_splits)
  have s2: "s2 = s1" if f using that by (simp add: s2_def)
  have f_same: "cores s1 = cores s" if f using grown_same [OF g] gw(1) that by simp
  have rel: "parent_at (cores s2) m = parent_at (cores s1) m" "symbol_at (cores s2) m = symbol_at (cores s1) m"
    "cores s2 m = None \<longleftrightarrow> cores s1 m = None" for m
    using relabel_upd [of "mark_leaf c" n s1 m] by (auto simp: s2_def)
  have path: "at_path (cores s2) p v m = at_path (cores s1) p v m" for p v m by (rule at_path_relabel) (rule rel)+
  have lv: "cores s1 n \<noteq> None" by (rule at_path_live [OF n w(3)])
  have n2: "cores s2 n = Some (core (mark_leaf c b))" if "deref s1 n = Inr b" "\<not> f" for b
    using that by (simp add: s2_def view_upd view_deref)
  have m2: "cores s2 m = cores s1 m" if "m \<noteq> n" for m using that by (simp add: s2_def view_upd)
  have ok2: "trie_ok s2"
    unfolding s2_def using ok1 relabel_ok [of "mark_leaf c" s1 n] by simp
  have new_leaf: "is_leaf_node (cores s2) n" "\<not> is_deleted_node (cores s2) n" "\<not> is_root (cores s2) n" if "\<not> f"
  proof -
    obtain b where b: "deref s1 n = Inr b" using lv by (cases "deref s1 n") (auto simp: view_def)
    then show "is_leaf_node (cores s2) n" using n2 [OF b that] by (simp add: is_leaf_node_def)
    from new [OF gw(2) [OF that] lv] obtain y q where bf: "core b = fresh_btn tt y q" using b by (auto simp: view_deref)
    then have "\<not> IsDeletedNode b" by (metis deleted_core leaf_fresh(2))
    then show "\<not> is_deleted_node (cores s2) n" using n2 [OF b that] by (simp add: is_deleted_node_def IsDeletedNode_def)
    have "bt_nodetype (core (mark_leaf c b)) = bt_nodetype (core (MakeLeafNode b))"
      by (simp add: TN_UpgradeInstrTypeToSUCCESS_def core_def)
    then show "\<not> is_root (cores s2) n" using n2 [OF b that] root_make [OF bf] by (simp add: is_root_def)
  qed
  have old: "at_path (cores s) r v m" "cores s2 m = cores s m" if "at_path (cores s1) r v m" "m < length s" for v m
  proof -
    show "at_path (cores s) r v m" using grown_path_old [OF g po that] .
    have "m \<noteq> n" if "\<not> f" using gw(2) that \<open>m < length s\<close> by auto
    then show "cores s2 m = cores s m" using m2 s2 f_same g that(2) by (cases f) (auto simp: grown_def)
  qed
  have fresh_path: "\<exists>j \<le> length w. v = take j w \<and> (m = n \<longleftrightarrow> v = w) \<and> (m \<noteq> n \<longrightarrow> \<not> is_leaf_node (cores s2) m \<and> \<not> is_deleted_node (cores s2) m \<and> \<not> is_root (cores s2) m)"
    if v: "at_path (cores s1) r v m" "\<not> m < length s" for v m
  proof -
    have vr: "v \<noteq> []" using v rl by auto
    have "cores s1 m \<noteq> None" by (rule at_path_live [OF v(1) vr])
    from new [OF _ this] v(2) obtain q y j where j: "cores s1 m = Some (fresh_btn tt y q)" "j \<le> length w" "at_path (cores s1) r (take j w) m"
      by auto
    have "v = take j w" using at_path_word [OF po v(1) j(3)] .
    moreover have "m = n \<longleftrightarrow> v = w"
      using at_path_word [OF po v(1)] n at_path_unique [OF trie_ok_differ [OF ok1], of r w m n] v(1) by blast
    moreover have "\<not> is_leaf_node (cores s2) m \<and> \<not> is_deleted_node (cores s2) m \<and> \<not> is_root (cores s2) m" if "m \<noteq> n"
      using m2 [OF that] j(1) by (simp add: is_leaf_node_def is_deleted_node_def is_root_def)
    ultimately show ?thesis using j(2) by blast
  qed
  show tr: "trie_at s2 r k"
    unfolding trie_at_def
  proof (intro conjI allI impI)
    show "trie_ok s2" by (rule ok2)
    have "r \<noteq> n" using n w(3) at_path_above [OF po n] by auto
    then show "nts s2 r = Some TRIE_ROOT_NT" using nt [OF ok(3) rl] ok(2) by (simp add: s2_def view_upd)
    have "parent_at (cores s1) r = parent_at (cores s) r" using g rl by (simp add: parent_at_def grown_def)
    then show "parent_at (cores s2) r = None" using ok(3) rel(1) by simp
    fix v m assume v: "v \<noteq> []" "at_path (cores s2) r v m"
    then have v1: "at_path (cores s1) r v m" by (simp add: path)
    have "fits k v \<and> (is_leaf_node (cores s2) m \<longleftrightarrow> missing k v = 0) \<and> (is_deleted_node (cores s2) m \<longrightarrow> is_leaf_node (cores s2) m) \<and>
      \<not> is_root (cores s2) m"
    proof (cases "m < length s")
      case True
      have "is_leaf_node (cores s2) m = is_leaf_node (cores s) m" "is_deleted_node (cores s2) m = is_deleted_node (cores s) m"
        "is_root (cores s2) m = is_root (cores s) m"
        using old(2) [OF v1 True] by (simp_all add: is_leaf_node_def is_deleted_node_def is_root_def)
      then show ?thesis using inv [OF v(1) old(1) [OF v1 True]] by auto
    next
      case False
      from fresh_path [OF v1 this] obtain j where j: "j \<le> length w" "v = take j w" "m = n \<longleftrightarrow> v = w"
        "m \<noteq> n \<longrightarrow> \<not> is_leaf_node (cores s2) m \<and> \<not> is_deleted_node (cores s2) m \<and> \<not> is_root (cores s2) m" by blast
      show ?thesis
      proof (cases "m = n")
        case True
        then have "\<not> f" using False f_same gw(1) lv view_less [of core s1 n] by auto
        then show ?thesis using True j(3) w new_leaf by simp
      next
        case neq: False
        then have "j < length w" using j by (cases "j = length w") auto
        then show ?thesis using j neq fits_take [OF w(1)] fits_missing_take [OF w(1)] by simp
      qed
    qed
    then show "fits k v" "is_leaf_node (cores s2) m \<longleftrightarrow> missing k v = 0" "is_deleted_node (cores s2) m \<Longrightarrow> is_leaf_node (cores s2) m"
      "\<not> is_root (cores s2) m" by blast+
  qed
  have n_path: "at_path (cores s2) r w n" using n by (simp add: path)
  then show l2: "leaf_at s2 r w n" using w tr unfolding leaf_at_def trie_at_def by blast
  show "f \<longleftrightarrow> (\<exists>m. leaf_at s r w m)"
  proof
    assume f
    then show "\<exists>m. leaf_at s r w m" using l2 f_same s2 by (auto simp: leaf_at_def)
  next
    assume "\<exists>m. leaf_at s r w m"
    then obtain m where m: "at_path (cores s) r w m" by (auto simp: leaf_at_def)
    have "cores s r \<noteq> None" using rl ok(2) by (auto simp: view_Some view_None)
    then have "m < length s" using at_path_below [OF m] by simp
    moreover have "m = n" using at_path_unique [OF trie_ok_differ [OF ok1] grown_path [OF g m] n] .
    ultimately show f using gw(2) by auto
  qed
  have live: "cores s r \<noteq> None" using rl ok(2) by (auto simp: view_Some view_None)
  show "m < length s" if "leaf_at s r v m" using at_path_below [OF _ live] that unfolding leaf_at_def by blast
  show "m = n" if "leaf_at s r w m"
    using at_path_unique [OF trie_ok_differ [OF ok1] grown_path [OF g] n] that unfolding leaf_at_def by blast
  show "leaf_at s2 r v m \<longleftrightarrow> leaf_at s r v m" if "v \<noteq> w"
  proof
    assume l: "leaf_at s2 r v m"
    then have v1: "v \<noteq> []" "at_path (cores s1) r v m" "is_leaf_node (cores s2) m" by (simp_all add: leaf_at_def path)
    have "m < length s"
    proof (rule ccontr)
      assume "\<not> m < length s"
      from fresh_path [OF v1(2) this] that v1(3) show False by blast
    qed
    then show "leaf_at s r v m" using old [OF v1(2)] v1 by (simp add: leaf_at_def is_leaf_node_def)
  next
    assume l: "leaf_at s r v m"
    then have v: "v \<noteq> []" "at_path (cores s) r v m" "is_leaf_node (cores s) m" by (simp_all add: leaf_at_def)
    have v1: "at_path (cores s1) r v m" by (rule grown_path [OF g v(2)])
    have "cores s r \<noteq> None" using rl ok(2) by (auto simp: view_Some view_None)
    then have "m < length s" using at_path_below [OF v(2)] by simp
    then show "leaf_at s2 r v m" using old(2) [OF v1] v v1 by (simp add: leaf_at_def path is_leaf_node_def)
  qed
  show "cores s2 m = cores s m" if "m < length s"
  proof -
    have "m \<noteq> n" if "\<not> f" using gw(2) that \<open>m < length s\<close> by auto
    then show ?thesis using m2 s2 f_same g that by (cases f) (auto simp: grown_def)
  qed
  show "length s \<le> n \<and> \<not> is_deleted_node (cores s2) n" if "\<not> f" using gw(2) new_leaf that by simp
  show "length s2 = length s1" "kids_at s2 = kids_at s1" by (simp_all add: s2_def view_upd_same)
  show "\<exists>j \<le> length w. at_path (cores s2) r (take j w) m" if "m \<ge> length s" "cores s2 m = Some b"
    using new [OF that(1)] that(2) rel(3) [of m] by (auto simp: path)
qed

lemma at_path_prefix:
  assumes "symbols_differ C" "at_path C r w n" "at_path C r (take j w) m" "j < length w"
  shows "\<exists>q. parent_at C q = Some m"
proof -
  have "at_path C r (take j w @ drop j w) n" using assms(2) by simp
  then obtain p where p: "at_path C r (take j w) p" "at_path C p (drop j w) n" unfolding at_path_append by blast
  have "p = m" by (rule at_path_unique [OF assms(1) p(1) assms(3)])
  moreover obtain y ys where "drop j w = y # ys" using assms(4) by (cases "drop j w") auto
  ultimately show ?thesis using p(2) by auto
qed

lemma enter_word_ends:
  fixes c :: bool
  assumes t: "trie_at s r k" and w: "fits k w" "missing k w = 0" "w \<noteq> []"
    and e: "path_entered tt w r True s (f, n, s1)" and d: "no_dead_ends s r"
  defines "s2 \<equiv> if \<not> f then upd_obj n (mark_leaf c) s1 else s1"
  shows "no_dead_ends s2 r"
  unfolding no_dead_ends_def
proof (intro allI impI)
  note en = enter_word(1,2,5,7,9) [where c = c, OF t w e, folded s2_def]
  have ok: "symbols_differ (cores s2)" "trie_ok s2" using en(1) by (simp_all add: trie_at_def trie_ok_differ)
  have n: "at_path (cores s2) r w n" "is_leaf_node (cores s2) n" using en(2) by (simp_all add: leaf_at_def)
  have po: "parents_ok (cores s2)" using ok(2) by (simp add: trie_ok_def)
  have g: "grown s s2" using e en(3,4) by (simp add: grown_def path_entered_def)
  fix v m assume v: "v \<noteq> []" "at_path (cores s2) r v m"
  have "cores s2 m \<noteq> None" by (rule at_path_live [OF v(2,1)])
  then obtain b where b: "cores s2 m = Some b" by blast
  show "is_leaf_node (cores s2) m \<or> \<not> childless s2 m"
  proof (cases "m < length s")
    case True
    have same: "is_leaf_node (cores s2) m = is_leaf_node (cores s) m" using en(3) [OF True] by (simp add: is_leaf_node_def)
    have "at_path (cores s) r v m" by (rule grown_path_old [OF g po v(2) True])
    then have "is_leaf_node (cores s) m \<or> \<not> childless s m" using d v(1) unfolding no_dead_ends_def by blast
    then show ?thesis
    proof
      assume "\<not> childless s m"
      then obtain x where x: "parent_at (cores s) x = Some m" by (auto simp: childless_def)
      then obtain b where "cores s x = Some b" by (cases "cores s x") (simp_all add: parent_at_def)
      then have "x < length s" by (rule view_less)
      then have "parent_at (cores s2) x = Some m" using x en(3) by (simp add: parent_at_def)
      then show ?thesis unfolding childless_def by blast
    qed (simp add: same)
  next
    case False
    then obtain j where j: "j \<le> length w" "at_path (cores s2) r (take j w) m" using en(5) [OF _ b] by auto
    show ?thesis
    proof (cases "j = length w")
      case True
      then have "m = n" using j(2) n(1) at_path_unique [OF ok(1)] by simp
      then show ?thesis using n(2) by simp
    next
      case neq: False
      then have "\<exists>q. parent_at (cores s2) q = Some m" using at_path_prefix [OF ok(1) n(1) j(2)] j(1) by simp
      then show ?thesis unfolding childless_def by blast
    qed
  qed
qed

lemma struct_code_mark:
  assumes "core b = fresh_btn tt y q" "c \<longrightarrow> constant_symbol (bt_symbol b)"
  shows "struct_code (mark_leaf c b)"
proof -
  have "struct_code (core b)" using assms(1) by simp
  then have "struct_code b" by simp
  then show ?thesis
    using assms(2) unfolding struct_code_def mark_leaf_simps(2,6)
    by (auto simp: TN_UpgradeInstrTypeToSUCCESS_def MakeLeafNode_def)
qed

lemma enter_word_codes:
  fixes c :: bool
  assumes t: "trie_at s r k" and w: "fits k w" "missing k w = 0" "w \<noteq> []"
    and e: "path_entered tt w r True s (f, n, s1)" and d: "struct_codes s" and c: "c \<longrightarrow> constant_symbol (last w)"
  defines "s2 \<equiv> if \<not> f then upd_obj n (mark_leaf c) s1 else s1"
  shows "struct_codes s2"
  unfolding struct_codes_def
proof (intro allI impI)
  note en = enter_word(5,6) [where c = c, OF t w e, folded s2_def]
  have n: "at_path (cores s1) r w n"
    and new: "\<And>m. m \<ge> length s \<Longrightarrow> cores s1 m \<noteq> None \<Longrightarrow> \<exists>q y. cores s1 m = Some (fresh_btn tt y q)"
    using e by (simp_all add: path_entered_def)
  fix m b assume b: "cores s2 m = Some b"
  show "struct_code b"
  proof (cases "m < length s")
    case True
    then show ?thesis using en(1) b d by (simp add: struct_codes_def)
  next
    case False
    show ?thesis
    proof (cases "m = n \<and> \<not> f")
      case True
      then obtain b' where b': "deref s1 n = Inr b'" "b = core (mark_leaf c b')"
        using b by (auto simp: s2_def view_upd view_Some)
      then obtain q y where fr: "core b' = fresh_btn tt y q" using new [of n] False True by (auto simp: view_deref)
      have "symbol_at (cores s1) n = Some (last w)"
        using n w(3) at_path_last [of "cores s1" r "butlast w" "last w" n] by auto
      then have "bt_symbol b' = last w" by (simp add: symbol_at_def view_deref [OF b'(1)])
      then show ?thesis using struct_code_mark [OF fr] c b'(2) by simp
    next
      case other: False
      then have "cores s2 m = cores s1 m" by (auto simp: s2_def view_upd)
      then have "cores s1 m = Some b" using b by simp
      then obtain q y where "b = fresh_btn tt y q" using new [of m] False by auto
      then show ?thesis by simp
    qed
  qed
qed

section \<open>Marking nodes as deleted\<close>

text \<open>A change to a leaf that keeps its place in the trie.\<close>

lemma remark:
  assumes f: "\<And>b. bt_parent (f b) = bt_parent b" "\<And>b. bt_symbol (f b) = bt_symbol b" "\<And>b. bt_child (f b) = bt_child b"
    "\<And>b. cp_type (bt_instr (f b)) = cp_type (bt_instr b)" "\<And>b. bt_nodetype (f b) = bt_nodetype b"
    and t: "trie_at s r k" and n: "leaf_at s r w n"
  defines "s2 \<equiv> upd_obj n f s"
  shows "trie_at s2 r k" "leaf_at s2 r v m \<longleftrightarrow> leaf_at s r v m" "m \<noteq> n \<Longrightarrow> cores s2 m = cores s m"
    "length s2 = length s" "kids_at s2 = kids_at s" "at_path (cores s2) p v m \<longleftrightarrow> at_path (cores s) p v m"
proof -
  note r = relabel_upd [of f, OF f(1,2)]
  have path: "at_path (cores s2) p v m \<longleftrightarrow> at_path (cores s) p v m" for p v m
    unfolding s2_def by (rule at_path_relabel) (rule r)+
  then show "at_path (cores s2) p v m \<longleftrightarrow> at_path (cores s) p v m" .
  have same: "cores s2 m = cores s m" if "m \<noteq> n" for m using that by (simp add: s2_def view_upd)
  then show "m \<noteq> n \<Longrightarrow> cores s2 m = cores s m" .
  have "IsLeafNode (f b) = IsLeafNode b" for b by (simp add: IsLeafNode_def f(5))
  then have leaf: "is_leaf_node (cores s2) m = is_leaf_node (cores s) m" for m
    by (simp add: s2_def is_leaf_node_def view_upd view_def split: sum.splits)
  have rt: "is_root (cores s2) m = is_root (cores s) m" for m
    by (simp add: s2_def is_root_def view_upd view_def core_def f(5) split: sum.splits)
  show "leaf_at s2 r v m \<longleftrightarrow> leaf_at s r v m" by (simp add: leaf_at_def path leaf)
  show "length s2 = length s" by (simp add: s2_def)
  show "kids_at s2 = kids_at s" by (simp add: s2_def view_upd_same f(3))
  have ok: "trie_ok s2" unfolding s2_def using t by (intro relabel_ok f) (simp add: trie_at_def)
  have nt: "nts s2 r = Some TRIE_ROOT_NT" using t by (simp add: s2_def view_upd_same f(5) trie_at_def)
  have pa: "parent_at (cores s2) r = None" unfolding s2_def r(1) using t by (simp add: trie_at_def)
  have del: "is_leaf_node (cores s) m" if "is_deleted_node (cores s2) m" "at_path (cores s) r v m" "v \<noteq> []" for v m
  proof (cases "m = n")
    case True
    then show ?thesis using n by (simp add: leaf_at_def)
  next
    case False
    then have "is_deleted_node (cores s) m" using that(1) same by (simp add: is_deleted_node_def)
    then show ?thesis using t that(2,3) unfolding trie_at_def by blast
  qed
  show "trie_at s2 r k"
    unfolding trie_at_def path leaf rt using ok nt pa del t unfolding trie_at_def by blast
qed

lemma deleted_words:
  assumes "trie_at s r k" "leaf_at s r w n" "\<And>v m. leaf_at s2 r v m = leaf_at s r v m" "\<And>m. m \<noteq> n \<Longrightarrow> cores s2 m = cores s m"
    "trie_ok s2"
  shows "words s2 r = (if is_deleted_node (cores s2) n then words s r - {w} else insert w (words s r))"
proof -
  have eq: "v \<in> words s2 r \<longleftrightarrow> (if v = w then \<not> is_deleted_node (cores s2) n else v \<in> words s r)" for v
  proof (cases "v = w")
    case True
    have "leaf_at s2 r w m \<longleftrightarrow> m = n" for m
      using leaf_at_unique [OF assms(5), of r w n m] assms(2,3) by blast
    then show ?thesis using True by (simp add: words_def)
  next
    case False
    have "is_deleted_node (cores s2) m = is_deleted_node (cores s) m" if "leaf_at s r v m" for m
    proof -
      have "m \<noteq> n"
      proof
        assume "m = n"
        then have "at_path (cores s) r v n" "at_path (cores s) r w n" using that assms(2) by (simp_all add: leaf_at_def)
        then have "v = w" using at_path_word assms(1) unfolding trie_at_def trie_ok_def by blast
        then show False using False by simp
      qed
      then show ?thesis using assms(4) by (simp add: is_deleted_node_def)
    qed
    then show ?thesis using False assms(3) unfolding words_def by auto
  qed
  show ?thesis
  proof (rule set_eqI)
    fix v show "v \<in> words s2 r \<longleftrightarrow> v \<in> (if is_deleted_node (cores s2) n then words s r - {w} else insert w (words s r))"
      using eq [of v] by auto
  qed
qed

lemma leaf_deref: "leaf_at s r w n \<Longrightarrow> \<exists>b. deref s n = Inr b"
  by (cases "deref s n") (auto simp: leaf_at_def is_leaf_node_def view_def)

lemma cp_type_split [simp]: "cp_type (cp_type i + op_class j) = cp_type i" "op_class (cp_type i + op_class j) = op_class j"
  by (simp_all add: cp_type_def op_class_def)

lemma cp_type_fail [simp]: "cp_type (cp_type i + 0x90) = cp_type i" "op_class (cp_type i + 0x90) = 0x90"
  using cp_type_split [of i "0x90"] by (simp_all add: op_class_def)

lemma undeleted_simps [simp]:
  "bt_parent (undeleted_node b) = bt_parent b" "bt_symbol (undeleted_node b) = bt_symbol b" "bt_child (undeleted_node b) = bt_child b"
  "cp_type (bt_instr (undeleted_node b)) = cp_type (bt_instr b)" "bt_nodetype (undeleted_node b) = bt_nodetype b"
  "\<not> IsDeletedNode (undeleted_node b)"
  by (simp_all add: undeleted_node_def IsDeletedNode_def)

lemma undelete_law:
  assumes t: "trie_at s r k" and n: "leaf_at s r w n"
  shows "\<exists>s'. undelete_branch n s = Inr s' \<and> trie_at s' r k \<and> (\<forall>v m. leaf_at s' r v m \<longleftrightarrow> leaf_at s r v m) \<and>
    (\<forall>m. m \<noteq> n \<longrightarrow> cores s' m = cores s m) \<and> \<not> is_deleted_node (cores s') n \<and> words s' r = insert w (words s r) \<and>
    length s' = length s \<and> kids_at s' = kids_at s"
proof -
  from leaf_deref [OF n] obtain b where b: "deref s n = Inr b" by blast
  show ?thesis
  proof (cases "IsDeletedNode b")
    case True
    let ?s = "upd_obj n undeleted_node s"
    note m = remark [of undeleted_node, OF undeleted_simps(1-5) t n]
    have d: "\<not> is_deleted_node (cores ?s) n"
      by (simp add: is_deleted_node_def view_upd view_deref [OF b] del: core_simps)
    have "words ?s r = insert w (words s r)"
      using deleted_words [OF t n m(2,3)] m(1) d by (simp add: trie_at_def)
    then show ?thesis using b True m d by (auto simp: undelete_branch_def undeleted_node_def)
  next
    case False
    then have d: "\<not> is_deleted_node (cores s) n" by (simp add: is_deleted_node_def view_deref [OF b])
    then have "w \<in> words s r" using n by (auto simp: words_def)
    then show ?thesis using b False t d by (auto simp: undelete_branch_def)
  qed
qed

lemma undeleted_relabeled: "undelete_branch n s = Inr s' \<Longrightarrow> relabeled n s s'"
proof -
  assume "undelete_branch n s = Inr s'"
  then consider "s' = upd_obj n undeleted_node s" | "s' = s"
    by (auto simp: undelete_branch_def res_bind_def split: sum.splits if_splits)
  then show ?thesis using relabeled_upd [of undeleted_node, OF undeleted_simps(1-3)] by cases simp_all
qed

lemma undeleted_ends:
  assumes "undelete_branch n s = Inr s'" "no_dead_ends s r"
  shows "no_dead_ends s' r"
proof -
  consider "s' = upd_obj n undeleted_node s" | "s' = s"
    using assms(1) by (auto simp: undelete_branch_def res_bind_def split: sum.splits if_splits)
  then show ?thesis
  proof cases
    case 1
    note r = relabel_upd [of undeleted_node, OF undeleted_simps(1,2), of n s]
    have "IsLeafNode (undeleted_node b) = IsLeafNode b" for b by (simp add: IsLeafNode_def)
    then have "is_leaf_node (cores s') m = is_leaf_node (cores s) m" for m
      unfolding 1 by (simp add: is_leaf_node_def view_upd view_def split: sum.splits)
    moreover have "at_path (cores s') p v m = at_path (cores s) p v m" for p v m
      unfolding 1 by (rule at_path_relabel) (rule r)+
    ultimately show ?thesis using assms(2) unfolding no_dead_ends_def childless_def 1 r by simp
  qed (use assms(2) in simp)
qed

lemma struct_code_undeleted: "struct_code b \<Longrightarrow> IsDeletedNode b \<Longrightarrow> struct_code (undeleted_node b)"
  by (auto simp: struct_code_def undeleted_node_def IsDeletedNode_def)

lemma undeleted_codes:
  assumes "undelete_branch n s = Inr s'" "struct_codes s"
  shows "struct_codes s'"
proof (cases "s' = s")
  case False
  then obtain b where b: "deref s n = Inr b" "IsDeletedNode b" "s' = upd_obj n undeleted_node s"
    using assms(1) by (auto simp: undelete_branch_def res_bind_def split: sum.splits if_splits)
  have "struct_code (core b)" using assms(2) view_deref [OF b(1), of core] unfolding struct_codes_def by blast
  then have "struct_code (undeleted_node b)" using struct_code_undeleted b(2) by simp
  then show ?thesis using assms(2) by (auto simp: struct_codes_def b(3) view_upd view_deref [OF b(1)])
qed (use assms(2) in simp)

lemma failing_simps [simp]:
  "bt_parent (failing b) = bt_parent b" "bt_symbol (failing b) = bt_symbol b" "bt_child (failing b) = bt_child b"
  "cp_type (bt_instr (failing b)) = cp_type (bt_instr b)" "bt_nodetype (failing b) = bt_nodetype b"
  "IsDeletedNode (failing b) \<longleftrightarrow> bt_instr b \<noteq> 0"
  by (simp_all add: failing_def IsDeletedNode_def)

lemma safe_delete_law:
  assumes t: "trie_at s r k" and n: "leaf_at s r w n" and i: "\<And>b. deref s n = Inr b \<Longrightarrow> bt_instr b \<noteq> 0"
  shows "\<exists>s'. safe_delete_branch n s = Inr s' \<and> trie_at s' r k \<and> (\<forall>v m. leaf_at s' r v m \<longleftrightarrow> leaf_at s r v m) \<and>
    (\<forall>m. m \<noteq> n \<longrightarrow> cores s' m = cores s m) \<and> words s' r = words s r - {w} \<and>
    length s' = length s \<and> kids_at s' = kids_at s"
proof -
  from leaf_deref [OF n] obtain b where b: "deref s n = Inr b" by blast
  let ?s = "upd_obj n failing s"
  note m = remark [of failing, OF failing_simps(1-5) t n]
  have d: "is_deleted_node (cores ?s) n"
    using i [OF b] by (simp add: is_deleted_node_def view_upd view_deref [OF b])
  have "words ?s r = words s r - {w}"
    using deleted_words [OF t n m(2,3)] m(1) d by (simp add: trie_at_def)
  then show ?thesis using b m by (auto simp: safe_delete_branch_def failing_def)
qed

lemma failed_relabeled: "safe_delete_branch n s = Inr s' \<Longrightarrow> relabeled n s s'"
  using relabeled_upd [of failing, OF failing_simps(1-3)]
  by (auto simp: safe_delete_branch_def res_bind_def split: sum.splits)

text \<open>A leaf that was not deleted is as before when it is marked and taken back.\<close>

lemma undelete_failing:
  assumes b: "deref s n = Inr b" and i: "bt_instr b \<noteq> 0" and v: "\<not> is_deleted_node (cores s) n"
    and d: "safe_delete_branch n s = Inr s'"
  shows "undelete_branch n s' = Inr s"
proof -
  have v: "bt_status b = VALID_NODE_STATUS" using v by (simp add: is_deleted_node_def view_deref [OF b] IsDeletedNode_def)
  have e: "s' = upd_obj n failing s" using d b by (simp add: safe_delete_branch_def)
  have fb: "deref s' n = Inr (failing b)" "IsDeletedNode (failing b)" using b i by (simp_all add: e deref_upd_obj)
  have "cp_type (bt_instr b) + op_class (bt_instr b) = bt_instr b" using cp_op [of "bt_instr b"] by simp
  then have "undeleted_node (failing b) = b" using v by (simp add: undeleted_node_def failing_def)
  moreover have "s ! n = Some b" "n < length s" using b by (auto simp: deref_def split: if_splits option.splits)
  ultimately have "upd_obj n undeleted_node s' = s" unfolding e by (simp add: upd_obj_def) (metis list_update_id)
  then show ?thesis using fb by (simp add: undelete_branch_def)
qed

end
