(* ===== verification/Trie_Entering.thy ===== *)
theory Trie_Entering imports Trie_Laws begin

text \<open>
  The operations on whole tries: a new trie, a term that is interned, a fact that is asserted.
\<close>

section \<open>A new trie\<close>

lemma newBasicTrie_eq: "newBasicTrie x tt s = (length s, s @ [Some \<lparr>bt_instr = trie_root, bt_status = VALID_NODE_STATUS,
    bt_trietype = tt, bt_nodetype = TRIE_ROOT_NT, bt_symbol = x, bt_parent = None, bt_child = Chain []\<rparr>])"
  by (simp add: newBasicTrie_def new_btn_def)

lemma at_path_no_kids: "(\<And>m. parent_at C m \<noteq> Some p) \<Longrightarrow> at_path C p w n \<longleftrightarrow> w = [] \<and> n = p"
  by (cases w) auto

lemma newBasicTrie_law:
  assumes ok: "trie_ok s"
  shows "\<exists>s'. newBasicTrie x tt s = (length s, s') \<and> trie_at s' (length s) k \<and> words s' (length s) = {} \<and>
    grown s s' \<and> length s' = Suc (length s) \<and> (\<forall>m. m < length s \<longrightarrow> nts s' m = nts s m \<and> kids_at s' m = kids_at s m) \<and>
    kids_at s' (length s) = Some (Chain [])"
proof -
  let ?r = "length s"
  let ?b = "\<lparr>bt_instr = trie_root, bt_status = VALID_NODE_STATUS, bt_trietype = tt, bt_nodetype = TRIE_ROOT_NT,
    bt_symbol = x, bt_parent = None, bt_child = Chain []\<rparr>"
  let ?s = "s @ [Some ?b]"
  have co: "cores ?s = (cores s)(?r := Some (core ?b))" by (simp add: view_new)
  have pa: "parent_at (cores ?s) m = parent_at (cores s) m" for m
    by (simp add: co parent_at_def not_live core_def)
  have po: "parents_ok (cores s)" using ok by (simp add: trie_ok_def)
  have no: "parent_at (cores s) m \<noteq> Some ?r" for m
  proof
    assume "parent_at (cores s) m = Some ?r"
    then have "cores s ?r \<noteq> None" using po unfolding parents_ok_def by blast
    then show False by (simp add: not_live)
  qed
  have ok': "trie_ok ?s"
  proof (rule trie_ok_local [OF ok, where p = ?r and k' = "Chain []"])
    show "parents_ok (cores ?s)"
      unfolding parents_ok_def pa using po by (auto simp: parents_ok_def co)
    show "kids_ok (cores ?s) (cps ?s) ?r (Chain [])" using no by (simp add: kids_ok_def pa)
    show "kids_at ?s ?r = Some (Chain [])" by (simp add: view_new)
    show "symbol_at (cores ?s) m = symbol_at (cores s) m \<and> cps ?s m = cps s m"
      if "q \<noteq> ?r" "parent_at (cores s) m = Some q" for q m
    proof -
      have "m \<noteq> ?r" using that(2) by (auto simp: parent_at_def not_live)
      then show ?thesis by (simp add: symbol_at_def view_new)
    qed
  qed (use pa in \<open>simp_all, auto simp: view_new split: if_splits\<close>)
  have path: "at_path (cores ?s) ?r w n \<longleftrightarrow> w = [] \<and> n = ?r" for w n
    by (rule at_path_no_kids) (simp add: pa no)
  have "nts ?s ?r = Some TRIE_ROOT_NT" by (simp add: view_new)
  moreover have "parent_at (cores ?s) ?r = None" unfolding pa by (simp add: parent_at_def not_live)
  ultimately have "trie_at ?s ?r k" using ok' unfolding trie_at_def path by simp
  moreover have "words ?s ?r = {}" by (simp add: words_def leaf_at_def path)
  moreover have "grown s ?s" by (simp add: grown_def co)
  ultimately show ?thesis by (simp add: newBasicTrie_eq view_new)
qed

text \<open>A trie stays as it is when other tries grow.\<close>

lemma trie_at_elsewhere:
  assumes t: "trie_at s r k" and ok: "trie_ok s'" and g: "length s \<le> length s'" "\<And>m. m < length s \<Longrightarrow> m \<notin> M \<Longrightarrow> cores s' m = cores s m"
    and nt: "nts s' r = nts s r" and new: "\<And>m w. length s \<le> m \<or> m \<in> M \<Longrightarrow> \<not> at_path (cores s') r w m"
    "\<And>m w. m \<in> M \<Longrightarrow> \<not> at_path (cores s) r w m"
    and par: "\<And>m. m < length s \<Longrightarrow> parent_at (cores s') m = parent_at (cores s) m"
      "\<And>m. m < length s \<Longrightarrow> symbol_at (cores s') m = symbol_at (cores s) m"
  shows "trie_at s' r k" "words s' r = words s r" "leaf_at s' r w n = leaf_at s r w n"
proof -
  have po: "parents_ok (cores s')" using ok by (simp add: trie_ok_def)
  have live: "cores s r \<noteq> None" using t by (auto simp: trie_at_def view_Some view_None)
  have path: "at_path (cores s') p w n \<longleftrightarrow> at_path (cores s) p w n" if "n < length s" for p w n
    using that
  proof (induction w arbitrary: n rule: rev_induct)
    case (snoc x w)
    have "m < length s" if "parent_at (cores s) n = Some m" for m
      using t that snoc.prems by (fastforce simp: trie_at_def trie_ok_def parents_ok_def)
    then show ?case using snoc par by (auto simp: at_path_last)
  qed simp
  have path': "at_path (cores s') r w n \<longleftrightarrow> at_path (cores s) r w n" for w n
  proof (cases "n < length s")
    case False
    then have "\<not> at_path (cores s) r w n" using at_path_below [of s r w n] live by auto
    then show ?thesis using new(1) [of n w] False by simp
  qed (simp add: path)
  have same: "cores s' n = cores s n" if "at_path (cores s) r w n" for w n
  proof -
    have "n \<notin> M" using new(2) that by blast
    then show ?thesis using g(2) at_path_below [OF that live] by blast
  qed
  have leaf: "is_leaf_node (cores s') n = is_leaf_node (cores s) n" "is_deleted_node (cores s') n = is_deleted_node (cores s) n"
    "is_root (cores s') n = is_root (cores s) n"
    if "at_path (cores s) r w n" for w n
    using same [OF that] by (simp_all add: is_leaf_node_def is_deleted_node_def is_root_def)
  have rl: "r < length s" using live by (metis view_less option.exhaust)
  have "parent_at (cores s') r = None" using par(1) [OF rl] t by (simp add: trie_at_def)
  then show "trie_at s' r k"
    using t ok nt leaf unfolding trie_at_def path' by auto
  show "leaf_at s' r w n = leaf_at s r w n" using leaf by (auto simp: leaf_at_def path')
  have "w \<in> words s' r \<longleftrightarrow> w \<in> words s r" for w
    using leaf unfolding words_def leaf_at_def mem_Collect_eq path' by blast
  then show "words s' r = words s r" by blast
qed

text \<open>What an operation on the trie with root \<open>r\<close> does to the other tries: nothing.\<close>

definition elsewhere :: "nat \<Rightarrow> btns \<Rightarrow> btns \<Rightarrow> bool" where
  "elsewhere r s s' \<longleftrightarrow> (\<forall>q k. q \<noteq> r \<longrightarrow> trie_at s q k \<longrightarrow>
     trie_at s' q k \<and> words s' q = words s q \<and> (\<forall>v m. leaf_at s' q v m = leaf_at s q v m))"

lemma elsewhere_refl [simp]: "elsewhere r s s"
  by (simp add: elsewhere_def)

lemma elsewhere_frame:
  assumes r: "parent_at (cores s) r = None" "r < length s" and ok: "trie_ok s'" and len: "length s \<le> length s'"
    and par: "\<And>m. m < length s \<Longrightarrow> parent_at (cores s') m = parent_at (cores s) m \<and> symbol_at (cores s') m = symbol_at (cores s) m"
    and co: "\<And>m. m < length s \<Longrightarrow> m \<noteq> n \<Longrightarrow> cores s' m = cores s m" and n: "at_path (cores s') r w n"
    and new: "\<And>m. length s \<le> m \<Longrightarrow> cores s' m \<noteq> None \<Longrightarrow> \<exists>v. at_path (cores s') r v m"
    and nt: "\<And>q. q < length s \<Longrightarrow> parent_at (cores s) q = None \<Longrightarrow> q \<noteq> r \<Longrightarrow> nts s' q = nts s q"
  shows "elsewhere r s s'"
  unfolding elsewhere_def
proof (intro allI impI)
  fix q k assume q: "q \<noteq> r" "trie_at s q k"
  then have root: "parent_at (cores s) q = None" "q < length s" using view_less by (auto simp: trie_at_def)
  have up: "parent_at (cores s') q = None" "parent_at (cores s') r = None" using root r par by simp_all
  have apart: False if "at_path (cores s') q v m" "at_path (cores s') r u m" for v u m
    using root_unique [OF that up] q(1) by simp
  have new': "\<not> at_path (cores s') q v m" if m: "length s \<le> m \<or> m \<in> {n}" for v m
  proof
    assume v: "at_path (cores s') q v m"
    show False
    proof (cases "m = n")
      case False
      then have "length s \<le> m" using m by simp
      moreover have "v \<noteq> []" using v root(2) calculation by auto
      ultimately show False using new at_path_live [OF v] apart v by blast
    qed (use apart v n in blast)
  qed
  have old: "\<not> at_path (cores s) q v m" if m: "m \<in> {n}" for v m
  proof
    assume v: "at_path (cores s) q v m"
    have live: "cores s q \<noteq> None" using q(2) by (auto simp: trie_at_def view_Some view_None)
    have po: "parents_ok (cores s)" using q(2) by (simp add: trie_at_def trie_ok_def)
    have "at_path (cores s') q v m" if "at_path (cores s) q v m" "m < length s" for v m
      using that
    proof (induction v arbitrary: m rule: rev_induct)
      case (snoc x v)
      then obtain p where p: "at_path (cores s) q v p" "parent_at (cores s) m = Some p" "symbol_at (cores s) m = Some x"
        by (auto simp: at_path_last)
      then have "p < length s" using po snoc.prems(2) unfolding parents_ok_def by fastforce
      then show ?case using snoc.IH p par [OF snoc.prems(2)] by (auto simp: at_path_last)
    qed simp
    then have "at_path (cores s') q v m" using v at_path_below [OF v live] by blast
    then show False using new' m by blast
  qed
  note same = trie_at_elsewhere [OF q(2) ok len, of "{n}"]
  have c: "cores s' m = cores s m" if "m < length s" "m \<notin> {n}" for m using co that by simp
  have nq: "nts s' q = nts s q" using nt root q(1) by simp
  have p1: "parent_at (cores s') m = parent_at (cores s) m" if "m < length s" for m using par that by simp
  have p2: "symbol_at (cores s') m = symbol_at (cores s) m" if "m < length s" for m using par that by simp
  show "trie_at s' q k \<and> words s' q = words s q \<and> (\<forall>v m. leaf_at s' q v m = leaf_at s q v m)"
    using same(1-3) [OF c nq new' old p1 p2] by blast
qed

text \<open>A mark on a node of a trie.\<close>

lemma relabeled_elsewhere:
  assumes rl: "relabeled n s s'" and ok: "trie_ok s'" and t: "trie_at s r k" and n: "at_path (cores s) r w n"
  shows "elsewhere r s s'"
proof (rule elsewhere_frame [OF _ _ ok])
  have path: "at_path (cores s') r v m = at_path (cores s) r v m" for v m
    using rl by (intro at_path_relabel) (simp_all add: relabeled_def)
  show "parent_at (cores s) r = None" "r < length s" using t view_less by (auto simp: trie_at_def)
  show "at_path (cores s') r w n" using n by (simp add: path)
  show "length s \<le> length s'" using rl by (simp add: relabeled_def)
  show "nts s' q = nts s q" if "parent_at (cores s) q = None" "q \<noteq> r" for q
  proof (cases "q = n")
    case True
    then show ?thesis using root_unique [OF n, of q "[]"] that t by (simp add: trie_at_def)
  qed (use rl in \<open>simp add: relabeled_def\<close>)
  show "\<exists>v. at_path (cores s') r v m" if "length s \<le> m" "cores s' m \<noteq> None" for m
    using that view_less [of core s' m] rl by (auto simp: relabeled_def)
qed (use rl in \<open>simp_all add: relabeled_def\<close>)

section \<open>Interning a term\<close>

definition intern_size :: "tterm \<Rightarrow> nat" where
  "intern_size t = sum_list (map compounds (snd (snd (term_symbol (start_enum 0) t))))"

lemma pushed_start: "snd (snd (term_symbol e t)) = snd (snd (term_symbol e' t))"
  by (cases t) simp_all

text \<open>What is known when a term was interned below the root \<open>r\<close>.\<close>

definition interned :: "tsym list \<Rightarrow> nat \<Rightarrow> btns \<Rightarrow> nat \<times> nat \<times> btns \<Rightarrow> bool" where
  "interned w r s = (\<lambda>(n, fl, s').
     trie_at s' r 1 \<and> leaf_at s' r w n \<and> words s' r = insert w (words s r) \<and>
     fl = (if w \<in> words s r then 1 else 0) \<and>
     (\<forall>v m. v \<noteq> w \<longrightarrow> leaf_at s' r v m = leaf_at s r v m) \<and> (\<forall>m. leaf_at s r w m \<longrightarrow> n = m) \<and>
     length s \<le> length s' \<and> (\<forall>m. m < length s \<longrightarrow> m \<noteq> n \<longrightarrow> cores s' m = cores s m) \<and>
     (no_dead_ends s r \<longrightarrow> no_dead_ends s' r) \<and> (struct_codes s \<longrightarrow> struct_codes s') \<and>
     (tables_used s \<longrightarrow> tables_used s') \<and> elsewhere r s s')"

lemma trie_intern_law:
  assumes t: "trie_at s r 1" and cps: "\<forall>n \<in> set ns. cores s n \<noteq> None"
    and few: "length (vars_of sz [u]) \<le> 0x10000" and fl: "0 < fst flags" "\<not> too_many flags (intern_size u)"
  shows "\<exists>res s'. trie_intern_chk_ins psc flags (c, e, ns) sz u (Some r) s = Inr (res, s') \<and> hook res = r \<and>
    trieinstr_vars res = vars_of sz [u] \<and> num_trievars res = ve_size (snd (syms (start_enum sz) [u])) \<and> interned (word_of sz [u]) r s (leaf res, flag res, s') \<and>
    (counts_ok s \<longrightarrow> (\<forall>s. may_expand c e ns r s = Inr True) \<longrightarrow> counts_ok s')"
proof -
  let ?w = "word_of sz [u]"
  let ?can = "may_expand c e ns r"
  obtain x en pdl where x: "term_symbol (start_enum sz) u = (x, en, pdl)" by (cases "term_symbol (start_enum sz) u") auto
  have w: "?w = x # fst (syms en pdl)" and v: "vars_of sz [u] = ve_trail (snd (syms en pdl))"
    by (simp_all add: word_of_def vars_of_def x)
  have wf: "fits 1 ?w" "missing 1 ?w = 0" "?w \<noteq> []"
    using word_fits [OF few] by (simp_all add: w)
  have z: "ve_size (snd (syms en pdl)) = ve_size (snd (syms (start_enum sz) [u]))" by (simp add: x)
  obtain k where k: "kids_at s r = Some k" using t by (auto simp: trie_at_def view_Some)
  have ok: "trie_ok s" using t by (simp add: trie_at_def)
  from insert_path_law [OF ok k _ may_expand_decides cps, where found = True and tt = INTERN_TRIE_TT and xs = ?w
    and c1 = c and e1 = e and root1 = r]
  obtain f n s1 where p: "insert_path ?can INTERN_TRIE_TT ?w (True, r, s) = Inr (f, n, s1)"
    "path_entered INTERN_TRIE_TT ?w r True s (f, n, s1)"
    "counts_ok s \<longrightarrow> (\<forall>s. ?can s = Inr True) \<longrightarrow> counts_ok s1" by auto
  have sum: "sum_list (map compounds pdl) = intern_size u"
    using pushed_start [of "start_enum sz" u "start_enum 0"] x by (simp add: intern_size_def)
  have run: "res_bind (chk_ins ?can INTERN_TRIE_TT x (True, r, s)) (\<lambda>st.
      recvariant_trie_intern flags ?can pdl ((0, min (fst flags) (snd flags)), constant_tag u, en, st)) =
    Inr (last_constant (constant_tag u) (fst (syms en pdl)), snd (syms en pdl), f, n, s1)"
  proof -
    have "(0, min (fst flags) (snd flags)) = depth_state flags 0" using fl(1) by (simp add: depth_state_def)
    moreover have "\<not> too_many flags (0 + sum_list (map compounds pdl))" using fl(2) sum by simp
    note recvariant_intern_path [OF fl(1) this]
    moreover obtain st where "chk_ins ?can INTERN_TRIE_TT x (True, r, s) = Inr st"
      "insert_path ?can INTERN_TRIE_TT (fst (syms en pdl)) st = Inr (f, n, s1)" using p(1) by (auto simp: w)
    ultimately show ?thesis by simp
  qed
  let ?c = "last_constant (constant_tag u) (fst (syms en pdl))"
  let ?s2 = "if \<not> f then upd_obj n (mark_leaf ?c) s1 else s1"
  note en = enter_word(1,2,4,5,6,7,8,9) [where c = ?c, OF t wf p(2)]
  note ex = enter_word(3,10,11) [OF t wf p(2)]
  have ok2: "trie_ok ?s2" using en(1) by (simp add: trie_at_def)
  from undelete_law [OF en(1,2)]
  obtain s3 where s3: "undelete_branch n ?s2 = Inr s3" "trie_at s3 r 1" "\<forall>v m. leaf_at s3 r v m = leaf_at ?s2 r v m"
    "\<forall>m. m \<noteq> n \<longrightarrow> cores s3 m = cores ?s2 m" "words s3 r = insert ?w (words ?s2 r)" "length s3 = length ?s2"
    "kids_at s3 = kids_at ?s2" by auto
  from leaf_deref [OF en(2)] obtain b where b: "deref ?s2 n = Inr b" by blast
  let ?res = "\<lparr>leaf = n, flag = (if f then 1 else 0), hook = r, trieinstr_vars = ve_trail (snd (syms en pdl)),
     num_trievars = ve_size (snd (syms en pdl))\<rparr>"
  let ?s4 = "if IsDeletedNode b then s3 else ?s2"
  let ?fl = "if IsDeletedNode b then 0 else if f then 1 else (0 :: nat)"
  have res: "trie_intern_chk_ins psc flags (c, e, ns) sz u (Some r) s = Inr (?res\<lparr>flag := ?fl\<rparr>, ?s4)"
  proof -
    obtain st where st: "chk_ins ?can INTERN_TRIE_TT x (True, r, s) = Inr st"
      "recvariant_trie_intern flags ?can pdl ((0, min (fst flags) (snd flags)), constant_tag u, en, st) =
        Inr (?c, snd (syms en pdl), f, n, s1)" using run by auto
    show ?thesis
      using b s3(1) by (simp add: trie_intern_chk_ins_def x st Let_def del: One_nat_def)
  qed
  have leaves: "leaf_at ?s4 r v m = leaf_at ?s2 r v m" for v m using s3(3) by simp
  have del: "is_deleted_node (cores ?s2) n = IsDeletedNode b" by (simp add: is_deleted_node_def view_deref [OF b])
  have known: "f \<longleftrightarrow> leaf_at s r ?w n" using ex(1,3) by blast
  have del_s: "is_deleted_node (cores s) n = IsDeletedNode b" if f
    using that known en(4) [OF ex(2)] del by (simp add: is_deleted_node_def)
  have new: "\<not> IsDeletedNode b" if "\<not> f" using en(5) [OF that] del by simp
  have w_s: "?w \<in> words s r \<longleftrightarrow> f \<and> \<not> IsDeletedNode b"
    using known del_s ex(3) unfolding words_def by blast
  have v_s: "v \<in> words ?s2 r \<longleftrightarrow> v \<in> words s r" if "v \<noteq> ?w" for v
  proof -
    have "is_deleted_node (cores ?s2) m = is_deleted_node (cores s) m" if "leaf_at s r v m" for m
      using en(4) [OF ex(2) [OF that]] by (simp add: is_deleted_node_def)
    then show ?thesis using en(3) [OF that] unfolding words_def by blast
  qed
  have ins: "insert ?w (words ?s2 r) = insert ?w (words s r)"
  proof (rule set_eqI)
    fix v show "v \<in> insert ?w (words ?s2 r) \<longleftrightarrow> v \<in> insert ?w (words s r)"
      using v_s [of v] by (cases "v = ?w") simp_all
  qed
  have words4: "words ?s4 r = insert ?w (words s r)"
  proof (cases "IsDeletedNode b")
    case True
    then have "words ?s4 r = insert ?w (words ?s2 r)" using s3(5) by simp
    then show ?thesis using ins by simp
  next
    case False
    then have "?w \<in> words ?s2 r" using en(2) del unfolding words_def by blast
    then have "words ?s2 r = insert ?w (words s r)" using ins by (simp only: insert_absorb)
    then show ?thesis using False by simp
  qed
  have co4: "cores ?s4 m = cores s m" if "m < length s" "m \<noteq> n" for m
    using en(4) [OF that(1)] s3(4) that(2) by simp
  have len: "length s \<le> length ?s4" using p(2) en(6) s3(6) by (simp add: path_entered_def grown_def)
  have ends: "no_dead_ends ?s4 r" if "no_dead_ends s r"
  proof -
    have "no_dead_ends ?s2 r" by (rule enter_word_ends [where c = ?c, OF t wf p(2) that])
    moreover have "no_dead_ends s3 r" if "no_dead_ends ?s2 r" using undeleted_ends [OF s3(1) that] .
    ultimately show ?thesis by simp
  qed
  have last: "?c = constant_symbol (last ?w)"
    using last_constant_Cons [of undefined x "fst (syms en pdl)"] constant_tag_symbol [of "start_enum sz" u] x w
    by (simp add: last_constant_def)
  have codes: "struct_codes ?s4" if "struct_codes s"
  proof -
    have "struct_codes ?s2" by (rule enter_word_codes [where c = ?c, OF t wf p(2) that]) (simp add: last)
    then show ?thesis using undeleted_codes [OF s3(1)] by simp
  qed
  have rl: "relabeled n s1 ?s4"
  proof -
    have a: "relabeled n s1 ?s2" using relabeled_upd [of "mark_leaf ?c" n s1] by simp
    show ?thesis using a relabeled_trans [OF a undeleted_relabeled [OF s3(1)]] by (cases "IsDeletedNode b") (simp_all only: if_True if_False simp_thms)
  qed
  have tables: "tables_used ?s4" if "tables_used s"
    using relabeled_tables [OF rl] p(2) that by (simp add: path_entered_def)
  have else: "elsewhere r s ?s4"
  proof (rule elsewhere_frame)
    show root: "parent_at (cores s) r = None" "r < length s" using t view_less by (auto simp: trie_at_def)
    show "trie_ok ?s4" using s3(2) en(1) by (simp add: trie_at_def)
    show "parent_at (cores ?s4) m = parent_at (cores s) m \<and> symbol_at (cores ?s4) m = symbol_at (cores s) m" if "m < length s" for m
      using rl p(2) that by (simp add: relabeled_def path_entered_def grown_def parent_at_def symbol_at_def)
    have path: "at_path (cores ?s4) r v m = at_path (cores s1) r v m" for v m
      using rl by (intro at_path_relabel) (simp_all add: relabeled_def)
    show "at_path (cores ?s4) r ?w n" using p(2) by (simp add: path path_entered_def)
    show "\<exists>v. at_path (cores ?s4) r v m" if "length s \<le> m" "cores ?s4 m \<noteq> None" for m
    proof (cases "m = n")
      case True
      then show ?thesis using p(2) unfolding path path_entered_def prod.case by blast
    next
      case False
      then have "cores s1 m \<noteq> None" using rl that(2) by (simp add: relabeled_def)
      then show ?thesis using p(2) that(1) unfolding path path_entered_def prod.case by blast
    qed
    show "nts ?s4 q = nts s q" if "q < length s" "parent_at (cores s) q = None" "q \<noteq> r" for q
    proof -
      have "at_path (cores s) q [] q" "parent_at (cores s1) q = None" "parent_at (cores s1) r = None"
        using that root p(2) by (simp_all add: path_entered_def grown_def parent_at_def)
      then have "q \<noteq> n" using root_unique [of "cores s1" r ?w n q "[]"] p(2) that(3) by (auto simp: path_entered_def)
      then show ?thesis using rl p(2) that by (simp add: relabeled_def path_entered_def)
    qed
  qed (use co4 len in simp_all)
  have "trie_at ?s4 r 1" using s3(2) en(1) by simp
  then have "interned ?w r s (n, ?fl, ?s4)"
    unfolding interned_def prod.case
  proof (intro conjI allI impI)
    show "leaf_at ?s4 r ?w n" using leaves en(2) by simp
    show "?fl = (if ?w \<in> words s r then 1 else 0)" using w_s by simp
    show "leaf_at ?s4 r v m = leaf_at s r v m" if "v \<noteq> ?w" for v m using leaves en(3) that by simp
    show "n = m" if "leaf_at s r ?w m" for m using ex(3) [OF that] by simp
    show "no_dead_ends ?s4 r" if "no_dead_ends s r" by (rule ends [OF that])
    show "struct_codes ?s4" if "struct_codes s" by (rule codes [OF that])
    show "tables_used ?s4" if "tables_used s" by (rule tables [OF that])
    show "elsewhere r s ?s4" by (rule else)
  qed (use words4 co4 len in simp_all)
  moreover have "counts_ok s \<longrightarrow> (\<forall>s. ?can s = Inr True) \<longrightarrow> counts_ok ?s4"
    using p(3) en(7) s3(7) by (simp add: counts_ok_def)
  ultimately show ?thesis
    by (intro exI [of _ "?res\<lparr>flag := ?fl\<rparr>"] exI [of _ ?s4] conjI res) (simp_all only: intern_result.simps intern_result.update_convs v z)
qed

end
