(* ===== verification/Trie_Asserting.thy ===== *)
theory Trie_Asserting imports Trie_Entering begin

text \<open>
  What \<open>trie_assert_chk_ins\<close> does to the facts of a predicate, and what is left of an interned trie
  when a term is too large for it.
\<close>

lemma entered_words:
  fixes c :: bool
  assumes t: "trie_at s r k" and w: "fits k w" "missing k w = 0" "w \<noteq> []"
    and e: "path_entered tt w r True s (f, n, s1)"
  shows "words (if \<not> f then upd_obj n (mark_leaf c) s1 else s1) r = (if f then words s r else insert w (words s r))"
proof -
  define s2 where "s2 = (if \<not> f then upd_obj n (mark_leaf c) s1 else s1)"
  note en = enter_word(1,2,4,5,6) [where c = c, OF t w e, folded s2_def]
  note ex = enter_word(3,10,11) [OF t w e]
  have same: "is_deleted_node (cores s2) m = is_deleted_node (cores s) m" if "leaf_at s r v m" for v m
    using en(4) [OF ex(2) [OF that]] by (simp add: is_deleted_node_def)
  have other: "v \<in> words s2 r \<longleftrightarrow> v \<in> words s r" if "v \<noteq> w" for v
    by (simp add: words_def en(3) [OF that] same cong: conj_cong)
  have ok2: "trie_ok s2" using en(1) by (simp add: trie_at_def)
  have only: "leaf_at s2 r w m \<longleftrightarrow> m = n" for m using leaf_at_unique [OF ok2] en(2) by blast
  show ?thesis
  proof (cases f)
    case True
    have "leaf_at s r w n" using ex(1,3) True by blast
    then have "leaf_at s r w m \<longleftrightarrow> m = n" for m using ex(3) by blast
    then have "w \<in> words s2 r \<longleftrightarrow> w \<in> words s r" using same [of w n] by (simp add: words_def only)
    then have "words s2 r = words s r" using other by (metis subsetI subset_antisym)
    then show ?thesis using True by (simp add: s2_def)
  next
    case False
    then have "w \<in> words s2 r" using en(5) by (simp add: words_def only)
    then have "words s2 r = insert w (words s r)" using other by (metis insert_iff subsetI subset_antisym)
    then show ?thesis using False by (simp add: s2_def)
  qed
qed

theorem trie_assert_law:
  assumes t: "trie_at s r (length args)" and ne: "args \<noteq> []" and few: "length (vars_of sz args) \<le> 0x10000"
  defines "w \<equiv> word_of sz args"
  shows "\<exists>n f sz' s'. trie_assert_chk_ins sz args r s = Inr (n, f, sz', s') \<and> trie_at s' r (length args) \<and>
    leaf_at s' r w n \<and> (f \<longleftrightarrow> (\<exists>m. leaf_at s r w m)) \<and> words s' r = (if f then words s r else insert w (words s r)) \<and>
    (\<forall>v m. v \<noteq> w \<longrightarrow> leaf_at s' r v m = leaf_at s r v m) \<and> (\<forall>m. leaf_at s r w m \<longrightarrow> n = m) \<and>
    (counts_ok s \<longrightarrow> counts_ok s') \<and> (no_dead_ends s r \<longrightarrow> no_dead_ends s' r) \<and> (struct_codes s \<longrightarrow> struct_codes s')"
proof -
  let ?can = "\<lambda>_ :: btns. Inr True :: bool res"
  obtain u us where args: "args = u # us" using ne by (cases args) auto
  have wf: "fits (length args) w" "missing (length args) w = 0" "w \<noteq> []"
    using word_fits [OF few] by (simp_all add: w_def word_of_def args)
  obtain k where k: "kids_at s r = Some k" using t by (auto simp: trie_at_def view_Some)
  have ok: "trie_ok s" using t by (simp add: trie_at_def)
  have "decides {} ?can" by simp
  from insert_path_law [OF ok k _ this, where found = True and tt = ASSERT_TRIE_TT and xs = w]
  obtain f n s1 where p: "insert_path ?can ASSERT_TRIE_TT w (True, r, s) = Inr (f, n, s1)"
    "path_entered ASSERT_TRIE_TT w r True s (f, n, s1)" "counts_ok s \<longrightarrow> counts_ok s1" by auto
  let ?c = "last_constant False w"
  let ?s2 = "if \<not> f then upd_obj n (mark_leaf ?c) s1 else s1"
  note en = enter_word(1,2,4,8) [where c = ?c, OF t wf p(2)]
  note ex = enter_word(3,11) [OF t wf p(2)]
  have "trie_assert_chk_ins sz args r s = Inr (n, f, ve_size (snd (syms (start_enum sz) args)), ?s2)"
    unfolding trie_assert_chk_ins_def assert_args_path using p(1) ne by (simp add: w_def word_of_def del: One_nat_def)
  moreover have last: "?c \<longrightarrow> constant_symbol (last w)" by (simp add: last_constant_def)
  moreover have "counts_ok ?s2" if "counts_ok s" using p(3) en(4) that by (simp add: counts_ok_def)
  ultimately show ?thesis using en(1-3) ex entered_words [where c = ?c, OF t wf p(2)]
      enter_word_ends [where c = ?c, OF t wf p(2)] enter_word_codes [where c = ?c, OF t wf p(2)] last by blast
qed


section \<open>Terms that are too large\<close>

lemma recvariant_intern_error:
  assumes fl: "0 < fst flags" "\<not> too_many flags k" "too_many flags (k + sum_list (map compounds pdl))"
    and ins: "insert_path can INTERN_TRIE_TT (fst (syms e pdl)) st = Inr r"
  shows "recvariant_trie_intern flags can pdl (depth_state flags k, c, e, st) =
    Inl (Table_Error ''Exceeded max trie_intern size'')"
  using fl(2,3) ins
proof (induction e pdl arbitrary: k c st rule: syms.induct)
  case (2 e t pdl)
  let ?pdl = "snd (snd (term_symbol e t)) @ pdl"
  let ?k = "if compound t then Suc k else k"
  have sum: "?k + sum_list (map compounds ?pdl) = k + sum_list (map compounds (t # pdl))"
    using compounds_step [of t e] by simp
  show ?case
  proof (cases "too_many flags ?k")
    case True
    then show ?thesis
      using check_depth_step [OF fl(1) "2.prems"(1)] "2.prems"(1) by (auto split: if_splits)
  next
    case False
    have check: "(if compound t then check_trie_intern_depth flags (depth_state flags k) else Inr (depth_state flags k)) =
        Inr (depth_state flags ?k)"
      using check_depth_step [OF fl(1) "2.prems"(1)] False by auto
    from "2.prems"(3) obtain st' where st': "chk_ins can INTERN_TRIE_TT (fst (term_symbol e t)) st = Inr st'"
      "insert_path can INTERN_TRIE_TT (fst (syms (fst (snd (term_symbol e t))) ?pdl)) st' = Inr r"
      by (auto simp: res_bind_def split: sum.splits)
    have "too_many flags (?k + sum_list (map compounds ?pdl))" using "2.prems"(2) unfolding sum .
    from "2.IH" [OF False this st'(2)] show ?thesis
      unfolding recvariant_trie_intern.simps check res_bind_simps st'(1) by blast
  qed
qed simp

lemma too_large_law:
  assumes t: "trie_at s r 1" and cps: "\<forall>n \<in> set ns. cores s n \<noteq> None" and few: "length (vars_of sz [u]) \<le> 0x10000"
    and fl: "0 < fst flags" "0 < snd flags" "too_many flags (intern_size u)"
  shows "trie_intern_chk_ins psc flags (c, e, ns) sz u (Some r) s = Inl (Table_Error ''Exceeded max trie_intern size'')"
proof -
  let ?w = "word_of sz [u]"
  let ?can = "may_expand c e ns r"
  obtain x en pdl where x: "term_symbol (start_enum sz) u = (x, en, pdl)" by (cases "term_symbol (start_enum sz) u") auto
  have w: "?w = x # fst (syms en pdl)" by (simp add: word_of_def x)
  obtain k where k: "kids_at s r = Some k" using t by (auto simp: trie_at_def view_Some)
  have ok: "trie_ok s" using t by (simp add: trie_at_def)
  note law = insert_path_law [OF ok k _ may_expand_decides cps, where found = True and tt = INTERN_TRIE_TT
      and c1 = c and e1 = e and root1 = r]
  obtain res where "insert_path ?can INTERN_TRIE_TT ?w (True, r, s) = Inr res" using law by blast
  then obtain st where st: "chk_ins ?can INTERN_TRIE_TT x (True, r, s) = Inr st"
    "insert_path ?can INTERN_TRIE_TT (fst (syms en pdl)) st = Inr res" by (auto simp: w res_bind_def split: sum.splits)
  have sum: "sum_list (map compounds pdl) = intern_size u"
    using pushed_start [of "start_enum sz" u "start_enum 0"] x by (simp add: intern_size_def)
  have d: "(0, min (fst flags) (snd flags)) = depth_state flags 0" using fl(1) by (simp add: depth_state_def)
  have z: "\<not> too_many flags 0" using fl(2) by (simp add: too_many_def)
  have many: "too_many flags (0 + sum_list (map compounds pdl))" using fl(3) sum by simp
  show ?thesis
    using st(1) recvariant_intern_error [OF fl(1) z many st(2), of "constant_tag u"] d
    by (simp add: trie_intern_chk_ins_def x Let_def del: One_nat_def)
qed

end
