(* ===== verification/Trie_Reading.thy ===== *)
theory Trie_Reading imports Trie_Terms begin

text \<open>
  Reading a term back from a trie: the symbols on the path from a leaf to the root are stacked
  (\<open>follow_par_chain\<close>), and the term is built from them on the heap (\<open>macro_make_heap_term\<close> and
  \<open>bottomupunify\<close> of emu/tries.c).
\<close>

section \<open>The path to a leaf\<close>

definition trie_const_instr :: "nat \<Rightarrow> bool" where
  "trie_const_instr i \<longleftrightarrow> and i 0xf8 = 0x70"

text \<open>The tag \<open>XSB_STRUCT\<close>: functors, and the cells of interned structures.\<close>

fun struct_tag :: "tsym \<Rightarrow> bool" where
  "struct_tag (SStruct _ _) = True"
| "struct_tag (SInternStr _) = True"
| "struct_tag _ = False"

text \<open>
  The stack has its top first. The second component of an entry says that its symbol is an interned
  structure. There are not more steps than nodes.
\<close>

fun follow_par_chain :: "nat \<Rightarrow> btns \<Rightarrow> nat \<Rightarrow> (tsym \<times> bool) list \<times> nat \<Rightarrow> ((tsym \<times> bool) list \<times> nat) res" where
  "follow_par_chain 0 s n st = Inl (Xsb_Bug ''the parents of a trie node go round'')"
| "follow_par_chain (Suc fuel) s n (stack, heap_space) =
    res_bind (deref s n) (\<lambda>b.
      if IsTrieRoot b then Inr (stack, heap_space)
      else
        (let sym = bt_symbol b;
             st = ((sym, struct_tag sym \<and> trie_const_instr (bt_instr b)) # stack,
                   heap_space + (if struct_tag sym then 2 else 1)) in
         case bt_parent b of None \<Rightarrow> Inr st | Some p \<Rightarrow> follow_par_chain fuel s p st))"

fun trie_path_heap_size :: "nat \<Rightarrow> btns \<Rightarrow> nat \<Rightarrow> nat \<Rightarrow> nat res" where
  "trie_path_heap_size 0 s n heap_space = Inl (Xsb_Bug ''the parents of a trie node go round'')"
| "trie_path_heap_size (Suc fuel) s n heap_space =
    res_bind (deref s n) (\<lambda>b.
      if IsTrieRoot b then Inr heap_space
      else
        (let heap_space = heap_space + (if struct_tag (bt_symbol b) then 2 else 1) in
         case bt_parent b of None \<Rightarrow> Inr heap_space | Some p \<Rightarrow> trie_path_heap_size fuel s p heap_space))"

section \<open>The heap\<close>

text \<open>A free variable is a reference to its own address.\<close>

datatype hcell =
    HRef nat
  | HAttv nat
  | HInt int
  | HString nat
  | HFloat nat
  | HList nat
  | HCs nat
  | HFunctor nat nat
  | HInterned tsym

record reading =
  cells :: "nat \<Rightarrow> hcell option"
  hreg :: nat
  addr_stack :: "nat list"
  var_addr :: "nat \<Rightarrow> hcell option"
  var_addr_accum_num :: nat
  num_heap_term_vars :: nat

definition set_cell :: "nat \<Rightarrow> hcell \<Rightarrow> reading \<Rightarrow> reading" where
  "set_cell a c st = st\<lparr>cells := (cells st)(a \<mapsto> c)\<rparr>"

text \<open>\<open>safe_assign\<close> on the array of bindings, which grows as needed.\<close>

definition bind_var :: "nat \<Rightarrow> hcell \<Rightarrow> reading \<Rightarrow> reading" where
  "bind_var i c st = st\<lparr>var_addr := (var_addr st)(i \<mapsto> c), num_heap_term_vars := num_heap_term_vars st + 1\<rparr>"

section \<open>Building a term\<close>

text \<open>
  The cases that both macros have: the cell for a symbol whose place is \<open>at\<close>, with the places of
  its arguments on the stack.
\<close>

definition build_var :: "nat \<Rightarrow> nat \<Rightarrow> reading \<Rightarrow> hcell \<times> reading" where
  "build_var at v st =
    (let index = DecodeTrieVar v;
         st = (if var_addr_accum_num st \<le> index then st\<lparr>var_addr_accum_num := index + 1\<rparr> else st) in
     if IsNewTrieVar v then (HRef at, bind_var index (HRef at) st)
     else if IsNewTrieAttv v then
       (let h = hreg st in
        (HAttv h, set_cell h (HRef h) (bind_var index (HAttv h) st)\<lparr>addr_stack := (h + 1) # addr_stack st, hreg := h + 2\<rparr>))
     else (case var_addr st index of
             None \<Rightarrow> (HRef at, bind_var index (HRef at) st)
           | Some c \<Rightarrow> (c, st)))"

definition build_cell :: "nat \<Rightarrow> tsym \<times> bool \<Rightarrow> reading \<Rightarrow> (hcell \<times> reading) res" where
  "build_cell at = (\<lambda>(x, interned) st.
    (let h = hreg st in
     case x of
       STrieVar v \<Rightarrow> Inr (build_var at v st)
     | SString s \<Rightarrow> Inr (HString s, st)
     | SInt i \<Rightarrow> Inr (HInt i, st)
     | SFloat f \<Rightarrow> Inr (HFloat f, st)
     | SInternList _ \<Rightarrow> Inr (HInterned x, st)
     | SList \<Rightarrow> Inr (HList h, st\<lparr>hreg := h + 2, addr_stack := h # (h + 1) # addr_stack st\<rparr>)
     | SInternStr p \<Rightarrow> if interned then Inr (HInterned x, st) else Inl (Dangling_Pointer p)
     | SStruct p n \<Rightarrow>
         if interned then Inr (HInterned x, st)
         else Inr (HCs h, set_cell h (HFunctor p n) st
           \<lparr>hreg := h + (n + 1), addr_stack := map (\<lambda>j. h + 1 + j) [0..<n] @ addr_stack st\<rparr>)))"

fun rec_macro_make_heap_term :: "(tsym \<times> bool) list \<Rightarrow> reading \<Rightarrow> ((tsym \<times> bool) list \<times> reading) res" where
  "rec_macro_make_heap_term [] st = (if addr_stack st = [] then Inr ([], st) else Inl (Out_Of_Bounds (-1)))"
| "rec_macro_make_heap_term (x # xs) st =
    (case addr_stack st of
       [] \<Rightarrow> Inr (x # xs, st)
     | a # as \<Rightarrow> res_bind (build_cell a x (st\<lparr>addr_stack := as\<rparr>)) (\<lambda>(c, st).
         rec_macro_make_heap_term xs (set_cell a c st)))"

text \<open>Whether the symbol has arguments that are built by the loop.\<close>

definition has_arguments :: "tsym \<times> bool \<Rightarrow> bool" where
  "has_arguments = (\<lambda>(x, interned). case x of
     STrieVar v \<Rightarrow> \<not> IsNewTrieVar v \<and> IsNewTrieAttv v
   | SList \<Rightarrow> True
   | SStruct _ _ \<Rightarrow> \<not> interned
   | _ \<Rightarrow> False)"

definition macro_make_heap_term :: "nat \<Rightarrow> (tsym \<times> bool) list \<Rightarrow> reading \<Rightarrow> (hcell \<times> (tsym \<times> bool) list \<times> reading) res" where
  "macro_make_heap_term ataddr stack st =
    (case stack of
       [] \<Rightarrow> Inl (Out_Of_Bounds (-1))
     | x # xs \<Rightarrow> res_bind (build_cell ataddr x st) (\<lambda>(c, st).
         if has_arguments x then res_bind (rec_macro_make_heap_term xs st) (\<lambda>(xs, st). Inr (c, xs, st))
         else Inr (c, xs, st)))"

text \<open>
  \<open>bottomupunify\<close> on a dereferenced term at the address \<open>gen\<close>, which it overwrites: the result has the
  variables of the term and the heap space that was asked for. \<open>bottom_up_unify\<close> fails for a
  deleted leaf.
\<close>

definition bottomupunify :: "nat \<Rightarrow> nat \<Rightarrow> btns \<Rightarrow> reading \<Rightarrow> (hcell option list \<times> nat \<times> reading) res" where
  "bottomupunify gen leafn s st =
    res_bind (follow_par_chain (length s) s leafn ([], 0)) (\<lambda>(stack, heap_needed).
    res_bind (macro_make_heap_term gen stack (st\<lparr>num_heap_term_vars := 0\<rparr>)) (\<lambda>(c, _, st).
      Inr (map (var_addr st) [0..<num_heap_term_vars st], heap_needed, set_cell gen c st)))"

definition bottom_up_unify :: "nat \<Rightarrow> nat \<Rightarrow> btns \<Rightarrow> reading \<Rightarrow> (hcell option list \<times> nat \<times> reading) option res" where
  "bottom_up_unify gen leafn s st =
    res_bind (deref s leafn) (\<lambda>b.
      if IsDeletedNode b then Inr None
      else res_bind (bottomupunify gen leafn s st) (\<lambda>r. Inr (Some r)))"

end
