(* ===== verification/Trie_Variants.thy ===== *)
theory Trie_Variants imports Trie_Words begin

text \<open>
  Two terms have the same word exactly when they are variants: when one becomes the other by
  giving other names to its variables.
\<close>

section \<open>Renaming\<close>

fun ren :: "(nat \<Rightarrow> nat) \<Rightarrow> tterm \<Rightarrow> tterm" where
  "ren f (TVar v) = TVar (f v)"
| "ren f (TAttv v a) = TAttv (f v) (ren f a)"
| "ren f (TInt i) = TInt i"
| "ren f (TString s) = TString s"
| "ren f (TFloat d) = TFloat d"
| "ren f (TList h t) = TList (ren f h) (ren f t)"
| "ren f (TCs p args) = TCs p (map (ren f) args)"

fun tvars :: "tterm \<Rightarrow> nat set" where
  "tvars (TVar v) = {v}"
| "tvars (TAttv v a) = insert v (tvars a)"
| "tvars (TInt i) = {}"
| "tvars (TString s) = {}"
| "tvars (TFloat d) = {}"
| "tvars (TList h t) = tvars h \<union> tvars t"
| "tvars (TCs p args) = (\<Union>t \<in> set args. tvars t)"

abbreviation all_vars :: "tterm list \<Rightarrow> nat set" where "all_vars ts \<equiv> \<Union>t \<in> set ts. tvars t"

definition variants :: "tterm list \<Rightarrow> tterm list \<Rightarrow> bool" where
  "variants ts us \<longleftrightarrow> (\<exists>f. inj_on f (all_vars ts) \<and> us = map (ren f) ts)"

text \<open>An attributed variable has its attribute where it occurs first, and only there.\<close>

function attributes_once :: "venum \<Rightarrow> tterm list \<Rightarrow> bool" where
  "attributes_once e [] = True"
| "attributes_once e (t # pdl) =
    ((case t of TAttv v a \<Rightarrow> \<not> IsStandardizedVariable v e | _ \<Rightarrow> True) \<and>
     attributes_once (fst (snd (term_symbol e t))) (snd (snd (term_symbol e t)) @ pdl))"
  by pat_completeness auto
termination attributes_once
  by (relation "measure (\<lambda>(_, pdl). sum_list (map term_weight pdl))")
    (use pushed_smaller in \<open>simp_all add: add_strict_right_mono\<close>)

lemma pushed_vars: "all_vars (snd (snd (term_symbol e t))) \<subseteq> tvars t"
  by (cases t) auto

section \<open>Variants have the same word\<close>

definition ren_enum :: "(nat \<Rightarrow> nat) \<Rightarrow> venum \<Rightarrow> venum" where
  "ren_enum f e = e\<lparr>ve_trail := map f (ve_trail e)\<rparr>"

lemma ren_enum_simps [simp]:
  "ve_size (ren_enum f e) = ve_size e" "ve_base (ren_enum f e) = ve_base e" "ve_trail (ren_enum f e) = map f (ve_trail e)"
  by (simp_all add: ren_enum_def)

lemma takeWhile_map_inj:
  "inj_on f (insert v (set us)) \<Longrightarrow> length (takeWhile (\<lambda>u. u \<noteq> f v) (map f us)) = length (takeWhile (\<lambda>u. u \<noteq> v) us)"
  by (induction us) (auto simp: inj_on_def)

lemma standardized_ren:
  assumes "inj_on f (insert v (set (ve_trail e)))"
  shows "IsStandardizedVariable (f v) (ren_enum f e) = IsStandardizedVariable v e"
    "IndexOfStdVar (f v) (ren_enum f e) = IndexOfStdVar v e"
proof -
  have sub: "set (drop (ve_base e) (ve_trail e)) \<subseteq> set (ve_trail e)" by (rule set_drop_subset)
  then have i: "inj_on f (insert v (set (drop (ve_base e) (ve_trail e))))"
    using assms by (meson inj_on_subset insert_mono)
  show "IsStandardizedVariable (f v) (ren_enum f e) = IsStandardizedVariable v e"
    using i unfolding IsStandardizedVariable_def by (auto simp: drop_map inj_on_def)
  show "IndexOfStdVar (f v) (ren_enum f e) = IndexOfStdVar v e"
    using takeWhile_map_inj [OF i] by (simp add: IndexOfStdVar_def drop_map)
qed

lemma standardize_ren:
  "StandardizeAndTrailVariable (f v) (ren_enum f e) = ren_enum f (StandardizeAndTrailVariable v e)"
  by (simp add: StandardizeAndTrailVariable_def ren_enum_def)

lemma term_symbol_ren:
  assumes "inj_on f (tvars t \<union> set (ve_trail e))"
  shows "term_symbol (ren_enum f e) (ren f t) =
    (fst (term_symbol e t), ren_enum f (fst (snd (term_symbol e t))), map (ren f) (snd (snd (term_symbol e t))))"
proof (cases t)
  case (TVar v)
  then show ?thesis using standardized_ren [of f v e] assms by (simp add: standardize_ren)
qed (simp_all add: standardize_ren)

lemma term_symbol_trail:
  "set (ve_trail (fst (snd (term_symbol e t)))) \<subseteq> set (ve_trail e) \<union> tvars t"
  by (cases t) (auto simp: standardize_ok)

lemma syms_ren:
  "inj_on f (all_vars ts \<union> set (ve_trail e)) \<Longrightarrow>
   syms (ren_enum f e) (map (ren f) ts) = (fst (syms e ts), ren_enum f (snd (syms e ts)))"
proof (induction e ts rule: syms.induct)
  case (2 e t pdl)
  have "inj_on f (tvars t \<union> set (ve_trail e))" by (rule inj_on_subset [OF "2.prems"]) auto
  note sy = term_symbol_ren [OF this]
  have "inj_on f (all_vars (snd (snd (term_symbol e t)) @ pdl) \<union> set (ve_trail (fst (snd (term_symbol e t)))))"
    by (rule inj_on_subset [OF "2.prems"]) (use pushed_vars [of e t] term_symbol_trail [of e t] in auto)
  from "2.IH" [OF this] show ?case by (simp add: sy)
qed simp

lemma variants_word: "variants ts us \<Longrightarrow> word_of sz us = word_of sz ts"
  using syms_ren [of _ ts "start_enum sz"] by (auto simp: variants_def word_of_def start_enum_def ren_enum_def)

section \<open>Terms with the same word are variants\<close>

text \<open>The array of variables was not replaced, and no variable has two numbers.\<close>

definition plain :: "venum \<Rightarrow> bool" where
  "plain e \<longleftrightarrow> ve_base e = 0 \<and> distinct (ve_trail e)"

definition room :: "venum \<Rightarrow> venum \<Rightarrow> bool" where
  "room e e' \<longleftrightarrow> length (ve_trail e') \<le> ve_size e \<and> length (ve_trail e') \<le> 0x10000"

lemma or_small_inj:
  assumes "i < 0x10000" "j < 0x10000"
  shows "or i 0x10000 = or j (0x10000 :: nat) \<longleftrightarrow> i = j" "or i 0x20000 = or j (0x20000 :: nat) \<longleftrightarrow> i = j"
proof -
  have t: "take_bit 16 i = i" "take_bit 16 j = j" using assms by (simp_all add: take_bit_nat_eq_self)
  have z: "take_bit 16 (0x10000 :: nat) = 0" "take_bit 16 (0x20000 :: nat) = 0" by (simp_all add: take_bit_eq_mod)
  have "take_bit 16 (or k 0x10000) = take_bit 16 k" "take_bit 16 (or k 0x20000) = take_bit 16 (k :: nat)" for k
    by (simp_all add: z)
  then show "or i 0x10000 = or j (0x10000 :: nat) \<longleftrightarrow> i = j" "or i 0x20000 = or j (0x20000 :: nat) \<longleftrightarrow> i = j"
    using t by metis+
qed

lemma mark_bits_differ:
  assumes "i < 0x10000" "j < 0x10000"
  shows "or i 0x10000 \<noteq> or j (0x20000 :: nat)" "or i 0x10000 \<noteq> (j :: nat)" "or i 0x20000 \<noteq> (j :: nat)"
  using or_bits_small [OF assms(1)] or_bits_small [OF assms(2)] by metis+

lemma index_std:
  assumes "plain e" "IsStandardizedVariable v e"
  shows "IndexOfStdVar v e < length (ve_trail e)" "ve_trail e ! IndexOfStdVar v e = v"
proof -
  have v: "v \<in> set (ve_trail e)" using assms by (simp add: plain_def IsStandardizedVariable_def)
  have i: "IndexOfStdVar v e = length (takeWhile (\<lambda>u. u \<noteq> v) (ve_trail e))" using assms by (simp add: plain_def IndexOfStdVar_def)
  show l: "IndexOfStdVar v e < length (ve_trail e)" using takeWhile_shorter [OF v] by (simp add: i)
  then show "ve_trail e ! IndexOfStdVar v e = v" unfolding i using nth_length_takeWhile by blast
qed

text \<open>The names that are given to the variables with the same numbers.\<close>

definition names :: "(nat \<Rightarrow> nat) \<Rightarrow> nat list \<Rightarrow> nat list \<Rightarrow> bool" where
  "names g vs ws \<longleftrightarrow> length vs = length ws \<and> (\<forall>i < length vs. g (vs ! i) = ws ! i)"

lemma names_append: "length vs = length ws \<Longrightarrow> names g (vs @ vs') (ws @ ws') \<Longrightarrow> names g vs ws"
  unfolding names_def by (metis length_append nth_append trans_less_add1)

definition once :: "venum \<Rightarrow> tterm \<Rightarrow> bool" where
  "once e t = (case t of TAttv v a \<Rightarrow> \<not> IsStandardizedVariable v e | _ \<Rightarrow> True)"

definition same_step :: "venum \<Rightarrow> venum \<Rightarrow> bool" where
  "same_step e e' \<longleftrightarrow> plain e \<and> plain e' \<and> ve_size e = ve_size e' \<and> length (ve_trail e) = length (ve_trail e')"

lemma standardize_plain:
  assumes "plain e" "\<not> IsStandardizedVariable v e" "length (ve_trail e) < ve_size e"
  shows "plain (StandardizeAndTrailVariable v e)" "ve_size (StandardizeAndTrailVariable v e) = ve_size e"
    "ve_trail (StandardizeAndTrailVariable v e) = ve_trail e @ [v]"
  using assms by (auto simp: plain_def IsStandardizedVariable_def StandardizeAndTrailVariable_def)

lemma names_last: "names g (vs @ [v]) (ws @ [w]) \<Longrightarrow> length vs = length ws \<Longrightarrow> g v = w"
  unfolding names_def by (metis length_append_singleton lessI nth_append_length)

text \<open>What kind of term a symbol for a variable comes from.\<close>

lemma symbol_TVar:
  assumes "plain e" "length (ve_trail (fst (snd (term_symbol e t)))) \<le> 0x10000" "fst (term_symbol e t) = STrieVar i"
  shows "(\<exists>v. t = TVar v \<and> IsStandardizedVariable v e \<and> i = IndexOfStdVar v e \<and> i < 0x10000) \<or>
    (\<exists>v. t = TVar v \<and> \<not> IsStandardizedVariable v e \<and> i = or (length (ve_trail e)) 0x10000 \<and> length (ve_trail e) < 0x10000) \<or>
    (\<exists>v a. t = TAttv v a \<and> i = or (length (ve_trail e)) 0x20000 \<and> length (ve_trail e) < 0x10000)"
proof (cases t)
  case (TVar v)
  then show ?thesis
    using assms index_std(1) [OF assms(1), of v]
    by (cases "IsStandardizedVariable v e") (simp_all add: EncodeTrieVar_def EncodeNewTrieVar_def standardize_ok)
next
  case (TAttv v a)
  then show ?thesis using assms by (simp add: EncodeNewTrieAttv_def standardize_ok)
qed (use assms in simp_all)

lemma term_symbol_same:
  assumes s: "same_step e e'" and x: "fst (term_symbol e t) = fst (term_symbol e' u)" and o: "once e t" "once e' u"
    and r: "room e (fst (snd (term_symbol e t)))" "room e' (fst (snd (term_symbol e' u)))"
  shows "same_step (fst (snd (term_symbol e t))) (fst (snd (term_symbol e' u))) \<and>
    length (snd (snd (term_symbol e t))) = length (snd (snd (term_symbol e' u))) \<and>
    (\<forall>g. names g (ve_trail (fst (snd (term_symbol e t)))) (ve_trail (fst (snd (term_symbol e' u)))) \<longrightarrow>
       map (ren g) (snd (snd (term_symbol e t))) = snd (snd (term_symbol e' u)) \<longrightarrow> ren g t = u)"
proof (cases "\<exists>i. fst (term_symbol e t) = STrieVar i")
  case True
  then obtain i where i: "fst (term_symbol e t) = STrieVar i" by blast
  have p: "plain e" "plain e'" "ve_size e = ve_size e'" and len: "length (ve_trail e) = length (ve_trail e')"
    using s by (simp_all add: same_step_def)
  have b: "length (ve_trail (fst (snd (term_symbol e t)))) \<le> 0x10000" "length (ve_trail (fst (snd (term_symbol e' u)))) \<le> 0x10000"
    using r by (simp_all add: room_def)
  note kt = symbol_TVar [OF p(1) b(1) i] and ku = symbol_TVar [OF p(2) b(2) i [unfolded x]]
  from kt show ?thesis
  proof (elim disjE exE conjE)
    fix v assume v: "t = TVar v" "IsStandardizedVariable v e" "i = IndexOfStdVar v e" "i < 0x10000"
    then obtain w where w: "u = TVar w" "IsStandardizedVariable w e'" "i = IndexOfStdVar w e'"
      using ku mark_bits_differ by metis
    have "g v = w" if "names g (ve_trail e) (ve_trail e')" for g
      using that index_std [OF p(1) v(2)] index_std [OF p(2) w(2)] v(3) w(3) by (simp add: names_def) metis
    then show ?thesis using v w s by simp
  next
    fix v assume v: "t = TVar v" "\<not> IsStandardizedVariable v e" "i = or (length (ve_trail e)) 0x10000"
      "length (ve_trail e) < 0x10000"
    then obtain w where w: "u = TVar w" "\<not> IsStandardizedVariable w e'"
      using ku mark_bits_differ by metis
    have sz: "length (ve_trail e) < ve_size e" "length (ve_trail e') < ve_size e'"
      using r v w by (simp_all add: room_def standardize_ok)
    show ?thesis
      using v w standardize_plain [OF p(1) v(2) sz(1)] standardize_plain [OF p(2) w(2) sz(2)] p(3) len names_last [OF _ len]
      by (simp add: same_step_def)
  next
    fix v a assume v: "t = TAttv v a" "i = or (length (ve_trail e)) 0x20000" "length (ve_trail e) < 0x10000"
    then obtain w c where w: "u = TAttv w c" using ku mark_bits_differ by metis
    have n: "\<not> IsStandardizedVariable v e" "\<not> IsStandardizedVariable w e'" using o v w by (simp_all add: once_def)
    have sz: "length (ve_trail e) < ve_size e" "length (ve_trail e') < ve_size e'"
      using r v w by (simp_all add: room_def standardize_ok)
    show ?thesis
      using v w standardize_plain [OF p(1) n(1) sz(1)] standardize_plain [OF p(2) n(2) sz(2)] p(3) len names_last [OF _ len]
      by (simp add: same_step_def)
  qed
next
  case False
  then have nv: "\<forall>v. t \<noteq> TVar v" "\<forall>v a. t \<noteq> TAttv v a"
    by (auto simp: EncodeTrieVar_def EncodeNewTrieVar_def EncodeNewTrieAttv_def split: if_splits)
  have nu: "\<forall>v. u \<noteq> TVar v" "\<forall>v a. u \<noteq> TAttv v a"
    using False x by (auto simp: EncodeTrieVar_def EncodeNewTrieVar_def EncodeNewTrieAttv_def split: if_splits)
  show ?thesis using nv nu x s by (cases t; cases u) auto
qed

lemma room_size: "room e (fst (snd (term_symbol e t))) \<Longrightarrow> ve_size (fst (snd (term_symbol e t))) = ve_size e"
  by (cases t) (auto simp: room_def standardize_ok, auto simp: StandardizeAndTrailVariable_def)

lemma syms_trail: "\<exists>vs. ve_trail (snd (syms e ts)) = ve_trail e @ vs"
proof (induction e ts rule: syms.induct)
  case (2 e t pdl)
  have "\<exists>vs. ve_trail (fst (snd (term_symbol e t))) = ve_trail e @ vs" by (cases t) (simp_all add: standardize_ok)
  then show ?case using "2.IH" by auto
qed simp

lemma room_step:
  assumes "room e (snd (syms e (t # pdl)))"
  shows "room e (fst (snd (term_symbol e t)))"
  using assms syms_enum [of "fst (snd (term_symbol e t))" "snd (snd (term_symbol e t)) @ pdl"] by (simp add: room_def)

lemma syms_same:
  assumes "fst (syms e ts) = fst (syms e' us)" "same_step e e'" "attributes_once e ts" "attributes_once e' us"
    "room e (snd (syms e ts))" "room e' (snd (syms e' us))"
  shows "same_step (snd (syms e ts)) (snd (syms e' us)) \<and>
    (\<forall>g. names g (ve_trail (snd (syms e ts))) (ve_trail (snd (syms e' us))) \<longrightarrow> map (ren g) ts = us)"
  using assms
proof (induction e ts arbitrary: e' us rule: syms.induct)
  case (1 e)
  then show ?case by (cases us) auto
next
  case (2 e t pdl)
  then obtain u qdl where us: "us = u # qdl" by (cases us) auto
  let ?e = "fst (snd (term_symbol e t))" and ?a = "snd (snd (term_symbol e t))"
  let ?e' = "fst (snd (term_symbol e' u))" and ?a' = "snd (snd (term_symbol e' u))"
  have x: "fst (term_symbol e t) = fst (term_symbol e' u)" "fst (syms ?e (?a @ pdl)) = fst (syms ?e' (?a' @ qdl))"
    using "2.prems"(1) us by simp_all
  have o: "once e t" "once e' u" "attributes_once ?e (?a @ pdl)" "attributes_once ?e' (?a' @ qdl)"
    using "2.prems"(3,4) us by (simp_all add: once_def)
  have r: "room e ?e" "room e' ?e'" using room_step "2.prems"(5,6) us by blast+
  from term_symbol_same [OF "2.prems"(2) x(1) o(1,2) r]
  have st: "same_step ?e ?e'" "length ?a = length ?a'"
    and hd: "\<And>g. names g (ve_trail ?e) (ve_trail ?e') \<Longrightarrow> map (ren g) ?a = ?a' \<Longrightarrow> ren g t = u" by blast+
  have "ve_size ?e = ve_size e" "ve_size ?e' = ve_size e'" using room_size r by blast+
  then have r2: "room ?e (snd (syms ?e (?a @ pdl)))" "room ?e' (snd (syms ?e' (?a' @ qdl)))"
    using "2.prems"(5,6) us by (simp_all add: room_def)
  from "2.IH" [OF x(2) st(1) o(3,4) r2]
  have ih: "same_step (snd (syms ?e (?a @ pdl))) (snd (syms ?e' (?a' @ qdl)))"
    "\<And>g. names g (ve_trail (snd (syms ?e (?a @ pdl)))) (ve_trail (snd (syms ?e' (?a' @ qdl)))) \<Longrightarrow>
       map (ren g) (?a @ pdl) = ?a' @ qdl" by blast+
  have "map (ren g) (t # pdl) = us" if n: "names g (ve_trail (snd (syms e (t # pdl)))) (ve_trail (snd (syms e' us)))" for g
  proof -
    have m: "map (ren g) (?a @ pdl) = ?a' @ qdl" by (rule ih(2)) (use n us in simp)
    then have "map (ren g) ?a = ?a'" "map (ren g) pdl = qdl" using st(2) by simp_all
    moreover have "names g (ve_trail ?e) (ve_trail ?e')"
    proof -
      obtain vs ws where "ve_trail (snd (syms ?e (?a @ pdl))) = ve_trail ?e @ vs"
        "ve_trail (snd (syms ?e' (?a' @ qdl))) = ve_trail ?e' @ ws" using syms_trail by metis
      then show ?thesis using n us st(1) names_append by (simp add: same_step_def)
    qed
    ultimately show ?thesis using hd us by simp
  qed
  then show ?case using ih(1) us by simp
qed

lemma trail_vars:
  "set (ve_trail (snd (syms e ts))) = set (ve_trail e) \<union> all_vars ts"
  if "plain e" "attributes_once e ts" "room e (snd (syms e ts))"
  using that
proof (induction e ts rule: syms.induct)
  case (2 e t pdl)
  let ?e = "fst (snd (term_symbol e t))"
  have o: "once e t" using "2.prems"(2) by (simp add: once_def)
  have r: "room e ?e" by (rule room_step [OF "2.prems"(3)])
  from term_symbol_same [of e e t t, OF _ refl o o r r] "2.prems"(1)
  have p: "plain ?e" by (simp add: same_step_def)
  have "set (ve_trail ?e) \<union> all_vars (snd (snd (term_symbol e t))) = set (ve_trail e) \<union> tvars t"
    using "2.prems"(1) by (cases t) (auto simp: standardize_ok IsStandardizedVariable_def plain_def)
  moreover have "room ?e (snd (syms ?e (snd (snd (term_symbol e t)) @ pdl)))"
    using "2.prems"(3) room_size [OF r] by (simp add: room_def)
  ultimately show ?case using "2.IH" [OF p] "2.prems"(2) by auto
qed simp

lemma syms_size: "room e (snd (syms e ts)) \<Longrightarrow> ve_size (snd (syms e ts)) = ve_size e"
proof (induction e ts rule: syms.induct)
  case (2 e t pdl)
  let ?e = "fst (snd (term_symbol e t))"
  have r: "room e ?e" using "2.prems" syms_trail [of ?e "snd (snd (term_symbol e t)) @ pdl"] by (auto simp: room_def)
  then have "room ?e (snd (syms ?e (snd (snd (term_symbol e t)) @ pdl)))"
    using "2.prems" room_size [OF r] by (simp add: room_def)
  then show ?case using "2.IH" room_size [OF r] by simp
qed simp

lemma trail_size:
  assumes "length (vars_of sz ts) \<le> sz" "length (vars_of sz ts) \<le> 0x10000"
  shows "ve_size (snd (syms (start_enum sz) ts)) = sz"
  using syms_size [of "start_enum sz" ts] assms by (simp add: room_def vars_of_def start_enum_def)

text \<open>Terms whose variables fit in the array of variables.\<close>

definition fitting :: "nat \<Rightarrow> tterm list \<Rightarrow> bool" where
  "fitting sz ts \<longleftrightarrow> attributes_once (start_enum sz) ts \<and> length (vars_of sz ts) \<le> sz \<and> length (vars_of sz ts) \<le> 0x10000"

lemma names_exist:
  assumes d: "distinct vs" "distinct ws" "length vs = length ws"
  shows "\<exists>f. names f vs ws \<and> inj_on f (set vs)"
proof -
  define f where "f = (\<lambda>v. the (map_of (zip vs ws) v))"
  have fn: "f (vs ! i) = ws ! i" if "i < length vs" for i
    using map_of_zip_nth [OF d(3,1)] that d(3) by (simp add: f_def)
  then have "names f vs ws" using d(3) by (simp add: names_def)
  moreover have "inj_on f (set vs)"
  proof (rule inj_onI)
    fix x y assume xy: "x \<in> set vs" "y \<in> set vs" "f x = f y"
    then obtain i j where i: "i < length vs" "x = vs ! i" and j: "j < length vs" "y = vs ! j"
      unfolding in_set_conv_nth by blast
    then have "ws ! i = ws ! j" using xy(3) fn by simp
    then have "i = j" using nth_eq_iff_index_eq [OF d(2)] i(1) j(1) d(3) by simp
    then show "x = y" using i j by simp
  qed
  ultimately show ?thesis by blast
qed

theorem same_word_variants:
  assumes "fitting sz ts" "fitting sz us"
  shows "word_of sz ts = word_of sz us \<longleftrightarrow> variants ts us"
proof
  assume w: "word_of sz ts = word_of sz us"
  let ?e = "start_enum sz"
  let ?E = "ve_trail (snd (syms ?e ts))" and ?F = "ve_trail (snd (syms ?e us))"
  have s: "same_step ?e ?e" "plain ?e" by (simp_all add: same_step_def plain_def start_enum_def)
  have r: "room ?e (snd (syms ?e ts))" "room ?e (snd (syms ?e us))"
    using assms by (simp_all add: fitting_def room_def vars_of_def start_enum_def)
  from syms_same [OF _ s(1) _ _ r] w assms
  have st: "same_step (snd (syms ?e ts)) (snd (syms ?e us))"
    and g: "\<And>g. names g ?E ?F \<Longrightarrow> map (ren g) ts = us" by (simp_all add: word_of_def fitting_def)
  have d: "distinct ?E" "distinct ?F" "length ?E = length ?F" using st by (simp_all add: same_step_def plain_def)
  from names_exist [OF d] obtain f where f: "names f ?E ?F" "inj_on f (set ?E)" by blast
  then have "us = map (ren f) ts" using g by simp
  moreover note f(2)
  moreover have "set ?E = all_vars ts"
    using trail_vars [OF s(2) _ r(1)] assms(1) by (simp add: fitting_def start_enum_def)
  ultimately show "variants ts us" unfolding variants_def by auto
next
  assume "variants ts us"
  then show "word_of sz ts = word_of sz us" by (simp add: variants_word)
qed

end
