(* ===== verification/Trie_Rebuilding.thy ===== *)
theory Trie_Rebuilding imports Trie_Reading Trie_Entering Trie_Variants begin

text \<open>
  A term that is read back from a trie is a variant of the term that was entered.
\<close>

section \<open>Terms on the heap\<close>

inductive stands :: "(nat \<Rightarrow> hcell option) \<Rightarrow> hcell \<Rightarrow> tterm \<Rightarrow> bool" for h where
  stands_var: "h a = Some (HRef a) \<Longrightarrow> stands h (HRef a) (TVar a)"
| stands_int: "stands h (HInt i) (TInt i)"
| stands_string: "stands h (HString s) (TString s)"
| stands_float: "stands h (HFloat f) (TFloat f)"
| stands_list: "h a = Some c \<Longrightarrow> stands h c t \<Longrightarrow> h (a + 1) = Some d \<Longrightarrow> stands h d u \<Longrightarrow> stands h (HList a) (TList t u)"
| stands_cs: "h a = Some (HFunctor p (length args)) \<Longrightarrow>
    list_all2 (\<lambda>i t. \<exists>c. h i = Some c \<and> stands h c t) (map (\<lambda>j. a + 1 + j) [0..<length args]) args \<Longrightarrow>
    stands h (HCs a) (TCs p args)"

inductive_simps stands_simps: "stands h (HRef a) t" "stands h (HInt i) t" "stands h (HString s) t"
  "stands h (HFloat f) t" "stands h (HList a) t" "stands h (HCs a) t"

abbreviation "place h \<equiv> (\<lambda>a t. \<exists>c. h a = Some c \<and> stands h c t)"

text \<open>A cell stands for one term only.\<close>

lemma stands_unique: "stands h c t \<Longrightarrow> stands h c u \<Longrightarrow> t = u"
proof (induction arbitrary: u rule: stands.induct)
  case (stands_list a c t d t')
  from stands_list.prems stands_list.hyps obtain u1 u2 where "u = TList u1 u2" "stands h c u1" "stands h d u2"
    by (auto simp: stands_simps)
  then show ?case using stands_list.IH by simp
next
  case (stands_cs a p args)
  from stands_cs.prems stands_cs.hyps obtain us where u: "u = TCs p us" "length us = length args"
    "list_all2 (place h) (map (\<lambda>j. a + 1 + j) [0..<length us]) us"
    by (auto simp: stands_simps)
  have "args = us"
  proof (rule nth_equalityI)
    fix i assume i: "i < length args"
    have "\<exists>c. h (a + 1 + i) = Some c \<and> stands h c (args ! i) \<and> (\<forall>u. stands h c u \<longrightarrow> args ! i = u)"
      using list_all2_nthD [OF stands_cs.IH, of i] i by simp
    moreover have "place h (a + 1 + i) (us ! i)" using list_all2_nthD [OF u(3), of i] u(2) i by simp
    ultimately show "args ! i = us ! i" by auto
  qed (simp add: u)
  then show ?case by (simp add: u)
qed (simp_all add: stands_simps)

section \<open>The loop\<close>

fun no_attv :: "tterm \<Rightarrow> bool" where
  "no_attv (TAttv v a) = False"
| "no_attv (TList t u) = (no_attv t \<and> no_attv u)"
| "no_attv (TCs p args) = (\<forall>t \<in> set args. no_attv t)"
| "no_attv _ = True"

definition plain_syms :: "tsym list \<Rightarrow> (tsym \<times> bool) list" where
  "plain_syms = map (\<lambda>x. (x, False))"

definition structs :: "tsym list \<Rightarrow> nat" where
  "structs w = length (filter struct_tag w)"

text \<open>The variables that have an address so far.\<close>

definition bound :: "nat list \<Rightarrow> reading \<Rightarrow> bool" where
  "bound ads st \<longleftrightarrow> distinct (ads @ addr_stack st) \<and> (\<forall>a \<in> set (ads @ addr_stack st). a < hreg st) \<and>
     (\<forall>i < length ads. var_addr st i = Some (HRef (ads ! i)) \<and> cells st (ads ! i) = Some (HRef (ads ! i))) \<and>
     num_heap_term_vars st = length ads"

definition rebuilt :: "nat list \<Rightarrow> venum \<Rightarrow> tterm list \<Rightarrow> reading \<Rightarrow> reading \<Rightarrow> bool" where
  "rebuilt ads e ts st st' \<longleftrightarrow> (\<exists>new. bound (ads @ new) st' \<and> addr_stack st' = [] \<and>
     length (ads @ new) = length (ve_trail (snd (syms e ts))) \<and>
     (\<forall>a < hreg st. a \<notin> set (addr_stack st) \<longrightarrow> cells st' a = cells st a) \<and>
     hreg st' + length ts = hreg st + length (fst (syms e ts)) + structs (fst (syms e ts)) \<and>
     (\<forall>g. names g (ve_trail (snd (syms e ts))) (ads @ new) \<longrightarrow> list_all2 (place (cells st')) (addr_stack st) (map (ren g) ts)))"

lemma and_0xffff: "and (i :: nat) 0xffff = i mod 0x10000"
proof -
  have "(0xffff :: nat) = mask 16" by (simp add: mask_eq_exp_minus_1)
  then show ?thesis by (simp only: take_bit_eq_mask [symmetric] take_bit_eq_mod) simp
qed

lemma decode_small:
  assumes "i < 0x10000"
  shows "DecodeTrieVar i = i" "DecodeTrieVar (or i 0x10000) = i"
proof -
  show "DecodeTrieVar i = i" using assms by (simp add: DecodeTrieVar_def and_0xffff)
  have "take_bit 16 i = i" using assms by (simp add: take_bit_nat_eq_self)
  moreover have "take_bit 16 (0x10000 :: nat) = 0" by (simp add: take_bit_eq_mod)
  ultimately have "take_bit 16 (or i 0x10000) = i" by simp
  then show "DecodeTrieVar (or i 0x10000) = i" by (simp add: DecodeTrieVar_def and_0xffff take_bit_eq_mod)
qed

text \<open>One symbol: the state after it, and what is still to do.\<close>

lemma build_new_var:
  assumes "i < 0x10000"
  shows "build_cell a (EncodeNewTrieVar i, False) st =
    Inr (HRef a, bind_var i (HRef a) (if var_addr_accum_num st \<le> i then st\<lparr>var_addr_accum_num := i + 1\<rparr> else st))"
  using decode_small(2) [OF assms] or_bits_small(5) [OF assms]
  by (simp add: build_cell_def build_var_def EncodeNewTrieVar_def IsNewTrieVar_def Let_def)

lemma build_old_var:
  assumes "i < 0x10000" "var_addr st i = Some c"
  shows "build_cell a (EncodeTrieVar i, False) st =
    Inr (c, if var_addr_accum_num st \<le> i then st\<lparr>var_addr_accum_num := i + 1\<rparr> else st)"
  using decode_small(1) [OF assms(1)] or_bits_small(3,4) [OF assms(1)] assms(2)
  by (simp add: build_cell_def build_var_def EncodeTrieVar_def IsNewTrieVar_def IsNewTrieAttv_def Let_def)

lemma names_prefix: "names g (vs @ vs') (ws @ ws') \<Longrightarrow> length vs = length ws \<Longrightarrow> i < length vs \<Longrightarrow> g (vs ! i) = ws ! i"
  unfolding names_def by (metis length_append nth_append trans_less_add1)

lemma rebuilt_step:
  assumes R: "rebuilt ads2 e2 (args @ pdl) st2 st'" and sy: "term_symbol e t = (x, e2, args)"
    and st: "addr_stack st = a # as" "addr_stack st2 = new_addrs @ as" "length new_addrs = length args" "length as = length pdl"
      "\<forall>b \<in> set new_addrs. hreg st \<le> b" "a \<notin> set (addr_stack st2)" "a < hreg st2"
    and ads2: "ads2 = ads @ extra"
    and h: "hreg st2 = hreg st + length args + (if struct_tag x then 1 else 0)"
    and c: "\<And>b. b < hreg st \<Longrightarrow> b \<noteq> a \<Longrightarrow> cells st2 b = cells st b"
    and here: "\<And>g ads'. names g (ve_trail (snd (syms e2 (args @ pdl)))) (ads2 @ ads') \<Longrightarrow> bound (ads2 @ ads') st' \<Longrightarrow>
      (\<And>b. b < hreg st2 \<Longrightarrow> b \<notin> set (addr_stack st2) \<Longrightarrow> cells st' b = cells st2 b) \<Longrightarrow>
      list_all2 (place (cells st')) new_addrs (map (ren g) args) \<Longrightarrow> place (cells st') a (ren g t)"
  shows "rebuilt ads e (t # pdl) st st'"
proof -
  have w: "syms e (t # pdl) = (x # fst (syms e2 (args @ pdl)), snd (syms e2 (args @ pdl)))" by (simp add: sy)
  from R obtain new where new: "bound (ads2 @ new) st'" "addr_stack st' = []"
    "length (ads2 @ new) = length (ve_trail (snd (syms e2 (args @ pdl))))"
    "\<And>b. b < hreg st2 \<Longrightarrow> b \<notin> set (addr_stack st2) \<Longrightarrow> cells st' b = cells st2 b"
    "hreg st' + length (args @ pdl) = hreg st2 + length (fst (syms e2 (args @ pdl))) + structs (fst (syms e2 (args @ pdl)))"
    "\<And>g. names g (ve_trail (snd (syms e2 (args @ pdl)))) (ads2 @ new) \<Longrightarrow>
      list_all2 (place (cells st')) (addr_stack st2) (map (ren g) (args @ pdl))"
    unfolding rebuilt_def by blast
  show ?thesis
    unfolding rebuilt_def w fst_conv snd_conv
  proof (intro exI [of _ "extra @ new"] conjI allI impI)
    show "bound (ads @ extra @ new) st'" "length (ads @ extra @ new) = length (ve_trail (snd (syms e2 (args @ pdl))))"
      using new(1,3) by (simp_all add: ads2)
    show "hreg st' + length (t # pdl) = hreg st + length (x # fst (syms e2 (args @ pdl))) + structs (x # fst (syms e2 (args @ pdl)))"
      using new(5) h by (simp add: structs_def)
    show "cells st' b = cells st b" if b: "b < hreg st" "b \<notin> set (addr_stack st)" for b
    proof -
      have "b \<notin> set (addr_stack st2)" using b st(1,2,5) by auto
      then show ?thesis using new(4) [of b] c [of b] b h st(1) by simp
    qed
    fix g assume "names g (ve_trail (snd (syms e2 (args @ pdl)))) (ads @ extra @ new)"
    then have g: "names g (ve_trail (snd (syms e2 (args @ pdl)))) (ads2 @ new)" by (simp add: ads2)
    then have l: "list_all2 (place (cells st')) new_addrs (map (ren g) args)" "list_all2 (place (cells st')) as (map (ren g) pdl)"
      using new(6) [OF g] st(3) by (simp_all add: st(2) list_all2_append)
    have "place (cells st') a (ren g t)" by (rule here [OF g new(1) new(4) l(1)])
    then show "list_all2 (place (cells st')) (addr_stack st) (map (ren g) (t # pdl))" using l(2) by (simp add: st(1))
  qed (rule new(2))
qed

lemma rebuild:
  assumes "\<forall>t \<in> set ts. no_attv t" "plain e" "room e (snd (syms e ts))" "length ads = length (ve_trail e)"
    "bound ads st" "length (addr_stack st) = length ts"
  shows "\<exists>st'. rec_macro_make_heap_term (plain_syms (fst (syms e ts))) st = Inr ([], st') \<and> rebuilt ads e ts st st'"
  using assms
proof (induction e ts arbitrary: ads st rule: syms.induct)
  case (1 e)
  then show ?case by (simp add: plain_syms_def rebuilt_def structs_def)
next
  case (2 e t pdl)
  let ?x = "fst (term_symbol e t)" and ?e = "fst (snd (term_symbol e t))" and ?args = "snd (snd (term_symbol e t))"
  obtain a as where a: "addr_stack st = a # as" "length as = length pdl" using "2.prems"(6) by (cases "addr_stack st") auto
  let ?st = "st\<lparr>addr_stack := as\<rparr>"
  have w: "syms e (t # pdl) = (?x # fst (syms ?e (?args @ pdl)), snd (syms ?e (?args @ pdl)))" by simp
  have r: "room e ?e" by (rule room_step [OF "2.prems"(3)])
  have once: "once e t" using "2.prems"(1) by (cases t) (simp_all add: once_def)
  have p: "plain ?e" using term_symbol_same [of e e t t, OF _ refl once once r r] "2.prems"(2) by (simp add: same_step_def)
  have r2: "room ?e (snd (syms ?e (?args @ pdl)))" using "2.prems"(3) room_size [OF r] by (simp add: room_def)
  have na: "\<forall>u \<in> set (?args @ pdl). no_attv u" using "2.prems"(1) by (cases t) auto
  have sy: "term_symbol e t = (?x, ?e, ?args)" by simp
  have len_e: "length (ve_trail ?e) \<le> 0x10000" using r by (simp add: room_def)
  have b: "distinct (ads @ a # as)" "\<And>b. b \<in> set (ads @ a # as) \<Longrightarrow> b < hreg st"
    "\<And>i. i < length ads \<Longrightarrow> var_addr st i = Some (HRef (ads ! i)) \<and> cells st (ads ! i) = Some (HRef (ads ! i))"
    "num_heap_term_vars st = length ads"
    using "2.prems"(5) by (auto simp: bound_def a(1))
  have run: "\<exists>st'. rec_macro_make_heap_term (plain_syms (fst (syms e (t # pdl)))) st = Inr ([], st') \<and>
      rebuilt ads e (t # pdl) st st'"
    if step: "build_cell a (?x, False) ?st = Inr (c, st1)" and ads2: "ads2 = ads @ extra" "length ads2 = length (ve_trail ?e)"
      and st2: "bound ads2 (set_cell a c st1)" "addr_stack st1 = new_addrs @ as" "length new_addrs = length ?args"
      "\<forall>b \<in> set new_addrs. hreg st \<le> b" "hreg st1 = hreg st + length ?args + (if struct_tag ?x then 1 else 0)"
      "\<And>b. b < hreg st \<Longrightarrow> cells st1 b = cells st b"
      and here: "\<And>h g ads'. names g (ve_trail (snd (syms ?e (?args @ pdl)))) (ads2 @ ads') \<Longrightarrow>
        (\<And>i. i < length (ads2 @ ads') \<Longrightarrow> h ((ads2 @ ads') ! i) = Some (HRef ((ads2 @ ads') ! i))) \<Longrightarrow>
        (\<And>b. b < hreg st1 \<Longrightarrow> b \<notin> set (new_addrs @ as) \<Longrightarrow> h b = (if b = a then Some c else cells st1 b)) \<Longrightarrow>
        list_all2 (place h) new_addrs (map (ren g) ?args) \<Longrightarrow> stands h c (ren g t)"
    for c st1 ads2 extra new_addrs
  proof -
    let ?st2 = "set_cell a c st1"
    have v: "addr_stack ?st2 = new_addrs @ as" "hreg ?st2 = hreg st1" "cells ?st2 = (cells st1)(a \<mapsto> c)"
      by (simp_all add: set_cell_def st2(2))
    have al: "a < hreg st" using b(2) by simp
    then have an: "a \<notin> set (new_addrs @ as)" using st2(4) b(1) by auto
    have "length (addr_stack ?st2) = length (?args @ pdl)" using v(1) st2(3) a(2) by simp
    from "2.IH" [OF na p r2 ads2(2) st2(1) this] obtain st'
      where st': "rec_macro_make_heap_term (plain_syms (fst (syms ?e (?args @ pdl)))) ?st2 = Inr ([], st')"
        "rebuilt ads2 ?e (?args @ pdl) ?st2 st'" by blast
    have "rebuilt ads e (t # pdl) st st'"
    proof (rule rebuilt_step [OF st'(2) sy a(1) v(1) st2(3) a(2) st2(4) _ _ ads2(1)])
      show "a \<notin> set (addr_stack ?st2)" using an by (simp add: v(1))
      show "a < hreg ?st2" "hreg ?st2 = hreg st + length ?args + (if struct_tag ?x then 1 else 0)"
        using al st2(5) by (simp_all add: v(2))
      show "cells ?st2 b = cells st b" if "b < hreg st" "b \<noteq> a" for b using st2(6) that by (simp add: v(3))
      fix g ads' assume g: "names g (ve_trail (snd (syms ?e (?args @ pdl)))) (ads2 @ ads')" and bd: "bound (ads2 @ ads') st'"
        and keep: "\<And>b. b < hreg ?st2 \<Longrightarrow> b \<notin> set (addr_stack ?st2) \<Longrightarrow> cells st' b = cells ?st2 b"
        and l: "list_all2 (place (cells st')) new_addrs (map (ren g) ?args)"
      have "cells st' a = Some c" using keep [of a] an al st2(5) by (simp add: v)
      moreover have "stands (cells st') c (ren g t)"
        by (rule here [OF g _ _ l]) (use bd keep in \<open>auto simp: bound_def v\<close>)
      ultimately show "place (cells st') a (ren g t)" by blast
    qed
    then show ?thesis
      unfolding w using st'(1) step by (simp add: plain_syms_def a(1))
  qed
  show ?case
  proof (cases t)
    case (TVar v)
    show ?thesis
    proof (cases "IsStandardizedVariable v e")
      case True
      let ?i = "IndexOfStdVar v e"
      have i: "?i < length ads" "ve_trail e ! ?i = v" using index_std [OF "2.prems"(2) True] "2.prems"(4) by simp_all
      have sm: "?i < 0x10000" using i(1) len_e TVar True "2.prems"(4) by simp
      let ?st1 = "if var_addr_accum_num ?st \<le> ?i then ?st\<lparr>var_addr_accum_num := ?i + 1\<rparr> else ?st"
      show ?thesis
      proof (rule run [of "HRef (ads ! ?i)" ?st1 ads "[]" "[]"])
        show "build_cell a (?x, False) ?st = Inr (HRef (ads ! ?i), ?st1)"
          using build_old_var [OF sm, of ?st "HRef (ads ! ?i)" a] b(3) [OF i(1)] TVar True by simp
        show "bound ads (set_cell a (HRef (ads ! ?i)) ?st1)"
          using b by (auto simp: bound_def set_cell_def)
        show "stands h (HRef (ads ! ?i)) (ren g t)"
          if "names g (ve_trail (snd (syms ?e (?args @ pdl)))) (ads @ ads')"
            "\<And>j. j < length (ads @ ads') \<Longrightarrow> h ((ads @ ads') ! j) = Some (HRef ((ads @ ads') ! j))" for h g ads'
        proof -
          obtain vs where vs: "ve_trail (snd (syms ?e (?args @ pdl))) = ve_trail e @ vs"
            using syms_trail [of e "t # pdl"] by auto
          have "g v = ads ! ?i" using names_prefix [of g "ve_trail e" vs ads ads' ?i] that(1) vs i "2.prems"(4) by simp
          moreover have "h (ads ! ?i) = Some (HRef (ads ! ?i))" using that(2) [of ?i] i(1) by (simp add: nth_append)
          ultimately show ?thesis using TVar by (simp add: stands_var)
        qed
      qed (use TVar True "2.prems"(4) in \<open>simp_all add: EncodeTrieVar_def\<close>)
    next
      case False
      have e: "ve_trail ?e = ve_trail e @ [v]" using TVar False by (simp add: standardize_ok)
      have sm: "length ads < 0x10000" using len_e e "2.prems"(4) by simp
      let ?st1 = "bind_var (length ads) (HRef a) (if var_addr_accum_num ?st \<le> length ads then ?st\<lparr>var_addr_accum_num := length ads + 1\<rparr> else ?st)"
      show ?thesis
      proof (rule run [of "HRef a" ?st1 "ads @ [a]" "[a]" "[]"])
        show "build_cell a (?x, False) ?st = Inr (HRef a, ?st1)"
          using build_new_var [OF sm, of a ?st] TVar False "2.prems"(4) by simp
        show "bound (ads @ [a]) (set_cell a (HRef a) ?st1)"
          using b by (auto simp: bound_def set_cell_def bind_var_def nth_append less_Suc_eq)
        show "stands h (HRef a) (ren g t)"
          if "names g (ve_trail (snd (syms ?e (?args @ pdl)))) ((ads @ [a]) @ ads')"
            "\<And>j. j < length ((ads @ [a]) @ ads') \<Longrightarrow> h (((ads @ [a]) @ ads') ! j) = Some (HRef (((ads @ [a]) @ ads') ! j))" for h g ads'
        proof -
          obtain vs where vs: "ve_trail (snd (syms ?e (?args @ pdl))) = (ve_trail e @ [v]) @ vs"
            using syms_trail [of ?e "?args @ pdl"] e by auto
          have "g v = a"
            using names_prefix [of g "ve_trail e @ [v]" vs "ads @ [a]" ads' "length ads"] that(1) vs "2.prems"(4) by (simp add: nth_append)
          moreover have "h a = Some (HRef a)" using that(2) [of "length ads"] by (simp add: nth_append)
          ultimately show ?thesis using TVar by (simp add: stands_var)
        qed
      qed (use TVar False "2.prems"(4) e in \<open>simp_all add: bind_var_def EncodeNewTrieVar_def\<close>)
    qed
  next
    case (TAttv v u)
    then show ?thesis using "2.prems"(1) by simp
  next
    case (TInt n)
    show ?thesis
      by (rule run [of "HInt n" ?st ads "[]" "[]"])
        (use TInt "2.prems"(4) b in \<open>auto simp: build_cell_def bound_def set_cell_def stands_int\<close>)
  next
    case (TString n)
    show ?thesis
      by (rule run [of "HString n" ?st ads "[]" "[]"])
        (use TString "2.prems"(4) b in \<open>auto simp: build_cell_def bound_def set_cell_def stands_string\<close>)
  next
    case (TFloat n)
    show ?thesis
      by (rule run [of "HFloat n" ?st ads "[]" "[]"])
        (use TFloat "2.prems"(4) b in \<open>auto simp: build_cell_def bound_def set_cell_def stands_float\<close>)
  next
    case (TList t1 t2)
    let ?h = "hreg st"
    let ?st1 = "?st\<lparr>hreg := ?h + 2, addr_stack := ?h # (?h + 1) # as\<rparr>"
    show ?thesis
    proof (rule run [of "HList ?h" ?st1 ads "[]" "[?h, ?h + 1]"])
      show "build_cell a (?x, False) ?st = Inr (HList ?h, ?st1)" using TList by (simp add: build_cell_def Let_def)
      show "bound ads (set_cell a (HList ?h) ?st1)"
        using b by (fastforce simp: bound_def set_cell_def)
      show "stands h (HList ?h) (ren g t)" if "list_all2 (place h) [?h, ?h + 1] (map (ren g) ?args)" for h g
        using that TList by (auto intro!: stands_list)
    qed (use TList "2.prems"(4) in simp_all)
  next
    case (TCs q us)
    let ?h = "hreg st" and ?n = "length us"
    let ?new = "map (\<lambda>j. ?h + 1 + j) [0..<?n]"
    let ?st1 = "set_cell ?h (HFunctor q ?n) ?st\<lparr>hreg := ?h + (?n + 1), addr_stack := ?new @ as\<rparr>"
    show ?thesis
    proof (rule run [of "HCs ?h" ?st1 ads "[]" ?new])
      show "build_cell a (?x, False) ?st = Inr (HCs ?h, ?st1)" using TCs by (simp add: build_cell_def set_cell_def Let_def)
      have lt: "b < ?h" if "b \<in> set ads \<or> b = a \<or> b \<in> set as" for b using b(2) that by auto
      have new: "distinct ?new" "\<And>b. b \<in> set ?new \<Longrightarrow> ?h < b \<and> b < ?h + (?n + 1)" by (auto simp: distinct_map inj_on_def)
      have v: "addr_stack (set_cell a (HCs ?h) ?st1) = ?new @ as" "hreg (set_cell a (HCs ?h) ?st1) = ?h + (?n + 1)"
        "var_addr (set_cell a (HCs ?h) ?st1) = var_addr st" "num_heap_term_vars (set_cell a (HCs ?h) ?st1) = num_heap_term_vars st"
        "cells (set_cell a (HCs ?h) ?st1) = (cells st)(?h \<mapsto> HFunctor q ?n, a \<mapsto> HCs ?h)"
        by (simp_all add: set_cell_def)
      show "bound ads (set_cell a (HCs ?h) ?st1)"
        unfolding bound_def v
      proof (intro conjI ballI allI impI)
        have "set ?new \<inter> (set ads \<union> set as) = {}" using new(2) lt by fastforce
        then show "distinct (ads @ ?new @ as)" using new(1) b(1) by auto
        show "c < ?h + (?n + 1)" if "c \<in> set (ads @ ?new @ as)" for c
        proof (cases "c \<in> set ?new")
          case False
          then have "c < ?h" using that lt [of c] by auto
          then show ?thesis by simp
        qed (use new(2) in blast)
        fix i assume i: "i < length ads"
        then have "ads ! i \<in> set ads" by simp
        then have "ads ! i \<noteq> a" "ads ! i \<noteq> ?h" using b(1) lt [of "ads ! i"] by auto
        then show "((cells st)(?h \<mapsto> HFunctor q ?n, a \<mapsto> HCs ?h)) (ads ! i) = Some (HRef (ads ! i))" using b(3) [OF i] by simp
      qed (simp_all add: b(3,4))
      show "stands h (HCs ?h) (ren g t)"
        if "\<And>b. b < hreg ?st1 \<Longrightarrow> b \<notin> set (?new @ as) \<Longrightarrow> h b = (if b = a then Some (HCs ?h) else cells ?st1 b)"
          "list_all2 (place h) ?new (map (ren g) ?args)" for h g
      proof -
        have "?h \<notin> set (?new @ as)" "?h \<noteq> a" using lt by auto
        then have "h ?h = Some (HFunctor q ?n)" using that(1) [of ?h] by (simp add: set_cell_def)
        then show ?thesis using that(2) TCs stands_cs [of h ?h q "map (ren g) us"] by simp
      qed
    qed (use TCs "2.prems"(4) in \<open>simp_all add: set_cell_def\<close>)
  qed
qed


section \<open>The two macros\<close>

lemma set_cell_simps [simp]:
  "hreg (set_cell a c st) = hreg st" "addr_stack (set_cell a c st) = addr_stack st" "var_addr (set_cell a c st) = var_addr st"
  "num_heap_term_vars (set_cell a c st) = num_heap_term_vars st" "var_addr_accum_num (set_cell a c st) = var_addr_accum_num st"
  "cells (set_cell a c st) = (cells st)(a \<mapsto> c)"
  by (simp_all add: set_cell_def)

lemma set_cell_swap: "g \<noteq> h \<Longrightarrow> set_cell h d (set_cell g c st) = set_cell g c (set_cell h d st)"
  by (simp add: set_cell_def fun_upd_twist)

lemma set_cell_updates:
  "set_cell g c st\<lparr>hreg := k\<rparr> = set_cell g c (st\<lparr>hreg := k\<rparr>)" "set_cell g c st\<lparr>addr_stack := as\<rparr> = set_cell g c (st\<lparr>addr_stack := as\<rparr>)"
  "set_cell g c st\<lparr>var_addr_accum_num := k\<rparr> = set_cell g c (st\<lparr>var_addr_accum_num := k\<rparr>)"
  "bind_var i d (set_cell g c st) = set_cell g c (bind_var i d st)"
  by (simp_all add: set_cell_def bind_var_def)

lemma build_other:
  assumes "g \<noteq> hreg st"
  shows "build_cell a x (set_cell g c st) = res_bind (build_cell a x st) (\<lambda>(d, st'). Inr (d, set_cell g c st'))"
proof -
  have "build_var a v (set_cell g c st) = (fst (build_var a v st), set_cell g c (snd (build_var a v st)))" for v
    using assms
    by (simp add: build_var_def Let_def set_cell_def bind_var_def fun_upd_twist [of g "hreg st"] split: option.split)
  then show ?thesis
    using assms
    by (simp add: build_cell_def Let_def split_beta set_cell_updates set_cell_swap [of g "hreg st"] split: tsym.split)
qed

lemma build_grows:
  assumes "build_cell a x st = Inr (d, st')"
  shows "hreg st \<le> hreg st' \<and> (\<forall>b \<in> set (addr_stack st'). b \<in> set (addr_stack st) \<or> hreg st \<le> b)"
  using assms
  by (auto simp: build_cell_def build_var_def Let_def bind_var_def split: tsym.splits prod.splits if_splits option.splits)

lemma rec_other:
  "g < hreg st \<Longrightarrow> g \<notin> set (addr_stack st) \<Longrightarrow>
   rec_macro_make_heap_term xs (set_cell g c st) =
     res_bind (rec_macro_make_heap_term xs st) (\<lambda>(ys, st'). Inr (ys, set_cell g c st'))"
proof (induction xs arbitrary: st)
  case (Cons x xs)
  show ?case
  proof (cases "addr_stack st")
    case (Cons a as)
    let ?st = "st\<lparr>addr_stack := as\<rparr>"
    have step: "build_cell a x (set_cell g c ?st) = res_bind (build_cell a x ?st) (\<lambda>(d, st'). Inr (d, set_cell g c st'))"
      using Cons.prems(1) by (intro build_other) simp
    show ?thesis
    proof (cases "build_cell a x ?st")
      case (Inr r)
      obtain d st1 where r: "r = (d, st1)" by fastforce
      have "g < hreg (set_cell a d st1)" "g \<notin> set (addr_stack (set_cell a d st1))" "g \<noteq> a"
        using build_grows [of a x ?st d st1] Inr r Cons.prems Cons by auto
      note ih = Cons.IH [OF this(1,2)] and sw = set_cell_swap [OF \<open>g \<noteq> a\<close>]
      show ?thesis using Cons Inr r step ih by (simp add: set_cell_updates sw)
    qed (use Cons step in \<open>simp add: set_cell_updates\<close>)
  qed simp
qed simp

lemma build_no_arguments: "\<not> has_arguments x \<Longrightarrow> build_cell a x st = Inr (d, st') \<Longrightarrow> addr_stack st' = addr_stack st"
  by (auto simp: build_cell_def build_var_def has_arguments_def Let_def bind_var_def split: tsym.splits prod.splits if_splits option.splits)

lemma macro_rec:
  assumes "addr_stack st = []" "g < hreg st" "rec_macro_make_heap_term (x # xs) (st\<lparr>addr_stack := [g]\<rparr>) = Inr ([], st')"
  shows "\<exists>c st1. macro_make_heap_term g (x # xs) st = Inr (c, [], st1) \<and> set_cell g c st1 = st'"
proof -
  have st: "st\<lparr>addr_stack := []\<rparr> = st" using assms(1) by simp
  obtain c st0 where c: "build_cell g x st = Inr (c, st0)" "rec_macro_make_heap_term xs (set_cell g c st0) = Inr ([], st')"
    using assms(3) st by auto
  have "g < hreg st0" "g \<notin> set (addr_stack st0)" using build_grows [OF c(1)] assms(1,2) by auto
  with c(2) obtain st1 where st1: "rec_macro_make_heap_term xs st0 = Inr ([], st1)" "st' = set_cell g c st1"
    using rec_other [of g st0 xs c] by (auto simp: res_bind_def split: sum.splits)
  show ?thesis
  proof (cases "has_arguments x")
    case False
    then have "addr_stack st0 = []" using build_no_arguments [OF _ c(1)] assms(1) by simp
    then have "xs = []" "st1 = st0" using st1(1) by (cases xs; simp)+
    then show ?thesis using c(1) False st1(2) by (simp add: macro_make_heap_term_def)
  qed (use c(1) st1 in \<open>simp add: macro_make_heap_term_def\<close>)
qed

section \<open>The path\<close>

lemma struct_not_const:
  assumes "op_class i \<in> {0x60, 0x7c, 0x90}"
  shows "\<not> trie_const_instr i"
proof -
  have "i = op_class i + cp_type i" "cp_type i < 4" using cp_op [of i] by (simp_all add: cp_type_def)
  then have "i \<in> {0x60, 0x61, 0x62, 0x63, 0x7c, 0x7d, 0x7e, 0x7f, 0x90, 0x91, 0x92, 0x93}" using assms by auto
  then show ?thesis by (auto simp: trie_const_instr_def)
qed

lemma follow_path:
  assumes t: "trie_at s r k" and c: "struct_codes s" and p: "at_path (cores s) r w n" and w: "\<forall>x \<in> set w. \<not> isinternstr x"
    and n: "n < fuel"
  shows "follow_par_chain fuel s n (stack, sp) = Inr (plain_syms w @ stack, sp + length w + structs w)"
  using p w n
proof (induction w arbitrary: n fuel stack sp rule: rev_induct)
  case Nil
  obtain b where "deref s r = Inr b" "bt_nodetype b = TRIE_ROOT_NT" using t by (auto simp: trie_at_def view_Some)
  then show ?case using Nil by (cases fuel) (simp_all add: IsTrieRoot_def plain_syms_def structs_def)
next
  case (snoc x w)
  obtain q where q: "at_path (cores s) r w q" "parent_at (cores s) n = Some q" "symbol_at (cores s) n = Some x"
    using snoc.prems(1) by (auto simp: at_path_last)
  obtain b where b: "deref s n = Inr b" using q(2) by (cases "deref s n") (auto simp: parent_at_def view_def)
  have bs: "bt_symbol b = x" "bt_parent b = Some q" using q b by (simp_all add: parent_at_def symbol_at_def view_deref)
  have "\<not> is_root (cores s) n" using t snoc.prems(1) unfolding trie_at_def by blast
  then have nr: "\<not> IsTrieRoot b" using root_nt [of s n] b by (auto simp: IsTrieRoot_def view_deref)
  have "q < n" using t q(2) unfolding trie_at_def trie_ok_def parents_ok_def by blast
  obtain fl where fl: "fuel = Suc fl" "q < fl" using \<open>q < n\<close> snoc.prems(3) by (cases fuel) auto
  have "struct_code (core b)" using c view_deref [OF b, of core] unfolding struct_codes_def by blast
  then have "struct_code b" by simp
  then have "struct_tag x \<Longrightarrow> \<not> trie_const_instr (bt_instr b)"
    using snoc.prems(2) bs(1) struct_not_const by (cases x) (auto simp: struct_code_def)
  then show ?case
    using snoc.IH [OF q(1) _ fl(2)] snoc.prems(2) b bs nr fl(1)
    by (simp add: Let_def plain_syms_def structs_def)
qed

lemma trie_path_heap_size_eq:
  "trie_path_heap_size fuel s n sp = res_bind (follow_par_chain fuel s n (stack, sp)) (\<lambda>(_, sp). Inr sp)"
proof (induction fuel arbitrary: n sp stack)
  case (Suc fuel)
  then show ?case
    by (cases "deref s n") (simp_all add: Let_def split: option.split)
qed simp

section \<open>Loading a leaf\<close>

lemma no_internstr: "\<forall>x \<in> set (fst (syms e ts)). \<not> isinternstr x"
proof (induction e ts rule: syms.induct)
  case (2 e t pdl)
  have "\<not> isinternstr (fst (term_symbol e t))"
    by (cases t) (simp_all add: EncodeNewTrieVar_def EncodeTrieVar_def EncodeNewTrieAttv_def)
  then show ?case using 2 by simp
qed simp

lemma no_attv_once: "\<forall>t \<in> set ts. no_attv t \<Longrightarrow> attributes_once e ts"
proof (induction e ts rule: attributes_once.induct)
  case (2 e t pdl)
  have "\<forall>u \<in> set (snd (snd (term_symbol e t)) @ pdl). no_attv u" using 2(2) by (cases t) auto
  moreover have "case t of TAttv v a \<Rightarrow> \<not> IsStandardizedVariable v e | _ \<Rightarrow> True" using 2(2) by (cases t) auto
  ultimately show ?case using 2(1) by simp
qed simp

theorem reload_law:
  assumes t: "trie_at s r 1" "struct_codes s" and l: "leaf_at s r (word_of sz [u]) n" and na: "no_attv u"
    and few: "length (vars_of sz [u]) \<le> sz" "length (vars_of sz [u]) \<le> 0x10000"
    and st: "g < hreg st" "addr_stack st = []"
  shows "\<exists>vars hn st'. bottomupunify g n s st = Inr (vars, hn, st') \<and>
    (\<exists>f. inj_on f (tvars u) \<and> place (cells st') g (ren f u) \<and> vars = map (\<lambda>v. Some (HRef (f v))) (vars_of sz [u])) \<and>
    hreg st' < hreg st + hn \<and> (\<forall>a < hreg st. a \<noteq> g \<longrightarrow> cells st' a = cells st a) \<and> addr_stack st' = []"
proof -
  let ?e = "start_enum sz" and ?w = "word_of sz [u]"
  have p: "at_path (cores s) r ?w n" "?w \<noteq> []" using l by (simp_all add: leaf_at_def)
  have live: "cores s r \<noteq> None" using t(1) by (auto simp: trie_at_def view_Some view_None)
  have "n < length s" by (rule at_path_below [OF p(1) live])
  from follow_path [OF t p(1) _ this, of "[]" 0] no_internstr [of ?e "[u]"]
  have path: "follow_par_chain (length s) s n ([], 0) = Inr (plain_syms ?w, length ?w + structs ?w)"
    by (simp add: word_of_def)
  let ?st = "st\<lparr>num_heap_term_vars := 0\<rparr>" and ?st1 = "st\<lparr>num_heap_term_vars := 0, addr_stack := [g]\<rparr>"
  have pl: "plain ?e" by (simp add: plain_def start_enum_def)
  have rm: "room ?e (snd (syms ?e [u]))" using few by (simp add: room_def vars_of_def start_enum_def)
  have b: "bound [] ?st1" using st(1) by (simp add: bound_def)
  have "\<exists>st'. rec_macro_make_heap_term (plain_syms (fst (syms ?e [u]))) ?st1 = Inr ([], st') \<and> rebuilt [] ?e [u] ?st1 st'"
    by (rule rebuild [OF _ pl rm _ b]) (simp_all add: na start_enum_def)
  then obtain st' where r: "rec_macro_make_heap_term (plain_syms ?w) ?st1 = Inr ([], st')" "rebuilt [] ?e [u] ?st1 st'"
    by (auto simp: word_of_def)
  obtain x xs where w: "plain_syms ?w = x # xs" using p(2) by (cases ?w) (auto simp: plain_syms_def)
  from macro_rec [of ?st g x xs st'] r(1) st w
  obtain c st0 where m: "macro_make_heap_term g (plain_syms ?w) ?st = Inr (c, [], st0)" "set_cell g c st0 = st'" by auto
  from r(2) obtain ads where a: "bound ads st'" "addr_stack st' = []" "length ads = length (vars_of sz [u])"
    "\<forall>a < hreg st. a \<noteq> g \<longrightarrow> cells st' a = cells st a" "hreg st' + 1 = hreg st + length ?w + structs ?w"
    "\<And>f. names f (vars_of sz [u]) ads \<Longrightarrow> place (cells st') g (ren f u)"
    unfolding rebuilt_def by (auto simp: vars_of_def word_of_def)
  have "attributes_once ?e [u]" by (rule no_attv_once) (simp add: na)
  from trail_vars [OF pl this rm] have tv: "set (vars_of sz [u]) = tvars u" by (simp add: vars_of_def start_enum_def)
  have "plain (snd (syms ?e [u]))"
    using syms_same [of ?e "[u]" ?e "[u]"] pl rm \<open>attributes_once ?e [u]\<close> by (simp add: same_step_def)
  then have d: "distinct (vars_of sz [u])" by (simp add: plain_def vars_of_def)
  have "distinct ads" using a(1) by (simp add: bound_def)
  from names_exist [OF d this a(3) [symmetric]] obtain f where f: "names f (vars_of sz [u]) ads" "inj_on f (tvars u)"
    by (auto simp: tv)
  have num: "num_heap_term_vars st0 = length ads" "\<And>i. i < length ads \<Longrightarrow> var_addr st0 i = Some (HRef (ads ! i))"
    using a(1) m(2) by (auto simp: bound_def)
  have "map (var_addr st0) [0..<length ads] = map (\<lambda>v. Some (HRef (f v))) (vars_of sz [u])"
    by (rule nth_equalityI) (use a(3) f(1) num(2) in \<open>simp_all add: names_def\<close>)
  moreover have "bottomupunify g n s st = Inr (map (var_addr st0) [0..<length ads], length ?w + structs ?w, st')"
    using path m num(1) by (simp add: bottomupunify_def)
  ultimately show ?thesis using a(2,4,5) a(6) [OF f(1)] f(2) by auto
qed

end
