(* ===== verification/Trie_Deletion.thy ===== *)
theory Trie_Deletion imports Trie_Nodes begin

text \<open>
  Freeing the nodes of a trie: one branch up to where it joins others (\<open>delete_branch\<close>), or the whole
  trie (\<open>delete_trie\<close>), of emu/tr_utils.c.

  The pointer to the trie is the state beside the store of nodes. A node that is freed twice
  is an error here; the code looks at a mark that the freed memory has and does nothing.
\<close>

section \<open>One branch\<close>

text \<open>Where the branch ends: the variable with the root, or the child field of a node.\<close>

datatype trie_hook = Root_Var | Child_Of nat

text \<open>
  The parent, unless the hook is reached, and the field that has the level of the node.
\<close>

definition set_parent_and_node_hook :: "trie_hook \<Rightarrow> btn \<Rightarrow> nat option \<times> trie_hook" where
  "set_parent_and_node_hook hk b =
    (let par = (if IsTrieRoot b then None
                else (case bt_parent b of
                        Some p \<Rightarrow> if hk = Child_Of p then None else Some p
                      | None \<Rightarrow> None)) in
     (par, case par of None \<Rightarrow> hk | Some p \<Rightarrow> Child_Of p))"

text \<open>The hash table in a field, with the node whose field it is.\<close>

definition is_hash :: "trie_hook \<Rightarrow> btns \<Rightarrow> (nat \<times> trie_ht) option res" where
  "is_hash hk s =
    (case hk of
       Root_Var \<Rightarrow> Inr None
     | Child_Of p \<Rightarrow> res_bind (deref s p) (\<lambda>b.
         Inr (case bt_child b of Hashed h \<Rightarrow> Some (p, h) | Chain _ \<Rightarrow> None)))"

definition Contains_NOCP_Instr :: "btn \<Rightarrow> bool" where "Contains_NOCP_Instr b \<longleftrightarrow> cp_type (bt_instr b) = 0"
definition Contains_TRUST_Instr :: "btn \<Rightarrow> bool" where "Contains_TRUST_Instr b \<longleftrightarrow> cp_type (bt_instr b) = 1"
definition Contains_TRY_Instr :: "btn \<Rightarrow> bool" where "Contains_TRY_Instr b \<longleftrightarrow> cp_type (bt_instr b) = 2"

text \<open>The chain of a node, and the children of its parent with another chain in its place.\<close>

definition own_chain :: "tsym \<Rightarrow> kids \<Rightarrow> nat list" where
  "own_chain x k = (case k of Chain ns \<Rightarrow> ns | Hashed h \<Rightarrow> buckets h ! TrieHash x (length (buckets h) - 1))"

definition drop_from_chain :: "tsym \<Rightarrow> nat list \<Rightarrow> kids \<Rightarrow> kids" where
  "drop_from_chain x ns k = (case k of
       Chain _ \<Rightarrow> Chain ns
     | Hashed h \<Rightarrow> Hashed (h\<lparr>buckets := (buckets h)[TrieHash x (length (buckets h) - 1) := ns],
                            numContents := numContents h - 1\<rparr>))"

definition get_prev_sibl :: "nat \<Rightarrow> nat list \<Rightarrow> nat res" where
  "get_prev_sibl n chain =
    (case rev (takeWhile (\<lambda>m. m \<noteq> n) chain) of
       [] \<Rightarrow> Inl (Xsb_Abort ''Error in get_previous_sibling'')
     | m # _ \<Rightarrow> if n \<in> set chain then Inr m else Inl (Xsb_Abort ''Error in get_previous_sibling''))"

text \<open>The node at which the branch joins others leaves its chain.\<close>

definition unlink_node :: "nat \<Rightarrow> btn \<Rightarrow> btns \<Rightarrow> btns res" where
  "unlink_node n b s =
    (case bt_parent b of
       None \<Rightarrow> Inl Null_Pointer
     | Some p \<Rightarrow> res_bind (deref s p) (\<lambda>pb.
         let chain = own_chain (bt_symbol b) (bt_child pb); rest = tl (dropWhile (\<lambda>m. m \<noteq> n) chain) in
         if Contains_TRY_Instr b
         then (case rest of
                 [] \<Rightarrow> Inl Null_Pointer
               | m # _ \<Rightarrow> Inr (free_obj n (set_child p (drop_from_chain (bt_symbol b) rest (bt_child pb))
                   (upd_obj m (\<lambda>b. b\<lparr>bt_instr := bt_instr b - 1\<rparr>) s))))
         else res_bind (get_prev_sibl n chain) (\<lambda>m.
           let s = (if Contains_TRUST_Instr b then upd_obj m (\<lambda>b. b\<lparr>bt_instr := bt_instr b - 2\<rparr>) s else s) in
           Inr (free_obj n (set_child p
             (drop_from_chain (bt_symbol b) (takeWhile (\<lambda>m. m \<noteq> n) chain @ rest) (bt_child pb)) s)))))"

definition clear_hook :: "trie_hook \<Rightarrow> nat option \<times> btns \<Rightarrow> nat option \<times> btns" where
  "clear_hook hk = (\<lambda>(root, s). case hk of Root_Var \<Rightarrow> (None, s) | Child_Of p \<Rightarrow> (root, set_child p (Chain []) s))"

text \<open>
  When the last entry of a hash table has gone, the table is freed. The field that has it is
  not read again: its node is freed next, or the hook is cleared.
\<close>

function delete_branch :: "trie_hook \<Rightarrow> nat \<Rightarrow> nat option \<times> btns \<Rightarrow> (nat option \<times> btns) res" where
  "delete_branch hk n (root, s) =
    (case deref s n of
       Inl e \<Rightarrow> Inl e
     | Inr b \<Rightarrow>
        if Contains_NOCP_Instr b \<or> IsTrieRoot b then
          (case is_hash (snd (set_parent_and_node_hook hk b)) s of
             Inl e \<Rightarrow> Inl e
           | Inr (Some (p, h)) \<Rightarrow>
              (let h = h\<lparr>buckets := (buckets h)[TrieHash (bt_symbol b) (length (buckets h) - 1) := []],
                        numContents := numContents h - 1\<rparr>;
                   s' = free_obj n (set_child p (Hashed h) s) in
               if 0 < numContents h then Inr (root, s')
               else (case fst (set_parent_and_node_hook hk b) of
                       None \<Rightarrow> Inr (clear_hook hk (root, s'))
                     | Some q \<Rightarrow> delete_branch hk q (root, s')))
           | Inr None \<Rightarrow>
              (case fst (set_parent_and_node_hook hk b) of
                 None \<Rightarrow> Inr (clear_hook hk (root, free_obj n s))
               | Some q \<Rightarrow> delete_branch hk q (root, free_obj n s)))
        else res_bind (unlink_node n b s) (\<lambda>s. Inr (root, s)))"
  by pat_completeness auto

lemma in_use_free_child: "deref s n = Inr b \<Longrightarrow> in_use (free_obj n (set_child p k s)) < in_use s"
proof -
  assume "deref s n = Inr b"
  then have "\<exists>b'. deref (set_child p k s) n = Inr b'" by (auto simp: set_child_def deref_upd_obj)
  then show ?thesis using in_use_free [of "set_child p k s" n] by (auto simp: set_child_def in_use_upd_obj)
qed

termination delete_branch
  by (relation "measure (\<lambda>(_, _, _, s). in_use s)") (auto simp: in_use_free_child in_use_free)

section \<open>The whole trie\<close>

text \<open>
  The three stacks of \<open>delete_trie\<close> move together and are one here: a pointer to a chain or a table
  that has to be gone through, a node that can be freed, a table that can be freed.
\<close>

datatype dt_op = DT_NODE kids | DT_DS nat | DT_HT

definition push_chain :: "nat list \<Rightarrow> dt_op list \<Rightarrow> dt_op list" where
  "push_chain ns ops = (if ns = [] then ops else DT_NODE (Chain ns) # ops)"

definition push_kids :: "kids \<Rightarrow> dt_op list \<Rightarrow> dt_op list" where
  "push_kids k ops = (if k = Chain [] then ops else DT_NODE k # ops)"

definition dt_step :: "dt_op \<Rightarrow> dt_op list \<Rightarrow> btns \<Rightarrow> (dt_op list \<times> btns) res" where
  "dt_step op ops s =
    (case op of
       DT_DS n \<Rightarrow> res_bind (deref s n) (\<lambda>_. Inr (ops, free_obj n s))
     | DT_HT \<Rightarrow> Inr (ops, s)
     | DT_NODE (Hashed h) \<Rightarrow> Inr (foldl (\<lambda>ops ns. push_chain ns ops) (DT_HT # ops) (buckets h), s)
     | DT_NODE (Chain []) \<Rightarrow> Inr (ops, s)
     | DT_NODE (Chain (n # sib)) \<Rightarrow> res_bind (deref s n) (\<lambda>b.
         if IsLeafNode b
         then (if bt_child b \<noteq> Chain [] then Inl (Xsb_Abort ''Anomaly in delete_trie !'')
               else Inr (push_chain sib (DT_DS n # ops), s))
         else Inr (push_kids (bt_child b) (push_chain sib (DT_DS n # ops)), s)))"

partial_function (option) dt_loop :: "dt_op list \<Rightarrow> btns \<Rightarrow> btns res option" where
  "dt_loop ops s =
    (case ops of
       [] \<Rightarrow> Some (Inr s)
     | op # ops \<Rightarrow> (case dt_step op ops s of Inl e \<Rightarrow> Some (Inl e) | Inr (ops, s) \<Rightarrow> dt_loop ops s))"

definition delete_trie :: "nat \<Rightarrow> btns \<Rightarrow> btns res option" where
  "delete_trie iroot s = dt_loop [DT_NODE (Chain [iroot])] s"

end
