(* ===== verification/Trie_Pruning.thy ===== *)
theory Trie_Pruning imports Trie_Entering Trie_Deletion begin

text \<open>
  What \<open>delete_branch\<close> does: the leaf goes, with all the nodes above it that lead to nothing else, and the
  rest of the trie stays as it is.
\<close>

section \<open>A node without children is taken out\<close>

lemma removed_ok:
  assumes ok: "trie_ok s" and k: "kids_at s p = Some k" and m: "m \<in> set (kid_list k)" and none: "childless s m"
    and s': "cores s' = (cores s)(m := None)" "kids_at s' = (kids_at s)(m := None, p := Some k')"
      "\<And>x. x \<notin> set (kid_list k) \<Longrightarrow> cps s' x = cps s x"
    and k': "add_mset m (mset (kid_list k')) = mset (kid_list k)" "chains_ok (cps s') (chains k')" "table_ok (cores s) k'"
  shows "trie_ok s'"
proof (rule trie_ok_local [OF ok])
  note kd = trie_okD [OF ok k]
  have pm: "parent_at (cores s) m = Some p" using kd(3) m by simp
  have po: "parents_ok (cores s)" using ok by (simp add: trie_ok_def)
  have mp: "m \<noteq> p" using po pm by (auto simp: parents_ok_def)
  have par: "parent_at (cores s') x = (if x = m then None else parent_at (cores s) x)" for x
    by (simp add: s'(1) parent_at_def)
  have sy: "symbol_at (cores s') x = symbol_at (cores s) x" if "x \<noteq> m" for x
    using that by (simp add: s'(1) symbol_at_def)
  have st: "set (kid_list k) = insert m (set (kid_list k'))" using arg_cong [OF k'(1), of set_mset] by simp
  have d: "distinct (kid_list k')" "m \<notin> set (kid_list k')"
    using mset_eq_imp_distinct_iff [of "m # kid_list k'" "kid_list k"] k'(1) kd(2) by simp_all
  have "set (kid_list k') = {x. parent_at (cores s') x = Some p}"
    using st kd(3) d(2) by (auto simp: par)
  moreover have "inj_on (symbol_at (cores s')) (set (kid_list k'))"
    using kd(7) sy d(2) st unfolding inj_on_def by (metis insert_iff)
  moreover have "table_ok (cores s') k'"
    using table_ok_cong [of k' "cores s'" "cores s"] sy d(2) k'(3) by metis
  ultimately show "kids_ok (cores s') (cps s') p k'"
    using d(1) k'(2) by (simp add: kids_ok_def chains_ok_def)
  show "parents_ok (cores s')"
    unfolding parents_ok_def
  proof (intro allI impI)
    fix x q assume "parent_at (cores s') x = Some q"
    then have q: "parent_at (cores s) x = Some q" by (simp add: par split: if_splits)
    then have "q \<noteq> m" using none by (auto simp: childless_def)
    then show "q < x \<and> cores s' q \<noteq> None" using po q by (simp add: parents_ok_def s'(1))
  qed
  show "kids_at s' p = Some k'" by (simp add: s'(2))
  show "kids_at s q = Some k1 \<or> k1 = Chain [] \<and> (\<forall>x. parent_at (cores s') x \<noteq> Some q)"
    if "q \<noteq> p" "kids_at s' q = Some k1" for q k1 using that by (simp add: s'(2) split: if_splits)
  show "parent_at (cores s') x = Some q \<longleftrightarrow> parent_at (cores s) x = Some q" if "q \<noteq> p" for q x
    using that pm by (simp add: par)
  show "symbol_at (cores s') x = symbol_at (cores s) x \<and> cps s' x = cps s x"
    if "q \<noteq> p" "parent_at (cores s) x = Some q" for q x
  proof -
    have "x \<notin> set (kid_list k)" using kd(3) that by simp
    then show ?thesis using sy s'(3) m by metis
  qed
qed

lemma free_views: "cores (free_obj n s) = (cores s)(n := None)" "kids_at (free_obj n s) = (kids_at s)(n := None)"
  "cps (free_obj n s) = (cps s)(n := None)" "nts (free_obj n s) = (nts s)(n := None)"
  by (simp_all add: view_free)

section \<open>The chain that a node leaves\<close>

lemma own_chain_law:
  assumes ok: "trie_ok s" and k: "kids_at s p = Some k" and m: "parent_at (cores s) m = Some p" "symbol_at (cores s) m = Some x"
  shows "own_chain x k \<in> set (chains k)" "m \<in> set (own_chain x k)" "distinct (own_chain x k)" "chain_ok (cps s) (own_chain x k)"
proof -
  note kd = trie_okD [OF ok k]
  have mk: "m \<in> set (kid_list k)" using kd(3) m by simp
  have "own_chain x k \<in> set (chains k) \<and> m \<in> set (own_chain x k) \<and> distinct (own_chain x k)"
  proof (cases k)
    case (Hashed h)
    note hb = hits_bucket [OF ok k [unfolded Hashed], of x]
    have "m \<in> hits s p x" using m by (simp add: hits_def)
    then have "m \<in> in_chain s x (buckets h ! TrieHash x (length (buckets h) - Suc 0))" using hb(2) by simp
    then show ?thesis
      using hb(1) Hashed kd(2) distinct_bucket [of id "buckets h", OF _ hb(1)]
      by (simp add: own_chain_def in_chain_def map_idI)
  qed (use mk kd(2) in \<open>simp add: own_chain_def\<close>)
  then show "own_chain x k \<in> set (chains k)" "m \<in> set (own_chain x k)" "distinct (own_chain x k)" by blast+
  then show "chain_ok (cps s) (own_chain x k)" using kd(4) by blast
qed

lemma drop_from_chain_law:
  assumes ok: "trie_ok s" and k: "kids_at s p = Some k" and m: "parent_at (cores s) m = Some p" "symbol_at (cores s) m = Some x"
    and ns: "add_mset m (mset ns) = mset (own_chain x k)"
    and c: "\<And>y. y \<notin> set (own_chain x k) \<Longrightarrow> c' y = cps s y" "chain_ok c' ns"
  defines "k' \<equiv> drop_from_chain x ns k"
  shows "add_mset m (mset (kid_list k')) = mset (kid_list k)" "chains_ok c' (chains k')" "table_ok (cores s) k'"
    "counted k \<Longrightarrow> counted k'"
proof -
  note kd = trie_okD [OF ok k] and oc = own_chain_law [OF ok k m]
  have sub: "set ns \<subseteq> set (own_chain x k)" using arg_cong [OF ns, of set_mset] by auto
  have len: "length (own_chain x k) = Suc (length ns)" using arg_cong [OF ns, of size] by simp
  have "add_mset m (mset (kid_list k')) = mset (kid_list k) \<and> chains_ok c' (chains k') \<and> table_ok (cores s) k' \<and> (counted k \<longrightarrow> counted k')"
  proof (cases k)
    case (Chain ms)
    then show ?thesis using ns c(2) len by (simp add: k'_def drop_from_chain_def own_chain_def chains_ok_def)
  next
    case (Hashed h)
    let ?i = "TrieHash x (length (buckets h) - Suc 0)"
    have i: "?i < length (buckets h)" by (rule hits_bucket(1) [OF ok k [unfolded Hashed]])
    have o: "own_chain x k = buckets h ! ?i" by (simp add: own_chain_def Hashed)
    have mm: "add_mset m (mset (concat ((buckets h)[?i := ns]))) = mset (concat (buckets h))"
    proof -
      have "mset (concat ((buckets h)[?i := ns])) + mset (buckets h ! ?i) = mset (concat (buckets h)) + mset ns"
        by (rule mset_concat_update [OF i])
      then have "mset (concat ((buckets h)[?i := ns])) + add_mset m (mset ns) = mset (concat (buckets h)) + mset ns"
        using ns o by simp
      then show ?thesis by simp
    qed
    have "chain_ok c' ((buckets h)[?i := ns] ! j)" if j: "j < length (buckets h)" for j
    proof (cases "j = ?i")
      case False
      have "c' y = cps s y" if y: "y \<in> set (buckets h ! j)" for y
        using c(1) [of y] distinct_concat_nth [of "buckets h" ?i j y] kd(2) i j y False o Hashed by auto
      then show ?thesis using chain_ok_cong [of "buckets h ! j" c' "cps s"] kd(5) j False Hashed by (simp add: chains_ok_nth)
    qed (use c(2) i in simp)
    then have ch: "chains_ok c' ((buckets h)[?i := ns])" by (simp add: chains_ok_nth)
    have "placed (bucket_of (cores s) (length (buckets h) - Suc 0)) ((buckets h)[?i := ns])"
      using kd(6) Hashed sub o by (auto simp: placed_def nth_upd subset_iff)
    moreover have "length (concat (buckets h)) = Suc (length (concat ((buckets h)[?i := ns])))"
      using arg_cong [OF mm, of size] by simp
    ultimately show ?thesis using mm ch kd(6) Hashed by (auto simp: k'_def drop_from_chain_def)
  qed
  then show "add_mset m (mset (kid_list k')) = mset (kid_list k)" "chains_ok c' (chains k')" "table_ok (cores s) k'"
    "counted k \<Longrightarrow> counted k'" by blast+
qed

definition cp_at :: "nat \<Rightarrow> nat \<Rightarrow> nat" where
  "cp_at n i = (if n = 1 then 0 else if i = 0 then 2 else if Suc i = n then 1 else 3)"

lemma cp_pattern_nth: "i < n \<Longrightarrow> cp_pattern n ! i = cp_at n i"
proof (induction n rule: cp_pattern.induct)
  case (3 n)
  show ?case
  proof (cases i)
    case (Suc j)
    then show ?thesis using 3 by (cases "j = n") (simp_all add: cp_at_def nth_append)
  qed (simp add: cp_at_def)
qed (simp_all add: cp_at_def)

lemma chain_ok_nth: "chain_ok c ns \<longleftrightarrow> (\<forall>i < length ns. c (ns ! i) = Some (cp_at (length ns) i))"
  unfolding chain_ok_def list_eq_iff_nth_eq by (simp add: cp_pattern_nth)

text \<open>The chain without the node, with the one instruction changed that has to change.\<close>

lemma chain_without:
  assumes ok: "chain_ok c (pre @ m # post)" and d: "distinct (pre @ m # post)"
    and c': "\<And>y. c' y = (if pre = [] \<and> post \<noteq> [] \<and> y = hd post then map_option (\<lambda>i. i - 1) (c y)
                     else if pre \<noteq> [] \<and> post = [] \<and> y = last pre then map_option (\<lambda>i. i - 2) (c y) else c y)"
  shows "chain_ok c' (pre @ post)"
  unfolding chain_ok_nth
proof (intro allI impI)
  let ?n = "Suc (length pre + length post)"
  fix i assume i: "i < length (pre @ post)"
  have o: "c ((pre @ m # post) ! j) = Some (cp_at ?n j)" if "j < ?n" for j
    using ok that by (simp add: chain_ok_nth)
  show "c' ((pre @ post) ! i) = Some (cp_at (length (pre @ post)) i)"
  proof (cases "i < length pre")
    case True
    then have y: "(pre @ post) ! i = pre ! i" "c (pre ! i) = Some (cp_at ?n i)" using o [of i] by (simp_all add: nth_append)
    have "pre ! i = last pre \<longleftrightarrow> Suc i = length pre"
    proof -
      have "last pre = pre ! (length pre - 1)" using True by (cases pre) (simp_all add: last_conv_nth)
      moreover have "distinct pre" using d by simp
      ultimately show ?thesis using True nth_eq_iff_index_eq [of pre i "length pre - 1"] by auto
    qed
    then show ?thesis using True y c' [of "pre ! i"] by (auto simp: cp_at_def)
  next
    case False
    let ?j = "i - length pre"
    have j: "?j < length post" using i False by simp
    have y: "(pre @ post) ! i = post ! ?j" "c (post ! ?j) = Some (cp_at ?n (Suc i))"
      using o [of "Suc i"] i False by (simp_all add: nth_append Suc_diff_le)
    have "post ! ?j = hd post \<longleftrightarrow> ?j = 0"
    proof -
      have "hd post = post ! 0" using j by (cases post) simp_all
      moreover have "distinct post" "0 < length post" using d j by auto
      ultimately show ?thesis using nth_eq_iff_index_eq [of post ?j 0] j by simp
    qed
    moreover have "\<not> (pre \<noteq> [] \<and> post = [] \<and> post ! ?j = last pre)" using j by auto
    ultimately show ?thesis using False i j y c' [of "post ! ?j"] by (auto simp: cp_at_def)
  qed
qed

lemma minus_simps:
  assumes "k \<le> cp_type (bt_instr b)"
  shows "core (b\<lparr>bt_instr := bt_instr b - k\<rparr>) = core b" "cp_type (bt_instr b - k) = cp_type (bt_instr b) - k"
proof -
  define r q where "r = bt_instr b mod 4" and "q = bt_instr b div 4"
  have b: "bt_instr b = 4 * q + r" "r < 4" by (simp_all add: q_def r_def)
  have "k \<le> r" using assms by (simp add: cp_type_def r_def)
  then have "bt_instr b - k = 4 * q + (r - k)" "r - k < 4" using b by simp_all
  then have "(bt_instr b - k) div 4 = q" "(bt_instr b - k) mod 4 = r - k" by simp_all
  then show "core (b\<lparr>bt_instr := bt_instr b - k\<rparr>) = core b" "cp_type (bt_instr b - k) = cp_type (bt_instr b) - k"
    by (simp_all add: core_def op_class_def cp_type_def q_def r_def)
qed

lemma upd_minus:
  assumes "cps s y = Some v" "k \<le> v"
  defines "s' \<equiv> upd_obj y (\<lambda>b. b\<lparr>bt_instr := bt_instr b - k\<rparr>) s"
  shows "cores s' = cores s" "cps s' = (cps s)(y := map_option (\<lambda>i. i - k) (cps s y))" "kids_at s' = kids_at s" "nts s' = nts s"
proof -
  obtain b where b: "deref s y = Inr b" "cp_type (bt_instr b) = v" using assms(1) by (auto simp: view_Some)
  have m: "core (b\<lparr>bt_instr := bt_instr b - k\<rparr>) = core b" "cp_type (bt_instr b - k) = v - k"
    using minus_simps [of k b] b(2) assms(2) by simp_all
  show "cores s' = cores s" unfolding s'_def by (rule view_upd_same) (use b m in simp)
  show "cps s' = (cps s)(y := map_option (\<lambda>i. i - k) (cps s y))"
    unfolding s'_def view_upd using assms(1) m(2) by (simp add: view_deref [OF b(1)] b(2))
  show "kids_at s' = kids_at s" "nts s' = nts s" by (simp_all add: s'_def view_upd_same)
qed

text \<open>The state after a node was taken out.\<close>

definition taken_out :: "nat \<Rightarrow> btns \<Rightarrow> btns \<Rightarrow> bool" where
  "taken_out m s s' \<longleftrightarrow>
     trie_ok s' \<and> cores s' = (cores s)(m := None) \<and> (\<forall>x. x \<noteq> m \<longrightarrow> nts s' x = nts s x) \<and> length s' = length s \<and>
     (counts_ok s \<longrightarrow> counts_ok s')"

lemma counts_ok_out:
  assumes "counts_ok s" "kids_at s' = (kids_at s)(m := None, p := Some k')" "counted k'"
  shows "counts_ok s'"
  unfolding counts_ok_def
proof (intro allI impI)
  fix q k assume "kids_at s' q = Some k"
  then show "counted k" using assms counts_okD [OF assms(1), of q k] by (auto split: if_splits)
qed

lemma unlink_law:
  assumes ok: "trie_ok s" and none: "childless s m" and b: "deref s m = Inr b" "bt_parent b = Some p"
    and cp: "\<not> Contains_NOCP_Instr b"
  shows "\<exists>s'. unlink_node m b s = Inr s' \<and> taken_out m s s' \<and> \<not> childless s' p"
proof -
  let ?x = "bt_symbol b"
  have m: "parent_at (cores s) m = Some p" "symbol_at (cores s) m = Some ?x"
    using b by (simp_all add: parent_at_def symbol_at_def view_deref)
  have po: "parents_ok (cores s)" using ok by (simp add: trie_ok_def)
  then have "cores s p \<noteq> None" and mp: "m \<noteq> p" using m by (auto simp: parents_ok_def)
  then obtain pb where pb: "deref s p = Inr pb" by (auto simp: view_None) (metis sum.exhaust)
  let ?k = "bt_child pb"
  have k: "kids_at s p = Some ?k" by (simp add: view_deref [OF pb])
  note kd = trie_okD [OF ok k]
  let ?chain = "own_chain ?x ?k"
  note oc = own_chain_law [OF ok k m]
  obtain pre post where ch: "?chain = pre @ m # post" using oc(2) by (meson split_list)
  have d: "distinct (pre @ m # post)" using oc(3) ch by simp
  have tw: "takeWhile (\<lambda>y. y \<noteq> m) ?chain = pre" "tl (dropWhile (\<lambda>y. y \<noteq> m) ?chain) = post"
    using d unfolding ch by (auto simp: takeWhile_append dropWhile_append)
  have co: "chain_ok (cps s) (pre @ m # post)" using oc(4) ch by simp
  have cpm: "cp_type (bt_instr b) = cp_at (Suc (length pre + length post)) (length pre)"
    using co view_deref [OF b(1), of "\<lambda>b. cp_type (bt_instr b)"] unfolding chain_ok_nth
    by (auto dest: spec [of _ "length pre"])
  have ne: "pre \<noteq> [] \<or> post \<noteq> []" using cp cpm by (auto simp: Contains_NOCP_Instr_def cp_at_def)
  have is_try: "Contains_TRY_Instr b \<longleftrightarrow> pre = []" and trust: "Contains_TRUST_Instr b \<longleftrightarrow> pre \<noteq> [] \<and> post = []"
    using cpm ne by (auto simp: Contains_TRY_Instr_def Contains_TRUST_Instr_def cp_at_def)
  have sub: "set (pre @ m # post) \<subseteq> set (kid_list ?k)"
    using oc(1) unfolding ch kid_list_def set_concat by blast
  let ?c = "\<lambda>y. if pre = [] \<and> post \<noteq> [] \<and> y = hd post then map_option (\<lambda>i. i - 1) (cps s y)
       else if pre \<noteq> [] \<and> post = [] \<and> y = last pre then map_option (\<lambda>i. i - 2) (cps s y) else cps s y"
  let ?k' = "drop_from_chain ?x (pre @ post) ?k"
  have finish: "taken_out m s (free_obj m (set_child p ?k' s1)) \<and> \<not> childless (free_obj m (set_child p ?k' s1)) p"
    if s1: "cores s1 = cores s" "kids_at s1 = kids_at s" "nts s1 = nts s" "length s1 = length s" "\<And>y. y \<noteq> m \<Longrightarrow> cps s1 y = ?c y" for s1
  proof -
    let ?s = "free_obj m (set_child p ?k' s1)"
    have kk: "kids_at (set_child p ?k' s1) = (kids_at s)(p := Some ?k')"
      using kids_set_child [of s1 p ?k'] s1(2) k by simp
    have v: "cores ?s = (cores s)(m := None)" "kids_at ?s = (kids_at s)(m := None, p := Some ?k')"
      "nts ?s = (nts s)(m := None)" "cps ?s = (cps s1)(m := None)"
      using kk s1 mp by (simp_all add: free_views fun_upd_twist)
    have c: "cps ?s y = ?c y" if "y \<noteq> m" for y using that s1(5) v(4) by simp
    have far: "cps ?s y = cps s y" if y: "y \<notin> set (pre @ m # post)" for y
    proof -
      have no: "(pre = [] \<and> post \<noteq> [] \<and> y = hd post) = False" "(pre \<noteq> [] \<and> post = [] \<and> y = last pre) = False" "y \<noteq> m"
        using y by auto
      show ?thesis unfolding c [OF no(3)] no(1,2) by simp
    qed
    have "chain_ok ?c (pre @ post)" using chain_without [OF co d, of ?c] by blast
    then have cok: "chain_ok (cps ?s) (pre @ post)"
      using chain_ok_cong [of "pre @ post" "cps ?s" ?c] c d by fastforce
    have am: "add_mset m (mset (pre @ post)) = mset ?chain" by (simp add: ch)
    have dl: "add_mset m (mset (kid_list ?k')) = mset (kid_list ?k)" "chains_ok (cps ?s) (chains ?k')"
      "table_ok (cores s) ?k'" "counted ?k \<Longrightarrow> counted ?k'"
      using drop_from_chain_law [OF ok k m am _ cok] far ch by metis+
    have mk: "m \<in> set (kid_list ?k)" using kd(3) m(1) by simp
    have out: "cps ?s y = cps s y" if "y \<notin> set (kid_list ?k)" for y
      by (rule far) (use that sub in blast)
    have tok: "trie_ok ?s" by (rule removed_ok [OF ok k mk none v(1,2) out dl(1,2,3)])
    have "counts_ok ?s" if "counts_ok s"
      by (rule counts_ok_out [OF that v(2) dl(4) [OF counts_okD [OF that k]]])
    then have t: "taken_out m s ?s" using tok v s1(4) by (simp add: taken_out_def)
    obtain y where y: "y \<in> set (pre @ post)" using ne by (cases pre; cases post) auto
    then have "y \<in> set (kid_list ?k)" "y \<noteq> m" using sub d by auto
    then have "parent_at (cores ?s) y = Some p" using kd(3) by (simp add: v(1) parent_at_def)
    then show ?thesis using t unfolding childless_def by blast
  qed
  show ?thesis
  proof (cases "pre = []")
    case True
    then obtain y ys where post: "post = y # ys" using ne by (cases post) auto
    have "cps s y = Some (cp_at (Suc (length post)) 1)" using co True post by (auto simp: chain_ok_nth dest: spec [of _ 1])
    then have cy: "cps s y = Some (cp_at (Suc (length post)) 1)" "1 \<le> cp_at (Suc (length post)) 1" by (simp_all add: cp_at_def post)
    note u = upd_minus [OF cy]
    show ?thesis
      using finish [of "upd_obj y (\<lambda>b. b\<lparr>bt_instr := bt_instr b - 1\<rparr>) s"] u tw is_try True post b(2) pb
      by (auto simp: unlink_node_def)
  next
    case False
    then obtain zs y where pre: "pre = zs @ [y]" by (cases pre rule: rev_cases) auto
    have prev: "get_prev_sibl m ?chain = Inr y" using tw pre oc(2) by (simp add: get_prev_sibl_def)
    show ?thesis
    proof (cases "post = []")
      case True
      have "cps s y = Some (cp_at (Suc (length pre)) (length zs))" using co True pre
        by (auto simp: chain_ok_nth nth_append dest: spec [of _ "length zs"])
      then have cy: "cps s y = Some (cp_at (Suc (length pre)) (length zs))" "2 \<le> cp_at (Suc (length pre)) (length zs)"
        by (simp_all add: cp_at_def pre)
      note u = upd_minus [OF cy]
      show ?thesis
        using finish [of "upd_obj y (\<lambda>b. b\<lparr>bt_instr := bt_instr b - 2\<rparr>) s"] u tw is_try trust True False pre b(2) pb prev
        by (auto simp: unlink_node_def)
    next
      case post: False
      show ?thesis
        using finish [of s] tw is_try trust post False b(2) pb prev by (simp add: unlink_node_def)
    qed
  qed
qed

section \<open>A node that is alone in its chain\<close>

lemma only_child:
  assumes ok: "trie_ok s" and none: "childless s m" and b: "deref s m = Inr b" "bt_parent b = Some p"
    and cp: "Contains_NOCP_Instr b" and pb: "deref s p = Inr pb"
  defines "s' \<equiv> free_obj m (set_child p (drop_from_chain (bt_symbol b) [] (bt_child pb)) s)"
  shows "own_chain (bt_symbol b) (bt_child pb) = [m]" "taken_out m s s'"
    "childless s' p \<longleftrightarrow> kid_list (drop_from_chain (bt_symbol b) [] (bt_child pb)) = []"
proof -
  let ?x = "bt_symbol b" and ?k = "bt_child pb"
  let ?k' = "drop_from_chain ?x [] ?k"
  have m: "parent_at (cores s) m = Some p" "symbol_at (cores s) m = Some ?x"
    using b by (simp_all add: parent_at_def symbol_at_def view_deref)
  have mp: "m \<noteq> p" using ok m by (auto simp: trie_ok_def parents_ok_def)
  have k: "kids_at s p = Some ?k" by (simp add: view_deref [OF pb])
  note kd = trie_okD [OF ok k] and oc = own_chain_law [OF ok k m]
  obtain i where i: "i < length (own_chain ?x ?k)" "own_chain ?x ?k ! i = m" using oc(2) by (metis in_set_conv_nth)
  have "cps s m = Some 0" using cp by (simp add: Contains_NOCP_Instr_def view_deref [OF b(1)])
  then have "cp_at (length (own_chain ?x ?k)) i = 0" using oc(4) [unfolded chain_ok_nth, rule_format, OF i(1)] i(2) by simp
  then have l: "length (own_chain ?x ?k) = 1" by (simp add: cp_at_def split: if_splits)
  then show own: "own_chain ?x ?k = [m]" using i by (cases "own_chain ?x ?k") auto
  have kk: "kids_at (set_child p ?k' s) = (kids_at s)(p := Some ?k')" using kids_set_child [of s p ?k'] k by simp
  have v: "cores s' = (cores s)(m := None)" "kids_at s' = (kids_at s)(m := None, p := Some ?k')"
    "nts s' = (nts s)(m := None)" "cps s' = (cps s)(m := None)" "length s' = length s"
    using kk mp by (simp_all add: s'_def free_views fun_upd_twist)
  have dl: "add_mset m (mset (kid_list ?k')) = mset (kid_list ?k)" "chains_ok (cps s') (chains ?k')"
    "table_ok (cores s) ?k'" "counted ?k \<Longrightarrow> counted ?k'"
    using drop_from_chain_law [OF ok k m, of "[]" "cps s'"] own v(4) by simp_all
  have mk: "m \<in> set (kid_list ?k)" using kd(3) m(1) by simp
  have tok: "trie_ok s'"
    by (rule removed_ok [OF ok k mk none v(1,2) _ dl(1,2,3)]) (use v(4) mk in auto)
  have "counts_ok s'" if "counts_ok s"
    by (rule counts_ok_out [OF that v(2) dl(4) [OF counts_okD [OF that k]]])
  then show "taken_out m s s'" using tok v by (simp add: taken_out_def)
  have "kids_at s' p = Some ?k'" by (simp add: v(2))
  from trie_okD(3) [OF tok this] show "childless s' p \<longleftrightarrow> kid_list ?k' = []"
    by (auto simp: childless_def) (metis list.set_intros(1) neq_Nil_conv)
qed

section \<open>Going up\<close>

definition pruned :: "nat set \<Rightarrow> btns \<Rightarrow> btns \<Rightarrow> bool" where
  "pruned P s s' \<longleftrightarrow>
     trie_ok s' \<and> cores s' = (\<lambda>x. if x \<in> P then None else cores s x) \<and> (\<forall>x. x \<notin> P \<longrightarrow> nts s' x = nts s x) \<and>
     length s' = length s \<and> (counts_ok s \<longrightarrow> counts_ok s') \<and>
     (\<forall>x q. parent_at (cores s) x = Some q \<longrightarrow> q \<in> P \<longrightarrow> x \<in> P)"

lemma pruned_one: "taken_out m s s' \<Longrightarrow> childless s m \<Longrightarrow> pruned {m} s s'"
  by (auto simp: pruned_def taken_out_def childless_def fun_eq_iff)

lemma pruned_more:
  assumes t: "taken_out m s s1" "childless s m" and p: "pruned P s1 s2"
  shows "pruned (insert m P) s s2"
proof -
  have co: "cores s1 = (cores s)(m := None)" using t(1) by (simp add: taken_out_def)
  have "x \<in> insert m P" if "parent_at (cores s) x = Some q" "q \<in> insert m P" for x q
  proof (cases "x = m")
    case False
    then have "parent_at (cores s1) x = Some q" using that(1) by (simp add: co parent_at_def)
    moreover have "q \<in> P" using that t(2) by (auto simp: childless_def)
    ultimately show ?thesis using p by (simp add: pruned_def)
  qed simp
  then show ?thesis using t(1) p by (auto simp: pruned_def taken_out_def fun_eq_iff)
qed

lemma free_upd_same: "free_obj n (upd_obj m f s) = (if m = n then free_obj n s else upd_obj m f (free_obj n s))"
  by (simp add: free_obj_def upd_obj_def list_update_swap nth_list_update)

text \<open>The children of a node that is being deleted are not looked at.\<close>

lemma delete_branch_child:
  assumes b: "deref s n = Inr b" and p: "bt_parent b \<noteq> Some n" "hk \<noteq> Child_Of n"
  shows "delete_branch hk n (root, set_child n k s) = delete_branch hk n (root, s)"
proof -
  let ?b = "b\<lparr>bt_child := k\<rparr>"
  have d: "deref (set_child n k s) q = (if q = n then Inr ?b else deref s q)" for q
    using b by (simp add: set_child_def deref_upd_obj)
  have f: "free_obj n (set_child n k s) = free_obj n s" "free_obj n (set_child q k' s') = (if q = n then free_obj n s' else set_child q k' (free_obj n s'))"
    for q k' s' by (simp_all add: set_child_def free_upd_same)
  have sp: "set_parent_and_node_hook hk ?b = set_parent_and_node_hook hk b"
    by (simp add: set_parent_and_node_hook_def IsTrieRoot_def)
  have ne: "snd (set_parent_and_node_hook hk b) \<noteq> Child_Of n"
    using p by (auto simp: set_parent_and_node_hook_def split: option.splits)
  then have ih: "is_hash (snd (set_parent_and_node_hook hk b)) (set_child n k s) = is_hash (snd (set_parent_and_node_hook hk b)) s"
    by (simp add: is_hash_def d split: trie_hook.split)
  have un: "unlink_node n ?b (set_child n k s) = unlink_node n b s"
  proof (cases "bt_parent b")
    case (Some q)
    then have "q \<noteq> n" using p by auto
    then show ?thesis
      using Some
      by (cases "deref s q")
        (simp_all add: unlink_node_def d f free_upd_same Contains_TRY_Instr_def Contains_TRUST_Instr_def Let_def
          if_distrib [of "free_obj n"] split: list.split cong: if_cong)
  qed (simp add: unlink_node_def)
  show ?thesis
    by (subst (1 2) delete_branch.simps)
      (simp add: d b sp ih un f Contains_NOCP_Instr_def IsTrieRoot_def Let_def
        split: sum.split option.split cong: if_cong)
qed

lemma at_path_out:
  assumes "childless s m" "x \<noteq> m"
  shows "at_path ((cores s)(m := None)) p v x \<longleftrightarrow> at_path (cores s) p v x"
  using assms(2)
proof (induction v arbitrary: x rule: rev_induct)
  case (snoc y v)
  define C' where "C' = (cores s)(m := None)"
  have "parent_at C' x = parent_at (cores s) x" "symbol_at C' x = symbol_at (cores s) x"
    using snoc.prems by (simp_all add: parent_at_def symbol_at_def C'_def)
  moreover have "q \<noteq> m" if "parent_at (cores s) x = Some q" for q using that assms(1) by (auto simp: childless_def)
  ultimately show ?case using snoc.IH unfolding C'_def [symmetric] at_path_last by metis
qed simp


lemma taken_root:
  assumes ok: "trie_ok s" and r: "parent_at (cores s) r = None" and none: "childless s r"
  shows "taken_out r s (free_obj r s)"
proof -
  let ?s = "free_obj r s"
  have par: "parent_at (cores ?s) x = parent_at (cores s) x" for x using r by (simp add: free_views parent_at_def)
  have "trie_ok ?s"
    unfolding trie_ok_def
  proof (intro conjI allI impI)
    fix q k assume "kids_at ?s q = Some k"
    then have "kids_ok (cores s) (cps s) q k" using ok by (simp add: free_views trie_ok_def split: if_splits)
    then show "kids_ok (cores ?s) (cps ?s) q k"
    proof (rule kids_ok_cong [rotated 2])
      fix x assume "parent_at (cores s) x = Some q"
      then have "x \<noteq> r" using r by auto
      then show "symbol_at (cores ?s) x = symbol_at (cores s) x \<and> cps ?s x = cps s x"
        by (simp add: free_views symbol_at_def)
    qed (simp add: par)
  next
    show "parents_ok (cores ?s)"
      using ok none unfolding parents_ok_def par trie_ok_def childless_def by (simp add: free_views)
  qed
  then show ?thesis
    by (auto simp: taken_out_def free_views counts_ok_def split: if_splits)
qed

lemma taken_cleared:
  assumes t: "taken_out m s s1" and none: "childless s1 p"
  shows "taken_out m s (set_child p (Chain []) s1)"
proof -
  let ?s = "set_child p (Chain []) s1"
  have v: "cores ?s = cores s1" "nts ?s = nts s1" "length ?s = length s1" "cps ?s = cps s1"
    by (simp_all add: set_child_def view_upd_same)
  have kd: "kids_at ?s q = (if q = p \<and> kids_at s1 p \<noteq> None then Some (Chain []) else kids_at s1 q)" for q
    by (auto simp: set_child_def view_upd view_def split: sum.splits)
  have "kids_ok (cores s1) (cps s1) p (Chain [])" using none by (simp add: kids_ok_def childless_def)
  then have "trie_ok ?s" using t unfolding taken_out_def trie_ok_def v kd by (auto split: if_splits)
  then show ?thesis using t unfolding taken_out_def v counts_ok_def kd by (auto split: if_splits)
qed

text \<open>
  The result: the nodes in \<open>P\<close> are gone, all on the path to the leaf, and the node above the last of
  them leads to other nodes or is where the caller wanted to stop.
\<close>

definition branch_gone :: "trie_hook \<Rightarrow> nat \<Rightarrow> tsym list \<Rightarrow> nat \<Rightarrow> btns \<Rightarrow> nat option \<Rightarrow> btns \<Rightarrow> nat set \<Rightarrow> bool" where
  "branch_gone hk r u m s root' s' P \<longleftrightarrow>
     pruned P s s' \<and> m \<in> P \<and> (\<forall>y \<in> P. \<exists>i \<le> length u. at_path (cores s) r (take i u) y) \<and>
     root' = (if r \<in> P then None else Some r) \<and> (\<forall>q. hk = Child_Of q \<longrightarrow> q \<notin> P) \<and>
     (\<forall>y q. y \<in> P \<longrightarrow> parent_at (cores s) y = Some q \<longrightarrow> q \<in> P \<or> \<not> childless s' q \<or> hk = Child_Of q)"

lemma gone_stop:
  assumes "taken_out m s s1" "childless s m" "at_path (cores s) r u m" "m \<noteq> r" "parent_at (cores s) m = Some p"
    "\<not> childless s1 p \<or> hk = Child_Of p" "hk \<noteq> Child_Of m"
  shows "branch_gone hk r u m s (Some r) s1 {m}"
  using pruned_one [OF assms(1,2)] assms(3-7) unfolding branch_gone_def by auto

lemma gone_more:
  assumes t: "taken_out m s s1" "childless s m" "m \<noteq> r" "hk \<noteq> Child_Of m" and path: "at_path (cores s) r (v @ [x]) m" "parent_at (cores s) m = Some p"
    and g: "branch_gone hk r v p s1 root' s' P"
  shows "branch_gone hk r (v @ [x]) m s root' s' (insert m P)"
proof -
  have co: "cores s1 = (cores s)(m := None)" using t(1) by (simp add: taken_out_def)
  have p: "pruned P s1 s'" "p \<in> P" "root' = (if r \<in> P then None else Some r)"
    "\<And>y. y \<in> P \<Longrightarrow> \<exists>i \<le> length v. at_path (cores s1) r (take i v) y"
    "\<And>y q. y \<in> P \<Longrightarrow> parent_at (cores s1) y = Some q \<Longrightarrow> q \<in> P \<or> \<not> childless s' q \<or> hk = Child_Of q"
    "\<forall>q. hk = Child_Of q \<longrightarrow> q \<notin> P"
    using g by (simp_all add: branch_gone_def)
  have "\<exists>i \<le> length (v @ [x]). at_path (cores s) r (take i (v @ [x])) y" if "y \<in> insert m P" for y
  proof (cases "y = m")
    case True
    then show ?thesis using path(1) by (intro exI [of _ "length (v @ [x])"]) simp
  next
    case False
    then have "y \<in> P" using that by simp
    from p(4) [OF this] obtain i where i: "i \<le> length v" "at_path (cores s1) r (take i v) y" by blast
    have "at_path (cores s) r (take i v) y" using i(2) unfolding co at_path_out [OF t(2) False] .
    then show ?thesis using i(1) by (intro exI [of _ i]) simp
  qed
  then have c: "\<forall>y \<in> insert m P. \<exists>i \<le> length (v @ [x]). at_path (cores s) r (take i (v @ [x])) y" ..
  have "q \<in> insert m P \<or> \<not> childless s' q \<or> hk = Child_Of q"
    if "y \<in> insert m P" "parent_at (cores s) y = Some q" for y q
  proof (cases "y = m")
    case True
    then show ?thesis using that(2) path(2) p(2) by simp
  next
    case False
    then have "parent_at (cores s1) y = Some q" using that(2) by (simp add: co parent_at_def)
    moreover have "y \<in> P" using that(1) False by simp
    ultimately have "q \<in> P \<or> \<not> childless s' q \<or> hk = Child_Of q" by (rule p(5) [rotated])
    then show ?thesis by simp
  qed
  then have d: "\<forall>y q. y \<in> insert m P \<longrightarrow> parent_at (cores s) y = Some q \<longrightarrow>
      q \<in> insert m P \<or> \<not> childless s' q \<or> hk = Child_Of q" by blast
  have e: "root' = (if r \<in> insert m P then None else Some r)" using p(3) t(3) by simp
  have "\<forall>q. hk = Child_Of q \<longrightarrow> q \<notin> insert m P" using p(6) t(4) by auto
  then show ?thesis unfolding branch_gone_def
    by (intro conjI pruned_more [OF t(1,2) p(1)] c d e insertI1)
qed

lemma prune_up:
  assumes "trie_ok s" "counts_ok s" "at_path (cores s) r u m" "childless s m" "parent_at (cores s) r = None"
    "nts s r = Some TRIE_ROOT_NT" "\<And>i y. 0 < i \<Longrightarrow> at_path (cores s) r (take i u) y \<Longrightarrow> i \<le> length u \<Longrightarrow> nts s y \<noteq> Some TRIE_ROOT_NT"
    "hk = Root_Var \<or> hk = Child_Of r \<and> u \<noteq> []"
  shows "\<exists>root' s' P. delete_branch hk m (Some r, s) = Inr (root', s') \<and> branch_gone hk r u m s root' s' P"
  using assms
proof (induction u arbitrary: m s rule: rev_induct)
  case Nil
  then have m: "m = r" and hk: "hk = Root_Var" by simp_all
  obtain b where b: "deref s r = Inr b" "bt_nodetype b = TRIE_ROOT_NT" using Nil.prems(6) by (auto simp: view_Some)
  have "delete_branch hk m (Some r, s) = Inr (None, free_obj r s)"
    using b m hk by (subst delete_branch.simps) (simp add: IsTrieRoot_def set_parent_and_node_hook_def is_hash_def clear_hook_def)
  moreover have "branch_gone hk r [] m s None (free_obj r s) {r}"
    using pruned_one [OF taken_root] Nil.prems m unfolding branch_gone_def by auto
  ultimately show ?case by blast
next
  case (snoc x v)
  note ok = snoc.prems(1) and path = snoc.prems(3) and none = snoc.prems(4)
  obtain p where p: "at_path (cores s) r v p" "parent_at (cores s) m = Some p" "symbol_at (cores s) m = Some x"
    using path by (auto simp: at_path_last)
  obtain b where b: "deref s m = Inr b" using p(2) by (cases "deref s m") (auto simp: parent_at_def view_def)
  have bp: "bt_parent b = Some p" "bt_symbol b = x" using p b by (simp_all add: parent_at_def symbol_at_def view_deref)
  have po: "parents_ok (cores s)" using ok by (simp add: trie_ok_def)
  then have pm: "p < m" "cores s p \<noteq> None" using p(2) by (auto simp: parents_ok_def)
  then obtain pb where pb: "deref s p = Inr pb" by (auto simp: view_None) (metis sum.exhaust)
  have mr: "m \<noteq> r" using p(2) snoc.prems(5) by auto
  have hm: "hk \<noteq> Child_Of m" using snoc.prems(8) mr by auto
  have nroot: "\<not> IsTrieRoot b"
    using snoc.prems(7) [of "length (v @ [x])" m] path b by (simp add: IsTrieRoot_def view_deref)
  define par where "par = (if hk = Child_Of p then None else Some p)"
  have hook: "set_parent_and_node_hook hk b = (par, Child_Of p)"
    using nroot bp by (simp add: set_parent_and_node_hook_def par_def)
  have up: "\<exists>root' s' P. delete_branch hk p (Some r, s1) = Inr (root', s') \<and> branch_gone hk r (v @ [x]) m s root' s' (insert m P)"
    if t: "taken_out m s s1" and c: "childless s1 p" and hk: "hk \<noteq> Child_Of p" for s1
  proof -
    have co: "cores s1 = (cores s)(m := None)" and nt: "\<And>y. y \<noteq> m \<Longrightarrow> nts s1 y = nts s y"
      using t by (simp_all add: taken_out_def)
    have pth: "at_path (cores s) r w y" "y \<noteq> m" if "at_path (cores s1) r w y" for w y
    proof -
      show "y \<noteq> m"
      proof
        assume "y = m"
        then have "at_path (cores s1) r w m" "w \<noteq> []" using that mr by auto
        then show False using at_path_live [of "cores s1" r w m] by (simp add: co)
      qed
      then show "at_path (cores s) r w y" using that at_path_out [OF none] co by metis
    qed
    have "at_path (cores s1) r v p" using p(1) pm(1) at_path_out [OF none] co by (metis less_irrefl)
    moreover have "nts s1 y \<noteq> Some TRIE_ROOT_NT" if "0 < i" "at_path (cores s1) r (take i v) y" "i \<le> length v" for i y
      using snoc.prems(7) [of i y] pth [OF that(2)] that(1,3) nt by simp
    moreover have "hk = Root_Var \<or> hk = Child_Of r \<and> v \<noteq> []" using snoc.prems(8) hk p(1) by auto
    moreover have "parent_at (cores s1) r = None" "nts s1 r = Some TRIE_ROOT_NT"
      using snoc.prems(5,6) mr nt by (simp_all add: co parent_at_def)
    moreover have "trie_ok s1" "counts_ok s1" using t snoc.prems(2) by (simp_all add: taken_out_def)
    ultimately obtain root' s' P where "delete_branch hk p (Some r, s1) = Inr (root', s')" "branch_gone hk r v p s1 root' s' P"
      using snoc.IH [of s1 p] c by blast
    then show ?thesis using gone_more [OF t none mr hm path p(2)] by blast
  qed
  show ?case
  proof (cases "Contains_NOCP_Instr b")
    case False
    from unlink_law [OF ok none b bp(1) False] obtain s1 where s1: "unlink_node m b s = Inr s1" "taken_out m s s1" "\<not> childless s1 p"
      by blast
    then have "delete_branch hk m (Some r, s) = Inr (Some r, s1)"
      using b False nroot by (subst delete_branch.simps) simp
    then show ?thesis using gone_stop [OF s1(2) none path mr p(2) _ hm] s1(3) by blast
  next
    case True
    note oc = only_child [OF ok none b bp(1) True pb, unfolded bp(2)]
    let ?k = "drop_from_chain x [] (bt_child pb)"
    let ?s = "free_obj m (set_child p ?k s)"
    show ?thesis
    proof (cases "bt_child pb")
      case (Hashed h)
      define h' where "h' = h\<lparr>buckets := (buckets h)[TrieHash x (length (buckets h) - 1) := []], numContents := numContents h - 1\<rparr>"
      have k: "?k = Hashed h'" by (simp add: drop_from_chain_def Hashed h'_def)
      have eq: "delete_branch hk m (Some r, s) = (if 0 < numContents h' then Inr (Some r, ?s)
          else (case par of None \<Rightarrow> Inr (clear_hook hk (Some r, ?s)) | Some q \<Rightarrow> delete_branch hk q (Some r, ?s)))"
        unfolding k using b True Hashed pb
        by (subst delete_branch.simps) (simp add: hook is_hash_def bp h'_def Let_def split: option.split)
      have "counts_ok ?s" using oc(2) snoc.prems(2) by (simp add: taken_out_def)
      moreover have "kids_at ?s p = Some (Hashed h')"
        using pb pm(1) kids_set_child [of s p ?k] by (simp add: free_views view_deref k)
      ultimately have "counted (Hashed h')" by (rule counts_okD)
      then have cl: "childless ?s p \<longleftrightarrow> \<not> 0 < numContents h'" unfolding oc(3) unfolding k by simp
      show ?thesis
      proof (cases "0 < numContents h'")
        case True
        then show ?thesis using eq cl gone_stop [OF oc(2) none path mr p(2) _ hm] by auto
      next
        case stop: False
        then have c: "childless ?s p" using cl by simp
        show ?thesis
        proof (cases "hk = Child_Of p")
          case True
          then have "delete_branch hk m (Some r, s) = Inr (Some r, set_child p (Chain []) ?s)"
            using eq stop by (simp add: par_def clear_hook_def)
          then show ?thesis using gone_stop [OF taken_cleared [OF oc(2) c] none path mr p(2) _ hm] True by blast
        next
          case False
          then have "delete_branch hk m (Some r, s) = delete_branch hk p (Some r, ?s)" using eq stop by (simp add: par_def)
          then show ?thesis using up [OF oc(2) c False] by metis
        qed
      qed
    next
      case (Chain ns)
      have eq: "delete_branch hk m (Some r, s) =
          (case par of None \<Rightarrow> Inr (clear_hook hk (Some r, free_obj m s)) | Some q \<Rightarrow> delete_branch hk q (Some r, free_obj m s))"
        using b True Chain pb
        by (subst delete_branch.simps) (simp add: hook is_hash_def bp split: option.split)
      have s: "?s = set_child p (Chain []) (free_obj m s)"
        using pm(1) by (simp add: set_child_def free_upd_same drop_from_chain_def Chain)
      have c: "childless ?s p" unfolding oc(3) by (simp add: drop_from_chain_def Chain)
      show ?thesis
      proof (cases "hk = Child_Of p")
        case True
        then have "p = r" using snoc.prems(8) by auto
        then have "delete_branch hk m (Some r, s) = Inr (Some r, ?s)"
          using eq True unfolding s by (simp add: par_def clear_hook_def)
        then show ?thesis using gone_stop [OF oc(2) none path mr p(2) _ hm] True by blast
      next
        case False
        have "parent_at (cores s) p \<noteq> Some p" using po by (auto simp: parents_ok_def)
        then have "bt_parent pb \<noteq> Some p" by (simp add: parent_at_def view_deref [OF pb])
        moreover have "deref (free_obj m s) p = Inr pb" using pb pm(1) by (simp add: deref_free)
        ultimately have "delete_branch hk p (Some r, ?s) = delete_branch hk p (Some r, free_obj m s)"
          using delete_branch_child False unfolding s by blast
        then show ?thesis using eq up [OF oc(2) c False] False by (simp add: par_def) metis
      qed
    qed
  qed
qed

section \<open>The words that are left\<close>

lemma at_path_pruned:
  assumes p: "pruned P s s'"
  shows "at_path (cores s') r v m \<longleftrightarrow> at_path (cores s) r v m \<and> (v = [] \<or> m \<notin> P)"
proof (induction v arbitrary: m rule: rev_induct)
  case (snoc x v)
  have par: "parent_at (cores s') m = (if m \<in> P then None else parent_at (cores s) m)"
    "symbol_at (cores s') m = (if m \<in> P then None else symbol_at (cores s) m)"
    using p by (simp_all add: pruned_def parent_at_def symbol_at_def)
  show ?case
  proof (cases "m \<in> P")
    case False
    have "q \<notin> P" if "parent_at (cores s) m = Some q" for q using p that False unfolding pruned_def by blast
    then show ?thesis using snoc.IH par False unfolding at_path_last by auto
  qed (simp add: at_path_last par)
qed simp

lemma gone_words:
  assumes t: "trie_at s r k" and n: "leaf_at s r w n" and g: "branch_gone hk r w n s root' s' P"
    and hk: "hk = Root_Var \<or> hk = Child_Of r"
  shows "leaf_at s' r v m \<longleftrightarrow> leaf_at s r v m \<and> v \<noteq> w" "words s' r = words s r - {w}"
    "root' = Some r \<Longrightarrow> trie_at s' r k" "no_dead_ends s r \<Longrightarrow> no_dead_ends s' r"
proof -
  have p: "pruned P s s'" "n \<in> P" "\<And>y. y \<in> P \<Longrightarrow> \<exists>i \<le> length w. at_path (cores s) r (take i w) y"
    "root' = (if r \<in> P then None else Some r)"
    "\<And>y q. y \<in> P \<Longrightarrow> parent_at (cores s) y = Some q \<Longrightarrow> q \<in> P \<or> \<not> childless s' q \<or> hk = Child_Of q"
    using g by (simp_all add: branch_gone_def)
  have co: "cores s' y = cores s y" if "y \<notin> P" for y using p(1) that by (simp add: pruned_def)
  then have lf: "is_leaf_node (cores s') y = is_leaf_node (cores s) y" "is_deleted_node (cores s') y = is_deleted_node (cores s) y"
    "is_root (cores s') y = is_root (cores s) y" if "y \<notin> P" for y
    using that by (simp_all add: is_leaf_node_def is_deleted_node_def is_root_def)
  have inv: "fits k v" "is_leaf_node (cores s) m \<longleftrightarrow> missing k v = 0" "is_deleted_node (cores s) m \<Longrightarrow> is_leaf_node (cores s) m"
    "\<not> is_root (cores s) m" if "v \<noteq> []" "at_path (cores s) r v m" for v m
    using t that unfolding trie_at_def by blast+
  have po: "parents_ok (cores s)" using t by (simp add: trie_at_def trie_ok_def)
  have w: "w \<noteq> []" "at_path (cores s) r w n" "fits k w" using n inv(1) unfolding leaf_at_def by blast+
  have inP: "m \<in> P \<longleftrightarrow> v = w" if l: "leaf_at s r v m" for v m
  proof
    assume "m \<in> P"
    from p(3) [OF this] obtain i where i: "i \<le> length w" "at_path (cores s) r (take i w) m" by blast
    have v: "v \<noteq> []" "at_path (cores s) r v m" "is_leaf_node (cores s) m" using l by (simp_all add: leaf_at_def)
    have "v = take i w" by (rule at_path_word [OF po v(2) i(2)])
    moreover have "missing k v = 0" using inv(2) [OF v(1,2)] v(3) by simp
    ultimately show "v = w" using fits_missing_take [OF w(3), of i] i(1) by (cases "i = length w") auto
  next
    assume "v = w"
    then have "m = n" using leaf_at_unique n l t unfolding trie_at_def by blast
    then show "m \<in> P" using p(2) by simp
  qed
  have leaf: "leaf_at s' r v m \<longleftrightarrow> leaf_at s r v m \<and> v \<noteq> w" for v m
  proof (cases "m \<in> P")
    case True
    then show ?thesis using inP [of v m] by (auto simp: leaf_at_def at_path_pruned [OF p(1)])
  next
    case False
    then show ?thesis using inP [of v m] lf(1) by (auto simp: leaf_at_def at_path_pruned [OF p(1)])
  qed
  then show "leaf_at s' r v m \<longleftrightarrow> leaf_at s r v m \<and> v \<noteq> w" .
  have "(\<exists>m. leaf_at s' r v m \<and> \<not> is_deleted_node (cores s') m) \<longleftrightarrow>
      (\<exists>m. leaf_at s r v m \<and> \<not> is_deleted_node (cores s) m) \<and> v \<noteq> w" for v
    using leaf inP lf(2) by metis
  then show "words s' r = words s r - {w}" unfolding words_def by auto
  show "trie_at s' r k" if "root' = Some r"
  proof -
    have r: "r \<notin> P" using that p(4) by (simp split: if_splits)
    have "trie_ok s'" "nts s' r = nts s r" "parent_at (cores s') r = parent_at (cores s) r"
      using p(1) r by (simp_all add: pruned_def parent_at_def)
    then show ?thesis
      using t inv lf unfolding trie_at_def at_path_pruned [OF p(1)] by auto
  qed
  show "no_dead_ends s' r" if d: "no_dead_ends s r"
    unfolding no_dead_ends_def at_path_pruned [OF p(1)]
  proof (intro allI impI, elim conjE)
    fix v m assume v: "v \<noteq> []" "at_path (cores s) r v m" and "v = [] \<or> m \<notin> P"
    then have m: "m \<notin> P" by simp
    have mr: "m \<noteq> r" using at_path_above [OF po v(2)] v(1) by auto
    show "is_leaf_node (cores s') m \<or> \<not> childless s' m"
    proof (cases "is_leaf_node (cores s) m")
      case False
      then obtain x where x: "parent_at (cores s) x = Some m" using d v unfolding no_dead_ends_def childless_def by blast
      show ?thesis
      proof (cases "x \<in> P")
        case True
        from p(5) [OF True x] show ?thesis using m mr hk by auto
      next
        case False
        then have "parent_at (cores s') x = Some m" using x co by (simp add: parent_at_def)
        then show ?thesis unfolding childless_def by blast
      qed
    qed (simp add: lf(1) [OF m])
  qed
qed

theorem delete_branch_law:
  assumes t: "trie_at s r k" and c: "counts_ok s" and n: "leaf_at s r w n" and hk: "hk = Root_Var \<or> hk = Child_Of r"
  shows "\<exists>root' s'. delete_branch hk n (Some r, s) = Inr (root', s') \<and> trie_ok s' \<and> counts_ok s' \<and>
    (\<forall>v m. leaf_at s' r v m \<longleftrightarrow> leaf_at s r v m \<and> v \<noteq> w) \<and> words s' r = words s r - {w} \<and>
    (root' = Some r \<and> trie_at s' r k \<or> root' = None \<and> hk = Root_Var \<and> isl (deref s' r)) \<and>
    (no_dead_ends s r \<longrightarrow> no_dead_ends s' r)"
proof -
  have w: "w \<noteq> []" "at_path (cores s) r w n" "missing k w = 0"
    using n t unfolding leaf_at_def trie_at_def by blast+
  have none: "childless s n" using complete_leaf(2) [OF t w(2,1,3)] by (simp add: childless_def)
  have ok: "trie_ok s" "parent_at (cores s) r = None" "nts s r = Some TRIE_ROOT_NT" using t by (simp_all add: trie_at_def)
  have nr: "nts s y \<noteq> Some TRIE_ROOT_NT" if "0 < i" "at_path (cores s) r (take i w) y" "i \<le> length w" for i y
  proof
    assume "nts s y = Some TRIE_ROOT_NT"
    moreover have "take i w \<noteq> []" using that(1) w(1) by simp
    ultimately show False using root_nt that(2) t unfolding trie_at_def by blast
  qed
  have hk': "hk = Root_Var \<or> hk = Child_Of r \<and> w \<noteq> []" using hk w(1) by blast
  have "\<exists>root' s' P. delete_branch hk n (Some r, s) = Inr (root', s') \<and> branch_gone hk r w n s root' s' P"
    by (rule prune_up [OF ok(1) c w(2) none ok(2,3) _ hk']) (rule nr)
  then obtain root' s' P where d: "delete_branch hk n (Some r, s) = Inr (root', s')" and g: "branch_gone hk r w n s root' s' P"
    by blast
  note gw = gone_words [OF t n g hk]
  have p: "pruned P s s'" "root' = (if r \<in> P then None else Some r)" "\<forall>q. hk = Child_Of q \<longrightarrow> q \<notin> P"
    using g by (simp_all add: branch_gone_def)
  have gone: "hk = Root_Var" "isl (deref s' r)" if "r \<in> P"
  proof -
    show "hk = Root_Var" using that p(3) hk by blast
    have "cores s' r = None" using p(1) that by (simp add: pruned_def)
    then show "isl (deref s' r)" by (auto simp: view_None)
  qed
  have "trie_ok s'" "counts_ok s'" using p(1) c by (simp_all add: pruned_def)
  moreover have "root' = Some r \<and> trie_at s' r k \<or> root' = None \<and> hk = Root_Var \<and> isl (deref s' r)"
    using gone gw(3) p(2) by (cases "r \<in> P") simp_all
  ultimately show ?thesis using d gw(1,2,4) by blast
qed

end
