(* ===== verification/Trie_Freeing.thy ===== *)
theory Trie_Freeing imports Trie_Pruning begin

text \<open>
  What \<open>delete_trie\<close> does: it returns, and the nodes of the trie are freed, each of them once, and no others.
\<close>

section \<open>The nodes below a node\<close>

definition nodes_below :: "btns \<Rightarrow> nat list \<Rightarrow> nat set" where
  "nodes_below s ns = {x. \<exists>n \<in> set ns. \<exists>v. at_path (cores s) n v x}"

definition free_set :: "nat set \<Rightarrow> btns \<Rightarrow> btns" where
  "free_set P s = map (\<lambda>i. if i \<in> P then None else s ! i) [0..<length s]"

lemma deref_free_set: "n \<notin> P \<Longrightarrow> deref (free_set P s) n = deref s n"
  by (simp add: deref_def free_set_def)

lemma free_set_empty [simp]: "free_set {} s = s"
  by (simp add: free_set_def map_nth)

lemma free_obj_free_set: "free_obj n (free_set P s) = free_set (insert n P) s"
  by (rule nth_equalityI) (auto simp: free_obj_def free_set_def nth_upd)

lemma under_simps [simp]: "nodes_below s [] = {}" "nodes_below s (ns @ ms) = nodes_below s ns \<union> nodes_below s ms"
  by (auto simp: nodes_below_def)

lemma under_Cons: "nodes_below s (n # ns) = nodes_below s [n] \<union> nodes_below s ns"
  using under_simps(2) [of s "[n]" ns] by simp

lemma under_single:
  assumes ok: "trie_ok s" and k: "kids_at s n = Some k"
  shows "nodes_below s [n] = insert n (nodes_below s (kid_list k))"
proof (intro set_eqI iffI)
  have kids: "m \<in> set (kid_list k) \<longleftrightarrow> parent_at (cores s) m = Some n" for m using trie_okD(3) [OF ok k] by simp
  fix x
  assume "x \<in> nodes_below s [n]"
  then obtain v where v: "at_path (cores s) n v x" by (auto simp: nodes_below_def)
  show "x \<in> insert n (nodes_below s (kid_list k))"
  proof (cases v)
    case (Cons y u)
    then obtain m where "parent_at (cores s) m = Some n" "at_path (cores s) m u x" using v by auto
    then have "x \<in> nodes_below s (kid_list k)" unfolding nodes_below_def using kids by blast
    then show ?thesis by simp
  qed (use v in simp)
next
  have kids: "m \<in> set (kid_list k) \<longleftrightarrow> parent_at (cores s) m = Some n" for m using trie_okD(3) [OF ok k] by simp
  fix x
  assume "x \<in> insert n (nodes_below s (kid_list k))"
  then consider "x = n" | "x \<in> nodes_below s (kid_list k)" by blast
  then show "x \<in> nodes_below s [n]"
  proof cases
    case 1
    then have "at_path (cores s) n [] x" by simp
    then show ?thesis unfolding nodes_below_def by fastforce
  next
    case 2
    then obtain m v where m: "parent_at (cores s) m = Some n" "at_path (cores s) m v x" unfolding nodes_below_def using kids by blast
    then obtain y where "symbol_at (cores s) m = Some y"
      by (cases "cores s m") (simp_all add: parent_at_def symbol_at_def)
    then have "at_path (cores s) n (y # v) x" using m by auto
    then show ?thesis unfolding nodes_below_def by fastforce
  qed
qed

lemma under_above:
  assumes "parents_ok (cores s)" "x \<in> nodes_below s ns"
  shows "\<exists>n \<in> set ns. n \<le> x"
  using assms at_path_above by (fastforce simp: nodes_below_def)

text \<open>Lists of nodes whose tries do not overlap.\<close>

definition apart :: "btns \<Rightarrow> nat list \<Rightarrow> bool" where
  "apart s ns \<longleftrightarrow> distinct ns \<and> (\<forall>m \<in> set ns. \<forall>n \<in> set ns. m \<noteq> n \<longrightarrow> nodes_below s [m] \<inter> nodes_below s [n] = {})"

lemma apart_Cons: "apart s (n # ns) \<Longrightarrow> apart s ns \<and> nodes_below s [n] \<inter> nodes_below s ns = {} \<and> n \<notin> set ns"
proof (intro conjI)
  assume a: "apart s (n # ns)"
  show "apart s ns" "n \<notin> set ns" using a by (simp_all add: apart_def)
  have "nodes_below s [n] \<inter> nodes_below s [m] = {}" if "m \<in> set ns" for m
    using a that \<open>n \<notin> set ns\<close> unfolding apart_def by (metis list.set_intros)
  then show "nodes_below s [n] \<inter> nodes_below s ns = {}" unfolding nodes_below_def by auto
qed

lemma apart_append: "apart s (ms @ ns) \<Longrightarrow> apart s ms \<and> apart s ns \<and> nodes_below s ms \<inter> nodes_below s ns = {}"
proof (induction ms)
  case (Cons m ms)
  have a: "apart s (ms @ ns)" "nodes_below s [m] \<inter> nodes_below s (ms @ ns) = {}" "m \<notin> set (ms @ ns)"
    using apart_Cons [of s m "ms @ ns"] Cons.prems by auto
  have "apart s (m # ms)" using Cons.prems unfolding apart_def by auto
  then show ?case using Cons.IH [OF a(1)] a(2) under_Cons [of s m ms] by auto
qed (simp add: apart_def)

lemma kids_apart:
  assumes ok: "trie_ok s" and k: "kids_at s p = Some k"
  shows "apart s (kid_list k)"
  unfolding apart_def
proof (intro conjI ballI impI)
  note kd = trie_okD [OF ok k]
  show "distinct (kid_list k)" by (rule kd(2))
  fix m n assume m: "m \<in> set (kid_list k)" and n: "n \<in> set (kid_list k)" and neq: "m \<noteq> n"
  have po: "parents_ok (cores s)" using ok by (simp add: trie_ok_def)
  have par: "parent_at (cores s) m = Some p" "parent_at (cores s) n = Some p" using m n kd(3) by simp_all
  then obtain a b where ab: "symbol_at (cores s) m = Some a" "symbol_at (cores s) n = Some b"
    by (cases "cores s m"; cases "cores s n") (auto simp: parent_at_def symbol_at_def)
  have "a \<noteq> b" using kd(7) m n neq ab unfolding inj_on_def by metis
  show "nodes_below s [m] \<inter> nodes_below s [n] = {}"
  proof (rule ccontr)
    assume "nodes_below s [m] \<inter> nodes_below s [n] \<noteq> {}"
    then obtain x u v where "at_path (cores s) m u x" "at_path (cores s) n v x" by (auto simp: nodes_below_def)
    then have "at_path (cores s) p (a # u) x" "at_path (cores s) p (b # v) x" using par ab by auto
    then have "a # u = b # v" by (rule at_path_word [OF po])
    then show False using \<open>a \<noteq> b\<close> by simp
  qed
qed

section \<open>The walk\<close>

text \<open>Leaves have no children, and no hash table.\<close>

definition leaves_end :: "btns \<Rightarrow> nat set \<Rightarrow> bool" where
  "leaves_end s U \<longleftrightarrow> (\<forall>n b. n \<in> U \<longrightarrow> deref s n = Inr b \<longrightarrow> IsLeafNode b \<longrightarrow> bt_child b = Chain [])"

lemma push_chain_loop: "dt_loop (push_chain ns ops) s = dt_loop (DT_NODE (Chain ns) # ops) s"
proof (cases ns)
  case Nil
  then show ?thesis by (subst (2) dt_loop.simps) (simp add: push_chain_def dt_step_def)
qed (simp add: push_chain_def)

lemma push_kids_loop: "dt_loop (push_kids k ops) s = dt_loop (DT_NODE k # ops) s"
  by (cases "k = Chain []") (subst (2) dt_loop.simps, simp_all add: push_kids_def dt_step_def)

lemma free_step:
  assumes "deref s0 n = Inr b" "n \<notin> P"
  shows "dt_loop (DT_DS n # ops) (free_set P s0) = dt_loop ops (free_set (insert n P) s0)"
  by (subst dt_loop.simps) (simp add: dt_step_def deref_free_set assms free_obj_free_set)

lemma dt_chain:
  assumes ok: "trie_ok s0" and le: "leaves_end s0 U"
    and kids: "\<And>n k P ops. n \<in> set ns \<Longrightarrow> kids_at s0 n = Some k \<Longrightarrow> nodes_below s0 (kid_list k) \<subseteq> U \<Longrightarrow> P \<inter> nodes_below s0 (kid_list k) = {} \<Longrightarrow>
      dt_loop (DT_NODE k # ops) (free_set P s0) = dt_loop ops (free_set (P \<union> nodes_below s0 (kid_list k)) s0)"
  shows "apart s0 ns \<Longrightarrow> \<forall>n \<in> set ns. cores s0 n \<noteq> None \<Longrightarrow> nodes_below s0 ns \<subseteq> U \<Longrightarrow> P \<inter> nodes_below s0 ns = {} \<Longrightarrow>
    dt_loop (DT_NODE (Chain ns) # ops) (free_set P s0) = dt_loop ops (free_set (P \<union> nodes_below s0 ns) s0)"
  using kids
proof (induction ns arbitrary: P ops)
  case Nil
  then show ?case by (subst dt_loop.simps) (simp add: dt_step_def)
next
  case (Cons n ns)
  obtain b where b: "deref s0 n = Inr b" using Cons.prems(2) by (auto simp: view_None) (metis sum.exhaust)
  let ?k = "bt_child b"
  have k: "kids_at s0 n = Some ?k" by (simp add: view_deref [OF b])
  note un = under_single [OF ok k]
  have po: "parents_ok (cores s0)" using ok by (simp add: trie_ok_def)
  have a: "apart s0 ns" "nodes_below s0 [n] \<inter> nodes_below s0 ns = {}" using apart_Cons [OF Cons.prems(1)] by simp_all
  have nk: "n \<notin> nodes_below s0 (kid_list ?k)"
  proof
    assume "n \<in> nodes_below s0 (kid_list ?k)"
    then obtain m where "m \<in> set (kid_list ?k)" "m \<le> n" using under_above [OF po] by blast
    then have "parent_at (cores s0) m = Some n" using trie_okD(3) [OF ok k] by simp
    then have "n < m" using po unfolding parents_ok_def by blast
    then show False using \<open>m \<le> n\<close> by simp
  qed
  have sub: "nodes_below s0 (n # ns) = insert n (nodes_below s0 (kid_list ?k)) \<union> nodes_below s0 ns" using under_Cons [of s0 n ns] un by simp
  have sib: "dt_loop (push_chain ns ops') (free_set Q s0) = dt_loop ops' (free_set (Q \<union> nodes_below s0 ns) s0)"
    if "Q \<inter> nodes_below s0 ns = {}" for Q ops'
    unfolding push_chain_loop
  proof (rule Cons.IH [OF a(1) _ _ that])
    show "\<forall>n \<in> set ns. cores s0 n \<noteq> None" "nodes_below s0 ns \<subseteq> U" using Cons.prems(2,3) sub by auto
  qed (rule Cons.prems(5), simp_all)
  have d: "deref (free_set P s0) n = Inr b" using b Cons.prems(4) sub by (subst deref_free_set) auto
  show ?case
  proof (cases "IsLeafNode b")
    case True
    then have c: "?k = Chain []" using le b Cons.prems(3) sub unfolding leaves_end_def by blast
    have "dt_loop (DT_NODE (Chain (n # ns)) # ops) (free_set P s0) = dt_loop (push_chain ns (DT_DS n # ops)) (free_set P s0)"
      by (subst dt_loop.simps) (simp add: dt_step_def d True c)
    also have "\<dots> = dt_loop (DT_DS n # ops) (free_set (P \<union> nodes_below s0 ns) s0)"
      by (rule sib) (use Cons.prems(4) sub in auto)
    also have "\<dots> = dt_loop ops (free_set (insert n (P \<union> nodes_below s0 ns)) s0)"
      by (rule free_step [OF b]) (use Cons.prems(4) sub a(2) un in auto)
    finally show ?thesis using sub c by (simp add: Un_commute)
  next
    case False
    have "dt_loop (DT_NODE (Chain (n # ns)) # ops) (free_set P s0) =
        dt_loop (DT_NODE ?k # push_chain ns (DT_DS n # ops)) (free_set P s0)"
      by (subst dt_loop.simps) (simp add: dt_step_def d False push_kids_loop)
    also have "\<dots> = dt_loop (push_chain ns (DT_DS n # ops)) (free_set (P \<union> nodes_below s0 (kid_list ?k)) s0)"
      by (rule Cons.prems(5) [OF _ k]) (use Cons.prems(3,4) sub in auto)
    also have "\<dots> = dt_loop (DT_DS n # ops) (free_set (P \<union> nodes_below s0 (kid_list ?k) \<union> nodes_below s0 ns) s0)"
      by (rule sib) (use Cons.prems(4) sub a(2) un in auto)
    also have "\<dots> = dt_loop ops (free_set (insert n (P \<union> nodes_below s0 (kid_list ?k) \<union> nodes_below s0 ns)) s0)"
      by (rule free_step [OF b]) (use Cons.prems(4) sub a(2) un nk in auto)
    finally show ?thesis using sub by (simp add: Un_ac)
  qed
qed

lemma dt_buckets:
  assumes chain: "\<And>ns P ops. ns \<in> set bs \<Longrightarrow> P \<inter> nodes_below s0 ns = {} \<Longrightarrow>
      dt_loop (DT_NODE (Chain ns) # ops) (free_set P s0) = dt_loop ops (free_set (P \<union> nodes_below s0 ns) s0)"
  shows "apart s0 (concat bs) \<Longrightarrow> P \<inter> nodes_below s0 (concat bs) = {} \<Longrightarrow>
    dt_loop (foldl (\<lambda>ops ns. push_chain ns ops) ops bs) (free_set P s0) = dt_loop ops (free_set (P \<union> nodes_below s0 (concat bs)) s0)"
  using chain
proof (induction bs arbitrary: P ops rule: rev_induct)
  case (snoc ns bs)
  have a: "apart s0 (concat bs)" "nodes_below s0 (concat bs) \<inter> nodes_below s0 ns = {}" using apart_append [of s0 "concat bs" ns] snoc.prems(1) by simp_all
  have "dt_loop (push_chain ns (foldl (\<lambda>ops ns. push_chain ns ops) ops bs)) (free_set P s0) =
      dt_loop (foldl (\<lambda>ops ns. push_chain ns ops) ops bs) (free_set (P \<union> nodes_below s0 ns) s0)"
    unfolding push_chain_loop by (rule snoc.prems(3)) (use snoc.prems(2) in auto)
  also have "\<dots> = dt_loop ops (free_set (P \<union> nodes_below s0 ns \<union> nodes_below s0 (concat bs)) s0)"
    by (rule snoc.IH [OF a(1)]) (use snoc.prems a(2) in auto)
  finally show ?case by (simp add: Un_ac)
qed simp

lemma dt_kids:
  assumes ok: "trie_ok s0" and le: "leaves_end s0 U"
  shows "kids_at s0 p = Some k \<Longrightarrow> length s0 \<le> p + d \<Longrightarrow> nodes_below s0 (kid_list k) \<subseteq> U \<Longrightarrow> P \<inter> nodes_below s0 (kid_list k) = {} \<Longrightarrow>
    dt_loop (DT_NODE k # ops) (free_set P s0) = dt_loop ops (free_set (P \<union> nodes_below s0 (kid_list k)) s0)"
proof (induction d arbitrary: p k P ops)
  case 0
  then show ?case using view_less [of bt_child s0 p k] by simp
next
  case (Suc d)
  note kd = trie_okD [OF ok Suc.prems(1)]
  have po: "parents_ok (cores s0)" using ok by (simp add: trie_ok_def)
  have live: "cores s0 n \<noteq> None" "p < n" if "n \<in> set (kid_list k)" for n
  proof -
    have "parent_at (cores s0) n = Some p" using that kd(3) by simp
    then show "cores s0 n \<noteq> None" "p < n" using po unfolding parents_ok_def by (auto simp: parent_at_def bind_eq_Some_conv)
  qed
  have below: "dt_loop (DT_NODE k' # ops) (free_set P s0) = dt_loop ops (free_set (P \<union> nodes_below s0 (kid_list k')) s0)"
    if "n \<in> set (kid_list k)" "kids_at s0 n = Some k'" "nodes_below s0 (kid_list k') \<subseteq> U" "P \<inter> nodes_below s0 (kid_list k') = {}" for n k' P ops
    by (rule Suc.IH [OF that(2) _ that(3,4)]) (use live(2) [OF that(1)] Suc.prems(2) in simp)
  have ap: "apart s0 (kid_list k)" by (rule kids_apart [OF ok Suc.prems(1)])
  have chain: "dt_loop (DT_NODE (Chain ns) # ops) (free_set P s0) = dt_loop ops (free_set (P \<union> nodes_below s0 ns) s0)"
    if ns: "ns \<in> set (chains k)" "P \<inter> nodes_below s0 ns = {}" for ns P ops
  proof -
    obtain us vs where c: "chains k = us @ ns # vs" using ns(1) by (meson split_list)
    then have kl: "kid_list k = concat us @ ns @ concat vs" by (simp add: kid_list_def)
    have "apart s0 ns" using apart_append [of s0 "concat us" "ns @ concat vs"] apart_append [of s0 ns "concat vs"] ap kl by simp
    then show ?thesis
      by (intro dt_chain [OF ok le] below) (use live(1) ns(2) Suc.prems(3) kl in auto)
  qed
  show ?case
  proof (cases k)
    case (Chain ns)
    then show ?thesis using chain [of ns P ops] Suc.prems(4) by simp
  next
    case (Hashed h)
    have "dt_loop (DT_NODE k # ops) (free_set P s0) = dt_loop (foldl (\<lambda>ops ns. push_chain ns ops) (DT_HT # ops) (buckets h)) (free_set P s0)"
      by (subst dt_loop.simps) (simp add: dt_step_def Hashed)
    also have "\<dots> = dt_loop (DT_HT # ops) (free_set (P \<union> nodes_below s0 (concat (buckets h))) s0)"
      by (rule dt_buckets) (use chain Hashed ap Suc.prems(4) in simp_all)
    also have "\<dots> = dt_loop ops (free_set (P \<union> nodes_below s0 (concat (buckets h))) s0)"
      by (subst dt_loop.simps) (simp add: dt_step_def)
    finally show ?thesis by (simp add: Hashed)
  qed
qed

theorem delete_trie_law:
  assumes t: "trie_at s r k" and le: "leaves_end s (nodes_below s [r])"
  shows "delete_trie r s = Some (Inr (free_set (nodes_below s [r]) s))"
proof -
  have ok: "trie_ok s" and live: "cores s r \<noteq> None" using t by (auto simp: trie_at_def view_Some view_None)
  have "dt_loop (DT_NODE (Chain [r]) # []) (free_set {} s) = dt_loop [] (free_set ({} \<union> nodes_below s [r]) s)"
  proof (rule dt_chain [OF ok le])
    fix n k P ops assume "n \<in> set [r]" "kids_at s n = Some k" "nodes_below s (kid_list k) \<subseteq> nodes_below s [r]" "P \<inter> nodes_below s (kid_list k) = {}"
    then show "dt_loop (DT_NODE k # ops) (free_set P s) = dt_loop ops (free_set (P \<union> nodes_below s (kid_list k)) s)"
      using dt_kids [OF ok le, of n k "length s"] by simp
  qed (use live in \<open>simp_all add: apart_def\<close>)
  moreover have "dt_loop [] s' = Some (Inr s')" for s' by (subst dt_loop.simps) simp
  ultimately show ?thesis by (simp add: delete_trie_def)
qed

section \<open>The other tries\<close>

lemma free_set_view: "view f (free_set P s) n = (if n \<in> P then None else view f s n)"
  by (simp add: view_def deref_def free_set_def)

lemma freed_pruned:
  assumes t: "trie_at s r k"
  shows "pruned (nodes_below s [r]) s (free_set (nodes_below s [r]) s)"
proof -
  let ?P = "nodes_below s [r]"
  let ?s = "free_set ?P s"
  have ok: "trie_ok s" and root: "parent_at (cores s) r = None" using t by (simp_all add: trie_at_def)
  have step: "m \<in> ?P \<longleftrightarrow> q \<in> ?P" if q: "parent_at (cores s) m = Some q" for m q
  proof -
    obtain y where y: "symbol_at (cores s) m = Some y" using q by (cases "cores s m") (simp_all add: parent_at_def symbol_at_def)
    have "m \<noteq> r" using q root by auto
    show ?thesis
    proof
      assume "m \<in> ?P"
      then obtain v where v: "at_path (cores s) r v m" by (auto simp: nodes_below_def)
      then show "q \<in> ?P" using \<open>m \<noteq> r\<close> q by (cases v rule: rev_cases) (auto simp: at_path_last nodes_below_def)
    next
      assume "q \<in> ?P"
      then obtain v where "at_path (cores s) r v q" by (auto simp: nodes_below_def)
      then have "at_path (cores s) r (v @ [y]) m" using q y by (auto simp: at_path_last)
      then show "m \<in> ?P" by (auto simp: nodes_below_def)
    qed
  qed
  have co: "cores ?s n = (if n \<in> ?P then None else cores s n)" for n by (rule free_set_view)
  have par: "parent_at (cores ?s) m = Some q \<longleftrightarrow> q \<notin> ?P \<and> parent_at (cores s) m = Some q" for m q
    using step [of m q] by (auto simp: parent_at_def co)
  have "trie_ok ?s"
    unfolding trie_ok_def
  proof (intro conjI allI impI)
    fix q k assume "kids_at ?s q = Some k"
    then have k: "kids_at s q = Some k" "q \<notin> ?P" by (simp_all add: free_set_view split: if_splits)
    have "kids_ok (cores s) (cps s) q k" using k(1) ok by (simp add: trie_ok_def)
    then show "kids_ok (cores ?s) (cps ?s) q k"
    proof (rule kids_ok_cong [rotated 2])
      show "parent_at (cores ?s) m = Some q \<longleftrightarrow> parent_at (cores s) m = Some q" for m using par k(2) by simp
      show "symbol_at (cores ?s) m = symbol_at (cores s) m \<and> cps ?s m = cps s m" if "parent_at (cores s) m = Some q" for m
        using step [OF that] k(2) by (simp add: symbol_at_def co free_set_view)
    qed
  next
    have "parents_ok (cores s)" using ok by (simp add: trie_ok_def)
    then show "parents_ok (cores ?s)" unfolding parents_ok_def par co by auto
  qed
  moreover have "counts_ok s \<longrightarrow> counts_ok ?s" by (simp add: counts_ok_def free_set_view)
  moreover have "length ?s = length s" by (simp add: free_set_def)
  ultimately show ?thesis
    using step by (auto simp: pruned_def fun_eq_iff co free_set_view)
qed

lemma pruned_elsewhere:
  assumes p: "pruned P s s'" and t: "trie_at s r k" and out: "\<And>v m. at_path (cores s) r v m \<Longrightarrow> m \<notin> P"
  shows "trie_at s' r k" "words s' r = words s r" "leaf_at s' r v m \<longleftrightarrow> leaf_at s r v m"
proof -
  have path: "at_path (cores s') r v m \<longleftrightarrow> at_path (cores s) r v m" for v m using at_path_pruned [OF p] out by blast
  have co: "cores s' m = cores s m" if "m \<notin> P" for m using p that by (simp add: pruned_def)
  have lf: "is_leaf_node (cores s') m = is_leaf_node (cores s) m" "is_deleted_node (cores s') m = is_deleted_node (cores s) m"
    "is_root (cores s') m = is_root (cores s) m" if "at_path (cores s) r v m" for v m
    using co [OF out [OF that]] by (simp_all add: is_leaf_node_def is_deleted_node_def is_root_def)
  have r: "r \<notin> P" by (rule out [of "[]"]) simp
  have "trie_ok s'" "nts s' r = nts s r" "parent_at (cores s') r = parent_at (cores s) r"
    using p r co [OF r] by (simp_all add: pruned_def parent_at_def)
  then show "trie_at s' r k" using t lf unfolding trie_at_def path by auto
  show l: "leaf_at s' r v m \<longleftrightarrow> leaf_at s r v m" for v m using lf by (auto simp: leaf_at_def path)
  have "(\<exists>m. leaf_at s' r v m \<and> \<not> is_deleted_node (cores s') m) \<longleftrightarrow> (\<exists>m. leaf_at s r v m \<and> \<not> is_deleted_node (cores s) m)" for v
  proof -
    have "is_deleted_node (cores s') m = is_deleted_node (cores s) m" if "leaf_at s r v m" for m
      using lf(2) that by (auto simp: leaf_at_def)
    then show ?thesis unfolding l by blast
  qed
  then show "words s' r = words s r" by (simp add: words_def)
qed

theorem delete_trie_frees:
  assumes t: "trie_at s r k" and le: "leaves_end s (nodes_below s [r])"
  shows "\<exists>s'. delete_trie r s = Some (Inr s') \<and> trie_ok s' \<and>
    (\<forall>n. deref s' n = (if n \<in> nodes_below s [r] then Inl (Dangling_Pointer n) else deref s n)) \<and>
    (\<forall>q j. q \<noteq> r \<longrightarrow> trie_at s q j \<longrightarrow> trie_at s' q j \<and> words s' q = words s q)"
proof -
  let ?s = "free_set (nodes_below s [r]) s"
  note p = freed_pruned [OF t]
  have "deref ?s n = (if n \<in> nodes_below s [r] then Inl (Dangling_Pointer n) else deref s n)" for n
    by (simp add: deref_def free_set_def)
  moreover have "trie_at ?s q j \<and> words ?s q = words s q" if q: "q \<noteq> r" "trie_at s q j" for q j
  proof -
    have root: "parent_at (cores s) r = None" "parent_at (cores s) q = None" using t q(2) by (simp_all add: trie_at_def)
    have "m \<notin> nodes_below s [r]" if "at_path (cores s) q v m" for v m
    proof
      assume "m \<in> nodes_below s [r]"
      then obtain u where "at_path (cores s) r u m" by (auto simp: nodes_below_def)
      then have "r = q" using root_unique that root by blast
      then show False using q(1) by simp
    qed
    then show ?thesis using pruned_elsewhere(1,2) [OF p q(2)] by blast
  qed
  ultimately show ?thesis using delete_trie_law [OF t le] p unfolding pruned_def by blast
qed

end
