(* ===== verification/Trie_Properties.thy ===== *)
theory Trie_Properties imports Trie_Asserting Trie_Rebuilding Trie_Freeing begin

text \<open>
  The properties of tries, with witnesses on small tries that the operations make.
\<close>

section \<open>Tries for the witnesses\<close>

text \<open>The store with one new trie, whose root is node 0.\<close>

definition new_trie :: btns where
  "new_trie = snd (newBasicTrie (SStruct 800 0) INTERN_TRIE_TT [])"

definition default_flags :: "nat \<times> nat" where "default_flags = (1000000, 32767)"

lemmas trie_eval = trie_intern_chk_ins_def may_expand_def start_enum_def new_trie_def newBasicTrie_eq
  chk_ins_def deref_def new_btn_def try_instr_def set_child_def upd_obj_def Let_def check_trie_intern_depth_def default_flags_def
  EncodeNewTrieVar_def EncodeTrieVar_def IsStandardizedVariable_def IndexOfStdVar_def StandardizeAndTrailVariable_def
  IsNewTrieVar_def IsNewTrieAttv_def TN_UpgradeInstrTypeToSUCCESS_def MakeLeafNode_def IsDeletedNode_def res_bind_def

lemma no_nodes_ok: "trie_ok []" "counts_ok []"
  by (simp_all add: trie_ok_def counts_ok_def parents_ok_def parent_at_def view_def deref_def)

lemma new_trie_law: "trie_at new_trie 0 k" "words new_trie 0 = {}" "counts_ok new_trie" "no_dead_ends new_trie 0"
proof -
  obtain s where s: "newBasicTrie (SStruct 800 0) INTERN_TRIE_TT [] = (0, s)" "trie_at s 0 k" "words s 0 = {}"
    "length s = 1" "kids_at s 0 = Some (Chain [])"
    using newBasicTrie_law [OF no_nodes_ok(1), of "SStruct 800 0" INTERN_TRIE_TT k] by auto
  have n: "new_trie = s" using s(1) by (simp add: new_trie_def)
  show "trie_at new_trie 0 k" "words new_trie 0 = {}" using s by (simp_all add: n)
  show "counts_ok new_trie" unfolding n counts_ok_def
  proof (intro allI impI)
    fix p k assume k: "kids_at s p = Some k"
    then have "p = 0" using view_less [OF k] s(4) by simp
    then have "k = Chain []" using k s(5) by simp
    then show "counted k" by simp
  qed
  have "kids_ok (cores s) (cps s) 0 (Chain [])" using s(2,5) by (simp add: trie_at_def trie_ok_def)
  then have "parent_at (cores s) m \<noteq> Some 0" for m by (simp add: kids_ok_def)
  then have "at_path (cores s) 0 v m \<longleftrightarrow> v = [] \<and> m = 0" for v m by (rule at_path_no_kids)
  then show "no_dead_ends new_trie 0" by (simp add: n no_dead_ends_def)
qed

abbreviation (input) intern_term :: "tterm \<Rightarrow> btns \<Rightarrow> (intern_result \<times> btns) res" where
  "intern_term t s \<equiv> trie_intern_chk_ins (800, 0) default_flags (0, EXPAND_HASHES, []) 512 t (Some 0) s"

definition some_term :: tterm where "some_term = TCs 1600 [TVar 7, TList (TInt 5) (TVar 7)]"
definition same_shape :: tterm where "same_shape = TCs 1600 [TVar 3, TList (TInt 5) (TVar 3)]"
definition some_word :: "tsym list" where
  "some_word = [SStruct 1600 2, STrieVar 0x10000, SList, SInt 5, STrieVar 0]"

lemma some_word: "word_of 512 [some_term] = some_word" "vars_of 512 [some_term] = [7]"
  "word_of 512 [same_shape] = some_word" "vars_of 512 [same_shape] = [3]"
  "fitting 512 [some_term]" "fitting 512 [same_shape]"
  by (simp_all add: word_of_def vars_of_def fitting_def some_term_def same_shape_def some_word_def start_enum_def
      EncodeNewTrieVar_def EncodeTrieVar_def IsStandardizedVariable_def IndexOfStdVar_def StandardizeAndTrailVariable_def)

lemma default_flags: "0 < fst default_flags" "0 < snd default_flags" "\<not> too_many default_flags (intern_size some_term)"
  "\<not> too_many default_flags (intern_size same_shape)"
  by (simp_all add: default_flags_def too_many_def intern_size_def some_term_def same_shape_def)

section \<open>Interning\<close>

text \<open>
  C28: interning a term adds its word to the words of the trie and changes no other; the leaf it
  returns is the leaf of that word, the flag tells whether the word was there, and the trie keeps its invariant,
  whether or not hash tables may grow.
\<close>

theorem trie_intern_adds:
  assumes "trie_at s r 1" "\<forall>n \<in> set ns. cores s n \<noteq> None" "length (vars_of sz [t]) \<le> 0x10000"
    "0 < fst flags" "\<not> too_many flags (intern_size t)"
  defines "w \<equiv> word_of sz [t]"
  shows "\<exists>res s'. trie_intern_chk_ins psc flags (c, e, ns) sz t (Some r) s = Inr (res, s') \<and>
    trie_at s' r 1 \<and> leaf_at s' r w (leaf res) \<and> words s' r = insert w (words s r) \<and>
    flag res = (if w \<in> words s r then 1 else 0) \<and> trieinstr_vars res = vars_of sz [t] \<and>
    (\<forall>v m. v \<noteq> w \<longrightarrow> leaf_at s' r v m = leaf_at s r v m) \<and> (no_dead_ends s r \<longrightarrow> no_dead_ends s' r)"
proof -
  from trie_intern_law [OF assms(1-5), of psc c e] obtain res s'
    where "trie_intern_chk_ins psc flags (c, e, ns) sz t (Some r) s = Inr (res, s')" "trieinstr_vars res = vars_of sz [t]"
      "interned w r s (leaf res, flag res, s')" unfolding w_def by blast
  then show ?thesis unfolding interned_def by auto
qed

lemma trie_intern_adds_witness:
  "\<exists>res s'. intern_term some_term new_trie = Inr (res, s') \<and>
    trie_at s' 0 1 \<and> leaf_at s' 0 some_word (leaf res) \<and> words s' 0 = {some_word} \<and> flag res = 0 \<and> trieinstr_vars res = [7]"
proof -
  have few: "length (vars_of 512 [some_term]) \<le> 0x10000" by (simp add: some_word)
  from trie_intern_adds [OF new_trie_law(1) _ few default_flags(1,3), of "[]" "(800, 0)" 0 EXPAND_HASHES]
  show ?thesis unfolding new_trie_law(2) some_word by (auto simp del: One_nat_def)
qed

lemma leaf_at_word_unique: "trie_ok s \<Longrightarrow> leaf_at s r v n \<Longrightarrow> leaf_at s r w n \<Longrightarrow> v = w"
  unfolding trie_ok_def leaf_at_def using at_path_word by blast

text \<open>
  Terms interned one after the other in the trie of \<open>r\<close>, each with its own way to decide whether hash tables
  may grow; the result has their leaves.
\<close>

fun intern_run ::
    "nat \<times> nat \<Rightarrow> nat \<times> nat \<Rightarrow> nat \<Rightarrow> nat \<Rightarrow> (tterm \<times> nat \<times> nat \<times> nat list) list \<Rightarrow> btns \<Rightarrow> (nat list \<times> btns) res" where
  "intern_run psc flags sz r [] s = Inr ([], s)"
| "intern_run psc flags sz r ((t, how) # qs) s =
    res_bind (trie_intern_chk_ins psc flags how sz t (Some r) s) (\<lambda>(res, s).
    res_bind (intern_run psc flags sz r qs s) (\<lambda>(ls, s). Inr (leaf res # ls, s)))"

lemma interned_keeps:
  assumes "interned w r s (n, fl, s')"
  shows "leaf_at s r v m \<Longrightarrow> leaf_at s' r v m" "cores s m \<noteq> None \<Longrightarrow> cores s' m \<noteq> None"
proof -
  have i: "leaf_at s' r w n" "\<And>v m. v \<noteq> w \<Longrightarrow> leaf_at s' r v m = leaf_at s r v m" "\<And>m. leaf_at s r w m \<Longrightarrow> n = m"
    "\<And>m. m < length s \<Longrightarrow> m \<noteq> n \<Longrightarrow> cores s' m = cores s m"
    using assms by (simp_all add: interned_def)
  show "leaf_at s r v m \<Longrightarrow> leaf_at s' r v m" using i(1,2,3) by (cases "v = w") auto
  have "cores s' n \<noteq> None" using i(1) by (auto simp: leaf_at_def is_leaf_node_def split: option.splits)
  then show "cores s m \<noteq> None \<Longrightarrow> cores s' m \<noteq> None"
    using i(4) [of m] view_less [of core s m] by (cases "m = n") auto
qed

lemma intern_run_leaves:
  assumes "trie_at s r 1" "0 < fst flags"
    and "\<forall>(t, c, e, ns) \<in> set qs. fitting sz [t] \<and> \<not> too_many flags (intern_size t) \<and> (\<forall>n \<in> set ns. cores s n \<noteq> None)"
  shows "\<exists>ls s'. intern_run psc flags sz r qs s = Inr (ls, s') \<and> trie_at s' r 1 \<and>
    (\<forall>v m. leaf_at s r v m \<longrightarrow> leaf_at s' r v m) \<and> list_all2 (\<lambda>q l. leaf_at s' r (word_of sz [fst q]) l) qs ls"
  using assms
proof (induction qs arbitrary: s)
  case (Cons q qs)
  obtain t c e ns where q: "q = (t, c, e, ns)" by (cases q)
  have h: "\<forall>n \<in> set ns. cores s n \<noteq> None" "length (vars_of sz [t]) \<le> 0x10000" "\<not> too_many flags (intern_size t)"
    using Cons.prems(3) by (auto simp: q fitting_def)
  from trie_intern_law [OF Cons.prems(1) h(1,2) Cons.prems(2) h(3), of psc c e] obtain res s1
    where one: "trie_intern_chk_ins psc flags (c, e, ns) sz t (Some r) s = Inr (res, s1)"
      "interned (word_of sz [t]) r s (leaf res, flag res, s1)" by blast
  note keep = interned_keeps [OF one(2)]
  have t1: "trie_at s1 r 1" "leaf_at s1 r (word_of sz [t]) (leaf res)" using one(2) by (simp_all add: interned_def)
  have "\<forall>(t, c, e, ns) \<in> set qs. fitting sz [t] \<and> \<not> too_many flags (intern_size t) \<and> (\<forall>n \<in> set ns. cores s1 n \<noteq> None)"
    using Cons.prems(3) keep(2) by fastforce
  from Cons.IH [OF t1(1) Cons.prems(2) this] obtain ls s' where
    "intern_run psc flags sz r qs s1 = Inr (ls, s')" "trie_at s' r 1" "\<forall>v m. leaf_at s1 r v m \<longrightarrow> leaf_at s' r v m"
    "list_all2 (\<lambda>q l. leaf_at s' r (word_of sz [fst q]) l) qs ls" by blast
  with one(1) keep(1) t1(2) show ?case by (intro exI [of _ "leaf res # ls"] exI [of _ s']) (simp add: q)
qed simp

text \<open>
  C29: of terms that are interned in a trie one after the other, two get the same leaf exactly when they are
  variants, that is equal up to the names of variables. Each term may be interned with the check
  of the choice points (\<open>CPS_CHECK\<close>, as \<open>trie_intern\<close> does) or without; it is not too large, and its variables fit
  the array of \<open>sz\<close> variables that is there (a term with more gets another word the first time).
\<close>

theorem same_leaf_variants:
  assumes t: "trie_at s r 1" and fl: "0 < fst flags"
    and q: "\<forall>(t, c, e, ns) \<in> set qs. fitting sz [t] \<and> \<not> too_many flags (intern_size t) \<and> (\<forall>n \<in> set ns. cores s n \<noteq> None)"
  shows "\<exists>ls s'. intern_run psc flags sz r qs s = Inr (ls, s') \<and> length ls = length qs \<and>
    (\<forall>i < length qs. \<forall>j < length qs. ls ! i = ls ! j \<longleftrightarrow> variants [fst (qs ! i)] [fst (qs ! j)])"
proof -
  from intern_run_leaves [OF t fl q] obtain ls s' where run: "intern_run psc flags sz r qs s = Inr (ls, s')"
    "trie_at s' r 1" "list_all2 (\<lambda>q l. leaf_at s' r (word_of sz [fst q]) l) qs ls" by blast
  have ok: "trie_ok s'" using run(2) by (simp add: trie_at_def)
  have len: "length ls = length qs" using run(3) list_all2_lengthD by fastforce
  have "ls ! i = ls ! j \<longleftrightarrow> variants [fst (qs ! i)] [fst (qs ! j)]" if i: "i < length qs" "j < length qs" for i j
  proof -
    have l: "leaf_at s' r (word_of sz [fst (qs ! k)]) (ls ! k)" "fitting sz [fst (qs ! k)]" if "k < length qs" for k
      using list_all2_nthD [OF run(3) that] q nth_mem [OF that] by auto
    have "ls ! i = ls ! j \<longleftrightarrow> word_of sz [fst (qs ! i)] = word_of sz [fst (qs ! j)]"
      using l(1) [OF i(1)] l(1) [OF i(2)] leaf_at_unique [OF ok] leaf_at_word_unique [OF ok] by metis
    then show ?thesis using same_word_variants [OF l(2) [OF i(1)] l(2) [OF i(2)]] by simp
  qed
  with run(1) len show ?thesis by blast
qed

text \<open>Variants with the check of the choice points and without, and a list in between.\<close>

definition some_list :: tterm where "some_list = TList (TInt 1) (TString 24)"

lemma same_leaf_variants_witness:
  "\<exists>l k s. intern_run (800, 0) default_flags 512 0
      [(some_term, CPS_CHECK, EXPAND_HASHES, []), (some_list, 0, EXPAND_HASHES, []), (same_shape, 0, 1, [])]
      new_trie = Inr ([l, k, l], s) \<and> l \<noteq> k"
proof -
  define qs where "qs = [(some_term, CPS_CHECK, EXPAND_HASHES, []), (some_list, 0, EXPAND_HASHES, []), (same_shape, 0, 1, [] :: nat list)]"
  have small: "fitting 512 [some_list]" "\<not> too_many default_flags (intern_size some_list)"
    by (simp_all add: some_list_def fitting_def vars_of_def start_enum_def intern_size_def too_many_def default_flags_def)
  have "\<forall>(t, c, e, ns) \<in> set qs. fitting 512 [t] \<and> \<not> too_many default_flags (intern_size t) \<and> (\<forall>n \<in> set ns. cores new_trie n \<noteq> None)"
    unfolding qs_def using some_word(5,6) default_flags(3,4) small by simp
  from same_leaf_variants [OF new_trie_law(1) default_flags(1) this, of "(800, 0)"] obtain ls s where
    r: "intern_run (800, 0) default_flags 512 0 qs new_trie = Inr (ls, s)" "length ls = length qs"
    "\<forall>i < length qs. \<forall>j < length qs. ls ! i = ls ! j \<longleftrightarrow> variants [fst (qs ! i)] [fst (qs ! j)]" by blast
  obtain a b c where ls: "ls = [a, b, c]" using r(2) by (auto simp: qs_def length_Suc_conv)
  have "variants [some_term] [same_shape]"
    unfolding variants_def by (rule exI [of _ "\<lambda>_. 3"]) (simp add: some_term_def same_shape_def)
  then have "a = c" using r(3) [rule_format, of 0 2] by (simp add: ls qs_def)
  moreover have "\<not> variants [some_term] [some_list]" by (simp add: variants_def some_term_def some_list_def)
  then have "a \<noteq> b" using r(3) [rule_format, of 0 1] by (simp add: ls qs_def)
  ultimately show ?thesis using r(1) unfolding ls qs_def by blast
qed

text \<open>
  A term with more compound terms than \<open>MAX_TABLE_ANSWER_METRIC\<close> allows is not interned. (What was entered of
  it stays in the trie as a branch without a leaf; the state at an error is not part of the model.)
\<close>

lemma trie_intern_too_large:
  assumes "trie_at s r 1" "\<forall>n \<in> set ns. cores s n \<noteq> None" "length (vars_of sz [t]) \<le> 0x10000"
    "0 < fst flags" "0 < snd flags" "too_many flags (intern_size t)"
  shows "trie_intern_chk_ins psc flags (c, e, ns) sz t (Some r) s = Inl (Table_Error ''Exceeded max trie_intern size'')"
  by (rule too_large_law [OF assms])

section \<open>Deleting\<close>

text \<open>
  C31: \<open>delete_branch\<close> takes the word of the leaf out of the trie, and no other. The trie keeps its
  invariant, its hash tables their counts, and no branch without leaves is left; the root is
  freed with the last word when the caller gives it up, and is kept when the caller keeps it.
\<close>

theorem delete_branch_words:
  assumes "trie_at s r k" "counts_ok s" "leaf_at s r w n" "hk = Root_Var \<or> hk = Child_Of r"
  shows "\<exists>root' s'. delete_branch hk n (Some r, s) = Inr (root', s') \<and> trie_ok s' \<and> counts_ok s' \<and>
    (\<forall>v m. leaf_at s' r v m \<longleftrightarrow> leaf_at s r v m \<and> v \<noteq> w) \<and> words s' r = words s r - {w} \<and>
    (root' = Some r \<and> trie_at s' r k \<or> root' = None \<and> hk = Root_Var \<and> isl (deref s' r)) \<and>
    (no_dead_ends s r \<longrightarrow> no_dead_ends s' r)"
  by (rule delete_branch_law [OF assms])

definition one_word_trie :: btns where
  "one_word_trie = (case intern_term some_term new_trie of Inr (_, s) \<Rightarrow> s | Inl _ \<Rightarrow> [])"

lemma one_word_trie: "trie_at one_word_trie 0 1" "leaf_at one_word_trie 0 some_word 5" "words one_word_trie 0 = {some_word}"
  "counts_ok one_word_trie" "length one_word_trie = 6" "no_dead_ends one_word_trie 0"
proof -
  have few: "length (vars_of 512 [some_term]) \<le> 0x10000" by (simp add: some_word)
  have no: "\<forall>n \<in> set []. cores s n \<noteq> None" for s :: btns by simp
  from trie_intern_law [OF new_trie_law(1) no few default_flags(1,3), of "(800, 0)" 0 EXPAND_HASHES]
  obtain res s where one: "intern_term some_term new_trie = Inr (res, s)" "interned some_word 0 new_trie (leaf res, flag res, s)"
    "counts_ok s" using new_trie_law(3) by (auto simp: some_word may_expand_def)
  then have s: "one_word_trie = s" by (simp add: one_word_trie_def)
  have "intern_term some_term new_trie = Inr (\<lparr>leaf = 5, flag = 0, hook = 0, trieinstr_vars = [7], num_trievars = 512\<rparr>, one_word_trie) \<and>
    length one_word_trie = 6"
    unfolding one_word_trie_def by (simp add: trie_eval some_term_def)
  then have run: "leaf res = 5" "length s = 6" using one(1) s by simp_all
  show "trie_at one_word_trie 0 1" "leaf_at one_word_trie 0 some_word 5" "words one_word_trie 0 = {some_word}"
    "counts_ok one_word_trie" "length one_word_trie = 6" "no_dead_ends one_word_trie 0"
    using one run by (auto simp: interned_def s new_trie_law(2,4))
qed


lemma delete_branch_words_witness:
  "\<exists>root' s'. delete_branch Root_Var 5 (Some 0, one_word_trie) = Inr (root', s') \<and> trie_ok s' \<and> words s' 0 = {} \<and> no_dead_ends s' 0"
  using delete_branch_words [OF one_word_trie(1,4,2), of Root_Var] by (auto simp: one_word_trie(3,6))

section \<open>Freeing a trie\<close>

text \<open>
  C36: \<open>delete_trie\<close> returns, and frees exactly the nodes of the trie, each of them once;
  the other tries of the store keep their nodes and their words.
\<close>

theorem delete_trie_others:
  assumes t: "trie_at s r k" and le: "leaves_end s (nodes_below s [r])"
  shows "\<exists>s'. delete_trie r s = Some (Inr s') \<and> trie_ok s' \<and>
    (\<forall>n. deref s' n = (if n \<in> nodes_below s [r] then Inl (Dangling_Pointer n) else deref s n)) \<and>
    (\<forall>q j. q \<noteq> r \<longrightarrow> trie_at s q j \<longrightarrow> trie_at s' q j \<and> words s' q = words s q)"
  by (rule delete_trie_frees [OF assms])

lemma one_word_leaves_end: "leaves_end one_word_trie U"
proof -
  have "IsLeafNode b \<longrightarrow> bt_child b = Chain []" if "deref one_word_trie n = Inr b" for n b
    using that by (auto simp: one_word_trie_def trie_eval some_term_def IsLeafNode_def nth_Cons split: nat.splits if_splits)
  then show ?thesis by (simp add: leaves_end_def)
qed

lemma delete_trie_others_witness:
  "\<exists>s'. delete_trie 0 one_word_trie = Some (Inr s') \<and> trie_ok s' \<and> deref s' 0 = Inl (Dangling_Pointer 0)"
proof -
  have "at_path (cores one_word_trie) 0 [] 0" by simp
  then have "0 \<in> nodes_below one_word_trie [0]" unfolding nodes_below_def by fastforce
  then show ?thesis using delete_trie_others [OF one_word_trie(1) one_word_leaves_end] by auto
qed

section \<open>Marks\<close>

text \<open>
  C32: \<open>safe_delete_branch\<close> takes a word out of the trie by a mark on its leaf, which keeps its place,
  and \<open>undelete_branch\<close> then gives back the trie as it was.
\<close>

theorem safe_delete_undelete:
  assumes t: "trie_at s r k" and n: "leaf_at s r w n" and w: "w \<in> words s r" and i: "\<And>b. deref s n = Inr b \<Longrightarrow> bt_instr b \<noteq> 0"
  shows "\<exists>s'. safe_delete_branch n s = Inr s' \<and> trie_at s' r k \<and> words s' r = words s r - {w} \<and>
    (\<forall>v m. leaf_at s' r v m = leaf_at s r v m) \<and> undelete_branch n s' = Inr s"
proof -
  from leaf_deref [OF n] obtain b where b: "deref s n = Inr b" by blast
  have "trie_ok s" using t by (simp add: trie_at_def)
  then have "\<not> is_deleted_node (cores s) n" using w n leaf_at_unique unfolding words_def by blast
  then have v: "\<not> is_deleted_node (cores s) n" .
  from safe_delete_law [OF t n i] obtain s' where s': "safe_delete_branch n s = Inr s'" "trie_at s' r k"
    "words s' r = words s r - {w}" "\<forall>v m. leaf_at s' r v m = leaf_at s r v m" by auto
  then show ?thesis using undelete_failing [OF b i [OF b] v s'(1)] by blast
qed

lemma safe_delete_undelete_witness:
  "\<exists>s'. safe_delete_branch 5 one_word_trie = Inr s' \<and> trie_at s' 0 1 \<and> words s' 0 = {} \<and> undelete_branch 5 s' = Inr one_word_trie"
proof -
  have "bt_instr b \<noteq> 0" if "deref one_word_trie 5 = Inr b" for b
    using that by (auto simp: one_word_trie_def trie_eval some_term_def)
  from safe_delete_undelete [OF one_word_trie(1,2) _ this] show ?thesis by (auto simp: one_word_trie(3))
qed

section \<open>Asserting\<close>

text \<open>
  C33: asserting a fact adds the word of its arguments; the fact is reported as found exactly when
  the trie has a leaf for it, and then the words stay as they are.
\<close>

theorem trie_assert_adds:
  assumes "trie_at s r (length args)" "args \<noteq> []" "length (vars_of sz args) \<le> 0x10000"
  defines "w \<equiv> word_of sz args"
  shows "\<exists>n found sz' s'. trie_assert_chk_ins sz args r s = Inr (n, found, sz', s') \<and> trie_at s' r (length args) \<and>
    leaf_at s' r w n \<and> (found \<longleftrightarrow> (\<exists>m. leaf_at s r w m)) \<and> words s' r = (if found then words s r else insert w (words s r)) \<and>
    (\<forall>v m. v \<noteq> w \<longrightarrow> leaf_at s' r v m = leaf_at s r v m) \<and> (no_dead_ends s r \<longrightarrow> no_dead_ends s' r)"
  using trie_assert_law [OF assms(1-3)] unfolding w_def by blast

lemma trie_assert_adds_witness:
  "\<exists>n sz' s'. trie_assert_chk_ins 512 [TInt 1, TVar 9] 0 new_trie = Inr (n, False, sz', s') \<and> trie_at s' 0 2 \<and>
    words s' 0 = {[SInt 1, STrieVar 0x10000]}"
proof -
  have w: "word_of 512 [TInt 1, TVar 9] = [SInt 1, STrieVar 0x10000]" "length (vars_of 512 [TInt 1, TVar 9]) \<le> 0x10000"
    by (simp_all add: word_of_def vars_of_def trie_eval)
  have l: "\<not> leaf_at new_trie 0 v m" for v m
  proof
    assume "leaf_at new_trie 0 v m"
    then have v: "v \<noteq> []" "at_path (cores new_trie) 0 v m" "is_leaf_node (cores new_trie) m" by (simp_all add: leaf_at_def)
    have "cores new_trie m \<noteq> None" by (rule at_path_live [OF v(2,1)])
    then have "m = 0" using view_less [of core new_trie m] by (auto simp: new_trie_def newBasicTrie_eq)
    then show False using v(3) by (simp add: is_leaf_node_def new_trie_def newBasicTrie_eq view_def deref_def IsLeafNode_def core_def)
  qed
  from trie_assert_adds [OF new_trie_law(1), of "[TInt 1, TVar 9]" 512]
  show ?thesis using w l by (auto simp: new_trie_law(2) numeral_2_eq_2)
qed

text \<open>
  C34: a fact that was retracted by a mark on its leaf (\<open>trie_retract_safe\<close>) is reported as found when it
  is asserted again, and is not there afterwards: unlike \<open>trie_intern_chk_ins\<close>, the function does
  not take the mark away.
\<close>

theorem assert_after_safe_retract:
  assumes t: "trie_at s r (length args)" "args \<noteq> []" "length (vars_of sz args) \<le> 0x10000"
    and n: "leaf_at s r (word_of sz args) n" and i: "\<And>b. deref s n = Inr b \<Longrightarrow> bt_instr b \<noteq> 0"
    and d: "safe_delete_branch n s = Inr s1"
  shows "\<exists>n sz' s'. trie_assert_chk_ins sz args r s1 = Inr (n, True, sz', s') \<and> word_of sz args \<notin> words s' r"
proof -
  from safe_delete_law [OF t(1) n i] d have s1: "trie_at s1 r (length args)" "words s1 r = words s r - {word_of sz args}"
    "leaf_at s1 r (word_of sz args) n" using n by auto
  from trie_assert_law [OF s1(1) t(2,3)] s1(2,3) show ?thesis by fastforce
qed


definition one_fact_trie :: btns where
  "one_fact_trie = (case trie_assert_chk_ins 512 [TInt 1] 0 new_trie of Inr (_, _, _, s) \<Rightarrow> s | Inl _ \<Rightarrow> [])"

lemma one_fact_trie:
  "trie_at one_fact_trie 0 (length [TInt 1])" "leaf_at one_fact_trie 0 (word_of 512 [TInt 1]) 1"
  "deref one_fact_trie 1 = Inr b \<Longrightarrow> bt_instr b \<noteq> 0"
proof -
  have few: "length (vars_of 512 [TInt 1]) \<le> 0x10000" by (simp add: vars_of_def trie_eval)
  from trie_assert_law [OF new_trie_law(1) _ few] obtain n f sz s
    where s: "trie_assert_chk_ins 512 [TInt 1] 0 new_trie = Inr (n, f, sz, s)" "trie_at s 0 (length [TInt 1])"
      "leaf_at s 0 (word_of 512 [TInt 1]) n" by auto
  have run: "trie_assert_chk_ins 512 [TInt 1] 0 new_trie = Inr (1, False, 512, one_fact_trie) \<and>
      (\<forall>b. deref one_fact_trie 1 = Inr b \<longrightarrow> bt_instr b = 116)"
    unfolding one_fact_trie_def by (simp add: trie_eval trie_assert_chk_ins_def)
  then show "trie_at one_fact_trie 0 (length [TInt 1])" "leaf_at one_fact_trie 0 (word_of 512 [TInt 1]) 1"
    "deref one_fact_trie 1 = Inr b \<Longrightarrow> bt_instr b \<noteq> 0"
    using s by auto
qed

lemma assert_after_safe_retract_witness:
  "\<exists>s1 n sz' s'. safe_delete_branch 1 one_fact_trie = Inr s1 \<and> trie_assert_chk_ins 512 [TInt 1] 0 s1 = Inr (n, True, sz', s') \<and>
    word_of 512 [TInt 1] \<notin> words s' 0"
proof -
  have few: "length (vars_of 512 [TInt 1]) \<le> 0x10000" by (simp add: vars_of_def trie_eval)
  from safe_delete_law [OF one_fact_trie] obtain s1 where s1: "safe_delete_branch 1 one_fact_trie = Inr s1" by auto
  from assert_after_safe_retract [OF one_fact_trie(1) _ few one_fact_trie(2,3) s1] s1 show ?thesis by auto
qed


section \<open>Reading back\<close>

text \<open>
  C35: a term without attributed variables that is interned and then loaded from its leaf is built on the heap as a
  variant of the term, over a free variable and in the heap space that was asked for; the other cells below the top of
  the heap stay as they are, and the variables that are reported are those of the term. The term is not too large
  and its variables fit the array of \<open>sz\<close> variables. (With two attributed variables the heap space that
  \<open>follow_par_chain\<close> asks for is not enough.)
\<close>

theorem intern_reload:
  assumes t: "trie_at s r 1" "struct_codes s" and ns: "\<forall>n \<in> set ns. cores s n \<noteq> None" and na: "no_attv t"
    and few: "length (vars_of sz [t]) \<le> sz" "length (vars_of sz [t]) \<le> 0x10000"
    and fl: "0 < fst flags" "\<not> too_many flags (intern_size t)" and st: "g < hreg st" "addr_stack st = []"
    and run: "trie_intern_chk_ins psc flags (c, e, ns) sz t (Some r) s = Inr (res, s')"
  shows "\<exists>vars hn st' f. bottom_up_unify g (leaf res) s' st = Inr (Some (vars, hn, st')) \<and>
    (\<exists>d. cells st' g = Some d \<and> stands (cells st') d (ren f t)) \<and> inj_on f (tvars t) \<and>
    vars = map (\<lambda>v. Some (HRef (f v))) (trieinstr_vars res) \<and>
    hreg st' < hreg st + hn \<and> (\<forall>a < hreg st. a \<noteq> g \<longrightarrow> cells st' a = cells st a)"
proof -
  let ?w = "word_of sz [t]"
  from trie_intern_law [OF t(1) ns few(2) fl, of psc c e] run
  have i: "interned ?w r s (leaf res, flag res, s')" "trieinstr_vars res = vars_of sz [t]" by auto
  then have s': "trie_at s' r 1" "leaf_at s' r ?w (leaf res)" "struct_codes s'" "?w \<in> words s' r"
    using t(2) by (simp_all add: interned_def)
  from leaf_deref [OF s'(2)] obtain b where b: "deref s' (leaf res) = Inr b" by blast
  have "trie_ok s'" using s'(1) by (simp add: trie_at_def)
  then have "\<not> is_deleted_node (cores s') (leaf res)" using s'(2,4) leaf_at_unique unfolding words_def by blast
  then have "\<not> IsDeletedNode b" by (simp add: is_deleted_node_def view_deref [OF b])
  then have u: "bottom_up_unify g (leaf res) s' st = res_bind (bottomupunify g (leaf res) s' st) (\<lambda>r. Inr (Some r))"
    by (simp add: bottom_up_unify_def b)
  from reload_law [OF s'(1,3,2) na few st] show ?thesis unfolding u i(2) by fastforce
qed

definition small_heap :: reading where
  "small_heap = \<lparr>cells = [0 \<mapsto> HRef 0], hreg = 1, addr_stack = [], var_addr = Map.empty, var_addr_accum_num = 0,
     num_heap_term_vars = 0\<rparr>"

lemma intern_reload_witness:
  "\<exists>res s' vars hn st' f. intern_term some_term new_trie = Inr (res, s') \<and>
    bottom_up_unify 0 (leaf res) s' small_heap = Inr (Some (vars, hn, st')) \<and>
    (\<exists>d. cells st' 0 = Some d \<and> stands (cells st') d (ren f some_term)) \<and> vars = [Some (HRef (f 7))]"
proof -
  have few: "length (vars_of 512 [some_term]) \<le> 512" "length (vars_of 512 [some_term]) \<le> 0x10000"
    by (simp_all add: some_word)
  have no: "\<forall>n \<in> set []. cores s n \<noteq> None" for s :: btns by simp
  have codes: "struct_codes new_trie"
    by (auto simp: struct_codes_def new_trie_def newBasicTrie_eq view_def deref_def struct_code_def core_def op_class_def split: if_splits)
  have na: "no_attv some_term" by (simp add: some_term_def)
  have st: "0 < hreg small_heap" "addr_stack small_heap = []" by (simp_all add: small_heap_def)
  from trie_intern_law [OF new_trie_law(1) no few(2) default_flags(1,3), of "(800, 0)" 0 EXPAND_HASHES]
  obtain res s' where run: "intern_term some_term new_trie = Inr (res, s')" "trieinstr_vars res = [7]" by (auto simp: some_word)
  from intern_reload [OF new_trie_law(1) codes no na few default_flags(1,3) st run(1)] show ?thesis
    using run by auto
qed

end
