(* ===== verification/Trie_Handles.thy ===== *)
theory Trie_Handles imports Trie_Deletion Trie_Terms Call_Graph begin

unbundle bit_operations_syntax

text \<open>
  The table of interned tries (emu/tr_utils.c): Prolog code has handles, which are indices into an
  array together with the type of the trie; the free entries of the array are in a list, the entries in use in
  another one that is linked in both ways. An entry has the root of its trie, which is made when the first
  term is interned, and a call node when the trie is incremental. Leaves that have been marked as deleted can be
  put on a list of garbage, from which they are taken back or freed.
\<close>

section \<open>Handles\<close>

abbreviation (input) PRGE_TRIE :: nat where "PRGE_TRIE \<equiv> 0"
abbreviation (input) PRAS_TRIE :: nat where "PRAS_TRIE \<equiv> 1"
abbreviation (input) NO_CPS_CHECK :: nat where "NO_CPS_CHECK \<equiv> 0"
abbreviation (input) TRIE_ID_TYPE_MASK :: "32 word" where "TRIE_ID_TYPE_MASK \<equiv> 0xfff00000"
abbreviation (input) TRIE_ID_ID_MASK :: "32 word" where "TRIE_ID_ID_MASK \<equiv> 0x000fffff"

text \<open>The low bits of what \<open>newtrie\<close> is called with are the type, the next ones say whether the trie is incremental.\<close>

definition TRIE_TYPE :: "32 word \<Rightarrow> nat" where "TRIE_TYPE props = unat (props AND 0xf)"
definition PRIVATE_TRIE :: "nat \<Rightarrow> bool" where "PRIVATE_TRIE type \<longleftrightarrow> type AND 0xf < 2"
definition IS_INCREMENTAL_TRIE :: "32 word \<Rightarrow> bool" where "IS_INCREMENTAL_TRIE props \<longleftrightarrow> 0 < props AND 0xf0"

definition SET_TRIE_ID :: "nat \<Rightarrow> nat \<Rightarrow> 32 word" where
  "SET_TRIE_ID ind type = push_bit 20 (of_nat type) OR of_nat ind"

text \<open>Of a number that is given as a handle only the low 32 bits are looked at.\<close>

definition SPLIT_TRIE_ID :: "32 word \<Rightarrow> nat \<times> nat" where
  "SPLIT_TRIE_ID tid = (unat (tid AND TRIE_ID_ID_MASK), unat (drop_bit 20 (tid AND TRIE_ID_TYPE_MASK)))"

section \<open>The table\<close>

text \<open>\<open>TRIENULL\<close> (-1) is \<^term>\<open>None\<close>.\<close>

record trie_entry =
  te_root :: "nat option"
  te_valid :: bool
  te_type :: nat
  te_incremental :: bool
  te_callnode :: "nat option"
  prev_entry :: "nat option"
  next_entry :: "nat option"

record garbage_root =
  igr_root :: nat
  igr_leaves :: "nat list"

record trie_table =
  itrie_array :: "trie_entry list"
  itrie_array_first_free :: "nat option"
  itrie_array_first_trie :: "nat option"
  IGRhead :: "garbage_root list"
  trie_nodes :: btns
  trie_calls :: idg
  current_num_trievars :: nat

definition entry :: "nat \<Rightarrow> trie_table \<Rightarrow> trie_entry res" where
  "entry i st = (if i < length (itrie_array st) then Inr (itrie_array st ! i) else Inl (Out_Of_Bounds (int i)))"

definition upd_entry :: "nat \<Rightarrow> (trie_entry \<Rightarrow> trie_entry) \<Rightarrow> trie_table \<Rightarrow> trie_table" where
  "upd_entry i f st = st\<lparr>itrie_array := (itrie_array st)[i := f (itrie_array st ! i)]\<rparr>"

text \<open>A change of the entry that a link leads to.\<close>

definition set_link :: "nat option \<Rightarrow> (trie_entry \<Rightarrow> trie_entry) \<Rightarrow> trie_table \<Rightarrow> trie_table res" where
  "set_link l f st = (case l of None \<Rightarrow> Inr st | Some j \<Rightarrow> res_bind (entry j st) (\<lambda>_. Inr (upd_entry j f st)))"

text \<open>The array is allocated with zeros.\<close>

definition init_private_trie_table :: "nat \<Rightarrow> trie_table \<Rightarrow> trie_table" where
  "init_private_trie_table max_interned_tries_glc st =
    st\<lparr>itrie_array := map (\<lambda>i. \<lparr>te_root = None, te_valid = False, te_type = 0, te_incremental = False, te_callnode = None,
           prev_entry = Some 0, next_entry = (if i < max_interned_tries_glc then Some (Suc i) else None)\<rparr>)
         [0..<Suc max_interned_tries_glc],
       itrie_array_first_free := Some 1, itrie_array_first_trie := None\<rparr>"

text \<open>An incremental trie gets a call node, from which edges go to the calls that look at the trie.\<close>

definition make_incremental :: "nat \<Rightarrow> trie_table \<Rightarrow> trie_table res" where
  "make_incremental index st =
    (let (cn, g) = makecallnode None True 0 (trie_calls st) in
     res_bind (initoutedges cn (upd_node cn (\<lambda>c. c\<lparr>is_incremental_trie := Some True\<rparr>) g)) (\<lambda>g.
       Inr (upd_entry index (\<lambda>e. e\<lparr>te_callnode := Some cn, te_incremental := True\<rparr>) (st\<lparr>trie_calls := g\<rparr>))))"

definition new_private_trie :: "32 word \<Rightarrow> trie_table \<Rightarrow> (32 word \<times> trie_table) res" where
  "new_private_trie props st =
    (case itrie_array_first_free st of
       None \<Rightarrow> Inl (Resource_Error ''interned tries'')
     | Some index \<Rightarrow>
        res_bind (entry index st) (\<lambda>e.
          let type = TRIE_TYPE props;
              first = itrie_array_first_trie st;
              st = upd_entry index (\<lambda>e. e\<lparr>te_valid := True, te_root := None, te_type := type, prev_entry := None,
                     next_entry := first\<rparr>) (st\<lparr>itrie_array_first_free := next_entry e\<rparr>) in
          res_bind (set_link first (\<lambda>e. e\<lparr>prev_entry := Some index\<rparr>) st) (\<lambda>st.
            let st = st\<lparr>itrie_array_first_trie := Some index\<rparr> in
          res_bind (if IS_INCREMENTAL_TRIE props then make_incremental index st else Inr st) (\<lambda>st.
            Inr (SET_TRIE_ID index type, st)))))"

section \<open>Terms in the tries of the table\<close>

text \<open>\<open>cps\<close> are the trie nodes of the choice points.\<close>

definition private_trie_intern ::
    "nat \<times> nat \<Rightarrow> nat \<times> nat \<Rightarrow> nat list \<Rightarrow> 32 word \<Rightarrow> tterm \<Rightarrow> nat \<Rightarrow> nat \<Rightarrow> trie_table \<Rightarrow> ((nat \<times> nat) \<times> trie_table) res" where
  "private_trie_intern psc flags cps tid t check_cps_flag expand_flag st =
    (let (index, type) = SPLIT_TRIE_ID tid in
     res_bind (entry index st) (\<lambda>e.
     res_bind (trie_intern_chk_ins psc flags (check_cps_flag, expand_flag, cps) (current_num_trievars st) t (te_root e)
         (trie_nodes st)) (\<lambda>(r, s).
       Inr ((leaf r, flag r), upd_entry index (\<lambda>e. e\<lparr>te_root := Some (hook r)\<rparr>)
         (st\<lparr>trie_nodes := s, current_num_trievars := num_trievars r\<rparr>)))))"

text \<open>
  A goal that looks at the trie starts at the root. When the trie is incremental and the goal is part of an
  incremental call, the call comes to depend on the trie.
\<close>

definition private_trie_interned :: "32 word \<Rightarrow> bool \<Rightarrow> nat option \<Rightarrow> trie_table \<Rightarrow> (nat option \<times> trie_table) res" where
  "private_trie_interned tid leafterm_isref caller st =
    (let (index, type) = SPLIT_TRIE_ID tid in
     res_bind (entry index st) (\<lambda>e.
     res_bind (case (caller, te_callnode e) of
         (Some c, Some thiscallnode) \<Rightarrow>
           if te_incremental e then res_bind (addcalledge thiscallnode c (trie_calls st)) (\<lambda>g. Inr (st\<lparr>trie_calls := g\<rparr>))
           else Inr st
       | _ \<Rightarrow> Inr st) (\<lambda>st.
       if te_root e = None then Inr (None, st)
       else if leafterm_isref then Inr (te_root e, st)
       else Inl (Instantiation_Error ''trie_interned/[2,4]''))))"

definition private_trie_unintern :: "nat list \<Rightarrow> 32 word \<Rightarrow> nat \<Rightarrow> nat \<Rightarrow> trie_table \<Rightarrow> trie_table res" where
  "private_trie_unintern cps tid lf disposalType st =
    (let (index, type) = SPLIT_TRIE_ID tid in
     res_bind (entry index st) (\<lambda>e.
     res_bind (case te_root e of
         Some r \<Rightarrow> if disposalType = NO_CPS_CHECK then Inr CAN_RECLAIM else interned_trie_cps_check cps r (trie_nodes st)
       | None \<Rightarrow> Inr CAN_RECLAIM) (\<lambda>c.
       if c = CAN_RECLAIM
       then res_bind (delete_branch Root_Var lf (te_root e, trie_nodes st)) (\<lambda>(root, s).
              Inr (upd_entry index (\<lambda>e. e\<lparr>te_root := root\<rparr>) (st\<lparr>trie_nodes := s\<rparr>)))
       else res_bind (safe_delete_branch lf (trie_nodes st)) (\<lambda>s. Inr (st\<lparr>trie_nodes := s\<rparr>)))))"

section \<open>Emptying and dropping tries\<close>

definition private_trie_truncate :: "nat list \<Rightarrow> nat \<Rightarrow> nat \<Rightarrow> trie_table \<Rightarrow> trie_table res option" where
  "private_trie_truncate cps index cps_check st =
    (case entry index st of
       Inl er \<Rightarrow> Some (Inl er)
     | Inr e \<Rightarrow>
        (case te_root e of
           None \<Rightarrow> Some (Inr st)
         | Some r \<Rightarrow>
            (case (if cps_check = CPS_CHECK then interned_trie_cps_check cps r (trie_nodes st) else Inr CAN_RECLAIM) of
               Inl er \<Rightarrow> Some (Inl er)
             | Inr c \<Rightarrow>
                if c = CAN_RECLAIM
                then map_option (\<lambda>res. res_bind res (\<lambda>s.
                       Inr (upd_entry index (\<lambda>e. e\<lparr>te_root := None\<rparr>) (st\<lparr>trie_nodes := s\<rparr>)))) (delete_trie r (trie_nodes st))
                else Some (Inl (Xsb_Abort ''Backtracking through trie to be abolished'')))))"

definition trie_truncate :: "nat list \<Rightarrow> 32 word \<Rightarrow> trie_table \<Rightarrow> trie_table res option" where
  "trie_truncate cps tid st =
    (let (index, type) = SPLIT_TRIE_ID tid in
     if type = PRGE_TRIE then private_trie_truncate cps index CPS_CHECK st
     else if type = PRAS_TRIE then private_trie_truncate cps index NO_CPS_CHECK st
     else Some (Inr st))"

definition private_trie_drop :: "nat \<Rightarrow> trie_table \<Rightarrow> trie_table res" where
  "private_trie_drop i st =
    res_bind (entry i st) (\<lambda>e.
    res_bind (set_link (prev_entry e) (\<lambda>e'. e'\<lparr>next_entry := next_entry e\<rparr>) st) (\<lambda>st.
    res_bind (set_link (next_entry e) (\<lambda>e'. e'\<lparr>prev_entry := prev_entry e\<rparr>) st) (\<lambda>st.
      let st = (if itrie_array_first_trie st = Some i then st\<lparr>itrie_array_first_trie := next_entry e\<rparr> else st);
          st = upd_entry i (\<lambda>e. e\<lparr>next_entry := itrie_array_first_free st\<rparr>) st in
      Inr (upd_entry i (\<lambda>e. e\<lparr>te_valid := False\<rparr>) (st\<lparr>itrie_array_first_free := Some i\<rparr>)))))"

definition trie_drop :: "nat list \<Rightarrow> 32 word \<Rightarrow> trie_table \<Rightarrow> trie_table res option" where
  "trie_drop cps tid st =
    map_option (\<lambda>res. res_bind res (\<lambda>st.
      let (index, type) = SPLIT_TRIE_ID tid in
      if PRIVATE_TRIE type then private_trie_drop index st else Inr st)) (trie_truncate cps tid st)"

section \<open>Going through the tries\<close>

definition first_trie_property :: "trie_table \<Rightarrow> (32 word \<times> nat \<times> nat option) option res" where
  "first_trie_property st =
    (case itrie_array_first_trie st of
       None \<Rightarrow> Inr None
     | Some index \<Rightarrow> res_bind (entry index st) (\<lambda>e.
         if te_valid e then Inr (Some (SET_TRIE_ID index (te_type e), te_type e, next_entry e))
         else Inl (Existence_Error ''trie'')))"

definition next_trie_property :: "nat \<Rightarrow> trie_table \<Rightarrow> (nat \<times> nat option) res" where
  "next_trie_property index st = res_bind (entry index st) (\<lambda>e. Inr (te_type e, next_entry e))"

text \<open>The change of an incremental trie reaches the calls that depend on it (emu/incr_xsb.c).\<close>

definition invalidate_callnode_trie :: "nat \<Rightarrow> trie_table \<Rightarrow> trie_table res" where
  "invalidate_callnode_trie index st =
    res_bind (entry index st) (\<lambda>e.
      if \<not> te_incremental e then Inl (Xsb_Abort ''Trying to invalidate trie, which is non-incremental'')
      else (case te_callnode e of
              None \<Rightarrow> Inl Null_Pointer
            | Some c \<Rightarrow> res_bind (invalidate_call c (trie_calls st)) (\<lambda>g. Inr (st\<lparr>trie_calls := g\<rparr>))))"

section \<open>Garbage\<close>

definition newIGR :: "nat \<Rightarrow> garbage_root" where
  "newIGR root = \<lparr>igr_root = root, igr_leaves = []\<rparr>"

text \<open>The garbage of the root \<open>rootn\<close>, which gets a list when it has none.\<close>

definition getIGRnode :: "nat \<Rightarrow> garbage_root list \<Rightarrow> garbage_root \<times> garbage_root list" where
  "getIGRnode rootn l =
    (case find (\<lambda>p. igr_root p = rootn) l of
       Some p \<Rightarrow> (p, l)
     | None \<Rightarrow> (newIGR rootn, newIGR rootn # l))"

fun getAndRemoveIGRnode :: "nat \<Rightarrow> garbage_root list \<Rightarrow> garbage_root option \<times> garbage_root list" where
  "getAndRemoveIGRnode rootn [] = (None, [])"
| "getAndRemoveIGRnode rootn (p # l) =
    (if igr_root p = rootn then (Some p, l)
     else (case getAndRemoveIGRnode rootn l of (r, l) \<Rightarrow> (r, p # l)))"

text \<open>A change of the leaves of the list that \<open>getIGRnode\<close> has given.\<close>

fun set_leaves :: "nat \<Rightarrow> nat list \<Rightarrow> garbage_root list \<Rightarrow> garbage_root list" where
  "set_leaves rootn ls [] = []"
| "set_leaves rootn ls (p # l) =
    (if igr_root p = rootn then p\<lparr>igr_leaves := ls\<rparr> # l else p # set_leaves rootn ls l)"

definition insertLeaf :: "garbage_root \<Rightarrow> nat \<Rightarrow> garbage_root list \<Rightarrow> garbage_root list" where
  "insertLeaf r leafn l = set_leaves (igr_root r) (leafn # igr_leaves r) l"

definition trie_dispose_nr :: "nat \<Rightarrow> nat \<Rightarrow> trie_table \<Rightarrow> trie_table res" where
  "trie_dispose_nr rootidx lf st =
    (let (r, l) = getIGRnode rootidx (IGRhead st) in
     res_bind (safe_delete_branch lf (trie_nodes st)) (\<lambda>s.
       Inr (st\<lparr>IGRhead := insertLeaf r lf l, trie_nodes := s\<rparr>)))"

definition trie_undispose :: "nat \<Rightarrow> nat \<Rightarrow> trie_table \<Rightarrow> trie_table res" where
  "trie_undispose rootidx leafn st =
    (let (r, l) = getIGRnode rootidx (IGRhead st) in
     case igr_leaves r of
       [] \<Rightarrow> Inr (st\<lparr>IGRhead := l\<rparr>)
     | p # ps \<Rightarrow>
        (let l = (if p = leafn
                  then (let l = set_leaves rootidx ps l in if ps = [] then snd (getAndRemoveIGRnode rootidx l) else l)
                  else l) in
         res_bind (undelete_branch leafn (trie_nodes st)) (\<lambda>s. Inr (st\<lparr>IGRhead := l, trie_nodes := s\<rparr>))))"

fun reclaim_leaves :: "nat \<Rightarrow> nat list \<Rightarrow> trie_table \<Rightarrow> trie_table res" where
  "reclaim_leaves rootidx [] st = Inr st"
| "reclaim_leaves rootidx (lf # l) st =
    res_bind (deref (trie_nodes st) lf) (\<lambda>b.
    res_bind (if IsDeletedNode b
       then res_bind (entry rootidx st) (\<lambda>e.
            res_bind (delete_branch Root_Var lf (te_root e, trie_nodes st)) (\<lambda>(root, s).
              Inr (upd_entry rootidx (\<lambda>e. e\<lparr>te_root := root\<rparr>) (st\<lparr>trie_nodes := s\<rparr>))))
       else Inr st) (reclaim_leaves rootidx l))"

definition reclaim_uninterned_nr :: "nat \<Rightarrow> trie_table \<Rightarrow> trie_table res" where
  "reclaim_uninterned_nr rootidx st =
    (case getAndRemoveIGRnode rootidx (IGRhead st) of
       (None, l) \<Rightarrow> Inr (st\<lparr>IGRhead := l\<rparr>)
     | (Some r, l) \<Rightarrow> reclaim_leaves rootidx (igr_leaves r) (st\<lparr>IGRhead := l\<rparr>))"

end
