(* ===== verification/Trie_Handle_Lists.thy ===== *)
theory Trie_Handle_Lists imports Trie_Handles begin

text \<open>
  The two lists through the table of tries: that of the free entries, and that of the entries in use, which
  is linked in both ways. Together they have every entry but the first.
\<close>

section \<open>Lists through an array\<close>

fun seg :: "(nat \<Rightarrow> nat option) \<Rightarrow> nat option \<Rightarrow> nat list \<Rightarrow> nat option \<Rightarrow> bool" where
  "seg nx f [] g = (f = g)"
| "seg nx f (i # ks) g = (f = Some i \<and> seg nx (nx i) ks g)"

fun backl :: "(nat \<Rightarrow> nat option) \<Rightarrow> nat option \<Rightarrow> nat list \<Rightarrow> bool" where
  "backl pv p [] = True"
| "backl pv p (i # ks) = (pv i = p \<and> backl pv (Some i) ks)"

definition last_or :: "nat option \<Rightarrow> nat list \<Rightarrow> nat option" where
  "last_or p us = (if us = [] then p else Some (last us))"

lemma seg_append: "seg nx f (us @ vs) g \<longleftrightarrow> (\<exists>h. seg nx f us h \<and> seg nx h vs g)"
  by (induction us arbitrary: f) auto

lemma backl_append: "backl pv p (us @ vs) \<longleftrightarrow> backl pv p us \<and> backl pv (last_or p us) vs"
  by (induction us arbitrary: p) (auto simp: last_or_def)

lemma seg_cong: "(\<And>i. i \<in> set ks \<Longrightarrow> nx' i = nx i) \<Longrightarrow> seg nx' f ks g = seg nx f ks g"
  by (induction ks arbitrary: f) simp_all

lemma backl_cong: "(\<And>i. i \<in> set ks \<Longrightarrow> pv' i = pv i) \<Longrightarrow> backl pv' p ks = backl pv p ks"
  by (induction ks arbitrary: p) simp_all

lemma seg_first: "seg nx f ks None \<Longrightarrow> f = (case ks of [] \<Rightarrow> None | i # _ \<Rightarrow> Some i)"
  by (cases ks) simp_all

text \<open>An element is taken out.\<close>

lemma seg_without:
  assumes s: "seg nx f (us @ i # vs) None" and d: "distinct (us @ i # vs)"
    and n: "\<And>j. j \<in> set us \<Longrightarrow> j \<noteq> last us \<Longrightarrow> nx' j = nx j" "us \<noteq> [] \<Longrightarrow> nx' (last us) = nx i"
      "\<And>j. j \<in> set vs \<Longrightarrow> nx' j = nx j"
  shows "seg nx' (if f = Some i then nx i else f) (us @ vs) None"
proof -
  have v: "seg nx f us (Some i)" "seg nx (nx i) vs None" using s by (auto simp: seg_append)
  have v': "seg nx' (nx i) vs None" using v(2) seg_cong [of vs nx' nx] n(3) by simp
  show ?thesis
  proof (cases us rule: rev_cases)
    case Nil
    then show ?thesis using v v' by simp
  next
    case (snoc ws l)
    then have w: "seg nx f ws (Some l)" using v(1) by (auto simp: seg_append)
    have "nx' j = nx j" if "j \<in> set ws" for j using n(1) d that snoc by auto
    then have "seg nx' f ws (Some l)" using w seg_cong [of ws nx' nx] by simp
    moreover have "nx' l = nx i" using n(2) snoc by simp
    moreover have "f \<noteq> Some i" using w d snoc by (cases ws) auto
    ultimately show ?thesis using v' snoc by (auto simp: seg_append)
  qed
qed

lemma backl_without:
  assumes b: "backl pv p (us @ i # vs)" and d: "distinct (us @ i # vs)"
    and n: "\<And>j. j \<in> set us \<Longrightarrow> pv' j = pv j" "\<And>j ws. vs = j # ws \<Longrightarrow> pv' j = pv i"
      "\<And>j. j \<in> set (drop 1 vs) \<Longrightarrow> pv' j = pv j"
  shows "backl pv' p (us @ vs)"
proof -
  have v: "backl pv p us" "pv i = last_or p us" "backl pv (Some i) vs" using b by (auto simp: backl_append)
  have "backl pv' p us" using v(1) n(1) backl_cong [of us pv' pv] by simp
  moreover have "backl pv' (last_or p us) vs"
  proof (cases vs)
    case (Cons j ws)
    then have "backl pv' (Some j) ws" using v(3) n(3) backl_cong [of ws pv' pv] by simp
    then show ?thesis using n(2) [OF Cons] v(2) Cons by simp
  qed simp
  ultimately show ?thesis by (simp add: backl_append)
qed

section \<open>The lists of the table\<close>

abbreviation nexts :: "trie_table \<Rightarrow> nat \<Rightarrow> nat option" where "nexts st i \<equiv> next_entry (itrie_array st ! i)"
abbreviation prevs :: "trie_table \<Rightarrow> nat \<Rightarrow> nat option" where "prevs st i \<equiv> prev_entry (itrie_array st ! i)"

definition handle_lists :: "trie_table \<Rightarrow> nat list \<Rightarrow> nat list \<Rightarrow> bool" where
  "handle_lists st free used \<longleftrightarrow>
     distinct (free @ used) \<and> set (free @ used) = {1..<length (itrie_array st)} \<and>
     seg (nexts st) (itrie_array_first_free st) free None \<and> seg (nexts st) (itrie_array_first_trie st) used None \<and>
     backl (prevs st) None used \<and> (\<forall>i < length (itrie_array st). te_valid (itrie_array st ! i) \<longleftrightarrow> i \<in> set used)"

lemma upd_entry_simps [simp]:
  "length (itrie_array (upd_entry i f st)) = length (itrie_array st)"
  "itrie_array_first_free (upd_entry i f st) = itrie_array_first_free st"
  "itrie_array_first_trie (upd_entry i f st) = itrie_array_first_trie st"
  "IGRhead (upd_entry i f st) = IGRhead st" "trie_nodes (upd_entry i f st) = trie_nodes st"
  "trie_calls (upd_entry i f st) = trie_calls st" "current_num_trievars (upd_entry i f st) = current_num_trievars st"
  by (simp_all add: upd_entry_def)

lemma entry_upd: "j < length (itrie_array st) \<Longrightarrow>
    itrie_array (upd_entry i f st) ! j = (if j = i then f (itrie_array st ! i) else itrie_array st ! j)"
  by (simp add: upd_entry_def nth_list_update)

lemma entry_in: "i < length (itrie_array st) \<Longrightarrow> entry i st = Inr (itrie_array st ! i)"
  by (simp add: entry_def)

lemma used_in: "handle_lists st free used \<Longrightarrow> i \<in> set free \<union> set used \<Longrightarrow> 0 < i \<and> i < length (itrie_array st)"
  by (force simp: handle_lists_def)

text \<open>Whatever does not touch the links and the marks.\<close>

lemma handle_lists_cong:
  assumes l: "handle_lists st free used" and "length (itrie_array st') = length (itrie_array st)"
    "itrie_array_first_free st' = itrie_array_first_free st" "itrie_array_first_trie st' = itrie_array_first_trie st"
    and e: "\<And>i. i < length (itrie_array st) \<Longrightarrow> next_entry (itrie_array st' ! i) = next_entry (itrie_array st ! i) \<and>
      prev_entry (itrie_array st' ! i) = prev_entry (itrie_array st ! i) \<and> te_valid (itrie_array st' ! i) = te_valid (itrie_array st ! i)"
  shows "handle_lists st' free used"
proof -
  have f: "seg (nexts st') g free None = seg (nexts st) g free None" for g
    by (rule seg_cong) (use used_in [OF l] e in blast)
  have u: "seg (nexts st') g used None = seg (nexts st) g used None" for g
    by (rule seg_cong) (use used_in [OF l] e in blast)
  have b: "backl (prevs st') None used = backl (prevs st) None used"
    by (rule backl_cong) (use used_in [OF l] e in blast)
  show ?thesis using assms by (simp add: handle_lists_def f u b)
qed

lemma init_lists: "0 < m \<Longrightarrow> handle_lists (init_private_trie_table m st) [1..<Suc m] []"
proof -
  let ?st = "init_private_trie_table m st"
  have len: "length (itrie_array ?st) = Suc m" by (simp add: init_private_trie_table_def)
  have at: "itrie_array ?st ! i = \<lparr>te_root = None, te_valid = False, te_type = 0, te_incremental = False, te_callnode = None,
      prev_entry = Some 0, next_entry = (if i < m then Some (Suc i) else None)\<rparr>" if "i < Suc m" for i
    using that by (simp add: init_private_trie_table_def del: upt_Suc)
  have "seg (nexts ?st) (if k < Suc m then Some k else None) [k..<Suc m] None" if "k \<le> Suc m" for k
    using that
  proof (induction "Suc m - k" arbitrary: k)
    case 0
    then show ?case by simp
  next
    case (Suc d)
    then have k: "k < Suc m" by simp
    then have "nexts ?st k = (if Suc k < Suc m then Some (Suc k) else None)" using at [OF k] by simp
    moreover have "seg (nexts ?st) (if Suc k < Suc m then Some (Suc k) else None) [Suc k..<Suc m] None"
      using Suc.hyps(1) [of "Suc k"] Suc.hyps(2) k by (simp del: upt_Suc)
    ultimately show ?case using k by (simp add: upt_conv_Cons [OF k] del: upt_Suc)
  qed
  from this [of 1] show "0 < m \<Longrightarrow> handle_lists ?st [1..<Suc m] []"
    using at by (auto simp: handle_lists_def len init_private_trie_table_def simp del: upt_Suc)
qed

section \<open>Making and dropping entries\<close>

lemma new_trie_entry:
  fixes ty :: nat
  assumes l: "handle_lists st (i # free) used"
  defines "st1 \<equiv> upd_entry i (\<lambda>e. e\<lparr>te_valid := True, te_root := None, te_type := ty, prev_entry := None,
      next_entry := itrie_array_first_trie st\<rparr>) (st\<lparr>itrie_array_first_free := nexts st i\<rparr>)"
  shows "\<exists>st2. set_link (itrie_array_first_trie st) (\<lambda>e. e\<lparr>prev_entry := Some i\<rparr>) st1 = Inr st2 \<and>
    handle_lists (st2\<lparr>itrie_array_first_trie := Some i\<rparr>) free (i # used) \<and>
    length (itrie_array st2) = length (itrie_array st) \<and>
    (\<forall>j < length (itrie_array st). te_root (itrie_array st2 ! j) = (if j = i then None else te_root (itrie_array st ! j)) \<and>
       te_type (itrie_array st2 ! j) = (if j = i then ty else te_type (itrie_array st ! j)) \<and>
       te_incremental (itrie_array st2 ! j) = te_incremental (itrie_array st ! j)) \<and>
    trie_nodes st2 = trie_nodes st \<and> trie_calls st2 = trie_calls st \<and> current_num_trievars st2 = current_num_trievars st \<and>
    IGRhead st2 = IGRhead st"
proof -
  let ?n = "length (itrie_array st)"
  have d: "distinct (i # free @ used)" and s: "set (i # free @ used) = {1..<?n}"
    and sf: "itrie_array_first_free st = Some i" "seg (nexts st) (nexts st i) free None"
    and su: "seg (nexts st) (itrie_array_first_trie st) used None" and b: "backl (prevs st) None used"
    and v: "\<And>j. j < ?n \<Longrightarrow> te_valid (itrie_array st ! j) \<longleftrightarrow> j \<in> set used"
    using l by (simp_all add: handle_lists_def)
  have lt: "j < ?n" if "j \<in> set (i # free @ used)" for j using used_in [OF l, of j] that by auto
  define st2 where "st2 = (case used of [] \<Rightarrow> st1 | j # _ \<Rightarrow> upd_entry j (\<lambda>e. e\<lparr>prev_entry := Some i\<rparr>) st1)"
  have first: "itrie_array_first_trie st = (case used of [] \<Rightarrow> None | j # _ \<Rightarrow> Some j)" by (rule seg_first [OF su])
  have run: "set_link (itrie_array_first_trie st) (\<lambda>e. e\<lparr>prev_entry := Some i\<rparr>) st1 = Inr st2"
    using lt by (auto simp: first set_link_def st2_def st1_def entry_in split: list.split)
  have at: "next_entry (itrie_array st2 ! j) = (if j = i then itrie_array_first_trie st else nexts st j)"
    "prev_entry (itrie_array st2 ! j) = (if used \<noteq> [] \<and> j = hd used then Some i else if j = i then None else prevs st j)"
    "te_valid (itrie_array st2 ! j) = (j = i \<or> te_valid (itrie_array st ! j))"
    "te_root (itrie_array st2 ! j) = (if j = i then None else te_root (itrie_array st ! j))"
    "te_type (itrie_array st2 ! j) = (if j = i then ty else te_type (itrie_array st ! j))"
    "te_incremental (itrie_array st2 ! j) = te_incremental (itrie_array st ! j)" if "j < ?n" for j
    using that by (auto simp: st2_def st1_def entry_upd split: list.split)
  have rest: "length (itrie_array st2) = ?n" "trie_nodes st2 = trie_nodes st" "trie_calls st2 = trie_calls st"
    "current_num_trievars st2 = current_num_trievars st" "IGRhead st2 = IGRhead st"
    "itrie_array_first_free st2 = nexts st i"
    by (auto simp: st2_def st1_def split: list.split)
  let ?st = "st2\<lparr>itrie_array_first_trie := Some i\<rparr>"
  have "seg (nexts ?st) (nexts st i) free None"
    using sf(2) seg_cong [of free "nexts ?st" "nexts st"] at(1) lt d by fastforce
  moreover have "seg (nexts ?st) (Some i) (i # used) None"
  proof -
    have "seg (nexts ?st) (itrie_array_first_trie st) used None"
      using su seg_cong [of used "nexts ?st" "nexts st"] at(1) lt d by fastforce
    then show ?thesis using at(1) [of i] lt by simp
  qed
  moreover have "backl (prevs ?st) None (i # used)"
  proof (cases used)
    case Nil
    then show ?thesis using at(2) [of i] lt by simp
  next
    case (Cons j us)
    then have "backl (prevs ?st) (Some j) us"
      using b backl_cong [of us "prevs ?st" "prevs st"] at(2) lt d by fastforce
    then show ?thesis using at(2) [of i] at(2) [of j] lt d Cons by simp
  qed
  moreover have "te_valid (itrie_array ?st ! j) \<longleftrightarrow> j \<in> set (i # used)" if "j < length (itrie_array ?st)" for j
    using at(3) [of j] v [of j] that rest(1) by auto
  ultimately have "handle_lists ?st free (i # used)" using d s rest(1,6) by (auto simp: handle_lists_def)
  then show ?thesis using run rest at by blast
qed

lemma drop_entry:
  assumes l: "handle_lists st free used" and i: "i \<in> set used"
  shows "\<exists>st'. private_trie_drop i st = Inr st' \<and> handle_lists st' (i # free) (remove1 i used) \<and>
    length (itrie_array st') = length (itrie_array st) \<and>
    (\<forall>j < length (itrie_array st). te_root (itrie_array st' ! j) = te_root (itrie_array st ! j)) \<and>
    trie_nodes st' = trie_nodes st \<and> trie_calls st' = trie_calls st \<and> current_num_trievars st' = current_num_trievars st \<and>
    IGRhead st' = IGRhead st"
proof -
  let ?n = "length (itrie_array st)" and ?e = "itrie_array st ! i"
  have d: "distinct (free @ used)" and s: "set (free @ used) = {1..<?n}"
    and sf: "seg (nexts st) (itrie_array_first_free st) free None"
    and su: "seg (nexts st) (itrie_array_first_trie st) used None" and b: "backl (prevs st) None used"
    and v: "\<And>j. j < ?n \<Longrightarrow> te_valid (itrie_array st ! j) \<longleftrightarrow> j \<in> set used"
    using l by (simp_all add: handle_lists_def)
  have lt: "j < ?n" if "j \<in> set free \<union> set used" for j using used_in [OF l that] by simp
  from i obtain us vs where uv: "used = us @ i # vs" using split_list by metis
  have du: "distinct (us @ i # vs)" "set free \<inter> set (us @ i # vs) = {}" using d uv by simp_all
  have r: "remove1 i used = us @ vs" using uv du by (simp add: remove1_append)
  have pv: "prevs st i = last_or None us" using b uv by (auto simp: backl_append)
  have nx: "nexts st i = (case vs of [] \<Rightarrow> None | j # _ \<Rightarrow> Some j)"
    using su uv by (auto simp: seg_append dest: seg_first)
  have inn: "set us \<subseteq> {..<?n}" "set vs \<subseteq> {..<?n}" "set free \<subseteq> {..<?n}" "i < ?n" using lt uv by auto
  define st1 where "st1 = (if us = [] then st else upd_entry (last us) (\<lambda>e'. e'\<lparr>next_entry := next_entry ?e\<rparr>) st)"
  define st2 where "st2 = (case vs of [] \<Rightarrow> st1 | j # _ \<Rightarrow> upd_entry j (\<lambda>e'. e'\<lparr>prev_entry := prev_entry ?e\<rparr>) st1)"
  define st3 where "st3 = (if itrie_array_first_trie st2 = Some i then st2\<lparr>itrie_array_first_trie := next_entry ?e\<rparr> else st2)"
  define st' where "st' = upd_entry i (\<lambda>e. e\<lparr>te_valid := False\<rparr>)
    ((upd_entry i (\<lambda>e. e\<lparr>next_entry := itrie_array_first_free st3\<rparr>) st3)\<lparr>itrie_array_first_free := Some i\<rparr>)"
  have l1: "set_link (prev_entry ?e) (\<lambda>e'. e'\<lparr>next_entry := next_entry ?e\<rparr>) st = Inr st1"
    using inn(1) by (auto simp: pv last_or_def set_link_def st1_def entry_in subset_iff)
  have len1: "length (itrie_array st1) = ?n" by (simp add: st1_def)
  have l2: "set_link (next_entry ?e) (\<lambda>e'. e'\<lparr>prev_entry := prev_entry ?e\<rparr>) st1 = Inr st2"
    using inn(2) len1 by (auto simp: nx set_link_def st2_def entry_in split: list.split)
  have run: "private_trie_drop i st = Inr st'"
    unfolding private_trie_drop_def entry_in [OF inn(4)] res_bind_simps Let_def l1 l2 st'_def st3_def by simp
  have rest: "length (itrie_array st') = ?n" "trie_nodes st' = trie_nodes st" "trie_calls st' = trie_calls st"
    "current_num_trievars st' = current_num_trievars st" "IGRhead st' = IGRhead st" "itrie_array_first_free st' = Some i"
    "itrie_array_first_trie st' = (if itrie_array_first_trie st = Some i then nexts st i else itrie_array_first_trie st)"
    by (simp_all add: st'_def st3_def st2_def st1_def split: list.split)
  have ff: "itrie_array_first_free st3 = itrie_array_first_free st" by (simp add: st3_def st2_def st1_def split: list.split)
  have len3: "length (itrie_array st3) = ?n" by (simp add: st3_def st2_def st1_def split: list.split)
  have e3: "itrie_array st3 = itrie_array st2" by (simp add: st3_def)
  have e2: "itrie_array st2 ! j = (if vs \<noteq> [] \<and> j = hd vs then (itrie_array st1 ! j)\<lparr>prev_entry := prevs st i\<rparr> else itrie_array st1 ! j)"
    if "j < ?n" for j using that len1 by (auto simp: st2_def entry_upd split: list.split)
  have e1: "itrie_array st1 ! j = (if us \<noteq> [] \<and> j = last us then (itrie_array st ! j)\<lparr>next_entry := nexts st i\<rparr> else itrie_array st ! j)"
    if "j < ?n" for j using that by (simp add: st1_def entry_upd)
  have e': "itrie_array st' ! j = (if j = i then (itrie_array st3 ! j)\<lparr>next_entry := itrie_array_first_free st, te_valid := False\<rparr>
      else itrie_array st3 ! j)" if "j < ?n" for j
    using that len3 ff by (simp add: st'_def entry_upd)
  have at: "next_entry (itrie_array st' ! j) = (if j = i then itrie_array_first_free st
      else if us \<noteq> [] \<and> j = last us then nexts st i else nexts st j)"
    "prev_entry (itrie_array st' ! j) = (if vs \<noteq> [] \<and> j = hd vs then prevs st i else prevs st j)"
    "te_valid (itrie_array st' ! j) = (j \<noteq> i \<and> te_valid (itrie_array st ! j))"
    "te_root (itrie_array st' ! j) = te_root (itrie_array st ! j)" if "j < ?n" for j
    using that by (simp_all add: e' e3 e2 e1)
  have "seg (nexts st') (itrie_array_first_trie st') (us @ vs) None"
    unfolding rest(7)
  proof (rule seg_without [OF _ du(1)])
    show "seg (nexts st) (itrie_array_first_trie st) (us @ i # vs) None" using su uv by simp
    have apart: "last us \<notin> set vs" if "us \<noteq> []" using du(1) last_in_set [OF that] by auto
    show "nexts st' j = nexts st j" if j: "j \<in> set vs" for j
    proof -
      have "j < ?n" "j \<noteq> i" "us \<noteq> [] \<Longrightarrow> j \<noteq> last us" using j inn(2) du(1) apart by auto
      then show ?thesis using at(1) [of j] by auto
    qed
    show "nexts st' j = nexts st j" if "j \<in> set us" "j \<noteq> last us" for j using that at(1) [of j] inn(1) du(1) by auto
    show "nexts st' (last us) = nexts st i" if "us \<noteq> []"
    proof -
      have "last us \<in> set us" using that by simp
      then have "last us < ?n" "last us \<noteq> i" using inn(1) du(1) by auto
      then show ?thesis using at(1) [of "last us"] that by simp
    qed
  qed
  moreover have "backl (prevs st') None (us @ vs)"
  proof (rule backl_without [OF _ du(1)])
    show "backl (prevs st) None (us @ i # vs)" using b uv by simp
    have apart: "hd vs \<notin> set us" if "vs \<noteq> []" using du(1) hd_in_set [OF that] by auto
    show "prevs st' j = prevs st j" if j: "j \<in> set us" for j
    proof -
      have "j < ?n" "vs \<noteq> [] \<Longrightarrow> j \<noteq> hd vs" using j inn(1) apart by auto
      then show ?thesis using at(2) [of j] by auto
    qed
    show "prevs st' j = prevs st i" if "vs = j # ws" for j ws using at(2) [of j] inn(2) that by auto
    have apart': "hd vs \<notin> set (drop 1 vs)" if "vs \<noteq> []" using du(1) that by (cases vs) auto
    show "prevs st' j = prevs st j" if j: "j \<in> set (drop 1 vs)" for j
    proof -
      have "j < ?n" "vs \<noteq> [] \<Longrightarrow> j \<noteq> hd vs" using inn(2) in_set_dropD [OF j] j apart' by auto
      then show ?thesis using at(2) [of j] by auto
    qed
  qed
  moreover have "seg (nexts st') (Some i) (i # free) None"
  proof -
    have "nexts st' j = nexts st j" if "j \<in> set free" for j
    proof -
      have "j < ?n" "j \<noteq> i" "us \<noteq> [] \<Longrightarrow> j \<noteq> last us" using du(2) inn(3) that by auto
      then show ?thesis using at(1) [of j] by auto
    qed
    then have "seg (nexts st') (itrie_array_first_free st) free None" using sf seg_cong [of free "nexts st'" "nexts st"] by simp
    then show ?thesis using at(1) [OF inn(4)] by simp
  qed
  moreover have "te_valid (itrie_array st' ! j) \<longleftrightarrow> j \<in> set (us @ vs)" if "j < ?n" for j
    using at(3) [OF that] v [OF that] uv du(1) by auto
  moreover have "distinct ((i # free) @ us @ vs)" "set ((i # free) @ us @ vs) = {1..<?n}"
    using d s uv by auto
  ultimately have "handle_lists st' (i # free) (remove1 i used)" unfolding r handle_lists_def rest(1,6) by blast
  then show ?thesis using run rest(1-5) at(4) by blast
qed

end
