(* ===== verification/Trie_Frames.thy ===== *)
theory Trie_Frames imports Trie_Freeing Trie_Entering begin

text \<open>
  The operations on tries in a store with many tries: each keeps what a store promises (\<open>store_ok\<close>) and
  leaves the tries with other roots as they are (\<open>elsewhere\<close>).
\<close>

definition store_ok :: "btns \<Rightarrow> bool" where
  "store_ok s \<longleftrightarrow> trie_ok s \<and> counts_ok s \<and> tables_used s"

lemma store_ok_empty: "store_ok []"
  by (simp add: store_ok_def trie_ok_def counts_ok_def tables_used_def parents_ok_def parent_at_def view_def deref_def)

section \<open>New tries and new terms\<close>

lemma new_trie_frame:
  assumes ok: "store_ok s"
  shows "\<exists>s'. newBasicTrie x tt s = (length s, s') \<and> store_ok s' \<and> trie_at s' (length s) k \<and> words s' (length s) = {} \<and>
    elsewhere (length s) s s' \<and> (\<forall>m < length s. cores s' m = cores s m) \<and> (\<forall>w n. \<not> leaf_at s' (length s) w n)"
proof -
  have "trie_ok s" using ok by (simp add: store_ok_def)
  from newBasicTrie_law [OF this, of x tt k] obtain s' where s':
    "newBasicTrie x tt s = (length s, s')" "trie_at s' (length s) k" "words s' (length s) = {}" "grown s s'"
    "length s' = Suc (length s)" "\<forall>m. m < length s \<longrightarrow> nts s' m = nts s m \<and> kids_at s' m = kids_at s m"
    "kids_at s' (length s) = Some (Chain [])" by blast
  have ok': "trie_ok s'" and root: "parent_at (cores s') (length s) = None" using s'(2) by (simp_all add: trie_at_def)
  have kids: "kids_at s' q = Some kk \<Longrightarrow> kids_at s q = Some kk \<or> kk = Chain []" for q kk
  proof -
    assume q: "kids_at s' q = Some kk"
    then have "q < Suc (length s)" using view_less [of bt_child s' q] s'(5) by simp
    then show ?thesis using q s'(6,7) by (cases "q = length s") auto
  qed
  have c: "counts_ok s'"
    unfolding counts_ok_def
  proof (intro allI impI)
    fix q kk assume "kids_at s' q = Some kk"
    then consider "kids_at s q = Some kk" | "kk = Chain []" using kids by blast
    then show "counted kk" by cases (use ok in \<open>auto simp: store_ok_def counts_ok_def\<close>)
  qed
  have par: "parent_at (cores s') m = parent_at (cores s) m \<and> symbol_at (cores s') m = symbol_at (cores s) m" if "m < length s" for m
    using s'(4) that by (simp add: grown_def parent_at_def symbol_at_def)
  have t: "tables_used s'"
    unfolding tables_used_def
  proof (intro allI impI)
    fix q h assume "kids_at s' q = Some (Hashed h)"
    then have "kids_at s q = Some (Hashed h)" using kids by blast
    then obtain m where m: "parent_at (cores s) m = Some q" using ok unfolding store_ok_def tables_used_def by blast
    then obtain b where "cores s m = Some b" by (cases "cores s m") (simp_all add: parent_at_def)
    then have "m < length s" by (rule view_less)
    then have "parent_at (cores s') m = Some q" using m par by simp
    then show "\<exists>m. parent_at (cores s') m = Some q" by blast
  qed
  have no: "at_path (cores s') (length s) w n \<longleftrightarrow> w = [] \<and> n = length s" for w n
  proof (rule at_path_no_kids)
    show "parent_at (cores s') m \<noteq> Some (length s)" for m
      using trie_okD(3) [OF ok' s'(7), of m] by (auto simp: kid_list_def)
  qed
  have "elsewhere (length s) s s'"
    unfolding elsewhere_def
  proof (intro allI impI)
    fix q k assume q: "q \<noteq> length s" "trie_at s q k"
    then have "q < length s" using view_less by (auto simp: trie_at_def)
    then have nq: "nts s' q = nts s q" using s'(6) by blast
    have qr: "parent_at (cores s') q = None" using q(2) par [OF \<open>q < length s\<close>] by (simp add: trie_at_def)
    have new: "\<not> at_path (cores s') q w m" if "length s \<le> m \<or> m \<in> {}" for w m
    proof
      assume a: "at_path (cores s') q w m"
      then have "w \<noteq> []" using that \<open>q < length s\<close> by auto
      then obtain b where "cores s' m = Some b" using at_path_live [OF a] by blast
      then have "m < length s'" by (rule view_less)
      then have "m = length s" using that s'(5) by simp
      then have "at_path (cores s') (length s) [] m" by simp
      from root_unique [OF a this qr root] show False using q(1) by simp
    qed
    have c: "cores s' m = cores s m" if "m < length s" "m \<notin> {}" for m using s'(4) that by (simp add: grown_def)
    have len: "length s \<le> length s'" using s'(5) by simp
    have p1: "parent_at (cores s') m = parent_at (cores s) m" if "m < length s" for m using par that by simp
    have p2: "symbol_at (cores s') m = symbol_at (cores s) m" if "m < length s" for m using par that by simp
    have none: "\<not> at_path (cores s) q w m" if "m \<in> {}" for w m using that by simp
    show "trie_at s' q k \<and> words s' q = words s q \<and> (\<forall>v m. leaf_at s' q v m = leaf_at s q v m)"
      by (intro conjI allI trie_at_elsewhere [OF q(2) ok' len c nq new none p1 p2])
  qed
  moreover have "store_ok s'" using ok' c t by (simp add: store_ok_def)
  moreover have "\<forall>w n. \<not> leaf_at s' (length s) w n" by (simp add: leaf_at_def no)
  moreover have "\<forall>m < length s. cores s' m = cores s m" using s'(4) by (simp add: grown_def)
  ultimately show ?thesis using s'(1-3) by blast
qed

section \<open>Deleting\<close>

text \<open>A leaf has no children.\<close>

lemma trie_leaves_end:
  assumes t: "trie_at s r k" and u: "tables_used s"
  shows "leaves_end s (nodes_below s [r])"
  unfolding leaves_end_def
proof (intro allI impI)
  fix n b assume n: "n \<in> nodes_below s [r]" and b: "deref s n = Inr b" "IsLeafNode b"
  then obtain w where w: "at_path (cores s) r w n" by (auto simp: nodes_below_def)
  have lf: "is_leaf_node (cores s) n" using b by (simp add: is_leaf_node_def view_deref [OF b(1)])
  have "w \<noteq> []"
  proof
    assume "w = []"
    then have "nts s n = Some TRIE_ROOT_NT" using w t by (simp add: trie_at_def)
    then have "bt_nodetype b = TRIE_ROOT_NT" by (simp add: view_deref [OF b(1)])
    then show False using b(2) by (simp add: IsLeafNode_def bit_iff_odd)
  qed
  then have "missing k w = 0" using t w lf unfolding trie_at_def by blast
  then have none: "parent_at (cores s) m \<noteq> Some n" for m using complete_leaf(2) [OF t w \<open>w \<noteq> []\<close>] by blast
  have k: "kids_at s n = Some (bt_child b)" by (simp add: view_deref [OF b(1)])
  have ok: "trie_ok s" using t by (simp add: trie_at_def)
  show "bt_child b = Chain []"
  proof (cases "bt_child b")
    case (Chain ns)
    then have "ns = []" using trie_okD(3) [OF ok k] none by (cases ns) (auto simp: kid_list_def)
    then show ?thesis using Chain by simp
  next
    case (Hashed h)
    then show ?thesis using u k none unfolding tables_used_def by auto
  qed
qed

text \<open>The nodes in \<open>P\<close> belong to one trie, and are gone.\<close>

lemma pruned_frame:
  assumes p: "pruned P s s'" and t: "trie_at s r k" and sub: "\<And>y. y \<in> P \<Longrightarrow> \<exists>v. at_path (cores s) r v y"
  shows "elsewhere r s s'"
  unfolding elsewhere_def
proof (intro allI impI)
  fix q j assume q: "q \<noteq> r" "trie_at s q j"
  have root: "parent_at (cores s) r = None" "parent_at (cores s) q = None" using t q(2) by (simp_all add: trie_at_def)
  have out: "m \<notin> P" if "at_path (cores s) q v m" for v m
  proof
    assume "m \<in> P"
    then obtain u where "at_path (cores s) r u m" using sub by blast
    then have "r = q" using root_unique that root by blast
    then show False using q(1) by simp
  qed
  show "trie_at s' q j \<and> words s' q = words s q \<and> (\<forall>v m. leaf_at s' q v m = leaf_at s q v m)"
  proof (intro conjI allI)
    show "trie_at s' q j" by (rule pruned_elsewhere(1) [OF p q(2)]) (rule out)
    show "words s' q = words s q" by (rule pruned_elsewhere(2) [OF p q(2)]) (rule out)
    show "leaf_at s' q v m = leaf_at s q v m" for v m by (rule pruned_elsewhere(3) [OF p q(2)]) (rule out)
  qed
qed

lemma delete_trie_frame:
  assumes ok: "store_ok s" and t: "trie_at s r k"
  shows "\<exists>s'. delete_trie r s = Some (Inr s') \<and> store_ok s' \<and> elsewhere r s s' \<and> isl (deref s' r)"
proof -
  let ?P = "nodes_below s [r]"
  let ?s = "free_set ?P s"
  have u: "tables_used s" using ok by (simp add: store_ok_def)
  note p = freed_pruned [OF t]
  have below: "\<exists>v. at_path (cores s) r v y" if "y \<in> ?P" for y using that by (auto simp: nodes_below_def)
  have "tables_used ?s"
    unfolding tables_used_def
  proof (intro allI impI)
    fix q h assume q: "kids_at ?s q = Some (Hashed h)"
    then have q': "q \<notin> ?P" "kids_at s q = Some (Hashed h)" by (simp_all add: free_set_view split: if_splits)
    then obtain m where m: "parent_at (cores s) m = Some q" using u unfolding tables_used_def by blast
    have "m \<notin> ?P"
    proof
      assume "m \<in> ?P"
      then obtain v where v: "at_path (cores s) r v m" using below by blast
      have "v \<noteq> []" using v m t by (auto simp: trie_at_def)
      then obtain w x where "v = w @ [x]" by (cases v rule: rev_cases) auto
      then have "at_path (cores s) r w q" using v m by (auto simp: at_path_last)
      then show False using q'(1) by (auto simp: nodes_below_def)
    qed
    then have "parent_at (cores ?s) m = Some q" using m by (simp add: parent_at_def free_set_view)
    then show "\<exists>m. parent_at (cores ?s) m = Some q" by blast
  qed
  moreover have "trie_ok ?s" "counts_ok ?s" using p ok by (simp_all add: pruned_def store_ok_def)
  moreover have "elsewhere r s ?s" by (rule pruned_frame [OF p t below])
  moreover have "isl (deref ?s r)"
  proof -
    have "at_path (cores s) r [] r" by simp
    then have "r \<in> ?P" unfolding nodes_below_def by fastforce
    then show ?thesis by (simp add: deref_def free_set_def)
  qed
  ultimately show ?thesis using delete_trie_law [OF t trie_leaves_end [OF t u]] by (auto simp: store_ok_def)
qed

text \<open>\<open>delete_branch\<close> makes no hash tables.\<close>

definition hashed_at :: "btns \<Rightarrow> nat \<Rightarrow> bool" where
  "hashed_at s q \<longleftrightarrow> (\<exists>h. kids_at s q = Some (Hashed h))"

lemma hashed_at_simps [simp]:
  "hashed_at (free_obj n s) q \<longleftrightarrow> q \<noteq> n \<and> hashed_at s q"
  "hashed_at (upd_obj n (\<lambda>b. b\<lparr>bt_instr := f b\<rparr>) s) q = hashed_at s q"
  by (simp_all add: hashed_at_def view_free view_upd_same)

lemma hashed_at_set_child:
  assumes "hashed_at (set_child p k s) q" "\<And>h. k = Hashed h \<Longrightarrow> hashed_at s p"
  shows "hashed_at s q"
proof (cases "q = p")
  case True
  then obtain h where "kids_at (set_child p k s) p = Some (Hashed h)" using assms(1) by (auto simp: hashed_at_def)
  then have "k = Hashed h" by (auto simp: set_child_def view_upd view_Some)
  then show ?thesis using assms(2) True by simp
next
  case False
  then show ?thesis using assms(1) by (simp add: hashed_at_def set_child_def view_upd)
qed

lemma drop_from_chain_Hashed: "drop_from_chain x ns k = Hashed h \<Longrightarrow> \<exists>h'. k = Hashed h'"
  by (cases k) (simp_all add: drop_from_chain_def)

lemma unlink_tables:
  assumes u: "unlink_node n b s = Inr s'" and q: "hashed_at s' q"
  shows "hashed_at s q"
proof -
  obtain p pb where p: "bt_parent b = Some p" "deref s p = Inr pb"
    using u by (auto simp: unlink_node_def res_bind_def split: option.splits sum.splits)
  have hp: "hashed_at s p" if "drop_from_chain x ns (bt_child pb) = Hashed h" for x ns h
    using drop_from_chain_Hashed [OF that] by (auto simp: hashed_at_def view_deref [OF p(2)])
  obtain ns m f where s': "s' = free_obj n (set_child p (drop_from_chain (bt_symbol b) ns (bt_child pb))
      (upd_obj m (\<lambda>b. b\<lparr>bt_instr := f b\<rparr>) s)) \<or>
      s' = free_obj n (set_child p (drop_from_chain (bt_symbol b) ns (bt_child pb)) s)"
    using u p by (fastforce simp: unlink_node_def Let_def res_bind_def split: sum.splits if_splits list.splits)
  show ?thesis
    using s'
  proof
    assume "s' = free_obj n (set_child p (drop_from_chain (bt_symbol b) ns (bt_child pb)) (upd_obj m (\<lambda>b. b\<lparr>bt_instr := f b\<rparr>) s))"
    then have "hashed_at (set_child p (drop_from_chain (bt_symbol b) ns (bt_child pb)) (upd_obj m (\<lambda>b. b\<lparr>bt_instr := f b\<rparr>) s)) q"
      using q by simp
    then have "hashed_at (upd_obj m (\<lambda>b. b\<lparr>bt_instr := f b\<rparr>) s) q" by (rule hashed_at_set_child) (simp add: hp)
    then show ?thesis by simp
  next
    assume "s' = free_obj n (set_child p (drop_from_chain (bt_symbol b) ns (bt_child pb)) s)"
    then have "hashed_at (set_child p (drop_from_chain (bt_symbol b) ns (bt_child pb)) s) q" using q by simp
    then show ?thesis by (rule hashed_at_set_child) (simp add: hp)
  qed
qed

lemma delete_branch_tables:
  "delete_branch hk n (root, s) = Inr (root', s') \<Longrightarrow> hashed_at s' q \<Longrightarrow> hashed_at s q"
proof (induction hk n "(root, s)" arbitrary: root s rule: delete_branch.induct)
  case (1 hk n root s)
  note d = "1.prems"(1) and q = "1.prems"(2)
  obtain b where b: "deref s n = Inr b" using d by (cases "deref s n") (simp_all add: delete_branch.simps [of hk n root s] del: delete_branch.simps)
  show ?case
  proof (cases "Contains_NOCP_Instr b \<or> IsTrieRoot b")
    case False
    from d [unfolded delete_branch.simps [of hk n root s] b sum.case if_not_P [OF False]] obtain s1
      where "unlink_node n b s = Inr s1" "s1 = s'" by auto
    then show ?thesis using unlink_tables q by simp
  next
    case up: True
    obtain i where i: "is_hash (snd (set_parent_and_node_hook hk b)) s = Inr i"
      using d [unfolded delete_branch.simps [of hk n root s] b sum.case if_P [OF up]]
      by (cases "is_hash (snd (set_parent_and_node_hook hk b)) s") simp_all
    have clear: "hashed_at s1 q" if "hashed_at (snd (clear_hook hk (root, s1))) q" for s1
      using that by (auto simp: clear_hook_def split: trie_hook.splits elim: hashed_at_set_child)
    show ?thesis
    proof (cases i)
      case None
      note e = d [unfolded delete_branch.simps [of hk n root s] b sum.case if_P [OF up] i None option.case]
      show ?thesis
      proof (cases "fst (set_parent_and_node_hook hk b)")
        case None
        then show ?thesis using e clear [of "free_obj n s"] q by (simp add: prod_eq_iff del: delete_branch.simps)
      next
        case (Some p)
        then show ?thesis using e q "1.hyps"(1) [OF b up i \<open>i = None\<close> Some] by (simp del: delete_branch.simps)
      qed
    next
      case (Some ph)
      obtain p h where ph: "ph = (p, h)" by (cases ph)
      have hp: "hashed_at s p" using i unfolding Some ph
        by (auto simp: is_hash_def hashed_at_def res_bind_def view_def split: trie_hook.splits sum.splits kids.splits)
      let ?h = "h\<lparr>buckets := (buckets h)[TrieHash (bt_symbol b) (length (buckets h) - 1) := []], numContents := numContents h - 1\<rparr>"
      let ?s = "free_obj n (set_child p (Hashed ?h) s)"
      have one: "hashed_at s q" if "hashed_at ?s q" using that hp by (auto intro: hashed_at_set_child)
      note e = d [unfolded delete_branch.simps [of hk n root s] b sum.case if_P [OF up] i Some ph option.case prod.case Let_def]
      show ?thesis
      proof (cases "0 < numContents ?h")
        case True
        then show ?thesis using e q one by (simp del: delete_branch.simps)
      next
        case False
        show ?thesis
        proof (cases "fst (set_parent_and_node_hook hk b)")
          case None
          then show ?thesis using e False clear [of ?s] one q by (simp add: prod_eq_iff del: delete_branch.simps)
        next
          case (Some p')
          then show ?thesis using e False q one "1.hyps"(2) [OF b up i \<open>i = Some ph\<close> ph [symmetric] refl refl False Some] by (simp del: delete_branch.simps)
        qed
      qed
    qed
  qed
qed

lemma delete_branch_frame:
  assumes ok: "store_ok s" and t: "trie_at s r k" and n: "leaf_at s r w n"
  shows "\<exists>root' s'. delete_branch Root_Var n (Some r, s) = Inr (root', s') \<and> store_ok s' \<and> elsewhere r s s' \<and>
    (\<forall>v m. leaf_at s' r v m \<longleftrightarrow> leaf_at s r v m \<and> v \<noteq> w) \<and> words s' r = words s r - {w} \<and>
    (root' = Some r \<and> trie_at s' r k \<or> root' = None \<and> isl (deref s' r)) \<and>
    (\<forall>x. cores s' x = None \<or> cores s' x = cores s x) \<and> deref s' n = Inl (Dangling_Pointer n)"
proof -
  have c: "counts_ok s" "tables_used s" using ok by (simp_all add: store_ok_def)
  have w: "w \<noteq> []" "at_path (cores s) r w n" "missing k w = 0"
    using n t unfolding leaf_at_def trie_at_def by blast+
  have none: "childless s n" using complete_leaf(2) [OF t w(2,1,3)] by (simp add: childless_def)
  have tr: "trie_ok s" "parent_at (cores s) r = None" "nts s r = Some TRIE_ROOT_NT" using t by (simp_all add: trie_at_def)
  have nr: "nts s y \<noteq> Some TRIE_ROOT_NT" if "0 < i" "at_path (cores s) r (take i w) y" "i \<le> length w" for i y
  proof
    assume "nts s y = Some TRIE_ROOT_NT"
    moreover have "take i w \<noteq> []" using that(1) w(1) by simp
    ultimately show False using root_nt that(2) t unfolding trie_at_def by blast
  qed
  have "\<exists>root' s' P. delete_branch Root_Var n (Some r, s) = Inr (root', s') \<and> branch_gone Root_Var r w n s root' s' P"
    by (rule prune_up [OF tr(1) c(1) w(2) none tr(2,3)]) (rule nr, assumption+, simp)
  then obtain root' s' P where d: "delete_branch Root_Var n (Some r, s) = Inr (root', s')"
    and g: "branch_gone Root_Var r w n s root' s' P" by blast
  have p: "pruned P s s'" "\<And>y. y \<in> P \<Longrightarrow> \<exists>v. at_path (cores s) r v y"
    "\<And>y q. y \<in> P \<Longrightarrow> parent_at (cores s) y = Some q \<Longrightarrow> q \<in> P \<or> \<not> childless s' q"
    using g by (auto simp: branch_gone_def)
  have "tables_used s'"
    unfolding tables_used_def
  proof (intro allI impI)
    fix q h assume q: "kids_at s' q = Some (Hashed h)"
    then have "hashed_at s q" using delete_branch_tables [OF d] by (auto simp: hashed_at_def)
    then obtain m where m: "parent_at (cores s) m = Some q" using c(2) by (auto simp: hashed_at_def tables_used_def)
    have qP: "q \<notin> P"
    proof
      assume "q \<in> P"
      then have "cores s' q = None" using p(1) by (simp add: pruned_def)
      then show False using q view_None_iff [of core s' q bt_child] by simp
    qed
    show "\<exists>m. parent_at (cores s') m = Some q"
    proof (cases "m \<in> P")
      case True
      then show ?thesis using p(3) m qP by (auto simp: childless_def)
    next
      case False
      then have "parent_at (cores s') m = Some q" using p(1) m by (simp add: pruned_def parent_at_def)
      then show ?thesis by blast
    qed
  qed
  then have "store_ok s'" using p(1) c(1) by (simp add: store_ok_def pruned_def)
  moreover have "elsewhere r s s'" by (rule pruned_frame [OF p(1) t p(2)])
  moreover have "\<forall>x. cores s' x = None \<or> cores s' x = cores s x" using p(1) by (simp add: pruned_def)
  moreover have "deref s' n = Inl (Dangling_Pointer n)"
  proof -
    have "n \<in> P" using g by (simp add: branch_gone_def)
    then have "cores s' n = None" using p(1) by (simp add: pruned_def)
    then show ?thesis by (auto simp: view_None deref_def split: if_splits option.splits)
  qed
  ultimately show ?thesis using delete_branch_law [OF t c(1) n, of Root_Var] d by simp
qed

section \<open>Marks\<close>

lemma safe_delete_frame:
  assumes ok: "store_ok s" and t: "trie_at s r k" and n: "leaf_at s r w n" and i: "\<And>b. deref s n = Inr b \<Longrightarrow> bt_instr b \<noteq> 0"
  shows "\<exists>s'. safe_delete_branch n s = Inr s' \<and> store_ok s' \<and> elsewhere r s s' \<and> trie_at s' r k \<and>
    (\<forall>v m. leaf_at s' r v m \<longleftrightarrow> leaf_at s r v m) \<and> words s' r = words s r - {w} \<and> relabeled n s s'"
proof -
  from safe_delete_law [OF t n i] obtain s' where s': "safe_delete_branch n s = Inr s'" "trie_at s' r k"
    "\<forall>v m. leaf_at s' r v m \<longleftrightarrow> leaf_at s r v m" "words s' r = words s r - {w}" by blast
  note rl = failed_relabeled [OF s'(1)]
  have "trie_ok s'" using s'(2) by (simp add: trie_at_def)
  then have "store_ok s'" "elsewhere r s s'" using ok relabeled_tables [OF rl] rl relabeled_elsewhere [OF rl _ t] n
    by (auto simp: store_ok_def relabeled_def counts_ok_def leaf_at_def)
  then show ?thesis using s' rl by blast
qed

lemma undelete_frame:
  assumes ok: "store_ok s" and t: "trie_at s r k" and n: "leaf_at s r w n"
  shows "\<exists>s'. undelete_branch n s = Inr s' \<and> store_ok s' \<and> elsewhere r s s' \<and> trie_at s' r k \<and>
    (\<forall>v m. leaf_at s' r v m \<longleftrightarrow> leaf_at s r v m) \<and> words s' r = insert w (words s r) \<and> relabeled n s s'"
proof -
  from undelete_law [OF t n] obtain s' where s': "undelete_branch n s = Inr s'" "trie_at s' r k"
    "\<forall>v m. leaf_at s' r v m \<longleftrightarrow> leaf_at s r v m" "words s' r = insert w (words s r)" by blast
  note rl = undeleted_relabeled [OF s'(1)]
  have "trie_ok s'" using s'(2) by (simp add: trie_at_def)
  then have "store_ok s'" "elsewhere r s s'" using ok relabeled_tables [OF rl] rl relabeled_elsewhere [OF rl _ t] n
    by (auto simp: store_ok_def relabeled_def counts_ok_def leaf_at_def)
  then show ?thesis using s' rl by blast
qed

section \<open>Interning\<close>

lemma intern_frame:
  assumes ok: "store_ok s" and t: "trie_at s r 1" and cps: "\<forall>n \<in> set ns. cores s n \<noteq> None" "\<forall>s. may_expand c e ns r s = Inr True"
    and few: "length (vars_of sz [u]) \<le> 0x10000" and fl: "0 < fst flags" "\<not> too_many flags (intern_size u)"
  shows "\<exists>res s'. trie_intern_chk_ins psc flags (c, e, ns) sz u (Some r) s = Inr (res, s') \<and> hook res = r \<and>
    num_trievars res = ve_size (snd (syms (start_enum sz) [u])) \<and> interned (word_of sz [u]) r s (leaf res, flag res, s') \<and> store_ok s'"
proof -
  from trie_intern_law [OF t cps(1) few fl, of psc c e] obtain res s' where i:
    "trie_intern_chk_ins psc flags (c, e, ns) sz u (Some r) s = Inr (res, s')" "hook res = r"
    "num_trievars res = ve_size (snd (syms (start_enum sz) [u]))" "interned (word_of sz [u]) r s (leaf res, flag res, s')" "counts_ok s \<longrightarrow> counts_ok s'" using cps(2) by blast
  moreover have "store_ok s'" using i(4,5) ok by (simp add: interned_def store_ok_def trie_at_def)
  ultimately show ?thesis by blast
qed

end
