(* ===== verification/Simulation.thy ===== *)
theory Simulation imports Main begin

text \<open>
  A component with many operations is described by a smaller machine: each step of the component is, seen through
  an abstraction, a step of that machine, and keeps an invariant. What the machine can do
  in several steps is then all that the component does.
\<close>

inductive runs :: "('s \<Rightarrow> 'l \<Rightarrow> 's \<Rightarrow> bool) \<Rightarrow> 's \<Rightarrow> 'l list \<Rightarrow> 's \<Rightarrow> bool" for step where
  runs_Nil: "runs step s [] s"
| runs_Cons: "step s l t \<Longrightarrow> runs step t ls u \<Longrightarrow> runs step s (l # ls) u"

inductive_cases runs_NilE: "runs step s [] t"
inductive_cases runs_ConsE: "runs step s (l # ls) t"

fun legal_run :: "('a \<Rightarrow> 'l \<Rightarrow> bool) \<Rightarrow> ('a \<Rightarrow> 'l \<Rightarrow> 'a) \<Rightarrow> 'a \<Rightarrow> 'l list \<Rightarrow> bool" where
  "legal_run legal effect a [] = True"
| "legal_run legal effect a (l # ls) = (legal a l \<and> legal_run legal effect (effect a l) ls)"

locale simulation =
  fixes step :: "'s \<Rightarrow> 'l \<Rightarrow> 's \<Rightarrow> bool"
    and rel :: "'s \<Rightarrow> 'a \<Rightarrow> bool"
    and legal :: "'a \<Rightarrow> 'l \<Rightarrow> bool"
    and effect :: "'a \<Rightarrow> 'l \<Rightarrow> 'a"
  assumes step_effect: "rel s a \<Longrightarrow> legal a l \<Longrightarrow> step s l t \<Longrightarrow> rel t (effect a l)"
    and progress: "rel s a \<Longrightarrow> legal a l \<Longrightarrow> \<exists>t. step s l t"
begin

lemma runs_effect: "runs step s ls t \<Longrightarrow> rel s a \<Longrightarrow> legal_run legal effect a ls \<Longrightarrow> rel t (foldl effect a ls)"
  by (induction arbitrary: a rule: runs.induct) (auto intro: step_effect)

lemma runs_progress: "rel s a \<Longrightarrow> legal_run legal effect a ls \<Longrightarrow> \<exists>t. runs step s ls t"
proof (induction ls arbitrary: s a)
  case (Cons l ls)
  from progress [OF Cons.prems(1)] Cons.prems(2) obtain t where t: "step s l t" by auto
  then have "rel t (effect a l)" using step_effect Cons.prems by simp
  then obtain u where "runs step t ls u" using Cons by fastforce
  with t show ?case by (blast intro: runs_Cons)
qed (blast intro: runs_Nil)

text \<open>A run cannot stop before its end.\<close>

lemma runs_all:
  assumes "rel s a" "legal_run legal effect a ls"
  shows "(\<exists>t. runs step s ls t) \<and> (\<forall>t. runs step s ls t \<longrightarrow> rel t (foldl effect a ls))"
  using assms runs_effect runs_progress by blast

end

end
