(* ===== verification/Trie_Handle_Laws.thy ===== *)
theory Trie_Handle_Laws imports Trie_Handle_Lists Trie_Frames Trie_Variants Graph_Structure Simulation begin

text \<open>
  What the operations on handles do, told without pointers: a handle in use stands for a set of words, each
  operation changes the set of its handle only, and a handle that is dropped is the next one to be given out.
\<close>

section \<open>Handles as numbers\<close>

lemma trie_id_roundtrip:
  assumes "ind < 2 ^ 20" "type < 2 ^ 12"
  shows "SPLIT_TRIE_ID (SET_TRIE_ID ind type) = (ind, type)"
proof -
  have m: "(0x000fffff :: 32 word) = mask 20" "(0xfff00000 :: 32 word) = push_bit 20 (mask 12)"
    by (simp_all add: mask_eq_exp_minus_1)
  have b: "bit ind n \<Longrightarrow> n < 20" "bit type n \<Longrightarrow> n < 12" for n
    using assms bit_take_bit_iff [of 20 ind n] bit_take_bit_iff [of 12 type n] by (simp_all add: take_bit_nat_eq_self)
  have "SET_TRIE_ID ind type AND TRIE_ID_ID_MASK = of_nat ind"
    unfolding SET_TRIE_ID_def m by (rule bit_word_eqI) (use b in \<open>auto simp: bit_simps\<close>)
  moreover have "drop_bit 20 (SET_TRIE_ID ind type AND TRIE_ID_TYPE_MASK) = of_nat type"
    unfolding SET_TRIE_ID_def m by (rule bit_word_eqI) (use b in \<open>auto simp: bit_simps\<close>)
  ultimately show ?thesis using assms by (simp add: SPLIT_TRIE_ID_def unat_of_nat)
qed

lemma TRIE_TYPE_less: "TRIE_TYPE props < 16"
proof -
  have "(0xf :: 32 word) = mask 4" by (simp add: mask_eq_exp_minus_1)
  then have "TRIE_TYPE props = take_bit 4 (unat props)"
    unfolding TRIE_TYPE_def by (simp only: take_bit_eq_mask [symmetric] unsigned_take_bit_eq)
  then show ?thesis using take_bit_nat_less_exp [of 4 "unat props"] by simp
qed

section \<open>The tries of the table\<close>

definition root_at :: "trie_table \<Rightarrow> nat \<Rightarrow> nat option" where
  "root_at st i = (if i < length (itrie_array st) \<and> te_valid (itrie_array st ! i) then te_root (itrie_array st ! i) else None)"

definition words_at :: "btns \<Rightarrow> nat option \<Rightarrow> tsym list set" where
  "words_at s x = (case x of None \<Rightarrow> {} | Some r \<Rightarrow> words s r)"

definition contents :: "trie_table \<Rightarrow> nat \<Rightarrow> tsym list set" where
  "contents st i = words_at (trie_nodes st) (root_at st i)"

definition tries_ok :: "trie_table \<Rightarrow> bool" where
  "tries_ok st \<longleftrightarrow> store_ok (trie_nodes st) \<and> (\<forall>i r. root_at st i = Some r \<longrightarrow> trie_at (trie_nodes st) r 1) \<and>
     (\<forall>i j r. root_at st i = Some r \<longrightarrow> root_at st j = Some r \<longrightarrow> i = j)"

lemma elsewhere_trans:
  assumes a: "elsewhere r s1 s2" and b: "elsewhere r s2 s3"
  shows "elsewhere r s1 s3"
  unfolding elsewhere_def
proof (intro allI impI)
  fix q k assume q: "q \<noteq> r" "trie_at s1 q k"
  have 1: "trie_at s2 q k" "words s2 q = words s1 q" "\<forall>v m. leaf_at s2 q v m = leaf_at s1 q v m"
    using a q unfolding elsewhere_def by blast+
  have 2: "trie_at s3 q k" "words s3 q = words s2 q" "\<forall>v m. leaf_at s3 q v m = leaf_at s2 q v m"
    using b q(1) 1(1) unfolding elsewhere_def by blast+
  show "trie_at s3 q k \<and> words s3 q = words s1 q \<and> (\<forall>v m. leaf_at s3 q v m = leaf_at s1 q v m)"
    using 1 2 by simp
qed

lemma tries_update:
  assumes ok: "tries_ok st" and so: "store_ok (trie_nodes st')" and el: "elsewhere r (trie_nodes st) (trie_nodes st')"
    and root: "root_at st' = (root_at st)(i := x)" and x: "x = None \<or> x = Some r \<and> trie_at (trie_nodes st') r 1"
    and own: "\<forall>j. root_at st j = Some r \<longrightarrow> j = i"
  shows "tries_ok st'" "contents st' = (contents st)(i := words_at (trie_nodes st') x)"
proof -
  have other: "root_at st j = Some q \<Longrightarrow> j \<noteq> i \<Longrightarrow> q \<noteq> r" for j q using own by blast
  have keep: "trie_at (trie_nodes st') q 1 \<and> words (trie_nodes st') q = words (trie_nodes st) q"
    if "root_at st j = Some q" "j \<noteq> i" for j q
    using el other [OF that] ok that unfolding elsewhere_def tries_ok_def by blast
  show "tries_ok st'"
    unfolding tries_ok_def
  proof (intro conjI allI impI so)
    fix j q assume "root_at st' j = Some q"
    then show "trie_at (trie_nodes st') q 1" using keep x by (cases "j = i") (auto simp: root)
  next
    fix j l q assume "root_at st' j = Some q" "root_at st' l = Some q"
    then show "j = l" using other x ok by (auto simp: root tries_ok_def split: if_splits)
  qed
  show "contents st' = (contents st)(i := words_at (trie_nodes st') x)"
  proof
    fix j show "contents st' j = ((contents st)(i := words_at (trie_nodes st') x)) j"
      using keep [of j] by (cases "j = i"; cases "root_at st j") (simp_all add: contents_def root words_at_def)
  qed
qed

text \<open>
  What a table stands for: the free handles, with the one first that is given out next, the handles in use, the
  last one given out first, and the words of each handle.
\<close>

type_synonym handles = "nat list \<times> nat list \<times> (nat \<Rightarrow> tsym list set)"

definition represents :: "nat \<Rightarrow> trie_table \<Rightarrow> handles \<Rightarrow> bool" where
  "represents sz st = (\<lambda>(free, used, m).
     handle_lists st free used \<and> tries_ok st \<and> current_num_trievars st = sz \<and> length (itrie_array st) \<le> 2 ^ 20 \<and>
     (\<forall>i \<in> set used. contents st i = m i))"

text \<open>A term that can be interned is not too large and has no more variables than fit in the array.\<close>

definition term_fits :: "nat \<times> nat \<Rightarrow> nat \<Rightarrow> tterm \<Rightarrow> bool" where
  "term_fits flags sz t \<longleftrightarrow> 0 < fst flags \<and> length (vars_of sz [t]) \<le> sz \<and> length (vars_of sz [t]) \<le> 0x10000 \<and> \<not> too_many flags (intern_size t)"

section \<open>Each operation\<close>

lemma root_at_used: "handle_lists st free used \<Longrightarrow> i \<in> set used \<Longrightarrow> root_at st i = te_root (itrie_array st ! i)"
  using used_in [of st free used i] by (auto simp: root_at_def handle_lists_def)

lemma root_at_old: "tries_ok st \<Longrightarrow> root_at st i = Some r \<Longrightarrow> r < length (trie_nodes st)"
  using view_less [of bt_nodetype "trie_nodes st" r] unfolding tries_ok_def trie_at_def by blast

lemma set_root:
  assumes l: "handle_lists st free used" and i: "i \<in> set used"
    and st': "st' = upd_entry i (\<lambda>e. e\<lparr>te_root := x\<rparr>) (st\<lparr>trie_nodes := s, current_num_trievars := sz\<rparr>)"
  shows "handle_lists st' free used" "root_at st' = (root_at st)(i := x)" "trie_nodes st' = s"
    "length (itrie_array st') = length (itrie_array st)" "current_num_trievars st' = sz"
proof -
  have v: "te_valid (itrie_array st ! i)" "i < length (itrie_array st)" using l i used_in [OF l] by (auto simp: handle_lists_def)
  show "handle_lists st' free used"
  proof (rule handle_lists_cong [OF l])
    fix j assume "j < length (itrie_array st)"
    then show "next_entry (itrie_array st' ! j) = next_entry (itrie_array st ! j) \<and>
      prev_entry (itrie_array st' ! j) = prev_entry (itrie_array st ! j) \<and> te_valid (itrie_array st' ! j) = te_valid (itrie_array st ! j)"
      by (cases "j = i") (simp_all add: st' upd_entry_def)
  qed (simp_all add: st')
  show "root_at st' = (root_at st)(i := x)"
    using v by (auto simp: root_at_def st' upd_entry_def nth_list_update fun_eq_iff)
  show "trie_nodes st' = s" "length (itrie_array st') = length (itrie_array st)" "current_num_trievars st' = sz" by (simp_all add: st')
qed

lemma new_law:
  assumes rep: "represents sz st (i # free, used, m)"
  shows "\<exists>tid st'. new_private_trie props st = Inr (tid, st') \<and> SPLIT_TRIE_ID tid = (i, TRIE_TYPE props) \<and>
    represents sz st' (free, i # used, m(i := {}))"
proof -
  have l: "handle_lists st (i # free) used" and t: "tries_ok st" and z: "current_num_trievars st = sz"
    and n: "length (itrie_array st) \<le> 2 ^ 20" and c: "\<And>j. j \<in> set used \<Longrightarrow> contents st j = m j"
    using rep by (simp_all add: represents_def)
  have i: "i < length (itrie_array st)" "i \<notin> set used" using used_in [OF l, of i] l by (auto simp: handle_lists_def)
  have first: "itrie_array_first_free st = Some i" using l by (simp add: handle_lists_def)
  let ?ty = "TRIE_TYPE props"
  from new_trie_entry [OF l, of ?ty] obtain st2 where st2:
    "set_link (itrie_array_first_trie st) (\<lambda>e. e\<lparr>prev_entry := Some i\<rparr>)
       (upd_entry i (\<lambda>e. e\<lparr>te_valid := True, te_root := None, te_type := ?ty, prev_entry := None,
          next_entry := itrie_array_first_trie st\<rparr>) (st\<lparr>itrie_array_first_free := nexts st i\<rparr>)) = Inr st2"
    "handle_lists (st2\<lparr>itrie_array_first_trie := Some i\<rparr>) free (i # used)"
    "length (itrie_array st2) = length (itrie_array st)"
    "\<forall>j < length (itrie_array st). te_root (itrie_array st2 ! j) = (if j = i then None else te_root (itrie_array st ! j))"
    "trie_nodes st2 = trie_nodes st" "current_num_trievars st2 = current_num_trievars st" by blast
  let ?st = "st2\<lparr>itrie_array_first_trie := Some i\<rparr>"
  obtain st' where st': "(if IS_INCREMENTAL_TRIE props then make_incremental i ?st else Inr ?st) = Inr st'"
    "handle_lists st' free (i # used)" "length (itrie_array st') = length (itrie_array st)"
    "trie_nodes st' = trie_nodes st" "current_num_trievars st' = current_num_trievars st"
    "\<And>j. j < length (itrie_array st) \<Longrightarrow> te_root (itrie_array st' ! j) = (if j = i then None else te_root (itrie_array st ! j))"
  proof (cases "IS_INCREMENTAL_TRIE props")
    case True
    obtain h :: "(nat, nat) hashtable" where h: "create_hashtable1 1 hashfromkey equalkeys = Some h" using create_one by blast
    obtain cn g where g: "makecallnode None True 0 (trie_calls st2) = (cn, g)" by fastforce
    let ?g = "upd_node cn (\<lambda>c. c\<lparr>is_incremental_trie := Some True\<rparr>) g"
    have "\<exists>g'. initoutedges cn ?g = Inr g'"
      using g by (auto simp: makecallnode_def initoutedges_def node_def deref_append upd_node_def h simp del: One_nat_def)
    then obtain g' where g': "initoutedges cn ?g = Inr g'" by blast
    let ?st' = "upd_entry i (\<lambda>e. e\<lparr>te_callnode := Some cn, te_incremental := True\<rparr>) (?st\<lparr>trie_calls := g'\<rparr>)"
    have run: "make_incremental i ?st = Inr ?st'" using g' by (simp add: make_incremental_def g)
    have e: "next_entry (itrie_array ?st' ! j) = next_entry (itrie_array ?st ! j) \<and>
        prev_entry (itrie_array ?st' ! j) = prev_entry (itrie_array ?st ! j) \<and>
        te_valid (itrie_array ?st' ! j) = te_valid (itrie_array ?st ! j) \<and> te_root (itrie_array ?st' ! j) = te_root (itrie_array ?st ! j)"
      if "j < length (itrie_array ?st)" for j
      using that by (cases "j = i") (simp_all add: upd_entry_def)
    have "handle_lists ?st' free (i # used)" by (rule handle_lists_cong [OF st2(2)]) (use e in simp_all)
    then show ?thesis using that [of ?st'] run st2(3-6) e True by simp
  next
    case False
    then show ?thesis using that [of ?st] st2 by simp
  qed
  have run: "new_private_trie props st = Inr (SET_TRIE_ID i ?ty, st')"
    using st2(1) st'(1) by (simp add: new_private_trie_def first entry_in [OF i(1)] Let_def)
  have "?ty < 2 ^ 12" using TRIE_TYPE_less [of props] by simp
  then have id: "SPLIT_TRIE_ID (SET_TRIE_ID i ?ty) = (i, ?ty)" using trie_id_roundtrip i(1) n by simp
  have valid: "te_valid (itrie_array st ! j) \<longleftrightarrow> j \<in> set used" "te_valid (itrie_array st' ! j) \<longleftrightarrow> j = i \<or> j \<in> set used"
    if "j < length (itrie_array st)" for j using l st'(2,3) that by (auto simp: handle_lists_def)
  have root: "root_at st' = (root_at st)(i := None)"
    using valid st'(3,6) by (auto simp: root_at_def fun_eq_iff)
  have own: "\<forall>j. root_at st j = Some (length (trie_nodes st)) \<longrightarrow> j = i" using root_at_old [OF t] by blast
  have so: "store_ok (trie_nodes st')" using t st'(4) by (simp add: tries_ok_def)
  have el: "elsewhere (length (trie_nodes st)) (trie_nodes st) (trie_nodes st')" by (simp add: st'(4))
  note u = tries_update [OF t so el root disjI1 [OF refl] own]
  have "contents st' j = (m(i := {})) j" if "j \<in> set (i # used)" for j
    using that c unfolding u(2) by (auto simp: words_at_def)
  then have "represents sz st' (free, i # used, m(i := {}))"
    using st'(2,3,5) u(1) z n by (simp add: represents_def)
  then show ?thesis using run id by blast
qed

lemma no_handle_left:
  assumes "represents sz st ([], used, m)"
  shows "new_private_trie props st = Inl (Resource_Error ''interned tries'')"
  using assms by (simp add: represents_def handle_lists_def new_private_trie_def)

text \<open>All the other operations change the root and the nodes of one trie.\<close>

lemma represents_update:
  assumes rep: "represents sz st (free, used, m)" and i: "i \<in> set used"
    and st': "st' = upd_entry i (\<lambda>e. e\<lparr>te_root := x\<rparr>) (st\<lparr>trie_nodes := s, current_num_trievars := sz\<rparr>)"
    and so: "store_ok s" and el: "elsewhere r (trie_nodes st) s" and x: "x = None \<or> x = Some r \<and> trie_at s r 1"
    and own: "\<forall>j. root_at st j = Some r \<longrightarrow> j = i"
  shows "represents sz st' (free, used, m(i := words_at s x))"
proof -
  have l: "handle_lists st free used" and t: "tries_ok st" and n: "length (itrie_array st) \<le> 2 ^ 20"
    and c: "\<And>j. j \<in> set used \<Longrightarrow> contents st j = m j" using rep by (simp_all add: represents_def)
  note r = set_root [OF l i st']
  note u = tries_update [OF t _ _ r(2) _ own, unfolded r(3), OF so el x]
  have "contents st' j = (m(i := words_at s x)) j" if "j \<in> set used" for j using c that unfolding u(2) by simp
  then show ?thesis using r(1,4,5) u(1) n by (simp add: represents_def)
qed

lemma intern_law:
  assumes rep: "represents sz st (free, used, m)" and i: "i \<in> set used" "fst (SPLIT_TRIE_ID tid) = i"
    and fits: "term_fits flags sz t"
  shows "\<exists>r st'. private_trie_intern psc flags [] tid t CPS_CHECK e st = Inr (r, st') \<and>
    represents sz st' (free, used, m(i := insert (word_of sz [t]) (m i))) \<and>
    snd r = (if word_of sz [t] \<in> m i then 1 else 0)"
proof -
  have l: "handle_lists st free used" and t: "tries_ok st" and z: "current_num_trievars st = sz"
    and c: "contents st i = m i" using rep i by (simp_all add: represents_def)
  have il: "i < length (itrie_array st)" using used_in [OF l] i(1) by blast
  have fl: "0 < fst flags" using fits by (simp add: term_fits_def)
  have few: "length (vars_of sz [t]) \<le> 0x10000" "\<not> too_many flags (intern_size t)"
    and size: "ve_size (snd (syms (start_enum sz) [t])) = sz"
    using fits trail_size [of sz "[t]"] by (simp_all add: term_fits_def)
  obtain ty where tid: "SPLIT_TRIE_ID tid = (i, ty)" using i(2) by (cases "SPLIT_TRIE_ID tid") simp
  let ?x = "te_root (itrie_array st ! i)"
  have x: "root_at st i = ?x" by (rule root_at_used [OF l i(1)])
  have so: "store_ok (trie_nodes st)" using t by (simp add: tries_ok_def)
  obtain r s where rs: "trie_intern_chk_ins psc flags (c1, e1, cps) sz t ?x (trie_nodes st) =
        trie_intern_chk_ins psc flags (c1, e1, cps) sz t (Some r) s" "store_ok s" "trie_at s r 1"
      "words s r = contents st i" "elsewhere r (trie_nodes st) s" "\<forall>j. root_at st j = Some r \<longrightarrow> j = i" for c1 e1 cps
  proof (cases ?x)
    case None
    from new_trie_frame [OF so, of "SStruct (fst psc) (snd psc)" INTERN_TRIE_TT 1] obtain s where
      s: "newBasicTrie (SStruct (fst psc) (snd psc)) INTERN_TRIE_TT (trie_nodes st) = (length (trie_nodes st), s)" "store_ok s"
      "trie_at s (length (trie_nodes st)) 1" "words s (length (trie_nodes st)) = {}"
      "elsewhere (length (trie_nodes st)) (trie_nodes st) s" by blast
    have a: "trie_intern_chk_ins psc flags (c1, e1, cps) sz t None (trie_nodes st) =
        trie_intern_chk_ins psc flags (c1, e1, cps) sz t (Some (length (trie_nodes st))) s" for c1 e1 cps
      by (simp add: trie_intern_chk_ins_def s(1) del: One_nat_def)
    have "words s (length (trie_nodes st)) = contents st i" using s(4) x None by (simp add: contents_def words_at_def)
    moreover have "\<forall>j. root_at st j = Some (length (trie_nodes st)) \<longrightarrow> j = i" using root_at_old [OF t] by blast
    ultimately show ?thesis using that [of "length (trie_nodes st)" s] a s(2,3,5) None by simp
  next
    case (Some r)
    then have "trie_at (trie_nodes st) r 1" "words (trie_nodes st) r = contents st i"
      using t x by (simp_all add: tries_ok_def contents_def words_at_def)
    moreover have "\<forall>j. root_at st j = Some r \<longrightarrow> j = i" using t x Some unfolding tries_ok_def by metis
    ultimately show ?thesis using that [of r "trie_nodes st"] so Some by simp
  qed
  have can: "\<forall>s. may_expand CPS_CHECK e [] r s = Inr True" by (simp add: may_expand_def)
  have no: "\<forall>n \<in> set []. cores s n \<noteq> None" by simp
  from intern_frame [OF rs(2,3) no can few(1) fl few(2), of psc] obtain res s' where res:
    "trie_intern_chk_ins psc flags (CPS_CHECK, e, []) sz t (Some r) s = Inr (res, s')" "hook res = r"
    "num_trievars res = sz" "interned (word_of sz [t]) r s (leaf res, flag res, s')" "store_ok s'" using size by auto
  have s': "trie_at s' r 1" "words s' r = insert (word_of sz [t]) (m i)" "elsewhere r s s'"
    "flag res = (if word_of sz [t] \<in> m i then 1 else 0)"
    using res(4) rs(4) c by (simp_all add: interned_def)
  have el: "elsewhere r (trie_nodes st) s'" by (rule elsewhere_trans [OF rs(5) s'(3)])
  let ?st = "upd_entry i (\<lambda>e. e\<lparr>te_root := Some r\<rparr>) (st\<lparr>trie_nodes := s', current_num_trievars := sz\<rparr>)"
  have run: "private_trie_intern psc flags [] tid t CPS_CHECK e st = Inr ((leaf res, flag res), ?st)"
    using res(1-3) by (simp add: private_trie_intern_def tid entry_in [OF il] z rs(1))
  have "represents sz ?st (free, used, m(i := words_at s' (Some r)))"
    by (rule represents_update [OF rep i(1) refl res(5) el _ rs(6)]) (simp_all add: s'(1) del: One_nat_def)
  then show ?thesis using run s'(2,4) by (auto simp: words_at_def)
qed

lemma keep_vars: "current_num_trievars st = sz \<Longrightarrow> st\<lparr>trie_nodes := s\<rparr> = st\<lparr>trie_nodes := s, current_num_trievars := sz\<rparr>"
  by auto

lemma unintern_law:
  assumes rep: "represents sz st (free, used, m)" and i: "i \<in> set used" "fst (SPLIT_TRIE_ID tid) = i"
    and r: "root_at st i = Some r" and n: "leaf_at (trie_nodes st) r w n"
  shows "\<exists>st'. private_trie_unintern [] tid n d st = Inr st' \<and> represents sz st' (free, used, m(i := m i - {w}))"
proof -
  have l: "handle_lists st free used" and t: "tries_ok st" and z: "current_num_trievars st = sz"
    and c: "contents st i = m i" using rep i by (simp_all add: represents_def)
  have il: "i < length (itrie_array st)" using used_in [OF l] i(1) by blast
  obtain ty where tid: "SPLIT_TRIE_ID tid = (i, ty)" using i(2) by (cases "SPLIT_TRIE_ID tid") simp
  have x: "te_root (itrie_array st ! i) = Some r" using root_at_used [OF l i(1)] r by simp
  have tr: "trie_at (trie_nodes st) r 1" "store_ok (trie_nodes st)" using t r by (simp_all add: tries_ok_def)
  have own: "\<forall>j. root_at st j = Some r \<longrightarrow> j = i" using t r unfolding tries_ok_def by metis
  from delete_branch_frame [OF tr(2,1) n] obtain root' s' where d:
    "delete_branch Root_Var n (Some r, trie_nodes st) = Inr (root', s')" "store_ok s'" "elsewhere r (trie_nodes st) s'"
    "\<forall>v m. leaf_at s' r v m \<longleftrightarrow> leaf_at (trie_nodes st) r v m \<and> v \<noteq> w" "words s' r = words (trie_nodes st) r - {w}"
    "root' = Some r \<and> trie_at s' r 1 \<or> root' = None \<and> isl (deref s' r)" by blast
  let ?st = "upd_entry i (\<lambda>e. e\<lparr>te_root := root'\<rparr>) (st\<lparr>trie_nodes := s', current_num_trievars := sz\<rparr>)"
  have run: "private_trie_unintern [] tid n d st = Inr ?st"
    using d(1) unfolding keep_vars [OF z, of s', symmetric] by (simp add: private_trie_unintern_def tid entry_in [OF il] x)
  have "root' = None \<or> root' = Some r \<and> trie_at s' r 1" using d(6) by blast
  note rep' = represents_update [OF rep i(1) refl d(2,3) this own]
  have words: "words_at s' root' = m i - {w}"
  proof (cases root')
    case None
    have "words s' r = {}"
    proof -
      have "isl (deref s' r)" using d(6) None by simp
      then have "cores s' r = None" by (simp add: view_None isl_def)
      moreover have "trie_ok s'" using d(2) by (simp add: store_ok_def)
      ultimately have "parent_at (cores s') x \<noteq> Some r" for x unfolding trie_ok_def parents_ok_def by blast
      then have "at_path (cores s') r v x \<longleftrightarrow> v = [] \<and> x = r" for v x by (rule at_path_no_kids)
      then show ?thesis by (auto simp: words_def leaf_at_def)
    qed
    then show ?thesis using d(5) c r None by (simp add: contents_def words_at_def)
  next
    case (Some q)
    then show ?thesis using d(5,6) c r by (simp add: contents_def words_at_def)
  qed
  show ?thesis using run rep' unfolding words by blast
qed

lemma truncate_law:
  assumes rep: "represents sz st (free, used, m)" and i: "i \<in> set used" "fst (SPLIT_TRIE_ID tid) = i" "snd (SPLIT_TRIE_ID tid) < 2"
  shows "\<exists>st'. trie_truncate [] tid st = Some (Inr st') \<and> represents sz st' (free, used, m(i := {}))"
proof -
  have l: "handle_lists st free used" and t: "tries_ok st" and z: "current_num_trievars st = sz"
    and c: "contents st i = m i" using rep i by (simp_all add: represents_def)
  have il: "i < length (itrie_array st)" using used_in [OF l] i(1) by blast
  obtain ty where tid: "SPLIT_TRIE_ID tid = (i, ty)" "ty = 0 \<or> ty = 1"
    using i(2,3) by (cases "SPLIT_TRIE_ID tid") (auto simp: less_2_cases_iff)
  then obtain cps where cps: "trie_truncate [] tid st = private_trie_truncate [] i cps st"
    by (auto simp: trie_truncate_def)
  have x: "te_root (itrie_array st ! i) = root_at st i" using root_at_used [OF l i(1)] by simp
  show ?thesis
  proof (cases "root_at st i")
    case None
    then have "m i = {}" using c by (simp add: contents_def words_at_def)
    then have "m(i := {}) = m" by (rule fun_upd_idem)
    moreover have "private_trie_truncate [] i cps st = Some (Inr st)"
      using x None by (simp add: private_trie_truncate_def entry_in [OF il])
    ultimately show ?thesis using rep cps by simp
  next
    case (Some r)
    have tr: "trie_at (trie_nodes st) r 1" "store_ok (trie_nodes st)" using t Some by (simp_all add: tries_ok_def)
    have own: "\<forall>j. root_at st j = Some r \<longrightarrow> j = i" using t Some unfolding tries_ok_def by metis
    from delete_trie_frame [OF tr(2,1)] obtain s' where d: "delete_trie r (trie_nodes st) = Some (Inr s')" "store_ok s'"
      "elsewhere r (trie_nodes st) s'" by blast
    let ?st = "upd_entry i (\<lambda>e. e\<lparr>te_root := None\<rparr>) (st\<lparr>trie_nodes := s', current_num_trievars := sz\<rparr>)"
    have "private_trie_truncate [] i cps st = Some (Inr ?st)"
      using x Some d(1) unfolding keep_vars [OF z, of s', symmetric] by (simp add: private_trie_truncate_def entry_in [OF il])
    moreover have "represents sz ?st (free, used, m(i := words_at s' None))"
      by (rule represents_update [OF rep i(1) refl d(2,3) _ own]) simp
    ultimately show ?thesis using cps by (simp add: words_at_def)
  qed
qed

lemma drop_law:
  assumes rep: "represents sz st (free, used, m)" and i: "i \<in> set used" "fst (SPLIT_TRIE_ID tid) = i" "snd (SPLIT_TRIE_ID tid) < 2"
  shows "\<exists>st'. trie_drop [] tid st = Some (Inr st') \<and> represents sz st' (i # free, remove1 i used, m)"
proof -
  from truncate_law [OF assms] obtain st1 where st1: "trie_truncate [] tid st = Some (Inr st1)"
    "represents sz st1 (free, used, m(i := {}))" by blast
  then have l: "handle_lists st1 free used" and t: "tries_ok st1" and z: "current_num_trievars st1 = sz"
    and n: "length (itrie_array st1) \<le> 2 ^ 20" and c: "\<And>j. j \<in> set used \<Longrightarrow> contents st1 j = (m(i := {})) j"
    by (simp_all add: represents_def)
  from drop_entry [OF l i(1)] obtain st2 where st2: "private_trie_drop i st1 = Inr st2"
    "handle_lists st2 (i # free) (remove1 i used)" "length (itrie_array st2) = length (itrie_array st1)"
    "\<forall>j < length (itrie_array st1). te_root (itrie_array st2 ! j) = te_root (itrie_array st1 ! j)"
    "trie_nodes st2 = trie_nodes st1" "current_num_trievars st2 = current_num_trievars st1" by blast
  obtain ty where tid: "SPLIT_TRIE_ID tid = (i, ty)" "PRIVATE_TRIE ty"
    using i(2,3) by (cases "SPLIT_TRIE_ID tid") (auto simp: PRIVATE_TRIE_def less_2_cases_iff)
  have run: "trie_drop [] tid st = Some (Inr st2)" using st1(1) st2(1) tid by (simp add: trie_drop_def)
  have du: "distinct used" using l by (simp add: handle_lists_def)
  have valid: "te_valid (itrie_array st1 ! j) \<longleftrightarrow> j \<in> set used" "te_valid (itrie_array st2 ! j) \<longleftrightarrow> j \<in> set used \<and> j \<noteq> i"
    if "j < length (itrie_array st1)" for j
  proof -
    have "te_valid (itrie_array st2 ! j) \<longleftrightarrow> j \<in> set (remove1 i used)"
      using st2(2,3) that unfolding handle_lists_def by metis
    then show "te_valid (itrie_array st2 ! j) \<longleftrightarrow> j \<in> set used \<and> j \<noteq> i" using du by auto
    show "te_valid (itrie_array st1 ! j) \<longleftrightarrow> j \<in> set used" using l that unfolding handle_lists_def by blast
  qed
  have root: "root_at st2 = (root_at st1)(i := None)"
  proof
    fix j show "root_at st2 j = ((root_at st1)(i := None)) j"
    proof (cases "j < length (itrie_array st1)")
      case True
      then have "te_root (itrie_array st2 ! j) = te_root (itrie_array st1 ! j)" using st2(4) by blast
      then show ?thesis using True valid [OF True] by (simp add: root_at_def st2(3))
    qed (simp add: root_at_def st2(3))
  qed
  have own: "\<forall>j. root_at st1 j = Some (length (trie_nodes st1)) \<longrightarrow> j = i" using root_at_old [OF t] by fastforce
  have so: "store_ok (trie_nodes st2)" using t st2(5) by (simp add: tries_ok_def)
  have el: "elsewhere (length (trie_nodes st1)) (trie_nodes st1) (trie_nodes st2)" by (simp add: st2(5))
  note u = tries_update [OF t so el root disjI1 [OF refl] own]
  have "contents st2 j = m j" if "j \<in> set (remove1 i used)" for j
  proof -
    have "j \<in> set used" "j \<noteq> i" using that du by simp_all
    then show ?thesis using c [of j] unfolding u(2) by simp
  qed
  then have "represents sz st2 (i # free, remove1 i used, m)" using st2(2,3,6) u(1) z n by (simp add: represents_def)
  then show ?thesis using run by blast
qed

section \<open>All of them\<close>

text \<open>
  The operations with what they are given and what they return: \<open>newtrie\<close> with the handle it
  gives out, interning with its flag, uninterning with the word of the leaf. A handle is the
  number with the type in its upper bits, and each operation gets the handle that
  \<open>newtrie\<close> has returned.
\<close>

datatype trie_op =
    New_Trie "32 word" "32 word"
  | Intern "32 word" tterm bool
  | Unintern "32 word" "tsym list"
  | Truncate "32 word"
  | Drop "32 word"

abbreviation trie_index :: "32 word \<Rightarrow> nat" where "trie_index tid \<equiv> fst (SPLIT_TRIE_ID tid)"

text \<open>
  The machine that the table implements: the free entries, the handles in use and a map from handles to
  sets of words. Truncating or dropping a trie that is neither of the type prge nor pras does
  nothing in the sequential build.
\<close>

type_synonym handle_map = "nat list \<times> 32 word list \<times> (32 word \<Rightarrow> tsym list set)"

abbreviation private_handle :: "32 word \<Rightarrow> bool" where "private_handle tid \<equiv> snd (SPLIT_TRIE_ID tid) < 2"

fun op_effect :: "nat \<Rightarrow> handle_map \<Rightarrow> trie_op \<Rightarrow> handle_map" where
  "op_effect sz (free, tids, m) (New_Trie props tid) = (tl free, tid # tids, m(tid := {}))"
| "op_effect sz (free, tids, m) (Intern tid t found) = (free, tids, m(tid := insert (word_of sz [t]) (m tid)))"
| "op_effect sz (free, tids, m) (Unintern tid w) = (free, tids, m(tid := m tid - {w}))"
| "op_effect sz (free, tids, m) (Truncate tid) = (free, tids, if private_handle tid then m(tid := {}) else m)"
| "op_effect sz (free, tids, m) (Drop tid) =
    (if private_handle tid then (trie_index tid # free, remove1 tid tids, m) else (free, tids, m))"

fun op_legal :: "nat \<times> nat \<Rightarrow> nat \<Rightarrow> handle_map \<Rightarrow> trie_op \<Rightarrow> bool" where
  "op_legal flags sz (free, tids, m) (New_Trie props tid) =
    (free \<noteq> [] \<and> tid = SET_TRIE_ID (hd free) (TRIE_TYPE props))"
| "op_legal flags sz (free, tids, m) (Intern tid t found) =
    (tid \<in> set tids \<and> term_fits flags sz t \<and> found = (word_of sz [t] \<in> m tid))"
| "op_legal flags sz (free, tids, m) (Unintern tid w) = (tid \<in> set tids \<and> w \<in> m tid)"
| "op_legal flags sz (free, tids, m) (Truncate tid) = (tid \<in> set tids)"
| "op_legal flags sz (free, tids, m) (Drop tid) = (tid \<in> set tids)"

text \<open>
  The steps of the code, where no goal is running through a trie (there are no choice points into tries) and tables may
  grow. A word is uninterned at its leaf.
\<close>

inductive trie_step :: "nat \<times> nat \<Rightarrow> nat \<times> nat \<Rightarrow> trie_table \<Rightarrow> trie_op \<Rightarrow> trie_table \<Rightarrow> bool" for psc flags where
  step_new: "new_private_trie props st = Inr (tid, st') \<Longrightarrow> trie_step psc flags st (New_Trie props tid) st'"
| step_intern: "private_trie_intern psc flags [] tid t CPS_CHECK e st = Inr ((lf, flg), st') \<Longrightarrow>
    trie_step psc flags st (Intern tid t (flg \<noteq> 0)) st'"
| step_unintern: "private_trie_unintern [] tid n d st = Inr st' \<Longrightarrow> root_at st (trie_index tid) = Some r \<Longrightarrow>
    leaf_at (trie_nodes st) r w n \<Longrightarrow> trie_step psc flags st (Unintern tid w) st'"
| step_truncate: "trie_truncate [] tid st = Some (Inr st') \<Longrightarrow> trie_step psc flags st (Truncate tid) st'"
| step_drop: "trie_drop [] tid st = Some (Inr st') \<Longrightarrow> trie_step psc flags st (Drop tid) st'"

inductive_cases step_newE: "trie_step psc flags st (New_Trie props tid) st'"
inductive_cases step_uninternE: "trie_step psc flags st (Unintern tid w) st'"
inductive_cases step_truncateE: "trie_step psc flags st (Truncate tid) st'"
inductive_cases step_dropE: "trie_step psc flags st (Drop tid) st'"

definition implements :: "nat \<Rightarrow> trie_table \<Rightarrow> handle_map \<Rightarrow> bool" where
  "implements sz st = (\<lambda>(free, tids, m). represents sz st (free, map trie_index tids, contents st) \<and>
     (\<forall>tid \<in> set tids. contents st (trie_index tid) = m tid \<and> snd (SPLIT_TRIE_ID tid) < 16))"

lemma implementsI:
  assumes "represents sz st (free, map trie_index tids, m')"
    "\<And>tid. tid \<in> set tids \<Longrightarrow> m' (trie_index tid) = m tid \<and> snd (SPLIT_TRIE_ID tid) < 16"
  shows "implements sz st (free, tids, m)"
  using assms by (simp add: implements_def represents_def)

lemma implements_index:
  assumes "implements sz st (free, tids, m)"
  shows "distinct (map trie_index tids)" "length (itrie_array st) \<le> 2 ^ 20"
    "\<And>tid. tid \<in> set tids \<Longrightarrow> trie_index tid < length (itrie_array st)"
    "\<And>i. i \<in> set free \<Longrightarrow> i < length (itrie_array st) \<and> i \<notin> trie_index ` set tids"
    "\<And>tid1 tid2. tid1 \<in> set tids \<Longrightarrow> tid2 \<in> set tids \<Longrightarrow> trie_index tid1 = trie_index tid2 \<longleftrightarrow> tid1 = tid2"
proof -
  have l: "handle_lists st free (map trie_index tids)" and n: "length (itrie_array st) \<le> 2 ^ 20"
    using assms by (simp_all add: implements_def represents_def)
  show d: "distinct (map trie_index tids)" using l by (simp add: handle_lists_def)
  show "length (itrie_array st) \<le> 2 ^ 20" by (rule n)
  show "trie_index tid < length (itrie_array st)" if "tid \<in> set tids" for tid
    using used_in [OF l, of "trie_index tid"] that by simp
  show "i < length (itrie_array st) \<and> i \<notin> trie_index ` set tids" if "i \<in> set free" for i
    using used_in [OF l, of i] that l by (auto simp: handle_lists_def)
  show "trie_index tid1 = trie_index tid2 \<longleftrightarrow> tid1 = tid2" if "tid1 \<in> set tids" "tid2 \<in> set tids" for tid1 tid2
    using d that by (auto simp: distinct_map dest: inj_onD)
qed

lemma implements_change:
  assumes "implements sz st (free, tids, m)" "tid \<in> set tids"
    "represents sz st' (free, map trie_index tids, (contents st)(trie_index tid := W))"
  shows "implements sz st' (free, tids, m(tid := W))"
  using assms implements_index(5) [OF assms(1)]
  by (intro implementsI [OF assms(3)]) (auto simp: implements_def)

lemma new_handle:
  assumes "new_private_trie props st = Inr (tid, st')"
  shows "\<exists>i. itrie_array_first_free st = Some i \<and> tid = SET_TRIE_ID i (TRIE_TYPE props)"
  using assms by (auto simp: new_private_trie_def Let_def split: option.splits)

lemma nat_low_bits: "n < 16 \<Longrightarrow> n AND 0xf = (n :: nat)"
  using take_bit_eq_mask [of 4 n] by (simp add: take_bit_nat_eq_self mask_eq_exp_minus_1)

text \<open>What each operation returns and leaves, in one place.\<close>

lemma handle_step:
  assumes im: "implements sz st (free, tids, m)" and legal: "op_legal flags sz (free, tids, m) l"
  shows "\<exists>st'. trie_step psc flags st l st'" (is ?progress)
    "\<And>st'. trie_step psc flags st l st' \<Longrightarrow> implements sz st' (op_effect sz (free, tids, m) l)"
proof -
  have rep: "represents sz st (free, map trie_index tids, contents st)"
    and c: "\<And>tid. tid \<in> set tids \<Longrightarrow> contents st (trie_index tid) = m tid \<and> snd (SPLIT_TRIE_ID tid) < 16"
    using im by (simp_all add: implements_def)
  note ix = implements_index [OF im]
  have "?progress \<and> (\<forall>st'. trie_step psc flags st l st' \<longrightarrow> implements sz st' (op_effect sz (free, tids, m) l))"
  proof (cases l)
    case (New_Trie props tid)
    then obtain i fs where free: "free = i # fs" and tid: "tid = SET_TRIE_ID i (TRIE_TYPE props)"
      using legal by (cases free) simp_all
    from new_law [OF rep [unfolded free], of props] obtain tid' st' where n:
      "new_private_trie props st = Inr (tid', st')" "SPLIT_TRIE_ID tid' = (i, TRIE_TYPE props)"
      "represents sz st' (fs, i # map trie_index tids, (contents st)(i := {}))" by blast
    have "itrie_array_first_free st = Some i" using rep by (simp add: free represents_def handle_lists_def)
    then have "tid' = tid" using new_handle [OF n(1)] tid by simp
    have "i \<notin> trie_index ` set tids" using ix(4) [of i] free by simp
    then have "implements sz st' (fs, tid # tids, m(tid := {}))"
      using n(2) c \<open>tid' = tid\<close> TRIE_TYPE_less by (intro implementsI [of _ _ _ _ "(contents st)(i := {})"]) (use n(3) in auto)
    then show ?thesis using n(1) \<open>tid' = tid\<close> unfolding New_Trie
      by (auto simp: free intro: step_new elim: step_newE)
  next
    case (Intern tid t found)
    then have i: "tid \<in> set tids" "term_fits flags sz t" "found = (word_of sz [t] \<in> m tid)" using legal by simp_all
    have law: "\<exists>r st'. private_trie_intern psc flags [] tid t CPS_CHECK e st = Inr (r, st') \<and>
      implements sz st' (free, tids, m(tid := insert (word_of sz [t]) (m tid))) \<and> snd r = (if found then 1 else 0)" for e
      using intern_law [OF rep _ refl i(2), of tid psc e] implements_change [OF im i(1)] i(1,3) c [OF i(1)] by fastforce
    from law [of 0] have ?progress unfolding Intern using step_intern [of psc flags tid t 0 st _ _ _]
      by (auto split: if_splits)
    moreover have "implements sz st' (op_effect sz (free, tids, m) l)" if "trie_step psc flags st l st'" for st'
    proof -
      from that [unfolded Intern] obtain e lf flg where
        "private_trie_intern psc flags [] tid t CPS_CHECK e st = Inr ((lf, flg), st')"
        by cases (auto simp del: One_nat_def)
      with law [of e] show ?thesis by (simp add: Intern del: One_nat_def)
    qed
    ultimately show ?thesis by blast
  next
    case (Unintern tid w)
    then have i: "tid \<in> set tids" "w \<in> contents st (trie_index tid)" using legal c by simp_all
    then obtain r n where r: "root_at st (trie_index tid) = Some r" "leaf_at (trie_nodes st) r w n"
      by (auto simp: contents_def words_at_def words_def split: option.splits)
    have law: "\<exists>st'. private_trie_unintern [] tid n d st = Inr st' \<and> implements sz st' (free, tids, m(tid := m tid - {w}))"
      if "root_at st (trie_index tid) = Some r" "leaf_at (trie_nodes st) r w n" for n d r
      using unintern_law [OF rep _ refl that, of d] implements_change [OF im i(1)] i(1) c [OF i(1)] by fastforce
    from law [OF r, of 0] r have ?progress unfolding Unintern by (blast intro: step_unintern)
    moreover have "implements sz st' (op_effect sz (free, tids, m) l)" if "trie_step psc flags st l st'" for st'
    proof -
      from that [unfolded Unintern] obtain n d r where
        "private_trie_unintern [] tid n d st = Inr st'" "root_at st (trie_index tid) = Some r" "leaf_at (trie_nodes st) r w n"
        by (rule step_uninternE)
      with law [of r n d] show ?thesis by (auto simp: Unintern)
    qed
    ultimately show ?thesis by blast
  next
    case (Truncate tid)
    then have i: "tid \<in> set tids" using legal by simp
    have "\<exists>st'. trie_truncate [] tid st = Some (Inr st') \<and> implements sz st' (op_effect sz (free, tids, m) l)"
    proof (cases "private_handle tid")
      case True
      then show ?thesis
        using truncate_law [OF rep _ refl True] implements_change [OF im i] i unfolding Truncate by fastforce
    next
      case False
      then have "trie_truncate [] tid st = Some (Inr st)"
        by (cases "SPLIT_TRIE_ID tid") (simp add: trie_truncate_def)
      then show ?thesis using im False unfolding Truncate by simp
    qed
    then show ?thesis unfolding Truncate by (fastforce intro: step_truncate elim: step_truncateE)
  next
    case (Drop tid)
    then have i: "tid \<in> set tids" using legal by simp
    have "\<exists>st'. trie_drop [] tid st = Some (Inr st') \<and> implements sz st' (op_effect sz (free, tids, m) l)"
    proof (cases "private_handle tid")
      case True
      have "remove1 (trie_index tid) (map trie_index tids) = map trie_index (remove1 tid tids)"
        using ix(5) i by (induction tids) (auto simp: image_iff)
      with drop_law [OF rep _ refl True] i obtain st' where d: "trie_drop [] tid st = Some (Inr st')"
        "represents sz st' (trie_index tid # free, map trie_index (remove1 tid tids), contents st)" by auto
      have "set (remove1 tid tids) \<subseteq> set tids" by (rule set_remove1_subset)
      then have "implements sz st' (trie_index tid # free, remove1 tid tids, m)"
        using c by (intro implementsI [OF d(2)]) blast
      then show ?thesis using d(1) True unfolding Drop by simp
    next
      case False
      moreover have "snd (SPLIT_TRIE_ID tid) AND 0xf = snd (SPLIT_TRIE_ID tid)"
        using c [OF i] by (simp add: nat_low_bits)
      ultimately have "trie_truncate [] tid st = Some (Inr st)" "\<not> PRIVATE_TRIE (snd (SPLIT_TRIE_ID tid))"
        by (cases "SPLIT_TRIE_ID tid", simp_all add: trie_truncate_def PRIVATE_TRIE_def)+
      then have "trie_drop [] tid st = Some (Inr st)"
        by (cases "SPLIT_TRIE_ID tid") (simp add: trie_drop_def)
      then show ?thesis using im False unfolding Drop by simp
    qed
    then show ?thesis unfolding Drop by (fastforce intro: step_drop elim: step_dropE)
  qed
  then show ?progress "\<And>st'. trie_step psc flags st l st' \<Longrightarrow> implements sz st' (op_effect sz (free, tids, m) l)"
    by blast+
qed

interpretation handles: simulation "trie_step psc flags" "implements sz" "op_legal flags sz" "op_effect sz" for psc flags sz
proof
  fix st a l st'
  assume "implements sz st a" "op_legal flags sz a l" "trie_step psc flags st l st'"
  then show "implements sz st' (op_effect sz a l)" by (cases a) (metis handle_step(2))
next
  fix st a l
  assume "implements sz st a" "op_legal flags sz a l"
  then show "\<exists>st'. trie_step psc flags st l st'" by (cases a) (metis handle_step(1))
qed

text \<open>A table that has just been allocated, in a store without tries.\<close>

lemma fresh_table:
  assumes "0 < k" "k < 2 ^ 20" "trie_nodes st = []" "current_num_trievars st = sz"
  shows "represents sz (init_private_trie_table k st) ([1..<Suc k], [], m)"
proof -
  let ?st = "init_private_trie_table k st"
  have "root_at ?st i = None" for i by (auto simp: root_at_def init_private_trie_table_def nth_append)
  moreover have "trie_nodes ?st = []" "current_num_trievars ?st = sz" "length (itrie_array ?st) = Suc k"
    using assms by (simp_all add: init_private_trie_table_def)
  ultimately show ?thesis using init_lists [OF assms(1), of st] assms(2) store_ok_empty
    by (simp add: represents_def tries_ok_def)
qed

lemma fresh_implements:
  assumes "0 < k" "k < 2 ^ 20" "trie_nodes st = []" "current_num_trievars st = sz"
  shows "implements sz (init_private_trie_table k st) ([1..<Suc k], [], m)"
  by (rule implementsI) (use fresh_table [OF assms] in simp_all)

end
