(* ===== verification/Trie_Garbage.thy ===== *)
theory Trie_Garbage imports Trie_Handle_Laws begin

text \<open>
  The garbage lists of the table of tries: a leaf that is disposed of is marked and put on the list of its trie, from
  which it can be taken back while it is the first one; the reclamation frees the marked leaves of a list.
\<close>

section \<open>The lists\<close>

definition garbage_of :: "garbage_root list \<Rightarrow> nat \<Rightarrow> nat list" where
  "garbage_of l i = (case find (\<lambda>p. igr_root p = i) l of None \<Rightarrow> [] | Some p \<Rightarrow> igr_leaves p)"

lemma garbage_of_simps [simp]:
  "garbage_of [] i = []"
  "garbage_of (p # l) i = (if igr_root p = i then igr_leaves p else garbage_of l i)"
  by (simp_all add: garbage_of_def)

lemma getIGRnode_law:
  "getIGRnode i l = (r, l') \<Longrightarrow> igr_root r = i \<and> igr_leaves r = garbage_of l i \<and> garbage_of l' j = garbage_of l j \<and>
    i \<in> igr_root ` set l'"
proof -
  assume g: "getIGRnode i l = (r, l')"
  show ?thesis
  proof (cases "find (\<lambda>p. igr_root p = i) l")
    case None
    then have "garbage_of l i = []" by (simp add: garbage_of_def)
    moreover have "r = newIGR i" "l' = newIGR i # l" using g None by (auto simp: getIGRnode_def)
    ultimately show ?thesis by (auto simp: newIGR_def)
  next
    case (Some p)
    then have "igr_root p = i" "p \<in> set l" by (auto simp: find_Some_iff)
    moreover have "garbage_of l i = igr_leaves p" by (simp add: garbage_of_def Some)
    moreover have "r = p" "l' = l" using g Some by (auto simp: getIGRnode_def)
    ultimately show ?thesis by auto
  qed
qed

lemma set_leaves_law: "i \<in> igr_root ` set l \<Longrightarrow> garbage_of (set_leaves i ls l) j = (if j = i then ls else garbage_of l j)"
  by (induction l) auto

lemma remove_IGR_law:
  "distinct (map igr_root l) \<Longrightarrow> getAndRemoveIGRnode i l = (r, l') \<Longrightarrow>
    (case r of None \<Rightarrow> l' = l | Some p \<Rightarrow> igr_leaves p = garbage_of l i) \<and> distinct (map igr_root l') \<and>
    garbage_of l' j = (if j = i then [] else garbage_of l j) \<and> (r = None \<longrightarrow> garbage_of l i = []) \<and>
    i \<notin> igr_root ` set l' \<and> igr_root ` set l' \<subseteq> igr_root ` set l"
proof (induction l arbitrary: r l')
  case (Cons p l)
  obtain r1 l1 where g: "getAndRemoveIGRnode i l = (r1, l1)" by fastforce
  have no: "garbage_of l i = []" if "i \<notin> igr_root ` set l" using that by (induction l) auto
  show ?case
  proof (cases "igr_root p = i")
    case True
    then show ?thesis using Cons.prems no by auto
  next
    case False
    have d: "distinct (map igr_root l)" "igr_root p \<notin> igr_root ` set l" using Cons.prems(1) by simp_all
    note ih = Cons.IH [OF d(1) g]
    have "igr_root p \<notin> igr_root ` set l1" using ih d(2) by blast
    moreover have "r = r1" "l' = p # l1" using Cons.prems(2) False by (simp_all add: g)
    ultimately show ?thesis using ih False by (cases r1) auto
  qed
qed simp

lemma set_leaves_twice: "set_leaves i ls (set_leaves i ms l) = set_leaves i ls l"
  by (induction l) simp_all

lemma set_leaves_same: "find (\<lambda>p. igr_root p = i) l = Some p \<Longrightarrow> set_leaves i (igr_leaves p) l = l"
  by (induction l) (auto split: if_splits)

lemma roots_set_leaves [simp]: "map igr_root (set_leaves i ls l) = map igr_root l"
  by (induction l) simp_all

section \<open>Marking and taking back\<close>

lemma entry_nodes [simp]: "entry i (st\<lparr>trie_nodes := s\<rparr>) = entry i st" "entry i (st\<lparr>IGRhead := l\<rparr>) = entry i st"
  by (simp_all add: entry_def)

text \<open>What a table stands for does not depend on its garbage.\<close>

lemma represents_garbage [simp]: "represents sz (st\<lparr>IGRhead := l\<rparr>) a = represents sz st a"
proof -
  have "root_at (st\<lparr>IGRhead := l\<rparr>) = root_at st" by (simp add: root_at_def fun_eq_iff)
  then show ?thesis by (cases a) (simp add: represents_def handle_lists_def tries_ok_def contents_def)
qed

lemma represents_mark:
  assumes rep: "represents sz st (free, used, m)" and i: "i \<in> set used" and r: "root_at st i = Some r"
    and so: "store_ok s" and el: "elsewhere r (trie_nodes st) s" and t: "trie_at s r 1"
  shows "represents sz (st\<lparr>trie_nodes := s\<rparr>) (free, used, m(i := words s r))"
proof -
  have l: "handle_lists st free used" and tr: "tries_ok st" and z: "current_num_trievars st = sz"
    using rep by (simp_all add: represents_def)
  have own: "\<forall>j. root_at st j = Some r \<longrightarrow> j = i" using tr r unfolding tries_ok_def by metis
  have x: "te_root (itrie_array st ! i) = Some r" using root_at_used [OF l i] r by simp
  have same: "st\<lparr>trie_nodes := s\<rparr> = upd_entry i (\<lambda>e. e\<lparr>te_root := Some r\<rparr>) (st\<lparr>trie_nodes := s, current_num_trievars := sz\<rparr>)"
    (is "_ = ?st")
  proof -
    have e: "(itrie_array st ! i)\<lparr>te_root := Some r\<rparr> = itrie_array st ! i" using x by (cases "itrie_array st ! i") simp
    show ?thesis unfolding keep_vars [OF z, symmetric] upd_entry_def by (simp add: e)
  qed
  have "represents sz ?st (free, used, m(i := words_at s (Some r)))"
    by (rule represents_update [OF rep i refl so el _ own]) (simp add: t del: One_nat_def)
  then show ?thesis by (subst same) (simp add: words_at_def)
qed

lemma dispose_law:
  assumes rep: "represents sz st (free, used, m)" and i: "i \<in> set used" and r: "root_at st i = Some r"
    and n: "leaf_at (trie_nodes st) r w n" and c: "\<And>b. deref (trie_nodes st) n = Inr b \<Longrightarrow> bt_instr b \<noteq> 0"
    and d: "distinct (map igr_root (IGRhead st))"
  shows "\<exists>st'. trie_dispose_nr i n st = Inr st' \<and> represents sz st' (free, used, m(i := m i - {w})) \<and>
    root_at st' = root_at st \<and> (\<forall>v x. leaf_at (trie_nodes st') r v x \<longleftrightarrow> leaf_at (trie_nodes st) r v x) \<and>
    garbage_of (IGRhead st') i = n # garbage_of (IGRhead st) i \<and> (\<forall>j. j \<noteq> i \<longrightarrow> garbage_of (IGRhead st') j = garbage_of (IGRhead st) j) \<and>
    distinct (map igr_root (IGRhead st')) \<and> safe_delete_branch n (trie_nodes st) = Inr (trie_nodes st')"
proof -
  have t: "tries_ok st" and mi: "contents st i = m i" using rep i by (simp_all add: represents_def)
  have tr: "trie_at (trie_nodes st) r 1" "store_ok (trie_nodes st)" using t r by (simp_all add: tries_ok_def)
  from safe_delete_frame [OF tr(2,1) n c] obtain s where s: "safe_delete_branch n (trie_nodes st) = Inr s" "store_ok s"
    "elsewhere r (trie_nodes st) s" "trie_at s r 1" "\<forall>v m. leaf_at s r v m \<longleftrightarrow> leaf_at (trie_nodes st) r v m"
    "words s r = words (trie_nodes st) r - {w}" by blast
  obtain p l where g: "getIGRnode i (IGRhead st) = (p, l)" by fastforce
  note gl = getIGRnode_law [OF g]
  let ?l = "insertLeaf p n l"
  let ?st = "(st\<lparr>trie_nodes := s\<rparr>)\<lparr>IGRhead := ?l\<rparr>"
  have run: "trie_dispose_nr i n st = Inr ?st" using s(1) by (simp add: trie_dispose_nr_def g)
  have "represents sz (st\<lparr>trie_nodes := s\<rparr>) (free, used, m(i := words s r))" by (rule represents_mark [OF rep i r s(2,3,4)])
  moreover have "words s r = m i - {w}" using s(6) mi r by (simp add: contents_def words_at_def)
  ultimately have rep': "represents sz ?st (free, used, m(i := m i - {w}))" by (simp only: represents_garbage)
  have "map igr_root l = map igr_root (IGRhead st) \<or> map igr_root l = i # map igr_root (IGRhead st) \<and> i \<notin> igr_root ` set (IGRhead st)"
    using g by (auto simp: getIGRnode_def newIGR_def find_None_iff split: option.splits)
  then have "distinct (map igr_root ?l)" using d by (auto simp: insertLeaf_def)
  moreover have "garbage_of ?l j = (if j = i then n # garbage_of (IGRhead st) i else garbage_of (IGRhead st) j)" for j
    using gl [of j] set_leaves_law [of i l "n # igr_leaves p" j] by (simp add: insertLeaf_def)
  moreover have "root_at ?st = root_at st" by (simp add: root_at_def fun_eq_iff)
  ultimately show ?thesis using run rep' s(1,5) by auto
qed

text \<open>A leaf that was disposed of last can be taken back, and everything is as before.\<close>

lemma undispose_law:
  assumes rep: "represents sz st (free, used, m)" and i: "i \<in> set used" and r: "root_at st i = Some r"
    and n: "leaf_at (trie_nodes st) r w n" "w \<in> m i" and c: "\<And>b. deref (trie_nodes st) n = Inr b \<Longrightarrow> bt_instr b \<noteq> 0"
    and ne: "\<forall>p \<in> set (IGRhead st). igr_leaves p \<noteq> []"
    and undo: "\<And>s. safe_delete_branch n (trie_nodes st) = Inr s \<Longrightarrow> undelete_branch n s = Inr (trie_nodes st)"
    and run: "trie_dispose_nr i n st = Inr st'"
  shows "trie_undispose i n st' = Inr st"
proof -
  obtain p l where g: "getIGRnode i (IGRhead st) = (p, l)" by fastforce
  obtain s where s: "safe_delete_branch n (trie_nodes st) = Inr s" "st' = st\<lparr>IGRhead := insertLeaf p n l, trie_nodes := s\<rparr>"
    using run by (auto simp: trie_dispose_nr_def g)
  have u: "undelete_branch n s = Inr (trie_nodes st)" by (rule undo [OF s(1)])
  show ?thesis
  proof (cases "find (\<lambda>p. igr_root p = i) (IGRhead st)")
    case None
    then have "p = newIGR i" "l = newIGR i # IGRhead st" using g by (auto simp: getIGRnode_def)
    then have "IGRhead st' = \<lparr>igr_root = i, igr_leaves = [n]\<rparr> # IGRhead st" by (simp add: s(2) insertLeaf_def newIGR_def)
    then show ?thesis using u by (simp add: trie_undispose_def getIGRnode_def s(2))
  next
    case (Some q)
    then have pl: "p = q" "l = IGRhead st" using g by (simp_all add: getIGRnode_def)
    have q: "igr_root q = i" "q \<in> set (IGRhead st)" using Some by (auto simp: find_Some_iff)
    then have qn: "igr_leaves q \<noteq> []" using ne by simp
    have h: "IGRhead st' = set_leaves i (n # igr_leaves q) (IGRhead st)" by (simp add: s(2) insertLeaf_def pl q(1))
    have f: "find (\<lambda>p. igr_root p = i) (set_leaves i ls l) = Some (q'\<lparr>igr_leaves := ls\<rparr>)"
      if "find (\<lambda>p. igr_root p = i) l = Some q'" for ls l q' using that by (induction l) (auto split: if_splits)
    have "set_leaves i (igr_leaves q) (set_leaves i (n # igr_leaves q) (IGRhead st)) = IGRhead st"
      by (simp add: set_leaves_twice set_leaves_same [OF Some])
    then show ?thesis using u h f [OF Some] qn by (simp add: trie_undispose_def getIGRnode_def s(2))
  qed
qed

section \<open>Reclaiming\<close>

lemma reclaim_loop:
  assumes "represents sz st (free, used, m)" "i \<in> set used" "distinct ls"
    "\<And>n. n \<in> set ls \<Longrightarrow> \<exists>w. leaf_at (trie_nodes st) r w n" "root_at st i = Some r \<or> ls = []"
  shows "\<exists>st'. reclaim_leaves i ls st = Inr st' \<and> represents sz st' (free, used, m) \<and> IGRhead st' = IGRhead st \<and>
    (\<forall>v x. leaf_at (trie_nodes st') r v x \<longleftrightarrow>
       leaf_at (trie_nodes st) r v x \<and> (x \<in> set ls \<longrightarrow> \<not> is_deleted_node (cores (trie_nodes st)) x))"
  using assms
proof (induction ls arbitrary: st)
  case (Cons n ls)
  from Cons.prems(5) have r: "root_at st i = Some r" by simp
  have l: "handle_lists st free used" and t: "tries_ok st" and z: "current_num_trievars st = sz"
    and c: "contents st i = m i" using Cons.prems(1,2) by (simp_all add: represents_def)
  have il: "i < length (itrie_array st)" using used_in [OF l] Cons.prems(2) by blast
  from Cons.prems(4) [of n] obtain w where w: "leaf_at (trie_nodes st) r w n" by auto
  from leaf_deref [OF w] obtain b where b: "deref (trie_nodes st) n = Inr b" by blast
  have tr: "trie_at (trie_nodes st) r 1" "store_ok (trie_nodes st)" using t r by (simp_all add: tries_ok_def)
  have dn: "is_deleted_node (cores (trie_nodes st)) n = IsDeletedNode b" by (simp add: is_deleted_node_def view_deref [OF b])
  have d: "distinct ls" "n \<notin> set ls" using Cons.prems(3) by simp_all
  show ?case
  proof (cases "IsDeletedNode b")
    case False
    have root: "root_at st i = Some r \<or> ls = []" using r by simp
    have lv: "\<exists>w. leaf_at (trie_nodes st) r w x" if "x \<in> set ls" for x using Cons.prems(4) that by simp
    from Cons.IH [OF Cons.prems(1,2) d(1) lv root] obtain st' where
      "reclaim_leaves i ls st = Inr st'" "represents sz st' (free, used, m)" "IGRhead st' = IGRhead st"
      "\<forall>v x. leaf_at (trie_nodes st') r v x \<longleftrightarrow>
         leaf_at (trie_nodes st) r v x \<and> (x \<in> set ls \<longrightarrow> \<not> is_deleted_node (cores (trie_nodes st)) x)" by blast
    then show ?thesis using b False dn by auto
  next
    case True
    have x: "te_root (itrie_array st ! i) = Some r" using root_at_used [OF l Cons.prems(2)] r by simp
    have own: "\<forall>j. root_at st j = Some r \<longrightarrow> j = i" using t r unfolding tries_ok_def by metis
    from delete_branch_frame [OF tr(2,1) w] obtain root' s' where e:
      "delete_branch Root_Var n (Some r, trie_nodes st) = Inr (root', s')" "store_ok s'" "elsewhere r (trie_nodes st) s'"
      "\<forall>v m. leaf_at s' r v m \<longleftrightarrow> leaf_at (trie_nodes st) r v m \<and> v \<noteq> w" "words s' r = words (trie_nodes st) r - {w}"
      "root' = Some r \<and> trie_at s' r 1 \<or> root' = None \<and> isl (deref s' r)"
      "\<forall>x. cores s' x = None \<or> cores s' x = cores (trie_nodes st) x" "deref s' n = Inl (Dangling_Pointer n)" by blast
    let ?st = "upd_entry i (\<lambda>e. e\<lparr>te_root := root'\<rparr>) (st\<lparr>trie_nodes := s', current_num_trievars := sz\<rparr>)"
    have step: "reclaim_leaves i (n # ls) st = reclaim_leaves i ls ?st"
      unfolding keep_vars [OF z, of s', symmetric] by (simp add: b True entry_in [OF il] x e(1) del: delete_branch.simps)
    have nw: "w \<notin> words (trie_nodes st) r"
    proof
      assume "w \<in> words (trie_nodes st) r"
      then obtain n' where "leaf_at (trie_nodes st) r w n'" "\<not> is_deleted_node (cores (trie_nodes st)) n'" by (auto simp: words_def)
      moreover have "n' = n" using leaf_at_unique calculation(1) w tr(2) by (auto simp: store_ok_def)
      ultimately show False using dn True by simp
    qed
    have leaf: "leaf_at s' r v y \<longleftrightarrow> leaf_at (trie_nodes st) r v y \<and> y \<noteq> n" for v y
    proof -
      have "y = n \<longleftrightarrow> v = w" if y: "leaf_at (trie_nodes st) r v y"
      proof
        assume "y = n"
        then have "at_path (cores (trie_nodes st)) r v n" "at_path (cores (trie_nodes st)) r w n"
          using y w by (simp_all add: leaf_at_def)
        then show "v = w" using at_path_word tr(2) unfolding store_ok_def trie_ok_def by blast
      next
        assume "v = w"
        then show "y = n" using y w leaf_at_unique tr(2) unfolding store_ok_def by blast
      qed
      then show ?thesis using e(4) by blast
    qed
    have "root' = None \<or> root' = Some r \<and> trie_at s' r 1" using e(6) by blast
    note rep' = represents_update [OF Cons.prems(1,2) refl e(2,3) this own]
    have none: "\<not> leaf_at s' r v y" if "root' = None" for v y
    proof -
      have "isl (deref s' r)" using e(6) that by simp
      then have "cores s' r = None" by (simp add: view_None isl_def)
      moreover have "trie_ok s'" using e(2) by (simp add: store_ok_def)
      ultimately have "parent_at (cores s') x \<noteq> Some r" for x unfolding trie_ok_def parents_ok_def by blast
      then have "at_path (cores s') r v x \<longleftrightarrow> v = [] \<and> x = r" for v x by (rule at_path_no_kids)
      then show ?thesis by (auto simp: leaf_at_def)
    qed
    have same: "words_at s' root' = m i"
    proof (cases root')
      case None
      then have "words s' r = {}" using none by (simp add: words_def)
      then show ?thesis using e(5) nw c r None by (simp add: contents_def words_at_def)
    next
      case (Some q)
      then show ?thesis using e(5,6) nw c r by (simp add: contents_def words_at_def)
    qed
    have rep2: "represents sz ?st (free, used, m)" using rep' unfolding same by simp
    have nodes: "trie_nodes ?st = s'" by simp
    have lv: "\<exists>w. leaf_at (trie_nodes ?st) r w x" if "x \<in> set ls" for x
      using Cons.prems(4) [of x] that d(2) leaf by auto
    have root: "root_at ?st i = Some r \<or> ls = []"
    proof (cases "root' = None")
      case True
      then have "ls = []" using lv none by (cases ls) auto
      then show ?thesis by simp
    next
      case False
      then have "root' = Some r" using e(6) by blast
      then show ?thesis using set_root(2) [OF l Cons.prems(2) refl, where x = "Some r" and s = s' and sz = sz] by simp
    qed
    from Cons.IH [OF rep2 Cons.prems(2) d(1) lv root] obtain st' where st':
      "reclaim_leaves i ls ?st = Inr st'" "represents sz st' (free, used, m)" "IGRhead st' = IGRhead ?st"
      "\<forall>v x. leaf_at (trie_nodes st') r v x \<longleftrightarrow> leaf_at s' r v x \<and> (x \<in> set ls \<longrightarrow> \<not> is_deleted_node (cores s') x)"
      unfolding nodes by blast
    have del: "is_deleted_node (cores s') x = is_deleted_node (cores (trie_nodes st)) x" if "leaf_at s' r v x" for v x
    proof -
      have "cores s' x \<noteq> None" using that by (auto simp: leaf_at_def is_leaf_node_def split: option.splits)
      then have "cores s' x = cores (trie_nodes st) x" using e(7) [rule_format, of x] by auto
      then show ?thesis by (simp add: is_deleted_node_def)
    qed
    have "leaf_at (trie_nodes st') r v x \<longleftrightarrow>
       leaf_at (trie_nodes st) r v x \<and> (x \<in> set (n # ls) \<longrightarrow> \<not> is_deleted_node (cores (trie_nodes st)) x)" for v x
      using st'(4) leaf del dn True by auto
    then show ?thesis using st'(1-3) unfolding step by auto
  qed
qed simp

lemma reclaim_law:
  assumes rep: "represents sz st (free, used, m)" and i: "i \<in> set used" and r: "root_at st i = Some r"
    and d: "distinct (map igr_root (IGRhead st))" "distinct (garbage_of (IGRhead st) i)"
    and lv: "\<And>n. n \<in> set (garbage_of (IGRhead st) i) \<Longrightarrow> \<exists>w. leaf_at (trie_nodes st) r w n"
  shows "\<exists>st'. reclaim_uninterned_nr i st = Inr st' \<and> represents sz st' (free, used, m) \<and>
    (\<forall>j. garbage_of (IGRhead st') j = (if j = i then [] else garbage_of (IGRhead st) j)) \<and>
    (\<forall>v x. leaf_at (trie_nodes st') r v x \<longleftrightarrow> leaf_at (trie_nodes st) r v x \<and>
       (x \<in> set (garbage_of (IGRhead st) i) \<longrightarrow> \<not> is_deleted_node (cores (trie_nodes st)) x))"
proof -
  obtain p l where g: "getAndRemoveIGRnode i (IGRhead st) = (p, l)" by fastforce
  note gl = remove_IGR_law [OF d(1) g]
  let ?ls = "garbage_of (IGRhead st) i" and ?st = "st\<lparr>IGRhead := l\<rparr>"
  have rep': "represents sz ?st (free, used, m)" using rep by (simp only: represents_garbage)
  have "root_at ?st = root_at st" by (simp add: root_at_def fun_eq_iff)
  then have root: "root_at ?st i = Some r \<or> ?ls = []" using r by simp
  have lv': "\<exists>w. leaf_at (trie_nodes ?st) r w n" if "n \<in> set ?ls" for n using lv [OF that] by simp
  from reclaim_loop [OF rep' i d(2) lv' root] obtain st' where st': "reclaim_leaves i ?ls ?st = Inr st'"
    "represents sz st' (free, used, m)" "IGRhead st' = l"
    "\<forall>v x. leaf_at (trie_nodes st') r v x \<longleftrightarrow>
       leaf_at (trie_nodes st) r v x \<and> (x \<in> set ?ls \<longrightarrow> \<not> is_deleted_node (cores (trie_nodes st)) x)" by auto
  have "reclaim_uninterned_nr i st = Inr st'"
  proof (cases p)
    case None
    then have "?ls = []" using gl by simp
    then show ?thesis using st'(1) None by (simp add: reclaim_uninterned_nr_def g)
  next
    case (Some q)
    then have "igr_leaves q = ?ls" using gl by simp
    then show ?thesis using st'(1) Some by (simp add: reclaim_uninterned_nr_def g)
  qed
  moreover have "garbage_of (IGRhead st') j = (if j = i then [] else garbage_of (IGRhead st) j)" for j
    using remove_IGR_law [OF d(1) g, of j] st'(3) by simp
  ultimately show ?thesis using st'(2,4) by blast
qed

text \<open>A leaf that is disposed of twice is on the list twice, and is freed the first time.\<close>

lemma disposed_twice_law:
  assumes rep: "represents sz st (free, used, m)" and i: "i \<in> set used" and r: "root_at st i = Some r"
    and n: "leaf_at (trie_nodes st) r w n" and c: "\<And>b. deref (trie_nodes st) n = Inr b \<Longrightarrow> bt_instr b \<noteq> 0"
    and d: "distinct (map igr_root (IGRhead st))" and g: "garbage_of (IGRhead st) i = []"
  shows "\<exists>st1 st2. trie_dispose_nr i n st = Inr st1 \<and> trie_dispose_nr i n st1 = Inr st2 \<and>
    reclaim_uninterned_nr i st2 = Inl (Dangling_Pointer n)"
proof -
  from dispose_law [OF rep i r n c d] obtain st1 where st1: "trie_dispose_nr i n st = Inr st1"
    "represents sz st1 (free, used, m(i := m i - {w}))" "root_at st1 i = Some r" "leaf_at (trie_nodes st1) r w n"
    "garbage_of (IGRhead st1) i = [n]" "distinct (map igr_root (IGRhead st1))"
    "safe_delete_branch n (trie_nodes st) = Inr (trie_nodes st1)" using n r g by auto
  have c1: "bt_instr b \<noteq> 0" if "deref (trie_nodes st1) n = Inr b" for b
  proof -
    from leaf_deref [OF n] obtain b0 where b0: "deref (trie_nodes st) n = Inr b0" by blast
    then have "trie_nodes st1 = upd_obj n failing (trie_nodes st)" using st1(7) by (simp add: safe_delete_branch_def)
    then show ?thesis using that b0 by (auto simp: deref_upd_obj failing_def)
  qed
  let ?m = "m(i := m i - {w})"
  from dispose_law [OF st1(2) i st1(3,4) c1 st1(6)] obtain st2 where st2: "trie_dispose_nr i n st1 = Inr st2"
    "represents sz st2 (free, used, ?m(i := ?m i - {w}))" "root_at st2 i = Some r" "leaf_at (trie_nodes st2) r w n"
    "garbage_of (IGRhead st2) i = [n, n]" "distinct (map igr_root (IGRhead st2))" using st1(3-5) by auto
  obtain p l where gr: "getAndRemoveIGRnode i (IGRhead st2) = (p, l)" by fastforce
  have "p \<noteq> None" using remove_IGR_law [OF st2(6) gr] st2(5) by auto
  then obtain q where p: "p = Some q" "igr_leaves q = [n, n]" using remove_IGR_law [OF st2(6) gr] st2(5) by auto
  have l: "handle_lists st2 free used" and t: "tries_ok st2" and z: "current_num_trievars st2 = sz"
    and cc: "contents st2 i = m i - {w}" using st2(2) i by (simp_all add: represents_def)
  have il: "i < length (itrie_array st2)" using used_in [OF l] i by blast
  have x: "te_root (itrie_array st2 ! i) = Some r" using root_at_used [OF l i] st2(3) by simp
  have tr: "trie_at (trie_nodes st2) r 1" "store_ok (trie_nodes st2)" using t st2(3) by (simp_all add: tries_ok_def)
  from leaf_deref [OF st2(4)] obtain b where b: "deref (trie_nodes st2) n = Inr b" by blast
  have "w \<notin> words (trie_nodes st2) r" using cc st2(3) by (simp add: contents_def words_at_def)
  then have "is_deleted_node (cores (trie_nodes st2)) n" using st2(4) by (auto simp: words_def)
  then have del: "IsDeletedNode b" by (simp add: is_deleted_node_def view_deref [OF b])
  from delete_branch_frame [OF tr(2,1) st2(4)] obtain root' s' where e:
    "delete_branch Root_Var n (Some r, trie_nodes st2) = Inr (root', s')" "deref s' n = Inl (Dangling_Pointer n)" by blast
  have "reclaim_uninterned_nr i st2 = Inl (Dangling_Pointer n)"
    by (simp add: reclaim_uninterned_nr_def gr p b del entry_in [OF il] x e del: delete_branch.simps)
  then show ?thesis using st1(1) st2(1) by blast
qed

end
