(* ===== verification/Handle_Properties.thy ===== *)
theory Handle_Properties imports Trie_Properties Trie_Garbage begin

text \<open>
  The properties of the table of tries, with witnesses on small tables.
\<close>

section \<open>Tables for the witnesses\<close>

definition empty_table :: trie_table where
  "empty_table = \<lparr>itrie_array = [], itrie_array_first_free = None, itrie_array_first_trie = None, IGRhead = [], trie_nodes = [],
     trie_calls = \<lparr>nodes = [], oes = [], current_call_node_count_gl = 0, current_call_edge_count_gl = 0\<rparr>,
     current_num_trievars = 512\<rparr>"

definition blank_entry :: trie_entry where
  "blank_entry = \<lparr>te_root = None, te_valid = False, te_type = 0, te_incremental = False, te_callnode = None, prev_entry = None,
     next_entry = None\<rparr>"

text \<open>A table with one entry, which is in use, for the trie of one word.\<close>

definition word_table :: trie_table where
  "word_table = empty_table\<lparr>itrie_array := [blank_entry, blank_entry\<lparr>te_valid := True, te_root := Some 0\<rparr>],
     itrie_array_first_trie := Some 1, trie_nodes := one_word_trie\<rparr>"

lemma one_word_store: "store_ok one_word_trie"
proof -
  have "\<exists>ns. bt_child b = Chain ns" if "deref one_word_trie n = Inr b" for n b
    using that by (auto simp: one_word_trie_def trie_eval some_term_def nth_Cons split: nat.splits if_splits)
  then have "tables_used one_word_trie" by (fastforce simp: tables_used_def view_Some)
  then show ?thesis using one_word_trie(1,4) by (simp add: store_ok_def trie_at_def)
qed

lemma word_table: "represents 512 word_table ([], [1], \<lambda>_. {some_word})" "root_at word_table 1 = Some 0"
  "leaf_at (trie_nodes word_table) 0 some_word 5" "deref (trie_nodes word_table) 5 = Inr b \<Longrightarrow> bt_instr b \<noteq> 0"
proof -
  have root: "root_at word_table i = (if i = 1 then Some 0 else None)" for i
    by (auto simp: root_at_def word_table_def blank_entry_def nth_Cons split: nat.splits)
  have nodes: "trie_nodes word_table = one_word_trie" by (simp add: word_table_def)
  have "handle_lists word_table [] [1]"
    by (auto simp: handle_lists_def word_table_def blank_entry_def empty_table_def nth_Cons split: nat.splits)
  moreover have "tries_ok word_table"
    using one_word_store one_word_trie(1) by (simp add: tries_ok_def root nodes del: One_nat_def split: if_splits)
  ultimately show "represents 512 word_table ([], [1], \<lambda>_. {some_word})"
    by (simp add: represents_def contents_def root nodes words_at_def one_word_trie(3) del: One_nat_def)
      (simp add: word_table_def empty_table_def)
  show "root_at word_table 1 = Some 0" by (simp add: root)
  show "leaf_at (trie_nodes word_table) 0 some_word 5" unfolding nodes by (rule one_word_trie(2))
  show "deref (trie_nodes word_table) 5 = Inr b \<Longrightarrow> bt_instr b \<noteq> 0"
    unfolding nodes by (auto simp: one_word_trie_def trie_eval some_term_def)
qed

section \<open>Handles\<close>

text \<open>
  C37: the table of tries does what a map from handles to sets of words does. From a new table, every sequence of
  operations, each with the handle that \<open>newtrie\<close> has returned and while it is in use, can be carried out without an error:
  \<open>newtrie\<close> returns the first free entry with the type in the upper bits, interning reports whether the word was there, and
  in the end the handles in use, their order, the words of each of them, and the entries that
  will be given out next are those of the map. Terms are not too large and have no more
  variables than the array holds; a trie of a type other than prge and pras stays as it is when it is truncated
  or dropped, and its handle in use.
\<close>

theorem trie_handles_refine:
  assumes "0 < k" "k < 2 ^ 20" "trie_nodes st0 = []" "current_num_trievars st0 = sz"
    and legal: "legal_run (op_legal flags sz) (op_effect sz) ([1..<Suc k], [], \<lambda>_. {}) ops"
  shows "(\<exists>st. runs (trie_step psc flags) (init_private_trie_table k st0) ops st) \<and>
    (\<forall>st. runs (trie_step psc flags) (init_private_trie_table k st0) ops st \<longrightarrow>
       implements sz st (foldl (op_effect sz) ([1..<Suc k], [], \<lambda>_. {}) ops))"
  by (rule handles.runs_all [OF fresh_implements [OF assms(1-4)] legal])

text \<open>The second trie is of the type shas: it is there after it has been dropped.\<close>

definition some_ops :: "trie_op list" where
  "some_ops = [New_Trie 0 1, New_Trie 0x12 0x200002, Intern 1 some_term False, Intern 0x200002 some_term False,
     Intern 1 some_term True, Drop 1, Drop 0x200002, New_Trie 0x11 0x100001]"

lemma trie_handles_refine_witness:
  "\<exists>st. runs (trie_step (800, 0) default_flags) (init_private_trie_table 2 empty_table) some_ops st \<and>
    contents st 1 = {} \<and> contents st 2 = {some_word}"
proof -
  have fits: "term_fits default_flags 512 some_term"
    using default_flags some_word by (simp add: term_fits_def)
  have ids: "SET_TRIE_ID 1 0 = 1" "SET_TRIE_ID 2 2 = 0x200002" "SET_TRIE_ID 1 1 = 0x100001"
    "TRIE_TYPE 0 = 0" "TRIE_TYPE 0x12 = 2" "TRIE_TYPE 0x11 = 1"
    "SPLIT_TRIE_ID 1 = (1, 0)" "SPLIT_TRIE_ID 0x200002 = (2, 2)" "SPLIT_TRIE_ID 0x100001 = (1, 1)" by code_simp+
  have legal: "legal_run (op_legal default_flags 512) (op_effect 512) ([1..<Suc 2], [], \<lambda>_. {}) some_ops"
    by (simp add: some_ops_def fits upt_rec ids numeral_2_eq_2 [symmetric] del: One_nat_def)
  have e: "trie_nodes empty_table = []" "current_num_trievars empty_table = 512" by (simp_all add: empty_table_def)
  from trie_handles_refine [OF _ _ e legal, of "(800, 0)"] obtain st where
    st: "runs (trie_step (800, 0) default_flags) (init_private_trie_table 2 empty_table) some_ops st"
    "implements 512 st (foldl (op_effect 512) ([1..<Suc 2], [], \<lambda>_. {}) some_ops)" by auto
  have "contents st 1 = {} \<and> contents st 2 = {some_word}"
    using st(2) by (simp add: some_ops_def implements_def some_word ids upt_rec numeral_2_eq_2 [symmetric] del: One_nat_def)
  then show ?thesis using st(1) by blast
qed

text \<open>
  C38: \<open>newtrie\<close> gives out a handle that is not in use, with the type that was asked for and an empty set of words, and
  fails with the resource error exactly when all the entries of the array (but the first) are in use.
\<close>

theorem newtrie_handles:
  assumes rep: "represents sz st (free, used, m)"
  shows "if length (itrie_array st) \<le> Suc (length used)
    then new_private_trie props st = Inl (Resource_Error ''interned tries'')
    else \<exists>i tid st'. new_private_trie props st = Inr (tid, st') \<and> SPLIT_TRIE_ID tid = (i, TRIE_TYPE props) \<and>
      i \<notin> set used \<and> 0 < i \<and> i < length (itrie_array st) \<and> represents sz st' (tl free, i # used, m(i := {}))"
proof -
  have l: "handle_lists st free used" using rep by (simp add: represents_def)
  then have n: "length (free @ used) = length (itrie_array st) - 1"
    using distinct_card [of "free @ used"] by (simp add: handle_lists_def)
  show ?thesis
  proof (cases free)
    case Nil
    then show ?thesis using n no_handle_left [of sz st used m] rep by simp
  next
    case (Cons i fs)
    then have i: "i \<notin> set used" "0 < i" "i < length (itrie_array st)"
      using used_in [OF l, of i] l by (auto simp: handle_lists_def)
    have "\<not> length (itrie_array st) \<le> Suc (length used)" using n Cons i(3) by simp
    then show ?thesis using new_law [OF rep [unfolded Cons], of props] i by (simp add: Cons) blast
  qed
qed

lemma newtrie_handles_witness:
  "\<exists>st m. represents 512 st ([], [1], m) \<and> new_private_trie 0 st = Inl (Resource_Error ''interned tries'')"
  using newtrie_handles [OF word_table(1), of 0] word_table(1) by (auto simp: word_table_def)

section \<open>Garbage\<close>

text \<open>
  C19: a leaf that is disposed of takes its word out of the trie of its handle, and when it is taken back before another one
  is disposed of, the whole table is as before.
\<close>

theorem dispose_undispose:
  assumes rep: "represents sz st (free, used, m)" and i: "i \<in> set used" and r: "root_at st i = Some r"
    and n: "leaf_at (trie_nodes st) r w n" "w \<in> m i" and c: "\<And>b. deref (trie_nodes st) n = Inr b \<Longrightarrow> bt_instr b \<noteq> 0"
    and d: "distinct (map igr_root (IGRhead st))" and ne: "\<forall>p \<in> set (IGRhead st). igr_leaves p \<noteq> []"
  shows "\<exists>st'. trie_dispose_nr i n st = Inr st' \<and> contents st' i = m i - {w} \<and> trie_undispose i n st' = Inr st"
proof -
  from dispose_law [OF rep i r n(1) c d] obtain st' where st': "trie_dispose_nr i n st = Inr st'"
    "represents sz st' (free, used, m(i := m i - {w}))" by blast
  have so: "trie_ok (trie_nodes st)" and w: "w \<in> words (trie_nodes st) r"
    using rep i n(2) r by (auto simp: represents_def tries_ok_def store_ok_def contents_def words_at_def)
  from leaf_deref [OF n(1)] obtain b where b: "deref (trie_nodes st) n = Inr b" by blast
  have v: "\<not> is_deleted_node (cores (trie_nodes st)) n" using w n(1) leaf_at_unique [OF so] unfolding words_def by blast
  have "trie_undispose i n st' = Inr st"
    by (rule undispose_law [OF rep i r n c ne undelete_failing [OF b c [OF b] v] st'(1)])
  then show ?thesis using st' i by (auto simp: represents_def)
qed

lemma dispose_undispose_witness:
  "\<exists>st'. trie_dispose_nr 1 5 word_table = Inr st' \<and> contents st' 1 = {} \<and> trie_undispose 1 5 st' = Inr word_table"
proof -
  have "IGRhead word_table = []" by (simp add: word_table_def empty_table_def)
  then show ?thesis using dispose_undispose [OF word_table(1) _ word_table(2,3) _ word_table(4)] by auto
qed

text \<open>
  C39: reclaiming the garbage of a trie frees the leaves of its list that are still marked, and no other leaf;
  it changes the words of no trie, empties the list and keeps the other lists.
\<close>

theorem reclaim_garbage:
  assumes "represents sz st (free, used, m)" "i \<in> set used" "root_at st i = Some r"
    and "distinct (map igr_root (IGRhead st))" "distinct (garbage_of (IGRhead st) i)"
    and "\<And>n. n \<in> set (garbage_of (IGRhead st) i) \<Longrightarrow> \<exists>w. leaf_at (trie_nodes st) r w n"
  shows "\<exists>st'. reclaim_uninterned_nr i st = Inr st' \<and> represents sz st' (free, used, m) \<and>
    (\<forall>j. garbage_of (IGRhead st') j = (if j = i then [] else garbage_of (IGRhead st) j)) \<and>
    (\<forall>v x. leaf_at (trie_nodes st') r v x \<longleftrightarrow> leaf_at (trie_nodes st) r v x \<and>
       (x \<in> set (garbage_of (IGRhead st) i) \<longrightarrow> \<not> is_deleted_node (cores (trie_nodes st)) x))"
  by (rule reclaim_law [OF assms])

lemma reclaim_garbage_witness:
  "\<exists>st st'. trie_dispose_nr 1 5 word_table = Inr st \<and> reclaim_uninterned_nr 1 st = Inr st' \<and>
    garbage_of (IGRhead st) 1 = [5] \<and> garbage_of (IGRhead st') 1 = [] \<and> \<not> leaf_at (trie_nodes st') 0 some_word 5"
proof -
  have g: "IGRhead word_table = []" by (simp add: word_table_def empty_table_def)
  have i: "(1 :: nat) \<in> set [1]" by simp
  from dispose_law [OF word_table(1) i word_table(2,3,4)] g obtain st where st: "trie_dispose_nr 1 5 word_table = Inr st"
    "represents 512 st ([], [1], (\<lambda>_. {some_word})(1 := {}))" "root_at st 1 = Some 0"
    "leaf_at (trie_nodes st) 0 some_word 5" "garbage_of (IGRhead st) 1 = [5]" "distinct (map igr_root (IGRhead st))"
    using word_table(2,3) by auto
  have lv: "\<exists>w. leaf_at (trie_nodes st) 0 w n" if "n \<in> set (garbage_of (IGRhead st) 1)" for n using that st(4,5) by auto
  have dg: "distinct (garbage_of (IGRhead st) 1)" unfolding st(5) by simp
  from reclaim_garbage [OF st(2) i st(3,6) dg lv] obtain st' where st': "reclaim_uninterned_nr 1 st = Inr st'"
    "\<forall>j. garbage_of (IGRhead st') j = (if j = 1 then [] else garbage_of (IGRhead st) j)"
    "\<forall>v x. leaf_at (trie_nodes st') 0 v x \<longleftrightarrow> leaf_at (trie_nodes st) 0 v x \<and>
       (x \<in> set (garbage_of (IGRhead st) 1) \<longrightarrow> \<not> is_deleted_node (cores (trie_nodes st)) x)" by blast
  have "contents st 1 = {}" using st(2) by (simp add: represents_def)
  then have "some_word \<notin> words (trie_nodes st) 0" using st(3) by (simp add: contents_def words_at_def)
  then have "is_deleted_node (cores (trie_nodes st)) 5" using st(4) by (auto simp: words_def)
  then have "\<not> leaf_at (trie_nodes st') 0 some_word 5" using st'(3) st(5) by auto
  then show ?thesis using st(1,5) st'(1,2) by auto
qed

text \<open>
  C40: a leaf that is disposed of twice is twice on the list of garbage: the reclamation frees it and then follows it again.
\<close>

theorem disposed_twice:
  assumes "represents sz st (free, used, m)" "i \<in> set used" "root_at st i = Some r"
    and "leaf_at (trie_nodes st) r w n" "\<And>b. deref (trie_nodes st) n = Inr b \<Longrightarrow> bt_instr b \<noteq> 0"
    and "distinct (map igr_root (IGRhead st))" "garbage_of (IGRhead st) i = []"
  shows "\<exists>st1 st2. trie_dispose_nr i n st = Inr st1 \<and> trie_dispose_nr i n st1 = Inr st2 \<and>
    reclaim_uninterned_nr i st2 = Inl (Dangling_Pointer n)"
  by (rule disposed_twice_law [OF assms])

lemma disposed_twice_witness:
  "\<exists>st1 st2. trie_dispose_nr 1 5 word_table = Inr st1 \<and> trie_dispose_nr 1 5 st1 = Inr st2 \<and>
    reclaim_uninterned_nr 1 st2 = Inl (Dangling_Pointer 5)"
proof -
  have "IGRhead word_table = []" by (simp add: word_table_def empty_table_def)
  then show ?thesis using disposed_twice [OF word_table(1) _ word_table(2,3,4)] by simp
qed

end
