(* ===== verification/Record_Pools.thy ===== *)
theory Record_Pools imports Main begin

text \<open>
  Pools of records. The emulator asks the system for blocks of many records and hands the records out one by one;
  a record that is given back is kept in a list for the next request. There are two such allocators, the structure
  managers of struct_manager.h and the entries of slgdelay.c, and what their clients rely on is the same.

  \<open>alloc a p\<close> is a request, where \<open>a\<close> is the address of the block that the system gives if it is asked for
  one, and \<open>usable a p\<close> says that this memory is not already part of the pool.
\<close>

locale record_pool =
  fixes alloc :: "nat \<Rightarrow> 'p \<Rightarrow> nat \<times> 'p"
    and release :: "nat \<Rightarrow> 'p \<Rightarrow> 'p"
    and taken :: "'p \<Rightarrow> nat set"
    and pool_inv :: "'p \<Rightarrow> bool"
    and usable :: "nat \<Rightarrow> 'p \<Rightarrow> bool"
  assumes alloc_new: "pool_inv p \<Longrightarrow> usable a p \<Longrightarrow> alloc a p = (x, p') \<Longrightarrow> x \<notin> taken p"
    and alloc_taken: "pool_inv p \<Longrightarrow> usable a p \<Longrightarrow> alloc a p = (x, p') \<Longrightarrow> taken p' = insert x (taken p)"
    and alloc_inv: "pool_inv p \<Longrightarrow> usable a p \<Longrightarrow> alloc a p = (x, p') \<Longrightarrow> pool_inv p'"
    and release_taken: "pool_inv p \<Longrightarrow> x \<in> taken p \<Longrightarrow> taken (release x p) = taken p - {x}"
    and release_inv: "pool_inv p \<Longrightarrow> x \<in> taken p \<Longrightarrow> pool_inv (release x p)"
begin

lemma alloc_release:
  assumes "pool_inv p" "usable a p" "alloc a p = (x, p')"
  shows "taken (release x p') = taken p" "pool_inv (release x p')"
proof -
  have i: "pool_inv p'" and t: "taken p' = insert x (taken p)" and n: "x \<notin> taken p"
    using assms alloc_inv alloc_taken alloc_new by blast+
  from release_taken [OF i, of x] t n show "taken (release x p') = taken p" by simp
  from release_inv [OF i, of x] t show "pool_inv (release x p')" by simp
qed

text \<open>A client's requests: a number is the address of a block the system would give, \<open>Inr\<close> gives a record back.\<close>

fun served :: "'p \<Rightarrow> (nat + nat) list \<Rightarrow> nat set \<Rightarrow> 'p \<times> nat set" where
  "served p [] S = (p, S)"
| "served p (Inl a # rs) S = (case alloc a p of (x, p') \<Rightarrow> served p' rs (insert x S))"
| "served p (Inr x # rs) S = served (release x p) rs (S - {x})"

fun fair :: "'p \<Rightarrow> (nat + nat) list \<Rightarrow> bool" where
  "fair p [] = True"
| "fair p (Inl a # rs) = (usable a p \<and> fair (snd (alloc a p)) rs)"
| "fair p (Inr x # rs) = (x \<in> taken p \<and> fair (release x p) rs)"

lemma served_taken:
  "pool_inv p \<Longrightarrow> taken p = S \<Longrightarrow> fair p rs \<Longrightarrow> pool_inv (fst (served p rs S)) \<and> taken (fst (served p rs S)) = snd (served p rs S)"
proof (induction p rs S rule: served.induct)
  case (2 p a rs S)
  obtain x q where q: "alloc a p = (x, q)" by (cases "alloc a p")
  have u: "usable a p" and f: "fair q rs" using "2.prems"(3) q by simp_all
  have "pool_inv q" by (rule alloc_inv [OF "2.prems"(1) u q])
  moreover have "taken q = insert x S" using alloc_taken [OF "2.prems"(1) u q] "2.prems"(2) by simp
  ultimately show ?case using "2.IH" [OF q [symmetric]] f q by simp
next
  case (3 p x rs S)
  have x: "x \<in> taken p" and f: "fair (release x p) rs" using "3.prems"(3) by simp_all
  show ?case using "3.IH" release_inv [OF "3.prems"(1) x] release_taken [OF "3.prems"(1) x] "3.prems"(2) f by simp
qed simp

end

end
