(* ===== verification/Delay_Entries.thy ===== *)
theory Delay_Entries imports Record_Pools begin

text \<open>
  The allocation of delay elements, delay lists and the back links to them in slgdelay.c and slgdelay.h: blocks of
  2048 entries, and a list of the entries that have been released. An address is the number of an entry in the memory of
  its type; the address of the block that the system would give is an argument of \<open>new_entry\<close>.
\<close>

record entry_pool =
  released :: "nat list"
  next_free :: nat
  block_top :: nat
  entry_blocks :: "nat list"

definition empty_pool :: entry_pool where
  "empty_pool = \<lparr>released = [], next_free = 0, block_top = 0, entry_blocks = []\<rparr>"

abbreviation block_entries :: nat where "block_entries \<equiv> 2048"

definition new_entry :: "nat \<Rightarrow> entry_pool \<Rightarrow> nat \<times> entry_pool" where
  "new_entry blk p =
    (case released p of
       r # rs \<Rightarrow> (r, p\<lparr>released := rs\<rparr>)
     | [] \<Rightarrow> if next_free p < block_top p then (next_free p, p\<lparr>next_free := next_free p + 1\<rparr>)
            else (blk, p\<lparr>entry_blocks := blk # entry_blocks p, next_free := blk + 1, block_top := blk + block_entries\<rparr>))"

definition release_entry :: "nat \<Rightarrow> entry_pool \<Rightarrow> entry_pool" where
  "release_entry x p = p\<lparr>released := x # released p\<rparr>"

definition allocated_entry_space :: "nat \<Rightarrow> nat \<Rightarrow> entry_pool \<Rightarrow> nat \<times> nat" where
  "allocated_entry_space entry_bytes cell_bytes p =
    foldl (\<lambda>(n, size') b. (n + 1, size' + (block_entries * entry_bytes + cell_bytes))) (0, 0) (entry_blocks p)"

definition unused_entry_space :: "nat \<Rightarrow> entry_pool \<Rightarrow> nat" where
  "unused_entry_space entry_bytes p = (block_top p - next_free p + length (released p)) * entry_bytes"

text \<open>\<open>abolish_wfs_space\<close> gives all the blocks back and resets the pool.\<close>

fun free_entry_blocks :: "nat list \<Rightarrow> nat list" where
  "free_entry_blocks [] = []"
| "free_entry_blocks (b # bs) = free_entry_blocks bs"

definition abolish_pool :: "entry_pool \<Rightarrow> entry_pool" where
  "abolish_pool p = p\<lparr>entry_blocks := free_entry_blocks (entry_blocks p), released := [], next_free := 0, block_top := 0\<rparr>"

lemma abolish_pool: "abolish_pool p = empty_pool"
proof -
  have "free_entry_blocks bs = []" for bs by (induction bs) simp_all
  then show ?thesis by (simp add: abolish_pool_def empty_pool_def)
qed

section \<open>The entries in use\<close>

definition pool_entries :: "entry_pool \<Rightarrow> nat set" where
  "pool_entries p = (\<Union>b \<in> set (entry_blocks p). {b..<b + block_entries})"

definition pool_taken :: "entry_pool \<Rightarrow> nat set" where
  "pool_taken p = pool_entries p - {next_free p..<block_top p} - set (released p)"

definition pool_usable :: "nat \<Rightarrow> entry_pool \<Rightarrow> bool" where
  "pool_usable a p \<longleftrightarrow> {a..<a + block_entries} \<inter> pool_entries p = {}"

definition pool_ok :: "entry_pool \<Rightarrow> bool" where
  "pool_ok p \<longleftrightarrow> distinct (released p) \<and> set (released p) \<subseteq> pool_entries p - {next_free p..<block_top p} \<and>
     next_free p \<le> block_top p \<and> {next_free p..<block_top p} \<subseteq> pool_entries p \<and> distinct (entry_blocks p) \<and>
     (\<forall>b \<in> set (entry_blocks p). \<forall>c \<in> set (entry_blocks p). b \<noteq> c \<longrightarrow> {b..<b + block_entries} \<inter> {c..<c + block_entries} = {})"

lemma pool_ok_empty [simp]: "pool_ok empty_pool" "pool_taken empty_pool = {}"
  by (simp_all add: pool_ok_def empty_pool_def pool_taken_def pool_entries_def)

lemma new_entry_pool:
  assumes ok: "pool_ok p" and u: "pool_usable a p" and n: "new_entry a p = (x, p')"
  shows "x \<notin> pool_taken p \<and> pool_taken p' = insert x (pool_taken p) \<and> pool_ok p'"
proof (cases "released p")
  case (Cons r rs)
  then have p': "x = r" "p' = p\<lparr>released := rs\<rparr>" using n by (auto simp: new_entry_def)
  have e: "pool_entries p' = pool_entries p" by (simp add: p' pool_entries_def)
  show ?thesis using ok Cons e by (auto simp: pool_ok_def pool_taken_def p')
next
  case Nil
  show ?thesis
  proof (cases "next_free p < block_top p")
    case True
    then have p': "x = next_free p" "p' = p\<lparr>next_free := next_free p + 1\<rparr>" using n Nil by (auto simp: new_entry_def)
    have e: "pool_entries p' = pool_entries p" by (simp add: p' pool_entries_def)
    have i: "{next_free p..<block_top p} = insert (next_free p) {next_free p + 1..<block_top p}" using True by auto
    show ?thesis using ok Nil e i by (auto simp: pool_ok_def pool_taken_def p')
  next
    case False
    then have p': "x = a" "p' = p\<lparr>entry_blocks := a # entry_blocks p, next_free := a + 1, block_top := a + block_entries\<rparr>"
      using n Nil by (auto simp: new_entry_def)
    have e: "pool_entries p' = {a..<a + block_entries} \<union> pool_entries p" by (simp add: p' pool_entries_def)
    have t: "pool_taken p = pool_entries p" using False Nil by (simp add: pool_taken_def)
    have out: "x < a \<or> a + block_entries \<le> x" if "x \<in> pool_entries p" for x
      using u that unfolding pool_usable_def disjoint_iff by (metis atLeastLessThan_iff not_less)
    have t': "pool_taken p' = insert a (pool_entries p)"
    proof -
      have "{a..<a + block_entries} - {a + 1..<a + block_entries} = {a}" by auto
      moreover have "pool_entries p - {a + 1..<a + block_entries} = pool_entries p"
        using out by (intro Diff_triv) fastforce
      moreover have "released p' = []" "next_free p' = a + 1" "block_top p' = a + block_entries" using p' Nil by simp_all
      ultimately show ?thesis by (simp add: pool_taken_def e Un_Diff)
    qed
    have an: "a \<notin> pool_entries p" using out by fastforce
    have sub: "{b..<b + block_entries} \<subseteq> pool_entries p" if "b \<in> set (entry_blocks p)" for b
      using that by (auto simp: pool_entries_def)
    have d: "{a..<a + block_entries} \<inter> {b..<b + block_entries} = {}" if "b \<in> set (entry_blocks p)" for b
      using u sub [OF that] unfolding pool_usable_def by blast
    have "a \<notin> set (entry_blocks p)" using an sub by fastforce
    then have dd: "distinct (entry_blocks p')" using ok p' by (simp add: pool_ok_def)
    have "{b..<b + block_entries} \<inter> {c..<c + block_entries} = {}"
      if "b \<in> set (entry_blocks p')" "c \<in> set (entry_blocks p')" "b \<noteq> c" for b c
    proof (cases "b = a \<or> c = a")
      case True
      then show ?thesis using that d [of b] d [of c] p' by (auto simp: Int_commute)
    next
      case False
      then show ?thesis using that ok p' by (simp add: pool_ok_def)
    qed
    moreover have "{next_free p'..<block_top p'} \<subseteq> pool_entries p'" using e by (fastforce simp: p')
    ultimately have ok': "pool_ok p'" using Nil e dd unfolding pool_ok_def by (simp add: p')
    show ?thesis using an ok' t t' p'(1) by simp
  qed
qed

lemma release_entry_pool:
  assumes "pool_ok p" "x \<in> pool_taken p"
  shows "pool_taken (release_entry x p) = pool_taken p - {x} \<and> pool_ok (release_entry x p)"
proof -
  have e: "pool_entries (release_entry x p) = pool_entries p" by (simp add: release_entry_def pool_entries_def)
  show ?thesis using assms e by (auto simp: pool_ok_def pool_taken_def release_entry_def)
qed

interpretation entry: record_pool new_entry release_entry pool_taken pool_ok pool_usable
  by unfold_locales (use new_entry_pool release_entry_pool in blast)+

text \<open>The space that is counted as unused is that of the entries which are not in use.\<close>

lemma entries_unused:
  assumes ok: "pool_ok p"
  shows "unused_entry_space z p + card (pool_taken p) * z = block_entries * length (entry_blocks p) * z"
proof -
  have f: "finite (pool_entries p)" by (simp add: pool_entries_def)
  have "card (pool_entries p) = (\<Sum>b \<in> set (entry_blocks p). card {b..<b + block_entries})"
    using ok unfolding pool_entries_def pool_ok_def by (intro card_UN_disjoint) simp_all
  then have c: "card (pool_entries p) = block_entries * length (entry_blocks p)"
    using ok distinct_card [of "entry_blocks p"] by (simp add: pool_ok_def)
  let ?o = "{next_free p..<block_top p} \<union> set (released p)"
  have s: "?o \<subseteq> pool_entries p" using ok by (auto simp: pool_ok_def)
  have "card ?o = block_top p - next_free p + length (released p)"
    using ok by (subst card_Un_disjoint) (auto simp: pool_ok_def distinct_card)
  moreover have "pool_taken p = pool_entries p - ?o" by (auto simp: pool_taken_def)
  ultimately have "block_top p - next_free p + length (released p) + card (pool_taken p) = block_entries * length (entry_blocks p)"
    using card_Diff_subset [OF finite_subset [OF s f] s] card_mono [OF f s] c by simp
  then show ?thesis unfolding unused_entry_space_def by (metis distrib_right)
qed

end
