(* ===== verification/Structure_Managers.thy ===== *)
theory Structure_Managers imports Record_Pools begin

text \<open>
  The structure managers of struct_manager.h and struct_manager.c, from which trie nodes, hash tables, answer list
  nodes and the information of conditional answers are allocated. Addresses are numbers of bytes; a block
  has a link to the previous block in its first word and then the records. The chain of the blocks and the free list
  are lists of addresses. The address that the system gives for a new block is an argument.
\<close>

definition pointer_size :: nat where "pointer_size = 8"

record structure_manager =
  SM_CurBlock :: "nat list"         \<comment> \<open>the blocks, the current one first\<close>
  SM_NextStruct :: nat
  SM_LastStruct :: nat
  SM_StructSize :: nat
  SM_StructsPerBlock :: nat
  SM_FreeList :: "nat list"

definition SM_InitDecl :: "nat \<Rightarrow> nat \<Rightarrow> structure_manager" where
  "SM_InitDecl size' num = \<lparr>SM_CurBlock = [], SM_NextStruct = 0, SM_LastStruct = 0, SM_StructSize = size',
     SM_StructsPerBlock = num, SM_FreeList = []\<rparr>"

definition SM_NewBlockSize :: "structure_manager \<Rightarrow> nat" where
  "SM_NewBlockSize sm = pointer_size + SM_StructSize sm * SM_StructsPerBlock sm"

definition SM_CurBlockIsDepleted :: "structure_manager \<Rightarrow> bool" where
  "SM_CurBlockIsDepleted sm \<longleftrightarrow> SM_CurBlock sm = [] \<or> SM_NextStruct sm > SM_LastStruct sm"

definition SM_NumStructsLeftInBlock :: "structure_manager \<Rightarrow> nat" where
  "SM_NumStructsLeftInBlock sm =
    (if \<not> SM_CurBlockIsDepleted sm then (SM_LastStruct sm - SM_NextStruct sm) div SM_StructSize sm + 1 else 0)"

definition SMBlk_FirstStruct :: "nat \<Rightarrow> nat" where
  "SMBlk_FirstStruct b = b + pointer_size"

definition SMBlk_LastStruct :: "nat \<Rightarrow> nat \<Rightarrow> nat \<Rightarrow> nat" where
  "SMBlk_LastStruct b size' num = SMBlk_FirstStruct b + size' * (num - 1)"

definition SMBlk_NextStruct :: "nat \<Rightarrow> nat \<Rightarrow> nat" where
  "SMBlk_NextStruct x size' = x + size'"

definition smAllocateBlock :: "nat \<Rightarrow> structure_manager \<Rightarrow> structure_manager" where
  "smAllocateBlock b sm = sm\<lparr>SM_CurBlock := b # SM_CurBlock sm, SM_NextStruct := SMBlk_FirstStruct b,
     SM_LastStruct := SMBlk_LastStruct b (SM_StructSize sm) (SM_StructsPerBlock sm)\<rparr>"

definition SM_AllocateFree :: "structure_manager \<Rightarrow> nat \<times> structure_manager" where
  "SM_AllocateFree sm = (hd (SM_FreeList sm), sm\<lparr>SM_FreeList := List.tl (SM_FreeList sm)\<rparr>)"

definition SM_AllocateFromBlock :: "structure_manager \<Rightarrow> nat \<times> structure_manager" where
  "SM_AllocateFromBlock sm =
    (SM_NextStruct sm, sm\<lparr>SM_NextStruct := SMBlk_NextStruct (SM_NextStruct sm) (SM_StructSize sm)\<rparr>)"

definition SM_AllocateStruct :: "nat \<Rightarrow> structure_manager \<Rightarrow> nat \<times> structure_manager" where
  "SM_AllocateStruct b sm =
    (if SM_FreeList sm \<noteq> [] then SM_AllocateFree sm
     else SM_AllocateFromBlock (if SM_CurBlockIsDepleted sm then smAllocateBlock b sm else sm))"

text \<open>A chain of records that the client has linked by their first words is given back at once.\<close>

definition SM_DeallocateStructList :: "nat list \<Rightarrow> structure_manager \<Rightarrow> structure_manager" where
  "SM_DeallocateStructList xs sm = sm\<lparr>SM_FreeList := xs @ SM_FreeList sm\<rparr>"

definition SM_DeallocateStruct :: "nat \<Rightarrow> structure_manager \<Rightarrow> structure_manager" where
  "SM_DeallocateStruct x = SM_DeallocateStructList [x]"

definition smFreeBlocks :: "structure_manager \<Rightarrow> structure_manager" where
  "smFreeBlocks sm = sm\<lparr>SM_CurBlock := [], SM_NextStruct := 0, SM_LastStruct := 0, SM_FreeList := []\<rparr>"

definition SM_CurrentCapacity :: "structure_manager \<Rightarrow> nat \<times> nat" where
  "SM_CurrentCapacity sm = (length (SM_CurBlock sm), length (SM_CurBlock sm) * SM_StructsPerBlock sm)"

definition SM_CountFreeStructs :: "structure_manager \<Rightarrow> nat" where
  "SM_CountFreeStructs sm =
    (if SM_CurBlock sm \<noteq> [] then SM_NumStructsLeftInBlock sm + length (SM_FreeList sm) else 0)"

definition SM_RawUsage :: "structure_manager \<Rightarrow> nat" where
  "SM_RawUsage sm = foldr (\<lambda>b u. u + SM_NewBlockSize sm) (SM_CurBlock sm) 0"

fun valid_ref_in :: "nat \<Rightarrow> nat \<Rightarrow> nat list \<Rightarrow> nat \<Rightarrow> bool" where
  "valid_ref_in size' num [] x = False"
| "valid_ref_in size' num (b # bs) x =
    (if SMBlk_FirstStruct b \<le> x \<and> x \<le> SMBlk_LastStruct b size' num
     then (x - SMBlk_FirstStruct b) mod size' = 0
     else valid_ref_in size' num bs x)"

definition smIsValidStructRef :: "structure_manager \<Rightarrow> nat \<Rightarrow> bool" where
  "smIsValidStructRef sm x = valid_ref_in (SM_StructSize sm) (SM_StructsPerBlock sm) (SM_CurBlock sm) x"

definition smIsAllocatedStruct :: "structure_manager \<Rightarrow> nat \<Rightarrow> bool" where
  "smIsAllocatedStruct sm x =
    (if SM_NextStruct sm \<le> x \<and> x \<le> SM_LastStruct sm then False else x \<notin> set (SM_FreeList sm))"

definition smIsAllocatedStructRef :: "structure_manager \<Rightarrow> nat \<Rightarrow> bool" where
  "smIsAllocatedStructRef sm x \<longleftrightarrow> smIsValidStructRef sm x \<and> smIsAllocatedStruct sm x"

section \<open>The records of a manager\<close>

text \<open>The \<open>k\<close>-th record of a block, and the bytes of a block.\<close>

definition record_at :: "structure_manager \<Rightarrow> nat \<Rightarrow> nat \<Rightarrow> nat" where
  "record_at sm b k = b + pointer_size + SM_StructSize sm * k"

definition block_bytes :: "structure_manager \<Rightarrow> nat \<Rightarrow> nat set" where
  "block_bytes sm b = {b..<b + SM_NewBlockSize sm}"

definition sm_records :: "structure_manager \<Rightarrow> nat set" where
  "sm_records sm = (\<Union>b \<in> set (SM_CurBlock sm). record_at sm b ` {0..<SM_StructsPerBlock sm})"

definition sm_fresh :: "structure_manager \<Rightarrow> nat set" where
  "sm_fresh sm = {x \<in> sm_records sm. SM_NextStruct sm \<le> x \<and> x \<le> SM_LastStruct sm}"

definition sm_taken :: "structure_manager \<Rightarrow> nat set" where
  "sm_taken sm = sm_records sm - sm_fresh sm - set (SM_FreeList sm)"

definition sm_usable :: "nat \<Rightarrow> structure_manager \<Rightarrow> bool" where
  "sm_usable a sm \<longleftrightarrow> 0 < a \<and> (\<forall>b \<in> set (SM_CurBlock sm). block_bytes sm a \<inter> block_bytes sm b = {})"

text \<open>
  The blocks do not overlap, the next record is one of the current block or just behind its last one, and the free records
  are records of the blocks that have been handed out before.
\<close>

definition sm_ok :: "structure_manager \<Rightarrow> bool" where
  "sm_ok sm \<longleftrightarrow> 0 < SM_StructSize sm \<and> 0 < SM_StructsPerBlock sm \<and>
     distinct (SM_CurBlock sm) \<and> 0 \<notin> set (SM_CurBlock sm) \<and>
     (\<forall>b \<in> set (SM_CurBlock sm). \<forall>c \<in> set (SM_CurBlock sm). b \<noteq> c \<longrightarrow> block_bytes sm b \<inter> block_bytes sm c = {}) \<and>
     (case SM_CurBlock sm of [] \<Rightarrow> SM_FreeList sm = []
      | b # _ \<Rightarrow> (\<exists>k \<le> SM_StructsPerBlock sm. SM_NextStruct sm = record_at sm b k) \<and>
          SM_LastStruct sm = record_at sm b (SM_StructsPerBlock sm - 1)) \<and>
     distinct (SM_FreeList sm) \<and> set (SM_FreeList sm) \<subseteq> sm_records sm - sm_fresh sm"

lemma sm_ok_init: "0 < z \<Longrightarrow> 0 < n \<Longrightarrow> sm_ok (SM_InitDecl z n)"
  by (simp add: sm_ok_def SM_InitDecl_def)

lemma record_in_block:
  assumes "k < SM_StructsPerBlock sm" "0 < SM_StructSize sm"
  shows "record_at sm b k \<in> block_bytes sm b"
proof -
  have "SM_StructSize sm * k < SM_StructSize sm * SM_StructsPerBlock sm" using assms by simp
  then show ?thesis by (simp add: record_at_def block_bytes_def SM_NewBlockSize_def)
qed

lemma record_at_inj: "0 < SM_StructSize sm \<Longrightarrow> record_at sm b j = record_at sm b k \<longleftrightarrow> j = k"
  by (simp add: record_at_def)

lemma record_at_le: "0 < SM_StructSize sm \<Longrightarrow> record_at sm b j \<le> record_at sm b k \<longleftrightarrow> j \<le> k"
  by (simp add: record_at_def)

lemma record_at_first_last:
  "SMBlk_FirstStruct b = record_at sm b 0"
  "SMBlk_LastStruct b (SM_StructSize sm) (SM_StructsPerBlock sm) = record_at sm b (SM_StructsPerBlock sm - 1)"
  "SMBlk_NextStruct (record_at sm b k) (SM_StructSize sm) = record_at sm b (Suc k)"
  by (simp_all add: SMBlk_FirstStruct_def SMBlk_LastStruct_def SMBlk_NextStruct_def record_at_def)

lemma record_of_block:
  assumes "0 < SM_StructSize sm" "0 < SM_StructsPerBlock sm"
  shows "(record_at sm b 0 \<le> x \<and> x \<le> record_at sm b (SM_StructsPerBlock sm - 1) \<and> (x - record_at sm b 0) mod SM_StructSize sm = 0)
    \<longleftrightarrow> x \<in> record_at sm b ` {0..<SM_StructsPerBlock sm}" (is "?l = ?r")
proof
  assume l: ?l
  define k where "k = (x - record_at sm b 0) div SM_StructSize sm"
  have m: "x - record_at sm b 0 = SM_StructSize sm * k" using l by (metis k_def div_mult_mod_eq add.right_neutral mult.commute)
  moreover have "record_at sm b 0 \<le> x" using l by simp
  ultimately have x: "x = record_at sm b k" by (simp add: record_at_def)
  then have "k \<le> SM_StructsPerBlock sm - 1" using l record_at_le assms by simp
  then show ?r using x assms by auto
next
  assume ?r
  then obtain k where k: "k < SM_StructsPerBlock sm" "x = record_at sm b k" by auto
  then show ?l using assms record_at_le [of sm b] by (auto simp: record_at_def)
qed

section \<open>The operations on the records\<close>

lemma sm_okD:
  assumes "sm_ok sm"
  shows "0 < SM_StructSize sm" "0 < SM_StructsPerBlock sm" "distinct (SM_FreeList sm)"
    "set (SM_FreeList sm) \<subseteq> sm_records sm - sm_fresh sm"
  using assms by (auto simp: sm_ok_def)

lemma records_apart:
  assumes "sm_ok sm" "b \<in> set (SM_CurBlock sm)" "c \<in> set (SM_CurBlock sm)" "b \<noteq> c"
    "j < SM_StructsPerBlock sm" "k < SM_StructsPerBlock sm"
  shows "record_at sm b j \<noteq> record_at sm c k"
  using record_in_block [of j sm b] record_in_block [of k sm c] assms by (fastforce simp: sm_ok_def)

lemma sm_fresh_Cons:
  assumes ok: "sm_ok sm" and c: "SM_CurBlock sm = b # bs"
    and n: "SM_NextStruct sm = record_at sm b k" "k \<le> SM_StructsPerBlock sm"
  shows "sm_fresh sm = record_at sm b ` {k..<SM_StructsPerBlock sm}"
proof -
  note z = sm_okD(1,2) [OF ok]
  have l: "SM_LastStruct sm = record_at sm b (SM_StructsPerBlock sm - 1)" using ok c by (simp add: sm_ok_def)
  have "x \<in> record_at sm b ` {k..<SM_StructsPerBlock sm}" if x: "x \<in> sm_fresh sm" for x
  proof -
    obtain d j where d: "d \<in> set (SM_CurBlock sm)" "j < SM_StructsPerBlock sm" "x = record_at sm d j"
      and r: "record_at sm b k \<le> x" "x \<le> record_at sm b (SM_StructsPerBlock sm - 1)"
      using x n l by (auto simp: sm_fresh_def sm_records_def)
    have "x \<in> block_bytes sm b"
      using r record_in_block [of "SM_StructsPerBlock sm - 1" sm b] z by (auto simp: block_bytes_def record_at_def)
    moreover have "x \<in> block_bytes sm d" using d record_in_block z by simp
    ultimately have "d = b" using ok d c by (fastforce simp: sm_ok_def)
    then show ?thesis using d r record_at_le [OF z(1)] by auto
  qed
  moreover have "x \<in> sm_fresh sm" if "x \<in> record_at sm b ` {k..<SM_StructsPerBlock sm}" for x
    using that c n l record_at_le [OF z(1)] by (fastforce simp: sm_fresh_def sm_records_def)
  ultimately show ?thesis by blast
qed

lemma sm_fresh_depleted: "SM_NextStruct sm > SM_LastStruct sm \<Longrightarrow> sm_fresh sm = {}"
  by (auto simp: sm_fresh_def)

lemma smAllocateBlock_simps [simp]:
  "SM_CurBlock (smAllocateBlock a sm) = a # SM_CurBlock sm" "SM_FreeList (smAllocateBlock a sm) = SM_FreeList sm"
  "SM_StructSize (smAllocateBlock a sm) = SM_StructSize sm" "SM_StructsPerBlock (smAllocateBlock a sm) = SM_StructsPerBlock sm"
  "SM_NextStruct (smAllocateBlock a sm) = record_at sm a 0"
  "SM_LastStruct (smAllocateBlock a sm) = record_at sm a (SM_StructsPerBlock sm - 1)"
  "record_at (smAllocateBlock a sm) = record_at sm" "block_bytes (smAllocateBlock a sm) = block_bytes sm"
  by (simp_all add: smAllocateBlock_def SMBlk_FirstStruct_def record_at_first_last record_at_def block_bytes_def SM_NewBlockSize_def fun_eq_iff)

lemma new_block:
  assumes ok: "sm_ok sm" and u: "sm_usable a sm" and f: "SM_FreeList sm = []" and d: "SM_CurBlockIsDepleted sm"
  shows "sm_ok (smAllocateBlock a sm)" "sm_taken (smAllocateBlock a sm) = sm_taken sm"
proof -
  note z = sm_okD(1,2) [OF ok]
  let ?m = "smAllocateBlock a sm"
  have na: "a \<notin> set (SM_CurBlock sm)"
  proof
    assume "a \<in> set (SM_CurBlock sm)"
    then have "block_bytes sm a = {}" using u by (auto simp: sm_usable_def)
    then show False by (simp add: block_bytes_def SM_NewBlockSize_def pointer_size_def)
  qed
  have r: "sm_records ?m = record_at sm a ` {0..<SM_StructsPerBlock sm} \<union> sm_records sm"
    by (simp add: sm_records_def)
  have "block_bytes sm b \<inter> block_bytes sm c = {}"
    if "b \<in> insert a (set (SM_CurBlock sm))" "c \<in> insert a (set (SM_CurBlock sm))" "b \<noteq> c" for b c
    using that u ok unfolding sm_usable_def sm_ok_def by (metis Int_commute insertE)
  then show ok': "sm_ok ?m"
    using ok u na f z by (auto simp: sm_ok_def sm_usable_def intro!: exI [of _ 0])
  have fr: "sm_fresh ?m = record_at sm a ` {0..<SM_StructsPerBlock sm}"
    using sm_fresh_Cons [OF ok', of a "SM_CurBlock sm" 0] by simp
  have e: "sm_fresh sm = {}"
    using d sm_fresh_depleted [of sm] by (cases "SM_CurBlock sm") (auto simp: SM_CurBlockIsDepleted_def sm_fresh_def sm_records_def)
  have "record_at sm a ` {0..<SM_StructsPerBlock sm} \<inter> sm_records sm = {}"
    using records_apart [OF ok'] na by (fastforce simp: sm_records_def)
  then show "sm_taken ?m = sm_taken sm"
    using f r fr e by (auto simp: sm_taken_def)
qed

lemma from_block:
  assumes ok: "sm_ok sm" and f: "SM_FreeList sm = []" and d: "\<not> SM_CurBlockIsDepleted sm"
    and a: "SM_AllocateFromBlock sm = (x, sm')"
  shows "x \<notin> sm_taken sm" "sm_taken sm' = insert x (sm_taken sm)" "sm_ok sm'"
proof -
  note z = sm_okD(1,2) [OF ok]
  obtain b bs where c: "SM_CurBlock sm = b # bs" using d by (cases "SM_CurBlock sm") (auto simp: SM_CurBlockIsDepleted_def)
  then obtain k where k: "k \<le> SM_StructsPerBlock sm" "SM_NextStruct sm = record_at sm b k"
      "SM_LastStruct sm = record_at sm b (SM_StructsPerBlock sm - 1)"
    using ok by (auto simp: sm_ok_def)
  have "record_at sm b k \<le> record_at sm b (SM_StructsPerBlock sm - 1)" using d c k by (simp add: SM_CurBlockIsDepleted_def not_less)
  then have "k \<le> SM_StructsPerBlock sm - 1" using record_at_le [OF z(1)] by blast
  then have kl: "k < SM_StructsPerBlock sm" using z by simp
  have x: "x = record_at sm b k" and s: "sm' = sm\<lparr>SM_NextStruct := record_at sm b (Suc k)\<rparr>"
    using a k by (auto simp: SM_AllocateFromBlock_def record_at_first_last)
  have e: "record_at sm' = record_at sm" "block_bytes sm' = block_bytes sm" "sm_records sm' = sm_records sm"
    by (simp_all add: s record_at_def block_bytes_def SM_NewBlockSize_def fun_eq_iff sm_records_def)
  have "\<exists>j \<le> SM_StructsPerBlock sm. record_at sm b (Suc k) = record_at sm b j" using kl by (intro exI [of _ "Suc k"]) simp
  then show ok': "sm_ok sm'" using ok c f e by (simp add: sm_ok_def s)
  have fr: "sm_fresh sm = record_at sm b ` {k..<SM_StructsPerBlock sm}" by (rule sm_fresh_Cons [OF ok c k(2,1)])
  have fr': "sm_fresh sm' = record_at sm b ` {Suc k..<SM_StructsPerBlock sm}"
    using sm_fresh_Cons [OF ok', of b bs "Suc k"] c kl e by (simp add: s)
  have "{k..<SM_StructsPerBlock sm} = insert k {Suc k..<SM_StructsPerBlock sm}" using kl by auto
  then have ii: "sm_fresh sm = insert x (sm_fresh sm')" using fr fr' x by simp
  have nx: "x \<notin> sm_fresh sm'" using fr' x record_at_inj [OF z(1)] by auto
  have xr: "x \<in> sm_records sm" using ii by (auto simp: sm_fresh_def)
  show "x \<notin> sm_taken sm" using ii by (simp add: sm_taken_def)
  show "sm_taken sm' = insert x (sm_taken sm)" using ii nx xr e f by (auto simp: sm_taken_def s)
qed

lemma from_free:
  assumes ok: "sm_ok sm" and f: "SM_FreeList sm \<noteq> []" and a: "SM_AllocateFree sm = (x, sm')"
  shows "x \<notin> sm_taken sm" "sm_taken sm' = insert x (sm_taken sm)" "sm_ok sm'"
proof -
  obtain fs where fs: "SM_FreeList sm = x # fs" and s: "sm' = sm\<lparr>SM_FreeList := fs\<rparr>"
    using f a by (cases "SM_FreeList sm") (auto simp: SM_AllocateFree_def)
  have e: "record_at sm' = record_at sm" "block_bytes sm' = block_bytes sm" "sm_records sm' = sm_records sm" "sm_fresh sm' = sm_fresh sm"
    by (simp_all add: s record_at_def block_bytes_def SM_NewBlockSize_def fun_eq_iff sm_records_def sm_fresh_def)
  show "sm_ok sm'" using ok fs e by (auto simp: sm_ok_def s split: list.splits)
  show "x \<notin> sm_taken sm" using fs by (simp add: sm_taken_def)
  have "x \<in> sm_records sm - sm_fresh sm" "x \<notin> set fs" using sm_okD(3,4) [OF ok] fs by auto
  then show "sm_taken sm' = insert x (sm_taken sm)" using e fs by (auto simp: sm_taken_def s)
qed

lemma allocate_struct:
  assumes ok: "sm_ok sm" and u: "sm_usable a sm" and al: "SM_AllocateStruct a sm = (x, sm')"
  shows "x \<notin> sm_taken sm \<and> sm_taken sm' = insert x (sm_taken sm) \<and> sm_ok sm'"
proof (cases "SM_FreeList sm = []")
  case False
  then show ?thesis using from_free [OF ok] al by (simp add: SM_AllocateStruct_def)
next
  case f: True
  show ?thesis
  proof (cases "SM_CurBlockIsDepleted sm")
    case False
    then show ?thesis using from_block [OF ok f] al f by (simp add: SM_AllocateStruct_def)
  next
    case True
    let ?m = "smAllocateBlock a sm"
    have "\<not> SM_CurBlockIsDepleted ?m"
      using sm_okD(1) [OF ok] by (simp add: SM_CurBlockIsDepleted_def record_at_def)
    then show ?thesis using from_block [of ?m x sm'] new_block [OF ok u f True] al f True by (simp add: SM_AllocateStruct_def)
  qed
qed

lemma deallocate_struct:
  assumes ok: "sm_ok sm" and x: "x \<in> sm_taken sm"
  shows "sm_taken (SM_DeallocateStruct x sm) = sm_taken sm - {x} \<and> sm_ok (SM_DeallocateStruct x sm)"
proof -
  let ?m = "SM_DeallocateStruct x sm"
  have e: "record_at ?m = record_at sm" "block_bytes ?m = block_bytes sm" "sm_records ?m = sm_records sm" "sm_fresh ?m = sm_fresh sm"
    "SM_FreeList ?m = x # SM_FreeList sm" "SM_CurBlock ?m = SM_CurBlock sm" "SM_StructSize ?m = SM_StructSize sm"
    "SM_StructsPerBlock ?m = SM_StructsPerBlock sm" "SM_NextStruct ?m = SM_NextStruct sm" "SM_LastStruct ?m = SM_LastStruct sm"
    by (simp_all add: SM_DeallocateStruct_def SM_DeallocateStructList_def record_at_def block_bytes_def SM_NewBlockSize_def
        fun_eq_iff sm_records_def sm_fresh_def)
  have "SM_CurBlock sm \<noteq> []" using x by (auto simp: sm_taken_def sm_records_def)
  then have "sm_ok ?m" using ok x e by (auto simp: sm_ok_def sm_taken_def split: list.splits)
  then show ?thesis using e by (auto simp: sm_taken_def)
qed

interpretation manager: record_pool SM_AllocateStruct SM_DeallocateStruct sm_taken sm_ok sm_usable
  by unfold_locales (use allocate_struct deallocate_struct in blast)+

section \<open>What a manager says of its records\<close>

lemma valid_ref_in:
  assumes "\<forall>b \<in> set bs. \<forall>c \<in> set bs. b \<noteq> c \<longrightarrow> block_bytes sm b \<inter> block_bytes sm c = {}"
    and z: "0 < SM_StructSize sm" "0 < SM_StructsPerBlock sm"
  shows "valid_ref_in (SM_StructSize sm) (SM_StructsPerBlock sm) bs x \<longleftrightarrow> (\<exists>b \<in> set bs. x \<in> record_at sm b ` {0..<SM_StructsPerBlock sm})"
  using assms(1)
proof (induction bs)
  case (Cons b bs)
  let ?in = "record_at sm b 0 \<le> x \<and> x \<le> record_at sm b (SM_StructsPerBlock sm - 1)"
  have o: "x \<notin> record_at sm c ` {0..<SM_StructsPerBlock sm}" if "?in" "c \<in> set bs" "c \<noteq> b" for c
  proof -
    have "x \<in> block_bytes sm b"
      using that(1) record_in_block [of "SM_StructsPerBlock sm - 1" sm b] z by (auto simp: block_bytes_def record_at_def)
    then have "x \<notin> block_bytes sm c" using Cons.prems that by fastforce
    then show ?thesis using record_in_block z by fastforce
  qed
  show ?case
  proof (cases ?in)
    case True
    then have "(\<exists>c \<in> set (b # bs). x \<in> record_at sm c ` {0..<SM_StructsPerBlock sm}) \<longleftrightarrow> x \<in> record_at sm b ` {0..<SM_StructsPerBlock sm}"
      using o by auto
    then show ?thesis using True record_of_block [OF z, of b x] by (simp add: record_at_first_last(1) [of b sm] record_at_first_last(2))
  next
    case False
    then have "x \<notin> record_at sm b ` {0..<SM_StructsPerBlock sm}" using record_of_block [OF z, of b x] by blast
    moreover have "valid_ref_in (SM_StructSize sm) (SM_StructsPerBlock sm) (b # bs) x =
        valid_ref_in (SM_StructSize sm) (SM_StructsPerBlock sm) bs x"
      unfolding valid_ref_in.simps record_at_first_last(1) [of b sm] record_at_first_last(2) using False by (rule if_not_P)
    ultimately show ?thesis using Cons by simp
  qed
qed simp

lemma valid_struct_ref: "sm_ok sm \<Longrightarrow> smIsValidStructRef sm x \<longleftrightarrow> x \<in> sm_records sm"
  using valid_ref_in [of "SM_CurBlock sm" sm x] by (auto simp: smIsValidStructRef_def sm_ok_def sm_records_def)

lemma allocated_struct_ref: "sm_ok sm \<Longrightarrow> smIsAllocatedStructRef sm x \<longleftrightarrow> x \<in> sm_taken sm"
  by (auto simp: smIsAllocatedStructRef_def smIsAllocatedStruct_def valid_struct_ref sm_taken_def sm_fresh_def)

lemma card_records:
  assumes ok: "sm_ok sm"
  shows "finite (sm_records sm) \<and> card (sm_records sm) = snd (SM_CurrentCapacity sm)"
proof -
  note z = sm_okD(1,2) [OF ok]
  have i: "inj_on (record_at sm b) {0..<SM_StructsPerBlock sm}" for b using record_at_inj [OF z(1)] by (auto intro: inj_onI)
  have "record_at sm b ` {0..<SM_StructsPerBlock sm} \<inter> record_at sm c ` {0..<SM_StructsPerBlock sm} = {}"
    if "b \<in> set (SM_CurBlock sm)" "c \<in> set (SM_CurBlock sm)" "b \<noteq> c" for b c
    using records_apart [OF ok that] by auto
  then have "card (sm_records sm) = (\<Sum>b \<in> set (SM_CurBlock sm). card (record_at sm b ` {0..<SM_StructsPerBlock sm}))"
    unfolding sm_records_def by (intro card_UN_disjoint) auto
  also have "\<dots> = card (set (SM_CurBlock sm)) * SM_StructsPerBlock sm" using card_image [OF i] by simp
  finally show ?thesis
    using ok distinct_card [of "SM_CurBlock sm"] by (simp add: SM_CurrentCapacity_def sm_ok_def sm_records_def)
qed

text \<open>The free structures are counted right: those handed out and those counted make up the capacity.\<close>

lemma count_free_structs:
  assumes ok: "sm_ok sm"
  shows "SM_CountFreeStructs sm + card (sm_taken sm) = snd (SM_CurrentCapacity sm)"
proof (cases "SM_CurBlock sm")
  case Nil
  then show ?thesis by (simp add: SM_CountFreeStructs_def SM_CurrentCapacity_def sm_taken_def sm_records_def)
next
  case (Cons b bs)
  note z = sm_okD(1,2) [OF ok]
  obtain k where k: "k \<le> SM_StructsPerBlock sm" "SM_NextStruct sm = record_at sm b k"
      "SM_LastStruct sm = record_at sm b (SM_StructsPerBlock sm - 1)"
    using ok Cons by (auto simp: sm_ok_def)
  have "card (sm_fresh sm) = SM_StructsPerBlock sm - k"
    using sm_fresh_Cons [OF ok Cons k(2,1)] record_at_inj [OF z(1)] by (simp add: card_image inj_on_def)
  moreover have "SM_NumStructsLeftInBlock sm = SM_StructsPerBlock sm - k"
  proof (cases "k < SM_StructsPerBlock sm")
    case True
    then have "record_at sm b (SM_StructsPerBlock sm - 1) - record_at sm b k = SM_StructSize sm * (SM_StructsPerBlock sm - 1 - k)"
      by (simp add: record_at_def diff_mult_distrib2)
    moreover have "record_at sm b k \<le> record_at sm b (SM_StructsPerBlock sm - 1)"
      using True by (intro record_at_le [OF z(1), THEN iffD2]) simp
    ultimately show ?thesis using True Cons k z by (simp add: SM_NumStructsLeftInBlock_def SM_CurBlockIsDepleted_def)
  next
    case False
    then have "SM_NextStruct sm > SM_LastStruct sm" using k z by (simp add: record_at_def)
    then show ?thesis using False by (simp add: SM_NumStructsLeftInBlock_def SM_CurBlockIsDepleted_def)
  qed
  ultimately have left: "SM_NumStructsLeftInBlock sm = card (sm_fresh sm)" by simp
  have f: "finite (sm_records sm)" using card_records [OF ok] by blast
  have s: "sm_fresh sm \<subseteq> sm_records sm" by (auto simp: sm_fresh_def)
  have t: "sm_taken sm \<subseteq> sm_records sm" by (auto simp: sm_taken_def)
  have "sm_records sm - sm_taken sm = sm_fresh sm \<union> set (SM_FreeList sm)"
    using s sm_okD(4) [OF ok] by (auto simp: sm_taken_def)
  moreover have "card (sm_fresh sm \<union> set (SM_FreeList sm)) = card (sm_fresh sm) + length (SM_FreeList sm)"
    using sm_okD(3,4) [OF ok] finite_subset [OF s f] by (subst card_Un_disjoint) (auto simp: distinct_card)
  moreover have "card (sm_records sm - sm_taken sm) + card (sm_taken sm) = card (sm_records sm)"
    using card_Diff_subset [OF finite_subset [OF t f] t] card_mono [OF f t] by simp
  ultimately show ?thesis using left card_records [OF ok] Cons by (simp add: SM_CountFreeStructs_def)
qed

end
