(* ===== verification/Delay_Lists.thy ===== *)
theory Delay_Lists imports XSB_Prelude Delay_Entries Structure_Managers begin

text \<open>
  Conditional answers. An answer that was derived through delayed literals is true if all the literals of one of its
  delay lists are; the literals are delay elements, each about an answer (positive) or a subgoal (negative).
  Behind an answer leaf stands an \<open>AS_info\<close> with its delay lists and with links back to the elements about it; a
  subgoal frame has the links back to the elements that negate it.

  The model has the records of slgdelay.h at their addresses. The chains through \<open>next\<close> (the elements of
  a delay list, the delay lists of an answer, the back links of an answer or a subgoal) are lists of addresses. An answer
  trie is the list of its leaves, a delay trie the terms entered in it. Tables are called by variance. The links
  to the previous back link are left out, since a list has its order; the code reads one only of a back link that is not the first.
\<close>

datatype leaf_child =
    No_Child
  | Aln_Child                  \<comment> \<open>a tagged pointer to an answer list node\<close>
  | Asi_Child nat bool         \<comment> \<open>a pointer to an \<open>AS_info\<close>, and the \<open>UNCONDITIONAL_MARK\<close> on it\<close>

record answer_leaf =
  tn_child :: leaf_child
  tn_valid :: bool             \<comment> \<open>the status of the node\<close>
  tn_escape :: bool            \<comment> \<open>the escape node, the answer of a ground call\<close>

text \<open>\<open>subg_answers\<close> is one of three codes in a completed table and a pointer to the answer list before.\<close>

datatype answer_code = NO_ANSWERS | UNCOND_ANSWERS | COND_ANSWERS | Answer_List

record subgoal_frame =
  sf_completed :: bool
  sf_needs_answer_completion :: bool
  subg_answers :: answer_code
  subg_nde_list :: "nat list"
  ans_leaves :: "nat list"     \<comment> \<open>the leaves of the answer trie\<close>

record delay_element =
  de_subgoal :: nat
  de_ans_subst :: "nat option"
  de_pnde :: "nat option"
  de_subs_fact :: "nat option"

record delay_list =
  dl_de_list :: "nat list"
  dl_asl :: "nat option"

record pos_neg_de =
  pnde_dl :: "nat option"
  pnde_de :: nat

record AS_info =
  asi_pdes :: "nat list"
  asi_subgoal :: nat
  asi_dl_list :: "nat list"
  asi_scratchpad :: nat

record delay_state =
  de_tab :: "nat \<rightharpoonup> delay_element"
  dl_tab :: "nat \<rightharpoonup> delay_list"
  pnde_tab :: "nat \<rightharpoonup> pos_neg_de"
  asi_tab :: "nat \<rightharpoonup> AS_info"
  leaves :: "nat \<rightharpoonup> answer_leaf"
  subgoals :: "nat \<rightharpoonup> subgoal_frame"
  delay_tries :: "nat \<rightharpoonup> nat list"
  de_pool :: entry_pool
  dl_pool :: entry_pool
  pnde_pool :: entry_pool
  smASI :: structure_manager
  sys_break :: nat             \<comment> \<open>the system has given no memory from here on\<close>
  simplification_depth :: nat
  neg_fails_stack :: "nat list"
  in_simplify_neg_fails :: bool

definition look :: "(nat \<rightharpoonup> 'a) \<Rightarrow> nat \<Rightarrow> 'a res" where
  "look m x = (case m x of None \<Rightarrow> Inl (Dangling_Pointer x) | Some y \<Rightarrow> Inr y)"

definition nonnull :: "'a option \<Rightarrow> 'a res" where
  "nonnull p = (case p of None \<Rightarrow> Inl Null_Pointer | Some x \<Rightarrow> Inr x)"

section \<open>Answers and subgoals\<close>

definition is_conditional_answer :: "answer_leaf \<Rightarrow> bool" where
  "is_conditional_answer L = (case tn_child L of Asi_Child a m \<Rightarrow> \<not> m | _ \<Rightarrow> False)"

definition is_unconditional_answer :: "answer_leaf \<Rightarrow> bool" where
  "is_unconditional_answer L \<longleftrightarrow> \<not> is_conditional_answer L"

text \<open>\<open>Delay(X)\<close> takes the marks off the pointer. An answer list node is no \<open>AS_info\<close>.\<close>

definition Delay :: "answer_leaf \<Rightarrow> nat option" where
  "Delay L = (case tn_child L of Asi_Child a m \<Rightarrow> Some a | _ \<Rightarrow> None)"

definition unmark_conditional_answer :: "nat \<Rightarrow> delay_state \<Rightarrow> delay_state res" where
  "unmark_conditional_answer leaf s = res_bind (look (leaves s) leaf) (\<lambda>L. res_bind (nonnull (Delay L)) (\<lambda>a.
     Inr (s\<lparr>leaves := (leaves s)(leaf \<mapsto> L\<lparr>tn_child := Asi_Child a True\<rparr>)\<rparr>)))"

definition most_general_answer :: "answer_leaf \<Rightarrow> bool" where
  "most_general_answer L = tn_escape L"

definition has_answer_code :: "subgoal_frame \<Rightarrow> bool" where
  "has_answer_code F \<longleftrightarrow> ans_leaves F \<noteq> []"

definition subgoal_fails :: "subgoal_frame \<Rightarrow> bool" where
  "subgoal_fails F \<longleftrightarrow> \<not> has_answer_code F"

text \<open>For ground subgoals only, whose answer trie has the escape node as its one leaf.\<close>

definition subgoal_unconditionally_succeeds :: "subgoal_frame \<Rightarrow> delay_state \<Rightarrow> bool res" where
  "subgoal_unconditionally_succeeds F s =
    (case ans_leaves F of [] \<Rightarrow> Inr False
     | l # _ \<Rightarrow> res_bind (look (leaves s) l) (\<lambda>L. Inr (is_unconditional_answer L)))"

definition upd_subgoal :: "nat \<Rightarrow> (subgoal_frame \<Rightarrow> subgoal_frame) \<Rightarrow> delay_state \<Rightarrow> delay_state res" where
  "upd_subgoal S f s = res_bind (look (subgoals s) S) (\<lambda>F. Inr (s\<lparr>subgoals := (subgoals s)(S \<mapsto> f F)\<rparr>))"

definition answer_complete_subg :: "nat \<Rightarrow> delay_state \<Rightarrow> delay_state res" where
  "answer_complete_subg S = upd_subgoal S (\<lambda>F. F\<lparr>sf_needs_answer_completion := False\<rparr>)"

definition mark_subgoal_failed :: "nat \<Rightarrow> delay_state \<Rightarrow> delay_state res" where
  "mark_subgoal_failed S = upd_subgoal S (\<lambda>F. F\<lparr>ans_leaves := []\<rparr>)"

text \<open>
  The branch of an answer is freed: the leaf is no longer in the answer trie. Simplification goes on to read its
  fields in the freed memory, so they are kept; the leaf is no longer valid, which is what the code tests.
\<close>

definition delete_answer :: "nat \<Rightarrow> nat \<Rightarrow> delay_state \<Rightarrow> delay_state res" where
  "delete_answer leaf S s = res_bind (look (leaves s) leaf) (\<lambda>L.
     upd_subgoal S (\<lambda>F. F\<lparr>ans_leaves := remove1 leaf (ans_leaves F)\<rparr>)
       (s\<lparr>leaves := (leaves s)(leaf \<mapsto> L\<lparr>tn_valid := False\<rparr>)\<rparr>))"

section \<open>Delayed literals on the heap\<close>

text \<open>A delayed literal is a term \<open>DL(subgoal, answer, ret)\<close>; \<open>dt_fact\<close> are the arguments of \<open>ret\<close>.\<close>

record delay_term =
  dt_subgoal :: nat
  dt_answer :: "nat option"
  dt_fact :: "nat list"

definition delay_negatively :: "nat \<Rightarrow> delay_term list \<Rightarrow> delay_term list" where
  "delay_negatively S dr = \<lparr>dt_subgoal = S, dt_answer = None, dt_fact = []\<rparr> # dr"

definition delay_positively :: "nat \<Rightarrow> nat \<Rightarrow> nat list \<Rightarrow> delay_term list \<Rightarrow> delay_term list" where
  "delay_positively S leaf fact' dr = \<lparr>dt_subgoal = S, dt_answer = Some leaf, dt_fact = fact'\<rparr> # dr"

definition was_simplifiable :: "nat \<Rightarrow> nat option \<Rightarrow> delay_state \<Rightarrow> bool res" where
  "was_simplifiable S ans s =
    (case ans of
       None \<Rightarrow> res_bind (look (subgoals s) S) (\<lambda>F. Inr (sf_completed F \<and> subgoal_fails F))
     | Some l \<Rightarrow> res_bind (look (leaves s) l) (\<lambda>L. Inr (is_unconditional_answer L)))"

definition is_failing_delay_element :: "nat \<Rightarrow> nat option \<Rightarrow> delay_state \<Rightarrow> bool res" where
  "is_failing_delay_element S ans s =
    (case ans of
       None \<Rightarrow> res_bind (look (subgoals s) S) (\<lambda>F.
         if sf_completed F \<and> has_answer_code F then subgoal_unconditionally_succeeds F s else Inr False)
     | Some l \<Rightarrow> res_bind (look (leaves s) l) (\<lambda>L. Inr (\<not> tn_valid L)))"

fun answer_is_unsupported :: "delay_term list \<Rightarrow> delay_state \<Rightarrow> bool res" where
  "answer_is_unsupported [] s = Inr False"
| "answer_is_unsupported (d # ds) s = res_bind (is_failing_delay_element (dt_subgoal d) (dt_answer d) s) (\<lambda>b.
     if b then Inr True else answer_is_unsupported ds s)"

section \<open>Allocation\<close>

definition new_de :: "delay_element \<Rightarrow> delay_state \<Rightarrow> nat \<times> delay_state" where
  "new_de e s = (case new_entry (sys_break s) (de_pool s) of (x, p) \<Rightarrow>
     (x, s\<lparr>de_tab := (de_tab s)(x \<mapsto> e), de_pool := p, sys_break := sys_break s + block_entries\<rparr>))"

definition new_dl :: "delay_list \<Rightarrow> delay_state \<Rightarrow> nat \<times> delay_state" where
  "new_dl d s = (case new_entry (sys_break s) (dl_pool s) of (x, p) \<Rightarrow>
     (x, s\<lparr>dl_tab := (dl_tab s)(x \<mapsto> d), dl_pool := p, sys_break := sys_break s + block_entries\<rparr>))"

definition new_pnde :: "pos_neg_de \<Rightarrow> delay_state \<Rightarrow> nat \<times> delay_state" where
  "new_pnde q s = (case new_entry (sys_break s) (pnde_pool s) of (x, p) \<Rightarrow>
     (x, s\<lparr>pnde_tab := (pnde_tab s)(x \<mapsto> q), pnde_pool := p, sys_break := sys_break s + block_entries\<rparr>))"

definition new_asi :: "AS_info \<Rightarrow> delay_state \<Rightarrow> nat \<times> delay_state" where
  "new_asi i s = (case SM_AllocateStruct (sys_break s) (smASI s) of (x, m) \<Rightarrow>
     (x, s\<lparr>asi_tab := (asi_tab s)(x \<mapsto> i), smASI := m, sys_break := sys_break s + SM_NewBlockSize (smASI s)\<rparr>))"

definition release_dl :: "nat \<Rightarrow> delay_state \<Rightarrow> delay_state" where
  "release_dl dl s = s\<lparr>dl_tab := (dl_tab s)(dl := None), dl_pool := release_entry dl (dl_pool s)\<rparr>"

definition release_pnde :: "nat \<Rightarrow> delay_state \<Rightarrow> delay_state" where
  "release_pnde p s = s\<lparr>pnde_tab := (pnde_tab s)(p := None), pnde_pool := release_entry p (pnde_pool s)\<rparr>"

definition free_asi :: "nat \<Rightarrow> delay_state \<Rightarrow> delay_state" where
  "free_asi a s = s\<lparr>asi_tab := (asi_tab s)(a := None), smASI := SM_DeallocateStruct a (smASI s)\<rparr>"

text \<open>A delay trie holds the arguments of one \<open>ret\<close> term.\<close>

definition delay_chk_insert :: "nat list \<Rightarrow> delay_state \<Rightarrow> nat \<times> delay_state" where
  "delay_chk_insert ts s = (sys_break s, s\<lparr>delay_tries := (delay_tries s)(sys_break s \<mapsto> ts), sys_break := sys_break s + 1\<rparr>)"

definition delete_delay_trie :: "nat option \<Rightarrow> delay_state \<Rightarrow> delay_state res" where
  "delete_delay_trie root s =
    (case root of None \<Rightarrow> Inr s
     | Some r \<Rightarrow> res_bind (look (delay_tries s) r) (\<lambda>_. Inr (s\<lparr>delay_tries := (delay_tries s)(r := None)\<rparr>)))"

definition release_shared_de_entry :: "nat \<Rightarrow> delay_state \<Rightarrow> delay_state res" where
  "release_shared_de_entry de s = res_bind (look (de_tab s) de) (\<lambda>e.
     res_bind (delete_delay_trie (de_subs_fact e) s) (\<lambda>s1.
     Inr (s1\<lparr>de_tab := (de_tab s1)(de := None), de_pool := release_entry de (de_pool s1)\<rparr>)))"

section \<open>Interning a delay list\<close>

definition intern_delay_element :: "delay_term \<Rightarrow> delay_state \<Rightarrow> (nat option \<times> delay_state) res" where
  "intern_delay_element d s = res_bind (was_simplifiable (dt_subgoal d) (dt_answer d) s) (\<lambda>b.
     if b then Inr (None, s)
     else
       let e = \<lparr>de_subgoal = dt_subgoal d, de_ans_subst = dt_answer d, de_pnde = None, de_subs_fact = None\<rparr> in
       case new_de e s of (x, s1) \<Rightarrow>
         if dt_fact d = [] then Inr (Some x, s1)
         else (case delay_chk_insert (dt_fact d) s1 of (root, s2) \<Rightarrow>
           Inr (Some x, s2\<lparr>de_tab := (de_tab s2)(x \<mapsto> e\<lparr>de_subs_fact := Some root\<rparr>)\<rparr>)))"

fun intern_delay_elements :: "delay_term list \<Rightarrow> nat list \<Rightarrow> delay_state \<Rightarrow> (nat list \<times> delay_state) res" where
  "intern_delay_elements [] head s = Inr (head, s)"
| "intern_delay_elements (d # ds) head s = res_bind (intern_delay_element d s) (\<lambda>(x, s1).
     intern_delay_elements ds (case x of None \<Rightarrow> head | Some de \<Rightarrow> de # head) s1)"

definition intern_delay_list :: "delay_term list \<Rightarrow> delay_state \<Rightarrow> (nat option \<times> delay_state) res" where
  "intern_delay_list ds s = res_bind (intern_delay_elements ds [] s) (\<lambda>(head, s1).
     if head \<noteq> [] then (case new_dl \<lparr>dl_de_list = head, dl_asl = None\<rparr> s1 of (dl, s2) \<Rightarrow> Inr (Some dl, s2))
     else Inr (None, s1))"

definition create_asi_info :: "nat \<Rightarrow> nat \<Rightarrow> delay_state \<Rightarrow> (nat \<times> delay_state) res" where
  "create_asi_info leaf S s = res_bind (look (leaves s) leaf) (\<lambda>L.
     case new_asi \<lparr>asi_pdes = [], asi_subgoal = S, asi_dl_list = [], asi_scratchpad = 0\<rparr> s of (a, s1) \<Rightarrow>
       Inr (a, s1\<lparr>leaves := (leaves s1)(leaf \<mapsto> L\<lparr>tn_child := Asi_Child a False\<rparr>)\<rparr>))"

definition mark_conditional_answer :: "nat \<Rightarrow> nat \<Rightarrow> nat \<Rightarrow> delay_state \<Rightarrow> delay_state res" where
  "mark_conditional_answer leaf S dl s = res_bind (look (leaves s) leaf) (\<lambda>L.
     res_bind (case Delay L of None \<Rightarrow> create_asi_info leaf S s | Some a \<Rightarrow> Inr (a, s)) (\<lambda>(a, s1).
     res_bind (look (asi_tab s1) a) (\<lambda>i. res_bind (look (dl_tab s1) dl) (\<lambda>d.
     Inr (s1\<lparr>asi_tab := (asi_tab s1)(a \<mapsto> i\<lparr>asi_dl_list := dl # asi_dl_list i\<rparr>),
             dl_tab := (dl_tab s1)(dl \<mapsto> d\<lparr>dl_asl := Some leaf\<rparr>)\<rparr>)))))"

text \<open>The head of the list of back links that an element is recorded in.\<close>

definition push_nde :: "nat \<Rightarrow> nat \<Rightarrow> delay_state \<Rightarrow> delay_state res" where
  "push_nde S p = upd_subgoal S (\<lambda>F. F\<lparr>subg_nde_list := p # subg_nde_list F\<rparr>)"

definition push_pde :: "nat \<Rightarrow> nat \<Rightarrow> delay_state \<Rightarrow> delay_state res" where
  "push_pde l p s = res_bind (look (leaves s) l) (\<lambda>L. res_bind (nonnull (Delay L)) (\<lambda>a. res_bind (look (asi_tab s) a) (\<lambda>i.
     Inr (s\<lparr>asi_tab := (asi_tab s)(a \<mapsto> i\<lparr>asi_pdes := p # asi_pdes i\<rparr>)\<rparr>))))"

fun record_des :: "nat \<Rightarrow> nat list \<Rightarrow> delay_state \<Rightarrow> delay_state res" where
  "record_des dl [] s = Inr s"
| "record_des dl (de # des) s = res_bind (look (de_tab s) de) (\<lambda>e.
     case new_pnde \<lparr>pnde_dl = Some dl, pnde_de = de\<rparr> s of (p, s1) \<Rightarrow>
       res_bind (case de_ans_subst e of None \<Rightarrow> push_nde (de_subgoal e) p s1 | Some l \<Rightarrow> push_pde l p s1) (\<lambda>s2.
       record_des dl des (s2\<lparr>de_tab := (de_tab s2)(de \<mapsto> e\<lparr>de_pnde := Some p\<rparr>)\<rparr>)))"

definition record_de_usage :: "nat \<Rightarrow> delay_state \<Rightarrow> delay_state res" where
  "record_de_usage dl s = res_bind (look (dl_tab s) dl) (\<lambda>d. record_des dl (dl_de_list d) s)"

section \<open>Removing elements and lists\<close>

definition remove_nde :: "nat \<Rightarrow> nat \<Rightarrow> delay_state \<Rightarrow> delay_state res" where
  "remove_nde S p s = res_bind (look (subgoals s) S) (\<lambda>F.
     if p \<notin> set (subg_nde_list F) then Inl (Dangling_Pointer p)
     else Inr (release_pnde p (s\<lparr>subgoals := (subgoals s)(S \<mapsto> F\<lparr>subg_nde_list := remove1 p (subg_nde_list F)\<rparr>)\<rparr>)))"

definition remove_pde :: "nat \<Rightarrow> nat \<Rightarrow> delay_state \<Rightarrow> delay_state res" where
  "remove_pde a p s = res_bind (look (asi_tab s) a) (\<lambda>i.
     if p \<notin> set (asi_pdes i) then Inl (Dangling_Pointer p)
     else Inr (release_pnde p (s\<lparr>asi_tab := (asi_tab s)(a \<mapsto> i\<lparr>asi_pdes := remove1 p (asi_pdes i)\<rparr>)\<rparr>)))"

text \<open>
  The back link of an element that goes is removed. \<open>release_all_dls\<close> tests first whether the subgoal has any
  (\<open>checked\<close>), the other loops do not.
\<close>

definition remove_usage :: "bool \<Rightarrow> nat \<Rightarrow> delay_state \<Rightarrow> delay_state res" where
  "remove_usage checked de s = res_bind (look (de_tab s) de) (\<lambda>e.
     case de_ans_subst e of
       None \<Rightarrow> res_bind (look (subgoals s) (de_subgoal e)) (\<lambda>F.
         if checked \<and> subg_nde_list F = [] then Inr s
         else res_bind (nonnull (de_pnde e)) (\<lambda>p. remove_nde (de_subgoal e) p s))
     | Some l \<Rightarrow> res_bind (look (leaves s) l) (\<lambda>L. res_bind (nonnull (Delay L)) (\<lambda>a.
         res_bind (nonnull (de_pnde e)) (\<lambda>p. remove_pde a p s))))"

fun release_elements :: "bool \<Rightarrow> nat list \<Rightarrow> delay_state \<Rightarrow> delay_state res" where
  "release_elements checked [] s = Inr s"
| "release_elements checked (de # des) s = res_bind (remove_usage checked de s) (\<lambda>s1.
     res_bind (release_shared_de_entry de s1) (\<lambda>s2. release_elements checked des s2))"

fun release_dls :: "nat list \<Rightarrow> delay_state \<Rightarrow> delay_state res" where
  "release_dls [] s = Inr s"
| "release_dls (dl # dls) s = res_bind (look (dl_tab s) dl) (\<lambda>d.
     res_bind (release_elements True (dl_de_list d) s) (\<lambda>s1. release_dls dls (release_dl dl s1)))"

definition release_all_dls :: "nat \<Rightarrow> delay_state \<Rightarrow> delay_state res" where
  "release_all_dls a s = res_bind (look (asi_tab s) a) (\<lambda>i. release_dls (asi_dl_list i) s)"

text \<open>Both loops run off the end of the list when the entry is not in it. The result says whether anything is left.\<close>

definition remove_de_from_dl :: "nat \<Rightarrow> nat \<Rightarrow> delay_state \<Rightarrow> (bool \<times> delay_state) res" where
  "remove_de_from_dl de dl s = res_bind (look (dl_tab s) dl) (\<lambda>d.
     if de \<notin> set (dl_de_list d) then Inl Null_Pointer
     else res_bind (release_shared_de_entry de
            (s\<lparr>dl_tab := (dl_tab s)(dl \<mapsto> d\<lparr>dl_de_list := remove1 de (dl_de_list d)\<rparr>)\<rparr>)) (\<lambda>s1.
          Inr (remove1 de (dl_de_list d) \<noteq> [], s1)))"

definition remove_dl_from_dl_list :: "nat \<Rightarrow> nat \<Rightarrow> delay_state \<Rightarrow> (bool \<times> delay_state) res" where
  "remove_dl_from_dl_list dl a s = res_bind (look (asi_tab s) a) (\<lambda>i.
     if asi_dl_list i = [] then Inr (False, s)
     else if dl \<notin> set (asi_dl_list i) then Inl Null_Pointer
     else Inr (remove1 dl (asi_dl_list i) \<noteq> [],
            release_dl dl (s\<lparr>asi_tab := (asi_tab s)(a \<mapsto> i\<lparr>asi_dl_list := remove1 dl (asi_dl_list i)\<rparr>)\<rparr>)))"

end
