(* ===== verification/Delay_Network.thy ===== *)
theory Delay_Network imports Delay_Lists begin

text \<open>
  The network of delay lists and back links. Its invariant \<open>net_ok\<close> is about a view of the state as functions, in which
  the removal of an element is a change at single places. The two sets are elements that are not yet recorded and
  delay lists that do not yet belong to an answer, while a new list is entered.
\<close>

datatype target = Neg nat | Pos nat

record network =
  n_dls :: "nat \<Rightarrow> nat list"                      \<comment> \<open>the delay lists of an answer\<close>
  n_des :: "nat \<Rightarrow> nat list"                      \<comment> \<open>the elements of a delay list\<close>
  n_bl :: "target \<Rightarrow> nat list"                    \<comment> \<open>the back links of an answer or a subgoal\<close>
  n_ref :: "nat \<rightharpoonup> target \<times> nat"                 \<comment> \<open>what an element is about, and its back link\<close>
  n_lnk :: "nat \<rightharpoonup> nat \<times> nat"                    \<comment> \<open>the delay list and the element of a back link\<close>
  n_asl :: "nat \<rightharpoonup> nat"
  n_ded :: "nat set"
  n_dld :: "nat set"
  n_pnd :: "nat set"

definition net_ok :: "nat set \<Rightarrow> nat set \<Rightarrow> network \<Rightarrow> bool" where
  "net_ok Z W N \<longleftrightarrow>
     (\<forall>l dl. dl \<in> set (n_dls N l) \<longrightarrow> n_asl N dl = Some l \<and> dl \<in> n_dld N \<and> distinct (n_des N dl)) \<and>
     (\<forall>l. distinct (n_dls N l)) \<and>
     (\<forall>l dl de. dl \<in> set (n_dls N l) \<longrightarrow> de \<in> set (n_des N dl) \<longrightarrow>
        (\<exists>t p. n_ref N de = Some (t, p) \<and> n_lnk N p = Some (dl, de) \<and> p \<in> set (n_bl N t))) \<and>
     (\<forall>t p. p \<in> set (n_bl N t) \<longrightarrow>
        (\<exists>l dl de. n_lnk N p = Some (dl, de) \<and> dl \<in> set (n_dls N l) \<and> de \<in> set (n_des N dl) \<and> n_ref N de = Some (t, p))) \<and>
     (\<forall>t. distinct (n_bl N t)) \<and>
     (\<forall>de \<in> n_ded N. de \<in> Z \<or> (\<exists>l dl. dl \<in> set (n_dls N l) \<and> de \<in> set (n_des N dl))) \<and>
     (\<forall>dl \<in> n_dld N. dl \<in> W \<or> (\<exists>l. dl \<in> set (n_dls N l))) \<and>
     (\<forall>p \<in> n_pnd N. \<exists>t. p \<in> set (n_bl N t))"

lemma net_okD:
  assumes "net_ok Z W N"
  shows "dl \<in> set (n_dls N l) \<Longrightarrow> n_asl N dl = Some l"
    and "dl \<in> set (n_dls N l) \<Longrightarrow> dl \<in> n_dld N"
    and "dl \<in> set (n_dls N l) \<Longrightarrow> distinct (n_des N dl)"
    and "distinct (n_dls N l)"
    and "distinct (n_bl N t)"
  using assms by (auto simp: net_ok_def)

lemma net_refE:
  assumes "net_ok Z W N" "dl \<in> set (n_dls N l)" "de \<in> set (n_des N dl)"
  obtains t p where "n_ref N de = Some (t, p)" "n_lnk N p = Some (dl, de)" "p \<in> set (n_bl N t)"
  using assms unfolding net_ok_def by metis

lemma net_lnkE:
  assumes "net_ok Z W N" "p \<in> set (n_bl N t)"
  obtains l dl de where "n_lnk N p = Some (dl, de)" "dl \<in> set (n_dls N l)" "de \<in> set (n_des N dl)" "n_ref N de = Some (t, p)"
  using assms unfolding net_ok_def by metis

lemma net_okI:
  assumes "\<And>l dl. dl \<in> set (n_dls N l) \<Longrightarrow> n_asl N dl = Some l \<and> dl \<in> n_dld N \<and> distinct (n_des N dl)"
    and "\<And>l. distinct (n_dls N l)"
    and "\<And>l dl de. dl \<in> set (n_dls N l) \<Longrightarrow> de \<in> set (n_des N dl) \<Longrightarrow>
        \<exists>t p. n_ref N de = Some (t, p) \<and> n_lnk N p = Some (dl, de) \<and> p \<in> set (n_bl N t)"
    and "\<And>t p. p \<in> set (n_bl N t) \<Longrightarrow>
        \<exists>l dl de. n_lnk N p = Some (dl, de) \<and> dl \<in> set (n_dls N l) \<and> de \<in> set (n_des N dl) \<and> n_ref N de = Some (t, p)"
    and "\<And>t. distinct (n_bl N t)"
    and "\<And>de. de \<in> n_ded N \<Longrightarrow> de \<in> Z \<or> (\<exists>l dl. dl \<in> set (n_dls N l) \<and> de \<in> set (n_des N dl))"
    and "\<And>dl. dl \<in> n_dld N \<Longrightarrow> dl \<in> W \<or> (\<exists>l. dl \<in> set (n_dls N l))"
    and "\<And>p. p \<in> n_pnd N \<Longrightarrow> \<exists>t. p \<in> set (n_bl N t)"
  shows "net_ok Z W N"
  using assms unfolding net_ok_def by blast

text \<open>An element is in one place, and a list belongs to one answer.\<close>

lemma net_unique:
  assumes "net_ok Z W N" "dl \<in> set (n_dls N l)" "de \<in> set (n_des N dl)" "dl' \<in> set (n_dls N l')" "de \<in> set (n_des N dl')"
  shows "dl' = dl \<and> l' = l"
proof -
  obtain t p where r: "n_ref N de = Some (t, p)" "n_lnk N p = Some (dl, de)" using assms(1-3) by (rule net_refE)
  obtain t' p' where r': "n_ref N de = Some (t', p')" "n_lnk N p' = Some (dl', de)" using assms(1,4,5) by (rule net_refE)
  have d: "dl' = dl" using r r' by simp
  have "n_asl N dl = Some l" "n_asl N dl' = Some l'" using net_okD(1) [OF assms(1)] assms(2,4) by blast+
  then show ?thesis using d by simp
qed

lemma net_one_answer:
  assumes "net_ok Z W N" "dl \<in> set (n_dls N l)" "dl \<in> set (n_dls N k)"
  shows "k = l"
proof -
  have "n_asl N dl = Some l" "n_asl N dl = Some k" using net_okD(1) [OF assms(1)] assms(2,3) by blast+
  then show ?thesis by simp
qed

section \<open>Removing\<close>

text \<open>An element and its back link are removed.\<close>

definition cut :: "nat \<Rightarrow> nat \<Rightarrow> target \<Rightarrow> nat \<Rightarrow> network \<Rightarrow> network" where
  "cut dl de t p N = N\<lparr>n_des := (n_des N)(dl := remove1 de (n_des N dl)), n_bl := (n_bl N)(t := remove1 p (n_bl N t)),
     n_ref := (n_ref N)(de := None), n_lnk := (n_lnk N)(p := None), n_ded := n_ded N - {de}, n_pnd := n_pnd N - {p}\<rparr>"

lemma cut_simps [simp]:
  "n_dls (cut dl de t p N) = n_dls N" "n_asl (cut dl de t p N) = n_asl N" "n_dld (cut dl de t p N) = n_dld N"
  "n_des (cut dl de t p N) = (n_des N)(dl := remove1 de (n_des N dl))"
  "n_bl (cut dl de t p N) = (n_bl N)(t := remove1 p (n_bl N t))"
  "n_ref (cut dl de t p N) = (n_ref N)(de := None)" "n_lnk (cut dl de t p N) = (n_lnk N)(p := None)"
  "n_ded (cut dl de t p N) = n_ded N - {de}" "n_pnd (cut dl de t p N) = n_pnd N - {p}"
  by (simp_all add: cut_def)

lemma cut_ok:
  assumes n: "net_ok Z W N" and dl: "dl \<in> set (n_dls N l)" and de: "de \<in> set (n_des N dl)" and r: "n_ref N de = Some (t, p)"
  shows "net_ok Z W (cut dl de t p N)"
proof -
  obtain t' p' where "n_ref N de = Some (t', p')" "n_lnk N p' = Some (dl, de)" "p' \<in> set (n_bl N t')" using n dl de by (rule net_refE)
  then have lk: "n_lnk N p = Some (dl, de)" "p \<in> set (n_bl N t)" using r by simp_all
  have des: "e \<in> set (n_des (cut dl de t p N) d) \<longleftrightarrow> e \<in> set (n_des N d) \<and> (d, e) \<noteq> (dl, de)" if "d \<in> set (n_dls N k)" for d e k
    using net_okD(3) [OF n that] by (auto simp: set_remove1_eq)
  have bl: "q \<in> set (n_bl (cut dl de t p N) u) \<longleftrightarrow> q \<in> set (n_bl N u) \<and> q \<noteq> p" for q u
  proof -
    have "u = t" if pu: "p \<in> set (n_bl N u)"
    proof -
      obtain l2 d2 e2 where "n_lnk N p = Some (d2, e2)" "d2 \<in> set (n_dls N l2)" "e2 \<in> set (n_des N d2)" "n_ref N e2 = Some (u, p)"
        using n pu by (rule net_lnkE)
      then show ?thesis using lk r by simp
    qed
    then show ?thesis using net_okD(5) [OF n, of t] by (auto simp: set_remove1_eq)
  qed
  show ?thesis
  proof (rule net_okI)
    fix k d assume "d \<in> set (n_dls (cut dl de t p N) k)"
    then show "n_asl (cut dl de t p N) d = Some k \<and> d \<in> n_dld (cut dl de t p N) \<and> distinct (n_des (cut dl de t p N) d)"
      using net_okD(1-3) [OF n] by (auto simp: distinct_remove1)
  next
    fix k d e assume d: "d \<in> set (n_dls (cut dl de t p N) k)" and e: "e \<in> set (n_des (cut dl de t p N) d)"
    have d': "d \<in> set (n_dls N k)" using d by simp
    have e': "e \<in> set (n_des N d)" "(d, e) \<noteq> (dl, de)" using e des [OF d'] by simp_all
    obtain u q where q: "n_ref N e = Some (u, q)" "n_lnk N q = Some (d, e)" "q \<in> set (n_bl N u)" using n d' e'(1) by (rule net_refE)
    have "q \<noteq> p" using q lk e' by auto
    moreover have "e \<noteq> de" using net_unique [OF n dl de d'] e' by auto
    ultimately show "\<exists>u q. n_ref (cut dl de t p N) e = Some (u, q) \<and> n_lnk (cut dl de t p N) q = Some (d, e) \<and> q \<in> set (n_bl (cut dl de t p N) u)"
      using q bl by (intro exI [of _ u] exI [of _ q]) simp
  next
    fix u q assume "q \<in> set (n_bl (cut dl de t p N) u)"
    then have q: "q \<in> set (n_bl N u)" "q \<noteq> p" using bl by simp_all
    obtain k d e where e: "n_lnk N q = Some (d, e)" "d \<in> set (n_dls N k)" "e \<in> set (n_des N d)" "n_ref N e = Some (u, q)"
      using n q(1) by (rule net_lnkE)
    have "e \<noteq> de" using e r q by auto
    then show "\<exists>k d e. n_lnk (cut dl de t p N) q = Some (d, e) \<and> d \<in> set (n_dls (cut dl de t p N) k) \<and>
        e \<in> set (n_des (cut dl de t p N) d) \<and> n_ref (cut dl de t p N) e = Some (u, q)"
      using e q des [OF e(2)] by (intro exI [of _ k] exI [of _ d] exI [of _ e]) simp
  next
    fix u show "distinct (n_bl (cut dl de t p N) u)" using net_okD(5) [OF n] by (simp add: distinct_remove1)
  next
    fix e assume "e \<in> n_ded (cut dl de t p N)"
    then have "e \<in> n_ded N" "e \<noteq> de" by simp_all
    then have "e \<in> Z \<or> (\<exists>k d. d \<in> set (n_dls N k) \<and> e \<in> set (n_des N d))" using n by (simp add: net_ok_def)
    then show "e \<in> Z \<or> (\<exists>k d. d \<in> set (n_dls (cut dl de t p N) k) \<and> e \<in> set (n_des (cut dl de t p N) d))"
    proof
      assume "\<exists>k d. d \<in> set (n_dls N k) \<and> e \<in> set (n_des N d)"
      then obtain k d where kd: "d \<in> set (n_dls N k)" "e \<in> set (n_des N d)" by blast
      then show ?thesis using des [OF kd(1), of e] \<open>e \<noteq> de\<close> by (intro disjI2 exI [of _ k] exI [of _ d]) (simp del: cut_simps(4))
    qed simp
  next
    fix q assume "q \<in> n_pnd (cut dl de t p N)"
    then have "q \<in> n_pnd N" "q \<noteq> p" by simp_all
    then obtain u where "q \<in> set (n_bl N u)" using n by (auto simp: net_ok_def)
    then show "\<exists>u. q \<in> set (n_bl (cut dl de t p N) u)" using bl \<open>q \<noteq> p\<close> by blast
  qed (use n in \<open>auto simp: net_ok_def\<close>)
qed

text \<open>An empty list is removed.\<close>

definition drop_list :: "nat \<Rightarrow> nat \<Rightarrow> network \<Rightarrow> network" where
  "drop_list l dl N = N\<lparr>n_dls := (n_dls N)(l := remove1 dl (n_dls N l)), n_des := (n_des N)(dl := []),
     n_asl := (n_asl N)(dl := None), n_dld := n_dld N - {dl}\<rparr>"

lemma drop_list_simps [simp]:
  "n_dls (drop_list l dl N) = (n_dls N)(l := remove1 dl (n_dls N l))" "n_des (drop_list l dl N) = (n_des N)(dl := [])"
  "n_asl (drop_list l dl N) = (n_asl N)(dl := None)" "n_dld (drop_list l dl N) = n_dld N - {dl}"
  "n_bl (drop_list l dl N) = n_bl N" "n_ref (drop_list l dl N) = n_ref N" "n_lnk (drop_list l dl N) = n_lnk N"
  "n_ded (drop_list l dl N) = n_ded N" "n_pnd (drop_list l dl N) = n_pnd N"
  by (simp_all add: drop_list_def)

lemma drop_list_ok:
  assumes n: "net_ok Z W N" and dl: "dl \<in> set (n_dls N l)" and e: "n_des N dl = []"
  shows "net_ok Z W (drop_list l dl N)"
proof -
  have dls: "d \<in> set (n_dls (drop_list l dl N) k) \<longleftrightarrow> d \<in> set (n_dls N k) \<and> d \<noteq> dl" for d k
    using net_okD(4) [OF n] net_one_answer [OF n dl] by (auto simp: set_remove1_eq)
  show ?thesis
  proof (rule net_okI)
    fix u q assume "q \<in> set (n_bl (drop_list l dl N) u)"
    then have q: "q \<in> set (n_bl N u)" by simp
    obtain k d x where x: "n_lnk N q = Some (d, x)" "d \<in> set (n_dls N k)" "x \<in> set (n_des N d)" "n_ref N x = Some (u, q)"
      using n q by (rule net_lnkE)
    moreover have "d \<noteq> dl" using x e by auto
    ultimately show "\<exists>k d x. n_lnk (drop_list l dl N) q = Some (d, x) \<and> d \<in> set (n_dls (drop_list l dl N) k) \<and>
        x \<in> set (n_des (drop_list l dl N) d) \<and> n_ref (drop_list l dl N) x = Some (u, q)"
      using dls by (intro exI [of _ k] exI [of _ d] exI [of _ x]) (simp del: drop_list_simps(1))
  next
    fix x assume "x \<in> n_ded (drop_list l dl N)"
    then have "x \<in> n_ded N" by simp
    then have "x \<in> Z \<or> (\<exists>k d. d \<in> set (n_dls N k) \<and> x \<in> set (n_des N d))" using n by (simp add: net_ok_def)
    then show "x \<in> Z \<or> (\<exists>k d. d \<in> set (n_dls (drop_list l dl N) k) \<and> x \<in> set (n_des (drop_list l dl N) d))"
    proof
      assume "\<exists>k d. d \<in> set (n_dls N k) \<and> x \<in> set (n_des N d)"
      then obtain k d where kd: "d \<in> set (n_dls N k)" "x \<in> set (n_des N d)" by blast
      then have "d \<noteq> dl" using e by auto
      then show ?thesis using kd dls by (intro disjI2 exI [of _ k] exI [of _ d]) (simp del: drop_list_simps(1))
    qed simp
  next
    fix k d x assume "d \<in> set (n_dls (drop_list l dl N) k)" "x \<in> set (n_des (drop_list l dl N) d)"
    then have d: "d \<in> set (n_dls N k)" and x: "x \<in> set (n_des N d)" using dls by (auto split: if_splits)
    obtain t p where "n_ref N x = Some (t, p)" "n_lnk N p = Some (d, x)" "p \<in> set (n_bl N t)" using n d x by (rule net_refE)
    then show "\<exists>t p. n_ref (drop_list l dl N) x = Some (t, p) \<and> n_lnk (drop_list l dl N) p = Some (d, x) \<and> p \<in> set (n_bl (drop_list l dl N) t)"
      by simp
  next
    fix k show "distinct (n_dls (drop_list l dl N) k)" using net_okD(4) [OF n] by (simp add: distinct_remove1)
  next
    fix k d assume d: "d \<in> set (n_dls (drop_list l dl N) k)"
    then show "n_asl (drop_list l dl N) d = Some k \<and> d \<in> n_dld (drop_list l dl N) \<and> distinct (n_des (drop_list l dl N) d)"
      using dls [of d k] net_okD(1) [OF n, of d k] net_okD(2) [OF n, of d k] net_okD(3) [OF n, of d k] by simp
  next
    fix d assume "d \<in> n_dld (drop_list l dl N)"
    then have "d \<in> n_dld N" "d \<noteq> dl" by simp_all
    then have "d \<in> W \<or> (\<exists>k. d \<in> set (n_dls N k))" using n by (simp add: net_ok_def)
    then show "d \<in> W \<or> (\<exists>k. d \<in> set (n_dls (drop_list l dl N) k))" using dls \<open>d \<noteq> dl\<close> by blast
  qed (use n in \<open>auto simp: net_ok_def\<close>)
qed

end
