(* ===== verification/Delay_Steps.thy ===== *)
theory Delay_Steps imports Delay_Network begin

text \<open>
  What the operations on delay lists do to the network: the view of a state, the invariant of a state, and each removal as a
  change of the view. \<open>D\<close> are the answers that are being deleted: they are no longer valid but
  what is behind them is still in use.
\<close>

section \<open>The view of a state\<close>

definition holds_asi :: "nat set \<Rightarrow> delay_state \<Rightarrow> nat \<Rightarrow> nat \<Rightarrow> bool \<Rightarrow> bool" where
  "holds_asi D s l a m \<longleftrightarrow> (\<exists>L. leaves s l = Some L \<and> tn_child L = Asi_Child a m \<and> (tn_valid L \<or> l \<in> D))"

definition asi_field :: "(AS_info \<Rightarrow> nat list) \<Rightarrow> delay_state \<Rightarrow> nat \<Rightarrow> nat list" where
  "asi_field f s a = (case asi_tab s a of None \<Rightarrow> [] | Some i \<Rightarrow> f i)"

definition dls_of :: "delay_state \<Rightarrow> nat \<Rightarrow> nat list" where
  "dls_of s l = (case leaves s l of None \<Rightarrow> []
     | Some L \<Rightarrow> (case tn_child L of Asi_Child a m \<Rightarrow> if tn_valid L \<and> \<not> m then asi_field asi_dl_list s a else [] | _ \<Rightarrow> []))"

definition des_of :: "delay_state \<Rightarrow> nat \<Rightarrow> nat list" where
  "des_of s dl = (case dl_tab s dl of None \<Rightarrow> [] | Some d \<Rightarrow> dl_de_list d)"

primrec bl_of :: "nat set \<Rightarrow> delay_state \<Rightarrow> target \<Rightarrow> nat list" where
  "bl_of D s (Neg S) = (case subgoals s S of None \<Rightarrow> [] | Some F \<Rightarrow> subg_nde_list F)"
| "bl_of D s (Pos l) = (case leaves s l of None \<Rightarrow> []
     | Some L \<Rightarrow> (case tn_child L of Asi_Child a m \<Rightarrow> if tn_valid L \<or> l \<in> D then asi_field asi_pdes s a else [] | _ \<Rightarrow> []))"

definition target_of :: "delay_element \<Rightarrow> target" where
  "target_of e = (case de_ans_subst e of None \<Rightarrow> Neg (de_subgoal e) | Some l \<Rightarrow> Pos l)"

definition ref_of :: "delay_state \<Rightarrow> nat \<rightharpoonup> target \<times> nat" where
  "ref_of s de = (case de_tab s de of None \<Rightarrow> None | Some e \<Rightarrow> map_option (Pair (target_of e)) (de_pnde e))"

definition lnk_of :: "delay_state \<Rightarrow> nat \<rightharpoonup> nat \<times> nat" where
  "lnk_of s p = (case pnde_tab s p of None \<Rightarrow> None | Some q \<Rightarrow> map_option (\<lambda>dl. (dl, pnde_de q)) (pnde_dl q))"

definition asl_of :: "delay_state \<Rightarrow> nat \<rightharpoonup> nat" where
  "asl_of s dl = (case dl_tab s dl of None \<Rightarrow> None | Some d \<Rightarrow> dl_asl d)"

definition delay_view :: "nat set \<Rightarrow> delay_state \<Rightarrow> network" where
  "delay_view D s = \<lparr>n_dls = dls_of s, n_des = des_of s, n_bl = bl_of D s, n_ref = ref_of s, n_lnk = lnk_of s, n_asl = asl_of s,
     n_ded = dom (de_tab s), n_dld = dom (dl_tab s), n_pnd = dom (pnde_tab s)\<rparr>"

lemma delay_view_simps [simp]:
  "n_dls (delay_view D s) = dls_of s" "n_des (delay_view D s) = des_of s" "n_bl (delay_view D s) = bl_of D s" "n_ref (delay_view D s) = ref_of s"
  "n_lnk (delay_view D s) = lnk_of s" "n_asl (delay_view D s) = asl_of s" "n_ded (delay_view D s) = dom (de_tab s)"
  "n_dld (delay_view D s) = dom (dl_tab s)" "n_pnd (delay_view D s) = dom (pnde_tab s)"
  by (simp_all add: delay_view_def)

lemma bl_of_holds: "holds_asi D s l a m \<Longrightarrow> bl_of D s (Pos l) = asi_field asi_pdes s a"
  by (auto simp: holds_asi_def)

lemma bl_of_notheld: "bl_of D s (Pos l) \<noteq> [] \<Longrightarrow> \<exists>a m. holds_asi D s l a m"
  by (auto simp: holds_asi_def split: option.splits leaf_child.splits if_splits)

lemma dls_of_valid: "leaves s l = Some L \<Longrightarrow> tn_child L = Asi_Child a False \<Longrightarrow> tn_valid L \<Longrightarrow> dls_of s l = asi_field asi_dl_list s a"
  by (simp add: dls_of_def)

lemma dls_of_cases:
  assumes "dls_of s l \<noteq> []"
  obtains L a where "leaves s l = Some L" "tn_valid L" "tn_child L = Asi_Child a False" "dls_of s l = asi_field asi_dl_list s a"
  using assms by (auto simp: dls_of_def split: option.splits leaf_child.splits if_splits)

section \<open>The invariant of a state\<close>

definition pools_ok :: "delay_state \<Rightarrow> bool" where
  "pools_ok s \<longleftrightarrow>
     (pool_ok (de_pool s) \<and> pool_taken (de_pool s) = dom (de_tab s) \<and> (\<forall>b \<in> set (entry_blocks (de_pool s)). b + block_entries \<le> sys_break s)) \<and>
     (pool_ok (dl_pool s) \<and> pool_taken (dl_pool s) = dom (dl_tab s) \<and> (\<forall>b \<in> set (entry_blocks (dl_pool s)). b + block_entries \<le> sys_break s)) \<and>
     (pool_ok (pnde_pool s) \<and> pool_taken (pnde_pool s) = dom (pnde_tab s) \<and> (\<forall>b \<in> set (entry_blocks (pnde_pool s)). b + block_entries \<le> sys_break s)) \<and>
     (sm_ok (smASI s) \<and> sm_taken (smASI s) = dom (asi_tab s) \<and> (\<forall>b \<in> set (SM_CurBlock (smASI s)). b + SM_NewBlockSize (smASI s) \<le> sys_break s)) \<and>
     0 < sys_break s"

text \<open>Every delay trie belongs to one element.\<close>

definition delay_tries_ok :: "delay_state \<Rightarrow> bool" where
  "delay_tries_ok s \<longleftrightarrow> (\<forall>r \<in> dom (delay_tries s). r < sys_break s \<and> (\<exists>de e. de_tab s de = Some e \<and> de_subs_fact e = Some r)) \<and>
     (\<forall>de e r. de_tab s de = Some e \<longrightarrow> de_subs_fact e = Some r \<longrightarrow> r \<in> dom (delay_tries s) \<and>
        (\<forall>de' e'. de_tab s de' = Some e' \<longrightarrow> de_subs_fact e' = Some r \<longrightarrow> de' = de))"

definition memory_ok :: "delay_state \<Rightarrow> bool" where
  "memory_ok s \<longleftrightarrow> pools_ok s \<and> delay_tries_ok s"

text \<open>An answer with delay lists has an \<open>AS_info\<close> of its own, and is an answer of the subgoal that is recorded there.\<close>

definition world_ok :: "nat set \<Rightarrow> delay_state \<Rightarrow> bool" where
  "world_ok D s \<longleftrightarrow>
     (\<forall>l a m. holds_asi D s l a m \<longrightarrow> (\<exists>i F. asi_tab s a = Some i \<and> subgoals s (asi_subgoal i) = Some F \<and> (l \<notin> D \<longrightarrow> l \<in> set (ans_leaves F)))) \<and>
     (\<forall>l k a m m'. holds_asi D s l a m \<longrightarrow> holds_asi D s k a m' \<longrightarrow> k = l) \<and>
     (\<forall>l \<in> D. \<exists>L a m. leaves s l = Some L \<and> \<not> tn_valid L \<and> tn_child L = Asi_Child a m) \<and>
     (\<forall>S \<in> set (neg_fails_stack s). S \<in> dom (subgoals s)) \<and>
     (\<not> in_simplify_neg_fails s \<longrightarrow> neg_fails_stack s = [])"

definition delays_ok :: "nat set \<Rightarrow> delay_state \<Rightarrow> bool" where
  "delays_ok D s \<longleftrightarrow> net_ok {} {} (delay_view D s) \<and> memory_ok s \<and> world_ok D s"

text \<open>What the removal of elements leaves alone.\<close>

definition sg_core :: "delay_state \<Rightarrow> nat \<rightharpoonup> subgoal_frame" where
  "sg_core s S = map_option (\<lambda>F. F\<lparr>subg_nde_list := []\<rparr>) (subgoals s S)"

definition asi_core :: "delay_state \<Rightarrow> nat \<rightharpoonup> AS_info" where
  "asi_core s a = map_option (\<lambda>i. i\<lparr>asi_pdes := []\<rparr>) (asi_tab s a)"

definition still :: "delay_state \<Rightarrow> delay_state \<Rightarrow> bool" where
  "still s s' \<longleftrightarrow> leaves s' = leaves s \<and> sg_core s' = sg_core s \<and> asi_core s' = asi_core s \<and>
     simplification_depth s' = simplification_depth s \<and> neg_fails_stack s' = neg_fails_stack s \<and>
     in_simplify_neg_fails s' = in_simplify_neg_fails s"

lemma still_refl [simp]: "still s s"
  by (simp add: still_def)

lemma still_trans: "still s t \<Longrightarrow> still t u \<Longrightarrow> still s u"
  by (simp add: still_def)

lemma still_subgoals:
  assumes "still s s'" "subgoals s S = Some F"
  obtains F' where "subgoals s' S = Some F'" "F'\<lparr>subg_nde_list := []\<rparr> = F\<lparr>subg_nde_list := []\<rparr>"
proof -
  have "sg_core s' S = Some (F\<lparr>subg_nde_list := []\<rparr>)" using assms by (simp add: still_def sg_core_def)
  then show ?thesis using that by (auto simp: sg_core_def)
qed

lemma frame_eqD:
  assumes "F'\<lparr>subg_nde_list := []\<rparr> = F\<lparr>subg_nde_list := []\<rparr>"
  shows "ans_leaves F' = ans_leaves F" "sf_completed F' = sf_completed F" "subg_answers F' = subg_answers F"
  using arg_cong [OF assms, of ans_leaves] arg_cong [OF assms, of sf_completed] arg_cong [OF assms, of subg_answers] by simp_all

lemma still_asi:
  assumes "still s s'" "asi_tab s a = Some i"
  obtains i' where "asi_tab s' a = Some i'" "asi_subgoal i' = asi_subgoal i" "asi_dl_list i' = asi_dl_list i"
proof -
  have "asi_core s' a = Some (i\<lparr>asi_pdes := []\<rparr>)" using assms by (simp add: still_def asi_core_def)
  then obtain i' where i: "asi_tab s' a = Some i'" "i'\<lparr>asi_pdes := []\<rparr> = i\<lparr>asi_pdes := []\<rparr>" by (auto simp: asi_core_def)
  show ?thesis using that [OF i(1)] arg_cong [OF i(2), of asi_subgoal] arg_cong [OF i(2), of asi_dl_list] by simp
qed

lemma still_dls_of: "still s s' \<Longrightarrow> dls_of s' = dls_of s"
proof -
  assume t: "still s s'"
  have "asi_field asi_dl_list s' a = asi_field asi_dl_list s a" for a
  proof -
    have c: "asi_core s' a = asi_core s a" using t by (simp add: still_def)
    then show ?thesis by (cases "asi_tab s a"; cases "asi_tab s' a") (auto simp: asi_field_def asi_core_def dest: arg_cong [where f = asi_dl_list])
  qed
  then have "asi_field asi_dl_list s' = asi_field asi_dl_list s" by (simp add: fun_eq_iff)
  moreover have "leaves s' = leaves s" using t by (simp add: still_def)
  ultimately show ?thesis by (simp add: dls_of_def fun_eq_iff split: option.split leaf_child.split)
qed

lemma still_holds: "still s s' \<Longrightarrow> holds_asi D s' l a m = holds_asi D s l a m"
  by (simp add: holds_asi_def still_def)

lemma still_dom: "still s s' \<Longrightarrow> dom (subgoals s') = dom (subgoals s)"
proof -
  assume "still s s'"
  then have "\<forall>S. map_option (\<lambda>F. F\<lparr>subg_nde_list := []\<rparr>) (subgoals s' S) = map_option (\<lambda>F. F\<lparr>subg_nde_list := []\<rparr>) (subgoals s S)"
    by (simp add: still_def sg_core_def fun_eq_iff)
  then have "subgoals s' S = None \<longleftrightarrow> subgoals s S = None" for S by (metis option.map_disc_iff)
  then show ?thesis by (auto simp: dom_def)
qed

lemma still_world: "still s s' \<Longrightarrow> world_ok D s \<Longrightarrow> world_ok D s'"
proof -
  assume t: "still s s'" and w: "world_ok D s"
  have "\<exists>i F. asi_tab s' a = Some i \<and> subgoals s' (asi_subgoal i) = Some F \<and> (l \<notin> D \<longrightarrow> l \<in> set (ans_leaves F))"
    if "holds_asi D s' l a m" for l a m
  proof -
    have "holds_asi D s l a m" using that still_holds [OF t] by simp
    then obtain i F where i: "asi_tab s a = Some i" "subgoals s (asi_subgoal i) = Some F" "l \<notin> D \<longrightarrow> l \<in> set (ans_leaves F)"
      using w unfolding world_ok_def by blast
    obtain i' where i': "asi_tab s' a = Some i'" "asi_subgoal i' = asi_subgoal i" by (rule still_asi [OF t i(1)])
    obtain F' where F': "subgoals s' (asi_subgoal i) = Some F'" "F'\<lparr>subg_nde_list := []\<rparr> = F\<lparr>subg_nde_list := []\<rparr>"
      by (rule still_subgoals [OF t i(2)])
    have "ans_leaves F' = ans_leaves F" by (rule frame_eqD(1) [OF F'(2)])
    then show ?thesis using i' i(3) F'(1) by simp
  qed
  then show ?thesis using w t still_holds [OF t] still_dom [OF t] unfolding world_ok_def by (simp add: still_def)
qed

section \<open>Single steps\<close>

lemma look_eq [simp]: "m x = Some y \<Longrightarrow> look m x = Inr y"
  by (simp add: look_def)

lemma nonnull_Some [simp]: "nonnull (Some x) = Inr x"
  by (simp add: nonnull_def)

text \<open>A back link is taken out of its list and released.\<close>

definition unlinked :: "nat set \<Rightarrow> target \<Rightarrow> nat \<Rightarrow> delay_state \<Rightarrow> delay_state \<Rightarrow> bool" where
  "unlinked D t p s s' \<longleftrightarrow> bl_of D s' = (bl_of D s)(t := remove1 p (bl_of D s t)) \<and> pnde_tab s' = (pnde_tab s)(p := None) \<and>
     de_tab s' = de_tab s \<and> dl_tab s' = dl_tab s \<and> memory_ok s' \<and> still s s'"

lemma tries_okI:
  assumes "\<And>r. r \<in> dom (delay_tries s) \<Longrightarrow> r < sys_break s"
    and "\<And>r. r \<in> dom (delay_tries s) \<Longrightarrow> \<exists>d f. de_tab s d = Some f \<and> de_subs_fact f = Some r"
    and "\<And>d f r. de_tab s d = Some f \<Longrightarrow> de_subs_fact f = Some r \<Longrightarrow> r \<in> dom (delay_tries s)"
    and "\<And>d f r d' f'. de_tab s d = Some f \<Longrightarrow> de_subs_fact f = Some r \<Longrightarrow> de_tab s d' = Some f' \<Longrightarrow> de_subs_fact f' = Some r \<Longrightarrow> d' = d"
  shows "delay_tries_ok s"
  unfolding delay_tries_ok_def using assms by blast

lemma tries_cong: "de_tab s' = de_tab s \<Longrightarrow> delay_tries s' = delay_tries s \<Longrightarrow> sys_break s' = sys_break s \<Longrightarrow> delay_tries_ok s' = delay_tries_ok s"
  by (simp only: delay_tries_ok_def)

lemma pools_release_pnde:
  assumes "pools_ok s" "p \<in> dom (pnde_tab s)"
  shows "pools_ok (release_pnde p s)"
proof -
  have "pool_taken (release_entry p (pnde_pool s)) = dom (pnde_tab s) - {p} \<and> pool_ok (release_entry p (pnde_pool s))"
    using release_entry_pool [of "pnde_pool s" p] assms by (simp add: pools_ok_def)
  then show ?thesis using assms(1) by (auto simp: pools_ok_def release_pnde_def release_entry_def)
qed

lemma remove_nde_step:
  assumes m: "memory_ok s" and p: "p \<in> set (bl_of D s (Neg S))" "p \<in> dom (pnde_tab s)"
  shows "\<exists>s'. remove_nde S p s = Inr s' \<and> unlinked D (Neg S) p s s'"
proof -
  obtain F where F: "subgoals s S = Some F" "p \<in> set (subg_nde_list F)" using p(1) by (cases "subgoals s S") auto
  let ?t = "s\<lparr>subgoals := (subgoals s)(S \<mapsto> F\<lparr>subg_nde_list := remove1 p (subg_nde_list F)\<rparr>)\<rparr>"
  let ?s = "release_pnde p ?t"
  have r: "remove_nde S p s = Inr ?s" using F by (simp add: remove_nde_def)
  have "pools_ok ?t" using m by (simp add: memory_ok_def pools_ok_def)
  then have "pools_ok ?s" using pools_release_pnde [of ?t p] p(2) by simp
  moreover have "delay_tries_ok ?s = delay_tries_ok s" by (rule tries_cong) (simp_all add: release_pnde_def)
  then have "delay_tries_ok ?s" using m by (simp add: memory_ok_def)
  moreover have "still s ?s" using F by (simp add: still_def release_pnde_def sg_core_def asi_core_def fun_eq_iff)
  moreover have "bl_of D ?s = (bl_of D s)(Neg S := remove1 p (bl_of D s (Neg S)))"
  proof
    fix u show "bl_of D ?s u = ((bl_of D s)(Neg S := remove1 p (bl_of D s (Neg S)))) u"
      using F by (cases u) (simp_all add: release_pnde_def asi_field_def split: option.split leaf_child.split)
  qed
  moreover have "pnde_tab ?s = (pnde_tab s)(p := None)" "de_tab ?s = de_tab s" "dl_tab ?s = dl_tab s"
    by (simp_all add: release_pnde_def)
  ultimately have "unlinked D (Neg S) p s ?s" unfolding unlinked_def memory_ok_def by blast
  then show ?thesis using r by blast
qed

lemma remove_pde_step:
  assumes m: "memory_ok s" and w: "world_ok D s" and h: "holds_asi D s l a k"
    and p: "p \<in> set (bl_of D s (Pos l))" "p \<in> dom (pnde_tab s)"
  shows "\<exists>s'. remove_pde a p s = Inr s' \<and> unlinked D (Pos l) p s s'"
proof -
  have "p \<in> set (asi_field asi_pdes s a)" using p(1) unfolding bl_of_holds [OF h] .
  then obtain i where i: "asi_tab s a = Some i" "p \<in> set (asi_pdes i)" by (cases "asi_tab s a") (auto simp: asi_field_def)
  let ?t = "s\<lparr>asi_tab := (asi_tab s)(a \<mapsto> i\<lparr>asi_pdes := remove1 p (asi_pdes i)\<rparr>)\<rparr>"
  let ?s = "release_pnde p ?t"
  have r: "remove_pde a p s = Inr ?s" using i by (simp add: remove_pde_def)
  have "dom (asi_tab ?t) = dom (asi_tab s)" using i by auto
  then have "pools_ok ?t" using m by (simp add: memory_ok_def pools_ok_def)
  then have "pools_ok ?s" using pools_release_pnde [of ?t p] p(2) by simp
  moreover have "delay_tries_ok ?s = delay_tries_ok s" by (rule tries_cong) (simp_all add: release_pnde_def)
  then have "delay_tries_ok ?s" using m by (simp add: memory_ok_def)
  moreover have "still s ?s" using i by (simp add: still_def release_pnde_def sg_core_def asi_core_def fun_eq_iff)
  moreover have "bl_of D ?s u = ((bl_of D s)(Pos l := remove1 p (bl_of D s (Pos l)))) u" for u
  proof (cases "u = Pos l")
    case True
    have "holds_asi D ?s l a k" using h by (simp add: holds_asi_def release_pnde_def)
    then have "bl_of D ?s (Pos l) = asi_field asi_pdes ?s a" by (rule bl_of_holds)
    then show ?thesis using True bl_of_holds [OF h] i by (simp add: asi_field_def release_pnde_def del: bl_of.simps)
  next
    case False
    show ?thesis
    proof (cases u)
      case (Neg S)
      then show ?thesis by (simp add: release_pnde_def)
    next
      case (Pos k')
      have ne: "b \<noteq> a" if "holds_asi D s k' b m'" for b m'
        using that h w False Pos unfolding world_ok_def by blast
      show ?thesis
      proof (cases "\<exists>b m'. holds_asi D s k' b m'")
        case True
        then obtain b m' where b: "holds_asi D s k' b m'" by blast
        have "holds_asi D ?s k' b m'" using b by (simp add: holds_asi_def release_pnde_def)
        then have "bl_of D ?s (Pos k') = asi_field asi_pdes ?s b" by (rule bl_of_holds)
        then show ?thesis using bl_of_holds [OF b] ne [OF b] False Pos by (simp add: asi_field_def release_pnde_def del: bl_of.simps)
      next
        case n: False
        then have "\<not> (\<exists>b m'. holds_asi D ?s k' b m')" by (simp add: holds_asi_def release_pnde_def)
        then show ?thesis using n False Pos bl_of_notheld by (metis fun_upd_other)
      qed
    qed
  qed
  then have "bl_of D ?s = (bl_of D s)(Pos l := remove1 p (bl_of D s (Pos l)))" by (rule ext)
  moreover have "pnde_tab ?s = (pnde_tab s)(p := None)" "de_tab ?s = de_tab s" "dl_tab ?s = dl_tab s"
    by (simp_all add: release_pnde_def)
  ultimately have "unlinked D (Pos l) p s ?s" unfolding unlinked_def memory_ok_def by blast
  then show ?thesis using r by blast
qed

text \<open>An element is released with its delay trie.\<close>

definition element_freed :: "nat set \<Rightarrow> nat \<Rightarrow> delay_state \<Rightarrow> delay_state \<Rightarrow> bool" where
  "element_freed D de s s' \<longleftrightarrow> de_tab s' = (de_tab s)(de := None) \<and> bl_of D s' = bl_of D s \<and> pnde_tab s' = pnde_tab s \<and>
     dl_tab s' = dl_tab s \<and> memory_ok s' \<and> still s s'"

lemma release_de_step:
  assumes m: "memory_ok s" and e: "de_tab s de = Some e"
  shows "\<exists>s'. release_shared_de_entry de s = Inr s' \<and> element_freed D de s s'"
proof -
  define tr where "tr = (case de_subs_fact e of None \<Rightarrow> delay_tries s | Some r \<Rightarrow> (delay_tries s)(r := None))"
  let ?s = "s\<lparr>delay_tries := tr, de_tab := (de_tab s)(de := None), de_pool := release_entry de (de_pool s)\<rparr>"
  have r: "release_shared_de_entry de s = Inr ?s"
  proof (cases "de_subs_fact e")
    case None
    then show ?thesis using e by (simp add: release_shared_de_entry_def delete_delay_trie_def tr_def)
  next
    case (Some r)
    then obtain ts where "delay_tries s r = Some ts" using m e unfolding memory_ok_def delay_tries_ok_def by blast
    then show ?thesis using e Some by (simp add: release_shared_de_entry_def delete_delay_trie_def tr_def)
  qed
  have "pool_taken (release_entry de (de_pool s)) = dom (de_tab s) - {de} \<and> pool_ok (release_entry de (de_pool s))"
    using release_entry_pool [of "de_pool s" de] m e by (simp add: memory_ok_def pools_ok_def domI)
  moreover have "pools_ok s" using m by (simp add: memory_ok_def)
  ultimately have "pools_ok ?s" by (simp add: pools_ok_def release_entry_def dom_fun_upd)
  moreover have "delay_tries_ok ?s"
  proof -
    have t: "delay_tries_ok s" using m by (simp add: memory_ok_def)
    have tD: "r < sys_break s" "\<exists>d f. de_tab s d = Some f \<and> de_subs_fact f = Some r" if "r \<in> dom (delay_tries s)" for r
      using t that unfolding delay_tries_ok_def by blast+
    have tE: "r \<in> dom (delay_tries s)" "de_tab s d' = Some f' \<Longrightarrow> de_subs_fact f' = Some r \<Longrightarrow> d' = d"
      if "de_tab s d = Some f" "de_subs_fact f = Some r" for d f r d' f'
      using t that unfolding delay_tries_ok_def by blast+
    have dt: "x \<in> dom tr \<longleftrightarrow> x \<in> dom (delay_tries s) \<and> de_subs_fact e \<noteq> Some x" for x
      by (cases "de_subs_fact e") (auto simp: tr_def)
    have "\<exists>d f. de_tab ?s d = Some f \<and> de_subs_fact f = Some x" if x: "x \<in> dom tr" for x
    proof -
      have nx: "x \<in> dom (delay_tries s)" "de_subs_fact e \<noteq> Some x" using x dt by blast+
      obtain d f where "de_tab s d = Some f" "de_subs_fact f = Some x" using tD(2) [OF nx(1)] by blast
      then show ?thesis using nx(2) e by (intro exI [of _ d] exI [of _ f]) auto
    qed
    moreover have "x < sys_break s" if "x \<in> dom tr" for x using that tD(1) dt by blast
    moreover have "x \<in> dom tr" if "de_tab ?s d = Some f" "de_subs_fact f = Some x" for d f x
    proof -
      have d: "de_tab s d = Some f" "d \<noteq> de" using that(1) by (auto split: if_splits)
      have "x \<in> dom (delay_tries s)" by (rule tE(1) [OF d(1) that(2)])
      moreover have "de_subs_fact e \<noteq> Some x" using tE(2) [OF d(1) that(2) e] d(2) by blast
      ultimately show ?thesis using dt by blast
    qed
    moreover have "d' = d" if "de_tab ?s d = Some f" "de_subs_fact f = Some x" "de_tab ?s d' = Some f'" "de_subs_fact f' = Some x" for d f x d' f'
    proof -
      have "de_tab s d = Some f" "de_tab s d' = Some f'" using that(1,3) by (auto split: if_splits)
      then show ?thesis using tE(2) that(2,4) by blast
    qed
    moreover have u: "delay_tries ?s = tr" "sys_break ?s = sys_break s" by simp_all
    ultimately show ?thesis by - (rule tries_okI; (unfold u)?; blast)
  qed
  moreover have "bl_of D ?s u = bl_of D s u" for u by (cases u) (simp_all add: asi_field_def split: option.split leaf_child.split)
  then have "bl_of D ?s = bl_of D s" by (simp add: fun_eq_iff)
  moreover have "still s ?s" by (simp add: still_def sg_core_def asi_core_def fun_eq_iff)
  ultimately show ?thesis using r by (simp add: element_freed_def memory_ok_def)
qed

end
