(* ===== verification/Simplification.thy ===== *)
theory Simplification imports Delay_Lists begin

text \<open>
  Simplification, slgdelay.c: when an answer becomes unconditional or is deleted, or a subgoal fails or succeeds, the
  delay elements about it are resolved. That can make further answers unconditional or delete them, so the six
  functions call one another. They are functions of the fuel for the depth of the calls and the turns of the loops;
  \<open>None\<close> says that the fuel was not enough. An error value is a run that stops with the error.
\<close>

type_synonym 'a outcome = "'a res option"

definition then_do :: "'a outcome \<Rightarrow> ('a \<Rightarrow> 'b outcome) \<Rightarrow> 'b outcome" where
  "then_do m f = (case m of None \<Rightarrow> None | Some (Inl e) \<Rightarrow> Some (Inl e) | Some (Inr x) \<Rightarrow> f x)"

abbreviation do_res :: "'a res \<Rightarrow> ('a \<Rightarrow> 'b outcome) \<Rightarrow> 'b outcome" where
  "do_res m f \<equiv> then_do (Some m) f"

lemma then_do_simps [simp]:
  "then_do None f = None" "then_do (Some (Inl e)) f = Some (Inl e)" "then_do (Some (Inr x)) f = f x"
  by (simp_all add: then_do_def)

lemma then_do_cong [fundef_cong]:
  "m = m' \<Longrightarrow> (\<And>x. m' = Some (Inr x) \<Longrightarrow> f x = f' x) \<Longrightarrow> then_do m f = then_do m' f'"
  by (auto simp: then_do_def split: option.splits sum.splits)

abbreviation MAX_SIMPLIFICATION_DEPTH :: nat where "MAX_SIMPLIFICATION_DEPTH \<equiv> 100"

abbreviation too_many_simplifications :: xsb_error where
  "too_many_simplifications \<equiv> Resource_Error ''Too many nested simplifications''"

definition enter_simplification :: "delay_state \<Rightarrow> delay_state res" where
  "enter_simplification s =
    (if simplification_depth s > MAX_SIMPLIFICATION_DEPTH then Inl too_many_simplifications
     else Inr (s\<lparr>simplification_depth := simplification_depth s + 1\<rparr>))"

definition leave_simplification :: "delay_state \<Rightarrow> delay_state" where
  "leave_simplification s = s\<lparr>simplification_depth := simplification_depth s - 1\<rparr>"

section \<open>What comes before and after the loops\<close>

definition begin_pos_unconditional :: "nat \<Rightarrow> delay_state \<Rightarrow> ((nat \<times> nat) \<times> delay_state) res" where
  "begin_pos_unconditional leaf s = res_bind (look (leaves s) leaf) (\<lambda>L. res_bind (enter_simplification s) (\<lambda>s1.
     res_bind (nonnull (Delay L)) (\<lambda>a. res_bind (look (asi_tab s1) a) (\<lambda>i.
     res_bind (release_all_dls a s1) (\<lambda>s2. res_bind (unmark_conditional_answer leaf s2) (\<lambda>s3.
     Inr ((a, asi_subgoal i), s3)))))))"

definition set_child_null :: "nat \<Rightarrow> delay_state \<Rightarrow> delay_state res" where
  "set_child_null leaf s = res_bind (look (leaves s) leaf) (\<lambda>L.
     Inr (s\<lparr>leaves := (leaves s)(leaf \<mapsto> L\<lparr>tn_child := No_Child\<rparr>)\<rparr>))"

definition now_unconditional :: "subgoal_frame \<Rightarrow> subgoal_frame" where
  "now_unconditional F = (if subg_answers F = COND_ANSWERS
     then F\<lparr>subg_answers := UNCOND_ANSWERS, sf_needs_answer_completion := False\<rparr> else F)"

definition end_pos_unconditional :: "nat \<Rightarrow> nat \<Rightarrow> nat \<Rightarrow> delay_state \<Rightarrow> delay_state res" where
  "end_pos_unconditional leaf a S s = res_bind (set_child_null leaf s) (\<lambda>s1.
     res_bind (upd_subgoal S now_unconditional s1) (\<lambda>s2. Inr (leave_simplification (free_asi a s2))))"

text \<open>
  Early completion of the subgoal of a most general answer: it is marked as completed. What \<open>perform_early_completion\<close> does to its choice
  point and the completion stack is no part of the state.
\<close>

definition early_completion :: "nat \<Rightarrow> nat \<Rightarrow> delay_state \<Rightarrow> delay_state res" where
  "early_completion leaf S s = res_bind (look (leaves s) leaf) (\<lambda>L. res_bind (look (subgoals s) S) (\<lambda>F.
     if \<not> sf_completed F \<and> most_general_answer L then upd_subgoal S (\<lambda>F. F\<lparr>sf_completed := True\<rparr>) s else Inr s))"

definition push_neg_simpl :: "nat \<Rightarrow> delay_state \<Rightarrow> delay_state" where
  "push_neg_simpl S s = s\<lparr>neg_fails_stack := S # neg_fails_stack s\<rparr>"

text \<open>A subgoal whose failure is simplified has no answers from here on. The call that finds the loop running only leaves its subgoal on the stack.\<close>

definition no_answers_now :: "subgoal_frame \<Rightarrow> subgoal_frame" where
  "no_answers_now F = F\<lparr>subg_answers := NO_ANSWERS, sf_needs_answer_completion := False\<rparr>"

text \<open>The back link \<open>p\<close> and the element of its list that it is for are removed.\<close>

definition resolve_nde :: "nat \<Rightarrow> nat \<Rightarrow> delay_state \<Rightarrow> ((bool \<times> nat) \<times> delay_state) res" where
  "resolve_nde S p s = res_bind (look (pnde_tab s) p) (\<lambda>q. res_bind (nonnull (pnde_dl q)) (\<lambda>dl.
     res_bind (remove_nde S p s) (\<lambda>s1. res_bind (remove_de_from_dl (pnde_de q) dl s1) (\<lambda>(b, s2). Inr ((b, dl), s2)))))"

definition resolve_pde :: "nat \<Rightarrow> nat \<Rightarrow> delay_state \<Rightarrow> ((bool \<times> nat) \<times> delay_state) res" where
  "resolve_pde a p s = res_bind (look (pnde_tab s) p) (\<lambda>q. res_bind (nonnull (pnde_dl q)) (\<lambda>dl.
     res_bind (remove_pde a p s) (\<lambda>s1. res_bind (remove_de_from_dl (pnde_de q) dl s1) (\<lambda>(b, s2). Inr ((b, dl), s2)))))"

text \<open>
  The whole list of the element that \<open>p\<close> is for is removed, when the leaf it is for is still valid. The result says
  whether the leaf has another list.
\<close>

definition discard_list :: "nat \<Rightarrow> delay_state \<Rightarrow> ((bool \<times> nat) \<times> delay_state) res" where
  "discard_list dl s = res_bind (look (dl_tab s) dl) (\<lambda>d. res_bind (nonnull (dl_asl d)) (\<lambda>leaf.
     res_bind (look (leaves s) leaf) (\<lambda>L.
     case Delay L of
       None \<Rightarrow> Inr ((True, leaf), s)
     | Some a \<Rightarrow> if \<not> tn_valid L then Inr ((True, leaf), s)
                 else res_bind (release_elements False (dl_de_list d) s) (\<lambda>s1.
                      res_bind (remove_dl_from_dl_list dl a s1) (\<lambda>(b, s2). Inr ((b, leaf), s2))))))"

section \<open>The functions\<close>

text \<open>
  A call of one of the functions or of one of its loops. Each function is given what runs the calls it makes, \<open>run\<close>, and
  \<open>simplify\<close> ties them together: every call and every turn of a loop takes one unit of fuel.
\<close>

datatype simpl_call =
    Pos_Unconditional nat
  | Pos_Unconditional_Loop nat
  | Empty_Dl nat
  | Neg_Fails nat
  | Neg_Fails_Stack
  | Neg_Fails_Loop nat
  | Neg_Succeeds nat
  | Neg_Succeeds_Loop nat
  | Unsupported nat
  | Pos_Unsupported nat
  | Pos_Unsupported_Loop nat

type_synonym runner = "simpl_call \<Rightarrow> delay_state \<Rightarrow> delay_state outcome"

definition simplify_pos_unconditional :: "runner \<Rightarrow> nat \<Rightarrow> delay_state \<Rightarrow> delay_state outcome" where
  "simplify_pos_unconditional run leaf s =
    do_res (begin_pos_unconditional leaf s) (\<lambda>((a, S), s1).
    then_do (run (Pos_Unconditional_Loop a) s1) (\<lambda>s2.
    Some (end_pos_unconditional leaf a S s2)))"

definition pos_unconditional_loop :: "runner \<Rightarrow> nat \<Rightarrow> delay_state \<Rightarrow> delay_state outcome" where
  "pos_unconditional_loop run a s =
    do_res (look (asi_tab s) a) (\<lambda>i.
    case asi_pdes i of
      [] \<Rightarrow> Some (Inr s)
    | p # _ \<Rightarrow> do_res (resolve_pde a p s) (\<lambda>((b, dl), s1).
        then_do (if b then Some (Inr s1) else run (Empty_Dl dl) s1) (\<lambda>s2.
        run (Pos_Unconditional_Loop a) s2)))"

definition handle_empty_dl_creation :: "runner \<Rightarrow> nat \<Rightarrow> delay_state \<Rightarrow> delay_state outcome" where
  "handle_empty_dl_creation run dl s =
    do_res (look (dl_tab s) dl) (\<lambda>d.
    do_res (nonnull (dl_asl d)) (\<lambda>leaf.
    do_res (look (leaves s) leaf) (\<lambda>L.
    if \<not> is_conditional_answer L then Some (Inr s)
    else
      do_res (nonnull (Delay L)) (\<lambda>a.
      do_res (remove_dl_from_dl_list dl a s) (\<lambda>(_, s1).
      do_res (look (asi_tab s1) a) (\<lambda>i.
      then_do (run (Pos_Unconditional leaf) s1) (\<lambda>s2.
      do_res (early_completion leaf (asi_subgoal i) s2) (\<lambda>s3.
      run (Neg_Succeeds (asi_subgoal i)) s3))))))))"

definition simplify_neg_fails :: "runner \<Rightarrow> nat \<Rightarrow> delay_state \<Rightarrow> delay_state outcome" where
  "simplify_neg_fails run S s =
    do_res (enter_simplification s) (\<lambda>s1.
    if in_simplify_neg_fails s1 then Some (Inr (push_neg_simpl S s1))
    else
      do_res (upd_subgoal S no_answers_now ((push_neg_simpl S s1)\<lparr>in_simplify_neg_fails := True\<rparr>)) (\<lambda>s2.
      then_do (run Neg_Fails_Stack s2) (\<lambda>s3.
      Some (Inr (leave_simplification (s3\<lparr>in_simplify_neg_fails := False\<rparr>))))))"

definition neg_fails_stack_loop :: "runner \<Rightarrow> delay_state \<Rightarrow> delay_state outcome" where
  "neg_fails_stack_loop run s =
    (case neg_fails_stack s of
       [] \<Rightarrow> Some (Inr s)
     | S # Ss \<Rightarrow> then_do (run (Neg_Fails_Loop S) (s\<lparr>neg_fails_stack := Ss\<rparr>)) (run Neg_Fails_Stack))"

definition neg_fails_loop :: "runner \<Rightarrow> nat \<Rightarrow> delay_state \<Rightarrow> delay_state outcome" where
  "neg_fails_loop run S s =
    do_res (look (subgoals s) S) (\<lambda>F.
    case subg_nde_list F of
      [] \<Rightarrow> Some (Inr s)
    | p # _ \<Rightarrow> do_res (resolve_nde S p s) (\<lambda>((b, dl), s1).
        then_do (if b then Some (Inr s1) else run (Empty_Dl dl) s1) (\<lambda>s2.
        run (Neg_Fails_Loop S) s2)))"

definition simplify_neg_succeeds :: "runner \<Rightarrow> nat \<Rightarrow> delay_state \<Rightarrow> delay_state outcome" where
  "simplify_neg_succeeds run S s =
    do_res (enter_simplification s) (\<lambda>s1.
    do_res (answer_complete_subg S s1) (\<lambda>s2.
    then_do (run (Neg_Succeeds_Loop S) s2) (\<lambda>s3.
    Some (Inr (leave_simplification s3)))))"

definition neg_succeeds_loop :: "runner \<Rightarrow> nat \<Rightarrow> delay_state \<Rightarrow> delay_state outcome" where
  "neg_succeeds_loop run S s =
    do_res (look (subgoals s) S) (\<lambda>F.
    case subg_nde_list F of
      [] \<Rightarrow> Some (Inr s)
    | p # _ \<Rightarrow> do_res (look (pnde_tab s) p) (\<lambda>q.
        do_res (nonnull (pnde_dl q)) (\<lambda>dl.
        do_res (discard_list dl s) (\<lambda>((b, leaf), s1).
        then_do (if b then Some (Inr s1) else run (Unsupported leaf) s1) (\<lambda>s2.
        run (Neg_Succeeds_Loop S) s2)))))"

definition handle_unsupported_answer_subst :: "runner \<Rightarrow> nat \<Rightarrow> delay_state \<Rightarrow> delay_state outcome" where
  "handle_unsupported_answer_subst run leaf s =
    do_res (look (leaves s) leaf) (\<lambda>L.
    do_res (nonnull (Delay L)) (\<lambda>a.
    do_res (look (asi_tab s) a) (\<lambda>i.
    do_res (delete_answer leaf (asi_subgoal i) s) (\<lambda>s1.
    then_do (run (Pos_Unsupported leaf) s1) (\<lambda>s2.
    do_res (look (subgoals s2) (asi_subgoal i)) (\<lambda>F.
    then_do (if sf_completed F \<and> subgoal_fails F then run (Neg_Fails (asi_subgoal i)) s2 else Some (Inr s2)) (\<lambda>s3.
    Some (Inr (free_asi a s3)))))))))"

definition simplify_pos_unsupported :: "runner \<Rightarrow> nat \<Rightarrow> delay_state \<Rightarrow> delay_state outcome" where
  "simplify_pos_unsupported run leaf s =
    do_res (look (leaves s) leaf) (\<lambda>L.
    do_res (enter_simplification s) (\<lambda>s1.
    do_res (nonnull (Delay L)) (\<lambda>a.
    run (Pos_Unsupported_Loop a) s1)))"

definition pos_unsupported_loop :: "runner \<Rightarrow> nat \<Rightarrow> delay_state \<Rightarrow> delay_state outcome" where
  "pos_unsupported_loop run a s =
    do_res (look (asi_tab s) a) (\<lambda>i.
    case asi_pdes i of
      [] \<Rightarrow> Some (Inr (leave_simplification s))
    | p # _ \<Rightarrow> do_res (look (pnde_tab s) p) (\<lambda>q.
        case pnde_dl q of
          None \<Rightarrow> Some (Inr s)
        | Some dl \<Rightarrow> do_res (discard_list dl s) (\<lambda>((b, leaf), s1).
            then_do (if b then Some (Inr s1) else run (Unsupported leaf) s1) (\<lambda>s2.
            run (Pos_Unsupported_Loop a) s2))))"

primrec run_call :: "runner \<Rightarrow> simpl_call \<Rightarrow> delay_state \<Rightarrow> delay_state outcome" where
  "run_call run (Pos_Unconditional x) = simplify_pos_unconditional run x"
| "run_call run (Pos_Unconditional_Loop x) = pos_unconditional_loop run x"
| "run_call run (Empty_Dl x) = handle_empty_dl_creation run x"
| "run_call run (Neg_Fails x) = simplify_neg_fails run x"
| "run_call run Neg_Fails_Stack = neg_fails_stack_loop run"
| "run_call run (Neg_Fails_Loop x) = neg_fails_loop run x"
| "run_call run (Neg_Succeeds x) = simplify_neg_succeeds run x"
| "run_call run (Neg_Succeeds_Loop x) = neg_succeeds_loop run x"
| "run_call run (Unsupported x) = handle_unsupported_answer_subst run x"
| "run_call run (Pos_Unsupported x) = simplify_pos_unsupported run x"
| "run_call run (Pos_Unsupported_Loop x) = pos_unsupported_loop run x"

primrec simplify :: "nat \<Rightarrow> runner" where
  "simplify 0 = (\<lambda>c s. None)"
| "simplify (Suc f) = run_call (simplify f)"

section \<open>The entry points\<close>

text \<open>
  \<open>do_delay_stuff\<close> is called for every answer that is returned to a table, with the delay list under which
  it was derived; \<open>sf_exists\<close> says whether the answer was in the table before.
\<close>

definition intern_conditional :: "delay_term list \<Rightarrow> nat \<Rightarrow> nat \<Rightarrow> bool \<Rightarrow> delay_state \<Rightarrow> (nat option \<times> delay_state) res" where
  "intern_conditional delayreg leaf S sf_exists s = res_bind (look (leaves s) leaf) (\<lambda>L.
     if delayreg \<noteq> [] \<and> (\<not> sf_exists \<or> is_conditional_answer L)
     then res_bind (intern_delay_list delayreg s) (\<lambda>(dl, s1).
       case dl of None \<Rightarrow> Inr (None, s1)
       | Some x \<Rightarrow> res_bind (mark_conditional_answer leaf S x s1) (\<lambda>s2.
           res_bind (record_de_usage x s2) (\<lambda>s3. Inr (Some x, s3))))
     else Inr (None, s))"

definition do_delay_stuff :: "nat \<Rightarrow> delay_term list \<Rightarrow> nat \<Rightarrow> nat \<Rightarrow> bool \<Rightarrow> delay_state \<Rightarrow> delay_state outcome" where
  "do_delay_stuff f delayreg leaf S sf_exists s =
    do_res (intern_conditional delayreg leaf S sf_exists (s\<lparr>simplification_depth := 0\<rparr>)) (\<lambda>(dl, s1).
    do_res (look (leaves s1) leaf) (\<lambda>L1.
    then_do (if sf_exists \<and> is_conditional_answer L1 \<and> (delayreg = [] \<or> dl = None)
             then simplify f (Pos_Unconditional leaf) s1 else Some (Inr s1)) (\<lambda>s2.
    do_res (look (leaves s2) leaf) (\<lambda>L2.
    do_res (look (subgoals s2) S) (\<lambda>F.
    if is_unconditional_answer L2 \<and> subg_nde_list F \<noteq> [] then simplify f (Neg_Succeeds S) s2 else Some (Inr s2))))))"

definition force_answer_true :: "nat \<Rightarrow> nat \<Rightarrow> delay_state \<Rightarrow> delay_state outcome" where
  "force_answer_true f leaf s =
    do_res (look (leaves s) leaf) (\<lambda>L.
    if \<not> is_conditional_answer L then Some (Inr s)
    else
      do_res (nonnull (Delay L)) (\<lambda>a.
      do_res (look (asi_tab s) a) (\<lambda>i.
      then_do (simplify f (Pos_Unconditional leaf) s) (\<lambda>s1.
      simplify f (Neg_Succeeds (asi_subgoal i)) s1))))"

definition force_answer_false :: "nat \<Rightarrow> nat \<Rightarrow> delay_state \<Rightarrow> delay_state outcome" where
  "force_answer_false f leaf s =
    do_res (look (leaves s) leaf) (\<lambda>L.
    if \<not> is_conditional_answer L then Some (Inr s)
    else
      do_res (nonnull (Delay L)) (\<lambda>a.
      do_res (look (asi_tab s) a) (\<lambda>i.
      do_res (release_all_dls a s) (\<lambda>s1.
      do_res (delete_answer leaf (asi_subgoal i) s1) (\<lambda>s2.
      then_do (simplify f (Pos_Unsupported leaf) s2) (\<lambda>s3.
      do_res (mark_subgoal_failed (asi_subgoal i) s3) (\<lambda>s4.
      simplify f (Neg_Fails (asi_subgoal i)) s4)))))))"

definition abolish_wfs_space :: "delay_state \<Rightarrow> delay_state" where
  "abolish_wfs_space s = s\<lparr>de_tab := Map.empty, dl_tab := Map.empty, pnde_tab := Map.empty, asi_tab := Map.empty,
     de_pool := abolish_pool (de_pool s), dl_pool := abolish_pool (dl_pool s), pnde_pool := abolish_pool (pnde_pool s),
     smASI := smFreeBlocks (smASI s)\<rparr>"

end
