(* ===== verification/Delay_Removal.thy ===== *)
theory Delay_Removal imports Delay_Steps Simplification begin

text \<open>
  The composite removals, which simplification is made of: an element is resolved, a delay list is discarded, all lists of
  an answer are released, a leaf is marked or deleted. Each takes a state with the invariant to a
  state with the invariant, and its effect on the network is stated.
\<close>

definition pnde_num :: "delay_state \<Rightarrow> nat" where
  "pnde_num s = card (dom (pnde_tab s))"

lemma finite_pndes: "memory_ok s \<Longrightarrow> finite (dom (pnde_tab s))"
proof -
  assume "memory_ok s"
  then have "dom (pnde_tab s) = pool_taken (pnde_pool s)" by (simp add: memory_ok_def pools_ok_def)
  then show ?thesis by (simp add: pool_taken_def pool_entries_def)
qed

definition fewer_links :: "nat set \<Rightarrow> delay_state \<Rightarrow> delay_state \<Rightarrow> bool" where
  "fewer_links D s s' \<longleftrightarrow> (\<forall>t. bl_of D s t = [] \<longrightarrow> bl_of D s' t = [])"

lemma fewer_links_refl [simp]: "fewer_links D s s"
  by (simp add: fewer_links_def)

lemma fewer_links_trans: "fewer_links D s t \<Longrightarrow> fewer_links D t u \<Longrightarrow> fewer_links D s u"
  by (simp add: fewer_links_def)

section \<open>One element\<close>

definition removed :: "nat set \<Rightarrow> nat \<Rightarrow> target \<Rightarrow> nat \<Rightarrow> delay_state \<Rightarrow> delay_state \<Rightarrow> bool" where
  "removed D de t p s s' \<longleftrightarrow> bl_of D s' = (bl_of D s)(t := remove1 p (bl_of D s t)) \<and> pnde_tab s' = (pnde_tab s)(p := None) \<and>
     de_tab s' = (de_tab s)(de := None) \<and> dl_tab s' = dl_tab s \<and> memory_ok s' \<and> still s s'"

lemma removed_by: "unlinked D t p s s1 \<Longrightarrow> element_freed D de s1 s2 \<Longrightarrow> removed D de t p s s2"
  by (auto simp: unlinked_def element_freed_def removed_def intro: still_trans)

lemma des_of_cong: "dl_tab s' = dl_tab s \<Longrightarrow> des_of s' = des_of s \<and> asl_of s' = asl_of s"
  by (simp add: des_of_def asl_of_def fun_eq_iff)

lemma ref_of_upd: "de_tab s' = (de_tab s)(de := None) \<Longrightarrow> ref_of s' = (ref_of s)(de := None)"
  by (simp add: ref_of_def fun_eq_iff)

lemma lnk_of_upd: "pnde_tab s' = (pnde_tab s)(p := None) \<Longrightarrow> lnk_of s' = (lnk_of s)(p := None)"
  by (simp add: lnk_of_def fun_eq_iff)

lemma removed_view:
  assumes "removed D de t p s s'"
  shows "delay_view D s' = (delay_view D s)\<lparr>n_bl := (bl_of D s)(t := remove1 p (bl_of D s t)), n_ref := (ref_of s)(de := None),
    n_lnk := (lnk_of s)(p := None), n_ded := dom (de_tab s) - {de}, n_pnd := dom (pnde_tab s) - {p}\<rparr>"
  using assms still_dls_of [of s s'] des_of_cong [of s' s] ref_of_upd [of s' s de] lnk_of_upd [of s' s p]
  by (simp add: removed_def delay_view_def)

lemma removed_fewer: "removed D de t p s s' \<Longrightarrow> fewer_links D s s'"
  by (simp add: removed_def fewer_links_def)

lemma removed_num:
  assumes "removed D de t p s s'" "p \<in> dom (pnde_tab s)" "memory_ok s"
  shows "Suc (pnde_num s') = pnde_num s"
proof -
  have "dom (pnde_tab s') = dom (pnde_tab s) - {p}" using assms(1) by (simp add: removed_def)
  then show ?thesis using card_Suc_Diff1 [OF finite_pndes [OF assms(3)] assms(2)] by (simp add: pnde_num_def)
qed

lemma ref_ofD:
  assumes "ref_of s de = Some (t, p)"
  obtains e where "de_tab s de = Some e" "target_of e = t" "de_pnde e = Some p"
  using assms by (auto simp: ref_of_def split: option.splits)

lemma lnk_ofD:
  assumes "lnk_of s p = Some (dl, de)"
  obtains q where "pnde_tab s p = Some q" "pnde_dl q = Some dl" "pnde_de q = de"
  using assms by (auto simp: lnk_of_def split: option.splits)

lemma remove_usage_step:
  assumes m: "memory_ok s" and w: "world_ok D s" and r: "ref_of s de = Some (t, p)"
    and p: "p \<in> set (bl_of D s t)" "p \<in> dom (pnde_tab s)"
  shows "\<exists>s'. remove_usage chk de s = Inr s' \<and> unlinked D t p s s'"
proof -
  obtain e where e: "de_tab s de = Some e" "target_of e = t" "de_pnde e = Some p" using r by (rule ref_ofD)
  show ?thesis
  proof (cases "de_ans_subst e")
    case None
    then have t: "t = Neg (de_subgoal e)" using e by (simp add: target_of_def)
    obtain F where F: "subgoals s (de_subgoal e) = Some F" "p \<in> set (subg_nde_list F)"
      using p(1) t by (cases "subgoals s (de_subgoal e)") auto
    then have "subg_nde_list F \<noteq> []" by auto
    with F show ?thesis using remove_nde_step [OF m, of p D "de_subgoal e"] p e None t by (simp add: remove_usage_def)
  next
    case (Some l)
    then have t: "t = Pos l" using e by (simp add: target_of_def)
    then have "bl_of D s (Pos l) \<noteq> []" using p(1) by (auto simp del: bl_of.simps)
    then obtain a k where h: "holds_asi D s l a k" using bl_of_notheld by blast
    then obtain L where L: "leaves s l = Some L" "tn_child L = Asi_Child a k" by (auto simp: holds_asi_def)
    obtain s' where "remove_pde a p s = Inr s'" "unlinked D (Pos l) p s s'"
      using remove_pde_step [OF m w h] p unfolding t by blast
    then show ?thesis using L e Some t by (simp add: remove_usage_def Delay_def)
  qed
qed

lemma remove_element_step:
  assumes m: "memory_ok s" and w: "world_ok D s" and r: "ref_of s de = Some (t, p)"
    and p: "p \<in> set (bl_of D s t)" "p \<in> dom (pnde_tab s)"
  shows "\<exists>s1 s2. remove_usage chk de s = Inr s1 \<and> release_shared_de_entry de s1 = Inr s2 \<and> removed D de t p s s2"
proof -
  obtain s1 where s1: "remove_usage chk de s = Inr s1" "unlinked D t p s s1" using remove_usage_step [OF assms] by blast
  obtain e where "de_tab s de = Some e" using r by (rule ref_ofD)
  then have "de_tab s1 de = Some e" "memory_ok s1" using s1(2) by (simp_all add: unlinked_def)
  then obtain s2 where "release_shared_de_entry de s1 = Inr s2" "element_freed D de s1 s2" using release_de_step by blast
  then show ?thesis using s1 removed_by by blast
qed

section \<open>The elements of a list\<close>

lemma release_elements_step:
  assumes "net_ok Z W ((delay_view D s)\<lparr>n_dls := Y, n_des := X(dl := ds)\<rparr>)" "dl \<in> set (Y l)" "memory_ok s" "world_ok D s"
  shows "\<exists>s'. release_elements chk ds s = Inr s' \<and> net_ok Z W ((delay_view D s')\<lparr>n_dls := Y, n_des := X(dl := [])\<rparr>) \<and> memory_ok s' \<and> still s s' \<and>
    dl_tab s' = dl_tab s \<and> (\<forall>x. x \<notin> set ds \<longrightarrow> de_tab s' x = de_tab s x) \<and> pnde_num s' + length ds = pnde_num s \<and> fewer_links D s s'"
  using assms
proof (induction ds arbitrary: s)
  case (Cons de ds)
  let ?N = "(delay_view D s)\<lparr>n_dls := Y, n_des := X(dl := de # ds)\<rparr>"
  have n: "net_ok Z W ?N" by (rule Cons.prems(1))
  have dl: "dl \<in> set (n_dls ?N l)" and de: "de \<in> set (n_des ?N dl)"
    using Cons.prems(1) Cons.prems(2) by simp_all
  obtain t p where r: "n_ref ?N de = Some (t, p)" and k: "n_lnk ?N p = Some (dl, de)" and p: "p \<in> set (n_bl ?N t)"
    using n dl de by (rule net_refE)
  have pd: "p \<in> dom (pnde_tab s)" using k by (auto elim: lnk_ofD)
  obtain s1 s2 where s: "remove_usage chk de s = Inr s1" "release_shared_de_entry de s1 = Inr s2" and rm: "removed D de t p s s2"
    using remove_element_step [of s D de t p chk] Cons.prems(3,4) r p pd by auto
  have m: "memory_ok s2" and st: "still s s2" using rm by (simp_all add: removed_def)
  have "net_ok Z W (cut dl de t p ?N)" by (rule cut_ok [OF n dl de r])
  moreover have "cut dl de t p ?N = (delay_view D s2)\<lparr>n_dls := Y, n_des := X(dl := ds)\<rparr>"
    using removed_view [OF rm] by (simp add: cut_def)
  ultimately have n2: "net_ok Z W ((delay_view D s2)\<lparr>n_dls := Y, n_des := X(dl := ds)\<rparr>)" by simp
  obtain s' where s': "release_elements chk ds s2 = Inr s'" "net_ok Z W ((delay_view D s')\<lparr>n_dls := Y, n_des := X(dl := [])\<rparr>)" "memory_ok s'" "still s2 s'"
    "dl_tab s' = dl_tab s2" "\<forall>x. x \<notin> set ds \<longrightarrow> de_tab s' x = de_tab s2 x" "pnde_num s' + length ds = pnde_num s2" "fewer_links D s2 s'"
    using Cons.IH [OF n2 Cons.prems(2) m still_world [OF st Cons.prems(4)]] by blast
  have "release_elements chk (de # ds) s = Inr s'" using s s'(1) by simp
  moreover have "still s s'" by (rule still_trans [OF st s'(4)])
  moreover have "dl_tab s' = dl_tab s" "\<forall>x. x \<notin> set (de # ds) \<longrightarrow> de_tab s' x = de_tab s x"
    using s'(5,6) rm by (simp_all add: removed_def)
  moreover have "pnde_num s' + length (de # ds) = pnde_num s" using s'(7) removed_num [OF rm pd Cons.prems(3)] by simp
  moreover have "fewer_links D s s'" by (rule fewer_links_trans [OF removed_fewer [OF rm] s'(8)])
  ultimately show ?case using s'(2,3) by blast
qed simp

section \<open>Resolving an element\<close>

text \<open>After its back link an element is taken out of its delay list.\<close>

lemma remove_de_step:
  assumes ok: "delays_ok D s" and p: "p \<in> set (bl_of D s t)" and k: "lnk_of s p = Some (dl, de)" and u: "unlinked D t p s s1"
  shows "\<exists>s2. remove_de_from_dl de dl s1 = Inr (remove1 de (des_of s dl) \<noteq> [], s2) \<and>
    delays_ok D s2 \<and> still s s2 \<and> fewer_links D s s2 \<and> Suc (pnde_num s2) = pnde_num s \<and>
    des_of s2 = (des_of s)(dl := remove1 de (des_of s dl)) \<and> ref_of s2 = (ref_of s)(de := None) \<and>
    (\<exists>l. dl \<in> set (dls_of s l) \<and> de \<in> set (des_of s dl) \<and> ref_of s de = Some (t, p))"
proof -
  have n: "net_ok {} {} (delay_view D s)" and m: "memory_ok s" and w: "world_ok D s" using ok by (simp_all add: delays_ok_def)
  obtain l dl' de' where "lnk_of s p = Some (dl', de')" "dl' \<in> set (dls_of s l)" "de' \<in> set (des_of s dl')" "ref_of s de' = Some (t, p)"
    using net_lnkE [OF n, unfolded delay_view_simps, OF p] by blast
  then have l: "dl \<in> set (dls_of s l)" "de \<in> set (des_of s dl)" "ref_of s de = Some (t, p)" using k by simp_all
  obtain e where e: "de_tab s de = Some e" using l(3) by (rule ref_ofD)
  obtain d where d: "dl_tab s dl = Some d" "dl_de_list d = des_of s dl"
    using l(2) by (cases "dl_tab s dl") (auto simp: des_of_def)
  let ?t = "s1\<lparr>dl_tab := (dl_tab s1)(dl \<mapsto> d\<lparr>dl_de_list := remove1 de (dl_de_list d)\<rparr>)\<rparr>"
  have m1: "memory_ok s1" and e1: "de_tab s1 de = Some e" and d1: "dl_tab s1 = dl_tab s"
    using u e by (simp_all add: unlinked_def)
  have "dom (dl_tab ?t) = dom (dl_tab s1)" using d d1 by auto
  then have "pools_ok ?t" using m1 by (simp add: memory_ok_def pools_ok_def)
  moreover have "delay_tries_ok ?t = delay_tries_ok s1" by (rule tries_cong) simp_all
  ultimately have mt: "memory_ok ?t" using m1 by (simp add: memory_ok_def)
  have "de_tab ?t de = Some e" using e1 by simp
  then obtain s2 where s2: "release_shared_de_entry de ?t = Inr s2" and f: "element_freed D de ?t s2"
    using release_de_step [OF mt] by blast
  have bt: "bl_of D ?t = bl_of D s1"
  proof
    fix u show "bl_of D ?t u = bl_of D s1 u" by (cases u) (simp_all add: asi_field_def split: option.split leaf_child.split)
  qed
  have tt: "still s1 ?t" by (simp add: still_def sg_core_def asi_core_def fun_eq_iff)
  have st: "still s s2" using u f tt by (auto simp: unlinked_def element_freed_def intro: still_trans)
  have dt: "dl_tab s2 = (dl_tab s)(dl \<mapsto> d\<lparr>dl_de_list := remove1 de (dl_de_list d)\<rparr>)"
    using f d1 unfolding element_freed_def by simp
  have des2: "des_of s2 = (des_of s)(dl := remove1 de (des_of s dl))"
    using d by (simp add: des_of_def dt fun_eq_iff)
  have asl2: "asl_of s2 = asl_of s"
    using d by (simp add: asl_of_def dt fun_eq_iff)
  have tabs: "de_tab s2 = (de_tab s)(de := None)" "pnde_tab s2 = (pnde_tab s)(p := None)"
    "bl_of D s2 = (bl_of D s)(t := remove1 p (bl_of D s t))"
  proof -
    have "de_tab s2 = (de_tab ?t)(de := None)" "pnde_tab s2 = pnde_tab ?t" "bl_of D s2 = bl_of D ?t"
      using f unfolding element_freed_def by blast+
    moreover have "de_tab s1 = de_tab s" "pnde_tab s1 = (pnde_tab s)(p := None)" "bl_of D s1 = (bl_of D s)(t := remove1 p (bl_of D s t))"
      using u unfolding unlinked_def by blast+
    ultimately show "de_tab s2 = (de_tab s)(de := None)" "pnde_tab s2 = (pnde_tab s)(p := None)"
      "bl_of D s2 = (bl_of D s)(t := remove1 p (bl_of D s t))" using bt by simp_all
  qed
  have dd: "dom (dl_tab s2) = dom (dl_tab s)" using d(1) by (simp add: dt insert_absorb domI)
  note r2 = ref_of_upd [OF tabs(1)]
  have "delay_view D s2 = cut dl de t p (delay_view D s)"
    using still_dls_of [OF st] des2 asl2 tabs r2 lnk_of_upd [OF tabs(2)] dd by (simp add: cut_def delay_view_def)
  then have "net_ok {} {} (delay_view D s2)" using cut_ok [OF n, of dl l de t p] l by simp
  moreover have m2: "memory_ok s2" using f by (simp add: element_freed_def)
  ultimately have ok2: "delays_ok D s2" using still_world [OF st w] by (simp add: delays_ok_def)
  have "p \<in> dom (pnde_tab s)" using k by (auto elim: lnk_ofD)
  then have "Suc (pnde_num s2) = pnde_num s"
    using card_Suc_Diff1 [OF finite_pndes [OF m]] tabs(2) by (simp add: pnde_num_def)
  moreover have "fewer_links D s s2" using tabs(3) by (simp add: fewer_links_def)
  moreover have "remove_de_from_dl de dl s1 = Inr (remove1 de (des_of s dl) \<noteq> [], s2)"
    using d d1 l(2) s2 by (simp add: remove_de_from_dl_def)
  ultimately show ?thesis using ok2 st des2 r2 l by (intro exI [of _ s2] conjI) (assumption | blast)+
qed

definition resolved :: "nat set \<Rightarrow> target \<Rightarrow> nat \<Rightarrow> nat \<Rightarrow> delay_state \<Rightarrow> delay_state \<Rightarrow> bool" where
  "resolved D t dl de s s' \<longleftrightarrow> delays_ok D s' \<and> still s s' \<and> fewer_links D s s' \<and> Suc (pnde_num s') = pnde_num s \<and>
    des_of s' = (des_of s)(dl := remove1 de (des_of s dl)) \<and> ref_of s' = (ref_of s)(de := None) \<and>
    (\<exists>l. dl \<in> set (dls_of s l) \<and> de \<in> set (des_of s dl) \<and> (\<exists>p. ref_of s de = Some (t, p)))"

lemma first_link:
  assumes ok: "delays_ok D s" and p: "p \<in> set (bl_of D s t)"
  obtains l dl de q where "lnk_of s p = Some (dl, de)" "pnde_tab s p = Some q" "pnde_dl q = Some dl" "pnde_de q = de"
    "dl \<in> set (dls_of s l)" "de \<in> set (des_of s dl)" "ref_of s de = Some (t, p)"
proof -
  have n: "net_ok {} {} (delay_view D s)" using ok by (simp add: delays_ok_def)
  obtain l dl de where a: "lnk_of s p = Some (dl, de)" "dl \<in> set (dls_of s l)" "de \<in> set (des_of s dl)" "ref_of s de = Some (t, p)"
    using net_lnkE [OF n, unfolded delay_view_simps, OF p] by blast
  obtain q where "pnde_tab s p = Some q" "pnde_dl q = Some dl" "pnde_de q = de" using a(1) by (rule lnk_ofD)
  then show ?thesis using that a by blast
qed

lemma resolve_nde_step:
  assumes ok: "delays_ok D s" and p: "p \<in> set (bl_of D s (Neg S))"
  shows "\<exists>dl de s'. resolve_nde S p s = Inr ((des_of s' dl \<noteq> [], dl), s') \<and> resolved D (Neg S) dl de s s'"
proof -
  obtain l dl de q where q: "lnk_of s p = Some (dl, de)" "pnde_tab s p = Some q" "pnde_dl q = Some dl" "pnde_de q = de"
    "dl \<in> set (dls_of s l)" "de \<in> set (des_of s dl)" "ref_of s de = Some (Neg S, p)" using ok p by (rule first_link)
  obtain s1 where s1: "remove_nde S p s = Inr s1" "unlinked D (Neg S) p s s1"
    using remove_nde_step [of s p D S] ok p q(2) by (auto simp: delays_ok_def)
  obtain s2 where s2: "remove_de_from_dl de dl s1 = Inr (remove1 de (des_of s dl) \<noteq> [], s2)"
      "delays_ok D s2" "still s s2" "fewer_links D s s2" "Suc (pnde_num s2) = pnde_num s"
      "des_of s2 = (des_of s)(dl := remove1 de (des_of s dl))" "ref_of s2 = (ref_of s)(de := None)"
    using remove_de_step [OF ok p q(1) s1(2)] by blast
  have "resolved D (Neg S) dl de s s2" using s2 q unfolding resolved_def by blast
  moreover have "resolve_nde S p s = Inr ((des_of s2 dl \<noteq> [], dl), s2)" using q s1 s2(1,6) by (simp add: resolve_nde_def)
  ultimately show ?thesis by blast
qed

lemma resolve_pde_step:
  assumes ok: "delays_ok D s" and h: "holds_asi D s l a k" and p: "p \<in> set (bl_of D s (Pos l))"
  shows "\<exists>dl de s'. resolve_pde a p s = Inr ((des_of s' dl \<noteq> [], dl), s') \<and> resolved D (Pos l) dl de s s'"
proof -
  obtain l' dl de q where q: "lnk_of s p = Some (dl, de)" "pnde_tab s p = Some q" "pnde_dl q = Some dl" "pnde_de q = de"
    "dl \<in> set (dls_of s l')" "de \<in> set (des_of s dl)" "ref_of s de = Some (Pos l, p)" using ok p by (rule first_link)
  have pd: "p \<in> dom (pnde_tab s)" using q(2) by blast
  obtain s1 where s1: "remove_pde a p s = Inr s1" "unlinked D (Pos l) p s s1"
    using remove_pde_step [OF _ _ h p pd] ok unfolding delays_ok_def by blast
  obtain s2 where s2: "remove_de_from_dl de dl s1 = Inr (remove1 de (des_of s dl) \<noteq> [], s2)"
      "delays_ok D s2" "still s s2" "fewer_links D s s2" "Suc (pnde_num s2) = pnde_num s"
      "des_of s2 = (des_of s)(dl := remove1 de (des_of s dl))" "ref_of s2 = (ref_of s)(de := None)"
    using remove_de_step [OF ok p q(1) s1(2)] by blast
  have "resolved D (Pos l) dl de s s2" using s2 q unfolding resolved_def by blast
  moreover have "resolve_pde a p s = Inr ((des_of s2 dl \<noteq> [], dl), s2)" using q s1 s2(1,6) by (simp add: resolve_pde_def)
  ultimately show ?thesis by blast
qed

section \<open>Discarding delay lists\<close>

definition kept :: "delay_state \<Rightarrow> delay_state \<Rightarrow> bool" where
  "kept s s' \<longleftrightarrow> leaves s' = leaves s \<and> sg_core s' = sg_core s \<and>
     (\<lambda>a. map_option asi_subgoal (asi_tab s' a)) = (\<lambda>a. map_option asi_subgoal (asi_tab s a)) \<and>
     simplification_depth s' = simplification_depth s \<and> neg_fails_stack s' = neg_fails_stack s \<and>
     in_simplify_neg_fails s' = in_simplify_neg_fails s"

lemma kept_trans: "kept s t \<Longrightarrow> kept t u \<Longrightarrow> kept s u"
  by (simp add: kept_def)

lemma still_kept: "still s s' \<Longrightarrow> kept s s'"
proof -
  assume t: "still s s'"
  have "map_option asi_subgoal (asi_tab s' a) = map_option asi_subgoal (asi_tab s a)" for a
  proof -
    have c: "asi_core s' a = asi_core s a" using t by (simp add: still_def)
    show ?thesis
    proof (cases "asi_tab s a")
      case None
      then show ?thesis using c by (simp add: asi_core_def)
    next
      case (Some i)
      then obtain i' where "asi_tab s' a = Some i'" "asi_subgoal i' = asi_subgoal i" using still_asi [OF t] by blast
      then show ?thesis using Some by simp
    qed
  qed
  then show ?thesis using t by (simp add: kept_def still_def fun_eq_iff)
qed

lemma kept_asi:
  assumes "kept s s'" "asi_tab s a = Some i"
  obtains i' where "asi_tab s' a = Some i'" "asi_subgoal i' = asi_subgoal i"
proof -
  have "map_option asi_subgoal (asi_tab s' a) = Some (asi_subgoal i)"
    using assms fun_cong [of "\<lambda>a. map_option asi_subgoal (asi_tab s' a)" "\<lambda>a. map_option asi_subgoal (asi_tab s a)" a]
    by (simp add: kept_def)
  then show ?thesis using that by blast
qed

lemma sg_coreE:
  assumes "sg_core s' = sg_core s" "subgoals s S = Some F"
  obtains F' where "subgoals s' S = Some F'" "F'\<lparr>subg_nde_list := []\<rparr> = F\<lparr>subg_nde_list := []\<rparr>"
proof -
  have "sg_core s' S = Some (F\<lparr>subg_nde_list := []\<rparr>)" using assms by (simp add: sg_core_def)
  then show ?thesis using that by (auto simp: sg_core_def)
qed

lemma sg_core_dom: "sg_core s' = sg_core s \<Longrightarrow> dom (subgoals s') = dom (subgoals s)"
proof -
  assume c: "sg_core s' = sg_core s"
  have "subgoals s' S = None \<longleftrightarrow> subgoals s S = None" for S
    using fun_cong [OF c, of S] by (cases "subgoals s' S"; cases "subgoals s S") (simp_all add: sg_core_def)
  then show ?thesis by (auto simp: dom_def)
qed

text \<open>What the invariant of the answers needs.\<close>

lemma world_okD:
  assumes "world_ok D s" "holds_asi D s l a m"
  obtains i F where "asi_tab s a = Some i" "subgoals s (asi_subgoal i) = Some F" "l \<notin> D \<Longrightarrow> l \<in> set (ans_leaves F)"
  using assms unfolding world_ok_def by blast

lemma world_ex:
  "world_ok D s \<Longrightarrow> holds_asi D s l a m \<Longrightarrow>
   \<exists>i F. asi_tab s a = Some i \<and> subgoals s (asi_subgoal i) = Some F \<and> (l \<notin> D \<longrightarrow> l \<in> set (ans_leaves F))"
  unfolding world_ok_def by blast

lemma world_one: "world_ok D s \<Longrightarrow> holds_asi D s l a m \<Longrightarrow> holds_asi D s k a m' \<Longrightarrow> k = l"
  unfolding world_ok_def by blast

lemma world_deleted:
  assumes "world_ok D s" "l \<in> D"
  obtains L a m where "leaves s l = Some L" "\<not> tn_valid L" "tn_child L = Asi_Child a m"
  using assms unfolding world_ok_def by blast

lemma world_rest: "world_ok D s \<Longrightarrow> S \<in> set (neg_fails_stack s) \<Longrightarrow> S \<in> dom (subgoals s)"
  "world_ok D s \<Longrightarrow> \<not> in_simplify_neg_fails s \<Longrightarrow> neg_fails_stack s = []"
  unfolding world_ok_def by blast+

lemma world_okI:
  assumes "\<And>l a m. holds_asi D s l a m \<Longrightarrow>
      \<exists>i F. asi_tab s a = Some i \<and> subgoals s (asi_subgoal i) = Some F \<and> (l \<notin> D \<longrightarrow> l \<in> set (ans_leaves F))"
    and "\<And>l k a m m'. holds_asi D s l a m \<Longrightarrow> holds_asi D s k a m' \<Longrightarrow> k = l"
    and "\<And>l. l \<in> D \<Longrightarrow> \<exists>L a m. leaves s l = Some L \<and> \<not> tn_valid L \<and> tn_child L = Asi_Child a m"
    and "\<And>S. S \<in> set (neg_fails_stack s) \<Longrightarrow> S \<in> dom (subgoals s)"
    and "\<not> in_simplify_neg_fails s \<Longrightarrow> neg_fails_stack s = []"
  shows "world_ok D s"
  unfolding world_ok_def using assms by blast

lemma kept_world:
  assumes k: "kept s s'" and w: "world_ok D s"
  shows "world_ok D s'"
proof (rule world_okI)
  have l: "leaves s' = leaves s" and c: "sg_core s' = sg_core s" and r: "neg_fails_stack s' = neg_fails_stack s"
    "in_simplify_neg_fails s' = in_simplify_neg_fails s" using k by (simp_all add: kept_def)
  have h: "holds_asi D s' = holds_asi D s" using l by (simp add: holds_asi_def fun_eq_iff)
  show "k = j" if "holds_asi D s' j a m" "holds_asi D s' k a m'" for j k a m m'
    using world_one [OF w] that unfolding h by blast
  show "\<exists>i F. asi_tab s' a = Some i \<and> subgoals s' (asi_subgoal i) = Some F \<and> (j \<notin> D \<longrightarrow> j \<in> set (ans_leaves F))"
    if "holds_asi D s' j a m" for j a m
  proof -
    have "holds_asi D s j a m" using that h by simp
    with w obtain i F where i: "asi_tab s a = Some i" "subgoals s (asi_subgoal i) = Some F" "j \<notin> D \<Longrightarrow> j \<in> set (ans_leaves F)"
      by (rule world_okD) blast
    obtain i' where i': "asi_tab s' a = Some i'" "asi_subgoal i' = asi_subgoal i" using k i(1) by (rule kept_asi)
    obtain F' where F': "subgoals s' (asi_subgoal i) = Some F'" "F'\<lparr>subg_nde_list := []\<rparr> = F\<lparr>subg_nde_list := []\<rparr>"
      using c i(2) by (rule sg_coreE)
    have "ans_leaves F' = ans_leaves F" by (rule frame_eqD(1) [OF F'(2)])
    then show ?thesis using i' i(3) F'(1) by simp
  qed
  show "\<exists>L a m. leaves s' j = Some L \<and> \<not> tn_valid L \<and> tn_child L = Asi_Child a m" if "j \<in> D" for j
    using world_deleted [OF w that] l by metis
  show "S \<in> dom (subgoals s')" if "S \<in> set (neg_fails_stack s')" for S
    using world_rest(1) [OF w] that r sg_core_dom [OF c] by simp
  show "neg_fails_stack s' = []" if "\<not> in_simplify_neg_fails s'"
    using world_rest(2) [OF w] that r by simp
qed

text \<open>A delay list that is left has the elements it had.\<close>

definition agree :: "delay_state \<Rightarrow> delay_state \<Rightarrow> bool" where
  "agree s s' \<longleftrightarrow> (\<forall>k dl. dl \<in> set (dls_of s' k) \<longrightarrow> dl \<in> set (dls_of s k) \<and> des_of s' dl = des_of s dl \<and>
     (\<forall>x \<in> set (des_of s dl). ref_of s' x = ref_of s x))"

lemma release_dl_step:
  assumes m: "memory_ok s" and d: "dl \<in> dom (dl_tab s)"
  shows "memory_ok (release_dl dl s) \<and> still s (release_dl dl s) \<and> bl_of D (release_dl dl s) = bl_of D s \<and>
    des_of (release_dl dl s) = (des_of s)(dl := []) \<and> asl_of (release_dl dl s) = (asl_of s)(dl := None) \<and>
    de_tab (release_dl dl s) = de_tab s \<and> pnde_tab (release_dl dl s) = pnde_tab s \<and> dom (dl_tab (release_dl dl s)) = dom (dl_tab s) - {dl}"
proof -
  let ?s = "release_dl dl s"
  have "pool_taken (release_entry dl (dl_pool s)) = dom (dl_tab s) - {dl} \<and> pool_ok (release_entry dl (dl_pool s))"
    using release_entry_pool [of "dl_pool s" dl] m d by (simp add: memory_ok_def pools_ok_def)
  moreover have "pools_ok s" using m by (simp add: memory_ok_def)
  ultimately have "pools_ok ?s" by (simp add: pools_ok_def release_entry_def release_dl_def dom_fun_upd)
  moreover have "delay_tries_ok ?s = delay_tries_ok s" by (rule tries_cong) (simp_all add: release_dl_def)
  moreover have "bl_of D ?s = bl_of D s"
  proof
    fix u show "bl_of D ?s u = bl_of D s u"
      by (cases u) (simp_all add: release_dl_def asi_field_def split: option.split leaf_child.split)
  qed
  moreover have "still s ?s" by (simp add: still_def release_dl_def sg_core_def asi_core_def fun_eq_iff)
  ultimately show ?thesis using m
    by (simp add: memory_ok_def release_dl_def des_of_def asl_of_def fun_eq_iff)
qed

end
