(* ===== verification/Delay_Discarding.thy ===== *)
theory Delay_Discarding imports Delay_Removal begin

text \<open>
  The removals that concern whole answers: a delay list is taken from its answer, all the lists of an answer are released,
  an answer becomes unconditional or is deleted.
\<close>

lemma view_with: "(delay_view D s)\<lparr>n_dls := dls_of s, n_des := (des_of s)(dl := des_of s dl)\<rparr> = delay_view D s"
  by (simp add: delay_view_def)

lemma view_same_dls: "(delay_view D s)\<lparr>n_dls := (dls_of s)(l := dls_of s l)\<rparr> = delay_view D s"
  by (simp add: delay_view_def)

lemma holds_dls_zero: "holds_asi D s l a True \<Longrightarrow> dls_of s l = []"
  by (auto simp: holds_asi_def dls_of_def)

text \<open>The delay lists that an \<open>AS_info\<close> has are changed.\<close>

definition set_dl_list :: "nat \<Rightarrow> nat list \<Rightarrow> delay_state \<Rightarrow> delay_state" where
  "set_dl_list a ds s = s\<lparr>asi_tab := (asi_tab s)(a := map_option (\<lambda>i. i\<lparr>asi_dl_list := ds\<rparr>) (asi_tab s a))\<rparr>"

lemma set_dl_list_tabs [simp]:
  "de_tab (set_dl_list a ds s) = de_tab s" "dl_tab (set_dl_list a ds s) = dl_tab s" "pnde_tab (set_dl_list a ds s) = pnde_tab s"
  "leaves (set_dl_list a ds s) = leaves s" "subgoals (set_dl_list a ds s) = subgoals s"
  "des_of (set_dl_list a ds s) = des_of s" "asl_of (set_dl_list a ds s) = asl_of s" "ref_of (set_dl_list a ds s) = ref_of s"
  "lnk_of (set_dl_list a ds s) = lnk_of s"
  by (simp_all add: set_dl_list_def des_of_def asl_of_def ref_of_def lnk_of_def fun_eq_iff)

lemma set_dl_list_step:
  assumes m: "memory_ok s" and w: "world_ok D s"
    and L: "leaves s l = Some L" "tn_valid L" "tn_child L = Asi_Child a False"
  shows "memory_ok (set_dl_list a ds s) \<and> kept s (set_dl_list a ds s) \<and> bl_of D (set_dl_list a ds s) = bl_of D s \<and>
    dls_of (set_dl_list a ds s) = (dls_of s)(l := ds)"
proof -
  let ?s = "set_dl_list a ds s"
  have h: "holds_asi D s l a False" using L by (simp add: holds_asi_def)
  obtain i where i: "asi_tab s a = Some i" using w h by (rule world_okD)
  have "dom (asi_tab ?s) = dom (asi_tab s)" using i by (auto simp: set_dl_list_def)
  then have "pools_ok ?s" using m by (simp add: memory_ok_def pools_ok_def set_dl_list_def)
  moreover have "delay_tries_ok ?s = delay_tries_ok s" by (rule tries_cong) (simp_all add: set_dl_list_def)
  ultimately have "memory_ok ?s" using m by (simp add: memory_ok_def)
  moreover have "kept s ?s" using i by (simp add: kept_def set_dl_list_def sg_core_def fun_eq_iff)
  moreover have p: "asi_field asi_pdes ?s b = asi_field asi_pdes s b" for b
    using i by (simp add: asi_field_def set_dl_list_def)
  have "bl_of D ?s = bl_of D s"
  proof
    fix u show "bl_of D ?s u = bl_of D s u"
      by (cases u) (simp_all add: p split: option.split leaf_child.split)
  qed
  moreover have "dls_of ?s k = ((dls_of s)(l := ds)) k" for k
  proof (cases "k = l")
    case True
    then show ?thesis using L i dls_of_valid [of ?s l L a] by (simp add: asi_field_def set_dl_list_def)
  next
    case False
    have "dls_of ?s k = dls_of s k"
    proof (cases "\<exists>K b. leaves s k = Some K \<and> tn_valid K \<and> tn_child K = Asi_Child b False")
      case True
      then obtain K b where K: "leaves s k = Some K" "tn_valid K" "tn_child K = Asi_Child b False" by blast
      then have "holds_asi D s k b False" by (simp add: holds_asi_def)
      then have "b \<noteq> a" using world_one [OF w h] False by blast
      then show ?thesis using dls_of_valid [of ?s k K b] dls_of_valid [of s k K b] K by (simp add: asi_field_def set_dl_list_def)
    next
      case none: False
      then show ?thesis by (auto simp: dls_of_def split: option.split leaf_child.split)
    qed
    then show ?thesis using False by simp
  qed
  ultimately show ?thesis by (simp add: fun_eq_iff)
qed

lemma remove_dl_step:
  assumes m: "memory_ok s" and w: "world_ok D s" and n: "net_ok {} {} ((delay_view D s)\<lparr>n_dls := dls_of s, n_des := (des_of s)(dl := [])\<rparr>)"
    and L: "leaves s l = Some L" "tn_valid L" "tn_child L = Asi_Child a False" and dl: "dl \<in> set (dls_of s l)"
  shows "\<exists>s'. remove_dl_from_dl_list dl a s = Inr (remove1 dl (dls_of s l) \<noteq> [], s') \<and> delays_ok D s' \<and> kept s s' \<and>
    dls_of s' = (dls_of s)(l := remove1 dl (dls_of s l)) \<and> des_of s' = (des_of s)(dl := []) \<and> de_tab s' = de_tab s \<and>
    pnde_tab s' = pnde_tab s \<and> bl_of D s' = bl_of D s"
proof -
  have h: "holds_asi D s l a False" using L by (simp add: holds_asi_def)
  obtain i where i: "asi_tab s a = Some i" using w h by (rule world_okD)
  have li: "dls_of s l = asi_dl_list i" using dls_of_valid [of s l L a] L i by (simp add: asi_field_def)
  let ?t = "set_dl_list a (remove1 dl (dls_of s l)) s"
  let ?s = "release_dl dl ?t"
  have t: "memory_ok ?t" "kept s ?t" "bl_of D ?t = bl_of D s" "dls_of ?t = (dls_of s)(l := remove1 dl (dls_of s l))"
    using set_dl_list_step [OF m w L] by blast+
  have "dl \<in> dom (dl_tab s)" using net_okD(2) [OF n, of dl l] dl by simp
  then have dt: "dl \<in> dom (dl_tab ?t)" by simp
  note r = release_dl_step [OF t(1) dt, of D]
  have st: "still ?t ?s" using r by blast
  have k: "kept s ?s" by (rule kept_trans [OF t(2) still_kept [OF st]])
  have des: "des_of ?s = (des_of s)(dl := [])" and asl: "asl_of ?s = (asl_of s)(dl := None)" and bl: "bl_of D ?s = bl_of D s"
    and de: "de_tab ?s = de_tab s" and pn: "pnde_tab ?s = pnde_tab s" and dd: "dom (dl_tab ?s) = dom (dl_tab s) - {dl}"
    using r t(3) by simp_all
  have dls: "dls_of ?s = (dls_of s)(l := remove1 dl (dls_of s l))" using still_dls_of [OF st] t(4) by simp
  have rf: "ref_of ?s = ref_of s" "lnk_of ?s = lnk_of s" using de pn by (simp_all add: ref_of_def lnk_of_def fun_eq_iff)
  have "delay_view D ?s = drop_list l dl ((delay_view D s)\<lparr>n_dls := dls_of s, n_des := (des_of s)(dl := [])\<rparr>)"
    unfolding delay_view_def drop_list_def using des asl bl de pn dd dls rf by simp
  moreover have "net_ok {} {} (drop_list l dl ((delay_view D s)\<lparr>n_dls := dls_of s, n_des := (des_of s)(dl := [])\<rparr>))"
    by (rule drop_list_ok [OF n]) (simp_all add: dl)
  ultimately have "net_ok {} {} (delay_view D ?s)" by simp
  moreover have "memory_ok ?s" using r by blast
  ultimately have "delays_ok D ?s" using kept_world [OF k w] by (simp add: delays_ok_def)
  moreover have "asi_dl_list i \<noteq> []" "dl \<in> set (asi_dl_list i)" using dl li by auto
  then have "remove_dl_from_dl_list dl a s = Inr (remove1 dl (dls_of s l) \<noteq> [], ?s)"
    using i li by (simp add: remove_dl_from_dl_list_def set_dl_list_def)
  ultimately show ?thesis using k dls des de pn bl by blast
qed

text \<open>A list is discarded with its elements.\<close>

definition discarded :: "nat set \<Rightarrow> nat \<Rightarrow> nat \<Rightarrow> delay_state \<Rightarrow> delay_state \<Rightarrow> bool" where
  "discarded D l dl s s' \<longleftrightarrow> delays_ok D s' \<and> kept s s' \<and> dls_of s' = (dls_of s)(l := remove1 dl (dls_of s l)) \<and> agree s s' \<and>
     pnde_num s' + length (des_of s dl) = pnde_num s \<and> fewer_links D s s'"

lemma agree_lists:
  assumes n: "net_ok {} {} (delay_view D s)"
    and sub: "\<And>k d. d \<in> set (dls_of s' k) \<Longrightarrow> d \<in> set (dls_of s k) \<and> d \<notin> G"
    and des: "\<And>d. d \<notin> G \<Longrightarrow> des_of s' d = des_of s d"
    and de: "\<And>x. (\<And>d. d \<in> G \<Longrightarrow> x \<notin> set (des_of s d)) \<Longrightarrow> de_tab s' x = de_tab s x"
    and G: "\<And>d. d \<in> G \<Longrightarrow> \<exists>l. d \<in> set (dls_of s l)"
  shows "agree s s'"
  unfolding agree_def
proof (intro allI impI conjI ballI)
  fix k d assume d: "d \<in> set (dls_of s' k)"
  show "d \<in> set (dls_of s k)" "des_of s' d = des_of s d" using sub [OF d] des by blast+
  fix x assume x: "x \<in> set (des_of s d)"
  have "x \<notin> set (des_of s g)" if "g \<in> G" for g
  proof
    assume xg: "x \<in> set (des_of s g)"
    obtain l where "g \<in> set (dls_of s l)" using G [OF \<open>g \<in> G\<close>] by blast
    then have "g = d" using net_unique [OF n, of d k x g l] sub [OF d] x xg by simp
    then show False using sub [OF d] \<open>g \<in> G\<close> by simp
  qed
  then have "de_tab s' x = de_tab s x" using de by blast
  then show "ref_of s' x = ref_of s x" by (simp add: ref_of_def)
qed

lemma discard_list_step:
  assumes ok: "delays_ok D s" and dl: "dl \<in> set (dls_of s l)"
  shows "\<exists>s'. discard_list dl s = Inr ((dls_of s' l \<noteq> [], l), s') \<and> discarded D l dl s s'"
proof -
  have n: "net_ok {} {} (delay_view D s)" and m: "memory_ok s" and w: "world_ok D s" using ok by (simp_all add: delays_ok_def)
  have "dls_of s l \<noteq> []" using dl by auto
  then obtain L a where L: "leaves s l = Some L" "tn_valid L" "tn_child L = Asi_Child a False" by (rule dls_of_cases)
  have "asl_of s dl = Some l" using net_okD(1) [OF n, of dl l] dl by simp
  then obtain d where d: "dl_tab s dl = Some d" "dl_asl d = Some l" by (auto simp: asl_of_def split: option.splits)
  have dd: "dl_de_list d = des_of s dl" using d by (simp add: des_of_def)
  have nv: "net_ok {} {} ((delay_view D s)\<lparr>n_dls := dls_of s, n_des := (des_of s)(dl := des_of s dl)\<rparr>)" using n by (simp only: view_with)
  obtain s1 where s1: "release_elements False (des_of s dl) s = Inr s1"
      "net_ok {} {} ((delay_view D s1)\<lparr>n_dls := dls_of s, n_des := (des_of s)(dl := [])\<rparr>)" "memory_ok s1" "still s s1"
      "dl_tab s1 = dl_tab s" "\<forall>x. x \<notin> set (des_of s dl) \<longrightarrow> de_tab s1 x = de_tab s x"
      "pnde_num s1 + length (des_of s dl) = pnde_num s" "fewer_links D s s1"
    using release_elements_step [where Y = "dls_of s" and X = "des_of s" and dl = dl and chk = False, OF nv dl m w] by blast
  have e1: "dls_of s1 = dls_of s" "des_of s1 = des_of s" using still_dls_of [OF s1(4)] des_of_cong [OF s1(5)] by simp_all
  have w1: "world_ok D s1" by (rule still_world [OF s1(4) w])
  have L1: "leaves s1 l = Some L" using s1(4) L by (simp add: still_def)
  have n1: "net_ok {} {} ((delay_view D s1)\<lparr>n_dls := dls_of s1, n_des := (des_of s1)(dl := [])\<rparr>)" using s1(2) e1 by simp
  have dl1: "dl \<in> set (dls_of s1 l)" using dl e1 by simp
  obtain s2 where s2: "remove_dl_from_dl_list dl a s1 = Inr (remove1 dl (dls_of s1 l) \<noteq> [], s2)" "delays_ok D s2" "kept s1 s2"
      "dls_of s2 = (dls_of s1)(l := remove1 dl (dls_of s1 l))" "des_of s2 = (des_of s1)(dl := [])" "de_tab s2 = de_tab s1"
      "pnde_tab s2 = pnde_tab s1" "bl_of D s2 = bl_of D s1"
    using remove_dl_step [OF s1(3) w1 n1 L1 L(2,3) dl1] by blast
  have dls2: "dls_of s2 = (dls_of s)(l := remove1 dl (dls_of s l))" using s2(4) e1 by simp
  have "agree s s2"
  proof (rule agree_lists [OF n, where G = "{dl}"])
    show "x \<in> set (dls_of s k) \<and> x \<notin> {dl}" if x: "x \<in> set (dls_of s2 k)" for k x
    proof (cases "k = l")
      case True
      then show ?thesis using x net_okD(4) [OF n, of l] by (simp add: dls2)
    next
      case False
      then have "x \<in> set (dls_of s k)" using x by (simp add: dls2)
      moreover have "dl \<notin> set (dls_of s k)" using net_one_answer [OF n, of dl l k] dl False by auto
      ultimately show ?thesis by auto
    qed
    show "des_of s2 x = des_of s x" if "x \<notin> {dl}" for x using that s2(5) e1(2) by simp
    show "de_tab s2 x = de_tab s x" if "\<And>d. d \<in> {dl} \<Longrightarrow> x \<notin> set (des_of s d)" for x
      using that [of dl] s1(6) s2(6) by simp
    show "\<exists>k. x \<in> set (dls_of s k)" if "x \<in> {dl}" for x using that dl by auto
  qed
  moreover have "pnde_num s2 = pnde_num s1" using s2(7) by (simp add: pnde_num_def)
  moreover have "fewer_links D s s2" using s1(8) s2(8) by (simp add: fewer_links_def)
  moreover have "kept s s2" by (rule kept_trans [OF still_kept [OF s1(4)] s2(3)])
  ultimately have "discarded D l dl s s2" using s2(2) dls2 s1(7) by (simp add: discarded_def)
  moreover have "discard_list dl s = Inr ((dls_of s2 l \<noteq> [], l), s2)"
    using d dd L s1(1) s2(1) dls2 e1 by (simp add: discard_list_def Delay_def)
  ultimately show ?thesis by blast
qed

section \<open>All lists of an answer\<close>

lemma release_dls_step:
  assumes "net_ok {} {} ((delay_view D s)\<lparr>n_dls := Y(l := ds)\<rparr>)" "memory_ok s" "world_ok D s"
  shows "\<exists>s'. release_dls ds s = Inr s' \<and> net_ok {} {} ((delay_view D s')\<lparr>n_dls := Y(l := [])\<rparr>) \<and> memory_ok s' \<and> still s s' \<and>
    (\<forall>d. d \<notin> set ds \<longrightarrow> des_of s' d = des_of s d) \<and>
    (\<forall>x. (\<forall>d \<in> set ds. x \<notin> set (des_of s d)) \<longrightarrow> de_tab s' x = de_tab s x) \<and> pnde_num s' \<le> pnde_num s \<and> fewer_links D s s'"
  using assms
proof (induction ds arbitrary: s)
  case (Cons dl ds)
  let ?Y = "Y(l := dl # ds)"
  have n: "net_ok {} {} ((delay_view D s)\<lparr>n_dls := ?Y\<rparr>)" and m: "memory_ok s" and w: "world_ok D s" using Cons.prems by blast+
  have dl: "dl \<in> set (?Y l)" by simp
  have "dl \<in> dom (dl_tab s)" using net_okD(2) [OF n, of dl l] by simp
  then obtain d where d: "dl_tab s dl = Some d" by blast
  have dd: "dl_de_list d = des_of s dl" using d by (simp add: des_of_def)
  have nv: "net_ok {} {} ((delay_view D s)\<lparr>n_dls := ?Y, n_des := (des_of s)(dl := des_of s dl)\<rparr>)"
    using n by (simp add: delay_view_def)
  obtain s1 where s1: "release_elements True (des_of s dl) s = Inr s1"
      "net_ok {} {} ((delay_view D s1)\<lparr>n_dls := ?Y, n_des := (des_of s)(dl := [])\<rparr>)" "memory_ok s1" "still s s1"
      "dl_tab s1 = dl_tab s" "\<forall>x. x \<notin> set (des_of s dl) \<longrightarrow> de_tab s1 x = de_tab s x"
      "pnde_num s1 + length (des_of s dl) = pnde_num s" "fewer_links D s s1"
    using release_elements_step [where Y = "?Y" and X = "des_of s" and dl = dl and chk = True, OF nv dl m w] by blast
  let ?s = "release_dl dl s1"
  have "dl \<in> dom (dl_tab s1)" using d s1(5) by auto
  note r = release_dl_step [OF s1(3) this, of D]
  have st: "still s ?s" using r by (blast intro: still_trans [OF s1(4)])
  have e1: "des_of s1 = des_of s" "asl_of s1 = asl_of s" using des_of_cong [OF s1(5)] by blast+
  have des: "des_of ?s = (des_of s)(dl := [])" and asl: "asl_of ?s = (asl_of s1)(dl := None)" and bl: "bl_of D ?s = bl_of D s1"
    and de: "de_tab ?s = de_tab s1" and pn: "pnde_tab ?s = pnde_tab s1" and dm: "dom (dl_tab ?s) = dom (dl_tab s1) - {dl}"
    using r e1 by simp_all
  have rf: "ref_of ?s = ref_of s1" "lnk_of ?s = lnk_of s1" using de pn by (simp_all add: ref_of_def lnk_of_def fun_eq_iff)
  have "(delay_view D ?s)\<lparr>n_dls := Y(l := ds)\<rparr> = drop_list l dl ((delay_view D s1)\<lparr>n_dls := ?Y, n_des := (des_of s)(dl := [])\<rparr>)"
    unfolding delay_view_def drop_list_def using des asl bl de pn dm rf by simp
  moreover have "net_ok {} {} (drop_list l dl ((delay_view D s1)\<lparr>n_dls := ?Y, n_des := (des_of s)(dl := [])\<rparr>))"
    by (rule drop_list_ok [OF s1(2)]) simp_all
  ultimately have n2: "net_ok {} {} ((delay_view D ?s)\<lparr>n_dls := Y(l := ds)\<rparr>)" by simp
  have m2: "memory_ok ?s" using r by blast
  obtain s' where s': "release_dls ds ?s = Inr s'" "net_ok {} {} ((delay_view D s')\<lparr>n_dls := Y(l := [])\<rparr>)" "memory_ok s'" "still ?s s'"
      "\<forall>d. d \<notin> set ds \<longrightarrow> des_of s' d = des_of ?s d"
      "\<forall>x. (\<forall>d \<in> set ds. x \<notin> set (des_of ?s d)) \<longrightarrow> de_tab s' x = de_tab ?s x" "pnde_num s' \<le> pnde_num ?s" "fewer_links D ?s s'"
    using Cons.IH [OF n2 m2 still_world [OF st w]] by blast
  have "release_dls (dl # ds) s = Inr s'" using d dd s1(1) s'(1) by simp
  moreover have "still s s'" by (rule still_trans [OF st s'(4)])
  moreover have "des_of s' x = des_of s x" if "x \<notin> set (dl # ds)" for x using that s'(5) des by simp
  moreover have "de_tab s' x = de_tab s x" if x: "\<forall>d \<in> set (dl # ds). x \<notin> set (des_of s d)" for x
  proof -
    have "\<forall>d \<in> set ds. x \<notin> set (des_of ?s d)" using x des by simp
    then show ?thesis using s'(6) s1(6) x de by simp
  qed
  moreover have "pnde_num s' \<le> pnde_num s" using s'(7) s1(7) pn by (simp add: pnde_num_def)
  moreover have "fewer_links D s s'" using s1(8) s'(8) bl by (simp add: fewer_links_def)
  ultimately show ?case using s'(2,3) by blast
qed simp

text \<open>An answer becomes unconditional: its lists are released and the leaf is marked.\<close>

definition unconditional_now :: "nat set \<Rightarrow> nat \<Rightarrow> answer_leaf \<Rightarrow> nat \<Rightarrow> delay_state \<Rightarrow> delay_state \<Rightarrow> bool" where
  "unconditional_now D l L a s s' \<longleftrightarrow> delays_ok D s' \<and> leaves s' = (leaves s)(l \<mapsto> L\<lparr>tn_child := Asi_Child a True\<rparr>) \<and>
     sg_core s' = sg_core s \<and> asi_core s' = asi_core s \<and> neg_fails_stack s' = neg_fails_stack s \<and>
     in_simplify_neg_fails s' = in_simplify_neg_fails s \<and> dls_of s' = (dls_of s)(l := []) \<and> agree s s' \<and>
     pnde_num s' \<le> pnde_num s \<and> fewer_links D s s'"

lemma enter_cases:
  obtains "enter_simplification s = Inl too_many_simplifications"
  | "enter_simplification s = Inr (s\<lparr>simplification_depth := simplification_depth s + 1\<rparr>)"
  by (cases "MAX_SIMPLIFICATION_DEPTH < simplification_depth s") (simp_all add: enter_simplification_def)

lemma depth_fields [simp]:
  "delay_view D (s\<lparr>simplification_depth := n\<rparr>) = delay_view D s" "dls_of (s\<lparr>simplification_depth := n\<rparr>) = dls_of s"
  "des_of (s\<lparr>simplification_depth := n\<rparr>) = des_of s" "bl_of D (s\<lparr>simplification_depth := n\<rparr>) = bl_of D s"
  "ref_of (s\<lparr>simplification_depth := n\<rparr>) = ref_of s" "memory_ok (s\<lparr>simplification_depth := n\<rparr>) = memory_ok s"
  "world_ok D (s\<lparr>simplification_depth := n\<rparr>) = world_ok D s" "delays_ok D (s\<lparr>simplification_depth := n\<rparr>) = delays_ok D s"
  "sg_core (s\<lparr>simplification_depth := n\<rparr>) = sg_core s" "asi_core (s\<lparr>simplification_depth := n\<rparr>) = asi_core s"
  "pnde_num (s\<lparr>simplification_depth := n\<rparr>) = pnde_num s"
proof -
  let ?s = "s\<lparr>simplification_depth := n\<rparr>"
  have f: "asi_field f ?s = asi_field f s" for f by (simp add: asi_field_def fun_eq_iff)
  have h: "holds_asi D ?s = holds_asi D s" for D by (simp add: holds_asi_def fun_eq_iff)
  show d: "dls_of ?s = dls_of s" by (simp add: dls_of_def f fun_eq_iff split: option.split leaf_child.split)
  show e: "des_of ?s = des_of s" by (simp add: des_of_def fun_eq_iff)
  show b: "bl_of D ?s = bl_of D s"
  proof
    fix u show "bl_of D ?s u = bl_of D s u" by (cases u) (simp_all add: f split: option.split leaf_child.split)
  qed
  show r: "ref_of ?s = ref_of s" by (simp add: ref_of_def fun_eq_iff)
  have l: "lnk_of ?s = lnk_of s" "asl_of ?s = asl_of s" by (simp_all add: lnk_of_def asl_of_def fun_eq_iff)
  show v: "delay_view D ?s = delay_view D s" by (simp add: delay_view_def d e b r l)
  have "delay_tries_ok ?s = delay_tries_ok s" by (rule tries_cong) simp_all
  then show m: "memory_ok ?s = memory_ok s" by (simp add: memory_ok_def pools_ok_def)
  show w: "world_ok D ?s = world_ok D s" unfolding world_ok_def h by simp
  show "delays_ok D ?s = delays_ok D s" by (simp add: delays_ok_def v m w)
qed (simp_all add: sg_core_def asi_core_def pnde_num_def fun_eq_iff)

lemma leaf_upd:
  "dls_of (s\<lparr>leaves := (leaves s)(l \<mapsto> K)\<rparr>) k = (if k = l then
     (case tn_child K of Asi_Child a m \<Rightarrow> if tn_valid K \<and> \<not> m then asi_field asi_dl_list s a else [] | _ \<Rightarrow> []) else dls_of s k)"
  "bl_of D (s\<lparr>leaves := (leaves s)(l \<mapsto> K)\<rparr>) (Pos k) = (if k = l then
     (case tn_child K of Asi_Child a m \<Rightarrow> if tn_valid K \<or> l \<in> D then asi_field asi_pdes s a else [] | _ \<Rightarrow> []) else bl_of D s (Pos k))"
  "bl_of D (s\<lparr>leaves := (leaves s)(l \<mapsto> K)\<rparr>) (Neg S) = bl_of D s (Neg S)"
  "des_of (s\<lparr>leaves := (leaves s)(l \<mapsto> K)\<rparr>) = des_of s" "asl_of (s\<lparr>leaves := (leaves s)(l \<mapsto> K)\<rparr>) = asl_of s"
  "ref_of (s\<lparr>leaves := (leaves s)(l \<mapsto> K)\<rparr>) = ref_of s" "lnk_of (s\<lparr>leaves := (leaves s)(l \<mapsto> K)\<rparr>) = lnk_of s"
  by (simp_all add: dls_of_def asi_field_def des_of_def asl_of_def ref_of_def lnk_of_def fun_eq_iff split: option.split leaf_child.split)

lemma leaf_upd_memory: "memory_ok (s\<lparr>leaves := (leaves s)(l \<mapsto> K)\<rparr>) = memory_ok s"
proof -
  have "delay_tries_ok (s\<lparr>leaves := (leaves s)(l \<mapsto> K)\<rparr>) = delay_tries_ok s" by (rule tries_cong) simp_all
  then show ?thesis by (simp add: memory_ok_def pools_ok_def)
qed

lemma begin_step:
  assumes ok: "delays_ok D s" and L: "leaves s l = Some L" "tn_valid L" "tn_child L = Asi_Child a False" and i: "asi_tab s a = Some i"
  shows "begin_pos_unconditional l s = Inl too_many_simplifications \<or>
    (\<exists>s'. begin_pos_unconditional l s = Inr ((a, asi_subgoal i), s') \<and> unconditional_now D l L a s s')"
proof (cases s rule: enter_cases)
  case 1
  then show ?thesis using L by (simp add: begin_pos_unconditional_def)
next
  case 2
  let ?s = "s\<lparr>simplification_depth := simplification_depth s + 1\<rparr>"
  have n: "net_ok {} {} (delay_view D s)" and m: "memory_ok s" and w: "world_ok D s" using ok by (simp_all add: delays_ok_def)
  have li: "asi_dl_list i = dls_of s l" using dls_of_valid [of s l L a] L i by (simp add: asi_field_def)
  have "net_ok {} {} ((delay_view D ?s)\<lparr>n_dls := (dls_of s)(l := dls_of s l)\<rparr>)" using n by (simp only: depth_fields view_same_dls)
  moreover have "memory_ok ?s" "world_ok D ?s" using m w by simp_all
  ultimately obtain s2 where s2: "release_dls (dls_of s l) ?s = Inr s2" "net_ok {} {} ((delay_view D s2)\<lparr>n_dls := (dls_of s)(l := [])\<rparr>)" "memory_ok s2"
      "still ?s s2" "\<forall>d. d \<notin> set (dls_of s l) \<longrightarrow> des_of s2 d = des_of ?s d"
      "\<forall>x. (\<forall>d \<in> set (dls_of s l). x \<notin> set (des_of ?s d)) \<longrightarrow> de_tab s2 x = de_tab ?s x" "pnde_num s2 \<le> pnde_num ?s" "fewer_links D ?s s2"
    using release_dls_step [where s = ?s and Y = "dls_of s" and l = l and ds = "dls_of s l"] by blast
  let ?L = "L\<lparr>tn_child := Asi_Child a True\<rparr>"
  let ?t = "s2\<lparr>leaves := (leaves s2)(l \<mapsto> ?L)\<rparr>"
  have l2: "leaves s2 = leaves s" using s2(4) by (simp add: still_def)
  have w2: "world_ok D s2" using still_world [OF s2(4)] w by simp
  have "dls_of s2 = dls_of s" using still_dls_of [OF s2(4)] by simp
  then have dls: "dls_of ?t = (dls_of s)(l := [])" by (simp add: leaf_upd fun_eq_iff)
  have L2: "leaves s2 l = Some L" using L l2 by simp
  have bl: "bl_of D ?t = bl_of D s2"
  proof
    fix u show "bl_of D ?t u = bl_of D s2 u"
      using L L2 by (cases u) (simp_all only: leaf_upd, simp_all)
  qed
  note tabs = leaf_upd(4-7) [of s2 l ?L]
  have "delay_view D ?t = (delay_view D s2)\<lparr>n_dls := (dls_of s)(l := [])\<rparr>" by (simp add: delay_view_def dls bl tabs)
  moreover have "memory_ok ?t" using s2(3) by (simp add: leaf_upd_memory)
  moreover have h: "(\<exists>m'. holds_asi D ?t k b m') \<longleftrightarrow> (\<exists>m'. holds_asi D s2 k b m')" for k b
    using L l2 by (auto simp: holds_asi_def)
  have "world_ok D ?t"
  proof (rule world_okI)
    show "\<exists>i F. asi_tab ?t b = Some i \<and> subgoals ?t (asi_subgoal i) = Some F \<and> (k \<notin> D \<longrightarrow> k \<in> set (ans_leaves F))"
      if kb: "holds_asi D ?t k b m'" for k b m'
    proof -
      have "\<exists>m2. holds_asi D s2 k b m2" using h [of k b] kb by blast
      then obtain m2 where "holds_asi D s2 k b m2" by blast
      from world_ex [OF w2 this] show ?thesis by simp
    qed
    show "k = j" if "holds_asi D ?t j b m'" "holds_asi D ?t k b m2" for j k b m' m2
      using h [of j b] h [of k b] world_one [OF w2] that by blast
    show "\<exists>K b m'. leaves ?t k = Some K \<and> \<not> tn_valid K \<and> tn_child K = Asi_Child b m'" if kD: "k \<in> D" for k
    proof -
      obtain K b m' where K: "leaves s2 k = Some K" "\<not> tn_valid K" "tn_child K = Asi_Child b m'" using w2 kD by (rule world_deleted)
      then have "k \<noteq> l" using L L2 by auto
      then show ?thesis using K by simp
    qed
  qed (use world_rest [OF w2] in simp_all)
  ultimately have ok': "delays_ok D ?t" using s2(2) by (simp add: delays_ok_def)
  have "agree s ?t"
  proof (rule agree_lists [OF n, where G = "set (dls_of s l)"])
    show "d \<in> set (dls_of s k) \<and> d \<notin> set (dls_of s l)" if "d \<in> set (dls_of ?t k)" for k d
    proof (cases "k = l")
      case False
      then have "d \<in> set (dls_of s k)" using that by (simp add: dls)
      moreover have "d \<notin> set (dls_of s l)" using net_one_answer [OF n, of d k l] calculation False by auto
      ultimately show ?thesis by blast
    qed (use that in \<open>simp add: dls\<close>)
    show "des_of ?t d = des_of s d" if "d \<notin> set (dls_of s l)" for d using that s2(5) tabs(1) by simp
    show "de_tab ?t x = de_tab s x" if "\<And>d. d \<in> set (dls_of s l) \<Longrightarrow> x \<notin> set (des_of s d)" for x
      using that s2(6) by simp
    show "\<exists>k. d \<in> set (dls_of s k)" if "d \<in> set (dls_of s l)" for d using that by blast
  qed
  moreover have "sg_core ?t = sg_core s" "asi_core ?t = asi_core s"
    using s2(4) by (simp_all add: still_def sg_core_def asi_core_def fun_eq_iff)
  ultimately have "unconditional_now D l L a s ?t"
    using ok' s2(4,7,8) dls bl l2 unfolding unconditional_now_def by (simp add: still_def fewer_links_def pnde_num_def)
  moreover have "begin_pos_unconditional l s = Inr ((a, asi_subgoal i), ?t)"
    using 2 L i li s2(1) l2 by (simp add: begin_pos_unconditional_def Delay_def release_all_dls_def unmark_conditional_answer_def)
  ultimately show ?thesis by blast
qed

section \<open>The end of an answer's information\<close>

lemma free_asi_fields:
  assumes h: "\<And>k b m'. holds_asi D s k b m' \<Longrightarrow> b \<noteq> a"
  shows "dls_of (free_asi a s) = dls_of s" "bl_of D (free_asi a s) = bl_of D s" "des_of (free_asi a s) = des_of s"
    "asl_of (free_asi a s) = asl_of s" "ref_of (free_asi a s) = ref_of s" "lnk_of (free_asi a s) = lnk_of s"
proof -
  let ?s = "free_asi a s"
  have f: "asi_field g ?s b = asi_field g s b" if "b \<noteq> a" for g b using that by (simp add: asi_field_def free_asi_def)
  have l: "leaves ?s = leaves s" by (simp add: free_asi_def)
  show "dls_of ?s = dls_of s"
  proof
    fix k show "dls_of ?s k = dls_of s k"
    proof (cases "\<exists>K b m'. leaves s k = Some K \<and> tn_child K = Asi_Child b m' \<and> tn_valid K")
      case True
      then obtain K b m' where K: "leaves s k = Some K" "tn_child K = Asi_Child b m'" "tn_valid K" by blast
      then have "holds_asi D s k b m'" by (simp add: holds_asi_def)
      then show ?thesis using K f [OF h] l by (simp add: dls_of_def)
    next
      case False
      then show ?thesis using l by (auto simp: dls_of_def split: option.split leaf_child.split)
    qed
  qed
  show "bl_of D ?s = bl_of D s"
  proof
    fix u show "bl_of D ?s u = bl_of D s u"
    proof (cases u)
      case (Neg S)
      then show ?thesis by (simp add: free_asi_def)
    next
      case (Pos k)
      have h': "holds_asi D ?s k b m' = holds_asi D s k b m'" for b m' using l by (simp add: holds_asi_def)
      show ?thesis
      proof (cases "\<exists>b m'. holds_asi D s k b m'")
        case True
        then obtain b m' where b: "holds_asi D s k b m'" by blast
        have "bl_of D ?s (Pos k) = asi_field asi_pdes ?s b" by (rule bl_of_holds) (use b h' in blast)
        then show ?thesis using bl_of_holds [OF b] f [OF h [OF b]] Pos by simp
      next
        case False
        then have "bl_of D ?s (Pos k) = []" "bl_of D s (Pos k) = []" using bl_of_notheld h' by blast+
        then show ?thesis using Pos by simp
      qed
    qed
  qed
qed (simp_all add: free_asi_def des_of_def asl_of_def ref_of_def lnk_of_def fun_eq_iff)

lemma free_asi_memory:
  assumes m: "memory_ok s" and a: "a \<in> dom (asi_tab s)"
  shows "memory_ok (free_asi a s)"
proof -
  have "sm_taken (SM_DeallocateStruct a (smASI s)) = dom (asi_tab s) - {a} \<and> sm_ok (SM_DeallocateStruct a (smASI s))"
    using deallocate_struct [of "smASI s" a] m a by (simp add: memory_ok_def pools_ok_def)
  moreover have "pools_ok s" using m by (simp add: memory_ok_def)
  ultimately have "pools_ok (free_asi a s)"
    by (simp add: pools_ok_def free_asi_def dom_fun_upd SM_DeallocateStruct_def SM_DeallocateStructList_def SM_NewBlockSize_def)
  moreover have "delay_tries_ok (free_asi a s) = delay_tries_ok s" by (rule tries_cong) (simp_all add: free_asi_def)
  ultimately show ?thesis using m by (simp add: memory_ok_def)
qed

lemma free_asi_world:
  assumes w: "world_ok D s" and h: "\<And>k b m'. holds_asi D s k b m' \<Longrightarrow> b \<noteq> a"
  shows "world_ok D (free_asi a s)"
proof (rule world_okI)
  have hh: "holds_asi D (free_asi a s) = holds_asi D s" by (simp add: holds_asi_def free_asi_def fun_eq_iff)
  show "\<exists>i F. asi_tab (free_asi a s) b = Some i \<and> subgoals (free_asi a s) (asi_subgoal i) = Some F \<and> (k \<notin> D \<longrightarrow> k \<in> set (ans_leaves F))"
    if "holds_asi D (free_asi a s) k b m'" for k b m'
  proof -
    have k: "holds_asi D s k b m'" using that hh by simp
    from world_ex [OF w k] h [OF k] show ?thesis by (simp add: free_asi_def)
  qed
  show "k = j" if "holds_asi D (free_asi a s) j b m'" "holds_asi D (free_asi a s) k b m2" for j k b m' m2
    using world_one [OF w] that unfolding hh by blast
  show "\<exists>K b m'. leaves (free_asi a s) k = Some K \<and> \<not> tn_valid K \<and> tn_child K = Asi_Child b m'" if kD: "k \<in> D" for k
  proof -
    obtain K b m' where "leaves s k = Some K" "\<not> tn_valid K" "tn_child K = Asi_Child b m'" using w kD by (rule world_deleted)
    then show ?thesis by (simp add: free_asi_def)
  qed
qed (use world_rest [OF w] in \<open>simp_all add: free_asi_def\<close>)

text \<open>The \<open>AS_info\<close> that nobody holds any more and has no back links.\<close>

lemma free_asi_step:
  assumes ok: "net_ok {} {} (delay_view D s)" "memory_ok s" "world_ok D s" and a: "a \<in> dom (asi_tab s)"
    and h: "\<And>k b m'. holds_asi D s k b m' \<Longrightarrow> b \<noteq> a"
  shows "delays_ok D (free_asi a s)"
proof -
  have "delay_view D (free_asi a s) = delay_view D s"
    using free_asi_fields [of D s a, OF h] by (simp add: delay_view_def) (simp add: free_asi_def)
  then show ?thesis using ok(1) free_asi_memory [OF ok(2) a] free_asi_world [OF ok(3) h] by (simp add: delays_ok_def)
qed

lemma upd_subgoal_fields:
  assumes S: "subgoals s S = Some F" and n: "subg_nde_list (g F) = subg_nde_list F"
    and t: "t = s\<lparr>subgoals := (subgoals s)(S \<mapsto> g F)\<rparr>"
  shows "delay_view D t = delay_view D s" "memory_ok t = memory_ok s" "dls_of t = dls_of s" "des_of t = des_of s" "ref_of t = ref_of s"
    "bl_of D t = bl_of D s" "dom (subgoals t) = dom (subgoals s)" "holds_asi D t = holds_asi D s" "asi_core t = asi_core s"
    "pnde_num t = pnde_num s"
proof -
  have f: "asi_field g t = asi_field g s" for g by (simp add: asi_field_def t fun_eq_iff)
  have lt: "leaves t = leaves s" by (simp add: t)
  show d: "dls_of t = dls_of s" by (simp add: dls_of_def f lt fun_eq_iff split: option.split leaf_child.split)
  show e: "des_of t = des_of s" by (simp add: des_of_def t fun_eq_iff)
  show b: "bl_of D t = bl_of D s"
  proof
    fix u show "bl_of D t u = bl_of D s u"
    proof (cases u)
      case (Neg U)
      then show ?thesis using S n by (simp add: t)
    next
      case (Pos l)
      then show ?thesis by (simp add: f lt split: option.split leaf_child.split)
    qed
  qed
  show r: "ref_of t = ref_of s" by (simp add: ref_of_def t fun_eq_iff)
  have l: "lnk_of t = lnk_of s" "asl_of t = asl_of s" by (simp_all add: lnk_of_def asl_of_def t fun_eq_iff)
  show "delay_view D t = delay_view D s" by (simp add: delay_view_def d e b r l) (simp add: t)
  have "delay_tries_ok t = delay_tries_ok s" by (rule tries_cong) (simp_all add: t)
  then show "memory_ok t = memory_ok s" by (simp add: memory_ok_def pools_ok_def t)
  show "dom (subgoals t) = dom (subgoals s)" using S by (simp add: t insert_absorb domI)
  show "holds_asi D t = holds_asi D s" by (simp add: holds_asi_def t fun_eq_iff)
qed (simp_all add: asi_core_def pnde_num_def t fun_eq_iff)

lemma upd_subgoal_world:
  assumes w: "world_ok D s" and S: "subgoals s S = Some F" and t: "t = s\<lparr>subgoals := (subgoals s)(S \<mapsto> F')\<rparr>"
    and k: "\<And>l. l \<in> set (ans_leaves F) \<Longrightarrow> l \<notin> D \<Longrightarrow> (\<exists>a m. holds_asi D s l a m) \<Longrightarrow> l \<in> set (ans_leaves F')"
  shows "world_ok D t"
proof (rule world_okI)
  have hh: "holds_asi D t = holds_asi D s" by (simp add: holds_asi_def t fun_eq_iff)
  show "\<exists>i G. asi_tab t a = Some i \<and> subgoals t (asi_subgoal i) = Some G \<and> (l \<notin> D \<longrightarrow> l \<in> set (ans_leaves G))"
    if "holds_asi D t l a m" for l a m
  proof -
    have l: "holds_asi D s l a m" using that hh by simp
    then obtain i G where i: "asi_tab s a = Some i" "subgoals s (asi_subgoal i) = Some G" "l \<notin> D \<longrightarrow> l \<in> set (ans_leaves G)"
      using world_ex [OF w] by blast
    show ?thesis
    proof (cases "asi_subgoal i = S")
      case True
      then have "l \<notin> D \<longrightarrow> l \<in> set (ans_leaves F')" using i S k l by auto
      then show ?thesis using i True by (simp add: t)
    next
      case False
      then show ?thesis using i by (simp add: t)
    qed
  qed
  show "k = j" if "holds_asi D t j b m'" "holds_asi D t k b m2" for j k b m' m2
    using world_one [OF w] that unfolding hh by blast
  show "\<exists>K b m'. leaves t k = Some K \<and> \<not> tn_valid K \<and> tn_child K = Asi_Child b m'" if kD: "k \<in> D" for k
  proof -
    obtain K b m' where "leaves s k = Some K" "\<not> tn_valid K" "tn_child K = Asi_Child b m'" using w kD by (rule world_deleted)
    then show ?thesis by (simp add: t)
  qed
qed (use world_rest [OF w] S in \<open>auto simp: t\<close>)

lemma leave_fields [simp]:
  "delay_view D (leave_simplification s) = delay_view D s" "delays_ok D (leave_simplification s) = delays_ok D s"
  "dls_of (leave_simplification s) = dls_of s" "des_of (leave_simplification s) = des_of s" "bl_of D (leave_simplification s) = bl_of D s"
  "ref_of (leave_simplification s) = ref_of s" "pnde_num (leave_simplification s) = pnde_num s"
  "leaves (leave_simplification s) = leaves s" "subgoals (leave_simplification s) = subgoals s" "asi_tab (leave_simplification s) = asi_tab s"
  "neg_fails_stack (leave_simplification s) = neg_fails_stack s" "in_simplify_neg_fails (leave_simplification s) = in_simplify_neg_fails s"
  by (simp_all add: leave_simplification_def)

text \<open>The end of \<open>simplify_pos_unconditional\<close>.\<close>

lemma end_step:
  assumes ok: "delays_ok D s" and L: "leaves s l = Some L" "tn_valid L" "tn_child L = Asi_Child a True"
    and b: "bl_of D s (Pos l) = []" and S: "subgoals s S = Some F"
  shows "\<exists>s'. end_pos_unconditional l a S s = Inr s' \<and> delays_ok D s' \<and> leaves s' = (leaves s)(l \<mapsto> L\<lparr>tn_child := No_Child\<rparr>) \<and>
    subgoals s' = (subgoals s)(S \<mapsto> now_unconditional F) \<and> asi_tab s' = (asi_tab s)(a := None) \<and>
    neg_fails_stack s' = neg_fails_stack s \<and> in_simplify_neg_fails s' = in_simplify_neg_fails s \<and>
    dls_of s' = dls_of s \<and> des_of s' = des_of s \<and> ref_of s' = ref_of s \<and> bl_of D s' = bl_of D s \<and> pnde_num s' = pnde_num s"
proof -
  have n: "net_ok {} {} (delay_view D s)" and m: "memory_ok s" and w: "world_ok D s" using ok by (simp_all add: delays_ok_def)
  have h: "holds_asi D s l a True" using L by (simp add: holds_asi_def)
  obtain i where i: "asi_tab s a = Some i" using w h by (rule world_okD)
  have lD: "l \<notin> D" using world_deleted [OF w] L by force
  let ?L = "L\<lparr>tn_child := No_Child\<rparr>"
  let ?t = "s\<lparr>leaves := (leaves s)(l \<mapsto> ?L)\<rparr>"
  let ?u = "?t\<lparr>subgoals := (subgoals ?t)(S \<mapsto> now_unconditional F)\<rparr>"
  let ?s = "leave_simplification (free_asi a ?u)"
  have d0: "dls_of s l = []" by (rule holds_dls_zero [OF h])
  have dls: "dls_of ?t = dls_of s" using d0 by (simp add: fun_eq_iff leaf_upd)
  have bl: "bl_of D ?t = bl_of D s"
  proof
    fix u show "bl_of D ?t u = bl_of D s u" using b by (cases u) (simp_all add: leaf_upd del: bl_of.simps)
  qed
  have v: "delay_view D ?t = delay_view D s" by (simp add: delay_view_def dls bl leaf_upd)
  have ht: "holds_asi D ?t k c m' \<longleftrightarrow> holds_asi D s k c m' \<and> k \<noteq> l" for k c m'
    using L lD by (auto simp: holds_asi_def)
  have wt: "world_ok D ?t"
  proof (rule world_okI)
    show "\<exists>i F. asi_tab ?t c = Some i \<and> subgoals ?t (asi_subgoal i) = Some F \<and> (k \<notin> D \<longrightarrow> k \<in> set (ans_leaves F))"
      if "holds_asi D ?t k c m'" for k c m' using world_ex [OF w, of k c m'] that by (simp only: ht) simp
    show "k = j" if "holds_asi D ?t j c m'" "holds_asi D ?t k c m2" for j k c m' m2
      using world_one [OF w] that unfolding ht by blast
    show "\<exists>K c m'. leaves ?t k = Some K \<and> \<not> tn_valid K \<and> tn_child K = Asi_Child c m'" if kD: "k \<in> D" for k
    proof -
      obtain K c m' where "leaves s k = Some K" "\<not> tn_valid K" "tn_child K = Asi_Child c m'" using w kD by (rule world_deleted)
      moreover have "k \<noteq> l" using kD lD by blast
      ultimately show ?thesis by simp
    qed
  qed (use world_rest [OF w] in simp_all)
  have St: "subgoals ?t S = Some F" using S by simp
  have nn: "subg_nde_list (now_unconditional F) = subg_nde_list F" "ans_leaves (now_unconditional F) = ans_leaves F"
    by (simp_all add: now_unconditional_def)
  note u = upd_subgoal_fields [where s = ?t and t = ?u and g = now_unconditional, OF St nn(1) refl]
  have wu: "world_ok D ?u" by (rule upd_subgoal_world [OF wt St refl]) (simp add: nn)
  have hu: "c \<noteq> a" if "holds_asi D ?u k c m'" for k c m'
  proof
    assume c: "c = a"
    have "holds_asi D s k c m' \<and> k \<noteq> l" using that unfolding u(8) ht .
    then show False using world_one [OF w h] c by blast
  qed
  have okf: "delays_ok D (free_asi a ?u)"
  proof (rule free_asi_step)
    show "net_ok {} {} (delay_view D ?u)" using n u(1) [of D] v by simp
    show "memory_ok ?u" using m u(2) leaf_upd_memory [of s l ?L] by simp
    show "a \<in> dom (asi_tab ?u)" using i by auto
  qed (use wu hu in blast)+
  note ff = free_asi_fields [of D ?u a, OF hu]
  have "end_pos_unconditional l a S s = Inr ?s"
    using L S by (simp add: end_pos_unconditional_def set_child_null_def upd_subgoal_def)
  moreover have "delays_ok D ?s" using okf by simp
  moreover have "dls_of ?s = dls_of s" "des_of ?s = des_of s" "ref_of ?s = ref_of s" "bl_of D ?s = bl_of D s"
    using ff u(3-6) dls bl by (simp_all add: leaf_upd)
  moreover have "pnde_num ?s = pnde_num s" by simp (simp add: pnde_num_def free_asi_def)
  moreover have "leaves ?s = (leaves s)(l \<mapsto> ?L)" "subgoals ?s = (subgoals s)(S \<mapsto> now_unconditional F)"
    "asi_tab ?s = (asi_tab s)(a := None)" "neg_fails_stack ?s = neg_fails_stack s" "in_simplify_neg_fails ?s = in_simplify_neg_fails s"
    by (simp_all add: free_asi_def)
  ultimately show ?thesis by blast
qed

section \<open>A deleted answer\<close>

lemma delete_step:
  assumes ok: "delays_ok D s" and L: "leaves s l = Some L" "tn_valid L" "tn_child L = Asi_Child a m"
    and d0: "dls_of s l = []" and S: "subgoals s S = Some F"
  shows "\<exists>s'. delete_answer l S s = Inr s' \<and> delays_ok (insert l D) s' \<and> leaves s' = (leaves s)(l \<mapsto> L\<lparr>tn_valid := False\<rparr>) \<and>
    subgoals s' = (subgoals s)(S \<mapsto> F\<lparr>ans_leaves := remove1 l (ans_leaves F)\<rparr>) \<and> asi_tab s' = asi_tab s \<and>
    neg_fails_stack s' = neg_fails_stack s \<and> in_simplify_neg_fails s' = in_simplify_neg_fails s \<and>
    dls_of s' = dls_of s \<and> des_of s' = des_of s \<and> ref_of s' = ref_of s \<and> bl_of (insert l D) s' = bl_of D s \<and> pnde_num s' = pnde_num s"
proof -
  have n: "net_ok {} {} (delay_view D s)" and mm: "memory_ok s" and w: "world_ok D s" using ok by (simp_all add: delays_ok_def)
  let ?g = "\<lambda>F. F\<lparr>ans_leaves := remove1 l (ans_leaves F)\<rparr>"
  let ?L = "L\<lparr>tn_valid := False\<rparr>"
  let ?t = "s\<lparr>leaves := (leaves s)(l \<mapsto> ?L)\<rparr>"
  let ?s = "?t\<lparr>subgoals := (subgoals ?t)(S \<mapsto> ?g F)\<rparr>"
  let ?D = "insert l D"
  have lD: "l \<notin> D" using world_deleted [OF w] L by force
  have dls: "dls_of ?t = dls_of s" using d0 L by (simp add: fun_eq_iff leaf_upd split: leaf_child.split)
  have bo: "bl_of ?D s (Pos k) = bl_of D s (Pos k)" if "k \<noteq> l" for k using that by (simp split: option.split leaf_child.split)
  have bs: "bl_of D s (Pos l) = asi_field asi_pdes s a" using bl_of_holds [of D s l a m] L by (simp add: holds_asi_def)
  have bl: "bl_of ?D ?t = bl_of D s"
  proof
    fix u show "bl_of ?D ?t u = bl_of D s u"
    proof (cases u)
      case (Pos k)
      then show ?thesis using L bs bo by (cases "k = l") (simp_all add: leaf_upd del: bl_of.simps)
    qed simp
  qed
  have v: "delay_view ?D ?t = delay_view D s" by (simp add: delay_view_def dls bl leaf_upd)
  have ht: "holds_asi ?D ?t k c m' = holds_asi D s k c m'" for k c m' using L by (auto simp: holds_asi_def)
  have wt: "\<exists>i F. asi_tab ?t c = Some i \<and> subgoals ?t (asi_subgoal i) = Some F \<and> (k \<notin> ?D \<longrightarrow> k \<in> set (ans_leaves F))"
    if k: "holds_asi ?D ?t k c m'" for k c m'
  proof -
    have "holds_asi D s k c m'" using k unfolding ht .
    from world_ex [OF w this] show ?thesis by auto
  qed
  have wt': "world_ok ?D ?t"
  proof (rule world_okI)
    show "k = j" if "holds_asi ?D ?t j c m'" "holds_asi ?D ?t k c m2" for j k c m' m2
      using world_one [OF w] that unfolding ht by blast
    show "\<exists>K c m'. leaves ?t k = Some K \<and> \<not> tn_valid K \<and> tn_child K = Asi_Child c m'" if kD: "k \<in> ?D" for k
    proof (cases "k = l")
      case True
      then show ?thesis using L by simp
    next
      case False
      then have "k \<in> D" using kD by simp
      with w obtain K c m' where "leaves s k = Some K" "\<not> tn_valid K" "tn_child K = Asi_Child c m'" by (rule world_deleted)
      then show ?thesis using False by simp
    qed
  qed (use wt world_rest [OF w] in simp_all)
  have St: "subgoals ?t S = Some F" using S by simp
  have nn: "subg_nde_list (?g F) = subg_nde_list F" by simp
  note u = upd_subgoal_fields [where s = ?t and t = ?s and g = ?g, OF St nn refl]
  have "world_ok ?D ?s"
  proof (rule upd_subgoal_world [OF wt' St refl])
    fix k assume "k \<in> set (ans_leaves F)" "k \<notin> ?D"
    then show "k \<in> set (ans_leaves (?g F))" by (simp add: in_set_remove1)
  qed
  moreover have "memory_ok ?s" using mm u(2) leaf_upd_memory [of s l ?L] by simp
  moreover have "net_ok {} {} (delay_view ?D ?s)" using n u(1) [of ?D] v by simp
  ultimately have "delays_ok ?D ?s" by (simp add: delays_ok_def)
  moreover have "dls_of ?s = dls_of s" "des_of ?s = des_of s" "ref_of ?s = ref_of s" "bl_of ?D ?s = bl_of D s"
    using u(3-6) dls bl by (simp_all add: leaf_upd)
  moreover have "pnde_num ?s = pnde_num s" by (simp add: pnde_num_def)
  moreover have "delete_answer l S s = Inr ?s" using L S by (simp add: delete_answer_def upd_subgoal_def)
  moreover have "leaves ?s = (leaves s)(l \<mapsto> ?L)" "subgoals ?s = (subgoals s)(S \<mapsto> ?g F)" "asi_tab ?s = asi_tab s"
    "neg_fails_stack ?s = neg_fails_stack s" "in_simplify_neg_fails ?s = in_simplify_neg_fails s" by simp_all
  ultimately show ?thesis by blast
qed

text \<open>The information of a deleted answer is freed when no element is about it.\<close>

lemma free_deleted_step:
  assumes ok: "delays_ok (insert l D) s" and lD: "l \<notin> D" and L: "leaves s l = Some L" "tn_child L = Asi_Child a m"
    and b: "bl_of (insert l D) s (Pos l) = []"
  shows "delays_ok D (free_asi a s) \<and> dls_of (free_asi a s) = dls_of s \<and> bl_of D (free_asi a s) = bl_of (insert l D) s"
proof -
  let ?D = "insert l D"
  have n: "net_ok {} {} (delay_view ?D s)" and mm: "memory_ok s" and w: "world_ok ?D s" using ok by (simp_all add: delays_ok_def)
  have nv: "\<not> tn_valid L" using world_deleted [OF w, of l] L by auto
  have h: "holds_asi ?D s l a m" using L by (simp add: holds_asi_def)
  have a: "a \<in> dom (asi_tab s)" using world_ex [OF w h] by blast
  have hs: "holds_asi ?D s k c m'" "k \<noteq> l" if "holds_asi D s k c m'" for k c m'
    using that L nv lD by (auto simp: holds_asi_def)
  have hn: "c \<noteq> a" if "holds_asi D s k c m'" for k c m'
  proof
    assume "c = a"
    then show False using hs [OF that] world_one [OF w h] by blast
  qed
  have bl: "bl_of D s = bl_of ?D s"
  proof
    fix u show "bl_of D s u = bl_of ?D s u"
    proof (cases u)
      case (Pos k)
      show ?thesis
      proof (cases "k = l")
        case True
        have "bl_of D s (Pos l) = []" using L nv lD by simp
        then show ?thesis using True Pos b by simp
      next
        case False
        then show ?thesis using Pos by (simp split: option.split leaf_child.split)
      qed
    qed simp
  qed
  have v: "delay_view D s = delay_view ?D s" by (simp add: delay_view_def bl)
  have w': "world_ok D s"
  proof (rule world_okI)
    show "\<exists>i F. asi_tab s c = Some i \<and> subgoals s (asi_subgoal i) = Some F \<and> (k \<notin> D \<longrightarrow> k \<in> set (ans_leaves F))"
      if k: "holds_asi D s k c m'" for k c m'
      using world_ex [OF w hs(1) [OF k]] hs(2) [OF k] by blast
    show "k = j" if "holds_asi D s j c m'" "holds_asi D s k c m2" for j k c m' m2
      using world_one [OF w hs(1) [OF that(1)] hs(1) [OF that(2)]] .
    show "\<exists>K c m'. leaves s k = Some K \<and> \<not> tn_valid K \<and> tn_child K = Asi_Child c m'" if kD: "k \<in> D" for k
      using world_deleted [OF w, of k] kD by blast
  qed (use world_rest [OF w] in simp_all)
  have "delays_ok D (free_asi a s)" by (rule free_asi_step) (use n v mm w' a hn in simp_all)
  then show ?thesis using free_asi_fields(1,2) [of D s a, OF hn] bl by simp
qed

end
