(* ===== verification/Simplification_Steps.thy ===== *)
theory Simplification_Steps imports Delay_Discarding begin

text \<open>
  What simplification means. A valuation says which answers are true and which subgoals succeed. It is a model of a
  state when every conditional answer is true exactly if all the elements of one of its delay lists hold. The theory states
  for each removal which models of the state before are models of the state after.
\<close>

section \<open>Models\<close>

primrec literal_true :: "(nat \<Rightarrow> bool) \<Rightarrow> (nat \<Rightarrow> bool) \<Rightarrow> target \<Rightarrow> bool" where
  "literal_true v w (Neg S) = (\<not> w S)"
| "literal_true v w (Pos l) = v l"

definition list_true :: "(nat \<Rightarrow> bool) \<Rightarrow> (nat \<Rightarrow> bool) \<Rightarrow> delay_state \<Rightarrow> nat \<Rightarrow> bool" where
  "list_true v w s dl \<longleftrightarrow> (\<forall>de \<in> set (des_of s dl). case ref_of s de of None \<Rightarrow> False | Some (t, p) \<Rightarrow> literal_true v w t)"

definition sg_ans :: "delay_state \<Rightarrow> nat \<rightharpoonup> bool \<times> nat list" where
  "sg_ans s S = map_option (\<lambda>F. (sf_completed F, ans_leaves F)) (subgoals s S)"

definition owner :: "delay_state \<Rightarrow> nat \<rightharpoonup> nat" where
  "owner s a = map_option asi_subgoal (asi_tab s a)"

text \<open>
  A subgoal that succeeds by a true answer, and one that is completed, only by one of its answers. The subgoals on the stack
  fail, an answer that is marked is true, one that is being deleted is false. \<open>X\<close> are answers whose lists are not considered.
\<close>

definition models :: "nat set \<Rightarrow> nat set \<Rightarrow> (nat \<Rightarrow> bool) \<Rightarrow> (nat \<Rightarrow> bool) \<Rightarrow> delay_state \<Rightarrow> bool" where
  "models X D v w s \<longleftrightarrow>
     (\<forall>l L a. leaves s l = Some L \<longrightarrow> tn_valid L \<longrightarrow> tn_child L = Asi_Child a False \<longrightarrow> l \<notin> X \<longrightarrow>
        v l = (\<exists>dl \<in> set (dls_of s l). list_true v w s dl)) \<and>
     (\<forall>l L a m S. leaves s l = Some L \<longrightarrow> tn_valid L \<longrightarrow> tn_child L = Asi_Child a m \<longrightarrow> owner s a = Some S \<longrightarrow> v l \<longrightarrow> w S) \<and>
     (\<forall>S ls. sg_ans s S = Some (True, ls) \<longrightarrow> w S \<longrightarrow> (\<exists>l \<in> set ls. v l)) \<and>
     (\<forall>S \<in> set (neg_fails_stack s). \<not> w S) \<and>
     (\<forall>l L a. leaves s l = Some L \<longrightarrow> tn_valid L \<longrightarrow> tn_child L = Asi_Child a True \<longrightarrow> v l) \<and>
     (\<forall>l \<in> D. \<not> v l)"

lemma modelsD:
  assumes "models X D v w s"
  shows "leaves s l = Some L \<Longrightarrow> tn_valid L \<Longrightarrow> tn_child L = Asi_Child a False \<Longrightarrow> l \<notin> X \<Longrightarrow>
      v l = (\<exists>dl \<in> set (dls_of s l). list_true v w s dl)"
    and "leaves s l = Some L \<Longrightarrow> tn_valid L \<Longrightarrow> tn_child L = Asi_Child a m \<Longrightarrow> owner s a = Some S \<Longrightarrow> v l \<Longrightarrow> w S"
    and "sg_ans s S = Some (True, ls) \<Longrightarrow> w S \<Longrightarrow> \<exists>l \<in> set ls. v l"
    and "S \<in> set (neg_fails_stack s) \<Longrightarrow> \<not> w S"
    and "leaves s l = Some L \<Longrightarrow> tn_valid L \<Longrightarrow> tn_child L = Asi_Child a True \<Longrightarrow> v l"
    and "l \<in> D \<Longrightarrow> \<not> v l"
  using assms unfolding models_def by blast+

lemma modelsI:
  assumes "\<And>l L a. leaves s l = Some L \<Longrightarrow> tn_valid L \<Longrightarrow> tn_child L = Asi_Child a False \<Longrightarrow> l \<notin> X \<Longrightarrow>
      v l = (\<exists>dl \<in> set (dls_of s l). list_true v w s dl)"
    and "\<And>l L a m S. leaves s l = Some L \<Longrightarrow> tn_valid L \<Longrightarrow> tn_child L = Asi_Child a m \<Longrightarrow> owner s a = Some S \<Longrightarrow> v l \<Longrightarrow> w S"
    and "\<And>S ls. sg_ans s S = Some (True, ls) \<Longrightarrow> w S \<Longrightarrow> \<exists>l \<in> set ls. v l"
    and "\<And>S. S \<in> set (neg_fails_stack s) \<Longrightarrow> \<not> w S"
    and "\<And>l L a. leaves s l = Some L \<Longrightarrow> tn_valid L \<Longrightarrow> tn_child L = Asi_Child a True \<Longrightarrow> v l"
    and "\<And>l. l \<in> D \<Longrightarrow> \<not> v l"
  shows "models X D v w s"
  unfolding models_def using assms by blast

lemma models_cong:
  assumes "models X D v w s" "leaves s' = leaves s" "sg_ans s' = sg_ans s" "owner s' = owner s" "neg_fails_stack s' = neg_fails_stack s"
    and "\<And>l L a. leaves s l = Some L \<Longrightarrow> tn_valid L \<Longrightarrow> tn_child L = Asi_Child a False \<Longrightarrow> l \<notin> X' \<Longrightarrow>
      v l = (\<exists>dl \<in> set (dls_of s' l). list_true v w s' dl)"
  shows "models X' D v w s'"
  using assms(1) unfolding models_def assms(2-5) using assms(6) by blast

lemma list_true_agree:
  assumes "agree s s'" "dl \<in> set (dls_of s' k)"
  shows "list_true v w s' dl = list_true v w s dl"
  using assms unfolding agree_def list_true_def by simp

lemma sg_core_ans:
  assumes c: "sg_core s' = sg_core s"
  shows "sg_ans s' = sg_ans s"
proof
  fix S show "sg_ans s' S = sg_ans s S"
  proof (cases "subgoals s S")
    case None
    then have "sg_core s' S = None" by (simp add: c) (simp add: sg_core_def)
    then have "subgoals s' S = None" by (simp add: sg_core_def)
    then show ?thesis using None by (simp add: sg_ans_def)
  next
    case (Some F)
    obtain F' where F': "subgoals s' S = Some F'" and e: "F'\<lparr>subg_nde_list := []\<rparr> = F\<lparr>subg_nde_list := []\<rparr>"
      using c Some by (rule sg_coreE)
    show ?thesis using Some F' by (simp add: sg_ans_def frame_eqD(1) [OF e] frame_eqD(2) [OF e])
  qed
qed

lemma kept_owner: "kept s s' \<Longrightarrow> owner s' = owner s"
  by (simp add: kept_def owner_def fun_eq_iff)

lemma kept_models_fields: "kept s s' \<Longrightarrow> leaves s' = leaves s \<and> sg_ans s' = sg_ans s \<and> owner s' = owner s \<and> neg_fails_stack s' = neg_fails_stack s"
  by (intro conjI kept_owner sg_core_ans) (simp_all add: kept_def)

text \<open>What a valuation may rely on: answers that become invalid are false, those that become unconditional are true.\<close>

definition sound :: "(nat \<Rightarrow> bool) \<Rightarrow> delay_state \<Rightarrow> delay_state \<Rightarrow> bool" where
  "sound v s s' \<longleftrightarrow>
     (\<forall>l L. leaves s l = Some L \<longrightarrow> (\<exists>L'. leaves s' l = Some L' \<and> (\<not> tn_valid L \<longrightarrow> \<not> tn_valid L') \<and>
        (tn_valid L \<longrightarrow> \<not> tn_valid L' \<longrightarrow> \<not> v l) \<and>
        (tn_valid L \<longrightarrow> is_conditional_answer L \<longrightarrow> tn_valid L' \<longrightarrow> \<not> is_conditional_answer L' \<longrightarrow> v l))) \<and>
     (\<forall>S c ls. sg_ans s S = Some (c, ls) \<longrightarrow> (\<exists>c' ls'. sg_ans s' S = Some (c', ls') \<and> (\<forall>l \<in> set ls. v l \<longrightarrow> l \<in> set ls')))"

lemma soundI:
  assumes "\<And>l L. leaves s l = Some L \<Longrightarrow> \<exists>L'. leaves s' l = Some L' \<and> (\<not> tn_valid L \<longrightarrow> \<not> tn_valid L') \<and>
        (tn_valid L \<longrightarrow> \<not> tn_valid L' \<longrightarrow> \<not> v l) \<and>
        (tn_valid L \<longrightarrow> is_conditional_answer L \<longrightarrow> tn_valid L' \<longrightarrow> \<not> is_conditional_answer L' \<longrightarrow> v l)"
    and "\<And>S c ls. sg_ans s S = Some (c, ls) \<Longrightarrow> \<exists>c' ls'. sg_ans s' S = Some (c', ls') \<and> (\<forall>l \<in> set ls. v l \<longrightarrow> l \<in> set ls')"
  shows "sound v s s'"
  unfolding sound_def using assms by blast

lemma sound_refl [simp]: "sound v s s"
  by (rule soundI) auto

lemma sound_same: "leaves s' = leaves s \<Longrightarrow> sg_ans s' = sg_ans s \<Longrightarrow> sound v s s'"
  by (rule soundI) auto

lemma sound_trans:
  assumes a: "sound v s t" and b: "sound v t u"
  shows "sound v s u"
proof (rule soundI)
  fix l L assume L: "leaves s l = Some L"
  obtain K where K: "leaves t l = Some K" "\<not> tn_valid L \<longrightarrow> \<not> tn_valid K" "tn_valid L \<longrightarrow> \<not> tn_valid K \<longrightarrow> \<not> v l"
      "tn_valid L \<longrightarrow> is_conditional_answer L \<longrightarrow> tn_valid K \<longrightarrow> \<not> is_conditional_answer K \<longrightarrow> v l"
    using a L unfolding sound_def by blast
  obtain M where "leaves u l = Some M" "\<not> tn_valid K \<longrightarrow> \<not> tn_valid M" "tn_valid K \<longrightarrow> \<not> tn_valid M \<longrightarrow> \<not> v l"
      "tn_valid K \<longrightarrow> is_conditional_answer K \<longrightarrow> tn_valid M \<longrightarrow> \<not> is_conditional_answer M \<longrightarrow> v l"
    using b K(1) unfolding sound_def by blast
  then show "\<exists>M. leaves u l = Some M \<and> (\<not> tn_valid L \<longrightarrow> \<not> tn_valid M) \<and> (tn_valid L \<longrightarrow> \<not> tn_valid M \<longrightarrow> \<not> v l) \<and>
      (tn_valid L \<longrightarrow> is_conditional_answer L \<longrightarrow> tn_valid M \<longrightarrow> \<not> is_conditional_answer M \<longrightarrow> v l)"
    using K by blast
next
  fix S c ls assume "sg_ans s S = Some (c, ls)"
  then obtain c1 l1 where 1: "sg_ans t S = Some (c1, l1)" "\<forall>l \<in> set ls. v l \<longrightarrow> l \<in> set l1" using a unfolding sound_def by blast
  obtain c2 l2 where "sg_ans u S = Some (c2, l2)" "\<forall>l \<in> set l1. v l \<longrightarrow> l \<in> set l2" using b 1(1) unfolding sound_def by blast
  then show "\<exists>c' ls'. sg_ans u S = Some (c', ls') \<and> (\<forall>l \<in> set ls. v l \<longrightarrow> l \<in> set ls')" using 1(2) by blast
qed

section \<open>What the removals do to the models\<close>

lemma models_resolved:
  assumes m: "models {} D v w s" and ok: "delays_ok D s" and r: "resolved D t dl de s s'" and t: "literal_true v w t"
  shows "models {} D v w s' \<and> sound v s s'"
proof -
  have n: "net_ok {} {} (delay_view D s)" using ok by (simp add: delays_ok_def)
  have st: "still s s'" and des: "des_of s' = (des_of s)(dl := remove1 de (des_of s dl))" and ref: "ref_of s' = (ref_of s)(de := None)"
    using r by (simp_all add: resolved_def)
  obtain l0 p where l0: "dl \<in> set (dls_of s l0)" "de \<in> set (des_of s dl)" "ref_of s de = Some (t, p)"
    using r unfolding resolved_def by blast
  note f = kept_models_fields [OF still_kept [OF st]]
  have lt: "list_true v w s' d = list_true v w s d" if d: "d \<in> set (dls_of s k)" for d k
  proof (cases "d = dl")
    case True
    have "set (des_of s dl) = insert de (set (des_of s' dl))" "de \<notin> set (des_of s' dl)"
      using des l0(2) net_okD(3) [OF n, of dl l0] l0(1) by (auto simp: set_remove1_eq)
    then show ?thesis using True ref l0(3) t by (auto simp: list_true_def)
  next
    case False
    have "de \<notin> set (des_of s d)" using net_unique [OF n, of dl l0 de d k] l0 d False by auto
    then have "ref_of s' x = ref_of s x" if "x \<in> set (des_of s d)" for x using that ref by auto
    moreover have "des_of s' d = des_of s d" using des False by simp
    ultimately show ?thesis by (simp add: list_true_def)
  qed
  have "models {} D v w s'"
  proof (rule models_cong [OF m])
    fix l L a assume "leaves s l = Some L" "tn_valid L" "tn_child L = Asi_Child a False"
    then have "v l = (\<exists>dl \<in> set (dls_of s l). list_true v w s dl)" using modelsD(1) [OF m] by simp
    then show "v l = (\<exists>dl \<in> set (dls_of s' l). list_true v w s' dl)" using lt still_dls_of [OF st] by auto
  qed (use f in blast)+
  then show ?thesis using f sound_same by blast
qed

lemma models_discarded:
  assumes m: "models {} D v w s" and ok: "delays_ok D s" and d: "discarded D l dl s s'" and f: "\<not> list_true v w s dl"
  shows "models {} D v w s' \<and> sound v s s'"
proof -
  have n: "net_ok {} {} (delay_view D s)" using ok by (simp add: delays_ok_def)
  have k: "kept s s'" and dls: "dls_of s' = (dls_of s)(l := remove1 dl (dls_of s l))" and ag: "agree s s'"
    using d by (simp_all add: discarded_def)
  note g = kept_models_fields [OF k]
  have eq: "(\<exists>d \<in> set (dls_of s' i). list_true v w s' d) = (\<exists>d \<in> set (dls_of s i). list_true v w s d)" for i
  proof -
    have "(\<exists>d \<in> set (dls_of s' i). list_true v w s' d) = (\<exists>d \<in> set (dls_of s' i). list_true v w s d)"
      using list_true_agree [OF ag] by blast
    also have "\<dots> = (\<exists>d \<in> set (dls_of s i). list_true v w s d)"
    proof (cases "i = l")
      case True
      have "set (dls_of s' l) = set (dls_of s l) - {dl}" using dls net_okD(4) [OF n, of l] by simp
      then show ?thesis using True f by blast
    next
      case False
      then show ?thesis using dls by simp
    qed
    finally show ?thesis .
  qed
  have "models {} D v w s'"
  proof (rule models_cong [OF m])
    fix i L a assume "leaves s i = Some L" "tn_valid L" "tn_child L = Asi_Child a False"
    then show "v i = (\<exists>dl \<in> set (dls_of s' i). list_true v w s' dl)" using modelsD(1) [OF m] unfolding eq by simp
  qed (use g in blast)+
  then show ?thesis using g sound_same by blast
qed

text \<open>An empty list is true, and so is its answer.\<close>

lemma models_empty_list:
  assumes m: "models {} D v w s" and dl: "dl \<in> set (dls_of s l)" and e: "des_of s dl = []"
  shows "v l"
proof -
  have "dls_of s l \<noteq> []" using dl by auto
  then obtain L a where "leaves s l = Some L" "tn_valid L" "tn_child L = Asi_Child a False" by (rule dls_of_cases)
  then have "v l = (\<exists>dl \<in> set (dls_of s l). list_true v w s dl)" using modelsD(1) [OF m] by simp
  moreover have "list_true v w s dl" using e by (simp add: list_true_def)
  ultimately show ?thesis using dl by blast
qed

lemma models_dropped:
  assumes m: "models {} D v w s" and k: "kept s s'"
    and dls: "dls_of s' = (dls_of s)(l := remove1 dl (dls_of s l))" and des: "des_of s' = (des_of s)(dl := [])" and de: "de_tab s' = de_tab s"
    and e: "des_of s dl = []"
  shows "models {l} D v w s'"
proof (rule models_cong [OF m])
  fix i L a assume i: "leaves s i = Some L" "tn_valid L" "tn_child L = Asi_Child a False" "i \<notin> {l}"
  have "des_of s' = des_of s" using des e by (simp add: fun_eq_iff)
  moreover have "ref_of s' = ref_of s" using de by (simp add: ref_of_def fun_eq_iff)
  ultimately have "list_true v w s' d = list_true v w s d" for d by (simp add: list_true_def)
  then show "v i = (\<exists>dl \<in> set (dls_of s' i). list_true v w s' dl)" using modelsD(1) [OF m, of i L a] i dls by simp
qed (use kept_models_fields [OF k] in blast)+

lemma models_marked:
  assumes m: "models {l} D v w s" and mk: "unconditional_now D l L a s s'" and L: "leaves s l = Some L" "tn_valid L" "tn_child L = Asi_Child a False" and v: "v l"
  shows "models {} D v w s' \<and> sound v s s'"
proof -
  have lv: "leaves s' = (leaves s)(l \<mapsto> L\<lparr>tn_child := Asi_Child a True\<rparr>)" and c: "sg_core s' = sg_core s" "asi_core s' = asi_core s"
    and st: "neg_fails_stack s' = neg_fails_stack s" and dls: "dls_of s' = (dls_of s)(l := [])" and ag: "agree s s'"
    using mk by (simp_all add: unconditional_now_def)
  have sa: "sg_ans s' = sg_ans s" by (rule sg_core_ans [OF c(1)])
  have ow: "owner s' = owner s"
  proof
    fix b show "owner s' b = owner s b"
      using fun_cong [OF c(2), of b] by (cases "asi_tab s b"; cases "asi_tab s' b") (auto simp: owner_def asi_core_def dest: arg_cong [where f = asi_subgoal])
  qed
  have "models {} D v w s'"
  proof (rule modelsI)
    fix i K b assume i: "leaves s' i = Some K" "tn_valid K" "tn_child K = Asi_Child b False"
    then have il: "i \<noteq> l" using lv by auto
    then have K: "leaves s i = Some K" using i lv by simp
    have "v i = (\<exists>dl \<in> set (dls_of s i). list_true v w s dl)" using modelsD(1) [OF m K] i il by simp
    moreover have "dls_of s' i = dls_of s i" using dls il by simp
    ultimately show "v i = (\<exists>dl \<in> set (dls_of s' i). list_true v w s' dl)" using list_true_agree [OF ag] by metis
  next
    fix i K b k S assume i: "leaves s' i = Some K" "tn_valid K" "tn_child K = Asi_Child b k" "owner s' b = Some S" "v i"
    show "w S"
    proof (cases "i = l")
      case True
      have "K = L\<lparr>tn_child := Asi_Child a True\<rparr>" using True i(1) lv by simp
      then have "b = a" using i(3) by simp
      then show ?thesis using modelsD(2) [OF m L] i ow True by simp
    next
      case False
      then show ?thesis using modelsD(2) [OF m, of i K b k S] i lv ow by simp
    qed
  next
    fix i K b assume "leaves s' i = Some K" "tn_valid K" "tn_child K = Asi_Child b True"
    then show "v i" using modelsD(5) [OF m, of i K b] lv v by (cases "i = l") simp_all
  next
    fix S ls assume "sg_ans s' S = Some (True, ls)" "w S"
    then show "\<exists>l \<in> set ls. v l" using modelsD(3) [OF m] sa by simp
  next
    fix S assume "S \<in> set (neg_fails_stack s')"
    then show "\<not> w S" using modelsD(4) [OF m] st by simp
  next
    fix i assume "i \<in> D"
    then show "\<not> v i" using modelsD(6) [OF m] by blast
  qed
  moreover have "sound v s s'"
  proof (rule soundI)
    fix i K assume "leaves s i = Some K"
    then show "\<exists>K'. leaves s' i = Some K' \<and> (\<not> tn_valid K \<longrightarrow> \<not> tn_valid K') \<and> (tn_valid K \<longrightarrow> \<not> tn_valid K' \<longrightarrow> \<not> v i) \<and>
        (tn_valid K \<longrightarrow> is_conditional_answer K \<longrightarrow> tn_valid K' \<longrightarrow> \<not> is_conditional_answer K' \<longrightarrow> v i)"
      using lv L v by (cases "i = l") simp_all
  qed (simp add: sa)
  ultimately show ?thesis by blast
qed

lemma models_end:
  assumes m: "models {} D v w s" and L: "leaves s l = Some L" "tn_valid L" "tn_child L = Asi_Child a True"
    and S: "subgoals s S = Some F"
    and lv: "leaves s' = (leaves s)(l \<mapsto> L\<lparr>tn_child := No_Child\<rparr>)" and sg: "subgoals s' = (subgoals s)(S \<mapsto> now_unconditional F)"
    and at: "asi_tab s' = (asi_tab s)(a := None)" and st: "neg_fails_stack s' = neg_fails_stack s"
    and dls: "dls_of s' = dls_of s" "des_of s' = des_of s" "ref_of s' = ref_of s"
  shows "models {} D v w s' \<and> sound v s s'"
proof -
  have vl: "v l" using modelsD(5) [OF m L] .
  have nn: "sf_completed (now_unconditional F) = sf_completed F" "ans_leaves (now_unconditional F) = ans_leaves F"
    by (simp_all add: now_unconditional_def)
  have sa: "sg_ans s' = sg_ans s" using S by (simp add: sg_ans_def sg nn fun_eq_iff)
  have lt: "list_true v w s' d = list_true v w s d" for d by (simp add: list_true_def dls)
  have "models {} D v w s'"
  proof (rule modelsI)
    fix i K b assume i: "leaves s' i = Some K" "tn_valid K" "tn_child K = Asi_Child b False"
    then have K: "leaves s i = Some K" using lv by (auto split: if_splits)
    show "v i = (\<exists>dl \<in> set (dls_of s' i). list_true v w s' dl)" using modelsD(1) [OF m K] i by (simp add: dls(1) lt)
  next
    fix i K b k U assume i: "leaves s' i = Some K" "tn_valid K" "tn_child K = Asi_Child b k" "owner s' b = Some U" "v i"
    then have K: "leaves s i = Some K" using lv by (auto split: if_splits)
    have "owner s b = Some U" using i(4) at by (simp add: owner_def split: if_splits)
    then show "w U" using modelsD(2) [OF m K] i by simp
  next
    fix i K b assume i: "leaves s' i = Some K" "tn_valid K" "tn_child K = Asi_Child b True"
    then have K: "leaves s i = Some K" using lv by (auto split: if_splits)
    then show "v i" using modelsD(5) [OF m K] i by simp
  next
    fix U ls assume "sg_ans s' U = Some (True, ls)" "w U"
    then show "\<exists>l \<in> set ls. v l" using modelsD(3) [OF m] sa by simp
  next
    fix U assume "U \<in> set (neg_fails_stack s')"
    then show "\<not> w U" using modelsD(4) [OF m] st by simp
  next
    fix i assume "i \<in> D"
    then show "\<not> v i" using modelsD(6) [OF m] by blast
  qed
  moreover have "sound v s s'"
  proof (rule soundI)
    fix i K assume "leaves s i = Some K"
    then show "\<exists>K'. leaves s' i = Some K' \<and> (\<not> tn_valid K \<longrightarrow> \<not> tn_valid K') \<and> (tn_valid K \<longrightarrow> \<not> tn_valid K' \<longrightarrow> \<not> v i) \<and>
        (tn_valid K \<longrightarrow> is_conditional_answer K \<longrightarrow> tn_valid K' \<longrightarrow> \<not> is_conditional_answer K' \<longrightarrow> v i)"
      using lv L vl by (cases "i = l") simp_all
  qed (simp add: sa)
  ultimately show ?thesis by blast
qed

lemma models_deleted:
  assumes m: "models {} D v w s" and L: "leaves s l = Some L" "tn_valid L" and vl: "\<not> v l"
    and S: "subgoals s S = Some F"
    and lv: "leaves s' = (leaves s)(l \<mapsto> L\<lparr>tn_valid := False\<rparr>)"
    and sg: "subgoals s' = (subgoals s)(S \<mapsto> F\<lparr>ans_leaves := remove1 l (ans_leaves F)\<rparr>)"
    and at: "asi_tab s' = asi_tab s" and st: "neg_fails_stack s' = neg_fails_stack s"
    and dls: "dls_of s' = dls_of s" "des_of s' = des_of s" "ref_of s' = ref_of s"
  shows "models {} (insert l D) v w s' \<and> sound v s s'"
proof -
  have lt: "list_true v w s' d = list_true v w s d" for d by (simp add: list_true_def dls)
  have rm: "k \<in> set (remove1 l ls)" if "k \<in> set ls" "v k" for k ls using that vl by (cases "k = l") (simp_all add: in_set_remove1)
  have "models {} (insert l D) v w s'"
  proof (rule modelsI)
    fix i K b assume i: "leaves s' i = Some K" "tn_valid K" "tn_child K = Asi_Child b False"
    then have K: "leaves s i = Some K" using lv by (auto split: if_splits)
    show "v i = (\<exists>dl \<in> set (dls_of s' i). list_true v w s' dl)" using modelsD(1) [OF m K] i by (simp add: dls(1) lt)
  next
    fix i K b k U assume i: "leaves s' i = Some K" "tn_valid K" "tn_child K = Asi_Child b k" "owner s' b = Some U" "v i"
    then have K: "leaves s i = Some K" using lv by (auto split: if_splits)
    have "owner s b = Some U" using i(4) at by (simp add: owner_def)
    then show "w U" using modelsD(2) [OF m K] i by simp
  next
    fix i K b assume i: "leaves s' i = Some K" "tn_valid K" "tn_child K = Asi_Child b True"
    then have K: "leaves s i = Some K" using lv by (auto split: if_splits)
    then show "v i" using modelsD(5) [OF m K] i by simp
  next
    fix U ls assume U: "sg_ans s' U = Some (True, ls)" "w U"
    show "\<exists>l \<in> set ls. v l"
    proof (cases "U = S")
      case True
      then have "sg_ans s S = Some (True, ans_leaves F)" "ls = remove1 l (ans_leaves F)" using U(1) S sg by (simp_all add: sg_ans_def)
      then show ?thesis using modelsD(3) [OF m, of S] U(2) True rm by blast
    next
      case False
      then have "sg_ans s U = Some (True, ls)" using U(1) sg by (simp add: sg_ans_def)
      then show ?thesis using modelsD(3) [OF m] U(2) by blast
    qed
  next
    fix U assume "U \<in> set (neg_fails_stack s')"
    then show "\<not> w U" using modelsD(4) [OF m] st by simp
  next
    fix i assume "i \<in> insert l D"
    then show "\<not> v i" using modelsD(6) [OF m] vl by blast
  qed
  moreover have "sound v s s'"
  proof (rule soundI)
    fix i K assume "leaves s i = Some K"
    then show "\<exists>K'. leaves s' i = Some K' \<and> (\<not> tn_valid K \<longrightarrow> \<not> tn_valid K') \<and> (tn_valid K \<longrightarrow> \<not> tn_valid K' \<longrightarrow> \<not> v i) \<and>
        (tn_valid K \<longrightarrow> is_conditional_answer K \<longrightarrow> tn_valid K' \<longrightarrow> \<not> is_conditional_answer K' \<longrightarrow> v i)"
      using lv L vl by (cases "i = l") simp_all
  next
    fix U c ls assume U: "sg_ans s U = Some (c, ls)"
    show "\<exists>c' ls'. sg_ans s' U = Some (c', ls') \<and> (\<forall>l \<in> set ls. v l \<longrightarrow> l \<in> set ls')"
    proof (cases "U = S")
      case True
      then have "ls = ans_leaves F" using U S by (simp add: sg_ans_def)
      then show ?thesis using True S sg rm by (simp add: sg_ans_def)
    next
      case False
      then have "sg_ans s' U = Some (c, ls)" using U sg by (simp add: sg_ans_def)
      then show ?thesis by blast
    qed
  qed
  ultimately show ?thesis by blast
qed

lemma models_fewer:
  assumes m: "models {} D v w s" and lv: "leaves s' = leaves s" and sa: "sg_ans s' = sg_ans s" and st: "neg_fails_stack s' = neg_fails_stack s"
    and ow: "\<And>b U. owner s' b = Some U \<Longrightarrow> owner s b = Some U"
    and dls: "dls_of s' = dls_of s" "des_of s' = des_of s" "ref_of s' = ref_of s" and D: "D' \<subseteq> D"
  shows "models {} D' v w s'"
proof (rule modelsI)
  have lt: "list_true v w s' d = list_true v w s d" for d by (simp add: list_true_def dls)
  fix i K b assume "leaves s' i = Some K" "tn_valid K" "tn_child K = Asi_Child b False"
  then show "v i = (\<exists>dl \<in> set (dls_of s' i). list_true v w s' dl)" using modelsD(1) [OF m, of i K b] by (simp add: dls(1) lt lv)
next
  fix i K b k U assume i: "leaves s' i = Some K" "tn_valid K" "tn_child K = Asi_Child b k" "owner s' b = Some U" "v i"
  then show "w U" using modelsD(2) [OF m, of i K b k U] ow by (simp add: lv)
next
  fix i K b assume "leaves s' i = Some K" "tn_valid K" "tn_child K = Asi_Child b True"
  then show "v i" using modelsD(5) [OF m, of i K b] by (simp add: lv)
next
  fix U ls assume "sg_ans s' U = Some (True, ls)" "w U"
  then show "\<exists>l \<in> set ls. v l" using modelsD(3) [OF m] sa by simp
next
  fix U assume "U \<in> set (neg_fails_stack s')"
  then show "\<not> w U" using modelsD(4) [OF m] st by simp
next
  fix i assume "i \<in> D'"
  then show "\<not> v i" using modelsD(6) [OF m] D by blast
qed

end
