(* ===== verification/Simplification_Laws.thy ===== *)
theory Simplification_Laws imports Simplification_Steps begin

text \<open>
  Every call of simplification, on a state with the invariant: with enough fuel it returns, or it stops because the calls are nested
  too deep; the invariant holds again, and every model of the state before is a model of the state after. The proof is
  by induction on the fuel with one lemma for each function, which assumes the statement for all calls with less fuel.
\<close>

section \<open>What a call promises\<close>

text \<open>Each removal of a back link pays for the calls up to the next one; a subgoal on the stack pays for its turn.\<close>

definition work :: "delay_state \<Rightarrow> nat" where
  "work s = 10 * pnde_num s + length (neg_fails_stack s)"

text \<open>Answers in progress are not touched, except those in \<open>E\<close>.\<close>

definition steady :: "nat set \<Rightarrow> nat set \<Rightarrow> delay_state \<Rightarrow> delay_state \<Rightarrow> bool" where
  "steady E D s s' \<longleftrightarrow>
     (\<forall>l L a m. l \<notin> E \<longrightarrow> leaves s l = Some L \<longrightarrow> tn_child L = Asi_Child a m \<longrightarrow> l \<in> D \<or> m \<and> tn_valid L \<longrightarrow>
        leaves s' l = Some L \<and> owner s' a = owner s a) \<and>
     dom (subgoals s') = dom (subgoals s) \<and> dom (leaves s') = dom (leaves s) \<and> in_simplify_neg_fails s' = in_simplify_neg_fails s"

definition call_ends :: "nat set \<Rightarrow> nat set \<Rightarrow> ((nat \<Rightarrow> bool) \<Rightarrow> (nat \<Rightarrow> bool) \<Rightarrow> bool) \<Rightarrow> delay_state \<Rightarrow> delay_state \<Rightarrow> bool" where
  "call_ends D X A s s' \<longleftrightarrow> delays_ok D s' \<and> steady {} D s s' \<and> fewer_links D s s' \<and>
     (\<forall>v w. models X D v w s \<longrightarrow> A v w \<longrightarrow> models {} D v w s' \<and> sound v s s')"

primrec call_pre :: "nat set \<Rightarrow> simpl_call \<Rightarrow> delay_state \<Rightarrow> bool" where
  "call_pre D (Pos_Unconditional l) s = (\<exists>L a. leaves s l = Some L \<and> tn_valid L \<and> tn_child L = Asi_Child a False)"
| "call_pre D (Pos_Unconditional_Loop a) s = (\<exists>l L. leaves s l = Some L \<and> tn_valid L \<and> tn_child L = Asi_Child a True)"
| "call_pre D (Empty_Dl dl) s = (\<exists>l. dl \<in> set (dls_of s l) \<and> des_of s dl = [])"
| "call_pre D (Neg_Fails S) s = (S \<in> dom (subgoals s))"
| "call_pre D Neg_Fails_Stack s = in_simplify_neg_fails s"
| "call_pre D (Neg_Fails_Loop S) s = (S \<in> dom (subgoals s))"
| "call_pre D (Neg_Succeeds S) s = (S \<in> dom (subgoals s))"
| "call_pre D (Neg_Succeeds_Loop S) s = (S \<in> dom (subgoals s))"
| "call_pre D (Unsupported l) s = (\<exists>L a. leaves s l = Some L \<and> tn_valid L \<and> tn_child L = Asi_Child a False \<and> dls_of s l = [])"
| "call_pre D (Pos_Unsupported l) s = (l \<in> D)"
| "call_pre D (Pos_Unsupported_Loop a) s = (\<exists>l \<in> D. \<exists>L m. leaves s l = Some L \<and> tn_child L = Asi_Child a m)"

primrec call_post :: "nat set \<Rightarrow> simpl_call \<Rightarrow> delay_state \<Rightarrow> delay_state \<Rightarrow> bool" where
  "call_post D (Pos_Unconditional l) s s' = (leaves s' l = map_option (\<lambda>L. L\<lparr>tn_child := No_Child\<rparr>) (leaves s l))"
| "call_post D (Pos_Unconditional_Loop a) s s' = (asi_field asi_pdes s' a = [])"
| "call_post D (Empty_Dl dl) s s' = True"
| "call_post D (Neg_Fails S) s s' = (\<not> in_simplify_neg_fails s \<longrightarrow> bl_of D s' (Neg S) = [])"
| "call_post D Neg_Fails_Stack s s' = (neg_fails_stack s' = [] \<and> (\<forall>S \<in> set (neg_fails_stack s). bl_of D s' (Neg S) = []))"
| "call_post D (Neg_Fails_Loop S) s s' = (bl_of D s' (Neg S) = [])"
| "call_post D (Neg_Succeeds S) s s' = (bl_of D s' (Neg S) = [])"
| "call_post D (Neg_Succeeds_Loop S) s s' = (bl_of D s' (Neg S) = [])"
| "call_post D (Unsupported l) s s' = True"
| "call_post D (Pos_Unsupported l) s s' = (bl_of D s' (Pos l) = [])"
| "call_post D (Pos_Unsupported_Loop a) s s' = (asi_field asi_pdes s' a = [])"

fun call_exempt :: "simpl_call \<Rightarrow> nat set" where
  "call_exempt (Pos_Unconditional l) = {l}"
| "call_exempt c = {}"

fun call_assumes :: "simpl_call \<Rightarrow> (nat \<Rightarrow> bool) \<Rightarrow> (nat \<Rightarrow> bool) \<Rightarrow> bool" where
  "call_assumes (Pos_Unconditional l) v w = v l"
| "call_assumes (Neg_Fails S) v w = (\<not> w S)"
| "call_assumes (Neg_Fails_Loop S) v w = (\<not> w S)"
| "call_assumes (Neg_Succeeds S) v w = w S"
| "call_assumes (Neg_Succeeds_Loop S) v w = w S"
| "call_assumes c v w = True"

primrec call_need :: "simpl_call \<Rightarrow> nat" where
  "call_need (Pos_Unconditional l) = 2"
| "call_need (Pos_Unconditional_Loop a) = 1"
| "call_need (Empty_Dl dl) = 3"
| "call_need (Neg_Fails S) = 3"
| "call_need Neg_Fails_Stack = 1"
| "call_need (Neg_Fails_Loop S) = 1"
| "call_need (Neg_Succeeds S) = 2"
| "call_need (Neg_Succeeds_Loop S) = 1"
| "call_need (Unsupported l) = 4"
| "call_need (Pos_Unsupported l) = 2"
| "call_need (Pos_Unsupported_Loop a) = 1"

fun call_push :: "simpl_call \<Rightarrow> nat" where
  "call_push (Neg_Fails S) = 1"
| "call_push (Unsupported l) = 1"
| "call_push c = 0"

definition call_done :: "nat set \<Rightarrow> simpl_call \<Rightarrow> delay_state \<Rightarrow> delay_state \<Rightarrow> bool" where
  "call_done D c s s' \<longleftrightarrow> call_ends D (call_exempt c) (call_assumes c) s s' \<and> work s' \<le> work s + call_push c \<and> call_post D c s s' \<and>
     (c \<noteq> Neg_Fails_Stack \<longrightarrow> set (neg_fails_stack s) \<subseteq> set (neg_fails_stack s'))"

definition call_result :: "nat set \<Rightarrow> simpl_call \<Rightarrow> delay_state \<Rightarrow> delay_state outcome \<Rightarrow> bool" where
  "call_result D c s r \<longleftrightarrow> r = Some (Inl too_many_simplifications) \<or> (\<exists>s'. r = Some (Inr s') \<and> call_done D c s s')"

definition call_ok :: "nat \<Rightarrow> simpl_call \<Rightarrow> bool" where
  "call_ok f c \<longleftrightarrow> (\<forall>D s. delays_ok D s \<longrightarrow> call_pre D c s \<longrightarrow> work s + call_need c \<le> f \<longrightarrow> call_result D c s (simplify f c s))"

lemma call_okD:
  assumes "\<forall>c. call_ok f c" "delays_ok D s" "call_pre D c s" "work s + call_need c \<le> f"
  obtains "simplify f c s = Some (Inl too_many_simplifications)"
  | s' where "simplify f c s = Some (Inr s')" "call_ends D (call_exempt c) (call_assumes c) s s'" "work s' \<le> work s + call_push c"
      "call_post D c s s'" "c \<noteq> Neg_Fails_Stack \<Longrightarrow> set (neg_fails_stack s) \<subseteq> set (neg_fails_stack s')"
proof -
  have "call_result D c s (simplify f c s)" using assms unfolding call_ok_def by blast
  then consider "simplify f c s = Some (Inl too_many_simplifications)"
    | s' where "simplify f c s = Some (Inr s')" "call_done D c s s'" unfolding call_result_def by blast
  then show ?thesis
  proof cases
    case 1
    then show ?thesis by (rule that(1))
  next
    case 2
    show ?thesis by (rule that(2) [OF 2(1)]) (use 2(2) in \<open>simp_all add: call_done_def\<close>)
  qed
qed

section \<open>Putting steps together\<close>

lemma steadyI:
  assumes "\<And>l L a m. l \<notin> E \<Longrightarrow> leaves s l = Some L \<Longrightarrow> tn_child L = Asi_Child a m \<Longrightarrow> l \<in> D \<or> m \<and> tn_valid L \<Longrightarrow>
        leaves s' l = Some L \<and> owner s' a = owner s a"
    and "dom (subgoals s') = dom (subgoals s)" "dom (leaves s') = dom (leaves s)" "in_simplify_neg_fails s' = in_simplify_neg_fails s"
  shows "steady E D s s'"
  unfolding steady_def using assms by blast

lemma steadyD:
  assumes "steady E D s s'"
  shows "l \<notin> E \<Longrightarrow> leaves s l = Some L \<Longrightarrow> tn_child L = Asi_Child a m \<Longrightarrow> l \<in> D \<or> m \<and> tn_valid L \<Longrightarrow> leaves s' l = Some L"
    and "l \<notin> E \<Longrightarrow> leaves s l = Some L \<Longrightarrow> tn_child L = Asi_Child a m \<Longrightarrow> l \<in> D \<or> m \<and> tn_valid L \<Longrightarrow> owner s' a = owner s a"
    and "dom (subgoals s') = dom (subgoals s)" and "dom (leaves s') = dom (leaves s)"
    and "in_simplify_neg_fails s' = in_simplify_neg_fails s"
  using assms unfolding steady_def by blast+

lemma steady_trans:
  assumes a: "steady E D s t" and b: "steady E D t u"
  shows "steady E D s u"
proof (rule steadyI)
  fix l L c m assume l: "l \<notin> E" "leaves s l = Some L" "tn_child L = Asi_Child c m" "l \<in> D \<or> m \<and> tn_valid L"
  have 1: "leaves t l = Some L" "owner t c = owner s c" using steadyD(1,2) [OF a l] by blast+
  then show "leaves u l = Some L \<and> owner u c = owner s c" using steadyD(1,2) [OF b l(1) 1(1) l(3,4)] by simp
qed (use steadyD(3-5) [OF a] steadyD(3-5) [OF b] in simp_all)

lemma steady_less: "steady E D s s' \<Longrightarrow> E \<subseteq> E' \<Longrightarrow> D' \<subseteq> D \<Longrightarrow> steady E' D' s s'"
  unfolding steady_def by blast

text \<open>An exception that is not in progress.\<close>

lemma steady_drop:
  assumes st: "steady {l} D s s'" and L: "leaves s l = Some L" "tn_child L = Asi_Child a False" "l \<notin> D"
  shows "steady {} D s s'"
proof (rule steadyI)
  fix k K b m assume k: "leaves s k = Some K" "tn_child K = Asi_Child b m" "k \<in> D \<or> m \<and> tn_valid K"
  then have "k \<notin> {l}" using L by auto
  then show "leaves s' k = Some K \<and> owner s' b = owner s b" using steadyD(1,2) [OF st _ k] by blast
qed (use steadyD(3-5) [OF st] in simp_all)

lemma kept_steady:
  assumes k: "kept s s'"
  shows "steady E D s s'"
proof (rule steadyI)
  have "leaves s' = leaves s" "owner s' = owner s" "sg_core s' = sg_core s" using k kept_owner [OF k] by (simp_all add: kept_def)
  then show "leaves s' l = Some L \<and> owner s' a = owner s a" if "leaves s l = Some L" for l L a using that by simp
  show "dom (subgoals s') = dom (subgoals s)" by (rule sg_core_dom) fact
  show "dom (leaves s') = dom (leaves s)" "in_simplify_neg_fails s' = in_simplify_neg_fails s" using k by (simp_all add: kept_def)
qed

lemma endsD:
  assumes "call_ends D X A s s'"
  shows "delays_ok D s'" "steady {} D s s'" "fewer_links D s s'"
    and "models X D v w s \<Longrightarrow> A v w \<Longrightarrow> models {} D v w s'" and "models X D v w s \<Longrightarrow> A v w \<Longrightarrow> sound v s s'"
  using assms unfolding call_ends_def by blast+

lemma endsI:
  assumes "delays_ok D s'" "steady {} D s s'" "fewer_links D s s'"
    and "\<And>v w. models X D v w s \<Longrightarrow> A v w \<Longrightarrow> models {} D v w s' \<and> sound v s s'"
  shows "call_ends D X A s s'"
  unfolding call_ends_def using assms by blast

lemma ends_refl: "delays_ok D s \<Longrightarrow> call_ends D {} A s s"
  by (rule endsI) (auto intro: steadyI)

lemma ends_trans:
  assumes a: "call_ends D X A s t" and b: "call_ends D {} B t u" and ab: "\<And>v w. models X D v w s \<Longrightarrow> A v w \<Longrightarrow> B v w"
  shows "call_ends D X A s u"
proof (rule endsI)
  show "delays_ok D u" by (rule endsD(1) [OF b])
  show "steady {} D s u" by (rule steady_trans [OF endsD(2) [OF a] endsD(2) [OF b]])
  show "fewer_links D s u" by (rule fewer_links_trans [OF endsD(3) [OF a] endsD(3) [OF b]])
  fix v w assume m: "models X D v w s" and A: "A v w"
  have t: "models {} D v w t" by (rule endsD(4) [OF a m A])
  show "models {} D v w u \<and> sound v s u"
    using endsD(4) [OF b t ab [OF m A]] sound_trans [OF endsD(5) [OF a m A] endsD(5) [OF b t ab [OF m A]]] by blast
qed

lemma ends_weaken:
  assumes a: "call_ends D X A s t" and ab: "\<And>v w. models X D v w s \<Longrightarrow> B v w \<Longrightarrow> A v w"
  shows "call_ends D X B s t"
  using a ab unfolding call_ends_def by blast

text \<open>Changes of the depth do not matter.\<close>

lemma same_models:
  assumes "leaves s' = leaves s" "sg_ans s' = sg_ans s" "owner s' = owner s" "neg_fails_stack s' = neg_fails_stack s"
    "dls_of s' = dls_of s" "des_of s' = des_of s" "ref_of s' = ref_of s"
  shows "models X D v w s' = models X D v w s"
proof -
  have "list_true v w s' d = list_true v w s d" for d by (simp add: list_true_def assms)
  then show ?thesis unfolding models_def assms by simp
qed

lemma depth_models [simp]: "models X D v w (s\<lparr>simplification_depth := n\<rparr>) = models X D v w s"
  by (rule same_models) (simp_all add: sg_ans_def owner_def fun_eq_iff)

lemma depth_sg_ans [simp]: "sg_ans (s\<lparr>simplification_depth := n\<rparr>) = sg_ans s" "owner (s\<lparr>simplification_depth := n\<rparr>) = owner s"
  "work (s\<lparr>simplification_depth := n\<rparr>) = work s"
  by (simp_all add: sg_ans_def owner_def work_def fun_eq_iff)

lemma depth_ends:
  "call_ends D X A (s\<lparr>simplification_depth := n\<rparr>) s' = call_ends D X A s s'"
  "call_ends D X A s (s'\<lparr>simplification_depth := n\<rparr>) = call_ends D X A s s'"
  by (simp_all add: call_ends_def steady_def fewer_links_def sound_def)

lemma depth_call_pre [simp]: "call_pre D c (s\<lparr>simplification_depth := n\<rparr>) = call_pre D c s"
  by (cases c) simp_all

lemma resolved_ends:
  assumes ok: "delays_ok D s" and r: "resolved D t dl de s s'"
  shows "call_ends D {} (\<lambda>v w. literal_true v w t) s s'"
proof (rule endsI)
  show "delays_ok D s'" "fewer_links D s s'" using r by (simp_all add: resolved_def)
  show "steady {} D s s'" using r by (simp add: resolved_def still_kept kept_steady)
qed (use models_resolved [OF _ ok r] in blast)

lemma discarded_ends:
  assumes ok: "delays_ok D s" and d: "discarded D l dl s s'"
  shows "call_ends D {} (\<lambda>v w. \<not> list_true v w s dl) s s'"
proof (rule endsI)
  show "delays_ok D s'" "fewer_links D s s'" using d by (simp_all add: discarded_def)
  show "steady {} D s s'" using d by (simp add: discarded_def kept_steady)
qed (use models_discarded [OF _ ok d] in blast)

end
