(* ===== verification/Simplification_Calls.thy ===== *)
theory Simplification_Calls imports Simplification_Laws begin

text \<open>
  The functions of simplification, one lemma each: a function keeps its promise when the calls that it makes do.
\<close>

lemma call_okI:
  assumes "\<And>D s. delays_ok D s \<Longrightarrow> call_pre D c s \<Longrightarrow> work s + call_need c \<le> Suc f \<Longrightarrow> call_result D c s (run_call (simplify f) c s)"
  shows "call_ok (Suc f) c"
  unfolding call_ok_def using assms by simp

lemma call_error: "r = Some (Inl too_many_simplifications) \<Longrightarrow> call_result D c s r"
  by (simp add: call_result_def)

lemma call_returns:
  assumes "r = Some (Inr s')" "call_ends D (call_exempt c) (call_assumes c) s s'" "work s' \<le> work s + call_push c" "call_post D c s s'"
    "c \<noteq> Neg_Fails_Stack \<Longrightarrow> set (neg_fails_stack s) \<subseteq> set (neg_fails_stack s')"
  shows "call_result D c s r"
  unfolding call_result_def call_done_def using assms by blast

lemma call_assumes_eqs [simp]:
  "call_assumes (Pos_Unconditional l) = (\<lambda>v w. v l)" "call_assumes (Pos_Unconditional_Loop a) = (\<lambda>v w. True)"
  "call_assumes (Empty_Dl dl) = (\<lambda>v w. True)" "call_assumes (Neg_Fails S) = (\<lambda>v w. \<not> w S)"
  "call_assumes Neg_Fails_Stack = (\<lambda>v w. True)" "call_assumes (Neg_Fails_Loop S) = (\<lambda>v w. \<not> w S)"
  "call_assumes (Neg_Succeeds S) = (\<lambda>v w. w S)" "call_assumes (Neg_Succeeds_Loop S) = (\<lambda>v w. w S)"
  "call_assumes (Unsupported l) = (\<lambda>v w. True)" "call_assumes (Pos_Unsupported l) = (\<lambda>v w. True)"
  "call_assumes (Pos_Unsupported_Loop a) = (\<lambda>v w. True)"
  by (intro ext; simp)+

lemma same_links: "bl_of D s' = bl_of D s \<Longrightarrow> fewer_links D s s'"
  by (simp add: fewer_links_def)

lemma not_deleting: "delays_ok D s \<Longrightarrow> leaves s l = Some L \<Longrightarrow> tn_valid L \<Longrightarrow> l \<notin> D"
  using world_deleted [of D s l] by (force simp: delays_ok_def)

section \<open>An answer becomes unconditional\<close>

lemma marked_steady:
  assumes mk: "unconditional_now D l L a s s'" and l: "leaves s l = Some L"
  shows "steady {l} D s s'"
proof (rule steadyI)
  have lv: "leaves s' = (leaves s)(l \<mapsto> L\<lparr>tn_child := Asi_Child a True\<rparr>)" and c: "sg_core s' = sg_core s" "asi_core s' = asi_core s"
    and f: "in_simplify_neg_fails s' = in_simplify_neg_fails s" using mk by (simp_all add: unconditional_now_def)
  have "owner s' b = owner s b" for b
    using fun_cong [OF c(2), of b] by (cases "asi_tab s b"; cases "asi_tab s' b") (auto simp: owner_def asi_core_def dest: arg_cong [where f = asi_subgoal])
  then show "leaves s' k = Some K \<and> owner s' b = owner s b" if "k \<notin> {l}" "leaves s k = Some K" for k K b
    using that lv by simp
  show "dom (leaves s') = dom (leaves s)" using lv l by (simp add: insert_absorb domI)
  show "dom (subgoals s') = dom (subgoals s)" by (rule sg_core_dom [OF c(1)])
  show "in_simplify_neg_fails s' = in_simplify_neg_fails s" by (rule f)
qed

lemma end_steady:
  assumes ok: "delays_ok D s" and L: "leaves s l = Some L" "tn_valid L" "tn_child L = Asi_Child a True"
    and lv: "leaves s' = (leaves s)(l \<mapsto> L\<lparr>tn_child := No_Child\<rparr>)" and sg: "subgoals s' = (subgoals s)(S \<mapsto> G)" "S \<in> dom (subgoals s)"
    and at: "asi_tab s' = (asi_tab s)(a := None)" and f: "in_simplify_neg_fails s' = in_simplify_neg_fails s"
  shows "steady {l} D s s'"
proof (rule steadyI)
  have w: "world_ok D s" using ok by (simp add: delays_ok_def)
  have h: "holds_asi D s l a True" using L by (simp add: holds_asi_def)
  show "leaves s' k = Some K \<and> owner s' b = owner s b"
    if k: "k \<notin> {l}" "leaves s k = Some K" "tn_child K = Asi_Child b m" "k \<in> D \<or> m \<and> tn_valid K" for k K b m
  proof -
    have "holds_asi D s k b m" using k by (auto simp: holds_asi_def)
    then have "b \<noteq> a" using world_one [OF w h] k(1) by blast
    then show ?thesis using k lv at by (simp add: owner_def)
  qed
  show "dom (leaves s') = dom (leaves s)" using lv L by (simp add: insert_absorb domI)
  show "dom (subgoals s') = dom (subgoals s)" using sg by (simp add: insert_absorb)
qed (rule f)

lemma pos_unconditional_ok:
  assumes IH: "\<forall>c. call_ok f c"
  shows "call_ok (Suc f) (Pos_Unconditional l)"
proof (rule call_okI)
  fix D s assume ok: "delays_ok D s" and pre: "call_pre D (Pos_Unconditional l) s" and wk: "work s + call_need (Pos_Unconditional l) \<le> Suc f"
  obtain L a where L: "leaves s l = Some L" "tn_valid L" "tn_child L = Asi_Child a False" using pre by auto
  have w: "world_ok D s" using ok by (simp add: delays_ok_def)
  have h: "holds_asi D s l a False" using L by (simp add: holds_asi_def)
  obtain i F where i: "asi_tab s a = Some i" "subgoals s (asi_subgoal i) = Some F" using world_ex [OF w h] by blast
  let ?S = "asi_subgoal i" let ?L = "L\<lparr>tn_child := Asi_Child a True\<rparr>"
  consider "begin_pos_unconditional l s = Inl too_many_simplifications"
    | s1 where "begin_pos_unconditional l s = Inr ((a, ?S), s1)" "unconditional_now D l L a s s1" using begin_step [OF ok L i(1)] by blast
  then show "call_result D (Pos_Unconditional l) s (run_call (simplify f) (Pos_Unconditional l) s)"
  proof cases
    case 1
    then show ?thesis by (intro call_error) (simp add: simplify_pos_unconditional_def)
  next
    case s1: (2 s1)
    have ok1: "delays_ok D s1" and l1: "leaves s1 l = Some ?L" and c1: "sg_core s1 = sg_core s" "neg_fails_stack s1 = neg_fails_stack s"
      and p1: "pnde_num s1 \<le> pnde_num s" and fl1: "fewer_links D s s1" using s1(2) by (simp_all add: unconditional_now_def)
    have pre1: "call_pre D (Pos_Unconditional_Loop a) s1" using l1 L(2) unfolding call_pre.simps by (intro exI [of _ l] exI [of _ ?L]) simp
    have wk1: "work s1 \<le> work s" using p1 c1(2) by (simp add: work_def)
    then have need1: "work s1 + call_need (Pos_Unconditional_Loop a) \<le> f" using wk by simp
    from IH ok1 pre1 need1 show ?thesis
    proof (cases rule: call_okD)
      case 1
      then show ?thesis using s1(1) by (intro call_error) (simp add: simplify_pos_unconditional_def)
    next
      case s2: (2 s2)
      have e12: "call_ends D {} (\<lambda>v w. True) s1 s2" using s2(2) by simp
      have st2: "steady {} D s1 s2" by (rule endsD(2) [OF e12])
      have l2: "leaves s2 l = Some ?L" using steadyD(1) [OF st2, of l ?L a True] l1 L(2) by simp
      have h2: "holds_asi D s2 l a True" using l2 L(2) by (simp add: holds_asi_def)
      have b2: "bl_of D s2 (Pos l) = []" using bl_of_holds [OF h2] s2(4) by simp
      have "?S \<in> dom (subgoals s2)" using steadyD(3) [OF st2] sg_core_dom [OF c1(1)] i(2) by blast
      then obtain F2 where F2: "subgoals s2 ?S = Some F2" by blast
      obtain s3 where s3: "end_pos_unconditional l a ?S s2 = Inr s3" "delays_ok D s3" "leaves s3 = (leaves s2)(l \<mapsto> ?L\<lparr>tn_child := No_Child\<rparr>)"
          "subgoals s3 = (subgoals s2)(?S \<mapsto> now_unconditional F2)" "asi_tab s3 = (asi_tab s2)(a := None)"
          "neg_fails_stack s3 = neg_fails_stack s2" "in_simplify_neg_fails s3 = in_simplify_neg_fails s2"
          "dls_of s3 = dls_of s2" "des_of s3 = des_of s2" "ref_of s3 = ref_of s2" "bl_of D s3 = bl_of D s2" "pnde_num s3 = pnde_num s2"
        using end_step [OF endsD(1) [OF e12] l2 _ _ b2 F2] L(2) by (auto simp del: bl_of.simps)
      have L2: "tn_valid ?L" "tn_child ?L = Asi_Child a True" using L(2) by simp_all
      have "steady {l} D s s3"
        by (rule steady_trans [OF marked_steady [OF s1(2) L(1)] steady_trans [OF steady_less [OF st2]
            end_steady [OF endsD(1) [OF e12] l2 L2 s3(3,4) _ s3(5,7)]]]) (use F2 in auto)
      then have st3: "steady {} D s s3" by (rule steady_drop [OF _ L(1,3) not_deleting [OF ok L(1,2)]])
      have "call_ends D (call_exempt (Pos_Unconditional l)) (call_assumes (Pos_Unconditional l)) s s3"
      proof (rule endsI [OF s3(2) st3])
        show "fewer_links D s s3"
          by (rule fewer_links_trans [OF fl1 fewer_links_trans [OF endsD(3) [OF e12] same_links [OF s3(11)]]])
        fix v w assume "models (call_exempt (Pos_Unconditional l)) D v w s" "call_assumes (Pos_Unconditional l) v w"
        then have m: "models {l} D v w s" and v: "v l" by simp_all
        have m1: "models {} D v w s1" "sound v s s1" using models_marked [OF m s1(2) L v] by blast+
        have m2: "models {} D v w s2" "sound v s1 s2" using endsD(4,5) [OF e12 m1(1)] by blast+
        have "models {} D v w s3 \<and> sound v s2 s3"
          by (rule models_end [OF m2(1) l2 L2 F2 s3(3-6,8-10)])
        then show "models {} D v w s3 \<and> sound v s s3" using sound_trans [OF m1(2) sound_trans [OF m2(2)]] by blast
      qed
      moreover have "work s3 \<le> work s" using s2(3) wk1 s3(6,12) by (simp add: work_def)
      moreover have "set (neg_fails_stack s) \<subseteq> set (neg_fails_stack s3)" using s2(5) c1(2) s3(6) by simp
      moreover have "leaves s3 l = map_option (\<lambda>L. L\<lparr>tn_child := No_Child\<rparr>) (leaves s l)" using s3(3) L(1) by simp
      ultimately show ?thesis using s1(1) s2(1) s3(1)
        by (intro call_returns [where s' = s3]) (simp_all add: simplify_pos_unconditional_def)
    qed
  qed
qed

section \<open>The loops over the back links\<close>

text \<open>A turn removes at least one back link, may call a function that is given the list or the answer, and goes on.\<close>

lemma loop_turn:
  assumes IH: "\<forall>c. call_ok f c" and e1: "call_ends D {} B s s1" and w1: "work s1 + 10 \<le> work s" and f: "work s \<le> f"
    and n1: "set (neg_fails_stack s) \<subseteq> set (neg_fails_stack s1)"
    and c: "call_exempt c = {}" "call_need c = 1" "call_push c = 0" "c \<noteq> Neg_Fails_Stack"
    and d: "call_exempt d = {}" "call_assumes d = (\<lambda>v w. True)" "call_need d \<le> 9" "call_push d \<le> 1" "d \<noteq> Neg_Fails_Stack"
    and pre: "\<not> b \<Longrightarrow> call_pre D d s1" and cpre: "\<And>s'. steady {} D s s' \<Longrightarrow> call_pre D c s'"
    and post: "\<And>t u. call_post D c t u \<Longrightarrow> call_post D c s u"
    and AB: "\<And>v w. models {} D v w s \<Longrightarrow> call_assumes c v w \<Longrightarrow> B v w"
  shows "call_result D c s (then_do (if b then Some (Inr s1) else simplify f d s1) (simplify f c))"
proof -
  let ?m = "if b then Some (Inr s1) else simplify f d s1"
  have ok1: "delays_ok D s1" by (rule endsD(1) [OF e1])
  have "?m = Some (Inl too_many_simplifications) \<or>
      (\<exists>s2. ?m = Some (Inr s2) \<and> call_ends D {} (\<lambda>v w. True) s1 s2 \<and> work s2 \<le> work s1 + 1 \<and> set (neg_fails_stack s1) \<subseteq> set (neg_fails_stack s2))"
  proof (cases b)
    case True
    then show ?thesis using ends_refl [OF ok1] by simp
  next
    case False
    have "work s1 + call_need d \<le> f" using w1 f d(3) by simp
    from IH ok1 pre [OF False] this show ?thesis
    proof (cases rule: call_okD)
      case 1
      then show ?thesis using False by simp
    next
      case (2 s2)
      then show ?thesis using False d by (intro disjI2 exI [of _ s2]) simp
    qed
  qed
  then consider "?m = Some (Inl too_many_simplifications)"
    | s2 where "?m = Some (Inr s2)" "call_ends D {} (\<lambda>v w. True) s1 s2" "work s2 \<le> work s1 + 1" "set (neg_fails_stack s1) \<subseteq> set (neg_fails_stack s2)"
    by blast
  then show ?thesis
  proof cases
    case 1
    then show ?thesis by (intro call_error) simp
  next
    case s2: (2 s2)
    have e2: "call_ends D {} (call_assumes c) s s2"
      by (rule ends_weaken [OF ends_trans [OF e1 s2(2)]]) (use AB in simp_all)
    have need: "work s2 + call_need c \<le> f" using s2(3) w1 f c(2) by simp
    from IH endsD(1) [OF e2] cpre [OF endsD(2) [OF e2]] need show ?thesis
    proof (cases rule: call_okD)
      case 1
      then show ?thesis using s2(1) by (intro call_error) simp
    next
      case s3: (2 s3)
      have "call_ends D {} (call_assumes c) s2 s3" using s3(2) c(1) by simp
      then have "call_ends D {} (call_assumes c) s s3" by (rule ends_trans [OF e2])
      moreover have "work s3 \<le> work s + call_push c" using s3(3) s2(3) w1 c(3) by simp
      moreover have "set (neg_fails_stack s) \<subseteq> set (neg_fails_stack s3)" using n1 s2(4) s3(5) [OF c(4)] by blast
      ultimately show ?thesis using s2(1) s3(1) post [OF s3(4)] c(1) by (intro call_returns [where s' = s3]) simp_all
    qed
  qed
qed

lemma resolved_turn:
  assumes IH: "\<forall>c. call_ok f c" and ok: "delays_ok D s" and r: "resolved D t dl de s s1" and f: "work s \<le> f"
    and c: "call_exempt c = {}" "call_need c = 1" "call_push c = 0" "c \<noteq> Neg_Fails_Stack"
    and cpre: "\<And>s'. steady {} D s s' \<Longrightarrow> call_pre D c s'" and post: "\<And>t u. call_post D c t u \<Longrightarrow> call_post D c s u"
    and AB: "\<And>v w. models {} D v w s \<Longrightarrow> call_assumes c v w \<Longrightarrow> literal_true v w t"
  shows "call_result D c s (then_do (if des_of s1 dl \<noteq> [] then Some (Inr s1) else simplify f (Empty_Dl dl) s1) (simplify f c))"
proof (rule loop_turn [OF IH resolved_ends [OF ok r] _ f _ c])
  have st: "still s s1" using r by (simp add: resolved_def)
  show "work s1 + 10 \<le> work s" "set (neg_fails_stack s) \<subseteq> set (neg_fails_stack s1)"
    using r by (simp_all add: resolved_def still_def work_def)
  show "call_pre D (Empty_Dl dl) s1" if "\<not> des_of s1 dl \<noteq> []"
    using r that still_dls_of [OF st] by (auto simp: resolved_def)
qed (use cpre post AB in simp_all)

lemma discarded_turn:
  assumes IH: "\<forall>c. call_ok f c" and ok: "delays_ok D s" and r: "discarded D l dl s s1" and f: "work s \<le> f"
    and de: "des_of s dl \<noteq> []" and dl: "dl \<in> set (dls_of s l)"
    and c: "call_exempt c = {}" "call_need c = 1" "call_push c = 0" "c \<noteq> Neg_Fails_Stack"
    and cpre: "\<And>s'. steady {} D s s' \<Longrightarrow> call_pre D c s'" and post: "\<And>t u. call_post D c t u \<Longrightarrow> call_post D c s u"
    and AB: "\<And>v w. models {} D v w s \<Longrightarrow> call_assumes c v w \<Longrightarrow> \<not> list_true v w s dl"
  shows "call_result D c s (then_do (if dls_of s1 l \<noteq> [] then Some (Inr s1) else simplify f (Unsupported l) s1) (simplify f c))"
proof (rule loop_turn [OF IH discarded_ends [OF ok r] _ f _ c])
  have k: "kept s s1" and p: "pnde_num s1 + length (des_of s dl) = pnde_num s" using r by (simp_all add: discarded_def)
  have "pnde_num s1 + 1 \<le> pnde_num s" using p de by (cases "des_of s dl") simp_all
  then show "work s1 + 10 \<le> work s" "set (neg_fails_stack s) \<subseteq> set (neg_fails_stack s1)"
    using k by (simp_all add: kept_def work_def)
  show "call_pre D (Unsupported l) s1" if "\<not> dls_of s1 l \<noteq> []"
  proof -
    have "dls_of s l \<noteq> []" using dl by auto
    then obtain L a where "leaves s l = Some L" "tn_valid L" "tn_child L = Asi_Child a False" by (rule dls_of_cases)
    then show ?thesis using that k by (simp add: kept_def)
  qed
qed (use cpre post AB in simp_all)

lemma false_list:
  assumes "de \<in> set (des_of s dl)" "ref_of s de = Some (t, p)" "\<not> literal_true v w t"
  shows "\<not> list_true v w s dl"
  using assms unfolding list_true_def by force

lemma pos_unconditional_loop_ok:
  assumes IH: "\<forall>c. call_ok f c"
  shows "call_ok (Suc f) (Pos_Unconditional_Loop a)"
proof (rule call_okI)
  fix D s assume ok: "delays_ok D s" and pre: "call_pre D (Pos_Unconditional_Loop a) s" and wk: "work s + call_need (Pos_Unconditional_Loop a) \<le> Suc f"
  obtain l L where L: "leaves s l = Some L" "tn_valid L" "tn_child L = Asi_Child a True" using pre by auto
  have w: "world_ok D s" using ok by (simp add: delays_ok_def)
  have h: "holds_asi D s l a True" using L by (simp add: holds_asi_def)
  obtain i where i: "asi_tab s a = Some i" using world_ex [OF w h] by blast
  have b: "bl_of D s (Pos l) = asi_pdes i" using bl_of_holds [OF h] i by (simp add: asi_field_def)
  show "call_result D (Pos_Unconditional_Loop a) s (run_call (simplify f) (Pos_Unconditional_Loop a) s)"
  proof (cases "asi_pdes i")
    case Nil
    then show ?thesis using i ends_refl [OF ok]
      by (intro call_returns [where s' = s]) (simp_all add: pos_unconditional_loop_def asi_field_def)
  next
    case (Cons p ps)
    then have "p \<in> set (bl_of D s (Pos l))" using b by simp
    then obtain dl de s1 where r: "resolve_pde a p s = Inr ((des_of s1 dl \<noteq> [], dl), s1)" "resolved D (Pos l) dl de s s1"
      using resolve_pde_step [OF ok h] by blast
    have "call_result D (Pos_Unconditional_Loop a) s
      (then_do (if des_of s1 dl \<noteq> [] then Some (Inr s1) else simplify f (Empty_Dl dl) s1) (simplify f (Pos_Unconditional_Loop a)))"
    proof (rule resolved_turn [OF IH ok r(2)])
      show "call_pre D (Pos_Unconditional_Loop a) s'" if "steady {} D s s'" for s'
        using steadyD(1) [OF that, of l L a True] L by auto
      show "literal_true v w (Pos l)" if "models {} D v w s" for v w using modelsD(5) [OF that L] by simp
    qed (use wk in simp_all)
    then show ?thesis using i Cons r(1) by (simp add: pos_unconditional_loop_def)
  qed
qed

lemma neg_fails_loop_ok:
  assumes IH: "\<forall>c. call_ok f c"
  shows "call_ok (Suc f) (Neg_Fails_Loop S)"
proof (rule call_okI)
  fix D s assume ok: "delays_ok D s" and pre: "call_pre D (Neg_Fails_Loop S) s" and wk: "work s + call_need (Neg_Fails_Loop S) \<le> Suc f"
  obtain F where F: "subgoals s S = Some F" using pre by auto
  show "call_result D (Neg_Fails_Loop S) s (run_call (simplify f) (Neg_Fails_Loop S) s)"
  proof (cases "subg_nde_list F")
    case Nil
    then show ?thesis using F ends_refl [OF ok]
      by (intro call_returns [where s' = s]) (simp_all add: neg_fails_loop_def)
  next
    case (Cons p ps)
    then have "p \<in> set (bl_of D s (Neg S))" using F by simp
    then obtain dl de s1 where r: "resolve_nde S p s = Inr ((des_of s1 dl \<noteq> [], dl), s1)" "resolved D (Neg S) dl de s s1"
      using resolve_nde_step [OF ok] by blast
    have "call_result D (Neg_Fails_Loop S) s
      (then_do (if des_of s1 dl \<noteq> [] then Some (Inr s1) else simplify f (Empty_Dl dl) s1) (simplify f (Neg_Fails_Loop S)))"
    proof (rule resolved_turn [OF IH ok r(2)])
      show "call_pre D (Neg_Fails_Loop S) s'" if "steady {} D s s'" for s'
        using steadyD(3) [OF that] F by auto
    qed (use wk in simp_all)
    then show ?thesis using F Cons r(1) by (simp add: neg_fails_loop_def)
  qed
qed

lemma neg_succeeds_loop_ok:
  assumes IH: "\<forall>c. call_ok f c"
  shows "call_ok (Suc f) (Neg_Succeeds_Loop S)"
proof (rule call_okI)
  fix D s assume ok: "delays_ok D s" and pre: "call_pre D (Neg_Succeeds_Loop S) s" and wk: "work s + call_need (Neg_Succeeds_Loop S) \<le> Suc f"
  obtain F where F: "subgoals s S = Some F" using pre by auto
  show "call_result D (Neg_Succeeds_Loop S) s (run_call (simplify f) (Neg_Succeeds_Loop S) s)"
  proof (cases "subg_nde_list F")
    case Nil
    then show ?thesis using F ends_refl [OF ok]
      by (intro call_returns [where s' = s]) (simp_all add: neg_succeeds_loop_def)
  next
    case (Cons p ps)
    then have p: "p \<in> set (bl_of D s (Neg S))" using F by simp
    obtain l dl de q where q: "lnk_of s p = Some (dl, de)" "pnde_tab s p = Some q" "pnde_dl q = Some dl" "pnde_de q = de"
        "dl \<in> set (dls_of s l)" "de \<in> set (des_of s dl)" "ref_of s de = Some (Neg S, p)" using ok p by (rule first_link)
    obtain s1 where s1: "discard_list dl s = Inr ((dls_of s1 l \<noteq> [], l), s1)" "discarded D l dl s s1"
      using discard_list_step [OF ok q(5)] by blast
    have "call_result D (Neg_Succeeds_Loop S) s
      (then_do (if dls_of s1 l \<noteq> [] then Some (Inr s1) else simplify f (Unsupported l) s1) (simplify f (Neg_Succeeds_Loop S)))"
    proof (rule discarded_turn [OF IH ok s1(2) _ _ q(5)])
      show "des_of s dl \<noteq> []" using q(6) by auto
      show "call_pre D (Neg_Succeeds_Loop S) s'" if "steady {} D s s'" for s'
        using steadyD(3) [OF that] F by auto
      show "\<not> list_true v w s dl" if "call_assumes (Neg_Succeeds_Loop S) v w" for v w
        using false_list [OF q(6,7)] that by simp
    qed (use wk in simp_all)
    then show ?thesis using F Cons q(2,3) s1(1) by (simp add: neg_succeeds_loop_def)
  qed
qed

lemma pos_unsupported_loop_ok:
  assumes IH: "\<forall>c. call_ok f c"
  shows "call_ok (Suc f) (Pos_Unsupported_Loop a)"
proof (rule call_okI)
  fix D s assume ok: "delays_ok D s" and pre: "call_pre D (Pos_Unsupported_Loop a) s" and wk: "work s + call_need (Pos_Unsupported_Loop a) \<le> Suc f"
  obtain l L m where L: "l \<in> D" "leaves s l = Some L" "tn_child L = Asi_Child a m" using pre by auto
  have w: "world_ok D s" using ok by (simp add: delays_ok_def)
  have h: "holds_asi D s l a m" using L by (simp add: holds_asi_def)
  obtain i where i: "asi_tab s a = Some i" using world_ex [OF w h] by blast
  have b: "bl_of D s (Pos l) = asi_pdes i" using bl_of_holds [OF h] i by (simp add: asi_field_def)
  show "call_result D (Pos_Unsupported_Loop a) s (run_call (simplify f) (Pos_Unsupported_Loop a) s)"
  proof (cases "asi_pdes i")
    case Nil
    let ?s = "leave_simplification s"
    have "call_ends D {} (\<lambda>v w. True) s ?s" using ends_refl [OF ok] by (simp add: leave_simplification_def depth_ends)
    then show ?thesis using i Nil
      by (intro call_returns [where s' = ?s])
        (simp_all add: pos_unsupported_loop_def asi_field_def work_def)
  next
    case (Cons p ps)
    then have p: "p \<in> set (bl_of D s (Pos l))" using b by simp
    obtain k dl de q where q: "lnk_of s p = Some (dl, de)" "pnde_tab s p = Some q" "pnde_dl q = Some dl" "pnde_de q = de"
        "dl \<in> set (dls_of s k)" "de \<in> set (des_of s dl)" "ref_of s de = Some (Pos l, p)" using ok p by (rule first_link)
    obtain s1 where s1: "discard_list dl s = Inr ((dls_of s1 k \<noteq> [], k), s1)" "discarded D k dl s s1"
      using discard_list_step [OF ok q(5)] by blast
    have "call_result D (Pos_Unsupported_Loop a) s
      (then_do (if dls_of s1 k \<noteq> [] then Some (Inr s1) else simplify f (Unsupported k) s1) (simplify f (Pos_Unsupported_Loop a)))"
    proof (rule discarded_turn [OF IH ok s1(2) _ _ q(5)])
      show "des_of s dl \<noteq> []" using q(6) by auto
      show "call_pre D (Pos_Unsupported_Loop a) s'" if "steady {} D s s'" for s'
        using steadyD(1) [OF that, of l L a m] L by auto
      show "\<not> list_true v w s dl" if "models {} D v w s" for v w
        using false_list [OF q(6,7)] modelsD(6) [OF that L(1)] by simp
    qed (use wk in simp_all)
    then show ?thesis using i Cons q(2,3) s1(1) by (simp add: pos_unsupported_loop_def)
  qed
qed

section \<open>Changes of a subgoal and of the stack\<close>

lemma upd_ends:
  assumes ok: "delays_ok D s" and S: "subgoals s S = Some F" and n: "subg_nde_list (g F) = subg_nde_list F" "ans_leaves (g F) = ans_leaves F"
    and t: "t = s\<lparr>subgoals := (subgoals s)(S \<mapsto> g F)\<rparr>"
    and c: "\<And>v w. A v w \<Longrightarrow> models {} D v w s \<Longrightarrow> sf_completed (g F) \<Longrightarrow> \<not> sf_completed F \<Longrightarrow> w S \<Longrightarrow> \<exists>k \<in> set (ans_leaves F). v k"
  shows "call_ends D {} A s t" "work t = work s" "neg_fails_stack t = neg_fails_stack s"
proof -
  have w: "world_ok D s" using ok by (simp add: delays_ok_def)
  note u = upd_subgoal_fields [where g = g, OF S n(1) t]
  have wt: "world_ok D t" by (rule upd_subgoal_world [OF w S t]) (simp add: n)
  show st: "neg_fails_stack t = neg_fails_stack s" by (simp add: t)
  show "work t = work s" by (simp add: work_def u(10) st)
  have o: "owner t = owner s" by (simp add: owner_def t fun_eq_iff)
  have lv: "leaves t = leaves s" by (simp add: t)
  have lt: "list_true v w t d = list_true v w s d" for v w d by (simp add: list_true_def u(4,5))
  show "call_ends D {} A s t"
  proof (rule endsI)
    show "delays_ok D t" using ok wt by (simp add: delays_ok_def u(1,2))
    show "fewer_links D s t" by (rule same_links) (rule u(6))
    show "steady {} D s t" by (rule steadyI) (simp_all add: o lv u(7), simp add: t)
    fix v w assume m: "models {} D v w s" and A: "A v w"
    have "models {} D v w t"
    proof (rule modelsI)
      show "v l = (\<exists>dl \<in> set (dls_of t l). list_true v w t dl)"
        if "leaves t l = Some L" "tn_valid L" "tn_child L = Asi_Child a False" "l \<notin> {}" for l L a
        using modelsD(1) [OF m] that by (simp add: lv lt u(3))
      show "w U" if "leaves t l = Some L" "tn_valid L" "tn_child L = Asi_Child a k" "owner t a = Some U" "v l" for l L a k U
        using modelsD(2) [OF m] that by (simp add: lv o)
      show "\<exists>l \<in> set ls. v l" if U: "sg_ans t U = Some (True, ls)" "w U" for U ls
      proof (cases "U = S \<and> \<not> sf_completed F")
        case True
        then show ?thesis using U c [OF A m] n(2) by (simp add: sg_ans_def t)
      next
        case False
        then have "sg_ans s U = Some (True, ls)" using U(1) S n(2) by (auto simp: sg_ans_def t split: if_splits)
        then show ?thesis using modelsD(3) [OF m] U(2) by blast
      qed
      show "\<not> w U" if "U \<in> set (neg_fails_stack t)" for U using modelsD(4) [OF m] that by (simp add: st)
      show "v l" if "leaves t l = Some L" "tn_valid L" "tn_child L = Asi_Child a True" for l L a
        using modelsD(5) [OF m] that by (simp add: lv)
      show "\<not> v l" if "l \<in> D" for l using modelsD(6) [OF m that] .
    qed
    moreover have "sound v s t"
      by (rule soundI) (use S n(2) in \<open>auto simp: lv sg_ans_def t\<close>)
    ultimately show "models {} D v w t \<and> sound v s t" by blast
  qed
qed

definition set_stack :: "nat list \<Rightarrow> bool \<Rightarrow> delay_state \<Rightarrow> delay_state" where
  "set_stack st b s = s\<lparr>neg_fails_stack := st, in_simplify_neg_fails := b\<rparr>"

lemma set_stack_fields [simp]:
  "leaves (set_stack st b s) = leaves s" "subgoals (set_stack st b s) = subgoals s" "asi_tab (set_stack st b s) = asi_tab s"
  "neg_fails_stack (set_stack st b s) = st" "in_simplify_neg_fails (set_stack st b s) = b"
  "dls_of (set_stack st b s) = dls_of s" "des_of (set_stack st b s) = des_of s" "ref_of (set_stack st b s) = ref_of s"
  "bl_of D (set_stack st b s) = bl_of D s" "delay_view D (set_stack st b s) = delay_view D s" "memory_ok (set_stack st b s) = memory_ok s"
  "sg_ans (set_stack st b s) = sg_ans s" "owner (set_stack st b s) = owner s" "pnde_num (set_stack st b s) = pnde_num s"
  "list_true v w (set_stack st b s) = list_true v w s" "holds_asi D (set_stack st b s) = holds_asi D s"
proof -
  let ?s = "set_stack st b s"
  have f: "asi_field f ?s = asi_field f s" for f by (simp add: asi_field_def set_stack_def fun_eq_iff)
  have lv: "leaves ?s = leaves s" "subgoals ?s = subgoals s" by (simp_all add: set_stack_def)
  show h: "holds_asi D ?s = holds_asi D s" for D by (simp add: holds_asi_def set_stack_def fun_eq_iff)
  show d: "dls_of ?s = dls_of s" by (simp add: dls_of_def f lv fun_eq_iff split: option.split leaf_child.split)
  show e: "des_of ?s = des_of s" by (simp add: des_of_def set_stack_def fun_eq_iff)
  show bb: "bl_of D ?s = bl_of D s"
  proof
    fix u show "bl_of D ?s u = bl_of D s u"
      by (cases u) (simp_all add: f lv split: option.split leaf_child.split)
  qed
  show r: "ref_of ?s = ref_of s" by (simp add: ref_of_def set_stack_def fun_eq_iff)
  have l: "lnk_of ?s = lnk_of s" "asl_of ?s = asl_of s" by (simp_all add: lnk_of_def asl_of_def set_stack_def fun_eq_iff)
  show v: "delay_view D ?s = delay_view D s" by (simp add: delay_view_def d e bb r l) (simp add: set_stack_def)
  have "delay_tries_ok ?s = delay_tries_ok s" by (rule tries_cong) (simp_all add: set_stack_def)
  then show "memory_ok ?s = memory_ok s" by (simp add: memory_ok_def pools_ok_def set_stack_def)
  show "list_true v w ?s = list_true v w s" by (simp add: list_true_def fun_eq_iff e r)
qed (simp_all add: set_stack_def sg_ans_def owner_def pnde_num_def fun_eq_iff)

lemma set_stack_ok:
  assumes ok: "delays_ok D s" and st: "set st \<subseteq> dom (subgoals s)" and b: "b \<or> st = []"
  shows "delays_ok D (set_stack st b s)"
proof -
  have w: "world_ok D s" using ok by (simp add: delays_ok_def)
  have "world_ok D (set_stack st b s)"
  proof (rule world_okI)
    show "\<exists>i F. asi_tab (set_stack st b s) a = Some i \<and> subgoals (set_stack st b s) (asi_subgoal i) = Some F \<and> (l \<notin> D \<longrightarrow> l \<in> set (ans_leaves F))"
      if "holds_asi D (set_stack st b s) l a m" for l a m using world_ex [OF w] that unfolding set_stack_fields by blast
    show "k = l" if "holds_asi D (set_stack st b s) l a m" "holds_asi D (set_stack st b s) k a m'" for l k a m m'
      using world_one [OF w] that unfolding set_stack_fields by blast
    show "\<exists>L a m. leaves (set_stack st b s) l = Some L \<and> \<not> tn_valid L \<and> tn_child L = Asi_Child a m" if "l \<in> D" for l
      using world_deleted [OF w that] unfolding set_stack_fields by blast
  qed (use st b in auto)
  then show ?thesis using ok by (simp add: delays_ok_def)
qed

lemma set_stack_models:
  assumes m: "models X D v w s" and st: "\<forall>S \<in> set st. \<not> w S"
  shows "models X D v w (set_stack st b s)"
  using m st unfolding models_def by simp

section \<open>The functions around the loops\<close>

lemma neg_fails_stack_ok:
  assumes IH: "\<forall>c. call_ok f c"
  shows "call_ok (Suc f) Neg_Fails_Stack"
proof (rule call_okI)
  fix D s assume ok: "delays_ok D s" and pre: "call_pre D Neg_Fails_Stack s" and wk: "work s + call_need Neg_Fails_Stack \<le> Suc f"
  show "call_result D Neg_Fails_Stack s (run_call (simplify f) Neg_Fails_Stack s)"
  proof (cases "neg_fails_stack s")
    case Nil
    then show ?thesis using ends_refl [OF ok] by (intro call_returns [where s' = s]) (simp_all add: neg_fails_stack_loop_def)
  next
    case (Cons S Ss)
    have fl: "in_simplify_neg_fails s" using pre by simp
    let ?s = "set_stack Ss True s"
    have e: "s\<lparr>neg_fails_stack := Ss\<rparr> = ?s" using fl by (simp add: set_stack_def)
    have dom: "set (neg_fails_stack s) \<subseteq> dom (subgoals s)" using ok world_rest(1) [of D s] by (auto simp: delays_ok_def)
    have ok1: "delays_ok D ?s" by (rule set_stack_ok [OF ok]) (use dom Cons in auto)
    have m1: "models {} D v w ?s" if "models {} D v w s" for v w
      by (rule set_stack_models [OF that]) (use modelsD(4) [OF that] Cons in simp)
    have e1: "call_ends D {} (\<lambda>v w. True) s ?s"
      by (rule endsI) (use ok1 m1 fl in \<open>auto intro: steadyI same_links sound_same\<close>)
    have pre1: "call_pre D (Neg_Fails_Loop S) ?s" using dom Cons by simp
    have wk1: "work s = Suc (work ?s)" using Cons by (simp add: work_def)
    have need1: "work ?s + call_need (Neg_Fails_Loop S) \<le> f" using wk wk1 by simp
    from IH ok1 pre1 need1 show ?thesis
    proof (cases rule: call_okD)
      case 1
      then show ?thesis using Cons e by (intro call_error) (simp add: neg_fails_stack_loop_def)
    next
      case s2: (2 s2)
      have e12: "call_ends D {} (\<lambda>v w. \<not> w S) ?s s2" using s2(2) by simp
      have e2: "call_ends D {} (\<lambda>v w. True) s s2"
      proof (rule ends_trans [OF e1 e12])
        show "\<not> w S" if "models {} D v w s" for v w using modelsD(4) [OF that, of S] Cons by simp
      qed
      have pre2: "call_pre D Neg_Fails_Stack s2" using steadyD(5) [OF endsD(2) [OF e2]] fl by simp
      have need2: "work s2 + call_need Neg_Fails_Stack \<le> f" using s2(3) wk wk1 by simp
      from IH endsD(1) [OF e2] pre2 need2 show ?thesis
      proof (cases rule: call_okD)
        case 1
        then show ?thesis using Cons e s2(1) by (intro call_error) (simp add: neg_fails_stack_loop_def)
      next
        case s3: (2 s3)
        have "call_ends D {} (\<lambda>v w. True) s s3" by (rule ends_trans [OF e2]) (use s3(2) in simp_all)
        moreover have "bl_of D s3 (Neg S) = []" using s2(4) s3(2) unfolding call_ends_def fewer_links_def
          by (metis call_post.simps(6) empty_iff set_empty subset_empty empty_set)
        moreover have "set Ss \<subseteq> set (neg_fails_stack s2)" using s2(5) by simp
        then have "\<forall>U \<in> set Ss. bl_of D s3 (Neg U) = []" using s3(4) by auto
        ultimately show ?thesis using Cons e s2(1,3) s3(1,3,4) wk1
          by (intro call_returns [where s' = s3]) (simp_all add: neg_fails_stack_loop_def del: bl_of.simps)
      qed
    qed
  qed
qed

lemma neg_succeeds_ok:
  assumes IH: "\<forall>c. call_ok f c"
  shows "call_ok (Suc f) (Neg_Succeeds S)"
proof (rule call_okI)
  fix D s assume ok: "delays_ok D s" and pre: "call_pre D (Neg_Succeeds S) s" and wk: "work s + call_need (Neg_Succeeds S) \<le> Suc f"
  obtain F where F: "subgoals s S = Some F" using pre by auto
  show "call_result D (Neg_Succeeds S) s (run_call (simplify f) (Neg_Succeeds S) s)"
  proof (cases s rule: enter_cases)
    case 1
    then show ?thesis by (intro call_error) (simp add: simplify_neg_succeeds_def)
  next
    case 2
    let ?s = "s\<lparr>simplification_depth := simplification_depth s + 1\<rparr>"
    let ?g = "\<lambda>F. F\<lparr>sf_needs_answer_completion := False\<rparr>"
    let ?t = "?s\<lparr>subgoals := (subgoals ?s)(S \<mapsto> ?g F)\<rparr>"
    have u: "call_ends D {} (\<lambda>v w. w S) ?s ?t" "work ?t = work ?s" "neg_fails_stack ?t = neg_fails_stack ?s"
      by (rule upd_ends [where g = ?g and S = S and F = F]; use ok F in simp)+
    have e1: "call_ends D {} (\<lambda>v w. w S) s ?t" using u(1) by (simp add: depth_ends)
    have a: "answer_complete_subg S ?s = Inr ?t" using F by (simp add: answer_complete_subg_def upd_subgoal_def)
    have pre1: "call_pre D (Neg_Succeeds_Loop S) ?t" by simp
    have need1: "work ?t + call_need (Neg_Succeeds_Loop S) \<le> f" using wk u(2) by simp
    from IH endsD(1) [OF e1] pre1 need1 show ?thesis
    proof (cases rule: call_okD)
      case 1
      then show ?thesis using 2 a by (intro call_error) (simp add: simplify_neg_succeeds_def)
    next
      case s2: (2 s2)
      have e12: "call_ends D {} (\<lambda>v w. w S) ?t s2" using s2(2) by simp
      have "call_ends D {} (\<lambda>v w. w S) s s2" by (rule ends_trans [OF e1 e12])
      then have "call_ends D {} (\<lambda>v w. w S) s (leave_simplification s2)" by (simp add: leave_simplification_def depth_ends)
      then show ?thesis using 2 a s2(1,3-5) u(2,3)
        by (intro call_returns [where s' = "leave_simplification s2"])
          (simp_all add: simplify_neg_succeeds_def work_def del: bl_of.simps)
    qed
  qed
qed

lemma pos_unsupported_ok:
  assumes IH: "\<forall>c. call_ok f c"
  shows "call_ok (Suc f) (Pos_Unsupported l)"
proof (rule call_okI)
  fix D s assume ok: "delays_ok D s" and pre: "call_pre D (Pos_Unsupported l) s" and wk: "work s + call_need (Pos_Unsupported l) \<le> Suc f"
  have w: "world_ok D s" using ok by (simp add: delays_ok_def)
  have lD: "l \<in> D" using pre by simp
  obtain L a m where L: "leaves s l = Some L" "\<not> tn_valid L" "tn_child L = Asi_Child a m" using w lD by (rule world_deleted)
  show "call_result D (Pos_Unsupported l) s (run_call (simplify f) (Pos_Unsupported l) s)"
  proof (cases s rule: enter_cases)
    case 1
    then show ?thesis using L by (intro call_error) (simp add: simplify_pos_unsupported_def)
  next
    case 2
    let ?s = "s\<lparr>simplification_depth := simplification_depth s + 1\<rparr>"
    have ok1: "delays_ok D ?s" using ok by simp
    have pre1: "call_pre D (Pos_Unsupported_Loop a) ?s" using L lD by auto
    have need1: "work ?s + call_need (Pos_Unsupported_Loop a) \<le> f" using wk by simp
    from IH ok1 pre1 need1 show ?thesis
    proof (cases rule: call_okD)
      case 1
      then show ?thesis using 2 L by (intro call_error) (simp add: simplify_pos_unsupported_def Delay_def)
    next
      case s2: (2 s2)
      have e: "call_ends D {} (\<lambda>v w. True) s s2" using s2(2) by (simp add: depth_ends)
      have "leaves s2 l = Some L" using steadyD(1) [OF endsD(2) [OF e], of l L a m] L lD by simp
      then have "holds_asi D s2 l a m" using L lD by (simp add: holds_asi_def)
      then have "bl_of D s2 (Pos l) = []" using bl_of_holds s2(4) by simp
      then show ?thesis using 2 L e s2(1,3,5)
        by (intro call_returns [where s' = s2]) (simp_all add: simplify_pos_unsupported_def Delay_def del: bl_of.simps)
    qed
  qed
qed

lemma neg_fails_ok:
  assumes IH: "\<forall>c. call_ok f c"
  shows "call_ok (Suc f) (Neg_Fails S)"
proof (rule call_okI)
  fix D s assume ok: "delays_ok D s" and pre: "call_pre D (Neg_Fails S) s" and wk: "work s + call_need (Neg_Fails S) \<le> Suc f"
  obtain F where F: "subgoals s S = Some F" using pre by auto
  show "call_result D (Neg_Fails S) s (run_call (simplify f) (Neg_Fails S) s)"
  proof (cases s rule: enter_cases)
    case 1
    then show ?thesis by (intro call_error) (simp add: simplify_neg_fails_def)
  next
    case 2
    let ?n = "simplification_depth s + 1" let ?Ss = "S # neg_fails_stack s"
    let ?s = "s\<lparr>simplification_depth := ?n\<rparr>" let ?t = "set_stack ?Ss True ?s"
    have dom: "set ?Ss \<subseteq> dom (subgoals ?s)" using F ok world_rest(1) [of D s] by (auto simp: delays_ok_def)
    have okt: "delays_ok D ?t" by (rule set_stack_ok [OF _ dom]) (use ok in simp_all)
    have mt: "models {} D v w ?t" if "models {} D v w s" "\<not> w S" for v w
      by (rule set_stack_models) (use that modelsD(4) [OF that(1)] in auto)
    show ?thesis
    proof (cases "in_simplify_neg_fails s")
      case True
      have e: "push_neg_simpl S ?s = ?t" using True by (simp add: push_neg_simpl_def set_stack_def)
      have "call_ends D {} (\<lambda>v w. \<not> w S) s ?t"
        by (rule endsI) (use okt mt True in \<open>auto intro: steadyI same_links sound_same\<close>)
      then show ?thesis using 2 True e
        by (intro call_returns [where s' = ?t]) (auto simp: simplify_neg_fails_def work_def)
    next
      case False
      let ?u = "?t\<lparr>subgoals := (subgoals ?t)(S \<mapsto> no_answers_now F)\<rparr>"
      have e: "(push_neg_simpl S ?s)\<lparr>in_simplify_neg_fails := True\<rparr> = ?t" by (simp add: push_neg_simpl_def set_stack_def)
      have u: "call_ends D {} (\<lambda>v w. True) ?t ?u" "work ?u = work ?t" "neg_fails_stack ?u = neg_fails_stack ?t"
        by (rule upd_ends [where g = no_answers_now and S = S and F = F]; use okt F in \<open>simp add: no_answers_now_def\<close>)+
      have a: "upd_subgoal S no_answers_now ?t = Inr ?u" using F by (simp add: upd_subgoal_def)
      have wt: "work ?t = Suc (work s)" by (simp add: work_def)
      have ok1: "delays_ok D ?u" by (rule endsD(1) [OF u(1)])
      have pre1: "call_pre D Neg_Fails_Stack ?u" by simp
      have need1: "work ?u + call_need Neg_Fails_Stack \<le> f" using wk u(2) wt by simp
      from IH ok1 pre1 need1 show ?thesis
      proof (cases rule: call_okD)
        case 1
        then show ?thesis using 2 False e a by (intro call_error) (simp add: simplify_neg_fails_def)
      next
        case s3: (2 s3)
        have e3: "call_ends D {} (\<lambda>v w. True) ?u s3" using s3(2) by simp
        have e2: "call_ends D {} (\<lambda>v w. True) ?t s3" by (rule ends_trans [OF u(1) e3])
        let ?r = "set_stack [] False s3"
        have st3: "neg_fails_stack s3 = []" using s3(4) by simp
        have r: "s3\<lparr>in_simplify_neg_fails := False\<rparr> = ?r" using st3 by (simp add: set_stack_def)
        have "call_ends D {} (\<lambda>v w. \<not> w S) s ?r"
        proof (rule endsI)
          show "delays_ok D ?r" by (rule set_stack_ok [OF endsD(1) [OF e2]]) simp_all
          show "fewer_links D s ?r" using endsD(3) [OF e2] by (simp add: fewer_links_def del: bl_of.simps)
          show "steady {} D s ?r" using endsD(2) [OF e2] False unfolding steady_def set_stack_fields by simp
          fix v w assume m: "models {} D v w s" and A: "\<not> w S"
          have m3: "models {} D v w s3" "sound v ?t s3" using endsD(4,5) [OF e2 mt [OF m A]] by blast+
          have "models {} D v w ?r" by (rule set_stack_models [OF m3(1)]) simp
          moreover have "sound v s ?r" using m3(2) unfolding sound_def set_stack_fields by simp
          ultimately show "models {} D v w ?r \<and> sound v s ?r" by blast
        qed
        then have "call_ends D {} (\<lambda>v w. \<not> w S) s (leave_simplification ?r)" by (simp add: leave_simplification_def depth_ends)
        moreover have "bl_of D s3 (Neg S) = []" using s3(4) u(3) by simp
        moreover have "neg_fails_stack s = []" using False ok world_rest(2) [of D s] by (simp add: delays_ok_def)
        ultimately show ?thesis using 2 False e a r s3(1,3) u(2) wt
          by (intro call_returns [where s' = "leave_simplification ?r"]) (simp_all add: simplify_neg_fails_def work_def del: bl_of.simps)
      qed
    qed
  qed
qed

lemma empty_dl_ok:
  assumes IH: "\<forall>c. call_ok f c"
  shows "call_ok (Suc f) (Empty_Dl dl)"
proof (rule call_okI)
  fix D s assume ok: "delays_ok D s" and pre: "call_pre D (Empty_Dl dl) s" and wk: "work s + call_need (Empty_Dl dl) \<le> Suc f"
  obtain l where dl: "dl \<in> set (dls_of s l)" and de: "des_of s dl = []" using pre by auto
  have n: "net_ok {} {} (delay_view D s)" and mm: "memory_ok s" and w: "world_ok D s" using ok by (simp_all add: delays_ok_def)
  have "dls_of s l \<noteq> []" using dl by auto
  then obtain L a where L: "leaves s l = Some L" "tn_valid L" "tn_child L = Asi_Child a False" by (rule dls_of_cases)
  have h: "holds_asi D s l a False" using L by (simp add: holds_asi_def)
  obtain i F where i: "asi_tab s a = Some i" "subgoals s (asi_subgoal i) = Some F" "l \<in> set (ans_leaves F)"
    using world_ex [OF w h] not_deleting [OF ok L(1,2)] by blast
  let ?S = "asi_subgoal i"
  have "asl_of s dl = Some l" using net_okD(1) [OF n, of dl l] dl by simp
  then obtain d where d: "dl_tab s dl = Some d" "dl_asl d = Some l" by (auto simp: asl_of_def split: option.splits)
  have "net_ok {} {} ((delay_view D s)\<lparr>n_dls := dls_of s, n_des := (des_of s)(dl := [])\<rparr>)" using n view_with [where D = D and s = s and dl = dl] de by simp
  then obtain b s1 where s1: "remove_dl_from_dl_list dl a s = Inr (b, s1)" "delays_ok D s1" "kept s s1"
      "dls_of s1 = (dls_of s)(l := remove1 dl (dls_of s l))" "des_of s1 = (des_of s)(dl := [])" "de_tab s1 = de_tab s"
      "pnde_tab s1 = pnde_tab s" "bl_of D s1 = bl_of D s"
    using remove_dl_step [OF mm w _ L dl] by blast
  have l1: "leaves s1 l = Some L" using s1(3) L by (simp add: kept_def)
  obtain i1 where i1: "asi_tab s1 a = Some i1" "asi_subgoal i1 = ?S" using s1(3) i(1) by (rule kept_asi)
  have wk1: "work s1 = work s" "neg_fails_stack s1 = neg_fails_stack s" using s1(3,7) by (simp_all add: work_def kept_def pnde_num_def)
  have pre1: "call_pre D (Pos_Unconditional l) s1" using l1 L by simp
  have need1: "work s1 + call_need (Pos_Unconditional l) \<le> f" using wk wk1 by simp
  have c: "is_conditional_answer L" "Delay L = Some a" using L by (simp_all add: is_conditional_answer_def Delay_def)
  note start = d L(1) c s1(1) i1
  have vl: "v l" if "models {} D v w s" for v w by (rule models_empty_list [OF that dl de])
  from IH s1(2) pre1 need1 show "call_result D (Empty_Dl dl) s (run_call (simplify f) (Empty_Dl dl) s)"
  proof (cases rule: call_okD)
    case 1
    then show ?thesis using start by (intro call_error) (simp add: handle_empty_dl_creation_def)
  next
    case s2: (2 s2)
    have e12: "call_ends D {l} (\<lambda>v w. v l) s1 s2" using s2(2) by simp
    have e2: "call_ends D {} (\<lambda>v w. True) s s2"
    proof (rule endsI [OF endsD(1) [OF e12]])
      show "steady {} D s s2" by (rule steady_trans [OF kept_steady [OF s1(3)] endsD(2) [OF e12]])
      show "fewer_links D s s2" by (rule fewer_links_trans [OF same_links [OF s1(8)] endsD(3) [OF e12]])
      fix v w assume m: "models {} D v w s"
      have m1: "models {l} D v w s1" by (rule models_dropped [OF m s1(3-6) de])
      have "sound v s s1" using kept_models_fields [OF s1(3)] by (blast intro: sound_same)
      then show "models {} D v w s2 \<and> sound v s s2" using endsD(4,5) [OF e12 m1] vl [OF m] sound_trans by blast
    qed
    have l2: "leaves s2 l = Some (L\<lparr>tn_child := No_Child\<rparr>)" using s2(4) l1 by simp
    obtain F2 where F2: "subgoals s2 ?S = Some F2" using steadyD(3) [OF endsD(2) [OF e2]] i(2) by (metis domD domI)
    have "\<exists>s3. early_completion l ?S s2 = Inr s3 \<and> call_ends D {} (\<lambda>v w. \<exists>k \<in> set (ans_leaves F2). v k) s2 s3 \<and> work s3 = work s2 \<and>
        neg_fails_stack s3 = neg_fails_stack s2"
    proof (cases "\<not> sf_completed F2 \<and> most_general_answer (L\<lparr>tn_child := No_Child\<rparr>)")
      case True
      let ?g = "\<lambda>F. F\<lparr>sf_completed := True\<rparr>"
      let ?t = "s2\<lparr>subgoals := (subgoals s2)(?S \<mapsto> ?g F2)\<rparr>"
      have "call_ends D {} (\<lambda>v w. \<exists>k \<in> set (ans_leaves F2). v k) s2 ?t" "work ?t = work s2" "neg_fails_stack ?t = neg_fails_stack s2"
        by (rule upd_ends [where g = ?g and S = ?S and F = F2]; use endsD(1) [OF e2] F2 in simp)+
      then show ?thesis using True F2 l2 by (intro exI [of _ ?t]) (simp add: early_completion_def upd_subgoal_def)
    next
      case False
      then show ?thesis using F2 l2 ends_refl [OF endsD(1) [OF e2]] by (intro exI [of _ s2]) (auto simp: early_completion_def)
    qed
    then obtain s3 where s3: "early_completion l ?S s2 = Inr s3" "call_ends D {} (\<lambda>v w. \<exists>k \<in> set (ans_leaves F2). v k) s2 s3" "work s3 = work s2"
        "neg_fails_stack s3 = neg_fails_stack s2" by blast
    have e3: "call_ends D {} (\<lambda>v w. True) s s3"
    proof (rule ends_trans [OF e2 s3(2)])
      fix v w assume m: "models {} D v w s"
      have "sound v s s2" using endsD(5) [OF e2 m] by simp
      moreover have "sg_ans s ?S = Some (sf_completed F, ans_leaves F)" "sg_ans s2 ?S = Some (sf_completed F2, ans_leaves F2)"
        using i(2) F2 by (simp_all add: sg_ans_def)
      ultimately have "\<forall>k \<in> set (ans_leaves F). v k \<longrightarrow> k \<in> set (ans_leaves F2)" unfolding sound_def by force
      then show "\<exists>k \<in> set (ans_leaves F2). v k" using i(3) vl [OF m] by blast
    qed
    have pre3: "call_pre D (Neg_Succeeds ?S) s3" using steadyD(3) [OF endsD(2) [OF e3]] i(2) by auto
    have need3: "work s3 + call_need (Neg_Succeeds ?S) \<le> f" using wk wk1 s2(3) s3(3) by simp
    from IH endsD(1) [OF e3] pre3 need3 show ?thesis
    proof (cases rule: call_okD)
      case 1
      then show ?thesis using start s2(1) s3(1) by (intro call_error) (simp add: handle_empty_dl_creation_def)
    next
      case s4: (2 s4)
      have e34: "call_ends D {} (\<lambda>v w. w ?S) s3 s4" using s4(2) by simp
      have "call_ends D {} (\<lambda>v w. True) s s4"
      proof (rule ends_trans [OF e3 e34])
        have "owner s a = Some ?S" using i(1) by (simp add: owner_def)
        then show "w ?S" if "models {} D v w s" for v w using modelsD(2) [OF that L _ vl [OF that]] by simp
      qed
      then show ?thesis using start s2(1,3,5) s3(1,3,4) s4(1,3,5) wk1
        by (intro call_returns [where s' = s4]) (auto simp: handle_empty_dl_creation_def)
    qed
  qed
qed

lemma unsupported_ok:
  assumes IH: "\<forall>c. call_ok f c"
  shows "call_ok (Suc f) (Unsupported l)"
proof (rule call_okI)
  fix D s assume ok: "delays_ok D s" and pre: "call_pre D (Unsupported l) s" and wk: "work s + call_need (Unsupported l) \<le> Suc f"
  obtain L a where L: "leaves s l = Some L" "tn_valid L" "tn_child L = Asi_Child a False" and d0: "dls_of s l = []" using pre by auto
  have w: "world_ok D s" using ok by (simp add: delays_ok_def)
  have h: "holds_asi D s l a False" using L by (simp add: holds_asi_def)
  obtain i F where i: "asi_tab s a = Some i" "subgoals s (asi_subgoal i) = Some F" using world_ex [OF w h] by blast
  let ?S = "asi_subgoal i" let ?D = "insert l D"
  have lD: "l \<notin> D" by (rule not_deleting [OF ok L(1,2)])
  have vl: "\<not> v l" if "models {} D v w s" for v w using modelsD(1) [OF that L] d0 by simp
  obtain s1 where s1: "delete_answer l ?S s = Inr s1" "delays_ok ?D s1" "leaves s1 = (leaves s)(l \<mapsto> L\<lparr>tn_valid := False\<rparr>)"
      "subgoals s1 = (subgoals s)(?S \<mapsto> F\<lparr>ans_leaves := remove1 l (ans_leaves F)\<rparr>)" "asi_tab s1 = asi_tab s"
      "neg_fails_stack s1 = neg_fails_stack s" "in_simplify_neg_fails s1 = in_simplify_neg_fails s"
      "dls_of s1 = dls_of s" "des_of s1 = des_of s" "ref_of s1 = ref_of s" "bl_of ?D s1 = bl_of D s" "pnde_num s1 = pnde_num s"
    using delete_step [OF ok L d0 i(2)] by blast
  have wk1: "work s1 = work s" using s1(6,12) by (simp add: work_def)
  have c: "Delay L = Some a" using L by (simp add: Delay_def)
  note start = L(1) c i(1) s1(1)
  have pre1: "call_pre ?D (Pos_Unsupported l) s1" by simp
  have need1: "work s1 + call_need (Pos_Unsupported l) \<le> f" using wk wk1 by simp
  from IH s1(2) pre1 need1 show "call_result D (Unsupported l) s (run_call (simplify f) (Unsupported l) s)"
  proof (cases rule: call_okD)
    case 1
    then show ?thesis using start by (intro call_error) (simp add: handle_unsupported_answer_subst_def)
  next
    case s2: (2 s2)
    have e12: "call_ends ?D {} (\<lambda>v w. True) s1 s2" using s2(2) by simp
    have "?S \<in> dom (subgoals s2)" using steadyD(3) [OF endsD(2) [OF e12]] s1(4) by simp
    then obtain F2 where F2: "subgoals s2 ?S = Some F2" by blast
    let ?b = "sf_completed F2 \<and> subgoal_fails F2"
    let ?m = "if ?b then simplify f (Neg_Fails ?S) s2 else Some (Inr s2)"
    have "?m = Some (Inl too_many_simplifications) \<or> (\<exists>s3. ?m = Some (Inr s3) \<and> call_ends ?D {} (\<lambda>v w. True) s2 s3 \<and> work s3 \<le> work s2 + 1 \<and>
        set (neg_fails_stack s2) \<subseteq> set (neg_fails_stack s3))"
    proof (cases ?b)
      case True
      have pre2: "call_pre ?D (Neg_Fails ?S) s2" using F2 by auto
      have need2: "work s2 + call_need (Neg_Fails ?S) \<le> f" using wk wk1 s2(3) by simp
      from IH endsD(1) [OF e12] pre2 need2 show ?thesis
      proof (cases rule: call_okD)
        case 1
        then show ?thesis using True by simp
      next
        case s3: (2 s3)
        have e23: "call_ends ?D {} (\<lambda>v w. \<not> w ?S) s2 s3" using s3(2) by simp
        have "sg_ans s2 ?S = Some (True, [])" using F2 True by (simp add: sg_ans_def subgoal_fails_def has_answer_code_def)
        then have "\<not> w ?S" if "models {} ?D v w s2" for v w using modelsD(3) [OF that] by fastforce
        then have "call_ends ?D {} (\<lambda>v w. True) s2 s3" by (intro ends_trans [OF ends_refl [OF endsD(1) [OF e12]] e23]) blast
        then show ?thesis using s3(1,3,5) True by simp
      qed
    next
      case False
      then show ?thesis using ends_refl [OF endsD(1) [OF e12]] by auto
    qed
    then consider "?m = Some (Inl too_many_simplifications)"
      | s3 where "?m = Some (Inr s3)" "call_ends ?D {} (\<lambda>v w. True) s2 s3" "work s3 \<le> work s2 + 1" "set (neg_fails_stack s2) \<subseteq> set (neg_fails_stack s3)"
      by blast
    then show ?thesis
    proof cases
      case 1
      then show ?thesis using start s2(1) F2 by (intro call_error) (simp add: handle_unsupported_answer_subst_def)
    next
      case s3: (2 s3)
      have e13: "call_ends ?D {} (\<lambda>v w. True) s1 s3" by (rule ends_trans [OF e12 s3(2)]) simp
      have st: "steady {} ?D s1 s3" by (rule endsD(2) [OF e13])
      have l3: "leaves s3 l = Some (L\<lparr>tn_valid := False\<rparr>)" using steadyD(1) [OF st, of l _ a False] s1(3) L by simp
      have "bl_of ?D s3 (Pos l) = []" using endsD(3) [OF s3(2)] s2(4) unfolding fewer_links_def call_post.simps
        by (metis empty_set set_empty subset_empty)
      then have fr: "delays_ok D (free_asi a s3)" "dls_of (free_asi a s3) = dls_of s3" "bl_of D (free_asi a s3) = bl_of ?D s3"
        using free_deleted_step [OF endsD(1) [OF e13] lD l3, of a False] L by simp_all
      let ?r = "free_asi a s3"
      have rf: "leaves ?r = leaves s3" "subgoals ?r = subgoals s3" "asi_tab ?r = (asi_tab s3)(a := None)" "neg_fails_stack ?r = neg_fails_stack s3"
        "in_simplify_neg_fails ?r = in_simplify_neg_fails s3" "des_of ?r = des_of s3" "ref_of ?r = ref_of s3" "pnde_num ?r = pnde_num s3"
        by (simp_all add: free_asi_def des_of_def ref_of_def pnde_num_def fun_eq_iff)
      have "call_ends D {} (\<lambda>v w. True) s ?r"
      proof (rule endsI [OF fr(1)])
        show "fewer_links D s ?r" using endsD(3) [OF e13] by (simp add: fewer_links_def fr(3) s1(11) del: bl_of.simps)
        show "steady {} D s ?r"
        proof (rule steadyI)
          fix k K b m assume k: "leaves s k = Some K" "tn_child K = Asi_Child b m" "k \<in> D \<or> m \<and> tn_valid K"
          have kl: "k \<noteq> l" using k L lD by auto
          have "holds_asi D s k b m" using k by (auto simp: holds_asi_def)
          then have ba: "b \<noteq> a" using world_one [OF w h] kl by blast
          have "leaves s1 k = Some K" "owner s1 b = owner s b" using k kl s1(3,5) by (simp_all add: owner_def)
          then have "leaves s3 k = Some K" "owner s3 b = owner s b" using steadyD(1,2) [OF st _ _ k(2), of k] k(3) by auto
          then show "leaves ?r k = Some K \<and> owner ?r b = owner s b" using ba by (simp add: rf owner_def)
        next
          show "dom (subgoals ?r) = dom (subgoals s)" using steadyD(3) [OF st] s1(4) i(2) by (simp add: rf insert_absorb domI)
          show "dom (leaves ?r) = dom (leaves s)" using steadyD(4) [OF st] s1(3) L(1) by (simp add: rf insert_absorb domI)
          show "in_simplify_neg_fails ?r = in_simplify_neg_fails s" using steadyD(5) [OF st] s1(7) by (simp add: rf)
        qed
        fix v w assume m: "models {} D v w s"
        have m1: "models {} ?D v w s1" "sound v s s1" using models_deleted [OF m L(1,2) vl [OF m] i(2) s1(3-6,8-10)] by blast+
        have m3: "models {} ?D v w s3" "sound v s1 s3" using endsD(4,5) [OF e13 m1(1)] by blast+
        have "sg_ans ?r = sg_ans s3" by (simp add: sg_ans_def rf fun_eq_iff)
        moreover have "models {} D v w ?r"
          by (rule models_fewer [OF m3(1) rf(1) _ rf(4) _ fr(2) rf(6,7)])
            (use calculation in \<open>auto simp: owner_def rf split: if_splits\<close>)
        moreover have "sound v s3 ?r" by (rule sound_same [OF rf(1)]) (rule calculation(1))
        ultimately show "models {} D v w ?r \<and> sound v s ?r" using m1(2) m3(2) sound_trans by blast
      qed
      moreover have "work ?r \<le> work s + 1" using wk1 s2(3) s3(3) rf by (simp add: work_def)
      moreover have "set (neg_fails_stack s) \<subseteq> set (neg_fails_stack ?r)" using s1(6) s2(5) s3(4) rf(4) by auto
      ultimately show ?thesis using start s2(1) F2 s3(1)
        by (intro call_returns [where s' = ?r]) (simp_all add: handle_unsupported_answer_subst_def)
    qed
  qed
qed

section \<open>All calls\<close>

theorem simplify_calls: "\<forall>c. call_ok f c"
proof (induction f)
  case 0
  have "1 \<le> call_need c" for c by (cases c) simp_all
  then show ?case unfolding call_ok_def by (metis add_is_0 le_zero_eq not_one_le_zero)
next
  case (Suc f)
  show ?case
  proof
    fix c show "call_ok (Suc f) c"
      by (cases c) (simp_all only: pos_unconditional_ok [OF Suc] pos_unconditional_loop_ok [OF Suc] empty_dl_ok [OF Suc]
        neg_fails_ok [OF Suc] neg_fails_stack_ok [OF Suc] neg_fails_loop_ok [OF Suc] neg_succeeds_ok [OF Suc]
        neg_succeeds_loop_ok [OF Suc] unsupported_ok [OF Suc] pos_unsupported_ok [OF Suc] pos_unsupported_loop_ok [OF Suc])
  qed
qed

end
