(* ===== verification/Delay_Interning.thy ===== *)
theory Delay_Interning imports Simplification_Calls begin

text \<open>
  A new delay list: its elements are interned, the list is given to its answer, and every element is recorded
  with what it is about. The network is not well-formed in between; the elements and the list that are pending are the sets of
  its invariant.
\<close>

section \<open>An element is recorded\<close>

definition join :: "nat \<Rightarrow> nat \<Rightarrow> target \<Rightarrow> nat \<Rightarrow> network \<Rightarrow> network" where
  "join dl de t p N = N\<lparr>n_des := (n_des N)(dl := n_des N dl @ [de]), n_bl := (n_bl N)(t := p # n_bl N t),
     n_ref := (n_ref N)(de \<mapsto> (t, p)), n_lnk := (n_lnk N)(p \<mapsto> (dl, de)), n_pnd := insert p (n_pnd N)\<rparr>"

lemma join_simps [simp]:
  "n_dls (join dl de t p N) = n_dls N" "n_asl (join dl de t p N) = n_asl N" "n_dld (join dl de t p N) = n_dld N"
  "n_des (join dl de t p N) = (n_des N)(dl := n_des N dl @ [de])" "n_bl (join dl de t p N) = (n_bl N)(t := p # n_bl N t)"
  "n_ref (join dl de t p N) = (n_ref N)(de \<mapsto> (t, p))" "n_lnk (join dl de t p N) = (n_lnk N)(p \<mapsto> (dl, de))"
  "n_ded (join dl de t p N) = n_ded N" "n_pnd (join dl de t p N) = insert p (n_pnd N)"
  by (simp_all add: join_def)

lemma join_ok:
  assumes n: "net_ok Z W N" and dl: "dl \<in> set (n_dls N l)" and r: "n_ref N de = None" and p: "n_lnk N p = None"
  shows "net_ok (Z - {de}) W (join dl de t p N)"
proof -
  let ?N = "join dl de t p N"
  have de: "de \<notin> set (n_des N d)" if d: "d \<in> set (n_dls N k)" for d k
  proof
    assume "de \<in> set (n_des N d)"
    with n d obtain u q where "n_ref N de = Some (u, q)" by (rule net_refE)
    then show False using r by simp
  qed
  have pb: "p \<notin> set (n_bl N u)" for u
  proof
    assume "p \<in> set (n_bl N u)"
    with n obtain k d x where "n_lnk N p = Some (d, x)" by (rule net_lnkE)
    then show False using p by simp
  qed
  have sub: "x \<in> set (n_des N d) \<Longrightarrow> x \<in> set (n_des ?N d)" for x d by auto
  show ?thesis
  proof (rule net_okI)
    fix k d assume d: "d \<in> set (n_dls ?N k)"
    then show "n_asl ?N d = Some k \<and> d \<in> n_dld ?N \<and> distinct (n_des ?N d)"
      using net_okD(1-3) [OF n, of d k] de [of d k] by auto
  next
    fix k show "distinct (n_dls ?N k)" using net_okD(4) [OF n] by simp
  next
    fix k d x assume d: "d \<in> set (n_dls ?N k)" and x: "x \<in> set (n_des ?N d)"
    show "\<exists>u q. n_ref ?N x = Some (u, q) \<and> n_lnk ?N q = Some (d, x) \<and> q \<in> set (n_bl ?N u)"
    proof (cases "x = de")
      case True
      have dk: "d \<in> set (n_dls N k)" using d by simp
      have "d = dl" using x True de [OF dk] by (simp split: if_splits)
      then show ?thesis using True by (intro exI [of _ t] exI [of _ p]) simp
    next
      case False
      have dk: "d \<in> set (n_dls N k)" using d by simp
      have xn: "x \<in> set (n_des N d)" using x False by (simp split: if_splits)
      obtain u q where q: "n_ref N x = Some (u, q)" "n_lnk N q = Some (d, x)" "q \<in> set (n_bl N u)" using n dk xn by (rule net_refE)
      then have "q \<noteq> p" using p by auto
      then show ?thesis using q False by (intro exI [of _ u] exI [of _ q]) auto
    qed
  next
    fix u q assume q: "q \<in> set (n_bl ?N u)"
    show "\<exists>k d x. n_lnk ?N q = Some (d, x) \<and> d \<in> set (n_dls ?N k) \<and> x \<in> set (n_des ?N d) \<and> n_ref ?N x = Some (u, q)"
    proof (cases "q = p")
      case True
      then have "u = t" using q pb [of u] by (simp split: if_splits)
      then show ?thesis using True dl by (intro exI [of _ l] exI [of _ dl] exI [of _ de]) simp
    next
      case False
      then have "q \<in> set (n_bl N u)" using q by (simp split: if_splits)
      with n obtain k d x where x: "n_lnk N q = Some (d, x)" "d \<in> set (n_dls N k)" "x \<in> set (n_des N d)" "n_ref N x = Some (u, q)"
        by (rule net_lnkE)
      have "x \<noteq> de" using x r by auto
      moreover have "x \<in> set (n_des ?N d)" by (rule sub [OF x(3)])
      ultimately show ?thesis using x(1,2,4) False
        by (intro exI [of _ k] exI [of _ d] exI [of _ x]) (simp del: join_simps(4))
    qed
  next
    fix u show "distinct (n_bl ?N u)" using net_okD(5) [OF n] pb by simp
  next
    fix x assume "x \<in> n_ded ?N"
    then have "x \<in> Z \<or> (\<exists>k d. d \<in> set (n_dls N k) \<and> x \<in> set (n_des N d))" using n by (simp add: net_ok_def)
    then show "x \<in> Z - {de} \<or> (\<exists>k d. d \<in> set (n_dls ?N k) \<and> x \<in> set (n_des ?N d))"
    proof
      assume x: "x \<in> Z"
      have "dl \<in> set (n_dls ?N l) \<and> de \<in> set (n_des ?N dl)" using dl by simp
      then show ?thesis using x by blast
    next
      assume "\<exists>k d. d \<in> set (n_dls N k) \<and> x \<in> set (n_des N d)"
      then show ?thesis using sub by (metis join_simps(1))
    qed
  next
    fix d assume "d \<in> n_dld ?N"
    then show "d \<in> W \<or> (\<exists>k. d \<in> set (n_dls ?N k))" using n by (simp add: net_ok_def)
  next
    fix q assume "q \<in> n_pnd ?N"
    then have "q = p \<or> (\<exists>u. q \<in> set (n_bl N u))" using n by (auto simp: net_ok_def)
    then show "\<exists>u. q \<in> set (n_bl ?N u)"
    proof
      assume "q = p"
      then show ?thesis by (intro exI [of _ t]) simp
    next
      assume "\<exists>u. q \<in> set (n_bl N u)"
      then obtain u where "q \<in> set (n_bl N u)" by blast
      then show ?thesis by (intro exI [of _ u]) auto
    qed
  qed
qed

section \<open>Requests for memory\<close>

definition below :: "nat \<Rightarrow> entry_pool \<Rightarrow> bool" where
  "below brk p \<longleftrightarrow> (\<forall>b \<in> set (entry_blocks p). b + block_entries \<le> brk)"

lemma pool_request:
  assumes ok: "pool_ok p" and b: "below brk p" and x: "new_entry brk p = (x, p')"
  shows "x \<notin> pool_taken p" "pool_taken p' = insert x (pool_taken p)" "pool_ok p'" "below (brk + block_entries) p'"
proof -
  have u: "pool_usable brk p" using b by (fastforce simp: pool_usable_def pool_entries_def below_def)
  show "x \<notin> pool_taken p" "pool_taken p' = insert x (pool_taken p)" "pool_ok p'" using new_entry_pool [OF ok u x] by blast+
  show "below (brk + block_entries) p'" using x b unfolding below_def new_entry_def by (fastforce split: list.splits if_splits)
qed

lemma manager_request:
  assumes ok: "sm_ok m" and b: "\<forall>b \<in> set (SM_CurBlock m). b + SM_NewBlockSize m \<le> brk" and brk: "0 < brk"
    and x: "SM_AllocateStruct brk m = (x, m')"
  shows "x \<notin> sm_taken m" "sm_taken m' = insert x (sm_taken m)" "sm_ok m'" "SM_NewBlockSize m' = SM_NewBlockSize m"
    "\<forall>b \<in> set (SM_CurBlock m'). b + SM_NewBlockSize m \<le> brk + SM_NewBlockSize m"
proof -
  have u: "sm_usable brk m" using b brk by (fastforce simp: sm_usable_def block_bytes_def)
  show "x \<notin> sm_taken m" "sm_taken m' = insert x (sm_taken m)" "sm_ok m'" using allocate_struct [OF ok u x] by blast+
  have "SM_NewBlockSize m' = SM_NewBlockSize m \<and> set (SM_CurBlock m') \<subseteq> insert brk (set (SM_CurBlock m))"
    using x by (auto simp: SM_AllocateStruct_def SM_AllocateFree_def SM_AllocateFromBlock_def smAllocateBlock_def SM_NewBlockSize_def
      split: if_splits list.splits)
  then show "SM_NewBlockSize m' = SM_NewBlockSize m"
    "\<forall>b \<in> set (SM_CurBlock m'). b + SM_NewBlockSize m \<le> brk + SM_NewBlockSize m" using b by fastforce+
qed

lemma pools_okD:
  assumes "pools_ok s"
  shows "pool_ok (de_pool s)" "pool_taken (de_pool s) = dom (de_tab s)" "below (sys_break s) (de_pool s)"
    "pool_ok (dl_pool s)" "pool_taken (dl_pool s) = dom (dl_tab s)" "below (sys_break s) (dl_pool s)"
    "pool_ok (pnde_pool s)" "pool_taken (pnde_pool s) = dom (pnde_tab s)" "below (sys_break s) (pnde_pool s)"
    "sm_ok (smASI s)" "sm_taken (smASI s) = dom (asi_tab s)" "\<forall>b \<in> set (SM_CurBlock (smASI s)). b + SM_NewBlockSize (smASI s) \<le> sys_break s"
    "0 < sys_break s"
  using assms by (simp_all add: pools_ok_def below_def)

lemma pools_okI:
  assumes "pool_ok (de_pool s)" "pool_taken (de_pool s) = dom (de_tab s)" "below (sys_break s) (de_pool s)"
    "pool_ok (dl_pool s)" "pool_taken (dl_pool s) = dom (dl_tab s)" "below (sys_break s) (dl_pool s)"
    "pool_ok (pnde_pool s)" "pool_taken (pnde_pool s) = dom (pnde_tab s)" "below (sys_break s) (pnde_pool s)"
    "sm_ok (smASI s)" "sm_taken (smASI s) = dom (asi_tab s)" "\<forall>b \<in> set (SM_CurBlock (smASI s)). b + SM_NewBlockSize (smASI s) \<le> sys_break s"
    "0 < sys_break s"
  shows "pools_ok s"
  using assms by (simp add: pools_ok_def below_def)

lemma below_mono: "below b p \<Longrightarrow> b \<le> c \<Longrightarrow> below c p"
  by (fastforce simp: below_def)

lemma blocks_mono: "\<forall>b \<in> A. b + (z::nat) \<le> brk \<Longrightarrow> \<forall>b \<in> A. b + z \<le> brk + n"
  by fastforce

text \<open>Every delay trie stays where it is when memory is requested.\<close>

lemma tries_grow:
  assumes "delay_tries_ok s" "de_tab s' = de_tab s" "delay_tries s' = delay_tries s" "sys_break s \<le> sys_break s'"
  shows "delay_tries_ok s'"
  using assms(1,4) unfolding delay_tries_ok_def assms(2,3) by (meson less_le_trans)

text \<open>What a request leaves alone.\<close>

lemma new_pnde_step:
  assumes m: "memory_ok s" and x: "new_pnde q s = (p, s')"
  shows "p \<notin> dom (pnde_tab s)" "pnde_tab s' = (pnde_tab s)(p \<mapsto> q)" "memory_ok s'" "still s s'" "bl_of D s' = bl_of D s"
    "de_tab s' = de_tab s" "dl_tab s' = dl_tab s" "leaves s' = leaves s" "subgoals s' = subgoals s" "asi_tab s' = asi_tab s"
proof -
  have ps: "pools_ok s" and ts: "delay_tries_ok s" using m by (simp_all add: memory_ok_def)
  obtain pl where pl: "new_entry (sys_break s) (pnde_pool s) = (p, pl)"
    and s': "s' = s\<lparr>pnde_tab := (pnde_tab s)(p \<mapsto> q), pnde_pool := pl, sys_break := sys_break s + block_entries\<rparr>"
    using x by (auto simp: new_pnde_def split: prod.splits)
  note k = pools_okD [OF ps] and r = pool_request [OF pools_okD(7,9) [OF ps] pl]
  show "p \<notin> dom (pnde_tab s)" using r(1) k(8) by simp
  have "pools_ok s'" by (rule pools_okI) (use k r blocks_mono [OF k(12)] in \<open>simp_all add: s' below_mono\<close>)
  moreover have "delay_tries_ok s'" by (rule tries_grow [OF ts]) (simp_all add: s')
  ultimately show "memory_ok s'" by (simp add: memory_ok_def)
  show "bl_of D s' = bl_of D s"
  proof
    fix u show "bl_of D s' u = bl_of D s u" by (cases u) (simp_all add: s' asi_field_def split: option.split leaf_child.split)
  qed
qed (use x in \<open>auto simp: new_pnde_def still_def sg_core_def asi_core_def fun_eq_iff split: prod.splits\<close>)

lemma new_dl_step:
  assumes m: "memory_ok s" and x: "new_dl d s = (dl, s')"
  shows "dl \<notin> dom (dl_tab s)" "dl_tab s' = (dl_tab s)(dl \<mapsto> d)" "memory_ok s'" "still s s'" "bl_of D s' = bl_of D s"
    "de_tab s' = de_tab s" "pnde_tab s' = pnde_tab s"
proof -
  have ps: "pools_ok s" and ts: "delay_tries_ok s" using m by (simp_all add: memory_ok_def)
  obtain pl where pl: "new_entry (sys_break s) (dl_pool s) = (dl, pl)"
    and s': "s' = s\<lparr>dl_tab := (dl_tab s)(dl \<mapsto> d), dl_pool := pl, sys_break := sys_break s + block_entries\<rparr>"
    using x by (auto simp: new_dl_def split: prod.splits)
  note k = pools_okD [OF ps] and r = pool_request [OF pools_okD(4,6) [OF ps] pl]
  show "dl \<notin> dom (dl_tab s)" using r(1) k(5) by simp
  have "pools_ok s'" by (rule pools_okI) (use k r blocks_mono [OF k(12)] in \<open>simp_all add: s' below_mono\<close>)
  moreover have "delay_tries_ok s'" by (rule tries_grow [OF ts]) (simp_all add: s')
  ultimately show "memory_ok s'" by (simp add: memory_ok_def)
  show "bl_of D s' = bl_of D s"
  proof
    fix u show "bl_of D s' u = bl_of D s u" by (cases u) (simp_all add: s' asi_field_def split: option.split leaf_child.split)
  qed
qed (use x in \<open>auto simp: new_dl_def still_def sg_core_def asi_core_def fun_eq_iff split: prod.splits\<close>)

lemma new_de_step:
  assumes m: "memory_ok s" and x: "new_de e s = (de, s')" and e: "de_subs_fact e = None"
  shows "de \<notin> dom (de_tab s)" "de_tab s' = (de_tab s)(de \<mapsto> e)" "memory_ok s'" "still s s'" "bl_of D s' = bl_of D s"
    "dl_tab s' = dl_tab s" "pnde_tab s' = pnde_tab s" "delay_tries s' = delay_tries s"
proof -
  have ps: "pools_ok s" and ts: "delay_tries_ok s" using m by (simp_all add: memory_ok_def)
  obtain pl where pl: "new_entry (sys_break s) (de_pool s) = (de, pl)"
    and s': "s' = s\<lparr>de_tab := (de_tab s)(de \<mapsto> e), de_pool := pl, sys_break := sys_break s + block_entries\<rparr>"
    using x by (auto simp: new_de_def split: prod.splits)
  note k = pools_okD [OF ps] and r = pool_request [OF pools_okD(1,3) [OF ps] pl]
  show n: "de \<notin> dom (de_tab s)" using r(1) k(2) by simp
  have "pools_ok s'" by (rule pools_okI) (use k r blocks_mono [OF k(12)] in \<open>simp_all add: s' below_mono\<close>)
  moreover have "delay_tries_ok s'"
  proof (rule tries_okI)
    show "r < sys_break s'" if "r \<in> dom (delay_tries s')" for r
    proof -
      have "r < sys_break s" using ts that unfolding delay_tries_ok_def by (simp add: s')
      then show ?thesis by (simp add: s')
    qed
    show "\<exists>d f. de_tab s' d = Some f \<and> de_subs_fact f = Some r" if "r \<in> dom (delay_tries s')" for r
    proof -
      have "r \<in> dom (delay_tries s)" using that by (simp add: s')
      then obtain d f where "de_tab s d = Some f" "de_subs_fact f = Some r" using ts unfolding delay_tries_ok_def by blast
      moreover from this n have "d \<noteq> de" by auto
      ultimately show ?thesis by (intro exI [of _ d] exI [of _ f]) (simp add: s')
    qed
    fix d f r assume d: "de_tab s' d = Some f" "de_subs_fact f = Some r"
    then have df: "de_tab s d = Some f" using e by (auto simp: s' split: if_splits)
    then show "r \<in> dom (delay_tries s')" using ts d(2) unfolding delay_tries_ok_def by (simp add: s')
    fix d' f' assume "de_tab s' d' = Some f'" "de_subs_fact f' = Some r"
    then have "de_tab s d' = Some f'" "de_subs_fact f' = Some r" using e by (auto simp: s' split: if_splits)
    then show "d' = d" using ts df d(2) unfolding delay_tries_ok_def by blast
  qed
  ultimately show "memory_ok s'" by (simp add: memory_ok_def)
  show "bl_of D s' = bl_of D s"
  proof
    fix u show "bl_of D s' u = bl_of D s u" by (cases u) (simp_all add: s' asi_field_def split: option.split leaf_child.split)
  qed
qed (use x in \<open>auto simp: new_de_def still_def sg_core_def asi_core_def fun_eq_iff split: prod.splits\<close>)

section \<open>Elements\<close>

definition term_known :: "delay_state \<Rightarrow> delay_term \<Rightarrow> bool" where
  "term_known s d \<longleftrightarrow> (case dt_answer d of None \<Rightarrow> dt_subgoal d \<in> dom (subgoals s) | Some l \<Rightarrow> l \<in> dom (leaves s))"

definition simplifiable :: "delay_state \<Rightarrow> delay_term \<Rightarrow> bool" where
  "simplifiable s d \<longleftrightarrow> was_simplifiable (dt_subgoal d) (dt_answer d) s = Inr True"

lemma was_simplifiable: "term_known s d \<Longrightarrow> was_simplifiable (dt_subgoal d) (dt_answer d) s = Inr (simplifiable s d)"
  by (auto simp: term_known_def simplifiable_def was_simplifiable_def split: option.splits)

lemma still_simplifiable:
  assumes t: "still s s'"
  shows "term_known s' d = term_known s d" "simplifiable s' d = simplifiable s d"
proof -
  have lv: "leaves s' = leaves s" using t by (simp add: still_def)
  have dm: "dom (subgoals s') = dom (subgoals s)" by (rule still_dom [OF t])
  show "term_known s' d = term_known s d" by (simp add: term_known_def lv dm split: option.split)
  show "simplifiable s' d = simplifiable s d"
  proof (cases "dt_answer d")
    case None
    show ?thesis
    proof (cases "subgoals s (dt_subgoal d)")
      case n: None
      then have "subgoals s' (dt_subgoal d) = None" using dm by blast
      then show ?thesis using n None by (simp add: simplifiable_def was_simplifiable_def look_def)
    next
      case (Some F)
      obtain F' where F': "subgoals s' (dt_subgoal d) = Some F'" "F'\<lparr>subg_nde_list := []\<rparr> = F\<lparr>subg_nde_list := []\<rparr>"
        using t Some by (rule still_subgoals)
      show ?thesis using Some None F'(1) frame_eqD(1,2) [OF F'(2)]
        by (simp add: simplifiable_def was_simplifiable_def subgoal_fails_def has_answer_code_def)
    qed
  next
    case (Some l)
    then show ?thesis using lv by (simp add: simplifiable_def was_simplifiable_def)
  qed
qed

definition interned_element :: "delay_state \<Rightarrow> nat \<Rightarrow> delay_term \<Rightarrow> bool" where
  "interned_element s x d \<longleftrightarrow> (\<exists>e. de_tab s x = Some e \<and> de_subgoal e = dt_subgoal d \<and> de_ans_subst e = dt_answer d \<and> de_pnde e = None)"

lemma interned_ref: "interned_element s x d \<Longrightarrow> ref_of s x = None"
  by (auto simp: interned_element_def ref_of_def)

lemma net_pending: "net_ok Z W N \<Longrightarrow> net_ok (insert x Z) W (N\<lparr>n_ded := insert x (n_ded N)\<rparr>)"
  by (simp add: net_ok_def)

lemma delay_trie_step:
  assumes m: "memory_ok s" and e: "de_tab s x = Some e" "de_subs_fact e = None"
    and c: "delay_chk_insert ts s = (r, t)" and s': "s' = t\<lparr>de_tab := (de_tab t)(x \<mapsto> e\<lparr>de_subs_fact := Some r\<rparr>)\<rparr>"
  shows "memory_ok s'" "still s s'" "bl_of D s' = bl_of D s" "dl_tab s' = dl_tab s" "pnde_tab s' = pnde_tab s"
    "de_tab s' = (de_tab s)(x \<mapsto> e\<lparr>de_subs_fact := Some r\<rparr>)"
proof -
  have ps: "pools_ok s" and ts: "delay_tries_ok s" using m by (simp_all add: memory_ok_def)
  have rt: "r = sys_break s" "t = s\<lparr>delay_tries := (delay_tries s)(r \<mapsto> ts), sys_break := sys_break s + 1\<rparr>"
    using c by (auto simp: delay_chk_insert_def)
  have old: "q < sys_break s" if "q \<in> dom (delay_tries s)" for q using ts that by (simp add: delay_tries_ok_def)
  have nr: "r \<notin> dom (delay_tries s)" using old rt(1) by blast
  have dm: "dom (de_tab s') = dom (de_tab s)" using e(1) by (auto simp: s' rt(2))
  note k = pools_okD [OF ps]
  have "pools_ok s'" by (rule pools_okI) (use k dm blocks_mono [OF k(12), of 1] in \<open>simp_all add: s' rt(2) below_mono\<close>)
  moreover have "delay_tries_ok s'"
  proof (rule tries_okI)
    show "q < sys_break s'" if "q \<in> dom (delay_tries s')" for q using that old rt by (fastforce simp: s' split: if_splits)
    show "\<exists>d f. de_tab s' d = Some f \<and> de_subs_fact f = Some q" if q: "q \<in> dom (delay_tries s')" for q
    proof (cases "q = r")
      case True
      then show ?thesis by (intro exI [of _ x]) (simp add: s')
    next
      case False
      then have "q \<in> dom (delay_tries s)" using q by (simp add: s' rt(2))
      then obtain d f where d: "de_tab s d = Some f" "de_subs_fact f = Some q" using ts unfolding delay_tries_ok_def by blast
      then have "d \<noteq> x" using e by auto
      then show ?thesis using d by (intro exI [of _ d] exI [of _ f]) (simp add: s' rt(2))
    qed
    fix d f q assume d: "de_tab s' d = Some f" "de_subs_fact f = Some q"
    have dc: "d = x \<and> q = r \<or> de_tab s d = Some f \<and> q \<in> dom (delay_tries s)"
      using d ts unfolding delay_tries_ok_def by (auto simp: s' rt(2) split: if_splits)
    then show "q \<in> dom (delay_tries s')" by (auto simp: s' rt(2))
    fix d' f' assume d': "de_tab s' d' = Some f'" "de_subs_fact f' = Some q"
    have "d' = x \<and> q = r \<or> de_tab s d' = Some f' \<and> q \<in> dom (delay_tries s)"
      using d' ts unfolding delay_tries_ok_def by (auto simp: s' rt(2) split: if_splits)
    then show "d' = d" using dc nr d(2) d'(2) ts unfolding delay_tries_ok_def by blast
  qed
  ultimately show "memory_ok s'" by (simp add: memory_ok_def)
  show "bl_of D s' = bl_of D s"
  proof
    fix u show "bl_of D s' u = bl_of D s u" by (cases u) (simp_all add: s' rt(2) asi_field_def split: option.split leaf_child.split)
  qed
qed (use c in \<open>auto simp: s' delay_chk_insert_def still_def sg_core_def asi_core_def fun_eq_iff\<close>)

definition element_added :: "nat set \<Rightarrow> nat \<Rightarrow> delay_term \<Rightarrow> delay_state \<Rightarrow> delay_state \<Rightarrow> bool" where
  "element_added D x d s s' \<longleftrightarrow> x \<notin> dom (de_tab s) \<and> (\<forall>y. y \<noteq> x \<longrightarrow> de_tab s' y = de_tab s y) \<and> interned_element s' x d \<and>
     memory_ok s' \<and> still s s' \<and> bl_of D s' = bl_of D s \<and> dl_tab s' = dl_tab s \<and> pnde_tab s' = pnde_tab s"

lemma intern_element_step:
  assumes m: "memory_ok s" and k: "term_known s d" and n: "\<not> simplifiable s d"
  shows "\<exists>x s'. intern_delay_element d s = Inr (Some x, s') \<and> element_added D x d s s'"
proof -
  let ?e = "\<lparr>de_subgoal = dt_subgoal d, de_ans_subst = dt_answer d, de_pnde = None, de_subs_fact = None\<rparr>"
  obtain x s1 where x: "new_de ?e s = (x, s1)" by (cases "new_de ?e s")
  note s1 = new_de_step [OF m x]
  have w: "was_simplifiable (dt_subgoal d) (dt_answer d) s = Inr False" using was_simplifiable [OF k] n by simp
  show ?thesis
  proof (cases "dt_fact d = []")
    case True
    then have "intern_delay_element d s = Inr (Some x, s1)" using w x by (simp add: intern_delay_element_def)
    moreover have "element_added D x d s s1" using s1 by (auto simp: element_added_def interned_element_def)
    ultimately show ?thesis by blast
  next
    case False
    obtain r t where c: "delay_chk_insert (dt_fact d) s1 = (r, t)" by (cases "delay_chk_insert (dt_fact d) s1")
    let ?s = "t\<lparr>de_tab := (de_tab t)(x \<mapsto> ?e\<lparr>de_subs_fact := Some r\<rparr>)\<rparr>"
    have m1: "memory_ok s1" and e1: "de_tab s1 x = Some ?e" using s1 by simp_all
    note s2 = delay_trie_step [OF m1 e1 _ c refl]
    have "intern_delay_element d s = Inr (Some x, ?s)" using w x c False by (simp add: intern_delay_element_def)
    moreover have "element_added D x d s ?s"
      unfolding element_added_def interned_element_def
      using s1(1,2) s2(1) still_trans [OF s1(4) s2(2)] s1(5) s2(3) s1(6) s2(4) s1(7) s2(5) s2(6) by simp
    ultimately show ?thesis by blast
  qed
qed

lemma added_view:
  assumes a: "element_added D x d s s'"
  shows "delay_view D s' = (delay_view D s)\<lparr>n_ded := insert x (dom (de_tab s))\<rparr>" "ref_of s' = ref_of s" "dom (de_tab s') = insert x (dom (de_tab s))"
    "pnde_num s' = pnde_num s"
proof -
  have x: "x \<notin> dom (de_tab s)" and o: "\<And>y. y \<noteq> x \<Longrightarrow> de_tab s' y = de_tab s y" and i: "interned_element s' x d" and st: "still s s'"
    and b: "bl_of D s' = bl_of D s" and t: "dl_tab s' = dl_tab s" "pnde_tab s' = pnde_tab s" using a by (simp_all add: element_added_def)
  show r: "ref_of s' = ref_of s"
  proof
    fix y show "ref_of s' y = ref_of s y"
    proof (cases "y = x")
      case True
      then show ?thesis using interned_ref [OF i] x by (auto simp: ref_of_def split: option.split)
    next
      case False
      then show ?thesis by (simp add: ref_of_def o)
    qed
  qed
  have "y \<in> dom (de_tab s') \<longleftrightarrow> y = x \<or> y \<in> dom (de_tab s)" for y
    using i o [of y] by (cases "y = x") (auto simp: interned_element_def dom_def)
  then show d: "dom (de_tab s') = insert x (dom (de_tab s))" by blast
  have l: "des_of s' = des_of s" "asl_of s' = asl_of s" "lnk_of s' = lnk_of s" using t by (simp_all add: des_of_def asl_of_def lnk_of_def fun_eq_iff)
  show "delay_view D s' = (delay_view D s)\<lparr>n_ded := insert x (dom (de_tab s))\<rparr>"
    unfolding delay_view_def using still_dls_of [OF st] l r b d t by simp
  show "pnde_num s' = pnde_num s" using t by (simp add: pnde_num_def)
qed

definition elements_added :: "nat set \<Rightarrow> nat list \<Rightarrow> delay_term list \<Rightarrow> delay_state \<Rightarrow> delay_state \<Rightarrow> bool" where
  "elements_added D xs ds s s' \<longleftrightarrow> distinct xs \<and> set xs \<inter> dom (de_tab s) = {} \<and> (\<forall>y. y \<notin> set xs \<longrightarrow> de_tab s' y = de_tab s y) \<and>
     list_all2 (interned_element s') xs ds \<and> memory_ok s' \<and> still s s' \<and> bl_of D s' = bl_of D s \<and> dl_tab s' = dl_tab s \<and> pnde_tab s' = pnde_tab s \<and>
     (\<forall>Z. net_ok Z {} (delay_view D s) \<longrightarrow> net_ok (set xs \<union> Z) {} (delay_view D s')) \<and> ref_of s' = ref_of s"

lemma elements_added_Cons:
  assumes a: "element_added D x d s t" and b: "elements_added D xs ds t u"
  shows "elements_added D (xs @ [x]) (ds @ [d]) s u"
proof -
  note v = added_view [OF a]
  have o: "de_tab t y = de_tab s y" if "y \<noteq> x" for y using a that by (simp add: element_added_def)
  have x: "x \<notin> dom (de_tab s)" "interned_element t x d" using a by (simp_all add: element_added_def)
  have xs: "set xs \<inter> dom (de_tab t) = {}" "\<And>y. y \<notin> set xs \<Longrightarrow> de_tab u y = de_tab t y" using b by (simp_all add: elements_added_def)
  have nx: "x \<notin> set xs" using xs(1) v(3) by blast
  then have "interned_element u x d" using x(2) xs(2) [of x] by (simp add: interned_element_def)
  moreover have "list_all2 (interned_element u) xs ds" using b by (simp add: elements_added_def)
  ultimately have "list_all2 (interned_element u) (xs @ [x]) (ds @ [d])" by (simp add: list_all2_appendI)
  moreover have "net_ok (set (xs @ [x]) \<union> Z) {} (delay_view D u)" if n: "net_ok Z {} (delay_view D s)" for Z
  proof -
    have "net_ok (insert x Z) {} (delay_view D t)" using net_pending [OF n, of x] v(1) by simp
    then have "net_ok (set xs \<union> insert x Z) {} (delay_view D u)" using b unfolding elements_added_def by blast
    then show ?thesis by simp
  qed
  moreover have "still s u" using a b by (auto simp: element_added_def elements_added_def intro: still_trans)
  moreover have "set xs \<inter> dom (de_tab s) = {}" using xs(1) v(3) by blast
  moreover have "de_tab u y = de_tab s y" if "y \<notin> set (xs @ [x])" for y using that xs(2) o by simp
  ultimately show ?thesis using a b x(1) nx v(2) by (simp add: element_added_def elements_added_def)
qed

lemma intern_elements_step:
  assumes "memory_ok s" "\<forall>d \<in> set ds. term_known s d"
  shows "\<exists>xs s'. intern_delay_elements ds head s = Inr (xs @ head, s') \<and> elements_added D xs (rev (filter (\<lambda>d. \<not> simplifiable s d) ds)) s s'"
  using assms
proof (induction ds arbitrary: s head)
  case Nil
  have "elements_added D [] [] s s" using Nil by (simp add: elements_added_def)
  then show ?case by (intro exI [of _ "[]"] exI [of _ s]) simp
next
  case (Cons d ds)
  have k: "term_known s d" using Cons.prems(2) by simp
  show ?case
  proof (cases "simplifiable s d")
    case True
    then have "intern_delay_element d s = Inr (None, s)" using was_simplifiable [OF k] by (simp add: intern_delay_element_def)
    then show ?thesis using Cons.IH [of s head] Cons.prems True by simp
  next
    case False
    obtain x t where x: "intern_delay_element d s = Inr (Some x, t)" "element_added D x d s t"
      using intern_element_step [OF Cons.prems(1) k False] by blast
    have st: "still s t" and mt: "memory_ok t" using x(2) by (simp_all add: element_added_def)
    note sm = still_simplifiable [OF st]
    have kt: "\<forall>d \<in> set ds. term_known t d" using Cons.prems(2) sm(1) by simp
    obtain xs u where u: "intern_delay_elements ds (x # head) t = Inr (xs @ x # head, u)"
        "elements_added D xs (rev (filter (\<lambda>d. \<not> simplifiable t d) ds)) t u"
      using Cons.IH [OF mt kt] by blast
    have "elements_added D (xs @ [x]) (rev (filter (\<lambda>d. \<not> simplifiable s d) (d # ds))) s u"
      using elements_added_Cons [OF x(2) u(2)] sm(2) False by simp
    then show ?thesis using x(1) u(1) by (intro exI [of _ "xs @ [x]"] exI [of _ u]) simp
  qed
qed

section \<open>The list is given to its answer\<close>

definition give :: "nat \<Rightarrow> nat \<Rightarrow> network \<Rightarrow> network" where
  "give l dl N = N\<lparr>n_dls := (n_dls N)(l := dl # n_dls N l), n_des := (n_des N)(dl := []), n_asl := (n_asl N)(dl \<mapsto> l),
     n_dld := insert dl (n_dld N)\<rparr>"

lemma give_ok:
  assumes n: "net_ok Z {} N" and dl: "dl \<notin> n_dld N"
  shows "net_ok Z {} (give l dl N)"
proof -
  let ?N = "give l dl N"
  have nd: "dl \<notin> set (n_dls N k)" for k using net_okD(2) [OF n] dl by blast
  have f: "n_ref ?N = n_ref N" "n_lnk ?N = n_lnk N" "n_bl ?N = n_bl N" "n_ded ?N = n_ded N" "n_pnd ?N = n_pnd N"
    "n_dld ?N = insert dl (n_dld N)" "n_asl ?N = (n_asl N)(dl \<mapsto> l)" "n_des ?N = (n_des N)(dl := [])"
    "n_dls ?N = (n_dls N)(l := dl # n_dls N l)" by (simp_all add: give_def)
  have up: "d \<in> set (n_dls ?N k)" "d \<noteq> dl" if "d \<in> set (n_dls N k)" for d k using that nd [of k] by (auto simp: f)
  have dn: "d \<in> set (n_dls N k) \<or> d = dl \<and> k = l" if "d \<in> set (n_dls ?N k)" for d k using that by (auto simp: f split: if_splits)
  show ?thesis
  proof (rule net_okI)
    fix k d assume "d \<in> set (n_dls ?N k)"
    then consider "d \<in> set (n_dls N k)" | "d = dl" "k = l" using dn by blast
    then show "n_asl ?N d = Some k \<and> d \<in> n_dld ?N \<and> distinct (n_des ?N d)"
    proof cases
      case 1
      then show ?thesis using net_okD(1-3) [OF n 1] up(2) by (simp add: f)
    qed (simp add: f)
  next
    fix k show "distinct (n_dls ?N k)" using net_okD(4) [OF n] nd by (simp add: f)
  next
    fix k d x assume d: "d \<in> set (n_dls ?N k)" and x: "x \<in> set (n_des ?N d)"
    have ne: "d \<noteq> dl" using x by (auto simp: f)
    then have "d \<in> set (n_dls N k)" "x \<in> set (n_des N d)" using dn [OF d] x by (auto simp: f)
    with n show "\<exists>t p. n_ref ?N x = Some (t, p) \<and> n_lnk ?N p = Some (d, x) \<and> p \<in> set (n_bl ?N t)"
      unfolding f by (meson net_refE)
  next
    fix u q assume "q \<in> set (n_bl ?N u)"
    then have q: "q \<in> set (n_bl N u)" by (simp add: f)
    with n obtain k d x where x: "n_lnk N q = Some (d, x)" "d \<in> set (n_dls N k)" "x \<in> set (n_des N d)" "n_ref N x = Some (u, q)"
      by (rule net_lnkE)
    have "x \<in> set (n_des ?N d)" using x(3) up(2) [OF x(2)] by (simp add: f)
    then show "\<exists>k d x. n_lnk ?N q = Some (d, x) \<and> d \<in> set (n_dls ?N k) \<and> x \<in> set (n_des ?N d) \<and> n_ref ?N x = Some (u, q)"
      using up(1) [OF x(2)] x(1,4) f(1,2) by metis
  next
    fix u show "distinct (n_bl ?N u)" using net_okD(5) [OF n] by (simp add: f)
  next
    fix x assume "x \<in> n_ded ?N"
    then have "x \<in> Z \<or> (\<exists>k d. d \<in> set (n_dls N k) \<and> x \<in> set (n_des N d))" using n by (simp add: net_ok_def f)
    then show "x \<in> Z \<or> (\<exists>k d. d \<in> set (n_dls ?N k) \<and> x \<in> set (n_des ?N d))"
    proof
      assume "\<exists>k d. d \<in> set (n_dls N k) \<and> x \<in> set (n_des N d)"
      then obtain k d where d: "d \<in> set (n_dls N k)" "x \<in> set (n_des N d)" by blast
      have "x \<in> set (n_des ?N d)" using d(2) up(2) [OF d(1)] by (simp add: f)
      then show ?thesis using up(1) [OF d(1)] by blast
    qed simp
  next
    fix d assume "d \<in> n_dld ?N"
    then have "d = dl \<or> (\<exists>k. d \<in> set (n_dls N k))" using n by (auto simp: net_ok_def f)
    then show "d \<in> {} \<or> (\<exists>k. d \<in> set (n_dls ?N k))"
    proof
      assume "d = dl"
      then show ?thesis by (intro disjI2 exI [of _ l]) (simp add: f)
    qed (use up(1) in blast)
  next
    fix q assume "q \<in> n_pnd ?N"
    then show "\<exists>u. q \<in> set (n_bl ?N u)" using n by (simp add: net_ok_def f)
  qed
qed

text \<open>The answer gets an \<open>AS_info\<close> if it has none.\<close>

definition child_ready :: "nat \<Rightarrow> delay_state \<Rightarrow> answer_leaf \<Rightarrow> bool" where
  "child_ready S s L \<longleftrightarrow> Delay L = None \<or> (\<exists>a. tn_child L = Asi_Child a False \<and> owner s a = Some S)"

definition asi_given :: "nat set \<Rightarrow> nat \<Rightarrow> nat \<Rightarrow> answer_leaf \<Rightarrow> nat \<Rightarrow> delay_state \<Rightarrow> delay_state \<Rightarrow> bool" where
  "asi_given D S l L a s s' \<longleftrightarrow> memory_ok s' \<and> world_ok D s' \<and> leaves s' = (leaves s)(l \<mapsto> L\<lparr>tn_child := Asi_Child a False\<rparr>) \<and>
     owner s' = (owner s)(a \<mapsto> S) \<and> dls_of s' = dls_of s \<and> bl_of D s' = bl_of D s \<and> de_tab s' = de_tab s \<and> dl_tab s' = dl_tab s \<and>
     pnde_tab s' = pnde_tab s \<and> subgoals s' = subgoals s \<and> simplification_depth s' = simplification_depth s \<and>
     neg_fails_stack s' = neg_fails_stack s \<and> in_simplify_neg_fails s' = in_simplify_neg_fails s"

lemma asi_given_step:
  assumes m: "memory_ok s" and w: "world_ok D s" and L: "leaves s l = Some L" "tn_valid L"
    and S: "subgoals s S = Some F" "l \<in> set (ans_leaves F)" and c: "child_ready S s L"
  shows "\<exists>a s'. (case Delay L of None \<Rightarrow> create_asi_info l S s | Some a \<Rightarrow> Inr (a, s)) = Inr (a, s') \<and> asi_given D S l L a s s'"
proof (cases "Delay L")
  case (Some b)
  then obtain a where a: "tn_child L = Asi_Child a False" "owner s a = Some S" "Delay L = Some a" using c by (auto simp: child_ready_def Delay_def)
  have "L\<lparr>tn_child := Asi_Child a False\<rparr> = L" using a(1) by simp
  then have "asi_given D S l L a s s" using m w L a(2) by (simp add: asi_given_def fun_upd_idem)
  then show ?thesis using a(3) by simp
next
  case None
  let ?i = "\<lparr>asi_pdes = [], asi_subgoal = S, asi_dl_list = [], asi_scratchpad = 0\<rparr>"
  obtain a mg where al: "SM_AllocateStruct (sys_break s) (smASI s) = (a, mg)" by (cases "SM_AllocateStruct (sys_break s) (smASI s)")
  let ?L = "L\<lparr>tn_child := Asi_Child a False\<rparr>"
  let ?s = "s\<lparr>asi_tab := (asi_tab s)(a \<mapsto> ?i), smASI := mg, sys_break := sys_break s + SM_NewBlockSize (smASI s), leaves := (leaves s)(l \<mapsto> ?L)\<rparr>"
  have ps: "pools_ok s" and ts: "delay_tries_ok s" using m by (simp_all add: memory_ok_def)
  note k = pools_okD [OF ps]
  note r = manager_request [OF k(10,12,13) al]
  have na: "a \<notin> dom (asi_tab s)" using r(1) k(11) by simp
  have "pools_ok ?s" by (rule pools_okI) (use k r in \<open>simp_all add: below_mono\<close>)
  moreover have "delay_tries_ok ?s" by (rule tries_grow [OF ts]) simp_all
  ultimately have m': "memory_ok ?s" by (simp add: memory_ok_def)
  have hd: "b \<in> dom (asi_tab s)" if "holds_asi D s k b m'" for k b m' using world_ex [OF w that] by blast
  have hl: "\<not> holds_asi D s l b m'" for b m' using None L by (auto simp: holds_asi_def Delay_def)
  have ho: "holds_asi D ?s k b m' \<longleftrightarrow> holds_asi D s k b m' \<or> k = l \<and> b = a \<and> \<not> m'" for k b m'
    using L hl [of b m'] by (auto simp: holds_asi_def)
  have f: "asi_field g ?s b = asi_field g s b" if "b \<noteq> a" for g b using that by (simp add: asi_field_def)
  have w': "world_ok D ?s"
  proof (rule world_okI)
    show "\<exists>i F. asi_tab ?s b = Some i \<and> subgoals ?s (asi_subgoal i) = Some F \<and> (k \<notin> D \<longrightarrow> k \<in> set (ans_leaves F))"
      if h: "holds_asi D ?s k b m'" for k b m'
    proof (cases "b = a")
      case True
      then have "k = l" using h ho hd na by blast
      then show ?thesis using True S by simp
    next
      case False
      then have "holds_asi D s k b m'" using h ho by blast
      from world_ex [OF w this] show ?thesis using False by simp
    qed
    show "j = k" if "holds_asi D ?s k b m1" "holds_asi D ?s j b m2" for k j b m1 m2
      using that world_one [OF w] hd na unfolding ho by blast
    show "\<exists>K b m'. leaves ?s k = Some K \<and> \<not> tn_valid K \<and> tn_child K = Asi_Child b m'" if kD: "k \<in> D" for k
    proof -
      obtain K b m' where K: "leaves s k = Some K" "\<not> tn_valid K" "tn_child K = Asi_Child b m'" using w kD by (rule world_deleted)
      then have "k \<noteq> l" using L by auto
      then show ?thesis using K by simp
    qed
  qed (use world_rest [OF w] in simp_all)
  have dls: "dls_of ?s = dls_of s"
  proof
    fix k show "dls_of ?s k = dls_of s k"
    proof (cases "k = l")
      case True
      then show ?thesis using L None by (simp add: dls_of_def asi_field_def Delay_def split: leaf_child.splits)
    next
      case False
      show ?thesis
      proof (cases "\<exists>K b m'. leaves s k = Some K \<and> tn_valid K \<and> tn_child K = Asi_Child b m'")
        case True
        then obtain K b m' where K: "leaves s k = Some K" "tn_valid K" "tn_child K = Asi_Child b m'" by blast
        then have "b \<noteq> a" using hd [of k b m'] na by (auto simp: holds_asi_def)
        then show ?thesis using K False f by (simp add: dls_of_def)
      next
        case none: False
        then show ?thesis using False by (auto simp: dls_of_def split: option.split leaf_child.split)
      qed
    qed
  qed
  have bl: "bl_of D ?s = bl_of D s"
  proof
    fix u show "bl_of D ?s u = bl_of D s u"
    proof (cases u)
      case (Pos k)
      show ?thesis
      proof (cases "\<exists>b m'. holds_asi D s k b m'")
        case True
        then obtain b m' where b: "holds_asi D s k b m'" by blast
        then have b': "holds_asi D ?s k b m'" using ho by blast
        have "b \<noteq> a" using hd [OF b] na by blast
        then show ?thesis using bl_of_holds [OF b] bl_of_holds [OF b'] f Pos by simp
      next
        case False
        then have e: "bl_of D s (Pos k) = []" using bl_of_notheld by blast
        show ?thesis
        proof (cases "k = l")
          case True
          then have "holds_asi D ?s k a False" using ho by blast
          then have "bl_of D ?s (Pos k) = asi_field asi_pdes ?s a" by (rule bl_of_holds)
          then show ?thesis using e Pos by (simp add: asi_field_def del: bl_of.simps)
        next
          case kl: False
          then have "\<not> holds_asi D ?s k b m'" for b m' using ho False by blast
          then show ?thesis using bl_of_notheld e Pos by metis
        qed
      qed
    qed simp
  qed
  have "owner ?s = (owner s)(a \<mapsto> S)" by (simp add: owner_def fun_eq_iff)
  then have "asi_given D S l L a s ?s" using m' w' dls bl unfolding asi_given_def by simp
  moreover have "create_asi_info l S s = Inr (a, ?s)" using L al by (simp add: create_asi_info_def new_asi_def)
  ultimately show ?thesis using None by auto
qed

lemma asl_step:
  assumes m: "memory_ok s" and d: "dl_tab s dl = Some d"
    and s': "s' = s\<lparr>dl_tab := (dl_tab s)(dl \<mapsto> d\<lparr>dl_asl := Some l\<rparr>)\<rparr>"
  shows "memory_ok s'" "still s s'" "bl_of D s' = bl_of D s" "des_of s' = des_of s" "asl_of s' = (asl_of s)(dl \<mapsto> l)"
    "dom (dl_tab s') = dom (dl_tab s)"
proof -
  have dm: "dom (dl_tab s') = dom (dl_tab s)" using d by (auto simp: s')
  then have "pools_ok s'" using m by (simp add: memory_ok_def pools_ok_def s')
  moreover have "delay_tries_ok s' = delay_tries_ok s" by (rule tries_cong) (simp_all add: s')
  ultimately show "memory_ok s'" using m by (simp add: memory_ok_def)
  show "dom (dl_tab s') = dom (dl_tab s)" by (rule dm)
  show "bl_of D s' = bl_of D s"
  proof
    fix u show "bl_of D s' u = bl_of D s u" by (cases u) (simp_all add: s' asi_field_def split: option.split leaf_child.split)
  qed
  show "still s s'" by (simp add: s' still_def sg_core_def asi_core_def fun_eq_iff)
  show "des_of s' = des_of s" "asl_of s' = (asl_of s)(dl \<mapsto> l)" using d by (simp_all add: s' des_of_def asl_of_def fun_eq_iff)
qed

definition list_given :: "nat set \<Rightarrow> nat \<Rightarrow> nat \<Rightarrow> nat \<Rightarrow> answer_leaf \<Rightarrow> nat \<Rightarrow> delay_state \<Rightarrow> delay_state \<Rightarrow> bool" where
  "list_given D S dl l L a s s' \<longleftrightarrow> memory_ok s' \<and> world_ok D s' \<and> leaves s' = (leaves s)(l \<mapsto> L\<lparr>tn_child := Asi_Child a False\<rparr>) \<and>
     owner s' = (owner s)(a \<mapsto> S) \<and> dls_of s' = (dls_of s)(l := dl # dls_of s l) \<and> bl_of D s' = bl_of D s \<and> de_tab s' = de_tab s \<and>
     des_of s' = des_of s \<and> asl_of s' = (asl_of s)(dl \<mapsto> l) \<and> dom (dl_tab s') = dom (dl_tab s) \<and>
     pnde_tab s' = pnde_tab s \<and> sg_core s' = sg_core s \<and> simplification_depth s' = simplification_depth s \<and>
     neg_fails_stack s' = neg_fails_stack s \<and> in_simplify_neg_fails s' = in_simplify_neg_fails s"

lemma mark_conditional_step:
  assumes m: "memory_ok s" and w: "world_ok D s" and L: "leaves s l = Some L" "tn_valid L"
    and S: "subgoals s S = Some F" "l \<in> set (ans_leaves F)" and c: "child_ready S s L" and d: "dl_tab s dl = Some d"
  shows "\<exists>a s'. mark_conditional_answer l S dl s = Inr s' \<and> list_given D S dl l L a s s'"
proof -
  obtain a s1 where s1: "(case Delay L of None \<Rightarrow> create_asi_info l S s | Some a \<Rightarrow> Inr (a, s)) = Inr (a, s1)" "asi_given D S l L a s s1"
    using asi_given_step [OF m w L S c] by blast
  let ?L = "L\<lparr>tn_child := Asi_Child a False\<rparr>"
  have m1: "memory_ok s1" and w1: "world_ok D s1" and l1: "leaves s1 l = Some ?L" using s1(2) by (simp_all add: asi_given_def)
  have lc: "tn_valid ?L" "tn_child ?L = Asi_Child a False" using L by simp_all
  obtain i where i: "asi_tab s1 a = Some i" using s1(2) by (auto simp: asi_given_def owner_def fun_eq_iff dest!: spec [of _ a])
  have li: "asi_dl_list i = dls_of s1 l" using dls_of_valid [OF l1 lc(2,1)] i by (simp add: asi_field_def)
  let ?t = "set_dl_list a (dl # asi_dl_list i) s1"
  note t = set_dl_list_step [OF m1 w1 l1 lc, of "dl # asi_dl_list i"]
  have mt: "memory_ok ?t" and kt: "kept s1 ?t" using t by blast+
  have dt: "dl_tab ?t dl = Some d" using d s1(2) by (simp add: asi_given_def)
  let ?s = "?t\<lparr>dl_tab := (dl_tab ?t)(dl \<mapsto> d\<lparr>dl_asl := Some l\<rparr>)\<rparr>"
  note st = asl_step [OF mt dt, of ?s l, OF refl]
  have k: "kept s1 ?s" by (rule kept_trans [OF kt still_kept [OF st(2)]])
  have dl: "dl_tab s1 = dl_tab s" using s1(2) by (simp add: asi_given_def)
  have "mark_conditional_answer l S dl s = Inr ?s"
    using L(1) s1(1) i d dl by (simp add: mark_conditional_answer_def set_dl_list_def)
  moreover have "list_given D S dl l L a s ?s"
    unfolding list_given_def
  proof (intro conjI)
    show "memory_ok ?s" by (rule st(1))
    show "world_ok D ?s" by (rule kept_world [OF k w1])
    show "owner ?s = (owner s)(a \<mapsto> S)" using kept_owner [OF k] s1(2) by (simp add: asi_given_def)
    show "dls_of ?s = (dls_of s)(l := dl # dls_of s l)" using still_dls_of [OF st(2)] t li s1(2) by (simp add: asi_given_def)
    show "bl_of D ?s = bl_of D s" using st(3) [of D] t s1(2) by (simp add: asi_given_def)
    have dd: "des_of s1 = des_of s" "asl_of s1 = asl_of s" using des_of_cong [OF dl] by blast+
    show "des_of ?s = des_of s" using st(4) dd by simp
    show "asl_of ?s = (asl_of s)(dl \<mapsto> l)" using st(5) dd by simp
    show "dom (dl_tab ?s) = dom (dl_tab s)" using st(6) dl by simp
    have "sg_core s1 = sg_core s" using s1(2) by (simp add: asi_given_def sg_core_def fun_eq_iff)
    then show "sg_core ?s = sg_core s" using k by (simp add: kept_def)
  qed (use k s1(2) in \<open>simp_all add: asi_given_def kept_def\<close>)
  ultimately show ?thesis by blast
qed

section \<open>The elements are recorded\<close>

definition linkable :: "nat set \<Rightarrow> delay_state \<Rightarrow> target \<Rightarrow> bool" where
  "linkable D s t \<longleftrightarrow> (case t of Neg S \<Rightarrow> S \<in> dom (subgoals s) | Pos l \<Rightarrow> \<exists>a. holds_asi D s l a False)"

lemma still_linkable: "still s s' \<Longrightarrow> linkable D s' t = linkable D s t"
  using still_dom [of s s'] still_holds [of s s' D] by (simp add: linkable_def split: target.split)

definition linked :: "nat set \<Rightarrow> target \<Rightarrow> nat \<Rightarrow> delay_state \<Rightarrow> delay_state \<Rightarrow> bool" where
  "linked D t p s s' \<longleftrightarrow> bl_of D s' = (bl_of D s)(t := p # bl_of D s t) \<and> pnde_tab s' = pnde_tab s \<and> de_tab s' = de_tab s \<and>
     dl_tab s' = dl_tab s \<and> memory_ok s' \<and> still s s'"

lemma push_nde_step:
  assumes m: "memory_ok s" and S: "subgoals s S = Some F"
  shows "\<exists>s'. push_nde S p s = Inr s' \<and> linked D (Neg S) p s s'"
proof -
  let ?s = "s\<lparr>subgoals := (subgoals s)(S \<mapsto> F\<lparr>subg_nde_list := p # subg_nde_list F\<rparr>)\<rparr>"
  have "bl_of D ?s = (bl_of D s)(Neg S := p # bl_of D s (Neg S))"
  proof
    fix u show "bl_of D ?s u = ((bl_of D s)(Neg S := p # bl_of D s (Neg S))) u"
      using S by (cases u) (simp_all add: asi_field_def split: option.split leaf_child.split)
  qed
  moreover have "delay_tries_ok ?s = delay_tries_ok s" by (rule tries_cong) simp_all
  then have "memory_ok ?s" using m by (simp add: memory_ok_def pools_ok_def)
  moreover have "still s ?s" using S by (simp add: still_def sg_core_def asi_core_def fun_eq_iff)
  ultimately have "linked D (Neg S) p s ?s" by (simp add: linked_def)
  then show ?thesis using S by (simp add: push_nde_def upd_subgoal_def)
qed

lemma push_pde_step:
  assumes m: "memory_ok s" and w: "world_ok D s" and h: "holds_asi D s l a k"
  shows "\<exists>s'. push_pde l p s = Inr s' \<and> linked D (Pos l) p s s'"
proof -
  obtain L where L: "leaves s l = Some L" "tn_child L = Asi_Child a k" using h by (auto simp: holds_asi_def)
  obtain i where i: "asi_tab s a = Some i" using w h by (rule world_okD)
  let ?s = "s\<lparr>asi_tab := (asi_tab s)(a \<mapsto> i\<lparr>asi_pdes := p # asi_pdes i\<rparr>)\<rparr>"
  have hh: "holds_asi D ?s = holds_asi D s" by (simp add: holds_asi_def fun_eq_iff)
  have "bl_of D ?s = (bl_of D s)(Pos l := p # bl_of D s (Pos l))"
  proof
    fix u show "bl_of D ?s u = ((bl_of D s)(Pos l := p # bl_of D s (Pos l))) u"
    proof (cases u)
      case (Pos j)
      show ?thesis
      proof (cases "\<exists>b m'. holds_asi D s j b m'")
        case True
        then obtain b m' where b: "holds_asi D s j b m'" by blast
        have e: "bl_of D ?s (Pos j) = asi_field asi_pdes ?s b" by (rule bl_of_holds) (use b hh in simp)
        show ?thesis
        proof (cases "j = l")
          case True
          then have "b = a" using b L by (auto simp: holds_asi_def)
          then show ?thesis using e True Pos bl_of_holds [OF b] i by (simp add: asi_field_def del: bl_of.simps)
        next
          case False
          then have "b \<noteq> a" using world_one [OF w h] b by blast
          then show ?thesis using e False Pos bl_of_holds [OF b] by (simp add: asi_field_def del: bl_of.simps)
        qed
      next
        case False
        then have "j \<noteq> l" using h by blast
        moreover have "bl_of D ?s (Pos j) = []" "bl_of D s (Pos j) = []" using False bl_of_notheld hh by metis+
        ultimately show ?thesis using Pos by (simp del: bl_of.simps)
      qed
    qed simp
  qed
  moreover have "delay_tries_ok ?s = delay_tries_ok s" by (rule tries_cong) simp_all
  moreover have "dom (asi_tab ?s) = dom (asi_tab s)" using i by auto
  then have "pools_ok ?s" using m by (simp add: memory_ok_def pools_ok_def)
  ultimately have "linked D (Pos l) p s ?s" using m i by (simp add: linked_def memory_ok_def still_def sg_core_def asi_core_def fun_eq_iff)
  then show ?thesis using L i by (simp add: push_pde_def Delay_def)
qed

text \<open>One element and its back link.\<close>

definition recorded :: "nat set \<Rightarrow> nat \<Rightarrow> delay_element \<Rightarrow> nat \<Rightarrow> delay_state \<Rightarrow> delay_state \<Rightarrow> bool" where
  "recorded D x e p s s' \<longleftrightarrow> memory_ok s' \<and> still s s' \<and> dl_tab s' = dl_tab s \<and> de_tab s' = (de_tab s)(x \<mapsto> e\<lparr>de_pnde := Some p\<rparr>) \<and>
     pnde_num s' = Suc (pnde_num s) \<and> ref_of s' = (ref_of s)(x \<mapsto> (target_of e, p))"

lemma record_one_step:
  assumes m: "memory_ok s" and w: "world_ok D s" and n: "net_ok Z {} ((delay_view D s)\<lparr>n_des := (des_of s)(dl := xs)\<rparr>)"
    and dl: "dl \<in> set (dls_of s l)" and e: "de_tab s x = Some e" "de_pnde e = None" and lk: "linkable D s (target_of e)"
  shows "\<exists>p s1 s2 s'. new_pnde \<lparr>pnde_dl = Some dl, pnde_de = x\<rparr> s = (p, s1) \<and>
    (case de_ans_subst e of None \<Rightarrow> push_nde (de_subgoal e) p s1 | Some l \<Rightarrow> push_pde l p s1) = Inr s2 \<and>
    s' = s2\<lparr>de_tab := (de_tab s2)(x \<mapsto> e\<lparr>de_pnde := Some p\<rparr>)\<rparr> \<and> recorded D x e p s s' \<and>
    net_ok (Z - {x}) {} ((delay_view D s')\<lparr>n_des := (des_of s')(dl := xs @ [x])\<rparr>)"
proof -
  let ?q = "\<lparr>pnde_dl = Some dl, pnde_de = x\<rparr>" and ?t = "target_of e"
  obtain p s1 where p: "new_pnde ?q s = (p, s1)" by (cases "new_pnde ?q s")
  note a = new_pnde_step [OF m p]
  have w1: "world_ok D s1" by (rule still_world [OF a(4) w])
  have lk1: "linkable D s1 ?t" using lk still_linkable [OF a(4)] by simp
  have "\<exists>s2. (case de_ans_subst e of None \<Rightarrow> push_nde (de_subgoal e) p s1 | Some l \<Rightarrow> push_pde l p s1) = Inr s2 \<and> linked D ?t p s1 s2"
  proof (cases "de_ans_subst e")
    case None
    then have "de_subgoal e \<in> dom (subgoals s1)" using lk1 by (simp add: linkable_def target_of_def)
    then show ?thesis using push_nde_step [OF a(3)] None by (auto simp: target_of_def)
  next
    case (Some k)
    then obtain b where "holds_asi D s1 k b False" using lk1 by (auto simp: linkable_def target_of_def)
    then show ?thesis using push_pde_step [OF a(3) w1] Some by (simp add: target_of_def)
  qed
  then obtain s2 where s2: "(case de_ans_subst e of None \<Rightarrow> push_nde (de_subgoal e) p s1 | Some l \<Rightarrow> push_pde l p s1) = Inr s2"
    "linked D ?t p s1 s2" by blast
  let ?e = "e\<lparr>de_pnde := Some p\<rparr>" let ?s = "s2\<lparr>de_tab := (de_tab s2)(x \<mapsto> ?e)\<rparr>"
  have b: "bl_of D s2 = (bl_of D s)(?t := p # bl_of D s ?t)" "pnde_tab s2 = (pnde_tab s)(p \<mapsto> ?q)" "de_tab s2 = de_tab s" "dl_tab s2 = dl_tab s"
    "memory_ok s2" "still s s2"
    using s2(2) a(2,5-7) still_trans [OF a(4)] by (simp_all add: linked_def)
  have dm: "dom (de_tab ?s) = dom (de_tab s2)" using e(1) b(3) by auto
  have "pools_ok ?s" using b(5) dm by (simp add: memory_ok_def pools_ok_def)
  moreover have "delay_tries_ok ?s"
  proof (rule tries_okI)
    have ts: "delay_tries_ok s2" using b(5) by (simp add: memory_ok_def)
    have eq: "\<exists>f'. de_tab s2 d = Some f' \<and> de_subs_fact f' = de_subs_fact f" if "de_tab ?s d = Some f" for d f
      using that e(1) b(3) by (cases "d = x") auto
    show "r < sys_break ?s" if "r \<in> dom (delay_tries ?s)" for r using ts that by (simp add: delay_tries_ok_def)
    show "\<exists>d f. de_tab ?s d = Some f \<and> de_subs_fact f = Some r" if "r \<in> dom (delay_tries ?s)" for r
    proof -
      have "r \<in> dom (delay_tries s2)" using that by simp
      then obtain d f where d: "de_tab s2 d = Some f" "de_subs_fact f = Some r" using ts unfolding delay_tries_ok_def by blast
      then have "\<exists>f'. de_tab ?s d = Some f' \<and> de_subs_fact f' = Some r" using e(1) b(3) by (cases "d = x") auto
      then show ?thesis by blast
    qed
    fix d f r assume d: "de_tab ?s d = Some f" "de_subs_fact f = Some r"
    obtain f' where f': "de_tab s2 d = Some f'" "de_subs_fact f' = Some r" using eq [OF d(1)] d(2) by auto
    then show "r \<in> dom (delay_tries ?s)" using ts unfolding delay_tries_ok_def by simp
    fix d2 f2 assume d2: "de_tab ?s d2 = Some f2" "de_subs_fact f2 = Some r"
    obtain f3 where "de_tab s2 d2 = Some f3" "de_subs_fact f3 = Some r" using eq [OF d2(1)] d2(2) by auto
    then show "d2 = d" using ts f' unfolding delay_tries_ok_def by blast
  qed
  ultimately have ms: "memory_ok ?s" by (simp add: memory_ok_def)
  have "still s2 ?s" by (simp add: still_def sg_core_def asi_core_def fun_eq_iff)
  then have st: "still s ?s" by (rule still_trans [OF b(6)])
  have "target_of ?e = ?t" by (simp add: target_of_def split: option.split)
  then have r: "ref_of ?s = (ref_of s)(x \<mapsto> (?t, p))" by (simp add: ref_of_def b(3) fun_eq_iff)
  have lk': "lnk_of ?s = (lnk_of s)(p \<mapsto> (dl, x))" by (simp add: lnk_of_def b(2) fun_eq_iff)
  have bl: "bl_of D ?s = (bl_of D s)(?t := p # bl_of D s ?t)"
  proof
    fix u show "bl_of D ?s u = ((bl_of D s)(?t := p # bl_of D s ?t)) u"
      unfolding b(1) [symmetric] by (cases u) (simp_all add: asi_field_def split: option.split leaf_child.split)
  qed
  have de: "des_of ?s = des_of s" "asl_of ?s = asl_of s" using b(4) by (simp_all add: des_of_def asl_of_def fun_eq_iff)
  have dd: "dom (de_tab ?s) = dom (de_tab s)" using dm b(3) by simp
  have "(delay_view D ?s)\<lparr>n_des := (des_of ?s)(dl := xs @ [x])\<rparr> = join dl x ?t p ((delay_view D s)\<lparr>n_des := (des_of s)(dl := xs)\<rparr>)"
    unfolding delay_view_def join_def using still_dls_of [OF st] de r lk' bl dd b(2,4) by simp
  moreover have "net_ok (Z - {x}) {} (join dl x ?t p ((delay_view D s)\<lparr>n_des := (des_of s)(dl := xs)\<rparr>))"
    by (rule join_ok [OF n]) (use dl e a(1) in \<open>auto simp: ref_of_def lnk_of_def split: option.split\<close>)
  ultimately have "net_ok (Z - {x}) {} ((delay_view D ?s)\<lparr>n_des := (des_of ?s)(dl := xs @ [x])\<rparr>)" by simp
  moreover have "card (insert p (dom (pnde_tab s))) = Suc (card (dom (pnde_tab s)))"
    using finite_pndes [OF m] a(1) by (rule card_insert_disjoint)
  then have "recorded D x e p s ?s" using ms st b(2,3,4) r by (simp add: recorded_def pnde_num_def)
  ultimately show ?thesis using p s2(1) by blast
qed

lemma record_des_step:
  assumes "memory_ok s" "world_ok D s" "net_ok (set ds) {} ((delay_view D s)\<lparr>n_des := (des_of s)(dl := xs)\<rparr>)" "dl \<in> set (dls_of s l)"
    "distinct ds" "\<forall>x \<in> set ds. \<exists>e. de_tab s x = Some e \<and> de_pnde e = None \<and> linkable D s (target_of e)"
  shows "\<exists>s'. record_des dl ds s = Inr s' \<and> net_ok {} {} ((delay_view D s')\<lparr>n_des := (des_of s')(dl := xs @ ds)\<rparr>) \<and> memory_ok s' \<and> still s s' \<and>
    dl_tab s' = dl_tab s \<and> pnde_num s' = pnde_num s + length ds \<and> (\<forall>y. y \<notin> set ds \<longrightarrow> ref_of s' y = ref_of s y) \<and>
    (\<forall>x \<in> set ds. \<exists>e p. de_tab s x = Some e \<and> ref_of s' x = Some (target_of e, p))"
  using assms
proof (induction ds arbitrary: s xs)
  case Nil
  then show ?case by (intro exI [of _ s]) simp
next
  case (Cons x ds)
  note m = Cons.prems(1) and w = Cons.prems(2)
  obtain e where e: "de_tab s x = Some e" "de_pnde e = None" "linkable D s (target_of e)" using Cons.prems(6) by auto
  obtain p s1 s2 t where t: "new_pnde \<lparr>pnde_dl = Some dl, pnde_de = x\<rparr> s = (p, s1)"
      "(case de_ans_subst e of None \<Rightarrow> push_nde (de_subgoal e) p s1 | Some l \<Rightarrow> push_pde l p s1) = Inr s2"
      "t = s2\<lparr>de_tab := (de_tab s2)(x \<mapsto> e\<lparr>de_pnde := Some p\<rparr>)\<rparr>" "recorded D x e p s t"
      "net_ok (set (x # ds) - {x}) {} ((delay_view D t)\<lparr>n_des := (des_of t)(dl := xs @ [x])\<rparr>)"
    using record_one_step [OF m w Cons.prems(3,4) e] by blast
  have mt: "memory_ok t" and st: "still s t" and dt: "dl_tab t = dl_tab s" and de: "de_tab t = (de_tab s)(x \<mapsto> e\<lparr>de_pnde := Some p\<rparr>)"
    and pn: "pnde_num t = Suc (pnde_num s)" and rf: "ref_of t = (ref_of s)(x \<mapsto> (target_of e, p))" using t(4) by (simp_all add: recorded_def)
  have nx: "x \<notin> set ds" and di: "distinct ds" using Cons.prems(5) by simp_all
  then have "set (x # ds) - {x} = set ds" by auto
  then have nt: "net_ok (set ds) {} ((delay_view D t)\<lparr>n_des := (des_of t)(dl := xs @ [x])\<rparr>)" using t(5) by simp
  have dl: "dl \<in> set (dls_of t l)" using Cons.prems(4) still_dls_of [OF st] by simp
  have el: "\<forall>y \<in> set ds. \<exists>e. de_tab t y = Some e \<and> de_pnde e = None \<and> linkable D t (target_of e)"
    using Cons.prems(6) nx de still_linkable [OF st] by (metis fun_upd_other list.set_intros(2))
  obtain u where u: "record_des dl ds t = Inr u" "net_ok {} {} ((delay_view D u)\<lparr>n_des := (des_of u)(dl := (xs @ [x]) @ ds)\<rparr>)" "memory_ok u"
      "still t u" "dl_tab u = dl_tab t" "pnde_num u = pnde_num t + length ds" "\<forall>y. y \<notin> set ds \<longrightarrow> ref_of u y = ref_of t y"
      "\<forall>y \<in> set ds. \<exists>e p. de_tab t y = Some e \<and> ref_of u y = Some (target_of e, p)"
    using Cons.IH [OF mt still_world [OF st w] nt dl di el] by blast
  have "record_des dl (x # ds) s = Inr u" using e(1) t(1-3) u(1) by simp
  moreover have "\<exists>e p. de_tab s y = Some e \<and> ref_of u y = Some (target_of e, p)" if "y \<in> set (x # ds)" for y
  proof (cases "y = x")
    case True
    then show ?thesis using u(7) nx rf e(1) by simp
  next
    case False
    then have "y \<in> set ds" "de_tab t y = de_tab s y" using that de by simp_all
    then show ?thesis using u(8) by metis
  qed
  moreover have "net_ok {} {} ((delay_view D u)\<lparr>n_des := (des_of u)(dl := xs @ x # ds)\<rparr>)" using u(2) by simp
  moreover have "dl_tab u = dl_tab s" "pnde_num u = pnde_num s + length (x # ds)" using u(5,6) dt pn by simp_all
  moreover have "ref_of u y = ref_of s y" if "y \<notin> set (x # ds)" for y using that u(7) rf by simp
  ultimately show ?case using u(3) still_trans [OF st u(4)] by blast
qed

end
