(* ===== verification/Conditional_Answers.thy ===== *)
theory Conditional_Answers imports Delay_Interning begin

text \<open>
  What is done with every answer that is returned to a table, \<open>do_delay_stuff\<close>: its delay list is entered in the network, or the answer
  becomes unconditional and the others that depend on it are simplified.
\<close>

section \<open>An answer with its delay list\<close>

definition term_target :: "delay_term \<Rightarrow> target" where
  "term_target d = (case dt_answer d of None \<Rightarrow> Neg (dt_subgoal d) | Some l \<Rightarrow> Pos l)"

lemma interned_target: "interned_element s x d \<Longrightarrow> \<exists>e. de_tab s x = Some e \<and> de_pnde e = None \<and> target_of e = term_target d"
  by (cases "dt_answer d") (auto simp: interned_element_def target_of_def term_target_def)

text \<open>The delayed literals that \<open>answer_is_unsupported\<close> lets pass.\<close>

definition supported :: "delay_state \<Rightarrow> delay_term \<Rightarrow> bool" where
  "supported s d \<longleftrightarrow> term_known s d \<and> (\<forall>l. dt_answer d = Some l \<longrightarrow> (\<exists>L. leaves s l = Some L \<and> tn_valid L))"

lemma look_InrD: "look m x = Inr y \<Longrightarrow> m x = Some y"
  by (simp add: look_def split: option.splits)

lemma unsupported_False:
  "answer_is_unsupported ds s = Inr False \<Longrightarrow> d \<in> set ds \<Longrightarrow> supported s d"
proof (induction ds)
  case (Cons c ds)
  obtain b where b: "is_failing_delay_element (dt_subgoal c) (dt_answer c) s = Inr b"
    using Cons.prems(1) by (cases "is_failing_delay_element (dt_subgoal c) (dt_answer c) s") (simp_all add: res_bind_def)
  have nb: "\<not> b" and r: "answer_is_unsupported ds s = Inr False" using Cons.prems(1) b by (simp_all split: if_splits)
  show ?case
  proof (cases "d = c")
    case True
    show ?thesis
    proof (cases "dt_answer c")
      case None
      then obtain F where "look (subgoals s) (dt_subgoal c) = Inr F"
        using b by (cases "look (subgoals s) (dt_subgoal c)") (simp_all add: is_failing_delay_element_def)
      then show ?thesis using None True by (auto simp: supported_def term_known_def dest: look_InrD)
    next
      case (Some l)
      then obtain L where L: "look (leaves s) l = Inr L"
        using b by (cases "look (leaves s) l") (simp_all add: is_failing_delay_element_def)
      then show ?thesis using Some True b nb by (auto simp: supported_def term_known_def is_failing_delay_element_def dest: look_InrD)
    qed
  next
    case False
    then show ?thesis using Cons.IH [OF r] Cons.prems(2) by simp
  qed
qed simp

lemma supported_linkable:
  assumes "supported s d" "\<not> simplifiable s d"
  shows "linkable D s (term_target d)"
proof (cases "dt_answer d")
  case None
  then show ?thesis using assms(1) by (simp add: supported_def term_known_def linkable_def term_target_def)
next
  case (Some l)
  then obtain L where L: "leaves s l = Some L" "tn_valid L" using assms(1) by (auto simp: supported_def)
  have "is_conditional_answer L"
    using assms(2) Some L by (simp add: simplifiable_def was_simplifiable_def is_unconditional_answer_def)
  then have "\<exists>a. holds_asi D s l a False" using L by (auto simp: is_conditional_answer_def holds_asi_def split: leaf_child.splits)
  then show ?thesis using Some by (simp add: linkable_def term_target_def)
qed

lemma list_all2_ball: "list_all2 (\<lambda>x y. P x = Q y) xs ys \<Longrightarrow> (\<forall>x \<in> set xs. P x) = (\<forall>y \<in> set ys. Q y)"
  by (induction xs ys rule: list_all2_induct) simp_all

lemma list_all2_in:
  "list_all2 R xs ys \<Longrightarrow> x \<in> set xs \<Longrightarrow> \<exists>y \<in> set ys. R x y"
  by (induction xs ys rule: list_all2_induct) auto

definition list_added :: "nat set \<Rightarrow> nat \<Rightarrow> nat \<Rightarrow> answer_leaf \<Rightarrow> nat \<Rightarrow> nat \<Rightarrow> delay_term list \<Rightarrow> delay_state \<Rightarrow> delay_state \<Rightarrow> bool" where
  "list_added D S l L a dl ds s s' \<longleftrightarrow> delays_ok D s' \<and> leaves s' = (leaves s)(l \<mapsto> L\<lparr>tn_child := Asi_Child a False\<rparr>) \<and>
     owner s' = (owner s)(a \<mapsto> S) \<and> sg_core s' = sg_core s \<and> simplification_depth s' = simplification_depth s \<and>
     neg_fails_stack s' = neg_fails_stack s \<and> in_simplify_neg_fails s' = in_simplify_neg_fails s \<and>
     dls_of s' = (dls_of s)(l := dl # dls_of s l) \<and>
     (\<forall>k d v w. d \<in> set (dls_of s k) \<longrightarrow> list_true v w s' d = list_true v w s d) \<and>
     (\<forall>v w. list_true v w s' dl = (\<forall>d \<in> set ds. \<not> simplifiable s d \<longrightarrow> literal_true v w (term_target d))) \<and>
     pnde_num s' \<le> pnde_num s + length ds"

lemma all_simplifiable:
  "\<forall>d \<in> set ds. term_known s d \<and> simplifiable s d \<Longrightarrow> intern_delay_elements ds head s = Inr (head, s)"
  by (induction ds arbitrary: head) (simp_all add: intern_delay_element_def was_simplifiable)

lemma intern_list_step:
  assumes ok: "delays_ok D s" and L: "leaves s l = Some L" "tn_valid L" and S: "subgoals s S = Some F" "l \<in> set (ans_leaves F)"
    and c: "child_ready S s L" and ds: "\<forall>d \<in> set ds. supported s d" and nx: "\<exists>d \<in> set ds. \<not> simplifiable s d"
  shows "\<exists>dl a s1 s2 s'. intern_delay_list ds s = Inr (Some dl, s1) \<and> mark_conditional_answer l S dl s1 = Inr s2 \<and>
    record_de_usage dl s2 = Inr s' \<and> list_added D S l L a dl ds s s'"
proof -
  have n: "net_ok {} {} (delay_view D s)" and m: "memory_ok s" and w: "world_ok D s" using ok by (simp_all add: delays_ok_def)
  let ?ds = "rev (filter (\<lambda>d. \<not> simplifiable s d) ds)"
  have kn: "\<forall>d \<in> set ds. term_known s d" using ds by (simp add: supported_def)
  obtain xs s0 where x: "intern_delay_elements ds [] s = Inr (xs, s0)" "elements_added D xs ?ds s s0"
    using intern_elements_step [OF m kn, of "[]" D] by auto
  have d0: "distinct xs" "set xs \<inter> dom (de_tab s) = {}" "\<And>y. y \<notin> set xs \<Longrightarrow> de_tab s0 y = de_tab s y" "list_all2 (interned_element s0) xs ?ds"
    "memory_ok s0" "still s s0" "bl_of D s0 = bl_of D s" "dl_tab s0 = dl_tab s" "pnde_tab s0 = pnde_tab s" "ref_of s0 = ref_of s"
    "net_ok (set xs) {} (delay_view D s0)"
    using x(2) n unfolding elements_added_def by (blast, blast, blast, blast, blast, blast, blast, blast, blast, blast, metis sup_bot_right)
  have len: "length xs = length ?ds" by (rule list_all2_lengthD [OF d0(4)])
  have xn: "xs \<noteq> []" using len nx by (auto simp: filter_empty_conv)
  let ?dl = "\<lparr>dl_de_list = xs, dl_asl = None\<rparr>"
  obtain dl s1 where dl: "new_dl ?dl s0 = (dl, s1)" by (cases "new_dl ?dl s0")
  note e = new_dl_step [OF d0(5) dl]
  have i: "intern_delay_list ds s = Inr (Some dl, s1)" using x(1) xn dl by (simp add: intern_delay_list_def)
  have st1: "still s s1" by (rule still_trans [OF d0(6) e(4)])
  have w1: "world_ok D s1" by (rule still_world [OF st1 w])
  have l1: "leaves s1 l = Some L" using st1 L by (simp add: still_def)
  obtain F1 where F1: "subgoals s1 S = Some F1" "F1\<lparr>subg_nde_list := []\<rparr> = F\<lparr>subg_nde_list := []\<rparr>" using st1 S(1) by (rule still_subgoals)
  have lF: "l \<in> set (ans_leaves F1)" using S(2) frame_eqD(1) [OF F1(2)] by simp
  have c1: "child_ready S s1 L" using c kept_owner [OF still_kept [OF st1]] by (simp add: child_ready_def)
  have dt1: "dl_tab s1 dl = Some ?dl" using e(2) by simp
  obtain a s2 where s2: "mark_conditional_answer l S dl s1 = Inr s2" "list_given D S dl l L a s1 s2"
    using mark_conditional_step [OF e(3) w1 l1 L(2) F1(1) lF c1 dt1] by blast
  let ?L = "L\<lparr>tn_child := Asi_Child a False\<rparr>"
  have g: "memory_ok s2" "world_ok D s2" "leaves s2 = (leaves s1)(l \<mapsto> ?L)" "owner s2 = (owner s1)(a \<mapsto> S)"
    "dls_of s2 = (dls_of s1)(l := dl # dls_of s1 l)" "bl_of D s2 = bl_of D s1" "de_tab s2 = de_tab s1" "des_of s2 = des_of s1"
    "asl_of s2 = (asl_of s1)(dl \<mapsto> l)" "dom (dl_tab s2) = dom (dl_tab s1)" "pnde_tab s2 = pnde_tab s1" "sg_core s2 = sg_core s1"
    using s2(2) by (simp_all add: list_given_def)
  have dls1: "dls_of s1 = dls_of s" by (rule still_dls_of [OF st1])
  have dls2: "dls_of s2 = (dls_of s)(l := dl # dls_of s l)" using g(5) dls1 by simp
  have dlb: "dls_of s0 = dls_of s" by (rule still_dls_of [OF d0(6)])
  have des1: "des_of s1 = (des_of s0)(dl := xs)" using e(2) by (simp add: des_of_def fun_eq_iff)
  have r1: "ref_of s2 = ref_of s0" using e(6) g(7) by (simp add: ref_of_def fun_eq_iff)
  have k1: "lnk_of s2 = lnk_of s0" using e(7) g(11) by (simp add: lnk_of_def fun_eq_iff)
  have a1: "asl_of s2 = (asl_of s0)(dl \<mapsto> l)"
    using e(1,2) g(9) by (auto simp: asl_of_def fun_eq_iff split: option.split)
  have "(delay_view D s2)\<lparr>n_des := (des_of s2)(dl := [])\<rparr> = give l dl (delay_view D s0)"
    unfolding delay_view_def give_def using dls2 dlb des1 g(6-8,10,11) e(2,5-7) r1 k1 a1 by simp
  moreover have "net_ok (set xs) {} (give l dl (delay_view D s0))" by (rule give_ok [OF d0(11)]) (use e(1) in simp)
  ultimately have n2: "net_ok (set xs) {} ((delay_view D s2)\<lparr>n_des := (des_of s2)(dl := [])\<rparr>)" by simp
  have dl2: "dl \<in> set (dls_of s2 l)" by (simp add: dls2)
  have dt2: "de_tab s2 = de_tab s0" using e(6) g(7) by simp
  have sd: "dom (subgoals s2) = dom (subgoals s)" using sg_core_dom [OF g(12)] still_dom [OF st1] by simp
  have lk: "linkable D s2 t" if t: "linkable D s t" for t
  proof (cases t)
    case (Neg U)
    then show ?thesis using t sd by (simp add: linkable_def)
  next
    case (Pos k)
    then obtain b where b: "holds_asi D s k b False" using t by (auto simp: linkable_def)
    show ?thesis
    proof (cases "k = l")
      case True
      then have "holds_asi D s2 k a False" using g(3) L(2) by (simp add: holds_asi_def)
      then show ?thesis using Pos by (auto simp: linkable_def)
    next
      case False
      have "holds_asi D s1 k b False" using b still_holds [OF st1] by simp
      then have "holds_asi D s2 k b False" using g(3) False by (simp add: holds_asi_def)
      then show ?thesis using Pos by (auto simp: linkable_def)
    qed
  qed
  have el: "\<forall>x \<in> set xs. \<exists>e. de_tab s2 x = Some e \<and> de_pnde e = None \<and> linkable D s2 (target_of e)"
  proof
    fix x assume "x \<in> set xs"
    then obtain d where d: "d \<in> set ?ds" "interned_element s0 x d" using list_all2_in [OF d0(4)] by blast
    have "linkable D s2 (term_target d)" using d(1) ds by (auto intro!: lk supported_linkable)
    then show "\<exists>e. de_tab s2 x = Some e \<and> de_pnde e = None \<and> linkable D s2 (target_of e)"
      using interned_target [OF d(2)] dt2 by auto
  qed
  obtain s3 where s3: "record_des dl xs s2 = Inr s3" "net_ok {} {} ((delay_view D s3)\<lparr>n_des := (des_of s3)(dl := [] @ xs)\<rparr>)" "memory_ok s3" "still s2 s3"
      "dl_tab s3 = dl_tab s2" "pnde_num s3 = pnde_num s2 + length xs" "\<forall>y. y \<notin> set xs \<longrightarrow> ref_of s3 y = ref_of s2 y"
      "\<forall>x \<in> set xs. \<exists>e p. de_tab s2 x = Some e \<and> ref_of s3 x = Some (target_of e, p)"
    using record_des_step [OF g(1,2) n2 dl2 d0(1) el] by blast
  have des3: "des_of s3 = (des_of s0)(dl := xs)" using des_of_cong [OF s3(5)] g(8) des1 by simp
  have "delay_view D s3 = (delay_view D s3)\<lparr>n_des := (des_of s3)(dl := [] @ xs)\<rparr>" using des3 by (simp add: delay_view_def)
  then have n3: "net_ok {} {} (delay_view D s3)" using s3(2) by simp
  have ok3: "delays_ok D s3" using n3 s3(3) still_world [OF s3(4) g(2)] by (simp add: delays_ok_def)
  have sc: "sg_core s1 = sg_core s" "sg_core s3 = sg_core s2" using st1 s3(4) by (simp_all add: still_def)
  have o1: "owner s1 = owner s" by (rule kept_owner [OF still_kept [OF st1]])
  have lold: "list_true v w s3 d = list_true v w s d" if d: "d \<in> set (dls_of s k)" for k d v w
  proof -
    have dd: "d \<in> dom (dl_tab s)" using net_okD(2) [OF n, of d k] d by simp
    then have "d \<noteq> dl" using e(1) d0(8) by auto
    then have de: "des_of s3 d = des_of s d" using des3 des_of_cong [OF d0(8)] by simp
    have "ref_of s3 x = ref_of s x" if x: "x \<in> set (des_of s d)" for x
    proof -
      obtain t p where "ref_of s x = Some (t, p)" using net_refE [OF n, unfolded delay_view_simps, OF d x] by blast
      then have "x \<in> dom (de_tab s)" by (auto simp: ref_of_def split: option.splits)
      then have "x \<notin> set xs" using d0(2) by blast
      then show ?thesis using s3(7) r1 d0(10) by simp
    qed
    then show ?thesis using de by (simp add: list_true_def)
  qed
  have lnew: "list_true v w s3 dl = (\<forall>d \<in> set ds. \<not> simplifiable s d \<longrightarrow> literal_true v w (term_target d))" for v w
  proof -
    let ?P = "\<lambda>x. case ref_of s3 x of None \<Rightarrow> False | Some (t, p) \<Rightarrow> literal_true v w t"
    have "list_all2 (\<lambda>x d. ?P x = literal_true v w (term_target d)) xs ?ds"
    proof (rule list.rel_mono_strong [OF d0(4)])
      fix x d assume "x \<in> set xs" "interned_element s0 x d"
      then show "?P x = literal_true v w (term_target d)" using s3(8) interned_target [of s0 x d] dt2 by fastforce
    qed
    then have "(\<forall>x \<in> set xs. ?P x) = (\<forall>d \<in> set ?ds. literal_true v w (term_target d))" by (rule list_all2_ball)
    moreover have "list_true v w s3 dl = (\<forall>x \<in> set xs. ?P x)" by (simp add: list_true_def des3)
    ultimately show ?thesis by auto
  qed
  have "length xs \<le> length ds" using len by simp
  moreover have "pnde_num s2 = pnde_num s" using g(11) e(7) d0(9) by (simp add: pnde_num_def)
  ultimately have pn: "pnde_num s3 \<le> pnde_num s + length ds" using s3(6) by simp
  have "list_added D S l L a dl ds s s3"
    unfolding list_added_def
  proof (intro conjI allI impI)
    show "leaves s3 = (leaves s)(l \<mapsto> ?L)" using s3(4) g(3) st1 by (simp add: still_def)
    show "owner s3 = (owner s)(a \<mapsto> S)" using kept_owner [OF still_kept [OF s3(4)]] g(4) o1 by simp
    show "sg_core s3 = sg_core s" using sc g(12) by simp
    show "dls_of s3 = (dls_of s)(l := dl # dls_of s l)" using still_dls_of [OF s3(4)] dls2 by simp
  qed (use ok3 pn lold lnew s3(4) s2(2) st1 in \<open>simp_all add: still_def list_given_def\<close>)
  moreover obtain d2 where "dl_tab s2 dl = Some d2" using g(10) e(2) by fastforce
  moreover from this have "dl_de_list d2 = xs" using fun_cong [OF trans [OF g(8) des1], of dl] by (simp add: des_of_def)
  ultimately have "record_de_usage dl s2 = Inr s3" using s3(1) by (simp add: record_de_usage_def)
  then show ?thesis using i s2(1) \<open>list_added D S l L a dl ds s s3\<close> by blast
qed

text \<open>A valuation is a model of the state with the new list if it makes the answer true exactly by an old list or the new literals.\<close>

lemma models_list_added:
  assumes la: "list_added D S l L a dl ds s s'" and L: "leaves s l = Some L" "tn_valid L"
    and sm: "\<forall>d \<in> set ds. simplifiable s d \<longrightarrow> literal_true v w (term_target d)"
    and m: "models {l} D v w s" and vS: "v l \<Longrightarrow> w S"
    and vl: "v l = ((\<exists>d \<in> set (dls_of s l). list_true v w s d) \<or> (\<forall>d \<in> set ds. literal_true v w (term_target d)))"
  shows "models {} D v w s' \<and> sound v s s'"
proof -
  let ?L = "L\<lparr>tn_child := Asi_Child a False\<rparr>"
  have f: "delays_ok D s'" "leaves s' = (leaves s)(l \<mapsto> ?L)" "owner s' = (owner s)(a \<mapsto> S)" "sg_core s' = sg_core s"
    "neg_fails_stack s' = neg_fails_stack s" "dls_of s' = (dls_of s)(l := dl # dls_of s l)"
    "\<And>k d. d \<in> set (dls_of s k) \<Longrightarrow> list_true v w s' d = list_true v w s d"
    "list_true v w s' dl = (\<forall>d \<in> set ds. \<not> simplifiable s d \<longrightarrow> literal_true v w (term_target d))"
    using la unfolding list_added_def by blast+
  have w': "world_ok D s'" using f(1) by (simp add: delays_ok_def)
  have hl: "holds_asi D s' l a False" using f(2) L by (simp add: holds_asi_def)
  have sa: "sg_ans s' = sg_ans s" by (rule sg_core_ans [OF f(4)])
  have old: "(\<exists>d \<in> set (dls_of s k). list_true v w s' d) = (\<exists>d \<in> set (dls_of s k). list_true v w s d)" for k using f(7) by blast
  have "models {} D v w s'"
  proof (rule modelsI)
    fix k K b assume k: "leaves s' k = Some K" "tn_valid K" "tn_child K = Asi_Child b False"
    show "v k = (\<exists>d \<in> set (dls_of s' k). list_true v w s' d)"
    proof (cases "k = l")
      case True
      have "list_true v w s' dl = (\<forall>d \<in> set ds. literal_true v w (term_target d))" using f(8) sm by blast
      then show ?thesis using True vl old [of l] f(6) by auto
    next
      case False
      then have "v k = (\<exists>d \<in> set (dls_of s k). list_true v w s d)" using modelsD(1) [OF m] k f(2) by simp
      then show ?thesis using False old [of k] f(6) by simp
    qed
  next
    fix k K b c U assume k: "leaves s' k = Some K" "tn_valid K" "tn_child K = Asi_Child b c" "owner s' b = Some U" "v k"
    show "w U"
    proof (cases "k = l")
      case True
      then have "b = a" using k(1,3) f(2) by auto
      then show ?thesis using k(4,5) f(3) True vS by simp
    next
      case False
      have "holds_asi D s' k b c" using k by (simp add: holds_asi_def)
      then have "b \<noteq> a" using world_one [OF w' hl] False by blast
      then show ?thesis using modelsD(2) [OF m, of k K b c U] k False f(2,3) by simp
    qed
  next
    fix k K b assume k: "leaves s' k = Some K" "tn_valid K" "tn_child K = Asi_Child b True"
    then have "k \<noteq> l" using f(2) by auto
    then show "v k" using modelsD(5) [OF m, of k K b] k f(2) by simp
  next
    fix U ls assume "sg_ans s' U = Some (True, ls)" "w U"
    then show "\<exists>k \<in> set ls. v k" using modelsD(3) [OF m] sa by simp
  next
    fix U assume "U \<in> set (neg_fails_stack s')"
    then show "\<not> w U" using modelsD(4) [OF m] f(5) by simp
  next
    fix k assume "k \<in> D"
    then show "\<not> v k" using modelsD(6) [OF m] by blast
  qed
  moreover have "sound v s s'"
  proof (rule soundI)
    fix k K assume k: "leaves s k = Some K"
    have "is_conditional_answer ?L" by (simp add: is_conditional_answer_def)
    then show "\<exists>K'. leaves s' k = Some K' \<and> (\<not> tn_valid K \<longrightarrow> \<not> tn_valid K') \<and> (tn_valid K \<longrightarrow> \<not> tn_valid K' \<longrightarrow> \<not> v k) \<and>
        (tn_valid K \<longrightarrow> is_conditional_answer K \<longrightarrow> tn_valid K' \<longrightarrow> \<not> is_conditional_answer K' \<longrightarrow> v k)"
      using f(2) L k by (cases "k = l") simp_all
  qed (simp add: sa)
  ultimately show ?thesis by blast
qed

lemma intern_conditional_step:
  assumes ok: "delays_ok D s" and L: "leaves s l = Some L" "tn_valid L" and S: "subgoals s S = Some F" "l \<in> set (ans_leaves F)"
    and c: "child_ready S s L" and ds: "\<forall>d \<in> set ds. supported s d"
  obtains "intern_conditional ds l S sf s = Inr (None, s)"
      "ds = [] \<or> sf \<and> \<not> is_conditional_answer L \<or> (\<forall>d \<in> set ds. simplifiable s d)"
  | dl a s' where "intern_conditional ds l S sf s = Inr (Some dl, s')" "list_added D S l L a dl ds s s'"
      "ds \<noteq> [] \<and> (\<not> sf \<or> is_conditional_answer L)"
proof (cases "ds \<noteq> [] \<and> (\<not> sf \<or> is_conditional_answer L)")
  case False
  then show ?thesis using that(1) L(1) by (auto simp: intern_conditional_def)
next
  case True
  show ?thesis
  proof (cases "\<forall>d \<in> set ds. simplifiable s d")
    case all: True
    then have "intern_delay_list ds s = Inr (None, s)"
      using all_simplifiable [of ds s "[]"] ds by (simp add: intern_delay_list_def supported_def)
    then have "intern_conditional ds l S sf s = Inr (None, s)" using True L(1) by (simp add: intern_conditional_def)
    then show ?thesis using that(1) all by blast
  next
    case False
    then obtain dl a s1 s2 s' where "intern_delay_list ds s = Inr (Some dl, s1)" "mark_conditional_answer l S dl s1 = Inr s2"
        "record_de_usage dl s2 = Inr s'" "list_added D S l L a dl ds s s'"
      using intern_list_step [OF ok L S c ds] by blast
    then show ?thesis using that(2) True L(1) by (simp add: intern_conditional_def)
  qed
qed

section \<open>The whole of it\<close>

definition answer_value :: "nat set \<Rightarrow> (nat \<Rightarrow> bool) \<Rightarrow> (nat \<Rightarrow> bool) \<Rightarrow> delay_term list \<Rightarrow> nat \<Rightarrow> nat \<Rightarrow> bool \<Rightarrow> delay_state \<Rightarrow> bool" where
  "answer_value D v w ds l S sf s \<longleftrightarrow> models {l} D v w s \<and> (v l \<longrightarrow> w S) \<and>
     (\<forall>d \<in> set ds. simplifiable s d \<longrightarrow> literal_true v w (term_target d)) \<and>
     v l = ((\<exists>L. leaves s l = Some L \<and> sf \<and> \<not> is_conditional_answer L) \<or> (\<exists>d \<in> set (dls_of s l). list_true v w s d) \<or>
       (\<forall>d \<in> set ds. literal_true v w (term_target d)))"

text \<open>The answer is in the table of \<open>S\<close>, without an \<open>AS_info\<close> if it is new, and none of the literals fails.\<close>

definition answer_ready :: "delay_term list \<Rightarrow> nat \<Rightarrow> nat \<Rightarrow> bool \<Rightarrow> delay_state \<Rightarrow> bool" where
  "answer_ready ds l S sf s \<longleftrightarrow>
     (\<exists>L F. leaves s l = Some L \<and> tn_valid L \<and> subgoals s S = Some F \<and> l \<in> set (ans_leaves F) \<and> child_ready S s L \<and> (\<not> sf \<longrightarrow> Delay L = None)) \<and>
     answer_is_unsupported ds s = Inr False"

lemma depth_supported [simp]:
  "supported (s\<lparr>simplification_depth := n\<rparr>) d = supported s d" "simplifiable (s\<lparr>simplification_depth := n\<rparr>) d = simplifiable s d"
proof -
  show "simplifiable (s\<lparr>simplification_depth := n\<rparr>) d = simplifiable s d"
    by (simp add: simplifiable_def was_simplifiable_def split: option.split)
  show "supported (s\<lparr>simplification_depth := n\<rparr>) d = supported s d"
    by (simp add: supported_def term_known_def split: option.split)
qed

lemma models_not_conditional:
  assumes m: "models {l} D v w s" and L: "leaves s l = Some L" "\<not> is_conditional_answer L"
  shows "models {} D v w s"
  using L by (intro models_cong [OF m refl refl refl refl] modelsD(1) [OF m]) (auto simp: is_conditional_answer_def)

text \<open>The state before the negative literals about the subgoal are looked at.\<close>

definition answer_entered :: "nat set \<Rightarrow> delay_term list \<Rightarrow> nat \<Rightarrow> nat \<Rightarrow> bool \<Rightarrow> delay_state \<Rightarrow> delay_state \<Rightarrow> bool" where
  "answer_entered D ds l S sf s s' \<longleftrightarrow> delays_ok D s' \<and> in_simplify_neg_fails s' = in_simplify_neg_fails s \<and> work s' \<le> work s + 10 * length ds \<and> S \<in> dom (subgoals s') \<and>
     (\<forall>v w. answer_value D v w ds l S sf s \<longrightarrow> models {} D v w s' \<and> sound v s s') \<and>
     (\<exists>L. leaves s' l = Some L \<and> (is_conditional_answer L \<or> (\<forall>v w. answer_value D v w ds l S sf s \<longrightarrow> w S)))"

lemma enter_answer_step:
  assumes ok: "delays_ok D s" and r: "answer_ready ds l S sf s" and fuel: "work s + 10 * length ds + 2 \<le> f"
  shows "\<exists>dl s1 L1. intern_conditional ds l S sf (s\<lparr>simplification_depth := 0\<rparr>) = Inr (dl, s1) \<and> leaves s1 l = Some L1 \<and>
    (let m = if sf \<and> is_conditional_answer L1 \<and> (ds = [] \<or> dl = None) then simplify f (Pos_Unconditional l) s1 else Some (Inr s1) in
     m = Some (Inl too_many_simplifications) \<or> (\<exists>s2. m = Some (Inr s2) \<and> answer_entered D ds l S sf s s2))"
proof -
  let ?s = "s\<lparr>simplification_depth := 0\<rparr>"
  obtain L F where L: "leaves s l = Some L" "tn_valid L" and S: "subgoals s S = Some F" "l \<in> set (ans_leaves F)" and c: "child_ready S s L"
    and new: "\<not> sf \<longrightarrow> Delay L = None" and u: "answer_is_unsupported ds s = Inr False" using r unfolding answer_ready_def by blast
  have ds: "\<forall>d \<in> set ds. supported s d" using unsupported_False [OF u] by blast
  have ok0: "delays_ok D ?s" using ok by simp
  have c0: "child_ready S ?s L" using c by (simp add: child_ready_def)
  have L0: "leaves ?s l = Some L" and S0: "subgoals ?s S = Some F" and d0: "\<forall>d \<in> set ds. supported ?s d" using L S ds by simp_all
  from ok0 L0 L(2) S0 S(2) c0 d0 show ?thesis
  proof (cases rule: intern_conditional_step [where sf = sf])
    case 1
    have all: "ds = [] \<or> sf \<and> \<not> is_conditional_answer L \<or> (\<forall>d \<in> set ds. simplifiable s d)" using 1(2) by simp
    have vl: "v l \<and> w S \<and> models {l} D v w s" if "answer_value D v w ds l S sf s" for v w
      using that all L(1) unfolding answer_value_def by (elim disjE conjE) auto
    show ?thesis
    proof (cases "sf \<and> is_conditional_answer L")
      case True
      have pre: "call_pre D (Pos_Unconditional l) ?s" using True L by (auto simp: is_conditional_answer_def split: leaf_child.splits)
      have need: "work ?s + call_need (Pos_Unconditional l) \<le> f" using fuel by simp
      from simplify_calls ok0 pre need have "simplify f (Pos_Unconditional l) ?s = Some (Inl too_many_simplifications) \<or>
        (\<exists>s2. simplify f (Pos_Unconditional l) ?s = Some (Inr s2) \<and> answer_entered D ds l S sf s s2)"
      proof (cases rule: call_okD)
        case (2 s2)
        have e: "call_ends D {l} (\<lambda>v w. v l) s s2" using 2(2) by (simp add: depth_ends)
        have "models {} D v w s2 \<and> sound v s s2" if "answer_value D v w ds l S sf s" for v w
          using vl [OF that] endsD(4,5) [OF e] by blast
        moreover have "\<exists>L2. leaves s2 l = Some L2" using steadyD(4) [OF endsD(2) [OF e]] L(1) by (metis domD domI)
        moreover have "work s2 \<le> work s + 10 * length ds" "S \<in> dom (subgoals s2)" "in_simplify_neg_fails s2 = in_simplify_neg_fails s"
          using 2(3) steadyD(3,5) [OF endsD(2) [OF e]] S(1) by auto
        ultimately have "answer_entered D ds l S sf s s2"
          unfolding answer_entered_def using endsD(1) [OF e] vl by blast
        then show ?thesis using 2(1) by blast
      qed blast
      then show ?thesis using 1(1) L0 True by (intro exI [of _ None] exI [of _ ?s] exI [of _ L]) (simp add: Let_def)
    next
      case False
      then have nc: "\<not> is_conditional_answer L" using new by (auto simp: is_conditional_answer_def Delay_def split: leaf_child.splits)
      have "models {} D v w ?s \<and> sound v s ?s" if "answer_value D v w ds l S sf s" for v w
        using models_not_conditional [OF _ L(1) nc] vl [OF that] by (simp add: sound_same)
      then have "answer_entered D ds l S sf s ?s" unfolding answer_entered_def using ok0 S0 L0 vl by auto
      then show ?thesis using 1(1) L0 False by (intro exI [of _ None] exI [of _ ?s] exI [of _ L]) (auto simp: Let_def)
    qed
  next
    case (2 dl a s1)
    have f: "delays_ok D s1" "leaves s1 = (leaves s)(l \<mapsto> L\<lparr>tn_child := Asi_Child a False\<rparr>)" "sg_core s1 = sg_core s"
      "neg_fails_stack s1 = neg_fails_stack s" "pnde_num s1 \<le> pnde_num s + length ds" "in_simplify_neg_fails s1 = in_simplify_neg_fails s"
      using 2(2) by (simp_all add: list_added_def)
    have wk: "work s1 \<le> work s + 10 * length ds" using f(4,5) by (simp add: work_def)
    have "models {} D v w s1 \<and> sound v s s1" if "answer_value D v w ds l S sf s" for v w
    proof -
      have e: "list_true v w ?s d = list_true v w s d" for d by (simp add: list_true_def)
      have "models {} D v w s1 \<and> sound v ?s s1"
        by (rule models_list_added [OF 2(2) L0 L(2)]) (use that 2(3) L(1) in \<open>auto simp: answer_value_def e\<close>)
      then show ?thesis by (simp add: sound_def)
    qed
    moreover have "is_conditional_answer (L\<lparr>tn_child := Asi_Child a False\<rparr>)" by (simp add: is_conditional_answer_def)
    moreover have "S \<in> dom (subgoals s1)" using sg_core_dom [OF f(3)] S(1) by auto
    ultimately have "answer_entered D ds l S sf s s1" unfolding answer_entered_def using f(1,2,6) wk by simp
    then show ?thesis using 2(1,3) f(2) by (intro exI [of _ "Some dl"] exI [of _ s1]) (simp add: Let_def)
  qed
qed

theorem do_delay_stuff_ok:
  assumes ok: "delays_ok D s" and r: "answer_ready ds l S sf s" and fuel: "work s + 10 * length ds + 2 \<le> f"
  shows "do_delay_stuff f ds l S sf s = Some (Inl too_many_simplifications) \<or>
    (\<exists>s'. do_delay_stuff f ds l S sf s = Some (Inr s') \<and> delays_ok D s' \<and> in_simplify_neg_fails s' = in_simplify_neg_fails s \<and>
      (\<forall>v w. answer_value D v w ds l S sf s \<longrightarrow> models {} D v w s' \<and> sound v s s') \<and>
      ((\<exists>L. leaves s' l = Some L \<and> is_conditional_answer L) \<or> bl_of D s' (Neg S) = []))"
proof -
  obtain dl s1 L1 where a: "intern_conditional ds l S sf (s\<lparr>simplification_depth := 0\<rparr>) = Inr (dl, s1)" "leaves s1 l = Some L1"
    and b: "let m = if sf \<and> is_conditional_answer L1 \<and> (ds = [] \<or> dl = None) then simplify f (Pos_Unconditional l) s1 else Some (Inr s1) in
     m = Some (Inl too_many_simplifications) \<or> (\<exists>s2. m = Some (Inr s2) \<and> answer_entered D ds l S sf s s2)"
    using enter_answer_step [OF ok r fuel] by blast
  let ?m = "if sf \<and> is_conditional_answer L1 \<and> (ds = [] \<or> dl = None) then simplify f (Pos_Unconditional l) s1 else Some (Inr s1)"
  consider "?m = Some (Inl too_many_simplifications)" | s2 where "?m = Some (Inr s2)" "answer_entered D ds l S sf s s2"
    using b unfolding Let_def by blast
  then show ?thesis
  proof cases
    case 1
    then show ?thesis using a by (intro disjI1) (simp add: do_delay_stuff_def)
  next
    case s2: (2 s2)
    obtain L2 where L2: "leaves s2 l = Some L2" "is_conditional_answer L2 \<or> (\<forall>v w. answer_value D v w ds l S sf s \<longrightarrow> w S)"
      using s2(2) unfolding answer_entered_def by blast
    obtain F2 where F2: "subgoals s2 S = Some F2" using s2(2) unfolding answer_entered_def by blast
    have e: "delays_ok D s2" "work s2 \<le> work s + 10 * length ds" "in_simplify_neg_fails s2 = in_simplify_neg_fails s"
      "\<And>v w. answer_value D v w ds l S sf s \<Longrightarrow> models {} D v w s2 \<and> sound v s s2" using s2(2) unfolding answer_entered_def by blast+
    have d: "do_delay_stuff f ds l S sf s =
        (if is_unconditional_answer L2 \<and> subg_nde_list F2 \<noteq> [] then simplify f (Neg_Succeeds S) s2 else Some (Inr s2))"
      using a s2(1) L2(1) F2 by (simp add: do_delay_stuff_def)
    show ?thesis
    proof (cases "is_unconditional_answer L2 \<and> subg_nde_list F2 \<noteq> []")
      case False
      then have "(\<exists>L. leaves s2 l = Some L \<and> is_conditional_answer L) \<or> bl_of D s2 (Neg S) = []"
        using L2(1) F2 by (auto simp: is_unconditional_answer_def)
      then show ?thesis using d False e(1,3,4) by (intro disjI2 exI [of _ s2]) (simp del: bl_of.simps)
    next
      case True
      have wS: "w S" if "answer_value D v w ds l S sf s" for v w
        using L2(2) True that by (auto simp: is_unconditional_answer_def)
      have pre: "call_pre D (Neg_Succeeds S) s2" using F2 by auto
      have need: "work s2 + call_need (Neg_Succeeds S) \<le> f" using e(2) fuel by simp
      from simplify_calls e(1) pre need show ?thesis
      proof (cases rule: call_okD)
        case 1
        then show ?thesis using d True by simp
      next
        case (2 s3)
        have e3: "call_ends D {} (\<lambda>v w. w S) s2 s3" using 2(2) by simp
        have "models {} D v w s3 \<and> sound v s s3" if "answer_value D v w ds l S sf s" for v w
          using e(4) [OF that] endsD(4,5) [OF e3] wS [OF that] sound_trans by blast
        moreover have "bl_of D s3 (Neg S) = []" using 2(4) by simp
        ultimately show ?thesis using d True 2(1) endsD(1) [OF e3] steadyD(5) [OF endsD(2) [OF e3]] e(3) by (intro disjI2 exI [of _ s3]) (simp del: bl_of.simps)
      qed
    qed
  qed
qed

end
