(* ===== verification/Simplification_Fuel.thy ===== *)
theory Simplification_Fuel imports Conditional_Answers begin

text \<open>
  More fuel does not change a result. So the fuel only says that a run ends, and the bound of \<open>simplify_calls\<close> makes the functions total.
\<close>

definition outcome_le :: "'a outcome \<Rightarrow> 'a outcome \<Rightarrow> bool" where
  "outcome_le m m' \<longleftrightarrow> m = None \<or> m = m'"

lemma outcome_le_refl [simp, intro]: "outcome_le m m"
  by (simp add: outcome_le_def)

lemma outcome_le_then: "outcome_le m m' \<Longrightarrow> (\<And>x. outcome_le (g x) (g' x)) \<Longrightarrow> outcome_le (then_do m g) (then_do m' g')"
  unfolding outcome_le_def then_do_def by (auto split: option.splits sum.splits)

lemma outcome_le_if: "(b \<Longrightarrow> outcome_le m m') \<Longrightarrow> (\<not> b \<Longrightarrow> outcome_le n n') \<Longrightarrow> outcome_le (if b then m else n) (if b then m' else n')"
  by simp

lemma outcome_le_list:
  "outcome_le m m' \<Longrightarrow> (\<And>x xs. outcome_le (g x xs) (g' x xs)) \<Longrightarrow>
   outcome_le (case ys of [] \<Rightarrow> m | x # xs \<Rightarrow> g x xs) (case ys of [] \<Rightarrow> m' | x # xs \<Rightarrow> g' x xs)"
  by (cases ys) simp_all

lemma outcome_le_option:
  "outcome_le m m' \<Longrightarrow> (\<And>x. outcome_le (g x) (g' x)) \<Longrightarrow>
   outcome_le (case y of None \<Rightarrow> m | Some x \<Rightarrow> g x) (case y of None \<Rightarrow> m' | Some x \<Rightarrow> g' x)"
  by (cases y) simp_all

lemma outcome_le_prod: "(\<And>x y. outcome_le (g x y) (g' x y)) \<Longrightarrow> outcome_le (case p of (x, y) \<Rightarrow> g x y) (case p of (x, y) \<Rightarrow> g' x y)"
  by (cases p) simp

lemma outcome_le_prod_app:
  "(\<And>x y. outcome_le (g x y z) (g' x y z)) \<Longrightarrow> outcome_le ((case p of (x, y) \<Rightarrow> g x y) z) ((case p of (x, y) \<Rightarrow> g' x y) z)"
  by (cases p) simp

lemmas outcome_le_intros = outcome_le_prod_app outcome_le_then outcome_le_if outcome_le_list outcome_le_option outcome_le_prod

lemma run_call_mono:
  assumes r: "\<And>c s. outcome_le (run c s) (run' c s)"
  shows "outcome_le (run_call run c s) (run_call run' c s)"
  by (cases c; simp only: run_call.simps; unfold simplify_pos_unconditional_def pos_unconditional_loop_def handle_empty_dl_creation_def
    simplify_neg_fails_def neg_fails_stack_loop_def neg_fails_loop_def simplify_neg_succeeds_def neg_succeeds_loop_def
    handle_unsupported_answer_subst_def simplify_pos_unsupported_def pos_unsupported_loop_def;
    intro outcome_le_intros outcome_le_refl r)

lemma simplify_Suc: "outcome_le (simplify f c s) (simplify (Suc f) c s)"
proof (induction f arbitrary: c s)
  case 0
  show ?case by (simp add: outcome_le_def)
next
  case (Suc f)
  show ?case unfolding simplify.simps(2) [of "Suc f"] unfolding simplify.simps(2) [of f] by (rule run_call_mono) (rule Suc [unfolded simplify.simps(2)])
qed

lemma simplify_more: "f \<le> g \<Longrightarrow> outcome_le (simplify f c s) (simplify g c s)"
proof (induction g rule: dec_induct)
  case (step g)
  then show ?case using simplify_Suc [of g c s] by (auto simp: outcome_le_def)
qed simp

lemma do_delay_stuff_more: "f \<le> g \<Longrightarrow> outcome_le (do_delay_stuff f ds l S sf s) (do_delay_stuff g ds l S sf s)"
  unfolding do_delay_stuff_def by (intro outcome_le_intros outcome_le_refl simplify_more)

lemma force_answer_true_more: "f \<le> g \<Longrightarrow> outcome_le (force_answer_true f l s) (force_answer_true g l s)"
  unfolding force_answer_true_def by (intro outcome_le_intros outcome_le_refl simplify_more)

end
