(* ===== verification/Delay_Reachability.thy ===== *)
theory Delay_Reachability imports Simplification_Fuel begin

text \<open>
  The states that the engine can reach: it makes subgoals and answers, completes tables, returns answers with their delay lists,
  forces answers to be true and abolishes all tables. The invariant of the delay lists holds in each of them.
\<close>

section \<open>The steps\<close>

definition ASIs_PER_BLOCK :: nat where "ASIs_PER_BLOCK = 256"

text \<open>The state at the start; \<open>z\<close> is the size of an \<open>AS_info\<close>.\<close>

definition no_delays :: "nat \<Rightarrow> nat \<Rightarrow> delay_state" where
  "no_delays z brk = \<lparr>de_tab = Map.empty, dl_tab = Map.empty, pnde_tab = Map.empty, asi_tab = Map.empty, leaves = Map.empty,
     subgoals = Map.empty, delay_tries = Map.empty, de_pool = empty_pool, dl_pool = empty_pool, pnde_pool = empty_pool,
     smASI = SM_InitDecl z ASIs_PER_BLOCK, sys_break = brk, simplification_depth = 0, neg_fails_stack = [], in_simplify_neg_fails = False\<rparr>"

definition new_subgoal :: subgoal_frame where
  "new_subgoal = \<lparr>sf_completed = False, sf_needs_answer_completion = False, subg_answers = NO_ANSWERS, subg_nde_list = [], ans_leaves = []\<rparr>"

definition new_answer_leaf :: "bool \<Rightarrow> answer_leaf" where
  "new_answer_leaf esc = \<lparr>tn_child = No_Child, tn_valid = True, tn_escape = esc\<rparr>"

definition enter_answer :: "nat \<Rightarrow> nat \<Rightarrow> bool \<Rightarrow> subgoal_frame \<Rightarrow> delay_state \<Rightarrow> delay_state" where
  "enter_answer l S esc F s = s\<lparr>leaves := (leaves s)(l \<mapsto> new_answer_leaf esc),
     subgoals := (subgoals s)(S \<mapsto> F\<lparr>ans_leaves := l # ans_leaves F\<rparr>)\<rparr>"

text \<open>All tables are abolished: the tries and the frames go with their structure managers, the rest by \<open>abolish_wfs_space\<close>.\<close>

definition abolish_tables :: "delay_state \<Rightarrow> delay_state" where
  "abolish_tables s = abolish_wfs_space (s\<lparr>leaves := Map.empty, subgoals := Map.empty, delay_tries := Map.empty\<rparr>)"

text \<open>
  A subgoal of a completed component is marked as completed; if it has no answers and is delayed negatively somewhere, it
  fails. This is the body of the loop over the component for a table called by variance.
\<close>

definition neg_simplif_possible :: "subgoal_frame \<Rightarrow> bool" where
  "neg_simplif_possible F \<longleftrightarrow> subgoal_fails F \<and> subg_nde_list F \<noteq> []"

definition complete_subgoal :: "nat \<Rightarrow> nat \<Rightarrow> delay_state \<Rightarrow> delay_state outcome" where
  "complete_subgoal f S s =
    do_res (upd_subgoal S (\<lambda>F. F\<lparr>sf_completed := True\<rparr>) s) (\<lambda>s1.
    do_res (look (subgoals s1) S) (\<lambda>F.
    if neg_simplif_possible F then simplify f (Neg_Fails S) s1 else Some (Inr s1)))"

inductive delay_step :: "delay_state \<Rightarrow> delay_state \<Rightarrow> bool" where
  Subgoal: "S \<notin> dom (subgoals s) \<Longrightarrow> delay_step s (s\<lparr>subgoals := (subgoals s)(S \<mapsto> new_subgoal)\<rparr>)"
| Answer: "l \<notin> dom (leaves s) \<Longrightarrow> subgoals s S = Some F \<Longrightarrow> delay_step s (enter_answer l S esc F s)"
| Complete: "complete_subgoal f S s = Some (Inr s') \<Longrightarrow> delay_step s s'"
| Return: "answer_ready ds l S sf s \<Longrightarrow> do_delay_stuff f ds l S sf s = Some (Inr s') \<Longrightarrow> delay_step s s'"
| Force: "leaves s l = Some L \<Longrightarrow> tn_valid L \<Longrightarrow> force_answer_true f l s = Some (Inr s') \<Longrightarrow> delay_step s s'"
| Abolish: "delay_step s (abolish_tables s)"

inductive delay_reachable :: "delay_state \<Rightarrow> bool" where
  Start: "0 < z \<Longrightarrow> 0 < brk \<Longrightarrow> delay_reachable (no_delays z brk)"
| Step: "delay_reachable s \<Longrightarrow> delay_step s s' \<Longrightarrow> delay_reachable s'"

inductive_cases delay_stepE: "delay_step s s'"

section \<open>The invariant\<close>

definition quiet :: "delay_state \<Rightarrow> bool" where
  "quiet s \<longleftrightarrow> delays_ok {} s \<and> \<not> in_simplify_neg_fails s"

lemma quiet_stack: "quiet s \<Longrightarrow> neg_fails_stack s = []"
  using world_rest(2) [of "{}" s] by (simp add: quiet_def delays_ok_def)

lemma delay_free:
  assumes "de_tab s = Map.empty" "dl_tab s = Map.empty" "pnde_tab s = Map.empty" "asi_tab s = Map.empty" "leaves s = Map.empty"
    "subgoals s = Map.empty" "delay_tries s = Map.empty" "de_pool s = empty_pool" "dl_pool s = empty_pool" "pnde_pool s = empty_pool"
    "sm_ok (smASI s)" "sm_taken (smASI s) = {}" "SM_CurBlock (smASI s) = []" "0 < sys_break s"
    "neg_fails_stack s = []" "\<not> in_simplify_neg_fails s"
  shows "quiet s"
proof -
  have b: "bl_of {} s t = []" for t using assms by (cases t) (simp_all add: asi_field_def)
  have "net_ok {} {} (delay_view {} s)"
    unfolding net_ok_def delay_view_simps by (simp add: b assms dls_of_def)
  moreover have "pools_ok s" using assms by (simp add: pools_ok_def) (simp add: empty_pool_def)
  moreover have "delay_tries_ok s" using assms by (simp add: delay_tries_ok_def)
  moreover have "world_ok {} s" using assms by (simp add: world_ok_def holds_asi_def)
  ultimately show ?thesis using assms(16) by (simp add: quiet_def delays_ok_def memory_ok_def)
qed

lemma quiet_start: "0 < z \<Longrightarrow> 0 < brk \<Longrightarrow> quiet (no_delays z brk)"
  by (rule delay_free) (simp_all add: no_delays_def sm_ok_init ASIs_PER_BLOCK_def, simp add: sm_taken_def sm_records_def SM_InitDecl_def, simp add: SM_InitDecl_def)

lemma quiet_abolish: "quiet s \<Longrightarrow> quiet (abolish_tables s)"
proof (rule delay_free)
  assume q: "quiet s"
  have p: "pools_ok s" using q by (simp add: quiet_def delays_ok_def memory_ok_def)
  note k = pools_okD(10,13) [OF p]
  show "sm_ok (smASI (abolish_tables s))" using k(1) by (simp add: abolish_tables_def abolish_wfs_space_def smFreeBlocks_def sm_ok_def)
  show "sm_taken (smASI (abolish_tables s)) = {}"
    by (simp add: abolish_tables_def abolish_wfs_space_def smFreeBlocks_def sm_taken_def sm_records_def)
  show "0 < sys_break (abolish_tables s)" using k(2) by (simp add: abolish_tables_def abolish_wfs_space_def)
  show "neg_fails_stack (abolish_tables s) = []" "\<not> in_simplify_neg_fails (abolish_tables s)"
    using quiet_stack [OF q] q by (simp_all add: abolish_tables_def abolish_wfs_space_def quiet_def)
qed (simp_all add: abolish_tables_def abolish_wfs_space_def abolish_pool smFreeBlocks_def)

text \<open>Tables that grow.\<close>

lemma quiet_grow:
  assumes q: "quiet s" and t: "t = s\<lparr>leaves := leaves t, subgoals := subgoals t\<rparr>"
    and lv: "\<And>l. leaves t l = leaves s l \<or> leaves s l = None \<and> (\<exists>L. leaves t l = Some L \<and> tn_child L = No_Child)"
    and sg: "\<And>S. case subgoals s S of None \<Rightarrow> subgoals t S = None \<or> subgoals t S = Some new_subgoal
       | Some F \<Rightarrow> \<exists>F'. subgoals t S = Some F' \<and> subg_nde_list F' = subg_nde_list F \<and> set (ans_leaves F) \<subseteq> set (ans_leaves F')"
  shows "quiet t"
proof -
  have ok: "net_ok {} {} (delay_view {} s)" "memory_ok s" "world_ok {} s" "\<not> in_simplify_neg_fails s" using q by (simp_all add: quiet_def delays_ok_def)
  have tabs: "de_tab t = de_tab s" "dl_tab t = dl_tab s" "pnde_tab t = pnde_tab s" "asi_tab t = asi_tab s" "delay_tries t = delay_tries s"
    "de_pool t = de_pool s" "dl_pool t = dl_pool s" "pnde_pool t = pnde_pool s" "smASI t = smASI s" "sys_break t = sys_break s"
    "neg_fails_stack t = neg_fails_stack s" "in_simplify_neg_fails t = in_simplify_neg_fails s" by (subst t; simp)+
  have f: "asi_field g t = asi_field g s" for g by (simp add: asi_field_def tabs fun_eq_iff)
  have h: "holds_asi {} t l a m = holds_asi {} s l a m" for l a m using lv [of l] by (cases "leaves t l = leaves s l") (auto simp: holds_asi_def)
  have d: "dls_of t = dls_of s"
  proof
    fix l show "dls_of t l = dls_of s l" using lv [of l] f by (auto simp: dls_of_def split: option.split leaf_child.split)
  qed
  have b: "bl_of {} t = bl_of {} s"
  proof
    fix u show "bl_of {} t u = bl_of {} s u"
    proof (cases u)
      case (Neg S)
      then show ?thesis using sg [of S] by (auto simp: new_subgoal_def split: option.splits)
    next
      case (Pos l)
      then show ?thesis using lv [of l] f by (auto split: option.split leaf_child.split)
    qed
  qed
  have "ref_of t = ref_of s" "lnk_of t = lnk_of s" "asl_of t = asl_of s" "des_of t = des_of s"
    by (simp_all add: ref_of_def lnk_of_def asl_of_def des_of_def tabs fun_eq_iff)
  then have "delay_view {} t = delay_view {} s" by (simp add: delay_view_def d b tabs)
  moreover have "delay_tries_ok t = delay_tries_ok s" by (rule tries_cong) (simp_all add: tabs)
  then have "memory_ok t" using ok(2) by (simp add: memory_ok_def pools_ok_def tabs)
  moreover have "world_ok {} t"
  proof (rule world_okI)
    fix l a m assume "holds_asi {} t l a m"
    then obtain i F where i: "asi_tab s a = Some i" "subgoals s (asi_subgoal i) = Some F" "l \<in> set (ans_leaves F)"
      using world_ex [OF ok(3), of l a m] h by auto
    then show "\<exists>i F. asi_tab t a = Some i \<and> subgoals t (asi_subgoal i) = Some F \<and> (l \<notin> {} \<longrightarrow> l \<in> set (ans_leaves F))"
      using sg [of "asi_subgoal i"] by (auto simp: tabs)
  next
    show "k = l" if "holds_asi {} t l a m" "holds_asi {} t k a m'" for l k a m m' using world_one [OF ok(3)] that h by blast
  next
    show "\<not> in_simplify_neg_fails t \<Longrightarrow> neg_fails_stack t = []" using quiet_stack [OF q] by (simp add: tabs)
  qed (use quiet_stack [OF q] in \<open>simp_all add: tabs\<close>)
  ultimately show ?thesis using ok(1,4) by (simp add: quiet_def delays_ok_def tabs)
qed

section \<open>What the entry points do\<close>

theorem force_answer_true_ok:
  assumes ok: "delays_ok D s" and L: "leaves s l = Some L" "tn_valid L" "is_conditional_answer L" and fuel: "work s + 2 \<le> f"
  shows "\<exists>a S. Delay L = Some a \<and> owner s a = Some S \<and> (force_answer_true f l s = Some (Inl too_many_simplifications) \<or>
    (\<exists>s'. force_answer_true f l s = Some (Inr s') \<and> delays_ok D s' \<and> in_simplify_neg_fails s' = in_simplify_neg_fails s \<and>
      (\<forall>v w. models {l} D v w s \<longrightarrow> v l \<longrightarrow> models {} D v w s' \<and> sound v s s') \<and> bl_of D s' (Neg S) = [] \<and> bl_of D s' (Pos l) = []))"
proof -
  obtain a where a: "tn_child L = Asi_Child a False" using L(3) by (auto simp: is_conditional_answer_def split: leaf_child.splits)
  have w: "world_ok D s" using ok by (simp add: delays_ok_def)
  have h: "holds_asi D s l a False" using L a by (simp add: holds_asi_def)
  obtain i F where i: "asi_tab s a = Some i" "subgoals s (asi_subgoal i) = Some F" using world_ex [OF w h] by blast
  let ?S = "asi_subgoal i"
  have D: "Delay L = Some a" and o: "owner s a = Some ?S" using a i(1) by (simp_all add: Delay_def owner_def)
  have d: "force_answer_true f l s = then_do (simplify f (Pos_Unconditional l) s) (simplify f (Neg_Succeeds ?S))"
    using L D i(1) by (simp add: force_answer_true_def)
  have pre1: "call_pre D (Pos_Unconditional l) s" using L a by simp
  have need1: "work s + call_need (Pos_Unconditional l) \<le> f" using fuel by simp
  from simplify_calls ok pre1 need1 have "force_answer_true f l s = Some (Inl too_many_simplifications) \<or>
    (\<exists>s'. force_answer_true f l s = Some (Inr s') \<and> delays_ok D s' \<and> in_simplify_neg_fails s' = in_simplify_neg_fails s \<and>
      (\<forall>v w. models {l} D v w s \<longrightarrow> v l \<longrightarrow> models {} D v w s' \<and> sound v s s') \<and> bl_of D s' (Neg ?S) = [] \<and> bl_of D s' (Pos l) = [])"
  proof (cases rule: call_okD)
    case 1
    then show ?thesis using d by simp
  next
    case (2 s1)
    have e1: "call_ends D {l} (\<lambda>v w. v l) s s1" using 2(2) by simp
    have pre2: "call_pre D (Neg_Succeeds ?S) s1" using steadyD(3) [OF endsD(2) [OF e1]] i(2) by auto
    have need2: "work s1 + call_need (Neg_Succeeds ?S) \<le> f" using 2(3) fuel by simp
    from simplify_calls endsD(1) [OF e1] pre2 need2 show ?thesis
    proof (cases rule: call_okD)
      case 1
      then show ?thesis using d 2(1) by simp
    next
      case s2: (2 s2)
      have e2: "call_ends D {} (\<lambda>v w. w ?S) s1 s2" using s2(2) by simp
      have e: "call_ends D {l} (\<lambda>v w. v l) s s2"
      proof (rule ends_trans [OF e1 e2])
        show "w ?S" if "models {l} D v w s" "v l" for v w using modelsD(2) [OF that(1) L(1,2) a o that(2)] .
      qed
      have "models {} D v w s2 \<and> sound v s s2" if "models {l} D v w s" "v l" for v w using endsD(4,5) [OF e] that by blast
      moreover have "bl_of D s2 (Neg ?S) = []" using s2(4) by simp
      moreover have "leaves s1 l = Some (L\<lparr>tn_child := No_Child\<rparr>)" using 2(4) L(1) by simp
      then have "bl_of D s1 (Pos l) = []" by simp
      then have "bl_of D s2 (Pos l) = []" using endsD(3) [OF e2] unfolding fewer_links_def by (metis empty_set set_empty subset_empty)
      ultimately show ?thesis using d 2(1) s2(1) endsD(1) [OF e] steadyD(5) [OF endsD(2) [OF e]]
        by (intro disjI2 exI [of _ s2]) (simp del: bl_of.simps)
    qed
  qed
  then show ?thesis using D o by blast
qed

theorem complete_subgoal_ok:
  assumes ok: "delays_ok D s" and S: "subgoals s S = Some F" and fuel: "work s + 3 \<le> f"
  shows "complete_subgoal f S s = Some (Inl too_many_simplifications) \<or>
    (\<exists>s'. complete_subgoal f S s = Some (Inr s') \<and> delays_ok D s' \<and> in_simplify_neg_fails s' = in_simplify_neg_fails s \<and>
      (\<forall>v w. models {} D v w s \<longrightarrow> (w S \<longrightarrow> (\<exists>l \<in> set (ans_leaves F). v l)) \<longrightarrow> models {} D v w s' \<and> sound v s s') \<and>
      (subgoal_fails F \<longrightarrow> \<not> in_simplify_neg_fails s \<longrightarrow> bl_of D s' (Neg S) = []))"
proof -
  let ?A = "\<lambda>v w. w S \<longrightarrow> (\<exists>l \<in> set (ans_leaves F). v l)"
  let ?g = "\<lambda>F. F\<lparr>sf_completed := True\<rparr>"
  let ?s = "s\<lparr>subgoals := (subgoals s)(S \<mapsto> ?g F)\<rparr>"
  have u: "call_ends D {} ?A s ?s" "work ?s = work s" "neg_fails_stack ?s = neg_fails_stack s"
    by (rule upd_ends [where g = ?g and S = S and F = F]; use ok S in simp)+
  have ok1: "delays_ok D ?s" by (rule endsD(1) [OF u(1)])
  have d: "complete_subgoal f S s = (if neg_simplif_possible F then simplify f (Neg_Fails S) ?s else Some (Inr ?s))"
    using S by (simp add: complete_subgoal_def upd_subgoal_def neg_simplif_possible_def subgoal_fails_def has_answer_code_def)
  show ?thesis
  proof (cases "neg_simplif_possible F")
    case False
    then have "subgoal_fails F \<longrightarrow> bl_of D ?s (Neg S) = []" by (simp add: neg_simplif_possible_def)
    then show ?thesis using d False ok1 endsD(4,5) [OF u(1)] by (intro disjI2 exI [of _ ?s]) (simp del: bl_of.simps)
  next
    case True
    have pre: "call_pre D (Neg_Fails S) ?s" by simp
    have need: "work ?s + call_need (Neg_Fails S) \<le> f" using fuel u(2) by simp
    from simplify_calls ok1 pre need show ?thesis
    proof (cases rule: call_okD)
      case 1
      then show ?thesis using d True by simp
    next
      case (2 s2)
      have e: "call_ends D {} (\<lambda>v w. \<not> w S) ?s s2" using 2(2) by simp
      have "ans_leaves F = []" using True by (simp add: neg_simplif_possible_def subgoal_fails_def has_answer_code_def)
      then have "models {} D v w s2 \<and> sound v s s2" if "models {} D v w s" "?A v w" for v w
        using endsD(4,5) [OF u(1) that] that(2) endsD(4,5) [OF e] sound_trans by auto
      moreover have "\<not> in_simplify_neg_fails s \<longrightarrow> bl_of D s2 (Neg S) = []" using 2(4) by simp
      moreover have "in_simplify_neg_fails s2 = in_simplify_neg_fails s" using steadyD(5) [OF endsD(2) [OF e]] by simp
      ultimately show ?thesis using d True 2(1) endsD(1) [OF e] by (intro disjI2 exI [of _ s2]) (simp del: bl_of.simps)
    qed
  qed
qed

lemma complete_subgoal_more: "f \<le> g \<Longrightarrow> outcome_le (complete_subgoal f S s) (complete_subgoal g S s)"
  unfolding complete_subgoal_def by (intro outcome_le_intros outcome_le_refl simplify_more)

lemma outcome_le_Some: "outcome_le m n \<Longrightarrow> m = Some r \<Longrightarrow> n = Some r"
  by (simp add: outcome_le_def)

lemma quiet_return:
  assumes q: "quiet s" and r: "answer_ready ds l S sf s" and d: "do_delay_stuff f ds l S sf s = Some (Inr s')"
  shows "quiet s'" "answer_value {} v w ds l S sf s \<Longrightarrow> models {} {} v w s' \<and> sound v s s'"
    "(\<exists>L. leaves s' l = Some L \<and> is_conditional_answer L) \<or> bl_of {} s' (Neg S) = []"
proof -
  let ?g = "max f (work s + 10 * length ds + 2)"
  have g: "do_delay_stuff ?g ds l S sf s = Some (Inr s')" by (rule outcome_le_Some [OF do_delay_stuff_more d]) simp
  have ok: "delays_ok {} s" using q by (simp add: quiet_def)
  have fu: "work s + 10 * length ds + 2 \<le> ?g" by simp
  have a: "delays_ok {} s' \<and> in_simplify_neg_fails s' = in_simplify_neg_fails s \<and>
      (\<forall>v w. answer_value {} v w ds l S sf s \<longrightarrow> models {} {} v w s' \<and> sound v s s') \<and>
      ((\<exists>L. leaves s' l = Some L \<and> is_conditional_answer L) \<or> bl_of {} s' (Neg S) = [])"
    using do_delay_stuff_ok [OF ok r fu] unfolding g by blast
  then show "quiet s'" using q by (simp add: quiet_def)
  show "answer_value {} v w ds l S sf s \<Longrightarrow> models {} {} v w s' \<and> sound v s s'"
    "(\<exists>L. leaves s' l = Some L \<and> is_conditional_answer L) \<or> bl_of {} s' (Neg S) = []" using a by blast+
qed

lemma quiet_force:
  assumes q: "quiet s" and L: "leaves s l = Some L" "tn_valid L" and d: "force_answer_true f l s = Some (Inr s')"
  shows "quiet s'"
proof (cases "is_conditional_answer L")
  case True
  let ?g = "max f (work s + 2)"
  have g: "force_answer_true ?g l s = Some (Inr s')" by (rule outcome_le_Some [OF force_answer_true_more d]) simp
  have ok: "delays_ok {} s" using q by (simp add: quiet_def)
  have fu: "work s + 2 \<le> ?g" by simp
  have "delays_ok {} s' \<and> in_simplify_neg_fails s' = in_simplify_neg_fails s"
    using force_answer_true_ok [OF ok L True fu] unfolding g by blast
  then show ?thesis using q by (simp add: quiet_def)
next
  case False
  then show ?thesis using d L q by (simp add: force_answer_true_def)
qed

lemma quiet_complete:
  assumes q: "quiet s" and d: "complete_subgoal f S s = Some (Inr s')"
  shows "quiet s'"
proof -
  obtain F where F: "subgoals s S = Some F"
    using d by (auto simp: complete_subgoal_def upd_subgoal_def look_def then_do_def split: option.splits)
  let ?g = "max f (work s + 3)"
  have g: "complete_subgoal ?g S s = Some (Inr s')" by (rule outcome_le_Some [OF complete_subgoal_more d]) simp
  have ok: "delays_ok {} s" using q by (simp add: quiet_def)
  have fu: "work s + 3 \<le> ?g" by simp
  have "delays_ok {} s' \<and> in_simplify_neg_fails s' = in_simplify_neg_fails s"
    using complete_subgoal_ok [OF ok F fu] unfolding g by blast
  then show ?thesis using q by (simp add: quiet_def)
qed

lemma quiet_step:
  assumes q: "quiet s" and st: "delay_step s s'"
  shows "quiet s'"
  using st
proof cases
  case (Subgoal S)
  show ?thesis by (rule quiet_grow [OF q]) (use Subgoal in \<open>auto split: option.split\<close>)
next
  case (Answer l S F esc)
  show ?thesis
    by (rule quiet_grow [OF q]) (use Answer in \<open>auto simp: enter_answer_def new_answer_leaf_def split: option.split\<close>)
next
  case (Complete f S)
  then show ?thesis using quiet_complete [OF q] by blast
next
  case (Return ds l S sf f)
  then show ?thesis using quiet_return(1) [OF q] by blast
next
  case (Force l L f)
  then show ?thesis using quiet_force [OF q] by blast
next
  case Abolish
  then show ?thesis using quiet_abolish [OF q] by simp
qed

theorem reachable_quiet: "delay_reachable s \<Longrightarrow> quiet s"
  by (induction rule: delay_reachable.induct) (use quiet_start quiet_step in blast)+

section \<open>The value of an answer\<close>

text \<open>
  A valuation that gives an answer that is returned its value: a model of the delay lists of the other answers, in which the unconditional answers of the
  new list are true, and the answer is true exactly if it is unconditional already, or one of its old lists or the new one holds.
\<close>

definition returned_value :: "(nat \<Rightarrow> bool) \<Rightarrow> (nat \<Rightarrow> bool) \<Rightarrow> delay_term list \<Rightarrow> nat \<Rightarrow> nat \<Rightarrow> bool \<Rightarrow> delay_state \<Rightarrow> bool" where
  "returned_value v w ds l S sf s \<longleftrightarrow> models {l} {} v w s \<and> (v l \<longrightarrow> w S) \<and>
     (\<forall>d \<in> set ds. \<forall>k K. dt_answer d = Some k \<longrightarrow> leaves s k = Some K \<longrightarrow> is_unconditional_answer K \<longrightarrow> v k) \<and>
     v l = ((\<exists>L. leaves s l = Some L \<and> sf \<and> \<not> is_conditional_answer L) \<or> (\<exists>d \<in> set (dls_of s l). list_true v w s d) \<or>
       (\<forall>d \<in> set ds. literal_true v w (term_target d)))"

lemma simplifiable_true:
  assumes m: "models X {} v w s" and d: "simplifiable s d"
    and k: "\<And>k K. dt_answer d = Some k \<Longrightarrow> leaves s k = Some K \<Longrightarrow> is_unconditional_answer K \<Longrightarrow> v k"
  shows "literal_true v w (term_target d)"
proof (cases "dt_answer d")
  case None
  then obtain F where "subgoals s (dt_subgoal d) = Some F" "sf_completed F" "ans_leaves F = []"
    using d by (auto simp: simplifiable_def was_simplifiable_def look_def subgoal_fails_def has_answer_code_def split: option.splits)
  then have "sg_ans s (dt_subgoal d) = Some (True, [])" by (simp add: sg_ans_def)
  then have "\<not> w (dt_subgoal d)" using modelsD(3) [OF m] by fastforce
  then show ?thesis using None by (simp add: term_target_def)
next
  case (Some k)
  then show ?thesis using d assms(3) by (auto simp: simplifiable_def was_simplifiable_def look_def term_target_def split: option.splits)
qed

lemma returned_value_known:
  assumes "returned_value v w ds l S sf s"
  shows "answer_value {} v w ds l S sf s"
proof -
  have m: "models {l} {} v w s" using assms by (simp add: returned_value_def)
  have "literal_true v w (term_target d)" if d: "d \<in> set ds" "simplifiable s d" for d
  proof (rule simplifiable_true [OF m d(2)])
    show "v k" if "dt_answer d = Some k" "leaves s k = Some K" "is_unconditional_answer K" for k K
      using assms d(1) that unfolding returned_value_def by (elim conjE) metis
  qed
  then show ?thesis using assms by (simp add: returned_value_def answer_value_def)
qed

end
