(* ===== verification/Delay_Properties.thy ===== *)
theory Delay_Properties imports Delay_Reachability begin

text \<open>
  The properties of the delay lists, of simplification and of the two allocators, with an example: two subgoals each of which has an answer
  that is true if the other subgoal fails.
\<close>

section \<open>An example\<close>

text \<open>The evaluation of the functions on a concrete state; what a binding does is looked at when its argument is a value.\<close>

lemma then_do_weak: "m = m' \<Longrightarrow> then_do m f = then_do m' f"
  by simp

lemma res_bind_weak: "m = m' \<Longrightarrow> res_bind m f = res_bind m' f"
  by simp

lemmas interning_defs = do_delay_stuff_def intern_conditional_def intern_delay_list_def intern_delay_element_def was_simplifiable_def
  mark_conditional_answer_def create_asi_info_def record_de_usage_def push_nde_def push_pde_def

lemmas memory_defs = new_de_def new_dl_def new_pnde_def new_asi_def new_entry_def empty_pool_def SM_AllocateStruct_def SM_AllocateFromBlock_def
  smAllocateBlock_def SM_NewBlockSize_def SM_InitDecl_def SM_CurBlockIsDepleted_def pointer_size_def ASIs_PER_BLOCK_def

lemmas answer_defs = subgoal_fails_def has_answer_code_def upd_subgoal_def is_conditional_answer_def is_unconditional_answer_def Delay_def
  look_def nonnull_def

definition negates :: "nat \<Rightarrow> delay_term list" where
  "negates S = delay_negatively S []"

definition after :: "delay_state outcome \<Rightarrow> delay_state" where
  "after m = (case m of Some (Inr s) \<Rightarrow> s | _ \<Rightarrow> no_delays 1 1)"

definition pair_called :: delay_state where
  "pair_called = (no_delays 32 1)\<lparr>subgoals := [1 \<mapsto> new_subgoal, 2 \<mapsto> new_subgoal]\<rparr>"

definition pair_first :: delay_state where
  "pair_first = enter_answer 10 1 True new_subgoal pair_called"

definition pair_delayed :: delay_state where
  "pair_delayed = after (do_delay_stuff 12 (negates 2) 10 1 False pair_first)"

definition pair_second :: delay_state where
  "pair_second = enter_answer 20 2 True (the (subgoals pair_delayed 2)) pair_delayed"

definition pair_both :: delay_state where
  "pair_both = after (do_delay_stuff 22 (negates 1) 20 2 False pair_second)"

definition pair_forced :: delay_state where
  "pair_forced = after (force_answer_true 22 10 pair_both)"

lemmas pair_defs = pair_first_def pair_called_def no_delays_def new_subgoal_def enter_answer_def new_answer_leaf_def negates_def delay_negatively_def
  SMBlk_FirstStruct_def SMBlk_NextStruct_def SMBlk_LastStruct_def


lemma pair_delayed_eq: "pair_delayed =
   \<lparr>de_tab = [1 \<mapsto> \<lparr>de_subgoal = 2, de_ans_subst = None, de_pnde = Some 12297, de_subs_fact = None\<rparr>],
    dl_tab = [2049 \<mapsto> \<lparr>dl_de_list = [1], dl_asl = Some 10\<rparr>], pnde_tab = [12297 \<mapsto> \<lparr>pnde_dl = Some 2049, pnde_de = 1\<rparr>],
    asi_tab = [4105 \<mapsto> \<lparr>asi_pdes = [], asi_subgoal = 1, asi_dl_list = [2049], asi_scratchpad = 0\<rparr>],
    leaves = [10 \<mapsto> \<lparr>tn_child = Asi_Child 4105 False, tn_valid = True, tn_escape = True\<rparr>],
    subgoals = [1 \<mapsto> new_subgoal\<lparr>ans_leaves := [10]\<rparr>, 2 \<mapsto> new_subgoal\<lparr>subg_nde_list := [12297]\<rparr>], delay_tries = Map.empty,
    de_pool = \<lparr>released = [], next_free = 2, block_top = 2049, entry_blocks = [1]\<rparr>,
    dl_pool = \<lparr>released = [], next_free = 2050, block_top = 4097, entry_blocks = [2049]\<rparr>,
    pnde_pool = \<lparr>released = [], next_free = 12298, block_top = 14345, entry_blocks = [12297]\<rparr>,
    smASI = \<lparr>SM_CurBlock = [4097], SM_NextStruct = 4137, SM_LastStruct = 12265, SM_StructSize = 32, SM_StructsPerBlock = 256, SM_FreeList = []\<rparr>,
    sys_break = 14345, simplification_depth = 0, neg_fails_stack = [], in_simplify_neg_fails = False\<rparr>"
  unfolding pair_delayed_def after_def by (simp add: pair_defs interning_defs memory_defs answer_defs cong: then_do_weak res_bind_weak)


lemma pair_both_eq: "pair_both =
   \<lparr>de_tab = [1 \<mapsto> \<lparr>de_subgoal = 2, de_ans_subst = None, de_pnde = Some 12297, de_subs_fact = None\<rparr>,
      2 \<mapsto> \<lparr>de_subgoal = 1, de_ans_subst = None, de_pnde = Some 12298, de_subs_fact = None\<rparr>],
    dl_tab = [2049 \<mapsto> \<lparr>dl_de_list = [1], dl_asl = Some 10\<rparr>, 2050 \<mapsto> \<lparr>dl_de_list = [2], dl_asl = Some 20\<rparr>],
    pnde_tab = [12297 \<mapsto> \<lparr>pnde_dl = Some 2049, pnde_de = 1\<rparr>, 12298 \<mapsto> \<lparr>pnde_dl = Some 2050, pnde_de = 2\<rparr>],
    asi_tab = [4105 \<mapsto> \<lparr>asi_pdes = [], asi_subgoal = 1, asi_dl_list = [2049], asi_scratchpad = 0\<rparr>,
      4137 \<mapsto> \<lparr>asi_pdes = [], asi_subgoal = 2, asi_dl_list = [2050], asi_scratchpad = 0\<rparr>],
    leaves = [10 \<mapsto> \<lparr>tn_child = Asi_Child 4105 False, tn_valid = True, tn_escape = True\<rparr>,
      20 \<mapsto> \<lparr>tn_child = Asi_Child 4137 False, tn_valid = True, tn_escape = True\<rparr>],
    subgoals = [2 \<mapsto> new_subgoal\<lparr>subg_nde_list := [12297], ans_leaves := [20]\<rparr>, 1 \<mapsto> new_subgoal\<lparr>subg_nde_list := [12298], ans_leaves := [10]\<rparr>],
    delay_tries = Map.empty,
    de_pool = \<lparr>released = [], next_free = 3, block_top = 2049, entry_blocks = [1]\<rparr>,
    dl_pool = \<lparr>released = [], next_free = 2051, block_top = 4097, entry_blocks = [2049]\<rparr>,
    pnde_pool = \<lparr>released = [], next_free = 12299, block_top = 14345, entry_blocks = [12297]\<rparr>,
    smASI = \<lparr>SM_CurBlock = [4097], SM_NextStruct = 4169, SM_LastStruct = 12265, SM_StructSize = 32, SM_StructsPerBlock = 256, SM_FreeList = []\<rparr>,
    sys_break = 28689, simplification_depth = 0, neg_fails_stack = [], in_simplify_neg_fails = False\<rparr>"
  unfolding pair_both_def after_def pair_second_def pair_delayed_eq
  by (simp add: pair_defs interning_defs memory_defs answer_defs cong: then_do_weak res_bind_weak)

lemma simplify_numeral: "simplify (numeral k) = run_call (simplify (pred_numeral k))"
  by (simp add: numeral_eq_Suc)

lemmas simplification_defs = simplify_numeral force_answer_true_def
    simplify_pos_unconditional_def pos_unconditional_loop_def handle_empty_dl_creation_def
    simplify_neg_fails_def neg_fails_stack_loop_def neg_fails_loop_def simplify_neg_succeeds_def neg_succeeds_loop_def
    handle_unsupported_answer_subst_def simplify_pos_unsupported_def pos_unsupported_loop_def
    enter_simplification_def leave_simplification_def begin_pos_unconditional_def set_child_null_def now_unconditional_def end_pos_unconditional_def
    early_completion_def push_neg_simpl_def no_answers_now_def resolve_nde_def resolve_pde_def discard_list_def
    unmark_conditional_answer_def answer_complete_subg_def delete_answer_def release_all_dls_def remove_nde_def remove_pde_def
    remove_de_from_dl_def remove_dl_from_dl_list_def release_shared_de_entry_def delete_delay_trie_def remove_usage_def
    release_dl_def release_pnde_def release_entry_def free_asi_def SM_DeallocateStruct_def SM_DeallocateStructList_def most_general_answer_def


lemma pair_forced_facts: "leaves pair_forced 10 = Some \<lparr>tn_child = No_Child, tn_valid = True, tn_escape = True\<rparr>"
  "map_option tn_valid (leaves pair_forced 20) = Some False" "de_tab pair_forced = Map.empty" "dl_tab pair_forced = Map.empty"
  unfolding pair_forced_def after_def pair_both_eq
  by (simp_all add: simplification_defs pair_defs answer_defs cong: then_do_weak res_bind_weak)







section \<open>Helpers\<close>



text \<open>
  A failure that is found while another one is simplified goes on the stack, and the depth that was counted for the call is not given back: after
  a hundred such calls in one simplification the program stops with the error for simplifications that are nested too deep.
\<close>

lemma nested_failure_counts:
  assumes "in_simplify_neg_fails s" "simplification_depth s \<le> 100"
  shows "\<exists>s'. simplify_neg_fails run S s = Some (Inr s') \<and> neg_fails_stack s' = S # neg_fails_stack s \<and>
    simplification_depth s' = simplification_depth s + 1"
  using assms by (simp add: simplify_neg_fails_def enter_simplification_def push_neg_simpl_def)

section \<open>Answers and their truth\<close>







end
